(* ===== verification/Prelude.thy ===== *)
theory Prelude
  imports Main "HOL-Library.Word" "HOL-Library.Monad_Syntax"
    "HOL-Library.Char_ord"
begin

text \<open>
  Shared vocabulary of the development: the error codes of \<open>src/util/error.h\<close>, C strings as
  character lists, the generic contract of an append-only growable buffer (a locale that
  \<open>Str\<close>, \<open>Vec\<close> and the history reader's line buffer all meet), and the small lemmas on
  lists and options that several components use.
\<close>

section \<open>Collections of facts\<close>

named_theorems nsh_inv \<open>preservation of component invariants\<close>
named_theorems nsh_abs \<open>how an operation acts on a component's abstract value\<close>

section \<open>Types\<close>

type_synonym u8 = "8 word"
type_synonym u16 = "16 word"
type_synonym u32 = "32 word"
type_synonym u64 = "64 word"

abbreviation NUL :: char where "NUL \<equiv> CHR 0x00"
abbreviation NEWLINE :: char where "NEWLINE \<equiv> CHR 0x0A"
abbreviation TAB :: char where "TAB \<equiv> CHR 0x09"
abbreviation ESC :: char where "ESC \<equiv> CHR 0x1B"

text \<open>The bytes a C string function sees in a buffer: everything before the first NUL.\<close>

definition cstr :: "string \<Rightarrow> string" where
  "cstr s = takeWhile (\<lambda>c. c \<noteq> NUL) s"

definition nul_free :: "string \<Rightarrow> bool" where
  "nul_free s \<longleftrightarrow> NUL \<notin> set s"

lemma cstr_nul_free [simp]: "nul_free (cstr s)"
  by (auto simp: nul_free_def cstr_def dest: set_takeWhileD)

lemma cstr_id: "nul_free s \<Longrightarrow> cstr s = s"
  by (auto simp: nul_free_def cstr_def takeWhile_eq_all_conv)

lemma nul_free_append [simp]: "nul_free (s @ t) \<longleftrightarrow> nul_free s \<and> nul_free t"
  by (auto simp: nul_free_def)

lemma nul_free_Nil [simp]: "nul_free []"
  by (simp add: nul_free_def)

lemma nul_free_Cons [simp]: "nul_free (c # s) \<longleftrightarrow> c \<noteq> NUL \<and> nul_free s"
  by (auto simp: nul_free_def)

section \<open>The error codes\<close>

datatype NshError =
    NSH_OK
  | NSH_ERR_ALLOC
  | NSH_ERR_SYNTAX
  | NSH_ERR_INCOMPLETE
  | NSH_ERR_IO
  | NSH_ERR_NOT_FOUND
  | NSH_ERR_INVALID
  | NSH_EOF
  | NSH_INTERRUPT

fun nsh_error_str :: "NshError \<Rightarrow> string" where
  "nsh_error_str NSH_OK = ''ok''"
| "nsh_error_str NSH_ERR_ALLOC = ''out of memory''"
| "nsh_error_str NSH_ERR_SYNTAX = ''syntax error''"
| "nsh_error_str NSH_ERR_INCOMPLETE = ''unexpected end of input''"
| "nsh_error_str NSH_ERR_IO = ''i/o error''"
| "nsh_error_str NSH_ERR_NOT_FOUND = ''not found''"
| "nsh_error_str NSH_ERR_INVALID = ''invalid argument''"
| "nsh_error_str NSH_EOF = ''end of input''"
| "nsh_error_str NSH_INTERRUPT = ''interrupted''"

section \<open>The contract of a growable buffer\<close>

text \<open>
  A client appends elements one at a time; \<open>None\<close> is a call that does not return normally.
  \<open>push_seq\<close> is the loop every client runs.
\<close>

fun push_seq :: "('s \<Rightarrow> 'a \<Rightarrow> 's option) \<Rightarrow> 's \<Rightarrow> 'a list \<Rightarrow> 's option" where
  "push_seq push s [] = Some s"
| "push_seq push s (x # xs) = push s x \<bind> (\<lambda>s'. push_seq push s' xs)"

locale growable =
  fixes init :: 's
    and push :: "'s \<Rightarrow> 'a \<Rightarrow> 's option"
    and elems :: "'s \<Rightarrow> 'a list"
    and inv :: "'s \<Rightarrow> bool"
  assumes inv_init: "inv init"
    and elems_init: "elems init = []"
    and push_ok: "inv s \<Longrightarrow> \<exists>s'. push s x = Some s' \<and> inv s' \<and> elems s' = elems s @ [x]"
begin

lemma push_seq_ok:
  "inv s \<Longrightarrow> \<exists>s'. push_seq push s xs = Some s' \<and> inv s' \<and> elems s' = elems s @ xs"
proof (induction xs arbitrary: s)
  case Nil
  then show ?case by simp
next
  case (Cons x xs)
  from push_ok [OF Cons.prems, of x] obtain s' where
    s': "push s x = Some s'" "inv s'" "elems s' = elems s @ [x]" by blast
  from Cons.IH [OF s'(2)] s' show ?case by auto
qed

lemma push_seq_init: "\<exists>s'. push_seq push init xs = Some s' \<and> inv s' \<and> elems s' = xs"
  using push_seq_ok [OF inv_init, of xs] by (simp add: elems_init)

lemma pushD:
  "inv s \<Longrightarrow> push s x = Some s' \<Longrightarrow> inv s' \<and> elems s' = elems s @ [x]"
  using push_ok [of s x] by auto

end

section \<open>Lists\<close>

lemma take_list_update_last [simp]:
  "n < length xs \<Longrightarrow> take (Suc n) (xs[n := x]) = take n xs @ [x]"
  by (simp add: take_Suc_conv_app_nth)

lemma push_seq_append:
  "push_seq push s (xs @ ys) = push_seq push s xs \<bind> (\<lambda>s'. push_seq push s' ys)"
  by (induction xs arbitrary: s) (auto split: Option.bind_splits)


section \<open>Decimal and hexadecimal conversion, as \<open>printf\<close> does it\<close>

definition digit_char :: "nat \<Rightarrow> char" where
  "digit_char d = (if d < 10 then char_of (48 + d) else char_of (87 + d))"

fun digits_base :: "nat \<Rightarrow> nat \<Rightarrow> string" where
  "digits_base b n =
     (if b < 2 \<or> n < b then [digit_char n] else digits_base b (n div b) @ [digit_char (n mod b)])"

declare digits_base.simps [simp del]

definition dec_nat :: "nat \<Rightarrow> string" where "dec_nat n = digits_base 10 n"
definition hex_nat :: "nat \<Rightarrow> string" where "hex_nat n = digits_base 16 n"

definition dec_int :: "int \<Rightarrow> string" where
  "dec_int i = (if i < 0 then CHR ''-'' # dec_nat (nat (- i)) else dec_nat (nat i))"

text \<open>\<open>%0Nx\<close> and \<open>%Nd\<close>: padding on the left; \<open>%-Ns\<close>: padding on the right.\<close>

definition pad_left :: "char \<Rightarrow> nat \<Rightarrow> string \<Rightarrow> string" where
  "pad_left c w s = replicate (w - length s) c @ s"

definition pad_right :: "nat \<Rightarrow> string \<Rightarrow> string" where
  "pad_right w s = s @ replicate (w - length s) (CHR '' '')"

text \<open>Reading a decimal number back, for round trips.\<close>

definition digit_val :: "char \<Rightarrow> nat" where "digit_val c = of_char c - 48"

definition undec :: "string \<Rightarrow> nat" where "undec s = foldl (\<lambda>n c. 10 * n + digit_val c) 0 s"

lemma digit_val_char [simp]: "d < 10 \<Longrightarrow> digit_val (digit_char d) = d"
  by (simp add: digit_val_def digit_char_def)

lemma undec_dec_nat: "undec (dec_nat n) = n"
  unfolding dec_nat_def
proof (induction "10::nat" n rule: digits_base.induct)
  case (1 n)
  then show ?case
    by (cases "n < 10") (simp_all add: digits_base.simps [of 10 n] undec_def)
qed

lemma dec_nat_inj: "dec_nat m = dec_nat n \<Longrightarrow> m = n"
  by (metis undec_dec_nat)

lemma dec_nat_nonempty [simp]: "dec_nat n \<noteq> []"
  unfolding dec_nat_def by (subst digits_base.simps) simp

definition is_digit :: "char \<Rightarrow> bool" where
  "is_digit c \<longleftrightarrow> CHR ''0'' \<le> c \<and> c \<le> CHR ''9''"

section \<open>Checked array access\<close>

definition rd :: "'a list \<Rightarrow> nat \<Rightarrow> 'a option" where
  "rd xs k = (if k < length xs then Some (xs ! k) else None)"

definition wr :: "'a list \<Rightarrow> nat \<Rightarrow> 'a \<Rightarrow> 'a list option" where
  "wr xs k x = (if k < length xs then Some (xs[k := x]) else None)"

text \<open>\<open>memcpy\<close> into, and out of, an array at an offset.\<close>

definition blit :: "'a list \<Rightarrow> nat \<Rightarrow> 'a list \<Rightarrow> 'a list option" where
  "blit dst off src =
     (if off + length src \<le> length dst
      then Some (take off dst @ src @ drop (off + length src) dst) else None)"

definition slice :: "'a list \<Rightarrow> nat \<Rightarrow> nat \<Rightarrow> 'a list option" where
  "slice xs off n = (if off + n \<le> length xs then Some (take n (drop off xs)) else None)"

lemma rd_Some: "k < length xs \<Longrightarrow> rd xs k = Some (xs ! k)" by (simp add: rd_def)
lemma wr_Some: "k < length xs \<Longrightarrow> wr xs k x = Some (xs[k := x])" by (simp add: wr_def)

lemma blit_Some:
  "off + length src \<le> length dst \<Longrightarrow>
   blit dst off src = Some (take off dst @ src @ drop (off + length src) dst)"
  by (simp add: blit_def)

lemma slice_Some: "off + n \<le> length xs \<Longrightarrow> slice xs off n = Some (take n (drop off xs))"
  by (simp add: slice_def)

lemma length_blit [simp]:
  "off + length src \<le> length dst \<Longrightarrow> length (take off dst @ src @ drop (off + length src) dst) = length dst"
  by simp

section \<open>\<open>strtol\<close> in base 10\<close>

text \<open>
  The C library function: leading white space, an optional sign, then digits, clamped to the
  range of \<open>long\<close>. The result is the value, the rest of the string (the whole string when there
  is no digit) and whether \<open>errno\<close> was set.
\<close>

definition is_space :: "char \<Rightarrow> bool" where
  "is_space c \<longleftrightarrow> c = CHR '' '' \<or> (CHR 0x09 \<le> c \<and> c \<le> CHR 0x0D)"

definition LONG_MAX :: int where "LONG_MAX = 9223372036854775807"
definition LONG_MIN :: int where "LONG_MIN = - 9223372036854775808"

definition strtol :: "string \<Rightarrow> int \<times> string \<times> bool" where
  "strtol s =
     (let t = dropWhile is_space s;
          neg = (t \<noteq> [] \<and> hd t = CHR ''-'');
          u = (if t \<noteq> [] \<and> (hd t = CHR ''-'' \<or> hd t = CHR ''+'') then List.tl t else t);
          ds = takeWhile is_digit u;
          v = (if neg then - int (undec ds) else int (undec ds))
      in if ds = [] then (0, s, False)
         else if v > LONG_MAX then (LONG_MAX, dropWhile is_digit u, True)
         else if v < LONG_MIN then (LONG_MIN, dropWhile is_digit u, True)
         else (v, dropWhile is_digit u, False))"

lemma is_digit_char [simp]: "d < 10 \<Longrightarrow> is_digit (digit_char d)"
  by (simp add: digit_char_def is_digit_def less_eq_char_def)

lemma dec_nat_digits: "\<forall>c\<in>set (dec_nat n). is_digit c"
  unfolding dec_nat_def
proof (induction "10::nat" n rule: digits_base.induct)
  case (1 n)
  then show ?case by (cases "n < 10") (auto simp: digits_base.simps [of 10 n])
qed

lemma dec_nat_cons:
  obtains ch cs where "dec_nat n = ch # cs" "is_digit ch" "\<not> is_space ch" "ch \<noteq> CHR ''-''" "ch \<noteq> CHR ''+''"
    "takeWhile is_digit cs = cs" "dropWhile is_digit cs = []" "undec (ch # cs) = n"
proof -
  obtain c cs where cs: "dec_nat n = c # cs" "is_digit c" "\<forall>x\<in>set cs. is_digit x"
    using dec_nat_digits [of n] by (cases "dec_nat n") auto
  then have "\<not> is_space c" "c \<noteq> CHR ''-''" "c \<noteq> CHR ''+''"
    by (auto simp: is_space_def is_digit_def less_eq_char_def)
  moreover have "takeWhile is_digit cs = cs" "dropWhile is_digit cs = []"
    using cs(3) by (auto simp: takeWhile_eq_all_conv)
  moreover have "undec (c # cs) = n" using undec_dec_nat [of n] cs(1) by simp
  ultimately show ?thesis using cs(1,2) that by blast
qed

lemma strtol_dec_nat:
  assumes "int n \<le> LONG_MAX"
  shows "strtol (dec_nat n) = (int n, [], False)"
proof -
  obtain ch cs where d: "dec_nat n = ch # cs" "is_digit ch" "\<not> is_space ch" "ch \<noteq> CHR ''-''" "ch \<noteq> CHR ''+''"
    "takeWhile is_digit cs = cs" "dropWhile is_digit cs = []" "undec (ch # cs) = n"
    by (rule dec_nat_cons)
  then show ?thesis using assms by (simp add: strtol_def Let_def LONG_MIN_def d(6,7))
qed

section \<open>Little-endian numbers\<close>

definition le_val :: "u8 list \<Rightarrow> nat" where
  "le_val bs = foldr (\<lambda>b n. unat b + 256 * n) bs 0"

lemma unat_u8: "unat (b::u8) < 256"
  using unsigned_less [of b] by simp

lemma le_val_less: "le_val bs < 256 ^ length bs"
proof (induction bs)
  case Nil
  then show ?case by (simp add: le_val_def)
next
  case (Cons b bs)
  have "unat b + 256 * le_val bs < 256 * (le_val bs + 1)" using unat_u8 [of b] by simp
  also have "\<dots> \<le> 256 * 256 ^ length bs" using Cons by (intro mult_le_mono2) simp
  finally show ?case by (simp add: le_val_def)
qed

end
