(* ===== verification/Util.thy ===== *)
theory Util
  imports Prelude
begin

text \<open>
  \<open>src/util\<close>: the growable byte string \<open>Str\<close>, the growable pointer array \<open>Vec\<close> and the line
  reader. Buffers are modelled at the level of the C structs: the slot array with its
  capacity, including the bytes past the live part. What \<open>nsh_realloc\<close> and \<open>nsh_malloc\<close>
  leave in fresh memory is unspecified, so every operation that allocates takes a parameter
  \<open>junk\<close> that supplies those bytes. A result \<open>None\<close> is a call that never returns normally: a
  NULL buffer dereferenced, a store outside the slot array, or the doubling loop of
  \<open>str_reserve\<close> running on capacity 0.
\<close>

section \<open>Str\<close>

record Str =
  s_data :: "char list option"
  s_len :: nat
  s_cap :: nat

definition STR_INIT_CAP :: nat where "STR_INIT_CAP = 16"

text \<open>Old contents followed by the unspecified bytes of a fresh allocation of \<open>n\<close> slots.\<close>

definition realloc_slots :: "(nat \<Rightarrow> 'a) \<Rightarrow> 'a list \<Rightarrow> nat \<Rightarrow> 'a list" where
  "realloc_slots junk d n = take n d @ map junk [length d..<n]"

lemma length_realloc_slots [simp]: "length (realloc_slots junk d n) = n"
  by (auto simp: realloc_slots_def)

lemma take_realloc_slots [simp]:
  "k \<le> length d \<Longrightarrow> length d \<le> n \<Longrightarrow> take k (realloc_slots junk d n) = take k d"
  by (simp add: realloc_slots_def)

partial_function (option) str_grow_cap :: "nat \<Rightarrow> nat \<Rightarrow> nat option" where
  "str_grow_cap c want = (if c < want then str_grow_cap (c * 2) want else Some c)"

definition str_reserve :: "(nat \<Rightarrow> char) \<Rightarrow> Str \<Rightarrow> nat \<Rightarrow> Str option" where
  "str_reserve junk s want =
     (if want \<le> s_cap s then Some s
      else do {
        c \<leftarrow> str_grow_cap (s_cap s) want;
        Some (s\<lparr>s_data := Some (realloc_slots junk (case s_data s of None \<Rightarrow> [] | Some d \<Rightarrow> d) c),
                s_cap := c\<rparr>)
      })"

definition str_init :: "(nat \<Rightarrow> char) \<Rightarrow> Str" where
  "str_init junk =
     \<lparr>s_data = Some ((map junk [0..<STR_INIT_CAP])[0 := NUL]), s_len = 0, s_cap = STR_INIT_CAP\<rparr>"

definition str_free :: "Str \<Rightarrow> Str" where
  "str_free s = s\<lparr>s_data := None, s_len := 0, s_cap := 0\<rparr>"

definition str_clear :: "Str \<Rightarrow> Str option" where
  "str_clear s = do {
     d \<leftarrow> s_data s;
     d1 \<leftarrow> wr d 0 NUL;
     Some (s\<lparr>s_len := 0, s_data := Some d1\<rparr>)
   }"

definition str_push :: "(nat \<Rightarrow> char) \<Rightarrow> Str \<Rightarrow> char \<Rightarrow> Str option" where
  "str_push junk s c = do {
     s1 \<leftarrow> str_reserve junk s (s_len s + 2);
     d \<leftarrow> s_data s1;
     d1 \<leftarrow> wr d (s_len s1) c;
     d2 \<leftarrow> wr d1 (Suc (s_len s1)) NUL;
     Some (s1\<lparr>s_data := Some d2, s_len := Suc (s_len s1)\<rparr>)
   }"

definition str_append_n :: "(nat \<Rightarrow> char) \<Rightarrow> Str \<Rightarrow> string \<Rightarrow> Str option" where
  "str_append_n junk s p =
     (if length p = 0 then Some s
      else do {
        s1 \<leftarrow> str_reserve junk s (s_len s + length p + 1);
        d \<leftarrow> s_data s1;
        let n = s_len s1 + length p;
        d1 \<leftarrow> blit d (s_len s1) p;
        d2 \<leftarrow> wr d1 n NUL;
        Some (s1\<lparr>s_data := Some d2, s_len := n\<rparr>)
      })"

definition str_append :: "(nat \<Rightarrow> char) \<Rightarrow> Str \<Rightarrow> string \<Rightarrow> Str option" where
  "str_append junk s cs = str_append_n junk s (cstr cs)"

definition str_take :: "(nat \<Rightarrow> char) \<Rightarrow> Str \<Rightarrow> char list option \<times> Str" where
  "str_take junk s = (s_data s, str_init junk)"

text \<open>The invariant the header file promises, and the abstract value: the live bytes.\<close>

definition str_ok :: "Str \<Rightarrow> bool" where
  "str_ok s \<longleftrightarrow> (\<exists>d. s_data s = Some d \<and> length d = s_cap s \<and> s_len s < s_cap s \<and> d ! s_len s = NUL)"

definition str_bytes :: "Str \<Rightarrow> string" where
  "str_bytes s = (case s_data s of None \<Rightarrow> [] | Some d \<Rightarrow> take (s_len s) d)"

lemma str_grow_cap_ok: "0 < c \<Longrightarrow> \<exists>c'. str_grow_cap c want = Some c' \<and> want \<le> c' \<and> c \<le> c'"
proof (induction "want - c" arbitrary: c rule: less_induct)
  case less
  show ?case
  proof (cases "c < want")
    case True
    with less.prems have "want - c * 2 < want - c" and "0 < c * 2" by auto
    from less.hyps [OF this] obtain c' where
      "str_grow_cap (c * 2) want = Some c'" "want \<le> c'" "c * 2 \<le> c'" by blast
    with True show ?thesis by (subst str_grow_cap.simps) auto
  next
    case False
    then show ?thesis by (subst str_grow_cap.simps) auto
  qed
qed

lemma str_reserve_ok:
  assumes "str_ok s"
  shows "\<exists>s'. str_reserve junk s want = Some s' \<and> str_ok s' \<and> str_bytes s' = str_bytes s
           \<and> s_len s' = s_len s \<and> want \<le> s_cap s' \<and> s_cap s \<le> s_cap s'"
proof (cases "want \<le> s_cap s")
  case True
  with assms show ?thesis by (simp add: str_reserve_def)
next
  case False
  from assms obtain d where d: "s_data s = Some d" "length d = s_cap s" "s_len s < s_cap s"
    "d ! s_len s = NUL" by (auto simp: str_ok_def)
  then obtain c where c: "str_grow_cap (s_cap s) want = Some c" "want \<le> c" "s_cap s \<le> c"
    using str_grow_cap_ok [of "s_cap s" want] by auto
  have "realloc_slots junk d c ! s_len s = NUL"
    using d c by (simp add: realloc_slots_def nth_append)
  with False d c show ?thesis
    by (auto simp: str_reserve_def str_ok_def str_bytes_def)
qed

lemma str_push_ok:
  assumes "str_ok s"
  shows "\<exists>s'. str_push junk s c = Some s' \<and> str_ok s' \<and> str_bytes s' = str_bytes s @ [c]"
proof -
  obtain s1 where s1: "str_reserve junk s (s_len s + 2) = Some s1" "str_ok s1"
    "str_bytes s1 = str_bytes s" "s_len s1 = s_len s" "s_len s + 2 \<le> s_cap s1"
    using str_reserve_ok [OF assms, of junk "s_len s + 2"] by auto
  then obtain d where d: "s_data s1 = Some d" "length d = s_cap s1" by (auto simp: str_ok_def)
  with s1 show ?thesis
    by (auto simp: str_push_def str_ok_def str_bytes_def wr_def)
qed

lemma str_append_n_ok:
  assumes "str_ok s"
  shows "\<exists>s'. str_append_n junk s p = Some s' \<and> str_ok s' \<and> str_bytes s' = str_bytes s @ p"
proof (cases "p = []")
  case True
  with assms show ?thesis by (simp add: str_append_n_def)
next
  case False
  obtain s1 where s1: "str_reserve junk s (s_len s + length p + 1) = Some s1" "str_ok s1"
    "str_bytes s1 = str_bytes s" "s_len s1 = s_len s" "s_len s + length p + 1 \<le> s_cap s1"
    using str_reserve_ok [OF assms, of junk "s_len s + length p + 1"] by auto
  then obtain d where d: "s_data s1 = Some d" "length d = s_cap s1" by (auto simp: str_ok_def)
  let ?n = "s_len s"
  let ?e = "take ?n d @ p @ drop (?n + length p) d"
  have l: "length ?e = s_cap s1" and fits: "?n + length p < length d"
    using d s1(5) by auto
  have live: "take ?n d = str_bytes s"
    using s1(3,4) d(1) by (simp add: str_bytes_def)
  have "str_append_n junk s p =
      Some (s1\<lparr>s_data := Some (?e[?n + length p := NUL]), s_len := ?n + length p\<rparr>)"
    using False s1(1,4) d fits l by (simp add: str_append_n_def blit_Some wr_Some Let_def)
  moreover have "take (?n + length p) (?e[?n + length p := NUL]) = str_bytes s @ p"
  proof -
    have "length (take ?n d) = ?n" using fits by simp
    then show ?thesis by (simp add: live [symmetric])
  qed
  ultimately show ?thesis
    using l d(2) fits by (simp add: str_ok_def str_bytes_def)
qed

lemma str_init_ok [simp]: "str_ok (str_init junk)" "str_bytes (str_init junk) = []"
  by (auto simp: str_init_def str_ok_def str_bytes_def STR_INIT_CAP_def)

lemma str_clear_ok: "str_ok s \<Longrightarrow> \<exists>s'. str_clear s = Some s' \<and> str_ok s' \<and> str_bytes s' = []"
  by (auto simp: str_clear_def str_ok_def str_bytes_def wr_def)

interpretation str: growable "str_init junk" "str_push junk" str_bytes str_ok for junk
  by unfold_locales (auto intro: str_push_ok)


lemma str_append_ok:
  "str_ok s \<Longrightarrow> \<exists>s'. str_append junk s p = Some s' \<and> str_ok s' \<and> str_bytes s' = str_bytes s @ cstr p"
  by (simp add: str_append_def str_append_n_ok)

text \<open>
  What a C caller reads out of a \<open>Str\<close>: \<open>s->data\<close> as a NUL terminated string. On a good
  \<open>Str\<close> this is the live bytes up to the first embedded NUL.
\<close>

definition str_as_cstring :: "Str \<Rightarrow> string" where
  "str_as_cstring s = (case s_data s of None \<Rightarrow> [] | Some d \<Rightarrow> cstr d)"

lemma str_as_cstring_ok:
  assumes "str_ok s"
  shows "str_as_cstring s = cstr (str_bytes s)"
proof -
  from assms obtain d where d: "s_data s = Some d" "length d = s_cap s" "s_len s < s_cap s"
    "d ! s_len s = NUL" by (auto simp: str_ok_def)
  then have "d = take (s_len s) d @ NUL # drop (Suc (s_len s)) d"
    by (metis id_take_nth_drop)
  then have "cstr d = cstr (take (s_len s) d @ NUL # drop (Suc (s_len s)) d)" by simp
  also have "\<dots> = cstr (take (s_len s) d)"
    by (simp add: cstr_def takeWhile_tail)
  finally show ?thesis using d by (simp add: str_as_cstring_def str_bytes_def)
qed

section \<open>Vec\<close>

text \<open>Elements are pointers, so a slot holds \<open>None\<close> for NULL.\<close>

record 'a Vec =
  v_items :: "'a option list option"
  v_len :: nat
  v_cap :: nat

definition VEC_INIT_CAP :: nat where "VEC_INIT_CAP = 8"

definition vec_grow :: "(nat \<Rightarrow> 'a option) \<Rightarrow> 'a Vec \<Rightarrow> 'a Vec" where
  "vec_grow junk v =
     (let new_cap = (if v_cap v \<noteq> 0 then v_cap v * 2 else VEC_INIT_CAP)
      in v\<lparr>v_items := Some (realloc_slots junk (case v_items v of None \<Rightarrow> [] | Some d \<Rightarrow> d) new_cap),
           v_cap := new_cap\<rparr>)"

definition vec_init :: "(nat \<Rightarrow> 'a option) \<Rightarrow> 'a Vec" where
  "vec_init junk = \<lparr>v_items = Some (map junk [0..<VEC_INIT_CAP]), v_len = 0, v_cap = VEC_INIT_CAP\<rparr>"

definition vec_free :: "'a Vec \<Rightarrow> 'a Vec" where
  "vec_free v = v\<lparr>v_items := None, v_len := 0, v_cap := 0\<rparr>"

text \<open>
  The second component is the sequence of elements \<open>free_item\<close> was called on; a \<open>False\<close>
  flag stands for a NULL \<open>free_item\<close>.
\<close>

definition vec_free_deep :: "'a Vec \<Rightarrow> bool \<Rightarrow> 'a Vec \<times> 'a list" where
  "vec_free_deep v has_free_item =
     (vec_free v,
      if has_free_item
      then List.map_filter id (take (v_len v) (case v_items v of None \<Rightarrow> [] | Some d \<Rightarrow> d))
      else [])"

definition vec_push :: "(nat \<Rightarrow> 'a option) \<Rightarrow> 'a Vec \<Rightarrow> 'a option \<Rightarrow> 'a Vec option" where
  "vec_push junk v item = do {
     let v1 = (if v_len v = v_cap v then vec_grow junk v else v);
     d \<leftarrow> v_items v1;
     d1 \<leftarrow> wr d (v_len v1) item;
     Some (v1\<lparr>v_items := Some d1, v_len := Suc (v_len v1)\<rparr>)
   }"

definition vec_get :: "'a Vec \<Rightarrow> nat \<Rightarrow> 'a option" where
  "vec_get v i = (if i \<ge> v_len v then None
                  else (case v_items v of None \<Rightarrow> None | Some d \<Rightarrow> d ! i))"

definition vec_pop :: "'a Vec \<Rightarrow> 'a option \<times> 'a Vec" where
  "vec_pop v = (if v_len v = 0 then (None, v)
                else (let v1 = v\<lparr>v_len := v_len v - 1\<rparr>
                      in (case v_items v1 of None \<Rightarrow> None | Some d \<Rightarrow> d ! v_len v1, v1)))"

text \<open>
  A vector is good when it is the zeroed one (after \<open>vec_free\<close>) or its slot array has
  exactly \<open>cap\<close> slots of which \<open>len\<close> are live.
\<close>

definition vec_ok :: "'a Vec \<Rightarrow> bool" where
  "vec_ok v \<longleftrightarrow> (case v_items v of None \<Rightarrow> v_len v = 0 \<and> v_cap v = 0
                 | Some d \<Rightarrow> length d = v_cap v \<and> v_len v \<le> v_cap v)"

definition vec_list :: "'a Vec \<Rightarrow> 'a option list" where
  "vec_list v = (case v_items v of None \<Rightarrow> [] | Some d \<Rightarrow> take (v_len v) d)"

lemma vec_init_ok [simp]: "vec_ok (vec_init junk)" "vec_list (vec_init junk) = []"
  by (auto simp: vec_init_def vec_ok_def vec_list_def)

lemma vec_free_ok [simp]: "vec_ok (vec_free v)" "vec_list (vec_free v) = []"
  by (auto simp: vec_free_def vec_ok_def vec_list_def)

lemma vec_push_ok:
  assumes "vec_ok v"
  shows "\<exists>v'. vec_push junk v x = Some v' \<and> vec_ok v' \<and> vec_list v' = vec_list v @ [x]"
  using assms
  by (auto simp: vec_push_def vec_ok_def vec_list_def vec_grow_def wr_def Let_def VEC_INIT_CAP_def
      split: option.splits)

lemma vec_get_list:
  "vec_ok v \<Longrightarrow> vec_get v i = (if i < length (vec_list v) then vec_list v ! i else None)"
  by (auto simp: vec_get_def vec_ok_def vec_list_def split: option.splits)

lemma vec_pop_list:
  assumes "vec_ok v" and "vec_list v = xs @ [x]"
  shows "fst (vec_pop v) = x \<and> vec_ok (snd (vec_pop v)) \<and> vec_list (snd (vec_pop v)) = xs"
proof -
  from assms obtain d where d: "v_items v = Some d" "length d = v_cap v" "v_len v \<le> v_cap v"
    "take (v_len v) d = xs @ [x]"
    by (auto simp: vec_ok_def vec_list_def split: option.splits)
  then have n: "v_len v = Suc (length xs)"
    by (metis length_append_singleton length_take min.absorb2)
  with d have "take (length xs) d @ [d ! length xs] = xs @ [x]"
    by (simp add: take_Suc_conv_app_nth)
  with n d show ?thesis by (simp add: vec_pop_def vec_ok_def vec_list_def Let_def)
qed

interpretation vec: growable "vec_init junk" "vec_push junk" vec_list vec_ok for junk
  by unfold_locales (auto intro: vec_push_ok)

section \<open>The line reader\<close>

text \<open>
  A stream is the bytes \<open>fgetc\<close> still delivers and whether it then fails (\<open>ferror\<close>) or
  reaches the end of the file.
\<close>

record FILE =
  f_bytes :: "char list"
  f_fails :: bool

fun line_loop :: "(nat \<Rightarrow> char) \<Rightarrow> char list \<Rightarrow> bool \<Rightarrow> bool \<Rightarrow> Str
    \<Rightarrow> (NshError \<times> char list \<times> Str) option" where
  "line_loop junk [] fails got_any out =
     Some (if fails then NSH_ERR_IO else if got_any then NSH_OK else NSH_EOF, [], out)"
| "line_loop junk (c # cs) fails got_any out =
     (if c = NEWLINE then Some (NSH_OK, cs, out)
      else str_push junk out c \<bind> (\<lambda>out'. line_loop junk cs fails True out'))"

definition line_read :: "(nat \<Rightarrow> char) \<Rightarrow> FILE \<Rightarrow> Str \<Rightarrow> (NshError \<times> FILE \<times> Str) option" where
  "line_read junk f out = do {
     out1 \<leftarrow> str_clear out;
     (err, rest, out2) \<leftarrow> line_loop junk (f_bytes f) (f_fails f) False out1;
     Some (err, f\<lparr>f_bytes := rest\<rparr>, out2)
   }"

lemma line_loop_line:
  "str_ok s \<Longrightarrow> NEWLINE \<notin> set l \<Longrightarrow>
     \<exists>s'. line_loop junk (l @ NEWLINE # rest) fails got s = Some (NSH_OK, rest, s')
        \<and> str_ok s' \<and> str_bytes s' = str_bytes s @ l"
proof (induction l arbitrary: s got)
  case Nil
  then show ?case by simp
next
  case (Cons c l)
  from str.push_ok [OF Cons.prems(1)] obtain s1 where
    s1: "str_push junk s c = Some s1" "str_ok s1" "str_bytes s1 = str_bytes s @ [c]" by blast
  from Cons.IH [OF s1(2)] Cons.prems(2) s1 show ?case by auto
qed

lemma line_loop_last:
  "str_ok s \<Longrightarrow> NEWLINE \<notin> set l \<Longrightarrow>
     \<exists>s'. line_loop junk l fails got s =
            Some (if fails then NSH_ERR_IO else if got \<or> l \<noteq> [] then NSH_OK else NSH_EOF, [], s')
        \<and> str_ok s' \<and> str_bytes s' = str_bytes s @ l"
proof (induction l arbitrary: s got)
  case Nil
  then show ?case by simp
next
  case (Cons c l)
  from str.push_ok [OF Cons.prems(1)] obtain s1 where
    s1: "str_push junk s c = Some s1" "str_ok s1" "str_bytes s1 = str_bytes s @ [c]" by blast
  from Cons.IH [OF s1(2), of True] Cons.prems(2) s1 show ?case by auto
qed


text \<open>on a good output buffer \<open>line_read\<close> always returns; it hands back the bytes up to the
  next newline (without it) and leaves the stream just behind that newline. With no newline
  left it hands back everything, as a line if there was at least one byte, as \<open>NSH_EOF\<close> if
  there was none, and as \<open>NSH_ERR_IO\<close> whenever the stream ended by a read error.\<close>

theorem line_read_spec:
  assumes "str_ok out"
  shows "\<exists>f' out' err. line_read junk f out = Some (err, f', out') \<and> str_ok out' \<and> f_fails f' = f_fails f
     \<and> str_bytes out' = takeWhile (\<lambda>c. c \<noteq> NEWLINE) (f_bytes f)
     \<and> f_bytes f' = drop 1 (dropWhile (\<lambda>c. c \<noteq> NEWLINE) (f_bytes f))
     \<and> err = (if NEWLINE \<in> set (f_bytes f) then NSH_OK
              else if f_fails f then NSH_ERR_IO
              else if f_bytes f = [] then NSH_EOF else NSH_OK)"
proof -
  from str_clear_ok [OF assms] obtain o1 where
    o1: "str_clear out = Some o1" "str_ok o1" "str_bytes o1 = []" by blast
  let ?l = "takeWhile (\<lambda>c. c \<noteq> NEWLINE) (f_bytes f)"
  let ?r = "dropWhile (\<lambda>c. c \<noteq> NEWLINE) (f_bytes f)"
  have l: "NEWLINE \<notin> set ?l" by (auto dest: set_takeWhileD)
  show ?thesis
  proof (cases "NEWLINE \<in> set (f_bytes f)")
    case True
    then have "?r \<noteq> []" by (simp add: dropWhile_eq_Nil_conv)
    then obtain c t where r: "?r = c # t" by (cases ?r) auto
    moreover have "c = NEWLINE" using hd_dropWhile [OF \<open>?r \<noteq> []\<close>] r by simp
    ultimately have split: "f_bytes f = ?l @ NEWLINE # t"
      by (metis takeWhile_dropWhile_id)
    from line_loop_line [OF o1(2) l, of junk t "f_fails f" False] obtain s' where
      s': "line_loop junk (?l @ NEWLINE # t) (f_fails f) False o1 = Some (NSH_OK, t, s')"
      "str_ok s'" "str_bytes s' = str_bytes o1 @ ?l" by blast
    have "line_loop junk (f_bytes f) (f_fails f) False o1 = Some (NSH_OK, t, s')"
      using s'(1) by (simp only: split [symmetric])
    with s' o1 True r show ?thesis by (simp add: line_read_def)
  next
    case False
    then have whole: "?l = f_bytes f" "?r = []"
      by (auto simp: takeWhile_eq_all_conv dropWhile_eq_Nil_conv)
    from line_loop_last [OF o1(2) False, of junk "f_fails f" False] obtain s' where
      s': "line_loop junk (f_bytes f) (f_fails f) False o1 =
             Some (if f_fails f then NSH_ERR_IO else if f_bytes f \<noteq> [] then NSH_OK else NSH_EOF, [], s')"
      "str_ok s'" "str_bytes s' = str_bytes o1 @ f_bytes f" by auto
    with o1 False show ?thesis unfolding whole by (simp add: line_read_def)
  qed
qed

theorem line_read_spec_witness:
  "\<exists>f' out' err. line_read (\<lambda>_. CHR ''j'') \<lparr>f_bytes = ''ab'' @ NEWLINE # ''c'', f_fails = False\<rparr>
       (str_init (\<lambda>_. CHR ''j'')) = Some (err, f', out') \<and> str_bytes out' = ''ab'' \<and> f_bytes f' = ''c''
       \<and> err = NSH_OK"
  using line_read_spec [OF str_init_ok(1) [of "\<lambda>_. CHR ''j''"], of "\<lambda>_. CHR ''j''"
      "\<lparr>f_bytes = ''ab'' @ NEWLINE # ''c'', f_fails = False\<rparr>"]
  by auto

end
