(* ===== verification/History.thy ===== *)
theory History
  imports Util
begin

text \<open>
  \<open>src/shell/history.c\<close>: the fixed-capacity ring of command lines, with load and save. Every
  function of the file treats a NULL \<open>History\<close> exactly as one whose \<open>lines\<close> is NULL
  (\<open>h_lines = None\<close>), so the model has no separate NULL pointer. Lines are C strings; a
  NULL line is \<open>None\<close>.
\<close>

section \<open>The ring\<close>

record History =
  h_lines :: "string option list option"
  h_cap :: nat
  h_len :: nat
  h_start :: nat

definition slot_of :: "History \<Rightarrow> nat \<Rightarrow> nat" where
  "slot_of h i = (h_start h + i) mod h_cap h"

definition history_init :: "History \<Rightarrow> nat \<Rightarrow> NshError \<times> History" where
  "history_init h cap =
     (if cap = 0 then (NSH_ERR_INVALID, h)
      else (NSH_OK, \<lparr>h_lines = Some (replicate cap None), h_cap = cap, h_len = 0, h_start = 0\<rparr>))"

definition history_free :: "History \<Rightarrow> History" where
  "history_free h = (case h_lines h of None \<Rightarrow> h
     | Some _ \<Rightarrow> \<lparr>h_lines = None, h_cap = 0, h_len = 0, h_start = 0\<rparr>)"

definition history_add :: "History \<Rightarrow> string option \<Rightarrow> History" where
  "history_add h line = (case (h_lines h, line) of
     (Some ls, Some l) \<Rightarrow>
       (if l = [] then h
        else if h_len h > 0 \<and> ls ! slot_of h (h_len h - 1) = Some l then h
        else (let (ls1, h1) =
                 (if h_len h = h_cap h
                  then (ls[h_start h := None],
                        h\<lparr>h_start := (h_start h + 1) mod h_cap h, h_len := h_len h - 1\<rparr>)
                  else (ls, h))
              in h1\<lparr>h_lines := Some (ls1[slot_of h1 (h_len h1) := Some l]), h_len := h_len h1 + 1\<rparr>))
   | _ \<Rightarrow> h)"

definition history_count :: "History \<Rightarrow> nat" where
  "history_count h = (case h_lines h of None \<Rightarrow> 0 | Some _ \<Rightarrow> h_len h)"

definition history_get :: "History \<Rightarrow> nat \<Rightarrow> string option" where
  "history_get h i = (case h_lines h of None \<Rightarrow> None
     | Some ls \<Rightarrow> if i \<ge> h_len h then None else ls ! slot_of h i)"

text \<open>The invariant, and the abstract value: the live entries, oldest first.\<close>

definition hist_ok :: "History \<Rightarrow> bool" where
  "hist_ok h \<longleftrightarrow> (\<exists>ls. h_lines h = Some ls \<and> length ls = h_cap h \<and> 0 < h_cap h
     \<and> h_len h \<le> h_cap h \<and> h_start h < h_cap h \<and> (\<forall>i<h_len h. ls ! slot_of h i \<noteq> None))"

definition history_list :: "History \<Rightarrow> string list" where
  "history_list h = (case h_lines h of None \<Rightarrow> []
     | Some ls \<Rightarrow> map (\<lambda>i. the (ls ! slot_of h i)) [0..<h_len h])"

text \<open>What the ring promises: a list of at most \<open>cap\<close> lines that drops its oldest.\<close>

definition ring_add :: "nat \<Rightarrow> string list \<Rightarrow> string \<Rightarrow> string list" where
  "ring_add cap xs l =
     (if l = [] \<or> (xs \<noteq> [] \<and> last xs = l) then xs
      else (if length xs = cap then tl xs else xs) @ [l])"

lemma length_history_list [simp]: "hist_ok h \<Longrightarrow> length (history_list h) = h_len h"
  by (auto simp: hist_ok_def history_list_def)

lemma history_list_nth:
  "hist_ok h \<Longrightarrow> i < h_len h \<Longrightarrow> history_get h i = Some (history_list h ! i)"
  by (auto simp: hist_ok_def history_list_def history_get_def)

lemma history_get_list:
  "hist_ok h \<Longrightarrow>
     history_get h i = (if i < length (history_list h) then Some (history_list h ! i) else None)"
  using history_list_nth [of h i] by (auto simp: history_get_def hist_ok_def)

lemma history_init_ok:
  "0 < cap \<Longrightarrow> history_init h0 cap = (NSH_OK, h) \<Longrightarrow>
     hist_ok h \<and> history_list h = [] \<and> h_cap h = cap"
  by (auto simp: history_init_def hist_ok_def history_list_def)

lemma ring_mod: "s < c \<Longrightarrow> i < c \<Longrightarrow> (s + i) mod c = (if s + i < c then s + i else s + i - (c::nat))"
  by (simp add: mod_if)

lemma slot_of_inj:
  "hist_ok h \<Longrightarrow> i < h_cap h \<Longrightarrow> j < h_cap h \<Longrightarrow> slot_of h i = slot_of h j \<Longrightarrow> i = j"
  by (auto simp: hist_ok_def slot_of_def ring_mod split: if_splits)

lemma slot_of_less: "hist_ok h \<Longrightarrow> slot_of h i < h_cap h"
  by (auto simp: hist_ok_def slot_of_def)

text \<open>Appending behind the newest entry of a ring with room.\<close>

lemma ring_put:
  fixes l :: string
  assumes ok: "hist_ok h" and room: "h_len h < h_cap h" and ls: "h_lines h = Some ls"
  defines "h' \<equiv> h\<lparr>h_lines := Some (ls[slot_of h (h_len h) := Some l]), h_len := h_len h + 1\<rparr>"
  shows "hist_ok h'" and "history_list h' = history_list h @ [l]"
proof -
  have len: "length ls = h_cap h" using ok ls by (auto simp: hist_ok_def)
  have slot: "slot_of h' i = slot_of h i" for i by (simp add: h'_def slot_of_def)
  have new: "ls[slot_of h (h_len h) := Some l] ! slot_of h (h_len h) = Some l"
    using slot_of_less [OF ok] len by simp
  have old: "ls[slot_of h (h_len h) := Some l] ! slot_of h i = ls ! slot_of h i" if "i < h_len h" for i
    using slot_of_inj [OF ok, of "h_len h" i] that room
    by (intro nth_list_update_neq) auto
  show "hist_ok h'"
    using ok room len ls new old unfolding hist_ok_def slot
    by (auto simp: h'_def less_Suc_eq)
  show "history_list h' = history_list h @ [l]"
    unfolding history_list_def slot by (simp add: h'_def ls new old)
qed

text \<open>Dropping the oldest entry.\<close>

lemma ring_drop:
  assumes ok: "hist_ok h" and some: "0 < h_len h" and ls: "h_lines h = Some ls"
  defines "h' \<equiv> h\<lparr>h_lines := Some (ls[h_start h := None]),
                    h_start := (h_start h + 1) mod h_cap h, h_len := h_len h - 1\<rparr>"
  shows "hist_ok h'" and "history_list h' = tl (history_list h)"
proof -
  have len: "length ls = h_cap h" and cap: "h_len h \<le> h_cap h" "0 < h_cap h" "h_start h < h_cap h"
    using ok ls by (auto simp: hist_ok_def)
  have slot: "slot_of h' i = slot_of h (Suc i)" for i
    by (simp add: h'_def slot_of_def mod_simps)
  have start: "h_start h = slot_of h 0" using cap by (simp add: slot_of_def)
  have old: "ls[h_start h := None] ! slot_of h (Suc i) = ls ! slot_of h (Suc i)"
    if "Suc i < h_len h" for i
    using slot_of_inj [OF ok, of 0 "Suc i"] that cap unfolding start
    by (intro nth_list_update_neq) auto
  show "hist_ok h'"
    using ok ls len cap old unfolding hist_ok_def slot by (auto simp: h'_def)
  have "[0..<h_len h] = 0 # map Suc [0..<h_len h - 1]"
    using some by (cases "h_len h") (simp_all add: upt_conv_Cons map_Suc_upt del: upt_Suc)
  then show "history_list h' = tl (history_list h)"
    unfolding history_list_def slot by (simp add: h'_def ls old)
qed

lemma newest_entry:
  "hist_ok h \<Longrightarrow> h_lines h = Some ls \<Longrightarrow> 0 < h_len h \<Longrightarrow>
     ls ! slot_of h (h_len h - 1) = Some (last (history_list h))"
  by (auto simp: hist_ok_def history_list_def last_conv_nth)

lemma history_add_ok:
  assumes ok: "hist_ok h"
  shows "hist_ok (history_add h (Some l)) \<and> h_cap (history_add h (Some l)) = h_cap h \<and>
         history_list (history_add h (Some l)) = ring_add (h_cap h) (history_list h) l"
proof -
  obtain ls where ls: "h_lines h = Some ls" using ok by (auto simp: hist_ok_def)
  have len: "length (history_list h) = h_len h" and le: "h_len h \<le> h_cap h" "0 < h_cap h"
    using ok by (auto simp: hist_ok_def)
  have rep: "(h_len h > 0 \<and> ls ! slot_of h (h_len h - 1) = Some l)
              = (history_list h \<noteq> [] \<and> last (history_list h) = l)"
    using newest_entry [OF ok ls] len by (cases "h_len h") auto
  consider (skip) "l = [] \<or> (history_list h \<noteq> [] \<and> last (history_list h) = l)"
    | (full) "l \<noteq> []" "\<not> (history_list h \<noteq> [] \<and> last (history_list h) = l)" "h_len h = h_cap h"
    | (room) "l \<noteq> []" "\<not> (history_list h \<noteq> [] \<and> last (history_list h) = l)" "h_len h < h_cap h"
    using le by fastforce
  then show ?thesis
  proof cases
    case skip
    then show ?thesis using ok rep ls by (auto simp: history_add_def ring_add_def)
  next
    case full
    let ?h1 = "h\<lparr>h_lines := Some (ls[h_start h := None]),
                  h_start := (h_start h + 1) mod h_cap h, h_len := h_len h - 1\<rparr>"
    have pos: "0 < h_len h" using full le by simp
    note d = ring_drop [OF ok pos ls]
    have "h_len ?h1 < h_cap ?h1" using pos full by simp
    note p = ring_put [OF d(1) this, of "ls[h_start h := None]", where l = l]
    have "history_add h (Some l) =
        ?h1\<lparr>h_lines := Some ((ls[h_start h := None])[slot_of ?h1 (h_len ?h1) := Some l]),
            h_len := h_len ?h1 + 1\<rparr>"
      using full rep ls by (auto simp: history_add_def slot_of_def)
    with p d(2) full len show ?thesis by (auto simp: ring_add_def)
  next
    case room
    have "history_add h (Some l) =
        h\<lparr>h_lines := Some (ls[slot_of h (h_len h) := Some l]), h_len := h_len h + 1\<rparr>"
      using room rep ls by (auto simp: history_add_def)
    with ring_put [OF ok room(3) ls, where l = l] room len show ?thesis by (auto simp: ring_add_def)
  qed
qed


text \<open>Entries stay NUL free, and free of anything else the added lines are free of.\<close>

lemma ring_add_set: "set (ring_add cap xs l) \<subseteq> insert l (set xs)"
  by (cases xs) (auto simp: ring_add_def)

definition no_repeats :: "string list \<Rightarrow> bool" where
  "no_repeats xs \<longleftrightarrow> successively (\<noteq>) xs"

lemma no_repeats_Cons: "no_repeats (x # xs) \<longleftrightarrow> no_repeats xs \<and> (xs = [] \<or> x \<noteq> hd xs)"
  by (auto simp: no_repeats_def successively_Cons)

lemma no_repeats_append:
  "no_repeats (xs @ ys) \<longleftrightarrow>
     no_repeats xs \<and> no_repeats ys \<and> (xs = [] \<or> ys = [] \<or> last xs \<noteq> hd ys)"
  by (auto simp: no_repeats_def successively_append_iff)

lemma no_repeats_snoc: "no_repeats (xs @ [l]) \<longleftrightarrow> no_repeats xs \<and> (xs = [] \<or> last xs \<noteq> l)"
  by (auto simp: no_repeats_append) (auto simp: no_repeats_def)

lemma no_repeats_Nil [simp]: "no_repeats []" by (simp add: no_repeats_def)

lemma no_repeats_tl: "no_repeats xs \<Longrightarrow> no_repeats (tl xs)"
  by (cases xs) (auto simp: no_repeats_Cons)

lemma ring_add_no_repeats: "no_repeats xs \<Longrightarrow> no_repeats (ring_add cap xs l)"
  by (cases xs rule: rev_cases)
     (auto simp: ring_add_def no_repeats_snoc no_repeats_tl tl_append dest: no_repeats_tl split: list.splits)

section \<open>Loading and saving\<close>

record LineBuf =
  b_data :: "char list"
  b_len :: nat
  b_cap :: nat

definition linebuf_init :: "(nat \<Rightarrow> char) \<Rightarrow> LineBuf" where
  "linebuf_init junk = \<lparr>b_data = (map junk [0..<64])[0 := NUL], b_len = 0, b_cap = 64\<rparr>"

definition linebuf_push :: "(nat \<Rightarrow> char) \<Rightarrow> LineBuf \<Rightarrow> char \<Rightarrow> LineBuf" where
  "linebuf_push junk b c =
     (let b1 = (if b_len b + 1 \<ge> b_cap b
                then b\<lparr>b_cap := b_cap b * 2, b_data := realloc_slots junk (b_data b) (b_cap b * 2)\<rparr>
                else b)
      in b1\<lparr>b_data := (b_data b1)[b_len b1 := c, Suc (b_len b1) := NUL], b_len := Suc (b_len b1)\<rparr>)"

definition linebuf_reset :: "LineBuf \<Rightarrow> LineBuf" where
  "linebuf_reset b = b\<lparr>b_len := 0, b_data := (b_data b)[0 := NUL]\<rparr>"

definition linebuf_ok :: "LineBuf \<Rightarrow> bool" where
  "linebuf_ok b \<longleftrightarrow> length (b_data b) = b_cap b \<and> b_len b < b_cap b \<and> b_data b ! b_len b = NUL"

definition linebuf_bytes :: "LineBuf \<Rightarrow> string" where
  "linebuf_bytes b = take (b_len b) (b_data b)"

lemma linebuf_push_ok:
  "linebuf_ok b \<Longrightarrow> linebuf_ok (linebuf_push junk b c)
     \<and> linebuf_bytes (linebuf_push junk b c) = linebuf_bytes b @ [c]"
  by (auto simp: linebuf_ok_def linebuf_bytes_def linebuf_push_def Let_def)

lemma linebuf_init_ok [simp]: "linebuf_ok (linebuf_init junk)" "linebuf_bytes (linebuf_init junk) = []"
  by (auto simp: linebuf_init_def linebuf_ok_def linebuf_bytes_def)

lemma linebuf_reset_ok [simp]:
  "linebuf_ok b \<Longrightarrow> linebuf_ok (linebuf_reset b)" "linebuf_bytes (linebuf_reset b) = []"
  by (auto simp: linebuf_reset_def linebuf_ok_def linebuf_bytes_def)

interpretation linebuf: growable "linebuf_init junk" "\<lambda>b c. Some (linebuf_push junk b c)"
    linebuf_bytes linebuf_ok for junk
  by unfold_locales (auto simp: linebuf_push_ok)

lemma linebuf_cstr:
  assumes "linebuf_ok b"
  shows "cstr (b_data b) = cstr (linebuf_bytes b)"
proof -
  have "b_data b = take (b_len b) (b_data b) @ NUL # drop (Suc (b_len b)) (b_data b)"
    using assms by (metis id_take_nth_drop linebuf_ok_def)
  then have "cstr (b_data b) = cstr (take (b_len b) (b_data b) @ NUL # drop (Suc (b_len b)) (b_data b))"
    by simp
  then show ?thesis by (simp add: cstr_def takeWhile_tail linebuf_bytes_def)
qed

fun load_loop :: "(nat \<Rightarrow> char) \<Rightarrow> char list \<Rightarrow> bool \<Rightarrow> LineBuf \<Rightarrow> History \<Rightarrow> NshError \<times> History" where
  "load_loop junk [] fails b h =
     (if fails then NSH_ERR_IO else NSH_OK,
      if b_len b > 0 then history_add h (Some (cstr (b_data b))) else h)"
| "load_loop junk (c # cs) fails b h =
     (if c = NEWLINE
      then load_loop junk cs fails (linebuf_reset b) (history_add h (Some (cstr (b_data b))))
      else load_loop junk cs fails (linebuf_push junk b c) h)"

text \<open>
  What \<open>fopen\<close> answers: no such file, another error, or a stream with its contents and
  whether the final \<open>fclose\<close> fails.
\<close>

datatype OpenRead = OpenMissing | OpenDenied | Opened FILE bool

definition history_load :: "(nat \<Rightarrow> char) \<Rightarrow> History \<Rightarrow> OpenRead option \<Rightarrow> NshError \<times> History" where
  "history_load junk h path = (case (h_lines h, path) of
     (Some _, Some OpenMissing) \<Rightarrow> (NSH_OK, h)
   | (Some _, Some OpenDenied) \<Rightarrow> (NSH_ERR_IO, h)
   | (Some _, Some (Opened f close_fails)) \<Rightarrow>
       (let (err, h1) = load_loop junk (f_bytes f) (f_fails f) (linebuf_init junk) h
        in (if close_fails then NSH_ERR_IO else err, h1))
   | _ \<Rightarrow> (NSH_ERR_INVALID, h))"

text \<open>
  The file \<open>history_save\<close> writes to: whether it opens, which entry (if any) cannot be
  written, and whether \<open>fclose\<close> fails. The result carries the bytes that reached the stream
  before the first failed entry.
\<close>

datatype OpenWrite = WriteDenied | WriteOpened "nat option" bool

fun save_loop :: "History \<Rightarrow> nat option \<Rightarrow> nat \<Rightarrow> nat \<Rightarrow> NshError \<times> string" where
  "save_loop h bad i 0 = (NSH_OK, [])"
| "save_loop h bad i (Suc n) =
     (if bad = Some i then (NSH_ERR_IO, [])
      else (let (err, out) = save_loop h bad (Suc i) n
            in (err, the (the (h_lines h) ! slot_of h i) @ NEWLINE # out)))"

definition history_save :: "History \<Rightarrow> OpenWrite option \<Rightarrow> NshError \<times> string" where
  "history_save h path = (case (h_lines h, path) of
     (Some _, Some WriteDenied) \<Rightarrow> (NSH_ERR_IO, [])
   | (Some _, Some (WriteOpened bad close_fails)) \<Rightarrow>
       (let (err, out) = save_loop h bad 0 (h_len h)
        in (if close_fails \<and> err = NSH_OK then NSH_ERR_IO else err, out))
   | _ \<Rightarrow> (NSH_ERR_INVALID, []))"

definition history_file :: "string list \<Rightarrow> string" where
  "history_file xs = concat (map (\<lambda>l. l @ [NEWLINE]) xs)"

lemma save_loop_file:
  "save_loop h None i n =
     (NSH_OK, history_file (map (\<lambda>k. the (the (h_lines h) ! slot_of h k)) [i..<i + n]))"
proof (induction n arbitrary: i)
  case 0
  then show ?case by (simp add: history_file_def)
next
  case (Suc n)
  have "[i..<i + Suc n] = i # [Suc i..<Suc i + n]" by (simp add: upt_conv_Cons)
  with Suc show ?case by (simp add: history_file_def)
qed

lemma history_save_file:
  "hist_ok h \<Longrightarrow> history_save h (Some (WriteOpened None False)) = (NSH_OK, history_file (history_list h))"
  by (auto simp: hist_ok_def history_save_def history_list_def save_loop_file)

text \<open>The loader folds \<open>history_add\<close> over the lines of the file.\<close>

lemma load_loop_line:
  "linebuf_ok b \<Longrightarrow> NEWLINE \<notin> set l \<Longrightarrow>
     \<exists>b'. linebuf_ok b' \<and> linebuf_bytes b' = [] \<and>
       load_loop junk (l @ NEWLINE # rest) fails b h =
       load_loop junk rest fails b' (history_add h (Some (cstr (linebuf_bytes b @ l))))"
proof (induction l arbitrary: b)
  case Nil
  then show ?case
    by (intro exI [of _ "linebuf_reset b"]) (simp add: linebuf_cstr)
next
  case (Cons c l)
  from Cons.prems(2) have "c \<noteq> NEWLINE" by auto
  with Cons.IH [of "linebuf_push junk b c"] Cons.prems linebuf_push_ok [OF Cons.prems(1), of junk c]
  show ?case by simp
qed

lemma load_loop_file:
  "linebuf_ok b \<Longrightarrow> linebuf_bytes b = [] \<Longrightarrow> \<forall>l\<in>set xs. NEWLINE \<notin> set l \<and> nul_free l \<Longrightarrow>
     load_loop junk (history_file xs) False b h =
       (NSH_OK, foldl (\<lambda>h l. history_add h (Some l)) h xs)"
proof (induction xs arbitrary: b h)
  case Nil
  then show ?case
    by (auto simp: history_file_def linebuf_bytes_def linebuf_ok_def)
next
  case (Cons l xs)
  have "history_file (l # xs) = l @ NEWLINE # history_file xs" by (simp add: history_file_def)
  moreover obtain b' where "linebuf_ok b'" "linebuf_bytes b' = []"
    "load_loop junk (l @ NEWLINE # history_file xs) False b h =
       load_loop junk (history_file xs) False b' (history_add h (Some (cstr (linebuf_bytes b @ l))))"
    using load_loop_line [OF Cons.prems(1), of l junk "history_file xs" False h] Cons.prems(3)
    by (metis list.set_intros(1))
  ultimately show ?case using Cons.IH [of b'] Cons.prems by (simp add: cstr_id)
qed

lemma foldl_history_add:
  "hist_ok h \<Longrightarrow> hist_ok (foldl (\<lambda>h l. history_add h (Some l)) h xs) \<and>
     history_list (foldl (\<lambda>h l. history_add h (Some l)) h xs) = foldl (ring_add (h_cap h)) (history_list h) xs"
proof (induction xs arbitrary: h)
  case (Cons l xs)
  then show ?case using history_add_ok [OF Cons.prems, of l] by simp
qed simp

lemma ring_add_fold_id:
  "length (ys @ xs) \<le> cap \<Longrightarrow> [] \<notin> set xs \<Longrightarrow> no_repeats (ys @ xs) \<Longrightarrow>
     foldl (ring_add cap) ys xs = ys @ xs"
proof (induction xs arbitrary: ys)
  case (Cons x xs)
  have step: "no_repeats ((ys @ [x]) @ xs)" using Cons.prems by simp
  then have "no_repeats (ys @ [x])" by (simp only: no_repeats_append)
  then have "ring_add cap ys x = ys @ [x]"
    using Cons.prems by (auto simp: ring_add_def no_repeats_snoc)
  with Cons.IH [of "ys @ [x]"] Cons.prems step show ?case by simp
qed simp


text \<open>The last \<open>cap\<close> lines of the input, empty lines and immediate repeats left out.\<close>

definition recorded :: "nat \<Rightarrow> string list \<Rightarrow> string list" where
  "recorded cap ls = (let d = remdups_adj (filter (\<lambda>l. l \<noteq> []) ls) in drop (length d - cap) d)"

lemma remdups_adj_snoc:
  "remdups_adj (xs @ [x]) = (if xs \<noteq> [] \<and> last xs = x then remdups_adj xs else remdups_adj xs @ [x])"
  by (induction xs rule: remdups_adj.induct) (auto simp: last_ConsL split: if_splits)

lemma recorded_snoc:
  assumes "0 < cap"
  shows "recorded cap (ls @ [l]) = ring_add cap (recorded cap ls) l"
proof -
  let ?f = "filter (\<lambda>l. l \<noteq> []) ls"
  let ?d = "remdups_adj ?f"
  have pos: "?f \<noteq> [] \<Longrightarrow> 0 < length ?d" by simp
  have last: "drop (length ?d - cap) ?d \<noteq> [] \<longleftrightarrow> ?f \<noteq> []"
    "?f \<noteq> [] \<Longrightarrow> last (drop (length ?d - cap) ?d) = last ?f"
    using assms pos by (auto simp: last_drop not_le)
  show ?thesis
    using assms last
    by (auto simp: recorded_def ring_add_def Let_def remdups_adj_snoc Suc_diff_le drop_Suc tl_drop)
qed

lemma recorded_fold: "0 < cap \<Longrightarrow> foldl (ring_add cap) [] ls = recorded cap ls"
  by (induction ls rule: rev_induct) (simp_all add: recorded_snoc, simp add: recorded_def)

lemma remdups_adj_no_repeats: "no_repeats (remdups_adj xs)"
  by (induction xs rule: rev_induct) (auto simp: remdups_adj_snoc no_repeats_snoc)

lemma no_repeats_drop: "no_repeats xs \<Longrightarrow> no_repeats (drop n xs)"
  by (metis append_take_drop_id no_repeats_append)

lemma recorded_props:
  "length (recorded cap ls) \<le> cap" "no_repeats (recorded cap ls)"
  "set (recorded cap ls) \<subseteq> set ls - {[]}"
  by (auto simp: recorded_def Let_def remdups_adj_no_repeats no_repeats_drop dest!: in_set_dropD)

text \<open>C28: a ring of capacity \<open>cap\<close> holds, oldest first, exactly the last \<open>cap\<close> lines that were
  added to it, leaving out empty lines and immediate repeats; \<open>history_get\<close> reads them by
  index and answers NULL past the count.\<close>

theorem history_holds_recorded:
  assumes "0 < cap" and "history_init h0 cap = (NSH_OK, h)"
  shows "history_count (foldl (\<lambda>h l. history_add h (Some l)) h ls) = length (recorded cap ls) \<and>
    (\<forall>i. history_get (foldl (\<lambda>h l. history_add h (Some l)) h ls) i =
        (if i < length (recorded cap ls) then Some (recorded cap ls ! i) else None))"
proof -
  let ?h = "foldl (\<lambda>h l. history_add h (Some l)) h ls"
  note init = history_init_ok [OF assms]
  then have h': "hist_ok ?h" "history_list ?h = recorded cap ls"
    using foldl_history_add [of h ls] recorded_fold [OF assms(1), of ls] by auto
  have "history_count ?h = length (recorded cap ls)"
    using h' length_history_list [OF h'(1)] by (auto simp: history_count_def hist_ok_def)
  moreover have "history_get ?h i = (if i < length (recorded cap ls) then Some (recorded cap ls ! i) else None)" for i
    using history_get_list [OF h'(1), of i] h'(2) by simp
  ultimately show ?thesis by simp
qed

theorem history_holds_recorded_witness:
  "history_get (foldl (\<lambda>h l. history_add h (Some l)) (snd (history_init \<lparr>h_lines = None, h_cap = 0, h_len = 0, h_start = 0\<rparr> 2))
      [''a'', ''b'', ''b'', [], ''c'']) 0 = Some ''b''"
proof -
  have i: "history_init \<lparr>h_lines = None, h_cap = 0, h_len = 0, h_start = 0\<rparr> 2 =
      (NSH_OK, snd (history_init \<lparr>h_lines = None, h_cap = 0, h_len = 0, h_start = 0\<rparr> 2))"
    by (simp add: history_init_def)
  show ?thesis
    using history_holds_recorded [OF _ i, of "[''a'', ''b'', ''b'', [], ''c'']"]
    by (simp add: recorded_def)
qed

text \<open>C30: saving a ring and loading the file into a fresh ring of the same capacity gives back the
  same entries, as long as they are C strings without newlines; such a ring is what any
  sequence of \<open>history_add\<close> on such lines leaves.\<close>

theorem history_save_load_roundtrip:
  assumes "0 < cap" and "history_init h0 cap = (NSH_OK, h)" and "history_init h1 cap = (NSH_OK, fresh)"
    and "\<forall>l\<in>set ls. NEWLINE \<notin> set l \<and> nul_free l"
    and "history_save (foldl (\<lambda>h l. history_add h (Some l)) h ls) (Some (WriteOpened None False)) = (NSH_OK, bytes)"
  shows "\<exists>h'. history_load junk fresh (Some (Opened \<lparr>f_bytes = bytes, f_fails = False\<rparr> False)) = (NSH_OK, h')
     \<and> history_list h' = history_list (foldl (\<lambda>h l. history_add h (Some l)) h ls)"
proof -
  let ?h = "foldl (\<lambda>h l. history_add h (Some l)) h ls"
  note init = history_init_ok [OF assms(1,2)] and init1 = history_init_ok [OF assms(1,3)]
  have h': "hist_ok ?h" "history_list ?h = recorded cap ls"
    using init foldl_history_add [of h ls] recorded_fold [OF assms(1), of ls] by auto
  have bytes: "bytes = history_file (recorded cap ls)"
    using history_save_file [OF h'(1)] h'(2) assms(5) by simp
  have good: "\<forall>l\<in>set (recorded cap ls). NEWLINE \<notin> set l \<and> nul_free l"
    using assms(4) recorded_props(3) by blast
  have load: "load_loop junk bytes False (linebuf_init junk) fresh =
      (NSH_OK, foldl (\<lambda>h l. history_add h (Some l)) fresh (recorded cap ls))"
    unfolding bytes by (rule load_loop_file [OF _ _ good]) simp_all
  have "history_list (foldl (\<lambda>h l. history_add h (Some l)) fresh (recorded cap ls)) = recorded cap ls"
    using foldl_history_add [of fresh] init1 recorded_props [of cap ls]
      ring_add_fold_id [of "[]" "recorded cap ls" cap] by auto
  moreover obtain l0 where "h_lines fresh = Some l0" using init1 by (auto simp: hist_ok_def)
  ultimately show ?thesis using load h'(2) by (simp add: history_load_def)
qed

theorem history_save_load_roundtrip_witness:
  "\<exists>h'. history_load (\<lambda>_. CHR ''x'') (snd (history_init \<lparr>h_lines = None, h_cap = 0, h_len = 0, h_start = 0\<rparr> 2))
      (Some (Opened \<lparr>f_bytes = ''b'' @ NEWLINE # ''c'' @ [NEWLINE], f_fails = False\<rparr> False)) = (NSH_OK, h')
    \<and> history_list h' = [''b'', ''c'']"
proof -
  let ?z = "\<lparr>h_lines = None, h_cap = 0, h_len = 0, h_start = 0\<rparr>"
  have i: "history_init ?z 2 = (NSH_OK, snd (history_init ?z 2))" by (simp add: history_init_def)
  have s: "history_save (foldl (\<lambda>h l. history_add h (Some l)) (snd (history_init ?z 2)) [''a'', ''b'', ''c''])
      (Some (WriteOpened None False)) = (NSH_OK, ''b'' @ NEWLINE # ''c'' @ [NEWLINE])"
    by code_simp
  have l: "history_list (foldl (\<lambda>h l. history_add h (Some l)) (snd (history_init ?z 2)) [''a'', ''b'', ''c''])
      = [''b'', ''c'']" by code_simp
  show ?thesis
    using history_save_load_roundtrip [OF _ i i _ s, of "\<lambda>_. CHR ''x''"] l by (simp add: nul_free_def)
qed

end
