(* ===== verification/Jobs.thy ===== *)
theory Jobs
  imports Util
begin

text \<open>
  \<open>src/shell/jobs.c\<close>: the job table. The table is the list of its live entries in insertion
  order (the array growth is that of a \<open>Vec\<close>); a \<open>Job *\<close> result is the entry's index.
  Wait statuses are the integers Linux hands out, read with the \<open>sys/wait.h\<close> macros.
\<close>

section \<open>Wait statuses\<close>

definition WTERMSIG :: "nat \<Rightarrow> nat" where "WTERMSIG s = s mod 128"
definition WIFEXITED :: "nat \<Rightarrow> bool" where "WIFEXITED s \<longleftrightarrow> WTERMSIG s = 0"
definition WEXITSTATUS :: "nat \<Rightarrow> nat" where "WEXITSTATUS s = s div 256 mod 256"
definition WIFSIGNALED :: "nat \<Rightarrow> bool" where "WIFSIGNALED s \<longleftrightarrow> 0 < WTERMSIG s \<and> WTERMSIG s < 127"
definition WIFSTOPPED :: "nat \<Rightarrow> bool" where "WIFSTOPPED s \<longleftrightarrow> s mod 256 = 127"
definition WSTOPSIG :: "nat \<Rightarrow> nat" where "WSTOPSIG s = WEXITSTATUS s"
definition WIFCONTINUED :: "nat \<Rightarrow> bool" where "WIFCONTINUED s \<longleftrightarrow> s = 65535"

definition terminal_status :: "nat \<Rightarrow> bool" where
  "terminal_status s \<longleftrightarrow> WIFEXITED s \<or> WIFSIGNALED s"

lemma terminal_not_stopped: "terminal_status s \<Longrightarrow> \<not> WIFSTOPPED s"
proof -
  have "s mod 256 mod 128 = s mod 128" by (simp add: mod_mod_cancel)
  then show "terminal_status s \<Longrightarrow> \<not> WIFSTOPPED s"
    by (auto simp: terminal_status_def WIFEXITED_def WIFSIGNALED_def WIFSTOPPED_def WTERMSIG_def)
qed

section \<open>The table\<close>

datatype JobState = JOB_RUNNING | JOB_STOPPED | JOB_DONE

record Job =
  j_id :: int
  j_pgid :: int
  j_state :: JobState
  j_cmdline :: string
  j_pids :: "int list"
  j_nproc :: nat
  j_nleft :: nat
  j_last_status :: nat

type_synonym table = "Job list"

fun find_index :: "('a \<Rightarrow> bool) \<Rightarrow> 'a list \<Rightarrow> nat option" where
  "find_index P [] = None"
| "find_index P (x # xs) = (if P x then Some 0 else map_option Suc (find_index P xs))"

definition jobs_by_id :: "table \<Rightarrow> int \<Rightarrow> nat option" where
  "jobs_by_id tb i = find_index (\<lambda>j. j_id j = i) tb"

definition jobs_by_pgid :: "table \<Rightarrow> int \<Rightarrow> nat option" where
  "jobs_by_pgid tb g = find_index (\<lambda>j. j_pgid j = g) tb"

definition job_of_pid :: "table \<Rightarrow> int \<Rightarrow> nat option" where
  "job_of_pid tb pid = find_index (\<lambda>j. pid \<in> set (take (j_nproc j) (j_pids j))) tb"

lemma find_index_Some:
  "find_index P xs = Some i \<longleftrightarrow> i < length xs \<and> P (xs ! i) \<and> (\<forall>k<i. \<not> P (xs ! k))"
  by (induction xs arbitrary: i) (auto simp: less_Suc_eq_0_disj nth_Cons split: nat.splits)

lemma find_index_None: "find_index P xs = None \<longleftrightarrow> (\<forall>x\<in>set xs. \<not> P x)"
  by (induction xs) auto

lemma jobs_by_id_None: "jobs_by_id tb i = None \<longleftrightarrow> i \<notin> j_id ` set tb"
  by (auto simp: jobs_by_id_def find_index_None)

text \<open>The scan for the lowest free id. It ends because the table is finite.\<close>

function next_id_from :: "table \<Rightarrow> int \<Rightarrow> int" where
  "next_id_from tb i = (if jobs_by_id tb i = None then i else next_id_from tb (i + 1))"
  by pat_completeness auto
termination
proof (relation "measure (\<lambda>(tb, i). card {k \<in> j_id ` set tb. i \<le> k})")
  fix tb :: table and i
  assume "jobs_by_id tb i \<noteq> None"
  then have "i \<in> {k \<in> j_id ` set tb. i \<le> k}" by (auto simp: jobs_by_id_None)
  moreover have "{k \<in> j_id ` set tb. i + 1 \<le> k} \<subseteq> {k \<in> j_id ` set tb. i \<le> k} - {i}" by auto
  ultimately have "card {k \<in> j_id ` set tb. i + 1 \<le> k} < card {k \<in> j_id ` set tb. i \<le> k}"
    by (intro psubset_card_mono) auto
  then show "((tb, i + 1), tb, i) \<in> measure (\<lambda>(tb, i). card {k \<in> j_id ` set tb. i \<le> k})" by simp
qed simp

declare next_id_from.simps [simp del]

definition next_id :: "table \<Rightarrow> int" where "next_id tb = next_id_from tb 1"

lemma next_id_from_free: "jobs_by_id tb i = None \<Longrightarrow> next_id_from tb i = i"
  by (subst next_id_from.simps) (rule if_P)

lemma next_id_from_taken: "jobs_by_id tb i \<noteq> None \<Longrightarrow> next_id_from tb i = next_id_from tb (i + 1)"
  by (subst next_id_from.simps) (rule if_not_P)

lemma next_id_from_spec:
  "i \<le> next_id_from tb i \<and> next_id_from tb i \<notin> j_id ` set tb
     \<and> (\<forall>k. i \<le> k \<and> k < next_id_from tb i \<longrightarrow> k \<in> j_id ` set tb)"
proof (induction tb i rule: next_id_from.induct)
  case (1 tb i)
  show ?case
  proof (cases "jobs_by_id tb i = None")
    case True
    then show ?thesis by (auto simp: next_id_from_free jobs_by_id_None)
  next
    case False
    define n where "n = next_id_from tb (i + 1)"
    from "1.IH" [OF False] have IH: "i + 1 \<le> n" "n \<notin> j_id ` set tb"
      "\<And>k. i + 1 \<le> k \<Longrightarrow> k < n \<Longrightarrow> k \<in> j_id ` set tb" by (auto simp: n_def)
    have i: "i \<in> j_id ` set tb" using False unfolding jobs_by_id_None by simp
    have "k \<in> j_id ` set tb" if "i \<le> k" "k < n" for k
      using that IH(3) [of k] i by (cases "k = i") auto
    with IH show ?thesis by (auto simp: next_id_from_taken [OF False] n_def [symmetric])
  qed
qed

definition jobs_init :: "table \<Rightarrow> table" where "jobs_init tb = []"
definition jobs_free_all :: "table \<Rightarrow> table" where "jobs_free_all tb = []"

text \<open>The new entry sits at the end of the table, so its index is the old length.\<close>

definition jobs_add :: "table \<Rightarrow> int \<Rightarrow> int list option \<Rightarrow> nat \<Rightarrow> string option \<Rightarrow> table" where
  "jobs_add tb pgid pids nproc cmdline =
     (let n = (case pids of None \<Rightarrow> 0 | Some _ \<Rightarrow> nproc)
      in tb @ [\<lparr>j_id = next_id tb, j_pgid = pgid, j_state = JOB_RUNNING,
                j_cmdline = (case cmdline of None \<Rightarrow> [] | Some s \<Rightarrow> s),
                j_pids = take n (case pids of None \<Rightarrow> [] | Some p \<Rightarrow> p),
                j_nproc = n, j_nleft = n, j_last_status = 0\<rparr>])"

definition last_index :: "('a \<Rightarrow> bool) \<Rightarrow> 'a list \<Rightarrow> nat option" where
  "last_index P xs = map_option (\<lambda>k. length xs - 1 - k) (find_index P (rev xs))"

definition jobs_current :: "table \<Rightarrow> nat option" where
  "jobs_current tb = (case last_index (\<lambda>j. j_state j = JOB_STOPPED) tb of
     Some i \<Rightarrow> Some i
   | None \<Rightarrow> last_index (\<lambda>j. j_state j = JOB_RUNNING) tb)"

definition job_report :: "Job \<Rightarrow> nat \<Rightarrow> Job" where
  "job_report j wstatus =
     (if WIFEXITED wstatus \<or> WIFSIGNALED wstatus then
        (let j1 = j\<lparr>j_last_status := wstatus\<rparr>
         in if j_nleft j1 > 0
            then (let j2 = j1\<lparr>j_nleft := j_nleft j1 - 1\<rparr>
                  in if j_nleft j2 = 0 then j2\<lparr>j_state := JOB_DONE\<rparr> else j2)
            else j1)
      else if WIFSTOPPED wstatus then j\<lparr>j_state := JOB_STOPPED\<rparr>
      else if WIFCONTINUED wstatus then j\<lparr>j_state := JOB_RUNNING\<rparr>
      else j)"

definition jobs_update :: "table \<Rightarrow> int \<Rightarrow> nat \<Rightarrow> table \<times> nat option" where
  "jobs_update tb pid wstatus = (case job_of_pid tb pid of
     None \<Rightarrow> (tb, None)
   | Some i \<Rightarrow> (tb[i := job_report (tb ! i) wstatus], Some i))"

definition table_remove :: "table \<Rightarrow> nat \<Rightarrow> table" where
  "table_remove tb i = take i tb @ drop (Suc i) tb"

definition reap_pick :: "table \<Rightarrow> nat option" where
  "reap_pick tb =
     foldl (\<lambda>pick i. if j_state (tb ! i) = JOB_DONE
                        \<and> (case pick of None \<Rightarrow> True | Some p \<Rightarrow> j_id (tb ! i) < j_id (tb ! p))
                     then Some i else pick) None [0..<length tb]"

definition done_line :: "Job \<Rightarrow> string" where
  "done_line j = ''['' @ dec_int (j_id j) @ '']  Done  '' @ j_cmdline j @ [NEWLINE]"

definition jobs_count :: "table \<Rightarrow> nat" where "jobs_count tb = length tb"


text \<open>The pick is the finished job with the lowest id.\<close>

lemma reap_pick_upto:
  assumes "n \<le> length tb"
  defines "pick \<equiv> foldl (\<lambda>pick i. if j_state (tb ! i) = JOB_DONE
                  \<and> (case pick of None \<Rightarrow> True | Some p \<Rightarrow> j_id (tb ! i) < j_id (tb ! p))
               then Some i else pick) None [0..<n]"
  shows "case pick of None \<Rightarrow> (\<forall>k<n. j_state (tb ! k) \<noteq> JOB_DONE)
    | Some p \<Rightarrow> p < n \<and> j_state (tb ! p) = JOB_DONE
               \<and> (\<forall>k<n. j_state (tb ! k) = JOB_DONE \<longrightarrow> j_id (tb ! p) \<le> j_id (tb ! k))"
  unfolding pick_def
proof (induction n)
  case 0
  then show ?case by simp
next
  case (Suc n)
  then show ?case
    by (fastforce simp: less_Suc_eq split: option.splits if_splits)
qed

lemma reap_pick_None: "reap_pick tb = None \<longleftrightarrow> (\<forall>j\<in>set tb. j_state j \<noteq> JOB_DONE)"
  using reap_pick_upto [of "length tb" tb]
  by (auto simp: reap_pick_def all_set_conv_all_nth split: option.splits)

lemma reap_pick_Some:
  "reap_pick tb = Some p \<Longrightarrow> p < length tb \<and> j_state (tb ! p) = JOB_DONE
     \<and> (\<forall>j\<in>set tb. j_state j = JOB_DONE \<longrightarrow> j_id (tb ! p) \<le> j_id j)"
  using reap_pick_upto [of "length tb" tb]
  by (auto simp: reap_pick_def all_set_conv_all_nth split: option.splits)

function jobs_reap_notify :: "table \<Rightarrow> string \<times> table" where
  "jobs_reap_notify tb = (case reap_pick tb of
     None \<Rightarrow> ([], tb)
   | Some p \<Rightarrow> (let (out, tb') = jobs_reap_notify (table_remove tb p)
              in (done_line (tb ! p) @ out, tb')))"
  by pat_completeness auto
termination
  by (relation "measure length") (auto simp: table_remove_def dest: reap_pick_Some)

declare jobs_reap_notify.simps [simp del]

section \<open>Invariant\<close>

definition jobs_ok :: "table \<Rightarrow> bool" where
  "jobs_ok tb \<longleftrightarrow> distinct (map j_id tb)
     \<and> (\<forall>j\<in>set tb. 1 \<le> j_id j \<and> j_nproc j = length (j_pids j) \<and> j_nleft j \<le> j_nproc j)"

lemma jobs_ok_Nil [simp]: "jobs_ok []" by (simp add: jobs_ok_def)

lemma jobs_add_ok [nsh_inv]:
  assumes "jobs_ok tb" and "case pids of None \<Rightarrow> True | Some p \<Rightarrow> nproc \<le> length p"
  shows "jobs_ok (jobs_add tb pgid pids nproc cmdline)"
  using assms next_id_from_spec [of 1 tb]
  by (auto simp: jobs_ok_def jobs_add_def next_id_def Let_def split: option.splits)

lemma job_report_frame [simp]:
  "j_id (job_report j w) = j_id j" "j_pids (job_report j w) = j_pids j"
  "j_nproc (job_report j w) = j_nproc j" "j_cmdline (job_report j w) = j_cmdline j"
  "j_pgid (job_report j w) = j_pgid j"
  by (auto simp: job_report_def Let_def)

lemma job_report_nleft:
  "j_nleft (job_report j w) = (if terminal_status w then j_nleft j - 1 else j_nleft j)"
  by (auto simp: job_report_def Let_def terminal_status_def)

lemma jobs_update_ids: "map j_id (fst (jobs_update tb pid w)) = map j_id tb"
  by (auto simp: jobs_update_def job_of_pid_def map_update find_index_Some list_update_same_conv
      split: option.splits)

lemma jobs_update_ok [nsh_inv]:
  assumes "jobs_ok tb"
  shows "jobs_ok (fst (jobs_update tb pid w))"
proof (cases "job_of_pid tb pid")
  case None
  with assms show ?thesis by (simp add: jobs_update_def)
next
  case (Some i)
  then have i: "tb ! i \<in> set tb" by (simp add: job_of_pid_def find_index_Some)
  have "set (tb[i := job_report (tb ! i) w]) \<subseteq> insert (job_report (tb ! i) w) (set tb)"
    by (rule set_update_subset_insert)
  moreover have "j_nleft (job_report (tb ! i) w) \<le> j_nproc (tb ! i)"
    using assms i by (auto simp: jobs_ok_def job_report_nleft)
  ultimately show ?thesis
    using assms i Some jobs_update_ids [of tb pid w]
    by (fastforce simp: jobs_ok_def jobs_update_def)
qed

lemma set_table_remove: "set (table_remove tb i) \<subseteq> set tb"
  by (auto simp: table_remove_def dest: in_set_takeD in_set_dropD)

lemma table_remove_ok [nsh_inv]:
  assumes "jobs_ok tb"
  shows "jobs_ok (table_remove tb i)"
proof -
  have "distinct (map j_id tb)" using assms by (simp add: jobs_ok_def)
  then have "distinct (take i (map j_id tb) @ drop (Suc i) (map j_id tb))"
    using set_take_disj_set_drop_if_distinct [of "map j_id tb" i "Suc i"] by simp
  then have "distinct (map j_id (table_remove tb i))"
    by (simp add: table_remove_def take_map drop_map)
  with assms set_table_remove [of tb i] show ?thesis by (auto simp: jobs_ok_def)
qed

section \<open>Properties\<close>

text \<open>whatever jobs the table holds, \<open>jobs_add\<close> gives the new one the lowest positive id that no
  live job uses, keeps every id unique, and leaves the other entries untouched.\<close>

theorem jobs_add_lowest_free_id:
  assumes "jobs_ok tb" and "nproc \<le> length pids"
  shows "jobs_ok (jobs_add tb pgid (Some pids) nproc (Some cmd)) \<and>
    (\<exists>j. jobs_add tb pgid (Some pids) nproc (Some cmd) = tb @ [j] \<and> j_state j = JOB_RUNNING
       \<and> j_pids j = take nproc pids \<and> j_nleft j = nproc \<and> j_cmdline j = cmd
       \<and> 1 \<le> j_id j \<and> j_id j \<notin> j_id ` set tb \<and> (\<forall>k. 1 \<le> k \<and> k < j_id j \<longrightarrow> k \<in> j_id ` set tb))"
  using jobs_add_ok [OF assms(1), where pids = "Some pids" and nproc = nproc and pgid = pgid
      and cmdline = "Some cmd"] assms(2)
    next_id_from_spec [of 1 tb]
  by (auto simp: jobs_add_def next_id_def Let_def)

text \<open>Reports about one job: the events whose pid the table resolves to entry \<open>i\<close>.\<close>

fun jobs_run :: "table \<Rightarrow> (int \<times> nat) list \<Rightarrow> table" where
  "jobs_run tb [] = tb"
| "jobs_run tb ((pid, w) # evs) = jobs_run (fst (jobs_update tb pid w)) evs"

lemma jobs_update_length [simp]: "length (fst (jobs_update tb pid w)) = length tb"
  by (auto simp: jobs_update_def split: option.splits)

lemma find_index_cong:
  "length xs = length ys \<Longrightarrow> \<forall>k<length xs. P (xs ! k) = Q (ys ! k) \<Longrightarrow> find_index P xs = find_index Q ys"
proof (induction xs ys rule: list_induct2)
  case (Cons x xs y ys)
  have "P x = Q y" using Cons.prems [rule_format, of 0] by simp
  moreover have "P (xs ! k) = Q (ys ! k)" if "k < length xs" for k
    using Cons.prems [rule_format, of "Suc k"] that by simp
  ultimately show ?case using Cons.IH by simp
qed simp

lemma job_of_pid_less: "job_of_pid tb pid = Some i \<Longrightarrow> i < length tb"
  by (simp add: job_of_pid_def find_index_Some)

lemma jobs_update_nth:
  "i < length tb \<Longrightarrow> fst (jobs_update tb pid w) ! i =
     (if job_of_pid tb pid = Some i then job_report (tb ! i) w else tb ! i)"
  by (auto simp: jobs_update_def nth_list_update split: option.splits dest: job_of_pid_less)

lemma job_of_pid_update [simp]: "job_of_pid (fst (jobs_update tb pid w)) q = job_of_pid tb q"
  unfolding job_of_pid_def
  by (rule find_index_cong) (auto simp: jobs_update_nth)

lemma jobs_run_nth:
  "i < length tb \<Longrightarrow> jobs_run tb evs ! i =
     foldl (\<lambda>j (pid, w). job_report j w) (tb ! i) (filter (\<lambda>(pid, w). job_of_pid tb pid = Some i) evs)"
  by (induction tb evs rule: jobs_run.induct) (auto simp: jobs_update_nth)

text \<open>What the kernel reports: behind the report that a process has ended comes no other report of it.\<close>

definition reports_ordered :: "(int \<times> nat) list \<Rightarrow> bool" where
  "reports_ordered evs \<longleftrightarrow> sorted_wrt (\<lambda>e f. fst e = fst f \<longrightarrow> \<not> terminal_status (snd e)) evs"

definition ended :: "(int \<times> nat) list \<Rightarrow> int set" where
  "ended evs = fst ` {e \<in> set evs. terminal_status (snd e)}"

lemma ended_iff: "p \<in> ended evs \<longleftrightarrow> (\<exists>w. (p, w) \<in> set evs \<and> terminal_status w)"
  by (force simp: ended_def)

lemma ended_snoc: "ended (evs @ [(pid, w)]) = (if terminal_status w then insert pid (ended evs) else ended evs)"
  by (auto simp: set_eq_iff ended_iff)

lemma reports_ordered_snoc:
  "reports_ordered (evs @ [(pid, w)]) \<longleftrightarrow> reports_ordered evs \<and> pid \<notin> ended evs"
  by (auto simp: reports_ordered_def sorted_wrt_append ended_def)

lemma job_report_open:
  assumes "j_nleft j = Suc n" "j_state j \<noteq> JOB_DONE"
  shows "j_state (job_report j w) = JOB_DONE \<longleftrightarrow> terminal_status w \<and> n = 0"
  using assms by (auto simp: job_report_def Let_def terminal_status_def)

text \<open>The reports of a job's processes, from any state in which none of them has ended.\<close>

lemma job_reports_count:
  assumes "distinct (j_pids j)" "j_nleft j = length (j_pids j)" "j_pids j \<noteq> []" "j_state j \<noteq> JOB_DONE"
  shows "reports_ordered evs \<Longrightarrow> \<forall>e\<in>set evs. fst e \<in> set (j_pids j) \<Longrightarrow>
    (let j' = foldl (\<lambda>j (pid, w). job_report j w) j evs
     in j_nleft j' = card (set (j_pids j) - ended evs) \<and> (j_state j' = JOB_DONE \<longleftrightarrow> set (j_pids j) \<subseteq> ended evs))"
proof (induction evs rule: rev_induct)
  case Nil
  show ?case using assms by (simp add: ended_def distinct_card)
next
  case (snoc e evs)
  obtain pid w where e: "e = (pid, w)" by (cases e)
  let ?P = "set (j_pids j)" and ?j = "foldl (\<lambda>j (pid, w). job_report j w) j evs"
  have o: "reports_ordered evs" "pid \<notin> ended evs" "pid \<in> ?P" using snoc.prems by (simp_all add: e reports_ordered_snoc)
  have IH: "j_nleft ?j = card (?P - ended evs)" "j_state ?j = JOB_DONE \<longleftrightarrow> ?P \<subseteq> ended evs"
    using snoc.IH o(1) snoc.prems(2) by (simp_all add: Let_def)
  have pid: "pid \<in> ?P - ended evs" using o(2,3) by simp
  then have "card (?P - ended evs) \<noteq> 0" by (auto simp: card_eq_0_iff)
  then obtain n where n: "card (?P - ended evs) = Suc n" using not0_implies_Suc by blast
  have drop: "card (?P - insert pid (ended evs)) = n"
    unfolding Diff_insert [of ?P pid "ended evs"] card_Diff_singleton [OF pid] n by simp
  have notdone: "j_state ?j \<noteq> JOB_DONE" using IH(2) pid by auto
  have "?P \<subseteq> insert pid (ended evs) \<longleftrightarrow> n = 0"
    unfolding drop [symmetric] by (simp add: card_eq_0_iff Diff_eq_empty_iff)
  moreover have "\<not> ?P \<subseteq> ended evs" using pid by auto
  ultimately show ?case
    using job_report_open [OF IH(1) [unfolded n] notdone, of w] IH(1) n drop
    by (simp add: e Let_def ended_snoc job_report_nleft)
qed

lemma reports_ordered_filter: "reports_ordered evs \<Longrightarrow> reports_ordered (filter P evs)"
  by (simp add: reports_ordered_def sorted_wrt_filter)

text \<open>C29: a job is done exactly when all its processes have ended. File a pipeline whose processes belong
  to no other job; whatever the kernel then reports of any processes, stops and continuations in
  between included, in any order but with nothing behind the end of a process, the job's entry is
  \<open>JOB_DONE\<close> if and only if the exit or the death by signal of every process of it was among
  the reports, and its count is the number of those still missing.\<close>

theorem jobs_done_iff_all_reported:
  assumes "pids \<noteq> []" "distinct pids" "\<forall>j\<in>set tb. set (j_pids j) \<inter> set pids = {}" "reports_ordered evs"
  shows "(let j = jobs_run (jobs_add tb pgid (Some pids) (length pids) cmd) evs ! length tb
     in (j_state j = JOB_DONE \<longleftrightarrow> (\<forall>p\<in>set pids. \<exists>w. (p, w) \<in> set evs \<and> terminal_status w))
      \<and> j_nleft j = card {p \<in> set pids. \<not> (\<exists>w. (p, w) \<in> set evs \<and> terminal_status w)})"
proof -
  let ?tb = "jobs_add tb pgid (Some pids) (length pids) cmd"
  obtain j where j: "?tb = tb @ [j]" "j_pids j = pids" "j_nproc j = length pids" "j_nleft j = length pids" "j_state j \<noteq> JOB_DONE"
    by (simp add: jobs_add_def Let_def)
  have owner: "job_of_pid ?tb p = Some (length tb) \<longleftrightarrow> p \<in> set pids" for p
    using assms(3) by (auto simp: job_of_pid_def find_index_Some j nth_append dest: in_set_takeD nth_mem)
  let ?mine = "filter (\<lambda>(p, w). job_of_pid ?tb p = Some (length tb)) evs"
  have mine: "\<forall>e\<in>set ?mine. fst e \<in> set (j_pids j)" by (auto simp: owner j(2))
  have en: "p \<in> ended ?mine \<longleftrightarrow> (\<exists>w. (p, w) \<in> set evs \<and> terminal_status w)" if "p \<in> set pids" for p
    using that by (simp add: ended_iff owner)
  have run: "jobs_run ?tb evs ! length tb = foldl (\<lambda>j (pid, w). job_report j w) j ?mine"
    using jobs_run_nth [of "length tb" ?tb evs] by (simp add: j(1))
  have "set pids - ended ?mine = {p \<in> set pids. \<not> (\<exists>w. (p, w) \<in> set evs \<and> terminal_status w)}" using en by auto
  moreover have "set pids \<subseteq> ended ?mine \<longleftrightarrow> (\<forall>p\<in>set pids. \<exists>w. (p, w) \<in> set evs \<and> terminal_status w)" using en by blast
  ultimately show ?thesis
    using job_reports_count [of j ?mine] assms(1,2) j(2,4,5) mine reports_ordered_filter [OF assms(4)]
    unfolding run by (simp add: Let_def)
qed

text \<open>Reaping sorts the finished jobs by id and keeps the rest in table order.\<close>

definition done_jobs :: "table \<Rightarrow> Job list" where
  "done_jobs tb = sort_key j_id (filter (\<lambda>j. j_state j = JOB_DONE) tb)"

lemma done_jobs_pick:
  assumes "reap_pick tb = Some p" and "distinct (map j_id tb)"
  shows "done_jobs tb = tb ! p # done_jobs (table_remove tb p)"
proof -
  have p: "p < length tb" "j_state (tb ! p) = JOB_DONE"
    and least: "\<forall>j\<in>set tb. j_state j = JOB_DONE \<longrightarrow> j_id (tb ! p) \<le> j_id j"
    using reap_pick_Some [OF assms(1)] by auto
  let ?F = "filter (\<lambda>j. j_state j = JOB_DONE)"
  have tb: "tb = take p tb @ tb ! p # drop (Suc p) tb" using p(1) by (rule id_take_nth_drop)
  have F: "?F tb = ?F (take p tb) @ tb ! p # ?F (drop (Suc p) tb)"
    by (subst tb) (simp add: p(2))
  have R: "?F (table_remove tb p) = ?F (take p tb) @ ?F (drop (Suc p) tb)"
    by (simp add: table_remove_def)
  have dist: "distinct (map j_id (?F tb))"
    using assms(2) by (simp add: distinct_map_filter)
  show ?thesis
  proof (rule map_sorted_distinct_set_unique [where f = j_id])
    have "set (done_jobs tb) \<union> set (tb ! p # done_jobs (table_remove tb p)) = set (?F tb)"
      using F R by (auto simp: done_jobs_def)
    with dist show "inj_on j_id (set (done_jobs tb) \<union> set (tb ! p # done_jobs (table_remove tb p)))"
      by (simp only: distinct_map)
    show "sorted (map j_id (done_jobs tb))" "distinct (map j_id (done_jobs tb))"
      using dist by (simp_all add: done_jobs_def distinct_map inj_on_def)
    have "\<forall>j\<in>set (?F (table_remove tb p)). j_id (tb ! p) \<le> j_id j"
      using least by (auto simp: table_remove_def dest: in_set_takeD in_set_dropD)
    then show "sorted (map j_id (tb ! p # done_jobs (table_remove tb p)))"
      by (simp add: done_jobs_def)
    have "inj_on j_id (set (?F tb))" using dist by (simp only: distinct_map)
    then have "inj_on j_id (set (?F (table_remove tb p)))"
      by (rule inj_on_subset) (use F R in auto)
    then show "distinct (map j_id (tb ! p # done_jobs (table_remove tb p)))"
      using dist F R by (auto simp: done_jobs_def distinct_map)
    show "set (done_jobs tb) = set (tb ! p # done_jobs (table_remove tb p))"
      using F R by (auto simp: done_jobs_def)
  qed
qed

lemma reap_notify_spec:
  "jobs_ok tb \<Longrightarrow> jobs_reap_notify tb =
     (concat (map done_line (done_jobs tb)), filter (\<lambda>j. j_state j \<noteq> JOB_DONE) tb)"
proof (induction tb rule: jobs_reap_notify.induct)
  case (1 tb)
  show ?case
  proof (cases "reap_pick tb")
    case None
    then have nd: "\<forall>j\<in>set tb. j_state j \<noteq> JOB_DONE" by (simp add: reap_pick_None)
    then have "filter (\<lambda>j. j_state j = JOB_DONE) tb = []" "filter (\<lambda>j. j_state j \<noteq> JOB_DONE) tb = tb"
      by (auto simp: filter_empty_conv filter_id_conv)
    with None show ?thesis by (subst jobs_reap_notify.simps) (simp add: done_jobs_def)
  next
    case (Some p)
    have p: "p < length tb" "j_state (tb ! p) = JOB_DONE" using reap_pick_Some [OF Some] by auto
    have "filter (\<lambda>j. j_state j \<noteq> JOB_DONE) tb =
        filter (\<lambda>j. j_state j \<noteq> JOB_DONE) (take p tb @ tb ! p # drop (Suc p) tb)"
      using id_take_nth_drop [OF p(1)] by simp
    then have "filter (\<lambda>j. j_state j \<noteq> JOB_DONE) tb = filter (\<lambda>j. j_state j \<noteq> JOB_DONE) (table_remove tb p)"
      using p(2) by (simp add: table_remove_def)
    moreover have "done_jobs tb = tb ! p # done_jobs (table_remove tb p)"
      using done_jobs_pick [OF Some] "1.prems" by (simp add: jobs_ok_def)
    ultimately show ?thesis
      using "1.IH" [OF Some table_remove_ok [OF "1.prems"]] Some
      by (subst jobs_reap_notify.simps) simp
  qed
qed

text \<open>C31: \<open>jobs_reap_notify\<close> ends, prints one \<open>Done\<close> line for every finished job and no other, in
  ascending id order whatever the table order, and leaves exactly the unfinished jobs, in
  their order.\<close>

theorem jobs_reap_prints_and_prunes:
  assumes "jobs_ok tb"
  shows "fst (jobs_reap_notify tb) = concat (map done_line (done_jobs tb))
    \<and> snd (jobs_reap_notify tb) = filter (\<lambda>j. j_state j \<noteq> JOB_DONE) tb
    \<and> jobs_ok (snd (jobs_reap_notify tb)) \<and> reap_pick (snd (jobs_reap_notify tb)) = None"
  using assms reap_notify_spec [OF assms]
  by (auto simp: reap_pick_None jobs_ok_def distinct_map_filter)

definition example_table :: table where
  "example_table = jobs_run
     (jobs_add (jobs_add [] 10 (Some [10, 11]) 2 (Some ''a | b'')) 20 (Some [20]) 1 (Some ''c''))
     [(20, 0), (11, 256)]"

lemma jobs_run_ok [nsh_inv]: "jobs_ok tb \<Longrightarrow> jobs_ok (jobs_run tb evs)"
  by (induction tb evs rule: jobs_run.induct) (auto intro: nsh_inv)

lemma example_table_ok: "jobs_ok example_table"
  unfolding example_table_def by (intro nsh_inv) simp_all

theorem jobs_add_lowest_free_id_witness:
  "1 \<le> j_id (last (jobs_add example_table 30 (Some [30]) 1 (Some ''d'')))
    \<and> j_id (last (jobs_add example_table 30 (Some [30]) 1 (Some ''d''))) \<notin> j_id ` set example_table"
  using jobs_add_lowest_free_id [OF example_table_ok, of 1 "[30]" 30 "''d''"] by auto

theorem jobs_done_iff_all_reported_witness:
  "(let j = jobs_run (jobs_add [] 10 (Some [10, 11]) (length [10, 11 :: int]) (Some ''a | b'')) [(11, 4991), (11, 65535), (10, 9), (11, 256)] ! length ([] :: table)
    in j_state j = JOB_DONE)"
proof -
  have t: "terminal_status 9" "terminal_status 256" "\<not> terminal_status 4991" "\<not> terminal_status 65535"
    by (simp_all add: terminal_status_def WIFEXITED_def WIFSIGNALED_def WTERMSIG_def)
  have o: "reports_ordered [(11, 4991), (11, 65535), (10, 9), (11, 256)]" by (simp add: reports_ordered_def t)
  have mem: "(10, 9) \<in> set [(11, 4991), (11, 65535), (10, 9), (11, 256)]" "(11, 256) \<in> set [(11, 4991), (11, 65535), (10, 9), (11, 256)]"
    by simp_all
  have all: "\<forall>p\<in>set [10, 11 :: int]. \<exists>w. (p, w) \<in> set [(11, 4991), (11, 65535), (10, 9), (11, 256)] \<and> terminal_status w"
    unfolding list.set(2) [of 10] ball_simps using mem t(1,2) by simp blast
  have d: "[10, 11 :: int] \<noteq> []" "distinct [10, 11 :: int]" "\<forall>j\<in>set ([] :: table). set (j_pids j) \<inter> set [10, 11] = {}" by simp_all
  show ?thesis
    using jobs_done_iff_all_reported [OF d o, of 10 "Some ''a | b''"] all unfolding Let_def by blast
qed

theorem jobs_reap_prints_and_prunes_witness:
  "fst (jobs_reap_notify example_table) = ''[2]  Done  c'' @ [NEWLINE]"
proof -
  have "concat (map done_line (done_jobs example_table)) = ''[2]  Done  c'' @ [NEWLINE]" by code_simp
  with jobs_reap_prints_and_prunes [OF example_table_ok] show ?thesis by simp
qed

end
