(* ===== verification/Lexer.thy ===== *)
theory Lexer
  imports Util
begin

text \<open>
  \<open>src/shell/lexer.c\<close> and \<open>token.h\<close>: one left-to-right pass over a line. The scan position is
  the rest of the line, so \<open>line[i]\<close> is its head and the terminating NUL is the empty rest.
  Words under construction live in a \<open>WordBuf\<close>; an unterminated quote is \<open>None\<close>
  (\<open>SCAN_UNTERMINATED\<close>). Token lists own their segments in C; here they are values.
\<close>

section \<open>Tokens\<close>

datatype TokenKind =
    TOK_WORD | TOK_PIPE | TOK_REDIR_IN | TOK_REDIR_OUT | TOK_REDIR_APPEND | TOK_REDIR_ERR
  | TOK_AMP | TOK_AND_IF | TOK_OR_IF | TOK_SEMI | TOK_NEWLINE | TOK_LPAREN | TOK_RPAREN

record WordSeg =
  ws_text :: string
  ws_expand :: bool

record Token =
  t_kind :: TokenKind
  t_segs :: "WordSeg list"

type_synonym TokenList = "Token list"

record WordBuf =
  wb_segs :: "WordSeg list"
  wb_cur :: string

definition wordbuf_init :: WordBuf where
  "wordbuf_init = \<lparr>wb_segs = [], wb_cur = []\<rparr>"

definition wordbuf_pending :: "WordBuf \<Rightarrow> bool" where
  "wordbuf_pending w \<longleftrightarrow> length (wb_segs w) > 0 \<or> length (wb_cur w) > 0"

definition wordbuf_push_seg :: "WordBuf \<Rightarrow> string \<Rightarrow> bool \<Rightarrow> WordBuf" where
  "wordbuf_push_seg w t e = w\<lparr>wb_segs := wb_segs w @ [\<lparr>ws_text = t, ws_expand = e\<rparr>]\<rparr>"

definition wordbuf_flush_bare :: "WordBuf \<Rightarrow> WordBuf" where
  "wordbuf_flush_bare w =
     (if length (wb_cur w) > 0 then (wordbuf_push_seg w (wb_cur w) True)\<lparr>wb_cur := []\<rparr> else w)"

definition wordbuf_finish :: "WordBuf \<Rightarrow> TokenList \<Rightarrow> WordBuf \<times> TokenList" where
  "wordbuf_finish w out =
     (if \<not> wordbuf_pending w then (w, out)
      else (let w1 = wordbuf_flush_bare w
            in (w1\<lparr>wb_segs := []\<rparr>, out @ [\<lparr>t_kind = TOK_WORD, t_segs = wb_segs w1\<rparr>])))"

definition push_op :: "TokenList \<Rightarrow> TokenKind \<Rightarrow> TokenList" where
  "push_op out k = out @ [\<lparr>t_kind = k, t_segs = []\<rparr>]"

definition is_blank :: "char \<Rightarrow> bool" where
  "is_blank c \<longleftrightarrow> c = CHR '' '' \<or> c = TAB"

definition is_op_char :: "char \<Rightarrow> bool" where
  "is_op_char c \<longleftrightarrow> c = CHR ''>'' \<or> c = CHR ''<'' \<or> c = CHR ''|'' \<or> c = CHR ''&'' \<or> c = CHR '';''
     \<or> c = CHR ''('' \<or> c = CHR '')''"

definition op_kind :: "char \<Rightarrow> TokenKind" where
  "op_kind c =
     (if c = CHR ''<'' then TOK_REDIR_IN
      else if c = CHR ''|'' then TOK_PIPE
      else if c = CHR ''&'' then TOK_AMP
      else if c = CHR '';'' then TOK_SEMI
      else if c = CHR ''('' then TOK_LPAREN
      else if c = CHR '')'' then TOK_RPAREN
      else TOK_REDIR_OUT)"

definition op_kind2 :: "char \<Rightarrow> char \<Rightarrow> TokenKind" where
  "op_kind2 a b =
     (if a \<noteq> b then TOK_WORD
      else if a = CHR ''>'' then TOK_REDIR_APPEND
      else if a = CHR ''&'' then TOK_AND_IF
      else if a = CHR ''|'' then TOK_OR_IF
      else TOK_WORD)"

abbreviation DQ :: char where "DQ \<equiv> CHR 0x22"
abbreviation SQ :: char where "SQ \<equiv> CHR 0x27"
abbreviation BSLASH :: char where "BSLASH \<equiv> CHR 0x5C"
abbreviation BACKTICK :: char where "BACKTICK \<equiv> CHR 0x60"

definition dq_escapes :: "char \<Rightarrow> bool" where
  "dq_escapes c \<longleftrightarrow> c = CHR ''$'' \<or> c = DQ \<or> c = BSLASH \<or> c = BACKTICK"

text \<open>\<open>line[i]\<close> at the rest of the line.\<close>

definition peek :: "string \<Rightarrow> char" where
  "peek s = (case s of [] \<Rightarrow> NUL | c # _ \<Rightarrow> c)"

section \<open>Scanning a quoting run\<close>

text \<open>Both loops start behind the opening quote and give the text and the rest behind the closing one.\<close>

fun single_body :: "string \<Rightarrow> (string \<times> string) option" where
  "single_body [] = None"
| "single_body (c # cs) =
     (if c = SQ then Some ([], cs)
      else map_option (\<lambda>(q, r). (c # q, r)) (single_body cs))"

definition scan_single :: "string \<Rightarrow> WordBuf \<Rightarrow> (string \<times> WordBuf) option" where
  "scan_single line w = (case single_body (tl line) of
     None \<Rightarrow> None
   | Some (q, rest) \<Rightarrow> Some (rest, wordbuf_push_seg (wordbuf_flush_bare w) q False))"

fun double_body :: "string \<Rightarrow> (string \<times> string) option" where
  "double_body [] = None"
| "double_body (c # cs) =
     (if c = DQ then Some ([], cs)
      else if c = BSLASH \<and> dq_escapes (peek cs)
           then map_option (\<lambda>(q, r). (peek cs # q, r)) (double_body (tl cs))
      else map_option (\<lambda>(q, r). (c # q, r)) (double_body cs))"

definition scan_double :: "string \<Rightarrow> WordBuf \<Rightarrow> (string \<times> WordBuf) option" where
  "scan_double line w = (case double_body (tl line) of
     None \<Rightarrow> None
   | Some (q, rest) \<Rightarrow> Some (rest, wordbuf_push_seg (wordbuf_flush_bare w) q True))"

definition scan_escape :: "string \<Rightarrow> WordBuf \<Rightarrow> string \<times> WordBuf" where
  "scan_escape line w =
     (let r = tl line
      in if r = [] \<or> peek r = NEWLINE then (r, w\<lparr>wb_cur := wb_cur w @ [BSLASH]\<rparr>)
         else (tl r, w\<lparr>wb_cur := wb_cur w @ [peek r]\<rparr>))"

lemma single_body_length: "single_body s = Some (q, r) \<Longrightarrow> length r < length s"
  by (induction s arbitrary: q) (auto split: if_splits)

lemma double_body_length: "double_body s = Some (q, r) \<Longrightarrow> length r < length s"
proof (induction s arbitrary: q rule: double_body.induct)
  case (2 c cs)
  then show ?case
    by (cases cs) (fastforce split: if_splits)+
qed simp

section \<open>The scanner\<close>

fun skip_comment :: "string \<Rightarrow> string" where
  "skip_comment [] = []"
| "skip_comment (c # cs) = (if c = NEWLINE then c # cs else skip_comment cs)"

lemma skip_comment_length: "length (skip_comment s) \<le> length s"
  by (induction s) auto

text \<open>What the last four branches of the loop body do: one quoting run or one character.\<close>

definition scan_char :: "string \<Rightarrow> WordBuf \<Rightarrow> (string \<times> WordBuf) option" where
  "scan_char line w =
     (if peek line = SQ then scan_single line w
      else if peek line = DQ then scan_double line w
      else if peek line = BSLASH then Some (scan_escape line w)
      else Some (tl line, w\<lparr>wb_cur := wb_cur w @ [peek line]\<rparr>))"

lemma scan_char_length: "scan_char (c # cs) w = Some (r, w') \<Longrightarrow> length r < Suc (length cs)"
  by (auto simp: scan_char_def peek_def scan_single_def scan_double_def scan_escape_def Let_def
      less_Suc_eq_le split: if_splits option.splits
      dest!: single_body_length double_body_length)

text \<open>One iteration of the loop of \<open>lexer_scan\<close>: the character at \<open>i\<close> and the rest behind it.\<close>

definition lexer_step ::
  "char \<Rightarrow> string \<Rightarrow> bool \<Rightarrow> WordBuf \<Rightarrow> TokenList \<Rightarrow> (string \<times> bool \<times> WordBuf \<times> TokenList) option" where
  "lexer_step c cs at_word_start w out =
     (if is_blank c then
        (let (w1, out1) = wordbuf_finish w out in Some (cs, True, w1, out1))
      else if c = NEWLINE then
        (let (w1, out1) = wordbuf_finish w out in Some (cs, True, w1, push_op out1 TOK_NEWLINE))
      else if at_word_start \<and> c = CHR ''#'' then
        Some (skip_comment cs, at_word_start, w, out)
      else if at_word_start \<and> c = CHR ''2'' \<and> peek cs = CHR ''>'' then
        Some (tl cs, at_word_start, w, push_op out TOK_REDIR_ERR)
      else if is_op_char c then
        (let (w1, out1) = wordbuf_finish w out; two = op_kind2 c (peek cs)
         in if two \<noteq> TOK_WORD then Some (tl cs, True, w1, push_op out1 two)
            else Some (cs, True, w1, push_op out1 (op_kind c)))
      else (case scan_char (c # cs) w of
          None \<Rightarrow> None
        | Some (next, w1) \<Rightarrow> Some (next, False, w1, out)))"

lemma lexer_step_length:
  "lexer_step c cs ws w out = Some (r, ws', w', out') \<Longrightarrow> length r < Suc (length cs)"
  using skip_comment_length [of cs]
  by (auto simp: lexer_step_def Let_def less_Suc_eq_le split: if_splits option.splits prod.splits
      dest: scan_char_length)

function lexer_loop :: "string \<Rightarrow> bool \<Rightarrow> WordBuf \<Rightarrow> TokenList \<Rightarrow> TokenList option" where
  "lexer_loop [] at_word_start w out = Some (snd (wordbuf_finish w out))"
| "lexer_loop (c # cs) at_word_start w out =
     (case lexer_step c cs at_word_start w out of
        None \<Rightarrow> None
      | Some (r, ws', w', out') \<Rightarrow> lexer_loop r ws' w' out')"
  by pat_completeness auto
termination
  by (relation "measure (\<lambda>(s, _). length s)") (auto dest: lexer_step_length)

declare lexer_loop.simps [simp del]

definition lexer_scan :: "string \<Rightarrow> NshError \<times> TokenList" where
  "lexer_scan line = (case lexer_loop (cstr line) True wordbuf_init [] of
     None \<Rightarrow> (NSH_ERR_INCOMPLETE, [])
   | Some out \<Rightarrow> (NSH_OK, out))"


lemmas eval_lexer = lexer_scan_def cstr_def lexer_loop.simps lexer_step_def scan_char_def scan_escape_def
  scan_single_def scan_double_def wordbuf_finish_def wordbuf_pending_def wordbuf_flush_bare_def
  wordbuf_push_seg_def wordbuf_init_def push_op_def is_blank_def is_op_char_def op_kind_def
  op_kind2_def dq_escapes_def peek_def Let_def

section \<open>Well-formed tokens\<close>

definition seg_ok :: "WordSeg \<Rightarrow> bool" where
  "seg_ok s \<longleftrightarrow> nul_free (ws_text s) \<and> (\<not> ws_expand s \<longrightarrow> SQ \<notin> set (ws_text s))"

definition tok_ok :: "Token \<Rightarrow> bool" where
  "tok_ok t \<longleftrightarrow> (t_kind t = TOK_WORD \<longleftrightarrow> t_segs t \<noteq> []) \<and> (\<forall>s\<in>set (t_segs t). seg_ok s)"

definition wordbuf_ok :: "WordBuf \<Rightarrow> bool" where
  "wordbuf_ok w \<longleftrightarrow> (\<forall>s\<in>set (wb_segs w). seg_ok s) \<and> nul_free (wb_cur w)"

lemma wordbuf_init_ok [simp]: "wordbuf_ok wordbuf_init"
  by (simp add: wordbuf_ok_def wordbuf_init_def)

lemma wordbuf_flush_ok [nsh_inv]: "wordbuf_ok w \<Longrightarrow> wordbuf_ok (wordbuf_flush_bare w)"
  by (auto simp: wordbuf_ok_def wordbuf_flush_bare_def wordbuf_push_seg_def seg_ok_def)

lemma wordbuf_push_ok [nsh_inv]:
  "wordbuf_ok w \<Longrightarrow> nul_free t \<Longrightarrow> (\<not> e \<Longrightarrow> SQ \<notin> set t) \<Longrightarrow> wordbuf_ok (wordbuf_push_seg w t e)"
  by (auto simp: wordbuf_ok_def wordbuf_push_seg_def seg_ok_def)

lemma wordbuf_finish_ok:
  assumes "wordbuf_finish w out = (w', out')" "wordbuf_ok w" "\<forall>t\<in>set out. tok_ok t"
  shows "wordbuf_ok w' \<and> (\<forall>t\<in>set out'. tok_ok t)"
  using assms wordbuf_flush_ok [of w]
  by (auto simp: wordbuf_finish_def Let_def tok_ok_def wordbuf_ok_def wordbuf_pending_def
      wordbuf_flush_bare_def wordbuf_push_seg_def split: if_splits)

lemma push_op_ok: "\<forall>t\<in>set out. tok_ok t \<Longrightarrow> k \<noteq> TOK_WORD \<Longrightarrow> \<forall>t\<in>set (push_op out k). tok_ok t"
  by (auto simp: push_op_def tok_ok_def)

lemma single_body_chars:
  "single_body s = Some (q, r) \<Longrightarrow> set q \<subseteq> set s \<and> set r \<subseteq> set s \<and> SQ \<notin> set q"
  by (induction s arbitrary: q) (auto split: if_splits, (blast+)?)

lemma double_body_chars: "double_body s = Some (q, r) \<Longrightarrow> set q \<subseteq> set s \<and> set r \<subseteq> set s"
proof (induction s arbitrary: q rule: double_body.induct)
  case (2 c cs)
  then show ?case
    by (cases cs) (fastforce simp: peek_def split: if_splits)+
qed simp

lemma nul_free_subset: "set q \<subseteq> set s \<Longrightarrow> nul_free s \<Longrightarrow> nul_free q"
  by (auto simp: nul_free_def)

lemma scan_single_ok:
  assumes "scan_single (c # cs) w = Some (r, w')" "wordbuf_ok w" "nul_free (c # cs)"
  shows "wordbuf_ok w' \<and> nul_free r"
proof -
  from assms(1) obtain q where q: "single_body cs = Some (q, r)"
    and w': "w' = wordbuf_push_seg (wordbuf_flush_bare w) q False"
    by (auto simp: scan_single_def split: option.splits)
  from single_body_chars [OF q] assms(3) have "nul_free q" "nul_free r" "SQ \<notin> set q"
    by (auto intro: nul_free_subset)
  with w' assms(2) show ?thesis by (simp add: wordbuf_push_ok wordbuf_flush_ok)
qed

lemma scan_double_ok:
  assumes "scan_double (c # cs) w = Some (r, w')" "wordbuf_ok w" "nul_free (c # cs)"
  shows "wordbuf_ok w' \<and> nul_free r"
proof -
  from assms(1) obtain q where q: "double_body cs = Some (q, r)"
    and w': "w' = wordbuf_push_seg (wordbuf_flush_bare w) q True"
    by (auto simp: scan_double_def split: option.splits)
  from double_body_chars [OF q] assms(3) have "nul_free q" "nul_free r"
    by (auto intro: nul_free_subset)
  with w' assms(2) show ?thesis by (auto intro: wordbuf_push_ok wordbuf_flush_ok)
qed

lemma scan_escape_ok:
  assumes "scan_escape (c # cs) w = (r, w')" "wordbuf_ok w" "nul_free (c # cs)"
  shows "wordbuf_ok w' \<and> nul_free r"
  using assms by (cases cs)
    (auto simp: scan_escape_def Let_def peek_def wordbuf_ok_def split: if_splits)

lemma scan_char_ok:
  assumes "scan_char (c # cs) w = Some (r, w')" "wordbuf_ok w" "nul_free (c # cs)"
  shows "wordbuf_ok w' \<and> nul_free r"
proof -
  have "wordbuf_ok (w\<lparr>wb_cur := wb_cur w @ [c]\<rparr>)"
    using assms(2,3) by (simp add: wordbuf_ok_def)
  with assms show ?thesis
    by (auto simp: scan_char_def peek_def split: if_splits
        dest: scan_single_ok scan_double_ok scan_escape_ok)
qed

lemma skip_comment_chars: "set (skip_comment s) \<subseteq> set s"
  by (induction s) auto

lemma nul_free_tl [simp]: "nul_free s \<Longrightarrow> nul_free (tl s)"
  by (cases s) auto

lemma lexer_step_ok:
  assumes "lexer_step c cs ws w out = Some (r, ws', w', out')"
    and "wordbuf_ok w" "nul_free (c # cs)" "\<forall>t\<in>set out. tok_ok t"
  shows "wordbuf_ok w' \<and> nul_free r \<and> (\<forall>t\<in>set out'. tok_ok t)"
proof -
  obtain w1 out1 where fin: "wordbuf_finish w out = (w1, out1)"
    by (cases "wordbuf_finish w out")
  have ok1: "wordbuf_ok w1" "\<forall>t\<in>set out1. tok_ok t"
    using wordbuf_finish_ok [OF fin assms(2,4)] by auto
  have cs: "nul_free cs" "nul_free (tl cs)" "nul_free (skip_comment cs)"
    using assms(3) skip_comment_chars [of cs] by (auto intro: nul_free_subset)
  have opk: "op_kind c \<noteq> TOK_WORD" by (simp add: op_kind_def)
  show ?thesis
    using assms(1,2,4) ok1 cs opk push_op_ok [OF assms(4)] push_op_ok [OF ok1(2)]
      push_op_ok [OF ok1(2), of TOK_NEWLINE] push_op_ok [OF assms(4), of TOK_REDIR_ERR]
      scan_char_ok [OF _ assms(2,3), of r w']
    unfolding lexer_step_def by (auto simp: Let_def fin split: if_split_asm option.split_asm)
qed

lemma lexer_loop_ok:
  assumes "lexer_loop s ws w out = Some a" "wordbuf_ok w" "nul_free s" "\<forall>t\<in>set out. tok_ok t"
  shows "\<forall>t\<in>set a. tok_ok t"
  using assms
proof (induction s ws w out rule: lexer_loop.induct)
  case (1 ws w out)
  then show ?case
    using wordbuf_finish_ok [of w out] by (cases "wordbuf_finish w out") (simp add: lexer_loop.simps)
next
  case (2 c cs ws w out)
  then obtain r ws' w' out' where st: "lexer_step c cs ws w out = Some (r, ws', w', out')"
    and run: "lexer_loop r ws' w' out' = Some a"
    by (auto simp: lexer_loop.simps split: option.splits)
  from lexer_step_ok [OF st "2.prems"(2-4)]
  show ?case using "2.IH" [OF st refl refl refl run] by blast
qed

text \<open>Whatever the line, the lexer succeeds or reports an incomplete line. On success every token
  is well formed: a word has at least one segment, an operator has none, no segment text holds
  a NUL, and a single-quoted segment has no quote in it; on failure no token is left over.\<close>

theorem lexer_scan_wellformed:
  "fst (lexer_scan line) \<in> {NSH_OK, NSH_ERR_INCOMPLETE} \<and>
   (\<forall>t\<in>set (snd (lexer_scan line)). tok_ok t) \<and>
   (fst (lexer_scan line) = NSH_ERR_INCOMPLETE \<longrightarrow> snd (lexer_scan line) = [])"
  by (auto simp: lexer_scan_def split: option.splits dest: lexer_loop_ok)

lemma lexer_scan_wellformed_witness:
  "list_all tok_ok (snd (lexer_scan ''ls | wc'')) \<and> length (snd (lexer_scan ''ls | wc'')) = 3"
  using lexer_scan_wellformed [of "''ls | wc''"] by (simp add: eval_lexer list_all_iff)

section \<open>Printing tokens and scanning them back\<close>

fun esc :: "string \<Rightarrow> string" where
  "esc [] = []"
| "esc (c # cs) = (if dq_escapes c then BSLASH # c # esc cs else c # esc cs)"

definition render_seg :: "WordSeg \<Rightarrow> string" where
  "render_seg s =
     (if ws_expand s then DQ # esc (ws_text s) @ [DQ] else SQ # ws_text s @ [SQ])"

fun render_op :: "TokenKind \<Rightarrow> string" where
  "render_op TOK_WORD = []"
| "render_op TOK_PIPE = ''|''"
| "render_op TOK_REDIR_IN = ''<''"
| "render_op TOK_REDIR_OUT = ''>''"
| "render_op TOK_REDIR_APPEND = ''>>''"
| "render_op TOK_REDIR_ERR = ''2>''"
| "render_op TOK_AMP = ''&''"
| "render_op TOK_AND_IF = ''&&''"
| "render_op TOK_OR_IF = ''||''"
| "render_op TOK_SEMI = '';''"
| "render_op TOK_NEWLINE = [NEWLINE]"
| "render_op TOK_LPAREN = ''(''"
| "render_op TOK_RPAREN = '')''"

definition render_tok :: "Token \<Rightarrow> string" where
  "render_tok t = render_op (t_kind t) @ concat (map render_seg (t_segs t)) @ '' ''"

definition render :: "TokenList \<Rightarrow> string" where
  "render ts = concat (map render_tok ts)"

lemma single_body_render: "SQ \<notin> set q \<Longrightarrow> single_body (q @ SQ # r) = Some (q, r)"
  by (induction q) auto

lemma double_body_render: "double_body (esc q @ DQ # r) = Some (q, r)"
  by (induction q) (auto simp: peek_def dq_escapes_def)

lemma render_seg_step:
  assumes "seg_ok g" "wb_cur w = []"
  shows "lexer_loop (render_seg g @ r) ws w out = lexer_loop r False (w\<lparr>wb_segs := wb_segs w @ [g]\<rparr>) out"
  using assms
  by (cases g) (auto simp: render_seg_def lexer_loop.simps(2) lexer_step_def is_blank_def is_op_char_def
      scan_char_def peek_def scan_single_def scan_double_def single_body_render double_body_render
      seg_ok_def wordbuf_flush_bare_def wordbuf_push_seg_def)

lemma render_segs_step:
  "\<forall>g\<in>set gs. seg_ok g \<Longrightarrow> wb_cur w = [] \<Longrightarrow> gs \<noteq> [] \<Longrightarrow>
   lexer_loop (concat (map render_seg gs) @ r) ws w out
     = lexer_loop r False (w\<lparr>wb_segs := wb_segs w @ gs\<rparr>) out"
proof (induction gs arbitrary: ws w)
  case (Cons g gs)
  then show ?case by (cases "gs = []") (simp_all add: render_seg_step)
qed simp

lemma loop_blank: "lexer_loop (CHR '' '' # r) ws w out
    = lexer_loop r True (fst (wordbuf_finish w out)) (snd (wordbuf_finish w out))"
  by (simp add: lexer_loop.simps(2) lexer_step_def is_blank_def split: prod.splits)

lemma finish_init [simp]: "wordbuf_finish wordbuf_init out = (wordbuf_init, out)"
  by (simp add: wordbuf_finish_def wordbuf_init_def wordbuf_pending_def)

lemma render_op_step:
  assumes "k \<noteq> TOK_WORD"
  shows "lexer_loop (render_op k @ CHR '' '' # r) True wordbuf_init out
    = lexer_loop r True wordbuf_init (out @ [\<lparr>t_kind = k, t_segs = []\<rparr>])"
  using assms
  by (cases k) (simp_all add: loop_blank lexer_loop.simps(2) [of _ _ True] lexer_step_def is_blank_def
      is_op_char_def op_kind_def op_kind2_def peek_def push_op_def)

lemma render_tok_step:
  assumes "tok_ok t"
  shows "lexer_loop (render_tok t @ r) True wordbuf_init out = lexer_loop r True wordbuf_init (out @ [t])"
proof (cases "t_kind t = TOK_WORD")
  case True
  with assms have "t_segs t \<noteq> []" "\<forall>g\<in>set (t_segs t). seg_ok g" by (auto simp: tok_ok_def)
  moreover from this True have "wordbuf_finish (wordbuf_init\<lparr>wb_segs := t_segs t\<rparr>) out
      = (wordbuf_init, out @ [t])"
    by (cases t) (simp add: wordbuf_finish_def wordbuf_init_def wordbuf_pending_def
        wordbuf_flush_bare_def)
  ultimately show ?thesis
    using True by (simp add: render_tok_def render_segs_step loop_blank wordbuf_init_def)
next
  case False
  with assms have "t_segs t = []" by (auto simp: tok_ok_def)
  with False show ?thesis
    using render_op_step [OF False, of r out] by (cases t) (simp add: render_tok_def)
qed

lemma render_steps:
  "\<forall>t\<in>set ts. tok_ok t \<Longrightarrow> lexer_loop (render ts) True wordbuf_init out = Some (out @ ts)"
proof (induction ts arbitrary: out)
  case Nil
  then show ?case by (simp add: render_def lexer_loop.simps)
next
  case (Cons t ts)
  then show ?case by (simp add: render_def render_tok_step)
qed

lemma nul_free_esc: "nul_free q \<Longrightarrow> nul_free (esc q)"
  by (induction q) auto

lemma nul_free_concat: "nul_free (concat xss) \<longleftrightarrow> (\<forall>xs\<in>set xss. nul_free xs)"
  by (auto simp: nul_free_def)

lemma nul_free_render: "\<forall>t\<in>set ts. tok_ok t \<Longrightarrow> nul_free (render ts)"
proof -
  have "nul_free (render_op k)" for k by (cases k) simp_all
  moreover have "seg_ok g \<Longrightarrow> nul_free (render_seg g)" for g
    by (simp add: render_seg_def seg_ok_def nul_free_esc)
  ultimately show "\<forall>t\<in>set ts. tok_ok t \<Longrightarrow> nul_free (render ts)"
    by (auto simp: render_def nul_free_concat render_tok_def tok_ok_def)
qed

lemma lexer_render: "\<forall>t\<in>set ts. tok_ok t \<Longrightarrow> lexer_scan (render ts) = (NSH_OK, ts)"
  using render_steps [of ts "[]"] nul_free_render [of ts] by (simp add: lexer_scan_def cstr_id)

text \<open>Every well-formed token list can be written as a line (words as quoted segments, with the
  four double-quote escapes), and scanning that line gives back exactly the same tokens.\<close>

theorem lexer_scan_render:
  assumes "\<forall>t\<in>set ts. tok_ok t"
  shows "lexer_scan (render ts) = (NSH_OK, ts)"
  by (rule lexer_render [OF assms])

lemma lexer_scan_render_witness:
  "lexer_scan (render [\<lparr>t_kind = TOK_WORD, t_segs = [\<lparr>ws_text = ''a$'', ws_expand = True\<rparr>, \<lparr>ws_text = [], ws_expand = False\<rparr>]\<rparr>,
      \<lparr>t_kind = TOK_REDIR_ERR, t_segs = []\<rparr>])
   = (NSH_OK, [\<lparr>t_kind = TOK_WORD, t_segs = [\<lparr>ws_text = ''a$'', ws_expand = True\<rparr>, \<lparr>ws_text = [], ws_expand = False\<rparr>]\<rparr>,
      \<lparr>t_kind = TOK_REDIR_ERR, t_segs = []\<rparr>])"
  by (rule lexer_scan_render) (simp add: tok_ok_def seg_ok_def)

section \<open>Scanning several lines\<close>

text \<open>
  A complete prefix followed by a newline lexes to the prefix's tokens, a newline token and
  the tokens of what follows: the shell may accumulate continuation lines in one buffer.
\<close>

lemma skip_comment_append [simp]: "skip_comment (s @ NEWLINE # t) = skip_comment s @ NEWLINE # t"
  by (induction s) auto

lemma single_body_append: "single_body s = Some (q, r) \<Longrightarrow> single_body (s @ t) = Some (q, r @ t)"
  by (induction s arbitrary: q) (auto split: if_splits)

lemma peek_append_newline:
  "P NUL = P NEWLINE \<Longrightarrow> P (peek (s @ NEWLINE # t)) = P (peek s)"
  by (cases s) (auto simp: peek_def)

lemma double_body_append:
  "double_body s = Some (q, r) \<Longrightarrow> double_body (s @ NEWLINE # t) = Some (q, r @ NEWLINE # t)"
proof (induction s arbitrary: q rule: double_body.induct)
  case (2 c cs)
  have p: "dq_escapes (peek (cs @ NEWLINE # t)) = dq_escapes (peek cs)"
    by (rule peek_append_newline) (simp add: dq_escapes_def)
  show ?case
  proof (cases cs)
    case Nil
    with 2 show ?thesis by (auto simp: peek_def dq_escapes_def split: if_splits)
  next
    case (Cons d ds)
    with 2 p show ?thesis by (auto simp: peek_def split: if_splits)
  qed
qed simp

lemma scan_char_append:
  assumes "scan_char (c # cs) w = Some (r, w')"
  shows "scan_char (c # cs @ NEWLINE # t) w = Some (r @ NEWLINE # t, w')"
proof -
  have "scan_escape (c # cs @ NEWLINE # t) w = (r @ NEWLINE # t, w')"
    if "scan_escape (c # cs) w = (r, w')"
    using that by (cases cs) (auto simp: scan_escape_def peek_def Let_def split: if_splits)
  moreover have "scan_single (c # cs @ NEWLINE # t) w = Some (r @ NEWLINE # t, w')"
    if "scan_single (c # cs) w = Some (r, w')"
    using that by (cases "single_body cs") (auto simp: scan_single_def single_body_append)
  moreover have "scan_double (c # cs @ NEWLINE # t) w = Some (r @ NEWLINE # t, w')"
    if "scan_double (c # cs) w = Some (r, w')"
    using that by (cases "double_body cs") (auto simp: scan_double_def double_body_append)
  ultimately show ?thesis
    using assms by (auto simp: scan_char_def peek_def split: if_splits)
qed

lemma lexer_step_append:
  assumes "lexer_step c cs ws w out = Some (r, ws', w', out')"
  shows "lexer_step c (cs @ NEWLINE # t) ws w out = Some (r @ NEWLINE # t, ws', w', out')"
proof -
  have p2: "(peek (cs @ NEWLINE # t) = CHR ''>'') = (peek cs = CHR ''>'')"
    by (rule peek_append_newline [where P = "\<lambda>x. x = CHR ''>''"]) simp
  have pk: "is_op_char c \<Longrightarrow> op_kind2 c (peek (cs @ NEWLINE # t)) = op_kind2 c (peek cs)"
    by (rule peek_append_newline) (auto simp: op_kind2_def is_op_char_def)
  have tl: "peek cs = CHR ''>'' \<Longrightarrow> tl (cs @ NEWLINE # t) = tl cs @ NEWLINE # t"
    by (cases cs) (auto simp: peek_def)
  have tl2: "is_op_char c \<Longrightarrow> op_kind2 c (peek cs) \<noteq> TOK_WORD \<Longrightarrow> tl (cs @ NEWLINE # t) = tl cs @ NEWLINE # t"
    by (cases cs) (auto simp: peek_def op_kind2_def is_op_char_def)
  show ?thesis
    using assms unfolding lexer_step_def p2
    by (auto simp: Let_def pk tl tl2 split: if_splits option.splits prod.splits
        dest: scan_char_append [where t = t])
qed

lemma finish_leaves_init: "fst (wordbuf_finish w out) = wordbuf_init"
  by (cases w) (auto simp: wordbuf_finish_def wordbuf_init_def wordbuf_pending_def Let_def
      wordbuf_flush_bare_def wordbuf_push_seg_def)

lemma lexer_loop_newline:
  assumes "lexer_loop s ws w out = Some a"
  shows "lexer_loop (s @ NEWLINE # t) ws w out = lexer_loop t True wordbuf_init (push_op a TOK_NEWLINE)"
  using assms
proof (induction s ws w out rule: lexer_loop.induct)
  case (1 ws w out)
  then show ?case
    using finish_leaves_init [of w out]
    by (auto simp: lexer_loop.simps lexer_step_def is_blank_def split: prod.splits)
next
  case (2 c cs ws w out)
  then obtain r ws' w' out' where st: "lexer_step c cs ws w out = Some (r, ws', w', out')"
    and run: "lexer_loop r ws' w' out' = Some a"
    by (auto simp: lexer_loop.simps split: option.splits)
  from "2.IH" [OF st refl refl refl run] lexer_step_append [OF st, of t]
  show ?case by (simp add: lexer_loop.simps(2))
qed

text \<open>The tokens already emitted are only ever prepended.\<close>

lemma wordbuf_finish_prepend: "wordbuf_finish w (pre @ out)
   = (fst (wordbuf_finish w out), pre @ snd (wordbuf_finish w out))"
  by (simp add: wordbuf_finish_def Let_def)

lemma lexer_step_prepend: "lexer_step c cs ws w (pre @ out)
   = map_option (\<lambda>(r, ws', w', out'). (r, ws', w', pre @ out')) (lexer_step c cs ws w out)"
  unfolding lexer_step_def wordbuf_finish_prepend
  by (simp add: Let_def push_op_def split: option.splits prod.splits)

lemma lexer_loop_prepend: "lexer_loop s ws w (pre @ out) = map_option ((@) pre) (lexer_loop s ws w out)"
proof (induction s ws w out rule: lexer_loop.induct)
  case (2 c cs ws w out)
  then show ?case
    by (cases "lexer_step c cs ws w out") (auto simp: lexer_loop.simps lexer_step_prepend)
qed (simp add: lexer_loop.simps wordbuf_finish_prepend)

text \<open>When a line lexes completely, appending a newline and more input lexes to the line's
  tokens, a newline token, and the tokens of the rest with the rest's own verdict.\<close>

theorem lexer_scan_newline:
  assumes "lexer_scan s = (NSH_OK, ts)" "nul_free s" "nul_free t"
  shows "lexer_scan (s @ NEWLINE # t) =
    (case lexer_scan t of (NSH_OK, us) \<Rightarrow> (NSH_OK, ts @ \<lparr>t_kind = TOK_NEWLINE, t_segs = []\<rparr> # us)
     | (e, _) \<Rightarrow> (e, []))"
proof -
  from assms(1,2) have "lexer_loop s True wordbuf_init [] = Some ts"
    by (simp add: lexer_scan_def cstr_id split: option.splits)
  from lexer_loop_newline [OF this, of t] lexer_loop_prepend [of t True wordbuf_init "push_op ts TOK_NEWLINE" "[]"]
  have "lexer_loop (s @ NEWLINE # t) True wordbuf_init []
      = map_option ((@) (push_op ts TOK_NEWLINE)) (lexer_loop t True wordbuf_init [])" by simp
  with assms(2,3) show ?thesis
    by (auto simp: lexer_scan_def cstr_id push_op_def split: option.splits)
qed

lemma lexer_scan_newline_witness:
  "lexer_scan (''a'' @ NEWLINE # ''b'') =
    (case lexer_scan ''b'' of (NSH_OK, us) \<Rightarrow> (NSH_OK, snd (lexer_scan ''a'') @ \<lparr>t_kind = TOK_NEWLINE, t_segs = []\<rparr> # us)
     | (e, _) \<Rightarrow> (e, []))"
  by (rule lexer_scan_newline) (simp_all add: eval_lexer)

end
