(* ===== verification/Ast.thy ===== *)
theory Ast
  imports Lexer
begin

text \<open>
  \<open>src/shell/ast.h\<close>, \<open>ast.c\<close> and the data of \<open>parser.h\<close>: commands, pipelines and the tree the
  evaluator walks, its deep copy, and the well-formedness the parser establishes. A tree is a
  value here, so freeing it has no counterpart; the copy is modelled field by field.
\<close>

section \<open>Commands and pipelines\<close>

record Command =
  c_words :: "Token list"
  c_redir_in :: "Token option"
  c_redir_out :: "Token option"
  c_redir_append :: bool
  c_redir_err :: "Token option"

record Pipeline =
  pl_cmds :: "Command list"
  pl_background :: bool

datatype AndOrOp = ANDOR_FIRST | ANDOR_AND | ANDOR_OR

datatype Node =
    NODE_PIPELINE Pipeline bool
  | NODE_ANDOR "(AndOrOp \<times> Node) list"
  | NODE_LIST "Node list"
  | NODE_IF "Node list" "Node list" "Node option"
  | NODE_WHILE Node Node
  | NODE_FOR string "Token list" Node
  | NODE_FUNCDEF string Node

section \<open>Deep copy\<close>

definition dup_cstr :: "string \<Rightarrow> string" where "dup_cstr s = cstr s"

definition token_clone :: "Token \<Rightarrow> Token" where
  "token_clone t = \<lparr>t_kind = t_kind t,
     t_segs = map (\<lambda>s. \<lparr>ws_text = dup_cstr (ws_text s), ws_expand = ws_expand s\<rparr>) (t_segs t)\<rparr>"

definition cmd_clone :: "Command \<Rightarrow> Command" where
  "cmd_clone c = \<lparr>c_words = map token_clone (c_words c),
     c_redir_in = map_option token_clone (c_redir_in c),
     c_redir_out = map_option token_clone (c_redir_out c),
     c_redir_append = c_redir_append c,
     c_redir_err = map_option token_clone (c_redir_err c)\<rparr>"

definition pipeline_clone :: "Pipeline \<Rightarrow> Pipeline" where
  "pipeline_clone p = \<lparr>pl_cmds = map cmd_clone (pl_cmds p), pl_background = pl_background p\<rparr>"

text \<open>The loop of \<open>NODE_IF\<close> runs over the conditions and reads the bodies at the same index.\<close>

fun ast_clone :: "Node \<Rightarrow> Node" where
  "ast_clone (NODE_PIPELINE pl neg) = NODE_PIPELINE (pipeline_clone pl) neg"
| "ast_clone (NODE_ANDOR items) = NODE_ANDOR (map (\<lambda>(op, n). (op, ast_clone n)) items)"
| "ast_clone (NODE_LIST nodes) = NODE_LIST (map ast_clone nodes)"
| "ast_clone (NODE_IF conds bodies els) =
     NODE_IF (map ast_clone conds) (take (length conds) (map ast_clone bodies))
       (map_option ast_clone els)"
| "ast_clone (NODE_WHILE cond body) = NODE_WHILE (ast_clone cond) (ast_clone body)"
| "ast_clone (NODE_FOR var words body) =
     NODE_FOR (dup_cstr var) (map token_clone words) (ast_clone body)"
| "ast_clone (NODE_FUNCDEF name body) = NODE_FUNCDEF (dup_cstr name) (ast_clone body)"

section \<open>Keywords and names\<close>

text \<open>\<open>strcmp\<close> against a keyword: the segment text is NUL free, so it is equality.\<close>

definition tok_is :: "Token option \<Rightarrow> string \<Rightarrow> bool" where
  "tok_is t kw = (case t of None \<Rightarrow> False
     | Some t \<Rightarrow> t_kind t = TOK_WORD \<and> length (t_segs t) = 1 \<and> ws_text (hd (t_segs t)) = kw)"

definition KW_END :: "string list" where
  "KW_END = [''then'', ''elif'', ''else'', ''fi'', ''do'', ''done'', ''}'']"

definition KW_OPEN :: "string list" where
  "KW_OPEN = [''if'', ''while'', ''for'', ''{'']"

fun in_set :: "Token option \<Rightarrow> string list \<Rightarrow> bool" where
  "in_set t [] = False"
| "in_set t (kw # kws) = (if tok_is t kw then True else in_set t kws)"

definition is_reserved :: "Token option \<Rightarrow> bool" where
  "is_reserved t \<longleftrightarrow> in_set t KW_END \<or> in_set t KW_OPEN"

definition is_name_start :: "char \<Rightarrow> bool" where
  "is_name_start c \<longleftrightarrow> (CHR ''A'' \<le> c \<and> c \<le> CHR ''Z'') \<or> (CHR ''a'' \<le> c \<and> c \<le> CHR ''z'') \<or> c = CHR ''_''"

definition is_name_char :: "char \<Rightarrow> bool" where
  "is_name_char c \<longleftrightarrow> is_name_start c \<or> (CHR ''0'' \<le> c \<and> c \<le> CHR ''9'')"

definition valid_name :: "string \<Rightarrow> bool" where
  "valid_name s \<longleftrightarrow> s \<noteq> [] \<and> is_name_start (hd s) \<and> (\<forall>c\<in>set (tl s). is_name_char c)"

definition name_dup :: "Token option \<Rightarrow> string option" where
  "name_dup t = (case t of None \<Rightarrow> None
     | Some t \<Rightarrow>
         if t_kind t \<noteq> TOK_WORD \<or> length (t_segs t) \<noteq> 1 then None
         else (let s = ws_text (hd (t_segs t)) in if valid_name s then Some s else None))"

lemma in_set_iff: "in_set t kws \<longleftrightarrow> (\<exists>kw\<in>set kws. tok_is t kw)"
  by (induction kws) auto

lemma valid_name_nul_free: "valid_name s \<Longrightarrow> nul_free s"
  by (cases s) (auto simp: valid_name_def is_name_char_def is_name_start_def nul_free_def)

section \<open>Well-formed trees\<close>

definition word_ok :: "Token \<Rightarrow> bool" where
  "word_ok t \<longleftrightarrow> tok_ok t \<and> t_kind t = TOK_WORD"

definition cmd_ok :: "Command \<Rightarrow> bool" where
  "cmd_ok c \<longleftrightarrow> c_words c \<noteq> [] \<and> (\<forall>t\<in>set (c_words c). word_ok t)
     \<and> \<not> is_reserved (Some (hd (c_words c)))
     \<and> (\<forall>t\<in>set_option (c_redir_in c). word_ok t)
     \<and> (\<forall>t\<in>set_option (c_redir_out c). word_ok t)
     \<and> (\<forall>t\<in>set_option (c_redir_err c). word_ok t)
     \<and> (c_redir_append c \<longrightarrow> c_redir_out c \<noteq> None)"

text \<open>
  A first word \<open>!\<close> negates the pipeline, unless redirections stand before it: then it is a
  command name like any other.
\<close>

definition has_redir :: "Command \<Rightarrow> bool" where
  "has_redir c \<longleftrightarrow> c_redir_in c \<noteq> None \<or> c_redir_out c \<noteq> None \<or> c_redir_err c \<noteq> None"

definition pipeline_ok :: "Pipeline \<Rightarrow> bool" where
  "pipeline_ok p \<longleftrightarrow> pl_cmds p \<noteq> [] \<and> (\<forall>c\<in>set (pl_cmds p). cmd_ok c)
     \<and> (tok_is (Some (hd (c_words (hd (pl_cmds p))))) ''!'' \<longrightarrow> has_redir (hd (pl_cmds p)))"

definition chain_ok :: "AndOrOp list \<Rightarrow> bool" where
  "chain_ok ops \<longleftrightarrow> length ops \<ge> 2 \<and> hd ops = ANDOR_FIRST \<and> ANDOR_FIRST \<notin> set (tl ops)"

definition is_list :: "Node \<Rightarrow> bool" where
  "is_list n = (case n of NODE_LIST _ \<Rightarrow> True | _ \<Rightarrow> False)"

definition fg_pipeline :: "Node \<Rightarrow> bool" where
  "fg_pipeline n = (case n of NODE_PIPELINE pl _ \<Rightarrow> \<not> pl_background pl | _ \<Rightarrow> False)"

fun node_ok :: "Node \<Rightarrow> bool" where
  "node_ok (NODE_PIPELINE pl neg) = pipeline_ok pl"
| "node_ok (NODE_ANDOR items) =
     (chain_ok (map fst items) \<and> (\<forall>it\<in>set items. fg_pipeline (snd it) \<and> node_ok (snd it)))"
| "node_ok (NODE_LIST nodes) = (length nodes \<ge> 2 \<and> (\<forall>n\<in>set nodes. node_ok n \<and> \<not> is_list n))"
| "node_ok (NODE_IF conds bodies els) =
     (conds \<noteq> [] \<and> length conds = length bodies \<and> (\<forall>n\<in>set conds. node_ok n)
      \<and> (\<forall>n\<in>set bodies. node_ok n) \<and> (\<forall>n\<in>set_option els. node_ok n))"
| "node_ok (NODE_WHILE cond body) = (node_ok cond \<and> node_ok body)"
| "node_ok (NODE_FOR var words body) =
     (valid_name var \<and> (\<forall>t\<in>set words. word_ok t) \<and> node_ok body)"
| "node_ok (NODE_FUNCDEF name body) =
     (valid_name name \<and> name \<notin> set (KW_END @ KW_OPEN) \<and> node_ok body)"

section \<open>A copy equals its original\<close>

lemma token_clone_id [simp]: "tok_ok t \<Longrightarrow> token_clone t = t"
  by (cases t) (auto simp: token_clone_def tok_ok_def seg_ok_def dup_cstr_def cstr_id intro!: map_idI)

lemma token_clone_word [simp]: "word_ok t \<Longrightarrow> token_clone t = t"
  by (simp add: word_ok_def)

lemma cmd_clone_id [simp]: "cmd_ok c \<Longrightarrow> cmd_clone c = c"
  by (cases c) (auto simp: cmd_clone_def cmd_ok_def intro!: map_idI option.map_ident_strong)

lemma pipeline_clone_id [simp]: "pipeline_ok p \<Longrightarrow> pipeline_clone p = p"
  by (cases p) (auto simp: pipeline_clone_def pipeline_ok_def intro!: map_idI)

text \<open>The deep copy the function table keeps is equal to the tree it copies, for every well-formed tree.\<close>

theorem ast_clone_id:
  assumes "node_ok n"
  shows "ast_clone n = n"
  using assms
proof (induction n rule: ast_clone.induct)
  case (4 conds bodies els)
  then have "map ast_clone conds = conds" "map ast_clone bodies = bodies"
    by (auto intro!: map_idI)
  with 4 show ?case by (cases els) auto
qed (auto intro!: map_idI simp: dup_cstr_def cstr_id valid_name_nul_free)

lemma ast_clone_id_witness:
  "ast_clone (NODE_FUNCDEF ''f'' (NODE_PIPELINE \<lparr>pl_cmds = [\<lparr>c_words = [\<lparr>t_kind = TOK_WORD, t_segs = [\<lparr>ws_text = ''ls'', ws_expand = True\<rparr>]\<rparr>],
     c_redir_in = None, c_redir_out = None, c_redir_append = False, c_redir_err = None\<rparr>], pl_background = False\<rparr> True))
   = NODE_FUNCDEF ''f'' (NODE_PIPELINE \<lparr>pl_cmds = [\<lparr>c_words = [\<lparr>t_kind = TOK_WORD, t_segs = [\<lparr>ws_text = ''ls'', ws_expand = True\<rparr>]\<rparr>],
     c_redir_in = None, c_redir_out = None, c_redir_append = False, c_redir_err = None\<rparr>], pl_background = False\<rparr> True)"
  by (rule ast_clone_id)
     (simp add: valid_name_def is_name_start_def pipeline_ok_def cmd_ok_def word_ok_def tok_ok_def seg_ok_def
       is_reserved_def KW_END_def KW_OPEN_def tok_is_def)

end
