(* ===== verification/Parser.thy ===== *)
theory Parser
  imports Ast
begin

text \<open>
  \<open>src/shell/parser.c\<close>: recursive descent over the token list. The parser state is the suffix of
  tokens from \<open>pos\<close> on; every function gives an error or a value and the suffix behind it. The
  recursive part runs on fuel, one unit per round of the list loop; \<open>None\<close> is running out
  of it, which \<open>parser_fuel\<close> is proved never to do.
\<close>

type_synonym 'a pres = "NshError + 'a \<times> TokenList"

section \<open>Token tests\<close>

definition pk :: "TokenList \<Rightarrow> Token option" where
  "pk ts = (case ts of [] \<Rightarrow> None | t # _ \<Rightarrow> Some t)"

definition at_end :: "TokenList \<Rightarrow> bool" where "at_end ts \<longleftrightarrow> ts = []"

definition at_kind :: "TokenList \<Rightarrow> TokenKind \<Rightarrow> bool" where
  "at_kind ts k = (case pk ts of None \<Rightarrow> False | Some t \<Rightarrow> t_kind t = k)"

definition kw_at :: "TokenList \<Rightarrow> string \<Rightarrow> bool" where "kw_at ts kw = tok_is (pk ts) kw"

definition at_ender :: "TokenList \<Rightarrow> bool" where "at_ender ts = in_set (pk ts) KW_END"

definition at_sep :: "TokenList \<Rightarrow> bool" where
  "at_sep ts \<longleftrightarrow> at_kind ts TOK_SEMI \<or> at_kind ts TOK_NEWLINE"

fun skip_seps :: "TokenList \<Rightarrow> TokenList" where
  "skip_seps [] = []"
| "skip_seps (t # ts) = (if at_sep (t # ts) then skip_seps ts else t # ts)"

fun skip_nl :: "TokenList \<Rightarrow> TokenList" where
  "skip_nl [] = []"
| "skip_nl (t # ts) = (if at_kind (t # ts) TOK_NEWLINE then skip_nl ts else t # ts)"

lemmas token_tests = pk_def at_end_def at_kind_def kw_at_def at_sep_def

lemma skip_seps_length: "length (skip_seps ts) \<le> length ts" by (induction ts) auto
lemma skip_nl_length: "length (skip_nl ts) \<le> length ts" by (induction ts) auto

section \<open>Simple commands and pipelines\<close>

definition cmd_new :: Command where
  "cmd_new = \<lparr>c_words = [], c_redir_in = None, c_redir_out = None, c_redir_append = False,
     c_redir_err = None\<rparr>"

definition cmd_set_redir :: "Command \<Rightarrow> TokenKind \<Rightarrow> Token \<Rightarrow> NshError + Command" where
  "cmd_set_redir c kind target =
     (if kind = TOK_REDIR_IN then
        (if c_redir_in c \<noteq> None then Inl NSH_ERR_SYNTAX else Inr (c\<lparr>c_redir_in := Some target\<rparr>))
      else if kind = TOK_REDIR_ERR then
        (if c_redir_err c \<noteq> None then Inl NSH_ERR_SYNTAX else Inr (c\<lparr>c_redir_err := Some target\<rparr>))
      else
        (if c_redir_out c \<noteq> None then Inl NSH_ERR_SYNTAX
         else Inr (c\<lparr>c_redir_out := Some target, c_redir_append := (kind = TOK_REDIR_APPEND)\<rparr>)))"

definition is_redir :: "TokenKind \<Rightarrow> bool" where
  "is_redir k \<longleftrightarrow> k = TOK_REDIR_IN \<or> k = TOK_REDIR_OUT \<or> k = TOK_REDIR_APPEND \<or> k = TOK_REDIR_ERR"

definition simple_done :: "Command \<Rightarrow> TokenList \<Rightarrow> Command pres" where
  "simple_done c ts = (if c_words c = [] then Inl NSH_ERR_SYNTAX else Inr (c, ts))"

fun simple_loop :: "Command \<Rightarrow> TokenList \<Rightarrow> Command pres" where
  "simple_loop c [] = simple_done c []"
| "simple_loop c (t # ts) =
     (if t_kind t = TOK_WORD then
        (if c_words c = [] \<and> is_reserved (Some t) then Inl NSH_ERR_SYNTAX
         else simple_loop (c\<lparr>c_words := c_words c @ [t]\<rparr>) ts)
      else if \<not> is_redir (t_kind t) then simple_done c (t # ts)
      else (case ts of
          [] \<Rightarrow> Inl NSH_ERR_INCOMPLETE
        | u # us \<Rightarrow>
            if t_kind u \<noteq> TOK_WORD then Inl NSH_ERR_SYNTAX
            else (case cmd_set_redir c (t_kind t) u of
                Inl e \<Rightarrow> Inl e
              | Inr c' \<Rightarrow> simple_loop c' us)))"

definition parse_simple :: "TokenList \<Rightarrow> Command pres" where
  "parse_simple ts = simple_loop cmd_new ts"

lemma simple_loop_length: "simple_loop c ts = Inr (c', r) \<Longrightarrow> length r \<le> length ts"
proof (induction c ts rule: simple_loop.induct)
  case (2 c t ts)
  then show ?case
    by (cases ts) (fastforce simp: simple_done_def split: if_splits sum.splits)+
qed (auto simp: simple_done_def split: if_splits)

lemma after_op_length:
  assumes "at_kind r k" "length r \<le> length ts"
  shows "length (skip_nl (tl r)) < length ts"
  using assms skip_nl_length [of "tl r"] by (cases r) (auto simp: token_tests)

function pipeline_loop :: "Command list \<Rightarrow> TokenList \<Rightarrow> Command list pres" where
  "pipeline_loop cmds ts = (case parse_simple ts of
     Inl e \<Rightarrow> Inl e
   | Inr (c, r) \<Rightarrow>
       if \<not> at_kind r TOK_PIPE then Inr (cmds @ [c], r)
       else (let r2 = skip_nl (tl r)
             in if at_end r2 then Inl NSH_ERR_INCOMPLETE else pipeline_loop (cmds @ [c]) r2))"
  by pat_completeness auto

termination
  by (relation "measure (\<lambda>(_, ts). length ts)")
     (auto simp: parse_simple_def intro: after_op_length simple_loop_length)

declare pipeline_loop.simps [simp del]

definition parse_pipeline :: "TokenList \<Rightarrow> Pipeline pres" where
  "parse_pipeline ts = (case pipeline_loop [] ts of
     Inl e \<Rightarrow> Inl e
   | Inr (cmds, r) \<Rightarrow> Inr (\<lparr>pl_cmds = cmds, pl_background = False\<rparr>, r))"

lemma pipeline_loop_length: "pipeline_loop cmds ts = Inr (cs, r) \<Longrightarrow> length r \<le> length ts"
proof (induction cmds ts rule: pipeline_loop.induct)
  case (1 cmds ts)
  show ?case
  proof (cases "parse_simple ts")
    case (Inr p)
    obtain c s where p: "p = (c, s)" by (cases p)
    with Inr have le: "length s \<le> length ts" by (auto simp: parse_simple_def intro: simple_loop_length)
    with 1 Inr p show ?thesis
      by (force simp: pipeline_loop.simps [of cmds ts] Let_def split: if_splits
          dest: after_op_length)
  qed (use 1 in \<open>simp add: pipeline_loop.simps [of cmds ts]\<close>)
qed

text \<open>
  \<open>parse_andor\<close>: an optional \<open>!\<close> before each pipeline. A lone pipeline stays bare.
\<close>

definition take_bang :: "TokenList \<Rightarrow> bool pres" where
  "take_bang ts =
     (if kw_at ts ''!'' then
        (let r = tl ts
         in if at_end r then Inl NSH_ERR_INCOMPLETE
            else if kw_at r ''!'' then Inl NSH_ERR_SYNTAX else Inr (True, r))
      else Inr (False, ts))"

lemma take_bang_length: "take_bang ts = Inr (neg, r) \<Longrightarrow> length r \<le> length ts"
  by (auto simp: take_bang_def Let_def split: if_splits)

lemma parse_pipeline_length: "parse_pipeline ts = Inr (pl, r) \<Longrightarrow> length r \<le> length ts"
  by (auto simp: parse_pipeline_def split: sum.splits intro: pipeline_loop_length)

lemma after_andor_length:
  assumes "take_bang ts = Inr (neg, r)" "parse_pipeline r = Inr (pl, s)"
    and "\<not> (\<not> at_kind s TOK_AND_IF \<and> \<not> at_kind s TOK_OR_IF)"
  shows "length (skip_nl (tl s)) < length ts"
proof -
  have "length s \<le> length ts"
    using take_bang_length [OF assms(1)] parse_pipeline_length [OF assms(2)] by simp
  with assms(3) show ?thesis by (auto intro: after_op_length)
qed

function andor_loop :: "(AndOrOp \<times> Node) list \<Rightarrow> AndOrOp \<Rightarrow> TokenList \<Rightarrow> (AndOrOp \<times> Node) list pres" where
  "andor_loop items op ts = (case take_bang ts of
     Inl e \<Rightarrow> Inl e
   | Inr (neg, r) \<Rightarrow> (case parse_pipeline r of
       Inl e \<Rightarrow> Inl e
     | Inr (pl, s) \<Rightarrow>
         (let items' = items @ [(op, NODE_PIPELINE pl neg)]
          in if \<not> at_kind s TOK_AND_IF \<and> \<not> at_kind s TOK_OR_IF then Inr (items', s)
             else (let op' = if at_kind s TOK_AND_IF then ANDOR_AND else ANDOR_OR;
                       s2 = skip_nl (tl s)
                   in if at_end s2 then Inl NSH_ERR_INCOMPLETE else andor_loop items' op' s2))))"
  by pat_completeness auto

termination
  by (relation "measure (\<lambda>(_, _, ts). length ts)") (simp_all, metis after_andor_length)

declare andor_loop.simps [simp del]

definition parse_andor :: "TokenList \<Rightarrow> Node pres" where
  "parse_andor ts = (case andor_loop [] ANDOR_FIRST ts of
     Inl e \<Rightarrow> Inl e
   | Inr (items, r) \<Rightarrow>
       if length items = 1 then Inr (snd (hd items), r) else Inr (NODE_ANDOR items, r))"

section \<open>Compounds and lists\<close>

definition expect_kw :: "TokenList \<Rightarrow> string \<Rightarrow> unit pres" where
  "expect_kw ts kw =
     (if \<not> kw_at ts kw then Inl (if at_end ts then NSH_ERR_INCOMPLETE else NSH_ERR_SYNTAX)
      else Inr ((), tl ts))"

text \<open>The words of a \<open>for\<close>: everything up to the first token that is not a word.\<close>

fun for_words :: "TokenList \<Rightarrow> Token list \<times> TokenList" where
  "for_words [] = ([], [])"
| "for_words (t # ts) =
     (if t_kind t = TOK_WORD then (let (ws, r) = for_words ts in (t # ws, r)) else ([], t # ts))"

definition bindp :: "'a pres option \<Rightarrow> ('a \<Rightarrow> TokenList \<Rightarrow> 'b pres option) \<Rightarrow> 'b pres option" where
  "bindp m f = (case m of None \<Rightarrow> None
     | Some (Inl e) \<Rightarrow> Some (Inl e)
     | Some (Inr (x, r)) \<Rightarrow> f x r)"

definition set_background :: "Node \<Rightarrow> Node" where
  "set_background n = (case n of NODE_PIPELINE pl neg \<Rightarrow> NODE_PIPELINE (pl\<lparr>pl_background := True\<rparr>) neg | _ \<Rightarrow> n)"

definition is_pipeline :: "Node \<Rightarrow> bool" where
  "is_pipeline n = (case n of NODE_PIPELINE _ _ \<Rightarrow> True | _ \<Rightarrow> False)"

definition list_done :: "Node list \<Rightarrow> Node option" where
  "list_done nodes = (case nodes of [] \<Rightarrow> None | [n] \<Rightarrow> Some n | _ \<Rightarrow> Some (NODE_LIST nodes))"

text \<open>From the \<open>in\<close> of a \<open>for\<close> to its \<open>do\<close>: the words, and the suffix at \<open>do\<close>.\<close>

definition for_head :: "TokenList \<Rightarrow> Token list pres" where
  "for_head ts = (case expect_kw (skip_nl ts) ''in'' of
     Inl e \<Rightarrow> Inl e
   | Inr (_, r) \<Rightarrow> (let (ws, s) = for_words r
       in if at_end s then Inl NSH_ERR_INCOMPLETE
          else if at_sep s then Inr (ws, skip_nl (tl s)) else Inl NSH_ERR_SYNTAX))"

text \<open>The parentheses of a function definition, entered on \<open>NAME '('\<close>.\<close>

definition funcdef_head :: "TokenList \<Rightarrow> string pres" where
  "funcdef_head ts = (case name_dup (pk ts) of
     None \<Rightarrow> Inl NSH_ERR_SYNTAX
   | Some name \<Rightarrow>
       (let r = tl (tl ts)
        in if at_end r then Inl NSH_ERR_INCOMPLETE
           else if at_kind r TOK_RPAREN then Inr (name, skip_nl (tl r)) else Inl NSH_ERR_SYNTAX))"

text \<open>
  The compounds call \<open>parse_list\<close> for their bodies: it is their argument \<open>pl\<close>, and \<open>list_loop\<close> ties
  the knot by passing itself with one unit of fuel less.
\<close>

type_synonym list_parser = "TokenList \<Rightarrow> Node option pres option"

definition parse_body :: "list_parser \<Rightarrow> TokenList \<Rightarrow> Node pres option" where
  "parse_body pl ts = bindp (pl ts) (\<lambda>x r. case x of
       None \<Rightarrow> Some (Inl (if at_end r then NSH_ERR_INCOMPLETE else NSH_ERR_SYNTAX))
     | Some node \<Rightarrow> Some (Inr (node, r)))"

fun if_loop ::
  "list_parser \<Rightarrow> nat \<Rightarrow> Node list \<Rightarrow> Node list \<Rightarrow> TokenList \<Rightarrow> (Node list \<times> Node list) pres option"
where
  "if_loop pl 0 conds bodies ts = None"
| "if_loop pl (Suc n) conds bodies ts = bindp (parse_body pl ts) (\<lambda>cond r.
     bindp (Some (expect_kw r ''then'')) (\<lambda>_ s.
     bindp (parse_body pl s) (\<lambda>body u.
       if \<not> kw_at u ''elif'' then Some (Inr ((conds @ [cond], bodies @ [body]), u))
       else if_loop pl n (conds @ [cond]) (bodies @ [body]) (tl u))))"

definition parse_if :: "list_parser \<Rightarrow> nat \<Rightarrow> TokenList \<Rightarrow> Node pres option" where
  "parse_if pl n ts = bindp (if_loop pl n [] [] (tl ts)) (\<lambda>(conds, bodies) r.
     if kw_at r ''else'' then
       bindp (parse_body pl (tl r)) (\<lambda>els s.
       bindp (Some (expect_kw s ''fi'')) (\<lambda>_ u. Some (Inr (NODE_IF conds bodies (Some els), u))))
     else bindp (Some (expect_kw r ''fi'')) (\<lambda>_ u. Some (Inr (NODE_IF conds bodies None, u))))"

definition parse_while :: "list_parser \<Rightarrow> TokenList \<Rightarrow> Node pres option" where
  "parse_while pl ts = bindp (parse_body pl (tl ts)) (\<lambda>cond r.
     bindp (Some (expect_kw r ''do'')) (\<lambda>_ s.
     bindp (parse_body pl s) (\<lambda>body u.
     bindp (Some (expect_kw u ''done'')) (\<lambda>_ v. Some (Inr (NODE_WHILE cond body, v))))))"

definition parse_for :: "list_parser \<Rightarrow> TokenList \<Rightarrow> Node pres option" where
  "parse_for pl ts = (case name_dup (pk (tl ts)) of
     None \<Rightarrow> Some (Inl (if at_end (tl ts) then NSH_ERR_INCOMPLETE else NSH_ERR_SYNTAX))
   | Some var \<Rightarrow>
       bindp (Some (for_head (tl (tl ts)))) (\<lambda>ws r.
       bindp (Some (expect_kw r ''do'')) (\<lambda>_ s.
       bindp (parse_body pl s) (\<lambda>body u.
       bindp (Some (expect_kw u ''done'')) (\<lambda>_ v. Some (Inr (NODE_FOR var ws body, v)))))))"

definition parse_funcdef :: "list_parser \<Rightarrow> TokenList \<Rightarrow> Node pres option" where
  "parse_funcdef pl ts =
     bindp (Some (funcdef_head ts)) (\<lambda>name r.
     bindp (Some (expect_kw r ''{'')) (\<lambda>_ s.
     bindp (parse_body pl s) (\<lambda>body u.
     bindp (Some (expect_kw u ''}'')) (\<lambda>_ v. Some (Inr (NODE_FUNCDEF name body, v))))))"

definition parse_item :: "list_parser \<Rightarrow> nat \<Rightarrow> TokenList \<Rightarrow> Node pres option" where
  "parse_item pl n ts =
     (if kw_at ts ''if'' then parse_if pl n ts
      else if kw_at ts ''while'' then parse_while pl ts
      else if kw_at ts ''for'' then parse_for pl ts
      else if at_kind ts TOK_WORD \<and> at_kind (tl ts) TOK_LPAREN then parse_funcdef pl ts
      else Some (parse_andor ts))"

fun list_loop :: "nat \<Rightarrow> Node list \<Rightarrow> list_parser" where
  "list_loop 0 nodes ts = None"
| "list_loop (Suc n) nodes ts =
     (let ts1 = skip_seps ts
      in if at_end ts1 \<or> at_ender ts1 then Some (Inr (list_done nodes, ts1))
         else bindp (parse_item (list_loop n []) n ts1) (\<lambda>item r.
           if at_kind r TOK_AMP then
             (if \<not> is_pipeline item then Some (Inl NSH_ERR_SYNTAX)
              else list_loop n (nodes @ [set_background item]) (tl r))
           else if \<not> at_end r \<and> \<not> at_ender r \<and> \<not> at_sep r then Some (Inl NSH_ERR_SYNTAX)
           else list_loop n (nodes @ [item]) r))"

definition parse_list :: "nat \<Rightarrow> list_parser" where
  "parse_list n ts = list_loop n [] ts"

definition parser_fuel :: "TokenList \<Rightarrow> nat" where "parser_fuel ts = length ts + 1"

definition program_result :: "Node option pres option \<Rightarrow> (NshError \<times> Node option) option" where
  "program_result m = (case m of None \<Rightarrow> None
     | Some (Inl e) \<Rightarrow> Some (e, None)
     | Some (Inr (n, r)) \<Rightarrow> if at_end r then Some (NSH_OK, n) else Some (NSH_ERR_SYNTAX, None))"

definition parser_parse_program :: "TokenList \<Rightarrow> (NshError \<times> Node option) option" where
  "parser_parse_program toks = program_result (parse_list (parser_fuel toks) toks)"

definition parser_parse :: "TokenList \<Rightarrow> (NshError \<times> Pipeline) option" where
  "parser_parse toks = (case parser_parse_program toks of None \<Rightarrow> None
     | Some (err, n) \<Rightarrow>
         (case n of
            None \<Rightarrow> Some (if err = NSH_OK then NSH_OK else NSH_ERR_SYNTAX,
                          \<lparr>pl_cmds = [], pl_background = False\<rparr>)
          | Some node \<Rightarrow>
              (case node of
                 NODE_PIPELINE pl neg \<Rightarrow>
                   if err = NSH_OK \<and> \<not> neg then Some (NSH_OK, pl)
                   else Some (NSH_ERR_SYNTAX, \<lparr>pl_cmds = [], pl_background = False\<rparr>)
               | _ \<Rightarrow> Some (NSH_ERR_SYNTAX, \<lparr>pl_cmds = [], pl_background = False\<rparr>))))"

section \<open>Every parse ends\<close>

text \<open>\<open>ret k m\<close>: the fuel sufficed, and what is left has at most \<open>k\<close> tokens.\<close>

definition ret :: "nat \<Rightarrow> 'a pres option \<Rightarrow> bool" where
  "ret k m = (case m of None \<Rightarrow> False | Some (Inl e) \<Rightarrow> True | Some (Inr (x, r)) \<Rightarrow> length r \<le> k)"

lemma ret_bind:
  "ret k m \<Longrightarrow> (\<And>x r. m = Some (Inr (x, r)) \<Longrightarrow> length r \<le> k \<Longrightarrow> ret k' (f x r)) \<Longrightarrow> ret k' (bindp m f)"
  by (auto simp: ret_def bindp_def split: option.splits sum.splits)

lemma ret_mono: "ret k m \<Longrightarrow> k \<le> k' \<Longrightarrow> ret k' m"
  by (auto simp: ret_def split: option.splits sum.splits)

lemma ret_simps [simp]: "ret k (Some (Inl e))" "ret k (Some (Inr (x, r))) \<longleftrightarrow> length r \<le> k"
  by (auto simp: ret_def)

lemma ret_expect_kw: "ret (length ts - Suc 0) (Some (expect_kw ts kw))"
  by (simp add: expect_kw_def)

lemma for_words_length: "for_words ts = (ws, r) \<Longrightarrow> length r \<le> length ts"
  by (induction ts arbitrary: ws) (fastforce split: if_splits prod.splits)+

lemma ret_for_head: "ret (length ts) (Some (for_head ts))"
proof -
  obtain ws s where w: "for_words (tl (skip_nl ts)) = (ws, s)"
    by (cases "for_words (tl (skip_nl ts))")
  have "length (skip_nl (tl s)) \<le> length ts"
    using skip_nl_length [of "tl s"] for_words_length [OF w] skip_nl_length [of ts] by simp
  then show ?thesis by (simp add: for_head_def expect_kw_def w Let_def)
qed

lemma ret_funcdef_head: "ret (length ts - Suc 0) (Some (funcdef_head ts))"
  using skip_nl_length [of "tl (tl (tl ts))"]
  by (auto simp: funcdef_head_def Let_def split: option.splits)

text \<open>The body parser returns on suffixes of fewer than \<open>m\<close> tokens.\<close>

definition returns_below :: "nat \<Rightarrow> (TokenList \<Rightarrow> 'a pres option) \<Rightarrow> bool" where
  "returns_below m pl \<longleftrightarrow> (\<forall>ts. length ts < m \<longrightarrow> ret (length ts) (pl ts))"

lemma ret_body: "returns_below m pl \<Longrightarrow> length ts < m \<Longrightarrow> ret (length ts) (parse_body pl ts)"
  unfolding parse_body_def by (rule ret_bind) (auto simp: returns_below_def split: option.splits)

lemma ret_if_loop:
  "returns_below m pl \<Longrightarrow> length ts < m \<Longrightarrow> length ts < n \<Longrightarrow> ret (length ts) (if_loop pl n cs bs ts)"
proof (induction n arbitrary: cs bs ts)
  case (Suc n)
  show ?case
    unfolding if_loop.simps
  proof (rule ret_bind [OF ret_body [OF Suc.prems(1,2)]], rule ret_bind [OF ret_expect_kw],
      rule ret_bind [OF ret_body [OF Suc.prems(1)]], goal_cases)
    case (2 cond r _ s body u)
    have "kw_at u ''elif'' \<Longrightarrow> length (tl u) < length ts"
      using 2(2,4,6) by (cases u; cases r) (auto simp: token_tests tok_is_def)
    with 2 Suc.prems have "kw_at u ''elif'' \<Longrightarrow> ret (length ts) (if_loop pl n (cs @ [cond]) (bs @ [body]) (tl u))"
      by (intro ret_mono [OF Suc.IH [OF Suc.prems(1)]]) auto
    with 2 show ?case by auto
  qed (use Suc.prems in auto)
qed simp

lemma ret_if:
  assumes "returns_below m pl" "length ts \<le> m" "length ts \<le> n" "ts \<noteq> []"
  shows "ret (length ts - Suc 0) (parse_if pl n ts)"
proof -
  have lt: "length (tl ts) < m" "length (tl ts) < n" using assms by (cases ts; simp)+
  show ?thesis
    unfolding parse_if_def
    by (rule ret_bind [OF ret_if_loop [OF assms(1) lt]])
      (use assms lt in \<open>auto intro!: ret_bind [OF ret_body [OF assms(1)]]
        ret_bind [OF ret_expect_kw] split: prod.splits\<close>)
qed

lemma ret_while:
  assumes "returns_below m pl" "length ts \<le> m" "ts \<noteq> []"
  shows "ret (length ts - Suc 0) (parse_while pl ts)"
  unfolding parse_while_def
  using assms by (cases ts)
    (auto intro!: ret_bind [OF ret_body [OF assms(1)]] ret_bind [OF ret_expect_kw])

lemma ret_for:
  assumes "returns_below m pl" "length ts \<le> m" "ts \<noteq> []"
  shows "ret (length ts - Suc 0) (parse_for pl ts)"
  unfolding parse_for_def
  using assms by (cases ts)
    (auto split: option.splits intro!: ret_bind [OF ret_body [OF assms(1)]]
      ret_bind [OF ret_expect_kw] ret_bind [OF ret_for_head])

lemma ret_funcdef:
  assumes "returns_below m pl" "length ts \<le> m" "ts \<noteq> []"
  shows "ret (length ts - Suc 0) (parse_funcdef pl ts)"
  unfolding parse_funcdef_def
  using assms by (cases ts)
    (auto intro!: ret_bind [OF ret_body [OF assms(1)]]
      ret_bind [OF ret_expect_kw] ret_bind [OF ret_funcdef_head])

text \<open>A simple command, and so every pipeline and chain, takes at least one token.\<close>

lemma simple_loop_consumes:
  "simple_loop c ts = Inr (c', r) \<Longrightarrow> c_words c = [] \<Longrightarrow> length r < length ts"
proof (induction c ts rule: simple_loop.induct)
  case (2 c t ts)
  have redir: "c_words d = c_words c" if "cmd_set_redir c k u = Inr d" for d k u
    using that by (auto simp: cmd_set_redir_def split: if_splits)
  show ?case
  proof (cases "t_kind t = TOK_WORD")
    case True
    with 2(3) show ?thesis by (auto split: if_splits dest!: simple_loop_length)
  next
    case False
    with 2 redir show ?thesis
      by (cases ts) (fastforce simp: simple_done_def split: if_splits sum.splits)+
  qed
qed (auto simp: simple_done_def split: if_splits)

lemma pipeline_loop_consumes: "pipeline_loop cmds ts = Inr (cs, r) \<Longrightarrow> length r < length ts"
proof -
  assume run: "pipeline_loop cmds ts = Inr (cs, r)"
  then obtain c s where p: "parse_simple ts = Inr (c, s)"
    by (auto simp: pipeline_loop.simps [of cmds ts] split: sum.splits)
  then have lt: "length s < length ts"
    by (auto simp: parse_simple_def cmd_new_def intro: simple_loop_consumes)
  show ?thesis
  proof (cases "at_kind s TOK_PIPE")
    case True
    with run p have "length r \<le> length (skip_nl (tl s))"
      by (auto simp: pipeline_loop.simps [of cmds ts] Let_def split: if_splits
          dest: pipeline_loop_length)
    with after_op_length [OF True, of ts] lt show ?thesis by simp
  next
    case False
    with run p lt show ?thesis by (simp add: pipeline_loop.simps [of cmds ts])
  qed
qed

lemma parse_pipeline_consumes: "parse_pipeline ts = Inr (pl, r) \<Longrightarrow> length r < length ts"
  by (auto simp: parse_pipeline_def split: sum.splits intro: pipeline_loop_consumes)

lemma andor_loop_consumes: "andor_loop items op ts = Inr (its, r) \<Longrightarrow> length r < length ts"
proof (induction items op ts rule: andor_loop.induct)
  case (1 items op ts)
  note run = 1(2) [unfolded andor_loop.simps [of items op ts]]
  from run obtain neg q pl s where b: "take_bang ts = Inr (neg, q)" and pp: "parse_pipeline q = Inr (pl, s)"
    by (auto split: sum.splits)
  have lt: "length s < length ts"
    using take_bang_length [OF b] parse_pipeline_consumes [OF pp] by simp
  show ?case
  proof (cases "\<not> at_kind s TOK_AND_IF \<and> \<not> at_kind s TOK_OR_IF")
    case True
    with run b pp lt show ?thesis by simp
  next
    case False
    note rest = after_andor_length [OF b pp False]
    show ?thesis
    proof (cases "at_end (skip_nl (tl s))")
      case True
      with run b pp False show ?thesis by (simp add: Let_def)
    next
      case notend: False
      from run b pp False notend have
        "andor_loop (items @ [(op, NODE_PIPELINE pl neg)])
           (if at_kind s TOK_AND_IF then ANDOR_AND else ANDOR_OR) (skip_nl (tl s)) = Inr (its, r)"
        by (simp add: Let_def)
      from "1.IH"(1) [OF b refl pp refl refl False refl refl notend this] rest show ?thesis by simp
    qed
  qed
qed

lemma ret_andor: "ret (length ts - Suc 0) (Some (parse_andor ts))"
  by (cases "andor_loop [] ANDOR_FIRST ts")
     (auto simp: parse_andor_def dest!: andor_loop_consumes split: if_splits)

lemma ret_item:
  assumes "returns_below m pl" "length ts \<le> m" "length ts \<le> n" "ts \<noteq> []"
  shows "ret (length ts - Suc 0) (parse_item pl n ts)"
  unfolding parse_item_def
  using ret_if [OF assms] ret_while [OF assms(1,2,4)] ret_for [OF assms(1,2,4)]
    ret_funcdef [OF assms(1,2,4)] ret_andor [of ts] by simp

lemma ret_list_loop: "length ts < n \<Longrightarrow> ret (length ts) (list_loop n nodes ts)"
proof (induction n arbitrary: nodes ts)
  case (Suc n)
  define ts1 where "ts1 = skip_seps ts"
  have le: "length ts1 \<le> length ts" by (simp add: ts1_def skip_seps_length)
  show ?case
  proof (cases "at_end ts1 \<or> at_ender ts1")
    case True
    with le show ?thesis by (auto simp: Let_def ts1_def [symmetric])
  next
    case False
    have rb: "returns_below n (list_loop n [])" using Suc.IH by (simp add: returns_below_def)
    from False have ne: "ts1 \<noteq> []" by (simp add: at_end_def)
    with le Suc.prems have bound: "length ts1 \<le> n" "0 < length ts1" by simp_all
    have IH: "ret (length ts) (list_loop n ns r)" if "length r < length ts1" for ns r
      by (rule ret_mono [OF Suc.IH]) (use that le bound in simp_all)
    show ?thesis
      unfolding list_loop.simps Let_def ts1_def [symmetric] if_not_P [OF False]
    proof (rule ret_bind [OF ret_item [OF rb bound(1,1) ne]], goal_cases)
      case (1 item r)
      with ne have "length r < length ts1" "length (tl r) < length ts1" by (cases ts1; simp)+
      then show ?case by (auto intro: IH)
    qed
  qed
qed simp

text \<open>C22: Parsing always ends: one unit of fuel more than there are tokens is enough for every token
  list, so the parser always gives a verdict, and with it a tree exactly when the verdict is OK
  and the program is not empty.\<close>

theorem parser_parse_program_returns:
  "\<exists>err n. parser_parse_program toks = Some (err, n) \<and> (err = NSH_OK \<or> n = None)"
proof -
  have "ret (length toks) (parse_list (parser_fuel toks) toks)"
    unfolding parse_list_def parser_fuel_def by (rule ret_list_loop) simp
  then show ?thesis
    by (auto simp: ret_def parser_parse_program_def program_result_def split: option.splits sum.splits)
qed

section \<open>The tree is well formed\<close>

definition pok :: "('a \<Rightarrow> TokenList \<Rightarrow> bool) \<Rightarrow> 'a pres option \<Rightarrow> bool" where
  "pok Q m = (case m of Some (Inr (x, r)) \<Rightarrow> Q x r | _ \<Rightarrow> True)"

lemma pok_bind: "pok P m \<Longrightarrow> (\<And>x r. P x r \<Longrightarrow> pok Q (f x r)) \<Longrightarrow> pok Q (bindp m f)"
  by (fastforce simp: pok_def bindp_def split: option.splits sum.splits)

lemma pok_mono: "pok P m \<Longrightarrow> (\<And>x r. P x r \<Longrightarrow> Q x r) \<Longrightarrow> pok Q m"
  by (auto simp: pok_def split: option.splits sum.splits)

lemma pok_simps [simp]: "pok Q None" "pok Q (Some (Inl e))" "pok Q (Some (Inr (x, r))) \<longleftrightarrow> Q x r"
  by (auto simp: pok_def)

definition toks_ok :: "TokenList \<Rightarrow> bool" where "toks_ok ts \<longleftrightarrow> (\<forall>t\<in>set ts. tok_ok t)"

lemma toks_ok_simps [simp]: "toks_ok []" "toks_ok (t # ts) \<longleftrightarrow> tok_ok t \<and> toks_ok ts"
  by (auto simp: toks_ok_def)

lemma toks_ok_tl [simp]: "toks_ok ts \<Longrightarrow> toks_ok (tl ts)"
  by (cases ts) auto

lemma toks_ok_skip [simp]: "toks_ok ts \<Longrightarrow> toks_ok (skip_seps ts)" "toks_ok ts \<Longrightarrow> toks_ok (skip_nl ts)"
  by (induction ts) auto

text \<open>A command under construction, in front of the tokens still to be read.\<close>

definition part_ok :: "Command \<Rightarrow> TokenList \<Rightarrow> bool" where
  "part_ok c ts \<longleftrightarrow> (\<forall>t\<in>set (c_words c). word_ok t)
     \<and> (c_words c \<noteq> [] \<longrightarrow> \<not> is_reserved (Some (hd (c_words c))))
     \<and> (\<forall>t\<in>set_option (c_redir_in c). word_ok t)
     \<and> (\<forall>t\<in>set_option (c_redir_out c). word_ok t)
     \<and> (\<forall>t\<in>set_option (c_redir_err c). word_ok t)
     \<and> (c_redir_append c \<longrightarrow> c_redir_out c \<noteq> None)"

definition bang_ok :: "Command \<Rightarrow> bool" where
  "bang_ok c \<longleftrightarrow> (tok_is (Some (hd (c_words c))) ''!'' \<longrightarrow> has_redir c)"

lemma set_redir_part_ok:
  assumes "cmd_set_redir c k u = Inr d" "part_ok c ts" "word_ok u"
  shows "part_ok d us \<and> c_words d = c_words c \<and> has_redir d"
  using assms by (auto simp: cmd_set_redir_def part_ok_def has_redir_def split: if_splits)

lemma simple_loop_ok:
  assumes "simple_loop c ts = Inr (d, r)" "part_ok c ts" "toks_ok ts"
  shows "cmd_ok d \<and> toks_ok r"
  using assms
proof (induction c ts rule: simple_loop.induct)
  case (1 c)
  then show ?case by (auto simp: simple_done_def part_ok_def cmd_ok_def split: if_splits)
next
  case (2 c t ts)
  consider "t_kind t = TOK_WORD" | "t_kind t \<noteq> TOK_WORD" "\<not> is_redir (t_kind t)"
    | "t_kind t \<noteq> TOK_WORD" "is_redir (t_kind t)" by blast
  then show ?case
  proof cases
    case 1
    with 2(3,4,5) have go: "\<not> (c_words c = [] \<and> is_reserved (Some t))"
      "simple_loop (c\<lparr>c_words := c_words c @ [t]\<rparr>) ts = Inr (d, r)" by (auto split: if_splits)
    moreover have "part_ok (c\<lparr>c_words := c_words c @ [t]\<rparr>) ts"
      using 1 go(1) 2(4,5) by (cases "c_words c = []") (auto simp: part_ok_def word_ok_def)
    ultimately show ?thesis using "2.IH"(1) [OF 1] 2(5) by simp
  next
    case 2
    with "2.prems" show ?thesis
      by (auto simp: simple_done_def part_ok_def cmd_ok_def split: if_splits)
  next
    case 3
    then obtain u us d' where ts: "ts = u # us" "t_kind u = TOK_WORD"
      "cmd_set_redir c (t_kind t) u = Inr d'" "simple_loop d' us = Inr (d, r)"
      using "2.prems"(1) by (auto split: list.splits if_splits sum.splits)
    have "part_ok d' us"
      using set_redir_part_ok [OF ts(3) "2.prems"(2)] "2.prems"(3) ts by (simp add: word_ok_def)
    then show ?thesis
      using "2.IH"(2) [OF 3(1) _ ts(1) _ ts(3) ts(4)] "2.prems"(3) ts 3 by simp
  qed
qed

lemma simple_loop_bang:
  assumes "simple_loop c ts = Inr (d, r)"
    and "if c_words c = [] then has_redir c \<or> \<not> kw_at ts ''!'' else bang_ok c"
  shows "bang_ok d"
  using assms
proof (induction c ts rule: simple_loop.induct)
  case (1 c)
  then show ?case by (auto simp: simple_done_def split: if_splits)
next
  case (2 c t ts)
  consider "t_kind t = TOK_WORD" | "t_kind t \<noteq> TOK_WORD" "\<not> is_redir (t_kind t)"
    | "t_kind t \<noteq> TOK_WORD" "is_redir (t_kind t)" by blast
  then show ?case
  proof cases
    case 1
    with 2(3) have go: "\<not> (c_words c = [] \<and> is_reserved (Some t))"
      "simple_loop (c\<lparr>c_words := c_words c @ [t]\<rparr>) ts = Inr (d, r)" by (auto split: if_splits)
    with "2.IH"(1) [OF 1 go] "2.prems"(2) show ?thesis
      by (auto simp: bang_ok_def has_redir_def kw_at_def pk_def split: if_splits)
  next
    case 2
    with "2.prems" show ?thesis by (auto simp: simple_done_def split: if_splits)
  next
    case 3
    then obtain u us d' where ts: "ts = u # us" "t_kind u = TOK_WORD"
      "cmd_set_redir c (t_kind t) u = Inr d'" "simple_loop d' us = Inr (d, r)"
      using "2.prems"(1) by (auto split: list.splits if_splits sum.splits)
    have "has_redir d'" "c_words d' = c_words c" "c_words c \<noteq> [] \<Longrightarrow> bang_ok d'"
      using ts(3) by (auto simp: cmd_set_redir_def has_redir_def bang_ok_def split: if_splits)
    then show ?thesis
      using "2.IH"(2) [OF 3(1) _ ts(1) _ ts(3) ts(4)] ts 3 by simp
  qed
qed

lemma parse_simple_ok:
  assumes "parse_simple ts = Inr (c, r)" "toks_ok ts"
  shows "cmd_ok c \<and> toks_ok r \<and> (\<not> kw_at ts ''!'' \<longrightarrow> bang_ok c)"
proof -
  have "part_ok cmd_new ts" by (simp add: part_ok_def cmd_new_def)
  with assms simple_loop_ok [of cmd_new ts c r] simple_loop_bang [of cmd_new ts c r]
  show ?thesis by (auto simp: parse_simple_def cmd_new_def)
qed

lemma pipeline_loop_ok:
  assumes "pipeline_loop cmds ts = Inr (cs, r)" "\<forall>c\<in>set cmds. cmd_ok c" "toks_ok ts"
  shows "\<exists>ds. cs = cmds @ ds \<and> ds \<noteq> [] \<and> (\<forall>c\<in>set cs. cmd_ok c) \<and> toks_ok r
    \<and> (\<not> kw_at ts ''!'' \<longrightarrow> bang_ok (hd ds))"
  using assms
proof (induction cmds ts rule: pipeline_loop.induct)
  case (1 cmds ts)
  note run = 1(2) [unfolded pipeline_loop.simps [of cmds ts]]
  from run obtain c s where p: "parse_simple ts = Inr (c, s)" by (auto split: sum.splits)
  note c = parse_simple_ok [OF p 1(4)]
  show ?case
  proof (cases "at_kind s TOK_PIPE")
    case False
    with run p c 1(3) show ?thesis by auto
  next
    case True
    with run p have go: "\<not> at_end (skip_nl (tl s))" "pipeline_loop (cmds @ [c]) (skip_nl (tl s)) = Inr (cs, r)"
      by (auto simp: Let_def split: if_splits)
    have "toks_ok (skip_nl (tl s))" "\<forall>c\<in>set (cmds @ [c]). cmd_ok c" using c 1(3) by auto
    from "1.IH" [OF p refl _ refl go(1,2) this(2,1)] True obtain ds where
      "cs = (cmds @ [c]) @ ds" "\<forall>c\<in>set cs. cmd_ok c" "toks_ok r" by auto
    with c show ?thesis by (intro exI [of _ "c # ds"]) auto
  qed
qed

lemma parse_pipeline_ok:
  assumes "parse_pipeline ts = Inr (pl, r)" "toks_ok ts" "\<not> kw_at ts ''!''"
  shows "pipeline_ok pl \<and> \<not> pl_background pl \<and> toks_ok r"
proof -
  from assms(1) obtain cs where cs: "pipeline_loop [] ts = Inr (cs, r)"
    and pl: "pl = \<lparr>pl_cmds = cs, pl_background = False\<rparr>"
    by (auto simp: parse_pipeline_def split: sum.splits)
  from pipeline_loop_ok [OF cs _ assms(2)] assms(3) show ?thesis
    by (auto simp: pl pipeline_ok_def bang_ok_def)
qed

definition items_ok :: "(AndOrOp \<times> Node) list \<Rightarrow> bool" where
  "items_ok items \<longleftrightarrow> (\<forall>it\<in>set items. fg_pipeline (snd it) \<and> node_ok (snd it))
     \<and> (items \<noteq> [] \<longrightarrow> fst (hd items) = ANDOR_FIRST \<and> ANDOR_FIRST \<notin> fst ` set (tl items))"

lemma take_bang_ok:
  "take_bang ts = Inr (neg, r) \<Longrightarrow> toks_ok ts \<Longrightarrow> toks_ok r \<and> \<not> kw_at r ''!''"
  by (auto simp: take_bang_def Let_def split: if_splits)

lemma andor_loop_ok:
  assumes "andor_loop items op ts = Inr (its, r)" "items_ok items" "toks_ok ts"
    and "if items = [] then op = ANDOR_FIRST else op \<noteq> ANDOR_FIRST"
  shows "items_ok its \<and> its \<noteq> [] \<and> toks_ok r"
  using assms
proof (induction items op ts rule: andor_loop.induct)
  case (1 items op ts)
  note run = 1(2) [unfolded andor_loop.simps [of items op ts]]
  from run obtain neg q pl s where b: "take_bang ts = Inr (neg, q)" and pp: "parse_pipeline q = Inr (pl, s)"
    by (auto split: sum.splits)
  from take_bang_ok [OF b 1(4)] have q: "toks_ok q" "\<not> kw_at q ''!''" by auto
  note pl = parse_pipeline_ok [OF pp q]
  let ?items = "items @ [(op, NODE_PIPELINE pl neg)]"
  have items: "items_ok ?items"
    using 1(3,5) pl by (cases items) (auto simp: items_ok_def fg_pipeline_def)
  show ?case
  proof (cases "\<not> at_kind s TOK_AND_IF \<and> \<not> at_kind s TOK_OR_IF")
    case True
    with run b pp items pl show ?thesis by auto
  next
    case False
    with run b pp have go: "\<not> at_end (skip_nl (tl s))"
      "andor_loop ?items (if at_kind s TOK_AND_IF then ANDOR_AND else ANDOR_OR) (skip_nl (tl s)) = Inr (its, r)"
      by (auto simp: Let_def split: if_splits)
    have ts: "toks_ok (skip_nl (tl s))" using pl by simp
    show ?thesis by (rule "1.IH" [OF b refl pp refl refl False refl refl go items ts]) simp
  qed
qed

lemma parse_andor_ok: "toks_ok ts \<Longrightarrow> pok (\<lambda>n r. node_ok n \<and> \<not> is_list n \<and> toks_ok r) (Some (parse_andor ts))"
proof (cases "andor_loop [] ANDOR_FIRST ts")
  case (Inr p)
  assume ts: "toks_ok ts"
  obtain its r where p: "p = (its, r)" by (cases p)
  have ok: "items_ok its \<and> its \<noteq> [] \<and> toks_ok r"
    by (rule andor_loop_ok [OF Inr [unfolded p] _ ts]) (simp_all add: items_ok_def)
  show ?thesis
  proof (cases "length its = 1")
    case True
    then obtain it where "its = [it]" by (cases its) auto
    with Inr p ok show ?thesis
      by (cases "snd it") (auto simp: parse_andor_def items_ok_def fg_pipeline_def is_list_def)
  next
    case False
    with ok have "length its \<ge> 2" by (cases its) (auto simp: Suc_le_eq)
    with Inr p ok False show ?thesis
      by (auto simp: parse_andor_def items_ok_def chain_ok_def is_list_def hd_map map_tl [symmetric])
  qed
qed (simp add: parse_andor_def)

definition body_ok :: "(TokenList \<Rightarrow> Node option pres option) \<Rightarrow> bool" where
  "body_ok pl \<longleftrightarrow> (\<forall>ts. toks_ok ts \<longrightarrow> pok (\<lambda>n r. (\<forall>m\<in>set_option n. node_ok m) \<and> toks_ok r) (pl ts))"

lemma parse_body_ok: "body_ok pl \<Longrightarrow> toks_ok ts \<Longrightarrow> pok (\<lambda>n r. node_ok n \<and> toks_ok r) (parse_body pl ts)"
  unfolding parse_body_def body_ok_def
  by (rule pok_bind [where P = "\<lambda>n r. (\<forall>m\<in>set_option n. node_ok m) \<and> toks_ok r"])
     (auto split: option.splits)

lemma expect_kw_ok: "toks_ok ts \<Longrightarrow> pok (\<lambda>_ r. toks_ok r) (Some (expect_kw ts kw))"
  by (simp add: expect_kw_def)

lemma for_words_ok: "for_words ts = (ws, r) \<Longrightarrow> toks_ok ts \<Longrightarrow> (\<forall>w\<in>set ws. word_ok w) \<and> toks_ok r"
  by (induction ts arbitrary: ws) (fastforce simp: word_ok_def split: if_splits prod.splits)+

lemma for_head_ok: "toks_ok ts \<Longrightarrow> pok (\<lambda>ws r. (\<forall>w\<in>set ws. word_ok w) \<and> toks_ok r) (Some (for_head ts))"
  by (cases "for_words (tl (skip_nl ts))")
     (auto simp: for_head_def expect_kw_def Let_def dest: for_words_ok)

lemma name_dup_valid: "name_dup t = Some s \<Longrightarrow> valid_name s"
  by (auto simp: name_dup_def Let_def split: option.splits if_splits)

lemma funcdef_head_ok:
  assumes "toks_ok ts" "\<not> at_ender ts" "\<not> kw_at ts ''if''" "\<not> kw_at ts ''while''" "\<not> kw_at ts ''for''"
  shows "pok (\<lambda>s r. valid_name s \<and> s \<notin> set (KW_END @ KW_OPEN) \<and> toks_ok r) (Some (funcdef_head ts))"
proof -
  have "valid_name s \<and> s \<notin> set (KW_END @ KW_OPEN)" if "name_dup (pk ts) = Some s" for s
  proof -
    from that have v: "valid_name s" by (rule name_dup_valid)
    then have "s \<noteq> ''{''" by (auto simp: valid_name_def is_name_start_def)
    moreover have "tok_is (pk ts) s"
      using that by (auto simp: name_dup_def tok_is_def Let_def split: option.splits if_splits)
    ultimately show ?thesis
      using v assms(2-) by (auto simp: at_ender_def in_set_iff kw_at_def KW_OPEN_def)
  qed
  with assms(1) show ?thesis by (auto simp: funcdef_head_def Let_def split: option.splits)
qed

lemma if_loop_ok:
  assumes "body_ok pl" "toks_ok ts"
    and "length cs = length bs" "\<forall>n\<in>set cs \<union> set bs. node_ok n"
  shows "pok (\<lambda>(cs, bs) r. cs \<noteq> [] \<and> length cs = length bs \<and> (\<forall>n\<in>set cs \<union> set bs. node_ok n) \<and> toks_ok r)
    (if_loop pl n cs bs ts)"
  using assms(2-)
proof (induction n arbitrary: cs bs ts)
  case (Suc n)
  show ?case
    unfolding if_loop.simps
    by (rule pok_bind [OF parse_body_ok [OF assms(1) Suc.prems(1)]],
        rule pok_bind [OF expect_kw_ok], blast, rule pok_bind [OF parse_body_ok [OF assms(1)]], assumption)
      (use Suc in \<open>auto simp: ball_Un\<close>)
qed simp

lemma parse_if_ok:
  assumes "body_ok pl" "toks_ok ts"
  shows "pok (\<lambda>n r. node_ok n \<and> \<not> is_list n \<and> toks_ok r) (parse_if pl n ts)"
  unfolding parse_if_def
  by (rule pok_bind [OF if_loop_ok [OF assms(1)]])
    (use assms in \<open>auto simp: is_list_def intro!: pok_bind [OF parse_body_ok [OF assms(1)]] pok_bind [OF expect_kw_ok]\<close>)

lemma parse_while_ok:
  assumes "body_ok pl" "toks_ok ts"
  shows "pok (\<lambda>n r. node_ok n \<and> \<not> is_list n \<and> toks_ok r) (parse_while pl ts)"
  unfolding parse_while_def
  using assms
  by (auto simp: is_list_def intro!: pok_bind [OF parse_body_ok [OF assms(1)]] pok_bind [OF expect_kw_ok])

lemma parse_for_ok:
  assumes "body_ok pl" "toks_ok ts"
  shows "pok (\<lambda>n r. node_ok n \<and> \<not> is_list n \<and> toks_ok r) (parse_for pl ts)"
  unfolding parse_for_def
  using assms
  by (auto simp: is_list_def name_dup_valid split: option.splits
      intro!: pok_bind [OF parse_body_ok [OF assms(1)]] pok_bind [OF expect_kw_ok]
      pok_bind [OF for_head_ok])

lemma parse_funcdef_ok:
  assumes "body_ok pl" "toks_ok ts"
    and "\<not> at_ender ts" "\<not> kw_at ts ''if''" "\<not> kw_at ts ''while''" "\<not> kw_at ts ''for''"
  shows "pok (\<lambda>n r. node_ok n \<and> \<not> is_list n \<and> toks_ok r) (parse_funcdef pl ts)"
  unfolding parse_funcdef_def
  by (rule pok_bind [OF funcdef_head_ok [OF assms(2-)]])
    (auto simp: is_list_def intro!: pok_bind [OF parse_body_ok [OF assms(1)]] pok_bind [OF expect_kw_ok])

lemma parse_item_ok:
  assumes "body_ok pl" "toks_ok ts" "\<not> at_ender ts"
  shows "pok (\<lambda>n r. node_ok n \<and> \<not> is_list n \<and> toks_ok r) (parse_item pl n ts)"
  unfolding parse_item_def
  using assms by (auto intro: parse_if_ok parse_while_ok parse_for_ok parse_funcdef_ok parse_andor_ok)

lemma set_background_ok [simp]:
  "node_ok n \<Longrightarrow> node_ok (set_background n)" "is_list (set_background n) = is_list n"
  by (cases n; auto simp: set_background_def pipeline_ok_def is_list_def)+

lemma list_done_ok:
  "\<forall>n\<in>set nodes. node_ok n \<and> \<not> is_list n \<Longrightarrow> \<forall>m\<in>set_option (list_done nodes). node_ok m"
  by (auto simp: list_done_def split: list.splits)

lemma list_loop_ok:
  assumes "toks_ok ts" "\<forall>n\<in>set nodes. node_ok n \<and> \<not> is_list n"
  shows "pok (\<lambda>n r. (\<forall>m\<in>set_option n. node_ok m) \<and> toks_ok r) (list_loop k nodes ts)"
  using assms
proof (induction k arbitrary: nodes ts)
  case (Suc k)
  have bo: "body_ok (list_loop k [])" using Suc.IH by (simp add: body_ok_def)
  have ts: "toks_ok (skip_seps ts)" using Suc.prems by simp
  show ?case
    unfolding list_loop.simps Let_def
  proof (split if_split, intro conjI impI, goal_cases)
    case 1
    show ?case using ts list_done_ok [OF Suc.prems(2)] by simp
  next
    case 2
    then have ne: "\<not> at_ender (skip_seps ts)" by simp
    show ?case by (rule pok_bind [OF parse_item_ok [OF bo ts ne]]) (use Suc.prems in \<open>auto intro!: Suc.IH\<close>)
  qed
qed simp

text \<open>C24: The tree the parser builds from the lexer's tokens is well formed: no empty pipeline or
  command, no reserved word as a command name, chains of at least two foreground pipelines that
  start with FIRST, lists of at least two items with no list directly inside, as many conditions
  as bodies in an if, identifiers as loop variables, and as function names identifiers that are no keywords.\<close>

theorem parser_tree_ok:
  assumes "parser_parse_program (snd (lexer_scan line)) = Some (NSH_OK, Some n)"
  shows "node_ok n"
proof -
  have "toks_ok (snd (lexer_scan line))"
    by (auto simp: toks_ok_def lexer_scan_def split: option.splits dest: lexer_loop_ok)
  then have "pok (\<lambda>n r. (\<forall>m\<in>set_option n. node_ok m) \<and> toks_ok r)
      (parse_list (parser_fuel (snd (lexer_scan line))) (snd (lexer_scan line)))"
    unfolding parse_list_def by (rule list_loop_ok) simp
  with assms show ?thesis
    by (auto simp: parser_parse_program_def program_result_def pok_def split: option.splits sum.splits if_splits)
qed

section \<open>A syntax error is final, an unfinished program is not\<close>

text \<open>
  \<open>ext us m m'\<close>: the verdict \<open>m\<close> on some tokens survives, as \<open>m'\<close>, when a newline and the tokens
  \<open>us\<close> are appended. A list may only be continued if it stopped before the end (\<open>extl\<close>).
\<close>

abbreviation NL_TOK :: Token where "NL_TOK \<equiv> \<lparr>t_kind = TOK_NEWLINE, t_segs = []\<rparr>"

definition ext :: "TokenList \<Rightarrow> 'a pres option \<Rightarrow> 'a pres option \<Rightarrow> bool" where
  "ext us m m' = (case m of None \<Rightarrow> True
     | Some (Inl e) \<Rightarrow> e = NSH_ERR_INCOMPLETE \<or> m' = Some (Inl e)
     | Some (Inr (x, r)) \<Rightarrow> m' = Some (Inr (x, r @ NL_TOK # us)))"

definition extl :: "TokenList \<Rightarrow> 'a pres option \<Rightarrow> 'a pres option \<Rightarrow> bool" where
  "extl us m m' = (case m of None \<Rightarrow> True
     | Some (Inl e) \<Rightarrow> e = NSH_ERR_INCOMPLETE \<or> m' = Some (Inl e)
     | Some (Inr (x, r)) \<Rightarrow> r = [] \<or> m' = Some (Inr (x, r @ NL_TOK # us)))"

lemma ext_simps [simp]:
  "ext us (Some (Inr (x, r))) m' \<longleftrightarrow> m' = Some (Inr (x, r @ NL_TOK # us))"
  "ext us (Some (Inl e)) m' \<longleftrightarrow> e = NSH_ERR_INCOMPLETE \<or> m' = Some (Inl e)"
  "ext us None m'"
  "extl us (Some (Inr (x, r))) m' \<longleftrightarrow> r = [] \<or> m' = Some (Inr (x, r @ NL_TOK # us))"
  "extl us (Some (Inl e)) m' \<longleftrightarrow> e = NSH_ERR_INCOMPLETE \<or> m' = Some (Inl e)"
  "extl us None m'"
  by (auto simp: ext_def extl_def)

lemma ext_extl: "ext us m m' \<Longrightarrow> extl us m m'"
  by (auto simp: ext_def extl_def split: option.splits sum.splits)

lemma ext_bind:
  assumes "ext us m m'" "\<And>x r. ext us (f x r) (f' x (r @ NL_TOK # us))"
  shows "ext us (bindp m f) (bindp m' f')"
  using assms by (fastforce simp: ext_def [of us m] bindp_def split: option.splits sum.splits)

lemma extl_bind:
  assumes "extl us m m'" "\<And>x r. r \<noteq> [] \<Longrightarrow> ext us (f x r) (f' x (r @ NL_TOK # us))"
    and "\<And>x. f x [] = None \<or> f x [] = Some (Inl NSH_ERR_INCOMPLETE)"
  shows "ext us (bindp m f) (bindp m' f')"
proof (cases m)
  case (Some z)
  show ?thesis
  proof (cases z)
    case (Inr p)
    obtain x r where p: "p = (x, r)" by (cases p)
    show ?thesis
    proof (cases "r = []")
      case True
      with Some Inr p assms(3) [of x] show ?thesis by (auto simp: bindp_def)
    next
      case False
      with Some Inr p assms(1,2) show ?thesis by (simp add: bindp_def)
    qed
  qed (use Some assms in \<open>auto simp: bindp_def\<close>)
qed (simp add: bindp_def)

lemma extl_bindl:
  assumes "extl us m m'" "\<And>x r. r \<noteq> [] \<Longrightarrow> extl us (f x r) (f' x (r @ NL_TOK # us))"
    and "\<And>x. extl us (f x []) None"
  shows "extl us (bindp m f) (bindp m' f')"
proof (cases m)
  case (Some z)
  show ?thesis
  proof (cases z)
    case (Inr p)
    obtain x r where p: "p = (x, r)" by (cases p)
    show ?thesis
    proof (cases "r = []")
      case True
      with Some Inr p assms(3) [of x] show ?thesis
        by (auto simp: bindp_def extl_def split: option.splits sum.splits)
    next
      case False
      with Some Inr p assms(1,2) show ?thesis by (simp add: bindp_def)
    qed
  qed (use Some assms in \<open>auto simp: bindp_def\<close>)
qed (simp add: bindp_def)

text \<open>Token tests see past the appended newline only at the very end.\<close>

lemma tests_append [simp]:
  "k \<noteq> TOK_NEWLINE \<Longrightarrow> at_kind (ts @ NL_TOK # us) k = at_kind ts k"
  "kw_at (ts @ NL_TOK # us) kw = kw_at ts kw"
  "at_ender (ts @ NL_TOK # us) = at_ender ts"
  "\<not> at_end (ts @ NL_TOK # us)"
  "ts \<noteq> [] \<Longrightarrow> at_sep (ts @ NL_TOK # us) = at_sep ts"
  "ts \<noteq> [] \<Longrightarrow> pk (ts @ NL_TOK # us) = pk ts"
  by (cases ts; auto simp: token_tests tok_is_def at_ender_def in_set_iff)+

lemma tests_Nil [simp]: "\<not> at_kind [] k" "\<not> kw_at [] kw" "at_end []" "\<not> at_ender []" "\<not> at_sep []"
  by (auto simp: token_tests tok_is_def at_ender_def in_set_iff)

lemma tests_Cons [simp]:
  "kw_at (t # ts) kw = tok_is (Some t) kw" "at_kind (t # ts) k = (t_kind t = k)"
  "at_ender (t # ts) = in_set (Some t) KW_END" "\<not> at_end (t # ts)"
  "at_sep (t # ts) \<longleftrightarrow> t_kind t = TOK_SEMI \<or> t_kind t = TOK_NEWLINE"
  "t_kind t \<noteq> TOK_WORD \<Longrightarrow> \<not> tok_is (Some t) kw"
  by (auto simp: token_tests at_ender_def tok_is_def)

lemma skip_append [simp]:
  "skip_seps (ts @ NL_TOK # us) = (if skip_seps ts = [] then skip_seps us else skip_seps ts @ NL_TOK # us)"
  "skip_nl (ts @ NL_TOK # us) = (if skip_nl ts = [] then skip_nl us else skip_nl ts @ NL_TOK # us)"
  by (induction ts) (auto simp: token_tests)

lemma at_kind_ne: "at_kind ts k \<Longrightarrow> ts \<noteq> []" by auto

lemma ext_expect_kw: "ext us (Some (expect_kw ts kw)) (Some (expect_kw (ts @ NL_TOK # us) kw))"
  by (cases ts) (auto simp: expect_kw_def at_end_def)

lemma simple_loop_ext: "ext us (Some (simple_loop c ts)) (Some (simple_loop c (ts @ NL_TOK # us)))"
proof (induction c ts rule: simple_loop.induct)
  case (2 c t ts)
  show ?case
  proof (cases ts)
    case (Cons u vs)
    with 2 show ?thesis by (auto simp: simple_done_def split: sum.splits)
  qed (use 2 in \<open>auto simp: simple_done_def is_redir_def\<close>)
qed (auto simp: simple_done_def is_redir_def)

lemma pipeline_loop_ext: "ext us (Some (pipeline_loop cs ts)) (Some (pipeline_loop cs (ts @ NL_TOK # us)))"
proof (induction cs ts rule: pipeline_loop.induct)
  case (1 cs ts)
  have s: "ext us (Some (parse_simple ts)) (Some (parse_simple (ts @ NL_TOK # us)))"
    unfolding parse_simple_def by (rule simple_loop_ext)
  show ?case
  proof (cases "parse_simple ts")
    case (Inl e)
    with s show ?thesis by (auto simp: pipeline_loop.simps [of cs])
  next
    case (Inr p)
    obtain c r where p: "p = (c, r)" by (cases p)
    show ?thesis
    proof (cases "at_kind r TOK_PIPE \<and> skip_nl (tl r) \<noteq> []")
      case True
      then have "\<not> at_end (skip_nl (tl r))" and ne: "r \<noteq> []" by (auto simp: at_end_def)
      from 1 [OF Inr p [symmetric] _ refl this(1)] ne True Inr p s show ?thesis
        by (simp add: pipeline_loop.simps [of cs] Let_def at_kind_ne at_end_def)
    next
      case False
      with Inr p s show ?thesis
        by (auto simp: pipeline_loop.simps [of cs] Let_def)
    qed
  qed
qed

lemma parse_pipeline_ext: "ext us (Some (parse_pipeline ts)) (Some (parse_pipeline (ts @ NL_TOK # us)))"
  using pipeline_loop_ext [of us "[]" ts]
  by (cases "pipeline_loop [] ts") (auto simp: parse_pipeline_def)

lemma take_bang_ext: "ext us (Some (take_bang ts)) (Some (take_bang (ts @ NL_TOK # us)))"
  by (cases ts; cases "tl ts") (auto simp: take_bang_def at_end_def Let_def)

lemma andor_loop_ext:
  "ext us (Some (andor_loop its op ts)) (Some (andor_loop its op (ts @ NL_TOK # us)))"
proof (induction its op ts rule: andor_loop.induct)
  case (1 its op ts)
  note b = take_bang_ext [of us ts]
  show ?case
  proof (cases "take_bang ts")
    case (Inl e)
    with b show ?thesis by (auto simp: andor_loop.simps [of its op])
  next
    case (Inr p)
    obtain neg q where p: "p = (neg, q)" by (cases p)
    note pp = parse_pipeline_ext [of us q]
    show ?thesis
    proof (cases "parse_pipeline q")
      case (Inl e)
      with b pp Inr p show ?thesis by (auto simp: andor_loop.simps [of its op])
    next
      case i2: (Inr p2)
      obtain pl s where p2: "p2 = (pl, s)" by (cases p2)
      show ?thesis
      proof (cases "\<not> at_kind s TOK_AND_IF \<and> \<not> at_kind s TOK_OR_IF")
        case True
        with b pp Inr p i2 p2 show ?thesis by (simp add: andor_loop.simps [of its op])
      next
        case False
        then have ne: "s \<noteq> []" by auto
        show ?thesis
        proof (cases "skip_nl (tl s) = []")
          case True
          with False b pp Inr p i2 p2 show ?thesis
            by (auto simp: andor_loop.simps [of its op] Let_def)
        next
          case more: False
          then have "\<not> at_end (skip_nl (tl s))" by (simp add: at_end_def)
          from 1 [OF Inr p [symmetric] i2 p2 [symmetric] refl False refl refl this] ne False more b pp Inr p i2 p2
          show ?thesis
            by (auto simp: andor_loop.simps [of its op] Let_def at_end_def)
        qed
      qed
    qed
  qed
qed

lemma parse_andor_ext: "ext us (Some (parse_andor ts)) (Some (parse_andor (ts @ NL_TOK # us)))"
  using andor_loop_ext [of us "[]" ANDOR_FIRST ts]
  by (cases "andor_loop [] ANDOR_FIRST ts") (auto simp: parse_andor_def)

definition body_ext :: "TokenList \<Rightarrow> (TokenList \<Rightarrow> 'a pres option) \<Rightarrow> bool" where
  "body_ext us pl \<longleftrightarrow> (\<forall>ts. extl us (pl ts) (pl (ts @ NL_TOK # us)))"

lemma parse_body_ext:
  "body_ext us pl \<Longrightarrow> extl us (parse_body pl ts) (parse_body pl (ts @ NL_TOK # us))"
  unfolding parse_body_def body_ext_def
  by (rule extl_bindl) (auto simp: at_end_def split: option.splits)

lemma expect_then_ext:
  "(\<And>s. extl us (f () s) (f' () (s @ NL_TOK # us))) \<Longrightarrow>
   extl us (bindp (Some (expect_kw r kw)) f) (bindp (Some (expect_kw (r @ NL_TOK # us) kw)) f')"
  by (cases r) (auto simp: expect_kw_def bindp_def at_end_def)

lemma expect_Nil [simp]: "bindp (Some (expect_kw [] kw)) f = Some (Inl NSH_ERR_INCOMPLETE)"
  by (simp add: expect_kw_def bindp_def)

lemma if_loop_ext:
  assumes "body_ext us pl"
  shows "extl us (if_loop pl n cs bs ts) (if_loop pl n cs bs (ts @ NL_TOK # us))"
proof (induction n arbitrary: cs bs ts)
  case (Suc n)
  show ?case
    unfolding if_loop.simps
  proof (rule extl_bindl [OF parse_body_ext [OF assms]], rule expect_then_ext,
      rule extl_bindl [OF parse_body_ext [OF assms]], goal_cases)
    case (1 cond r s body u)
    then show ?case using Suc.IH [of _ _ "tl u"] by simp
  qed simp_all
qed simp

lemma parse_if_ext:
  assumes "body_ext us pl" "ts \<noteq> []"
  shows "ext us (parse_if pl n ts) (parse_if pl n (ts @ NL_TOK # us))"
  unfolding parse_if_def tl_append_if if_not_P [OF assms(2)]
proof (rule extl_bind [OF if_loop_ext [OF assms(1)]], goal_cases)
  case (1 x r)
  obtain cs bs where x: "x = (cs, bs)" by (cases x)
  have "ext us (bindp (parse_body pl (tl r)) (\<lambda>els s.
       bindp (Some (expect_kw s ''fi'')) (\<lambda>_ u. Some (Inr (NODE_IF cs bs (Some els), u)))))
      (bindp (parse_body pl (tl r @ NL_TOK # us)) (\<lambda>els s.
       bindp (Some (expect_kw s ''fi'')) (\<lambda>_ u. Some (Inr (NODE_IF cs bs (Some els), u)))))"
    by (rule extl_bind [OF parse_body_ext [OF assms(1)]], rule ext_bind [OF ext_expect_kw]) simp_all
  moreover have "ext us (bindp (Some (expect_kw r ''fi'')) (\<lambda>_ u. Some (Inr (NODE_IF cs bs None, u))))
     (bindp (Some (expect_kw (r @ NL_TOK # us) ''fi'')) (\<lambda>_ u. Some (Inr (NODE_IF cs bs None, u))))"
    by (rule ext_bind [OF ext_expect_kw]) simp
  ultimately show ?case using 1 x by simp
qed (auto split: prod.splits)

lemma parse_while_ext:
  assumes "body_ext us pl" "ts \<noteq> []"
  shows "ext us (parse_while pl ts) (parse_while pl (ts @ NL_TOK # us))"
  unfolding parse_while_def tl_append_if if_not_P [OF assms(2)]
  by (rule extl_bind [OF parse_body_ext [OF assms(1)]], rule ext_bind [OF ext_expect_kw],
      rule extl_bind [OF parse_body_ext [OF assms(1)]], rule ext_bind [OF ext_expect_kw]) simp_all

lemma for_words_append:
  "for_words (ts @ NL_TOK # us) = (fst (for_words ts), snd (for_words ts) @ NL_TOK # us)"
  by (induction ts) (auto split: prod.splits)

text \<open>Between the words and \<open>do\<close> the code skips newlines, so the head of a \<open>for\<close> is extended
  together with the keyword behind it.\<close>

lemma for_head_ext:
  "ext us (bindp (Some (for_head ts)) (\<lambda>ws r. bindp (Some (expect_kw r ''do'')) (\<lambda>_ s. Some (Inr (ws, s)))))
     (bindp (Some (for_head (ts @ NL_TOK # us))) (\<lambda>ws r. bindp (Some (expect_kw r ''do'')) (\<lambda>_ s. Some (Inr (ws, s)))))"
proof -
  obtain ws s where w: "for_words (tl (skip_nl ts)) = (ws, s)" by (cases "for_words (tl (skip_nl ts))")
  show ?thesis
  proof (cases "skip_nl ts = []")
    case True
    then show ?thesis by (simp add: for_head_def expect_kw_def bindp_def)
  next
    case False
    with w show ?thesis
      by (cases s; cases "skip_nl (tl s) = []")
         (auto simp: for_head_def expect_kw_def bindp_def Let_def for_words_append at_end_def)
  qed
qed

lemma bindp_assoc: "bindp (bindp m f) g = bindp m (\<lambda>x r. bindp (f x r) g)"
  by (auto simp: bindp_def split: option.splits sum.splits)

lemma bindp_Inr [simp]: "bindp (Some (Inr (x, r))) f = f x r" "bindp (Some (Inl e)) f = Some (Inl e)"
  "bindp None f = None"
  by (simp_all add: bindp_def)

lemma parse_for_ext:
  assumes "body_ext us pl" "ts \<noteq> []"
  shows "ext us (parse_for pl ts) (parse_for pl (ts @ NL_TOK # us))"
proof (cases "name_dup (pk (tl ts))")
  case None
  show ?thesis
  proof (cases "tl ts = []")
    case True
    with None show ?thesis by (simp add: parse_for_def)
  next
    case False
    with None assms(2) show ?thesis by (simp add: parse_for_def at_end_def)
  qed
next
  case (Some var)
  then have ne: "tl ts \<noteq> []" by (auto simp: name_dup_def pk_def)
  have split_for: "bindp (Some (for_head q)) (\<lambda>ws r. bindp (Some (expect_kw r ''do'')) (\<lambda>_ s. g ws s))
     = bindp (bindp (Some (for_head q)) (\<lambda>ws r. bindp (Some (expect_kw r ''do'')) (\<lambda>_ s. Some (Inr (ws, s))))) g"
    for q and g :: "Token list \<Rightarrow> TokenList \<Rightarrow> Node pres option"
    by (simp add: bindp_assoc)
  have "ext us (bindp (bindp (Some (for_head (tl (tl ts)))) (\<lambda>ws r. bindp (Some (expect_kw r ''do'')) (\<lambda>_ s. Some (Inr (ws, s)))))
        (\<lambda>ws s. bindp (parse_body pl s) (\<lambda>body u.
          bindp (Some (expect_kw u ''done'')) (\<lambda>_ v. Some (Inr (NODE_FOR var ws body, v))))))
     (bindp (bindp (Some (for_head (tl (tl ts) @ NL_TOK # us))) (\<lambda>ws r. bindp (Some (expect_kw r ''do'')) (\<lambda>_ s. Some (Inr (ws, s)))))
        (\<lambda>ws s. bindp (parse_body pl s) (\<lambda>body u.
          bindp (Some (expect_kw u ''done'')) (\<lambda>_ v. Some (Inr (NODE_FOR var ws body, v))))))"
    by (rule ext_bind [OF for_head_ext], rule extl_bind [OF parse_body_ext [OF assms(1)]],
        rule ext_bind [OF ext_expect_kw]) simp_all
  with Some ne assms(2) show ?thesis by (simp add: parse_for_def split_for)
qed

lemma funcdef_head_ext:
  assumes "tl ts \<noteq> []"
  shows "ext us (bindp (Some (funcdef_head ts)) (\<lambda>nm r. bindp (Some (expect_kw r ''{'')) (\<lambda>_ s. Some (Inr (nm, s)))))
     (bindp (Some (funcdef_head (ts @ NL_TOK # us))) (\<lambda>nm r. bindp (Some (expect_kw r ''{'')) (\<lambda>_ s. Some (Inr (nm, s)))))"
proof -
  obtain a b vs where ts: "ts = a # b # vs" using assms by (cases ts; cases "tl ts") auto
  show ?thesis
    by (cases vs; cases "skip_nl (tl vs) = []")
       (auto simp: ts funcdef_head_def pk_def Let_def expect_kw_def at_end_def split: option.splits)
qed

lemma parse_funcdef_ext:
  assumes "body_ext us pl" "tl ts \<noteq> []"
  shows "ext us (parse_funcdef pl ts) (parse_funcdef pl (ts @ NL_TOK # us))"
proof -
  have split_fd: "parse_funcdef pl q
     = bindp (bindp (Some (funcdef_head q)) (\<lambda>nm r. bindp (Some (expect_kw r ''{'')) (\<lambda>_ s. Some (Inr (nm, s)))))
         (\<lambda>nm s. bindp (parse_body pl s) (\<lambda>body u.
            bindp (Some (expect_kw u ''}'')) (\<lambda>_ v. Some (Inr (NODE_FUNCDEF nm body, v)))))" for q
    by (simp add: parse_funcdef_def bindp_assoc)
  show ?thesis
    unfolding split_fd
    by (rule ext_bind [OF funcdef_head_ext [OF assms(2)]], rule extl_bind [OF parse_body_ext [OF assms(1)]],
        rule ext_bind [OF ext_expect_kw]) simp_all
qed

lemma parse_item_ext:
  assumes "body_ext us pl" "ts \<noteq> []"
  shows "ext us (parse_item pl n ts) (parse_item pl n (ts @ NL_TOK # us))"
proof -
  have "at_kind (tl ts) TOK_LPAREN \<Longrightarrow> tl ts \<noteq> []" by auto
  with parse_if_ext [OF assms] parse_while_ext [OF assms] parse_for_ext [OF assms]
    parse_funcdef_ext [OF assms(1)] parse_andor_ext [of us ts] assms(2)
  show ?thesis by (simp add: parse_item_def)
qed

lemma ext_bindl:
  assumes "ext us m m'" "\<And>x r. extl us (f x r) (f' x (r @ NL_TOK # us))"
  shows "extl us (bindp m f) (bindp m' f')"
  using assms by (fastforce simp: ext_def bindp_def split: option.splits sum.splits)

lemma list_loop_ext: "extl us (list_loop n nodes ts) (list_loop n nodes (ts @ NL_TOK # us))"
proof (induction n arbitrary: nodes ts)
  case (Suc n)
  have be: "body_ext us (list_loop n [])" using Suc.IH by (simp add: body_ext_def)
  show ?case
  proof (cases "skip_seps ts = []")
    case False
    show ?thesis
    proof (cases "at_ender (skip_seps ts)")
      case True
      with False show ?thesis by (simp add: Let_def)
    next
      case notender: False
      let ?f = "\<lambda>item r. if at_kind r TOK_AMP then
             (if \<not> is_pipeline item then Some (Inl NSH_ERR_SYNTAX)
              else list_loop n (nodes @ [set_background item]) (tl r))
           else if \<not> at_end r \<and> \<not> at_ender r \<and> \<not> at_sep r then Some (Inl NSH_ERR_SYNTAX)
           else list_loop n (nodes @ [item]) r"
      have eqs: "list_loop (Suc n) nodes ts = bindp (parse_item (list_loop n []) n (skip_seps ts)) ?f"
        "list_loop (Suc n) nodes (ts @ NL_TOK # us)
          = bindp (parse_item (list_loop n []) n (skip_seps ts @ NL_TOK # us)) ?f"
        using False notender by (simp_all add: Let_def at_end_def)
      have "extl us (?f item r) (?f item (r @ NL_TOK # us))" for item r
        using Suc.IH [of _ r] Suc.IH [of _ "tl r"] Suc.IH [of _ "[]"]
        by (cases r) (simp_all add: at_ender_def pk_def)
      then show ?thesis
        unfolding eqs by (rule ext_bindl [OF parse_item_ext [OF be False]])
    qed
  qed (simp add: Let_def)
qed simp

text \<open>More fuel never changes a verdict.\<close>

definition mle :: "'a pres option \<Rightarrow> 'a pres option \<Rightarrow> bool" where
  "mle m m' \<longleftrightarrow> m = None \<or> m' = m"

lemma mle_refl [simp]: "mle m m" by (simp add: mle_def)

lemma mle_bind: "mle m m' \<Longrightarrow> (\<And>x r. mle (f x r) (f' x r)) \<Longrightarrow> mle (bindp m f) (bindp m' f')"
  by (fastforce simp: mle_def bindp_def split: option.splits sum.splits)

lemma parse_body_mono: "\<forall>ts. mle (pl ts) (pl' ts) \<Longrightarrow> mle (parse_body pl ts) (parse_body pl' ts)"
  unfolding parse_body_def by (rule mle_bind) auto

lemma if_loop_mono:
  assumes "\<forall>ts. mle (pl ts) (pl' ts)"
  shows "n \<le> n' \<Longrightarrow> mle (if_loop pl n cs bs ts) (if_loop pl' n' cs bs ts)"
proof (induction n arbitrary: cs bs ts n')
  case (Suc n)
  then obtain k where k: "n' = Suc k" "n \<le> k" by (cases n') auto
  show ?case
    unfolding k(1) if_loop.simps
    by (intro mle_bind parse_body_mono [OF assms] mle_refl) (simp add: Suc.IH k(2))
qed (simp add: mle_def)

lemma parse_item_mono:
  assumes "\<forall>ts. mle (pl ts) (pl' ts)" "n \<le> n'"
  shows "mle (parse_item pl n ts) (parse_item pl' n' ts)"
proof -
  have "mle (parse_if pl n ts) (parse_if pl' n' ts)"
    unfolding parse_if_def
    by (rule mle_bind [OF if_loop_mono [OF assms]])
       (auto split: prod.splits intro!: mle_bind parse_body_mono [OF assms(1)])
  moreover have "mle (parse_while pl ts) (parse_while pl' ts)"
    unfolding parse_while_def by (intro mle_bind parse_body_mono [OF assms(1)] mle_refl)
  moreover have "mle (parse_for pl ts) (parse_for pl' ts)"
    unfolding parse_for_def
    by (auto split: option.splits intro!: mle_bind parse_body_mono [OF assms(1)])
  moreover have "mle (parse_funcdef pl ts) (parse_funcdef pl' ts)"
    unfolding parse_funcdef_def by (intro mle_bind parse_body_mono [OF assms(1)] mle_refl)
  ultimately show ?thesis by (simp add: parse_item_def)
qed

lemma list_loop_mono: "n \<le> n' \<Longrightarrow> mle (list_loop n nodes ts) (list_loop n' nodes ts)"
proof (induction n arbitrary: nodes ts n')
  case (Suc n)
  then obtain k where k: "n' = Suc k" "n \<le> k" by (cases n') auto
  have all: "\<forall>ts. mle (list_loop n [] ts) (list_loop k [] ts)" using Suc.IH k(2) by blast
  show ?case
    unfolding k(1) list_loop.simps Let_def
    using Suc.IH [OF k(2)] by (auto intro!: mle_bind parse_item_mono [OF all k(2)])
qed (simp add: mle_def)

text \<open>The program's verdict does not depend on the fuel, as long as there is one unit per token and one more.\<close>

lemma parse_list_fuel:
  assumes "length ts < n"
  shows "parse_list n ts = parse_list (parser_fuel ts) ts"
proof -
  have "mle (list_loop (parser_fuel ts) [] ts) (list_loop n [] ts)"
    using assms by (intro list_loop_mono) (simp add: parser_fuel_def)
  moreover have "list_loop (parser_fuel ts) [] ts \<noteq> None"
    using ret_list_loop [of ts "parser_fuel ts" "[]"]
    by (cases "list_loop (parser_fuel ts) [] ts") (simp_all add: ret_def parser_fuel_def del: list_loop.simps)
  ultimately show ?thesis by (simp add: mle_def parse_list_def)
qed

text \<open>C23: A syntax error is final: whatever is typed on the following lines, the program stays a
  syntax error, so the shell is right to report it without reading on.\<close>

theorem parser_syntax_error_final:
  assumes "parser_parse_program toks = Some (NSH_ERR_SYNTAX, n)"
  shows "parser_parse_program (toks @ NL_TOK # us) = Some (NSH_ERR_SYNTAX, None)"
proof -
  let ?f = "parser_fuel (toks @ NL_TOK # us)"
  have same: "parse_list ?f toks = parse_list (parser_fuel toks) toks"
    by (rule parse_list_fuel) (simp add: parser_fuel_def)
  have "extl us (parse_list ?f toks) (parse_list ?f (toks @ NL_TOK # us))"
    unfolding parse_list_def by (rule list_loop_ext)
  with assms same show ?thesis
    by (auto simp: parser_parse_program_def program_result_def extl_def
        split: option.splits sum.splits if_splits)
qed

lemmas eval_parser = parser_parse_program_def program_result_def parse_list_def parser_fuel_def
  parse_item_def parse_andor_def andor_loop.simps take_bang_def parse_pipeline_def pipeline_loop.simps
  parse_simple_def cmd_new_def simple_done_def is_reserved_def KW_END_def KW_OPEN_def tok_is_def
  is_redir_def cmd_set_redir_def bindp_def list_done_def pk_def at_ender_def Let_def is_pipeline_def
  set_background_def

lemma parser_syntax_error_final_witness:
  "parser_parse_program ([\<lparr>t_kind = TOK_PIPE, t_segs = []\<rparr>] @ NL_TOK # [\<lparr>t_kind = TOK_SEMI, t_segs = []\<rparr>])
     = Some (NSH_ERR_SYNTAX, None)"
  by (rule parser_syntax_error_final [where n = None])
     (simp add: eval_parser)

lemma parser_tree_ok_witness:
  "node_ok (NODE_PIPELINE \<lparr>pl_cmds = [\<lparr>c_words = [\<lparr>t_kind = TOK_WORD, t_segs = [\<lparr>ws_text = ''ls'', ws_expand = True\<rparr>]\<rparr>],
     c_redir_in = None, c_redir_out = None, c_redir_append = False, c_redir_err = None\<rparr>], pl_background = True\<rparr> False)"
  by (rule parser_tree_ok [where line = "''ls&''"])
     (simp add: eval_lexer eval_parser)

end
