(* ===== verification/Unparse.thy ===== *)
theory Unparse
  imports Parser
begin

text \<open>
  The concrete syntax of a tree, as tokens, and the proof that the parser reads it back: every
  well-formed tree is the parse of some program, and no two trees share one.
\<close>

section \<open>Printing a tree and parsing it back\<close>

definition op_tok :: "TokenKind \<Rightarrow> Token" where "op_tok k = \<lparr>t_kind = k, t_segs = []\<rparr>"

definition kw_tok :: "string \<Rightarrow> Token" where
  "kw_tok s = \<lparr>t_kind = TOK_WORD, t_segs = [\<lparr>ws_text = s, ws_expand = True\<rparr>]\<rparr>"

definition unparse_redirs :: "Command \<Rightarrow> TokenList" where
  "unparse_redirs c =
     (case c_redir_in c of None \<Rightarrow> [] | Some t \<Rightarrow> [op_tok TOK_REDIR_IN, t])
     @ (case c_redir_out c of None \<Rightarrow> []
        | Some t \<Rightarrow> [op_tok (if c_redir_append c then TOK_REDIR_APPEND else TOK_REDIR_OUT), t])
     @ (case c_redir_err c of None \<Rightarrow> [] | Some t \<Rightarrow> [op_tok TOK_REDIR_ERR, t])"

definition unparse_cmd :: "Command \<Rightarrow> TokenList" where
  "unparse_cmd c = unparse_redirs c @ c_words c"

fun unparse_cmds :: "Command list \<Rightarrow> TokenList" where
  "unparse_cmds [] = []"
| "unparse_cmds (c # cs) =
     unparse_cmd c @ (if cs = [] then [] else op_tok TOK_PIPE # unparse_cmds cs)"

definition in_background :: "Node \<Rightarrow> bool" where
  "in_background n = (case n of NODE_PIPELINE pl _ \<Rightarrow> pl_background pl | _ \<Rightarrow> False)"

definition unparse_sep :: "Node \<Rightarrow> TokenList" where
  "unparse_sep n = (if is_list n then [] else if in_background n then [op_tok TOK_AMP, op_tok TOK_SEMI]
     else [op_tok TOK_SEMI])"

fun unparse_clauses :: "TokenList list \<Rightarrow> TokenList list \<Rightarrow> TokenList" where
  "unparse_clauses (c # cs) (b # bs) =
     c @ kw_tok ''then'' # b @ (if cs = [] then [] else kw_tok ''elif'' # unparse_clauses cs bs)"
| "unparse_clauses _ _ = []"

definition unparse_op :: "AndOrOp \<Rightarrow> TokenList" where
  "unparse_op op = (case op of ANDOR_FIRST \<Rightarrow> [] | ANDOR_AND \<Rightarrow> [op_tok TOK_AND_IF]
     | ANDOR_OR \<Rightarrow> [op_tok TOK_OR_IF])"

fun unparse :: "Node \<Rightarrow> TokenList" where
  "unparse (NODE_PIPELINE pl neg) = (if neg then [kw_tok ''!''] else []) @ unparse_cmds (pl_cmds pl)"
| "unparse (NODE_ANDOR items) = concat (map (\<lambda>(op, n). unparse_op op @ unparse n) items)"
| "unparse (NODE_LIST nodes) = concat (map (\<lambda>n. unparse n @ unparse_sep n) nodes)"
| "unparse (NODE_IF conds bodies els) =
     kw_tok ''if'' # unparse_clauses (map (\<lambda>n. unparse n @ unparse_sep n) conds)
       (map (\<lambda>n. unparse n @ unparse_sep n) bodies)
     @ (case els of None \<Rightarrow> [] | Some n \<Rightarrow> kw_tok ''else'' # unparse n @ unparse_sep n)
     @ [kw_tok ''fi'']"
| "unparse (NODE_WHILE cond body) =
     kw_tok ''while'' # (unparse cond @ unparse_sep cond)
     @ kw_tok ''do'' # (unparse body @ unparse_sep body) @ [kw_tok ''done'']"
| "unparse (NODE_FOR var words body) =
     [kw_tok ''for'', kw_tok var, kw_tok ''in''] @ words @ op_tok TOK_SEMI
     # kw_tok ''do'' # (unparse body @ unparse_sep body) @ [kw_tok ''done'']"
| "unparse (NODE_FUNCDEF name body) =
     [kw_tok name, op_tok TOK_LPAREN, op_tok TOK_RPAREN, kw_tok ''{'']
     @ (unparse body @ unparse_sep body) @ [kw_tok ''}'']"

definition unparse_program :: "Node option \<Rightarrow> TokenList" where
  "unparse_program n = (case n of None \<Rightarrow> [] | Some n \<Rightarrow> unparse n @ unparse_sep n)"

lemma tok_kinds [simp]: "t_kind (op_tok k) = k" "t_kind (kw_tok s) = TOK_WORD"
  "tok_is (Some (kw_tok s)) kw \<longleftrightarrow> s = kw"
  by (simp_all add: op_tok_def kw_tok_def tok_is_def)

subsection \<open>Commands and pipelines\<close>

text \<open>What may follow a command: nothing that a command would take.\<close>

definition stops :: "TokenList \<Rightarrow> bool" where
  "stops r \<longleftrightarrow> r \<noteq> [] \<and> t_kind (hd r) \<noteq> TOK_WORD \<and> \<not> is_redir (t_kind (hd r))"

lemma simple_loop_words:
  "\<forall>t\<in>set ws. t_kind t = TOK_WORD \<Longrightarrow> c_words c \<noteq> [] \<Longrightarrow> stops r \<Longrightarrow>
   simple_loop c (ws @ r) = Inr (c\<lparr>c_words := c_words c @ ws\<rparr>, r)"
proof (induction ws arbitrary: c)
  case Nil
  then show ?case by (cases r) (auto simp: stops_def simple_done_def)
qed simp

lemma simple_loop_first:
  assumes "\<forall>t\<in>set ws. word_ok t" "ws \<noteq> []" "\<not> is_reserved (Some (hd ws))" "c_words c = []" "stops r"
  shows "simple_loop c (ws @ r) = Inr (c\<lparr>c_words := ws\<rparr>, r)"
  using assms by (cases ws) (auto simp: word_ok_def simple_loop_words)

lemma simple_loop_redir:
  "is_redir k \<Longrightarrow> t_kind t = TOK_WORD \<Longrightarrow> cmd_set_redir c k t = Inr d \<Longrightarrow>
   simple_loop c (op_tok k # t # r) = simple_loop d r"
  by (auto simp: is_redir_def)

lemma parse_simple_unparse:
  assumes "cmd_ok c" "stops r"
  shows "parse_simple (unparse_cmd c @ r) = Inr (c, r)"
proof -
  obtain ws i out ap er where c: "c = \<lparr>c_words = ws, c_redir_in = i, c_redir_out = out,
      c_redir_append = ap, c_redir_err = er\<rparr>" by (cases c)
  have ws: "simple_loop d (ws @ r) = Inr (d\<lparr>c_words := ws\<rparr>, r)" if "c_words d = []" for d
    using simple_loop_first [OF _ _ _ that assms(2), of ws] assms(1) by (simp add: c cmd_ok_def)
  have in_ok: "\<forall>t\<in>set_option i. t_kind t = TOK_WORD" "\<forall>t\<in>set_option out. t_kind t = TOK_WORD"
      "\<forall>t\<in>set_option er. t_kind t = TOK_WORD" "ap \<longrightarrow> out \<noteq> None"
    using assms(1) by (auto simp: c cmd_ok_def word_ok_def)
  have er: "simple_loop d ((case er of None \<Rightarrow> [] | Some t \<Rightarrow> [op_tok TOK_REDIR_ERR, t]) @ ws @ r)
      = Inr (d\<lparr>c_words := ws, c_redir_err := er\<rparr>, r)" if "c_words d = []" "c_redir_err d = None" for d
  proof (cases er)
    case None
    with ws [OF that(1)] that show ?thesis by (cases d) simp
  next
    case (Some t)
    then have "simple_loop d (op_tok TOK_REDIR_ERR # t # ws @ r)
        = simple_loop (d\<lparr>c_redir_err := Some t\<rparr>) (ws @ r)"
      using in_ok that by (intro simple_loop_redir) (auto simp: is_redir_def cmd_set_redir_def)
    with Some ws [of "d\<lparr>c_redir_err := Some t\<rparr>"] that show ?thesis by simp
  qed
  have out: "simple_loop d ((case out of None \<Rightarrow> []
         | Some t \<Rightarrow> [op_tok (if ap then TOK_REDIR_APPEND else TOK_REDIR_OUT), t])
       @ (case er of None \<Rightarrow> [] | Some t \<Rightarrow> [op_tok TOK_REDIR_ERR, t]) @ ws @ r)
      = Inr (d\<lparr>c_words := ws, c_redir_err := er, c_redir_out := out, c_redir_append := ap\<rparr>, r)"
    if d: "c_words d = []" "c_redir_err d = None" "c_redir_out d = None" "\<not> c_redir_append d" for d
  proof (cases out)
    case None
    with er [OF d(1,2)] d in_ok(4) show ?thesis by (cases d) simp
  next
    case (Some t)
    then have "simple_loop d (op_tok (if ap then TOK_REDIR_APPEND else TOK_REDIR_OUT) # t #
          (case er of None \<Rightarrow> [] | Some t \<Rightarrow> [op_tok TOK_REDIR_ERR, t]) @ ws @ r)
        = simple_loop (d\<lparr>c_redir_out := Some t, c_redir_append := ap\<rparr>)
          ((case er of None \<Rightarrow> [] | Some t \<Rightarrow> [op_tok TOK_REDIR_ERR, t]) @ ws @ r)"
      using in_ok d by (intro simple_loop_redir) (auto simp: is_redir_def cmd_set_redir_def)
    with Some er [of "d\<lparr>c_redir_out := Some t, c_redir_append := ap\<rparr>"] d show ?thesis by simp
  qed
  show ?thesis
  proof (cases i)
    case None
    with out [of cmd_new] show ?thesis
      by (cases ap; cases out) (simp_all add: parse_simple_def unparse_cmd_def unparse_redirs_def c cmd_new_def)
  next
    case (Some t)
    have "simple_loop cmd_new (op_tok TOK_REDIR_IN # t # q) = simple_loop (cmd_new\<lparr>c_redir_in := Some t\<rparr>) q" for q
      using in_ok Some by (intro simple_loop_redir) (auto simp: is_redir_def cmd_set_redir_def cmd_new_def)
    with Some out [of "cmd_new\<lparr>c_redir_in := Some t\<rparr>"] show ?thesis
      by (cases ap; cases out) (simp_all add: parse_simple_def unparse_cmd_def unparse_redirs_def c cmd_new_def)
  qed
qed

definition clean :: "TokenList \<Rightarrow> bool" where
  "clean ts \<longleftrightarrow> ts \<noteq> [] \<and> (t_kind (hd ts) = TOK_WORD \<or> is_redir (t_kind (hd ts)))"

lemma clean_append [simp]: "clean ts \<Longrightarrow> clean (ts @ r)"
  by (auto simp: clean_def)

lemma clean_skip [simp]: "clean ts \<Longrightarrow> skip_nl ts = ts" "clean ts \<Longrightarrow> skip_seps ts = ts" "clean ts \<Longrightarrow> \<not> at_end ts"
  by (cases ts; auto simp: clean_def is_redir_def)+

lemma unparse_redirs_head:
  "unparse_redirs c = [] \<and> \<not> has_redir c \<or> has_redir c \<and> unparse_redirs c \<noteq> [] \<and> is_redir (t_kind (hd (unparse_redirs c)))"
  by (auto simp: unparse_redirs_def has_redir_def is_redir_def split: option.splits)

lemma unparse_cmd_clean: "cmd_ok c \<Longrightarrow> clean (unparse_cmd c)"
  using unparse_redirs_head [of c]
  by (cases "unparse_redirs c"; cases "c_words c") (auto simp: clean_def unparse_cmd_def cmd_ok_def word_ok_def)

lemma unparse_cmds_clean: "cs \<noteq> [] \<Longrightarrow> \<forall>c\<in>set cs. cmd_ok c \<Longrightarrow> clean (unparse_cmds cs)"
  by (cases cs) (auto simp: unparse_cmd_clean)

lemma unparse_cmds_not_bang:
  assumes "cs \<noteq> []" "\<forall>c\<in>set cs. cmd_ok c" "tok_is (Some (hd (c_words (hd cs)))) ''!'' \<longrightarrow> has_redir (hd cs)"
  shows "\<not> kw_at (unparse_cmds cs @ r) ''!''"
proof -
  obtain c ds where cs: "cs = c # ds" using assms(1) by (cases cs) auto
  have "c_words c \<noteq> []" using assms(2) cs by (auto simp: cmd_ok_def)
  with assms(3) unparse_redirs_head [of c] show ?thesis
    by (cases "unparse_redirs c"; cases "c_words c")
       (auto simp: cs unparse_cmd_def tok_is_def is_redir_def)
qed

lemma pipeline_loop_unparse:
  "cs \<noteq> [] \<Longrightarrow> \<forall>c\<in>set cs. cmd_ok c \<Longrightarrow> stops r \<Longrightarrow> t_kind (hd r) \<noteq> TOK_PIPE \<Longrightarrow>
   pipeline_loop acc (unparse_cmds cs @ r) = Inr (acc @ cs, r)"
proof (induction cs arbitrary: acc)
  case (Cons c cs)
  show ?case
  proof (cases "cs = []")
    case True
    with Cons.prems show ?thesis
      by (cases r) (simp_all add: pipeline_loop.simps [of acc] parse_simple_unparse stops_def)
  next
    case False
    have "parse_simple (unparse_cmd c @ op_tok TOK_PIPE # unparse_cmds cs @ r)
        = Inr (c, op_tok TOK_PIPE # unparse_cmds cs @ r)"
      using Cons.prems by (intro parse_simple_unparse) (auto simp: stops_def is_redir_def)
    with False Cons show ?thesis
      by (simp add: pipeline_loop.simps [of acc] Let_def unparse_cmds_clean)
  qed
qed simp

text \<open>A pipeline with its optional \<open>!\<close>, in front of anything that ends a pipeline.\<close>

definition ends_pipeline :: "TokenList \<Rightarrow> bool" where
  "ends_pipeline r \<longleftrightarrow> stops r \<and> t_kind (hd r) \<noteq> TOK_PIPE"

lemma bang_pipeline_unparse:
  assumes "pipeline_ok pl" "\<not> pl_background pl" "ends_pipeline r"
  shows "\<exists>q. take_bang (unparse (NODE_PIPELINE pl neg) @ r) = Inr (neg, q) \<and> parse_pipeline q = Inr (pl, r)"
proof -
  let ?q = "unparse_cmds (pl_cmds pl) @ r"
  have "\<not> kw_at ?q ''!''" "\<not> at_end ?q"
    using assms unparse_cmds_not_bang [of "pl_cmds pl" r] unparse_cmds_clean [of "pl_cmds pl"]
    by (auto simp: pipeline_ok_def)
  then have "take_bang (unparse (NODE_PIPELINE pl neg) @ r) = Inr (neg, ?q)"
    by (simp add: take_bang_def)
  moreover have "parse_pipeline ?q = Inr (pl, r)"
    using assms pipeline_loop_unparse [of "pl_cmds pl" r "[]"]
    by (cases pl) (simp add: parse_pipeline_def pipeline_ok_def ends_pipeline_def)
  ultimately show ?thesis by blast
qed

subsection \<open>Chains\<close>

definition ends_item :: "TokenList \<Rightarrow> bool" where
  "ends_item r \<longleftrightarrow> r \<noteq> [] \<and> (t_kind (hd r) = TOK_SEMI \<or> t_kind (hd r) = TOK_AMP)"

lemma ends_item_pipeline: "ends_item r \<Longrightarrow> ends_pipeline r"
  by (auto simp: ends_item_def ends_pipeline_def stops_def is_redir_def)

definition unparse_item :: "AndOrOp \<times> Node \<Rightarrow> TokenList" where
  "unparse_item = (\<lambda>(op, n). unparse_op op @ unparse n)"

lemma unparse_clean_pipeline:
  "pipeline_ok pl \<Longrightarrow> clean (unparse (NODE_PIPELINE pl neg))"
  using unparse_cmds_clean [of "pl_cmds pl"] by (auto simp: pipeline_ok_def) (auto simp: clean_def)

lemma andor_loop_unparse:
  assumes "\<forall>it\<in>set items. fg_pipeline (snd it) \<and> node_ok (snd it)" "ANDOR_FIRST \<notin> fst ` set items"
    and "fg_pipeline n" "node_ok n" "ends_item r"
  shows "andor_loop acc op (unparse n @ concat (map unparse_item items) @ r)
    = Inr (acc @ (op, n) # items, r)"
  using assms
proof (induction items arbitrary: acc op n)
  case Nil
  then obtain pl neg where n: "n = NODE_PIPELINE pl neg" "pipeline_ok pl" "\<not> pl_background pl"
    by (cases n) (auto simp: fg_pipeline_def)
  obtain q where "take_bang (unparse n @ r) = Inr (neg, q)" "parse_pipeline q = Inr (pl, r)"
    using bang_pipeline_unparse [OF n(2,3) ends_item_pipeline [OF Nil(5)]] n(1) by blast
  with Nil(5) n(1) show ?case
    by (cases r) (auto simp: andor_loop.simps [of acc] ends_item_def)
next
  case (Cons it items)
  obtain op' m where it: "it = (op', m)" by (cases it)
  obtain pl neg where n: "n = NODE_PIPELINE pl neg" "pipeline_ok pl" "\<not> pl_background pl"
    using Cons.prems by (cases n) (auto simp: fg_pipeline_def)
  obtain k where k: "unparse_op op' = [op_tok k]" "k = TOK_AND_IF \<or> k = TOK_OR_IF"
    "op' = (if k = TOK_AND_IF then ANDOR_AND else ANDOR_OR)"
    using Cons.prems(2) it by (cases op') (auto simp: unparse_op_def)
  let ?rest = "unparse m @ concat (map unparse_item items) @ r"
  have "ends_pipeline (op_tok k # ?rest)"
    using k(2) by (auto simp: ends_pipeline_def stops_def is_redir_def)
  then obtain q where q: "take_bang (unparse n @ op_tok k # ?rest) = Inr (neg, q)"
    "parse_pipeline q = Inr (pl, op_tok k # ?rest)"
    using bang_pipeline_unparse [OF n(2,3)] n(1) by blast
  have clean: "clean ?rest"
    using Cons.prems(1) it by (cases m) (auto simp: fg_pipeline_def simp del: unparse.simps
        intro!: clean_append unparse_clean_pipeline)
  have "andor_loop (acc @ [(op, n)]) op' ?rest = Inr ((acc @ [(op, n)]) @ (op', m) # items, r)"
    using Cons.prems it by (intro Cons.IH) auto
  with q clean k n(1) show ?case
    by (auto simp: andor_loop.simps [of acc] it unparse_item_def Let_def simp del: unparse.simps)
qed

lemma parse_andor_unparse:
  assumes "node_ok (NODE_ANDOR items)" "ends_item r"
  shows "parse_andor (unparse (NODE_ANDOR items) @ r) = Inr (NODE_ANDOR items, r)"
proof -
  obtain n rest where items: "items = (ANDOR_FIRST, n) # rest" "rest \<noteq> []" "ANDOR_FIRST \<notin> fst ` set rest"
    using assms(1) by (cases items; cases "tl items") (auto simp: chain_ok_def)
  have "unparse (NODE_ANDOR items) @ r = unparse n @ concat (map unparse_item rest) @ r"
    by (simp add: items unparse_item_def unparse_op_def)
  moreover have "andor_loop [] ANDOR_FIRST (unparse n @ concat (map unparse_item rest) @ r)
      = Inr ([] @ (ANDOR_FIRST, n) # rest, r)"
    using assms items by (intro andor_loop_unparse) auto
  ultimately show ?thesis using items by (simp add: parse_andor_def del: unparse.simps)
qed

lemma parse_andor_pipeline:
  assumes "pipeline_ok pl" "\<not> pl_background pl" "ends_item r"
  shows "parse_andor (unparse (NODE_PIPELINE pl neg) @ r) = Inr (NODE_PIPELINE pl neg, r)"
  using andor_loop_unparse [of "[]" "NODE_PIPELINE pl neg" r "[]" ANDOR_FIRST] assms
  by (simp add: parse_andor_def fg_pipeline_def del: unparse.simps)

subsection \<open>Compounds and lists\<close>

text \<open>\<open>evp f x\<close>: from some fuel on, the parser \<open>f\<close> answers \<open>x\<close>.\<close>

definition evp :: "(nat \<Rightarrow> 'a pres option) \<Rightarrow> 'a \<Rightarrow> TokenList \<Rightarrow> bool" where
  "evp f x r \<longleftrightarrow> (\<exists>K. \<forall>k\<ge>K. f k = Some (Inr (x, r)))"

lemma evp_const [simp]: "evp (\<lambda>k. Some (Inr (x, r))) y s \<longleftrightarrow> x = y \<and> r = s"
  by (auto simp: evp_def)

lemma evp_bind: "evp f x r \<Longrightarrow> evp (\<lambda>k. g k x r) y s \<Longrightarrow> evp (\<lambda>k. bindp (f k) (g k)) y s"
  unfolding evp_def by (metis bindp_Inr(1) le_trans linorder_linear)

lemma expect_kw_tok: "expect_kw (kw_tok kw # r) kw = Inr ((), r)"
  by (simp add: expect_kw_def)

lemma evp_expect: "evp (\<lambda>k. g k () r) y s \<Longrightarrow> evp (\<lambda>k. bindp (Some (expect_kw (kw_tok kw # r) kw)) (g k)) y s"
  by (simp add: expect_kw_tok)

lemma evp_shift: "evp (\<lambda>k. f (Suc k)) x r \<Longrightarrow> evp f x r"
proof -
  assume "evp (\<lambda>k. f (Suc k)) x r"
  then obtain K where K: "\<forall>k\<ge>K. f (Suc k) = Some (Inr (x, r))" by (auto simp: evp_def)
  have "f k = Some (Inr (x, r))" if "k \<ge> Suc K" for k
    using K that by (cases k) auto
  then show ?thesis by (auto simp: evp_def)
qed

definition fg_node :: "Node \<Rightarrow> Node" where
  "fg_node n = (case n of NODE_PIPELINE pl neg \<Rightarrow> NODE_PIPELINE (pl\<lparr>pl_background := False\<rparr>) neg | _ \<Rightarrow> n)"

definition item_reads :: "Node \<Rightarrow> bool" where
  "item_reads n \<longleftrightarrow> (\<forall>r. ends_item r \<longrightarrow> evp (\<lambda>k. parse_item (list_loop k []) k (unparse n @ r)) (fg_node n) r)"

definition seq_reads :: "Node \<Rightarrow> bool" where
  "seq_reads n \<longleftrightarrow> (\<forall>r. r = [] \<or> at_ender r \<longrightarrow>
     evp (\<lambda>k. list_loop k [] ((unparse n @ unparse_sep n) @ r)) (Some n) r)"

text \<open>What an item begins with never ends a list and is no separator.\<close>

definition item_start :: "TokenList \<Rightarrow> bool" where
  "item_start ts \<longleftrightarrow> clean ts \<and> \<not> at_ender ts"

lemma item_start_append [simp]: "item_start ts \<Longrightarrow> item_start (ts @ r)"
  by (cases ts) (auto simp: item_start_def clean_def)

lemma unparse_cmd_item_start: "cmd_ok c \<Longrightarrow> item_start (unparse_cmd c)"
  using unparse_redirs_head [of c] unparse_cmd_clean [of c]
  by (cases "unparse_redirs c"; cases "c_words c")
     (auto simp: item_start_def unparse_cmd_def cmd_ok_def is_reserved_def is_redir_def in_set_iff tok_is_def)

lemma pipeline_item_start: "pipeline_ok pl \<Longrightarrow> item_start (unparse (NODE_PIPELINE pl neg))"
proof -
  assume ok: "pipeline_ok pl"
  then obtain c cs where cs: "pl_cmds pl = c # cs" "cmd_ok c" by (cases "pl_cmds pl") (auto simp: pipeline_ok_def)
  show ?thesis
  proof (cases neg)
    case False
    with cs show ?thesis by (simp add: unparse_cmd_item_start)
  qed (simp add: item_start_def clean_def KW_END_def)
qed

lemma item_startI: "node_ok n \<Longrightarrow> \<not> is_list n \<Longrightarrow> item_start (unparse n)"
proof (induction n rule: unparse.induct)
  case (2 items)
  then obtain op n rest where items: "items = (op, n) # rest" "op = ANDOR_FIRST" "fg_pipeline n" "node_ok n"
    by (cases items) (auto simp: chain_ok_def)
  then show ?case
    by (cases n) (auto simp: fg_pipeline_def unparse_op_def simp del: unparse.simps(1)
        intro!: item_start_append pipeline_item_start)
next
  case (1 pl neg)
  then show ?case using pipeline_item_start [of pl neg] by simp
qed (auto simp: item_start_def clean_def is_list_def KW_END_def)

lemma list_loop_item:
  assumes "node_ok n" "\<not> is_list n" "item_reads n"
    and "evp (\<lambda>k. list_loop k (acc @ [n]) r) y s"
  shows "evp (\<lambda>k. list_loop k acc ((unparse n @ unparse_sep n) @ r)) y s"
proof (rule evp_shift)
  let ?in = "unparse n @ unparse_sep n @ r"
  have start: "skip_seps ?in = ?in" "\<not> at_end ?in" "\<not> at_ender ?in"
    using item_start_append [OF item_startI [OF assms(1,2)], of "unparse_sep n @ r"]
    by (auto simp: item_start_def)
  have ends: "ends_item (unparse_sep n @ r)" using assms(2) by (simp add: ends_item_def unparse_sep_def)
  have semi: "evp (\<lambda>k. list_loop k acc' (op_tok TOK_SEMI # r)) y s" if "evp (\<lambda>k. list_loop k acc' r) y s" for acc'
  proof (rule evp_shift)
    from that obtain K where "\<forall>k\<ge>K. list_loop k acc' r = Some (Inr (y, s))" by (auto simp: evp_def)
    then have "\<forall>k\<ge>K. list_loop (Suc k) acc' r = Some (Inr (y, s))" by (meson le_SucI)
    then show "evp (\<lambda>k. list_loop (Suc k) acc' (op_tok TOK_SEMI # r)) y s"
      by (auto simp: evp_def)
  qed
  have "evp (\<lambda>k. bindp (parse_item (list_loop k []) k ?in) (\<lambda>item r.
           if at_kind r TOK_AMP then
             (if \<not> is_pipeline item then Some (Inl NSH_ERR_SYNTAX)
              else list_loop k (acc @ [set_background item]) (tl r))
           else if \<not> at_end r \<and> \<not> at_ender r \<and> \<not> at_sep r then Some (Inl NSH_ERR_SYNTAX)
           else list_loop k (acc @ [item]) r)) y s"
  proof (rule evp_bind [OF assms(3) [unfolded item_reads_def, rule_format, OF ends]])
    show "evp (\<lambda>k. if at_kind (unparse_sep n @ r) TOK_AMP then
             (if \<not> is_pipeline (fg_node n) then Some (Inl NSH_ERR_SYNTAX)
              else list_loop k (acc @ [set_background (fg_node n)]) (tl (unparse_sep n @ r)))
           else if \<not> at_end (unparse_sep n @ r) \<and> \<not> at_ender (unparse_sep n @ r) \<and> \<not> at_sep (unparse_sep n @ r)
             then Some (Inl NSH_ERR_SYNTAX)
           else list_loop k (acc @ [fg_node n]) (unparse_sep n @ r)) y s"
    proof (cases "in_background n")
      case True
      then have "is_pipeline (fg_node n)" "set_background (fg_node n) = n"
        by (cases n; simp add: in_background_def is_pipeline_def fg_node_def set_background_def)+
      with True assms(2) semi [OF assms(4)] show ?thesis by (simp add: unparse_sep_def)
    next
      case False
      then have "fg_node n = n"
        by (cases n) (auto simp: in_background_def fg_node_def)
      with False assms(2) semi [OF assms(4)] show ?thesis by (simp add: unparse_sep_def)
    qed
  qed
  then show "evp (\<lambda>k. list_loop (Suc k) acc ((unparse n @ unparse_sep n) @ r)) y s"
    by (simp add: start Let_def)
qed

lemma list_loop_items:
  "\<forall>n\<in>set ns. node_ok n \<and> \<not> is_list n \<and> item_reads n \<Longrightarrow> r = [] \<or> at_ender r \<Longrightarrow>
   evp (\<lambda>k. list_loop k acc (concat (map (\<lambda>n. unparse n @ unparse_sep n) ns) @ r)) (list_done (acc @ ns)) r"
proof (induction ns arbitrary: acc)
  case Nil
  then have "skip_seps r = r"
    by (cases r) (auto simp: in_set_iff tok_is_def)
  with Nil have "evp (\<lambda>k. list_loop (Suc k) acc r) (list_done acc) r"
    by (auto simp: Let_def)
  then show ?case by (simp add: evp_shift)
next
  case (Cons n ns)
  have "evp (\<lambda>k. list_loop k acc ((unparse n @ unparse_sep n)
      @ concat (map (\<lambda>n. unparse n @ unparse_sep n) ns) @ r)) (list_done ((acc @ [n]) @ ns)) r"
    by (rule list_loop_item) (use Cons Cons.IH [of "acc @ [n]"] in auto)
  then show ?case by simp
qed

lemma seq_readsI: "node_ok n \<Longrightarrow> \<not> is_list n \<Longrightarrow> item_reads n \<Longrightarrow> seq_reads n"
  unfolding seq_reads_def using list_loop_items [of "[n]" _ "[]"] by (auto simp: list_done_def)

lemma seq_reads_list:
  assumes "node_ok (NODE_LIST ns)" "\<forall>n\<in>set ns. item_reads n"
  shows "seq_reads (NODE_LIST ns)"
proof -
  from assms(1) obtain a b rest where "ns = a # b # rest" by (cases ns; cases "tl ns") auto
  then have "list_done ns = Some (NODE_LIST ns)" by (simp add: list_done_def)
  with assms list_loop_items [of ns _ "[]"] show ?thesis
    by (auto simp: seq_reads_def unparse_sep_def is_list_def)
qed

lemma body_reads:
  assumes "seq_reads n" "at_ender r"
  shows "evp (\<lambda>k. parse_body (list_loop k []) ((unparse n @ unparse_sep n) @ r)) n r"
  unfolding parse_body_def
  by (rule evp_bind) (use assms in \<open>auto simp: seq_reads_def\<close>)

lemma ender_tok: "kw \<in> set KW_END \<Longrightarrow> at_ender (kw_tok kw # r)"
  by (auto simp: in_set_iff)

abbreviation useq :: "Node \<Rightarrow> TokenList" where "useq n \<equiv> unparse n @ unparse_sep n"

lemma if_loop_reads:
  assumes "\<forall>n\<in>set conds \<union> set bodies. seq_reads n" "length conds = length bodies" "conds \<noteq> []"
    and "at_ender r" "\<not> kw_at r ''elif''"
  shows "\<exists>K. \<forall>k\<ge>K. \<forall>m\<ge>length conds. if_loop (list_loop k []) m cs bs
      (unparse_clauses (map useq conds) (map useq bodies) @ r)
    = Some (Inr ((cs @ conds, bs @ bodies), r))"
  using assms
proof (induction conds arbitrary: bodies cs bs)
  case (Cons c conds)
  then obtain b bs' where b: "bodies = b # bs'" by (cases bodies) auto
  show ?case
  proof (cases "conds = []")
    case True
    with Cons.prems b have bodies: "bs' = []" by simp
    obtain K1 where K1: "\<forall>k\<ge>K1. parse_body (list_loop k []) (useq c @ kw_tok ''then'' # useq b @ r)
        = Some (Inr (c, kw_tok ''then'' # useq b @ r))"
      using body_reads [of c "kw_tok ''then'' # useq b @ r"] Cons.prems(1)
      by (auto simp: evp_def ender_tok KW_END_def)
    obtain K2 where K2: "\<forall>k\<ge>K2. parse_body (list_loop k []) (useq b @ r) = Some (Inr (b, r))"
      using body_reads [of b r] Cons.prems(1,4) b by (auto simp: evp_def)
    have "if_loop (list_loop k []) m cs bs (unparse_clauses (map useq (c # conds)) (map useq bodies) @ r)
        = Some (Inr ((cs @ c # conds, bs @ bodies), r))" if "k \<ge> max K1 K2" "m \<ge> length (c # conds)" for k m
      using that True bodies b K1 K2 Cons.prems(5) by (cases m) (simp_all add: expect_kw_tok)
    then show ?thesis by blast
  next
    case False
    let ?rest = "kw_tok ''elif'' # unparse_clauses (map useq conds) (map useq bs') @ r"
    obtain K where K: "\<forall>k\<ge>K. \<forall>m\<ge>length conds. if_loop (list_loop k []) m (cs @ [c]) (bs @ [b])
        (unparse_clauses (map useq conds) (map useq bs') @ r)
      = Some (Inr (((cs @ [c]) @ conds, (bs @ [b]) @ bs'), r))"
      using Cons.IH [of bs' "cs @ [c]" "bs @ [b]"] Cons.prems b False by auto
    obtain K1 where K1: "\<forall>k\<ge>K1. parse_body (list_loop k []) (useq c @ kw_tok ''then'' # useq b @ ?rest)
        = Some (Inr (c, kw_tok ''then'' # useq b @ ?rest))"
      using body_reads [of c "kw_tok ''then'' # useq b @ ?rest"] Cons.prems(1)
      by (auto simp: evp_def ender_tok KW_END_def)
    obtain K2 where K2: "\<forall>k\<ge>K2. parse_body (list_loop k []) (useq b @ ?rest) = Some (Inr (b, ?rest))"
      using body_reads [of b ?rest] Cons.prems(1) b by (auto simp: evp_def ender_tok KW_END_def)
    have "if_loop (list_loop k []) m cs bs (unparse_clauses (map useq (c # conds)) (map useq bodies) @ r)
        = Some (Inr ((cs @ c # conds, bs @ bodies), r))"
      if "k \<ge> max K (max K1 K2)" "m \<ge> length (c # conds)" for k m
      using that False b K K1 K2 by (cases m) (simp_all add: expect_kw_tok)
    then show ?thesis by blast
  qed
qed simp

lemma evp_body:
  assumes "seq_reads n" "at_ender r" "evp (\<lambda>k. g k n r) y s"
  shows "evp (\<lambda>k. bindp (parse_body (list_loop k []) (useq n @ r)) (g k)) y s"
  by (rule evp_bind [where f = "\<lambda>k. parse_body (list_loop k []) (useq n @ r)" and g = g,
        OF body_reads [OF assms(1,2)] assms(3)])

lemma parse_if_reads:
  assumes "\<forall>n\<in>set conds \<union> set bodies \<union> set_option els. seq_reads n"
    and "length conds = length bodies" "conds \<noteq> []"
  shows "evp (\<lambda>k. parse_if (list_loop k []) k (unparse (NODE_IF conds bodies els) @ r))
    (NODE_IF conds bodies els) r"
proof -
  let ?tail = "(case els of None \<Rightarrow> [] | Some n \<Rightarrow> kw_tok ''else'' # useq n) @ kw_tok ''fi'' # r"
  have tail: "at_ender ?tail" "\<not> kw_at ?tail ''elif''"
    by (auto simp: in_set_iff KW_END_def split: option.splits)
  obtain K where K: "\<forall>k\<ge>K. \<forall>m\<ge>length conds. if_loop (list_loop k []) m [] []
      (unparse_clauses (map useq conds) (map useq bodies) @ ?tail) = Some (Inr (([] @ conds, [] @ bodies), ?tail))"
    using if_loop_reads [OF _ assms(2,3) tail, of "[]" "[]"] assms(1) by blast
  have "evp (\<lambda>k. if_loop (list_loop k []) k [] []
      (unparse_clauses (map useq conds) (map useq bodies) @ ?tail)) (conds, bodies) ?tail"
    unfolding evp_def using K by (intro exI [of _ "max K (length conds)"]) auto
  then have "evp (\<lambda>k. bindp (if_loop (list_loop k []) k [] []
      (unparse_clauses (map useq conds) (map useq bodies) @ ?tail)) (\<lambda>(conds, bodies) r.
     if kw_at r ''else'' then
       bindp (parse_body (list_loop k []) (tl r)) (\<lambda>els s.
       bindp (Some (expect_kw s ''fi'')) (\<lambda>_ u. Some (Inr (NODE_IF conds bodies (Some els), u))))
     else bindp (Some (expect_kw r ''fi'')) (\<lambda>_ u. Some (Inr (NODE_IF conds bodies None, u)))))
     (NODE_IF conds bodies els) r"
  proof (rule evp_bind, goal_cases)
    case 1
    show ?case
    proof (cases els)
      case (Some n)
      have "evp (\<lambda>k. bindp (parse_body (list_loop k []) (useq n @ kw_tok ''fi'' # r)) (\<lambda>els s.
         bindp (Some (expect_kw s ''fi'')) (\<lambda>_ u. Some (Inr (NODE_IF conds bodies (Some els), u)))))
         (NODE_IF conds bodies (Some n)) r"
        by (rule evp_body) (use assms(1) Some in \<open>auto simp: expect_kw_tok in_set_iff KW_END_def\<close>)
      with Some show ?thesis by simp
    qed (simp add: expect_kw_tok)
  qed
  then show ?thesis by (cases els) (simp_all add: parse_if_def)
qed

lemma parse_while_reads:
  assumes "seq_reads cond" "seq_reads body"
  shows "evp (\<lambda>k. parse_while (list_loop k []) (unparse (NODE_WHILE cond body) @ r)) (NODE_WHILE cond body) r"
proof -
  have "evp (\<lambda>k. bindp (parse_body (list_loop k []) (useq cond @ kw_tok ''do'' # useq body @ kw_tok ''done'' # r))
      (\<lambda>cond r. bindp (Some (expect_kw r ''do'')) (\<lambda>_ s.
        bindp (parse_body (list_loop k []) s) (\<lambda>body u.
        bindp (Some (expect_kw u ''done'')) (\<lambda>_ v. Some (Inr (NODE_WHILE cond body, v))))))) (NODE_WHILE cond body) r"
    by (rule evp_body [OF assms(1)], simp add: in_set_iff KW_END_def, rule evp_expect,
        rule evp_body [OF assms(2)])
       (simp_all add: in_set_iff KW_END_def expect_kw_tok)
  then show ?thesis by (simp add: parse_while_def)
qed

lemma for_words_unparse:
  "\<forall>t\<in>set ws. word_ok t \<Longrightarrow> for_words (ws @ op_tok TOK_SEMI # r) = (ws, op_tok TOK_SEMI # r)"
  by (induction ws) (auto simp: word_ok_def)

lemma parse_for_reads:
  assumes "valid_name var" "\<forall>t\<in>set ws. word_ok t" "seq_reads body"
  shows "evp (\<lambda>k. parse_for (list_loop k []) (unparse (NODE_FOR var ws body) @ r)) (NODE_FOR var ws body) r"
proof -
  have nm: "name_dup (Some (kw_tok var)) = Some var"
    using assms(1) by (simp add: name_dup_def kw_tok_def)
  have head: "for_head (kw_tok ''in'' # ws @ op_tok TOK_SEMI # kw_tok ''do'' # q)
      = Inr (ws, kw_tok ''do'' # q)" for q
    using assms(2) by (simp add: for_head_def expect_kw_def for_words_unparse)
  have "evp (\<lambda>k. bindp (parse_body (list_loop k []) (useq body @ kw_tok ''done'' # r)) (\<lambda>body u.
       bindp (Some (expect_kw u ''done'')) (\<lambda>_ v. Some (Inr (NODE_FOR var ws body, v))))) (NODE_FOR var ws body) r"
    by (rule evp_body [OF assms(3)]) (simp_all add: in_set_iff KW_END_def expect_kw_tok)
  then show ?thesis by (simp add: parse_for_def pk_def nm head expect_kw_tok)
qed

lemma parse_funcdef_reads:
  assumes "valid_name name" "seq_reads body"
  shows "evp (\<lambda>k. parse_funcdef (list_loop k []) (unparse (NODE_FUNCDEF name body) @ r)) (NODE_FUNCDEF name body) r"
proof -
  have nm: "name_dup (Some (kw_tok name)) = Some name"
    using assms(1) by (simp add: name_dup_def kw_tok_def)
  have head: "funcdef_head (kw_tok name # op_tok TOK_LPAREN # op_tok TOK_RPAREN # kw_tok ''{'' # q)
      = Inr (name, kw_tok ''{'' # q)" for q
    by (simp add: funcdef_head_def pk_def nm)
  have "evp (\<lambda>k. bindp (parse_body (list_loop k []) (useq body @ kw_tok ''}'' # r)) (\<lambda>body u.
       bindp (Some (expect_kw u ''}'')) (\<lambda>_ v. Some (Inr (NODE_FUNCDEF name body, v))))) (NODE_FUNCDEF name body) r"
    by (rule evp_body [OF assms(2)]) (simp_all add: in_set_iff KW_END_def expect_kw_tok)
  then show ?thesis by (simp add: parse_funcdef_def head expect_kw_tok)
qed

text \<open>A pipeline or a chain is read by \<open>parse_andor\<close>: its first token opens no compound.\<close>

definition opens_compound :: "TokenList \<Rightarrow> bool" where
  "opens_compound ts \<longleftrightarrow> kw_at ts ''if'' \<or> kw_at ts ''while'' \<or> kw_at ts ''for''
     \<or> (at_kind ts TOK_WORD \<and> at_kind (tl ts) TOK_LPAREN)"

lemma unparse_cmd_plain:
  assumes "cmd_ok c" "s \<noteq> []" "t_kind (hd s) \<noteq> TOK_LPAREN"
  shows "\<not> opens_compound (unparse_cmd c @ s)"
proof -
  obtain w ws where ws: "c_words c = w # ws" "\<not> is_reserved (Some w)" "\<forall>t\<in>set (w # ws). t_kind t = TOK_WORD"
    using assms(1) by (cases "c_words c") (auto simp: cmd_ok_def word_ok_def)
  show ?thesis
  proof (cases "unparse_redirs c")
    case Nil
    have "\<not> at_kind (ws @ s) TOK_LPAREN"
    proof (cases ws)
      case Nil
      with assms(2,3) show ?thesis by (cases s) simp_all
    next
      case (Cons u us)
      with ws(3) show ?thesis by simp
    qed
    moreover have "\<not> tok_is (Some w) ''if''" "\<not> tok_is (Some w) ''while''" "\<not> tok_is (Some w) ''for''"
      using ws(2) by (simp_all add: is_reserved_def in_set_iff KW_OPEN_def)
    ultimately show ?thesis using Nil ws(1) by (simp add: opens_compound_def unparse_cmd_def)
  next
    case (Cons t ts)
    then have "t_kind t \<noteq> TOK_WORD"
      using unparse_redirs_head [of c] by (auto simp: is_redir_def)
    with Cons show ?thesis by (simp add: opens_compound_def unparse_cmd_def)
  qed
qed

lemma unparse_cmds_plain:
  assumes "pipeline_ok pl" "ends_pipeline r" "t_kind (hd r) \<noteq> TOK_LPAREN"
  shows "\<not> opens_compound (unparse_cmds (pl_cmds pl) @ r)"
proof -
  obtain c cs where pl: "pl_cmds pl = c # cs" "cmd_ok c"
    using assms(1) by (cases "pl_cmds pl") (auto simp: pipeline_ok_def)
  have "r \<noteq> []" using assms(2) by (simp add: ends_pipeline_def stops_def)
  with pl assms(3) show ?thesis
    using unparse_cmd_plain [OF pl(2), of r]
      unparse_cmd_plain [OF pl(2), of "op_tok TOK_PIPE # unparse_cmds cs @ r"]
    by (cases "cs = []") auto
qed

lemma parse_item_plain: "\<not> opens_compound ts \<Longrightarrow> parse_item lp k ts = Some (parse_andor ts)"
  by (auto simp: parse_item_def opens_compound_def)

lemma parse_item_andor:
  assumes "pipeline_ok pl" "ends_pipeline r" "t_kind (hd r) \<noteq> TOK_LPAREN"
    and "parse_andor (unparse (NODE_PIPELINE pl neg) @ r) = x"
  shows "parse_item lp k (unparse (NODE_PIPELINE pl neg) @ r) = Some x"
proof (cases neg)
  case True
  have "\<not> at_kind (unparse_cmds (pl_cmds pl) @ r) TOK_LPAREN"
    using unparse_cmds_clean [of "pl_cmds pl"] assms(1)
    by (cases "unparse_cmds (pl_cmds pl)") (auto simp: pipeline_ok_def clean_def is_redir_def)
  with True assms(4) show ?thesis by (simp add: parse_item_def)
next
  case False
  with assms(4) parse_item_plain [OF unparse_cmds_plain [OF assms(1-3)]] show ?thesis by simp
qed

lemma item_reads_pipeline: "pipeline_ok pl \<Longrightarrow> item_reads (NODE_PIPELINE pl neg)"
proof -
  assume ok: "pipeline_ok pl"
  let ?fg = "pl\<lparr>pl_background := False\<rparr>"
  have ok': "pipeline_ok ?fg" "\<not> pl_background ?fg" using ok by (simp_all add: pipeline_ok_def)
  have "parse_item (list_loop k []) k (unparse (NODE_PIPELINE ?fg neg) @ r) = Some (Inr (NODE_PIPELINE ?fg neg, r))"
    if "ends_item r" for k r
    by (rule parse_item_andor [OF ok'(1) ends_item_pipeline [OF that]])
       (use that in \<open>auto simp: ends_item_def simp del: unparse.simps intro!: parse_andor_pipeline [OF ok']\<close>)
  then show ?thesis by (simp add: item_reads_def fg_node_def)
qed

lemma item_reads_andor:
  assumes "node_ok (NODE_ANDOR items)"
  shows "item_reads (NODE_ANDOR items)"
proof -
  obtain n rest where items: "items = (ANDOR_FIRST, n) # rest" "fg_pipeline n" "node_ok n"
      "rest \<noteq> []" "ANDOR_FIRST \<notin> fst ` set rest"
    using assms by (cases items; cases "tl items") (auto simp: chain_ok_def)
  obtain op m rest' where rest: "rest = (op, m) # rest'" by (cases rest) (use items in auto)
  obtain pl neg where n: "n = NODE_PIPELINE pl neg" "pipeline_ok pl"
    using items by (cases n) (auto simp: fg_pipeline_def)
  obtain k where k: "unparse_op op = [op_tok k]" "k = TOK_AND_IF \<or> k = TOK_OR_IF"
    using items(5) rest by (cases op) (auto simp: unparse_op_def)
  have "parse_item (list_loop j []) j (unparse (NODE_ANDOR items) @ r) = Some (Inr (NODE_ANDOR items, r))"
    if "ends_item r" for j r
  proof -
    let ?q = "op_tok k # unparse m @ concat (map (\<lambda>(op, n). unparse_op op @ unparse n) rest') @ r"
    have eq: "unparse (NODE_ANDOR items) @ r = unparse (NODE_PIPELINE pl neg) @ ?q"
      by (simp add: items rest n k unparse_op_def del: unparse.simps(1))
         (simp add: k [unfolded unparse_op_def])
    have "ends_pipeline ?q" "t_kind (hd ?q) \<noteq> TOK_LPAREN"
      using k(2) by (auto simp: ends_pipeline_def stops_def is_redir_def)
    from parse_item_andor [OF n(2) this] show ?thesis
      unfolding eq using parse_andor_unparse [OF assms that] by (simp only: eq)
  qed
  then show ?thesis by (simp add: item_reads_def fg_node_def)
qed

lemma parse_item_if: "parse_item lp k (kw_tok ''if'' # r) = parse_if lp k (kw_tok ''if'' # r)"
  "parse_item lp k (kw_tok ''while'' # r) = parse_while lp (kw_tok ''while'' # r)"
  "parse_item lp k (kw_tok ''for'' # r) = parse_for lp (kw_tok ''for'' # r)"
  by (simp_all add: parse_item_def)

lemma reads: "node_ok n \<Longrightarrow> (is_list n \<or> item_reads n) \<and> seq_reads n"
proof (induction n rule: unparse.induct)
  case (1 pl neg)
  then show ?case by (auto intro: item_reads_pipeline seq_readsI simp: is_list_def)
next
  case (2 items)
  then show ?case using item_reads_andor [of items] by (auto intro: seq_readsI simp: is_list_def)
next
  case (3 nodes)
  then have "seq_reads (NODE_LIST nodes)" by (intro seq_reads_list) auto
  then show ?case by (simp add: is_list_def)
next
  case (4 conds bodies els)
  then have ok: "\<forall>n\<in>set conds \<union> set bodies \<union> set_option els. seq_reads n" by auto
  have "item_reads (NODE_IF conds bodies els)"
    unfolding item_reads_def
    using parse_if_reads [OF ok] "4.prems" by (simp add: fg_node_def parse_item_if)
  then show ?case using seq_readsI [OF "4.prems"] by (simp add: is_list_def)
next
  case (5 cond body)
  then have "item_reads (NODE_WHILE cond body)"
    unfolding item_reads_def
    using parse_while_reads [of cond body] by (simp add: fg_node_def parse_item_if)
  then show ?case using seq_readsI [OF "5.prems"] by (simp add: is_list_def)
next
  case (6 var words body)
  then have "item_reads (NODE_FOR var words body)"
    unfolding item_reads_def
    using parse_for_reads [of var words body] by (simp add: fg_node_def parse_item_if)
  then show ?case using seq_readsI [OF "6.prems"] by (simp add: is_list_def)
next
  case (7 name body)
  have "parse_item lp k (kw_tok name # op_tok TOK_LPAREN # r) = parse_funcdef lp (kw_tok name # op_tok TOK_LPAREN # r)" for lp k r
    using "7.prems" by (simp add: parse_item_def KW_OPEN_def)
  with 7 parse_funcdef_reads [of name body] have "item_reads (NODE_FUNCDEF name body)"
    by (simp add: item_reads_def fg_node_def)
  then show ?case using seq_readsI [OF "7.prems"] by (simp add: is_list_def)
qed

lemma unparse_program_reads:
  assumes "\<forall>m\<in>set_option n. node_ok m"
  shows "parser_parse_program (unparse_program n) = Some (NSH_OK, n)"
proof (cases n)
  case (Some m)
  let ?ts = "useq m"
  have "evp (\<lambda>k. list_loop k [] (useq m @ [])) (Some m) []"
    using assms Some reads [of m] by (auto simp: seq_reads_def)
  then obtain K where K: "\<forall>k\<ge>K. list_loop k [] ?ts = Some (Inr (Some m, []))" by (auto simp: evp_def)
  have "parse_list (Suc (max K (length ?ts))) ?ts = Some (Inr (Some m, []))"
    unfolding parse_list_def using K by (simp del: list_loop.simps)
  moreover have "parse_list (Suc (max K (length ?ts))) ?ts = parse_list (parser_fuel ?ts) ?ts"
    by (rule parse_list_fuel) simp
  ultimately have "parse_list (parser_fuel ?ts) ?ts = Some (Inr (Some m, []))" by (simp only:)
  then show ?thesis
    using Some by (simp add: parser_parse_program_def program_result_def unparse_program_def)
qed (simp add: unparse_program_def parser_parse_program_def program_result_def parse_list_def parser_fuel_def list_done_def)

text \<open>Every well-formed tree has a token text that the parser reads back as exactly that tree:
  precedence, the nesting of compounds, background marks, negation and redirections survive.\<close>

theorem parser_unparse:
  assumes "\<forall>m\<in>set_option n. node_ok m"
  shows "parser_parse_program (unparse_program n) = Some (NSH_OK, n)"
  by (rule unparse_program_reads [OF assms])

lemma parser_unparse_witness:
  "parser_parse_program (unparse_program (Some (NODE_FUNCDEF ''f'' (NODE_PIPELINE \<lparr>pl_cmds =
       [\<lparr>c_words = [kw_tok ''ls''], c_redir_in = Some (kw_tok ''x''), c_redir_out = None, c_redir_append = False,
         c_redir_err = None\<rparr>], pl_background = True\<rparr> True))))
   = Some (NSH_OK, Some (NODE_FUNCDEF ''f'' (NODE_PIPELINE \<lparr>pl_cmds =
       [\<lparr>c_words = [kw_tok ''ls''], c_redir_in = Some (kw_tok ''x''), c_redir_out = None, c_redir_append = False,
         c_redir_err = None\<rparr>], pl_background = True\<rparr> True)))"
  by (rule parser_unparse)
     (simp add: valid_name_def is_name_start_def pipeline_ok_def cmd_ok_def word_ok_def tok_ok_def seg_ok_def
       is_reserved_def KW_END_def KW_OPEN_def tok_is_def kw_tok_def)

section \<open>Down to the text\<close>

lemma op_tok_ok [simp]: "k \<noteq> TOK_WORD \<Longrightarrow> tok_ok (op_tok k)"
  by (simp add: tok_ok_def op_tok_def)

lemma kw_tok_ok [simp]: "nul_free s \<Longrightarrow> tok_ok (kw_tok s)"
  by (simp add: tok_ok_def kw_tok_def seg_ok_def)

lemma unparse_cmd_toks: "cmd_ok c \<Longrightarrow> toks_ok (unparse_cmd c)"
  by (auto simp: toks_ok_def unparse_cmd_def unparse_redirs_def cmd_ok_def word_ok_def
      split: option.splits)

lemma toks_ok_append [simp]: "toks_ok (ts @ us) \<longleftrightarrow> toks_ok ts \<and> toks_ok us"
  by (auto simp: toks_ok_def)

lemma unparse_cmds_toks: "\<forall>c\<in>set cs. cmd_ok c \<Longrightarrow> toks_ok (unparse_cmds cs)"
  by (induction cs) (auto simp: unparse_cmd_toks)

lemma unparse_clauses_toks:
  "\<forall>ts\<in>set cs \<union> set bs. toks_ok ts \<Longrightarrow> toks_ok (unparse_clauses cs bs)"
  by (induction cs bs rule: unparse_clauses.induct) auto

lemma unparse_sep_toks [simp]: "toks_ok (unparse_sep n)"
  by (simp add: unparse_sep_def)

lemma toks_ok_concat: "toks_ok (concat tss) \<longleftrightarrow> (\<forall>ts\<in>set tss. toks_ok ts)"
  by (induction tss) auto

lemma unparse_toks: "node_ok n \<Longrightarrow> toks_ok (unparse n)"
proof (induction n rule: unparse.induct)
  case (1 pl neg)
  then show ?case by (simp add: pipeline_ok_def unparse_cmds_toks)
next
  case (2 items)
  have "toks_ok (unparse_op op)" for op by (cases op) (simp_all add: unparse_op_def)
  with 2 show ?case by (fastforce simp: toks_ok_concat)
next
  case (4 conds bodies els)
  then have "toks_ok (unparse_clauses (map useq conds) (map useq bodies))"
    by (intro unparse_clauses_toks) auto
  with 4 show ?case by (cases els) auto
next
  case (6 var words body)
  then have "toks_ok words" by (simp add: toks_ok_def word_ok_def)
  with 6 show ?case by (simp add: valid_name_nul_free)
qed (auto simp: toks_ok_concat valid_name_nul_free)

text \<open>C6: Every well-formed tree has a source text: lexing that text and parsing the tokens gives
  back exactly the tree.\<close>

theorem source_text_roundtrip:
  assumes "\<forall>m\<in>set_option n. node_ok m"
  shows "fst (lexer_scan (render (unparse_program n))) = NSH_OK
    \<and> parser_parse_program (snd (lexer_scan (render (unparse_program n)))) = Some (NSH_OK, n)"
proof -
  have toks: "\<forall>t\<in>set (unparse_program n). tok_ok t"
    using assms unparse_toks [of "the n"]
    by (cases n) (auto simp: unparse_program_def toks_ok_def dest: unparse_sep_toks [unfolded toks_ok_def, rule_format])
  have "parser_parse_program (unparse_program n) = Some (NSH_OK, n)"
    by (rule unparse_program_reads [OF assms])
  with lexer_render [OF toks] show ?thesis by simp
qed

lemma source_text_roundtrip_witness:
  "fst (lexer_scan (render (unparse_program (Some (NODE_PIPELINE \<lparr>pl_cmds =
       [\<lparr>c_words = [kw_tok ''ls''], c_redir_in = None, c_redir_out = Some (kw_tok ''x''), c_redir_append = True,
         c_redir_err = None\<rparr>], pl_background = False\<rparr> True))))) = NSH_OK
    \<and> parser_parse_program (snd (lexer_scan (render (unparse_program (Some (NODE_PIPELINE \<lparr>pl_cmds =
       [\<lparr>c_words = [kw_tok ''ls''], c_redir_in = None, c_redir_out = Some (kw_tok ''x''), c_redir_append = True,
         c_redir_err = None\<rparr>], pl_background = False\<rparr> True)))))) = Some (NSH_OK, Some (NODE_PIPELINE \<lparr>pl_cmds =
       [\<lparr>c_words = [kw_tok ''ls''], c_redir_in = None, c_redir_out = Some (kw_tok ''x''), c_redir_append = True,
         c_redir_err = None\<rparr>], pl_background = False\<rparr> True))"
  by (rule source_text_roundtrip)
     (simp add: pipeline_ok_def cmd_ok_def word_ok_def tok_ok_def seg_ok_def
       is_reserved_def KW_END_def KW_OPEN_def tok_is_def kw_tok_def)

end
