(* ===== verification/Cpu.thy ===== *)
theory Cpu
  imports Prelude
begin

unbundle bit_operations_syntax

text \<open>
  \<open>src/emu/cpu.h\<close> and \<open>cpu.c\<close>: the CHIP-8 interpreter. Registers, memory and counters keep their
  machine widths. Every array access is checked: \<open>None\<close> is an access outside the array, which the
  C code must never make; an error code is a value like any other, next to the state it leaves.
\<close>

section \<open>State\<close>

definition CHIP8_MEM :: nat where "CHIP8_MEM = 4096"
definition CHIP8_W :: nat where "CHIP8_W = 64"
definition CHIP8_H :: nat where "CHIP8_H = 32"
definition CHIP8_ROM_BASE :: nat where "CHIP8_ROM_BASE = 0x200"
definition CHIP8_FONT_BASE :: nat where "CHIP8_FONT_BASE = 0x50"
definition OP_BYTES :: nat where "OP_BYTES = 2"
definition GLYPH_BYTES :: nat where "GLYPH_BYTES = 5"
definition STACK_DEPTH :: nat where "STACK_DEPTH = 16"
definition RNG_SEED :: u32 where "RNG_SEED = 0x13375EED"
definition VF :: nat where "VF = 0xF"

lemmas chip_consts = CHIP8_MEM_def CHIP8_W_def CHIP8_H_def CHIP8_ROM_BASE_def CHIP8_FONT_BASE_def
  OP_BYTES_def GLYPH_BYTES_def STACK_DEPTH_def VF_def

record Chip8 =
  ch_mem :: "u8 list"
  ch_v :: "u8 list"
  ch_i :: u16
  ch_pc :: u16
  ch_stack :: "u16 list"
  ch_sp :: u8
  ch_delay :: u8
  ch_sound :: u8
  ch_fb :: "u8 list"
  ch_fb_dirty :: bool
  ch_keys :: u16
  ch_waiting_key :: bool
  ch_waiting_reg :: u8
  ch_rng :: u32

definition k_font :: "u8 list" where
  "k_font =
    [0xF0, 0x90, 0x90, 0x90, 0xF0,
     0x20, 0x60, 0x20, 0x20, 0x70,
     0xF0, 0x10, 0xF0, 0x80, 0xF0,
     0xF0, 0x10, 0xF0, 0x10, 0xF0,
     0x90, 0x90, 0xF0, 0x10, 0x10,
     0xF0, 0x80, 0xF0, 0x10, 0xF0,
     0xF0, 0x80, 0xF0, 0x90, 0xF0,
     0xF0, 0x10, 0x20, 0x40, 0x40,
     0xF0, 0x90, 0xF0, 0x90, 0xF0,
     0xF0, 0x90, 0xF0, 0x10, 0xF0,
     0xF0, 0x90, 0xF0, 0x90, 0x90,
     0xE0, 0x90, 0xE0, 0x90, 0xE0,
     0xF0, 0x80, 0x80, 0x80, 0xF0,
     0xE0, 0x90, 0x90, 0x90, 0xE0,
     0xF0, 0x80, 0xF0, 0x80, 0xF0,
     0xF0, 0x80, 0xF0, 0x80, 0x80]"

type_synonym chip_res = "(NshError \<times> Chip8) option"

definition set_v :: "Chip8 \<Rightarrow> nat \<Rightarrow> u8 \<Rightarrow> Chip8 option" where
  "set_v c x b = map_option (\<lambda>v. c\<lparr>ch_v := v\<rparr>) (wr (ch_v c) x b)"

definition chip_ok_code :: "Chip8 option \<Rightarrow> chip_res" where
  "chip_ok_code m = map_option (\<lambda>c. (NSH_OK, c)) m"

section \<open>Instructions\<close>

definition fetch_ok :: "u16 \<Rightarrow> bool" where "fetch_ok pc \<longleftrightarrow> unat pc + 1 < CHIP8_MEM"

definition span_ok :: "u16 \<Rightarrow> nat \<Rightarrow> bool" where "span_ok base len \<longleftrightarrow> unat base + len \<le> CHIP8_MEM"

definition next_rand :: "Chip8 \<Rightarrow> u32 \<times> Chip8" where
  "next_rand c =
     (let x = ch_rng c; x = x XOR push_bit 13 x; x = x XOR drop_bit 17 x; x = x XOR push_bit 5 x
      in (x, c\<lparr>ch_rng := x\<rparr>))"

definition skip_next :: "Chip8 \<Rightarrow> bool \<Rightarrow> NshError \<times> Chip8" where
  "skip_next c cond =
     (if \<not> cond then (NSH_OK, c)
      else (let target = ch_pc c + of_nat OP_BYTES
            in if \<not> fetch_ok target then (NSH_ERR_INVALID, c) else (NSH_OK, c\<lparr>ch_pc := target\<rparr>)))"

definition exec_system :: "Chip8 \<Rightarrow> u16 \<Rightarrow> chip_res" where
  "exec_system c op =
     (if op = 0x00E0 then
        Some (NSH_OK, c\<lparr>ch_fb := replicate (length (ch_fb c)) 0, ch_fb_dirty := True\<rparr>)
      else if op = 0x00EE then
        (if ch_sp c = 0 then Some (NSH_ERR_INVALID, c)
         else do {
           ret \<leftarrow> rd (ch_stack c) (unat (ch_sp c - 1));
           Some (NSH_OK, c\<lparr>ch_sp := ch_sp c - 1, ch_pc := ret\<rparr>) })
      else Some (NSH_ERR_INVALID, c))"

text \<open>The flag is written after the result. \<open>a + b\<close> is computed in \<open>int\<close> before the cast to 16 bits.\<close>

definition exec_alu :: "Chip8 \<Rightarrow> nat \<Rightarrow> nat \<Rightarrow> u8 \<Rightarrow> chip_res" where
  "exec_alu c x y n = do {
     a \<leftarrow> rd (ch_v c) x;
     b \<leftarrow> rd (ch_v c) y;
     let flagged = (\<lambda>res flag :: u8. do {
           v1 \<leftarrow> wr (ch_v c) x res;
           v2 \<leftarrow> wr v1 VF flag;
           Some (NSH_OK, c\<lparr>ch_v := v2\<rparr>) });
     if n = 0x0 then chip_ok_code (set_v c x b)
     else if n = 0x1 then chip_ok_code (set_v c x (a OR b))
     else if n = 0x2 then chip_ok_code (set_v c x (a AND b))
     else if n = 0x3 then chip_ok_code (set_v c x (a XOR b))
     else if n = 0x4 then flagged (a + b) (if 0xFF < (ucast a + ucast b :: u16) then 1 else 0)
     else if n = 0x5 then flagged (a - b) (if b \<le> a then 1 else 0)
     else if n = 0x6 then flagged (drop_bit 1 a) (a AND 1)
     else if n = 0x7 then flagged (b - a) (if a \<le> b then 1 else 0)
     else if n = 0xE then flagged (push_bit 1 a) (drop_bit 7 a AND 1)
     else Some (NSH_ERR_INVALID, c) }"

text \<open>One sprite row: the columns still to draw, the hit flag and the framebuffer.\<close>

fun draw_cols :: "u8 \<Rightarrow> u8 \<Rightarrow> u8 \<Rightarrow> nat list \<Rightarrow> u8 \<Rightarrow> u8 list \<Rightarrow> (u8 \<times> u8 list) option" where
  "draw_cols bits x0 py [] hit fb = Some (hit, fb)"
| "draw_cols bits x0 py (col # cols) hit fb =
     (let px = x0 + of_nat col
      in if unat px \<ge> CHIP8_W then Some (hit, fb)
         else if drop_bit (7 - col) bits AND 1 = 0 then draw_cols bits x0 py cols hit fb
         else do {
           p \<leftarrow> rd fb (unat py * CHIP8_W + unat px);
           fb' \<leftarrow> wr fb (unat py * CHIP8_W + unat px) (p XOR 1);
           draw_cols bits x0 py cols (hit OR p) fb' })"

fun draw_rows :: "Chip8 \<Rightarrow> u8 \<Rightarrow> u8 \<Rightarrow> nat list \<Rightarrow> u8 \<Rightarrow> u8 list \<Rightarrow> (u8 \<times> u8 list) option" where
  "draw_rows c x0 y0 [] hit fb = Some (hit, fb)"
| "draw_rows c x0 y0 (row # rows) hit fb =
     (let py = y0 + of_nat row
      in if unat py \<ge> CHIP8_H then Some (hit, fb)
         else do {
           bits \<leftarrow> rd (ch_mem c) (unat (ch_i c) + row);
           (hit', fb') \<leftarrow> draw_cols bits x0 py [0..<8] hit fb;
           draw_rows c x0 y0 rows hit' fb' })"

definition exec_draw :: "Chip8 \<Rightarrow> nat \<Rightarrow> nat \<Rightarrow> u8 \<Rightarrow> chip_res" where
  "exec_draw c x y n =
     (if n > 0 \<and> \<not> span_ok (ch_i c) (unat n) then Some (NSH_ERR_INVALID, c)
      else do {
        vx \<leftarrow> rd (ch_v c) x;
        vy \<leftarrow> rd (ch_v c) y;
        (hit, fb) \<leftarrow> draw_rows c (vx mod of_nat CHIP8_W) (vy mod of_nat CHIP8_H) [0..<unat n] 0 (ch_fb c);
        v \<leftarrow> wr (ch_v c) VF (if hit \<noteq> 0 then 1 else 0);
        Some (NSH_OK, c\<lparr>ch_v := v, ch_fb := fb, ch_fb_dirty := True\<rparr>) })"

definition exec_key :: "Chip8 \<Rightarrow> nat \<Rightarrow> u8 \<Rightarrow> chip_res" where
  "exec_key c x kk = do {
     vx \<leftarrow> rd (ch_v c) x;
     let held = (drop_bit (unat (vx AND 0xF)) (ch_keys c) AND 1 \<noteq> 0);
     if kk = 0x9E then Some (skip_next c held)
     else if kk = 0xA1 then Some (skip_next c (\<not> held))
     else Some (NSH_ERR_INVALID, c) }"

definition exec_misc :: "Chip8 \<Rightarrow> nat \<Rightarrow> u8 \<Rightarrow> chip_res" where
  "exec_misc c x kk = do {
     vx \<leftarrow> rd (ch_v c) x;
     if kk = 0x07 then chip_ok_code (set_v c x (ch_delay c))
     else if kk = 0x0A then Some (NSH_OK, c\<lparr>ch_waiting_key := True, ch_waiting_reg := of_nat x\<rparr>)
     else if kk = 0x15 then Some (NSH_OK, c\<lparr>ch_delay := vx\<rparr>)
     else if kk = 0x18 then Some (NSH_OK, c\<lparr>ch_sound := vx\<rparr>)
     else if kk = 0x1E then Some (NSH_OK, c\<lparr>ch_i := ch_i c + ucast vx\<rparr>)
     else if kk = 0x29 then
       Some (NSH_OK, c\<lparr>ch_i := of_nat (CHIP8_FONT_BASE + GLYPH_BYTES * unat (vx AND 0xF))\<rparr>)
     else if kk = 0x33 then
       (if \<not> span_ok (ch_i c) 3 then Some (NSH_ERR_INVALID, c)
        else do {
          m1 \<leftarrow> wr (ch_mem c) (unat (ch_i c)) (vx div 100);
          m2 \<leftarrow> wr m1 (unat (ch_i c) + 1) (vx div 10 mod 10);
          m3 \<leftarrow> wr m2 (unat (ch_i c) + 2) (vx mod 10);
          Some (NSH_OK, c\<lparr>ch_mem := m3\<rparr>) })
     else if kk = 0x55 then
       (if \<not> span_ok (ch_i c) (x + 1) then Some (NSH_ERR_INVALID, c)
        else do {
          src \<leftarrow> slice (ch_v c) 0 (x + 1);
          m \<leftarrow> blit (ch_mem c) (unat (ch_i c)) src;
          Some (NSH_OK, c\<lparr>ch_mem := m\<rparr>) })
     else if kk = 0x65 then
       (if \<not> span_ok (ch_i c) (x + 1) then Some (NSH_ERR_INVALID, c)
        else do {
          src \<leftarrow> slice (ch_mem c) (unat (ch_i c)) (x + 1);
          v \<leftarrow> blit (ch_v c) 0 src;
          Some (NSH_OK, c\<lparr>ch_v := v\<rparr>) })
     else Some (NSH_ERR_INVALID, c) }"

definition exec :: "Chip8 \<Rightarrow> u16 \<Rightarrow> chip_res" where
  "exec c op =
     (let x = unat (drop_bit 8 op AND 0xF);
          y = unat (drop_bit 4 op AND 0xF);
          n = ucast (op AND 0xF) :: u8;
          kk = ucast (op AND 0xFF) :: u8;
          nnn = op AND 0x0FFF;
          k = drop_bit 12 op
      in if k = 0x0 then exec_system c op
         else if k = 0x1 then Some (NSH_OK, c\<lparr>ch_pc := nnn\<rparr>)
         else if k = 0x2 then
           (if unat (ch_sp c) \<ge> STACK_DEPTH then Some (NSH_ERR_INVALID, c)
            else do {
              st \<leftarrow> wr (ch_stack c) (unat (ch_sp c)) (ch_pc c);
              Some (NSH_OK, c\<lparr>ch_stack := st, ch_sp := ch_sp c + 1, ch_pc := nnn\<rparr>) })
         else if k = 0x3 then do { vx \<leftarrow> rd (ch_v c) x; Some (skip_next c (vx = kk)) }
         else if k = 0x4 then do { vx \<leftarrow> rd (ch_v c) x; Some (skip_next c (vx \<noteq> kk)) }
         else if k = 0x5 then
           (if n = 0 then do { vx \<leftarrow> rd (ch_v c) x; vy \<leftarrow> rd (ch_v c) y; Some (skip_next c (vx = vy)) }
            else Some (NSH_ERR_INVALID, c))
         else if k = 0x6 then chip_ok_code (set_v c x kk)
         else if k = 0x7 then do { vx \<leftarrow> rd (ch_v c) x; chip_ok_code (set_v c x (vx + kk)) }
         else if k = 0x8 then exec_alu c x y n
         else if k = 0x9 then
           (if n = 0 then do { vx \<leftarrow> rd (ch_v c) x; vy \<leftarrow> rd (ch_v c) y; Some (skip_next c (vx \<noteq> vy)) }
            else Some (NSH_ERR_INVALID, c))
         else if k = 0xA then Some (NSH_OK, c\<lparr>ch_i := nnn\<rparr>)
         else if k = 0xB then do { v0 \<leftarrow> rd (ch_v c) 0; Some (NSH_OK, c\<lparr>ch_pc := nnn + ucast v0\<rparr>) }
         else if k = 0xC then (let (r, c') = next_rand c in chip_ok_code (set_v c' x (ucast r AND kk)))
         else if k = 0xD then exec_draw c x y n
         else if k = 0xE then exec_key c x kk
         else exec_misc c x kk)"

section \<open>Operations\<close>

definition cpu_init :: Chip8 where
  "cpu_init = \<lparr>ch_mem = replicate CHIP8_FONT_BASE 0 @ k_font
       @ replicate (CHIP8_MEM - CHIP8_FONT_BASE - length k_font) 0,
     ch_v = replicate 16 0, ch_i = 0, ch_pc = of_nat CHIP8_ROM_BASE, ch_stack = replicate 16 0,
     ch_sp = 0, ch_delay = 0, ch_sound = 0, ch_fb = replicate (CHIP8_W * CHIP8_H) 0,
     ch_fb_dirty = False, ch_keys = 0, ch_waiting_key = False, ch_waiting_reg = 0, ch_rng = RNG_SEED\<rparr>"

text \<open>The ROM is \<open>None\<close> for the NULL pointer.\<close>

definition cpu_load_rom :: "Chip8 \<Rightarrow> u8 list option \<Rightarrow> chip_res" where
  "cpu_load_rom c rom = (case rom of
     None \<Rightarrow> Some (NSH_ERR_INVALID, c)
   | Some bytes \<Rightarrow>
       if length bytes = 0 \<or> length bytes > CHIP8_MEM - CHIP8_ROM_BASE then Some (NSH_ERR_INVALID, c)
       else do { m \<leftarrow> blit (ch_mem c) CHIP8_ROM_BASE bytes; Some (NSH_OK, c\<lparr>ch_mem := m\<rparr>) })"

definition cpu_step :: "Chip8 \<Rightarrow> chip_res" where
  "cpu_step c =
     (if ch_waiting_key c then Some (NSH_OK, c)
      else if \<not> fetch_ok (ch_pc c) then Some (NSH_ERR_INVALID, c)
      else do {
        hi \<leftarrow> rd (ch_mem c) (unat (ch_pc c));
        lo \<leftarrow> rd (ch_mem c) (unat (ch_pc c) + 1);
        let op = push_bit 8 (ucast hi) OR ucast lo;
        exec (c\<lparr>ch_pc := ch_pc c + of_nat OP_BYTES\<rparr>) op })"

definition cpu_tick_timers :: "Chip8 \<Rightarrow> Chip8" where
  "cpu_tick_timers c =
     (let c1 = (if ch_delay c > 0 then c\<lparr>ch_delay := ch_delay c - 1\<rparr> else c)
      in if ch_sound c1 > 0 then c1\<lparr>ch_sound := ch_sound c1 - 1\<rparr> else c1)"

definition cpu_key_event :: "Chip8 \<Rightarrow> int \<Rightarrow> bool \<Rightarrow> Chip8 option" where
  "cpu_key_event c key down =
     (if key < 0 \<or> key > 15 then Some c
      else (let bit = push_bit (nat key) 1
            in if down then
                 (let c1 = c\<lparr>ch_keys := ch_keys c OR bit\<rparr>
                  in if ch_waiting_key c1 then
                       map_option (\<lambda>c2. c2\<lparr>ch_waiting_key := False\<rparr>)
                         (set_v c1 (unat (ch_waiting_reg c1)) (of_int key))
                     else Some c1)
               else Some (c\<lparr>ch_keys := ch_keys c AND NOT bit\<rparr>)))"

section \<open>No access leaves its array\<close>

definition chip_inv :: "Chip8 \<Rightarrow> bool" where
  "chip_inv c \<longleftrightarrow> length (ch_mem c) = CHIP8_MEM \<and> length (ch_v c) = 16
     \<and> length (ch_stack c) = STACK_DEPTH \<and> unat (ch_sp c) \<le> STACK_DEPTH
     \<and> length (ch_fb c) = CHIP8_W * CHIP8_H \<and> (\<forall>p\<in>set (ch_fb c). p = 0 \<or> p = 1)
     \<and> unat (ch_waiting_reg c) < 16"

definition chip_safe :: "chip_res \<Rightarrow> bool" where
  "chip_safe m = (case m of None \<Rightarrow> False | Some (e, c) \<Rightarrow> chip_inv c)"

lemma chip_safe_simps [simp]: "chip_safe (Some (e, c)) \<longleftrightarrow> chip_inv c"
  by (simp add: chip_safe_def)

lemma nibble_less [simp]: "unat (w AND 0xF :: u16) < 16"
  using word_and_le1 [of w "0xF"] by (simp add: word_le_nat_alt)

lemma nibble_less8 [simp]: "unat (w AND 0xF :: u8) < 16"
  using word_and_le1 [of w "0xF"] by (simp add: word_le_nat_alt)

lemma ucast_nibble [simp]: "unat (ucast (w AND 0xF :: u16) :: u8) < 16"
  
proof -
  have "take_bit 8 (unat (w AND 0xF)) = unat (w AND 0xF)"
    by (rule take_bit_nat_eq_self, rule less_trans [OF nibble_less]) simp
  then show ?thesis by (simp add: unsigned_ucast_eq)
qed

lemma inv_pc [simp]: "chip_inv (c\<lparr>ch_pc := p\<rparr>) = chip_inv c"
  "chip_inv (c\<lparr>ch_i := q\<rparr>) = chip_inv c" "chip_inv (c\<lparr>ch_rng := r\<rparr>) = chip_inv c"
  "chip_inv (c\<lparr>ch_delay := d\<rparr>) = chip_inv c" "chip_inv (c\<lparr>ch_sound := d\<rparr>) = chip_inv c"
  "chip_inv (c\<lparr>ch_keys := ks\<rparr>) = chip_inv c" "chip_inv (c\<lparr>ch_waiting_key := b\<rparr>) = chip_inv c"
  "chip_inv (c\<lparr>ch_fb_dirty := b\<rparr>) = chip_inv c"
  by (simp_all add: chip_inv_def)

lemma inv_v: "chip_inv c \<Longrightarrow> length v = 16 \<Longrightarrow> chip_inv (c\<lparr>ch_v := v\<rparr>)"
  by (simp add: chip_inv_def)

lemma set_v_safe: "chip_inv c \<Longrightarrow> x < 16 \<Longrightarrow> chip_safe (chip_ok_code (set_v c x b))"
  by (simp add: chip_ok_code_def set_v_def wr_def inv_v chip_inv_def)

lemma skip_next_safe: "chip_inv c \<Longrightarrow> chip_safe (Some (skip_next c b))"
  by (simp add: skip_next_def Let_def)

lemma sp_pred: "(sp :: u8) \<noteq> 0 \<Longrightarrow> unat (sp - 1) = unat sp - 1"
  by (simp add: unat_minus_one)

lemma exec_system_safe: "chip_inv c \<Longrightarrow> chip_safe (exec_system c op)"
  by (auto simp: exec_system_def chip_inv_def rd_def sp_pred chip_consts)

lemma exec_alu_safe:
  assumes "chip_inv c" "x < 16" "y < 16"
  shows "chip_safe (exec_alu c x y n)"
proof -
  have len: "length (ch_v c) = 16" using assms(1) by (simp add: chip_inv_def)
  show ?thesis
    using assms set_v_safe [OF assms(1,2)]
    by (simp add: exec_alu_def rd_Some wr_Some len VF_def inv_v)
qed

lemma exec_key_safe: "chip_inv c \<Longrightarrow> x < 16 \<Longrightarrow> chip_safe (exec_key c x kk)"
  using skip_next_safe [of c] by (simp add: exec_key_def rd_def chip_inv_def Let_def)

lemma exec_misc_safe:
  assumes "chip_inv c" "x < 16"
  shows "chip_safe (exec_misc c x kk)"
proof -
  have len: "length (ch_v c) = 16" "length (ch_mem c) = 4096"
    using assms(1) by (simp_all add: chip_inv_def chip_consts)
  have x: "unat (of_nat x :: u8) < 16" using assms(2) by (simp add: unat_of_nat take_bit_nat_eq_self)
  show ?thesis
    using assms set_v_safe [OF assms] x
    by (auto simp: exec_misc_def rd_def wr_def blit_def slice_def len span_ok_def chip_inv_def chip_consts)
qed

subsection \<open>Sprites\<close>

text \<open>The pixels a sprite of \<open>n\<close> rows lights at \<open>(x0, y0)\<close>, as a set of framebuffer indices.\<close>

definition sprite_row_on :: "u8 \<Rightarrow> nat \<Rightarrow> nat \<Rightarrow> nat \<Rightarrow> bool" where
  "sprite_row_on bits x0 py j \<longleftrightarrow> j div CHIP8_W = py \<and> x0 \<le> j mod CHIP8_W \<and> j mod CHIP8_W < x0 + 8
     \<and> bit bits (7 - (j mod CHIP8_W - x0))"

definition sprite_on :: "Chip8 \<Rightarrow> nat \<Rightarrow> nat \<Rightarrow> nat \<Rightarrow> nat \<Rightarrow> bool" where
  "sprite_on c x0 y0 n j \<longleftrightarrow> y0 \<le> j div CHIP8_W \<and> j div CHIP8_W < y0 + n
     \<and> sprite_row_on (ch_mem c ! (unat (ch_i c) + (j div CHIP8_W - y0))) x0 (j div CHIP8_W) j"

text \<open>\<open>plot on fb hit (hit', fb')\<close>: exactly the pixels in \<open>on\<close> are flipped, and the hit flag is
  raised if one of them was lit.\<close>

definition plot :: "(nat \<Rightarrow> bool) \<Rightarrow> u8 list \<Rightarrow> u8 \<Rightarrow> u8 \<times> u8 list \<Rightarrow> bool" where
  "plot on fb hit r \<longleftrightarrow> length (snd r) = length fb
     \<and> (\<forall>j < length fb. snd r ! j = (if on j then fb ! j XOR 1 else fb ! j))
     \<and> (fst r \<noteq> 0 \<longleftrightarrow> hit \<noteq> 0 \<or> (\<exists>j < length fb. on j \<and> fb ! j \<noteq> 0))"

lemma plot_none: "(\<And>j. j < length fb \<Longrightarrow> \<not> on j) \<Longrightarrow> plot on fb hit (hit, fb)"
  by (auto simp: plot_def)

lemma plot_seq:
  assumes "plot on1 fb hit (hit1, fb1)" "plot on2 fb1 hit1 r"
    and "\<And>j. j < length fb \<Longrightarrow> \<not> (on1 j \<and> on2 j)" "\<And>j. j < length fb \<Longrightarrow> on j \<longleftrightarrow> on1 j \<or> on2 j"
  shows "plot on fb hit r"
proof -
  have "fst r \<noteq> 0 \<longleftrightarrow> hit \<noteq> 0 \<or> (\<exists>j < length fb. on1 j \<and> fb ! j \<noteq> 0) \<or> (\<exists>j < length fb. on2 j \<and> fb1 ! j \<noteq> 0)"
    using assms(1,2) by (simp add: plot_def)
  also have "(\<exists>j < length fb. on2 j \<and> fb1 ! j \<noteq> 0) \<longleftrightarrow> (\<exists>j < length fb. on2 j \<and> fb ! j \<noteq> 0)"
  proof -
    have "fb1 ! j = fb ! j" if "j < length fb" "on2 j" for j
      using assms(1,3) that by (auto simp: plot_def)
    then show ?thesis by metis
  qed
  also have "hit \<noteq> 0 \<or> (\<exists>j < length fb. on1 j \<and> fb ! j \<noteq> 0) \<or> (\<exists>j < length fb. on2 j \<and> fb ! j \<noteq> 0)
      \<longleftrightarrow> hit \<noteq> 0 \<or> (\<exists>j < length fb. on j \<and> fb ! j \<noteq> 0)"
    using assms(4) by blast
  finally show ?thesis using assms by (auto simp: plot_def)
qed

lemma plot_one:
  assumes "k < length fb"
  shows "plot (\<lambda>j. j = k) fb hit (hit OR fb ! k, fb[k := fb ! k XOR 1])"
  using assms by (auto simp: plot_def nth_list_update or_eq_0_iff)

lemma bit_test: "drop_bit m (w :: u8) AND 1 = 0 \<longleftrightarrow> \<not> bit w m"
  by (simp add: bit_iff_odd_drop_bit and_one_eq even_iff_mod_2_eq_zero odd_iff_mod_2_eq_one)

lemma draw_cols_plot:
  "k \<le> 8 \<Longrightarrow> unat x0 < 64 \<Longrightarrow> unat py < 32 \<Longrightarrow> length fb = 2048 \<Longrightarrow>
   \<exists>r. draw_cols bits x0 py [k..<8] hit fb = Some r
     \<and> plot (\<lambda>j. sprite_row_on bits (unat x0) (unat py) j \<and> unat x0 + k \<le> j mod 64) fb hit r"
proof (induction "8 - k" arbitrary: k hit fb)
  case 0
  then have k: "k = 8" by simp
  have "plot (\<lambda>j. sprite_row_on bits (unat x0) (unat py) j \<and> unat x0 + k \<le> j mod 64) fb hit (hit, fb)"
    by (rule plot_none) (auto simp: sprite_row_on_def chip_consts k)
  then show ?case by (auto simp: k)
next
  case (Suc m)
  let ?on = "\<lambda>k j. sprite_row_on bits (unat x0) (unat py) j \<and> unat x0 + k \<le> j mod 64"
  have k: "k < 8" "[k..<8] = k # [Suc k..<8]" "m = 8 - Suc k"
    using Suc.hyps(2) by (simp_all add: upt_conv_Cons)
  have IH: "\<exists>r. draw_cols bits x0 py [Suc k..<8] h f = Some r \<and> plot (?on (Suc k)) f h r"
    if "length f = 2048" for h f
    using Suc.hyps(1) [OF k(3)] Suc.prems(2,3) k(1) that by simp
  have px: "unat (x0 + of_nat k) = unat x0 + k"
    using k(1) Suc.prems(2) by (subst unat_plus_simple [THEN iffD1]) (simp_all add: unat_of_nat take_bit_nat_eq_self word_le_nat_alt unat_word_ariths(1))
  show ?case
  proof (cases "unat x0 + k \<ge> 64")
    case True
    have "j mod 64 < 64" for j :: nat by simp
    with True have "plot (?on k) fb hit (hit, fb)"
      by (intro plot_none) (metis leD le_trans)
    with True px k(2) show ?thesis by (auto simp: chip_consts)
  next
    case False
    let ?j = "unat py * 64 + (unat x0 + k)"
    have j: "?j < 2048" "?j div 64 = unat py" "?j mod 64 = unat x0 + k"
      using False Suc.prems(3) by auto
    have only: "j = ?j \<longleftrightarrow> j div 64 = unat py \<and> j mod 64 = unat x0 + k" for j
      using j(2,3) by (metis div_mult_mod_eq)
    have split_on: "?on k j \<longleftrightarrow> j = ?j \<and> bit bits (7 - k) \<or> ?on (Suc k) j" for j
    proof (cases "j mod 64 = unat x0 + k")
      case True
      then show ?thesis unfolding only using k(1) by (auto simp: sprite_row_on_def chip_consts)
    next
      case False
      then have "unat x0 + k \<le> j mod 64 \<longleftrightarrow> unat x0 + Suc k \<le> j mod 64" by linarith
      with False show ?thesis unfolding only by blast
    qed
    show ?thesis
    proof (cases "bit bits (7 - k)")
      case on: False
      obtain r where r: "draw_cols bits x0 py [Suc k..<8] hit fb = Some r" "plot (?on (Suc k)) fb hit r"
        using IH [OF Suc.prems(4)] by blast
      have "?on (Suc k) = ?on k"
        using on split_on by blast
      with r on k(2) px False show ?thesis by (auto simp: chip_consts bit_test)
    next
      case on: True
      let ?fb = "fb[?j := fb ! ?j XOR 1]"
      obtain r where r: "draw_cols bits x0 py [Suc k..<8] (hit OR fb ! ?j) ?fb = Some r"
        "plot (?on (Suc k)) ?fb (hit OR fb ! ?j) r"
        using IH [of ?fb "hit OR fb ! ?j"] Suc.prems(4) unfolding length_list_update by blast
      have "plot (?on k) fb hit r"
      proof (rule plot_seq [OF plot_one r(2)])
        show "?j < length fb" using j Suc.prems by simp
        show "\<not> (j = ?j \<and> ?on (Suc k) j)" for j using j(3) by auto
        show "?on k j \<longleftrightarrow> j = ?j \<or> ?on (Suc k) j" for j
          using on split_on by blast
      qed
      with r(1) on k(2) px False j(1) Suc.prems(4) show ?thesis
        by (auto simp: chip_consts bit_test rd_def wr_def)
    qed
  qed
qed

lemma draw_rows_plot:
  assumes "length (ch_mem c) = 4096" "unat (ch_i c) + n \<le> 4096" "n < 16" "unat x0 < 64" "unat y0 < 32"
  shows "r \<le> n \<Longrightarrow> length fb = 2048 \<Longrightarrow>
   \<exists>res. draw_rows c x0 y0 [r..<n] hit fb = Some res
     \<and> plot (\<lambda>j. sprite_on c (unat x0) (unat y0) n j \<and> unat y0 + r \<le> j div 64) fb hit res"
proof (induction "n - r" arbitrary: r hit fb)
  case 0
  then have "plot (\<lambda>j. sprite_on c (unat x0) (unat y0) n j \<and> unat y0 + r \<le> j div 64) fb hit (hit, fb)"
    by (intro plot_none) (simp add: sprite_on_def chip_consts)
  with 0 show ?case by auto
next
  case (Suc m)
  let ?on = "\<lambda>r j. sprite_on c (unat x0) (unat y0) n j \<and> unat y0 + r \<le> j div 64"
  have r: "r < n" "[r..<n] = r # [Suc r..<n]" "m = n - Suc r"
    using Suc.hyps(2) by (simp_all add: upt_conv_Cons)
  have IH: "\<exists>res. draw_rows c x0 y0 [Suc r..<n] h f = Some res \<and> plot (?on (Suc r)) f h res"
    if "length f = 2048" for h f
    using Suc.hyps(1) [OF r(3)] r(1) that by simp
  have py: "unat (y0 + of_nat r) = unat y0 + r"
    using r(1) assms(3,5) by (simp add: unat_word_ariths(1) unat_of_nat take_bit_nat_eq_self)
  show ?case
  proof (cases "unat y0 + r \<ge> 32")
    case True
    then have "plot (?on r) fb hit (hit, fb)"
      using Suc.prems(2) by (intro plot_none) auto
    with True py r(2) show ?thesis by (auto simp: chip_consts)
  next
    case False
    let ?bits = "ch_mem c ! (unat (ch_i c) + r)"
    have bits: "rd (ch_mem c) (unat (ch_i c) + r) = Some ?bits"
      using assms(1,2) r(1) by (simp add: rd_def)
    obtain q where q: "draw_cols ?bits x0 (y0 + of_nat r) [0..<8] hit fb = Some q"
      "plot (\<lambda>j. sprite_row_on ?bits (unat x0) (unat y0 + r) j \<and> unat x0 + 0 \<le> j mod 64) fb hit q"
      using draw_cols_plot [of 0 x0 "y0 + of_nat r" fb ?bits hit] assms(4) False py Suc.prems(2) by auto
    obtain h f where hf: "q = (h, f)" by (cases q)
    have f: "length f = 2048" using q(2) hf Suc.prems(2) by (simp add: plot_def)
    obtain res where res: "draw_rows c x0 y0 [Suc r..<n] h f = Some res" "plot (?on (Suc r)) f h res"
      using IH [OF f] by blast
    have "plot (?on r) fb hit res"
    proof (rule plot_seq [OF q(2) [unfolded hf] res(2)])
      fix j
      show "\<not> ((sprite_row_on ?bits (unat x0) (unat y0 + r) j \<and> unat x0 + 0 \<le> j mod 64) \<and> ?on (Suc r) j)"
        by (auto simp: sprite_row_on_def chip_consts)
      show "?on r j \<longleftrightarrow> (sprite_row_on ?bits (unat x0) (unat y0 + r) j \<and> unat x0 + 0 \<le> j mod 64) \<or> ?on (Suc r) j"
      proof (cases "j div 64 = unat y0 + r")
        case True
        with r(1) show ?thesis by (auto simp: sprite_on_def sprite_row_on_def chip_consts)
      next
        case False
        then show ?thesis by (auto simp: sprite_row_on_def chip_consts)
      qed
    qed
    with res(1) q(1) hf bits r(2) py False show ?thesis by (auto simp: chip_consts)
  qed
qed

lemma plot_bits:
  assumes "plot on fb hit r" "\<forall>p\<in>set fb. p = 0 \<or> p = 1"
  shows "\<forall>p\<in>set (snd r). p = 0 \<or> p = 1"
proof
  fix p
  assume "p \<in> set (snd r)"
  then obtain j where j: "j < length fb" "p = snd r ! j"
    using assms(1) by (auto simp: in_set_conv_nth plot_def)
  then have "fb ! j = 0 \<or> fb ! j = 1" using assms(2) by simp
  with j assms(1) show "p = 0 \<or> p = 1" by (auto simp: plot_def)
qed

lemma mod_bounds: "unat (w mod of_nat CHIP8_W :: u8) < 64" "unat (w mod of_nat CHIP8_H :: u8) < 32"
  by (simp_all add: unat_mod chip_consts)

text \<open>The whole instruction: what it draws, and when it refuses.\<close>

lemma exec_draw_spec:
  assumes "chip_inv c" "x < 16" "y < 16" "unat n < 16" "n = 0 \<or> span_ok (ch_i c) (unat n)"
  defines "on \<equiv> sprite_on c (unat (ch_v c ! x) mod 64) (unat (ch_v c ! y) mod 32) (unat n)"
  shows "\<exists>hit fb. exec_draw c x y n = Some (NSH_OK,
      c\<lparr>ch_v := (ch_v c)[VF := if hit \<noteq> 0 then 1 else 0], ch_fb := fb, ch_fb_dirty := True\<rparr>)
    \<and> plot on (ch_fb c) 0 (hit, fb)"
proof -
  have len: "length (ch_v c) = 16" "length (ch_mem c) = 4096" "length (ch_fb c) = 2048"
    using assms(1) by (simp_all add: chip_inv_def chip_consts)
  let ?x0 = "ch_v c ! x mod of_nat CHIP8_W" and ?y0 = "ch_v c ! y mod of_nat CHIP8_H"
  have xy: "unat ?x0 = unat (ch_v c ! x) mod 64" "unat ?y0 = unat (ch_v c ! y) mod 32"
    by (simp_all add: unat_mod chip_consts)
  obtain res where res: "draw_rows c ?x0 ?y0 [0..<unat n] 0 (ch_fb c) = Some res"
    "plot (\<lambda>j. sprite_on c (unat ?x0) (unat ?y0) (unat n) j \<and> unat ?y0 + 0 \<le> j div 64) (ch_fb c) 0 res"
  proof (cases "n = 0")
    case True
    have "plot (\<lambda>j. sprite_on c (unat ?x0) (unat ?y0) (unat n) j \<and> unat ?y0 + 0 \<le> j div 64) (ch_fb c) 0 (0, ch_fb c)"
      by (rule plot_none) (simp add: True sprite_on_def)
    with True that show ?thesis by simp
  next
    case False
    with assms(5) have "unat (ch_i c) + unat n \<le> 4096" by (simp add: span_ok_def chip_consts)
    from draw_rows_plot [where r = 0 and hit = 0, OF len(2) this assms(4) mod_bounds(1) mod_bounds(2) _ len(3)] that
    show ?thesis by blast
  qed
  moreover have "(\<lambda>j. sprite_on c (unat ?x0) (unat ?y0) (unat n) j \<and> unat ?y0 + 0 \<le> j div 64) = on"
    unfolding on_def xy by (auto simp: fun_eq_iff sprite_on_def chip_consts)
  moreover obtain hit fb where "res = (hit, fb)" by (cases res)
  moreover have "\<not> (n > 0 \<and> \<not> span_ok (ch_i c) (unat n))" using assms(5) by auto
  ultimately have "exec_draw c x y n = Some (NSH_OK,
      c\<lparr>ch_v := (ch_v c)[VF := if hit \<noteq> 0 then 1 else 0], ch_fb := fb, ch_fb_dirty := True\<rparr>)"
    "plot on (ch_fb c) 0 (hit, fb)"
    using assms(2,3) len by (simp_all add: exec_draw_def rd_def wr_def VF_def)
  then show ?thesis by blast
qed

lemma exec_draw_safe:
  assumes "chip_inv c" "x < 16" "y < 16" "unat n < 16"
  shows "chip_safe (exec_draw c x y n)"
proof (cases "n = 0 \<or> span_ok (ch_i c) (unat n)")
  case True
  from exec_draw_spec [OF assms True] obtain hit fb where
    "exec_draw c x y n = Some (NSH_OK, c\<lparr>ch_v := (ch_v c)[VF := if hit \<noteq> 0 then 1 else 0], ch_fb := fb,
      ch_fb_dirty := True\<rparr>)" "plot (sprite_on c (unat (ch_v c ! x) mod 64) (unat (ch_v c ! y) mod 32) (unat n))
      (ch_fb c) 0 (hit, fb)" by blast
  with plot_bits [OF this(2)] assms(1) show ?thesis by (auto simp: chip_inv_def plot_def)
next
  case False
  with assms(1) show ?thesis by (simp add: exec_draw_def word_gt_0)
qed

lemma exec_safe: "chip_inv c \<Longrightarrow> chip_safe (exec c op)"
proof -
  assume inv: "chip_inv c"
  then have len: "length (ch_v c) = 16" "length (ch_stack c) = 16" by (simp_all add: chip_inv_def chip_consts)
  have n: "unat (ucast (op AND 0xF) :: u8) < 16" by simp
  have call: "chip_safe (if unat (ch_sp c) \<ge> STACK_DEPTH then Some (NSH_ERR_INVALID, c)
            else do {
              st \<leftarrow> wr (ch_stack c) (unat (ch_sp c)) (ch_pc c);
              Some (NSH_OK, c\<lparr>ch_stack := st, ch_sp := ch_sp c + 1, ch_pc := nnn\<rparr>) })" for nnn
  proof (cases "unat (ch_sp c) \<ge> STACK_DEPTH")
    case False
    then have "unat (ch_sp c + 1) = unat (ch_sp c) + 1"
      by (simp add: unat_word_ariths(1) chip_consts)
    with False inv show ?thesis by (simp add: wr_def chip_inv_def chip_consts)
  qed (use inv in simp)
  have rand: "chip_inv (snd (next_rand c))" using inv by (simp add: next_rand_def Let_def)
  show ?thesis
    unfolding exec_def Let_def
    using inv call exec_system_safe [OF inv] exec_alu_safe [OF inv] exec_key_safe [OF inv]
      exec_misc_safe [OF inv] exec_draw_safe [OF inv] set_v_safe [OF inv] skip_next_safe [OF inv]
      set_v_safe [OF rand]
    by (simp add: rd_def len case_prod_beta)
qed

lemma step_safe: "chip_inv c \<Longrightarrow> chip_safe (cpu_step c)"
  using exec_safe [of "c\<lparr>ch_pc := ch_pc c + 2\<rparr>"]
  by (auto simp: cpu_step_def rd_def fetch_ok_def chip_consts chip_inv_def Let_def)

lemma tick_inv [nsh_inv]: "chip_inv c \<Longrightarrow> chip_inv (cpu_tick_timers c)"
  by (simp add: cpu_tick_timers_def Let_def)

lemma key_safe: "chip_inv c \<Longrightarrow> \<exists>c'. cpu_key_event c key down = Some c' \<and> chip_inv c'"
  by (auto simp: cpu_key_event_def Let_def set_v_def wr_def) (auto simp: chip_inv_def)

lemma init_inv: "chip_inv cpu_init"
  by (simp add: chip_inv_def cpu_init_def chip_consts k_font_def)

lemma load_safe: "chip_inv c \<Longrightarrow> chip_safe (cpu_load_rom c rom)"
  by (auto simp: cpu_load_rom_def blit_def chip_inv_def chip_consts split: option.splits)

section \<open>The machine as a transition system\<close>

text \<open>What the emulator loop does to the machine: load a program, step, tick, feed keys.\<close>

inductive chip_reach :: "Chip8 \<Rightarrow> bool" where
  reach_load: "cpu_load_rom cpu_init rom = Some (NSH_OK, c) \<Longrightarrow> chip_reach c"
| reach_step: "chip_reach c \<Longrightarrow> cpu_step c = Some (e, c') \<Longrightarrow> chip_reach c'"
| reach_tick: "chip_reach c \<Longrightarrow> chip_reach (cpu_tick_timers c)"
| reach_key: "chip_reach c \<Longrightarrow> cpu_key_event c key down = Some c' \<Longrightarrow> chip_reach c'"
| reach_draw: "chip_reach c \<Longrightarrow> chip_reach (c\<lparr>ch_fb_dirty := False\<rparr>)"

lemma chip_reach_inv: "chip_reach c \<Longrightarrow> chip_inv c"
proof (induction rule: chip_reach.induct)
  case (reach_load rom c)
  then show ?case using load_safe [OF init_inv, of rom] by simp
next
  case (reach_step c e c')
  then show ?case using step_safe [of c] by simp
next
  case (reach_key c key down c')
  then show ?case using key_safe [of c key down] by auto
qed (simp_all add: tick_inv)

text \<open>C10: In every state the machine can reach from any program and any sequence of steps, timer
  ticks and key events, the next step and the next key event access memory, registers, stack and
  framebuffer only inside their bounds, whatever the opcode: the interpreter never makes an
  out-of-range access.\<close>

theorem cpu_never_out_of_bounds:
  assumes "chip_reach c"
  shows "cpu_step c \<noteq> None \<and> cpu_key_event c key down \<noteq> None \<and> chip_inv c"
  using step_safe [OF chip_reach_inv [OF assms]] key_safe [OF chip_reach_inv [OF assms], of key down]
    chip_reach_inv [OF assms] by (cases "cpu_step c") (auto simp: chip_safe_def)

lemma cpu_never_out_of_bounds_witness:
  "chip_inv (cpu_tick_timers (cpu_init\<lparr>ch_mem := take 0x200 (ch_mem cpu_init) @ [0x12, 0x00]
      @ drop 0x202 (ch_mem cpu_init)\<rparr>))"
proof -
  have "cpu_load_rom cpu_init (Some [0x12, 0x00]) = Some (NSH_OK,
      cpu_init\<lparr>ch_mem := take 0x200 (ch_mem cpu_init) @ [0x12, 0x00] @ drop 0x202 (ch_mem cpu_init)\<rparr>)"
    by (simp add: cpu_load_rom_def blit_def chip_consts cpu_init_def k_font_def)
  from cpu_never_out_of_bounds [OF reach_tick [OF reach_load [OF this]]] show ?thesis by blast
qed

section \<open>What the instructions compute\<close>

text \<open>C21: A sprite flips exactly the pixels its set bits cover, the start wrapped to the screen and the
  rest clipped at the edges, and VF tells whether a lit pixel was turned off; nothing else on the
  screen changes.\<close>

theorem exec_draw_flips_sprite:
  assumes "chip_inv c" "x < 16" "y < 16" "unat n < 16" "n = 0 \<or> unat (ch_i c) + unat n \<le> CHIP8_MEM"
  shows "\<exists>c'. exec_draw c x y n = Some (NSH_OK, c')
    \<and> (\<forall>j < CHIP8_W * CHIP8_H. ch_fb c' ! j
        = (if sprite_on c (unat (ch_v c ! x) mod CHIP8_W) (unat (ch_v c ! y) mod CHIP8_H) (unat n) j
           then ch_fb c ! j XOR 1 else ch_fb c ! j))
    \<and> (ch_v c' ! VF = 1 \<longleftrightarrow> (\<exists>j < CHIP8_W * CHIP8_H. ch_fb c ! j = 1 \<and> ch_fb c' ! j = 0))"
proof -
  have sp: "n = 0 \<or> span_ok (ch_i c) (unat n)" using assms(5) by (simp add: span_ok_def)
  obtain hit fb where d: "exec_draw c x y n = Some (NSH_OK,
      c\<lparr>ch_v := (ch_v c)[VF := if hit \<noteq> 0 then 1 else 0], ch_fb := fb, ch_fb_dirty := True\<rparr>)"
    and p: "plot (sprite_on c (unat (ch_v c ! x) mod 64) (unat (ch_v c ! y) mod 32) (unat n)) (ch_fb c) 0 (hit, fb)"
    using exec_draw_spec [OF assms(1-4) sp] by blast
  have len: "length (ch_fb c) = 2048" "length (ch_v c) = 16"
    and bits: "j < 2048 \<Longrightarrow> ch_fb c ! j = 0 \<or> ch_fb c ! j = 1" for j
    using assms(1) by (auto simp: chip_inv_def chip_consts)
  have "(\<exists>j < 2048. sprite_on c (unat (ch_v c ! x) mod 64) (unat (ch_v c ! y) mod 32) (unat n) j \<and> ch_fb c ! j \<noteq> 0)
      \<longleftrightarrow> (\<exists>j < 2048. ch_fb c ! j = 1 \<and> fb ! j = 0)"
    using p len bits by (auto simp: plot_def) (metis xor_self_eq zero_neq_one)+
  with d p len show ?thesis by (simp add: plot_def VF_def chip_consts)
qed

lemma exec_draw_flips_sprite_witness:
  "\<exists>c'. exec_draw cpu_init 0 1 5 = Some (NSH_OK, c')
    \<and> (ch_v c' ! VF = 1 \<longleftrightarrow> (\<exists>j < CHIP8_W * CHIP8_H. ch_fb cpu_init ! j = 1 \<and> ch_fb c' ! j = 0))"
  using exec_draw_flips_sprite [OF init_inv, of 0 1 5] by (auto simp: cpu_init_def chip_consts)

text \<open>Drawing the same sprite twice at the same place restores the screen.\<close>

theorem exec_draw_twice:
  assumes "chip_inv c" "x < 15" "y < 15" "unat n < 16"
    and "exec_draw c x y n = Some (NSH_OK, c1)" "exec_draw c1 x y n = Some (NSH_OK, c2)"
  shows "ch_fb c2 = ch_fb c"
proof (cases "n = 0 \<or> span_ok (ch_i c) (unat n)")
  case False
  with assms(5) show ?thesis by (simp add: exec_draw_def word_gt_0)
next
  case sp: True
  have xy: "x < 16" "y < 16" using assms(2,3) by simp_all
  obtain hit fb where d: "c1 = c\<lparr>ch_v := (ch_v c)[VF := if hit \<noteq> 0 then 1 else 0], ch_fb := fb, ch_fb_dirty := True\<rparr>"
    and p: "plot (sprite_on c (unat (ch_v c ! x) mod 64) (unat (ch_v c ! y) mod 32) (unat n)) (ch_fb c) 0 (hit, fb)"
    using exec_draw_spec [OF assms(1) xy assms(4) sp] assms(5) by auto
  have inv1: "chip_inv c1" using exec_draw_safe [OF assms(1) xy assms(4)] assms(5) by simp
  have same: "ch_v c1 ! x = ch_v c ! x" "ch_v c1 ! y = ch_v c ! y" "ch_i c1 = ch_i c"
    "sprite_on c1 = sprite_on c"
    using assms(2,3) by (auto simp: d VF_def sprite_on_def fun_eq_iff)
  have sp1: "n = 0 \<or> span_ok (ch_i c1) (unat n)" using sp same(3) by simp
  obtain hit2 fb2 where e: "exec_draw c1 x y n = Some (NSH_OK,
      c1\<lparr>ch_v := (ch_v c1)[VF := if hit2 \<noteq> 0 then 1 else 0], ch_fb := fb2, ch_fb_dirty := True\<rparr>)"
    and p2: "plot (sprite_on c1 (unat (ch_v c1 ! x) mod 64) (unat (ch_v c1 ! y) mod 32) (unat n)) (ch_fb c1) 0 (hit2, fb2)"
    using exec_draw_spec [OF inv1 xy assms(4) sp1] by blast
  have "ch_fb c2 = fb2" "ch_fb c1 = fb" using e assms(6) d by auto
  with p p2 show ?thesis
    unfolding same by (intro nth_equalityI) (auto simp: plot_def xor.assoc)
qed

lemma exec_draw_twice_witness:
  "(case exec_draw cpu_init 0 1 5 of Some (NSH_OK, c1) \<Rightarrow>
      (case exec_draw c1 0 1 5 of Some (NSH_OK, c2) \<Rightarrow> ch_fb c2 = ch_fb cpu_init | _ \<Rightarrow> False) | _ \<Rightarrow> False)"
proof -
  have sp: "(5 :: u8) = 0 \<or> span_ok (ch_i cpu_init) (unat (5 :: u8))" "unat (5 :: u8) < 16"
    by (simp_all add: span_ok_def cpu_init_def chip_consts)
  obtain c1 where c1: "exec_draw cpu_init 0 1 5 = Some (NSH_OK, c1)" "ch_i c1 = ch_i cpu_init"
    using exec_draw_spec [OF init_inv _ _ sp(2,1), of 0 1] by auto
  have inv1: "chip_inv c1" using exec_draw_safe [OF init_inv _ _ sp(2), of 0 1] c1 by simp
  obtain c2 where c2: "exec_draw c1 0 1 5 = Some (NSH_OK, c2)"
    using exec_draw_spec [OF inv1 _ _ sp(2), of 0 1] sp(1) c1(2) by auto
  have "ch_fb c2 = ch_fb cpu_init"
    by (rule exec_draw_twice [OF init_inv _ _ sp(2) c1(1) c2]) simp_all
  with c1 c2 show ?thesis by simp
qed

lemma byte_arith:
  fixes a b :: int
  assumes "0 \<le> a" "a < 256" "0 \<le> b" "b < 256"
  shows "256 * (if 255 < a + b then 1 else 0) + (a + b) mod 256 = a + b"
    and "(a - b) mod 256 = a - b + 256 * (1 - (if b \<le> a then 1 else 0))"
    and "a div 128 mod 2 \<in> {0, 1}"
    and "256 * (a div 128 mod 2) + 2 * a mod 256 = 2 * a"
    and "2 * (a div 2) + a mod 2 = a"
proof -
  have wrap: "x mod 256 = x - 256" if "256 \<le> x" "x < 512" for x :: int
  proof -
    have "x mod 256 = (x - 256) mod 256" by simp
    also have "\<dots> = x - 256" by (rule mod_pos_pos_trivial) (use that in simp_all)
    finally show ?thesis .
  qed
  show "256 * (if 255 < a + b then 1 else 0) + (a + b) mod 256 = a + b"
    using assms wrap [of "a + b"] by (simp add: mod_pos_pos_trivial)
  have wrap_neg: "(a - b) mod 256 = a - b + 256" if "\<not> b \<le> a"
  proof -
    have "(a - b) mod 256 = (a - b + 256) mod 256" by simp
    also have "\<dots> = a - b + 256" by (rule mod_pos_pos_trivial) (use that assms in simp_all)
    finally show ?thesis .
  qed
  show "(a - b) mod 256 = a - b + 256 * (1 - (if b \<le> a then 1 else 0))"
    using assms by (cases "b \<le> a") (simp_all add: mod_pos_pos_trivial wrap_neg)
  show "256 * (a div 128 mod 2) + 2 * a mod 256 = 2 * a"
  proof (cases "a < 128")
    case True
    with assms show ?thesis by (simp add: div_pos_pos_trivial mod_pos_pos_trivial)
  next
    case False
    with assms have "a div 128 = 1" by (simp add: div_pos_geq div_pos_pos_trivial)
    with False assms wrap [of "2 * a"] show ?thesis by simp
  qed
qed (auto simp: mult_div_mod_eq)

text \<open>For every pair of operand bytes and a destination other than VF, addition leaves result and
  carry, the subtractions leave the difference and not-borrow, and the shifts leave the half or
  double and the bit shifted out, as exact equations over the integers.\<close>

theorem exec_alu_arithmetic:
  assumes "chip_inv c" "x < 15" "y < 16" "n \<in> {4, 5, 6, 7, 0xE}"
  shows "\<exists>c'. exec_alu c x y n = Some (NSH_OK, c') \<and>
    (let a = uint (ch_v c ! x); b = uint (ch_v c ! y); r = uint (ch_v c' ! x); f = uint (ch_v c' ! VF)
     in f \<in> {0, 1} \<and>
        (if n = 4 then 256 * f + r = a + b
         else if n = 5 then r = a - b + 256 * (1 - f) \<and> (f = 1 \<longleftrightarrow> b \<le> a)
         else if n = 6 then 2 * r + f = a
         else if n = 7 then r = b - a + 256 * (1 - f) \<and> (f = 1 \<longleftrightarrow> a \<le> b)
         else 256 * f + r = 2 * a))"
proof -
  have len: "length (ch_v c) = 16" using assms(1) by (simp add: chip_inv_def)
  let ?a = "ch_v c ! x" and ?b = "ch_v c ! y"
  have bounds: "uint ?a < 256" "uint ?b < 256" "0 \<le> uint ?a" "0 \<le> uint ?b"
    using uint_lt2p [of ?a] uint_lt2p [of ?b] by simp_all
  have run: "exec_alu c x y n = (let fl = (\<lambda>res f. Some (NSH_OK, c\<lparr>ch_v := (ch_v c)[x := res, VF := f]\<rparr>))
     in if n = 4 then fl (?a + ?b) (if 0xFF < (ucast ?a + ucast ?b :: u16) then 1 else 0)
        else if n = 5 then fl (?a - ?b) (if ?b \<le> ?a then 1 else 0)
        else if n = 6 then fl (drop_bit 1 ?a) (?a AND 1)
        else if n = 7 then fl (?b - ?a) (if ?a \<le> ?b then 1 else 0)
        else fl (push_bit 1 ?a) (drop_bit 7 ?a AND 1))"
    using assms(2-4) by (auto simp: exec_alu_def rd_def wr_def len VF_def)
  have get: "(ch_v c)[x := res, VF := f] ! x = res" "(ch_v c)[x := res, VF := f] ! VF = f" for res f
    using assms(2) by (simp_all add: len VF_def)
  have add: "uint (?a + ?b) = (uint ?a + uint ?b) mod 256"
    "(0xFF < (ucast ?a + ucast ?b :: u16)) \<longleftrightarrow> 255 < uint ?a + uint ?b"
    using bounds by (simp_all add: uint_word_ariths word_less_def unsigned_ucast_eq take_bit_eq_mod)
  have sub: "uint (?a - ?b) = (uint ?a - uint ?b) mod 256" "uint (?b - ?a) = (uint ?b - uint ?a) mod 256"
    by (simp_all add: uint_word_ariths)
  have shr: "uint (drop_bit 1 ?a) = uint ?a div 2" "uint (?a AND 1) = uint ?a mod 2"
    by (simp_all add: unsigned_drop_bit_eq drop_bit_Suc uint_and and_one_eq take_bit_eq_mod uint_div uint_mod)
  have shl: "uint (push_bit 1 ?a) = (2 * uint ?a) mod 256" "uint (drop_bit 7 ?a AND 1) = uint ?a div 128 mod 2"
    by (simp_all add: unsigned_push_bit_eq push_bit_eq_mult unsigned_drop_bit_eq drop_bit_eq_div uint_and and_one_eq
        take_bit_eq_mod uint_word_ariths uint_div uint_mod mult.commute)
  note ar = byte_arith
  note ab = ar [OF bounds(3,1,4,2)] and ba = ar [OF bounds(4,2,3,1)]
  note facts = Let_def get
  consider "n = 4" | "n = 5" | "n = 6" | "n = 7" | "n = 0xE" using assms(4) by auto
  then show ?thesis
  proof cases
    case 1
    show ?thesis
    proof (cases "255 < uint ?a + uint ?b")
      case True
      with 1 ab(1) show ?thesis unfolding run by (simp add: facts add)
    next
      case False
      with 1 ab(1) show ?thesis unfolding run by (simp add: facts add)
    qed
  next
    case 2
    show ?thesis
    proof (cases "uint ?b \<le> uint ?a")
      case True
      with 2 ab(2) show ?thesis unfolding run by (simp add: facts sub word_le_def)
    next
      case False
      with 2 ab(2) show ?thesis unfolding run by (simp add: facts sub word_le_def)
    qed
  next
    case 3
    define r f where "r = drop_bit 1 ?a" and "f = ?a AND 1"
    have "uint r = uint ?a div 2" "uint f = uint ?a mod 2" using shr by (simp_all only: r_def f_def)
    moreover have "exec_alu c x y n = Some (NSH_OK, c\<lparr>ch_v := (ch_v c)[x := r, VF := f]\<rparr>)"
      unfolding run using 3 by (simp add: Let_def r_def f_def)
    moreover have "uint ?a mod 2 \<in> {0, 1}" by auto
    ultimately show ?thesis using 3 ab(5) by (simp add: Let_def get)
  next
    case 4
    show ?thesis
    proof (cases "uint ?a \<le> uint ?b")
      case True
      with 4 ba(2) show ?thesis unfolding run by (simp add: facts sub word_le_def)
    next
      case False
      with 4 ba(2) show ?thesis unfolding run by (simp add: facts sub word_le_def)
    qed
  next
    case 5
    define r f where "r = push_bit 1 ?a" and "f = drop_bit 7 ?a AND 1"
    have "uint r = 2 * uint ?a mod 256" "uint f = uint ?a div 128 mod 2" using shl by (simp_all only: r_def f_def)
    moreover have "exec_alu c x y n = Some (NSH_OK, c\<lparr>ch_v := (ch_v c)[x := r, VF := f]\<rparr>)"
      unfolding run using 5 by (simp add: Let_def r_def f_def)
    ultimately show ?thesis using 5 ab(3,4) by (auto simp: Let_def get)
  qed
qed

lemma exec_alu_arithmetic_witness:
  "\<exists>c'. exec_alu (cpu_init\<lparr>ch_v := replicate 16 200\<rparr>) 2 3 4 = Some (NSH_OK, c')
    \<and> 256 * uint (ch_v c' ! VF) + uint (ch_v c' ! 2) = 400"
proof -
  have "chip_inv (cpu_init\<lparr>ch_v := replicate 16 200\<rparr>)" by (rule inv_v [OF init_inv]) simp
  from exec_alu_arithmetic [OF this, of 2 3 4] show ?thesis by (auto simp: Let_def)
qed

text \<open>Storing a register as decimal writes its hundreds, tens and units, and changes no other byte
  of memory.\<close>

theorem exec_misc_bcd:
  assumes "chip_inv c" "x < 16" "unat (ch_i c) + 3 \<le> CHIP8_MEM"
  shows "\<exists>c'. exec_misc c x 0x33 = Some (NSH_OK, c')
    \<and> 100 * unat (ch_mem c' ! unat (ch_i c)) + 10 * unat (ch_mem c' ! (unat (ch_i c) + 1))
       + unat (ch_mem c' ! (unat (ch_i c) + 2)) = unat (ch_v c ! x)
    \<and> unat (ch_mem c' ! unat (ch_i c)) < 10 \<and> unat (ch_mem c' ! (unat (ch_i c) + 1)) < 10
    \<and> unat (ch_mem c' ! (unat (ch_i c) + 2)) < 10
    \<and> take (unat (ch_i c)) (ch_mem c') = take (unat (ch_i c)) (ch_mem c)
    \<and> drop (unat (ch_i c) + 3) (ch_mem c') = drop (unat (ch_i c) + 3) (ch_mem c)"
proof -
  have len: "length (ch_v c) = 16" "length (ch_mem c) = 4096"
    using assms(1) by (simp_all add: chip_inv_def chip_consts)
  have i: "unat (ch_i c) + 3 \<le> 4096" using assms(3) by (simp add: chip_consts)
  let ?u = "unat (ch_v c ! x)" and ?k = "unat (ch_i c)"
  let ?m = "(ch_mem c)[?k := ch_v c ! x div 100, ?k + 1 := ch_v c ! x div 10 mod 10, ?k + 2 := ch_v c ! x mod 10]"
  have sp: "span_ok (ch_i c) 3" using i by (simp add: span_ok_def chip_consts)
  have run: "exec_misc c x 0x33 = Some (NSH_OK, c\<lparr>ch_mem := ?m\<rparr>)"
    using assms(2) i sp by (simp add: exec_misc_def rd_Some wr_Some len)
  have get: "?m ! ?k = ch_v c ! x div 100" "?m ! (?k + 1) = ch_v c ! x div 10 mod 10" "?m ! (?k + 2) = ch_v c ! x mod 10"
    using i len by simp_all
  have small: "?u < 256" using unsigned_less [where ?'a = nat, of "ch_v c ! x"] by simp
  have digits: "100 * (u div 100) + 10 * (u div 10 mod 10) + u mod 10 = u" for u :: nat
  proof -
    have "u div 10 = 10 * (u div 100) + u div 10 mod 10"
      using div_mult_mod_eq [of "u div 10" 10] by (simp add: div_mult2_eq [symmetric])
    then show ?thesis using div_mult_mod_eq [of u 10] by linarith
  qed
  have dig: "100 * (?u div 100) + 10 * (?u div 10 mod 10) + ?u mod 10 = ?u" by (rule digits)
  have dig2: "?u div 100 < 10" using small by simp
  have frame: "take ?k ?m = take ?k (ch_mem c)" "drop (?k + 3) ?m = drop (?k + 3) (ch_mem c)" by simp_all
  have vals: "unat (ch_v c ! x div 100) = ?u div 100" "unat (ch_v c ! x div 10 mod 10) = ?u div 10 mod 10"
    "unat (ch_v c ! x mod 10) = ?u mod 10"
    by (simp_all add: unat_div unat_mod)
  have mem: "ch_mem (c\<lparr>ch_mem := ?m\<rparr>) = ?m" by simp
  show ?thesis
    by (rule exI [of _ "c\<lparr>ch_mem := ?m\<rparr>"]) (simp only: run mem get vals dig dig2 frame mod_less_divisor zero_less_numeral simp_thms)
qed

lemma exec_misc_bcd_witness:
  "\<exists>c'. exec_misc (cpu_init\<lparr>ch_v := replicate 16 217\<rparr>) 4 0x33 = Some (NSH_OK, c') \<and> unat (ch_mem c' ! 0) < 10"
proof -
  have "chip_inv (cpu_init\<lparr>ch_v := replicate 16 217\<rparr>)" by (rule inv_v [OF init_inv]) simp
  moreover have "ch_i cpu_init = 0" by (simp add: cpu_init_def)
  ultimately show ?thesis
    using exec_misc_bcd [of "cpu_init\<lparr>ch_v := replicate 16 217\<rparr>" 4] by (auto simp: chip_consts)
qed

text \<open>A subroutine call followed by a return goes back to the instruction behind the call, with
  the stack depth as before; a seventeenth nested call is refused.\<close>

theorem exec_call_return:
  assumes "chip_inv c" "drop_bit 12 op = 2"
  shows "if unat (ch_sp c) = STACK_DEPTH then exec c op = Some (NSH_ERR_INVALID, c)
    else \<exists>c1 c2. exec c op = Some (NSH_OK, c1) \<and> ch_pc c1 = op AND 0x0FFF
      \<and> exec c1 0x00EE = Some (NSH_OK, c2) \<and> ch_pc c2 = ch_pc c \<and> ch_sp c2 = ch_sp c
      \<and> take (unat (ch_sp c)) (ch_stack c2) = take (unat (ch_sp c)) (ch_stack c)"
proof -
  have sp: "unat (ch_sp c) \<le> 16" "length (ch_stack c) = 16"
    using assms(1) by (simp_all add: chip_inv_def chip_consts)
  show ?thesis
  proof (cases "unat (ch_sp c) = STACK_DEPTH")
    case True
    with assms(2) show ?thesis by (simp add: exec_def)
  next
    case False
    then have lt: "unat (ch_sp c) < 16" using sp(1) by (simp add: chip_consts)
    have up: "unat (ch_sp c + 1) = unat (ch_sp c) + 1" using lt by (simp add: unat_word_ariths(1))
    then have ne: "ch_sp c + 1 \<noteq> 0" by (metis Suc_eq_plus1 nat.distinct(1) unat_0)
    have k0: "drop_bit 12 (0x00EE :: u16) = 0" by simp
    show ?thesis
      using False lt sp(2) assms(2) ne
      by (simp add: exec_def exec_system_def wr_def rd_def chip_consts k0)
  qed
qed

lemma exec_call_return_witness:
  "\<exists>c1 c2. exec cpu_init 0x2ABC = Some (NSH_OK, c1) \<and> exec c1 0x00EE = Some (NSH_OK, c2) \<and> ch_pc c2 = ch_pc cpu_init"
proof -
  have "drop_bit 12 (0x2ABC :: u16) = 2" "unat (ch_sp cpu_init) \<noteq> STACK_DEPTH"
    by (simp_all add: cpu_init_def chip_consts)
  with exec_call_return [OF init_inv this(1)] show ?thesis by auto
qed

end
