(* ===== verification/Display.thy ===== *)
theory Display
  imports Cpu
begin

text \<open>
  \<open>src/emu/display.c\<close> and \<open>keypad.c\<close>: the framebuffer as text and the keyboard layout. The output
  \<open>Str\<close> is its bytes: it is cleared first and then only appended to.
\<close>

section \<open>Rendering\<close>

definition CELL_FULL :: string where "CELL_FULL = [CHR 0xE2, CHR 0x96, CHR 0x88]"
definition CELL_UPPER :: string where "CELL_UPPER = [CHR 0xE2, CHR 0x96, CHR 0x80]"
definition CELL_LOWER :: string where "CELL_LOWER = [CHR 0xE2, CHR 0x96, CHR 0x84]"
definition ESC_HOME :: string where "ESC_HOME = ESC # ''[H''"

definition cell_for :: "bool \<Rightarrow> bool \<Rightarrow> string" where
  "cell_for upper lower =
     (if upper \<and> lower then CELL_FULL else if upper then CELL_UPPER else if lower then CELL_LOWER
      else '' '')"

fun render_cols :: "u8 list \<Rightarrow> nat \<Rightarrow> nat list \<Rightarrow> string \<Rightarrow> string" where
  "render_cols fb y [] out = out"
| "render_cols fb y (x # xs) out =
     render_cols fb y xs
       (out @ cell_for (fb ! (y * CHIP8_W + x) \<noteq> 0) (fb ! ((y + 1) * CHIP8_W + x) \<noteq> 0))"

fun render_rows :: "u8 list \<Rightarrow> nat list \<Rightarrow> string \<Rightarrow> string" where
  "render_rows fb [] out = out"
| "render_rows fb (k # ks) out =
     render_rows fb ks (render_cols fb (2 * k) [0..<CHIP8_W] out @ [NEWLINE])"

text \<open>The row loop counts in steps of two.\<close>

definition display_render :: "u8 list \<Rightarrow> string" where
  "display_render fb = render_rows fb [0..<CHIP8_H div 2] ESC_HOME"

fun ascii_cols :: "u8 list \<Rightarrow> nat \<Rightarrow> nat list \<Rightarrow> string \<Rightarrow> string" where
  "ascii_cols fb y [] out = out"
| "ascii_cols fb y (x # xs) out =
     ascii_cols fb y xs (out @ [if fb ! (y * CHIP8_W + x) \<noteq> 0 then CHR ''#'' else CHR ''.''])"

fun ascii_rows :: "u8 list \<Rightarrow> nat list \<Rightarrow> string \<Rightarrow> string" where
  "ascii_rows fb [] out = out"
| "ascii_rows fb (y # ys) out = ascii_rows fb ys (ascii_cols fb y [0..<CHIP8_W] out @ [NEWLINE])"

definition display_render_ascii :: "u8 list \<Rightarrow> string" where
  "display_render_ascii fb = ascii_rows fb [0..<CHIP8_H] []"

section \<open>The keypad\<close>

definition keypad_map :: "char \<Rightarrow> int" where
  "keypad_map ch =
     (if ch = CHR ''1'' then 0x1
      else if ch = CHR ''2'' then 0x2
      else if ch = CHR ''3'' then 0x3
      else if ch = CHR ''4'' then 0xC
      else if ch = CHR ''q'' \<or> ch = CHR ''Q'' then 0x4
      else if ch = CHR ''w'' \<or> ch = CHR ''W'' then 0x5
      else if ch = CHR ''e'' \<or> ch = CHR ''E'' then 0x6
      else if ch = CHR ''r'' \<or> ch = CHR ''R'' then 0xD
      else if ch = CHR ''a'' \<or> ch = CHR ''A'' then 0x7
      else if ch = CHR ''s'' \<or> ch = CHR ''S'' then 0x8
      else if ch = CHR ''d'' \<or> ch = CHR ''D'' then 0x9
      else if ch = CHR ''f'' \<or> ch = CHR ''F'' then 0xE
      else if ch = CHR ''z'' \<or> ch = CHR ''Z'' then 0xA
      else if ch = CHR ''x'' \<or> ch = CHR ''X'' then 0x0
      else if ch = CHR ''c'' \<or> ch = CHR ''C'' then 0xB
      else if ch = CHR ''v'' \<or> ch = CHR ''V'' then 0xF
      else - 1)"

section \<open>The picture can be read back\<close>

text \<open>A reader of the half-block text: the pixel pairs, cell by cell.\<close>

fun read_cells :: "string \<Rightarrow> (bool \<times> bool) list" where
  "read_cells (a # s) =
     (if a = CHR 0xE2 then (case s of
          b # c # r \<Rightarrow> (c \<noteq> CHR 0x84, c \<noteq> CHR 0x80) # read_cells r
        | _ \<Rightarrow> [])
      else if a = CHR '' '' then (False, False) # read_cells s
      else read_cells s)"
| "read_cells [] = []"

definition pixel_pairs :: "u8 list \<Rightarrow> nat \<Rightarrow> (bool \<times> bool) list" where
  "pixel_pairs fb k = map (\<lambda>x. (fb ! (2 * k * CHIP8_W + x) \<noteq> 0, fb ! ((2 * k + 1) * CHIP8_W + x) \<noteq> 0)) [0..<CHIP8_W]"

lemma read_cells_cell: "read_cells (cell_for t b @ r) = (t, b) # read_cells r"
  by (auto simp: cell_for_def CELL_FULL_def CELL_UPPER_def CELL_LOWER_def)

lemma render_cols_append: "render_cols fb y xs out
   = out @ concat (map (\<lambda>x. cell_for (fb ! (y * CHIP8_W + x) \<noteq> 0) (fb ! ((y + 1) * CHIP8_W + x) \<noteq> 0)) xs)"
  by (induction xs arbitrary: out) auto

lemma render_rows_append: "render_rows fb ks out = out @ concat (map (\<lambda>k. render_cols fb (2 * k) [0..<CHIP8_W] [] @ [NEWLINE]) ks)"
proof (induction ks arbitrary: out)
  case (Cons k ks)
  then show ?case by (simp add: render_cols_append [of _ _ _ out] render_cols_append [of _ _ _ "[]"])
qed simp

lemma read_cells_cols: "read_cells (concat (map (\<lambda>x. cell_for (p x) (q x)) xs) @ r) = map (\<lambda>x. (p x, q x)) xs @ read_cells r"
  by (induction xs) (simp_all add: read_cells_cell)

lemma read_cells_rows:
  "read_cells (concat (map (\<lambda>k. render_cols fb (2 * k) [0..<CHIP8_W] [] @ [NEWLINE]) ks)) = concat (map (pixel_pairs fb) ks)"
  by (induction ks) (simp_all add: render_cols_append read_cells_cols pixel_pairs_def)

text \<open>The half-block picture shows every pixel: reading its cells back gives, row pair by row pair
  and column by column, whether the upper and the lower pixel are lit.\<close>

theorem display_render_shows_pixels:
  "read_cells (display_render fb) = concat (map (pixel_pairs fb) [0..<CHIP8_H div 2])"
  unfolding display_render_def render_rows_append
  by (simp add: ESC_HOME_def read_cells_rows del: upt_Suc)

lemma ascii_cols_append: "ascii_cols fb y xs out
   = out @ map (\<lambda>x. if fb ! (y * CHIP8_W + x) \<noteq> 0 then CHR ''#'' else CHR ''.'') xs"
  by (induction xs arbitrary: out) auto

definition ascii_line :: "u8 list \<Rightarrow> nat \<Rightarrow> string" where
  "ascii_line fb y = map (\<lambda>x. if fb ! (y * CHIP8_W + x) \<noteq> 0 then CHR ''#'' else CHR ''.'') [0..<CHIP8_W] @ [NEWLINE]"

lemma ascii_rows_append: "ascii_rows fb ys out = out @ concat (map (ascii_line fb) ys)"
  by (induction ys arbitrary: out) (auto simp: ascii_cols_append ascii_line_def)

lemma concat_same_length_nth:
  assumes "\<forall>l\<in>set ls. length l = n" "i < length ls" "j < n"
  shows "concat ls ! (i * n + j) = ls ! i ! j"
  using assms
proof (induction ls arbitrary: i)
  case (Cons l ls)
  then show ?case by (cases i) (auto simp: nth_append add.assoc)
qed simp

text \<open>In the plain rendering, the character in line y and column x is a hash sign exactly when that
  pixel is lit and a dot otherwise, with a newline after every 64 columns.\<close>

theorem display_render_ascii_pixel:
  assumes "y < CHIP8_H" "x < CHIP8_W"
  shows "display_render_ascii fb ! (y * (CHIP8_W + 1) + x)
      = (if fb ! (y * CHIP8_W + x) = 0 then CHR ''.'' else CHR ''#'')
    \<and> display_render_ascii fb ! (y * (CHIP8_W + 1) + CHIP8_W) = NEWLINE"
proof -
  have eq: "display_render_ascii fb = concat (map (ascii_line fb) [0..<CHIP8_H])"
    by (simp add: display_render_ascii_def ascii_rows_append)
  have len: "\<forall>l\<in>set (map (ascii_line fb) [0..<CHIP8_H]). length l = CHIP8_W + 1"
    by (auto simp: ascii_line_def)
  have line: "map (ascii_line fb) [0..<CHIP8_H] ! y = ascii_line fb y" using assms(1) by simp
  show ?thesis
    unfolding eq using assms concat_same_length_nth [OF len, of y x] concat_same_length_nth [OF len, of y CHIP8_W]
    by (simp only: line length_map length_upt) (simp add: ascii_line_def nth_append)
qed

lemma display_render_ascii_pixel_witness:
  "display_render_ascii (replicate 2048 1) ! 0 = CHR ''#'' \<and> display_render_ascii (replicate 2048 1) ! 64 = NEWLINE"
  using display_render_ascii_pixel [of 0 0 "replicate 2048 1"] by (simp add: chip_consts)

text \<open>The sixteen keypad keys are all reachable from the keyboard, and the map never yields a key the
  machine does not have: every other character is \<open>-1\<close>, which the machine ignores.\<close>

theorem keypad_map_keys:
  "range keypad_map = {- 1..15} \<and> cpu_key_event c (- 1) down = Some c"
proof
  have "keypad_map ` {CHR ''1'', CHR ''2'', CHR ''3'', CHR ''4'', CHR ''q'', CHR ''w'', CHR ''e'', CHR ''r'',
      CHR ''a'', CHR ''s'', CHR ''d'', CHR ''f'', CHR ''z'', CHR ''x'', CHR ''c'', CHR ''v'', CHR '' ''} = {- 1..15}"
    unfolding keypad_map_def by (simp add: atLeastAtMost_insertL) (auto simp: atLeastAtMost_def, presburger)
  moreover have "keypad_map ch \<in> {- 1..15}" for ch by (auto simp: keypad_map_def)
  ultimately show "range keypad_map = {- 1..15}" by blast
qed (simp add: cpu_key_event_def)

end
