(* ===== verification/Netmon.thy ===== *)
theory Netmon
  imports Prelude
begin

unbundle bit_operations_syntax

text \<open>
  \<open>src/netmon\<close>: the frame decoder, the packet filter, the one-line printer, the argument parser
  and the capture loop. A pointer into a frame is the list of bytes from it to the end of the
  buffer; a read behind the end is \<open>None\<close>, which no call with an honest length may produce. The
  socket is the sequence of results \<open>recv\<close> gives.
\<close>

section \<open>Headers\<close>

record EthHeader =
  eth_dst :: "u8 list"
  eth_src :: "u8 list"
  eth_ethertype :: u16

record Ipv4Header =
  ip_ihl :: u8
  ip_ttl :: u8
  ip_protocol :: u8
  ip_total_len :: u16
  ip_src :: "u8 list"
  ip_dst :: "u8 list"

definition TCP_FIN :: u8 where "TCP_FIN = 0x01"
definition TCP_SYN :: u8 where "TCP_SYN = 0x02"
definition TCP_RST :: u8 where "TCP_RST = 0x04"
definition TCP_PSH :: u8 where "TCP_PSH = 0x08"
definition TCP_ACK :: u8 where "TCP_ACK = 0x10"

record TcpHeader =
  tcp_sport :: u16
  tcp_dport :: u16
  tcp_seq :: u32
  tcp_ack :: u32
  tcp_flags :: u8

record UdpHeader =
  udp_sport :: u16
  udp_dport :: u16
  udp_len :: u16

datatype NmProto = NM_NONE | NM_TCP | NM_UDP | NM_OTHER_IP

record Packet =
  pk_eth :: EthHeader
  pk_has_ip :: bool
  pk_ip :: Ipv4Header
  pk_proto :: NmProto
  pk_tcp :: TcpHeader
  pk_udp :: UdpHeader
  pk_frame_len :: nat

definition zero_eth :: EthHeader where
  "zero_eth = \<lparr>eth_dst = replicate 6 0, eth_src = replicate 6 0, eth_ethertype = 0\<rparr>"
definition zero_ip :: Ipv4Header where
  "zero_ip = \<lparr>ip_ihl = 0, ip_ttl = 0, ip_protocol = 0, ip_total_len = 0, ip_src = replicate 4 0, ip_dst = replicate 4 0\<rparr>"
definition zero_tcp :: TcpHeader where
  "zero_tcp = \<lparr>tcp_sport = 0, tcp_dport = 0, tcp_seq = 0, tcp_ack = 0, tcp_flags = 0\<rparr>"
definition zero_udp :: UdpHeader where
  "zero_udp = \<lparr>udp_sport = 0, udp_dport = 0, udp_len = 0\<rparr>"

text \<open>\<open>memset(out, 0, sizeof *out)\<close>.\<close>

definition zero_packet :: Packet where
  "zero_packet = \<lparr>pk_eth = zero_eth, pk_has_ip = False, pk_ip = zero_ip, pk_proto = NM_NONE,
     pk_tcp = zero_tcp, pk_udp = zero_udp, pk_frame_len = 0\<rparr>"

lemmas zero_defs = zero_packet_def zero_eth_def zero_ip_def zero_tcp_def zero_udp_def

definition ETH_HDR_LEN :: nat where "ETH_HDR_LEN = 14"
definition ETHERTYPE_IPV4 :: u16 where "ETHERTYPE_IPV4 = 0x0800"
definition IP_VERSION_4 :: u8 where "IP_VERSION_4 = 4"
definition IP_MIN_IHL :: u8 where "IP_MIN_IHL = 5"
definition IP_PROTO_TCP :: u8 where "IP_PROTO_TCP = 6"
definition IP_PROTO_UDP :: u8 where "IP_PROTO_UDP = 17"
definition TCP_MIN_HDR_LEN :: nat where "TCP_MIN_HDR_LEN = 20"
definition TCP_MIN_DOFF :: u8 where "TCP_MIN_DOFF = 5"
definition UDP_HDR_LEN :: nat where "UDP_HDR_LEN = 8"

lemmas nm_consts = ETH_HDR_LEN_def ETHERTYPE_IPV4_def IP_VERSION_4_def IP_MIN_IHL_def IP_PROTO_TCP_def
  IP_PROTO_UDP_def TCP_MIN_HDR_LEN_def TCP_MIN_DOFF_def UDP_HDR_LEN_def

section \<open>The decoder\<close>

definition rd16be :: "u8 list \<Rightarrow> nat \<Rightarrow> u16 option" where
  "rd16be p off = do {
     a \<leftarrow> rd p off;
     b \<leftarrow> rd p (off + 1);
     Some (push_bit 8 (ucast a) OR ucast b) }"

definition rd32be :: "u8 list \<Rightarrow> nat \<Rightarrow> u32 option" where
  "rd32be p off = do {
     a \<leftarrow> rd p off;
     b \<leftarrow> rd p (off + 1);
     c \<leftarrow> rd p (off + 2);
     d \<leftarrow> rd p (off + 3);
     Some (push_bit 24 (ucast a) OR push_bit 16 (ucast b) OR push_bit 8 (ucast c) OR ucast d) }"

definition decode_tcp :: "u8 list \<Rightarrow> nat \<Rightarrow> TcpHeader \<Rightarrow> (NshError \<times> TcpHeader) option" where
  "decode_tcp p avail out =
     (if avail < TCP_MIN_HDR_LEN then Some (NSH_ERR_INVALID, out)
      else do {
        b \<leftarrow> rd p 12;
        let doff = drop_bit 4 b;
        if doff < TCP_MIN_DOFF \<or> unat doff * 4 > avail then Some (NSH_ERR_INVALID, out)
        else do {
          sport \<leftarrow> rd16be p 0;
          dport \<leftarrow> rd16be p 2;
          sq \<leftarrow> rd32be p 4;
          ack \<leftarrow> rd32be p 8;
          flags \<leftarrow> rd p 13;
          Some (NSH_OK, \<lparr>tcp_sport = sport, tcp_dport = dport, tcp_seq = sq, tcp_ack = ack, tcp_flags = flags\<rparr>) }})"

definition decode_udp :: "u8 list \<Rightarrow> nat \<Rightarrow> UdpHeader \<Rightarrow> (NshError \<times> UdpHeader) option" where
  "decode_udp p avail out =
     (if avail < UDP_HDR_LEN then Some (NSH_ERR_INVALID, out)
      else do {
        ulen \<leftarrow> rd16be p 4;
        if unat ulen < UDP_HDR_LEN \<or> unat ulen > avail then Some (NSH_ERR_INVALID, out)
        else do {
          sport \<leftarrow> rd16be p 0;
          dport \<leftarrow> rd16be p 2;
          Some (NSH_OK, \<lparr>udp_sport = sport, udp_dport = dport, udp_len = ulen\<rparr>) }})"

text \<open>The switch on the protocol, at the payload.\<close>

definition decode_transport :: "u8 list \<Rightarrow> nat \<Rightarrow> Packet \<Rightarrow> (NshError \<times> Packet) option" where
  "decode_transport payload payload_len out =
     (if ip_protocol (pk_ip out) = IP_PROTO_TCP then do {
        (e, t) \<leftarrow> decode_tcp payload payload_len (pk_tcp out);
        Some (e, out\<lparr>pk_proto := NM_TCP, pk_tcp := t\<rparr>) }
      else if ip_protocol (pk_ip out) = IP_PROTO_UDP then do {
        (e, u) \<leftarrow> decode_udp payload payload_len (pk_udp out);
        Some (e, out\<lparr>pk_proto := NM_UDP, pk_udp := u\<rparr>) }
      else Some (NSH_OK, out\<lparr>pk_proto := NM_OTHER_IP\<rparr>))"

definition decode_ipv4 :: "u8 list \<Rightarrow> nat \<Rightarrow> Packet \<Rightarrow> (NshError \<times> Packet) option" where
  "decode_ipv4 p avail out =
     (if avail < unat IP_MIN_IHL * 4 then Some (NSH_ERR_INVALID, out)
      else do {
        b \<leftarrow> rd p 0;
        let version = drop_bit 4 b;
        let ihl = b AND 0x0F;
        if version \<noteq> IP_VERSION_4 \<or> ihl < IP_MIN_IHL then Some (NSH_ERR_INVALID, out)
        else if unat ihl * 4 > avail then Some (NSH_ERR_INVALID, out)
        else do {
          total_len \<leftarrow> rd16be p 2;
          if unat total_len > avail \<or> unat total_len < unat ihl * 4 then Some (NSH_ERR_INVALID, out)
          else do {
            ttl \<leftarrow> rd p 8;
            protocol \<leftarrow> rd p 9;
            src \<leftarrow> slice p 12 4;
            dst \<leftarrow> slice p 16 4;
            decode_transport (drop (unat ihl * 4) p) (unat total_len - unat ihl * 4)
              (out\<lparr>pk_has_ip := True,
                   pk_ip := \<lparr>ip_ihl = ihl, ip_ttl = ttl, ip_protocol = protocol,
                     ip_total_len = total_len, ip_src = src, ip_dst = dst\<rparr>\<rparr>) }}})"

text \<open>\<open>None\<close> as \<open>frame\<close> is the NULL pointer; the caller's packet is never NULL here.\<close>

definition decode_frame :: "u8 list option \<Rightarrow> nat \<Rightarrow> (NshError \<times> Packet) option" where
  "decode_frame frame len = (case frame of
     None \<Rightarrow> Some (NSH_ERR_INVALID, zero_packet)
   | Some f \<Rightarrow>
       if len < ETH_HDR_LEN then Some (NSH_ERR_INVALID, zero_packet)
       else do {
         dst \<leftarrow> slice f 0 6;
         src \<leftarrow> slice f 6 6;
         ty \<leftarrow> rd16be f 12;
         let out = zero_packet\<lparr>pk_eth := \<lparr>eth_dst = dst, eth_src = src, eth_ethertype = ty\<rparr>,
                               pk_frame_len := len\<rparr>;
         if ty \<noteq> ETHERTYPE_IPV4 then Some (NSH_OK, out)
         else do {
           (e, out') \<leftarrow> decode_ipv4 (drop ETH_HDR_LEN f) (len - ETH_HDR_LEN) out;
           Some (if e \<noteq> NSH_OK then (e, zero_packet) else (NSH_OK, out')) }})"

section \<open>The decoder never reads behind the frame\<close>

lemma rd16be_Some: "off + 1 < length p \<Longrightarrow> \<exists>w. rd16be p off = Some w"
  by (simp add: rd16be_def rd_def)

lemma rd32be_Some: "off + 3 < length p \<Longrightarrow> \<exists>w. rd32be p off = Some w"
  by (simp add: rd32be_def rd_def)

lemma decode_tcp_total:
  assumes "avail \<le> length p"
  shows "\<exists>e t. decode_tcp p avail out = Some (e, t)
    \<and> (e = NSH_OK \<or> e = NSH_ERR_INVALID) \<and> (e = NSH_OK \<longrightarrow> TCP_MIN_HDR_LEN \<le> avail)"
proof (cases "avail < 20")
  case False
  with assms have len: "20 \<le> length p" by simp
  then obtain a b c d where "rd16be p 0 = Some a" "rd16be p 2 = Some b" "rd32be p 4 = Some c" "rd32be p 8 = Some d"
    using rd16be_Some [of 0 p] rd16be_Some [of 2 p] rd32be_Some [of 4 p] rd32be_Some [of 8 p] by auto
  moreover have "rd p 12 = Some (p ! 12)" "rd p 13 = Some (p ! 13)" using len by (simp_all add: rd_Some)
  ultimately show ?thesis using False by (simp add: decode_tcp_def nm_consts Let_def)
qed (simp add: decode_tcp_def nm_consts)

lemma decode_udp_total:
  assumes "avail \<le> length p"
  shows "\<exists>e u. decode_udp p avail out = Some (e, u)
    \<and> (e = NSH_OK \<or> e = NSH_ERR_INVALID)
    \<and> (e = NSH_OK \<longrightarrow> UDP_HDR_LEN \<le> unat (udp_len u) \<and> unat (udp_len u) \<le> avail)"
proof (cases "avail < 8")
  case False
  with assms have len: "8 \<le> length p" by simp
  then obtain a b c where "rd16be p 0 = Some a" "rd16be p 2 = Some b" "rd16be p 4 = Some c"
    using rd16be_Some [of 0 p] rd16be_Some [of 2 p] rd16be_Some [of 4 p] by auto
  with False show ?thesis by (simp add: decode_udp_def nm_consts)
qed (simp add: decode_udp_def nm_consts)

text \<open>What the checks promise of an accepted packet.\<close>

definition packet_valid :: "Packet \<Rightarrow> bool" where
  "packet_valid p \<longleftrightarrow> ETH_HDR_LEN \<le> pk_frame_len p
     \<and> length (eth_dst (pk_eth p)) = 6 \<and> length (eth_src (pk_eth p)) = 6
     \<and> (pk_has_ip p \<longleftrightarrow> eth_ethertype (pk_eth p) = ETHERTYPE_IPV4)
     \<and> (pk_proto p = NM_NONE \<longleftrightarrow> \<not> pk_has_ip p)
     \<and> (pk_has_ip p \<longrightarrow>
          5 \<le> unat (ip_ihl (pk_ip p)) \<and> unat (ip_ihl (pk_ip p)) \<le> 15
          \<and> unat (ip_ihl (pk_ip p)) * 4 \<le> unat (ip_total_len (pk_ip p))
          \<and> unat (ip_total_len (pk_ip p)) \<le> pk_frame_len p - ETH_HDR_LEN
          \<and> length (ip_src (pk_ip p)) = 4 \<and> length (ip_dst (pk_ip p)) = 4
          \<and> pk_proto p = (if ip_protocol (pk_ip p) = IP_PROTO_TCP then NM_TCP
               else if ip_protocol (pk_ip p) = IP_PROTO_UDP then NM_UDP else NM_OTHER_IP))
     \<and> (pk_proto p = NM_TCP \<longrightarrow>
          TCP_MIN_HDR_LEN \<le> unat (ip_total_len (pk_ip p)) - unat (ip_ihl (pk_ip p)) * 4)
     \<and> (pk_proto p = NM_UDP \<longrightarrow> UDP_HDR_LEN \<le> unat (udp_len (pk_udp p))
          \<and> unat (udp_len (pk_udp p)) \<le> unat (ip_total_len (pk_ip p)) - unat (ip_ihl (pk_ip p)) * 4)"

lemma decode_transport_total:
  assumes "plen \<le> length p"
  shows "\<exists>e q. decode_transport p plen out = Some (e, q) \<and> (e = NSH_OK \<or> e = NSH_ERR_INVALID)
    \<and> (e = NSH_OK \<longrightarrow> pk_eth q = pk_eth out \<and> pk_has_ip q = pk_has_ip out \<and> pk_ip q = pk_ip out
         \<and> pk_frame_len q = pk_frame_len out
         \<and> pk_proto q = (if ip_protocol (pk_ip out) = IP_PROTO_TCP then NM_TCP
             else if ip_protocol (pk_ip out) = IP_PROTO_UDP then NM_UDP else NM_OTHER_IP)
         \<and> (pk_proto q = NM_TCP \<longrightarrow> TCP_MIN_HDR_LEN \<le> plen)
         \<and> (pk_proto q = NM_UDP \<longrightarrow> UDP_HDR_LEN \<le> unat (udp_len (pk_udp q)) \<and> unat (udp_len (pk_udp q)) \<le> plen))"
proof -
  obtain e t where "decode_tcp p plen (pk_tcp out) = Some (e, t)" "e = NSH_OK \<or> e = NSH_ERR_INVALID"
    "e = NSH_OK \<longrightarrow> TCP_MIN_HDR_LEN \<le> plen" using decode_tcp_total [OF assms] by blast
  moreover obtain e' u where "decode_udp p plen (pk_udp out) = Some (e', u)" "e' = NSH_OK \<or> e' = NSH_ERR_INVALID"
    "e' = NSH_OK \<longrightarrow> UDP_HDR_LEN \<le> unat (udp_len u) \<and> unat (udp_len u) \<le> plen"
    using decode_udp_total [OF assms] by blast
  ultimately show ?thesis by (simp add: decode_transport_def)
qed

lemma low_nibble: "unat (b AND 0x0F :: u8) \<le> 15"
  using word_and_le1 [of b "0x0F"] by (simp add: word_le_nat_alt)

lemma decode_ipv4_total:
  assumes "avail \<le> length p" "pk_frame_len out = avail + ETH_HDR_LEN"
    and "length (eth_dst (pk_eth out)) = 6" "length (eth_src (pk_eth out)) = 6"
    and "eth_ethertype (pk_eth out) = ETHERTYPE_IPV4"
  shows "\<exists>e q. decode_ipv4 p avail out = Some (e, q) \<and> (e = NSH_OK \<or> e = NSH_ERR_INVALID)
    \<and> (e = NSH_OK \<longrightarrow> packet_valid q \<and> pk_frame_len q = pk_frame_len out)"
proof (cases "avail < 20")
  case True
  then show ?thesis by (simp add: decode_ipv4_def nm_consts)
next
  case False
  with assms(1) have len: "20 \<le> length p" by simp
  obtain tl' where tot: "rd16be p 2 = Some tl'" using rd16be_Some [of 2 p] len by auto
  have reads: "rd p 0 = Some (p ! 0)" "rd p 8 = Some (p ! 8)" "rd p 9 = Some (p ! 9)"
    "slice p 12 4 = Some (take 4 (drop 12 p))" "slice p 16 4 = Some (take 4 (drop 16 p))"
    using len by (auto simp: rd_def slice_def)
  let ?ihl = "p ! 0 AND 0x0F"
  let ?out = "out\<lparr>pk_has_ip := True, pk_ip := \<lparr>ip_ihl = ?ihl, ip_ttl = p ! 8, ip_protocol = p ! 9,
                     ip_total_len = tl', ip_src = take 4 (drop 12 p), ip_dst = take 4 (drop 16 p)\<rparr>\<rparr>"
  show ?thesis
  proof (cases "(drop_bit 4 (p ! 0) \<noteq> IP_VERSION_4 \<or> ?ihl < IP_MIN_IHL) \<or> unat ?ihl * 4 > avail
      \<or> (unat tl' > avail \<or> unat tl' < unat ?ihl * 4)")
    case True
    then show ?thesis using False by (auto simp: decode_ipv4_def reads tot Let_def IP_MIN_IHL_def)
  next
    case ok: False
    then have run: "decode_ipv4 p avail out = decode_transport (drop (unat ?ihl * 4) p) (unat tl' - unat ?ihl * 4) ?out"
      using False by (simp add: decode_ipv4_def reads tot Let_def IP_MIN_IHL_def)
    have ihl: "5 \<le> unat ?ihl" using ok by (simp add: IP_MIN_IHL_def word_less_nat_alt)
    have "unat tl' - unat ?ihl * 4 \<le> length (drop (unat ?ihl * 4) p)"
      unfolding length_drop by (rule diff_le_mono) (use ok assms(1) in auto)
    from decode_transport_total [OF this, of ?out] show ?thesis
      unfolding run using ok ihl len assms(2-) low_nibble [of "p ! 0"]
      by (fastforce simp: packet_valid_def ETH_HDR_LEN_def split: if_splits)
  qed
qed

lemma decode_frame_result:
  assumes "length frame = len"
  shows "\<exists>e p. decode_frame (Some frame) len = Some (e, p)
    \<and> (e = NSH_OK \<and> packet_valid p \<and> pk_frame_len p = len \<or> e = NSH_ERR_INVALID \<and> p = zero_packet)"
proof (cases "len < 14")
  case True
  then show ?thesis by (simp add: decode_frame_def nm_consts)
next
  case False
  with assms have len: "14 \<le> length frame" by simp
  obtain ty where ty: "rd16be frame 12 = Some ty" using rd16be_Some [of 12 frame] len by auto
  have reads: "slice frame 0 6 = Some (take 6 frame)" "slice frame 6 6 = Some (take 6 (drop 6 frame))"
    using len by (simp_all add: slice_Some)
  let ?out = "zero_packet\<lparr>pk_eth := \<lparr>eth_dst = take 6 frame, eth_src = take 6 (drop 6 frame), eth_ethertype = ty\<rparr>,
      pk_frame_len := len\<rparr>"
  show ?thesis
  proof (cases "ty = ETHERTYPE_IPV4")
    case True
    obtain e q where q: "decode_ipv4 (drop ETH_HDR_LEN frame) (len - ETH_HDR_LEN) ?out = Some (e, q)"
      "e = NSH_OK \<or> e = NSH_ERR_INVALID" "e = NSH_OK \<longrightarrow> packet_valid q \<and> pk_frame_len q = len"
      using decode_ipv4_total [of "len - ETH_HDR_LEN" "drop ETH_HDR_LEN frame" ?out] assms len True
      by (auto simp: ETH_HDR_LEN_def)
    with True False show ?thesis by (auto simp: decode_frame_def reads ty Let_def ETH_HDR_LEN_def)
  next
    case other: False
    with False len assms show ?thesis
      by (simp add: decode_frame_def reads ty Let_def ETH_HDR_LEN_def packet_valid_def zero_packet_def)
  qed
qed

section \<open>The wire format in natural numbers\<close>

definition wire16 :: "u8 list \<Rightarrow> nat \<Rightarrow> nat" where
  "wire16 f i = 256 * unat (f ! i) + unat (f ! (i + 1))"

definition wire32 :: "u8 list \<Rightarrow> nat \<Rightarrow> nat" where
  "wire32 f i = 65536 * wire16 f i + wire16 f (i + 2)"

text \<open>A TCP header has at least five words, and all its words lie in the segment; a UDP length counts
  its header and does not exceed the datagram.\<close>

definition tcp_fits :: "u8 list \<Rightarrow> bool" where
  "tcp_fits d \<longleftrightarrow> 20 \<le> length d \<and> 20 \<le> 4 * (unat (d ! 12) div 16) \<and> 4 * (unat (d ! 12) div 16) \<le> length d"

definition udp_fits :: "u8 list \<Rightarrow> bool" where
  "udp_fits d \<longleftrightarrow> 8 \<le> length d \<and> 8 \<le> wire16 d 4 \<and> wire16 d 4 \<le> length d"

text \<open>The length of an IP header, and what follows it up to the total length.\<close>

definition ip_hlen :: "u8 list \<Rightarrow> nat" where "ip_hlen p = 4 * (unat (p ! 0) mod 16)"

definition ip_body :: "u8 list \<Rightarrow> u8 list" where
  "ip_body p = take (wire16 p 2 - ip_hlen p) (drop (ip_hlen p) p)"

definition ip_fits :: "u8 list \<Rightarrow> bool" where
  "ip_fits p \<longleftrightarrow> 20 \<le> length p \<and> unat (p ! 0) div 16 = 4 \<and> 20 \<le> ip_hlen p
     \<and> ip_hlen p \<le> wire16 p 2 \<and> wire16 p 2 \<le> length p
     \<and> (p ! 9 = 6 \<longrightarrow> tcp_fits (ip_body p)) \<and> (p ! 9 = 17 \<longrightarrow> udp_fits (ip_body p))"

definition frame_fits :: "u8 list \<Rightarrow> bool" where
  "frame_fits f \<longleftrightarrow> 14 \<le> length f \<and> (wire16 f 12 = 0x800 \<longrightarrow> ip_fits (drop 14 f))"

definition tcp_view :: "u8 list \<Rightarrow> TcpHeader" where
  "tcp_view d = \<lparr>tcp_sport = of_nat (wire16 d 0), tcp_dport = of_nat (wire16 d 2), tcp_seq = of_nat (wire32 d 4),
     tcp_ack = of_nat (wire32 d 8), tcp_flags = d ! 13\<rparr>"

definition udp_view :: "u8 list \<Rightarrow> UdpHeader" where
  "udp_view d = \<lparr>udp_sport = of_nat (wire16 d 0), udp_dport = of_nat (wire16 d 2), udp_len = of_nat (wire16 d 4)\<rparr>"

definition ip_view :: "u8 list \<Rightarrow> Ipv4Header" where
  "ip_view p = \<lparr>ip_ihl = of_nat (unat (p ! 0) mod 16), ip_ttl = p ! 8, ip_protocol = p ! 9,
     ip_total_len = of_nat (wire16 p 2), ip_src = take 4 (drop 12 p), ip_dst = take 4 (drop 16 p)\<rparr>"

definition frame_view :: "u8 list \<Rightarrow> Packet" where
  "frame_view f = (let p = drop 14 f; ip = (wire16 f 12 = 0x800) in
     \<lparr>pk_eth = \<lparr>eth_dst = take 6 f, eth_src = take 6 (drop 6 f), eth_ethertype = of_nat (wire16 f 12)\<rparr>,
      pk_has_ip = ip, pk_ip = (if ip then ip_view p else zero_ip),
      pk_proto = (if \<not> ip then NM_NONE else if p ! 9 = 6 then NM_TCP else if p ! 9 = 17 then NM_UDP else NM_OTHER_IP),
      pk_tcp = (if ip \<and> p ! 9 = 6 then tcp_view (ip_body p) else zero_tcp),
      pk_udp = (if ip \<and> p ! 9 = 17 then udp_view (ip_body p) else zero_udp),
      pk_frame_len = length f\<rparr>)"

lemma unat_byte: "unat (b :: u8) < 256"
  by (rule order_less_le_trans [OF unsigned_less]) simp

lemma wire16_less: "wire16 f i < 65536"
  using unat_byte [of "f ! i"] unat_byte [of "f ! (i + 1)"] by (simp add: wire16_def)

lemma push_or: "push_bit 8 (ucast (a :: u8)) OR ucast (b :: u8) = (of_nat (256 * unat a + unat b) :: u16)"
proof -
  have "push_bit 8 (ucast a) OR ucast b = (push_bit 8 (ucast a) + ucast b :: u16)"
    by (rule disjunctive_add [symmetric]) (auto simp: bit_push_bit_iff bit_unsigned_iff dest: bit_imp_le_length)
  then show ?thesis by (simp add: push_bit_eq_mult)
qed

lemma rd16be_wire: "off + 1 < length p \<Longrightarrow> rd16be p off = Some (of_nat (wire16 p off))"
  by (simp add: rd16be_def rd_def wire16_def push_or)

lemma push_or32: "push_bit 24 (ucast (a :: u8)) OR push_bit 16 (ucast (b :: u8)) OR push_bit 8 (ucast (c :: u8)) OR ucast (d :: u8)
    = (of_nat (65536 * (256 * unat a + unat b) + (256 * unat c + unat d)) :: u32)"
proof -
  have 1: "push_bit 24 (ucast a) OR push_bit 16 (ucast b) = (push_bit 24 (ucast a) + push_bit 16 (ucast b) :: u32)"
    by (rule disjunctive_add [symmetric]) (auto simp: bit_push_bit_iff bit_unsigned_iff dest!: bit_imp_le_length)
  have 2: "push_bit 8 (ucast c) OR ucast d = (push_bit 8 (ucast c) + ucast d :: u32)"
    by (rule disjunctive_add [symmetric]) (auto simp: bit_push_bit_iff bit_unsigned_iff dest!: bit_imp_le_length)
  have 3: "push_bit 24 (ucast a) OR push_bit 16 (ucast b) OR push_bit 8 (ucast c) OR ucast d
     = ((push_bit 24 (ucast a) OR push_bit 16 (ucast b)) + (push_bit 8 (ucast c) OR ucast d) :: u32)"
    unfolding or.assoc [of _ _ "push_bit 8 (ucast c) OR ucast d", symmetric]
    by (rule disjunctive_add [symmetric])
      (auto simp: bit_or_iff bit_push_bit_iff bit_unsigned_iff dest!: bit_imp_le_length)
  show ?thesis unfolding 3 unfolding 1 2 by (simp add: push_bit_eq_mult algebra_simps)
qed

lemma rd32be_wire: "off + 3 < length p \<Longrightarrow> rd32be p off = Some (of_nat (wire32 p off))"
  by (simp add: rd32be_def rd_def wire32_def wire16_def push_or32 [simplified] numeral_3_eq_3 numeral_2_eq_2)

lemma unat_wire16 [simp]: "unat (of_nat (wire16 f i) :: u16) = wire16 f i"
  using wire16_less [of f i] by (simp add: unat_of_nat)

lemma high_nibble: "unat (drop_bit 4 b :: u8) = unat b div 16"
  by (simp add: drop_bit_eq_div unat_div)

lemma low_nibble_mod: "b AND 0x0F = (of_nat (unat b mod 16) :: u8)"
proof -
  have "b AND 0x0F = take_bit 4 b" by (simp add: take_bit_eq_mask mask_eq_exp_minus_1)
  also have "\<dots> = of_nat (take_bit 4 (unat b))" by (simp add: take_bit_of_nat [symmetric])
  finally show ?thesis by (simp add: take_bit_eq_mod)
qed

subsection \<open>What is accepted\<close>

lemma decode_tcp_wire:
  assumes "avail \<le> length p" "d = take avail p"
  shows "decode_tcp p avail out = Some (if tcp_fits d then (NSH_OK, tcp_view d) else (NSH_ERR_INVALID, out))"
proof (cases "avail < 20")
  case True
  then show ?thesis using assms by (simp add: decode_tcp_def nm_consts tcp_fits_def)
next
  case False
  then have len: "20 \<le> length p" "length d = avail" using assms by simp_all
  have d1: "d ! k = p ! k" if "k < 20" for k using that False by (simp add: assms(2))
  have d: "wire16 d 0 = wire16 p 0" "wire16 d 2 = wire16 p 2" "wire32 d 4 = wire32 p 4" "wire32 d 8 = wire32 p 8"
    by (simp_all add: wire16_def wire32_def d1)
  have doff: "drop_bit 4 (p ! 12) < (5 :: u8) \<longleftrightarrow> unat (p ! 12) div 16 < 5"
    by (simp add: word_less_nat_alt high_nibble)
  have "tcp_fits d \<longleftrightarrow> \<not> (drop_bit 4 (p ! 12) < (5 :: u8) \<or> unat (drop_bit 4 (p ! 12)) * 4 > avail)"
    using False len(2) by (auto simp: tcp_fits_def doff high_nibble d1)
  moreover have "tcp_view d = \<lparr>tcp_sport = of_nat (wire16 p 0), tcp_dport = of_nat (wire16 p 2), tcp_seq = of_nat (wire32 p 4),
     tcp_ack = of_nat (wire32 p 8), tcp_flags = p ! 13\<rparr>"
    by (simp add: tcp_view_def d d1)
  ultimately show ?thesis
    using False len(1) by (simp add: decode_tcp_def nm_consts rd_Some rd16be_wire rd32be_wire Let_def)
qed

lemma decode_udp_wire:
  assumes "avail \<le> length p" "d = take avail p"
  shows "decode_udp p avail out = Some (if udp_fits d then (NSH_OK, udp_view d) else (NSH_ERR_INVALID, out))"
proof (cases "avail < 8")
  case True
  then show ?thesis using assms by (simp add: decode_udp_def nm_consts udp_fits_def)
next
  case False
  then have len: "8 \<le> length p" "length d = avail" using assms by simp_all
  have d: "wire16 d i = wire16 p i" if "i + 1 < 8" for i
    using that False by (simp add: assms(2) wire16_def)
  show ?thesis
    using False len by (simp add: decode_udp_def nm_consts rd16be_wire Let_def udp_fits_def udp_view_def d not_less)
qed

lemma decode_ipv4_wire:
  assumes "length p = avail" "pk_tcp out = zero_tcp" "pk_udp out = zero_udp"
  shows "\<exists>e q. decode_ipv4 p avail out = Some (e, q) \<and> (e = NSH_OK \<or> e = NSH_ERR_INVALID) \<and> (e = NSH_OK \<longleftrightarrow> ip_fits p)
    \<and> (e = NSH_OK \<longrightarrow> q = out\<lparr>pk_has_ip := True, pk_ip := ip_view p,
         pk_proto := (if p ! 9 = 6 then NM_TCP else if p ! 9 = 17 then NM_UDP else NM_OTHER_IP),
         pk_tcp := (if p ! 9 = 6 then tcp_view (ip_body p) else zero_tcp),
         pk_udp := (if p ! 9 = 17 then udp_view (ip_body p) else zero_udp)\<rparr>)"
proof (cases "avail < 20")
  case True
  then show ?thesis using assms(1) by (simp add: decode_ipv4_def ip_fits_def IP_MIN_IHL_def)
next
  case False
  then have len: "20 \<le> length p" using assms(1) by simp
  let ?ihl = "p ! 0 AND 0x0F"
  have ihl: "unat ?ihl = unat (p ! 0) mod 16" "unat ?ihl * 4 = ip_hlen p"
    by (simp_all add: low_nibble_mod unat_of_nat ip_hlen_def)
  have v: "drop_bit 4 (p ! 0) = (4 :: u8) \<longleftrightarrow> unat (p ! 0) div 16 = 4"
    by (simp add: word_unat_eq_iff high_nibble)
  have lt: "?ihl < 5 \<longleftrightarrow> ip_hlen p < 20" by (simp add: word_less_nat_alt ihl(1)) (simp add: ip_hlen_def)
  let ?ok = "unat (p ! 0) div 16 = 4 \<and> 20 \<le> ip_hlen p \<and> ip_hlen p \<le> wire16 p 2 \<and> wire16 p 2 \<le> length p"
  let ?out = "out\<lparr>pk_has_ip := True, pk_ip := ip_view p\<rparr>"
  have reads: "rd p 0 = Some (p ! 0)" "rd16be p 2 = Some (of_nat (wire16 p 2))" "rd p 8 = Some (p ! 8)" "rd p 9 = Some (p ! 9)"
    "slice p 12 4 = Some (take 4 (drop 12 p))" "slice p 16 4 = Some (take 4 (drop 16 p))"
    using len by (auto simp: rd_def rd16be_wire slice_Some)
  show ?thesis
  proof (cases ?ok)
    case bad: False
    then have "decode_ipv4 p avail out = Some (NSH_ERR_INVALID, out)"
      using False assms(1) v lt by (auto simp: decode_ipv4_def reads Let_def IP_MIN_IHL_def IP_VERSION_4_def ihl(2))
    moreover have "\<not> ip_fits p" using bad by (auto simp: ip_fits_def)
    ultimately show ?thesis by simp
  next
    case True
    have iv: "\<lparr>ip_ihl = ?ihl, ip_ttl = p ! 8, ip_protocol = p ! 9, ip_total_len = of_nat (wire16 p 2),
        ip_src = take 4 (drop 12 p), ip_dst = take 4 (drop 16 p)\<rparr> = ip_view p"
      by (simp add: ip_view_def low_nibble_mod)
    have run: "decode_ipv4 p avail out
        = decode_transport (drop (ip_hlen p) p) (wire16 p 2 - ip_hlen p) ?out"
      using True False assms(1) v lt
      by (simp add: decode_ipv4_def reads Let_def IP_MIN_IHL_def IP_VERSION_4_def ihl(2) iv)
    have fit: "wire16 p 2 - ip_hlen p \<le> length (drop (ip_hlen p) p)"
      unfolding length_drop by (rule diff_le_mono) (use True in simp)
    note t = decode_tcp_wire [OF fit ip_body_def] and u = decode_udp_wire [OF fit ip_body_def]
    have f: "ip_fits p \<longleftrightarrow> (p ! 9 = 6 \<longrightarrow> tcp_fits (ip_body p)) \<and> (p ! 9 = 17 \<longrightarrow> udp_fits (ip_body p))"
      using True len by (simp add: ip_fits_def)
    have pr: "ip_protocol (ip_view p) = p ! 9" by (simp add: ip_view_def)
    show ?thesis
      unfolding run f using assms(2,3)
      by (simp add: decode_transport_def t u pr IP_PROTO_TCP_def IP_PROTO_UDP_def)
  qed
qed

text \<open>C19: The decoder accepts exactly the well-formed frames. Whatever bytes arrive, decoding a whole frame
  reads no byte behind it; it answers OK exactly if every length fits (the Ethernet header into the frame,
  the IP header of at least five words into the total length, that into the frame, a TCP header of at
  least five words or a UDP length of at least eight bytes into what the total length leaves), and
  then gives the fields of the wire in host order; otherwise it answers INVALID and a zeroed packet.\<close>

theorem decode_frame_accepts_fitting:
  "decode_frame (Some f) (length f) = Some (if frame_fits f then (NSH_OK, frame_view f) else (NSH_ERR_INVALID, zero_packet))"
proof (cases "length f < 14")
  case True
  then show ?thesis by (simp add: decode_frame_def frame_fits_def ETH_HDR_LEN_def)
next
  case False
  have reads: "slice f 0 6 = Some (take 6 f)" "slice f 6 6 = Some (take 6 (drop 6 f))" "rd16be f 12 = Some (of_nat (wire16 f 12))"
    using False by (simp_all add: slice_Some rd16be_wire)
  have ty: "(of_nat (wire16 f 12) :: u16) = 0x800 \<longleftrightarrow> wire16 f 12 = 0x800"
    using wire16_less [of f 12] by (simp add: word_unat_eq_iff)
  let ?out = "zero_packet\<lparr>pk_eth := \<lparr>eth_dst = take 6 f, eth_src = take 6 (drop 6 f), eth_ethertype = of_nat (wire16 f 12)\<rparr>,
      pk_frame_len := length f\<rparr>"
  show ?thesis
  proof (cases "wire16 f 12 = 0x800")
    case True
    obtain e q where "decode_ipv4 (drop 14 f) (length f - 14) ?out = Some (e, q)" "e = NSH_OK \<or> e = NSH_ERR_INVALID"
      "e = NSH_OK \<longleftrightarrow> ip_fits (drop 14 f)"
      "e = NSH_OK \<longrightarrow> q = ?out\<lparr>pk_has_ip := True, pk_ip := ip_view (drop 14 f),
         pk_proto := (if drop 14 f ! 9 = 6 then NM_TCP else if drop 14 f ! 9 = 17 then NM_UDP else NM_OTHER_IP),
         pk_tcp := (if drop 14 f ! 9 = 6 then tcp_view (ip_body (drop 14 f)) else zero_tcp),
         pk_udp := (if drop 14 f ! 9 = 17 then udp_view (ip_body (drop 14 f)) else zero_udp)\<rparr>"
      using decode_ipv4_wire [of "drop 14 f" "length f - 14" ?out] by (auto simp: zero_packet_def)
    then show ?thesis
      using True False
      by (auto simp: decode_frame_def reads Let_def ETH_HDR_LEN_def ETHERTYPE_IPV4_def frame_fits_def frame_view_def zero_packet_def)
  next
    case other: False
    then show ?thesis
      using False ty
      by (simp add: decode_frame_def reads Let_def ETH_HDR_LEN_def ETHERTYPE_IPV4_def frame_fits_def frame_view_def zero_packet_def)
  qed
qed

section \<open>Encoding a packet and decoding it back\<close>

definition be16 :: "u16 \<Rightarrow> u8 list" where "be16 w = [ucast (drop_bit 8 w), ucast w]"

definition be32 :: "u32 \<Rightarrow> u8 list" where
  "be32 w = [ucast (drop_bit 24 w), ucast (drop_bit 16 w), ucast (drop_bit 8 w), ucast w]"

definition pad_bytes :: "(nat \<Rightarrow> u8) \<Rightarrow> nat \<Rightarrow> u8 list" where "pad_bytes fill n = map fill [0..<n]"

definition encode_transport :: "(nat \<Rightarrow> u8) \<Rightarrow> Packet \<Rightarrow> nat \<Rightarrow> u8 list" where
  "encode_transport fill p plen =
     (if pk_proto p = NM_TCP then
        be16 (tcp_sport (pk_tcp p)) @ be16 (tcp_dport (pk_tcp p)) @ be32 (tcp_seq (pk_tcp p))
        @ be32 (tcp_ack (pk_tcp p)) @ [0x50, tcp_flags (pk_tcp p)] @ pad_bytes fill (plen - 14)
      else if pk_proto p = NM_UDP then
        be16 (udp_sport (pk_udp p)) @ be16 (udp_dport (pk_udp p)) @ be16 (udp_len (pk_udp p))
        @ pad_bytes fill (plen - 6)
      else pad_bytes fill plen)"

definition encode_ip :: "(nat \<Rightarrow> u8) \<Rightarrow> Packet \<Rightarrow> u8 list" where
  "encode_ip fill p =
     (let h = pk_ip p; hl = unat (ip_ihl h) * 4
      in [0x40 OR ip_ihl h, fill 1] @ be16 (ip_total_len h) @ [fill 4, fill 5, fill 6, fill 7, ip_ttl h, ip_protocol h, fill 10, fill 11]
         @ ip_src h @ ip_dst h @ pad_bytes fill (hl - 20)
         @ encode_transport fill p (unat (ip_total_len h) - hl)
         @ pad_bytes fill (pk_frame_len p - ETH_HDR_LEN - unat (ip_total_len h)))"

definition encode_packet :: "(nat \<Rightarrow> u8) \<Rightarrow> Packet \<Rightarrow> u8 list" where
  "encode_packet fill p =
     eth_dst (pk_eth p) @ eth_src (pk_eth p) @ be16 (eth_ethertype (pk_eth p))
     @ (if pk_has_ip p then encode_ip fill p else pad_bytes fill (pk_frame_len p - ETH_HDR_LEN))"

definition packet_canonical :: "Packet \<Rightarrow> bool" where
  "packet_canonical p \<longleftrightarrow> packet_valid p \<and> (\<not> pk_has_ip p \<longrightarrow> pk_ip p = zero_ip)
     \<and> (pk_proto p \<noteq> NM_TCP \<longrightarrow> pk_tcp p = zero_tcp) \<and> (pk_proto p \<noteq> NM_UDP \<longrightarrow> pk_udp p = zero_udp)"

lemma length_pad [simp]: "length (pad_bytes fill n) = n" by (simp add: pad_bytes_def)
lemma length_be [simp]: "length (be16 w) = 2" "length (be32 v) = 4" by (simp_all add: be16_def be32_def)

lemma join16: "push_bit 8 (ucast (ucast (drop_bit 8 w :: u16) :: u8)) OR ucast (ucast w :: u8) = w"
  by (rule bit_word_eqI) (auto simp: bit_simps)

lemma join32:
  "push_bit 24 (ucast (ucast (drop_bit 24 w :: u32) :: u8)) OR push_bit 16 (ucast (ucast (drop_bit 16 w) :: u8))
   OR push_bit 8 (ucast (ucast (drop_bit 8 w) :: u8)) OR ucast (ucast w :: u8) = w"
proof (rule bit_word_eqI)
  fix n
  assume "n < LENGTH(32)"
  then show "bit (push_bit 24 (ucast (ucast (drop_bit 24 w) :: u8)) OR push_bit 16 (ucast (ucast (drop_bit 16 w) :: u8))
   OR push_bit 8 (ucast (ucast (drop_bit 8 w) :: u8)) OR ucast (ucast w :: u8) :: u32) n = bit w n"
    by (cases "n < 8"; cases "n < 16"; cases "n < 24") (auto simp: bit_simps)
qed

text \<open>Reading at an offset that is reached behind a known prefix.\<close>

lemma rd_skip: "length xs = k \<Longrightarrow> rd (xs @ ys) (k + n) = rd ys n"
  by (auto simp: rd_def nth_append)

lemma rd16be_be16: "length xs = k \<Longrightarrow> rd16be (xs @ be16 w @ ys) k = Some w"
  by (simp add: rd16be_def rd_def be16_def nth_append join16)

lemma rd32be_be32: "length xs = k \<Longrightarrow> rd32be (xs @ be32 w @ ys) k = Some w"
  by (simp add: rd32be_def rd_def be32_def nth_append join32 [simplified])

lemma slice_mid: "length xs = k \<Longrightarrow> length m = n \<Longrightarrow> slice (xs @ m @ ys) k n = Some m"
  by (simp add: slice_def)

lemma rd_mid: "length xs = k \<Longrightarrow> rd (xs @ b # ys) k = Some b"
  by (simp add: rd_def nth_append)

lemma decode_tcp_encode:
  assumes "TCP_MIN_HDR_LEN \<le> plen" "pk_proto p = NM_TCP"
  shows "decode_tcp (encode_transport fill p plen @ rest) plen out = Some (NSH_OK, pk_tcp p)"
proof -
  let ?t = "pk_tcp p"
  let ?e = "encode_transport fill p plen @ rest"
  have e: "?e = be16 (tcp_sport ?t) @ be16 (tcp_dport ?t) @ be32 (tcp_seq ?t)
        @ be32 (tcp_ack ?t) @ 0x50 # tcp_flags ?t # pad_bytes fill (plen - 14) @ rest"
    by (simp add: encode_transport_def assms(2))
  have "rd16be ?e 0 = Some (tcp_sport ?t)" unfolding e using rd16be_be16 [of "[]" 0] by simp
  moreover have "rd16be ?e 2 = Some (tcp_dport ?t)" unfolding e by (rule rd16be_be16) simp
  moreover have "rd32be ?e 4 = Some (tcp_seq ?t)"
    unfolding e using rd32be_be32 [of "be16 (tcp_sport ?t) @ be16 (tcp_dport ?t)" 4] by simp
  moreover have "rd32be ?e 8 = Some (tcp_ack ?t)"
    unfolding e using rd32be_be32 [of "be16 (tcp_sport ?t) @ be16 (tcp_dport ?t) @ be32 (tcp_seq ?t)" 8] by simp
  moreover have "rd ?e 12 = Some 0x50"
    unfolding e using rd_mid [of "be16 (tcp_sport ?t) @ be16 (tcp_dport ?t) @ be32 (tcp_seq ?t) @ be32 (tcp_ack ?t)" 12] by simp
  moreover have "rd ?e 13 = Some (tcp_flags ?t)"
    unfolding e using rd_mid [of "be16 (tcp_sport ?t) @ be16 (tcp_dport ?t) @ be32 (tcp_seq ?t) @ be32 (tcp_ack ?t) @ [0x50]" 13] by simp
  moreover have "drop_bit 4 (0x50 :: u8) = 5" by simp
  ultimately show ?thesis using assms(1) by (simp add: decode_tcp_def nm_consts Let_def)
qed

lemma decode_udp_encode:
  assumes "UDP_HDR_LEN \<le> unat (udp_len (pk_udp p))" "unat (udp_len (pk_udp p)) \<le> plen" "pk_proto p = NM_UDP"
  shows "decode_udp (encode_transport fill p plen @ rest) plen out = Some (NSH_OK, pk_udp p)"
proof -
  let ?t = "pk_udp p"
  let ?e = "encode_transport fill p plen @ rest"
  have e: "?e = be16 (udp_sport ?t) @ be16 (udp_dport ?t) @ be16 (udp_len ?t) @ pad_bytes fill (plen - 6) @ rest"
    by (simp add: encode_transport_def assms(3))
  have "rd16be ?e 0 = Some (udp_sport ?t)" unfolding e using rd16be_be16 [of "[]" 0] by simp
  moreover have "rd16be ?e 2 = Some (udp_dport ?t)" unfolding e by (rule rd16be_be16) simp
  moreover have "rd16be ?e 4 = Some (udp_len ?t)"
    unfolding e using rd16be_be16 [of "be16 (udp_sport ?t) @ be16 (udp_dport ?t)" 4] by simp
  ultimately show ?thesis using assms(1,2) by (simp add: decode_udp_def nm_consts)
qed

lemma ver_ihl:
  assumes "unat (b :: u8) \<le> 15"
  shows "4 OR drop_bit 4 b = 4" "(0x40 OR b) AND 0x0F = b"
proof -
  have "unat (drop_bit 4 b) = 0"
    using assms by (simp add: unsigned_drop_bit_eq drop_bit_eq_div unat_div)
  then have "drop_bit 4 b = 0" by (simp add: unat_eq_zero)
  then show "4 OR drop_bit 4 b = 4" by simp
  have "unat (take_bit 4 b) = unat b"
    using assms by (simp add: unsigned_take_bit_eq take_bit_nat_eq_self)
  then have "take_bit 4 b = b" by (simp only: word_unat_eq_iff)
  then have "b AND 0x0F = b" by (simp add: take_bit_eq_mask mask_eq_exp_minus_1)
  then show "(0x40 OR b) AND 0x0F = b" by (simp add: bit.conj_disj_distrib2)
qed

lemma length_encode_transport:
  assumes "pk_proto p = NM_TCP \<longrightarrow> 20 \<le> plen" "pk_proto p = NM_UDP \<longrightarrow> 8 \<le> plen"
  shows "length (encode_transport fill p plen) = plen"
  using assms by (auto simp: encode_transport_def)

lemma encode_ip_decode:
  assumes "packet_canonical p" "pk_has_ip p" "pk_frame_len out = pk_frame_len p" "pk_eth out = pk_eth p"
    and "pk_tcp out = zero_tcp" "pk_udp out = zero_udp"
  shows "decode_ipv4 (encode_ip fill p) (pk_frame_len p - ETH_HDR_LEN) out = Some (NSH_OK, p)"
proof -
  let ?h = "pk_ip p" and ?hl = "unat (ip_ihl (pk_ip p)) * 4" and ?tot = "unat (ip_total_len (pk_ip p))"
  let ?avail = "pk_frame_len p - ETH_HDR_LEN"
  have v: "5 \<le> unat (ip_ihl ?h)" "unat (ip_ihl ?h) \<le> 15" "?hl \<le> ?tot" "?tot \<le> ?avail"
    "length (ip_src ?h) = 4" "length (ip_dst ?h) = 4"
    "pk_proto p = (if ip_protocol ?h = IP_PROTO_TCP then NM_TCP
         else if ip_protocol ?h = IP_PROTO_UDP then NM_UDP else NM_OTHER_IP)"
    "pk_proto p = NM_TCP \<longrightarrow> TCP_MIN_HDR_LEN \<le> ?tot - ?hl"
    "pk_proto p = NM_UDP \<longrightarrow> UDP_HDR_LEN \<le> unat (udp_len (pk_udp p)) \<and> unat (udp_len (pk_udp p)) \<le> ?tot - ?hl"
    "pk_proto p \<noteq> NM_TCP \<longrightarrow> pk_tcp p = zero_tcp" "pk_proto p \<noteq> NM_UDP \<longrightarrow> pk_udp p = zero_udp"
    using assms(1,2) by (auto simp: packet_canonical_def packet_valid_def)
  let ?rest = "pad_bytes fill (?avail - ?tot)"
  let ?tr = "encode_transport fill p (?tot - ?hl) @ ?rest"
  let ?e = "encode_ip fill p"
  have e: "?e = [0x40 OR ip_ihl ?h, fill 1] @ be16 (ip_total_len ?h) @ [fill 4, fill 5, fill 6, fill 7, ip_ttl ?h, ip_protocol ?h, fill 10, fill 11]
         @ ip_src ?h @ ip_dst ?h @ pad_bytes fill (?hl - 20) @ ?tr"
    by (simp add: encode_ip_def Let_def)
  have r0: "rd ?e 0 = Some (0x40 OR ip_ihl ?h)" unfolding e by (simp add: rd_def)
  have r2: "rd16be ?e 2 = Some (ip_total_len ?h)"
    unfolding e by (rule rd16be_be16) simp
  have r8: "rd ?e 8 = Some (ip_ttl ?h)" "rd ?e 9 = Some (ip_protocol ?h)"
    unfolding e by (simp_all add: rd_def be16_def)
  have r12: "slice ?e 12 4 = Some (ip_src ?h)"
    unfolding e using slice_mid [of "[0x40 OR ip_ihl ?h, fill 1] @ be16 (ip_total_len ?h)
        @ [fill 4, fill 5, fill 6, fill 7, ip_ttl ?h, ip_protocol ?h, fill 10, fill 11]" 12 "ip_src ?h" 4] v(5) by simp
  have r16: "slice ?e 16 4 = Some (ip_dst ?h)"
    unfolding e using slice_mid [of "[0x40 OR ip_ihl ?h, fill 1] @ be16 (ip_total_len ?h)
        @ [fill 4, fill 5, fill 6, fill 7, ip_ttl ?h, ip_protocol ?h, fill 10, fill 11] @ ip_src ?h" 16 "ip_dst ?h" 4] v(5,6) by simp
  have dr: "drop ?hl ?e = ?tr"
  proof -
    let ?pre = "[0x40 OR ip_ihl ?h, fill 1] @ be16 (ip_total_len ?h) @ [fill 4, fill 5, fill 6, fill 7, ip_ttl ?h, ip_protocol ?h, fill 10, fill 11]
         @ ip_src ?h @ ip_dst ?h @ pad_bytes fill (?hl - 20)"
    have "length ?pre = ?hl" using v(1,5,6) by simp
    then have "drop ?hl (?pre @ ?tr) = ?tr" by (metis append_eq_conv_conj)
    then show ?thesis unfolding e by simp
  qed
  let ?out = "out\<lparr>pk_has_ip := True, pk_ip := \<lparr>ip_ihl = ip_ihl ?h, ip_ttl = ip_ttl ?h, ip_protocol = ip_protocol ?h,
      ip_total_len = ip_total_len ?h, ip_src = ip_src ?h, ip_dst = ip_dst ?h\<rparr>\<rparr>"
  have h: "\<lparr>ip_ihl = ip_ihl ?h, ip_ttl = ip_ttl ?h, ip_protocol = ip_protocol ?h,
      ip_total_len = ip_total_len ?h, ip_src = ip_src ?h, ip_dst = ip_dst ?h\<rparr> = ?h" by simp
  have "\<not> ?avail < unat IP_MIN_IHL * 4" "\<not> ip_ihl ?h < IP_MIN_IHL" "\<not> ?avail < ?hl" "\<not> ?tot < ?hl" "\<not> ?avail < ?tot"
    using v(1,3,4) by (simp_all add: IP_MIN_IHL_def word_less_nat_alt)
  then have run: "decode_ipv4 ?e ?avail out = decode_transport ?tr (?tot - ?hl) ?out"
    by (simp add: decode_ipv4_def r0 r2 r8 r12 r16 dr Let_def ver_ihl [OF v(2)] IP_VERSION_4_def)
  have fin1: "pk_udp p = zero_udp \<Longrightarrow> ?out\<lparr>pk_proto := pk_proto p, pk_tcp := pk_tcp p\<rparr> = p"
    using assms(2-6) by (cases p; cases out) simp
  have fin2: "pk_tcp p = zero_tcp \<Longrightarrow> ?out\<lparr>pk_proto := pk_proto p, pk_udp := pk_udp p\<rparr> = p"
    using assms(2-6) by (cases p; cases out) simp
  have fin3: "pk_tcp p = zero_tcp \<Longrightarrow> pk_udp p = zero_udp \<Longrightarrow> ?out\<lparr>pk_proto := pk_proto p\<rparr> = p"
    using assms(2-6) by (cases p; cases out) simp
  consider (tcp) "ip_protocol ?h = IP_PROTO_TCP" | (udp) "ip_protocol ?h \<noteq> IP_PROTO_TCP" "ip_protocol ?h = IP_PROTO_UDP"
    | (other) "ip_protocol ?h \<noteq> IP_PROTO_TCP" "ip_protocol ?h \<noteq> IP_PROTO_UDP" by blast
  then show ?thesis
  proof cases
    case tcp
    then have k: "pk_proto p = NM_TCP" "pk_udp p = zero_udp" using v by simp_all
    with v(8) have "decode_tcp ?tr (?tot - ?hl) (pk_tcp ?out) = Some (NSH_OK, pk_tcp p)"
      by (intro decode_tcp_encode) auto
    with tcp k(1) run fin1 [OF k(2)] show ?thesis by (simp add: decode_transport_def)
  next
    case udp
    then have k: "pk_proto p = NM_UDP" "pk_tcp p = zero_tcp" using v(7,10) by simp_all
    with v(9) have "decode_udp ?tr (?tot - ?hl) (pk_udp ?out) = Some (NSH_OK, pk_udp p)"
      by (intro decode_udp_encode) auto
    with udp k(1) run fin2 [OF k(2)] show ?thesis by (simp add: decode_transport_def IP_PROTO_TCP_def IP_PROTO_UDP_def)
  next
    case other
    then have k: "pk_proto p = NM_OTHER_IP" "pk_tcp p = zero_tcp" "pk_udp p = zero_udp" using v(7,10,11) by simp_all
    with other run fin3 [OF k(2,3)] show ?thesis by (simp add: decode_transport_def)
  qed
qed

text \<open>C18: Every packet with consistent lengths is accepted and comes back unchanged: encoding its fields
  in network byte order, with any filler in the bytes the decoder ignores, and decoding the frame
  returns exactly that packet.\<close>

theorem decode_frame_roundtrip:
  assumes "packet_canonical p"
  shows "decode_frame (Some (encode_packet fill p)) (pk_frame_len p) = Some (NSH_OK, p)"
proof -
  let ?x = "pk_eth p"
  have v: "14 \<le> pk_frame_len p" "length (eth_dst ?x) = 6" "length (eth_src ?x) = 6"
    "pk_has_ip p \<longleftrightarrow> eth_ethertype ?x = ETHERTYPE_IPV4" "pk_proto p = NM_NONE \<longleftrightarrow> \<not> pk_has_ip p"
    using assms by (auto simp: packet_canonical_def packet_valid_def ETH_HDR_LEN_def)
  let ?body = "if pk_has_ip p then encode_ip fill p else pad_bytes fill (pk_frame_len p - ETH_HDR_LEN)"
  let ?e = "encode_packet fill p"
  have e: "?e = eth_dst ?x @ eth_src ?x @ be16 (eth_ethertype ?x) @ ?body"
    by (simp add: encode_packet_def)
  have r: "slice ?e 0 6 = Some (eth_dst ?x)" "slice ?e 6 6 = Some (eth_src ?x)"
    "rd16be ?e 12 = Some (eth_ethertype ?x)"
    unfolding e using slice_mid [of "[]" 0 "eth_dst ?x" 6] slice_mid [of "eth_dst ?x" 6 "eth_src ?x" 6] v(2,3)
      rd16be_be16 [of "eth_dst ?x @ eth_src ?x" 12] by simp_all
  have d: "drop ETH_HDR_LEN ?e = ?body"
    unfolding e using v(2,3) by (simp add: ETH_HDR_LEN_def)
  let ?out = "zero_packet\<lparr>pk_eth := \<lparr>eth_dst = eth_dst ?x, eth_src = eth_src ?x, eth_ethertype = eth_ethertype ?x\<rparr>,
      pk_frame_len := pk_frame_len p\<rparr>"
  show ?thesis
  proof (cases "pk_has_ip p")
    case True
    have "decode_ipv4 (encode_ip fill p) (pk_frame_len p - ETH_HDR_LEN) ?out = Some (NSH_OK, p)"
      by (rule encode_ip_decode [OF assms True]) (simp_all add: zero_packet_def)
    with True v d show ?thesis by (simp add: decode_frame_def r Let_def ETH_HDR_LEN_def)
  next
    case False
    with assms v(5) have "pk_ip p = zero_ip" "pk_tcp p = zero_tcp" "pk_udp p = zero_udp" "pk_proto p = NM_NONE"
      by (auto simp: packet_canonical_def)
    with False have "?out = p" by (cases p) (simp add: zero_packet_def)
    with False v show ?thesis by (simp add: decode_frame_def r Let_def ETH_HDR_LEN_def)
  qed
qed

lemma decode_frame_roundtrip_witness:
  "decode_frame (Some (encode_packet (\<lambda>i. of_nat i) (zero_packet\<lparr>pk_frame_len := 60,
      pk_eth := \<lparr>eth_dst = [1,2,3,4,5,6], eth_src = [7,8,9,10,11,12], eth_ethertype = 0x800\<rparr>, pk_has_ip := True,
      pk_ip := \<lparr>ip_ihl = 6, ip_ttl = 64, ip_protocol = 17, ip_total_len = 40, ip_src = [10,0,0,1], ip_dst = [10,0,0,2]\<rparr>,
      pk_proto := NM_UDP, pk_udp := \<lparr>udp_sport = 53, udp_dport = 1024, udp_len = 16\<rparr>\<rparr>))) 60
   = Some (NSH_OK, zero_packet\<lparr>pk_frame_len := 60,
      pk_eth := \<lparr>eth_dst = [1,2,3,4,5,6], eth_src = [7,8,9,10,11,12], eth_ethertype = 0x800\<rparr>, pk_has_ip := True,
      pk_ip := \<lparr>ip_ihl = 6, ip_ttl = 64, ip_protocol = 17, ip_total_len = 40, ip_src = [10,0,0,1], ip_dst = [10,0,0,2]\<rparr>,
      pk_proto := NM_UDP, pk_udp := \<lparr>udp_sport = 53, udp_dport = 1024, udp_len = 16\<rparr>\<rparr>)"
  using decode_frame_roundtrip [where fill = "\<lambda>i. of_nat i" and p = "zero_packet\<lparr>pk_frame_len := 60,
      pk_eth := \<lparr>eth_dst = [1,2,3,4,5,6], eth_src = [7,8,9,10,11,12], eth_ethertype = 0x800\<rparr>, pk_has_ip := True,
      pk_ip := \<lparr>ip_ihl = 6, ip_ttl = 64, ip_protocol = 17, ip_total_len = 40, ip_src = [10,0,0,1], ip_dst = [10,0,0,2]\<rparr>,
      pk_proto := NM_UDP, pk_udp := \<lparr>udp_sport = 53, udp_dport = 1024, udp_len = 16\<rparr>\<rparr>"]
  by (simp add: packet_canonical_def packet_valid_def nm_consts zero_defs)

section \<open>The filter\<close>

datatype NmFilterProto = NM_FILTER_ALL | NM_FILTER_TCP | NM_FILTER_UDP

record NetmonFilter =
  nf_proto :: NmFilterProto
  nf_port :: int

fun proto_match :: "Packet \<Rightarrow> NmFilterProto \<Rightarrow> bool" where
  "proto_match p NM_FILTER_TCP = (pk_proto p = NM_TCP)"
| "proto_match p NM_FILTER_UDP = (pk_proto p = NM_UDP)"
| "proto_match p NM_FILTER_ALL = True"

definition port_match :: "Packet \<Rightarrow> int \<Rightarrow> bool" where
  "port_match p port =
     (if port < 0 then True
      else (let want = of_int port :: u16
            in if pk_proto p = NM_TCP then tcp_sport (pk_tcp p) = want \<or> tcp_dport (pk_tcp p) = want
               else if pk_proto p = NM_UDP then udp_sport (pk_udp p) = want \<or> udp_dport (pk_udp p) = want
               else False))"

definition filter_match :: "Packet \<Rightarrow> NetmonFilter \<Rightarrow> bool" where
  "filter_match p f \<longleftrightarrow> proto_match p (nf_proto f) \<and> port_match p (nf_port f)"

section \<open>Arguments\<close>

definition PORT_MAX :: int where "PORT_MAX = 65535"

definition parse_port :: "string \<Rightarrow> int option" where
  "parse_port s =
     (let (v, rest, err) = strtol s
      in if rest = s \<or> rest \<noteq> [] \<or> err \<or> v < 0 \<or> v > PORT_MAX then None else Some v)"

fun parse_opts :: "string list \<Rightarrow> NetmonFilter \<Rightarrow> NetmonFilter option" where
  "parse_opts [] f = Some f"
| "parse_opts (a # rest) f =
     (if a = ''--filter'' \<and> rest \<noteq> [] then
        (if hd rest = ''tcp'' then parse_opts (tl rest) (f\<lparr>nf_proto := NM_FILTER_TCP\<rparr>)
         else if hd rest = ''udp'' then parse_opts (tl rest) (f\<lparr>nf_proto := NM_FILTER_UDP\<rparr>)
         else None)
      else if a = ''--port'' \<and> rest \<noteq> [] then
        (case parse_port (hd rest) of None \<Rightarrow> None | Some v \<Rightarrow> parse_opts (tl rest) (f\<lparr>nf_port := v\<rparr>))
      else None)"

definition parse_args :: "string list \<Rightarrow> (string \<times> NetmonFilter) option" where
  "parse_args argv =
     (if length argv < 2 \<or> argv ! 1 = [] \<or> hd (argv ! 1) = CHR ''-'' then None
      else map_option (\<lambda>f. (argv ! 1, f))
        (parse_opts (drop 2 argv) \<lparr>nf_proto = NM_FILTER_ALL, nf_port = - 1\<rparr>))"

section \<open>One line per packet\<close>

text \<open>\<open>snprintf\<close> into a buffer of \<open>PIECE_BUF\<close> bytes keeps at most that many less the NUL.\<close>

definition PIECE_BUF :: nat where "PIECE_BUF = 32"

definition print_piece :: "string \<Rightarrow> string" where "print_piece s = take (PIECE_BUF - 1) s"

definition append_uint :: "string \<Rightarrow> nat \<Rightarrow> string" where "append_uint out v = out @ print_piece (dec_nat v)"

definition append_hex16 :: "string \<Rightarrow> u16 \<Rightarrow> string" where
  "append_hex16 out v = out @ print_piece (''0x'' @ pad_left (CHR ''0'') 4 (hex_nat (unat v)))"

definition append_ipv4 :: "string \<Rightarrow> u8 list \<Rightarrow> string" where
  "append_ipv4 out a = out @ print_piece (dec_nat (unat (a ! 0)) @ ''.'' @ dec_nat (unat (a ! 1)) @ ''.''
     @ dec_nat (unat (a ! 2)) @ ''.'' @ dec_nat (unat (a ! 3)))"

definition hex2 :: "u8 \<Rightarrow> string" where "hex2 b = pad_left (CHR ''0'') 2 (hex_nat (unat b))"

definition append_mac :: "string \<Rightarrow> u8 list \<Rightarrow> string" where
  "append_mac out m = out @ print_piece (hex2 (m ! 0) @ '':'' @ hex2 (m ! 1) @ '':'' @ hex2 (m ! 2) @ '':''
     @ hex2 (m ! 3) @ '':'' @ hex2 (m ! 4) @ '':'' @ hex2 (m ! 5))"

definition append_endpoint :: "string \<Rightarrow> u8 list \<Rightarrow> u16 \<Rightarrow> string" where
  "append_endpoint out a port = append_uint (append_ipv4 out a @ '':'') (unat port)"

text \<open>The flag buffer has 8 bytes; \<open>None\<close> is a store behind it.\<close>

definition put_flag :: "bool \<Rightarrow> char \<Rightarrow> string \<Rightarrow> string option" where
  "put_flag b c buf = (if b then (if length buf < 8 then Some (buf @ [c]) else None) else Some buf)"

definition append_flags :: "string \<Rightarrow> u8 \<Rightarrow> string option" where
  "append_flags out flags = do {
     b1 \<leftarrow> put_flag (flags AND TCP_FIN \<noteq> 0) (CHR ''F'') [];
     b2 \<leftarrow> put_flag (flags AND TCP_SYN \<noteq> 0) (CHR ''S'') b1;
     b3 \<leftarrow> put_flag (flags AND TCP_RST \<noteq> 0) (CHR ''R'') b2;
     b4 \<leftarrow> put_flag (flags AND TCP_PSH \<noteq> 0) (CHR ''P'') b3;
     b5 \<leftarrow> put_flag (flags AND TCP_ACK \<noteq> 0) (CHR ''A'') b4;
     b6 \<leftarrow> put_flag (b5 = []) (CHR ''.'') b5;
     _ \<leftarrow> put_flag True NUL b6;
     Some (out @ ''['' @ b6 @ '']'') }"

definition append_eth_line :: "Packet \<Rightarrow> string \<Rightarrow> string" where
  "append_eth_line p out =
     append_hex16 (append_mac (append_mac (out @ ''ETH '') (eth_src (pk_eth p)) @ '' > '') (eth_dst (pk_eth p))
       @ '' type '') (eth_ethertype (pk_eth p))"

definition append_ip_line :: "Packet \<Rightarrow> string \<Rightarrow> string option" where
  "append_ip_line p out =
     (let o1 = out @ ''IP ''
      in if pk_proto p = NM_TCP then do {
           let o2 = append_endpoint o1 (ip_src (pk_ip p)) (tcp_sport (pk_tcp p)) @ '' > '';
           let o3 = append_endpoint o2 (ip_dst (pk_ip p)) (tcp_dport (pk_tcp p)) @ '' TCP '';
           o4 \<leftarrow> append_flags o3 (tcp_flags (pk_tcp p));
           Some (append_uint (o4 @ '' seq '') (unat (tcp_seq (pk_tcp p)))) }
         else if pk_proto p = NM_UDP then
           Some (append_endpoint (append_endpoint o1 (ip_src (pk_ip p)) (udp_sport (pk_udp p)) @ '' > '')
             (ip_dst (pk_ip p)) (udp_dport (pk_udp p)) @ '' UDP'')
         else
           Some (append_uint (append_ipv4 (append_ipv4 o1 (ip_src (pk_ip p)) @ '' > '') (ip_dst (pk_ip p))
             @ '' proto '') (unat (ip_protocol (pk_ip p)))))"

definition packet_format :: "Packet \<Rightarrow> string option" where
  "packet_format p = do {
     o1 \<leftarrow> (if pk_has_ip p then append_ip_line p [] else Some (append_eth_line p []));
     Some (append_uint (o1 @ '' len '') (pk_frame_len p)) }"

section \<open>The capture loop\<close>

text \<open>
  One element per round of the loop: what \<open>recv\<close> returned (an error, or bytes, with none for an
  interrupted call) and whether writing the line, if there is one, succeeds. The list ends when
  the stop flag is seen set. The output is the lines written.
\<close>

datatype Recv = RECV_ERR | RECV_BYTES "u8 list"

record Counts =
  n_total :: nat
  n_shown :: nat
  n_malformed :: nat

fun capture_loop :: "(Recv \<times> bool) list \<Rightarrow> NetmonFilter \<Rightarrow> Counts \<Rightarrow> string list \<Rightarrow> (int \<times> Counts \<times> string list) option" where
  "capture_loop [] f n out = Some (0, n, out)"
| "capture_loop ((RECV_ERR, _) # evs) f n out = Some (1, n, out)"
| "capture_loop ((RECV_BYTES buf, writes) # evs) f n out =
     (if buf = [] then capture_loop evs f n out
      else do {
        let n1 = n\<lparr>n_total := n_total n + 1\<rparr>;
        (e, p) \<leftarrow> decode_frame (Some buf) (length buf);
        if e \<noteq> NSH_OK then capture_loop evs f (n1\<lparr>n_malformed := n_malformed n1 + 1\<rparr>) out
        else if \<not> filter_match p f then capture_loop evs f n1 out
        else do {
          line \<leftarrow> packet_format p;
          if \<not> writes then Some (1, n1, out)
          else capture_loop evs f (n1\<lparr>n_shown := n_shown n1 + 1\<rparr>) (out @ [line @ [NEWLINE]]) }})"

section \<open>Properties\<close>

text \<open>For every port the argument parser lets through, the filter compares full port numbers: a
  packet passes when its protocol is the wanted one and, if a port was asked for, one of its two
  ports equals it as a number.\<close>

theorem filter_match_spec:
  assumes "parse_args argv = Some (ifname, f)"
  shows "filter_match p f \<longleftrightarrow>
    (nf_proto f = NM_FILTER_ALL \<or> nf_proto f = NM_FILTER_TCP \<and> pk_proto p = NM_TCP
      \<or> nf_proto f = NM_FILTER_UDP \<and> pk_proto p = NM_UDP)
    \<and> (nf_port f = - 1
       \<or> pk_proto p = NM_TCP \<and> (uint (tcp_sport (pk_tcp p)) = nf_port f \<or> uint (tcp_dport (pk_tcp p)) = nf_port f)
       \<or> pk_proto p = NM_UDP \<and> (uint (udp_sport (pk_udp p)) = nf_port f \<or> uint (udp_dport (pk_udp p)) = nf_port f))"
proof -
  have "parse_opts as g = Some h \<Longrightarrow> - 1 \<le> nf_port g \<Longrightarrow> nf_port g \<le> 65535 \<Longrightarrow> - 1 \<le> nf_port h \<and> nf_port h \<le> 65535"
    for as g h
  proof (induction as g rule: parse_opts.induct)
    case (2 a rest g)
    then show ?case
      by (auto simp: parse_port_def PORT_MAX_def split: if_splits option.splits prod.splits)
  qed simp
  with assms have range: "- 1 \<le> nf_port f" "nf_port f \<le> 65535"
    by (auto simp: parse_args_def split: if_splits)
  have eq: "w = of_int (nf_port f) \<longleftrightarrow> uint w = nf_port f" if "0 \<le> nf_port f" for w :: u16
    using that range by (simp add: word_uint_eq_iff uint_word_of_int)
  show ?thesis
  proof (cases "nf_port f < 0")
    case True
    with range(1) have "nf_port f = - 1" by simp
    then show ?thesis by (cases "nf_proto f") (simp_all add: filter_match_def port_match_def)
  next
    case False
    then show ?thesis
      by (cases "nf_proto f") (auto simp: filter_match_def port_match_def Let_def eq)
  qed
qed

lemma filter_match_spec_witness:
  "filter_match zero_packet \<lparr>nf_proto = NM_FILTER_ALL, nf_port = - 1\<rparr>"
proof -
  have "parse_args [''netmon'', ''eth0''] = Some (''eth0'', \<lparr>nf_proto = NM_FILTER_ALL, nf_port = - 1\<rparr>)"
    by (simp add: parse_args_def)
  from filter_match_spec [OF this, of zero_packet] show ?thesis by simp
qed

lemma length_digits_base: "2 \<le> b \<Longrightarrow> n < b ^ Suc k \<Longrightarrow> length (digits_base b n) \<le> Suc k"
proof (induction k arbitrary: n)
  case 0
  then show ?case by (subst digits_base.simps) simp
next
  case (Suc k)
  show ?case
  proof (cases "n < b")
    case True
    then show ?thesis by (subst digits_base.simps) simp
  next
    case False
    have "n div b < b ^ Suc k" using Suc.prems by (simp add: less_mult_imp_div_less mult.commute)
    from Suc.IH [OF Suc.prems(1) this] False Suc.prems(1) show ?thesis
      by (subst digits_base.simps) simp
  qed
qed

lemma length_dec_nat: "n < 10 ^ Suc k \<Longrightarrow> length (dec_nat n) \<le> Suc k"
  by (simp add: dec_nat_def length_digits_base)

lemma length_hex_nat: "n < 16 ^ Suc k \<Longrightarrow> length (hex_nat n) \<le> Suc k"
  by (simp add: hex_nat_def length_digits_base)

lemma length_pad_left: "length s \<le> w \<Longrightarrow> length (pad_left c w s) = w"
  by (simp add: pad_left_def)

lemma print_piece_id: "length s \<le> 31 \<Longrightarrow> print_piece s = s"
  by (simp add: print_piece_def PIECE_BUF_def)

lemma dec_byte: "length (dec_nat (unat (b :: u8))) \<le> 3"
  using unsigned_less [where ?'a = nat, of b] length_dec_nat [of "unat b" 2] by simp

lemma dec_u16: "length (dec_nat (unat (b :: u16))) \<le> 5"
  using unsigned_less [where ?'a = nat, of b] length_dec_nat [of "unat b" 4] by simp

lemma dec_u32: "length (dec_nat (unat (b :: u32))) \<le> 10"
  using unsigned_less [where ?'a = nat, of b] length_dec_nat [of "unat b" 9] by simp

lemma dec_size: "n < 2 ^ 64 \<Longrightarrow> length (dec_nat n) \<le> 20"
  using length_dec_nat [of n 19] by simp

lemma hex_byte: "length (hex2 b) = 2"
  using unsigned_less [where ?'a = nat, of b] length_hex_nat [of "unat b" 1] by (simp add: hex2_def length_pad_left)

definition ipv4_text :: "u8 list \<Rightarrow> string" where
  "ipv4_text a = dec_nat (unat (a ! 0)) @ ''.'' @ dec_nat (unat (a ! 1)) @ ''.'' @ dec_nat (unat (a ! 2)) @ ''.''
     @ dec_nat (unat (a ! 3))"

definition mac_text :: "u8 list \<Rightarrow> string" where
  "mac_text m = hex2 (m ! 0) @ '':'' @ hex2 (m ! 1) @ '':'' @ hex2 (m ! 2) @ '':''
     @ hex2 (m ! 3) @ '':'' @ hex2 (m ! 4) @ '':'' @ hex2 (m ! 5)"

definition flag_text :: "u8 \<Rightarrow> string" where
  "flag_text fl =
     (let s = (if fl AND TCP_FIN \<noteq> 0 then ''F'' else []) @ (if fl AND TCP_SYN \<noteq> 0 then ''S'' else [])
        @ (if fl AND TCP_RST \<noteq> 0 then ''R'' else []) @ (if fl AND TCP_PSH \<noteq> 0 then ''P'' else [])
        @ (if fl AND TCP_ACK \<noteq> 0 then ''A'' else [])
      in if s = [] then ''.'' else s)"

definition packet_line :: "Packet \<Rightarrow> string" where
  "packet_line p =
     (if \<not> pk_has_ip p then
        ''ETH '' @ mac_text (eth_src (pk_eth p)) @ '' > '' @ mac_text (eth_dst (pk_eth p))
        @ '' type 0x'' @ pad_left (CHR ''0'') 4 (hex_nat (unat (eth_ethertype (pk_eth p))))
      else if pk_proto p = NM_TCP then
        ''IP '' @ ipv4_text (ip_src (pk_ip p)) @ '':'' @ dec_nat (unat (tcp_sport (pk_tcp p))) @ '' > ''
        @ ipv4_text (ip_dst (pk_ip p)) @ '':'' @ dec_nat (unat (tcp_dport (pk_tcp p)))
        @ '' TCP ['' @ flag_text (tcp_flags (pk_tcp p)) @ ''] seq '' @ dec_nat (unat (tcp_seq (pk_tcp p)))
      else if pk_proto p = NM_UDP then
        ''IP '' @ ipv4_text (ip_src (pk_ip p)) @ '':'' @ dec_nat (unat (udp_sport (pk_udp p))) @ '' > ''
        @ ipv4_text (ip_dst (pk_ip p)) @ '':'' @ dec_nat (unat (udp_dport (pk_udp p))) @ '' UDP''
      else
        ''IP '' @ ipv4_text (ip_src (pk_ip p)) @ '' > '' @ ipv4_text (ip_dst (pk_ip p)) @ '' proto ''
        @ dec_nat (unat (ip_protocol (pk_ip p))))
     @ '' len '' @ dec_nat (pk_frame_len p)"

lemma length_ipv4_text: "length (ipv4_text a) \<le> 15"
  using dec_byte [of "a ! 0"] dec_byte [of "a ! 1"] dec_byte [of "a ! 2"] dec_byte [of "a ! 3"]
  by (simp add: ipv4_text_def)

lemma append_ipv4_text: "append_ipv4 out a = out @ ipv4_text a"
  using length_ipv4_text [of a] by (simp add: append_ipv4_def print_piece_id ipv4_text_def)

lemma append_mac_text: "append_mac out m = out @ mac_text m"
  by (simp add: append_mac_def mac_text_def print_piece_id hex_byte)

lemma append_hex16_text: "append_hex16 out w = out @ ''0x'' @ pad_left (CHR ''0'') 4 (hex_nat (unat w))"
proof -
  have "length (hex_nat (unat w)) \<le> 4"
    using unsigned_less [where ?'a = nat, of w] length_hex_nat [of "unat w" 3] by simp
  then show ?thesis by (simp add: append_hex16_def print_piece_id length_pad_left)
qed

lemma append_flags_text: "append_flags out fl = Some (out @ ''['' @ flag_text fl @ '']'')"
  by (simp add: append_flags_def put_flag_def flag_text_def Let_def)

lemma format_line:
  assumes "pk_frame_len p < 2 ^ 64"
  shows "packet_format p = Some (packet_line p)"
proof -
  have "append_uint out (unat w) = out @ dec_nat (unat w)" for out and w :: u16
    using dec_u16 [of w] by (simp add: append_uint_def print_piece_id)
  moreover have "append_uint out (unat w) = out @ dec_nat (unat w)" for out and w :: u32
    using dec_u32 [of w] by (simp add: append_uint_def print_piece_id)
  moreover have "append_uint out (unat w) = out @ dec_nat (unat w)" for out and w :: u8
    using dec_byte [of w] by (simp add: append_uint_def print_piece_id)
  moreover have "append_uint out (pk_frame_len p) = out @ dec_nat (pk_frame_len p)" for out
    using dec_size [OF assms] by (simp add: append_uint_def print_piece_id)
  ultimately show ?thesis
    by (simp add: packet_format_def packet_line_def append_ip_line_def append_eth_line_def append_endpoint_def
        append_ipv4_text append_mac_text append_hex16_text append_flags_text Let_def)
qed

text \<open>For every packet whose length is a 64-bit size, no field is cut off by the 32-byte pieces and the
  8-byte flag buffer is never overrun: the printed line is exactly the full text of the fields.\<close>

theorem packet_format_exact:
  assumes "pk_frame_len p < 2 ^ 64"
  shows "packet_format p = Some (packet_line p)"
  by (rule format_line [OF assms])

lemma packet_format_exact_witness:
  "packet_format (zero_packet\<lparr>pk_frame_len := 60\<rparr>) = Some (packet_line (zero_packet\<lparr>pk_frame_len := 60\<rparr>))"
  by (rule packet_format_exact) (simp add: zero_packet_def)

text \<open>What should be shown of a capture: the lines of the frames that decode and match, in order.\<close>

definition decoded :: "u8 list \<Rightarrow> Packet option" where
  "decoded buf = (case decode_frame (Some buf) (length buf) of Some (NSH_OK, p) \<Rightarrow> Some p | _ \<Rightarrow> None)"

definition frames :: "(Recv \<times> bool) list \<Rightarrow> u8 list list" where
  "frames evs = filter (\<lambda>b. b \<noteq> []) (map (\<lambda>(r, _). case r of RECV_BYTES b \<Rightarrow> b | RECV_ERR \<Rightarrow> []) evs)"

definition shown_packets :: "NetmonFilter \<Rightarrow> (Recv \<times> bool) list \<Rightarrow> Packet list" where
  "shown_packets f evs = filter (\<lambda>p. filter_match p f) (List.map_filter decoded (frames evs))"

lemma decoded_cases:
  obtains (ok) p where "decode_frame (Some buf) (length buf) = Some (NSH_OK, p)" "decoded buf = Some p"
      "pk_frame_len p = length buf"
  | (bad) p where "decode_frame (Some buf) (length buf) = Some (NSH_ERR_INVALID, p)" "decoded buf = None"
proof -
  obtain e p where d: "decode_frame (Some buf) (length buf) = Some (e, p)"
    "e = NSH_OK \<and> packet_valid p \<and> pk_frame_len p = length buf \<or> e = NSH_ERR_INVALID \<and> p = zero_packet"
    using decode_frame_result [of buf "length buf"] by blast
  then show ?thesis using ok bad by (auto simp: decoded_def)
qed

lemma capture_loop_general:
  assumes "\<forall>ev\<in>set evs. (\<exists>b. fst ev = RECV_BYTES b \<and> length b \<le> 65536) \<and> snd ev"
  shows "capture_loop evs f n out = Some (0,
     \<lparr>n_total = n_total n + length (frames evs), n_shown = n_shown n + length (shown_packets f evs),
      n_malformed = n_malformed n + length (filter (\<lambda>b. decoded b = None) (frames evs))\<rparr>,
     out @ map (\<lambda>p. packet_line p @ [NEWLINE]) (shown_packets f evs))"
  using assms
proof (induction evs f n out rule: capture_loop.induct)
  case (1 f n out)
  then show ?case by (simp add: frames_def shown_packets_def map_filter_simps)
next
  case (2 w evs f n out)
  then show ?case by simp
next
  case (3 buf writes evs f n out)
  have rest: "\<forall>ev\<in>set evs. (\<exists>b. fst ev = RECV_BYTES b \<and> length b \<le> 65536) \<and> snd ev" and writes and small: "length buf \<le> 65536"
    using "3.prems" by auto
  show ?case
  proof (cases "buf = []")
    case True
    with 3(1) [OF True rest] show ?thesis by (simp add: frames_def shown_packets_def)
  next
    case False
    have fr: "frames ((RECV_BYTES buf, writes) # evs) = buf # frames evs" using False by (simp add: frames_def)
    show ?thesis
    proof (cases rule: decoded_cases [of buf])
      case (ok p)
      then have "pk_frame_len p < 2 ^ 64" using small by simp
      then have line: "packet_format p = Some (packet_line p)" by (rule format_line)
      show ?thesis
      proof (cases "filter_match p f")
        case True
        with 3(4) [OF False refl ok(1) refl _ _ line] rest False ok(1,2) line \<open>writes\<close> fr show ?thesis
          by (simp add: shown_packets_def map_filter_simps)
      next
        case nomatch: False
        with 3(3) [OF False refl ok(1) refl] rest False ok(1,2) fr show ?thesis
          by (simp add: shown_packets_def map_filter_simps)
      qed
    next
      case (bad p)
      with 3(2) [OF False refl bad(1) refl] rest False fr show ?thesis
        by (simp add: shown_packets_def map_filter_simps)
    qed
  qed
qed

text \<open>As long as the socket and the output work, the monitor prints exactly the lines of the frames
  that decode and match the filter, in arrival order, and its counters are the numbers of frames,
  of printed lines and of frames that do not decode.\<close>

theorem capture_loop_shows_matching:
  assumes "\<forall>ev\<in>set evs. (\<exists>b. fst ev = RECV_BYTES b \<and> length b \<le> 65536) \<and> snd ev"
  shows "capture_loop evs f \<lparr>n_total = 0, n_shown = 0, n_malformed = 0\<rparr> [] = Some (0,
     \<lparr>n_total = length (frames evs), n_shown = length (shown_packets f evs),
      n_malformed = length (filter (\<lambda>b. decoded b = None) (frames evs))\<rparr>,
     map (\<lambda>p. packet_line p @ [NEWLINE]) (shown_packets f evs))"
  using capture_loop_general [OF assms, of f "\<lparr>n_total = 0, n_shown = 0, n_malformed = 0\<rparr>" "[]"] by simp

lemma capture_loop_shows_matching_witness:
  "capture_loop [(RECV_BYTES [], True), (RECV_BYTES [1, 2], True)] \<lparr>nf_proto = NM_FILTER_ALL, nf_port = - 1\<rparr>
      \<lparr>n_total = 0, n_shown = 0, n_malformed = 0\<rparr> []
   = Some (0, \<lparr>n_total = 1, n_shown = 0, n_malformed = 1\<rparr>, [])"
proof -
  have "decoded [1, 2] = None" by (simp add: decoded_def decode_frame_def ETH_HDR_LEN_def)
  then show ?thesis
    using capture_loop_shows_matching [of "[(RECV_BYTES [], True), (RECV_BYTES [1, 2], True)]"
        "\<lparr>nf_proto = NM_FILTER_ALL, nf_port = - 1\<rparr>"]
    by (simp add: frames_def shown_packets_def map_filter_simps)
qed

end
