(* ===== verification/Expand.thy ===== *)
theory Expand
  imports Ast
begin

text \<open>
  \<open>src/shell/expand.c\<close>: variable, positional and tilde expansion of one word. The environment
  is the map \<open>getenv\<close> reads. Reads of the segment text go through \<open>char_at\<close>, which refuses an
  index behind the terminating NUL, so \<open>None\<close> is an out-of-bounds read. The accumulator \<open>acc\<close>
  is the text it holds (\<open>Util\<close> proves that \<open>Str\<close> implements appending).
\<close>

section \<open>Context and environment\<close>

type_synonym env = "string \<Rightarrow> string option"

definition getenv :: "env \<Rightarrow> string \<Rightarrow> string option" where "getenv e name = e name"

text \<open>\<open>setenv\<close> refuses an empty name and a name with an equals sign (\<open>EINVAL\<close>).\<close>

definition env_name_ok :: "string \<Rightarrow> bool" where
  "env_name_ok name \<longleftrightarrow> name \<noteq> [] \<and> CHR ''='' \<notin> set name"

definition setenv :: "env \<Rightarrow> string \<Rightarrow> string \<Rightarrow> env option" where
  "setenv e name v = (if env_name_ok name then Some (e(name \<mapsto> v)) else None)"

definition unsetenv :: "env \<Rightarrow> string \<Rightarrow> env option" where
  "unsetenv e name = (if env_name_ok name then Some (e(name := None)) else None)"

text \<open>\<open>argv\<close> is NULL, or an array whose entries may be NULL.\<close>

record ExpandCtx =
  x_last_status :: int
  x_argc :: int
  x_argv :: "string option list option"

definition CTX_EMPTY :: ExpandCtx where
  "CTX_EMPTY = \<lparr>x_last_status = 0, x_argc = 0, x_argv = None\<rparr>"

text \<open>The character at an index of a C string, NUL at its length, nothing behind that.\<close>

definition char_at :: "string \<Rightarrow> nat \<Rightarrow> char option" where
  "char_at s k = (if k < length s then Some (s ! k) else if k = length s then Some NUL else None)"

lemma char_at_simps [simp]:
  "char_at [] 0 = Some NUL" "char_at (c # s) 0 = Some c" "char_at (c # s) (Suc k) = char_at s k"
  by (simp_all add: char_at_def)

lemma char_at_drop: "k \<le> length s \<Longrightarrow> char_at s (k + j) = char_at (drop k s) j"
  by (auto simp: char_at_def)

section \<open>The pieces of an expansion\<close>

definition append_env :: "env \<Rightarrow> string \<Rightarrow> nat \<Rightarrow> string" where
  "append_env e p len = (case getenv e (take len p) of None \<Rightarrow> [] | Some v \<Rightarrow> v)"

definition append_int :: "int \<Rightarrow> string" where "append_int v = dec_int v"

definition append_positional :: "ExpandCtx \<Rightarrow> nat \<Rightarrow> string" where
  "append_positional ctx n = (case x_argv ctx of None \<Rightarrow> []
     | Some argv \<Rightarrow>
         if x_argc ctx \<le> int n then []
         else (case rd argv n of Some (Some v) \<Rightarrow> v | _ \<Rightarrow> []))"

definition append_count :: "ExpandCtx \<Rightarrow> string" where
  "append_count ctx =
     append_int (if x_argv ctx = None \<or> x_argc ctx < 1 then 0 else x_argc ctx - 1)"

definition name_len :: "string \<Rightarrow> nat" where
  "name_len p = (case p of [] \<Rightarrow> 0
     | c # cs \<Rightarrow> if is_name_start c then Suc (length (takeWhile is_name_char cs)) else 0)"

definition expand_tilde :: "env \<Rightarrow> string \<Rightarrow> bool \<Rightarrow> (nat \<times> string) option" where
  "expand_tilde e s word_end = do {
     c0 \<leftarrow> char_at s 0;
     if c0 \<noteq> CHR ''~'' then Some (0, [])
     else do {
       c1 \<leftarrow> char_at s 1;
       if c1 \<noteq> CHR ''/'' \<and> \<not> (c1 = NUL \<and> word_end) then Some (0, [])
       else (case getenv e ''HOME'' of
               None \<Rightarrow> Some (0, [])
             | Some home \<Rightarrow> if home = [] then Some (0, []) else Some (1, home))
     }
   }"

text \<open>
  One dollar sign at the head of the text: what is appended and how many characters are
  consumed, or the syntax error of a brace form.
\<close>

definition expand_dollar :: "env \<Rightarrow> ExpandCtx \<Rightarrow> string \<Rightarrow> (NshError + string \<times> nat) option" where
  "expand_dollar e ctx s = do {
     c1 \<leftarrow> char_at s 1;
     if c1 = CHR ''?'' then Some (Inr (append_int (x_last_status ctx), 2))
     else if c1 = CHR ''#'' then Some (Inr (append_count ctx, 2))
     else if is_digit c1 then Some (Inr (append_positional ctx (digit_val c1), 2))
     else if c1 = CHR ''{'' then do {
       c2 \<leftarrow> char_at s 2;
       c3 \<leftarrow> (if is_digit c2 then char_at s 3 else Some NUL);
       if is_digit c2 \<and> c3 = CHR ''}''
       then Some (Inr (append_positional ctx (digit_val c2), 4))
       else (let n = name_len (drop 2 s)
             in if n = 0 then Some (Inl NSH_ERR_SYNTAX)
                else do {
                  close \<leftarrow> char_at s (2 + n);
                  if close \<noteq> CHR ''}'' then Some (Inl NSH_ERR_SYNTAX)
                  else Some (Inr (append_env e (drop 2 s) n, n + 3))
                })
     }
     else (let n = name_len (drop 1 s)
           in if n = 0 then Some (Inr (''$'', 1))
              else Some (Inr (append_env e (drop 1 s) n, n + 1)))
   }"

lemma expand_dollar_consumes:
  "expand_dollar e ctx s = Some (Inr (v, k)) \<Longrightarrow> 0 < k"
  by (auto simp: expand_dollar_def Let_def split: Option.bind_splits if_splits)

function expand_segment :: "env \<Rightarrow> ExpandCtx \<Rightarrow> string \<Rightarrow> string \<Rightarrow> (NshError \<times> string) option" where
  "expand_segment e ctx [] acc = Some (NSH_OK, acc)"
| "expand_segment e ctx (c # cs) acc =
     (if c \<noteq> CHR ''$'' then expand_segment e ctx cs (acc @ [c])
      else (case expand_dollar e ctx (c # cs) of
              None \<Rightarrow> None
            | Some (Inl err) \<Rightarrow> Some (err, acc)
            | Some (Inr (v, k)) \<Rightarrow> expand_segment e ctx (drop k (c # cs)) (acc @ v)))"
  by pat_completeness auto
termination
  by (relation "measure (\<lambda>(e, ctx, s, acc). length s)") (auto dest: expand_dollar_consumes)

declare expand_segment.simps [simp del]

text \<open>The loop over the segments; \<open>first\<close> says that the index is 0, \<open>only\<close> that there is one segment.\<close>

fun expand_segs ::
  "env \<Rightarrow> ExpandCtx \<Rightarrow> bool \<Rightarrow> bool \<Rightarrow> WordSeg list \<Rightarrow> string \<Rightarrow> (NshError \<times> string) option" where
  "expand_segs e ctx first only [] acc = Some (NSH_OK, acc)"
| "expand_segs e ctx first only (sg # sgs) acc =
     (if ws_expand sg then do {
        (skip, home) \<leftarrow> (if first then expand_tilde e (cstr (ws_text sg)) only else Some (0, []));
        (err, acc1) \<leftarrow> expand_segment e ctx (drop skip (cstr (ws_text sg))) (acc @ home);
        if err \<noteq> NSH_OK then Some (err, acc1)
        else expand_segs e ctx False only sgs acc1
      }
      else expand_segs e ctx False only sgs (acc @ cstr (ws_text sg)))"

definition expand_word ::
  "env \<Rightarrow> Token option \<Rightarrow> ExpandCtx option \<Rightarrow> (NshError \<times> string option) option" where
  "expand_word e tok ctx = (case tok of
     None \<Rightarrow> Some (NSH_ERR_INVALID, None)
   | Some t \<Rightarrow>
       if t_kind t \<noteq> TOK_WORD then Some (NSH_ERR_INVALID, None)
       else do {
         (err, acc) \<leftarrow> expand_segs e (case ctx of None \<Rightarrow> CTX_EMPTY | Some c \<Rightarrow> c) True
                         (length (t_segs t) = 1) (t_segs t) [];
         if err \<noteq> NSH_OK then Some (err, None) else Some (NSH_OK, Some acc)
       })"


section \<open>A grammar of words\<close>

text \<open>
  What \<open>docs/manual.md\<close> describes: an expandable run is a sequence of pieces. A flag says
  whether a name or digit is braced; an unbraced name must not run into a further name
  character, and a plain dollar sign must not start any of the other forms.
\<close>

datatype piece =
    Plain char
  | Dollar
  | LastStatus
  | Count
  | Positional nat bool
  | Variable string bool

fun render_piece :: "piece \<Rightarrow> string" where
  "render_piece (Plain c) = [c]"
| "render_piece Dollar = ''$''"
| "render_piece LastStatus = ''$?''"
| "render_piece Count = ''$#''"
| "render_piece (Positional d b) = (if b then ''${'' @ [digit_char d] @ ''}'' else [CHR ''$'', digit_char d])"
| "render_piece (Variable n b) = (if b then ''${'' @ n @ ''}'' else CHR ''$'' # n)"

definition render_pieces :: "piece list \<Rightarrow> string" where
  "render_pieces ps = concat (map render_piece ps)"

text \<open>\<open>follow\<close> is the character behind a piece, NUL at the end.\<close>

fun piece_ok :: "piece \<Rightarrow> char \<Rightarrow> bool" where
  "piece_ok (Plain c) follow \<longleftrightarrow> c \<noteq> CHR ''$''"
| "piece_ok Dollar follow \<longleftrightarrow> follow \<notin> {CHR ''?'', CHR ''#'', CHR ''{''} \<and> \<not> is_name_char follow"
| "piece_ok LastStatus follow \<longleftrightarrow> True"
| "piece_ok Count follow \<longleftrightarrow> True"
| "piece_ok (Positional d b) follow \<longleftrightarrow> d < 10"
| "piece_ok (Variable n b) follow \<longleftrightarrow> valid_name n \<and> (b \<or> \<not> is_name_char follow)"

fun pieces_ok :: "piece list \<Rightarrow> bool" where
  "pieces_ok [] \<longleftrightarrow> True"
| "pieces_ok (p # ps) \<longleftrightarrow> piece_ok p (peek (render_pieces ps)) \<and> pieces_ok ps"

fun piece_value :: "env \<Rightarrow> ExpandCtx \<Rightarrow> piece \<Rightarrow> string" where
  "piece_value e ctx (Plain c) = [c]"
| "piece_value e ctx Dollar = ''$''"
| "piece_value e ctx LastStatus = dec_int (x_last_status ctx)"
| "piece_value e ctx Count = append_count ctx"
| "piece_value e ctx (Positional d b) = append_positional ctx d"
| "piece_value e ctx (Variable n b) = (case e n of None \<Rightarrow> [] | Some v \<Rightarrow> v)"

definition pieces_value :: "env \<Rightarrow> ExpandCtx \<Rightarrow> piece list \<Rightarrow> string" where
  "pieces_value e ctx ps = concat (map (piece_value e ctx) ps)"

lemma pieces_simps [simp]:
  "render_pieces [] = []" "render_pieces (p # ps) = render_piece p @ render_pieces ps"
  "pieces_value e ctx [] = []" "pieces_value e ctx (p # ps) = piece_value e ctx p @ pieces_value e ctx ps"
  by (simp_all add: render_pieces_def pieces_value_def)

lemma name_char_split: "is_name_char c \<longleftrightarrow> is_name_start c \<or> is_digit c"
  by (simp add: is_name_char_def is_digit_def)

lemma name_start_not_digit: "is_name_start c \<Longrightarrow> \<not> is_digit c"
  by (auto simp: is_name_start_def is_digit_def less_eq_char_def)

lemma special_not_name [simp]:
  "\<not> is_name_char (CHR ''?'')" "\<not> is_name_char (CHR ''#'')" "\<not> is_name_char (CHR ''{'')"
  "\<not> is_name_char (CHR ''}'')" "\<not> is_name_char (CHR ''$'')" "\<not> is_name_char NUL"
  "\<not> is_digit (CHR ''?'')" "\<not> is_digit (CHR ''#'')" "\<not> is_digit (CHR ''{'')" "\<not> is_digit NUL"
  "\<not> is_name_start (CHR ''{'')" "\<not> is_name_start NUL"
  by (simp_all add: is_name_char_def is_name_start_def is_digit_def less_eq_char_def)

lemma digit_char_digit: "is_digit c \<Longrightarrow> \<exists>d<10. c = digit_char d"
proof -
  assume "is_digit c"
  then have "48 \<le> (of_char c :: nat)" "(of_char c :: nat) \<le> 57"
    by (auto simp: is_digit_def less_eq_char_def)
  then have "digit_val c < 10" and "48 + digit_val c = of_char c"
    unfolding digit_val_def by linarith+
  then have "digit_val c < 10 \<and> c = digit_char (digit_val c)"
    unfolding digit_char_def by simp
  then show ?thesis by blast
qed

lemma char_at_peek [simp]: "char_at s 0 = Some (peek s)"
  by (cases s) (simp_all add: peek_def)

lemma scan_simps [simp]:
  "peek (c # s) = c" "peek [] = NUL"
  "char_at (a # s) 1 = Some (peek s)" "char_at (a # b # s) 2 = Some (peek s)"
  "char_at (a # b # c # s) 3 = Some (peek s)" "drop 1 (a # s) = s" "drop 2 (a # b # s) = s"
  by (simp_all add: peek_def numeral_2_eq_2 numeral_3_eq_3)

lemma name_len_name:
  assumes "valid_name n" and "\<not> is_name_char (peek r)"
  shows "name_len (n @ r) = length n"
proof -
  obtain c cs where n: "n = c # cs" "is_name_start c" "\<forall>x\<in>set cs. is_name_char x"
    using assms(1) by (cases n) (auto simp: valid_name_def)
  have "takeWhile is_name_char (cs @ r) = cs"
    using n(3) assms(2) by (cases r) (auto simp: peek_def takeWhile_append2)
  with n show ?thesis by (simp add: name_len_def)
qed

lemma name_len_split:
  "name_len s \<noteq> 0 \<Longrightarrow> \<exists>n r. s = n @ r \<and> valid_name n \<and> name_len s = length n \<and> \<not> is_name_char (peek r)"
proof -
  assume nz: "name_len s \<noteq> 0"
  then obtain c cs where s: "s = c # cs" "is_name_start c"
    by (auto simp: name_len_def split: list.splits if_splits)
  let ?n = "c # takeWhile is_name_char cs" and ?r = "dropWhile is_name_char cs"
  have "s = ?n @ ?r" using s by simp
  moreover have "valid_name ?n"
    using s by (auto simp: valid_name_def dest: set_takeWhileD)
  moreover have "\<not> is_name_char (peek ?r)"
  proof (cases "dropWhile is_name_char cs")
    case Nil
    show ?thesis unfolding Nil by (simp add: peek_def)
  next
    case (Cons x xs)
    with hd_dropWhile [of is_name_char cs] show ?thesis by (simp add: peek_def)
  qed
  ultimately show ?thesis using name_len_name by blast
qed

lemma peek_name_start: "name_len s = 0 \<longleftrightarrow> \<not> is_name_start (peek s)"
  by (cases s) (auto simp: name_len_def peek_def)

lemma char_at_append: "char_at (n @ r) (length n) = Some (peek r)"
  by (cases r) (simp_all add: char_at_def peek_def)


lemma expand_dollar_var:
  assumes "valid_name n" and "\<not> is_name_char (peek r)"
  shows "expand_dollar e ctx (CHR ''$'' # n @ r)
     = Some (Inr (case e n of None \<Rightarrow> [] | Some v \<Rightarrow> v, length n + 1))"
proof -
  obtain c cs where n: "n = c # cs" "is_name_start c"
    using assms(1) by (cases n) (auto simp: valid_name_def)
  then have "c \<noteq> CHR ''?''" "c \<noteq> CHR ''#''" "c \<noteq> CHR ''{''" "\<not> is_digit c"
    by (auto simp: is_name_start_def is_digit_def less_eq_char_def)
  moreover have "name_len (n @ r) = length n" by (rule name_len_name [OF assms])
  ultimately show ?thesis
    using n by (simp add: expand_dollar_def append_env_def getenv_def Let_def)
qed

lemma expand_dollar_brace:
  assumes "valid_name n" and "\<not> is_name_char (peek r)"
  shows "expand_dollar e ctx (CHR ''$'' # CHR ''{'' # n @ r) =
     (if peek r = CHR ''}'' then Some (Inr (case e n of None \<Rightarrow> [] | Some v \<Rightarrow> v, length n + 3))
      else Some (Inl NSH_ERR_SYNTAX))"
proof -
  obtain c cs where n: "n = c # cs" "is_name_start c" "\<not> is_digit c"
    using assms(1) by (cases n) (auto simp: valid_name_def dest: name_start_not_digit)
  have len: "name_len (n @ r) = length n" by (rule name_len_name [OF assms])
  have close: "char_at (CHR ''$'' # CHR ''{'' # n @ r) (2 + length n) = Some (peek r)"
    by (simp add: char_at_append)
  have "peek (n @ r) = c" "length n \<noteq> 0" using n by simp_all
  then show ?thesis
    using n(3) len close by (simp add: expand_dollar_def append_env_def getenv_def Let_def)
qed

lemma expand_dollar_digit:
  assumes "d < 10"
  shows "expand_dollar e ctx (CHR ''$'' # digit_char d # r) = Some (Inr (append_positional ctx d, 2))"
    and "expand_dollar e ctx (CHR ''$'' # CHR ''{'' # digit_char d # CHR ''}'' # r)
       = Some (Inr (append_positional ctx d, 4))"
proof -
  have "digit_char d \<noteq> CHR ''?''" "digit_char d \<noteq> CHR ''#''"
    using is_digit_char [OF assms] by (auto simp: is_digit_def less_eq_char_def)
  with assms show "expand_dollar e ctx (CHR ''$'' # digit_char d # r) = Some (Inr (append_positional ctx d, 2))"
    and "expand_dollar e ctx (CHR ''$'' # CHR ''{'' # digit_char d # CHR ''}'' # r)
       = Some (Inr (append_positional ctx d, 4))"
    by (simp_all add: expand_dollar_def)
qed

lemma expand_dollar_plain:
  assumes "peek r \<notin> {CHR ''?'', CHR ''#'', CHR ''{''}" and "\<not> is_name_char (peek r)"
  shows "expand_dollar e ctx (CHR ''$'' # r) = Some (Inr (''$'', 1))"
  using assms peek_name_start [of r]
  by (simp add: expand_dollar_def name_char_split Let_def)

text \<open>A rendering expands to its value.\<close>

lemma expand_segment_render:
  "pieces_ok ps \<Longrightarrow> expand_segment e ctx (render_pieces ps) acc = Some (NSH_OK, acc @ pieces_value e ctx ps)"
proof (induction ps arbitrary: acc)
  case Nil
  then show ?case by (simp add: expand_segment.simps)
next
  case (Cons p ps)
  let ?r = "render_pieces ps"
  have IH: "expand_segment e ctx ?r acc' = Some (NSH_OK, acc' @ pieces_value e ctx ps)" for acc'
    using Cons by simp
  show ?case
  proof (cases p)
    case (Plain c)
    with Cons.prems IH show ?thesis by (simp add: expand_segment.simps)
  next
    case Dollar
    with Cons.prems IH expand_dollar_plain [of ?r e ctx] show ?thesis
      by (simp add: expand_segment.simps)
  next
    case LastStatus
    have "expand_dollar e ctx (''$?'' @ ?r) = Some (Inr (dec_int (x_last_status ctx), 2))"
      by (simp add: expand_dollar_def append_int_def)
    with LastStatus IH show ?thesis by (simp add: expand_segment.simps)
  next
    case Count
    have "expand_dollar e ctx (''$#'' @ ?r) = Some (Inr (append_count ctx, 2))"
      by (simp add: expand_dollar_def)
    with Count IH show ?thesis by (simp add: expand_segment.simps)
  next
    case (Positional d b)
    with Cons.prems IH expand_dollar_digit [of d e ctx ?r] show ?thesis
      by (cases b) (simp_all add: expand_segment.simps)
  next
    case (Variable n b)
    show ?thesis
    proof (cases b)
      case True
      have "expand_dollar e ctx (CHR ''$'' # CHR ''{'' # n @ CHR ''}'' # ?r)
          = Some (Inr (case e n of None \<Rightarrow> [] | Some v \<Rightarrow> v, length n + 3))"
        using expand_dollar_brace [of n "CHR ''}'' # ?r" e ctx] Cons.prems Variable
        by (simp add: peek_def)
      with True Variable IH show ?thesis by (simp add: expand_segment.simps numeral_3_eq_3)
    next
      case False
      with Variable Cons.prems have "expand_dollar e ctx (CHR ''$'' # n @ ?r)
          = Some (Inr (case e n of None \<Rightarrow> [] | Some v \<Rightarrow> v, length n + 1))"
        by (intro expand_dollar_var) auto
      with False Variable IH show ?thesis by (simp add: expand_segment.simps)
    qed
  qed
qed


text \<open>
  And a text is the rendering of well-formed pieces, or it runs into a bad brace form. The
  case distinction follows the branches of \<open>expand_dollar\<close>.
\<close>

definition dollar_piece :: "string \<Rightarrow> bool" where
  "dollar_piece s \<longleftrightarrow> (\<exists>p r. s = render_piece p @ r \<and> render_piece p \<noteq> [] \<and> piece_ok p (peek r)
     \<and> (\<forall>e ctx. expand_dollar e ctx s = Some (Inr (piece_value e ctx p, length (render_piece p)))))"

lemma dollar_pieceI:
  assumes "s = render_piece p @ r" "render_piece p \<noteq> []" "piece_ok p (peek r)"
    and "\<And>e ctx. expand_dollar e ctx s = Some (Inr (piece_value e ctx p, length (render_piece p)))"
  shows "dollar_piece s"
  using assms unfolding dollar_piece_def by blast

lemma expand_dollar_brace_cases:
  assumes "\<not> (is_digit (peek r) \<and> peek (tl r) = CHR ''}'')"
  shows "dollar_piece (CHR ''$'' # CHR ''{'' # r)
    \<or> (\<forall>e ctx. expand_dollar e ctx (CHR ''$'' # CHR ''{'' # r) = Some (Inl NSH_ERR_SYNTAX))"
proof (cases "name_len r = 0")
  case True
  show ?thesis
  proof (cases r)
    case Nil
    with True show ?thesis by (simp add: expand_dollar_def Let_def)
  next
    case (Cons c cs)
    with True assms show ?thesis by (simp add: expand_dollar_def Let_def)
  qed
next
  case False
  then obtain n q where q: "r = n @ q" "valid_name n" "\<not> is_name_char (peek q)"
    using name_len_split by blast
  show ?thesis
  proof (cases "peek q = CHR ''}''")
    case True
    then obtain q' where q': "q = CHR ''}'' # q'" by (cases q) auto
    have "dollar_piece (CHR ''$'' # CHR ''{'' # r)"
      by (rule dollar_pieceI [where p = "Variable n True" and r = q'])
         (use q q' expand_dollar_brace [OF q(2,3)] in simp_all)
    then show ?thesis ..
  next
    case False
    with q expand_dollar_brace [OF q(2,3)] show ?thesis by simp
  qed
qed

lemma expand_dollar_cases:
  "dollar_piece (CHR ''$'' # t)
    \<or> (\<forall>e ctx. expand_dollar e ctx (CHR ''$'' # t) = Some (Inl NSH_ERR_SYNTAX))"
proof -
  consider (status) "peek t = CHR ''?''" | (count) "peek t = CHR ''#''" | (digit) "is_digit (peek t)"
    | (brace) "peek t = CHR ''{''"
    | (other) "peek t \<notin> {CHR ''?'', CHR ''#'', CHR ''{''}" "\<not> is_digit (peek t)"
    by blast
  then show ?thesis
  proof cases
    case status
    then obtain r where "t = CHR ''?'' # r" by (cases t) auto
    then have "dollar_piece (CHR ''$'' # t)"
      by (intro dollar_pieceI [where p = LastStatus and r = r])
         (simp_all add: expand_dollar_def append_int_def)
    then show ?thesis ..
  next
    case count
    then obtain r where "t = CHR ''#'' # r" by (cases t) auto
    then have "dollar_piece (CHR ''$'' # t)"
      by (intro dollar_pieceI [where p = Count and r = r]) (simp_all add: expand_dollar_def)
    then show ?thesis ..
  next
    case digit
    then obtain c r where t: "t = c # r" "is_digit c" by (cases t) auto
    then obtain d where d: "c = digit_char d" "d < 10" using digit_char_digit by blast
    then have "dollar_piece (CHR ''$'' # t)"
      by (intro dollar_pieceI [where p = "Positional d False" and r = r])
         (use t d expand_dollar_digit [OF d(2)] in simp_all)
    then show ?thesis ..
  next
    case brace
    then obtain r where t: "t = CHR ''{'' # r" by (cases t) auto
    show ?thesis
    proof (cases "is_digit (peek r) \<and> peek (tl r) = CHR ''}''")
      case True
      then obtain c q where r: "r = c # CHR ''}'' # q" "is_digit c"
        by (cases r; cases "tl r") auto
      then obtain d where d: "c = digit_char d" "d < 10" using digit_char_digit by blast
      then have "dollar_piece (CHR ''$'' # t)"
        by (intro dollar_pieceI [where p = "Positional d True" and r = q])
           (use t r d expand_dollar_digit [OF d(2)] in simp_all)
      then show ?thesis ..
    next
      case False
      with t show ?thesis using expand_dollar_brace_cases by simp
    qed
  next
    case other
    show ?thesis
    proof (cases "name_len t = 0")
      case True
      then have "\<not> is_name_char (peek t)" using other by (simp add: peek_name_start name_char_split)
      then have "dollar_piece (CHR ''$'' # t)"
        by (intro dollar_pieceI [where p = Dollar and r = t]) (use other expand_dollar_plain in simp_all)
      then show ?thesis ..
    next
      case False
      then obtain n q where q: "t = n @ q" "valid_name n" "\<not> is_name_char (peek q)"
        using name_len_split by blast
      then have "dollar_piece (CHR ''$'' # t)"
        by (intro dollar_pieceI [where p = "Variable n False" and r = q])
           (use expand_dollar_var [OF q(2,3)] in simp_all)
      then show ?thesis ..
    qed
  qed
qed

lemma expand_segment_cases:
  "(\<exists>ps. pieces_ok ps \<and> s = render_pieces ps)
   \<or> (\<forall>e ctx acc. \<exists>acc'. expand_segment e ctx s acc = Some (NSH_ERR_SYNTAX, acc'))"
proof (induction s rule: length_induct)
  case (1 s)
  show ?case
  proof (cases s)
    case Nil
    then show ?thesis by (intro disjI1 exI [of _ "[]"]) simp
  next
    case (Cons c t)
    show ?thesis
    proof (cases "c = CHR ''$''")
      case False
      have "(\<exists>ps. pieces_ok ps \<and> t = render_pieces ps)
          \<or> (\<forall>e ctx acc. \<exists>acc'. expand_segment e ctx t acc = Some (NSH_ERR_SYNTAX, acc'))"
        using "1.IH" Cons by simp
      then show ?thesis
      proof
        assume "\<exists>ps. pieces_ok ps \<and> t = render_pieces ps"
        then obtain ps where "pieces_ok ps" "t = render_pieces ps" by blast
        with Cons False show ?thesis by (intro disjI1 exI [of _ "Plain c # ps"]) simp
      qed (use Cons False in \<open>simp add: expand_segment.simps\<close>)
    next
      case True
      with Cons have s: "s = CHR ''$'' # t" by simp
      show ?thesis
      proof (cases "dollar_piece s")
        case dp: True
        then obtain p r where p: "s = render_piece p @ r" "render_piece p \<noteq> []" "piece_ok p (peek r)"
          and ex: "\<And>e ctx. expand_dollar e ctx s = Some (Inr (piece_value e ctx p, length (render_piece p)))"
          unfolding dollar_piece_def by blast
        have step: "expand_segment e ctx s acc = expand_segment e ctx r (acc @ piece_value e ctx p)"
          for e ctx acc
        proof -
          have "drop (length (render_piece p)) s = r" using p(1) by simp
          then show ?thesis using ex [of e ctx] s by (simp add: expand_segment.simps)
        qed
        have "length r < length s" using p(1,2) by simp
        with "1.IH" have "(\<exists>ps. pieces_ok ps \<and> r = render_pieces ps)
            \<or> (\<forall>e ctx acc. \<exists>acc'. expand_segment e ctx r acc = Some (NSH_ERR_SYNTAX, acc'))" by blast
        then show ?thesis
        proof
          assume "\<exists>ps. pieces_ok ps \<and> r = render_pieces ps"
          then obtain ps where "pieces_ok ps" "r = render_pieces ps" by blast
          with p show ?thesis by (intro disjI1 exI [of _ "p # ps"]) simp
        qed (simp add: step)
      next
        case False
        with s have "expand_dollar e ctx s = Some (Inl NSH_ERR_SYNTAX)" for e ctx
          using expand_dollar_cases [of t] by simp
        with s show ?thesis by (simp add: expand_segment.simps)
      qed
    qed
  qed
qed


section \<open>Words\<close>

datatype run = Quoted string | Expanding "piece list"

fun run_seg :: "run \<Rightarrow> WordSeg" where
  "run_seg (Quoted s) = \<lparr>ws_text = s, ws_expand = False\<rparr>"
| "run_seg (Expanding ps) = \<lparr>ws_text = render_pieces ps, ws_expand = True\<rparr>"

fun run_ok :: "run \<Rightarrow> bool" where
  "run_ok (Quoted s) \<longleftrightarrow> True"
| "run_ok (Expanding ps) \<longleftrightarrow> pieces_ok ps"

fun run_value :: "env \<Rightarrow> ExpandCtx \<Rightarrow> run \<Rightarrow> string" where
  "run_value e ctx (Quoted s) = s"
| "run_value e ctx (Expanding ps) = pieces_value e ctx ps"

text \<open>
  A tilde stands for a nonempty \<open>HOME\<close> at the start of an expandable first run, before a slash
  or as the whole word.
\<close>

definition home_tilde :: "env \<Rightarrow> run list \<Rightarrow> bool" where
  "home_tilde e rs \<longleftrightarrow> e ''HOME'' \<noteq> None \<and> e ''HOME'' \<noteq> Some []
     \<and> (case rs of Expanding (Plain c # ps) # rest \<Rightarrow>
          c = CHR ''~'' \<and> (peek (render_pieces ps) = CHR ''/'' \<or> ps = [] \<and> rest = [])
        | _ \<Rightarrow> False)"

definition runs_value :: "env \<Rightarrow> ExpandCtx \<Rightarrow> run list \<Rightarrow> string" where
  "runs_value e ctx rs = concat (map (run_value e ctx) rs)"

definition word_value :: "env \<Rightarrow> ExpandCtx \<Rightarrow> run list \<Rightarrow> string" where
  "word_value e ctx rs =
     (if home_tilde e rs then the (e ''HOME'') @ tl (runs_value e ctx rs) else runs_value e ctx rs)"

lemma expand_segs_rest:
  "\<forall>r\<in>set rs. run_ok r \<Longrightarrow> \<forall>r\<in>set rs. nul_free (ws_text (run_seg r)) \<Longrightarrow>
   expand_segs e ctx False only (map run_seg rs) acc = Some (NSH_OK, acc @ runs_value e ctx rs)"
proof (induction rs arbitrary: acc)
  case (Cons r rs)
  then show ?case
    by (cases r) (simp_all add: expand_segment_render cstr_id runs_value_def)
qed (simp add: runs_value_def)

lemma expand_tilde_no: "peek s \<noteq> CHR ''~'' \<Longrightarrow> expand_tilde e s only = Some (0, [])"
  by (simp add: expand_tilde_def)

lemma render_pieces_Nil: "render_pieces ps = [] \<longleftrightarrow> ps = []"
proof
  assume "render_pieces ps = []"
  then show "ps = []"
  proof (cases ps)
    case (Cons p qs)
    have "render_piece p \<noteq> []" by (cases p) auto
    with Cons \<open>render_pieces ps = []\<close> show ?thesis by simp
  qed simp
qed simp

lemma expand_tilde_render:
  assumes "nul_free (render_pieces ps)"
  shows "expand_tilde e (render_pieces ps) (rest = []) =
    Some (if home_tilde e (Expanding ps # rest) then (1, the (e ''HOME'')) else (0, []))"
proof (cases "\<exists>qs. ps = Plain (CHR ''~'') # qs")
  case True
  then obtain qs where ps: "ps = Plain (CHR ''~'') # qs" by blast
  have "peek (render_pieces qs) = NUL \<longleftrightarrow> qs = []"
    using assms ps by (cases "render_pieces qs") (auto simp: render_pieces_Nil)
  with ps show ?thesis
    by (auto simp: expand_tilde_def home_tilde_def getenv_def split: option.splits)
next
  case False
  have "peek (render_pieces ps) \<noteq> CHR ''~''"
  proof (cases ps)
    case (Cons p qs)
    with False show ?thesis by (cases p) auto
  qed simp
  moreover have "\<not> home_tilde e (Expanding ps # rest)"
    using False by (auto simp: home_tilde_def split: list.splits piece.splits)
  ultimately show ?thesis by (simp add: expand_tilde_no)
qed

lemma home_tilde_pieces:
  "home_tilde e (Expanding ps # rest) \<Longrightarrow> \<exists>qs. ps = Plain (CHR ''~'') # qs"
  by (auto simp: home_tilde_def split: list.splits piece.splits)

lemma expand_segs_runs:
  assumes "\<forall>r\<in>set rs. run_ok r" and "\<forall>r\<in>set rs. nul_free (ws_text (run_seg r))"
  shows "expand_segs e ctx True (length rs = 1) (map run_seg rs) [] = Some (NSH_OK, word_value e ctx rs)"
proof (cases rs)
  case Nil
  then show ?thesis by (simp add: word_value_def runs_value_def home_tilde_def)
next
  case (Cons r rest)
  note rest = expand_segs_rest [of rest e ctx "length rs = 1"]
  have len: "length rs = 1 \<longleftrightarrow> rest = []" using Cons by simp
  show ?thesis
  proof (cases r)
    case (Quoted s)
    with Cons assms rest len show ?thesis
      by (simp add: cstr_id word_value_def home_tilde_def runs_value_def)
  next
    case (Expanding ps)
    with Cons assms have nf: "nul_free (render_pieces ps)" and ok: "pieces_ok ps" by simp_all
    show ?thesis
    proof (cases "home_tilde e rs")
      case False
      with Cons Expanding assms rest len nf ok show ?thesis
        by (simp add: cstr_id expand_tilde_render expand_segment_render word_value_def runs_value_def)
    next
      case True
      with Cons Expanding obtain qs where qs: "ps = Plain (CHR ''~'') # qs"
        using home_tilde_pieces by blast
      have "expand_segment e ctx (render_pieces qs) acc = Some (NSH_OK, acc @ pieces_value e ctx qs)" for acc
        using ok qs by (intro expand_segment_render) simp
      with True Cons Expanding assms rest len nf qs show ?thesis
        by (simp add: cstr_id expand_tilde_render word_value_def runs_value_def del: pieces_simps(2))
           (simp add: word_value_def runs_value_def)
    qed
  qed
qed


definition renderable :: "string \<Rightarrow> bool" where
  "renderable s \<longleftrightarrow> (\<exists>ps. pieces_ok ps \<and> s = render_pieces ps)"

lemma renderable_tilde: "renderable t \<Longrightarrow> renderable (CHR ''~'' # t)"
proof -
  assume "renderable t"
  then obtain ps where "pieces_ok ps" "t = render_pieces ps" unfolding renderable_def by blast
  then have "pieces_ok (Plain (CHR ''~'') # ps) \<and> CHR ''~'' # t = render_pieces (Plain (CHR ''~'') # ps)"
    by simp
  then show ?thesis unfolding renderable_def by blast
qed

lemma expand_segment_bad:
  "\<not> renderable s \<Longrightarrow> \<exists>acc'. expand_segment e ctx s acc = Some (NSH_ERR_SYNTAX, acc')"
  using expand_segment_cases [of s] unfolding renderable_def by blast

lemma expand_segment_good:
  "renderable s \<Longrightarrow> \<exists>acc'. expand_segment e ctx s acc = Some (NSH_OK, acc')"
  unfolding renderable_def by (auto simp: expand_segment_render)

lemma expand_tilde_result:
  "\<exists>h. expand_tilde e s only = Some (0, h) \<and> h = [] \<or>
       expand_tilde e s only = Some (1, h) \<and> (\<exists>t. s = CHR ''~'' # t)"
proof (cases s)
  case (Cons c t)
  then show ?thesis by (auto simp: expand_tilde_def split: option.splits)
qed (simp add: expand_tilde_def)

definition seg_renderable :: "WordSeg \<Rightarrow> bool" where
  "seg_renderable sg \<longleftrightarrow> (ws_expand sg \<longrightarrow> renderable (cstr (ws_text sg)))"

lemma expand_first_bad:
  assumes "\<not> renderable s" and "expand_tilde e s only = Some (skip, home)"
  shows "\<exists>acc'. expand_segment e ctx (drop skip s) acc = Some (NSH_ERR_SYNTAX, acc')"
proof -
  consider "skip = 0" | t where "skip = 1" "s = CHR ''~'' # t"
    using expand_tilde_result [of e s only] assms(2) by auto
  then show ?thesis
  proof cases
    case 1
    with assms(1) show ?thesis by (simp add: expand_segment_bad)
  next
    case (2 t)
    with assms(1) renderable_tilde [of t] have "\<not> renderable t" by blast
    with 2 show ?thesis by (simp add: expand_segment_bad)
  qed
qed

lemma expand_first_good:
  assumes "renderable s" and "expand_tilde e s only = Some (skip, home)"
  shows "\<exists>acc'. expand_segment e ctx (drop skip s) acc = Some (NSH_OK, acc')"
proof -
  consider "skip = 0" | t where "skip = 1" "s = CHR ''~'' # t"
    using expand_tilde_result [of e s only] assms(2) by auto
  then show ?thesis
  proof cases
    case 1
    with assms(1) show ?thesis by (simp add: expand_segment_good)
  next
    case (2 t)
    have "expand_segment e ctx s acc' = expand_segment e ctx t (acc' @ ''~'')" for acc'
      using 2 by (simp add: expand_segment.simps)
    then have "\<not> (\<forall>acc'. \<exists>b. expand_segment e ctx t acc' = Some (NSH_ERR_SYNTAX, b))"
      using expand_segment_good [OF assms(1), of e ctx "[]"] by (metis NshError.distinct(3) option.inject prod.inject)
    then have "renderable t" using expand_segment_bad [of t e ctx] by blast
    with 2 show ?thesis by (simp add: expand_segment_good)
  qed
qed

lemma expand_segs_bad:
  "\<not> list_all seg_renderable sgs \<Longrightarrow>
   \<exists>acc'. expand_segs e ctx first only sgs acc = Some (NSH_ERR_SYNTAX, acc')"
proof (induction sgs arbitrary: first acc)
  case (Cons sg sgs)
  show ?case
  proof (cases "ws_expand sg")
    case False
    with Cons show ?thesis by (simp add: seg_renderable_def)
  next
    case ex: True
    let ?s = "cstr (ws_text sg)"
    obtain skip home where t: "(if first then expand_tilde e ?s only else Some (0, [])) = Some (skip, home)"
      using expand_tilde_result [of e ?s only] by (cases first) auto
    show ?thesis
    proof (cases "renderable ?s")
      case True
      obtain acc1 where "expand_segment e ctx (drop skip ?s) (acc @ home) = Some (NSH_OK, acc1)"
        using t expand_first_good [OF True] expand_segment_good [OF True]
        by (cases first) fastforce+
      moreover have "seg_renderable sg" using True by (simp add: seg_renderable_def)
      then have "\<not> list_all seg_renderable sgs" using Cons.prems by simp
      ultimately show ?thesis using Cons.IH ex t by simp
    next
      case False
      obtain acc1 where "expand_segment e ctx (drop skip ?s) (acc @ home) = Some (NSH_ERR_SYNTAX, acc1)"
        using t expand_first_bad [OF False] expand_segment_bad [OF False]
        by (cases first) fastforce+
      then show ?thesis using ex t by simp
    qed
  qed
qed simp

lemma segs_are_runs:
  "list_all seg_renderable sgs \<Longrightarrow> \<forall>sg\<in>set sgs. nul_free (ws_text sg) \<Longrightarrow>
   \<exists>rs. sgs = map run_seg rs \<and> (\<forall>r\<in>set rs. run_ok r)"
proof (induction sgs)
  case (Cons sg sgs)
  then obtain rs where rs: "sgs = map run_seg rs" "\<forall>r\<in>set rs. run_ok r" by auto
  have "\<exists>r. sg = run_seg r \<and> run_ok r"
  proof (cases "ws_expand sg")
    case True
    with Cons.prems obtain ps where "pieces_ok ps" "ws_text sg = render_pieces ps"
      by (auto simp: seg_renderable_def renderable_def cstr_id)
    with True show ?thesis by (intro exI [of _ "Expanding ps"]) (cases sg, simp)
  next
    case False
    then show ?thesis by (intro exI [of _ "Quoted (ws_text sg)"]) (cases sg, simp)
  qed
  then obtain r where "sg = run_seg r" "run_ok r" by blast
  with rs show ?case by (intro exI [of _ "r # rs"]) simp
qed simp

definition word_of_runs :: "Token \<Rightarrow> run list \<Rightarrow> bool" where
  "word_of_runs t rs \<longleftrightarrow> t_segs t = map run_seg rs \<and> (\<forall>r\<in>set rs. run_ok r)"

lemma word_segs_nul_free: "word_ok t \<Longrightarrow> \<forall>sg\<in>set (t_segs t). nul_free (ws_text sg)"
  by (auto simp: word_ok_def tok_ok_def seg_ok_def)

lemma expand_word_runs:
  assumes "word_ok t" and "word_of_runs t rs"
  shows "expand_word e (Some t) (Some ctx) = Some (NSH_OK, Some (word_value e ctx rs))"
proof -
  have "\<forall>r\<in>set rs. nul_free (ws_text (run_seg r))"
    using word_segs_nul_free [OF assms(1)] assms(2) by (auto simp: word_of_runs_def)
  with assms expand_segs_runs [of rs e ctx] show ?thesis
    by (simp add: expand_word_def word_of_runs_def word_ok_def)
qed

lemma expand_word_bad:
  assumes "word_ok t" and "\<nexists>rs. word_of_runs t rs"
  shows "expand_word e (Some t) ctx = Some (NSH_ERR_SYNTAX, None)"
proof -
  have "\<not> list_all seg_renderable (t_segs t)"
    using segs_are_runs [OF _ word_segs_nul_free [OF assms(1)]] assms(2)
    by (auto simp: word_of_runs_def)
  from expand_segs_bad [OF this] obtain acc' where
    "expand_segs e (case ctx of None \<Rightarrow> CTX_EMPTY | Some c \<Rightarrow> c) True (length (t_segs t) = 1) (t_segs t) []
       = Some (NSH_ERR_SYNTAX, acc')" by blast
  with assms(1) show ?thesis by (simp add: expand_word_def word_ok_def)
qed

text \<open>Expansion always answers, and the answer is a word or a syntax error.\<close>

lemma expand_word_total:
  assumes "word_ok t"
  shows "(\<exists>v. expand_word e (Some t) (Some ctx) = Some (NSH_OK, Some v))
    \<or> expand_word e (Some t) (Some ctx) = Some (NSH_ERR_SYNTAX, None)"
  using expand_word_runs [OF assms] expand_word_bad [OF assms] by blast

section \<open>Properties\<close>

text \<open>C8: expanding a word is evaluating its grammar. A well-formed word that reads as a sequence of
  quoting runs and pieces (plain text, \<open>$?\<close>, \<open>$#\<close>, positional parameters, variables, a lone
  dollar) expands, without ever reading behind a segment's end, to the concatenation of the
  pieces' values, with a leading tilde replaced by a nonempty \<open>HOME\<close>; every value is used
  as it is and never expanded again. A word that does not read so is a syntax error, and this
  depends on the word alone, not on the environment, the status or the arguments.\<close>

theorem expand_word_spec:
  assumes "word_ok t"
  shows "(\<forall>rs. word_of_runs t rs \<longrightarrow>
      (\<forall>e ctx. expand_word e (Some t) (Some ctx) = Some (NSH_OK, Some (word_value e ctx rs))))
    \<and> ((\<nexists>rs. word_of_runs t rs) \<longrightarrow>
      (\<forall>e ctx. expand_word e (Some t) (Some ctx) = Some (NSH_ERR_SYNTAX, None)))"
  using expand_word_runs [OF assms] expand_word_bad [OF assms] by blast

theorem expand_word_spec_witness:
  "expand_word [''A'' \<mapsto> ''$B'', ''HOME'' \<mapsto> ''/r'']
     (Some \<lparr>t_kind = TOK_WORD, t_segs = [\<lparr>ws_text = ''~/${A}.$1'', ws_expand = True\<rparr>]\<rparr>)
     (Some \<lparr>x_last_status = 0, x_argc = 2, x_argv = Some [Some ''sh'', Some ''x'', None]\<rparr>)
   = Some (NSH_OK, Some ''/r/$B.x'')"
proof -
  let ?t = "\<lparr>t_kind = TOK_WORD, t_segs = [\<lparr>ws_text = ''~/${A}.$1'', ws_expand = True\<rparr>]\<rparr>"
  let ?rs = "[Expanding [Plain (CHR ''~''), Plain (CHR ''/''), Variable ''A'' True, Plain (CHR ''.''),
     Positional 1 False]]"
  have "word_ok ?t" by (simp add: word_ok_def tok_ok_def seg_ok_def)
  moreover have "word_of_runs ?t ?rs"
    by (simp add: word_of_runs_def valid_name_def is_name_start_def digit_char_def) code_simp
  moreover have "word_value [''A'' \<mapsto> ''$B'', ''HOME'' \<mapsto> ''/r'']
      \<lparr>x_last_status = 0, x_argc = 2, x_argv = Some [Some ''sh'', Some ''x'', None]\<rparr> ?rs = ''/r/$B.x''"
    by (simp add: word_value_def runs_value_def home_tilde_def append_positional_def rd_def)
  ultimately show ?thesis using expand_word_spec [of ?t] by simp
qed

text \<open>C33: the escape \<open>\$\<close> inside double quotes does not protect the dollar sign. Scanning a line drops the
  backslash and keeps the run expandable, so the escaped and the plain spelling give the same
  tokens for every name, and the variable's value is substituted.\<close>

theorem dollar_escape_expands:
  assumes "valid_name n"
  shows "lexer_scan ([DQ, BSLASH, CHR ''$''] @ n @ [DQ]) = lexer_scan ([DQ, CHR ''$''] @ n @ [DQ])
    \<and> snd (lexer_scan ([DQ, BSLASH, CHR ''$''] @ n @ [DQ]))
        = [\<lparr>t_kind = TOK_WORD, t_segs = [\<lparr>ws_text = CHR ''$'' # n, ws_expand = True\<rparr>]\<rparr>]
    \<and> expand_word e (Some (hd (snd (lexer_scan ([DQ, BSLASH, CHR ''$''] @ n @ [DQ]))))) (Some ctx)
        = Some (NSH_OK, Some (case e n of None \<Rightarrow> [] | Some v \<Rightarrow> v))"
proof -
  have nf: "nul_free n" using assms by (rule valid_name_nul_free)
  have n: "DQ \<notin> set n" "BSLASH \<notin> set n"
    using assms by (cases n; force simp: valid_name_def is_name_char_def is_name_start_def less_eq_char_def)+
  have body: "double_body (n @ [DQ]) = Some (n, [])"
    using n by (induction n) auto
  have 1: "double_body (CHR ''$'' # n @ [DQ]) = Some (CHR ''$'' # n, [])"
    and 2: "double_body (BSLASH # CHR ''$'' # n @ [DQ]) = Some (CHR ''$'' # n, [])"
    using body by (simp_all add: dq_escapes_def)
  let ?w = "\<lparr>t_kind = TOK_WORD, t_segs = [\<lparr>ws_text = CHR ''$'' # n, ws_expand = True\<rparr>]\<rparr>"
  have c: "cstr (DQ # BSLASH # CHR ''$'' # n @ [DQ]) = DQ # BSLASH # CHR ''$'' # n @ [DQ]"
    "cstr (DQ # CHR ''$'' # n @ [DQ]) = DQ # CHR ''$'' # n @ [DQ]"
    using nf by (simp_all add: cstr_id)
  have s: "scan_char (DQ # BSLASH # CHR ''$'' # n @ [DQ]) wordbuf_init
        = Some ([], \<lparr>wb_segs = [\<lparr>ws_text = CHR ''$'' # n, ws_expand = True\<rparr>], wb_cur = []\<rparr>)"
    "scan_char (DQ # CHR ''$'' # n @ [DQ]) wordbuf_init
        = Some ([], \<lparr>wb_segs = [\<lparr>ws_text = CHR ''$'' # n, ws_expand = True\<rparr>], wb_cur = []\<rparr>)"
    by (simp_all add: scan_char_def scan_double_def body dq_escapes_def wordbuf_flush_bare_def wordbuf_push_seg_def
        wordbuf_init_def)
  have "lexer_scan ([DQ, BSLASH, CHR ''$''] @ n @ [DQ]) = (NSH_OK, [?w])"
    "lexer_scan ([DQ, CHR ''$''] @ n @ [DQ]) = (NSH_OK, [?w])"
    by (simp_all add: lexer_scan_def c lexer_loop.simps lexer_step_def s is_blank_def is_op_char_def
        wordbuf_finish_def wordbuf_pending_def wordbuf_flush_bare_def)
  moreover have "expand_word e (Some ?w) (Some ctx) = Some (NSH_OK, Some (case e n of None \<Rightarrow> [] | Some v \<Rightarrow> v))"
    using expand_word_runs [of ?w "[Expanding [Variable n False]]" e ctx] assms nf
    by (simp add: word_ok_def tok_ok_def seg_ok_def word_of_runs_def word_value_def home_tilde_def runs_value_def)
  ultimately show ?thesis by simp
qed

theorem dollar_escape_expands_witness:
  "expand_word [''HOME'' \<mapsto> ''/root''] (Some (hd (snd (lexer_scan ([DQ, BSLASH, CHR ''$''] @ ''HOME'' @ [DQ]))))) (Some CTX_EMPTY)
     = Some (NSH_OK, Some ''/root'')"
proof -
  have "valid_name ''HOME''" by code_simp
  from dollar_escape_expands [OF this, of "[''HOME'' \<mapsto> ''/root'']" CTX_EMPTY,
      THEN conjunct2, THEN conjunct2]
  show ?thesis by (simp only: fun_upd_same option.case)
qed

end
