(* ===== verification/Func.thy ===== *)
theory Func
  imports Expand Jobs
begin

text \<open>
  \<open>src/shell/func.c\<close>: the function table. Definitions stay in definition order; a redefinition
  displaces the old body into a second list, so a body that is running stays allocated. The
  locale \<open>name_table\<close> is the contract the evaluator needs of a table of names; the function
  table and the environment of \<open>Expand\<close> both meet it.
\<close>

section \<open>The contract of a table of names\<close>

locale name_table =
  fixes lookup :: "'s \<Rightarrow> string \<Rightarrow> 'v option"
    and define_in :: "'s \<Rightarrow> string \<Rightarrow> 'v \<Rightarrow> 's"
    and name_ok :: "string \<Rightarrow> bool"
  assumes lookup_same: "name_ok n \<Longrightarrow> lookup (define_in s n v) n = Some v"
    and lookup_other: "name_ok n \<Longrightarrow> m \<noteq> n \<Longrightarrow> lookup (define_in s n v) m = lookup s m"
begin

lemma lookup_define: "name_ok n \<Longrightarrow> lookup (define_in s n v) = (lookup s)(n \<mapsto> v)"
  by (rule ext) (simp add: lookup_same lookup_other)

lemma lookup_defines:
  "\<forall>(n, v)\<in>set ds. name_ok n \<Longrightarrow>
   lookup (foldl (\<lambda>s (n, v). define_in s n v) s ds) = lookup s ++ map_of (rev ds)"
proof (induction ds arbitrary: s)
  case (Cons d ds)
  obtain n v where d: "d = (n, v)" by (cases d)
  with Cons show ?case by (simp add: lookup_define map_add_upd_left map_add_assoc)
qed simp

end

section \<open>The function table\<close>

record Func =
  f_name :: string
  f_body :: Node

record FuncTable =
  g_funcs :: "Func list"
  g_retired :: "Node list"

definition func_find :: "FuncTable \<Rightarrow> string \<Rightarrow> nat option" where
  "func_find ft name = find_index (\<lambda>f. f_name f = name) (g_funcs ft)"

definition func_define :: "FuncTable \<Rightarrow> string option \<Rightarrow> Node \<Rightarrow> FuncTable" where
  "func_define ft name body = (case name of
     None \<Rightarrow> ft
   | Some name \<Rightarrow>
       (case func_find ft name of
          Some i \<Rightarrow> ft\<lparr>g_retired := g_retired ft @ [f_body (g_funcs ft ! i)],
                       g_funcs := (g_funcs ft)[i := (g_funcs ft ! i)\<lparr>f_body := body\<rparr>]\<rparr>
        | None \<Rightarrow> ft\<lparr>g_funcs := g_funcs ft @ [\<lparr>f_name = dup_cstr name, f_body = body\<rparr>]\<rparr>))"

definition func_lookup :: "FuncTable \<Rightarrow> string option \<Rightarrow> Node option" where
  "func_lookup ft name = (case name of
     None \<Rightarrow> None
   | Some name \<Rightarrow> map_option (\<lambda>i. f_body (g_funcs ft ! i)) (func_find ft name))"

definition func_free_all :: "FuncTable \<Rightarrow> FuncTable" where
  "func_free_all ft = \<lparr>g_funcs = [], g_retired = []\<rparr>"

text \<open>The map a table stands for, and the bodies it owns.\<close>

definition func_map :: "FuncTable \<Rightarrow> string \<Rightarrow> Node option" where
  "func_map ft name = func_lookup ft (Some name)"

definition owned :: "FuncTable \<Rightarrow> Node set" where
  "owned ft = f_body ` set (g_funcs ft) \<union> set (g_retired ft)"

lemma find_index_append:
  "find_index P (xs @ ys) =
     (case find_index P xs of Some i \<Rightarrow> Some i | None \<Rightarrow> map_option ((+) (length xs)) (find_index P ys))"
  by (induction xs) (cases "find_index P ys"; auto simp: option.map_comp comp_def split: option.splits)+

lemma find_index_less: "find_index P xs = Some i \<Longrightarrow> i < length xs"
  by (simp add: find_index_Some)

lemma find_index_update:
  "P y = P (xs ! i) \<Longrightarrow> find_index P (xs[i := y]) = find_index P xs"
proof (induction xs arbitrary: i)
  case (Cons x xs)
  then show ?case by (cases i) auto
qed simp

lemma func_map_define [nsh_abs]:
  assumes "nul_free name"
  shows "func_map (func_define ft (Some name) body) = (func_map ft)(name \<mapsto> body)"
proof (rule ext)
  fix m
  show "func_map (func_define ft (Some name) body) m = ((func_map ft)(name \<mapsto> body)) m"
  proof (cases "func_find ft name")
    case None
    with assms show ?thesis
      by (auto simp: func_map_def func_lookup_def func_find_def func_define_def find_index_append
          dup_cstr_def cstr_id nth_append split: option.splits dest: find_index_less)
  next
    case (Some i)
    then have i: "i < length (g_funcs ft)" "f_name (g_funcs ft ! i) = name"
      by (auto simp: func_find_def find_index_Some)
    let ?y = "(g_funcs ft ! i)\<lparr>f_body := body\<rparr>"
    have same: "find_index (\<lambda>f. f_name f = k) ((g_funcs ft)[i := ?y]) = find_index (\<lambda>f. f_name f = k) (g_funcs ft)"
      for k by (rule find_index_update) simp
    show ?thesis
    proof (cases "m = name")
      case True
      with Some i same show ?thesis
        by (simp add: func_map_def func_lookup_def func_find_def func_define_def)
    next
      case False
      have "j \<noteq> i" if "find_index (\<lambda>f. f_name f = m) (g_funcs ft) = Some j" for j
        using that i False by (auto simp: find_index_Some)
      with False Some same show ?thesis
        by (cases "find_index (\<lambda>f. f_name f = m) (g_funcs ft)")
           (simp_all add: func_map_def func_lookup_def func_find_def func_define_def)
    qed
  qed
qed

lemma func_define_owned [nsh_inv]: "owned (func_define ft (Some name) body) = insert body (owned ft)"
proof (cases "func_find ft name")
  case None
  then show ?thesis by (auto simp: owned_def func_define_def)
next
  case (Some i)
  then have i: "i < length (g_funcs ft)" by (simp add: func_find_def find_index_Some)
  let ?y = "(g_funcs ft ! i)\<lparr>f_body := body\<rparr>"
  have "g_funcs ft = take i (g_funcs ft) @ g_funcs ft ! i # drop (Suc i) (g_funcs ft)"
    using i by (rule id_take_nth_drop)
  then have "f_body ` set (g_funcs ft) =
      insert (f_body (g_funcs ft ! i)) (f_body ` (set (take i (g_funcs ft)) \<union> set (drop (Suc i) (g_funcs ft))))"
    by (metis (no_types, lifting) Un_insert_right image_insert list.simps(15) set_append)
  moreover have "f_body ` set ((g_funcs ft)[i := ?y]) =
      insert body (f_body ` (set (take i (g_funcs ft)) \<union> set (drop (Suc i) (g_funcs ft))))"
    using i by (simp add: upd_conv_take_nth_drop)
  ultimately show ?thesis using Some by (simp add: owned_def func_define_def) blast
qed

interpretation functab: name_table func_map "\<lambda>ft n b. func_define ft (Some n) b" nul_free
  by unfold_locales (simp_all add: nsh_abs)

interpretation envtab: name_table getenv "\<lambda>e n v. case setenv e n v of Some e' \<Rightarrow> e' | None \<Rightarrow> e" env_name_ok
  by unfold_locales (simp_all add: getenv_def setenv_def)

text \<open>Definitions in sequence, as the evaluator makes them: each body is a copy of the tree's.\<close>

definition define_all :: "FuncTable \<Rightarrow> (string \<times> Node) list \<Rightarrow> FuncTable" where
  "define_all ft ds = foldl (\<lambda>ft (n, b). func_define ft (Some n) b) ft ds"

lemma define_all_owned: "owned (define_all ft ds) = owned ft \<union> snd ` set ds"
  unfolding define_all_def
  by (induction ds arbitrary: ft) (auto simp: nsh_inv)

text \<open>C20: the function table is a map from names to bodies. After any sequence of definitions a name is
  bound to the body of its last definition, or to what it was bound to before if there is none,
  and every body that was ever defined is still owned by the table, so a call that redefines
  the running function does not free it.\<close>

theorem func_table_refines_map:
  assumes "list_all (\<lambda>(n, b). nul_free n) ds"
  shows "(\<forall>n. func_lookup (define_all ft ds) (Some n) =
            (case map_of (rev ds) n of Some b \<Rightarrow> Some b | None \<Rightarrow> func_lookup ft (Some n)))
    \<and> owned (define_all ft ds) = owned ft \<union> snd ` set ds"
proof -
  have "func_map (define_all ft ds) = func_map ft ++ map_of (rev ds)"
    unfolding define_all_def by (rule functab.lookup_defines) (use assms in \<open>auto simp: list_all_iff\<close>)
  then show ?thesis
    by (auto simp: fun_eq_iff map_add_def func_map_def define_all_owned split: option.splits)
qed

theorem func_table_refines_map_witness:
  "func_lookup (define_all \<lparr>g_funcs = [], g_retired = []\<rparr>
     [(''f'', NODE_LIST []), (''g'', NODE_ANDOR []), (''f'', NODE_IF [] [] None)]) (Some ''f'')
   = Some (NODE_IF [] [] None)"
  using func_table_refines_map [of "[(''f'', NODE_LIST []), (''g'', NODE_ANDOR []), (''f'', NODE_IF [] [] None)]"
      "\<lparr>g_funcs = [], g_retired = []\<rparr>"]
  by simp

end
