(* ===== verification/Proc.thy ===== *)
theory Proc
  imports Func History
begin

text \<open>
  The shell process: the C \<open>Shell\<close> struct (\<open>src/shell/shell.h\<close>), the process globals (function
  table, job table, environment, signal state) and the descriptor table, together with the
  operating system as a record of answers. The system is not under \<open>src/\<close>: every call takes
  what it answers from a record \<open>Os\<close> over a world of arbitrary type. \<open>signals.c\<close> and
  \<open>spawn.c\<close> are modelled here. Errors are the Linux \<open>errno\<close> numbers.
\<close>

section \<open>The operating system\<close>

definition EPERM :: nat where "EPERM = 1"
definition ENOENT :: nat where "ENOENT = 2"
definition ESRCH :: nat where "ESRCH = 3"
definition EINTR :: nat where "EINTR = 4"
definition EBADF :: nat where "EBADF = 9"
definition EACCES :: nat where "EACCES = 13"
definition ENOTDIR :: nat where "ENOTDIR = 20"
definition EINVAL :: nat where "EINVAL = 22"
definition EMFILE :: nat where "EMFILE = 24"
definition ENOTTY :: nat where "ENOTTY = 25"

definition SIGINT :: int where "SIGINT = 2"
definition SIGQUIT :: int where "SIGQUIT = 3"
definition SIGCHLD :: int where "SIGCHLD = 17"
definition SIGCONT :: int where "SIGCONT = 18"
definition SIGTSTP :: int where "SIGTSTP = 20"
definition SIGTTOU :: int where "SIGTTOU = 22"

datatype OFlag = O_RDONLY | O_WRONLY | O_CREAT | O_TRUNC | O_APPEND

text \<open>An open file description.\<close>

type_synonym ofd = nat

text \<open>
  What a forked child is to run: the stage's command, its ends of the pipes, every pipe
  descriptor, and the group to join (0 for a new one).
\<close>

record ChildTask =
  ct_cmd :: Command
  ct_in :: int
  ct_out :: int
  ct_fds :: "int list"
  ct_pgid :: int

text \<open>
  The answers of the system. A sum is an \<open>errno\<close> or a result; a plain \<open>nat\<close> is an \<open>errno\<close>, 0 for
  success. \<open>os_signals\<close> are the signals delivered since the last look; \<open>os_execve\<close> is None
  when the process image was replaced. \<open>os_tool\<close> stands for the tools \<open>emu\<close>, \<open>heap\<close>,
  \<open>inspect\<close> and \<open>netmon\<close>, which do not touch the shell's state: what they print on stdout and
  stderr, and their status. \<open>os_reap\<close> is \<open>waitpid(-1, ...)\<close> with \<open>WNOHANG\<close>, \<open>WUNTRACED\<close> and
  \<open>WCONTINUED\<close>; \<open>os_write\<close> says how many bytes one \<open>write\<close> on descriptor 1 took; \<open>os_read\<close>
  reads one byte of descriptor 0, None at the end of the input; the last four are the calls
  on the terminal's settings and on the flags of descriptor 0, with \<open>O_NONBLOCK\<close> the only flag.
\<close>

text \<open>
  The terminal settings \<open>termios\<close>, as far as the program changes them, and the file status flags
  of descriptor 0.
\<close>

record Termios =
  t_echo :: bool
  t_icanon :: bool
  t_iexten :: bool
  t_isig :: bool
  t_icrnl :: bool
  t_ixon :: bool
  t_vmin :: nat
  t_vtime :: nat

datatype TcWhen = TCSADRAIN | TCSAFLUSH

record 'w Os =
  os_open :: "string \<Rightarrow> OFlag list \<Rightarrow> 'w \<Rightarrow> (nat + ofd) \<times> 'w"
  os_pipe :: "'w \<Rightarrow> (nat + ofd \<times> ofd) \<times> 'w"
  os_fork :: "ChildTask \<Rightarrow> 'w \<Rightarrow> (nat + int) \<times> 'w"
  os_setpgid :: "int \<Rightarrow> int \<Rightarrow> 'w \<Rightarrow> nat \<times> 'w"
  os_tcsetpgrp :: "int \<Rightarrow> int \<Rightarrow> 'w \<Rightarrow> nat \<times> 'w"
  os_waitpid :: "int \<Rightarrow> bool \<Rightarrow> 'w \<Rightarrow> (nat + int \<times> nat) \<times> 'w"
  os_kill :: "int \<Rightarrow> 'w \<Rightarrow> nat \<times> 'w"
  os_chdir :: "string \<Rightarrow> 'w \<Rightarrow> nat \<times> 'w"
  os_getcwd :: "'w \<Rightarrow> (nat + string) \<times> 'w"
  os_signals :: "'w \<Rightarrow> int list \<times> 'w"
  os_execve :: "string \<Rightarrow> 'w \<Rightarrow> nat option \<times> 'w"
  os_tool :: "string \<Rightarrow> string list \<Rightarrow> 'w \<Rightarrow> (string \<times> string \<times> int) \<times> 'w"
  os_strerror :: "nat \<Rightarrow> string"
  os_reap :: "'w \<Rightarrow> (int \<times> nat) option \<times> 'w"
  os_write :: "string \<Rightarrow> 'w \<Rightarrow> (nat + nat) \<times> 'w"
  os_read :: "'w \<Rightarrow> (nat + char option) \<times> 'w"
  os_tcgetattr :: "'w \<Rightarrow> nat \<times> 'w"
  os_tcsetattr :: "TcWhen \<Rightarrow> Termios \<Rightarrow> 'w \<Rightarrow> nat \<times> 'w"
  os_getfl :: "'w \<Rightarrow> nat \<times> 'w"
  os_setfl :: "bool \<Rightarrow> 'w \<Rightarrow> nat \<times> 'w"

section \<open>The process\<close>

datatype FlowState = FLOW_NONE | FLOW_BREAK | FLOW_CONTINUE | FLOW_RETURN

record Shell =
  sh_history :: History
  last_status :: int
  want_exit :: bool
  exit_code :: int
  interactive :: bool
  tty_fd :: int
  shell_pgid :: int
  sh_flow :: FlowState
  flow_status :: int
  loop_depth :: int
  func_depth :: int
  sh_argc :: int
  sh_argv :: "string option list option"

text \<open>
  What a signal does: the default, nothing, or one of the handlers. The last three are those of the
  tools \<open>emu\<close> and \<open>netmon\<close>, installed only while one of them runs.
\<close>

datatype Disposition = SIG_DFL | SIG_IGN | Chld_handler | Int_handler | Cont_handler | Tstp_handler | Stop_handler

record Signals =
  g_chld_flag :: bool
  g_int_flag :: bool
  sig_disp :: "int \<Rightarrow> Disposition"

text \<open>A descriptor slot holds the open file and the close-on-exec flag.\<close>

type_synonym fdtab = "(ofd \<times> bool) option list"

text \<open>The statics of \<open>src/emu/term.c\<close>, and the kernel's side of the terminal.\<close>

record Terminal =
  saved_termios :: Termios
  saved_flags :: bool
  raw_active :: bool
  raw_owns_screen :: bool
  k_termios :: Termios
  k_nonblock :: bool

text \<open>
  The rest of the process state: environment, functions, jobs, descriptors, the bytes in
  stdout's buffer, what has been written to which open file, the terminal's foreground group
  as the shell last set it, the signal state, the terminal and the world.
\<close>

record 'w Proc = Shell +
  p_env :: env
  p_funcs :: FuncTable
  p_jobs :: table
  p_fds :: fdtab
  p_out :: string
  p_log :: "(ofd option \<times> string) list"
  p_tty :: int
  p_sig :: Signals
  p_term :: Terminal
  p_world :: 'w

section \<open>Descriptors and output\<close>

definition fd_file :: "fdtab \<Rightarrow> nat \<Rightarrow> ofd option" where
  "fd_file t fd = (case rd t fd of Some (Some (o1, _)) \<Rightarrow> Some o1 | _ \<Rightarrow> None)"

text \<open>The lowest free slot that is at least \<open>k\<close>.\<close>

definition lowest_free :: "nat \<Rightarrow> fdtab \<Rightarrow> nat option" where
  "lowest_free k t = map_option ((+) k) (find_index (\<lambda>s. s = None) (drop k t))"

lemma lowest_free_Some:
  "lowest_free k t = Some i \<Longrightarrow> k \<le> i \<and> i < length t \<and> t ! i = None \<and> (\<forall>j. k \<le> j \<and> j < i \<longrightarrow> t ! j \<noteq> None)"
proof -
  assume "lowest_free k t = Some i"
  then obtain m where m: "i = k + m" "m < length t - k" "drop k t ! m = None" "\<forall>j<m. drop k t ! j \<noteq> None"
    by (auto simp: lowest_free_def find_index_Some)
  have "t ! j \<noteq> None" if "k \<le> j" "j < i" for j
    using m(4) [rule_format, of "j - k"] that m(1,2) by simp
  with m show ?thesis by simp
qed

definition sys_close :: "nat \<Rightarrow> fdtab \<Rightarrow> fdtab option" where
  "sys_close fd t = (if fd_file t fd = None then None else Some (t[fd := None]))"

definition sys_dup2 :: "nat \<Rightarrow> nat \<Rightarrow> fdtab \<Rightarrow> fdtab option" where
  "sys_dup2 old new t = (case fd_file t old of
     None \<Rightarrow> None
   | Some f \<Rightarrow> if new = old then Some t
              else if new < length t then Some (t[new := Some (f, False)]) else None)"

text \<open>\<open>fcntl(fd, F_DUPFD_CLOEXEC, k)\<close>.\<close>

definition sys_dupfd :: "nat \<Rightarrow> nat \<Rightarrow> fdtab \<Rightarrow> nat + nat \<times> fdtab" where
  "sys_dupfd fd k t = (case fd_file t fd of
     None \<Rightarrow> Inl EBADF
   | Some f \<Rightarrow> (case lowest_free k t of
        None \<Rightarrow> Inl EMFILE
      | Some i \<Rightarrow> Inr (i, t[i := Some (f, True)])))"

definition sys_open :: "'w Os \<Rightarrow> string \<Rightarrow> OFlag list \<Rightarrow> 'w Proc \<Rightarrow> (nat + nat) \<times> 'w Proc" where
  "sys_open os path flags p = (case lowest_free 0 (p_fds p) of
     None \<Rightarrow> (Inl EMFILE, p)
   | Some fd \<Rightarrow> (case os_open os path flags (p_world p) of
        (Inl e, w) \<Rightarrow> (Inl e, p\<lparr>p_world := w\<rparr>)
      | (Inr f, w) \<Rightarrow> (Inr fd, p\<lparr>p_world := w, p_fds := (p_fds p)[fd := Some (f, False)]\<rparr>)))"

text \<open>stderr is unbuffered; stdout keeps its bytes until \<open>fflush\<close>.\<close>

definition put_err :: "string \<Rightarrow> 'w Proc \<Rightarrow> 'w Proc" where
  "put_err s p = p\<lparr>p_log := p_log p @ [(fd_file (p_fds p) 2, s)]\<rparr>"

definition put_out :: "string \<Rightarrow> 'w Proc \<Rightarrow> 'w Proc" where
  "put_out s p = p\<lparr>p_out := p_out p @ s\<rparr>"

definition fflush :: "'w Proc \<Rightarrow> 'w Proc" where
  "fflush p = (if p_out p = [] then p
     else p\<lparr>p_log := p_log p @ [(fd_file (p_fds p) 1, p_out p)], p_out := []\<rparr>)"

definition nullsh_line :: "string \<Rightarrow> string" where
  "nullsh_line s = ''nullsh: '' @ s @ [NEWLINE]"

section \<open>Signals\<close>

definition IGNORED_SIGNALS :: "int list" where
  "IGNORED_SIGNALS = [SIGINT, SIGQUIT, SIGTSTP, SIGTTOU]"

definition chld_handler :: "Signals \<Rightarrow> Signals" where "chld_handler s = s\<lparr>g_chld_flag := True\<rparr>"
definition int_handler :: "Signals \<Rightarrow> Signals" where "int_handler s = s\<lparr>g_int_flag := True\<rparr>"

text \<open>A failing \<open>sigaction\<close> aborts the process; here it succeeds.\<close>

definition set_disposition :: "int \<Rightarrow> Disposition \<Rightarrow> Signals \<Rightarrow> Signals" where
  "set_disposition sig h s = s\<lparr>sig_disp := (sig_disp s)(sig := h)\<rparr>"

definition signals_install_shell :: "Signals \<Rightarrow> Signals" where
  "signals_install_shell s =
     foldl (\<lambda>s sig. set_disposition sig SIG_IGN s) (set_disposition SIGCHLD Chld_handler s) IGNORED_SIGNALS"

definition signals_reset_child :: "Signals \<Rightarrow> Signals" where
  "signals_reset_child s =
     foldl (\<lambda>s sig. set_disposition sig SIG_DFL s) (set_disposition SIGCHLD SIG_DFL s) IGNORED_SIGNALS"

definition signals_chld_take :: "Signals \<Rightarrow> bool \<times> Signals" where
  "signals_chld_take s = (g_chld_flag s, s\<lparr>g_chld_flag := False\<rparr>)"

definition signals_int_watch :: "bool \<Rightarrow> Signals \<Rightarrow> Signals" where
  "signals_int_watch on s =
     set_disposition SIGINT (if on then Int_handler else SIG_IGN) (s\<lparr>g_int_flag := False\<rparr>)"

definition signals_int_take :: "Signals \<Rightarrow> bool \<times> Signals" where
  "signals_int_take s = (g_int_flag s, s\<lparr>g_int_flag := False\<rparr>)"

text \<open>Delivery runs the handler that is installed; the default actions and the handlers of the tools
  are not the shell's.\<close>

definition deliver :: "int \<Rightarrow> Signals \<Rightarrow> Signals" where
  "deliver sig s = (case sig_disp s sig of
     Chld_handler \<Rightarrow> chld_handler s | Int_handler \<Rightarrow> int_handler s | _ \<Rightarrow> s)"

definition poll_signals :: "'w Os \<Rightarrow> 'w Proc \<Rightarrow> 'w Proc" where
  "poll_signals os p = (let (sigs, w) = os_signals os (p_world p)
     in p\<lparr>p_world := w, p_sig := fold deliver sigs (p_sig p)\<rparr>)"

definition int_take :: "'w Os \<Rightarrow> 'w Proc \<Rightarrow> bool \<times> 'w Proc" where
  "int_take os p = (let q = poll_signals os p; (fired, s) = signals_int_take (p_sig q)
     in (fired, q\<lparr>p_sig := s\<rparr>))"

section \<open>Groups, the terminal and waiting\<close>

definition spawn_join_group :: "'w Os \<Rightarrow> int \<Rightarrow> int \<Rightarrow> 'w Proc \<Rightarrow> 'w Proc" where
  "spawn_join_group os pid pgid p = (let (e, w) = os_setpgid os pid pgid (p_world p); q = p\<lparr>p_world := w\<rparr>
     in if e = 0 then q
        else if e \<noteq> EACCES \<and> e \<noteq> ESRCH then put_err (nullsh_line (''setpgid: '' @ os_strerror os e)) q
        else q)"

definition spawn_set_terminal :: "'w Os \<Rightarrow> int \<Rightarrow> 'w Proc \<Rightarrow> 'w Proc" where
  "spawn_set_terminal os pgid p =
     (if \<not> interactive p \<or> tty_fd p < 0 \<or> pgid \<le> 0 then p
      else (let (e, w) = os_tcsetpgrp os (tty_fd p) pgid (p_world p); q = p\<lparr>p_world := w\<rparr>
            in if e = 0 then q\<lparr>p_tty := pgid\<rparr>
               else if e \<noteq> ENOTTY \<and> e \<noteq> EPERM
                    then put_err (nullsh_line (''tcsetpgrp: '' @ os_strerror os e)) q
               else q))"

definition status_code :: "nat \<Rightarrow> int" where
  "status_code w =
     (if WIFEXITED w then int (WEXITSTATUS w)
      else if WIFSIGNALED w then 128 + int (WTERMSIG w)
      else if WIFSTOPPED w then 128 + int (WSTOPSIG w)
      else 1)"

text \<open>The retry loop around \<open>waitpid\<close>; the fuel bounds the number of \<open>EINTR\<close> answers in a row.\<close>

fun wait_retry :: "'w Os \<Rightarrow> nat \<Rightarrow> int \<Rightarrow> bool \<Rightarrow> 'w \<Rightarrow> ((nat + int \<times> nat) \<times> 'w) option" where
  "wait_retry os 0 pid nohang w = None"
| "wait_retry os (Suc n) pid nohang w = (case os_waitpid os pid nohang w of
     (Inl e, w1) \<Rightarrow> if e = EINTR then wait_retry os n pid nohang w1 else Some (Inl e, w1)
   | (Inr r, w1) \<Rightarrow> Some (Inr r, w1))"

text \<open>The loop over the group; \<open>status\<close> is set by the last process only.\<close>

fun wait_loop ::
  "'w Os \<Rightarrow> nat \<Rightarrow> int list \<Rightarrow> bool \<Rightarrow> int \<Rightarrow> 'w \<Rightarrow> (int \<times> bool \<times> 'w) option" where
  "wait_loop os n [] stopped status w = Some (status, stopped, w)"
| "wait_loop os n (pid # pids) stopped status w =
     (if pid \<le> 0 then wait_loop os n pids stopped status w
      else (case wait_retry os n pid stopped w of
              None \<Rightarrow> None
            | Some (Inl e, w1) \<Rightarrow> wait_loop os n pids stopped status w1
            | Some (Inr (got, ws), w1) \<Rightarrow>
                if got \<le> 0 then wait_loop os n pids stopped status w1
                else wait_loop os n pids (stopped \<or> WIFSTOPPED ws)
                       (if pids = [] then status_code ws else status) w1))"

definition spawn_wait_pids ::
  "'w Os \<Rightarrow> nat \<Rightarrow> int list \<Rightarrow> 'w Proc \<Rightarrow> (int \<times> bool \<times> 'w Proc) option" where
  "spawn_wait_pids os n pids p = (case wait_loop os n pids False 0 (p_world p) of
     None \<Rightarrow> None
   | Some (status, stopped, w) \<Rightarrow> Some (status, stopped, p\<lparr>p_world := w\<rparr>))"


section \<open>A concrete system\<close>

text \<open>
  A system in which every call succeeds and every child exits with status 0, and a shell as it
  starts on it, for the examples: descriptors 0 to 2 are open, five slots are free.
\<close>

definition quiet_os :: "nat Os" where
  "quiet_os = \<lparr>os_open = (\<lambda>path flags w. (Inr w, Suc w)), os_pipe = (\<lambda>w. (Inr (w, Suc w), w + 2)),
     os_fork = (\<lambda>t w. (Inr (int w), Suc w)), os_setpgid = (\<lambda>pid g w. (0, w)),
     os_tcsetpgrp = (\<lambda>fd g w. (0, w)), os_waitpid = (\<lambda>pid nohang w. (Inr (pid, 0), w)),
     os_kill = (\<lambda>pid w. (0, w)), os_chdir = (\<lambda>d w. (0, w)), os_getcwd = (\<lambda>w. (Inr ''/tmp'', w)),
     os_signals = (\<lambda>w. ([], w)), os_execve = (\<lambda>path w. (Some ENOENT, w)),
     os_tool = (\<lambda>name argv w. (([], [], 0), w)), os_strerror = (\<lambda>e. ''error''),
     os_reap = (\<lambda>w. (None, w)), os_write = (\<lambda>s w. (Inr (length s), w)), os_read = (\<lambda>w. (Inr None, w)),
     os_tcgetattr = (\<lambda>w. (0, w)), os_tcsetattr = (\<lambda>how t w. (0, w)), os_getfl = (\<lambda>w. (0, w)),
     os_setfl = (\<lambda>b w. (0, w))\<rparr>"

definition cooked :: Termios where
  "cooked = \<lparr>t_echo = True, t_icanon = True, t_iexten = True, t_isig = True, t_icrnl = True, t_ixon = True,
     t_vmin = 1, t_vtime = 0\<rparr>"

definition booted :: "'w \<Rightarrow> 'w Proc" where
  "booted w = \<lparr>sh_history = \<lparr>h_lines = None, h_cap = 0, h_len = 0, h_start = 0\<rparr>, last_status = 0, want_exit = False,
     exit_code = 0, interactive = False, tty_fd = -1, shell_pgid = 7, sh_flow = FLOW_NONE,
     flow_status = 0, loop_depth = 0, func_depth = 0, sh_argc = 1, sh_argv = Some [Some ''nullsh'', None],
     p_env = Map.empty, p_funcs = \<lparr>g_funcs = [], g_retired = []\<rparr>, p_jobs = [],
     p_fds = [Some (0, False), Some (1, False), Some (2, False), None, None, None, None, None],
     p_out = [], p_log = [], p_tty = 7,
     p_sig = signals_install_shell \<lparr>g_chld_flag = False, g_int_flag = False, sig_disp = (\<lambda>_. SIG_DFL)\<rparr>,
     p_term = \<lparr>saved_termios = cooked, saved_flags = False, raw_active = False, raw_owns_screen = False,
       k_termios = cooked, k_nonblock = False\<rparr>,
     p_world = w\<rparr>"

abbreviation boot :: "nat Proc" where "boot \<equiv> booted 100"

lemmas boot_def = booted_def

end
