(* ===== verification/Builtin.thy ===== *)
theory Builtin
  imports Proc
begin

text \<open>
  \<open>src/shell/builtin.c\<close> and the foreground wait of \<open>exec.c\<close> that \<open>fg\<close> uses. A builtin gets the
  argument vector (\<open>argc\<close> is its length) and the process, and answers a status and the process
  behind it; None is a wait that does not return within the fuel.
\<close>

section \<open>Messages\<close>

definition bi_err :: "string \<Rightarrow> string \<Rightarrow> 'w Proc \<Rightarrow> 'w Proc" where
  "bi_err name msg p = put_err (nullsh_line (name @ '': '' @ msg)) p"

definition bi_err_arg :: "string \<Rightarrow> string \<Rightarrow> string \<Rightarrow> 'w Proc \<Rightarrow> 'w Proc" where
  "bi_err_arg name arg msg p = put_err (nullsh_line (name @ '': '' @ arg @ '': '' @ msg)) p"

definition announce_stopped :: "Job \<Rightarrow> 'w Proc \<Rightarrow> 'w Proc" where
  "announce_stopped j p =
     put_err (''['' @ dec_int (j_id j) @ '']  Stopped  '' @ j_cmdline j @ [NEWLINE]) p"

definition exec_wait_foreground :: "'w Os \<Rightarrow> nat \<Rightarrow> nat \<Rightarrow> 'w Proc \<Rightarrow> (int \<times> 'w Proc) option" where
  "exec_wait_foreground os n i p = do {
     j \<leftarrow> rd (p_jobs p) i;
     (status, stopped, q) \<leftarrow> spawn_wait_pids os n (take (j_nproc j) (j_pids j)) (spawn_set_terminal os (j_pgid j) p);
     let q = spawn_set_terminal os (shell_pgid p) q;
     if stopped
     then Some (status, announce_stopped j (q\<lparr>p_jobs := (p_jobs q)[i := j\<lparr>j_state := JOB_STOPPED\<rparr>]\<rparr>))
     else Some (status, q\<lparr>p_jobs := (p_jobs q)[i := j\<lparr>j_nleft := 0, j_state := JOB_DONE\<rparr>]\<rparr>)
   }"

section \<open>Directory and environment\<close>

definition EXIT_BAD_ARG :: int where "EXIT_BAD_ARG = 2"

text \<open>\<open>setenv\<close> of a fixed name; a refusal is reported and makes the status 1.\<close>

definition put_env :: "'w Os \<Rightarrow> string \<Rightarrow> string \<Rightarrow> int \<times> 'w Proc \<Rightarrow> int \<times> 'w Proc" where
  "put_env os name v sp = (case sp of (status, p) \<Rightarrow>
     (case setenv (p_env p) name v of
        Some e \<Rightarrow> (status, p\<lparr>p_env := e\<rparr>)
      | None \<Rightarrow> (1, bi_err ''cd'' (os_strerror os EINVAL) p)))"

definition cd_to :: "'w Os \<Rightarrow> string \<Rightarrow> bool \<Rightarrow> 'w Proc \<Rightarrow> int \<times> 'w Proc" where
  "cd_to os target announce p =
     (let (prev, p1) = (case getenv (p_env p) ''PWD'' of
            Some d \<Rightarrow> (Some d, p)
          | None \<Rightarrow> (case os_getcwd os (p_world p) of
               (Inr d, w) \<Rightarrow> (Some d, p\<lparr>p_world := w\<rparr>)
             | (Inl _, w) \<Rightarrow> (None, p\<lparr>p_world := w\<rparr>)));
          (e, w) = os_chdir os target (p_world p1);
          p2 = p1\<lparr>p_world := w\<rparr>
      in if e \<noteq> 0 then (1, bi_err_arg ''cd'' target (os_strerror os e) p2)
         else (case os_getcwd os (p_world p2) of
             (Inl e, w) \<Rightarrow> (1, bi_err ''cd'' (os_strerror os e) (p2\<lparr>p_world := w\<rparr>))
           | (Inr buf, w) \<Rightarrow>
               (let p3 = p2\<lparr>p_world := w\<rparr>;
                    sp = (case prev of None \<Rightarrow> (0, p3) | Some d \<Rightarrow> put_env os ''OLDPWD'' d (0, p3));
                    (status, q) = put_env os ''PWD'' buf sp
                in (status, if announce then put_out (buf @ [NEWLINE]) q else q))))"

definition bi_cd :: "'w Os \<Rightarrow> string list \<Rightarrow> 'w Proc \<Rightarrow> int \<times> 'w Proc" where
  "bi_cd os argv p =
     (if length argv > 2 then (1, bi_err ''cd'' ''too many arguments'' p)
      else if length argv < 2 then
        (case getenv (p_env p) ''HOME'' of
           None \<Rightarrow> (1, bi_err ''cd'' ''HOME not set'' p)
         | Some t \<Rightarrow> cd_to os t False p)
      else if argv ! 1 = ''-'' then
        (case getenv (p_env p) ''OLDPWD'' of
           None \<Rightarrow> (1, bi_err ''cd'' ''OLDPWD not set'' p)
         | Some t \<Rightarrow> cd_to os t True p)
      else cd_to os (argv ! 1) False p)"

fun export_args :: "'w Os \<Rightarrow> string list \<Rightarrow> int \<Rightarrow> 'w Proc \<Rightarrow> int \<times> 'w Proc" where
  "export_args os [] status p = (status, p)"
| "export_args os (arg # args) status p =
     (let name = takeWhile (\<lambda>c. c \<noteq> CHR ''='') arg
      in if \<not> valid_name name then
           export_args os args 1 (bi_err_arg ''export'' arg ''not a valid identifier'' p)
         else if length name = length arg then export_args os args status p
         else (case setenv (p_env p) name (drop (length name + 1) arg) of
             Some e \<Rightarrow> export_args os args status (p\<lparr>p_env := e\<rparr>)
           | None \<Rightarrow> export_args os args 1 (bi_err_arg ''export'' arg (os_strerror os EINVAL) p)))"

definition bi_export :: "'w Os \<Rightarrow> string list \<Rightarrow> 'w Proc \<Rightarrow> int \<times> 'w Proc" where
  "bi_export os argv p = export_args os (tl argv) 0 p"

fun unset_args :: "'w Os \<Rightarrow> string list \<Rightarrow> int \<Rightarrow> 'w Proc \<Rightarrow> int \<times> 'w Proc" where
  "unset_args os [] status p = (status, p)"
| "unset_args os (arg # args) status p =
     (if \<not> valid_name arg then
        unset_args os args 1 (bi_err_arg ''unset'' arg ''not a valid identifier'' p)
      else (case unsetenv (p_env p) arg of
          Some e \<Rightarrow> unset_args os args status (p\<lparr>p_env := e\<rparr>)
        | None \<Rightarrow> unset_args os args 1 (bi_err_arg ''unset'' arg (os_strerror os EINVAL) p)))"

definition bi_unset :: "'w Os \<Rightarrow> string list \<Rightarrow> 'w Proc \<Rightarrow> int \<times> 'w Proc" where
  "bi_unset os argv p = unset_args os (tl argv) 0 p"

section \<open>Leaving the shell, a loop or a function\<close>

text \<open>The check both \<open>exit\<close> and \<open>return\<close> make of \<open>strtol\<close>'s end pointer.\<close>

definition not_numeric :: "string \<Rightarrow> bool" where
  "not_numeric s \<longleftrightarrow> (case strtol s of (v, rest, e) \<Rightarrow> rest = s \<or> rest \<noteq> [])"

definition bi_exit :: "string list \<Rightarrow> 'w Proc \<Rightarrow> int \<times> 'w Proc" where
  "bi_exit argv p =
     (if length argv > 2 then (1, bi_err ''exit'' ''too many arguments'' p)
      else if length argv = 2 then
        (if not_numeric (argv ! 1)
         then (EXIT_BAD_ARG, (bi_err ''exit'' ''numeric argument required'' p)
                 \<lparr>exit_code := EXIT_BAD_ARG, want_exit := True\<rparr>)
         else (let code = fst (strtol (argv ! 1)) mod 256
               in (code, p\<lparr>exit_code := code, want_exit := True\<rparr>)))
      else (last_status p, p\<lparr>exit_code := last_status p, want_exit := True\<rparr>))"

definition STATUS_MAX :: int where "STATUS_MAX = 255"

definition bi_flow :: "string list \<Rightarrow> string \<Rightarrow> FlowState \<Rightarrow> 'w Proc \<Rightarrow> int \<times> 'w Proc" where
  "bi_flow argv name fl p =
     (if length argv > 1 then (EXIT_BAD_ARG, bi_err name ''too many arguments'' p)
      else if loop_depth p \<le> 0 then (1, bi_err name ''only meaningful in a loop'' p)
      else (0, p\<lparr>sh_flow := fl\<rparr>))"

definition bi_break :: "string list \<Rightarrow> 'w Proc \<Rightarrow> int \<times> 'w Proc" where
  "bi_break argv p = bi_flow argv ''break'' FLOW_BREAK p"

definition bi_continue :: "string list \<Rightarrow> 'w Proc \<Rightarrow> int \<times> 'w Proc" where
  "bi_continue argv p = bi_flow argv ''continue'' FLOW_CONTINUE p"

definition bi_return :: "string list \<Rightarrow> 'w Proc \<Rightarrow> int \<times> 'w Proc" where
  "bi_return argv p =
     (if func_depth p \<le> 0 then (1, bi_err ''return'' ''only meaningful in a function'' p)
      else if length argv > 2 then (EXIT_BAD_ARG, bi_err ''return'' ''too many arguments'' p)
      else if length argv = 2 \<and> (not_numeric (argv ! 1) \<or> fst (strtol (argv ! 1)) < 0
                \<or> fst (strtol (argv ! 1)) > STATUS_MAX)
           then (EXIT_BAD_ARG, bi_err ''return'' ''numeric argument required'' p)
      else (let status = (if length argv = 2 then fst (strtol (argv ! 1)) else last_status p)
            in (status, p\<lparr>sh_flow := FLOW_RETURN, flow_status := status\<rparr>)))"

section \<open>Listings\<close>

definition HELP_TEXT :: "string list" where
  "HELP_TEXT =
    [''nullsh builtins:'',
     ''  bg [%N]          resume a stopped job in the background'',
     ''  break            leave the innermost loop'',
     ''  cd [dir]         change directory, no argument means $HOME,'',
     ''                   a single - means $OLDPWD'',
     ''  continue         skip to the innermost loop'' @ [CHR 0x27] @ ''s next iteration'',
     ''  emu ROM          run a chip-8 rom, esc quits'',
     ''  exit [status]    leave the shell, default is the last status'',
     ''  export NAME=VAL  set a variable for the shell and its children'',
     ''  fg [%N]          bring a job to the foreground and wait for it'',
     ''  heap [args]      allocator stats, strategy [NAME], or dump'',
     ''  help             print this list'',
     ''  history          print the command history, oldest first'',
     ''  inspect FILE     show elf structure: header, --sections,'',
     ''                   --segments, --symbols, --all'',
     ''  jobs             list the background and stopped jobs'',
     ''  netmon IFACE     decode packets, --filter tcp|udp, --port N'',
     ''  return [status]  leave a function, default is the last status'',
     ''  unset NAME       remove a variable from the environment'']"

definition bi_help :: "string list \<Rightarrow> 'w Proc \<Rightarrow> int \<times> 'w Proc" where
  "bi_help argv p = (0, put_out (concat (map (\<lambda>l. l @ [NEWLINE]) HELP_TEXT)) p)"

definition history_line :: "History \<Rightarrow> nat \<Rightarrow> string" where
  "history_line h i = (case history_get h i of
     None \<Rightarrow> []
   | Some line \<Rightarrow> pad_left (CHR '' '') 5 (dec_nat (i + 1)) @ ''  '' @ line @ [NEWLINE])"

definition bi_history :: "string list \<Rightarrow> 'w Proc \<Rightarrow> int \<times> 'w Proc" where
  "bi_history argv p =
     (if length argv > 1 then (1, bi_err ''history'' ''too many arguments'' p)
      else (0, put_out (concat (map (history_line (sh_history p)) [0..<history_count (sh_history p)])) p))"

definition JOB_ID_SCAN :: nat where "JOB_ID_SCAN = 4096"

fun state_word :: "JobState \<Rightarrow> string" where
  "state_word JOB_RUNNING = ''Running''"
| "state_word JOB_STOPPED = ''Stopped''"
| "state_word JOB_DONE = ''Done''"

definition job_line :: "Job \<Rightarrow> string" where
  "job_line j = ''['' @ dec_int (j_id j) @ '']  '' @ state_word (j_state j) @ ''  '' @ j_cmdline j @ [NEWLINE]"

text \<open>\<open>left\<close> ids remain to be tried, the next is \<open>JOB_ID_SCAN - left + 1\<close>.\<close>

fun jobs_scan :: "table \<Rightarrow> nat \<Rightarrow> int \<Rightarrow> nat \<Rightarrow> string" where
  "jobs_scan tb left i seen =
     (if left = 0 \<or> seen \<ge> length tb then []
      else (case jobs_by_id tb i of
          None \<Rightarrow> jobs_scan tb (left - 1) (i + 1) seen
        | Some k \<Rightarrow> job_line (tb ! k) @ jobs_scan tb (left - 1) (i + 1) (seen + 1)))"

declare jobs_scan.simps [simp del]

definition bi_jobs :: "string list \<Rightarrow> 'w Proc \<Rightarrow> int \<times> 'w Proc" where
  "bi_jobs argv p =
     (if length argv > 1 then (1, bi_err ''jobs'' ''too many arguments'' p)
      else (0, put_out (jobs_scan (p_jobs p) JOB_ID_SCAN 1 0) p))"

section \<open>Job control\<close>

text \<open>The entry's index, or None with a message printed.\<close>

definition job_from_arg :: "string \<Rightarrow> string option \<Rightarrow> 'w Proc \<Rightarrow> nat option \<times> 'w Proc" where
  "job_from_arg name arg p = (case arg of
     None \<Rightarrow> (case jobs_current (p_jobs p) of
         None \<Rightarrow> (None, bi_err name ''no current job'' p)
       | Some i \<Rightarrow> (Some i, p))
   | Some arg \<Rightarrow>
       (let digits = (if peek arg = CHR ''%'' then tl arg else arg);
            (v, rest, _) = strtol digits;
            j = (if rest \<noteq> digits \<and> rest = [] \<and> 0 < v \<and> v \<le> int JOB_ID_SCAN
                 then jobs_by_id (p_jobs p) v else None)
        in (j, if j = None then bi_err_arg name arg ''no such job'' p else p)))"

definition set_job_state :: "nat \<Rightarrow> JobState \<Rightarrow> 'w Proc \<Rightarrow> 'w Proc" where
  "set_job_state i s p = p\<lparr>p_jobs := (p_jobs p)[i := (p_jobs p ! i)\<lparr>j_state := s\<rparr>]\<rparr>"

definition bi_fg :: "'w Os \<Rightarrow> nat \<Rightarrow> string list \<Rightarrow> 'w Proc \<Rightarrow> (int \<times> 'w Proc) option" where
  "bi_fg os n argv p =
     (if length argv > 2 then Some (1, bi_err ''fg'' ''too many arguments'' p)
      else (case job_from_arg ''fg'' (if length argv > 1 then Some (argv ! 1) else None) p of
          (None, q) \<Rightarrow> Some (1, q)
        | (Some i, q) \<Rightarrow>
            (let (e, w) = os_kill os (- j_pgid (p_jobs q ! i)) (p_world q); q1 = q\<lparr>p_world := w\<rparr>
             in if e \<noteq> 0 \<and> e \<noteq> ESRCH then Some (1, bi_err ''fg'' (os_strerror os e) q1)
                else exec_wait_foreground os n i
                       (fflush (put_out (j_cmdline (p_jobs q ! i) @ [NEWLINE]) (set_job_state i JOB_RUNNING q1))))))"

definition bi_bg :: "'w Os \<Rightarrow> string list \<Rightarrow> 'w Proc \<Rightarrow> int \<times> 'w Proc" where
  "bi_bg os argv p =
     (if length argv > 2 then (1, bi_err ''bg'' ''too many arguments'' p)
      else (case job_from_arg ''bg'' (if length argv > 1 then Some (argv ! 1) else None) p of
          (None, q) \<Rightarrow> (1, q)
        | (Some i, q) \<Rightarrow>
            (let j = p_jobs q ! i
             in if j_state j \<noteq> JOB_STOPPED then (1, bi_err ''bg'' ''job is already running'' q)
                else (let (e, w) = os_kill os (- j_pgid j) (p_world q); q1 = q\<lparr>p_world := w\<rparr>
                      in if e \<noteq> 0 then (1, bi_err ''bg'' (os_strerror os e) q1)
                         else (let cmd = j_cmdline j;
                                   amp = (if cmd \<noteq> [] \<and> last cmd = CHR ''&'' then [] else '' &'')
                               in (0, put_out (''['' @ dec_int (j_id j) @ '']  '' @ cmd @ amp @ [NEWLINE])
                                        (set_job_state i JOB_RUNNING q1)))))))"

section \<open>The table of builtins\<close>

datatype BuiltinFn =
    Bi_bg | Bi_break | Bi_cd | Bi_continue | Emu_builtin | Bi_exit | Bi_export | Bi_fg
  | Heap_builtin | Bi_help | Bi_history | Inspect_builtin | Bi_jobs | Netmon_builtin | Bi_return
  | Bi_unset

definition BUILTINS :: "(string \<times> BuiltinFn) list" where
  "BUILTINS = [(''bg'', Bi_bg), (''break'', Bi_break), (''cd'', Bi_cd), (''continue'', Bi_continue),
     (''emu'', Emu_builtin), (''exit'', Bi_exit), (''export'', Bi_export), (''fg'', Bi_fg),
     (''heap'', Heap_builtin), (''help'', Bi_help), (''history'', Bi_history),
     (''inspect'', Inspect_builtin), (''jobs'', Bi_jobs), (''netmon'', Netmon_builtin),
     (''return'', Bi_return), (''unset'', Bi_unset)]"

definition builtin_lookup :: "string option \<Rightarrow> BuiltinFn option" where
  "builtin_lookup name = (case name of None \<Rightarrow> None | Some name \<Rightarrow> map_of BUILTINS name)"

definition run_tool :: "'w Os \<Rightarrow> string \<Rightarrow> string list \<Rightarrow> 'w Proc \<Rightarrow> int \<times> 'w Proc" where
  "run_tool os name argv p = (case os_tool os name argv (p_world p) of
     ((out, err, status), w) \<Rightarrow>
       (status, put_out out (if err = [] then p\<lparr>p_world := w\<rparr> else put_err err (p\<lparr>p_world := w\<rparr>))))"

fun builtin_call ::
  "'w Os \<Rightarrow> nat \<Rightarrow> BuiltinFn \<Rightarrow> string list \<Rightarrow> 'w Proc \<Rightarrow> (int \<times> 'w Proc) option" where
  "builtin_call os n Bi_bg argv p = Some (bi_bg os argv p)"
| "builtin_call os n Bi_break argv p = Some (bi_break argv p)"
| "builtin_call os n Bi_cd argv p = Some (bi_cd os argv p)"
| "builtin_call os n Bi_continue argv p = Some (bi_continue argv p)"
| "builtin_call os n Emu_builtin argv p = Some (run_tool os ''emu'' argv p)"
| "builtin_call os n Bi_exit argv p = Some (bi_exit argv p)"
| "builtin_call os n Bi_export argv p = Some (bi_export os argv p)"
| "builtin_call os n Bi_fg argv p = bi_fg os n argv p"
| "builtin_call os n Heap_builtin argv p = Some (run_tool os ''heap'' argv p)"
| "builtin_call os n Bi_help argv p = Some (bi_help argv p)"
| "builtin_call os n Bi_history argv p = Some (bi_history argv p)"
| "builtin_call os n Inspect_builtin argv p = Some (run_tool os ''inspect'' argv p)"
| "builtin_call os n Bi_jobs argv p = Some (bi_jobs argv p)"
| "builtin_call os n Netmon_builtin argv p = Some (run_tool os ''netmon'' argv p)"
| "builtin_call os n Bi_return argv p = Some (bi_return argv p)"
| "builtin_call os n Bi_unset argv p = Some (bi_unset os argv p)"

end
