(* ===== verification/Redirect.thy ===== *)
theory Redirect
  imports Proc
begin

text \<open>
  \<open>src/shell/redirect.c\<close>: file redirections on the process's descriptor table. A saved
  descriptor is an int, -1 for a slot that was never saved. The loops over 0, 1, 2 run over
  the list of these numbers.
\<close>

definition TRUNC_FLAGS :: "OFlag list" where "TRUNC_FLAGS = [O_WRONLY, O_CREAT, O_TRUNC]"
definition APPEND_FLAGS :: "OFlag list" where "APPEND_FLAGS = [O_WRONLY, O_CREAT, O_APPEND]"

type_synonym RedirSave = "int list"

definition REDIR_SAVE_INIT :: RedirSave where "REDIR_SAVE_INIT = [-1, -1, -1]"

definition close_fd :: "'w Os \<Rightarrow> nat \<Rightarrow> 'w Proc \<Rightarrow> 'w Proc" where
  "close_fd os fd p = (case sys_close fd (p_fds p) of
     Some t \<Rightarrow> p\<lparr>p_fds := t\<rparr>
   | None \<Rightarrow> put_err (nullsh_line (''close: '' @ os_strerror os EBADF)) p)"

definition open_onto :: "'w Os \<Rightarrow> string \<Rightarrow> OFlag list \<Rightarrow> nat \<Rightarrow> 'w Proc \<Rightarrow> NshError \<times> 'w Proc" where
  "open_onto os path flags target p = (case sys_open os path flags p of
     (Inl e, q) \<Rightarrow> (NSH_ERR_IO, put_err (nullsh_line (path @ '': '' @ os_strerror os e)) q)
   | (Inr fd, q) \<Rightarrow>
       if fd = target then (NSH_OK, q)
       else (case sys_dup2 fd target (p_fds q) of
           None \<Rightarrow> (NSH_ERR_IO, close_fd os fd (put_err (nullsh_line (path @ '': '' @ os_strerror os EBADF)) q))
         | Some t \<Rightarrow> (NSH_OK, close_fd os fd (q\<lparr>p_fds := t\<rparr>))))"

definition apply_one ::
  "'w Os \<Rightarrow> Token option \<Rightarrow> ExpandCtx \<Rightarrow> OFlag list \<Rightarrow> nat \<Rightarrow> 'w Proc \<Rightarrow> (NshError \<times> 'w Proc) option" where
  "apply_one os word ctx flags target p = (case word of
     None \<Rightarrow> Some (NSH_OK, p)
   | Some w \<Rightarrow> do {
       (err, path) \<leftarrow> expand_word (p_env p) (Some w) (Some ctx);
       case path of
         Some path \<Rightarrow> if err \<noteq> NSH_OK then Some (err, p) else Some (open_onto os path flags target p)
       | None \<Rightarrow> Some (err, p)
     })"

fun save_loop_std :: "'w Os \<Rightarrow> nat list \<Rightarrow> RedirSave \<Rightarrow> 'w Proc \<Rightarrow> NshError \<times> RedirSave \<times> 'w Proc" where
  "save_loop_std os [] sv p = (NSH_OK, sv, p)"
| "save_loop_std os (fd # fds) sv p = (case sys_dupfd fd 3 (p_fds p) of
     Inl e \<Rightarrow> (NSH_ERR_IO, sv, put_err (nullsh_line (''dup: '' @ os_strerror os e)) p)
   | Inr (copy, t) \<Rightarrow> save_loop_std os fds (sv[fd := int copy]) (p\<lparr>p_fds := t\<rparr>))"

definition save_std :: "'w Os \<Rightarrow> RedirSave \<Rightarrow> 'w Proc \<Rightarrow> NshError \<times> RedirSave \<times> 'w Proc" where
  "save_std os sv p = save_loop_std os [0, 1, 2] [-1, -1, -1] p"

text \<open>The redirections proper: input, output, error output, stopping at the first failure.\<close>

definition apply_all ::
  "'w Os \<Rightarrow> Command \<Rightarrow> ExpandCtx \<Rightarrow> 'w Proc \<Rightarrow> (NshError \<times> 'w Proc) option" where
  "apply_all os c ctx p = do {
     (err, p1) \<leftarrow> apply_one os (c_redir_in c) ctx [O_RDONLY] 0 p;
     if err \<noteq> NSH_OK then Some (err, p1)
     else do {
       (err, p2) \<leftarrow> apply_one os (c_redir_out c) ctx
                       (if c_redir_append c then APPEND_FLAGS else TRUNC_FLAGS) 1 p1;
       if err \<noteq> NSH_OK then Some (err, p2)
       else apply_one os (c_redir_err c) ctx TRUNC_FLAGS 2 p2
     }
   }"

definition redirect_apply ::
  "'w Os \<Rightarrow> Command option \<Rightarrow> ExpandCtx \<Rightarrow> RedirSave option \<Rightarrow> 'w Proc
     \<Rightarrow> (NshError \<times> RedirSave option \<times> 'w Proc) option" where
  "redirect_apply os c ctx sv p = (case c of
     None \<Rightarrow> Some (NSH_ERR_INVALID, sv, p)
   | Some c \<Rightarrow>
       (let p = fflush p
        in case sv of
             None \<Rightarrow> map_option (\<lambda>(err, q). (err, None, q)) (apply_all os c ctx p)
           | Some s \<Rightarrow>
               (let (err, s1, p1) = save_std os s p
                in if err \<noteq> NSH_OK then Some (err, Some s1, p1)
                   else map_option (\<lambda>(err, q). (err, Some s1, q)) (apply_all os c ctx p1))))"

fun restore_loop :: "'w Os \<Rightarrow> nat list \<Rightarrow> RedirSave \<Rightarrow> 'w Proc \<Rightarrow> RedirSave \<times> 'w Proc" where
  "restore_loop os [] sv p = (sv, p)"
| "restore_loop os (fd # fds) sv p =
     (if sv ! fd < 0 then restore_loop os fds sv p
      else (let copy = nat (sv ! fd);
                q = (case sys_dup2 copy fd (p_fds p) of
                       Some t \<Rightarrow> p\<lparr>p_fds := t\<rparr>
                     | None \<Rightarrow> put_err (nullsh_line (''dup2: '' @ os_strerror os EBADF)) p)
            in restore_loop os fds (sv[fd := -1]) (close_fd os copy q)))"

definition redirect_restore :: "'w Os \<Rightarrow> RedirSave option \<Rightarrow> 'w Proc \<Rightarrow> RedirSave option \<times> 'w Proc" where
  "redirect_restore os sv p = (case sv of
     None \<Rightarrow> (None, p)
   | Some s \<Rightarrow> (let (s1, q) = restore_loop os [0, 1, 2] s (fflush p) in (Some s1, q)))"

section \<open>What a redirection leaves behind\<close>

lemma put_err_frame [simp]:
  "p_fds (put_err s p) = p_fds p" "p_env (put_err s p) = p_env p" "p_world (put_err s p) = p_world p"
  by (simp_all add: put_err_def)

lemma fflush_frame [simp]:
  "p_fds (fflush p) = p_fds p" "p_env (fflush p) = p_env p" "p_world (fflush p) = p_world p"
  by (simp_all add: fflush_def)

lemma fd_file_Some: "fd_file t fd = Some f \<longleftrightarrow> fd < length t \<and> (\<exists>b. t ! fd = Some (f, b))"
  by (auto simp: fd_file_def rd_def split: option.splits)

text \<open>
  After saving, every saved standard descriptor has a copy above 2 in a slot that was free;
  slots 0 to 2 are arbitrary where saved, untouched where not; everything else is as before.
\<close>

definition std_plain :: "fdtab \<Rightarrow> bool" where
  "std_plain t \<longleftrightarrow> (\<forall>fd<3. fd < length t \<longrightarrow> t ! fd = None \<or> (\<exists>f. t ! fd = Some (f, False)))"

definition saved_in :: "fdtab \<Rightarrow> RedirSave \<Rightarrow> fdtab \<Rightarrow> bool" where
  "saved_in t sv t' \<longleftrightarrow> length t' = length t \<and> length sv = 3
     \<and> (\<forall>fd<3. sv ! fd = -1 \<or>
          (\<exists>c f. sv ! fd = int c \<and> 3 \<le> c \<and> c < length t \<and> t ! c = None \<and> t ! fd = Some (f, False)
              \<and> t' ! c = Some (f, True)))
     \<and> (\<forall>i<3. \<forall>j<3. i \<noteq> j \<and> sv ! i = sv ! j \<longrightarrow> sv ! i = -1)
     \<and> (\<forall>j<length t. (3 \<le> j \<and> int j \<notin> set sv) \<or> (j < 3 \<and> sv ! j = -1) \<longrightarrow> t' ! j = t ! j)"

lemma saved_inI:
  assumes "length t' = length t" "length sv = 3"
    and "\<And>fd. fd < 3 \<Longrightarrow> sv ! fd \<noteq> -1 \<Longrightarrow>
          \<exists>c f. sv ! fd = int c \<and> 3 \<le> c \<and> c < length t \<and> t ! c = None \<and> t ! fd = Some (f, False)
              \<and> t' ! c = Some (f, True)"
    and "\<And>i j. i < 3 \<Longrightarrow> j < 3 \<Longrightarrow> i \<noteq> j \<Longrightarrow> sv ! i = sv ! j \<Longrightarrow> sv ! i = -1"
    and "\<And>j. j < length t \<Longrightarrow> 3 \<le> j \<and> int j \<notin> set sv \<or> j < 3 \<and> sv ! j = -1 \<Longrightarrow> t' ! j = t ! j"
  shows "saved_in t sv t'"
  using assms unfolding saved_in_def by blast

lemma set_three: "length sv = 3 \<Longrightarrow> x \<in> set sv \<longleftrightarrow> (\<exists>i<3. sv ! i = x)"
  by (auto simp: in_set_conv_nth)

lemma saved_in_step:
  assumes s: "saved_in t sv t'" and fd: "fd < 3" "sv ! fd = -1" and std: "std_plain t"
    and dup: "sys_dupfd fd 3 t' = Inr (c, t'')"
    and same: "\<forall>j<length t. j < 3 \<longrightarrow> t' ! j = t ! j"
  shows "saved_in t (sv[fd := int c]) t'' \<and> (\<forall>j<length t. j < 3 \<longrightarrow> t'' ! j = t ! j)"
proof -
  have len: "length t' = length t" "length sv = 3" using s by (auto simp: saved_in_def)
  from dup obtain f where f: "fd_file t' fd = Some f" and lo: "lowest_free 3 t' = Some c"
    and t'': "t'' = t'[c := Some (f, True)]"
    by (auto simp: sys_dupfd_def split: option.splits)
  from lowest_free_Some [OF lo] len have c: "3 \<le> c" "c < length t" "t' ! c = None" by auto
  have tfd: "t ! fd = Some (f, False)"
    using f same std fd len by (auto simp: fd_file_Some std_plain_def)
  have notin: "sv ! i \<noteq> int c" if "i < 3" for i
    using s that c(1,3) by (force simp: saved_in_def)
  then have "int c \<notin> set sv" using len by (simp add: set_three)
  then have tc: "t ! c = None" using s c by (simp add: saved_in_def)
  have "saved_in t (sv[fd := int c]) t''"
  proof (rule saved_inI)
    fix i assume i: "i < 3" "sv[fd := int c] ! i \<noteq> -1"
    show "\<exists>ca fa. sv[fd := int c] ! i = int ca \<and> 3 \<le> ca \<and> ca < length t \<and> t ! ca = None
        \<and> t ! i = Some (fa, False) \<and> t'' ! ca = Some (fa, True)"
    proof (cases "i = fd")
      case True
      with c tfd tc len fd show ?thesis by (simp add: t'')
    next
      case False
      with i have "sv ! i \<noteq> -1" by simp
      with s i(1) obtain ca fa where ca: "sv ! i = int ca" "3 \<le> ca" "ca < length t" "t ! ca = None"
        "t ! i = Some (fa, False)" "t' ! ca = Some (fa, True)" by (auto simp: saved_in_def)
      with notin [OF i(1)] have "ca \<noteq> c" by simp
      with ca False show ?thesis by (simp add: t'')
    qed
  next
    fix i j assume "i < 3" "j < 3" "i \<noteq> j" "sv[fd := int c] ! i = sv[fd := int c] ! j"
    with notin s len show "sv[fd := int c] ! i = -1"
      by (cases "i = fd"; cases "j = fd") (auto simp: saved_in_def)
  next
    fix j assume j: "j < length t" "3 \<le> j \<and> int j \<notin> set (sv[fd := int c]) \<or> j < 3 \<and> sv[fd := int c] ! j = -1"
    show "t'' ! j = t ! j"
    proof (cases "3 \<le> j")
      case True
      with j have nin: "int j \<notin> set (sv[fd := int c])" by auto
      then have "j \<noteq> c" using fd len by (metis nth_list_update_eq nth_mem length_list_update)
      moreover have "int j \<notin> set sv"
      proof
        assume "int j \<in> set sv"
        then obtain i where i: "i < 3" "sv ! i = int j" using len by (auto simp: set_three)
        with fd have "i \<noteq> fd" by auto
        with i nin len show False by (metis nth_list_update_neq nth_mem length_list_update)
      qed
      ultimately show ?thesis using s True j(1) by (simp add: t'' saved_in_def)
    next
      case False
      with same j(1) c(1) show ?thesis by (simp add: t'')
    qed
  qed (simp_all add: len t'')
  moreover have "\<forall>j<length t. j < 3 \<longrightarrow> t'' ! j = t ! j" using same c(1) by (simp add: t'')
  ultimately show ?thesis by blast
qed


lemma saved_in_init: "saved_in t [-1, -1, -1] t"
  by (rule saved_inI) (auto simp: less_Suc_eq numeral_3_eq_3)

definition all_saved :: "RedirSave \<Rightarrow> bool" where "all_saved sv \<longleftrightarrow> (\<forall>fd<3. sv ! fd \<noteq> -1)"

lemma save_loop_saved:
  assumes "save_loop_std os fds sv p = (err, sv', p')" and "saved_in t sv (p_fds p)" and "std_plain t"
    and "\<forall>fd\<in>set fds. fd < 3 \<and> sv ! fd = -1" and "distinct fds"
    and "\<forall>j<length t. j < 3 \<longrightarrow> p_fds p ! j = t ! j"
  shows "saved_in t sv' (p_fds p') \<and> (\<forall>j<length t. j < 3 \<longrightarrow> p_fds p' ! j = t ! j)
    \<and> (err = NSH_OK \<longrightarrow> (\<forall>fd<3. sv ! fd \<noteq> -1 \<or> fd \<in> set fds \<longrightarrow> sv' ! fd \<noteq> -1))
    \<and> p_env p' = p_env p \<and> p_world p' = p_world p"
  using assms
proof (induction fds arbitrary: sv p)
  case Nil
  then show ?case by auto
next
  case (Cons fd fds)
  show ?case
  proof (cases "sys_dupfd fd 3 (p_fds p)")
    case (Inl e)
    with Cons.prems show ?thesis by auto
  next
    case (Inr r)
    obtain c t1 where r: "r = (c, t1)" by (cases r)
    have len: "length sv = 3" using Cons.prems(2) by (simp add: saved_in_def)
    have st: "saved_in t (sv[fd := int c]) t1 \<and> (\<forall>j<length t. j < 3 \<longrightarrow> t1 ! j = t ! j)"
      using Cons.prems Inr r by (intro saved_in_step [where t' = "p_fds p"]) auto
    have "saved_in t sv' (p_fds p') \<and> (\<forall>j<length t. j < 3 \<longrightarrow> p_fds p' ! j = t ! j)
        \<and> (err = NSH_OK \<longrightarrow> (\<forall>k<3. sv[fd := int c] ! k \<noteq> -1 \<or> k \<in> set fds \<longrightarrow> sv' ! k \<noteq> -1))
        \<and> p_env p' = p_env (p\<lparr>p_fds := t1\<rparr>) \<and> p_world p' = p_world (p\<lparr>p_fds := t1\<rparr>)"
      using Cons.prems Inr r st len by (intro Cons.IH) (auto simp: nth_list_update)
    moreover have "sv[fd := int c] ! k \<noteq> -1" if "k < 3" "sv ! k \<noteq> -1 \<or> k = fd" for k
      using that Cons.prems(4) len by (cases "k = fd") auto
    ultimately show ?thesis by auto
  qed
qed

lemma save_std_saved:
  assumes "save_std os sv0 p = (err, sv, q)" and "std_plain (p_fds p)"
  shows "saved_in (p_fds p) sv (p_fds q)" "err = NSH_OK \<Longrightarrow> all_saved sv"
    "\<forall>j<length (p_fds p). j < 3 \<longrightarrow> p_fds q ! j = p_fds p ! j"
  using save_loop_saved [OF assms(1) [unfolded save_std_def] saved_in_init assms(2)]
  by (auto simp: all_saved_def less_Suc_eq numeral_3_eq_3)

text \<open>With the standard descriptors open, a redirection changes nothing above them.\<close>

definition low_open :: "fdtab \<Rightarrow> bool" where
  "low_open t \<longleftrightarrow> 3 \<le> length t \<and> (\<forall>j<3. t ! j \<noteq> None)"

definition same_high :: "fdtab \<Rightarrow> fdtab \<Rightarrow> bool" where
  "same_high t t' \<longleftrightarrow> length t' = length t \<and> (\<forall>j<length t. 3 \<le> j \<longrightarrow> t' ! j = t ! j)"

lemma same_high_refl [simp]: "same_high t t" by (simp add: same_high_def)

lemma same_high_trans: "same_high t u \<Longrightarrow> same_high u v \<Longrightarrow> same_high t v"
  by (simp add: same_high_def)

lemma sys_open_high:
  assumes "sys_open os path flags p = (Inr fd, q)" and "low_open (p_fds p)"
  shows "3 \<le> fd \<and> fd < length (p_fds p) \<and> p_fds p ! fd = None
    \<and> (\<exists>f. p_fds q = (p_fds p)[fd := Some (f, False)])"
proof -
  from assms(1) obtain f where lo: "lowest_free 0 (p_fds p) = Some fd"
    and q: "p_fds q = (p_fds p)[fd := Some (f, False)]"
    by (auto simp: sys_open_def split: option.splits prod.splits sum.splits)
  from lowest_free_Some [OF lo] assms(2) have "\<not> fd < 3" by (auto simp: low_open_def)
  with lowest_free_Some [OF lo] q show ?thesis by auto
qed

lemma sys_open_fail: "sys_open os path flags p = (Inl e, q) \<Longrightarrow> p_fds q = p_fds p"
  by (auto simp: sys_open_def split: option.splits prod.splits sum.splits)

lemma open_onto_high:
  assumes "open_onto os path flags target p = (err, q)" and "low_open (p_fds p)" and "target < 3"
  shows "low_open (p_fds q) \<and> same_high (p_fds p) (p_fds q)"
proof (cases "sys_open os path flags p")
  case (Pair r q1)
  show ?thesis
  proof (cases r)
    case (Inl e)
    with Pair assms sys_open_fail [of os path flags p e q1] show ?thesis
      by (auto simp: open_onto_def)
  next
    case (Inr fd)
    from sys_open_high [OF _ assms(2), of os path flags fd q1] Pair Inr obtain f where
      fd: "3 \<le> fd" "fd < length (p_fds p)" "p_fds p ! fd = None"
        "p_fds q1 = (p_fds p)[fd := Some (f, False)]" by auto
    have len: "3 \<le> length (p_fds p)" using assms(2) by (simp add: low_open_def)
    have opened: "fd_file (p_fds q1) fd = Some f" using fd by (simp add: fd_file_def rd_def)
    let ?t = "(p_fds q1)[target := Some (f, False)]"
    have "sys_dup2 fd target (p_fds q1) = Some ?t"
      using opened fd assms(3) len by (simp add: sys_dup2_def)
    moreover have "fd_file ?t fd = Some f" using fd assms(3) by (simp add: fd_file_def rd_def)
    ultimately have "p_fds q = ?t[fd := None]"
      using assms(1,3) Pair Inr fd(1) by (auto simp: open_onto_def close_fd_def sys_close_def)
    moreover have "?t[fd := None] = (p_fds p)[target := Some (f, False)]"
      using fd assms(3) by (intro nth_equalityI) (auto simp: nth_list_update)
    ultimately have q: "p_fds q = (p_fds p)[target := Some (f, False)]" by simp
    show ?thesis
      using assms(2,3) by (auto simp: q low_open_def same_high_def nth_list_update)
  qed
qed

lemma apply_one_high:
  assumes "apply_one os w ctx flags target p = Some (err, q)" and "low_open (p_fds p)" and "target < 3"
  shows "low_open (p_fds q) \<and> same_high (p_fds p) (p_fds q)"
  using assms open_onto_high [OF _ assms(2,3)]
  by (auto simp: apply_one_def split: option.splits Option.bind_splits if_splits)

lemma apply_all_high:
  assumes "apply_all os c ctx p = Some (err, q)" and "low_open (p_fds p)"
  shows "low_open (p_fds q) \<and> same_high (p_fds p) (p_fds q)"
proof -
  from assms(1) obtain e1 p1 where 1: "apply_one os (c_redir_in c) ctx [O_RDONLY] 0 p = Some (e1, p1)"
    and rest: "if e1 \<noteq> NSH_OK then (err, q) = (e1, p1)
      else (\<exists>e2 p2. apply_one os (c_redir_out c) ctx (if c_redir_append c then APPEND_FLAGS else TRUNC_FLAGS) 1 p1
              = Some (e2, p2)
           \<and> (if e2 \<noteq> NSH_OK then (err, q) = (e2, p2)
              else apply_one os (c_redir_err c) ctx TRUNC_FLAGS 2 p2 = Some (err, q)))"
    by (auto simp: apply_all_def split: Option.bind_splits if_splits)
  have a: "low_open (p_fds p1) \<and> same_high (p_fds p) (p_fds p1)"
    using apply_one_high [OF 1 assms(2)] by simp
  show ?thesis
  proof (cases "e1 = NSH_OK")
    case True
    with rest obtain e2 p2 where 2: "apply_one os (c_redir_out c) ctx
        (if c_redir_append c then APPEND_FLAGS else TRUNC_FLAGS) 1 p1 = Some (e2, p2)"
      and r2: "if e2 \<noteq> NSH_OK then (err, q) = (e2, p2)
              else apply_one os (c_redir_err c) ctx TRUNC_FLAGS 2 p2 = Some (err, q)" by auto
    have b: "low_open (p_fds p2) \<and> same_high (p_fds p1) (p_fds p2)"
      using apply_one_high [OF 2] a by simp
    show ?thesis
    proof (cases "e2 = NSH_OK")
      case True
      with r2 have "apply_one os (c_redir_err c) ctx TRUNC_FLAGS 2 p2 = Some (err, q)" by simp
      from apply_one_high [OF this] b a show ?thesis by (auto intro: same_high_trans)
    qed (use r2 a b in \<open>auto intro: same_high_trans\<close>)
  qed (use rest a in auto)
qed

lemma saved_in_high:
  assumes "saved_in t sv u" and "all_saved sv" and "same_high u v"
  shows "saved_in t sv v"
proof (rule saved_inI)
  fix j assume "j < length t" "3 \<le> j \<and> int j \<notin> set sv \<or> j < 3 \<and> sv ! j = -1"
  with assms show "v ! j = t ! j" by (auto simp: saved_in_def all_saved_def same_high_def)
next
  fix fd assume "fd < (3::nat)" "sv ! fd \<noteq> -1"
  with assms(1) obtain c f where "sv ! fd = int c" "3 \<le> c" "c < length t" "t ! c = None"
    "t ! fd = Some (f, False)" "u ! c = Some (f, True)" by (auto simp: saved_in_def)
  with assms(1,3) show "\<exists>c f. sv ! fd = int c \<and> 3 \<le> c \<and> c < length t \<and> t ! c = None
      \<and> t ! fd = Some (f, False) \<and> v ! c = Some (f, True)"
    by (auto simp: same_high_def saved_in_def)
qed (use assms in \<open>auto simp: saved_in_def same_high_def\<close>)

text \<open>Restoring undoes one saved descriptor at a time.\<close>

lemma restore_step:
  assumes s: "saved_in t sv t'" and fd: "fd < 3" "sv ! fd = int c" "sv ! fd \<noteq> -1"
  shows "\<exists>u. sys_dup2 c fd t' = Some u \<and> (\<exists>v. sys_close c u = Some v \<and> saved_in t (sv[fd := -1]) v)"
proof -
  have len: "length t' = length t" "length sv = 3" using s by (auto simp: saved_in_def)
  from s fd obtain f where c: "3 \<le> c" "c < length t" "t ! c = None" "t ! fd = Some (f, False)"
    "t' ! c = Some (f, True)" by (force simp: saved_in_def)
  let ?u = "t'[fd := Some (f, False)]" and ?v = "t'[fd := Some (f, False), c := None]"
  have "sys_dup2 c fd t' = Some ?u"
    using c fd(1) len by (auto simp: sys_dup2_def fd_file_def rd_def)
  moreover have "sys_close c ?u = Some ?v"
    using c fd(1) len by (simp add: sys_close_def fd_file_def rd_def)
  moreover have inj: "\<forall>i<3. \<forall>j<3. i \<noteq> j \<and> sv ! i = sv ! j \<longrightarrow> sv ! i = -1"
    using s by (simp add: saved_in_def)
  moreover have "saved_in t (sv[fd := -1]) ?v"
  proof (rule saved_inI)
    fix i assume i: "i < 3" "sv[fd := -1] ! i \<noteq> -1"
    then have ne: "i \<noteq> fd" using fd len by (cases "i = fd") auto
    with i s obtain ca fa where ca: "sv ! i = int ca" "3 \<le> ca" "ca < length t" "t ! ca = None"
      "t ! i = Some (fa, False)" "t' ! ca = Some (fa, True)" by (auto simp: saved_in_def)
    from inj [rule_format, of i fd] have "ca \<noteq> c" using i(1) ne fd ca(1) by auto
    with ca ne fd(1) show "\<exists>ca fa. sv[fd := -1] ! i = int ca \<and> 3 \<le> ca \<and> ca < length t \<and> t ! ca = None
        \<and> t ! i = Some (fa, False) \<and> ?v ! ca = Some (fa, True)" by simp
  next
    fix i j assume ij: "i < 3" "j < 3" "i \<noteq> j" "sv[fd := -1] ! i = sv[fd := -1] ! j"
    show "sv[fd := -1] ! i = -1"
    proof (cases "i = fd \<or> j = fd")
      case True
      with ij(4) fd(1) len show ?thesis by auto
    next
      case False
      with ij(4) have "sv ! i = sv ! j" by simp
      with inj [rule_format, of i j] ij False show ?thesis by simp
    qed
  next
    fix j assume j: "j < length t" "3 \<le> j \<and> int j \<notin> set (sv[fd := -1]) \<or> j < 3 \<and> sv[fd := -1] ! j = -1"
    show "?v ! j = t ! j"
    proof (cases "j = fd \<or> j = c")
      case True
      with c fd(1) len show ?thesis by auto
    next
      case False
      have "3 \<le> j \<and> int j \<notin> set sv \<or> j < 3 \<and> sv ! j = -1"
      proof (cases "3 \<le> j")
        case True
        with j have "int j \<notin> set (sv[fd := -1])" by auto
        moreover have "i = fd \<Longrightarrow> sv ! i \<noteq> int j" for i using fd(2) False by simp
        ultimately have "int j \<notin> set sv"
          using len by (auto simp: in_set_conv_nth) (metis len(2) nth_list_update_neq length_list_update)
        with True show ?thesis by simp
      next
        case 3: False
        with j False len show ?thesis by auto
      qed
      with s j(1) have "t' ! j = t ! j" by (auto simp: saved_in_def)
      with False show ?thesis by simp
    qed
  qed (simp_all add: len)
  ultimately show ?thesis by blast
qed

lemma restore_loop_saved:
  assumes "saved_in t sv (p_fds p)" and "set fds \<subseteq> {0, 1, 2}"
    and "restore_loop os fds sv p = (sv', q)"
  shows "saved_in t sv' (p_fds q)
    \<and> (\<forall>fd<3. fd \<in> set fds \<or> sv ! fd = -1 \<longrightarrow> sv' ! fd = -1)"
  using assms
proof (induction fds arbitrary: sv p)
  case Nil
  then show ?case by auto
next
  case (Cons fd fds)
  then have fd: "fd < 3" by auto
  have len: "length sv = 3" using Cons.prems(1) by (simp add: saved_in_def)
  show ?case
  proof (cases "sv ! fd = -1")
    case True
    with Cons.IH [OF Cons.prems(1)] Cons.prems(2,3) show ?thesis by auto
  next
    case False
    with Cons.prems(1) fd obtain c where c: "sv ! fd = int c" by (auto simp: saved_in_def)
    from restore_step [OF Cons.prems(1) fd c False] obtain u v where
      u: "sys_dup2 c fd (p_fds p) = Some u" "sys_close c u = Some v" and sv: "saved_in t (sv[fd := -1]) v"
      by blast
    have run: "restore_loop os fds (sv[fd := -1]) (p\<lparr>p_fds := v\<rparr>) = (sv', q)"
      using Cons.prems(3) c u by (simp add: Let_def close_fd_def)
    have "saved_in t sv' (p_fds q) \<and> (\<forall>k<3. k \<in> set fds \<or> sv[fd := -1] ! k = -1 \<longrightarrow> sv' ! k = -1)"
      by (rule Cons.IH [OF _ _ run]) (use sv Cons.prems(2) in auto)
    then show ?thesis using len fd by (auto simp: nth_list_update)
  qed
qed

lemma saved_none: "saved_in t sv t' \<Longrightarrow> \<forall>fd<3. sv ! fd = -1 \<Longrightarrow> t' = t"
proof (rule nth_equalityI)
  assume s: "saved_in t sv t'" and none: "\<forall>fd<3. sv ! fd = -1"
  then show "length t' = length t" by (simp add: saved_in_def)
  fix j assume "j < length t'"
  with s have j: "j < length t" by (simp add: saved_in_def)
  have "length sv = 3" using s by (simp add: saved_in_def)
  with none have "int j \<notin> set sv" by (auto simp: set_three)
  with none have "3 \<le> j \<and> int j \<notin> set sv \<or> j < 3 \<and> sv ! j = -1" by auto
  with s j show "t' ! j = t ! j" unfolding saved_in_def by blast
qed

lemma redirect_restore_fds:
  assumes "saved_in t sv (p_fds p)"
  shows "p_fds (snd (redirect_restore os (Some sv) p)) = t"
proof -
  obtain sv' q where r: "restore_loop os [0, 1, 2] sv (fflush p) = (sv', q)" by fastforce
  have "saved_in t sv' (p_fds q) \<and> (\<forall>fd<3. fd \<in> set [0, 1, 2] \<or> sv ! fd = -1 \<longrightarrow> sv' ! fd = -1)"
    by (rule restore_loop_saved [OF _ _ r]) (use assms in simp_all)
  moreover have "fd \<in> set [0, 1, 2]" if "fd < 3" for fd :: nat using that by auto
  ultimately have "p_fds q = t" using saved_none [of t sv'] by blast
  with r show ?thesis by (simp add: redirect_restore_def)
qed

lemma redirect_apply_saved:
  assumes "redirect_apply os (Some c) ctx (Some s0) p = Some (err, sv, q)" and "std_plain (p_fds p)"
  shows "\<exists>s. sv = Some s \<and> saved_in (p_fds p) s (p_fds q)"
proof -
  obtain e1 s1 p1 where sv1: "save_std os s0 (fflush p) = (e1, s1, p1)" by (cases "save_std os s0 (fflush p)")
  have plain: "std_plain (p_fds (fflush p))" using assms(2) by simp
  note saved = save_std_saved [OF sv1 plain]
  show ?thesis
  proof (cases "e1 = NSH_OK")
    case False
    with assms(1) sv1 have "q = p1" "sv = Some s1" by (auto simp: redirect_apply_def)
    with saved show ?thesis by simp
  next
    case True
    with assms(1) sv1 have ap: "apply_all os c ctx p1 = Some (err, q)" and s: "sv = Some s1"
      by (auto simp: redirect_apply_def)
    have all: "all_saved s1" using saved(2) True by simp
    have "\<forall>j<3. j < length (p_fds p) \<and> p_fds p ! j \<noteq> None"
    proof (intro allI impI)
      fix j :: nat assume j: "j < 3"
      with all saved(1) obtain c f where *: "3 \<le> c" "c < length (p_fds p)" "p_fds p ! j = Some (f, False)"
        unfolding all_saved_def saved_in_def by (metis fflush_frame(1))
      with j show "j < length (p_fds p) \<and> p_fds p ! j \<noteq> None" by simp
    qed
    moreover from this [rule_format, of 2] have "3 \<le> length (p_fds p)" by simp
    ultimately have low: "low_open (p_fds p)" by (simp add: low_open_def)
    have "low_open (p_fds p1)"
      using low saved(1,3) by (auto simp: low_open_def saved_in_def)
    from apply_all_high [OF ap this] have "same_high (p_fds p1) (p_fds q)" by simp
    from saved_in_high [OF saved(1) all this] s show ?thesis by simp
  qed
qed

end
