(* ===== verification/Exec.thy ===== *)
theory Exec
  imports Builtin Redirect
begin

text \<open>
  \<open>src/shell/exec.c\<close>: a parsed pipeline in, processes run and an exit status out. The function
  call of \<open>eval.c\<close> comes in as the argument \<open>call\<close> (the two files call each other); it answers
  whether the name was a function, its status, and the process. The child's side of a fork is
  \<open>run_stage\<close>: it ends by exiting or by replacing the process image.
\<close>

type_synonym 'w fcall = "string list \<Rightarrow> 'w Proc \<Rightarrow> (bool \<times> int \<times> 'w Proc) option"

definition STATUS_NOT_FOUND :: int where "STATUS_NOT_FOUND = 127"
definition STATUS_NOT_EXEC :: int where "STATUS_NOT_EXEC = 126"
definition STATUS_BAD_SUBST :: int where "STATUS_BAD_SUBST = 2"

definition expand_ctx :: "'w Proc \<Rightarrow> ExpandCtx" where
  "expand_ctx p = \<lparr>x_last_status = last_status p, x_argc = sh_argc p, x_argv = sh_argv p\<rparr>"

fun build_argv :: "env \<Rightarrow> Token list \<Rightarrow> ExpandCtx \<Rightarrow> (NshError + string list) option" where
  "build_argv e [] ctx = Some (Inr [])"
| "build_argv e (w # ws) ctx = do {
     (err, t) \<leftarrow> expand_word e (Some w) (Some ctx);
     case t of
       Some text \<Rightarrow> if err \<noteq> NSH_OK then Some (Inl err)
          else do {
            r \<leftarrow> build_argv e ws ctx;
            Some (case r of Inl err \<Rightarrow> Inl err | Inr argv \<Rightarrow> Inr (text # argv))
          }
     | None \<Rightarrow> Some (Inl err)
   }"

definition has_redirect :: "Command \<Rightarrow> bool" where
  "has_redirect c \<longleftrightarrow> c_redir_in c \<noteq> None \<or> c_redir_out c \<noteq> None \<or> c_redir_err c \<noteq> None"

definition bad_substitution :: "'w Proc \<Rightarrow> 'w Proc" where
  "bad_substitution p = put_err (nullsh_line ''bad substitution'') p"

definition redirect_status :: "NshError \<Rightarrow> 'w Proc \<Rightarrow> int \<times> 'w Proc" where
  "redirect_status err p =
     (if err = NSH_ERR_IO then (1, p) else (STATUS_BAD_SUBST, bad_substitution p))"

section \<open>Commands that run in the shell\<close>

definition run_builtin ::
  "'w Os \<Rightarrow> nat \<Rightarrow> Command \<Rightarrow> BuiltinFn \<Rightarrow> string list \<Rightarrow> 'w Proc \<Rightarrow> (int \<times> 'w Proc) option" where
  "run_builtin os n c fn argv p =
     (if \<not> has_redirect c then builtin_call os n fn argv p
      else do {
        (err, sv, p1) \<leftarrow> redirect_apply os (Some c) (expand_ctx p) (Some REDIR_SAVE_INIT) p;
        (status, p2) \<leftarrow> (if err = NSH_OK then builtin_call os n fn argv p1
                         else Some (redirect_status err p1));
        Some (status, snd (redirect_restore os sv p2))
      })"

definition run_function ::
  "'w Os \<Rightarrow> 'w fcall \<Rightarrow> Command \<Rightarrow> string list \<Rightarrow> 'w Proc \<Rightarrow> (bool \<times> int \<times> 'w Proc) option" where
  "run_function os call c argv p =
     (if func_lookup (p_funcs p) (Some (hd argv)) = None then Some (False, 0, p)
      else if \<not> has_redirect c then call argv p
      else do {
        (err, sv, p1) \<leftarrow> redirect_apply os (Some c) (expand_ctx p) (Some REDIR_SAVE_INIT) p;
        (found, status, p2) \<leftarrow> (if err = NSH_OK then call argv p1
                              else Some (True, redirect_status err p1));
        Some (found, status, snd (redirect_restore os sv p2))
      })"

section \<open>Pipes and children\<close>

fun close_fds :: "'w Os \<Rightarrow> int list \<Rightarrow> 'w Proc \<Rightarrow> 'w Proc" where
  "close_fds os [] p = p"
| "close_fds os (fd # fds) p = close_fds os fds (if fd \<ge> 0 then close_fd os (nat fd) p else p)"

definition sys_pipe :: "'w Os \<Rightarrow> 'w Proc \<Rightarrow> (nat + nat \<times> nat) \<times> 'w Proc" where
  "sys_pipe os p = (case lowest_free 0 (p_fds p) of
     None \<Rightarrow> (Inl EMFILE, p)
   | Some r \<Rightarrow> (case lowest_free (r + 1) (p_fds p) of
        None \<Rightarrow> (Inl EMFILE, p)
      | Some wend \<Rightarrow> (case os_pipe os (p_world p) of
           (Inl e, w) \<Rightarrow> (Inl e, p\<lparr>p_world := w\<rparr>)
         | (Inr (fr, fw), w) \<Rightarrow>
             (Inr (r, wend), p\<lparr>p_world := w,
                p_fds := (p_fds p)[r := Some (fr, False), wend := Some (fw, False)]\<rparr>))))"

text \<open>Makes \<open>k\<close> pipes behind the descriptors made so far; the flag says whether all succeeded.\<close>

fun pipe_loop :: "'w Os \<Rightarrow> nat \<Rightarrow> int list \<Rightarrow> 'w Proc \<Rightarrow> bool \<times> int list \<times> 'w Proc" where
  "pipe_loop os 0 fds p = (True, fds, p)"
| "pipe_loop os (Suc k) fds p = (case sys_pipe os p of
     (Inl e, q) \<Rightarrow> (False, fds, put_err (nullsh_line (''pipe: '' @ os_strerror os e)) q)
   | (Inr (r, w), q) \<Rightarrow> pipe_loop os k (fds @ [int r, int w]) q)"

text \<open>The ends of the pipes that stage \<open>i\<close> of \<open>n\<close> gets.\<close>

definition stage_in :: "int list \<Rightarrow> nat \<Rightarrow> int" where
  "stage_in fds i = (if i = 0 then -1 else fds ! ((i - 1) * 2))"

definition stage_out :: "int list \<Rightarrow> nat \<Rightarrow> nat \<Rightarrow> int" where
  "stage_out fds n i = (if i + 1 = n then -1 else fds ! (i * 2 + 1))"

fun fork_stages ::
  "'w Os \<Rightarrow> nat \<Rightarrow> int list \<Rightarrow> nat \<Rightarrow> Command list \<Rightarrow> int list \<Rightarrow> int \<Rightarrow> 'w Proc
     \<Rightarrow> int list \<times> int \<times> 'w Proc" where
  "fork_stages os n fds i [] pids pgid p = (pids, pgid, p)"
| "fork_stages os n fds i (c # cs) pids pgid p =
     (let p = fflush p;
          task = \<lparr>ct_cmd = c, ct_in = stage_in fds i, ct_out = stage_out fds n i, ct_fds = fds, ct_pgid = pgid\<rparr>
      in case os_fork os task (p_world p) of
           (Inl e, w) \<Rightarrow> (pids, pgid, put_err (nullsh_line (''fork: '' @ os_strerror os e)) (p\<lparr>p_world := w\<rparr>))
         | (Inr pid, w) \<Rightarrow>
             (let pgid = (if pgid = 0 then pid else pgid)
              in fork_stages os n fds (i + 1) cs (pids @ [pid]) pgid
                   (spawn_join_group os pid pgid (p\<lparr>p_world := w\<rparr>))))"

fun cmdline_words :: "env \<Rightarrow> ExpandCtx \<Rightarrow> bool \<Rightarrow> Token list \<Rightarrow> string option" where
  "cmdline_words e ctx first [] = Some []"
| "cmdline_words e ctx first (w # ws) = do {
     (err, t) \<leftarrow> expand_word e (Some w) (Some ctx);
     rest \<leftarrow> cmdline_words e ctx False ws;
     Some ((if first then [] else '' '')
           @ (case t of Some text \<Rightarrow> if err = NSH_OK then text else [] | None \<Rightarrow> []) @ rest)
   }"

fun cmdline_cmds :: "env \<Rightarrow> ExpandCtx \<Rightarrow> bool \<Rightarrow> Command list \<Rightarrow> string option" where
  "cmdline_cmds e ctx first [] = Some []"
| "cmdline_cmds e ctx first (c # cs) = do {
     s \<leftarrow> cmdline_words e ctx True (c_words c);
     rest \<leftarrow> cmdline_cmds e ctx False cs;
     Some ((if first then [] else '' | '') @ s @ rest)
   }"

definition pipeline_cmdline :: "'w Proc \<Rightarrow> Pipeline \<Rightarrow> string option" where
  "pipeline_cmdline p pl = do {
     s \<leftarrow> cmdline_cmds (p_env p) (expand_ctx p) True (pl_cmds pl);
     Some (if pl_background pl then s @ '' &'' else s)
   }"

definition foreground_wait ::
  "'w Os \<Rightarrow> nat \<Rightarrow> Pipeline \<Rightarrow> int \<Rightarrow> int list \<Rightarrow> 'w Proc \<Rightarrow> (int \<times> 'w Proc) option" where
  "foreground_wait os n pl pgid pids p = do {
     (status, stopped, q) \<leftarrow> spawn_wait_pids os n pids (spawn_set_terminal os pgid p);
     let q = spawn_set_terminal os (shell_pgid q) q;
     if stopped then do {
       cmdline \<leftarrow> pipeline_cmdline q pl;
       let tb = jobs_add (p_jobs q) pgid (Some pids) (length pids) (Some cmdline);
       let i = length (p_jobs q);
       let j = (tb ! i)\<lparr>j_state := JOB_STOPPED\<rparr>;
       Some (status, announce_stopped j (q\<lparr>p_jobs := tb[i := j]\<rparr>))
     }
     else Some (status, q)
   }"

definition background_job :: "Pipeline \<Rightarrow> int \<Rightarrow> int list \<Rightarrow> 'w Proc \<Rightarrow> (int \<times> 'w Proc) option" where
  "background_job pl pgid pids p = do {
     cmdline \<leftarrow> pipeline_cmdline p pl;
     let tb = jobs_add (p_jobs p) pgid (Some pids) (length pids) (Some cmdline);
     let j = tb ! length (p_jobs p);
     Some (0, put_err (''['' @ dec_int (j_id j) @ ''] '' @ dec_int (j_pgid j) @ [NEWLINE]) (p\<lparr>p_jobs := tb\<rparr>))
   }"

definition run_forked :: "'w Os \<Rightarrow> nat \<Rightarrow> Pipeline \<Rightarrow> 'w Proc \<Rightarrow> (int \<times> 'w Proc) option" where
  "run_forked os n pl p =
     (let k = length (pl_cmds pl);
          (ok, fds, p1) = pipe_loop os (k - 1) [] p
      in if \<not> ok then Some (1, close_fds os fds p1)
         else (let (pids, pgid, p2) = fork_stages os k fds 0 (pl_cmds pl) [] 0 p1;
                   p3 = close_fds os fds p2
               in if pids \<noteq> [] \<and> pl_background pl then background_job pl pgid pids p3
                  else if pids \<noteq> [] then foreground_wait os n pl pgid pids p3
                  else Some (1, p3)))"

section \<open>Dispatch\<close>

definition run_simple :: "'w Os \<Rightarrow> 'w fcall \<Rightarrow> nat \<Rightarrow> Pipeline \<Rightarrow> 'w Proc \<Rightarrow> (int \<times> 'w Proc) option" where
  "run_simple os call n pl p =
     (let c = hd (pl_cmds pl)
      in do {
        r \<leftarrow> build_argv (p_env p) (c_words c) (expand_ctx p);
        case r of
          Inl err \<Rightarrow> Some (STATUS_BAD_SUBST, bad_substitution p)
        | Inr argv \<Rightarrow>
            if argv = [] then Some (last_status p, p)
            else if hd argv = [] then
              Some (STATUS_NOT_FOUND, put_err (nullsh_line '': command not found'') p)
            else (case builtin_lookup (Some (hd argv)) of
                Some fn \<Rightarrow> run_builtin os n c fn argv p
              | None \<Rightarrow> do {
                  (found, status, q) \<leftarrow> run_function os call c argv p;
                  if found then Some (status, q) else run_forked os n pl q
                })
      })"

definition exec_pipeline ::
  "'w Os \<Rightarrow> 'w fcall \<Rightarrow> nat \<Rightarrow> Pipeline \<Rightarrow> 'w Proc \<Rightarrow> (NshError \<times> 'w Proc) option" where
  "exec_pipeline os call n pl p =
     (if pl_cmds pl = [] then Some (NSH_OK, p)
      else do {
        (status, q) \<leftarrow> (if length (pl_cmds pl) = 1 \<and> \<not> pl_background pl then run_simple os call n pl p
                        else run_forked os n pl p);
        Some (NSH_OK, q\<lparr>last_status := status\<rparr>)
      })"

section \<open>The child\<close>

text \<open>How a child ends: \<open>_exit\<close>, or a new image with its argument vector.\<close>

datatype StageEnd = Exited int | Replaced string "string list"

definition die_child :: "string \<Rightarrow> string \<Rightarrow> int \<Rightarrow> 'w Proc \<Rightarrow> StageEnd \<times> 'w Proc" where
  "die_child name reason status p = (Exited status, put_err (nullsh_line (name @ '': '' @ reason)) p)"

definition exec_direct :: "'w Os \<Rightarrow> string list \<Rightarrow> 'w Proc \<Rightarrow> StageEnd \<times> 'w Proc" where
  "exec_direct os argv p = (case os_execve os (hd argv) (p_world p) of
     (None, w) \<Rightarrow> (Replaced (hd argv) argv, p\<lparr>p_world := w\<rparr>)
   | (Some e, w) \<Rightarrow>
       if e = ENOENT then die_child (hd argv) ''command not found'' STATUS_NOT_FOUND (p\<lparr>p_world := w\<rparr>)
       else die_child (hd argv) (os_strerror os e) STATUS_NOT_EXEC (p\<lparr>p_world := w\<rparr>))"

text \<open>The elements of \<open>PATH\<close>, one more than it has colons.\<close>

fun path_elems :: "string \<Rightarrow> string list" where
  "path_elems [] = [[]]"
| "path_elems (c # cs) =
     (if c = CHR '':'' then [] # path_elems cs
      else (case path_elems cs of [] \<Rightarrow> [[c]] | e # es \<Rightarrow> (c # e) # es))"

definition candidate :: "string \<Rightarrow> string \<Rightarrow> string" where
  "candidate elem name = (if elem = [] then ''.'' else elem) @ ''/'' @ name"

text \<open>The search loop: None when an image was started, else what was denied and what was fatal.\<close>

fun search_loop ::
  "'w Os \<Rightarrow> string list \<Rightarrow> string list \<Rightarrow> bool \<Rightarrow> 'w Proc \<Rightarrow> StageEnd \<times> 'w Proc" where
  "search_loop os argv [] denied p =
     (if denied then die_child (hd argv) ''permission denied'' STATUS_NOT_EXEC p
      else die_child (hd argv) ''command not found'' STATUS_NOT_FOUND p)"
| "search_loop os argv (el # els) denied p =
     (case os_execve os (candidate el (hd argv)) (p_world p) of
        (None, w) \<Rightarrow> (Replaced (candidate el (hd argv)) argv, p\<lparr>p_world := w\<rparr>)
      | (Some e, w) \<Rightarrow>
          if e = EACCES then search_loop os argv els True (p\<lparr>p_world := w\<rparr>)
          else if e \<noteq> ENOENT \<and> e \<noteq> ENOTDIR
               then die_child (hd argv) (os_strerror os e) STATUS_NOT_EXEC (p\<lparr>p_world := w\<rparr>)
          else search_loop os argv els denied (p\<lparr>p_world := w\<rparr>))"

definition exec_search_path :: "'w Os \<Rightarrow> string list \<Rightarrow> 'w Proc \<Rightarrow> StageEnd \<times> 'w Proc" where
  "exec_search_path os argv p = (case getenv (p_env p) ''PATH'' of
     None \<Rightarrow> die_child (hd argv) ''command not found'' STATUS_NOT_FOUND p
   | Some path \<Rightarrow> search_loop os argv (path_elems path) False p)"

definition exec_argv :: "'w Os \<Rightarrow> string list \<Rightarrow> 'w Proc \<Rightarrow> StageEnd \<times> 'w Proc" where
  "exec_argv os argv p =
     (if CHR ''/'' \<in> set (hd argv) then exec_direct os argv p else exec_search_path os argv p)"

definition die_redirect :: "NshError \<Rightarrow> 'w Proc \<Rightarrow> StageEnd \<times> 'w Proc" where
  "die_redirect err p = (let (status, q) = redirect_status err p in (Exited status, q))"

text \<open>\<open>dup2\<close> of a pipe end onto a standard descriptor; None when it fails.\<close>

definition wire :: "int \<Rightarrow> nat \<Rightarrow> 'w Proc \<Rightarrow> 'w Proc option" where
  "wire fd target p =
     (if fd < 0 then Some p
      else map_option (\<lambda>t. p\<lparr>p_fds := t\<rparr>) (sys_dup2 (nat fd) target (p_fds p)))"

definition run_stage_wired ::
  "'w Os \<Rightarrow> 'w fcall \<Rightarrow> nat \<Rightarrow> Command \<Rightarrow> 'w Proc \<Rightarrow> (StageEnd \<times> 'w Proc) option" where
  "run_stage_wired os call n c p = do {
     r \<leftarrow> build_argv (p_env p) (c_words c) (expand_ctx p);
     case r of
       Inl err \<Rightarrow> Some (Exited STATUS_BAD_SUBST, bad_substitution p)
     | Inr argv \<Rightarrow>
         if argv = [] then Some (Exited 0, p)
         else if hd argv = [] then Some (die_child [] ''command not found'' STATUS_NOT_FOUND p)
         else do {
           (err, sv, q) \<leftarrow> redirect_apply os (Some c) (expand_ctx p) None p;
           if err \<noteq> NSH_OK then Some (die_redirect err q)
           else (case builtin_lookup (Some (hd argv)) of
               Some fn \<Rightarrow> do { (status, q1) \<leftarrow> builtin_call os n fn argv q; Some (Exited status, fflush q1) }
             | None \<Rightarrow> do {
                 (found, status, q1) \<leftarrow> call argv q;
                 Some (if found then (Exited status, fflush q1) else exec_argv os argv q1)
               })
         }
   }"

definition run_stage ::
  "'w Os \<Rightarrow> 'w fcall \<Rightarrow> nat \<Rightarrow> ChildTask \<Rightarrow> 'w Proc \<Rightarrow> (StageEnd \<times> 'w Proc) option" where
  "run_stage os call n t p = (case wire (ct_in t) 0 p of
     None \<Rightarrow> Some (die_child ''dup2'' (os_strerror os EBADF) 1 p)
   | Some p1 \<Rightarrow> (case wire (ct_out t) 1 p1 of
        None \<Rightarrow> Some (die_child ''dup2'' (os_strerror os EBADF) 1 p1)
      | Some p2 \<Rightarrow> run_stage_wired os call n (ct_cmd t) (close_fds os (ct_fds t) p2)))"


text \<open>The child between \<open>fork\<close> and its end: its group, default signals, then the stage.\<close>

definition child_main ::
  "'w Os \<Rightarrow> 'w fcall \<Rightarrow> nat \<Rightarrow> int \<Rightarrow> ChildTask \<Rightarrow> 'w Proc \<Rightarrow> (StageEnd \<times> 'w Proc) option" where
  "child_main os call n mypid t p =
     (let q = spawn_join_group os 0 (if ct_pgid t = 0 then mypid else ct_pgid t) p
      in run_stage os call n t (q\<lparr>p_sig := signals_reset_child (p_sig q)\<rparr>))"

end
