(* ===== verification/Eval.thy ===== *)
theory Eval
  imports Exec
begin

text \<open>
  \<open>src/shell/eval.c\<close>: the evaluator. Every function that evaluates a child node takes the
  evaluator \<open>ev\<close> for it as an argument; \<open>eval_node\<close> closes the recursion with a fuel that
  bounds the depth of nested nodes and calls and the iterations of each \<open>while\<close> loop. None
  means that the fuel did not suffice (or that a wait did not return within it).
\<close>

definition STATUS_INTERRUPTED :: int where "STATUS_INTERRUPTED = 130"
definition FUNC_DEPTH_MAX :: int where "FUNC_DEPTH_MAX = 64"

datatype LoopAction = LOOP_RUN | LOOP_NEXT | LOOP_BROKE | LOOP_DONE

type_synonym 'w result = "(NshError \<times> 'w Proc) option"
type_synonym 'w evaluator = "Node \<Rightarrow> 'w Proc \<Rightarrow> 'w result"

definition say :: "string \<Rightarrow> 'w Proc \<Rightarrow> 'w Proc" where "say reason p = put_err (nullsh_line reason) p"

definition halted :: "'w Proc \<Rightarrow> bool" where
  "halted p \<longleftrightarrow> sh_flow p \<noteq> FLOW_NONE \<or> want_exit p"

section \<open>Function calls\<close>

definition call_argv_new :: "'w Proc \<Rightarrow> string list \<Rightarrow> string option list" where
  "call_argv_new p argv =
     (case sh_argv p of
        Some (a # _) \<Rightarrow> if sh_argc p > 0 then a else Some (hd argv)
      | _ \<Rightarrow> Some (hd argv)) # map Some (tl argv) @ [None]"

definition drain_stray_flow :: "'w Proc \<Rightarrow> 'w Proc" where
  "drain_stray_flow p =
     (if sh_flow p \<noteq> FLOW_BREAK \<and> sh_flow p \<noteq> FLOW_CONTINUE then p
      else (put_err (nullsh_line ((if sh_flow p = FLOW_BREAK then ''break'' else ''continue'')
                        @ '': only meaningful in a loop'')) p)\<lparr>sh_flow := FLOW_NONE\<rparr>)"

definition eval_maybe_call_function :: "'w evaluator \<Rightarrow> 'w fcall" where
  "eval_maybe_call_function ev argv p =
     (if argv = [] then Some (False, 0, p)
      else (case func_lookup (p_funcs p) (Some (hd argv)) of
          None \<Rightarrow> Some (False, 0, p)
        | Some body \<Rightarrow>
            if func_depth p \<ge> FUNC_DEPTH_MAX then Some (True, 1, say ''function recursion too deep'' p)
            else do {
              (err, q) \<leftarrow> ev body (p\<lparr>sh_argc := int (length argv), sh_argv := Some (call_argv_new p argv),
                                    func_depth := func_depth p + 1\<rparr>);
              let q = q\<lparr>func_depth := func_depth q - 1, sh_argc := sh_argc p, sh_argv := sh_argv p\<rparr>;
              if sh_flow q = FLOW_RETURN then Some (True, flow_status q, q\<lparr>sh_flow := FLOW_NONE\<rparr>)
              else Some (True, last_status q, drain_stray_flow q)
            }))"

section \<open>Lists and branches\<close>

definition eval_pipeline :: "'w Os \<Rightarrow> 'w evaluator \<Rightarrow> nat \<Rightarrow> Pipeline \<Rightarrow> bool \<Rightarrow> 'w Proc \<Rightarrow> 'w result" where
  "eval_pipeline os ev n pl negate p = do {
     (err, q) \<leftarrow> exec_pipeline os (eval_maybe_call_function ev) n pl p;
     if err = NSH_OK \<and> negate then Some (err, q\<lparr>last_status := (if last_status q = 0 then 1 else 0)\<rparr>)
     else Some (err, q)
   }"

fun eval_andor :: "'w evaluator \<Rightarrow> (AndOrOp \<times> Node) list \<Rightarrow> 'w Proc \<Rightarrow> 'w result" where
  "eval_andor ev [] p = Some (NSH_OK, p)"
| "eval_andor ev ((op, nd) # items) p =
     (if op = ANDOR_AND \<and> last_status p \<noteq> 0 then eval_andor ev items p
      else if op = ANDOR_OR \<and> last_status p = 0 then eval_andor ev items p
      else do {
        (err, q) \<leftarrow> ev nd p;
        if err \<noteq> NSH_OK then Some (err, q)
        else if halted q then Some (NSH_OK, q)
        else eval_andor ev items q
      })"

fun eval_list :: "'w evaluator \<Rightarrow> Node list \<Rightarrow> 'w Proc \<Rightarrow> 'w result" where
  "eval_list ev [] p = Some (NSH_OK, p)"
| "eval_list ev (nd # nds) p =
     (if halted p then Some (NSH_OK, p)
      else do {
        (err, q) \<leftarrow> ev nd p;
        if err \<noteq> NSH_OK then Some (err, q) else eval_list ev nds q
      })"

text \<open>\<open>vec_get\<close> of the bodies at an index behind their end is NULL, which \<open>eval_node\<close> refuses.\<close>

fun eval_if :: "'w evaluator \<Rightarrow> Node list \<Rightarrow> Node list \<Rightarrow> Node option \<Rightarrow> 'w Proc \<Rightarrow> 'w result" where
  "eval_if ev [] bodies els p = (case els of
     Some nd \<Rightarrow> ev nd p
   | None \<Rightarrow> Some (NSH_OK, p\<lparr>last_status := 0\<rparr>))"
| "eval_if ev (c # conds) bodies els p = do {
     (err, q) \<leftarrow> ev c p;
     if err \<noteq> NSH_OK then Some (err, q)
     else if halted q then Some (NSH_OK, q)
     else if last_status q = 0 then
       (case bodies of b # _ \<Rightarrow> ev b q | [] \<Rightarrow> Some (NSH_ERR_INVALID, q))
     else eval_if ev conds (tl bodies) els q
   }"

section \<open>Loops\<close>

definition loop_enter :: "'w Proc \<Rightarrow> 'w Proc" where
  "loop_enter p = (let q = p\<lparr>loop_depth := loop_depth p + 1\<rparr>
     in if loop_depth q = 1 then q\<lparr>p_sig := signals_int_watch True (p_sig q)\<rparr> else q)"

definition loop_leave :: "'w Proc \<Rightarrow> 'w Proc" where
  "loop_leave p = (let q = p\<lparr>loop_depth := loop_depth p - 1\<rparr>
     in if loop_depth q = 0 then q\<lparr>p_sig := signals_int_watch False (p_sig q)\<rparr> else q)"

definition loop_flow :: "'w Proc \<Rightarrow> LoopAction \<times> 'w Proc" where
  "loop_flow p =
     (if want_exit p then (LOOP_DONE, p)
      else if sh_flow p = FLOW_BREAK then (LOOP_BROKE, p\<lparr>sh_flow := FLOW_NONE, last_status := 0\<rparr>)
      else if sh_flow p = FLOW_CONTINUE then (LOOP_NEXT, p\<lparr>sh_flow := FLOW_NONE\<rparr>)
      else if sh_flow p \<noteq> FLOW_NONE then (LOOP_DONE, p)
      else (LOOP_RUN, p))"

fun while_loop :: "'w Os \<Rightarrow> 'w evaluator \<Rightarrow> nat \<Rightarrow> Node \<Rightarrow> Node \<Rightarrow> int \<Rightarrow> 'w Proc \<Rightarrow> 'w result" where
  "while_loop os ev 0 cond body body_status p = None"
| "while_loop os ev (Suc n) cond body body_status p =
     (let (fired, p0) = int_take os p
      in if fired then Some (NSH_OK, p0\<lparr>last_status := STATUS_INTERRUPTED\<rparr>)
         else do {
           (err, p1) \<leftarrow> ev cond p0;
           if err \<noteq> NSH_OK then Some (err, p1)
           else (let (act, p2) = loop_flow p1
             in if act = LOOP_NEXT then while_loop os ev n cond body body_status p2
                else if act \<noteq> LOOP_RUN \<or> last_status p2 = STATUS_INTERRUPTED then Some (NSH_OK, p2)
                else if last_status p2 \<noteq> 0 then Some (NSH_OK, p2\<lparr>last_status := body_status\<rparr>)
                else do {
                  (err, p3) \<leftarrow> ev body p2;
                  if err \<noteq> NSH_OK then Some (err, p3)
                  else (let bs = last_status p3; (act, p4) = loop_flow p3
                    in if act = LOOP_NEXT then while_loop os ev n cond body bs p4
                       else if act \<noteq> LOOP_RUN \<or> bs = STATUS_INTERRUPTED then Some (NSH_OK, p4)
                       else while_loop os ev n cond body bs p4)
                })
         })"

definition eval_while :: "'w Os \<Rightarrow> 'w evaluator \<Rightarrow> nat \<Rightarrow> Node \<Rightarrow> Node \<Rightarrow> 'w Proc \<Rightarrow> 'w result" where
  "eval_while os ev n cond body p = do {
     (err, q) \<leftarrow> while_loop os ev n cond body 0 (loop_enter p);
     Some (err, loop_leave q)
   }"

fun for_loop ::
  "'w Os \<Rightarrow> 'w evaluator \<Rightarrow> string \<Rightarrow> Token list \<Rightarrow> ExpandCtx \<Rightarrow> Node \<Rightarrow> int \<Rightarrow> 'w Proc \<Rightarrow> 'w result" where
  "for_loop os ev var [] ctx body body_status p = Some (NSH_OK, p\<lparr>last_status := body_status\<rparr>)"
| "for_loop os ev var (w # ws) ctx body body_status p =
     (let (fired, p0) = int_take os p
      in if fired then Some (NSH_OK, p0\<lparr>last_status := STATUS_INTERRUPTED\<rparr>)
         else do {
           (err, v) \<leftarrow> expand_word (p_env p0) (Some w) (Some ctx);
           if err \<noteq> NSH_OK then Some (NSH_OK, (say ''bad substitution'' p0)\<lparr>last_status := 1\<rparr>)
           else (case setenv (p_env p0) var (case v of Some v \<Rightarrow> v | None \<Rightarrow> []) of
               None \<Rightarrow> Some (NSH_OK, (say (os_strerror os EINVAL) p0)\<lparr>last_status := 1\<rparr>)
             | Some e \<Rightarrow> do {
                 (err, p1) \<leftarrow> ev body (p0\<lparr>p_env := e\<rparr>);
                 if err \<noteq> NSH_OK then Some (err, p1)
                 else (let bs = last_status p1; (act, p2) = loop_flow p1
                   in if act = LOOP_NEXT then for_loop os ev var ws ctx body bs p2
                      else if act \<noteq> LOOP_RUN \<or> bs = STATUS_INTERRUPTED then Some (NSH_OK, p2)
                      else for_loop os ev var ws ctx body bs p2)
               })
         })"

definition eval_for ::
  "'w Os \<Rightarrow> 'w evaluator \<Rightarrow> string \<Rightarrow> Token list \<Rightarrow> Node \<Rightarrow> 'w Proc \<Rightarrow> 'w result" where
  "eval_for os ev var words body p = do {
     (err, q) \<leftarrow> for_loop os ev var words (expand_ctx p) body 0 (loop_enter p);
     Some (err, loop_leave q)
   }"

section \<open>Nodes\<close>

definition eval_funcdef :: "string \<Rightarrow> Node \<Rightarrow> 'w Proc \<Rightarrow> 'w result" where
  "eval_funcdef name body p =
     Some (NSH_OK, p\<lparr>p_funcs := func_define (p_funcs p) (Some name) (ast_clone body), last_status := 0\<rparr>)"

fun eval_node :: "'w Os \<Rightarrow> nat \<Rightarrow> 'w evaluator" where
  "eval_node os 0 nd p = None"
| "eval_node os (Suc n) nd p = (case nd of
     NODE_PIPELINE pl neg \<Rightarrow> eval_pipeline os (eval_node os n) n pl neg p
   | NODE_ANDOR items \<Rightarrow> eval_andor (eval_node os n) items p
   | NODE_LIST nodes \<Rightarrow> eval_list (eval_node os n) nodes p
   | NODE_IF conds bodies els \<Rightarrow> eval_if (eval_node os n) conds bodies els p
   | NODE_WHILE cond body \<Rightarrow> eval_while os (eval_node os n) n cond body p
   | NODE_FOR var words body \<Rightarrow> eval_for os (eval_node os n) var words body p
   | NODE_FUNCDEF name body \<Rightarrow> eval_funcdef name body p)"

definition eval_run :: "'w Os \<Rightarrow> nat \<Rightarrow> Node option \<Rightarrow> 'w Proc \<Rightarrow> 'w result" where
  "eval_run os n nd p = (case nd of None \<Rightarrow> Some (NSH_OK, p) | Some nd \<Rightarrow> eval_node os n nd p)"

end
