(* ===== verification/Eval_Inv.thy ===== *)
theory Eval_Inv
  imports Eval
begin

text \<open>
  What the evaluator keeps. \<open>kept\<close> relates the process before and after: nesting depths,
  positional parameters, descriptors, the shell's group and terminal are the same.
  \<open>shell_ok\<close> is the invariant of the control state: a pending \<open>break\<close> or \<open>continue\<close> has a loop
  around it, a pending \<open>return\<close> a function, the depth of calls is bounded, and SIGINT is
  caught exactly inside loops.
\<close>

definition kept :: "'w Proc \<Rightarrow> 'w Proc \<Rightarrow> bool" where
  "kept p q \<longleftrightarrow> loop_depth q = loop_depth p \<and> func_depth q = func_depth p \<and> sh_argc q = sh_argc p
     \<and> sh_argv q = sh_argv p \<and> p_fds q = p_fds p \<and> shell_pgid q = shell_pgid p
     \<and> interactive q = interactive p \<and> tty_fd q = tty_fd p"

definition flow_ok :: "'w Proc \<Rightarrow> bool" where
  "flow_ok p \<longleftrightarrow> (sh_flow p = FLOW_BREAK \<or> sh_flow p = FLOW_CONTINUE \<longrightarrow> loop_depth p > 0)
     \<and> (sh_flow p = FLOW_RETURN \<longrightarrow> func_depth p > 0) \<and> (sh_flow p = FLOW_NONE \<or> \<not> want_exit p)"

definition shell_ok :: "'w Proc \<Rightarrow> bool" where
  "shell_ok p \<longleftrightarrow> 0 \<le> loop_depth p \<and> 0 \<le> func_depth p \<and> func_depth p \<le> FUNC_DEPTH_MAX \<and> flow_ok p
     \<and> sig_disp (p_sig p) SIGINT = (if loop_depth p > 0 then Int_handler else SIG_IGN)
     \<and> std_plain (p_fds p)"

text \<open>What a step that starts no evaluation may change besides: not the signals, not the functions.\<close>

definition quiet :: "'w Proc \<Rightarrow> 'w Proc \<Rightarrow> bool" where
  "quiet p q \<longleftrightarrow> kept p q \<and> p_sig q = p_sig p \<and> p_funcs q = p_funcs p"

lemma kept_refl [simp]: "kept p p" by (simp add: kept_def)
lemma kept_trans: "kept p q \<Longrightarrow> kept q r \<Longrightarrow> kept p r" by (simp add: kept_def)
lemma quiet_refl [simp]: "quiet p p" by (simp add: quiet_def)
lemma quiet_trans: "quiet p q \<Longrightarrow> quiet q r \<Longrightarrow> quiet p r" by (simp add: quiet_def kept_def)
lemma quiet_kept: "quiet p q \<Longrightarrow> kept p q" by (simp add: quiet_def)

lemma quiet_ok: "quiet p q \<Longrightarrow> shell_ok p \<Longrightarrow> flow_ok q \<Longrightarrow> shell_ok q"
  by (simp add: quiet_def kept_def shell_ok_def)

lemma quiet_steps [simp]:
  "quiet p (put_err s q) \<longleftrightarrow> quiet p q" "quiet p (put_out s q) \<longleftrightarrow> quiet p q"
  "quiet p (fflush q) \<longleftrightarrow> quiet p q" "quiet p (q\<lparr>p_world := w\<rparr>) \<longleftrightarrow> quiet p q"
  "quiet p (q\<lparr>p_env := e\<rparr>) \<longleftrightarrow> quiet p q" "quiet p (q\<lparr>p_jobs := j\<rparr>) \<longleftrightarrow> quiet p q"
  "quiet p (q\<lparr>p_tty := y\<rparr>) \<longleftrightarrow> quiet p q" "quiet p (q\<lparr>last_status := l\<rparr>) \<longleftrightarrow> quiet p q"
  "quiet p (q\<lparr>exit_code := l\<rparr>) \<longleftrightarrow> quiet p q" "quiet p (q\<lparr>want_exit := b\<rparr>) \<longleftrightarrow> quiet p q"
  "quiet p (q\<lparr>sh_flow := f\<rparr>) \<longleftrightarrow> quiet p q" "quiet p (q\<lparr>flow_status := l\<rparr>) \<longleftrightarrow> quiet p q"
  by (simp_all add: quiet_def kept_def put_err_def put_out_def fflush_def)

lemma flow_steps [simp]:
  "sh_flow (put_err s q) = sh_flow q" "sh_flow (put_out s q) = sh_flow q" "sh_flow (fflush q) = sh_flow q"
  "want_exit (put_err s q) = want_exit q" "want_exit (put_out s q) = want_exit q"
  "want_exit (fflush q) = want_exit q"
  by (simp_all add: put_err_def put_out_def fflush_def)

lemma quiet_flow:
  "quiet p q \<Longrightarrow> sh_flow q = sh_flow p \<Longrightarrow> want_exit q = want_exit p \<Longrightarrow> flow_ok p \<Longrightarrow> flow_ok q"
  by (simp add: quiet_def kept_def flow_ok_def)

text \<open>A quiet step that leaves the flow alone.\<close>

definition calm :: "'w Proc \<Rightarrow> 'w Proc \<Rightarrow> bool" where
  "calm p q \<longleftrightarrow> quiet p q \<and> sh_flow q = sh_flow p \<and> want_exit q = want_exit p"

lemma calm_refl [simp]: "calm p p" by (simp add: calm_def)
lemma calm_trans: "calm p q \<Longrightarrow> calm q r \<Longrightarrow> calm p r" by (auto simp: calm_def intro: quiet_trans)
lemma calm_quiet: "calm p q \<Longrightarrow> quiet p q" by (simp add: calm_def)
lemma calm_flow: "calm p q \<Longrightarrow> flow_ok p \<Longrightarrow> flow_ok q" by (auto simp: calm_def intro: quiet_flow)

lemma calm_steps [simp]:
  "calm p (put_err s q) \<longleftrightarrow> calm p q" "calm p (put_out s q) \<longleftrightarrow> calm p q"
  "calm p (fflush q) \<longleftrightarrow> calm p q" "calm p (q\<lparr>p_world := w\<rparr>) \<longleftrightarrow> calm p q"
  "calm p (q\<lparr>p_env := e\<rparr>) \<longleftrightarrow> calm p q" "calm p (q\<lparr>p_jobs := j\<rparr>) \<longleftrightarrow> calm p q"
  "calm p (q\<lparr>p_tty := y\<rparr>) \<longleftrightarrow> calm p q" "calm p (q\<lparr>last_status := l\<rparr>) \<longleftrightarrow> calm p q"
  "calm p (q\<lparr>exit_code := l\<rparr>) \<longleftrightarrow> calm p q"
  by (simp_all add: calm_def)

section \<open>The builtins\<close>

lemma calm_messages [simp]:
  "calm p (bi_err a b q) \<longleftrightarrow> calm p q" "calm p (bi_err_arg a b c q) \<longleftrightarrow> calm p q"
  "calm p (announce_stopped j q) \<longleftrightarrow> calm p q" "calm p (say r q) \<longleftrightarrow> calm p q"
  "calm p (bad_substitution q) \<longleftrightarrow> calm p q" "calm p (set_job_state i s q) \<longleftrightarrow> calm p q"
  by (simp_all add: bi_err_def bi_err_arg_def announce_stopped_def say_def bad_substitution_def set_job_state_def)

lemma calm_terminal [simp]: "calm p (spawn_set_terminal os g q) \<longleftrightarrow> calm p q"
  by (simp add: spawn_set_terminal_def Let_def split: prod.splits)

lemma calm_group [simp]: "calm p (spawn_join_group os a b q) \<longleftrightarrow> calm p q"
  by (simp add: spawn_join_group_def Let_def split: prod.splits)

lemma wait_world: "spawn_wait_pids os n pids q = Some (st, b, r) \<Longrightarrow> \<exists>w. r = q\<lparr>p_world := w\<rparr>"
  by (auto simp: spawn_wait_pids_def split: option.splits)

lemma calm_foreground: "exec_wait_foreground os n i q = Some (st, r) \<Longrightarrow> calm p q \<Longrightarrow> calm p r"
  by (auto simp: exec_wait_foreground_def Let_def split: Option.bind_splits if_splits
      dest!: wait_world)

lemma calm_put_env: "calm p (snd sp) \<Longrightarrow> calm p (snd (put_env os name v sp))"
  by (auto simp: put_env_def split: prod.splits option.splits)

lemma calm_cd: "calm p (snd (cd_to os t b p))"
proof -
  have "calm p (snd (put_env os a v (put_env os c u (0, q))))" if "calm p q" for a v c u q
    using that by (intro calm_put_env) simp
  moreover have "calm p (snd (put_env os a v (0, q)))" if "calm p q" for a v q
    using that by (intro calm_put_env) simp
  ultimately show ?thesis
    by (auto simp: cd_to_def Let_def split: prod.splits option.splits sum.splits)
       (metis snd_conv calm_steps(4) calm_refl)+
qed


lemma export_calm: "calm p (snd (export_args os args st q)) \<longleftrightarrow> calm p q"
  by (induction os args st q rule: export_args.induct) (auto simp: Let_def split: option.splits)

lemma unset_calm: "calm p (snd (unset_args os args st q)) \<longleftrightarrow> calm p q"
  by (induction os args st q rule: unset_args.induct) (auto split: option.splits)

lemma job_from_arg_calm: "job_from_arg nm a p = (r, q) \<Longrightarrow> calm p q"
  by (auto simp: job_from_arg_def Let_def split: option.splits prod.splits if_splits)

text \<open>The builtins that set the flow, or ask to leave the shell; the former check the depth first.\<close>

definition flows :: "BuiltinFn \<Rightarrow> bool" where
  "flows fn \<longleftrightarrow> fn \<in> {Bi_break, Bi_continue, Bi_return, Bi_exit}"

lemma bi_fg_calm: "bi_fg os n argv p = Some (st, q) \<Longrightarrow> calm p q"
  by (auto simp: bi_fg_def Let_def split: if_splits option.splits prod.splits
      dest!: job_from_arg_calm intro: calm_foreground)

lemma bi_bg_calm: "bi_bg os argv p = (st, q) \<Longrightarrow> calm p q"
  by (auto simp: bi_bg_def Let_def split: option.splits prod.splits if_splits dest!: job_from_arg_calm)

lemma cd_to_calm: "cd_to os t b p = (st, q) \<Longrightarrow> calm p q"
  using calm_cd [of p os t b] by simp

lemma bi_cd_calm: "bi_cd os argv p = (st, q) \<Longrightarrow> calm p q"
  by (auto simp: bi_cd_def split: option.splits if_splits dest: cd_to_calm)

lemma run_tool_calm: "run_tool os nm argv p = (st, q) \<Longrightarrow> calm p q"
  by (auto simp: run_tool_def split: prod.splits if_splits)

lemma bi_export_calm: "bi_export os argv p = (st, q) \<Longrightarrow> calm p q"
  using export_calm [of p os "tl argv" 0 p] by (simp add: bi_export_def)

lemma bi_unset_calm: "bi_unset os argv p = (st, q) \<Longrightarrow> calm p q"
  using unset_calm [of p os "tl argv" 0 p] by (simp add: bi_unset_def)

lemma bi_listing_calm:
  "bi_help argv p = (st, q) \<Longrightarrow> calm p q" "bi_history argv p = (st, q) \<Longrightarrow> calm p q"
  "bi_jobs argv p = (st, q) \<Longrightarrow> calm p q"
  by (auto simp: bi_help_def bi_history_def bi_jobs_def split: if_splits)

lemmas builtin_calms = bi_fg_calm bi_bg_calm bi_cd_calm run_tool_calm bi_export_calm bi_unset_calm
  bi_listing_calm

lemma builtin_calm:
  "builtin_call os n fn argv p = Some (st, q) \<Longrightarrow> \<not> flows fn \<Longrightarrow> calm p q"
  by (cases fn; simp add: flows_def) (blast dest: builtin_calms)+

lemma calm_quiet_flow: "calm p q \<Longrightarrow> flow_ok p \<Longrightarrow> quiet p q \<and> flow_ok q"
  by (blast intro: calm_quiet calm_flow)

lemma bi_flow_quiet:
  assumes "bi_flow argv name fl p = (st, q)" and "flow_ok p" and "\<not> halted p"
    and "fl = FLOW_BREAK \<or> fl = FLOW_CONTINUE"
  shows "quiet p q \<and> flow_ok q"
proof (cases "length argv > 1 \<or> loop_depth p \<le> 0")
  case True
  with assms(1) have "calm p q" by (auto simp: bi_flow_def split: if_splits)
  with assms(2) show ?thesis by (intro calm_quiet_flow)
next
  case False
  with assms(1,3,4) show ?thesis by (auto simp: bi_flow_def flow_ok_def halted_def)
qed

lemma bi_return_quiet:
  assumes "bi_return argv p = (st, q)" and "flow_ok p" and "\<not> halted p"
  shows "quiet p q \<and> flow_ok q"
proof (cases "calm p q")
  case True
  with assms(2) show ?thesis by (intro calm_quiet_flow)
next
  case False
  with assms(1,3) show ?thesis by (auto simp: bi_return_def flow_ok_def halted_def Let_def split: if_splits)
qed

lemma bi_exit_quiet:
  assumes "bi_exit argv p = (st, q)" and "flow_ok p" and "\<not> halted p"
  shows "quiet p q \<and> flow_ok q"
  using assms
  by (auto simp: bi_exit_def flow_ok_def halted_def Let_def bi_err_def quiet_def kept_def put_err_def split: if_splits)

lemma builtin_quiet:
  assumes "builtin_call os n fn argv p = Some (st, q)" and "flow_ok p" and "\<not> halted p"
  shows "quiet p q \<and> flow_ok q"
proof (cases "flows fn")
  case False
  with builtin_calm [OF assms(1)] assms(2) show ?thesis by (intro calm_quiet_flow)
next
  case True
  then consider "fn = Bi_break" | "fn = Bi_continue" | "fn = Bi_return" | "fn = Bi_exit"
    by (auto simp: flows_def)
  then show ?thesis
    using assms
    by cases (auto simp: bi_break_def bi_continue_def dest: bi_flow_quiet bi_return_quiet bi_exit_quiet)
qed

section \<open>Redirections\<close>

text \<open>Calm, or kept, except for the descriptors.\<close>

definition calmx :: "'w Proc \<Rightarrow> 'w Proc \<Rightarrow> bool" where "calmx p q \<longleftrightarrow> calm p (q\<lparr>p_fds := p_fds p\<rparr>)"

lemma calmx_fields:
  "calmx p q \<longleftrightarrow> loop_depth q = loop_depth p \<and> func_depth q = func_depth p \<and> sh_argc q = sh_argc p
     \<and> sh_argv q = sh_argv p \<and> shell_pgid q = shell_pgid p \<and> interactive q = interactive p
     \<and> tty_fd q = tty_fd p \<and> p_sig q = p_sig p \<and> p_funcs q = p_funcs p \<and> sh_flow q = sh_flow p
     \<and> want_exit q = want_exit p"
  by (auto simp: calmx_def calm_def quiet_def kept_def)

lemma calmx_refl [simp]: "calmx p p" by (simp add: calmx_fields)
lemma calmx_trans: "calmx p q \<Longrightarrow> calmx q r \<Longrightarrow> calmx p r" by (simp add: calmx_fields)

lemma calm_calmx: "calm p q \<longleftrightarrow> calmx p q \<and> p_fds q = p_fds p"
  by (auto simp: calmx_fields calm_def quiet_def kept_def)

lemma calmx_steps [simp]:
  "calmx p (put_err s q) \<longleftrightarrow> calmx p q" "calmx p (put_out s q) \<longleftrightarrow> calmx p q"
  "calmx p (fflush q) \<longleftrightarrow> calmx p q" "calmx p (q\<lparr>p_world := w\<rparr>) \<longleftrightarrow> calmx p q"
  "calmx p (q\<lparr>p_fds := t\<rparr>) \<longleftrightarrow> calmx p q"
  "calmx p (q\<lparr>p_world := w, p_fds := t\<rparr>) \<longleftrightarrow> calmx p q"
  by (simp_all add: calmx_fields put_err_def put_out_def fflush_def)

lemma calmx_close [simp]: "calmx p (close_fd os fd q) \<longleftrightarrow> calmx p q"
  by (simp add: close_fd_def split: option.splits)

lemma calmx_open: "sys_open os path fl q = (r, q1) \<Longrightarrow> calmx p q1 \<longleftrightarrow> calmx p q"
  by (auto simp: sys_open_def split: option.splits prod.splits sum.splits)

lemma calmx_open_onto:
  assumes "open_onto os path fl tg p = (err, q)"
  shows "calmx p q"
proof -
  obtain r q1 where "sys_open os path fl p = (r, q1)" by fastforce
  moreover from this have "calmx p q1" by (simp add: calmx_open)
  ultimately show ?thesis using assms by (auto simp: open_onto_def split: sum.splits option.splits if_splits)
qed

lemma calmx_apply_one: "apply_one os w ctx fl tg p = Some (err, q) \<Longrightarrow> calmx p q"
  by (auto simp: apply_one_def split: option.splits Option.bind_splits if_splits dest: calmx_open_onto)

lemma calmx_apply_all: "apply_all os c ctx p = Some (err, q) \<Longrightarrow> calmx p q"
  by (auto simp: apply_all_def split: Option.bind_splits if_splits
      dest!: calmx_apply_one) (simp_all add: calmx_fields)

lemma calmx_save: "save_loop_std os fds sv q = (err, sv', r) \<Longrightarrow> calmx p q \<Longrightarrow> calmx p r"
  by (induction os fds sv q rule: save_loop_std.induct) (auto split: sum.splits prod.splits)

lemma calmx_save_std: "save_std os sv p = (err, sv', r) \<Longrightarrow> calmx p r"
  using calmx_save [where p = p and q = p] calmx_refl unfolding save_std_def by blast

lemma calmx_apply: "redirect_apply os c ctx sv p = Some (err, sv', q) \<Longrightarrow> calmx p q"
  by (auto simp: redirect_apply_def Let_def split: option.splits if_splits prod.splits
      dest!: calmx_apply_all calmx_save_std)
     (simp_all add: calmx_fields fflush_def split: if_splits)

lemma calmx_restore_loop: "calmx p (snd (restore_loop os fds sv q)) \<longleftrightarrow> calmx p q"
  by (induction os fds sv q rule: restore_loop.induct) (auto simp: Let_def split: option.splits)

lemma calmx_restore [simp]: "calmx p (snd (redirect_restore os sv q)) \<longleftrightarrow> calmx p q"
  by (cases sv) (simp_all add: redirect_restore_def case_prod_beta calmx_restore_loop del: restore_loop.simps)

lemma plain_update: "std_plain t \<Longrightarrow> std_plain (t[i := None]) \<and> std_plain (t[i := Some (f, False)])"
  by (cases "i < length t") (auto simp: std_plain_def nth_list_update)

lemma plain_close: "std_plain (p_fds p) \<Longrightarrow> std_plain (p_fds (close_fd os fd p))"
  by (auto simp: close_fd_def sys_close_def plain_update split: option.splits)

lemma plain_dup2: "sys_dup2 a b t = Some u \<Longrightarrow> std_plain t \<Longrightarrow> std_plain u"
  by (auto simp: sys_dup2_def plain_update split: option.splits if_splits)

lemma plain_open: "sys_open os path fl p = (r, q) \<Longrightarrow> std_plain (p_fds p) \<Longrightarrow> std_plain (p_fds q)"
  by (auto simp: sys_open_def plain_update split: option.splits prod.splits sum.splits)

lemma plain_open_onto:
  "open_onto os path fl tg p = (err, q) \<Longrightarrow> std_plain (p_fds p) \<Longrightarrow> std_plain (p_fds q)"
  by (auto simp: open_onto_def split: prod.splits sum.splits if_splits option.splits
      intro!: plain_close dest: plain_open plain_dup2)

lemma plain_apply_one:
  "apply_one os w ctx fl tg p = Some (err, q) \<Longrightarrow> std_plain (p_fds p) \<Longrightarrow> std_plain (p_fds q)"
  by (auto simp: apply_one_def split: option.splits Option.bind_splits if_splits dest: plain_open_onto)

lemma plain_apply_all:
  "apply_all os c ctx p = Some (err, q) \<Longrightarrow> std_plain (p_fds p) \<Longrightarrow> std_plain (p_fds q)"
  by (auto simp: apply_all_def split: Option.bind_splits if_splits dest!: plain_apply_one)

lemma plain_apply:
  assumes "redirect_apply os (Some c) ctx (Some s0) p = Some (err, sv, q)" and "std_plain (p_fds p)"
  shows "std_plain (p_fds q)"
proof -
  obtain e1 s1 p1 where s: "save_std os s0 (fflush p) = (e1, s1, p1)" by (cases "save_std os s0 (fflush p)")
  note saved = save_std_saved [OF s, simplified, OF assms(2)]
  from saved(1) have "length (p_fds p1) = length (p_fds p)" by (simp add: saved_in_def)
  with saved(3) assms(2) have "std_plain (p_fds p1)" by (simp add: std_plain_def)
  then show ?thesis
    using assms(1) s by (auto simp: redirect_apply_def split: if_splits dest: plain_apply_all)
qed

text \<open>The bracket of a redirected builtin or function: whatever runs inside and keeps the
  descriptors, the descriptors are the old ones behind it.\<close>

lemma redirect_bracket:
  assumes ap: "redirect_apply os (Some c) ctx (Some s0) p = Some (err, sv, p1)"
    and ok: "shell_ok p" and body: "shell_ok p1 \<Longrightarrow> shell_ok p2 \<and> kept p1 p2"
  shows "shell_ok (snd (redirect_restore os sv p2)) \<and> kept p (snd (redirect_restore os sv p2))"
proof -
  have plain: "std_plain (p_fds p)" using ok by (simp add: shell_ok_def)
  have x1: "calmx p p1" by (rule calmx_apply [OF ap])
  have "shell_ok p1"
    using ok x1 plain_apply [OF ap plain] by (simp add: shell_ok_def calmx_fields flow_ok_def)
  then have b: "shell_ok p2" "kept p1 p2" using body by auto
  let ?r = "snd (redirect_restore os sv p2)"
  obtain s where s: "sv = Some s" "saved_in (p_fds p) s (p_fds p1)"
    using redirect_apply_saved [OF ap plain] by blast
  then have "saved_in (p_fds p) s (p_fds p2)" using b(2) by (simp add: kept_def)
  with s have fds: "p_fds ?r = p_fds p" by (simp add: redirect_restore_fds)
  have x2: "calmx p2 ?r" by simp
  show ?thesis
    using b x1 x2 fds plain by (simp add: shell_ok_def kept_def calmx_fields flow_ok_def)
qed


section \<open>Pipelines\<close>

text \<open>The table \<open>t\<close> is \<open>t0\<close> with the listed descriptors, all free there, opened.\<close>

definition opened :: "fdtab \<Rightarrow> int list \<Rightarrow> fdtab \<Rightarrow> bool" where
  "opened t0 fds t \<longleftrightarrow> length t = length t0 \<and> distinct fds
     \<and> (\<forall>fd\<in>set fds. 0 \<le> fd \<and> nat fd < length t0 \<and> t0 ! nat fd = None \<and> t ! nat fd \<noteq> None)
     \<and> (\<forall>j<length t0. int j \<notin> set fds \<longrightarrow> t ! j = t0 ! j)"

lemma opened_refl [simp]: "opened t [] t" by (simp add: opened_def)

lemma opened_add:
  assumes "opened t0 fds t" and "k < length t" and "t ! k = None"
  shows "opened t0 (fds @ [int k]) (t[k := Some e])"
proof -
  have n: "int k \<notin> set fds" using assms by (force simp: opened_def)
  with assms show ?thesis by (auto simp: opened_def nth_list_update)
qed

lemma sys_pipe_opened:
  assumes "sys_pipe os p = (Inr (r, w), q)" and "opened t0 fds (p_fds p)"
  shows "opened t0 (fds @ [int r, int w]) (p_fds q)"
proof -
  from assms(1) obtain fr fw where r: "lowest_free 0 (p_fds p) = Some r"
    and w: "lowest_free (r + 1) (p_fds p) = Some w"
    and q: "p_fds q = (p_fds p)[r := Some (fr, False), w := Some (fw, False)]"
    by (auto simp: sys_pipe_def split: option.splits prod.splits sum.splits)
  from lowest_free_Some [OF r] lowest_free_Some [OF w]
  have k: "r < length (p_fds p)" "p_fds p ! r = None" "w < length (p_fds p)" "p_fds p ! w = None" "w \<noteq> r"
    by auto
  have "opened t0 (fds @ [int r]) ((p_fds p)[r := Some (fr, False)])"
    by (rule opened_add [OF assms(2) k(1,2)])
  then have "opened t0 ((fds @ [int r]) @ [int w]) ((p_fds p)[r := Some (fr, False), w := Some (fw, False)])"
    by (rule opened_add) (use k in auto)
  then show ?thesis by (simp add: q)
qed

lemma sys_pipe_fail: "sys_pipe os p = (Inl e, q) \<Longrightarrow> p_fds q = p_fds p"
  by (auto simp: sys_pipe_def split: option.splits prod.splits sum.splits)

lemma calmx_pipe: "sys_pipe os p = (r, q) \<Longrightarrow> calmx p q"
  by (auto simp: sys_pipe_def split: option.splits prod.splits sum.splits)

lemma pipe_loop_opened:
  "pipe_loop os k fds p = (ok, fds', q) \<Longrightarrow> opened t0 fds (p_fds p) \<Longrightarrow>
   opened t0 fds' (p_fds q) \<and> calmx p q"
proof (induction k arbitrary: fds p)
  case (Suc k)
  obtain r q1 where s: "sys_pipe os p = (r, q1)" by fastforce
  show ?case
  proof (cases r)
    case (Inl e)
    with Suc.prems s sys_pipe_fail [of os p e q1] calmx_pipe [OF s] show ?thesis by auto
  next
    case (Inr rw)
    obtain a b where ab: "rw = (a, b)" by (cases rw)
    have "opened t0 (fds @ [int a, int b]) (p_fds q1)"
      using sys_pipe_opened s Inr ab Suc.prems(2) by simp
    with Suc.IH [of "fds @ [int a, int b]" q1] Suc.prems(1) s Inr ab calmx_pipe [OF s] show ?thesis
      by (auto intro: calmx_trans)
  qed
qed simp

lemma calmx_close_fds [simp]: "calmx p (close_fds os fds q) \<longleftrightarrow> calmx p q"
  by (induction os fds q rule: close_fds.induct) simp_all

lemma close_fds_opened: "opened t0 fds (p_fds p) \<Longrightarrow> p_fds (close_fds os fds p) = t0"
proof (induction fds arbitrary: p)
  case Nil
  then show ?case by (auto simp: opened_def intro: nth_equalityI)
next
  case (Cons fd fds)
  then have "0 \<le> fd" by (simp add: opened_def)
  then obtain k where fd: "fd = int k" by (rule nonneg_int_cases)
  with Cons.prems have k: "k < length t0" "t0 ! k = None" "p_fds p ! k \<noteq> None"
    by (auto simp: opened_def)
  have len: "length (p_fds p) = length t0" using Cons.prems by (simp add: opened_def)
  have "sys_close k (p_fds p) = Some ((p_fds p)[k := None])"
    using k len by (auto simp: sys_close_def fd_file_def rd_def)
  then have c: "p_fds (close_fd os k p) = (p_fds p)[k := None]" by (simp add: close_fd_def)
  have "opened t0 fds (p_fds (close_fd os k p))"
    using Cons.prems k len fd unfolding c by (auto simp: opened_def nth_list_update)
  from Cons.IH [OF this] fd show ?case by simp
qed

lemma fork_stages_calm: "fork_stages os k fds i cs pids g p = (pids', g', q) \<Longrightarrow> calm p q"
proof (induction cs arbitrary: i pids g p)
  case (Cons c cs)
  let ?f = "fflush p"
  let ?t = "\<lparr>ct_cmd = c, ct_in = stage_in fds i, ct_out = stage_out fds k i, ct_fds = fds, ct_pgid = g\<rparr>"
  obtain r w where o: "os_fork os ?t (p_world ?f) = (r, w)" by fastforce
  show ?case
  proof (cases r)
    case (Inl e)
    with Cons.prems o show ?thesis by (auto simp: Let_def)
  next
    case (Inr pid)
    let ?g = "if g = 0 then pid else g" and ?p = "?f\<lparr>p_world := w\<rparr>"
    have "fork_stages os k fds (i + 1) cs (pids @ [pid]) ?g (spawn_join_group os pid ?g ?p) = (pids', g', q)"
      using Cons.prems o Inr by (simp add: Let_def)
    from Cons.IH [OF this] have "calm (spawn_join_group os pid ?g ?p) q" .
    moreover have "calm p (spawn_join_group os pid ?g ?p)" by simp
    ultimately show ?thesis by (rule calm_trans [rotated])
  qed
qed simp

lemma background_calm: "background_job pl g pids p = Some (st, q) \<Longrightarrow> calm p q"
  by (auto simp: background_job_def Let_def split: Option.bind_splits)

lemma foreground_wait_calm: "foreground_wait os n pl g pids p = Some (st, q) \<Longrightarrow> calm p q"
  by (auto simp: foreground_wait_def Let_def split: Option.bind_splits if_splits dest!: wait_world)

lemma run_forked_calm:
  assumes "run_forked os n pl p = Some (st, q)"
  shows "calm p q"
proof -
  obtain ok fds p1 where pl: "pipe_loop os (length (pl_cmds pl) - 1) [] p = (ok, fds, p1)"
    by (cases "pipe_loop os (length (pl_cmds pl) - 1) [] p")
  obtain pids g p2 where fk: "fork_stages os (length (pl_cmds pl)) fds 0 (pl_cmds pl) [] 0 p1 = (pids, g, p2)"
    by (cases "fork_stages os (length (pl_cmds pl)) fds 0 (pl_cmds pl) [] 0 p1")
  have o: "opened (p_fds p) fds (p_fds p1)" and x: "calmx p p1"
    using pipe_loop_opened [OF pl, of "p_fds p"] by simp_all
  have c2: "calm p1 p2" by (rule fork_stages_calm [OF fk])
  have a: "calm p (close_fds os fds p1)"
    using close_fds_opened [OF o] x by (simp add: calm_calmx)
  have "opened (p_fds p) fds (p_fds p2)" using o c2 by (simp add: calm_calmx)
  with x c2 have b: "calm p (close_fds os fds p2)"
    by (auto simp: calm_calmx close_fds_opened intro: calmx_trans)
  show ?thesis
    using assms pl fk a b
    by (auto simp: run_forked_def Let_def split: if_splits
        dest!: background_calm foreground_wait_calm intro: calm_trans)
qed

definition call_ok :: "'w fcall \<Rightarrow> bool" where
  "call_ok call \<longleftrightarrow> (\<forall>argv p found st q. call argv p = Some (found, st, q) \<longrightarrow> shell_ok p \<longrightarrow>
     \<not> halted p \<longrightarrow> shell_ok q \<and> kept p q)"

lemma quiet_shell: "shell_ok p \<Longrightarrow> quiet p q \<and> flow_ok q \<Longrightarrow> shell_ok q \<and> kept p q"
  using quiet_ok quiet_kept by blast

lemma calm_shell: "shell_ok p \<Longrightarrow> calm p q \<Longrightarrow> shell_ok q \<and> kept p q"
  by (rule quiet_shell) (auto simp: shell_ok_def intro: calm_quiet calm_flow)

lemma builtin_shell:
  "builtin_call os n fn argv p = Some (st, q) \<Longrightarrow> shell_ok p \<Longrightarrow> \<not> halted p \<Longrightarrow> shell_ok q \<and> kept p q"
  by (rule quiet_shell) (auto simp: shell_ok_def dest: builtin_quiet)

lemma redirect_status_calm: "calm p (snd (redirect_status err p))"
  by (simp add: redirect_status_def)

lemma run_builtin_shell:
  assumes "run_builtin os n c fn argv p = Some (st, q)" and "shell_ok p" and nh: "\<not> halted p"
  shows "shell_ok q \<and> kept p q"
proof (cases "has_redirect c")
  case False
  with assms show ?thesis by (auto simp: run_builtin_def dest: builtin_shell)
next
  case True
  with assms(1) obtain err sv p1 p2 where
    ap: "redirect_apply os (Some c) (expand_ctx p) (Some REDIR_SAVE_INIT) p = Some (err, sv, p1)"
    and b: "(if err = NSH_OK then builtin_call os n fn argv p1 else Some (redirect_status err p1)) = Some (st, p2)"
    and q: "q = snd (redirect_restore os sv p2)"
    by (auto simp: run_builtin_def split: Option.bind_splits)
  have "\<not> halted p1" using calmx_apply [OF ap] nh by (simp add: calmx_fields halted_def)
  then have "shell_ok p2 \<and> kept p1 p2" if "shell_ok p1"
    using b that builtin_shell calm_shell redirect_status_calm by (metis (no_types) option.inject snd_conv)
  from redirect_bracket [OF ap assms(2) this] show ?thesis by (simp add: q)
qed

lemma run_function_shell:
  assumes "run_function os call c argv p = Some (found, st, q)" and "shell_ok p" and "call_ok call"
    and nh: "\<not> halted p"
  shows "shell_ok q \<and> kept p q"
proof -
  consider "q = p" | "call argv p = Some (found, st, q)" | err sv p1 p2 where
    "redirect_apply os (Some c) (expand_ctx p) (Some REDIR_SAVE_INIT) p = Some (err, sv, p1)"
    "(if err = NSH_OK then call argv p1 else Some (True, redirect_status err p1)) = Some (found, st, p2)"
    "q = snd (redirect_restore os sv p2)"
    using assms(1) by (auto simp: run_function_def split: Option.bind_splits if_splits)
  then show ?thesis
  proof cases
    case 2
    with assms show ?thesis unfolding call_ok_def by blast
  next
    case (3 err sv p1 p2)
    have "shell_ok p2 \<and> kept p1 p2" if "shell_ok p1"
    proof (cases "err = NSH_OK")
      case True
      have "\<not> halted p1" using calmx_apply [OF 3(1)] nh by (simp add: calmx_fields halted_def)
      with True 3(2) assms(3) that show ?thesis unfolding call_ok_def by auto
    next
      case False
      with 3(2) have "p2 = snd (redirect_status err p1)" by auto
      then have "calm p1 p2" by (simp add: redirect_status_calm)
      with that show ?thesis by (rule calm_shell)
    qed
    from redirect_bracket [OF 3(1) assms(2) this] show ?thesis by (simp add: 3(3))
  qed (use assms in simp)
qed

lemma run_simple_shell:
  assumes "run_simple os call n pl p = Some (st, q)" and "shell_ok p" and "call_ok call"
    and "\<not> halted p"
  shows "shell_ok q \<and> kept p q"
proof -
  let ?c = "hd (pl_cmds pl)"
  consider "calm p q" | argv fn where "run_builtin os n ?c fn argv p = Some (st, q)"
    | argv where "run_function os call ?c argv p = Some (True, st, q)"
    | argv s1 p1 where "run_function os call ?c argv p = Some (False, s1, p1)" "run_forked os n pl p1 = Some (st, q)"
    using assms(1)
    by (auto simp: run_simple_def Let_def split: Option.bind_splits sum.splits if_splits option.splits)
  then show ?thesis
  proof cases
    case 1
    with assms(2) show ?thesis by (rule calm_shell)
  next
    case 2
    from run_builtin_shell [OF this assms(2,4)] show ?thesis .
  next
    case 3
    from run_function_shell [OF this assms(2-4)] show ?thesis .
  next
    case (4 argv s1 p1)
    from run_function_shell [OF 4(1) assms(2-4)] have "shell_ok p1" "kept p p1" by auto
    with calm_shell [OF _ run_forked_calm [OF 4(2)]] show ?thesis by (auto intro: kept_trans)
  qed
qed

lemma last_status_shell [simp]:
  "shell_ok (q\<lparr>last_status := l\<rparr>) \<longleftrightarrow> shell_ok q" "kept p (q\<lparr>last_status := l\<rparr>) \<longleftrightarrow> kept p q"
  by (simp_all add: shell_ok_def kept_def flow_ok_def)

lemma exec_pipeline_shell:
  assumes "exec_pipeline os call n pl p = Some (err, q)" and "shell_ok p" and "call_ok call"
    and "\<not> halted p"
  shows "shell_ok q \<and> kept p q \<and> err = NSH_OK"
  using assms run_simple_shell [OF _ assms(2-4)] calm_shell [OF assms(2) run_forked_calm]
  by (auto simp: exec_pipeline_def split: if_splits Option.bind_splits)


section \<open>The evaluator\<close>

text \<open>
  An evaluation starts with no flow pending; it keeps the invariant, and when it fails (on a
  tree with a missing part) no flow is pending either.
\<close>

definition ev_ok :: "'w evaluator \<Rightarrow> bool" where
  "ev_ok ev \<longleftrightarrow> (\<forall>nd p err q. ev nd p = Some (err, q) \<longrightarrow> shell_ok p \<longrightarrow> \<not> halted p \<longrightarrow>
     shell_ok q \<and> kept p q \<and> (err \<noteq> NSH_OK \<longrightarrow> \<not> halted q))"

text \<open>\<open>ready p\<close>: an evaluation may start; \<open>done_from p err q\<close>: what it promises.\<close>

definition ready :: "'w Proc \<Rightarrow> bool" where "ready p \<longleftrightarrow> shell_ok p \<and> \<not> halted p"

definition done_from :: "'w Proc \<Rightarrow> NshError \<Rightarrow> 'w Proc \<Rightarrow> bool" where
  "done_from p err q \<longleftrightarrow> shell_ok q \<and> kept p q \<and> (err \<noteq> NSH_OK \<longrightarrow> \<not> halted q)"

lemma ev_okI: "(\<And>nd p err q. ev nd p = Some (err, q) \<Longrightarrow> ready p \<Longrightarrow> done_from p err q) \<Longrightarrow> ev_ok ev"
  by (auto simp: ev_ok_def ready_def done_from_def)

lemma ev_okD: "ev_ok ev \<Longrightarrow> ev nd p = Some (err, q) \<Longrightarrow> ready p \<Longrightarrow> done_from p err q"
  by (auto simp: ev_ok_def ready_def done_from_def)

lemma not_halted_ready: "done_from p err q \<Longrightarrow> \<not> halted q \<Longrightarrow> ready q"
  by (simp add: done_from_def ready_def)

lemma done_trans: "done_from p e q \<Longrightarrow> done_from q err r \<Longrightarrow> done_from p err r"
  by (auto simp: done_from_def intro: kept_trans)

lemma done_refl: "ready p \<Longrightarrow> done_from p err p"
  by (simp add: done_from_def ready_def)

lemma halted_status [simp]: "halted (q\<lparr>last_status := l\<rparr>) = halted q"
  by (simp add: halted_def)

lemma done_status [simp]: "done_from p err (q\<lparr>last_status := l\<rparr>) \<longleftrightarrow> done_from p err q"
  by (simp add: done_from_def)

lemma drain_spec:
  "kept p (drain_stray_flow q) \<longleftrightarrow> kept p q"
  "sh_flow q \<noteq> FLOW_RETURN \<Longrightarrow> sh_flow (drain_stray_flow q) = FLOW_NONE"
  "shell_ok (drain_stray_flow q) \<longleftrightarrow> shell_ok (q\<lparr>sh_flow := sh_flow (drain_stray_flow q)\<rparr>)"
  by (cases "sh_flow q"; simp add: drain_stray_flow_def kept_def put_err_def shell_ok_def flow_ok_def)+

lemma call_function_ok:
  assumes "ev_ok ev"
  shows "call_ok (eval_maybe_call_function ev)"
  unfolding call_ok_def
proof (intro allI impI)
  fix argv and p :: "'a Proc" and found st q
  assume c: "eval_maybe_call_function ev argv p = Some (found, st, q)" and ok: "shell_ok p"
    and nh: "\<not> halted p"
  show "shell_ok q \<and> kept p q"
  proof (cases "q = p \<or> q = say ''function recursion too deep'' p")
    case True
    then have "calm p q" by auto
    with ok show ?thesis by (rule calm_shell)
  next
    case False
    with c obtain body err r where
      deep: "func_depth p < FUNC_DEPTH_MAX" and
      ev: "ev body (p\<lparr>sh_argc := int (length argv), sh_argv := Some (call_argv_new p argv),
             func_depth := func_depth p + 1\<rparr>) = Some (err, r)" and
      q: "let r' = r\<lparr>func_depth := func_depth r - 1, sh_argc := sh_argc p, sh_argv := sh_argv p\<rparr>
          in q = (if sh_flow r' = FLOW_RETURN then r'\<lparr>sh_flow := FLOW_NONE\<rparr> else drain_stray_flow r')"
      by (auto simp: eval_maybe_call_function_def Let_def split: if_splits option.splits Option.bind_splits)
    let ?p = "p\<lparr>sh_argc := int (length argv), sh_argv := Some (call_argv_new p argv),
             func_depth := func_depth p + 1\<rparr>"
    have "ready ?p" using ok deep nh by (auto simp: ready_def shell_ok_def flow_ok_def halted_def)
    from ev_okD [OF assms ev this] have r: "shell_ok r" "kept ?p r" by (auto simp: done_from_def)
    let ?r = "r\<lparr>func_depth := func_depth r - 1, sh_argc := sh_argc p, sh_argv := sh_argv p\<rparr>"
    have k: "kept p ?r" using r(2) by (simp add: kept_def)
    have clear: "shell_ok (?r\<lparr>sh_flow := FLOW_NONE\<rparr>)"
      using r ok by (simp add: shell_ok_def flow_ok_def kept_def)
    show ?thesis
    proof (cases "sh_flow r = FLOW_RETURN")
      case True
      with q k clear show ?thesis by (simp add: kept_def)
    next
      case False
      then have "q = drain_stray_flow ?r" and "sh_flow (drain_stray_flow ?r) = FLOW_NONE"
        using q drain_spec(2) [of ?r] by simp_all
      with k clear show ?thesis by (simp add: drain_spec)
    qed
  qed
qed

lemma eval_pipeline_ok:
  assumes "ev_ok ev" "eval_pipeline os ev n pl neg p = Some (err, q)" "ready p"
  shows "done_from p err q"
  using assms(2,3) exec_pipeline_shell [OF _ _ call_function_ok [OF assms(1)]]
  by (auto simp: eval_pipeline_def ready_def done_from_def split: Option.bind_splits if_splits)

lemma eval_andor_ok:
  "ev_ok ev \<Longrightarrow> eval_andor ev items p = Some (err, q) \<Longrightarrow> ready p \<Longrightarrow> done_from p err q"
proof (induction ev items p rule: eval_andor.induct)
  case (2 ev op nd items p)
  show ?case
  proof (cases "op = ANDOR_AND \<and> last_status p \<noteq> 0 \<or> op = ANDOR_OR \<and> last_status p = 0")
    case True
    with 2 show ?thesis by (auto split: if_splits)
  next
    case False
    with "2.prems"(2) obtain e1 p1 where c: "ev nd p = Some (e1, p1)"
      and rest: "if e1 \<noteq> NSH_OK then (err, q) = (e1, p1) else if halted p1 then (err, q) = (NSH_OK, p1)
        else eval_andor ev items p1 = Some (err, q)"
      by (auto split: Option.bind_splits if_splits)
    have p1: "done_from p e1 p1" by (rule ev_okD [OF "2.prems"(1) c "2.prems"(3)])
    show ?thesis
    proof (cases "e1 \<noteq> NSH_OK \<or> halted p1")
      case True
      with rest p1 show ?thesis by (auto split: if_splits)
    next
      case run: False
      with rest have r: "eval_andor ev items p1 = Some (err, q)" by simp
      have "done_from p1 err q"
        using False c run "2.prems"(1) r not_halted_ready [OF p1] by (intro "2.IH"(3)) auto
      with p1 show ?thesis by (rule done_trans)
    qed
  qed
qed (simp add: done_refl)

lemma eval_list_ok:
  "ev_ok ev \<Longrightarrow> eval_list ev nds p = Some (err, q) \<Longrightarrow> shell_ok p \<Longrightarrow> done_from p err q"
proof (induction nds arbitrary: p)
  case (Cons nd nds)
  show ?case
  proof (cases "halted p")
    case True
    with Cons.prems show ?thesis by (simp add: done_from_def)
  next
    case False
    with Cons.prems obtain e1 p1 where c: "ev nd p = Some (e1, p1)"
      and rest: "if e1 \<noteq> NSH_OK then (err, q) = (e1, p1) else eval_list ev nds p1 = Some (err, q)"
      by (auto split: Option.bind_splits if_splits)
    have "ready p" using False Cons.prems(3) by (simp add: ready_def)
    from ev_okD [OF Cons.prems(1) c this] have p1: "done_from p e1 p1" .
    then have "shell_ok p1" by (simp add: done_from_def)
    with rest p1 Cons.IH [OF Cons.prems(1), of p1] show ?thesis
      by (auto split: if_splits intro: done_trans)
  qed
qed (simp add: done_from_def)

lemma eval_if_ok:
  "ev_ok ev \<Longrightarrow> eval_if ev conds bodies els p = Some (err, q) \<Longrightarrow> ready p \<Longrightarrow> done_from p err q"
proof (induction conds arbitrary: bodies p)
  case Nil
  then show ?case by (auto simp: done_refl split: option.splits dest: ev_okD)
next
  case (Cons c conds)
  from Cons.prems(2) obtain e1 p1 where c: "ev c p = Some (e1, p1)"
    and rest: "if e1 \<noteq> NSH_OK then (err, q) = (e1, p1) else if halted p1 then (err, q) = (NSH_OK, p1)
      else if last_status p1 = 0 then (case bodies of b # _ \<Rightarrow> ev b p1 = Some (err, q) | [] \<Rightarrow> q = p1)
      else eval_if ev conds (tl bodies) els p1 = Some (err, q)"
    by (auto split: Option.bind_splits if_splits list.splits)
  have p1: "done_from p e1 p1" by (rule ev_okD [OF Cons.prems(1) c Cons.prems(3)])
  show ?case
  proof (cases "e1 \<noteq> NSH_OK \<or> halted p1")
    case True
    with rest p1 show ?thesis by (auto split: if_splits)
  next
    case False
    with p1 have r: "ready p1" by (auto intro: not_halted_ready)
    from Cons.IH [OF Cons.prems(1) _ r] ev_okD [OF Cons.prems(1) _ r] done_refl [OF r] rest False
    have "done_from p1 err q" by (auto split: if_splits list.splits)
    with p1 show ?thesis by (rule done_trans)
  qed
qed

lemma loop_flow_ok:
  assumes "loop_flow p = (act, q)" and "done_from r NSH_OK p"
  shows "done_from r NSH_OK q \<and> (act = LOOP_RUN \<or> act = LOOP_NEXT \<longrightarrow> \<not> halted q)
    \<and> sh_flow q \<noteq> FLOW_BREAK \<and> sh_flow q \<noteq> FLOW_CONTINUE"
  using assms
  by (auto simp: loop_flow_def done_from_def kept_def shell_ok_def flow_ok_def halted_def split: if_splits)

lemma deliver_disp [simp]: "sig_disp (deliver s x) = sig_disp x"
  by (simp add: deliver_def chld_handler_def int_handler_def split: Disposition.splits)

lemma deliver_fold_disp [simp]: "sig_disp (fold deliver ss x) = sig_disp x"
  by (induction ss arbitrary: x) simp_all

lemma int_take_ok: "int_take os p = (b, q) \<Longrightarrow> ready p \<Longrightarrow> ready q \<and> done_from p NSH_OK q"
  by (auto simp: int_take_def poll_signals_def signals_int_take_def Let_def shell_ok_def kept_def flow_ok_def
      ready_def done_from_def halted_def split: prod.splits)

text \<open>What a loop promises on its way out: the flow of the loop itself has been consumed.\<close>

definition loop_done :: "'w Proc \<Rightarrow> NshError \<Rightarrow> 'w Proc \<Rightarrow> bool" where
  "loop_done p err q \<longleftrightarrow> done_from p err q \<and> sh_flow q \<noteq> FLOW_BREAK \<and> sh_flow q \<noteq> FLOW_CONTINUE"

lemma loop_done_status [simp]: "loop_done p err (q\<lparr>last_status := l\<rparr>) \<longleftrightarrow> loop_done p err q"
  by (simp add: loop_done_def)

lemma loop_doneI: "done_from p err q \<Longrightarrow> \<not> halted q \<Longrightarrow> loop_done p err q"
  by (simp add: loop_done_def halted_def)

lemma loop_done_err: "done_from p err q \<Longrightarrow> err \<noteq> NSH_OK \<Longrightarrow> loop_done p err q"
  by (rule loop_doneI) (simp_all add: done_from_def)

lemma loop_done_trans: "done_from p e q \<Longrightarrow> loop_done q err r \<Longrightarrow> loop_done p err r"
  by (auto simp: loop_done_def intro: done_trans)

lemma loop_flow_done:
  assumes "loop_flow p = (act, q)" and "done_from r NSH_OK p"
  shows "loop_done r NSH_OK q" and "act = LOOP_RUN \<or> act = LOOP_NEXT \<Longrightarrow> ready q"
  using loop_flow_ok [OF assms] by (auto simp: loop_done_def ready_def done_from_def)

lemma loop_done_done: "loop_done p err q \<Longrightarrow> done_from p err q" by (simp add: loop_done_def)

lemma while_loop_ok:
  assumes "ev_ok ev"
  shows "while_loop os ev n cond body bs p = Some (err, q) \<Longrightarrow> ready p \<Longrightarrow> loop_done p err q"
proof (induction n arbitrary: bs p)
  case (Suc n)
  obtain fired p0 where t: "int_take os p = (fired, p0)" by fastforce
  from int_take_ok [OF t Suc.prems(2)] have p0: "ready p0" "done_from p NSH_OK p0" by auto
  show ?case
  proof (cases fired)
    case True
    with Suc.prems(1) t p0 show ?thesis by (auto simp: ready_def intro: loop_doneI)
  next
    case False
    with Suc.prems(1) t obtain e1 p1 where c: "ev cond p0 = Some (e1, p1)"
      by (auto simp: Let_def split: Option.bind_splits)
    have p1: "done_from p e1 p1" using p0(2) ev_okD [OF assms c p0(1)] by (rule done_trans)
    show ?thesis
    proof (cases "e1 = NSH_OK")
      case False
      with Suc.prems(1) t \<open>\<not> fired\<close> c p1 show ?thesis by (auto simp: Let_def intro: loop_done_err)
    next
      case ok1: True
      obtain act p2 where l2: "loop_flow p1 = (act, p2)" by fastforce
      have p2: "loop_done p NSH_OK p2" and r2: "act = LOOP_RUN \<or> act = LOOP_NEXT \<Longrightarrow> ready p2"
        using loop_flow_done [OF l2] p1 ok1 by auto
      show ?thesis
      proof (cases "act = LOOP_RUN \<and> last_status p2 = 0")
        case False
        with Suc.prems(1) t \<open>\<not> fired\<close> c ok1 l2 p2 r2 Suc.IH [of bs p2] loop_done_trans [OF loop_done_done [OF p2]]
        show ?thesis by (auto simp: Let_def split: if_splits)
      next
        case True
        with Suc.prems(1) t \<open>\<not> fired\<close> c ok1 l2 obtain e3 p3 where b: "ev body p2 = Some (e3, p3)"
          and rest: "if e3 \<noteq> NSH_OK then (err, q) = (e3, p3)
            else (let (act4, p4) = loop_flow p3
              in if act4 = LOOP_NEXT then while_loop os ev n cond body (last_status p3) p4 = Some (err, q)
                 else if act4 \<noteq> LOOP_RUN \<or> last_status p3 = STATUS_INTERRUPTED then (err, q) = (NSH_OK, p4)
                 else while_loop os ev n cond body (last_status p3) p4 = Some (err, q))"
          by (auto simp: Let_def STATUS_INTERRUPTED_def split: Option.bind_splits if_splits prod.splits)
        have p3: "done_from p e3 p3"
          using loop_done_done [OF p2] ev_okD [OF assms b r2] True by (auto intro: done_trans)
        show ?thesis
        proof (cases "e3 = NSH_OK")
          case False
          with rest p3 show ?thesis by (auto intro: loop_done_err)
        next
          case ok3: True
          obtain act4 p4 where l4: "loop_flow p3 = (act4, p4)" by fastforce
          have p4: "loop_done p NSH_OK p4" and r4: "act4 = LOOP_RUN \<or> act4 = LOOP_NEXT \<Longrightarrow> ready p4"
            using loop_flow_done [OF l4] p3 ok3 by auto
          from rest ok3 l4 p4 r4 Suc.IH [of "last_status p3" p4] loop_done_trans [OF loop_done_done [OF p4]]
          show ?thesis by (auto split: if_splits)
        qed
      qed
    qed
  qed
qed simp

lemma loop_enter_ready: "ready p \<Longrightarrow> ready (loop_enter p)"
  by (auto simp: loop_enter_def Let_def ready_def shell_ok_def flow_ok_def halted_def
      signals_int_watch_def set_disposition_def)

lemma loop_leave_ok:
  assumes "ready p" and "loop_done (loop_enter p) err q"
  shows "done_from p err (loop_leave q)"
  using assms
  by (auto simp: loop_enter_def loop_leave_def Let_def shell_ok_def flow_ok_def kept_def ready_def
      loop_done_def done_from_def halted_def signals_int_watch_def set_disposition_def split: if_splits)


lemma say_done: "ready p \<Longrightarrow> loop_done p NSH_OK (say r p)"
proof -
  assume r: "ready p"
  have "calm p (say r p)" by simp
  from calm_shell [OF _ this] r have "shell_ok (say r p)" "kept p (say r p)" by (auto simp: ready_def)
  then show ?thesis
    using r by (auto simp: loop_done_def done_from_def ready_def halted_def say_def)
qed

lemma for_loop_ok:
  assumes "ev_ok ev"
  shows "for_loop os ev var ws ctx body bs p = Some (err, q) \<Longrightarrow> ready p \<Longrightarrow> loop_done p err q"
proof (induction ws arbitrary: bs p)
  case Nil
  then have "loop_done p NSH_OK p" by (intro loop_doneI done_refl) (simp_all add: ready_def)
  with Nil show ?case by auto
next
  case (Cons w ws)
  obtain fired p0 where t: "int_take os p = (fired, p0)" by fastforce
  from int_take_ok [OF t Cons.prems(2)] have p0: "ready p0" "done_from p NSH_OK p0" by auto
  have sayd: "loop_done p NSH_OK (say r p0)" for r
    using p0 by (blast intro: loop_done_trans say_done)
  have d0: "loop_done p NSH_OK p0" using p0 by (intro loop_doneI) (simp_all add: ready_def)
  let ?rest = "\<lambda>e1 p1. if e1 \<noteq> NSH_OK then Some (e1, p1)
     else (let bs = last_status p1; (act, p2) = loop_flow p1
       in if act = LOOP_NEXT then for_loop os ev var ws ctx body bs p2
          else if act \<noteq> LOOP_RUN \<or> bs = STATUS_INTERRUPTED then Some (NSH_OK, p2)
          else for_loop os ev var ws ctx body bs p2)"
  consider "fired" | r where "(err, q) = (NSH_OK, (say r p0)\<lparr>last_status := 1\<rparr>)"
    | e e1 p1 where "ev body (p0\<lparr>p_env := e\<rparr>) = Some (e1, p1)" "?rest e1 p1 = Some (err, q)"
  proof (cases fired)
    case False
    with Cons.prems(1) t obtain e0 v where x: "expand_word (p_env p0) (Some w) (Some ctx) = Some (e0, v)"
      by (auto simp: Let_def split: Option.bind_splits)
    let ?s = "setenv (p_env p0) var (case v of Some v \<Rightarrow> v | None \<Rightarrow> [])"
    show ?thesis
    proof (cases "e0 \<noteq> NSH_OK \<or> ?s = None")
      case True
      with Cons.prems(1) t x False that(2) show ?thesis by (auto split: if_splits)
    next
      case ok: False
      then obtain e where e: "?s = Some e" by blast
      with ok Cons.prems(1) t x False have "do { (err, p1) \<leftarrow> ev body (p0\<lparr>p_env := e\<rparr>); ?rest err p1 } = Some (err, q)"
        by simp
      then obtain e1 p1 where "ev body (p0\<lparr>p_env := e\<rparr>) = Some (e1, p1)" "?rest e1 p1 = Some (err, q)"
        by (cases "ev body (p0\<lparr>p_env := e\<rparr>)") auto
      with that(3) show ?thesis by blast
    qed
  qed
  then show ?case
  proof cases
    case 1
    with Cons.prems(1) t d0 show ?thesis by auto
  next
    case (2 r)
    with sayd [of r] show ?thesis by auto
  next
    case (3 e e1 p1)
    have r0: "ready (p0\<lparr>p_env := e\<rparr>)" and de: "done_from p NSH_OK (p0\<lparr>p_env := e\<rparr>)"
      using p0 by (simp_all add: ready_def done_from_def shell_ok_def kept_def flow_ok_def halted_def)
    have p1: "done_from p e1 p1" using de ev_okD [OF assms 3(1) r0] by (rule done_trans)
    show ?thesis
    proof (cases "e1 = NSH_OK")
      case False
      with 3(2) p1 show ?thesis by (auto intro: loop_done_err)
    next
      case ok: True
      obtain act p2 where l: "loop_flow p1 = (act, p2)" by fastforce
      have p2: "loop_done p NSH_OK p2" and r2: "act = LOOP_RUN \<or> act = LOOP_NEXT \<Longrightarrow> ready p2"
        using loop_flow_done [OF l] p1 ok by auto
      from 3(2) ok l p2 r2 Cons.IH [of "last_status p1" p2] loop_done_trans [OF loop_done_done [OF p2]]
      show ?thesis by (auto simp: Let_def split: if_splits)
    qed
  qed
qed

lemma eval_while_ok:
  assumes "ev_ok ev" "eval_while os ev n cond body p = Some (err, q)" "ready p"
  shows "done_from p err q"
  using assms(2,3) while_loop_ok [OF assms(1) _ loop_enter_ready [OF assms(3)]]
  by (auto simp: eval_while_def split: Option.bind_splits intro: loop_leave_ok)

lemma eval_for_ok:
  assumes "ev_ok ev" "eval_for os ev var words body p = Some (err, q)" "ready p"
  shows "done_from p err q"
  using assms(2,3) for_loop_ok [OF assms(1) _ loop_enter_ready [OF assms(3)]]
  by (auto simp: eval_for_def split: Option.bind_splits intro: loop_leave_ok)

lemma funcs_update_done:
  "done_from p err (q\<lparr>p_funcs := f\<rparr>) \<longleftrightarrow> done_from p err q"
  by (simp add: done_from_def shell_ok_def kept_def flow_ok_def halted_def)

lemma eval_funcdef_ok:
  assumes "eval_funcdef name body p = Some (err, q)" and "ready p"
  shows "done_from p err q"
proof -
  have "done_from p err ((p\<lparr>p_funcs := f\<rparr>)\<lparr>last_status := 0\<rparr>)" for f
    unfolding done_status funcs_update_done by (rule done_refl [OF assms(2)])
  with assms(1) show ?thesis by (auto simp: eval_funcdef_def)
qed

lemma eval_node_ok: "ev_ok (eval_node os n)"
proof (induction n)
  case 0
  show ?case by (simp add: ev_ok_def)
next
  case (Suc n)
  show ?case
  proof (rule ev_okI)
    fix nd and p :: "'a Proc" and err q
    assume "eval_node os (Suc n) nd p = Some (err, q)" "ready p"
    moreover from \<open>ready p\<close> have "shell_ok p" by (simp add: ready_def)
    ultimately show "done_from p err q"
      by (cases nd)
         (auto dest: eval_pipeline_ok [OF Suc] eval_andor_ok [OF Suc] eval_list_ok [OF Suc]
           eval_if_ok [OF Suc] eval_while_ok [OF Suc] eval_for_ok [OF Suc] eval_funcdef_ok)
  qed
qed

section \<open>Properties\<close>

text \<open>The state a shell is in between two commands.\<close>

definition at_prompt :: "'w Proc \<Rightarrow> bool" where
  "at_prompt p \<longleftrightarrow> loop_depth p = 0 \<and> func_depth p = 0 \<and> sh_flow p = FLOW_NONE \<and> \<not> want_exit p
     \<and> sig_disp (p_sig p) SIGINT = SIG_IGN \<and> std_plain (p_fds p)"

lemma at_prompt_ready: "at_prompt p \<Longrightarrow> ready p"
  by (simp add: at_prompt_def ready_def shell_ok_def flow_ok_def halted_def FUNC_DEPTH_MAX_def)

lemma at_prompt_boot [simp]: "at_prompt boot"
proof -
  have "std_plain (p_fds boot)"
    by (simp add: std_plain_def boot_def numeral_3_eq_3 less_Suc_eq)
  then show ?thesis by (simp add: at_prompt_def boot_def signals_install_shell_def IGNORED_SIGNALS_def
        set_disposition_def SIGINT_def SIGQUIT_def SIGTSTP_def SIGTTOU_def SIGCHLD_def)
qed

text \<open>A plain command line, for the examples.\<close>

definition plain_word :: "string \<Rightarrow> Token" where
  "plain_word s = \<lparr>t_kind = TOK_WORD, t_segs = [\<lparr>ws_text = s, ws_expand = True\<rparr>]\<rparr>"

definition line_node :: "string list \<Rightarrow> Node" where
  "line_node ws = NODE_PIPELINE \<lparr>pl_cmds = [\<lparr>c_words = map plain_word ws, c_redir_in = None,
     c_redir_out = None, c_redir_append = False, c_redir_err = None\<rparr>],
     pl_background = False\<rparr> False"

text \<open>C3: running a program leaves the shell's control state as it was. For every tree, every answer of
  the operating system and any fuel that suffices: nesting depths and positional parameters
  are restored, every descriptor is what it was (redirections are undone and no pipe end
  leaks), no \<open>break\<close>, \<open>continue\<close> or \<open>return\<close> stays pending, and SIGINT is ignored again.\<close>

theorem eval_restores_shell:
  assumes "at_prompt p" and "eval_run os n nd p = Some (err, q)"
  shows "loop_depth q = 0 \<and> func_depth q = 0 \<and> sh_flow q = FLOW_NONE
    \<and> sh_argc q = sh_argc p \<and> sh_argv q = sh_argv p \<and> p_fds q = p_fds p
    \<and> sig_disp (p_sig q) SIGINT = SIG_IGN
    \<and> (\<not> want_exit q \<longrightarrow> at_prompt q)"
proof (cases nd)
  case None
  with assms show ?thesis by (auto simp: eval_run_def at_prompt_def)
next
  case (Some t)
  with assms(2) have "eval_node os n t p = Some (err, q)" by (simp add: eval_run_def)
  from ev_okD [OF eval_node_ok this at_prompt_ready [OF assms(1)]]
  have "shell_ok q" "kept p q" by (auto simp: done_from_def)
  with assms(1) show ?thesis
    by (cases "sh_flow q") (auto simp: at_prompt_def shell_ok_def kept_def flow_ok_def)
qed


theorem eval_restores_shell_witness:
  "\<exists>q. eval_run quiet_os 9 (Some (NODE_FOR ''i'' [plain_word ''a'', plain_word ''b'']
        (NODE_LIST [line_node [''ls'', ''$i''], line_node [''break'']]))) boot
      = Some (NSH_OK, q) \<and> p_fds q = p_fds boot \<and> at_prompt q"
proof -
  let ?nd = "NODE_FOR ''i'' [plain_word ''a'', plain_word ''b'']
        (NODE_LIST [line_node [''ls'', ''$i''], line_node [''break'']])"
  have "map_option (\<lambda>(e, q). (e, want_exit q)) (eval_run quiet_os 9 (Some ?nd) boot) = Some (NSH_OK, False)" by code_simp
  then obtain q where q: "eval_run quiet_os 9 (Some ?nd) boot = Some (NSH_OK, q)" "\<not> want_exit q" by auto
  from eval_restores_shell [OF at_prompt_boot q(1)] q show ?thesis by blast
qed

end
