(* ===== verification/Eval_Term.thy ===== *)
theory Eval_Term
  imports Eval_Inv
begin

text \<open>
  Fuel and termination of the evaluator. Results do not depend on the fuel once it suffices,
  and every program without a \<open>while\<close> loop finishes: \<open>for\<close> runs over its word list, and calls
  nest at most 64 deep, however the functions call each other.
\<close>

section \<open>More fuel never changes a result\<close>

definition leo :: "'a option \<Rightarrow> 'a option \<Rightarrow> bool" where "leo x y \<longleftrightarrow> x = None \<or> x = y"

lemma leo_refl [simp, intro]: "leo x x" by (simp add: leo_def)
lemma leo_None [simp, intro]: "leo None y" by (simp add: leo_def)
lemma leo_trans: "leo x y \<Longrightarrow> leo y z \<Longrightarrow> leo x z" by (auto simp: leo_def)
lemma leoD: "leo x y \<Longrightarrow> x = Some v \<Longrightarrow> y = Some v" by (auto simp: leo_def)
lemma leoI: "(\<And>v. x = Some v \<Longrightarrow> y = Some v) \<Longrightarrow> leo x y" by (cases x) (auto simp: leo_def)

lemma leo_bind: "leo x y \<Longrightarrow> (\<And>v. leo (f v) (g v)) \<Longrightarrow> leo (x \<bind> f) (y \<bind> g)"
proof -
  assume "leo x y" and m: "\<And>v. leo (f v) (g v)"
  then show ?thesis
  proof (cases x)
    case (Some a)
    from leoD [OF \<open>leo x y\<close> Some] have "y = Some a" .
    with Some m [of a] show ?thesis by simp
  qed simp
qed

lemma leo_list:
  "leo u v \<Longrightarrow> (\<And>a as. leo (f a as) (g a as)) \<Longrightarrow>
   leo (case x of [] \<Rightarrow> u | a # as \<Rightarrow> f a as) (case x of [] \<Rightarrow> v | a # as \<Rightarrow> g a as)"
  by (cases x) simp_all

lemma leo_if: "(b \<Longrightarrow> leo x y) \<Longrightarrow> (\<not> b \<Longrightarrow> leo u v) \<Longrightarrow> leo (if b then x else u) (if b then y else v)"
  by simp

lemma leo_prod: "(\<And>a b. leo (f a b) (g a b)) \<Longrightarrow> leo (case x of (a, b) \<Rightarrow> f a b) (case x of (a, b) \<Rightarrow> g a b)"
  by (cases x) simp

lemma leo_option:
  "leo u v \<Longrightarrow> (\<And>a. leo (f a) (g a)) \<Longrightarrow>
   leo (case x of None \<Rightarrow> u | Some a \<Rightarrow> f a) (case x of None \<Rightarrow> v | Some a \<Rightarrow> g a)"
  by (cases x) simp_all

lemma leo_sum:
  "(\<And>a. leo (f a) (g a)) \<Longrightarrow> (\<And>a. leo (f' a) (g' a)) \<Longrightarrow>
   leo (case x of Inl a \<Rightarrow> f a | Inr a \<Rightarrow> f' a) (case x of Inl a \<Rightarrow> g a | Inr a \<Rightarrow> g' a)"
  by (cases x) simp_all

lemmas leo_rules = leo_refl leo_bind leo_if leo_prod leo_option leo_sum leo_list

lemma wait_retry_mono: "leo (wait_retry os n pid b w) (wait_retry os (n + k) pid b w)"
proof (induction n arbitrary: w)
  case (Suc n)
  then show ?case by (simp split: prod.splits sum.splits)
qed simp

lemma wait_loop_mono: "leo (wait_loop os n pids b st w) (wait_loop os (n + k) pids b st w)"
proof (induction pids arbitrary: b st w)
  case (Cons pid pids)
  have m: "leo (wait_retry os n pid b w) (wait_retry os (n + k) pid b w)" by (rule wait_retry_mono)
  show ?case
  proof (cases "wait_retry os n pid b w")
    case None
    with Cons.IH show ?thesis by simp
  next
    case (Some r)
    with m have "wait_retry os (n + k) pid b w = Some r" by (rule leoD)
    with Some Cons.IH show ?thesis by (simp split: prod.splits sum.splits)
  qed
qed simp

lemma spawn_wait_mono: "leo (spawn_wait_pids os n pids p) (spawn_wait_pids os (n + k) pids p)"
proof (rule leoI)
  fix v assume "spawn_wait_pids os n pids p = Some v"
  then obtain r where "wait_loop os n pids False 0 (p_world p) = Some r"
    by (auto simp: spawn_wait_pids_def split: option.splits)
  with leoD [OF wait_loop_mono this] \<open>spawn_wait_pids os n pids p = Some v\<close>
  show "spawn_wait_pids os (n + k) pids p = Some v" by (simp add: spawn_wait_pids_def)
qed

lemma exec_wait_mono: "leo (exec_wait_foreground os n i p) (exec_wait_foreground os (n + k) i p)"
  unfolding exec_wait_foreground_def by (intro leo_rules spawn_wait_mono)

lemma bi_fg_mono: "leo (bi_fg os n argv p) (bi_fg os (n + k) argv p)"
  unfolding bi_fg_def Let_def by (intro leo_rules exec_wait_mono)

lemma builtin_mono: "leo (builtin_call os n fn argv p) (builtin_call os (n + k) fn argv p)"
  by (cases fn) (simp_all add: bi_fg_mono)

lemma run_builtin_mono: "leo (run_builtin os n c fn argv p) (run_builtin os (n + k) c fn argv p)"
  unfolding run_builtin_def by (intro leo_rules builtin_mono)

definition call_le :: "'w fcall \<Rightarrow> 'w fcall \<Rightarrow> bool" where
  "call_le c d \<longleftrightarrow> (\<forall>argv p. leo (c argv p) (d argv p))"

lemma run_function_mono:
  assumes "call_le call call'"
  shows "leo (run_function os call c argv p) (run_function os call' c argv p)"
proof -
  have m: "leo (call argv p) (call' argv p)" for argv p using assms unfolding call_le_def by blast
  show ?thesis unfolding run_function_def by (intro leo_rules m)
qed

lemma foreground_wait_mono:
  "leo (foreground_wait os n pl g pids p) (foreground_wait os (n + k) pl g pids p)"
  unfolding foreground_wait_def by (intro leo_rules spawn_wait_mono)

lemma run_forked_mono: "leo (run_forked os n pl p) (run_forked os (n + k) pl p)"
  unfolding run_forked_def Let_def by (intro leo_rules foreground_wait_mono)

lemma run_simple_mono:
  assumes "call_le call call'"
  shows "leo (run_simple os call n pl p) (run_simple os call' (n + k) pl p)"
  unfolding run_simple_def Let_def
  by (intro leo_rules run_builtin_mono run_function_mono [OF assms] run_forked_mono)

lemma exec_pipeline_mono:
  assumes "call_le call call'"
  shows "leo (exec_pipeline os call n pl p) (exec_pipeline os call' (n + k) pl p)"
  unfolding exec_pipeline_def by (intro leo_rules run_simple_mono [OF assms] run_forked_mono)

definition ev_le :: "'w evaluator \<Rightarrow> 'w evaluator \<Rightarrow> bool" where
  "ev_le f g \<longleftrightarrow> (\<forall>nd p. leo (f nd p) (g nd p))"

lemma ev_leD: "ev_le f g \<Longrightarrow> leo (f nd p) (g nd p)" by (simp add: ev_le_def)

lemma call_function_mono: "ev_le f g \<Longrightarrow> call_le (eval_maybe_call_function f) (eval_maybe_call_function g)"
  unfolding call_le_def eval_maybe_call_function_def Let_def by (intro allI leo_rules ev_leD)

lemma eval_pipeline_mono: "ev_le f g \<Longrightarrow> leo (eval_pipeline os f n pl neg p) (eval_pipeline os g (n + k) pl neg p)"
  unfolding eval_pipeline_def by (intro leo_rules exec_pipeline_mono call_function_mono)

lemma eval_andor_mono: "ev_le f g \<Longrightarrow> leo (eval_andor f items p) (eval_andor g items p)"
proof (induction items arbitrary: p)
  case (Cons it items)
  obtain op nd where it: "it = (op, nd)" by (cases it)
  show ?case unfolding it eval_andor.simps by (intro leo_rules Cons ev_leD)
qed simp

lemma eval_list_mono: "ev_le f g \<Longrightarrow> leo (eval_list f nds p) (eval_list g nds p)"
proof (induction nds arbitrary: p)
  case (Cons nd nds)
  show ?case unfolding eval_list.simps by (intro leo_rules Cons ev_leD)
qed simp

lemma eval_if_mono: "ev_le f g \<Longrightarrow> leo (eval_if f cs bs els p) (eval_if g cs bs els p)"
proof (induction cs arbitrary: bs p)
  case Nil
  then show ?case by (cases els) (auto dest: ev_leD)
next
  case (Cons c cs)
  show ?case
    unfolding eval_if.simps by (intro leo_rules Cons ev_leD)
qed

lemma while_loop_mono:
  "ev_le f g \<Longrightarrow> leo (while_loop os f n c b bs p) (while_loop os g (n + k) c b bs p)"
proof (induction n arbitrary: bs p)
  case (Suc n)
  show ?case unfolding add_Suc while_loop.simps Let_def by (intro leo_rules Suc ev_leD)
qed simp

lemma for_loop_mono: "ev_le f g \<Longrightarrow> leo (for_loop os f v ws ctx b bs p) (for_loop os g v ws ctx b bs p)"
proof (induction ws arbitrary: bs p)
  case (Cons w ws)
  show ?case unfolding for_loop.simps Let_def by (intro leo_rules Cons ev_leD)
qed simp

lemma eval_node_mono: "ev_le (eval_node os n) (eval_node os (n + k))"
proof (induction n)
  case 0
  show ?case by (simp add: ev_le_def)
next
  case (Suc n)
  note m = eval_pipeline_mono [OF Suc] eval_andor_mono [OF Suc] eval_list_mono [OF Suc]
    eval_if_mono [OF Suc] while_loop_mono [OF Suc] for_loop_mono [OF Suc]
  show ?case
    unfolding ev_le_def
  proof (intro allI)
    fix nd and p :: "'a Proc"
    show "leo (eval_node os (Suc n) nd p) (eval_node os (Suc n + k) nd p)"
      by (cases nd) (simp_all add: m eval_while_def eval_for_def leo_bind)
  qed
qed

lemma eval_node_more: "eval_node os n nd p = Some r \<Longrightarrow> n \<le> m \<Longrightarrow> eval_node os m nd p = Some r"
  using ev_leD [OF eval_node_mono, of os n nd p "m - n"] by (simp add: leo_def)


section \<open>Programs without \<open>while\<close>\<close>

fun while_free :: "Node \<Rightarrow> bool" where
  "while_free (NODE_PIPELINE pl neg) \<longleftrightarrow> True"
| "while_free (NODE_ANDOR items) \<longleftrightarrow> (\<forall>it\<in>set items. while_free (snd it))"
| "while_free (NODE_LIST nodes) \<longleftrightarrow> (\<forall>nd\<in>set nodes. while_free nd)"
| "while_free (NODE_IF conds bodies els) \<longleftrightarrow> (\<forall>nd\<in>set conds. while_free nd)
     \<and> (\<forall>nd\<in>set bodies. while_free nd) \<and> (\<forall>nd\<in>set_option els. while_free nd)"
| "while_free (NODE_WHILE cond body) \<longleftrightarrow> False"
| "while_free (NODE_FOR var words body) \<longleftrightarrow> while_free body"
| "while_free (NODE_FUNCDEF name body) \<longleftrightarrow> while_free body"

definition good :: "Node \<Rightarrow> bool" where "good nd \<longleftrightarrow> while_free nd \<and> node_ok nd"

definition good_funcs :: "'w Proc \<Rightarrow> bool" where
  "good_funcs p \<longleftrightarrow> (\<forall>f\<in>set (g_funcs (p_funcs p)). good (f_body f))"

text \<open>What is needed of the system: it does not interrupt a wait forever.\<close>

definition waits_return :: "'w Os \<Rightarrow> nat \<Rightarrow> bool" where
  "waits_return os N \<longleftrightarrow> (\<forall>pid b w. wait_retry os N pid b w \<noteq> None)"

lemma good_funcs_cong: "p_funcs q = p_funcs p \<Longrightarrow> good_funcs q = good_funcs p"
  by (simp add: good_funcs_def)

lemma good_lookup: "good_funcs p \<Longrightarrow> func_lookup (p_funcs p) name = Some body \<Longrightarrow> good body"
  by (auto simp: good_funcs_def func_lookup_def func_find_def find_index_Some split: option.splits)

lemma good_define:
  assumes "good_funcs p" "good body"
  shows "good_funcs (p\<lparr>p_funcs := func_define (p_funcs p) (Some name) body\<rparr>)"
proof -
  have "set ((g_funcs (p_funcs p))[i := y]) \<subseteq> insert y (set (g_funcs (p_funcs p)))" for i y
    by (rule set_update_subset_insert)
  with assms show ?thesis
    by (fastforce simp: good_funcs_def func_define_def split: option.splits)
qed

text \<open>Expansion of well-formed words always answers.\<close>

lemma expand_word_Some: "word_ok w \<Longrightarrow> \<exists>err t. expand_word e (Some w) (Some ctx) = Some (err, t)
    \<and> (err = NSH_OK \<longrightarrow> t \<noteq> None)"
  using expand_word_total [of w e ctx] by auto

lemma build_argv_Some: "\<forall>w\<in>set ws. word_ok w \<Longrightarrow> build_argv e ws ctx \<noteq> None"
proof (induction ws)
  case (Cons w ws)
  from expand_word_Some [of w e ctx] Cons.prems obtain err t where
    "expand_word e (Some w) (Some ctx) = Some (err, t)" by auto
  with Cons show ?case by (auto split: option.splits)
qed simp

lemma cmdline_words_Some: "\<forall>w\<in>set ws. word_ok w \<Longrightarrow> cmdline_words e ctx b ws \<noteq> None"
proof (induction ws arbitrary: b)
  case (Cons w ws)
  from expand_word_Some [of w e ctx] Cons.prems obtain err t where
    "expand_word e (Some w) (Some ctx) = Some (err, t)" by auto
  moreover have "cmdline_words e ctx False ws \<noteq> None" using Cons by simp
  ultimately show ?case by auto
qed simp

lemma cmdline_cmds_Some: "\<forall>c\<in>set cs. cmd_ok c \<Longrightarrow> cmdline_cmds e ctx b cs \<noteq> None"
proof (induction cs arbitrary: b)
  case (Cons c cs)
  have "cmdline_words e ctx True (c_words c) \<noteq> None"
    using Cons.prems by (intro cmdline_words_Some) (simp add: cmd_ok_def)
  moreover have "cmdline_cmds e ctx False cs \<noteq> None" using Cons by simp
  ultimately show ?case by auto
qed simp

lemma pipeline_cmdline_Some: "pipeline_ok pl \<Longrightarrow> pipeline_cmdline p pl \<noteq> None"
  using cmdline_cmds_Some [of "pl_cmds pl" "p_env p" "expand_ctx p" True]
  by (auto simp: pipeline_cmdline_def pipeline_ok_def)

lemma wait_loop_Some: "waits_return os N \<Longrightarrow> wait_loop os N pids b st w \<noteq> None"
proof (induction pids arbitrary: b st w)
  case (Cons pid pids)
  then have "wait_retry os N pid b w \<noteq> None" by (simp add: waits_return_def)
  with Cons show ?case by (auto split: sum.splits)
qed simp

lemma spawn_wait_Some: "waits_return os N \<Longrightarrow> spawn_wait_pids os N pids p \<noteq> None"
  using wait_loop_Some [of os N pids False 0 "p_world p"] by (auto simp: spawn_wait_pids_def)

lemma last_index_less: "last_index P xs = Some i \<Longrightarrow> i < length xs"
  by (auto simp: last_index_def dest!: find_index_less)

lemma job_from_arg_index: "job_from_arg nm a p = (Some i, q) \<Longrightarrow> i < length (p_jobs q)"
  by (auto simp: job_from_arg_def jobs_by_id_def jobs_current_def Let_def
      split: option.splits prod.splits if_splits dest: find_index_less last_index_less)


text \<open>With the waits returning, every step of a pipeline but the function calls returns.\<close>

lemma exec_wait_Some:
  assumes "waits_return os N" and "i < length (p_jobs p)"
  shows "exec_wait_foreground os N i p \<noteq> None"
proof -
  have "spawn_wait_pids os N (take (j_nproc j) (j_pids j)) q \<noteq> None" for j and q :: "'a Proc"
    by (rule spawn_wait_Some [OF assms(1)])
  then show ?thesis
    using assms(2) unfolding exec_wait_foreground_def
    by (auto simp: rd_def Let_def split: Option.bind_splits)
qed

lemma bi_fg_Some:
  assumes "waits_return os N"
  shows "bi_fg os N argv p \<noteq> None"
proof (cases "length argv > 2")
  case False
  obtain r q where j: "job_from_arg ''fg'' (if length argv > 1 then Some (argv ! 1) else None) p = (r, q)"
    by fastforce
  show ?thesis
  proof (cases r)
    case None
    with False j show ?thesis by (simp add: bi_fg_def)
  next
    case (Some i)
    with j job_from_arg_index have "i < length (p_jobs q)" by blast
    then have "exec_wait_foreground os N i (fflush (put_out s (set_job_state i JOB_RUNNING (q\<lparr>p_world := w\<rparr>)))) \<noteq> None"
      for s w
      by (intro exec_wait_Some [OF assms]) (simp add: fflush_def put_out_def set_job_state_def)
    with False j Some show ?thesis by (auto simp: bi_fg_def Let_def split: prod.splits)
  qed
qed (simp add: bi_fg_def)

lemma builtin_Some: "waits_return os N \<Longrightarrow> builtin_call os N fn argv p \<noteq> None"
  using bi_fg_Some by (cases fn) auto

lemma apply_one_Some:
  assumes "\<forall>w\<in>set_option word. word_ok w"
  shows "apply_one os word ctx fl tg p \<noteq> None"
proof (cases word)
  case (Some w)
  with assms expand_word_Some [of w "p_env p" ctx] show ?thesis
    by (auto simp: apply_one_def split: option.splits)
qed (simp add: apply_one_def)

lemma apply_all_Some: "cmd_ok c \<Longrightarrow> apply_all os c ctx p \<noteq> None"
proof -
  assume c: "cmd_ok c"
  have 1: "apply_one os (c_redir_in c) ctx fl tg q \<noteq> None" for fl tg and q :: "'a Proc"
    using c by (intro apply_one_Some) (simp add: cmd_ok_def)
  have 2: "apply_one os (c_redir_out c) ctx fl tg q \<noteq> None" for fl tg and q :: "'a Proc"
    using c by (intro apply_one_Some) (simp add: cmd_ok_def)
  have 3: "apply_one os (c_redir_err c) ctx fl tg q \<noteq> None" for fl tg and q :: "'a Proc"
    using c by (intro apply_one_Some) (simp add: cmd_ok_def)
  show ?thesis unfolding apply_all_def using 1 2 3 by (auto simp del: not_None_eq split: Option.bind_splits)
qed

lemma redirect_apply_Some:
  "cmd_ok c \<Longrightarrow> \<exists>err sv q. redirect_apply os (Some c) ctx (Some s0) p = Some (err, sv, q)"
proof -
  assume c: "cmd_ok c"
  obtain e1 s1 p1 where s: "save_std os s0 (fflush p) = (e1, s1, p1)" by (cases "save_std os s0 (fflush p)")
  from apply_all_Some [OF c, of os ctx p1] obtain err q where "apply_all os c ctx p1 = Some (err, q)" by auto
  with s show ?thesis by (auto simp: redirect_apply_def)
qed

lemma run_forked_Some:
  assumes "waits_return os N" and "pipeline_ok pl"
  shows "run_forked os N pl p \<noteq> None"
proof -
  have 1: "background_job pl g pids q \<noteq> None" for g pids and q :: "'a Proc"
    using pipeline_cmdline_Some [OF assms(2), of q] by (auto simp: background_job_def Let_def)
  have 2: "foreground_wait os N pl g pids q \<noteq> None" for g pids and q :: "'a Proc"
  proof -
    obtain st b r where "spawn_wait_pids os N pids (spawn_set_terminal os g q) = Some (st, b, r)"
      using spawn_wait_Some [OF assms(1), of pids "spawn_set_terminal os g q"] by auto
    moreover obtain s where "pipeline_cmdline (spawn_set_terminal os (shell_pgid r) r) pl = Some s"
      using pipeline_cmdline_Some [OF assms(2), of "spawn_set_terminal os (shell_pgid r) r"] by blast
    ultimately show ?thesis by (auto simp: foreground_wait_def Let_def)
  qed
  show ?thesis unfolding run_forked_def Let_def using 1 2 by (simp split: prod.splits)
qed

lemma builtin_funcs:
  assumes "builtin_call os n fn argv p = Some (st, q)" "flow_ok p" "\<not> halted p"
  shows "p_funcs q = p_funcs p"
  using builtin_quiet [OF assms] by (simp add: quiet_def)


definition ends :: "'w Os \<Rightarrow> Node \<Rightarrow> 'w Proc \<Rightarrow> bool" where
  "ends os nd p \<longleftrightarrow> (\<exists>n err q. eval_node os n nd p = Some (err, q) \<and> good_funcs q)"

lemma call_ends:
  assumes gf: "good_funcs p" and r: "ready p"
    and B: "\<And>body p'. good body \<Longrightarrow> ready p' \<Longrightarrow> good_funcs p' \<Longrightarrow> func_depth p' = func_depth p + 1 \<Longrightarrow>
              func_depth p < FUNC_DEPTH_MAX \<Longrightarrow> ends os body p'"
  shows "\<exists>n found st q. eval_maybe_call_function (eval_node os n) argv p = Some (found, st, q)
    \<and> good_funcs q \<and> (found \<or> q = p)"
proof (cases "argv = [] \<or> func_lookup (p_funcs p) (Some (hd argv)) = None \<or> func_depth p \<ge> FUNC_DEPTH_MAX")
  case True
  then have "eval_maybe_call_function (eval_node os 0) argv p = Some (False, 0, p)
      \<or> eval_maybe_call_function (eval_node os 0) argv p = Some (True, 1, say ''function recursion too deep'' p)"
    by (auto simp: eval_maybe_call_function_def split: option.splits)
  moreover have "good_funcs (say m p)" for m using gf by (simp add: say_def put_err_def good_funcs_def)
  ultimately show ?thesis using gf by blast
next
  case False
  then obtain body where b: "func_lookup (p_funcs p) (Some (hd argv)) = Some body" and a: "argv \<noteq> []"
    and d: "func_depth p < FUNC_DEPTH_MAX" by auto
  let ?p = "p\<lparr>sh_argc := int (length argv), sh_argv := Some (call_argv_new p argv),
             func_depth := func_depth p + 1\<rparr>"
  have "ready ?p" using r d by (auto simp: ready_def shell_ok_def flow_ok_def halted_def)
  moreover have "good_funcs ?p" using gf by (simp add: good_funcs_def)
  ultimately have "ends os body ?p" using good_lookup [OF gf b] d by (intro B) simp_all
  then obtain n err q where ev: "eval_node os n body ?p = Some (err, q)" and gq: "good_funcs q"
    unfolding ends_def by blast
  let ?q = "q\<lparr>func_depth := func_depth q - 1, sh_argc := sh_argc p, sh_argv := sh_argv p\<rparr>"
  have "good_funcs (?q\<lparr>sh_flow := FLOW_NONE\<rparr>)" "good_funcs (drain_stray_flow ?q)"
    using gq by (simp_all add: good_funcs_def drain_stray_flow_def put_err_def)
  with a b d ev show ?thesis
    by (intro exI [of _ n]) (auto simp: eval_maybe_call_function_def Let_def)
qed

lemma run_function_ends:
  assumes c: "cmd_ok c" and gf: "good_funcs p" and r: "ready p"
    and B: "\<And>body p'. good body \<Longrightarrow> ready p' \<Longrightarrow> good_funcs p' \<Longrightarrow> func_depth p' = func_depth p + 1 \<Longrightarrow>
              func_depth p < FUNC_DEPTH_MAX \<Longrightarrow> ends os body p'"
  shows "\<exists>n found st q. run_function os (eval_maybe_call_function (eval_node os n)) c argv p = Some (found, st, q)
    \<and> good_funcs q"
proof -
  consider "func_lookup (p_funcs p) (Some (hd argv)) = None"
    | "func_lookup (p_funcs p) (Some (hd argv)) \<noteq> None" "\<not> has_redirect c"
    | "func_lookup (p_funcs p) (Some (hd argv)) \<noteq> None" "has_redirect c" by blast
  then show ?thesis
  proof cases
    case 1
    then have "run_function os (eval_maybe_call_function (eval_node os 0)) c argv p = Some (False, 0, p)"
      by (simp add: run_function_def)
    with gf show ?thesis by blast
  next
    case 2
    from call_ends [OF gf r B] obtain n found st q where
      "eval_maybe_call_function (eval_node os n) argv p = Some (found, st, q)" "good_funcs q" by blast
    with 2 show ?thesis by (intro exI [of _ n]) (auto simp: run_function_def)
  next
    case 3
    obtain err sv p1 where ap: "redirect_apply os (Some c) (expand_ctx p) (Some REDIR_SAVE_INIT) p = Some (err, sv, p1)"
      using redirect_apply_Some [OF c] by blast
    have x: "calmx p p1" by (rule calmx_apply [OF ap])
    have rg: "good_funcs (snd (redirect_restore os sv q)) = good_funcs q" for q
      using calmx_restore [of q os sv q] by (simp add: calmx_fields good_funcs_def)
    have g1: "good_funcs p1" using x gf by (simp add: calmx_fields good_funcs_def)
    show ?thesis
    proof (cases "err = NSH_OK")
      case False
      have "good_funcs (snd (redirect_status err p1))"
        using redirect_status_calm [of p1 err] g1 by (simp add: calm_def quiet_def good_funcs_def)
      with 3 ap False show ?thesis
        by (cases "redirect_status err p1") (auto simp: run_function_def rg)
    next
      case True
      have "std_plain (p_fds p)" using r by (simp add: ready_def shell_ok_def)
      from plain_apply [OF ap this] x r have r1: "ready p1"
        by (simp add: ready_def shell_ok_def calmx_fields flow_ok_def halted_def)
      have fd: "func_depth p1 = func_depth p" using x by (simp add: calmx_fields)
      from call_ends [OF g1 r1, of os argv] B fd obtain n found st q where
        "eval_maybe_call_function (eval_node os n) argv p1 = Some (found, st, q)" "good_funcs q" by auto
      with 3 ap True show ?thesis by (intro exI [of _ n]) (auto simp: run_function_def rg)
    qed
  qed
qed

lemma run_builtin_ends:
  assumes W: "waits_return os N" and c: "cmd_ok c" and gf: "good_funcs p" and r: "ready p"
  shows "\<exists>st q. run_builtin os N c fn argv p = Some (st, q) \<and> good_funcs q"
proof (cases "has_redirect c")
  case False
  obtain st q where b: "builtin_call os N fn argv p = Some (st, q)" using builtin_Some [OF W, of fn argv p] by auto
  then have "p_funcs q = p_funcs p" using r by (intro builtin_funcs) (auto simp: ready_def shell_ok_def)
  with False b gf show ?thesis by (simp add: run_builtin_def good_funcs_def)
next
  case True
  obtain err sv p1 where ap: "redirect_apply os (Some c) (expand_ctx p) (Some REDIR_SAVE_INIT) p = Some (err, sv, p1)"
    using redirect_apply_Some [OF c] by blast
  have x: "calmx p p1" by (rule calmx_apply [OF ap])
  have rg: "p_funcs (snd (redirect_restore os sv q)) = p_funcs q" for q
    using calmx_restore [of q os sv q] by (simp add: calmx_fields)
  have nh: "flow_ok p1" "\<not> halted p1" using x r by (auto simp: calmx_fields ready_def shell_ok_def flow_ok_def halted_def)
  have "\<exists>st p2. (if err = NSH_OK then builtin_call os N fn argv p1 else Some (redirect_status err p1)) = Some (st, p2)
      \<and> p_funcs p2 = p_funcs p1"
  proof (cases "err = NSH_OK")
    case True
    obtain st q where b: "builtin_call os N fn argv p1 = Some (st, q)" using builtin_Some [OF W, of fn argv p1] by auto
    with builtin_funcs [OF b nh] True show ?thesis by auto
  next
    case False
    have "p_funcs (snd (redirect_status err p1)) = p_funcs p1"
      using redirect_status_calm [of p1 err] by (simp add: calm_def quiet_def)
    with False show ?thesis by (cases "redirect_status err p1") auto
  qed
  then obtain st p2 where "(if err = NSH_OK then builtin_call os N fn argv p1 else Some (redirect_status err p1)) = Some (st, p2)"
    "p_funcs p2 = p_funcs p1" by blast
  with True ap x gf rg show ?thesis by (auto simp: run_builtin_def calmx_fields good_funcs_def)
qed

lemma forked_funcs: "run_forked os n pl p = Some (st, q) \<Longrightarrow> good_funcs q = good_funcs p"
  using run_forked_calm [of os n pl p st q] by (auto simp: calm_def quiet_def good_funcs_def)

lemma run_simple_ends:
  assumes W: "waits_return os N" and ok: "pipeline_ok pl" and gf: "good_funcs p" and r: "ready p"
    and B: "\<And>body p'. good body \<Longrightarrow> ready p' \<Longrightarrow> good_funcs p' \<Longrightarrow> func_depth p' = func_depth p + 1 \<Longrightarrow>
              func_depth p < FUNC_DEPTH_MAX \<Longrightarrow> ends os body p'"
  shows "\<exists>n st q. run_simple os (eval_maybe_call_function (eval_node os n)) (N + n) pl p = Some (st, q)
    \<and> good_funcs q"
proof -
  let ?c = "hd (pl_cmds pl)"
  have c: "cmd_ok ?c" using ok by (cases "pl_cmds pl") (auto simp: pipeline_ok_def)
  then obtain a where a: "build_argv (p_env p) (c_words ?c) (expand_ctx p) = Some a"
    using build_argv_Some [of "c_words ?c" "p_env p" "expand_ctx p"] by (auto simp: cmd_ok_def)
  have keep: "good_funcs (bad_substitution p)" "good_funcs (put_err s p)" for s
    using gf by (simp_all add: bad_substitution_def put_err_def good_funcs_def)
  consider e where "a = Inl e" | "a = Inr []" | as where "a = Inr ([] # as)"
    | b as fn where "a = Inr (b # as)" "b \<noteq> []" "builtin_lookup (Some b) = Some fn"
    | b as where "a = Inr (b # as)" "b \<noteq> []" "builtin_lookup (Some b) = None"
    by (metis neq_Nil_conv not_Some_eq sum.exhaust)
  then show ?thesis
  proof cases
    case (4 b as fn)
    from run_builtin_ends [OF W c gf r, of fn "b # as"] obtain st q where
      "run_builtin os N ?c fn (b # as) p = Some (st, q)" "good_funcs q" by blast
    with a 4 show ?thesis by (intro exI [of _ "0::nat"]) (auto simp: run_simple_def Let_def)
  next
    case (5 b as)
    from run_function_ends [OF c gf r B, where argv = "b # as"] obtain n found st q where
      f: "run_function os (eval_maybe_call_function (eval_node os n)) ?c (b # as) p = Some (found, st, q)"
      and gq: "good_funcs q" by blast
    show ?thesis
    proof (cases found)
      case True
      with a 5 f gq show ?thesis by (intro exI [of _ n]) (auto simp: run_simple_def Let_def)
    next
      case False
      obtain st1 q1 where k: "run_forked os N pl q = Some (st1, q1)" using run_forked_Some [OF W ok, of q] by auto
      have "run_forked os (N + n) pl q = Some (st1, q1)" by (rule leoD [OF run_forked_mono k])
      with a 5 f False gq forked_funcs [OF k] show ?thesis
        by (intro exI [of _ n]) (auto simp: run_simple_def Let_def)
    qed
  qed (use a keep gf in \<open>auto simp: run_simple_def Let_def\<close>)
qed

lemma pipeline_ends:
  assumes W: "waits_return os N" and ok: "pipeline_ok pl" and gf: "good_funcs p" and r: "ready p"
    and B: "\<And>body p'. good body \<Longrightarrow> ready p' \<Longrightarrow> good_funcs p' \<Longrightarrow> func_depth p' = func_depth p + 1 \<Longrightarrow>
              func_depth p < FUNC_DEPTH_MAX \<Longrightarrow> ends os body p'"
  shows "ends os (NODE_PIPELINE pl neg) p"
proof -
  obtain n st q where "(if length (pl_cmds pl) = 1 \<and> \<not> pl_background pl
        then run_simple os (eval_maybe_call_function (eval_node os n)) (N + n) pl p
        else run_forked os (N + n) pl p) = Some (st, q)" and gq: "good_funcs q"
  proof (cases "length (pl_cmds pl) = 1 \<and> \<not> pl_background pl")
    case True
    from run_simple_ends [OF W ok gf r B] obtain n st q where
      "run_simple os (eval_maybe_call_function (eval_node os n)) (N + n) pl p = Some (st, q)" "good_funcs q"
      by blast
    with True that [of n st q] show ?thesis by simp
  next
    case False
    obtain st q where k: "run_forked os N pl p = Some (st, q)" using run_forked_Some [OF W ok, of p] by auto
    then have "(if length (pl_cmds pl) = 1 \<and> \<not> pl_background pl
        then run_simple os (eval_maybe_call_function (eval_node os 0)) (N + 0) pl p
        else run_forked os (N + 0) pl p) = Some (st, q)" unfolding if_not_P [OF False] by simp
    with forked_funcs [OF k] gf that show ?thesis by blast
  qed
  moreover have "pl_cmds pl \<noteq> []" using ok by (simp add: pipeline_ok_def)
  ultimately have x: "exec_pipeline os (eval_maybe_call_function (eval_node os n)) (N + n) pl p
      = Some (NSH_OK, q\<lparr>last_status := st\<rparr>)" by (simp add: exec_pipeline_def)
  have "call_le (eval_maybe_call_function (eval_node os n)) (eval_maybe_call_function (eval_node os (N + n)))"
    using eval_node_mono [of os n N] by (intro call_function_mono) (simp add: add.commute)
  from leoD [OF exec_pipeline_mono [OF this, of os "N + n" pl p 0] x]
  have "exec_pipeline os (eval_maybe_call_function (eval_node os (N + n))) (N + n) pl p
      = Some (NSH_OK, q\<lparr>last_status := st\<rparr>)" by simp
  then have "eval_node os (Suc (N + n)) (NODE_PIPELINE pl neg) p =
      Some (NSH_OK, if neg then q\<lparr>last_status := if st = 0 then 1 else 0\<rparr> else q\<lparr>last_status := st\<rparr>)"
    by (simp add: eval_pipeline_def)
  moreover have "good_funcs (q\<lparr>last_status := l\<rparr>)" for l using gq by (simp add: good_funcs_def)
  ultimately show ?thesis unfolding ends_def by (cases neg) fastforce+
qed


text \<open>The remaining nodes, one fuel for each list.\<close>

lemma ends_eval:
  assumes "ends os nd p" and "ready p"
  obtains n err q where "eval_node os n nd p = Some (err, q)" "good_funcs q" "done_from p err q"
proof -
  from assms(1) obtain n err q where e: "eval_node os n nd p = Some (err, q)" "good_funcs q"
    unfolding ends_def by blast
  with ev_okD [OF eval_node_ok e(1) assms(2)] that show ?thesis by blast
qed

text \<open>\<open>E nd k\<close>: evaluation of \<open>nd\<close> ends from every process at call depth \<open>64 - k\<close>.\<close>

definition ends_at :: "'w Os \<Rightarrow> int \<Rightarrow> Node \<Rightarrow> bool" where
  "ends_at os d nd \<longleftrightarrow> (\<forall>p. ready p \<longrightarrow> good_funcs p \<longrightarrow> func_depth p = d \<longrightarrow> ends os nd p)"

lemma ends_atD: "ends_at os d nd \<Longrightarrow> ready p \<Longrightarrow> good_funcs p \<Longrightarrow> func_depth p = d \<Longrightarrow> ends os nd p"
  by (simp add: ends_at_def)

lemma done_depth: "done_from p err q \<Longrightarrow> func_depth q = func_depth p"
  by (simp add: done_from_def kept_def)

lemma andor_ends:
  "\<forall>it\<in>set items. ends_at os d (snd it) \<Longrightarrow> ready p \<Longrightarrow> good_funcs p \<Longrightarrow> func_depth p = d \<Longrightarrow>
   \<exists>n err q. eval_andor (eval_node os n) items p = Some (err, q) \<and> good_funcs q"
proof (induction items arbitrary: p)
  case (Cons it items)
  obtain op nd where it: "it = (op, nd)" by (cases it)
  show ?case
  proof (cases "op = ANDOR_AND \<and> last_status p \<noteq> 0 \<or> op = ANDOR_OR \<and> last_status p = 0")
    case True
    with Cons it show ?thesis by auto
  next
    case False
    have "ends os nd p" using Cons.prems it by (auto intro: ends_atD)
    then obtain n e1 p1 where c: "eval_node os n nd p = Some (e1, p1)" and g: "good_funcs p1"
      and d: "done_from p e1 p1" using Cons.prems(2) by (rule ends_eval)
    show ?thesis
    proof (cases "e1 \<noteq> NSH_OK \<or> halted p1")
      case True
      with c g False it show ?thesis by (intro exI [of _ n]) auto
    next
      case run: False
      with d have "ready p1" by (auto intro: not_halted_ready)
      with Cons.IH [of p1] Cons.prems g done_depth [OF d] obtain m err q where
        m: "eval_andor (eval_node os m) items p1 = Some (err, q)" "good_funcs q" by auto
      have "eval_andor (eval_node os (n + m)) items p1 = Some (err, q)"
        using leoD [OF eval_andor_mono [OF eval_node_mono [of os m n]] m(1)] by (simp add: add.commute)
      moreover have "eval_node os (n + m) nd p = Some (e1, p1)" by (rule eval_node_more [OF c]) simp
      ultimately show ?thesis using False run it m(2) by (intro exI [of _ "n + m"]) auto
    qed
  qed
qed simp

lemma list_ends:
  "\<forall>nd\<in>set nds. ends_at os d nd \<Longrightarrow> shell_ok p \<Longrightarrow> good_funcs p \<Longrightarrow> func_depth p = d \<Longrightarrow>
   \<exists>n err q. eval_list (eval_node os n) nds p = Some (err, q) \<and> good_funcs q"
proof (induction nds arbitrary: p)
  case (Cons nd nds)
  show ?case
  proof (cases "halted p")
    case True
    with Cons.prems show ?thesis by auto
  next
    case False
    with Cons.prems have r: "ready p" by (simp add: ready_def)
    have "ends os nd p" using Cons.prems r by (auto intro: ends_atD)
    then obtain n e1 p1 where c: "eval_node os n nd p = Some (e1, p1)" and g: "good_funcs p1"
      and d: "done_from p e1 p1" using r by (rule ends_eval)
    show ?thesis
    proof (cases "e1 = NSH_OK")
      case False
      with c g \<open>\<not> halted p\<close> show ?thesis by (intro exI [of _ n]) auto
    next
      case ok: True
      have "shell_ok p1" using d by (simp add: done_from_def)
      with Cons.IH [of p1] Cons.prems g done_depth [OF d] obtain m err q where
        m: "eval_list (eval_node os m) nds p1 = Some (err, q)" "good_funcs q" by auto
      have "eval_list (eval_node os (n + m)) nds p1 = Some (err, q)"
        using leoD [OF eval_list_mono [OF eval_node_mono [of os m n]] m(1)] by (simp add: add.commute)
      moreover have "eval_node os (n + m) nd p = Some (e1, p1)" by (rule eval_node_more [OF c]) simp
      ultimately show ?thesis using False ok m(2) by (intro exI [of _ "n + m"]) auto
    qed
  qed
qed simp

lemma if_ends:
  "\<forall>nd\<in>set conds \<union> set bodies \<union> set_option els. ends_at os d nd \<Longrightarrow> ready p \<Longrightarrow> good_funcs p \<Longrightarrow>
   func_depth p = d \<Longrightarrow>
   \<exists>n err q. eval_if (eval_node os n) conds bodies els p = Some (err, q) \<and> good_funcs q"
proof (induction conds arbitrary: bodies p)
  case Nil
  show ?case
  proof (cases els)
    case None
    with Nil show ?thesis by (auto simp: good_funcs_def)
  next
    case (Some nd)
    with Nil have "ends os nd p" by (auto intro: ends_atD)
    with Some show ?thesis by (auto simp: ends_def)
  qed
next
  case (Cons c conds)
  have "ends os c p" using Cons.prems by (auto intro: ends_atD)
  then obtain n e1 p1 where ev: "eval_node os n c p = Some (e1, p1)" and g: "good_funcs p1"
    and d: "done_from p e1 p1" using Cons.prems(2) by (rule ends_eval)
  show ?case
  proof (cases "e1 \<noteq> NSH_OK \<or> halted p1")
    case True
    with ev g show ?thesis by (intro exI [of _ n]) auto
  next
    case run: False
    with d have r: "ready p1" by (auto intro: not_halted_ready)
    have d1: "func_depth p1 = d" using done_depth [OF d] Cons.prems(4) by simp
    show ?thesis
    proof (cases "last_status p1 = 0")
      case True
      show ?thesis
      proof (cases bodies)
        case Nil
        with ev run True g show ?thesis by (intro exI [of _ n]) auto
      next
        case (Cons b bs)
        have "ends os b p1" using Cons.prems(1) Cons r g d1 by (auto intro: ends_atD)
        then obtain m err q where m: "eval_node os m b p1 = Some (err, q)" "good_funcs q"
          unfolding ends_def by blast
        have "eval_node os (n + m) c p = Some (e1, p1)" "eval_node os (n + m) b p1 = Some (err, q)"
          using eval_node_more [OF ev] eval_node_more [OF m(1)] by simp_all
        with run True Cons m(2) show ?thesis by (intro exI [of _ "n + m"]) auto
      qed
    next
      case False
      have "\<forall>nd\<in>set conds \<union> set (tl bodies) \<union> set_option els. ends_at os d nd"
        using Cons.prems(1) by (cases bodies) auto
      with Cons.IH [of "tl bodies" p1] r g d1 obtain m err q where
        m: "eval_if (eval_node os m) conds (tl bodies) els p1 = Some (err, q)" "good_funcs q" by blast
      have "eval_if (eval_node os (n + m)) conds (tl bodies) els p1 = Some (err, q)"
        using leoD [OF eval_if_mono [OF eval_node_mono [of os m n]] m(1)] by (simp add: add.commute)
      moreover have "eval_node os (n + m) c p = Some (e1, p1)" by (rule eval_node_more [OF ev]) simp
      ultimately show ?thesis using run False m(2) by (intro exI [of _ "n + m"]) auto
    qed
  qed
qed


lemma good_funcs_frame [simp]:
  "good_funcs (q\<lparr>last_status := l\<rparr>) = good_funcs q" "good_funcs (q\<lparr>p_env := e\<rparr>) = good_funcs q"
  "good_funcs (say m q) = good_funcs q" "good_funcs (loop_enter q) = good_funcs q"
  "good_funcs (loop_leave q) = good_funcs q"
  by (simp_all add: good_funcs_def say_def put_err_def loop_enter_def loop_leave_def Let_def)

lemma int_take_funcs: "int_take os p = (b, q) \<Longrightarrow> good_funcs q = good_funcs p"
  by (auto simp: int_take_def poll_signals_def signals_int_take_def Let_def good_funcs_def split: prod.splits)

lemma loop_flow_funcs: "loop_flow p = (a, q) \<Longrightarrow> good_funcs q = good_funcs p"
  by (auto simp: loop_flow_def good_funcs_def split: if_splits)

lemma for_ends:
  "ends_at os d body \<Longrightarrow> \<forall>w\<in>set ws. word_ok w \<Longrightarrow> ready p \<Longrightarrow> good_funcs p \<Longrightarrow> func_depth p = d \<Longrightarrow>
   \<exists>n err q. for_loop os (eval_node os n) var ws ctx body bs p = Some (err, q) \<and> good_funcs q"
proof (induction ws arbitrary: bs p)
  case (Cons w ws)
  obtain fired p0 where t: "int_take os p = (fired, p0)" by fastforce
  from int_take_ok [OF t Cons.prems(3)] have p0: "ready p0" "done_from p NSH_OK p0" by auto
  have g0: "good_funcs p0" using int_take_funcs [OF t] Cons.prems(4) by simp
  obtain e0 v where x: "expand_word (p_env p0) (Some w) (Some ctx) = Some (e0, v)"
    using expand_word_Some [of w "p_env p0" ctx] Cons.prems(2) by auto
  show ?case
  proof (cases "fired \<or> e0 \<noteq> NSH_OK \<or> setenv (p_env p0) var (case v of Some v \<Rightarrow> v | None \<Rightarrow> []) = None")
    case True
    with t x g0 show ?thesis by (auto simp: Let_def)
  next
    case False
    then obtain e where e: "setenv (p_env p0) var (case v of Some v \<Rightarrow> v | None \<Rightarrow> []) = Some e"
      and nf: "\<not> fired" and ok: "e0 = NSH_OK" by auto
    let ?p = "p0\<lparr>p_env := e\<rparr>"
    have r: "ready ?p" and de: "done_from p NSH_OK ?p"
      using p0 by (simp_all add: ready_def done_from_def shell_ok_def kept_def flow_ok_def halted_def)
    have "ends os body ?p"
      by (rule ends_atD [OF Cons.prems(1) r]) (use g0 done_depth [OF de] Cons.prems(5) in simp_all)
    then obtain n e1 p1 where b: "eval_node os n body ?p = Some (e1, p1)" and g1: "good_funcs p1"
      and d1: "done_from ?p e1 p1" using r by (rule ends_eval)
    obtain act p2 where l: "loop_flow p1 = (act, p2)" by fastforce
    have g2: "good_funcs p2" using loop_flow_funcs [OF l] g1 by simp
    show ?thesis
    proof (cases "e1 = NSH_OK \<and> (act = LOOP_NEXT \<or> act = LOOP_RUN)")
      case False
      with t x nf ok e b l g1 g2 show ?thesis by (intro exI [of _ n]) (auto simp: Let_def)
    next
      case True
      with loop_flow_done [OF l, of ?p] d1 have r2: "ready p2" and "loop_done ?p NSH_OK p2" by auto
      then have d2: "func_depth p2 = d"
        using done_depth [OF de] Cons.prems(5) by (auto simp: loop_done_def done_from_def kept_def)
      from Cons.IH [of p2 "last_status p1"] Cons.prems(1,2) r2 g2 d2 obtain m err q where
        m: "for_loop os (eval_node os m) var ws ctx body (last_status p1) p2 = Some (err, q)" "good_funcs q"
        by auto
      have m': "for_loop os (eval_node os (n + m)) var ws ctx body (last_status p1) p2 = Some (err, q)"
        using leoD [OF for_loop_mono [OF eval_node_mono [of os m n]] m(1)] by (simp add: add.commute)
      have b': "eval_node os (n + m) body ?p = Some (e1, p1)" by (rule eval_node_more [OF b]) simp
      have "for_loop os (eval_node os (n + m)) var (w # ws) ctx body bs p = Some (err, q)
          \<or> for_loop os (eval_node os (n + m)) var (w # ws) ctx body bs p = Some (NSH_OK, p2)"
        using t x nf ok e b' l True m' by (auto simp: Let_def)
      with m(2) g2 show ?thesis by blast
    qed
  qed
qed simp

lemma step_ends: "eval_node os (Suc n) nd p = Some (err, q) \<Longrightarrow> good_funcs q \<Longrightarrow> ends os nd p"
  unfolding ends_def by blast

lemma ends_atI:
  assumes "\<And>p. ready p \<Longrightarrow> good_funcs p \<Longrightarrow> func_depth p = d \<Longrightarrow>
      \<exists>n err q. eval_node os (Suc n) nd p = Some (err, q) \<and> good_funcs q"
  shows "ends_at os d nd"
  unfolding ends_at_def
proof (intro allI impI)
  fix p :: "'a Proc" assume "ready p" "good_funcs p" "func_depth p = d"
  with assms show "ends os nd p" by (blast intro: step_ends)
qed

lemma while_free_ends:
  assumes W: "waits_return os N"
  shows "good nd \<Longrightarrow> d \<le> FUNC_DEPTH_MAX \<Longrightarrow> ends_at os d nd"
proof (induction "nat (FUNC_DEPTH_MAX - d)" arbitrary: d nd rule: less_induct)
  case less
  have deeper: "ends_at os (d + 1) body" if "good body" "d < FUNC_DEPTH_MAX" for body
    using that by (intro less.hyps) auto
  from less.prems show ?case
  proof (induction nd rule: node_ok.induct)
    case (1 pl neg)
    show ?case unfolding ends_at_def
    proof (intro allI impI)
      fix p :: "'a Proc" assume p: "ready p" "good_funcs p" "func_depth p = d"
      show "ends os (NODE_PIPELINE pl neg) p"
      proof (rule pipeline_ends [OF W _ p(2,1)])
        show "pipeline_ok pl" using 1 by (simp add: good_def)
        fix body and p' :: "'a Proc"
        assume "good body" "ready p'" "good_funcs p'" "func_depth p' = func_depth p + 1"
          "func_depth p < FUNC_DEPTH_MAX"
        with p deeper show "ends os body p'" by (auto intro: ends_atD)
      qed
    qed
  next
    case (2 items)
    then have "\<forall>it\<in>set items. ends_at os d (snd it)" by (auto simp: good_def)
    from andor_ends [OF this] show ?case by (intro ends_atI) simp
  next
    case (3 nodes)
    then have "\<forall>nd\<in>set nodes. ends_at os d nd" by (auto simp: good_def)
    from list_ends [OF this] show ?case by (intro ends_atI) (simp add: ready_def)
  next
    case (4 conds bodies els)
    then have "\<forall>nd\<in>set conds \<union> set bodies \<union> set_option els. ends_at os d nd"
      by (auto simp: good_def)
    from if_ends [OF this] show ?case by (intro ends_atI) simp
  next
    case (5 cond body)
    then show ?case by (simp add: good_def)
  next
    case (6 var words body)
    then have b: "ends_at os d body" and w: "\<forall>w\<in>set words. word_ok w" by (auto simp: good_def)
    show ?case unfolding ends_at_def
    proof (intro allI impI)
      fix p :: "'a Proc" assume p: "ready p" "good_funcs p" "func_depth p = d"
      have "func_depth (loop_enter p) = d" using p(3) by (simp add: loop_enter_def Let_def)
      with for_ends [OF b w loop_enter_ready [OF p(1)], of var "expand_ctx p" 0] p(2) obtain n err q where
        "for_loop os (eval_node os n) var words (expand_ctx p) body 0 (loop_enter p) = Some (err, q)"
        "good_funcs q" by auto
      then show "ends os (NODE_FOR var words body) p"
        by (intro step_ends [of os n _ p err "loop_leave q"]) (simp_all add: eval_for_def)
    qed
  next
    case (7 name body)
    then have "good body" by (simp add: good_def)
    then have "ast_clone body = body" and "good (ast_clone body)" using ast_clone_id by (auto simp: good_def)
    then show ?case
      unfolding ends_at_def
      by (auto intro!: step_ends [of os 0] simp: eval_funcdef_def good_define)
  qed
qed

section \<open>Properties\<close>

text \<open>C14: every program without a \<open>while\<close> loop comes to an end. Whatever the operating system answers, as
  long as it does not interrupt a wait forever, the evaluation of a well-formed tree returns a
  result with some fuel, and more fuel gives the same result: the word list bounds each
  \<open>for\<close>, and the depth limit bounds the calls, even when the functions in the table call each
  other without end.\<close>

theorem while_free_terminates:
  assumes "waits_return os N" and "good nd" and "at_prompt p" and "good_funcs p"
  shows "\<exists>n r. \<forall>m\<ge>n. eval_run os m (Some nd) p = Some r"
proof -
  have "func_depth p = 0" using assms(3) by (simp add: at_prompt_def)
  with while_free_ends [OF assms(1,2), of 0] at_prompt_ready [OF assms(3)] assms(4)
  have "ends os nd p" by (intro ends_atD) (simp_all add: FUNC_DEPTH_MAX_def)
  then obtain n r where "eval_node os n nd p = Some r" unfolding ends_def by blast
  then have "\<forall>m\<ge>n. eval_run os m (Some nd) p = Some r" by (auto simp: eval_run_def intro: eval_node_more)
  then show ?thesis by blast
qed


theorem while_free_terminates_witness:
  "\<exists>n r. eval_run quiet_os n (Some (NODE_LIST [NODE_FUNCDEF ''f'' (line_node [''f'', ''x'']), line_node [''f'']])) boot = Some r"
proof -
  let ?nd = "NODE_LIST [NODE_FUNCDEF ''f'' (line_node [''f'', ''x'']), line_node [''f'']]"
  have "waits_return quiet_os 1" by (simp add: waits_return_def quiet_os_def)
  moreover have "good ?nd" by code_simp
  moreover note at_prompt_boot
  moreover have "good_funcs boot" by (simp add: good_funcs_def boot_def)
  ultimately have "\<exists>n r. \<forall>m\<ge>n. eval_run quiet_os m (Some ?nd) boot = Some r" by (rule while_free_terminates)
  then show ?thesis by blast
qed

end
