(* ===== verification/Exec_Props.thy ===== *)
theory Exec_Props
  imports Eval_Term
begin

text \<open>
  Properties of running pipelines: the \<open>PATH\<close> search, the descriptors of the stages, output
  redirection, and a pipeline that is stopped half way.
\<close>

section \<open>The PATH search\<close>

fun colon_list :: "string list \<Rightarrow> string" where
  "colon_list [] = []"
| "colon_list [e] = e"
| "colon_list (e # es) = e @ CHR '':'' # colon_list es"

lemma path_elems_plain: "CHR '':'' \<notin> set e \<Longrightarrow> path_elems e = [e]"
  by (induction e) auto

lemma path_elems_cons: "CHR '':'' \<notin> set e \<Longrightarrow> path_elems (e @ CHR '':'' # s) = e # path_elems s"
  by (induction e) auto

lemma path_elems_list:
  "els \<noteq> [] \<Longrightarrow> list_all (\<lambda>e. CHR '':'' \<notin> set e) els \<Longrightarrow> path_elems (colon_list els) = els"
  by (induction els rule: colon_list.induct) (auto simp: path_elems_plain path_elems_cons)

definition passed_over :: "nat option \<Rightarrow> bool" where
  "passed_over a \<longleftrightarrow> a \<in> {Some EACCES, Some ENOENT, Some ENOTDIR}"

definition path_outcome :: "(string \<Rightarrow> nat option) \<Rightarrow> string list \<Rightarrow> string list \<Rightarrow> bool \<Rightarrow> StageEnd" where
  "path_outcome ans argv cands denied = (case find (\<lambda>c. \<not> passed_over (ans c)) cands of
     Some c \<Rightarrow> (case ans c of None \<Rightarrow> Replaced c argv | Some e \<Rightarrow> Exited STATUS_NOT_EXEC)
   | None \<Rightarrow> Exited (if denied \<or> Some EACCES \<in> ans ` set cands then STATUS_NOT_EXEC else STATUS_NOT_FOUND))"

lemma search_loop_outcome:
  assumes "\<And>f w. os_execve os f w = (ans f, w)"
  shows "fst (search_loop os argv els denied p) = path_outcome ans argv (map (\<lambda>e. candidate e (hd argv)) els) denied"
proof (induction els arbitrary: denied p)
  case Nil
  then show ?case by (simp add: path_outcome_def die_child_def)
next
  case (Cons el els)
  show ?case
    by (cases "ans (candidate el (hd argv))")
      (auto simp: assms Cons path_outcome_def passed_over_def die_child_def EACCES_def ENOENT_def ENOTDIR_def split: option.splits)
qed

text \<open>C37: the \<open>PATH\<close> search. \<open>PATH\<close> is the list of its colon separated elements, an empty one
  standing for the current directory. The first candidate whose \<open>execve\<close> does not fail with
  EACCES, ENOENT or ENOTDIR decides: the child becomes that image, or ends with 126. When
  every candidate is passed over it ends with 126 if one was denied, else with 127.\<close>

theorem exec_search_path_spec:
  assumes "\<And>f w. os_execve os f w = (ans f, w)" and "getenv (p_env p) ''PATH'' = Some (colon_list els)"
    and "els \<noteq> []" and "list_all (\<lambda>e. CHR '':'' \<notin> set e) els"
  shows "fst (exec_search_path os argv p)
    = path_outcome ans argv (map (\<lambda>e. (if e = [] then ''.'' else e) @ ''/'' @ hd argv) els) False"
  using assms(2-)
  by (simp add: exec_search_path_def search_loop_outcome [of os ans, OF assms(1)] path_elems_list candidate_def)

section \<open>A pipeline that is stopped after a stage has ended\<close>

lemma wait_two:
  assumes "0 < a" "0 < b" "\<And>w. fst (os_waitpid os a False w) = Inr (a, wa)"
    "\<And>w. fst (os_waitpid os b False w) = Inr (b, wb)" "\<not> WIFSTOPPED wa" "WIFSTOPPED wb"
  shows "\<exists>w. spawn_wait_pids os (Suc n) [a, b] p = Some (status_code wb, True, p\<lparr>p_world := w\<rparr>)"
proof -
  obtain w1 where w1: "os_waitpid os a False (p_world p) = (Inr (a, wa), w1)" using assms(3) by (metis prod.collapse)
  obtain w2 where w2: "os_waitpid os b False w1 = (Inr (b, wb), w2)" using assms(4) by (metis prod.collapse)
  show ?thesis using assms w1 w2 by (auto simp: spawn_wait_pids_def intro: exI [of _ w2])
qed

lemma cmdline_terminal: "pipeline_cmdline (spawn_set_terminal os g p) pl = pipeline_cmdline p pl"
  by (simp add: spawn_set_terminal_def pipeline_cmdline_def expand_ctx_def put_err_def Let_def split: prod.splits)

lemma cmdline_world: "pipeline_cmdline (p\<lparr>p_world := w\<rparr>) pl = pipeline_cmdline p pl"
  by (simp add: pipeline_cmdline_def expand_ctx_def)

lemma exited_not_stopped: "WIFEXITED s \<Longrightarrow> \<not> WIFSTOPPED s"
proof -
  assume "WIFEXITED s"
  then have "s mod 256 mod 128 = 0" by (simp add: WIFEXITED_def WTERMSIG_def mod_mod_cancel)
  then show ?thesis by (auto simp: WIFSTOPPED_def)
qed

lemma table_remove_keeps:
  assumes "j \<in> set tb" and "j \<noteq> tb ! i" shows "j \<in> set (table_remove tb i)"
proof (cases "i < length tb")
  case True
  then have "tb = take i tb @ tb ! i # drop (Suc i) tb" by (rule id_take_nth_drop)
  with assms show ?thesis unfolding table_remove_def by (metis Un_iff set_ConsD set_append)
next
  case False
  with assms(1) show ?thesis by (simp add: table_remove_def)
qed

lemma reap_keeps:
  "j \<in> set tb \<Longrightarrow> j_state j \<noteq> JOB_DONE \<Longrightarrow> j \<in> set (snd (jobs_reap_notify tb))"
proof (induction tb rule: jobs_reap_notify.induct)
  case (1 tb)
  show ?case
  proof (cases "reap_pick tb")
    case None
    with 1 show ?thesis by (subst jobs_reap_notify.simps) simp
  next
    case (Some i)
    from reap_pick_Some [OF Some] 1(3) have "j \<noteq> tb ! i" by auto
    from 1(1) [OF Some table_remove_keeps [OF 1(2) this] 1(3)] Some
    show ?thesis by (subst jobs_reap_notify.simps) (simp add: case_prod_beta)
  qed
qed

lemma stopped_job:
  assumes "0 < a" "0 < b" "\<And>w. fst (os_waitpid os a False w) = Inr (a, wa)"
    "\<And>w. fst (os_waitpid os b False w) = Inr (b, wb)" "\<not> WIFSTOPPED wa" "WIFSTOPPED wb"
    and "pipeline_cmdline p pl = Some cmd"
  shows "\<exists>q. foreground_wait os (Suc n) pl g [a, b] p = Some (status_code wb, q)
    \<and> p_jobs q = p_jobs p @ [\<lparr>j_id = next_id (p_jobs p), j_pgid = g, j_state = JOB_STOPPED, j_cmdline = cmd,
         j_pids = [a, b], j_nproc = 2, j_nleft = 2, j_last_status = 0\<rparr>]"
proof -
  let ?p = "spawn_set_terminal os g p"
  obtain w where w: "spawn_wait_pids os (Suc n) [a, b] ?p = Some (status_code wb, True, ?p\<lparr>p_world := w\<rparr>)"
    using wait_two [OF assms(1-6)] by blast
  let ?q = "spawn_set_terminal os (shell_pgid (?p\<lparr>p_world := w\<rparr>)) (?p\<lparr>p_world := w\<rparr>)"
  have "pipeline_cmdline ?q pl = Some cmd"
    using assms(7) by (simp add: cmdline_terminal cmdline_world)
  moreover have "p_jobs (spawn_set_terminal os h r) = p_jobs r" for h and r :: "'a Proc"
    by (simp add: spawn_set_terminal_def put_err_def Let_def split: prod.splits)
  ultimately show ?thesis
    using w by (simp add: foreground_wait_def jobs_add_def announce_stopped_def put_err_def Let_def nth_append)
qed

text \<open>What can happen to the job table afterwards: a report of the kernel, \<open>bg\<close> on an entry, a new
  job, and the notices before a prompt.\<close>

datatype table_event = Report int nat | Resume nat | New_job int "int list" string | Prompt

fun table_after :: "'w Proc \<Rightarrow> table_event list \<Rightarrow> table" where
  "table_after p [] = p_jobs p"
| "table_after p (Report pid w # evs) = table_after (p\<lparr>p_jobs := fst (jobs_update (p_jobs p) pid w)\<rparr>) evs"
| "table_after p (Resume i # evs) = table_after (set_job_state i JOB_RUNNING p) evs"
| "table_after p (New_job g pids cmd # evs) = table_after (p\<lparr>p_jobs := jobs_add (p_jobs p) g (Some pids) (length pids) (Some cmd)\<rparr>) evs"
| "table_after p (Prompt # evs) = table_after (p\<lparr>p_jobs := snd (jobs_reap_notify (p_jobs p))\<rparr>) evs"

fun ends_of :: "int \<Rightarrow> table_event list \<Rightarrow> nat" where
  "ends_of pid [] = 0"
| "ends_of pid (Report q w # evs) = (if q = pid \<and> terminal_status w then 1 else 0) + ends_of pid evs"
| "ends_of pid (e # evs) = ends_of pid evs"

text \<open>An entry with the processes \<open>a\<close> and \<open>b\<close> that waits for more reports than are still to come.\<close>

definition stuck :: "int \<Rightarrow> int \<Rightarrow> int \<Rightarrow> nat \<Rightarrow> table \<Rightarrow> bool" where
  "stuck i a b n tb \<longleftrightarrow> (\<exists>j\<in>set tb. j_id j = i \<and> set (j_pids j) = {a, b} \<and> n < j_nleft j \<and> j_state j \<noteq> JOB_DONE)"

lemma stuck_report:
  assumes "stuck i a b (ends_of a (Report pid w # evs) + ends_of b (Report pid w # evs)) tb" "a \<noteq> b"
  shows "stuck i a b (ends_of a evs + ends_of b evs) (fst (jobs_update tb pid w))"
proof -
  let ?n = "ends_of a evs + ends_of b evs"
  obtain k where k: "k < length tb" "j_id (tb ! k) = i" "set (j_pids (tb ! k)) = {a, b}" "j_state (tb ! k) \<noteq> JOB_DONE"
    and left: "ends_of a (Report pid w # evs) + ends_of b (Report pid w # evs) < j_nleft (tb ! k)"
    using assms(1) unfolding stuck_def by (metis in_set_conv_nth)
  let ?j = "fst (jobs_update tb pid w) ! k"
  have "j_id ?j = i \<and> set (j_pids ?j) = {a, b} \<and> ?n < j_nleft ?j \<and> j_state ?j \<noteq> JOB_DONE"
  proof (cases "job_of_pid tb pid = Some k")
    case True
    then have "pid \<in> {a, b}" using k(3) by (auto simp: job_of_pid_def find_index_Some dest: in_set_takeD)
    then have "(if terminal_status w then Suc ?n else ?n) < j_nleft (tb ! k)" using left assms(2) by (auto split: if_splits)
    then show ?thesis
      using True k by (auto simp: jobs_update_nth job_report_def Let_def terminal_status_def split: if_splits)
  next
    case False
    then show ?thesis using k left by (auto simp: jobs_update_nth split: if_splits)
  qed
  moreover have "?j \<in> set (fst (jobs_update tb pid w))" using k(1) by (intro nth_mem) simp
  ultimately show ?thesis unfolding stuck_def by blast
qed

lemma stuck_resume: "stuck i a b n (p_jobs p) \<Longrightarrow> stuck i a b n (p_jobs (set_job_state k JOB_RUNNING p))"
  unfolding stuck_def
proof (elim bexE)
  fix j
  assume j: "j \<in> set (p_jobs p)" "j_id j = i \<and> set (j_pids j) = {a, b} \<and> n < j_nleft j \<and> j_state j \<noteq> JOB_DONE"
  then obtain m where m: "m < length (p_jobs p)" "p_jobs p ! m = j" by (auto simp: in_set_conv_nth)
  let ?j = "p_jobs (set_job_state k JOB_RUNNING p) ! m"
  have "j_id ?j = i \<and> set (j_pids ?j) = {a, b} \<and> n < j_nleft ?j \<and> j_state ?j \<noteq> JOB_DONE"
    using j(2) m by (cases "m = k") (simp_all add: set_job_state_def)
  moreover have "?j \<in> set (p_jobs (set_job_state k JOB_RUNNING p))" using m(1) by (intro nth_mem) (simp add: set_job_state_def)
  ultimately show "\<exists>j\<in>set (p_jobs (set_job_state k JOB_RUNNING p)). j_id j = i \<and> set (j_pids j) = {a, b} \<and> n < j_nleft j \<and> j_state j \<noteq> JOB_DONE"
    by blast
qed

lemma stuck_new: "stuck i a b n tb \<Longrightarrow> stuck i a b n (jobs_add tb g pids k cmd)"
  by (auto simp: stuck_def jobs_add_def Let_def)

lemma stuck_prompt: "stuck i a b n tb \<Longrightarrow> stuck i a b n (snd (jobs_reap_notify tb))"
  unfolding stuck_def using reap_keeps by blast

lemma stuck_stays:
  assumes "a \<noteq> b"
  shows "stuck i a b (ends_of a evs + ends_of b evs) (p_jobs p) \<Longrightarrow> stuck i a b 0 (table_after p evs)"
proof (induction p evs rule: table_after.induct)
  case (2 p pid w evs)
  then show ?case using stuck_report [OF 2(2) assms] by simp
next
  case (3 p k evs)
  then show ?case by (simp add: stuck_resume)
next
  case (4 p g pids cmd evs)
  then show ?case by (simp add: stuck_new)
next
  case (5 p evs)
  then show ?case by (simp add: stuck_prompt)
qed simp

text \<open>C38: two stages, of which the first has ended when the second is stopped, leave a job that never
  finishes. The wait has already collected the first stage, but the job is filed with both stages left to
  report. Whatever happens to the job table from then on, as long as \<open>fg\<close> is not used (any reports of any
  processes, \<open>bg\<close>, new jobs, notices before prompts, in any order), if the kernel reports the end of the second stage at most
  once and that of the first, which has been collected, not again, the job stays in the table and is not \<open>JOB_DONE\<close>,
  even when both its processes are gone.\<close>

theorem stopped_pipeline_never_done:
  assumes "0 < a" "0 < b" "a \<noteq> b" "\<And>w. fst (os_waitpid os a False w) = Inr (a, wa)"
    "\<And>w. fst (os_waitpid os b False w) = Inr (b, wb)" "WIFEXITED wa" "WIFSTOPPED wb"
    and "pipeline_cmdline p pl = Some cmd"
    and "ends_of a evs = 0" "ends_of b evs \<le> 1"
  shows "\<exists>st q. foreground_wait os (Suc n) pl g [a, b] p = Some (st, q)
    \<and> (\<exists>j\<in>set (table_after q evs). j_id j = next_id (p_jobs p) \<and> set (j_pids j) = {a, b} \<and> j_state j \<noteq> JOB_DONE)"
proof -
  obtain q where q: "foreground_wait os (Suc n) pl g [a, b] p = Some (status_code wb, q)"
    and j: "p_jobs q = p_jobs p @ [\<lparr>j_id = next_id (p_jobs p), j_pgid = g, j_state = JOB_STOPPED, j_cmdline = cmd,
         j_pids = [a, b], j_nproc = 2, j_nleft = 2, j_last_status = 0\<rparr>]"
    using stopped_job [OF assms(1,2,4,5) exited_not_stopped [OF assms(6)] assms(7,8)] by blast
  have "stuck (next_id (p_jobs p)) a b (ends_of a evs + ends_of b evs) (p_jobs q)"
    using assms(9,10) by (simp add: stuck_def j)
  then have "stuck (next_id (p_jobs p)) a b 0 (table_after q evs)" by (rule stuck_stays [OF assms(3)])
  then have "\<exists>j\<in>set (table_after q evs). j_id j = next_id (p_jobs p) \<and> set (j_pids j) = {a, b} \<and> j_state j \<noteq> JOB_DONE"
    unfolding stuck_def by blast
  with q show ?thesis by blast
qed

theorem exec_search_path_spec_witness:
  "fst (exec_search_path (quiet_os\<lparr>os_execve := (\<lambda>f w. (if f = ''/bin/ls'' then None else Some ENOENT, w))\<rparr>)
         [''ls'', ''-l''] (boot\<lparr>p_env := [''PATH'' \<mapsto> ''/usr:/bin'']\<rparr>)) = Replaced ''/bin/ls'' [''ls'', ''-l'']"
proof -
  let ?ans = "\<lambda>f. if f = ''/bin/ls'' then None else Some ENOENT"
  let ?p = "boot\<lparr>p_env := [''PATH'' \<mapsto> ''/usr:/bin'']\<rparr>"
  have "getenv (p_env ?p) ''PATH'' = Some (colon_list [''/usr'', ''/bin''])" by (simp add: getenv_def)
  from exec_search_path_spec [of "quiet_os\<lparr>os_execve := (\<lambda>f w. (?ans f, w))\<rparr>" ?ans ?p "[''/usr'', ''/bin'']" "[''ls'', ''-l'']", OF _ this]
  show ?thesis by (simp add: path_outcome_def passed_over_def)
qed

theorem stopped_pipeline_never_done_witness:
  "\<exists>st q. foreground_wait (quiet_os\<lparr>os_waitpid := (\<lambda>pid nohang w. (Inr (pid, if pid = 5 then 0 else 5247), w))\<rparr>) 1
        \<lparr>pl_cmds = [], pl_background = False\<rparr> 5 [5, 6] boot = Some (st, q)
    \<and> (\<exists>j\<in>set (table_after q [Resume 0, Report 6 0, Prompt]). j_id j = next_id (p_jobs boot) \<and> set (j_pids j) = {5, 6} \<and> j_state j \<noteq> JOB_DONE)"
  unfolding One_nat_def
  by (rule stopped_pipeline_never_done [where wa = 0 and wb = 5247])
    (simp_all add: WIFEXITED_def WIFSTOPPED_def WTERMSIG_def pipeline_cmdline_def boot_def)

section \<open>The wiring of a pipeline\<close>

fun pipe_answers :: "'w Os \<Rightarrow> nat \<Rightarrow> 'w \<Rightarrow> (ofd \<times> ofd) list" where
  "pipe_answers os 0 w = []"
| "pipe_answers os (Suc k) w = (case os_pipe os w of
     (Inl e, w1) \<Rightarrow> [] | (Inr rw, w1) \<Rightarrow> rw # pipe_answers os k w1)"

definition pipe_ends_at :: "int list \<Rightarrow> (ofd \<times> ofd) list \<Rightarrow> fdtab \<Rightarrow> bool" where
  "pipe_ends_at fds ans t \<longleftrightarrow> length fds = 2 * length ans
     \<and> (\<forall>j<length ans. fd_file t (nat (fds ! (2 * j))) = Some (fst (ans ! j))
                   \<and> fd_file t (nat (fds ! (2 * j + 1))) = Some (snd (ans ! j)))"

lemma fd_file_other: "k \<noteq> m \<Longrightarrow> fd_file (t[k := e]) m = fd_file t m"
  by (simp add: fd_file_def rd_def)

lemma fd_file_same: "k < length t \<Longrightarrow> fd_file (t[k := Some (f, b)]) k = Some f"
  by (simp add: fd_file_def rd_def)

lemma pipe_ends_at_add:
  assumes "pipe_ends_at fds ans t" and "\<forall>fd\<in>set fds. 0 \<le> fd \<and> nat fd \<noteq> r \<and> nat fd \<noteq> w"
    and "r < length t" "w < length t" "r \<noteq> w"
  shows "pipe_ends_at (fds @ [int r, int w]) (ans @ [(fr, fw)]) (t[r := Some (fr, False), w := Some (fw, False)])"
proof -
  let ?t = "t[r := Some (fr, False), w := Some (fw, False)]"
  have old: "fd_file ?t (nat (fds ! m)) = fd_file t (nat (fds ! m))" if "m < length fds" for m
    using assms(2) nth_mem [OF that] by (auto simp: fd_file_other)
  have "fd_file ?t r = Some fr" "fd_file ?t w = Some fw"
    using assms(3-5) by (simp_all add: fd_file_other fd_file_same)
  then show ?thesis
    using assms(1) old by (auto simp: pipe_ends_at_def nth_append less_Suc_eq)
qed

lemma pipe_loop_ends:
  "pipe_loop os k fds p = (True, fds', q) \<Longrightarrow> opened t0 fds (p_fds p) \<Longrightarrow> pipe_ends_at fds ans (p_fds p)
   \<Longrightarrow> pipe_ends_at fds' (ans @ pipe_answers os k (p_world p)) (p_fds q)
     \<and> length fds' = length fds + 2 * k"
proof (induction k arbitrary: fds p ans)
  case (Suc k)
  obtain x q1 where s: "sys_pipe os p = (x, q1)" by fastforce
  with Suc.prems(1) obtain r w where x: "x = Inr (r, w)"
    and rec: "pipe_loop os k (fds @ [int r, int w]) q1 = (True, fds', q)"
    by (auto split: sum.splits)
  from s x obtain fr fw w1 where lo: "lowest_free 0 (p_fds p) = Some r" "lowest_free (r + 1) (p_fds p) = Some w"
    and os: "os_pipe os (p_world p) = (Inr (fr, fw), w1)"
    and q1: "p_world q1 = w1" "p_fds q1 = (p_fds p)[r := Some (fr, False), w := Some (fw, False)]"
    by (auto simp: sys_pipe_def split: option.splits prod.splits sum.splits)
  note r = lowest_free_Some [OF lo(1)] and w = lowest_free_Some [OF lo(2)]
  have new: "\<forall>fd\<in>set fds. 0 \<le> fd \<and> nat fd \<noteq> r \<and> nat fd \<noteq> w"
    using Suc.prems(2) r w by (auto simp: opened_def)
  have "opened t0 (fds @ [int r, int w]) (p_fds q1)"
    using sys_pipe_opened s x Suc.prems(2) by blast
  moreover have "pipe_ends_at (fds @ [int r, int w]) (ans @ [(fr, fw)]) (p_fds q1)"
    unfolding q1 by (rule pipe_ends_at_add [OF Suc.prems(3) new]) (use r w in auto)
  ultimately show ?case using Suc.IH [OF rec, of "ans @ [(fr, fw)]"] os q1(1) by simp
qed simp

lemma wire_step:
  assumes "0 \<le> fd" "nat fd \<noteq> target" "fd_file (p_fds p) (nat fd) = Some f" "target < length (p_fds p)"
  shows "wire fd target p = Some (p\<lparr>p_fds := (p_fds p)[target := Some (f, False)]\<rparr>)"
  using assms by (simp add: wire_def sys_dup2_def)

lemma opened_update:
  assumes "opened t0 fds t" and "int i \<notin> set fds" and "i < length t0"
  shows "opened (t0[i := e]) fds (t[i := e])"
  using assms by (auto simp: opened_def nth_list_update)


lemma low_open_update: "low_open t \<Longrightarrow> low_open (t[i := Some x])"
  by (cases "i < length t") (auto simp: low_open_def nth_list_update)

lemma update_keep: "i \<noteq> j \<Longrightarrow> xs[i := a, j := xs ! j] = xs[i := a]"
  by (metis list_update_id nth_list_update_neq)

lemma group_frame [simp]: "p_fds (spawn_join_group os a b p) = p_fds p"
  by (simp add: spawn_join_group_def put_err_def Let_def split: prod.splits)

lemma reset_child_default:
  "sig \<in> {SIGINT, SIGQUIT, SIGTSTP, SIGTTOU, SIGCHLD} \<Longrightarrow> sig_disp (signals_reset_child s) sig = SIG_DFL"
  by (auto simp: signals_reset_child_def IGNORED_SIGNALS_def set_disposition_def)

text \<open>One end of a stage: either it keeps what it has, or it gets a pipe end.\<close>

lemma wire_end:
  assumes "opened t0 fds (p_fds p)" "target < 3" "low_open t0" "fd = -1 \<or> fd \<in> set fds"
    and "fd \<noteq> -1 \<Longrightarrow> fd_file (p_fds p) (nat fd) = Some f"
  shows "\<exists>q. wire fd target p = Some q \<and> q = p\<lparr>p_fds := p_fds q\<rparr> \<and> length (p_fds q) = length (p_fds p)
    \<and> p_fds q = (if fd = -1 then p_fds p else (p_fds p)[target := Some (f, False)])
    \<and> opened (if fd = -1 then t0 else t0[target := Some (f, False)]) fds (p_fds q)"
proof (cases "fd = -1")
  case True
  with assms(1) show ?thesis by (simp add: wire_def)
next
  case False
  with assms(4) have fd: "fd \<in> set fds" by simp
  have t: "target < length t0" "length (p_fds p) = length t0" "t0 ! target \<noteq> None"
    using assms(1-3) by (auto simp: opened_def low_open_def)
  have out: "int target \<notin> set fds" using assms(1) t by (force simp: opened_def)
  have "0 \<le> fd" "nat fd \<noteq> target" using assms(1) fd t by (auto simp: opened_def)
  from wire_step [OF this assms(5) [OF False]] False t opened_update [OF assms(1) out t(1)]
  show ?thesis by simp
qed

text \<open>C9: the descriptors of a pipeline stage. In the child of stage \<open>i\<close> of \<open>k\<close>, before its command
  is expanded, standard input is the read end of the pipe the stage before it writes to,
  standard output the write end of the next pipe, the outer ends of the pipeline are
  inherited, every other slot is as the shell had it before the pipeline, so that no spare end
  keeps a pipe alive, and the job control signals have their default disposition.\<close>

theorem child_sees_neighbour_pipes:
  assumes "low_open (p_fds p)" and "pipe_loop os (k - 1) [] p = (True, fds, p1)" and "i < k"
    and "p_fds pc = p_fds p1"
    and "t = \<lparr>ct_cmd = c, ct_in = stage_in fds i, ct_out = stage_out fds k i, ct_fds = fds, ct_pgid = g\<rparr>"
  shows "\<exists>q. child_main os call n mypid t pc = run_stage_wired os call n c q
    \<and> p_fds q = (p_fds p)
        [0 := if i = 0 then p_fds p ! 0 else Some (fst (pipe_answers os (k - 1) (p_world p) ! (i - 1)), False),
         1 := if i + 1 = k then p_fds p ! 1 else Some (snd (pipe_answers os (k - 1) (p_world p) ! i), False)]
    \<and> (\<forall>sig\<in>{SIGINT, SIGQUIT, SIGTSTP, SIGTTOU, SIGCHLD}. sig_disp (p_sig q) sig = SIG_DFL)"
proof -
  let ?ans = "pipe_answers os (k - 1) (p_world p)"
  let ?t0 = "p_fds p"
  have len0: "3 \<le> length ?t0" using assms(1) by (simp add: low_open_def)
  have op: "opened ?t0 fds (p_fds p1)" using pipe_loop_opened [OF assms(2)] by simp
  have e: "pipe_ends_at fds ?ans (p_fds p1)" and len: "length fds = 2 * (k - 1)"
    using pipe_loop_ends [OF assms(2), of ?t0 "[]"] by (simp_all add: pipe_ends_at_def)
  have lens: "length ?ans = k - 1" using e len by (simp add: pipe_ends_at_def)
  define p0 where "p0 = (spawn_join_group os 0 (if ct_pgid t = 0 then mypid else ct_pgid t) pc)
     \<lparr>p_sig := signals_reset_child (p_sig (spawn_join_group os 0 (if ct_pgid t = 0 then mypid else ct_pgid t) pc))\<rparr>"
  have p0: "p_fds p0 = p_fds p1" "child_main os call n mypid t pc = run_stage os call n t p0"
    "\<forall>sig\<in>{SIGINT, SIGQUIT, SIGTSTP, SIGTTOU, SIGCHLD}. sig_disp (p_sig p0) sig = SIG_DFL"
    using assms(4) reset_child_default by (simp_all add: p0_def child_main_def Let_def)
  let ?in = "stage_in fds i" and ?out = "stage_out fds k i"
  let ?f = "fst (?ans ! (i - 1))" and ?g = "snd (?ans ! i)"
  have nn: "fds ! m \<noteq> -1" "fds ! m \<in> set fds" if "m < length fds" for m
    using op nth_mem [OF that] by (force simp: opened_def)+
  have in1: "?in = -1 \<and> i = 0 \<or> ?in \<in> set fds \<and> 0 < i \<and> ?in \<noteq> -1"
    using len assms(3) by (auto simp: stage_in_def intro!: nn)
  have at: "fd_file (p_fds p0) (nat (fds ! (2 * j))) = Some (fst (?ans ! j))"
    "fd_file (p_fds p0) (nat (fds ! (2 * j + 1))) = Some (snd (?ans ! j))" if "j < k - 1" for j
    using e that unfolding pipe_ends_at_def lens p0(1) by blast+
  have in2: "fd_file (p_fds p0) (nat ?in) = Some ?f" if "?in \<noteq> -1"
    using that at(1) [of "i - 1"] assms(3) by (auto simp: stage_in_def mult.commute split: if_splits)
  have out1: "?out = -1 \<and> i + 1 = k \<or> ?out \<in> set fds \<and> i + 1 < k \<and> ?out \<noteq> -1"
    using len assms(3) by (auto simp: stage_out_def intro!: nn)
  have out2: "fd_file (p_fds p0) (nat ?out) = Some ?g" if "?out \<noteq> -1"
    using that at(2) [of i] assms(3) by (auto simp: stage_out_def mult.commute split: if_splits)
  obtain q1 where q1: "wire ?in 0 p0 = Some q1" "q1 = p0\<lparr>p_fds := p_fds q1\<rparr>" "length (p_fds q1) = length (p_fds p0)"
    "p_fds q1 = (if ?in = -1 then p_fds p0 else (p_fds p0)[0 := Some (?f, False)])"
    "opened (if ?in = -1 then ?t0 else ?t0[0 := Some (?f, False)]) fds (p_fds q1)"
    using wire_end [OF op [folded p0(1)], of 0 ?in ?f] assms(1) in1 in2 by auto
  let ?t1 = "if ?in = -1 then ?t0 else ?t0[0 := Some (?f, False)]"
  have low: "low_open ?t1" using assms(1) low_open_update by auto
  have out3: "fd_file (p_fds q1) (nat ?out) = Some ?g" if "?out \<noteq> -1"
  proof -
    have "?t0 ! nat ?out = None" using out1 that op by (auto simp: opened_def)
    then have "0 \<noteq> nat ?out" using assms(1) unfolding low_open_def by (metis zero_less_numeral)
    then show ?thesis using out2 [OF that] unfolding q1(4) by (simp add: fd_file_other)
  qed
  obtain q2 where q2: "wire ?out 1 q1 = Some q2" "q2 = q1\<lparr>p_fds := p_fds q2\<rparr>"
    "opened (if ?out = -1 then ?t1 else ?t1[1 := Some (?g, False)]) fds (p_fds q2)"
    using wire_end [OF q1(5) _ low, of 1 ?out ?g] out1 out3 by auto
  let ?q = "close_fds os fds q2"
  have "run_stage os call n t p0 = run_stage_wired os call n c ?q" using q1(1) q2(1) by (simp add: run_stage_def assms(5))
  moreover have "p_fds ?q = (if ?out = -1 then ?t1 else ?t1[1 := Some (?g, False)])"
    by (rule close_fds_opened [OF q2(3)])
  moreover have "p_sig q2 = p_sig p0" by (subst q2(2), subst q1(2)) simp
  then have "p_sig ?q = p_sig p0" using calmx_close_fds [of q2 os fds q2] by (simp add: calmx_fields)
  ultimately show ?thesis
    using p0(2,3) in1 out1 by (intro exI [of _ ?q]) (auto simp: update_keep)
qed


theorem child_sees_neighbour_pipes_witness:
  "\<exists>t q. child_main quiet_os (eval_maybe_call_function (eval_node quiet_os 1)) 1 200 t (snd (snd (pipe_loop quiet_os 1 [] boot)))
      = run_stage_wired quiet_os (eval_maybe_call_function (eval_node quiet_os 1)) 1 \<lparr>c_words = [], c_redir_in = None, c_redir_out = None, c_redir_append = False, c_redir_err = None\<rparr> q
    \<and> p_fds q = [Some (100, False), Some (1, False), Some (2, False), None, None, None, None, None]"
proof -
  let ?c = "\<lparr>c_words = [], c_redir_in = None, c_redir_out = None, c_redir_append = False, c_redir_err = None\<rparr>"
  let ?t = "\<lparr>ct_cmd = ?c, ct_in = stage_in [3, 4] 1, ct_out = stage_out [3, 4] 2 1, ct_fds = [3, 4], ct_pgid = 200\<rparr>"
  let ?p1 = "snd (snd (pipe_loop quiet_os 1 [] boot))"
  have low: "low_open (p_fds boot)" by (auto simp: low_open_def boot_def numeral_3_eq_3 less_Suc_eq)
  have "map_prod id fst (pipe_loop quiet_os (2 - 1) [] boot) = (True, [3, 4])" by code_simp
  then have l: "pipe_loop quiet_os (2 - 1) [] boot = (True, [3, 4], ?p1)" by (cases "pipe_loop quiet_os 1 [] boot") auto
  have a: "pipe_answers quiet_os (2 - 1) (p_world boot) = [(100, 101)]" by code_simp
  from child_sees_neighbour_pipes [OF low l _ refl refl, where i = 1 and n = 1 and mypid = 200 and c = ?c and g = 200
      and call = "eval_maybe_call_function (eval_node quiet_os 1)"]
  show ?thesis unfolding a by (auto simp: boot_def)
qed

section \<open>Output redirection, end to end\<close>

definition free_slots :: "fdtab \<Rightarrow> nat set" where
  "free_slots t = {i. 3 \<le> i \<and> i < length t \<and> t ! i = None}"

lemma finite_free_slots [simp]: "finite (free_slots t)"
  by (rule finite_subset [of _ "{..<length t}"]) (auto simp: free_slots_def)

lemma find_index_ex: "x \<in> set xs \<Longrightarrow> P x \<Longrightarrow> \<exists>i. find_index P xs = Some i"
  by (induction xs) auto

lemma lowest_free_ex:
  assumes "free_slots t \<noteq> {}" shows "\<exists>i. lowest_free 3 t = Some i \<and> i \<in> free_slots t"
proof -
  from assms obtain k where k: "3 \<le> k" "k < length t" "t ! k = None" unfolding free_slots_def by blast
  then have "drop 3 t ! (k - 3) = None" "k - 3 < length (drop 3 t)" by auto
  then have "None \<in> set (drop 3 t)" by (metis nth_mem)
  then obtain i where "find_index (\<lambda>s. s = None) (drop 3 t) = Some i" using find_index_ex [of None _ "\<lambda>s. s = None"] by blast
  then have "lowest_free 3 t = Some (3 + i)" by (simp add: lowest_free_def)
  with lowest_free_Some [OF this] show ?thesis by (auto simp: free_slots_def)
qed

lemma lowest_free_low:
  assumes "low_open t" and "free_slots t \<noteq> {}" shows "\<exists>i. lowest_free 0 t = Some i \<and> i \<in> free_slots t"
proof -
  from assms(2) obtain k where k: "k < length t" "t ! k = None" unfolding free_slots_def by blast
  then have "None \<in> set (drop 0 t)" by (metis drop0 nth_mem)
  then obtain i where "find_index (\<lambda>s. s = None) (drop 0 t) = Some i" using find_index_ex [of None _ "\<lambda>s. s = None"] by blast
  then have lo: "lowest_free 0 t = Some i" by (simp add: lowest_free_def)
  note i = lowest_free_Some [OF lo]
  with assms(1) have "\<not> i < 3" by (auto simp: low_open_def)
  with i lo show ?thesis by (auto simp: free_slots_def)
qed

lemma free_slots_take:
  assumes "i \<in> free_slots t" shows "card (free_slots (t[i := Some x])) = card (free_slots t) - 1"
proof -
  have "free_slots (t[i := Some x]) = free_slots t - {i}"
    using assms by (auto simp: free_slots_def nth_list_update)
  with assms show ?thesis by simp
qed

lemma save_ok:
  "low_open (p_fds p) \<Longrightarrow> length fds \<le> card (free_slots (p_fds p)) \<Longrightarrow> \<forall>fd\<in>set fds. fd < 3 \<Longrightarrow>
   \<exists>sv' t. save_loop_std os fds sv p = (NSH_OK, sv', p\<lparr>p_fds := t\<rparr>) \<and> low_open t
     \<and> card (free_slots t) = card (free_slots (p_fds p)) - length fds"
proof (induction fds arbitrary: sv p)
  case Nil
  then show ?case by (intro exI [of _ sv] exI [of _ "p_fds p"]) simp
next
  case (Cons fd fds)
  then have "free_slots (p_fds p) \<noteq> {}" by auto
  then obtain i where i: "lowest_free 3 (p_fds p) = Some i" "i \<in> free_slots (p_fds p)" using lowest_free_ex by blast
  from Cons.prems obtain f where f: "fd_file (p_fds p) fd = Some f"
    by (force simp: low_open_def fd_file_Some)
  let ?t = "(p_fds p)[i := Some (f, True)]"
  have d: "sys_dupfd fd 3 (p_fds p) = Inr (i, ?t)" using i f by (simp add: sys_dupfd_def)
  have low: "low_open ?t" using Cons.prems(1) i(2) by (auto simp: low_open_def free_slots_def)
  have "length fds \<le> card (free_slots ?t)" using Cons.prems(2) free_slots_take [OF i(2), of "(f, True)"] by simp
  with Cons.IH [of "p\<lparr>p_fds := ?t\<rparr>" "sv[fd := int i]"] Cons.prems low
  obtain sv' t where "save_loop_std os fds (sv[fd := int i]) (p\<lparr>p_fds := ?t\<rparr>) = (NSH_OK, sv', (p\<lparr>p_fds := ?t\<rparr>)\<lparr>p_fds := t\<rparr>)"
    "low_open t" "card (free_slots t) = card (free_slots ?t) - length fds"
    by auto
  with d free_slots_take [OF i(2)] show ?case by (intro exI [of _ sv'] exI [of _ t]) simp
qed

lemma open_onto_ok:
  assumes "low_open (p_fds p)" "free_slots (p_fds p) \<noteq> {}" "os_open os path flags (p_world p) = (Inr f, w)" "target < 3"
  shows "open_onto os path flags target p = (NSH_OK, p\<lparr>p_world := w, p_fds := (p_fds p)[target := Some (f, False)]\<rparr>)"
proof -
  obtain i where i: "lowest_free 0 (p_fds p) = Some i" "i \<in> free_slots (p_fds p)"
    using lowest_free_low [OF assms(1,2)] by blast
  then have k: "i < length (p_fds p)" "p_fds p ! i = None" "i \<noteq> target" "target < length (p_fds p)"
    using assms(1,4) by (auto simp: free_slots_def low_open_def)
  have "(p_fds p)[i := Some (f, False), target := Some (f, False), i := None] = (p_fds p)[target := Some (f, False)]"
    using k by (simp add: list_update_swap [of target i]) (metis list_update_id)
  then show ?thesis
    using i k assms(3) by (simp add: open_onto_def sys_open_def sys_dup2_def fd_file_def rd_def close_fd_def sys_close_def)
qed

lemma restore_loop_frame:
  assumes "saved_in t sv (p_fds p)" and "set fds \<subseteq> {0, 1, 2}"
  shows "\<exists>sv' u. restore_loop os fds sv p = (sv', p\<lparr>p_fds := u\<rparr>)"
  using assms
proof (induction fds arbitrary: sv p)
  case Nil
  show ?case by (intro exI [of _ sv] exI [of _ "p_fds p"]) simp
next
  case (Cons fd fds)
  then have fd: "fd < 3" by auto
  show ?case
  proof (cases "sv ! fd = -1")
    case True
    with Cons.IH [OF Cons.prems(1)] Cons.prems(2) show ?thesis by simp
  next
    case False
    with Cons.prems(1) fd obtain c where c: "sv ! fd = int c" by (auto simp: saved_in_def)
    from restore_step [OF Cons.prems(1) fd c False] obtain u v where
      u: "sys_dup2 c fd (p_fds p) = Some u" "sys_close c u = Some v" and sv: "saved_in t (sv[fd := -1]) v"
      by blast
    from Cons.IH [of "sv[fd := -1]" "p\<lparr>p_fds := v\<rparr>"] sv Cons.prems(2)
    obtain sv' w where "restore_loop os fds (sv[fd := -1]) (p\<lparr>p_fds := v\<rparr>) = (sv', p\<lparr>p_fds := w\<rparr>)" by auto
    with c u show ?thesis by (intro exI [of _ sv'] exI [of _ w]) (simp add: Let_def close_fd_def)
  qed
qed

lemma redirect_restore_saved:
  assumes "saved_in t sv (p_fds p)"
  shows "snd (redirect_restore os (Some sv) p) = (fflush p)\<lparr>p_fds := t\<rparr>"
proof -
  have "saved_in t sv (p_fds (fflush p))" using assms by simp
  from restore_loop_frame [OF this, of "[0, 1, 2]" os] obtain sv' u
    where r: "restore_loop os [0, 1, 2] sv (fflush p) = (sv', (fflush p)\<lparr>p_fds := u\<rparr>)" by auto
  moreover have "u = t" using redirect_restore_fds [OF assms, of os] r by (simp add: redirect_restore_def)
  ultimately show ?thesis by (simp add: redirect_restore_def)
qed


text \<open>C34: output redirection of a builtin, end to end. With the standard descriptors open and four
  slots free, everything the builtin prints goes to the file that \<open>open\<close> answered for the
  expanded name (with the truncating or the appending flags), nothing else is written
  anywhere, nothing stays in the buffer, and the shell's descriptors are what they were.\<close>

theorem redirected_output_reaches_file:
  assumes "std_plain (p_fds p)" "low_open (p_fds p)" "4 \<le> card (free_slots (p_fds p))"
    and "c_redir_in c = None" "c_redir_out c = Some w" "c_redir_err c = None"
    and "expand_word (p_env p) (Some w) (Some (expand_ctx p)) = Some (NSH_OK, Some path)"
    and "os_open os path (if c_redir_append c then APPEND_FLAGS else TRUNC_FLAGS) (p_world p) = (Inr f, w1)"
    and "\<And>r. p_jobs r = p_jobs p \<Longrightarrow> sh_history r = sh_history p \<Longrightarrow> builtin_call os n fn argv r = Some (st, put_out s r)"
    and "s \<noteq> []"
  shows "\<exists>q. run_builtin os n c fn argv p = Some (st, q)
    \<and> p_log q = p_log (fflush p) @ [(Some f, s)] \<and> p_out q = [] \<and> p_fds q = p_fds p"
proof -
  let ?p = "fflush p"
  have len: "length [0, 1, 2::nat] \<le> card (free_slots (p_fds ?p))" using assms(3) by simp
  obtain sv t where sv: "save_std os REDIR_SAVE_INIT ?p = (NSH_OK, sv, ?p\<lparr>p_fds := t\<rparr>)" and t: "low_open t"
    "card (free_slots t) = card (free_slots (p_fds p)) - 3"
    using save_ok [OF _ len, of os "[-1, -1, -1]"] assms(2) unfolding save_std_def by auto
  have free: "free_slots t \<noteq> {}" using t(2) assms(3) by auto
  let ?p1 = "?p\<lparr>p_fds := t\<rparr>" and ?u = "t[1 := Some (f, False)]"
  have o: "open_onto os path (if c_redir_append c then APPEND_FLAGS else TRUNC_FLAGS) 1 ?p1
      = (NSH_OK, ?p1\<lparr>p_world := w1, p_fds := ?u\<rparr>)"
    using open_onto_ok [of ?p1 os path _ f w1 1] t(1) free assms(8) by simp
  let ?p2 = "?p\<lparr>p_world := w1, p_fds := ?u\<rparr>"
  have ap: "redirect_apply os (Some c) (expand_ctx p) (Some REDIR_SAVE_INIT) p = Some (NSH_OK, Some sv, ?p2)"
    using assms(4-7) sv o by (simp add: redirect_apply_def apply_all_def apply_one_def Let_def)
  have saved: "saved_in (p_fds p) sv ?u"
    using redirect_apply_saved [OF ap assms(1)] by simp
  have "p_jobs ?p2 = p_jobs p" "sh_history ?p2 = sh_history p" by (simp_all add: fflush_def)
  from assms(9) [OF this] have fn: "builtin_call os n fn argv ?p2 = Some (st, put_out s ?p2)" .
  have "snd (redirect_restore os (Some sv) (put_out s ?p2)) = (fflush (put_out s ?p2))\<lparr>p_fds := p_fds p\<rparr>"
    by (rule redirect_restore_saved) (use saved in \<open>simp add: put_out_def\<close>)
  moreover have "fd_file ?u 1 = Some f" using t(1) by (simp add: fd_file_def rd_def low_open_def)
  ultimately show ?thesis
    using ap fn assms(5,10) by (simp add: run_builtin_def has_redirect_def put_out_def fflush_def)
qed

theorem redirected_output_reaches_file_witness:
  "\<exists>q. run_builtin quiet_os 1 \<lparr>c_words = [], c_redir_in = None, c_redir_out = Some (plain_word ''f''), c_redir_append = True,
        c_redir_err = None\<rparr> Bi_help [''help''] boot = Some (0, q)
    \<and> p_log q = [(Some 100, concat (map (\<lambda>l. l @ [NEWLINE]) HELP_TEXT))] \<and> p_out q = [] \<and> p_fds q = p_fds boot"
proof -
  let ?c = "\<lparr>c_words = [], c_redir_in = None, c_redir_out = Some (plain_word ''f''), c_redir_append = True, c_redir_err = None\<rparr>"
  have plain: "std_plain (p_fds boot)" using at_prompt_boot by (simp add: at_prompt_def)
  have low: "low_open (p_fds boot)" by (auto simp: low_open_def boot_def numeral_3_eq_3 less_Suc_eq)
  have "{3, 4, 5, 6} \<subseteq> free_slots (p_fds boot)" by (auto simp: free_slots_def boot_def)
  from card_mono [OF _ this] have free: "4 \<le> card (free_slots (p_fds boot))" by simp
  have x: "expand_word (p_env boot) (Some (plain_word ''f'')) (Some (expand_ctx boot)) = Some (NSH_OK, Some ''f'')" by code_simp
  have op: "os_open quiet_os ''f'' (if c_redir_append ?c then APPEND_FLAGS else TRUNC_FLAGS) (p_world boot) = (Inr 100, 101)"
    by (simp add: quiet_os_def boot_def)
  have "fflush boot = boot" "p_log boot = []" by (simp_all add: fflush_def boot_def)
  with redirected_output_reaches_file [OF plain low free _ _ _ x op, where fn = Bi_help and argv = "[''help'']" and n = 1 and st = 0
      and s = "concat (map (\<lambda>l. l @ [NEWLINE]) HELP_TEXT)"]
  show ?thesis by (simp add: bi_help_def HELP_TEXT_def)
qed

end
