(* ===== verification/Eval_Props.thy ===== *)
theory Eval_Props
  imports Eval_Term
begin

text \<open>
  Properties of the evaluator: \<open>if\<close> with its \<open>elif\<close> chain, calls and their parameters, and a \<open>for\<close> over a bad
  substitution.
\<close>

section \<open>Branches\<close>

lemma eval_if_cons_more:
  assumes "eval_if (eval_node os n) cs bs els p = Some r" and "n \<le> m"
  shows "eval_if (eval_node os m) cs bs els p = Some r"
proof -
  have "eval_node os (Suc n) (NODE_IF cs bs els) p = Some r" using assms(1) by simp
  from eval_node_more [OF this, of "Suc m"] assms(2) show ?thesis by simp
qed

text \<open>What a node comes to, whatever fuel it takes.\<close>

definition yields :: "'w Os \<Rightarrow> Node \<Rightarrow> 'w Proc \<Rightarrow> NshError \<times> 'w Proc \<Rightarrow> bool" where
  "yields os nd p r \<longleftrightarrow> (\<exists>n. eval_node os n nd p = Some r)"

lemma yields_fun: "yields os nd p r \<Longrightarrow> yields os nd p r' \<Longrightarrow> r = r'"
proof -
  assume "yields os nd p r" "yields os nd p r'"
  then obtain n m where "eval_node os n nd p = Some r" "eval_node os m nd p = Some r'" by (auto simp: yields_def)
  then have "eval_node os (max n m) nd p = Some r" "eval_node os (max n m) nd p = Some r'"
    by (auto elim: eval_node_more)
  then show ?thesis by simp
qed

text \<open>Conditions that are evaluated one after the other, each with a status that is not 0.\<close>

fun all_fail :: "'w Os \<Rightarrow> Node list \<Rightarrow> 'w Proc \<Rightarrow> 'w Proc \<Rightarrow> bool" where
  "all_fail os [] p q \<longleftrightarrow> q = p"
| "all_fail os (c # cs) p q \<longleftrightarrow> (\<exists>p1. yields os c p (NSH_OK, p1) \<and> \<not> want_exit p1 \<and> sh_flow p1 = FLOW_NONE
     \<and> last_status p1 \<noteq> 0 \<and> all_fail os cs p1 q)"

text \<open>Behind them the rest of the chain decides.\<close>

definition if_yields :: "'w Os \<Rightarrow> Node list \<Rightarrow> Node list \<Rightarrow> Node option \<Rightarrow> 'w Proc \<Rightarrow> NshError \<times> 'w Proc \<Rightarrow> bool" where
  "if_yields os cs bs els p r \<longleftrightarrow> (\<exists>n. eval_if (eval_node os n) cs bs els p = Some r)"

lemma yields_if: "yields os (NODE_IF cs bs els) p r \<longleftrightarrow> if_yields os cs bs els p r"
proof
  assume "yields os (NODE_IF cs bs els) p r"
  then obtain n where n: "eval_node os n (NODE_IF cs bs els) p = Some r" by (auto simp: yields_def)
  then obtain k where "n = Suc k" by (cases n) simp_all
  with n show "if_yields os cs bs els p r" by (auto simp: if_yields_def)
next
  assume "if_yields os cs bs els p r"
  then obtain n where "eval_node os (Suc n) (NODE_IF cs bs els) p = Some r" by (auto simp: if_yields_def)
  then show "yields os (NODE_IF cs bs els) p r" unfolding yields_def by blast
qed

lemma if_after:
  assumes c: "yields os c p (e, q)"
  shows "if_yields os (c # cs) bs els p r \<longleftrightarrow>
    (if e \<noteq> NSH_OK then r = (e, q)
     else if want_exit q \<or> sh_flow q \<noteq> FLOW_NONE then r = (NSH_OK, q)
     else if last_status q = 0 then (case bs of b # _ \<Rightarrow> yields os b q r | [] \<Rightarrow> r = (NSH_ERR_INVALID, q))
     else if_yields os cs (tl bs) els q r)" (is "?L \<longleftrightarrow> ?R")
proof -
  obtain n0 where n0: "eval_node os n0 c p = Some (e, q)" using c by (auto simp: yields_def)
  have at: "eval_node os n c p = Some (e, q)" if "n0 \<le> n" for n by (rule eval_node_more [OF n0 that])
  have up: "eval_if (eval_node os n) cs' bs' els p' = Some r \<Longrightarrow> n \<le> m \<Longrightarrow> eval_if (eval_node os m) cs' bs' els p' = Some r"
    for n m cs' bs' p' by (rule eval_if_cons_more)
  have "?L \<longleftrightarrow> (\<exists>n\<ge>n0. eval_if (eval_node os n) (c # cs) bs els p = Some r)"
    unfolding if_yields_def by (meson up nle_le order_refl)
  also have "\<dots> \<longleftrightarrow> (\<exists>n\<ge>n0. (if e \<noteq> NSH_OK then r = (e, q)
     else if want_exit q \<or> sh_flow q \<noteq> FLOW_NONE then r = (NSH_OK, q)
     else if last_status q = 0 then (case bs of b # _ \<Rightarrow> eval_node os n b q = Some r | [] \<Rightarrow> r = (NSH_ERR_INVALID, q))
     else eval_if (eval_node os n) cs (tl bs) els q = Some r))"
    by (intro ex_cong conj_cong refl) (auto simp: at halted_def split: list.splits)
  also have "\<dots> \<longleftrightarrow> ?R"
  proof -
    have y: "(\<exists>n\<ge>n0. eval_node os n b q = Some r) \<longleftrightarrow> yields os b q r" for b
      unfolding yields_def by (meson eval_node_more nle_le order_refl)
    have z: "(\<exists>n\<ge>n0. eval_if (eval_node os n) cs (tl bs) els q = Some r) \<longleftrightarrow> if_yields os cs (tl bs) els q r"
      unfolding if_yields_def by (meson up nle_le order_refl)
    show ?thesis using y z by (cases bs) auto
  qed
  finally show ?thesis .
qed

lemma if_after_all:
  "all_fail os cs p q \<Longrightarrow> length bs = length cs \<Longrightarrow> if_yields os (cs @ cs') (bs @ bs') els p r \<longleftrightarrow> if_yields os cs' bs' els q r"
proof (induction cs arbitrary: p bs)
  case (Cons c cs)
  then obtain b bs1 p1 where "bs = b # bs1" "yields os c p (NSH_OK, p1)" "\<not> want_exit p1" "sh_flow p1 = FLOW_NONE"
    "last_status p1 \<noteq> 0" "all_fail os cs p1 q" by (cases bs) auto
  with Cons show ?case by (simp add: if_after)
qed simp

lemma if_nil: "if_yields os [] bs els p r \<longleftrightarrow>
   (case els of None \<Rightarrow> r = (NSH_OK, p\<lparr>last_status := 0\<rparr>) | Some e \<Rightarrow> yields os e p r)"
  by (auto simp: if_yields_def yields_def split: option.splits)

text \<open>C35: an \<open>if\<close> with its \<open>elif\<close> branches runs the body of the first condition that holds, and nothing else.
  Let the conditions \<open>cs\<close> be evaluated in turn, all with a status that is not 0, and lead from
  \<open>p\<close> to \<open>q\<close>. If no condition is left, the result is that of the \<open>else\<close> branch at \<open>q\<close>, and without one
  success with status 0. If the next condition succeeds with status 0, it is the result of
  its body, run behind the conditions; if it fails with an error, or leaves an \<open>exit\<close>, \<open>break\<close>,
  \<open>continue\<close> or \<open>return\<close> pending, the \<open>if\<close> ends there, with no body run. Each case includes that the \<open>if\<close>
  runs for ever only if the branch does.\<close>

theorem if_runs_first_true_branch:
  assumes "all_fail os cs p q" "length bs = length cs"
  shows "(yields os (NODE_IF cs bs None) p r \<longleftrightarrow> r = (NSH_OK, q\<lparr>last_status := 0\<rparr>))
    \<and> (yields os (NODE_IF cs bs (Some els)) p r \<longleftrightarrow> yields os els q r)
    \<and> (yields os c q (NSH_OK, q1) \<and> \<not> want_exit q1 \<and> sh_flow q1 = FLOW_NONE \<and> last_status q1 = 0 \<longrightarrow>
        (yields os (NODE_IF (cs @ c # cs') (bs @ b # bs') el) p r \<longleftrightarrow> yields os b q1 r))
    \<and> (yields os c q (e, q1) \<and> (e \<noteq> NSH_OK \<or> want_exit q1 \<or> sh_flow q1 \<noteq> FLOW_NONE) \<longrightarrow>
        (yields os (NODE_IF (cs @ c # cs') (bs @ b # bs') el) p r \<longleftrightarrow> r = (e, q1)))"
proof -
  note behind = if_after_all [OF assms]
  have "yields os (NODE_IF cs bs el) p r \<longleftrightarrow> if_yields os [] [] el q r" for el
    unfolding yields_if using behind [of "[]" "[]" el r] by simp
  moreover have "yields os (NODE_IF (cs @ c # cs') (bs @ b # bs') el) p r \<longleftrightarrow> if_yields os (c # cs') (b # bs') el q r"
    unfolding yields_if by (rule behind)
  ultimately show ?thesis
    using if_after [of os c q NSH_OK q1] if_after [of os c q e q1] by (cases "e = NSH_OK") (auto simp: if_nil)
qed

lemma if_runs_first_true_branch_witness:
  "yields quiet_os (NODE_IF [NODE_LIST [], NODE_FUNCDEF ''f'' (NODE_LIST [])] [NODE_FUNCDEF ''g'' (NODE_LIST []), NODE_LIST []] None)
     (boot\<lparr>last_status := 1\<rparr>)
     (NSH_OK, boot\<lparr>p_funcs := func_define (p_funcs boot) (Some ''f'') (ast_clone (NODE_LIST [])), last_status := 0\<rparr>)"
proof -
  let ?p = "boot\<lparr>last_status := 1\<rparr>" and ?q = "boot\<lparr>p_funcs := func_define (p_funcs boot) (Some ''f'') (ast_clone (NODE_LIST [])), last_status := 0\<rparr>"
  have l: "yields quiet_os (NODE_LIST []) r (NSH_OK, r)" for r unfolding yields_def by (rule exI [of _ 1]) simp
  have f: "yields quiet_os (NODE_FUNCDEF ''f'' (NODE_LIST [])) ?p (NSH_OK, ?q)"
    unfolding yields_def by (rule exI [of _ 1]) (simp add: eval_funcdef_def)
  have a: "all_fail quiet_os [NODE_LIST []] ?p ?p" using l [of ?p] by (auto simp: boot_def)
  show ?thesis
    using if_runs_first_true_branch [OF a, of "[NODE_FUNCDEF ''g'' (NODE_LIST [])]" "(NSH_OK, ?q)" _ "NODE_FUNCDEF ''f'' (NODE_LIST [])" ?q "[]" "NODE_LIST []" "[]" None]
      f l [of ?q] by (simp add: boot_def)
qed

section \<open>Expansion of a parameter\<close>

lemma dollar_word:
  "expand_word e (Some (plain_word (CHR ''$'' # s))) ctx =
     do { (err, acc) \<leftarrow> expand_segment e (case ctx of None \<Rightarrow> CTX_EMPTY | Some c \<Rightarrow> c) (cstr (CHR ''$'' # s)) [];
          if err \<noteq> NSH_OK then Some (err, None) else Some (NSH_OK, Some acc) }"
  by (cases "expand_segment e (case ctx of None \<Rightarrow> CTX_EMPTY | Some c \<Rightarrow> c) (cstr (CHR ''$'' # s)) []")
     (auto simp: expand_word_def plain_word_def expand_tilde_def cstr_def)

lemma cstr_simps [simp]: "cstr [] = []" "cstr (c # s) = (if c = NUL then [] else c # cstr s)"
  by (simp_all add: cstr_def)

lemma digit_not: "is_digit d \<Longrightarrow> d \<noteq> NUL \<and> d \<noteq> CHR ''?'' \<and> d \<noteq> CHR ''#'' \<and> d \<noteq> CHR ''{''"
  by (auto simp: is_digit_def)

lemma positional_word:
  assumes "is_digit d"
  shows "expand_word e (Some (plain_word [CHR ''$'', d])) (Some ctx)
    = Some (NSH_OK, Some (append_positional ctx (digit_val d)))"
  using digit_not [OF assms] assms
  by (simp add: dollar_word expand_segment.simps expand_dollar_def)

lemma count_word:
  "expand_word e (Some (plain_word ''$#'')) (Some ctx) = Some (NSH_OK, Some (append_count ctx))"
  by (simp add: dollar_word expand_segment.simps expand_dollar_def)

section \<open>Calls\<close>

definition argument :: "string list \<Rightarrow> nat \<Rightarrow> string" where
  "argument argv k = (if k < length argv then argv ! k else [])"

lemma call_positional:
  assumes "argv \<noteq> []" "0 < k"
  shows "append_positional (expand_ctx (p\<lparr>sh_argc := int (length argv), sh_argv := Some (call_argv_new q argv),
           func_depth := dd\<rparr>)) k = argument argv k"
proof -
  obtain j where k: "k = Suc j" using assms(2) by (cases k) simp_all
  obtain a as where a: "argv = a # as" using assms(1) by (cases argv) simp_all
  show ?thesis
    by (simp add: append_positional_def expand_ctx_def call_argv_new_def argument_def k a rd_def nth_append)
qed

lemma call_zero:
  assumes "sh_argv p = Some (z # zs)" "0 < sh_argc p" "argv \<noteq> []"
  shows "append_positional (expand_ctx (p\<lparr>sh_argc := int (length argv), sh_argv := Some (call_argv_new p argv),
           func_depth := dd\<rparr>)) 0 = append_positional (expand_ctx p) 0"
  using assms by (simp add: append_positional_def expand_ctx_def call_argv_new_def rd_def)

text \<open>C36: a function call binds its arguments. While the body runs, \<open>$1\<close> to \<open>$9\<close> expand to the
  arguments (nothing behind the last), \<open>$#\<close> to their number and \<open>$0\<close> to what it was; the
  call's status is that of \<open>return\<close>, or else the last one; no flow stays pending and the
  caller's parameters are back.\<close>

theorem call_binds_parameters:
  assumes "func_lookup (p_funcs p) (Some f) = Some body" and "func_depth p < FUNC_DEPTH_MAX"
    and "sh_argv p = Some (z # zs)" and "0 < sh_argc p"
    and "eval_maybe_call_function (eval_node os n) (f # args) p = Some (found, st, q)"
  shows "\<exists>p1 err r. eval_node os n body p1 = Some (err, r)
    \<and> (\<forall>k. 1 \<le> k \<and> k \<le> 9 \<longrightarrow> expand_word (p_env p1) (Some (plain_word [CHR ''$'', digit_char k])) (Some (expand_ctx p1))
           = Some (NSH_OK, Some (argument args (k - 1))))
    \<and> expand_word (p_env p1) (Some (plain_word ''$0'')) (Some (expand_ctx p1))
        = expand_word (p_env p) (Some (plain_word ''$0'')) (Some (expand_ctx p))
    \<and> expand_word (p_env p1) (Some (plain_word ''$#'')) (Some (expand_ctx p1))
        = Some (NSH_OK, Some (dec_int (int (length args))))
    \<and> found \<and> st = (if sh_flow r = FLOW_RETURN then flow_status r else last_status r)
    \<and> sh_flow q = FLOW_NONE \<and> sh_argc q = sh_argc p \<and> sh_argv q = sh_argv p"
proof -
  let ?argv = "f # args"
  let ?p1 = "p\<lparr>sh_argc := int (length ?argv), sh_argv := Some (call_argv_new p ?argv), func_depth := func_depth p + 1\<rparr>"
  from assms(1,2,5) obtain err r where r: "eval_node os n body ?p1 = Some (err, r)"
    by (auto simp: eval_maybe_call_function_def split: Option.bind_splits if_splits)
  have zero: "expand_word e (Some (plain_word ''$0'')) (Some ctx) = Some (NSH_OK, Some (append_positional ctx 0))" for e ctx
    using positional_word [of "CHR ''0''" e ctx] by (simp add: digit_val_def is_digit_def less_eq_char_def)
  have arg: "expand_word (p_env ?p1) (Some (plain_word [CHR ''$'', digit_char k])) (Some (expand_ctx ?p1))
      = Some (NSH_OK, Some (argument args (k - 1)))" if "1 \<le> k" "k \<le> 9" for k
    using that positional_word [of "digit_char k"] call_positional [where argv = ?argv and k = k and p = p and q = p and dd = "func_depth p + 1"]
    by (auto simp: argument_def nth_Cons split: nat.splits)
  have cnt: "expand_word (p_env ?p1) (Some (plain_word ''$#'')) (Some (expand_ctx ?p1)) = Some (NSH_OK, Some (dec_int (int (length args))))"
    by (simp add: count_word append_count_def expand_ctx_def append_int_def call_argv_new_def)
  have z: "expand_word (p_env ?p1) (Some (plain_word ''$0'')) (Some (expand_ctx ?p1))
        = expand_word (p_env p) (Some (plain_word ''$0'')) (Some (expand_ctx p))"
    unfolding zero using call_zero [OF assms(3,4), where argv = ?argv and dd = "func_depth p + 1"] by simp
  have res: "found" "st = (if sh_flow r = FLOW_RETURN then flow_status r else last_status r)"
    "sh_flow q = FLOW_NONE" "sh_argc q = sh_argc p" "sh_argv q = sh_argv p"
    using assms(1,2,5) r
    by (auto simp: eval_maybe_call_function_def drain_stray_flow_def put_err_def Let_def split: if_splits)
      (cases "sh_flow r"; simp)
  show ?thesis
    using r arg zero cnt z res by (intro exI [of _ ?p1] exI [of _ err] exI [of _ r]) blast
qed


theorem call_binds_parameters_witness:
  "\<exists>p1 err r. eval_node quiet_os 2 (NODE_LIST []) p1 = Some (err, r)
    \<and> expand_word (p_env p1) (Some (plain_word [CHR ''$'', digit_char 1])) (Some (expand_ctx p1)) = Some (NSH_OK, Some ''x'')"
proof -
  let ?p = "boot\<lparr>p_funcs := \<lparr>g_funcs = [\<lparr>f_name = ''f'', f_body = NODE_LIST []\<rparr>], g_retired = []\<rparr>\<rparr> :: nat Proc"
  have l: "func_lookup (p_funcs ?p) (Some ''f'') = Some (NODE_LIST [])" by code_simp
  have d: "func_depth ?p < FUNC_DEPTH_MAX" "sh_argv ?p = Some (Some ''nullsh'' # [None])" "0 < sh_argc ?p"
    by (simp_all add: boot_def FUNC_DEPTH_MAX_def)
  have e: "\<exists>q. eval_maybe_call_function (eval_node quiet_os 2) (''f'' # [''x'']) ?p = Some (True, 0, q)"
  proof -
    have "map_option (\<lambda>(a, b, c). (a, b)) (eval_maybe_call_function (eval_node quiet_os 2) (''f'' # [''x'']) ?p) = Some (True, 0)"
      by code_simp
    then show ?thesis by auto
  qed
  then obtain q where q: "eval_maybe_call_function (eval_node quiet_os 2) (''f'' # [''x'']) ?p = Some (True, 0, q)" ..
  have a: "argument [''x''] 0 = ''x''" by (simp add: argument_def)
  obtain p1 err r where r: "eval_node quiet_os 2 (NODE_LIST []) p1 = Some (err, r)"
    and "\<forall>k. 1 \<le> k \<and> k \<le> 9 \<longrightarrow> expand_word (p_env p1) (Some (plain_word [CHR ''$'', digit_char k])) (Some (expand_ctx p1))
           = Some (NSH_OK, Some (argument [''x''] (k - 1)))"
    using call_binds_parameters [OF l d q] by blast
  from this(2) [rule_format, of 1] a
  have "expand_word (p_env p1) (Some (plain_word [CHR ''$'', digit_char 1])) (Some (expand_ctx p1)) = Some (NSH_OK, Some ''x'')"
    by simp
  with r show ?thesis by blast
qed

section \<open>A bad substitution\<close>

lemma int_take_frame:
  "p_env (snd (int_take os p)) = p_env p"
  by (simp add: int_take_def poll_signals_def signals_int_take_def Let_def case_prod_beta)

text \<open>a bad substitution in the word list of a \<open>for\<close> leaves status 1, while the same word in a
  command leaves 2.\<close>

theorem for_bad_substitution_status:
  assumes "expand_word (p_env p) (Some w) (Some (expand_ctx p)) = Some (err, None)" and "err \<noteq> NSH_OK"
    and "\<not> fst (int_take os (loop_enter p))"
  shows "map_option (\<lambda>(e, q). last_status q) (eval_run os (Suc n) (Some (NODE_FOR v (w # ws) body)) p) = Some 1
    \<and> map_option (\<lambda>(e, q). last_status q) (eval_run os (Suc n) (Some (NODE_PIPELINE
        \<lparr>pl_cmds = [\<lparr>c_words = w # ws, c_redir_in = ri, c_redir_out = ro, c_redir_append = ra, c_redir_err = re\<rparr>],
         pl_background = False\<rparr> False)) p) = Some 2"
proof
  let ?p0 = "snd (int_take os (loop_enter p))"
  have env: "p_env ?p0 = p_env p" by (simp add: int_take_frame loop_enter_def Let_def)
  obtain p0 where t: "int_take os (loop_enter p) = (False, p0)" using assms(3) by (metis prod.collapse)
  have "p_env p0 = p_env p" using env t by simp
  with assms t show "map_option (\<lambda>(e, q). last_status q) (eval_run os (Suc n) (Some (NODE_FOR v (w # ws) body)) p) = Some 1"
    by (simp add: eval_run_def eval_for_def loop_leave_def Let_def)
  show "map_option (\<lambda>(e, q). last_status q) (eval_run os (Suc n) (Some (NODE_PIPELINE
        \<lparr>pl_cmds = [\<lparr>c_words = w # ws, c_redir_in = ri, c_redir_out = ro, c_redir_append = ra, c_redir_err = re\<rparr>],
         pl_background = False\<rparr> False)) p) = Some 2"
    using assms(1,2) by (simp add: eval_run_def eval_pipeline_def exec_pipeline_def run_simple_def STATUS_BAD_SUBST_def)
qed

theorem for_bad_substitution_status_witness:
  "map_option (\<lambda>(e, q). last_status q) (eval_run quiet_os 1 (Some (NODE_FOR ''i'' [plain_word ''${''] (NODE_LIST []))) boot) = Some 1"
proof -
  have x: "expand_word (p_env boot) (Some (plain_word ''${'')) (Some (expand_ctx boot)) = Some (NSH_ERR_SYNTAX, None)" by code_simp
  have t: "\<not> fst (int_take quiet_os (loop_enter boot))" by code_simp
  show ?thesis unfolding One_nat_def using for_bad_substitution_status [OF x _ t] by simp
qed

end
