(* ===== verification/Term.thy ===== *)
theory Term
  imports Proc
begin

text \<open>
  \<open>src/emu/term.c\<close>: raw mode of the terminal, for the line editor and for the emulator. Retry
  loops after \<open>EINTR\<close> carry a fuel; None means that it did not suffice.
\<close>

section \<open>Operations\<close>

datatype TermRawMode = TERM_RAW_SCREEN | TERM_RAW_LINE

definition ESC_HIDE_CURSOR :: string where "ESC_HIDE_CURSOR = CHR 0x1B # ''[?25l''"
definition ESC_SHOW_CURSOR :: string where "ESC_SHOW_CURSOR = CHR 0x1B # ''[?25h''"
definition ESC_CLEAR :: string where "ESC_CLEAR = CHR 0x1B # ''[2J''"

definition warn :: "'w Os \<Rightarrow> string \<Rightarrow> nat \<Rightarrow> 'w Proc \<Rightarrow> 'w Proc" where
  "warn os what e p = put_err (''nullsh: emu: '' @ what @ '': '' @ os_strerror os e @ [NEWLINE]) p"

text \<open>The loop around \<open>write\<close> that \<open>term.c\<close> and \<open>edit.c\<close> both have: the \<open>errno\<close> it ends with, 0 for success.\<close>

definition wrote :: "string \<Rightarrow> 'w Proc \<Rightarrow> 'w Proc" where
  "wrote s p = p\<lparr>p_log := p_log p @ [(fd_file (p_fds p) 1, s)]\<rparr>"

fun write_loop :: "'w Os \<Rightarrow> nat \<Rightarrow> string \<Rightarrow> 'w Proc \<Rightarrow> (nat \<times> 'w Proc) option" where
  "write_loop os n [] p = Some (0, p)"
| "write_loop os 0 (c # s) p = None"
| "write_loop os (Suc n) (c # s) p = (case os_write os (c # s) (p_world p) of
     (Inl e, w) \<Rightarrow> if e = EINTR then write_loop os n (c # s) (p\<lparr>p_world := w\<rparr>) else Some (e, p\<lparr>p_world := w\<rparr>)
   | (Inr k, w) \<Rightarrow> write_loop os n (drop k (c # s)) (wrote (take k (c # s)) (p\<lparr>p_world := w\<rparr>)))"

definition term_write_all :: "'w Os \<Rightarrow> nat \<Rightarrow> string \<Rightarrow> 'w Proc \<Rightarrow> (NshError \<times> 'w Proc) option" where
  "term_write_all os n s p = do {
     (e, q) \<leftarrow> write_loop os n s p;
     Some (if e = 0 then (NSH_OK, q) else (NSH_ERR_IO, warn os ''write'' e q))
   }"

text \<open>The calls on descriptor 0; a success changes the kernel's side.\<close>

definition sys_tcsetattr :: "'w Os \<Rightarrow> TcWhen \<Rightarrow> Termios \<Rightarrow> 'w Proc \<Rightarrow> nat \<times> 'w Proc" where
  "sys_tcsetattr os how t p = (let (e, w) = os_tcsetattr os how t (p_world p)
     in (e, if e = 0 then p\<lparr>p_world := w, p_term := (p_term p)\<lparr>k_termios := t\<rparr>\<rparr> else p\<lparr>p_world := w\<rparr>))"

definition sys_setfl :: "'w Os \<Rightarrow> bool \<Rightarrow> 'w Proc \<Rightarrow> nat \<times> 'w Proc" where
  "sys_setfl os b p = (let (e, w) = os_setfl os b (p_world p)
     in (e, if e = 0 then p\<lparr>p_world := w, p_term := (p_term p)\<lparr>k_nonblock := b\<rparr>\<rparr> else p\<lparr>p_world := w\<rparr>))"

definition check :: "'w Os \<Rightarrow> string \<Rightarrow> nat \<times> 'w Proc \<Rightarrow> 'w Proc" where
  "check os what r = (case r of (e, p) \<Rightarrow> if e = 0 then p else warn os what e p)"

definition set_term :: "(Terminal \<Rightarrow> Terminal) \<Rightarrow> 'w Proc \<Rightarrow> 'w Proc" where
  "set_term f p = p\<lparr>p_term := f (p_term p)\<rparr>"

definition term_exit_raw :: "'w Os \<Rightarrow> nat \<Rightarrow> 'w Proc \<Rightarrow> 'w Proc option" where
  "term_exit_raw os n p =
     (if \<not> raw_active (p_term p) then Some p
      else do {
        let p1 = set_term (\<lambda>t. t\<lparr>raw_active := False\<rparr>) p;
        (_, p2) \<leftarrow> (if raw_owns_screen (p_term p1) then term_write_all os n ESC_SHOW_CURSOR p1 else Some (NSH_OK, p1));
        let p3 = check os ''fcntl'' (sys_setfl os (saved_flags (p_term p2)) p2);
        let how = (if raw_owns_screen (p_term p3) then TCSAFLUSH else TCSADRAIN);
        Some (check os ''tcsetattr'' (sys_tcsetattr os how (saved_termios (p_term p3)) p3))
      })"

definition raw_of :: "bool \<Rightarrow> Termios \<Rightarrow> Termios" where
  "raw_of screen t =
     (let t1 = t\<lparr>t_echo := False, t_icanon := False, t_iexten := False, t_icrnl := False, t_ixon := False\<rparr>
      in if screen then t1\<lparr>t_vmin := 0, t_vtime := 0\<rparr>
         else t1\<lparr>t_isig := False, t_vmin := 1, t_vtime := 0\<rparr>)"

definition term_enter_raw_mode ::
  "'w Os \<Rightarrow> nat \<Rightarrow> TermRawMode \<Rightarrow> 'w Proc \<Rightarrow> (NshError \<times> 'w Proc) option" where
  "term_enter_raw_mode os n mode p =
     (if raw_active (p_term p) then Some (NSH_OK, p)
      else (case os_tcgetattr os (p_world p) of (e, w) \<Rightarrow>
        if e \<noteq> 0 then Some (NSH_ERR_IO, warn os ''tcgetattr'' e (p\<lparr>p_world := w\<rparr>))
        else (let p1 = set_term (\<lambda>t. t\<lparr>saved_termios := k_termios t\<rparr>) (p\<lparr>p_world := w\<rparr>)
          in case os_getfl os (p_world p1) of (e, w) \<Rightarrow>
            if e \<noteq> 0 then Some (NSH_ERR_IO, warn os ''fcntl'' e (p1\<lparr>p_world := w\<rparr>))
            else (let p2 = set_term (\<lambda>t. t\<lparr>saved_flags := k_nonblock t\<rparr>) (p1\<lparr>p_world := w\<rparr>);
                screen = (mode = TERM_RAW_SCREEN);
                how = (if screen then TCSAFLUSH else TCSADRAIN);
                (e, p3) = sys_tcsetattr os how (raw_of screen (saved_termios (p_term p2))) p2
              in if e \<noteq> 0 then Some (NSH_ERR_IO, warn os ''tcsetattr'' e p3)
                 else (let (e, p4) = (if screen then sys_setfl os True p3 else (0, p3))
                   in if e \<noteq> 0
                      then Some (NSH_ERR_IO, check os ''tcsetattr''
                             (sys_tcsetattr os how (saved_termios (p_term p4)) (warn os ''fcntl'' e p4)))
                      else do {
                        let p5 = set_term (\<lambda>t. t\<lparr>raw_active := True, raw_owns_screen := screen\<rparr>) p4;
                        (err, p6) \<leftarrow> (if screen then term_write_all os n (ESC_HIDE_CURSOR @ ESC_CLEAR) p5
                                      else Some (NSH_OK, p5));
                        if err \<noteq> NSH_OK then do { p7 \<leftarrow> term_exit_raw os n p6; Some (NSH_ERR_IO, p7) }
                        else Some (NSH_OK, p6)
                      })))))"

definition term_enter_raw :: "'w Os \<Rightarrow> nat \<Rightarrow> 'w Proc \<Rightarrow> (NshError \<times> 'w Proc) option" where
  "term_enter_raw os n p = term_enter_raw_mode os n TERM_RAW_SCREEN p"

text \<open>In a handler: one write, no messages.\<close>

definition term_emergency_restore :: "'w Os \<Rightarrow> 'w Proc \<Rightarrow> 'w Proc" where
  "term_emergency_restore os p =
     (if \<not> raw_active (p_term p) then p
      else (let p1 = set_term (\<lambda>t. t\<lparr>raw_active := False\<rparr>) p;
                p2 = (if raw_owns_screen (p_term p1)
                      then (case os_write os ESC_SHOW_CURSOR (p_world p1) of
                              (Inl _, w) \<Rightarrow> p1\<lparr>p_world := w\<rparr>
                            | (Inr k, w) \<Rightarrow> wrote (take k ESC_SHOW_CURSOR) (p1\<lparr>p_world := w\<rparr>))
                      else p1);
                p3 = snd (sys_setfl os (saved_flags (p_term p2)) p2)
            in snd (sys_tcsetattr os TCSAFLUSH (saved_termios (p_term p3)) p3)))"

definition term_read_key :: "'w Os \<Rightarrow> 'w Proc \<Rightarrow> char option \<times> 'w Proc" where
  "term_read_key os p = (case os_read os (p_world p) of
     (Inr (Some ch), w) \<Rightarrow> (Some ch, p\<lparr>p_world := w\<rparr>)
   | (_, w) \<Rightarrow> (None, p\<lparr>p_world := w\<rparr>))"

fun term_read_byte :: "'w Os \<Rightarrow> nat \<Rightarrow> 'w Proc \<Rightarrow> ((NshError + char) \<times> 'w Proc) option" where
  "term_read_byte os 0 p = None"
| "term_read_byte os (Suc n) p = (case os_read os (p_world p) of
     (Inr (Some ch), w) \<Rightarrow> Some (Inr ch, p\<lparr>p_world := w\<rparr>)
   | (Inr None, w) \<Rightarrow> Some (Inl NSH_EOF, p\<lparr>p_world := w\<rparr>)
   | (Inl e, w) \<Rightarrow>
       if e = EINTR then term_read_byte os n (p\<lparr>p_world := w\<rparr>)
       else Some (Inl NSH_ERR_IO, warn os ''read'' e (p\<lparr>p_world := w\<rparr>)))"

end
