(* ===== verification/Edit.thy ===== *)
theory Edit
  imports Term Util
begin

text \<open>
  \<open>src/shell/edit.c\<close>: the edit buffer, the key decoder, history recall and the loop that reads
  one line from the terminal. The buffer is the C \<open>Str\<close> with its slot array; every \<open>memmove\<close>
  is checked, None is an access outside the array. \<open>junk\<close> supplies the bytes of fresh memory.
\<close>

section \<open>The edit buffer\<close>

record EditLine =
  e_buf :: Str
  e_cursor :: nat

definition memmove :: "'a list \<Rightarrow> nat \<Rightarrow> nat \<Rightarrow> nat \<Rightarrow> 'a list option" where
  "memmove d dst src n = do { xs \<leftarrow> slice d src n; blit d dst xs }"

definition edit_init :: "(nat \<Rightarrow> char) \<Rightarrow> EditLine" where
  "edit_init junk = \<lparr>e_buf = str_init junk, e_cursor = 0\<rparr>"

definition edit_free :: "EditLine \<Rightarrow> EditLine" where
  "edit_free e = e\<lparr>e_buf := str_free (e_buf e), e_cursor := 0\<rparr>"

definition edit_insert :: "(nat \<Rightarrow> char) \<Rightarrow> EditLine \<Rightarrow> char \<Rightarrow> EditLine option" where
  "edit_insert junk e c = do {
     let at1 = (if e_cursor e > s_len (e_buf e) then s_len (e_buf e) else e_cursor e);
     b \<leftarrow> str_push junk (e_buf e) c;
     d \<leftarrow> s_data b;
     d1 \<leftarrow> memmove d (at1 + 1) at1 (s_len b - at1 - 1);
     d2 \<leftarrow> wr d1 at1 c;
     Some (e\<lparr>e_buf := b\<lparr>s_data := Some d2\<rparr>, e_cursor := at1 + 1\<rparr>)
   }"

definition edit_backspace :: "EditLine \<Rightarrow> EditLine option" where
  "edit_backspace e =
     (if e_cursor e = 0 \<or> s_len (e_buf e) = 0 then Some e
      else do {
        d \<leftarrow> s_data (e_buf e);
        d1 \<leftarrow> memmove d (e_cursor e - 1) (e_cursor e) (s_len (e_buf e) - e_cursor e + 1);
        Some (e\<lparr>e_buf := (e_buf e)\<lparr>s_data := Some d1, s_len := s_len (e_buf e) - 1\<rparr>, e_cursor := e_cursor e - 1\<rparr>)
      })"

definition edit_delete :: "EditLine \<Rightarrow> EditLine option" where
  "edit_delete e =
     (if e_cursor e \<ge> s_len (e_buf e) then Some e
      else do {
        d \<leftarrow> s_data (e_buf e);
        d1 \<leftarrow> memmove d (e_cursor e) (e_cursor e + 1) (s_len (e_buf e) - e_cursor e);
        Some (e\<lparr>e_buf := (e_buf e)\<lparr>s_data := Some d1, s_len := s_len (e_buf e) - 1\<rparr>\<rparr>)
      })"

definition edit_left :: "EditLine \<Rightarrow> EditLine" where
  "edit_left e = (if e_cursor e > 0 then e\<lparr>e_cursor := e_cursor e - 1\<rparr> else e)"

definition edit_right :: "EditLine \<Rightarrow> EditLine" where
  "edit_right e = (if e_cursor e < s_len (e_buf e) then e\<lparr>e_cursor := e_cursor e + 1\<rparr> else e)"

definition edit_home :: "EditLine \<Rightarrow> EditLine" where "edit_home e = e\<lparr>e_cursor := 0\<rparr>"

definition edit_end :: "EditLine \<Rightarrow> EditLine" where "edit_end e = e\<lparr>e_cursor := s_len (e_buf e)\<rparr>"

definition edit_kill_to_end :: "EditLine \<Rightarrow> EditLine option" where
  "edit_kill_to_end e =
     (if e_cursor e \<ge> s_len (e_buf e) then Some e
      else do {
        d \<leftarrow> s_data (e_buf e);
        d1 \<leftarrow> wr d (e_cursor e) NUL;
        Some (e\<lparr>e_buf := (e_buf e)\<lparr>s_data := Some d1, s_len := e_cursor e\<rparr>\<rparr>)
      })"

definition edit_kill_to_start :: "EditLine \<Rightarrow> EditLine option" where
  "edit_kill_to_start e =
     (if e_cursor e = 0 then Some e
      else do {
        d \<leftarrow> s_data (e_buf e);
        d1 \<leftarrow> memmove d 0 (e_cursor e) (s_len (e_buf e) - e_cursor e + 1);
        Some (e\<lparr>e_buf := (e_buf e)\<lparr>s_data := Some d1, s_len := s_len (e_buf e) - e_cursor e\<rparr>, e_cursor := 0\<rparr>)
      })"

text \<open>The two loops of \<open>edit_kill_word_left\<close>: back over the characters with the property \<open>P\<close>.\<close>

fun back_over :: "(char \<Rightarrow> bool) \<Rightarrow> char list \<Rightarrow> nat \<Rightarrow> nat option" where
  "back_over P d 0 = Some 0"
| "back_over P d (Suc i) = do { c \<leftarrow> rd d i; if P c then back_over P d i else Some (Suc i) }"

definition edit_kill_word_left :: "EditLine \<Rightarrow> EditLine option" where
  "edit_kill_word_left e = do {
     d \<leftarrow> s_data (e_buf e);
     i1 \<leftarrow> back_over is_blank d (e_cursor e);
     i \<leftarrow> back_over (\<lambda>c. \<not> is_blank c) d i1;
     if i = e_cursor e then Some e
     else do {
       d1 \<leftarrow> memmove d i (e_cursor e) (s_len (e_buf e) - e_cursor e + 1);
       Some (e\<lparr>e_buf := (e_buf e)\<lparr>s_data := Some d1, s_len := s_len (e_buf e) - (e_cursor e - i)\<rparr>, e_cursor := i\<rparr>)
     }
   }"

definition edit_set :: "(nat \<Rightarrow> char) \<Rightarrow> EditLine \<Rightarrow> string option \<Rightarrow> EditLine option" where
  "edit_set junk e line = do {
     b \<leftarrow> str_clear (e_buf e);
     b1 \<leftarrow> (case line of None \<Rightarrow> Some b | Some s \<Rightarrow> str_append junk b s);
     Some (e\<lparr>e_buf := b1, e_cursor := s_len b1\<rparr>)
   }"

section \<open>The key decoder\<close>

datatype EditKey =
    EK_NONE | EK_CHAR | EK_ENTER | EK_BACKSPACE | EK_DELETE | EK_LEFT | EK_RIGHT | EK_HOME | EK_END
  | EK_UP | EK_DOWN | EK_KILL_END | EK_KILL_START | EK_KILL_WORD | EK_EOF | EK_INTERRUPT

datatype KeyState = KS_GROUND | KS_ESC | KS_CSI | KS_CSI_PARAM | KS_SS3 | KS_CSI_IGNORE

record EditKeys =
  k_state :: KeyState
  k_pending :: "char list"
  k_npending :: nat

definition editkeys_init :: EditKeys where
  "editkeys_init = \<lparr>k_state = KS_GROUND, k_pending = replicate 8 NUL, k_npending = 0\<rparr>"

text \<open>The character is what \<open>*ch\<close> holds behind the call, if it was written.\<close>

definition feed_ground :: "EditKeys \<Rightarrow> char \<Rightarrow> EditKey \<times> char option \<times> EditKeys" where
  "feed_ground k b =
     (if b = CHR 0x1B then (EK_NONE, None, k\<lparr>k_state := KS_ESC, k_npending := 0\<rparr>)
      else if b = CHR 0x0D \<or> b = CHR 0x0A then (EK_ENTER, None, k)
      else if b = CHR 0x7F \<or> b = CHR 0x08 then (EK_BACKSPACE, None, k)
      else if b = CHR 0x01 then (EK_HOME, None, k)
      else if b = CHR 0x03 then (EK_INTERRUPT, None, k)
      else if b = CHR 0x04 then (EK_EOF, None, k)
      else if b = CHR 0x05 then (EK_END, None, k)
      else if b = CHR 0x0B then (EK_KILL_END, None, k)
      else if b = CHR 0x15 then (EK_KILL_START, None, k)
      else if b = CHR 0x17 then (EK_KILL_WORD, None, k)
      else if b < CHR 0x20 then (EK_NONE, None, k)
      else (EK_CHAR, Some b, k))"

definition final_letter :: "char \<Rightarrow> EditKey" where
  "final_letter b =
     (if b = CHR ''A'' then EK_UP else if b = CHR ''B'' then EK_DOWN
      else if b = CHR ''C'' then EK_RIGHT else if b = CHR ''D'' then EK_LEFT
      else if b = CHR ''H'' then EK_HOME else if b = CHR ''F'' then EK_END else EK_NONE)"

definition tilde_key :: "EditKeys \<Rightarrow> EditKey option" where
  "tilde_key k =
     (if k_npending k \<noteq> 1 then Some EK_NONE
      else do {
        c \<leftarrow> rd (k_pending k) 0;
        Some (if c = CHR ''1'' \<or> c = CHR ''7'' then EK_HOME
              else if c = CHR ''3'' then EK_DELETE
              else if c = CHR ''4'' \<or> c = CHR ''8'' then EK_END
              else EK_NONE)
      })"

definition editkeys_feed :: "EditKeys \<Rightarrow> char \<Rightarrow> (EditKey \<times> char option \<times> EditKeys) option" where
  "editkeys_feed k b = (case k_state k of
     KS_ESC \<Rightarrow>
       if b = CHR ''['' then Some (EK_NONE, None, k\<lparr>k_state := KS_CSI\<rparr>)
       else if b = CHR ''O'' then Some (EK_NONE, None, k\<lparr>k_state := KS_SS3\<rparr>)
       else Some (feed_ground (k\<lparr>k_state := KS_GROUND\<rparr>) b)
   | KS_CSI \<Rightarrow>
       if is_digit b then do {
         ps \<leftarrow> wr (k_pending k) 0 b;
         Some (EK_NONE, None, k\<lparr>k_state := KS_CSI_PARAM, k_pending := ps, k_npending := 1\<rparr>)
       }
       else Some (final_letter b, None, k\<lparr>k_state := KS_GROUND\<rparr>)
   | KS_CSI_PARAM \<Rightarrow>
       if is_digit b then
         (if k_npending k < length (k_pending k) then do {
            ps \<leftarrow> wr (k_pending k) (k_npending k) b;
            Some (EK_NONE, None, k\<lparr>k_pending := ps, k_npending := k_npending k + 1\<rparr>)
          }
          else Some (EK_NONE, None, k\<lparr>k_state := KS_CSI_IGNORE\<rparr>))
       else if b = CHR '';'' then Some (EK_NONE, None, k\<lparr>k_state := KS_CSI_IGNORE\<rparr>)
       else if b = CHR ''~'' then do {
         key \<leftarrow> tilde_key k;
         Some (key, None, k\<lparr>k_state := KS_GROUND\<rparr>)
       }
       else Some (EK_NONE, None, k\<lparr>k_state := KS_GROUND\<rparr>)
   | KS_CSI_IGNORE \<Rightarrow>
       Some (EK_NONE, None, if CHR 0x40 \<le> b \<and> b \<le> CHR 0x7E then k\<lparr>k_state := KS_GROUND\<rparr> else k)
   | KS_SS3 \<Rightarrow> Some (final_letter b, None, k\<lparr>k_state := KS_GROUND\<rparr>)
   | KS_GROUND \<Rightarrow> Some (feed_ground k b))"

section \<open>History recall\<close>

record Recall =
  r_h :: History
  r_count :: nat
  r_idx :: nat
  r_stash :: Str

definition recall_init :: "(nat \<Rightarrow> char) \<Rightarrow> History \<Rightarrow> Recall" where
  "recall_init junk h = \<lparr>r_h = h, r_count = history_count h, r_idx = history_count h, r_stash = str_init junk\<rparr>"

text \<open>What \<open>str_append_n(dst, src->data, src->len)\<close> copies.\<close>

definition str_live :: "Str \<Rightarrow> string option" where
  "str_live s = do { d \<leftarrow> s_data s; slice d 0 (s_len s) }"

definition recall_up :: "(nat \<Rightarrow> char) \<Rightarrow> Recall \<Rightarrow> EditLine \<Rightarrow> (Recall \<times> EditLine) option" where
  "recall_up junk r e =
     (if r_idx r = 0 then Some (r, e)
      else do {
        stash \<leftarrow> (if r_idx r = r_count r then do {
                     b \<leftarrow> str_clear (r_stash r);
                     s \<leftarrow> str_live (e_buf e);
                     str_append_n junk b s
                   } else Some (r_stash r));
        let r1 = r\<lparr>r_stash := stash, r_idx := r_idx r - 1\<rparr>;
        e1 \<leftarrow> edit_set junk e (history_get (r_h r1) (r_idx r1));
        Some (r1, e1)
      })"

definition recall_down :: "(nat \<Rightarrow> char) \<Rightarrow> Recall \<Rightarrow> EditLine \<Rightarrow> (Recall \<times> EditLine) option" where
  "recall_down junk r e =
     (if r_idx r \<ge> r_count r then Some (r, e)
      else do {
        let r1 = r\<lparr>r_idx := r_idx r + 1\<rparr>;
        e1 \<leftarrow> edit_set junk e (if r_idx r1 = r_count r1 then s_data (r_stash r1)
                              else history_get (r_h r1) (r_idx r1));
        Some (r1, e1)
      })"

section \<open>Reading a line\<close>

text \<open>One key: whether the line is finished and with which code, the recall state and the line.\<close>

definition apply_key ::
  "(nat \<Rightarrow> char) \<Rightarrow> EditKey \<Rightarrow> char \<Rightarrow> EditLine \<Rightarrow> Recall \<Rightarrow> (NshError option \<times> Recall \<times> EditLine) option" where
  "apply_key junk key ch e r =
     (let on = map_option (\<lambda>e1. (None, r, e1)) in
      case key of
        EK_CHAR \<Rightarrow> on (edit_insert junk e ch)
      | EK_BACKSPACE \<Rightarrow> on (edit_backspace e)
      | EK_DELETE \<Rightarrow> on (edit_delete e)
      | EK_LEFT \<Rightarrow> on (Some (edit_left e))
      | EK_RIGHT \<Rightarrow> on (Some (edit_right e))
      | EK_HOME \<Rightarrow> on (Some (edit_home e))
      | EK_END \<Rightarrow> on (Some (edit_end e))
      | EK_KILL_END \<Rightarrow> on (edit_kill_to_end e)
      | EK_KILL_START \<Rightarrow> on (edit_kill_to_start e)
      | EK_KILL_WORD \<Rightarrow> on (edit_kill_word_left e)
      | EK_UP \<Rightarrow> map_option (\<lambda>(r1, e1). (None, r1, e1)) (recall_up junk r e)
      | EK_DOWN \<Rightarrow> map_option (\<lambda>(r1, e1). (None, r1, e1)) (recall_down junk r e)
      | EK_ENTER \<Rightarrow> Some (Some NSH_OK, r, e)
      | EK_INTERRUPT \<Rightarrow> map_option (\<lambda>e1. (Some NSH_INTERRUPT, r, e1)) (edit_set junk e None)
      | EK_EOF \<Rightarrow> if s_len (e_buf e) = 0 then Some (Some NSH_EOF, r, e) else on (edit_delete e)
      | EK_NONE \<Rightarrow> Some (None, r, e))"

definition ESC_CLEAR_EOL :: string where "ESC_CLEAR_EOL = CHR 0x1B # ''[K''"

text \<open>The bytes of one repaint; the column is a \<open>size_t\<close>, so the buffer for the sequence is never too small.\<close>

definition redraw_text :: "string \<Rightarrow> string \<Rightarrow> nat \<Rightarrow> string" where
  "redraw_text prompt bytes cursor =
     (let col = length prompt + cursor
      in [CHR 0x0D] @ prompt @ bytes @ ESC_CLEAR_EOL @ [CHR 0x0D]
         @ (if col > 0 then [CHR 0x1B, CHR ''[''] @ dec_nat col @ ''C'' else []))"

definition write_all :: "'w Os \<Rightarrow> nat \<Rightarrow> string \<Rightarrow> 'w Proc \<Rightarrow> (NshError \<times> 'w Proc) option" where
  "write_all os n s p = do {
     (e, q) \<leftarrow> write_loop os n s p;
     Some (if e = 0 then NSH_OK else NSH_ERR_IO, q)
   }"

definition redraw :: "'w Os \<Rightarrow> nat \<Rightarrow> string \<Rightarrow> EditLine \<Rightarrow> 'w Proc \<Rightarrow> (NshError \<times> 'w Proc) option" where
  "redraw os n prompt e p = do {
     s \<leftarrow> str_live (e_buf e);
     write_all os n (redraw_text (cstr prompt) s (e_cursor e)) p
   }"

text \<open>The key loop; the fuel bounds the bytes read.\<close>

fun key_loop ::
  "'w Os \<Rightarrow> (nat \<Rightarrow> char) \<Rightarrow> nat \<Rightarrow> string \<Rightarrow> EditKeys \<Rightarrow> Recall \<Rightarrow> EditLine \<Rightarrow> 'w Proc
     \<Rightarrow> (NshError \<times> EditLine \<times> 'w Proc) option" where
  "key_loop os junk 0 prompt k r e p = None"
| "key_loop os junk (Suc n) prompt k r e p = do {
     (b, p1) \<leftarrow> term_read_byte os n p;
     case b of
       Inl err \<Rightarrow> Some (err, e, p1)
     | Inr b \<Rightarrow> do {
         (key, ch, k1) \<leftarrow> editkeys_feed k b;
         if key = EK_NONE then key_loop os junk n prompt k1 r e p1
         else do {
           (fin, r1, e1) \<leftarrow> apply_key junk key (case ch of Some c \<Rightarrow> c | None \<Rightarrow> NUL) e r;
           case fin of
             Some err \<Rightarrow> Some (err, e1, p1)
           | None \<Rightarrow> do {
               (err, p2) \<leftarrow> redraw os n prompt e1 p1;
               if err \<noteq> NSH_OK then Some (err, e1, p2) else key_loop os junk n prompt k1 r1 e1 p2
             }
         }
       }
   }"

definition edit_read_line ::
  "'w Os \<Rightarrow> (nat \<Rightarrow> char) \<Rightarrow> nat \<Rightarrow> string option \<Rightarrow> Str option \<Rightarrow> 'w Proc
     \<Rightarrow> (NshError \<times> Str option \<times> 'w Proc) option" where
  "edit_read_line os junk n prompt out p = (case (prompt, out) of
     (Some prompt, Some out) \<Rightarrow> do {
       out1 \<leftarrow> str_clear out;
       (err, p1) \<leftarrow> term_enter_raw_mode os n TERM_RAW_LINE p;
       if err \<noteq> NSH_OK then Some (NSH_ERR_IO, Some out1, p1)
       else do {
         let e = edit_init junk;
         (err, p2) \<leftarrow> redraw os n prompt e p1;
         (err, e1, p3) \<leftarrow> (if err \<noteq> NSH_OK then Some (err, e, p2)
                         else key_loop os junk n prompt editkeys_init (recall_init junk (sh_history p)) e p2);
         out2 \<leftarrow> (if err = NSH_OK then do { s \<leftarrow> str_live (e_buf e1); str_append_n junk out1 s } else Some out1);
         p4 \<leftarrow> (if err \<noteq> NSH_EOF then map_option snd (write_all os n [CHR 0x0D, CHR 0x0A] p3) else Some p3);
         p5 \<leftarrow> term_exit_raw os n p4;
         Some (err, Some out2, p5)
       }
     }
   | _ \<Rightarrow> Some (NSH_ERR_INVALID, out, p))"

end
