(* ===== verification/Run.thy ===== *)
theory Run
  imports Edit Eval Parser
begin

text \<open>
  \<open>src/shell/run.c\<close> and \<open>src/main.c\<close>: the interactive loop, the loop over a stream, and the
  start and end of the shell. Lines and the accumulated text are \<open>Str\<close> values. The fuel \<open>k\<close>
  bounds the lines read, \<open>n\<close> is the fuel of each evaluation and of each wait.
\<close>

section \<open>Prompt, reaping, feeding\<close>

definition PS2 :: string where "PS2 = ''> ''"
definition STATUS_SYNTAX :: int where "STATUS_SYNTAX = 2"

text \<open>\<open>strncmp(cwd, home, strlen(home)) == 0\<close> says that \<open>home\<close> is a prefix of \<open>cwd\<close>.\<close>

definition prompt_build :: "'w Os \<Rightarrow> 'w Proc \<Rightarrow> string \<times> 'w Proc" where
  "prompt_build os p =
     (let home = (case getenv (p_env p) ''HOME'' of None \<Rightarrow> [] | Some h \<Rightarrow> h);
          hlen = length home
      in case os_getcwd os (p_world p) of
           (Inl _, w) \<Rightarrow> (''nullsh$ '', p\<lparr>p_world := w\<rparr>)
         | (Inr cwd, w) \<Rightarrow>
             (if hlen > 0 \<and> take hlen cwd = home \<and> (peek (drop hlen cwd) = NUL \<or> peek (drop hlen cwd) = CHR ''/'')
              then ''nullsh:~'' @ drop hlen cwd @ ''$ ''
              else ''nullsh:'' @ cwd @ ''$ '', p\<lparr>p_world := w\<rparr>))"

fun reap_loop :: "'w Os \<Rightarrow> nat \<Rightarrow> 'w Proc \<Rightarrow> 'w Proc option" where
  "reap_loop os 0 p = None"
| "reap_loop os (Suc n) p = (case os_reap os (p_world p) of
     (None, w) \<Rightarrow> Some (p\<lparr>p_world := w\<rparr>)
   | (Some (pid, status), w) \<Rightarrow>
       if pid > 0 then reap_loop os n (p\<lparr>p_world := w, p_jobs := fst (jobs_update (p_jobs p) pid status)\<rparr>)
       else Some (p\<lparr>p_world := w\<rparr>))"

definition reap_jobs :: "'w Os \<Rightarrow> nat \<Rightarrow> 'w Proc \<Rightarrow> 'w Proc option" where
  "reap_jobs os n p =
     (let q = poll_signals os p; (fired, s) = signals_chld_take (p_sig q); q = q\<lparr>p_sig := s\<rparr>
      in if \<not> fired then Some q
         else do {
           r \<leftarrow> reap_loop os n q;
           let (out, tb) = jobs_reap_notify (p_jobs r);
           Some (put_out out (r\<lparr>p_jobs := tb\<rparr>))
         })"

datatype FeedResult = FEED_MORE | FEED_RAN | FEED_BAD

definition feed :: "'w Os \<Rightarrow> nat \<Rightarrow> string \<Rightarrow> 'w Proc \<Rightarrow> (FeedResult \<times> 'w Proc) option" where
  "feed os n line p =
     (let (err, toks) = lexer_scan line
      in do {
        (err, tree) \<leftarrow> (if err = NSH_OK then parser_parse_program toks else Some (err, None));
        if err = NSH_ERR_INCOMPLETE then Some (FEED_MORE, p)
        else if err \<noteq> NSH_OK then Some (FEED_BAD, p)
        else (case tree of
            None \<Rightarrow> Some (FEED_RAN, p)
          | Some t \<Rightarrow> do {
              (res, q) \<leftarrow> eval_run os n (Some t) p;
              Some (FEED_RAN, if res \<noteq> NSH_OK then put_err (nullsh_line (nsh_error_str res)) q else q)
            })
      })"

definition syntax_error :: "'w Proc \<Rightarrow> 'w Proc" where
  "syntax_error p = (put_err (nullsh_line ''syntax error'') p)\<lparr>last_status := STATUS_SYNTAX\<rparr>"

definition unexpected_eof :: "'w Proc \<Rightarrow> 'w Proc" where
  "unexpected_eof p = (put_err (nullsh_line ''syntax error: unexpected end of file'') p)\<lparr>last_status := STATUS_SYNTAX\<rparr>"

definition read_error :: "'w Proc \<Rightarrow> 'w Proc" where
  "read_error p = (put_err (nullsh_line ''read error on input'') p)\<lparr>last_status := 1\<rparr>"

text \<open>Both loops: the line joins the text behind a newline when a construct is open.\<close>

definition join_line :: "(nat \<Rightarrow> char) \<Rightarrow> bool \<Rightarrow> Str \<Rightarrow> Str \<Rightarrow> Str option" where
  "join_line junk going buf line = do {
     b \<leftarrow> (if going then str_push junk buf NEWLINE else Some buf);
     s \<leftarrow> str_live line;
     str_append_n junk b s
   }"

definition record_line :: "Str \<Rightarrow> 'w Proc \<Rightarrow> 'w Proc" where
  "record_line line p = p\<lparr>sh_history := history_add (sh_history p) (Some (str_as_cstring line))\<rparr>"

section \<open>The drivers\<close>

fun interactive_loop ::
  "'w Os \<Rightarrow> (nat \<Rightarrow> char) \<Rightarrow> nat \<Rightarrow> nat \<Rightarrow> bool \<Rightarrow> Str \<Rightarrow> Str \<Rightarrow> 'w Proc \<Rightarrow> 'w Proc option" where
  "interactive_loop os junk n 0 going line buf p = None"
| "interactive_loop os junk n (Suc k) going line buf p = do {
     (ps, p1) \<leftarrow> (if going then Some (PS2, p)
                 else do { q \<leftarrow> reap_jobs os n p; Some (prompt_build os q) });
     (err, out, p2) \<leftarrow> edit_read_line os junk n (Some ps) (Some line) p1;
     line1 \<leftarrow> out;
     if err = NSH_EOF then
       (let p3 = fflush (put_out [NEWLINE] p2)
        in if \<not> going then Some p3
           else do { b \<leftarrow> str_clear buf; interactive_loop os junk n k False line1 b (unexpected_eof p3) })
     else if err = NSH_INTERRUPT then do { b \<leftarrow> str_clear buf; interactive_loop os junk n k False line1 b p2 }
     else if err \<noteq> NSH_OK then Some (read_error p2)
     else if s_len line1 = 0 \<and> \<not> going then interactive_loop os junk n k going line1 buf p2
     else do {
       let p3 = (if s_len line1 > 0 then record_line line1 p2 else p2);
       b \<leftarrow> join_line junk going buf line1;
       (r, p4) \<leftarrow> feed os n (str_as_cstring b) p3;
       if r = FEED_MORE then interactive_loop os junk n k True line1 b p4
       else do {
         let p5 = (if r = FEED_BAD then syntax_error p4 else p4);
         b1 \<leftarrow> str_clear b;
         if want_exit p5 then Some p5 else interactive_loop os junk n k False line1 b1 p5
       }
     }
   }"

definition run_interactive :: "'w Os \<Rightarrow> (nat \<Rightarrow> char) \<Rightarrow> nat \<Rightarrow> nat \<Rightarrow> 'w Proc \<Rightarrow> (NshError \<times> 'w Proc) option" where
  "run_interactive os junk n k p =
     map_option (\<lambda>q. (NSH_OK, q)) (interactive_loop os junk n k False (str_init junk) (str_init junk) p)"

fun stream_loop ::
  "'w Os \<Rightarrow> (nat \<Rightarrow> char) \<Rightarrow> nat \<Rightarrow> nat \<Rightarrow> bool \<Rightarrow> bool \<Rightarrow> Str \<Rightarrow> Str \<Rightarrow> FILE \<Rightarrow> 'w Proc
     \<Rightarrow> 'w Proc option" where
  "stream_loop os junk n 0 record_it going line buf fp p = None"
| "stream_loop os junk n (Suc k) record_it going line buf fp p = do {
     p1 \<leftarrow> (if going then Some p else reap_jobs os n p);
     (err, fp1, line1) \<leftarrow> line_read junk fp line;
     if err = NSH_EOF then Some (if going then unexpected_eof p1 else p1)
     else if err \<noteq> NSH_OK then Some (read_error p1)
     else if s_len line1 = 0 \<and> \<not> going then stream_loop os junk n k record_it going line1 buf fp1 p1
     else do {
       let p2 = (if record_it \<and> s_len line1 > 0 then record_line line1 p1 else p1);
       b \<leftarrow> join_line junk going buf line1;
       (r, p3) \<leftarrow> feed os n (str_as_cstring b) p2;
       if r = FEED_MORE then stream_loop os junk n k record_it True line1 b fp1 p3
       else if r = FEED_BAD then Some (syntax_error p3)
       else do {
         b1 \<leftarrow> str_clear b;
         if want_exit p3 then Some p3 else stream_loop os junk n k record_it False line1 b1 fp1 p3
       }
     }
   }"

definition run_stream ::
  "'w Os \<Rightarrow> (nat \<Rightarrow> char) \<Rightarrow> nat \<Rightarrow> nat \<Rightarrow> bool \<Rightarrow> FILE \<Rightarrow> 'w Proc \<Rightarrow> (NshError \<times> 'w Proc) option" where
  "run_stream os junk n k is_stdin fp p =
     map_option (\<lambda>q. (NSH_OK, q)) (stream_loop os junk n k is_stdin False (str_init junk) (str_init junk) fp p)"

section \<open>\<open>main\<close>\<close>

definition HISTORY_CAP :: nat where "HISTORY_CAP = 1000"
definition HISTORY_FILE :: string where "HISTORY_FILE = ''/.nullsh_history''"
definition EXIT_NO_SCRIPT :: int where "EXIT_NO_SCRIPT = 127"
definition TTY_FD_MIN :: nat where "TTY_FD_MIN = 10"

definition self_argv :: "string option list" where "self_argv = [Some ''nullsh'', None]"

definition history_path :: "'w Proc \<Rightarrow> string option" where
  "history_path p = (case getenv (p_env p) ''HOME'' of
     None \<Rightarrow> None
   | Some home \<Rightarrow> if home = [] then None else Some (home @ HISTORY_FILE))"

text \<open>
  What the surroundings answer at the start: whether descriptor 0 is a terminal, the group and
  the process id, standard input, the contents of an opened script, and what \<open>fopen\<close> says of
  the history file for reading and for writing.
\<close>

record Start =
  su_isatty :: bool
  su_pgrp :: int
  su_pid :: int
  su_stdin :: FILE
  su_script :: FILE
  su_hist_read :: "string \<Rightarrow> OpenRead"
  su_hist_write :: "string \<Rightarrow> OpenWrite"

definition shell_setup :: "'w Os \<Rightarrow> Start \<Rightarrow> bool \<Rightarrow> 'w Proc \<Rightarrow> 'w Proc" where
  "shell_setup os su may_prompt p =
     (let p1 = p\<lparr>p_sig := signals_install_shell (p_sig p), shell_pgid := su_pgrp su\<rparr>
      in if \<not> may_prompt \<or> \<not> su_isatty su then p1
         else (let p2 = p1\<lparr>interactive := True\<rparr>;
                   p3 = (case sys_dupfd 0 TTY_FD_MIN (p_fds p2) of
                           Inl _ \<Rightarrow> p2\<lparr>tty_fd := 0\<rparr>
                         | Inr (fd, t) \<Rightarrow> p2\<lparr>tty_fd := int fd, p_fds := t\<rparr>);
                   (e, w) = os_setpgid os 0 0 (p_world p3);
                   p4 = (if e = 0 then p3\<lparr>p_world := w, shell_pgid := su_pid su\<rparr> else p3\<lparr>p_world := w\<rparr>);
                   (e, w) = os_tcsetpgrp os (tty_fd p4) (shell_pgid p4) (p_world p4);
                   p5 = p4\<lparr>p_world := w\<rparr>
               in if e = 0 then p5\<lparr>p_tty := shell_pgid p5\<rparr>
                  else put_err (nullsh_line (''tcsetpgrp: '' @ os_strerror os e)) p5))"

text \<open>Status, the bytes written to the history file if it was saved, and the process.\<close>

definition leave_shell ::
  "Start \<Rightarrow> string option \<Rightarrow> 'w Proc \<Rightarrow> int \<times> string option \<times> 'w Proc" where
  "leave_shell su hist_file p =
     (let (saved, p1) = (case hist_file of
            None \<Rightarrow> (None, p)
          | Some path \<Rightarrow> (let (err, bytes) = history_save (sh_history p) (Some (su_hist_write su path))
              in (Some bytes, if err \<noteq> NSH_OK
                              then put_err (nullsh_line (''could not save history to '' @ path)) p else p)));
          p2 = p1\<lparr>sh_history := history_free (sh_history p1), p_funcs := func_free_all (p_funcs p1),
                  p_jobs := jobs_free_all (p_jobs p1)\<rparr>
      in (if want_exit p2 then exit_code p2 else last_status p2, saved, fflush p2))"

definition main ::
  "'w Os \<Rightarrow> Start \<Rightarrow> (nat \<Rightarrow> char) \<Rightarrow> nat \<Rightarrow> nat \<Rightarrow> string list \<Rightarrow> 'w Proc
     \<Rightarrow> (int \<times> string option \<times> 'w Proc) option" where
  "main os su junk n k argv p =
     (let p0 = p\<lparr>tty_fd := -1, p_jobs := jobs_init (p_jobs p)\<rparr>
      in if length argv > 1 then
           (case sys_open os (argv ! 1) [O_RDONLY] p0 of
              (Inl e, p1) \<Rightarrow>
                Some (EXIT_NO_SCRIPT, None, fflush (put_err (nullsh_line (argv ! 1 @ '': '' @ os_strerror os e)) p1))
            | (Inr fd, p1) \<Rightarrow> do {
                let p2 = shell_setup os su False
                       (p1\<lparr>sh_argc := int (length argv) - 1, sh_argv := Some (map Some (tl argv) @ [None])\<rparr>);
                let p3 = p2\<lparr>sh_history := snd (history_init (sh_history p2) HISTORY_CAP)\<rparr>;
                (_, p4) \<leftarrow> run_stream os junk n k False (su_script su) p3;
                let p5 = (case sys_close fd (p_fds p4) of Some t \<Rightarrow> p4\<lparr>p_fds := t\<rparr> | None \<Rightarrow> p4);
                Some (leave_shell su None p5)
              })
         else do {
           let p2 = shell_setup os su True (p0\<lparr>sh_argc := 1, sh_argv := Some self_argv\<rparr>);
           let p3 = p2\<lparr>sh_history := snd (history_init (sh_history p2) HISTORY_CAP)\<rparr>;
           let hist_file = history_path p3;
           let p4 = (case hist_file of None \<Rightarrow> p3
                  | Some path \<Rightarrow> p3\<lparr>sh_history := snd (history_load junk (sh_history p3) (Some (su_hist_read su path)))\<rparr>);
           (_, p5) \<leftarrow> (if interactive p4 then run_interactive os junk n k p4
                      else run_stream os junk n k True (su_stdin su) p4);
           Some (leave_shell su hist_file p5)
         })"

end
