(* ===== verification/Edit_Props.thy ===== *)
theory Edit_Props
  imports Edit
begin

text \<open>
  Properties of the line editor: an abstract editor over two halves of a line, and the proof
  that the code with its \<open>memmove\<close>s implements it.
\<close>

section \<open>The buffer as a zipper\<close>

type_synonym zipper = "string \<times> string"

definition edit_ok :: "EditLine \<Rightarrow> bool" where
  "edit_ok e \<longleftrightarrow> str_ok (e_buf e) \<and> e_cursor e \<le> s_len (e_buf e)"

definition zip_of :: "EditLine \<Rightarrow> zipper" where
  "zip_of e = (take (e_cursor e) (str_bytes (e_buf e)), drop (e_cursor e) (str_bytes (e_buf e)))"

text \<open>A good \<open>Str\<close>: its bytes, the terminator, and the rest of the array.\<close>

lemma str_split:
  assumes "str_ok s"
  shows "\<exists>rest. s_data s = Some (str_bytes s @ NUL # rest) \<and> s_len s = length (str_bytes s)
    \<and> s_cap s = length (str_bytes s @ NUL # rest)"
proof -
  from assms obtain d where d: "s_data s = Some d" "length d = s_cap s" "s_len s < s_cap s" "d ! s_len s = NUL"
    by (auto simp: str_ok_def)
  then have "d = take (s_len s) d @ NUL # drop (Suc (s_len s)) d" by (metis id_take_nth_drop)
  with d show ?thesis by (intro exI [of _ "drop (Suc (s_len s)) d"]) (auto simp: str_bytes_def)
qed

lemma strI:
  assumes "s_data s = Some (b @ NUL # rest)" "s_len s = length b" "s_cap s = length (b @ NUL # rest)"
  shows "str_ok s \<and> str_bytes s = b"
  using assms by (simp add: str_ok_def str_bytes_def nth_append)

lemma memmove_down:
  "memmove (l @ m @ t @ rest) (length l) (length l + length m) (length t)
     = Some (l @ t @ drop (length t) (m @ t) @ rest)"
  by (simp add: memmove_def slice_def blit_def)

lemma memmove_up:
  "memmove (l @ r @ c # rest) (Suc (length l)) (length l) (length r) = Some (l @ hd (r @ [c]) # r @ rest)"
  by (cases r) (simp_all add: memmove_def slice_def blit_def)

text \<open>A good line: the two halves around the cursor.\<close>

lemma edit_split:
  assumes "edit_ok e" and "zip_of e = (l, r)"
  shows "\<exists>rest. s_data (e_buf e) = Some (l @ r @ NUL # rest) \<and> s_len (e_buf e) = length l + length r
    \<and> s_cap (e_buf e) = length (l @ r @ NUL # rest) \<and> e_cursor e = length l \<and> str_bytes (e_buf e) = l @ r"
proof -
  from assms(1) have ok: "str_ok (e_buf e)" "e_cursor e \<le> s_len (e_buf e)" by (simp_all add: edit_ok_def)
  from str_split [OF ok(1)] obtain rest where
    b: "s_data (e_buf e) = Some (str_bytes (e_buf e) @ NUL # rest)" "s_len (e_buf e) = length (str_bytes (e_buf e))"
    "s_cap (e_buf e) = length (str_bytes (e_buf e) @ NUL # rest)" by blast
  have z: "str_bytes (e_buf e) = l @ r" "e_cursor e = length l"
    using assms(2) ok(2) b(2) by (auto simp: zip_of_def)
  with b show ?thesis by simp
qed

lemma editI:
  assumes "s_data (e_buf e) = Some (l @ r @ NUL # rest)" "s_len (e_buf e) = length l + length r"
    "s_cap (e_buf e) = length (l @ r @ NUL # rest)" "e_cursor e = length l"
  shows "edit_ok e \<and> zip_of e = (l, r)"
  using strI [of "e_buf e" "l @ r" rest] assms by (simp add: edit_ok_def zip_of_def)

lemma edit_init_ok: "edit_ok (edit_init junk) \<and> zip_of (edit_init junk) = ([], [])"
  by (simp add: edit_init_def edit_ok_def zip_of_def)

lemma edit_insert_zip:
  assumes "edit_ok e" and "zip_of e = (l, r)"
  shows "\<exists>e'. edit_insert junk e c = Some e' \<and> edit_ok e' \<and> zip_of e' = (l @ [c], r)"
proof -
  obtain rest where e: "s_len (e_buf e) = length l + length r" "e_cursor e = length l" "str_bytes (e_buf e) = l @ r"
    using edit_split [OF assms] by blast
  obtain b where b: "str_push junk (e_buf e) c = Some b" "str_ok b" "str_bytes b = l @ r @ [c]"
    using str_push_ok [of "e_buf e" junk c] assms(1) e(3) by (auto simp: edit_ok_def)
  from str_split [OF b(2)] b(3) obtain rest where
    d: "s_data b = Some (l @ r @ c # NUL # rest)" "s_len b = Suc (length l + length r)"
    "s_cap b = length (l @ r @ c # NUL # rest)" by auto
  have "memmove (l @ r @ c # NUL # rest) (length l + 1) (length l) (s_len b - length l - 1)
      = Some (l @ hd (r @ [c]) # r @ NUL # rest)"
    using memmove_up [of l r c "NUL # rest"] d(2) by simp
  then have "edit_insert junk e c = Some (e\<lparr>e_buf := b\<lparr>s_data := Some (l @ c # r @ NUL # rest)\<rparr>, e_cursor := length l + 1\<rparr>)"
    using e b d by (simp add: edit_insert_def wr_def)
  moreover have "edit_ok (e\<lparr>e_buf := b\<lparr>s_data := Some (l @ c # r @ NUL # rest)\<rparr>, e_cursor := length l + 1\<rparr>) \<and>
      zip_of (e\<lparr>e_buf := b\<lparr>s_data := Some (l @ c # r @ NUL # rest)\<rparr>, e_cursor := length l + 1\<rparr>) = (l @ [c], r)"
    by (rule editI [of _ _ _ rest]) (use d in simp_all)
  ultimately show ?thesis by blast
qed

text \<open>All deletions close a gap: the right part and the terminator move down over it.\<close>

definition close_gap :: "EditLine \<Rightarrow> nat \<Rightarrow> nat \<Rightarrow> nat \<Rightarrow> EditLine option" where
  "close_gap e dst src cur = do {
     d \<leftarrow> s_data (e_buf e);
     d1 \<leftarrow> memmove d dst src (s_len (e_buf e) - src + 1);
     Some (e\<lparr>e_buf := (e_buf e)\<lparr>s_data := Some d1, s_len := s_len (e_buf e) - (src - dst)\<rparr>, e_cursor := cur\<rparr>)
   }"

lemma close_gap_zip:
  assumes "edit_ok e" and "str_bytes (e_buf e) = l @ m @ r"
  shows "\<exists>e'. close_gap e (length l) (length l + length m) (length l) = Some e' \<and> edit_ok e' \<and> zip_of e' = (l, r)"
proof -
  from assms(1) have "str_ok (e_buf e)" by (simp add: edit_ok_def)
  from str_split [OF this] assms(2) obtain rest where
    d: "s_data (e_buf e) = Some (l @ m @ r @ NUL # rest)" "s_len (e_buf e) = length l + length m + length r"
    "s_cap (e_buf e) = length (l @ m @ r @ NUL # rest)" by auto
  let ?d = "l @ (r @ [NUL]) @ drop (length (r @ [NUL])) (m @ r @ [NUL]) @ rest"
  have "memmove (l @ m @ r @ NUL # rest) (length l) (length l + length m) (length r + 1) = Some ?d"
    using memmove_down [of l m "r @ [NUL]" rest] by simp
  then have "close_gap e (length l) (length l + length m) (length l)
      = Some (e\<lparr>e_buf := (e_buf e)\<lparr>s_data := Some ?d, s_len := length l + length r\<rparr>, e_cursor := length l\<rparr>)"
    using d by (simp add: close_gap_def)
  moreover have "edit_ok (e\<lparr>e_buf := (e_buf e)\<lparr>s_data := Some ?d, s_len := length l + length r\<rparr>, e_cursor := length l\<rparr>) \<and>
      zip_of (e\<lparr>e_buf := (e_buf e)\<lparr>s_data := Some ?d, s_len := length l + length r\<rparr>, e_cursor := length l\<rparr>) = (l, r)"
    by (rule editI [of _ _ _ "drop (length (r @ [NUL])) (m @ r @ [NUL]) @ rest"]) (use d in simp_all)
  ultimately show ?thesis by blast
qed


lemma edit_backspace_zip:
  assumes "edit_ok e" and "zip_of e = (l, r)"
  shows "\<exists>e'. edit_backspace e = Some e' \<and> edit_ok e' \<and> zip_of e' = (butlast l, r)"
proof (cases l rule: rev_cases)
  case Nil
  with edit_split [OF assms] assms show ?thesis by (auto simp: edit_backspace_def)
next
  case (snoc l' c)
  have e: "e_cursor e = length l' + 1" "str_bytes (e_buf e) = l' @ [c] @ r" "s_len (e_buf e) = length l' + 1 + length r"
    using edit_split [OF assms] snoc by auto
  have "edit_backspace e = close_gap e (length l') (length l' + length [c]) (length l')"
    using e by (simp add: edit_backspace_def close_gap_def)
  with close_gap_zip [OF assms(1) e(2)] snoc show ?thesis by simp
qed

lemma edit_delete_zip:
  assumes "edit_ok e" and "zip_of e = (l, r)"
  shows "\<exists>e'. edit_delete e = Some e' \<and> edit_ok e' \<and> zip_of e' = (l, tl r)"
proof (cases r)
  case Nil
  with edit_split [OF assms] assms show ?thesis by (auto simp: edit_delete_def)
next
  case (Cons c r')
  have e: "e_cursor e = length l" "str_bytes (e_buf e) = l @ [c] @ r'" "s_len (e_buf e) = length l + length r"
    using edit_split [OF assms] Cons by auto
  have "edit_delete e = close_gap e (length l) (length l + length [c]) (length l)"
    using e Cons by (cases e) (simp add: edit_delete_def close_gap_def)
  with close_gap_zip [OF assms(1) e(2)] Cons show ?thesis by simp
qed

lemma edit_kill_to_start_zip:
  assumes "edit_ok e" and "zip_of e = (l, r)"
  shows "\<exists>e'. edit_kill_to_start e = Some e' \<and> edit_ok e' \<and> zip_of e' = ([], r)"
proof (cases "l = []")
  case True
  with edit_split [OF assms] assms show ?thesis by (auto simp: edit_kill_to_start_def)
next
  case False
  have e: "e_cursor e = length l" "str_bytes (e_buf e) = [] @ l @ r"
    using edit_split [OF assms] by auto
  have "edit_kill_to_start e = close_gap e (length []) (length [] + length l) (length [])"
    using e False by (simp add: edit_kill_to_start_def close_gap_def)
  with close_gap_zip [OF assms(1) e(2)] show ?thesis by simp
qed

lemma edit_kill_to_end_zip:
  assumes "edit_ok e" and "zip_of e = (l, r)"
  shows "\<exists>e'. edit_kill_to_end e = Some e' \<and> edit_ok e' \<and> zip_of e' = (l, [])"
proof -
  obtain rest where e: "s_data (e_buf e) = Some (l @ r @ NUL # rest)" "s_len (e_buf e) = length l + length r"
    "s_cap (e_buf e) = length (l @ r @ NUL # rest)" "e_cursor e = length l"
    using edit_split [OF assms] by blast
  show ?thesis
  proof (cases r)
    case Nil
    with e assms show ?thesis by (simp add: edit_kill_to_end_def)
  next
    case (Cons c r')
    let ?b = "(e_buf e)\<lparr>s_data := Some (l @ NUL # r' @ NUL # rest), s_len := length l\<rparr>"
    have "edit_kill_to_end e = Some (e\<lparr>e_buf := ?b\<rparr>)"
      using e Cons by (simp add: edit_kill_to_end_def wr_def)
    moreover have "edit_ok (e\<lparr>e_buf := ?b\<rparr>) \<and> zip_of (e\<lparr>e_buf := ?b\<rparr>) = (l, [])"
      by (rule editI [of _ _ _ "r' @ NUL # rest"]) (use e Cons in simp_all)
    ultimately show ?thesis by blast
  qed
qed

text \<open>The word left of the cursor.\<close>

lemma back_over_spec:
  "back_over P (l @ t) (length l) = Some (length (rev (dropWhile P (rev l))))"
proof (induction l arbitrary: t rule: rev_induct)
  case (snoc c l)
  from snoc.IH [of "c # t"] show ?case by (simp add: rd_def nth_append)
qed simp

definition word_start :: "string \<Rightarrow> string" where
  "word_start l = rev (dropWhile (\<lambda>c. \<not> is_blank c) (dropWhile is_blank (rev l)))"

lemma prefix_dropWhile: "\<exists>m. l = rev (dropWhile P (rev l)) @ m"
  by (metis rev_append rev_rev_ident takeWhile_dropWhile_id)

lemma edit_kill_word_left_zip:
  assumes "edit_ok e" and "zip_of e = (l, r)"
  shows "\<exists>e'. edit_kill_word_left e = Some e' \<and> edit_ok e' \<and> zip_of e' = (word_start l, r)"
proof -
  obtain rest where e: "s_data (e_buf e) = Some (l @ r @ NUL # rest)" "e_cursor e = length l"
    "str_bytes (e_buf e) = l @ r" using edit_split [OF assms] by blast
  let ?l1 = "rev (dropWhile is_blank (rev l))"
  obtain m1 where m1: "l = ?l1 @ m1" using prefix_dropWhile by blast
  obtain m2 where m2: "?l1 = word_start l @ m2"
    using prefix_dropWhile [of ?l1 "\<lambda>c. \<not> is_blank c"] by (auto simp: word_start_def)
  have l: "l = word_start l @ m2 @ m1" using m1 m2 by simp
  have i1: "back_over is_blank (l @ r @ NUL # rest) (length l) = Some (length ?l1)" by (rule back_over_spec)
  have "back_over (\<lambda>c. \<not> is_blank c) (?l1 @ m1 @ r @ NUL # rest) (length ?l1) = Some (length (word_start l))"
    using back_over_spec [of _ ?l1] by (simp add: word_start_def)
  then have i2: "back_over (\<lambda>c. \<not> is_blank c) (l @ r @ NUL # rest) (length ?l1) = Some (length (word_start l))"
    using m1 by (metis append.assoc)
  show ?thesis
  proof (cases "length (word_start l) = length l")
    case True
    with l have "word_start l = l" by (metis append_Nil2 append_eq_append_conv)
    with e i1 i2 assms show ?thesis by (simp add: edit_kill_word_left_def)
  next
    case False
    have b: "str_bytes (e_buf e) = word_start l @ (m2 @ m1) @ r" using e(3) l by (metis append.assoc)
    have len: "length (word_start l) + length (m2 @ m1) = length l" using l by (metis length_append)
    have "edit_kill_word_left e = close_gap e (length (word_start l)) (length (word_start l) + length (m2 @ m1)) (length (word_start l))"
      unfolding len using e i1 i2 False by (simp add: edit_kill_word_left_def close_gap_def)
    with close_gap_zip [OF assms(1) b] show ?thesis by simp
  qed
qed

lemma edit_set_zip:
  assumes "edit_ok e"
  shows "\<exists>e'. edit_set junk e line = Some e' \<and> edit_ok e'
    \<and> zip_of e' = (case line of None \<Rightarrow> [] | Some s \<Rightarrow> cstr s, [])"
proof -
  from assms have "str_ok (e_buf e)" by (simp add: edit_ok_def)
  then obtain b where b: "str_clear (e_buf e) = Some b" "str_ok b" "str_bytes b = []" using str_clear_ok by blast
  have len: "s_len x = length (str_bytes x)" if "str_ok x" for x using str_split [OF that] by blast
  show ?thesis
  proof (cases line)
    case None
    with b len [OF b(2)] show ?thesis by (simp add: edit_set_def edit_ok_def zip_of_def)
  next
    case (Some s)
    obtain b1 where "str_append junk b s = Some b1" "str_ok b1" "str_bytes b1 = str_bytes b @ cstr s"
      using str_append_ok [OF b(2)] by blast
    with b Some len [of b1] show ?thesis by (simp add: edit_set_def edit_ok_def zip_of_def)
  qed
qed

lemma edit_moves_zip:
  assumes "edit_ok e" and "zip_of e = (l, r)"
  shows "edit_ok (edit_left e) \<and> zip_of (edit_left e) = (butlast l, if l = [] then r else last l # r)"
    and "edit_ok (edit_right e) \<and> zip_of (edit_right e) = (if r = [] then l else l @ [hd r], tl r)"
    and "edit_ok (edit_home e) \<and> zip_of (edit_home e) = ([], l @ r)"
    and "edit_ok (edit_end e) \<and> zip_of (edit_end e) = (l @ r, [])"
proof -
  have ok: "str_ok (e_buf e)" using assms(1) by (simp add: edit_ok_def)
  have e: "s_len (e_buf e) = length l + length r" "e_cursor e = length l" "str_bytes (e_buf e) = l @ r"
    using edit_split [OF assms] by auto
  show "edit_ok (edit_left e) \<and> zip_of (edit_left e) = (butlast l, if l = [] then r else last l # r)"
  proof (cases l rule: rev_cases)
    case Nil
    with ok e show ?thesis by (simp add: edit_left_def edit_ok_def zip_of_def)
  next
    case (snoc l' c)
    with ok e show ?thesis by (simp add: edit_left_def edit_ok_def zip_of_def)
  qed
  show "edit_ok (edit_right e) \<and> zip_of (edit_right e) = (if r = [] then l else l @ [hd r], tl r)"
    using ok e by (cases r) (auto simp: edit_right_def edit_ok_def zip_of_def)
  show "edit_ok (edit_home e) \<and> zip_of (edit_home e) = ([], l @ r)"
    using ok e by (simp add: edit_home_def edit_ok_def zip_of_def)
  show "edit_ok (edit_end e) \<and> zip_of (edit_end e) = (l @ r, [])"
    using ok e by (simp add: edit_end_def edit_ok_def zip_of_def)
qed


section \<open>The abstract editor\<close>

text \<open>
  A line as its two halves around the cursor, the position in the history, and the line put
  aside by the first step up. \<open>editor_key\<close> is what a key means; \<open>editor\<close> runs the bytes typed.
\<close>

type_synonym editor = "zipper \<times> nat \<times> string"

definition entry :: "History \<Rightarrow> nat \<Rightarrow> string" where
  "entry h i = (case history_get h i of None \<Rightarrow> [] | Some s \<Rightarrow> cstr s)"

fun editor_key :: "History \<Rightarrow> EditKey \<Rightarrow> char \<Rightarrow> editor \<Rightarrow> NshError option \<times> editor" where
  "editor_key h EK_CHAR ch ((l, r), hs) = (None, ((l @ [ch], r), hs))"
| "editor_key h EK_BACKSPACE ch ((l, r), hs) = (None, ((butlast l, r), hs))"
| "editor_key h EK_DELETE ch ((l, r), hs) = (None, ((l, tl r), hs))"
| "editor_key h EK_LEFT ch ((l, r), hs) = (None, ((butlast l, if l = [] then r else last l # r), hs))"
| "editor_key h EK_RIGHT ch ((l, r), hs) = (None, ((if r = [] then l else l @ [hd r], tl r), hs))"
| "editor_key h EK_HOME ch ((l, r), hs) = (None, (([], l @ r), hs))"
| "editor_key h EK_END ch ((l, r), hs) = (None, ((l @ r, []), hs))"
| "editor_key h EK_KILL_END ch ((l, r), hs) = (None, ((l, []), hs))"
| "editor_key h EK_KILL_START ch ((l, r), hs) = (None, (([], r), hs))"
| "editor_key h EK_KILL_WORD ch ((l, r), hs) = (None, ((word_start l, r), hs))"
| "editor_key h EK_UP ch ((l, r), i, st) =
     (None, if i = 0 then ((l, r), i, st)
            else ((entry h (i - 1), []), i - 1, if i = history_count h then l @ r else st))"
| "editor_key h EK_DOWN ch ((l, r), i, st) =
     (None, if i \<ge> history_count h then ((l, r), i, st)
            else ((if i + 1 = history_count h then cstr st else entry h (i + 1), []), i + 1, st))"
| "editor_key h EK_ENTER ch (z, hs) = (Some NSH_OK, (z, hs))"
| "editor_key h EK_INTERRUPT ch (z, hs) = (Some NSH_INTERRUPT, (([], []), hs))"
| "editor_key h EK_EOF ch ((l, r), hs) =
     (if l @ r = [] then (Some NSH_EOF, ((l, r), hs)) else (None, ((l, tl r), hs)))"
| "editor_key h EK_NONE ch (z, hs) = (None, (z, hs))"

fun editor_run :: "History \<Rightarrow> EditKeys \<Rightarrow> editor \<Rightarrow> string \<Rightarrow> NshError \<times> string \<times> string" where
  "editor_run h k a [] = (NSH_EOF, [], [])"
| "editor_run h k a (b # bs) = (case editkeys_feed k b of
     None \<Rightarrow> (NSH_ERR_INVALID, [], bs)
   | Some (key, ch, k1) \<Rightarrow>
       if key = EK_NONE then editor_run h k1 a bs
       else (case editor_key h key (case ch of Some c \<Rightarrow> c | None \<Rightarrow> NUL) a of
           (Some err, ((l, r), hs)) \<Rightarrow> (err, l @ r, bs)
         | (None, a1) \<Rightarrow> editor_run h k1 a1 bs))"

definition editor_start :: "History \<Rightarrow> editor" where
  "editor_start h = (([], []), history_count h, [])"

text \<open>The decoder never leaves its array.\<close>

definition keys_ok :: "EditKeys \<Rightarrow> bool" where
  "keys_ok k \<longleftrightarrow> length (k_pending k) = 8 \<and> k_npending k \<le> 8"

lemma feed_ground_ok: "keys_ok k \<Longrightarrow> keys_ok (snd (snd (feed_ground k b)))"
  by (simp add: feed_ground_def keys_ok_def)

lemma editkeys_feed_ok:
  assumes "keys_ok k" shows "\<exists>key ch k1. editkeys_feed k b = Some (key, ch, k1) \<and> keys_ok k1"
proof -
  have g: "\<exists>key ch k1. feed_ground k' b = (key, ch, k1) \<and> keys_ok k1" if "keys_ok k'" for k'
    using feed_ground_ok [OF that, of b] by (cases "feed_ground k' b") auto
  show ?thesis
  proof (cases "k_state k")
    case KS_ESC
    with assms g [of "k\<lparr>k_state := KS_GROUND\<rparr>"] show ?thesis by (auto simp: editkeys_feed_def keys_ok_def)
  qed (use assms g [OF assms] in \<open>auto simp: editkeys_feed_def keys_ok_def wr_def rd_def tilde_key_def\<close>)
qed

section \<open>The code implements it\<close>

definition recall_ok :: "Recall \<Rightarrow> bool" where
  "recall_ok r \<longleftrightarrow> r_count r = history_count (r_h r) \<and> r_idx r \<le> r_count r \<and> str_ok (r_stash r)"

definition editor_of :: "Recall \<Rightarrow> EditLine \<Rightarrow> editor" where
  "editor_of r e = (zip_of e, r_idx r, str_bytes (r_stash r))"

lemma str_live_ok: "str_ok s \<Longrightarrow> str_live s = Some (str_bytes s)"
  using str_split [of s] by (auto simp: str_live_def slice_def)

lemma edit_bytes: "edit_ok e \<Longrightarrow> zip_of e = (l, r) \<Longrightarrow> str_bytes (e_buf e) = l @ r"
  using edit_split by blast

lemma recall_up_spec:
  assumes "edit_ok e" "recall_ok r" "zip_of e = (x, y)"
  shows "\<exists>r' e'. recall_up junk r e = Some (r', e') \<and> edit_ok e' \<and> recall_ok r' \<and> r_h r' = r_h r
    \<and> editor_of r' e' = snd (editor_key (r_h r) EK_UP ch (editor_of r e))"
proof (cases "r_idx r = 0")
  case True
  with assms show ?thesis by (simp add: recall_up_def editor_of_def)
next
  case False
  have ok: "str_ok (e_buf e)" "str_ok (r_stash r)" using assms by (simp_all add: edit_ok_def recall_ok_def)
  obtain b where b: "str_clear (r_stash r) = Some b" "str_ok b" "str_bytes b = []" using str_clear_ok [OF ok(2)] by blast
  obtain s where s: "(if r_idx r = r_count r then str_append_n junk b (x @ y) else Some (r_stash r)) = Some s" "str_ok s"
    "str_bytes s = (if r_idx r = r_count r then x @ y else str_bytes (r_stash r))"
    using str_append_n_ok [OF b(2), of junk "x @ y"] b(3) ok(2) by (cases "r_idx r = r_count r") auto
  obtain e' where e': "edit_set junk e (history_get (r_h r) (r_idx r - 1)) = Some e'" "edit_ok e'"
    "zip_of e' = (entry (r_h r) (r_idx r - 1), [])"
    using edit_set_zip [OF assms(1)] unfolding entry_def by blast
  have st: "(if r_idx r = r_count r then do { b \<leftarrow> str_clear (r_stash r); s \<leftarrow> str_live (e_buf e); str_append_n junk b s }
      else Some (r_stash r)) = Some s"
    using s(1) b(1) str_live_ok [OF ok(1)] edit_bytes [OF assms(1,3)] by (simp split: if_splits)
  have "recall_up junk r e = Some (r\<lparr>r_stash := s, r_idx := r_idx r - 1\<rparr>, e')"
    unfolding recall_up_def st using False e'(1) by simp
  with False e' s assms show ?thesis by (auto simp: recall_ok_def editor_of_def)
qed

lemma recall_down_spec:
  assumes "edit_ok e" "recall_ok r" "zip_of e = (x, y)"
  shows "\<exists>r' e'. recall_down junk r e = Some (r', e') \<and> edit_ok e' \<and> recall_ok r' \<and> r_h r' = r_h r
    \<and> editor_of r' e' = snd (editor_key (r_h r) EK_DOWN ch (editor_of r e))"
proof (cases "r_idx r \<ge> r_count r")
  case True
  with assms show ?thesis by (simp add: recall_down_def editor_of_def recall_ok_def)
next
  case False
  have ok: "str_ok (r_stash r)" using assms by (simp add: recall_ok_def)
  obtain d where d: "s_data (r_stash r) = Some d" "cstr d = cstr (str_bytes (r_stash r))"
    using str_as_cstring_ok [OF ok] ok by (auto simp: str_as_cstring_def str_ok_def)
  let ?t = "if r_idx r + 1 = r_count r then s_data (r_stash r) else history_get (r_h r) (r_idx r + 1)"
  obtain e' where e': "edit_set junk e ?t = Some e'" "edit_ok e'"
    "zip_of e' = (if r_idx r + 1 = r_count r then cstr (str_bytes (r_stash r)) else entry (r_h r) (r_idx r + 1), [])"
    using edit_set_zip [OF assms(1), of junk ?t] d by (auto simp: entry_def)
  have "recall_down junk r e = Some (r\<lparr>r_idx := r_idx r + 1\<rparr>, e')"
    using False e'(1) by (cases "r_idx r + 1 = r_count r") (auto simp: recall_down_def Let_def)
  with False e' assms show ?thesis by (simp add: recall_ok_def editor_of_def)
qed

lemma apply_key_spec:
  assumes "edit_ok e" "recall_ok r"
  shows "\<exists>r' e'. apply_key junk key ch e r = Some (fst (editor_key (r_h r) key ch (editor_of r e)), r', e')
    \<and> edit_ok e' \<and> recall_ok r' \<and> r_h r' = r_h r
    \<and> editor_of r' e' = snd (editor_key (r_h r) key ch (editor_of r e))"
proof -
  obtain x y where z: "zip_of e = (x, y)" by fastforce
  note ops = edit_insert_zip [OF assms(1) z, of junk ch] edit_backspace_zip [OF assms(1) z] edit_delete_zip [OF assms(1) z]
    edit_kill_to_end_zip [OF assms(1) z] edit_kill_to_start_zip [OF assms(1) z] edit_kill_word_left_zip [OF assms(1) z]
    edit_set_zip [OF assms(1), of junk None]
  note moves = edit_moves_zip [OF assms(1) z]
  have len: "s_len (e_buf e) = 0 \<longleftrightarrow> x @ y = []" using edit_split [OF assms(1) z] by auto
  show ?thesis
  proof (cases key)
    case EK_UP
    with recall_up_spec [OF assms z, of junk ch] show ?thesis by (auto simp: apply_key_def editor_of_def z)
  next
    case EK_DOWN
    with recall_down_spec [OF assms z, of junk ch] show ?thesis by (auto simp: apply_key_def editor_of_def z)
  next
    case EK_EOF
    with ops(3) len assms show ?thesis by (cases "x @ y = []") (auto simp: apply_key_def editor_of_def z)
  qed (use ops moves assms in \<open>auto simp: apply_key_def editor_of_def z\<close>)
qed


section \<open>Reading a line from a terminal\<close>

text \<open>
  A terminal that works: it delivers the bytes typed one by one and then the end of the input,
  takes every write whole, and accepts every change of its settings.
\<close>

definition tty_serves :: "(string \<times> 'v) Os \<Rightarrow> bool" where
  "tty_serves os \<longleftrightarrow>
     (\<forall>b inp v. os_read os (b # inp, v) = (Inr (Some b), (inp, v))) \<and> (\<forall>v. os_read os ([], v) = (Inr None, ([], v)))
     \<and> (\<forall>s w. os_write os s w = (Inr (length s), w))
     \<and> (\<forall>w. os_tcgetattr os w = (0, w) \<and> os_getfl os w = (0, w))
     \<and> (\<forall>how t b w. os_tcsetattr os how t w = (0, w) \<and> os_setfl os b w = (0, w))"

lemma tty_simps:
  assumes "tty_serves os"
  shows "os_read os (b # inp, v) = (Inr (Some b), (inp, v))" "os_read os ([], v) = (Inr None, ([], v))"
    "os_write os s w = (Inr (length s), w)" "os_tcgetattr os w = (0, w)" "os_getfl os w = (0, w)"
    "os_tcsetattr os how t w = (0, w)" "os_setfl os x w = (0, w)"
  using assms unfolding tty_serves_def by blast+

lemma write_loop_whole: "tty_serves os \<Longrightarrow> s \<noteq> [] \<Longrightarrow> write_loop os (Suc n) s p = Some (0, wrote s p)"
  by (cases s) (simp_all add: tty_simps)

lemma redraw_whole:
  assumes "tty_serves os" "edit_ok e" shows "\<exists>s. redraw os (Suc n) prompt e p = Some (NSH_OK, wrote s p)"
proof -
  have "redraw_text a b c \<noteq> []" for a b c by (simp add: redraw_text_def Let_def)
  then show ?thesis
    using assms write_loop_whole [OF assms(1)] by (auto simp: redraw_def write_all_def edit_ok_def str_live_ok)
qed

lemma wrote_frame [simp]:
  "p_world (wrote s p) = p_world p" "p_term (wrote s p) = p_term p" "sh_history (wrote s p) = sh_history p"
  by (simp_all add: wrote_def)

lemma key_loop_runs_editor:
  assumes "tty_serves os"
  shows "edit_ok e \<Longrightarrow> recall_ok r \<Longrightarrow> keys_ok k \<Longrightarrow> p_world p = (bs, v) \<Longrightarrow> length bs + 2 \<le> n \<Longrightarrow>
    editor_run (r_h r) k (editor_of r e) bs = (err, line, rest) \<Longrightarrow>
    \<exists>e' q. key_loop os junk n prompt k r e p = Some (err, e', q) \<and> edit_ok e'
      \<and> p_world q = (rest, v) \<and> p_term q = p_term p \<and> (err = NSH_OK \<longrightarrow> str_bytes (e_buf e') = line)"
proof (induction bs arbitrary: n k r e p)
  case Nil
  then obtain m where n: "n = Suc (Suc m)" by (cases n; cases "n - 1") auto
  with Nil show ?case by (simp add: tty_simps [OF assms])
next
  case (Cons b bs)
  then obtain m where n: "n = Suc (Suc m)" "length bs + 2 \<le> Suc m" by (cases n; cases "n - 1") auto
  obtain key ch k1 where k1: "editkeys_feed k b = Some (key, ch, k1)" "keys_ok k1"
    using editkeys_feed_ok [OF Cons.prems(3)] by blast
  let ?p1 = "p\<lparr>p_world := (bs, v)\<rparr>" and ?c = "case ch of Some c \<Rightarrow> c | None \<Rightarrow> NUL"
  have rd: "term_read_byte os (Suc m) p = Some (Inr b, ?p1)"
    using Cons.prems(4) by (simp add: tty_simps [OF assms])
  show ?case
  proof (cases "key = EK_NONE")
    case True
    with Cons.IH [of e r k1 ?p1 "Suc m"] Cons.prems k1 n rd show ?thesis by (simp add: n(1))
  next
    case False
    obtain r' e' where ap: "apply_key junk key ?c e r = Some (fst (editor_key (r_h r) key ?c (editor_of r e)), r', e')"
      "edit_ok e'" "recall_ok r'" "r_h r' = r_h r" "editor_of r' e' = snd (editor_key (r_h r) key ?c (editor_of r e))"
      using apply_key_spec [OF Cons.prems(1,2)] by blast
    obtain fin a where fa: "editor_key (r_h r) key ?c (editor_of r e) = (fin, a)"
      using prod.exhaust by blast
    show ?thesis
    proof (cases fin)
      case (Some x)
      obtain l y where z: "zip_of e' = (l, y)" by fastforce
      have a: "a = ((l, y), r_idx r', str_bytes (r_stash r'))" using ap(5) fa z by (simp add: editor_of_def)
      have res: "err = x" "line = l @ y" "rest = bs" using Cons.prems(6) k1(1) False fa Some a by simp_all
      with n rd k1 False ap(1,2) fa Some edit_bytes [OF ap(2) z] show ?thesis by (simp add: n(1))
    next
      case None
      obtain s where s: "redraw os (Suc m) prompt e' ?p1 = Some (NSH_OK, wrote s ?p1)"
        using redraw_whole [OF assms ap(2)] by blast
      have "editor_run (r_h r') k1 (editor_of r' e') bs = (err, line, rest)"
        using Cons.prems(6) k1(1) False fa None ap(4,5) by simp
      with Cons.IH [OF ap(2,3) k1(2), of "wrote s ?p1" "Suc m"] n(2) obtain e2 q where
        "key_loop os junk (Suc m) prompt k1 r' e' (wrote s ?p1) = Some (err, e2, q)" "edit_ok e2"
        "p_world q = (rest, v)" "p_term q = p_term p" "err = NSH_OK \<longrightarrow> str_bytes (e_buf e2) = line" by auto
      with rd k1(1) False ap(1) fa None s show ?thesis by (simp add: n(1))
    qed
  qed
qed

text \<open>Raw mode for a line, and back.\<close>

lemma enter_line_mode:
  assumes "tty_serves os" "\<not> raw_active (p_term p)"
  shows "\<exists>q. term_enter_raw_mode os n TERM_RAW_LINE p = Some (NSH_OK, q) \<and> p_world q = p_world p
    \<and> sh_history q = sh_history p
    \<and> p_term q = (p_term p)\<lparr>saved_termios := k_termios (p_term p), saved_flags := k_nonblock (p_term p),
         raw_active := True, raw_owns_screen := False, k_termios := raw_of False (k_termios (p_term p))\<rparr>"
  using assms(2) by (simp add: term_enter_raw_mode_def tty_simps [OF assms(1)] set_term_def sys_tcsetattr_def Let_def)

lemma exit_line_mode:
  assumes "tty_serves os" "raw_active (p_term p)" "\<not> raw_owns_screen (p_term p)"
  shows "\<exists>q. term_exit_raw os n p = Some q \<and> p_world q = p_world p
    \<and> p_term q = (p_term p)\<lparr>raw_active := False, k_termios := saved_termios (p_term p), k_nonblock := saved_flags (p_term p)\<rparr>"
  using assms(2,3) by (simp add: term_exit_raw_def tty_simps [OF assms(1)] set_term_def sys_tcsetattr_def sys_setfl_def check_def Let_def)

text \<open>C7: the line editor computes what the abstract editor does. On a working terminal, whatever bytes are
  typed, reading a line never touches memory outside its arrays, consumes exactly the bytes up
  to the one that ends the line, hands back the abstract editor's verdict and line, and leaves
  the terminal with the settings and flags it had.\<close>

theorem edit_read_line_runs_editor:
  assumes "tty_serves os" "str_ok out" "\<not> raw_active (p_term p)" "p_world p = (bs, v)" "length bs + 2 \<le> n"
    and "editor_run (sh_history p) editkeys_init (editor_start (sh_history p)) bs = (err, line, rest)"
  shows "\<exists>out' q. edit_read_line os junk n (Some prompt) (Some out) p = Some (err, Some out', q)
    \<and> str_bytes out' = (if err = NSH_OK then line else []) \<and> p_world q = (rest, v)
    \<and> k_termios (p_term q) = k_termios (p_term p) \<and> k_nonblock (p_term q) = k_nonblock (p_term p)
    \<and> \<not> raw_active (p_term q)"
proof -
  obtain m where n: "n = Suc m" using assms(5) by (cases n) auto
  obtain out1 where out1: "str_clear out = Some out1" "str_ok out1" "str_bytes out1 = []"
    using str_clear_ok [OF assms(2)] by blast
  let ?e = "edit_init junk" and ?r = "recall_init junk (sh_history p)"
  obtain p1 where p1: "term_enter_raw_mode os n TERM_RAW_LINE p = Some (NSH_OK, p1)" "p_world p1 = p_world p"
    "sh_history p1 = sh_history p"
    "p_term p1 = (p_term p)\<lparr>saved_termios := k_termios (p_term p), saved_flags := k_nonblock (p_term p),
         raw_active := True, raw_owns_screen := False, k_termios := raw_of False (k_termios (p_term p))\<rparr>"
    using enter_line_mode [OF assms(1,3)] by blast
  have ok: "edit_ok ?e" "zip_of ?e = ([], [])" using edit_init_ok by blast+
  obtain s where s: "redraw os n prompt ?e p1 = Some (NSH_OK, wrote s p1)"
    unfolding n using redraw_whole [OF assms(1) ok(1)] by blast
  have r: "recall_ok ?r" "editor_of ?r ?e = editor_start (sh_history p)" "r_h ?r = sh_history p" "keys_ok editkeys_init"
    using ok by (simp_all add: recall_ok_def recall_init_def editor_of_def editor_start_def keys_ok_def editkeys_init_def)
  obtain e1 p3 where e1: "key_loop os junk n prompt editkeys_init ?r ?e (wrote s p1) = Some (err, e1, p3)" "edit_ok e1"
    "p_world p3 = (rest, v)" "p_term p3 = p_term p1" "err = NSH_OK \<longrightarrow> str_bytes (e_buf e1) = line"
    using key_loop_runs_editor [OF assms(1) ok(1) r(1,4), of "wrote s p1" bs v n err line rest junk prompt] assms(4-6) r(2,3) p1(2)
    by auto
  obtain out2 where out2: "(if err = NSH_OK then do { s \<leftarrow> str_live (e_buf e1); str_append_n junk out1 s } else Some out1) = Some out2"
    "str_bytes out2 = (if err = NSH_OK then line else [])"
    using str_append_n_ok [OF out1(2), of junk line] out1(3) e1(2,5) by (cases "err = NSH_OK") (auto simp: str_live_ok edit_ok_def)
  obtain p4 where p4: "(if err \<noteq> NSH_EOF then map_option snd (write_all os n [CHR 0x0D, CHR 0x0A] p3) else Some p3) = Some p4"
    "p_world p4 = p_world p3" "p_term p4 = p_term p3"
    using write_loop_whole [OF assms(1), of "[CHR 0x0D, CHR 0x0A]" m p3] by (cases "err = NSH_EOF") (simp_all add: write_all_def n)
  obtain p5 where p5: "term_exit_raw os n p4 = Some p5" "p_world p5 = p_world p4"
    "p_term p5 = (p_term p4)\<lparr>raw_active := False, k_termios := saved_termios (p_term p4), k_nonblock := saved_flags (p_term p4)\<rparr>"
    using exit_line_mode [OF assms(1), of p4 n] p1(4) e1(4) p4(3) by auto
  have "edit_read_line os junk n (Some prompt) (Some out) p = Some (err, Some out2, p5)"
    unfolding edit_read_line_def prod.case option.case using out1(1) p1(1) p1(3) s e1(1) out2(1) p4(1) p5(1)
    by (simp only: Let_def bind.simps prod.case simp_thms not_True_eq_False if_False if_True refl HOL.if_False wrote_frame)
  with out2(2) p5 p4 e1(3,4) p1(4) show ?thesis by simp
qed

definition typing_os :: "(string \<times> nat) Os" where
  "typing_os = \<lparr>os_open = (\<lambda>path flags w. (Inl ENOENT, w)), os_pipe = (\<lambda>w. (Inl EMFILE, w)),
     os_fork = (\<lambda>t w. (Inl EMFILE, w)), os_setpgid = (\<lambda>pid g w. (0, w)),
     os_tcsetpgrp = (\<lambda>fd g w. (0, w)), os_waitpid = (\<lambda>pid nohang w. (Inl ESRCH, w)),
     os_kill = (\<lambda>pid w. (0, w)), os_chdir = (\<lambda>d w. (0, w)), os_getcwd = (\<lambda>w. (Inr ''/tmp'', w)),
     os_signals = (\<lambda>w. ([], w)), os_execve = (\<lambda>path w. (Some ENOENT, w)),
     os_tool = (\<lambda>name argv w. (([], [], 0), w)), os_strerror = (\<lambda>e. ''error''),
     os_reap = (\<lambda>w. (None, w)), os_write = (\<lambda>s w. (Inr (length s), w)),
     os_read = (\<lambda>(inp, v). case inp of [] \<Rightarrow> (Inr None, ([], v)) | b # bs \<Rightarrow> (Inr (Some b), (bs, v))),
     os_tcgetattr = (\<lambda>w. (0, w)), os_tcsetattr = (\<lambda>how t w. (0, w)), os_getfl = (\<lambda>w. (0, w)),
     os_setfl = (\<lambda>b w. (0, w))\<rparr>"

lemma typing_os_serves: "tty_serves typing_os" by (simp add: tty_serves_def typing_os_def)

text \<open>Typed: \<open>ab\<close>, the left arrow, \<open>c\<close>, return.\<close>

theorem edit_read_line_runs_editor_witness:
  "\<exists>out' q. edit_read_line typing_os (\<lambda>_. NUL) 9 (Some ''$ '') (Some (str_init (\<lambda>_. NUL)))
       (booted (''ab'' @ [CHR 0x1B] @ ''[Dc'' @ [CHR 0x0D], 0)) = Some (NSH_OK, Some out', q)
    \<and> str_bytes out' = ''acb'' \<and> p_world q = ([], 0)"
proof -
  let ?p = "booted (''ab'' @ [CHR 0x1B] @ ''[Dc'' @ [CHR 0x0D], 0::nat)"
  have h: "sh_history ?p = \<lparr>h_lines = None, h_cap = 0, h_len = 0, h_start = 0\<rparr>" "\<not> raw_active (p_term ?p)"
    by (simp_all add: boot_def)
  have w: "p_world ?p = (''ab'' @ [CHR 0x1B] @ ''[Dc'' @ [CHR 0x0D], 0)" by (simp add: boot_def)
  have r: "editor_run (sh_history ?p) editkeys_init (editor_start (sh_history ?p)) (''ab'' @ [CHR 0x1B] @ ''[Dc'' @ [CHR 0x0D])
      = (NSH_OK, ''acb'', [])" unfolding h by code_simp
  show ?thesis
    using edit_read_line_runs_editor [OF typing_os_serves str_init_ok(1) [of "\<lambda>_. NUL"] h(2) w _ r, where n = 9 and junk = "\<lambda>_. NUL" and prompt = "''$ ''"] by auto
qed

end
