(* ===== verification/Run_Props.thy ===== *)
theory Run_Props
  imports Run Edit_Props
begin

text \<open>
  Running a script: the loop over a stream, with its line buffers, lexer, parser and evaluator,
  against the plain order in which the programs of the script are run.
\<close>

section \<open>Lines\<close>

lemma line_read_line:
  assumes "str_ok out" "NEWLINE \<notin> set l"
  shows "\<exists>out'. line_read junk (f\<lparr>f_bytes := l @ NEWLINE # t\<rparr>) out = Some (NSH_OK, f\<lparr>f_bytes := t\<rparr>, out')
    \<and> str_ok out' \<and> str_bytes out' = l"
proof -
  from str_clear_ok [OF assms(1)] obtain o1 where
    o1: "str_clear out = Some o1" "str_ok o1" "str_bytes o1 = []" by blast
  from line_loop_line [OF o1(2) assms(2), of junk t "f_fails f" False] obtain s' where
    "line_loop junk (l @ NEWLINE # t) (f_fails f) False o1 = Some (NSH_OK, t, s')"
    "str_ok s'" "str_bytes s' = str_bytes o1 @ l" by blast
  with o1 show ?thesis by (simp add: line_read_def)
qed

lemma line_read_eof:
  assumes "str_ok out" "f_bytes f = []" "\<not> f_fails f"
  shows "\<exists>out'. line_read junk f out = Some (NSH_EOF, f, out')"
proof -
  from str_clear_ok [OF assms(1)] obtain o1 where
    o1: "str_clear out = Some o1" "str_ok o1" "str_bytes o1 = []" by blast
  from line_loop_last [OF o1(2), of "[]" junk False False] o1 assms(2,3) show ?thesis
    by (cases f) (auto simp: line_read_def)
qed

lemma join_line_ok:
  assumes "str_ok buf" "str_ok line"
  shows "\<exists>b. join_line junk going buf line = Some b \<and> str_ok b
    \<and> str_bytes b = str_bytes buf @ (if going then [NEWLINE] else []) @ str_bytes line"
proof -
  obtain b where b: "(if going then str_push junk buf NEWLINE else Some buf) = Some b" "str_ok b"
    "str_bytes b = str_bytes buf @ (if going then [NEWLINE] else [])"
    using str_push_ok [OF assms(1), of junk NEWLINE] assms(1) by (cases going) auto
  obtain c where "str_append_n junk b (str_bytes line) = Some c" "str_ok c" "str_bytes c = str_bytes b @ str_bytes line"
    using str_append_n_ok [OF b(2)] by blast
  with b show ?thesis by (simp add: join_line_def str_live_ok [OF assms(2)])
qed

section \<open>Scripts as units\<close>

fun lines_text :: "string list \<Rightarrow> string" where
  "lines_text [] = []"
| "lines_text [l] = l"
| "lines_text (l # ls) = l @ NEWLINE # lines_text ls"

text \<open>What the lexer and the parser make of a text.\<close>

definition verdict :: "string \<Rightarrow> (NshError \<times> Node option) option" where
  "verdict s = (case lexer_scan s of (err, toks) \<Rightarrow> if err = NSH_OK then parser_parse_program toks else Some (err, None))"

text \<open>
  A unit is a group of lines that is one program: every shorter beginning of it asks for more.
\<close>

definition unit_ok :: "string list \<Rightarrow> Node option \<Rightarrow> bool" where
  "unit_ok ls t \<longleftrightarrow> ls \<noteq> [] \<and> hd ls \<noteq> [] \<and> list_all (\<lambda>l. NEWLINE \<notin> set l \<and> nul_free l) ls
     \<and> verdict (lines_text ls) = Some (NSH_OK, t)
     \<and> list_all (\<lambda>i. map_option fst (verdict (lines_text (take i ls))) = Some NSH_ERR_INCOMPLETE) [1..<length ls]"

definition run_tree :: "'w Os \<Rightarrow> nat \<Rightarrow> Node option \<Rightarrow> 'w Proc \<Rightarrow> 'w Proc option" where
  "run_tree os n t p = map_option (\<lambda>(res, q). if res \<noteq> NSH_OK then put_err (nullsh_line (nsh_error_str res)) q else q)
     (eval_run os n t p)"

fun run_units :: "'w Os \<Rightarrow> nat \<Rightarrow> Node option list \<Rightarrow> 'w Proc \<Rightarrow> 'w Proc option" where
  "run_units os n [] p = reap_jobs os n p"
| "run_units os n (t # ts) p = do {
     p1 \<leftarrow> reap_jobs os n p;
     p2 \<leftarrow> run_tree os n t p1;
     if want_exit p2 then Some p2 else run_units os n ts p2
   }"

definition file_text :: "string list \<Rightarrow> string" where
  "file_text ls = concat (map (\<lambda>l. l @ [NEWLINE]) ls)"

lemma lines_text_snoc: "ls \<noteq> [] \<Longrightarrow> lines_text (ls @ [l]) = lines_text ls @ NEWLINE # l"
  by (induction ls rule: lines_text.induct) auto

lemma lines_text_nul: "list_all nul_free ls \<Longrightarrow> nul_free (lines_text ls)"
  by (induction ls rule: lines_text.induct) auto

lemma feed_verdict:
  "feed os n s p = (case verdict s of None \<Rightarrow> None
     | Some (err, t) \<Rightarrow> if err = NSH_ERR_INCOMPLETE then Some (FEED_MORE, p)
         else if err \<noteq> NSH_OK then Some (FEED_BAD, p)
         else map_option (\<lambda>q. (FEED_RAN, q)) (run_tree os n t p))"
proof (cases "lexer_scan s")
  case (Pair err toks)
  show ?thesis
    by (auto simp: feed_def verdict_def Pair run_tree_def eval_run_def split: option.splits Option.bind_splits)
qed

lemma feed_more: "map_option fst (verdict s) = Some NSH_ERR_INCOMPLETE \<Longrightarrow> feed os n s p = Some (FEED_MORE, p)"
  by (auto simp: feed_verdict)

lemma feed_ran: "verdict s = Some (NSH_OK, t) \<Longrightarrow> feed os n s p = map_option (\<lambda>q. (FEED_RAN, q)) (run_tree os n t p)"
  by (simp add: feed_verdict)

lemma option_start: "do { x \<leftarrow> m; f x } = do { x \<leftarrow> m; g x } \<longleftrightarrow> (\<forall>x. m = Some x \<longrightarrow> f x = g x)"
  by (cases m) auto

lemma option_finish: "do { (a, x) \<leftarrow> map_option (\<lambda>q. (c, q)) m; f a x } = do { x \<leftarrow> m; f c x }"
  by (cases m) auto

text \<open>One unit, from its \<open>i\<close>-th line on.\<close>

lemma stream_unit:
  assumes u: "unit_ok ls t" and f: "\<not> f_fails fp"
  shows "i < length ls \<Longrightarrow> str_ok line \<Longrightarrow> str_ok buf \<Longrightarrow> str_bytes buf = lines_text (take i ls) \<Longrightarrow>
    \<exists>line' buf'. str_ok line' \<and> str_ok buf' \<and> str_bytes buf' = []
      \<and> (\<forall>p. stream_loop os junk n (k + (length ls - i)) False (i > 0) line buf (fp\<lparr>f_bytes := file_text (drop i ls) @ rest\<rparr>) p
        = do {
            p1 \<leftarrow> (if i > 0 then Some p else reap_jobs os n p);
            p2 \<leftarrow> run_tree os n t p1;
            if want_exit p2 then Some p2 else stream_loop os junk n k False False line' buf' (fp\<lparr>f_bytes := rest\<rparr>) p2
          })"
proof (induction "length ls - i" arbitrary: i line buf)
  case 0
  then show ?case by simp
next
  case (Suc m)
  let ?l = "ls ! i"
  have l: "NEWLINE \<notin> set ?l" "nul_free ?l" "?l \<noteq> [] \<or> i > 0"
    using u Suc.prems(1) by (cases "i = 0"; auto simp: unit_ok_def list_all_length hd_conv_nth)+
  have d: "file_text (drop i ls) @ rest = ?l @ NEWLINE # (file_text (drop (Suc i) ls) @ rest)"
    using Suc.prems(1) by (simp add: file_text_def Cons_nth_drop_Suc [symmetric])
  obtain line1 where line1: "line_read junk (fp\<lparr>f_bytes := file_text (drop i ls) @ rest\<rparr>) line
      = Some (NSH_OK, fp\<lparr>f_bytes := file_text (drop (Suc i) ls) @ rest\<rparr>, line1)" "str_ok line1" "str_bytes line1 = ?l"
    unfolding d using line_read_line [OF Suc.prems(2) l(1)] by blast
  have len: "s_len line1 = length ?l" using str_split [OF line1(2)] line1(3) by auto
  obtain b where b: "join_line junk (i > 0) buf line1 = Some b" "str_ok b"
    "str_bytes b = str_bytes buf @ (if i > 0 then [NEWLINE] else []) @ ?l"
    using join_line_ok [OF Suc.prems(3) line1(2), of junk "i > 0"] line1(3) by auto
  have bytes: "str_bytes b = lines_text (take (Suc i) ls)"
  proof (cases "i = 0")
    case True
    with b(3) Suc.prems(1,4) show ?thesis by (simp add: take_Suc_conv_app_nth)
  next
    case False
    with Suc.prems(1) have "take i ls \<noteq> []" by auto
    from lines_text_snoc [OF this, of ?l] False b(3) Suc.prems(1,4) show ?thesis
      by (simp add: take_Suc_conv_app_nth)
  qed
  have nf: "list_all nul_free (take (Suc i) ls)"
    using u by (auto simp: unit_ok_def list_all_iff dest: in_set_takeD)
  have c: "str_as_cstring b = lines_text (take (Suc i) ls)"
    using str_as_cstring_ok [OF b(2)] bytes cstr_id [OF lines_text_nul [OF nf]] by simp
  have k: "k + (length ls - i) = Suc (k + (length ls - Suc i))" using Suc.prems(1) by simp
  have nz: "\<not> (s_len line1 = 0 \<and> \<not> i > 0)" using l(3) len by auto
  show ?case
  proof (cases "Suc i < length ls")
    case True
    have more: "feed os n (str_as_cstring b) q = Some (FEED_MORE, q)" for q
      unfolding c using u True by (intro feed_more) (auto simp: unit_ok_def list_all_iff)
    have "m = length ls - Suc i" using Suc.hyps(2) by simp
    from Suc.hyps(1) [OF this True line1(2) b(2) bytes] obtain line' buf' where
      "str_ok line'" "str_ok buf'" "str_bytes buf' = []" "\<forall>p. stream_loop os junk n (k + (length ls - Suc i)) False (Suc i > 0) line1 b
          (fp\<lparr>f_bytes := file_text (drop (Suc i) ls) @ rest\<rparr>) p
        = do { p1 \<leftarrow> (if Suc i > 0 then Some p else reap_jobs os n p); p2 \<leftarrow> run_tree os n t p1;
            if want_exit p2 then Some p2 else stream_loop os junk n k False False line' buf' (fp\<lparr>f_bytes := rest\<rparr>) p2 }"
      by blast
    note nxt = this and facts = line1(1) b(1) more nz
    show ?thesis
    proof (rule exI [of _ line'], rule exI [of _ buf'], intro conjI allI)
      fix p
      show "stream_loop os junk n (k + (length ls - i)) False (i > 0) line buf (fp\<lparr>f_bytes := file_text (drop i ls) @ rest\<rparr>) p
        = do { p1 \<leftarrow> (if i > 0 then Some p else reap_jobs os n p); p2 \<leftarrow> run_tree os n t p1;
            if want_exit p2 then Some p2 else stream_loop os junk n k False False line' buf' (fp\<lparr>f_bytes := rest\<rparr>) p2 }"
        unfolding k using facts nxt(4) by (cases "i = 0") (simp_all add: Let_def option_start)
    qed (use nxt in simp_all)
  next
    case False
    then have i: "Suc i = length ls" using Suc.prems(1) by simp
    obtain b1 where b1: "str_clear b = Some b1" "str_ok b1" "str_bytes b1 = []" using str_clear_ok [OF b(2)] by blast
    have ran: "feed os n (str_as_cstring b) q = map_option (\<lambda>q. (FEED_RAN, q)) (run_tree os n t q)" for q
      unfolding c i using u by (intro feed_ran) (simp add: unit_ok_def)
    note facts = line1(1) b(1) b1(1) ran nz i
    show ?thesis
    proof (rule exI [of _ line1], rule exI [of _ b1], intro conjI allI)
      fix p
      show "stream_loop os junk n (k + (length ls - i)) False (i > 0) line buf (fp\<lparr>f_bytes := file_text (drop i ls) @ rest\<rparr>) p
        = do { p1 \<leftarrow> (if i > 0 then Some p else reap_jobs os n p); p2 \<leftarrow> run_tree os n t p1;
            if want_exit p2 then Some p2 else stream_loop os junk n k False False line1 b1 (fp\<lparr>f_bytes := rest\<rparr>) p2 }"
        unfolding k using facts by (cases "i = 0") (simp_all add: Let_def file_text_def option_start option_finish)
    qed (use line1 b1 in simp_all)
  qed
qed


lemma stream_units:
  "list_all (\<lambda>(ls, t). unit_ok ls t) us \<Longrightarrow> str_ok line \<Longrightarrow> str_ok buf \<Longrightarrow> str_bytes buf = [] \<Longrightarrow> \<not> f_fails fp \<Longrightarrow>
   stream_loop os junk n (Suc j + length (concat (map fst us))) False False line buf
     (fp\<lparr>f_bytes := file_text (concat (map fst us))\<rparr>) p = run_units os n (map snd us) p"
proof (induction us arbitrary: line buf p)
  case Nil
  from line_read_eof [of line "fp\<lparr>f_bytes := []\<rparr>"] Nil obtain out where
    "line_read junk (fp\<lparr>f_bytes := []\<rparr>) line = Some (NSH_EOF, fp\<lparr>f_bytes := []\<rparr>, out)" by auto
  then show ?case by (cases "reap_jobs os n p") (simp_all add: file_text_def)
next
  case (Cons u us)
  obtain ls t where u: "u = (ls, t)" by (cases u)
  with Cons.prems have ok: "unit_ok ls t" "list_all (\<lambda>(ls, t). unit_ok ls t) us" by simp_all
  then have ne: "0 < length ls" by (simp add: unit_ok_def)
  let ?rest = "file_text (concat (map fst us))" and ?k = "Suc j + length (concat (map fst us))"
  have buf: "str_bytes buf = lines_text (take 0 ls)" using Cons.prems(4) by simp
  obtain line' buf' where st: "str_ok line'" "str_ok buf'" "str_bytes buf' = []"
    "\<And>p. stream_loop os junk n (?k + length ls) False False line buf (fp\<lparr>f_bytes := file_text ls @ ?rest\<rparr>) p
      = do { p1 \<leftarrow> reap_jobs os n p; p2 \<leftarrow> run_tree os n t p1;
           if want_exit p2 then Some p2 else stream_loop os junk n ?k False False line' buf' (fp\<lparr>f_bytes := ?rest\<rparr>) p2 }"
    using stream_unit [OF ok(1) Cons.prems(5) ne Cons.prems(2,3) buf, of os junk n ?k ?rest] by auto
  have len: "Suc j + length (concat (map fst (u # us))) = ?k + length ls" by (simp add: u)
  have flat: "file_text (concat (map fst (u # us))) = file_text ls @ ?rest" by (simp add: u file_text_def)
  show ?case unfolding len flat st(4) Cons.IH [OF ok(2) st(1-3) Cons.prems(5)] by (simp add: u)
qed

text \<open>C2: a script is run unit by unit. When the lines of a stream group into units, each a program of
  which every shorter beginning is unfinished, the loop joins exactly the lines of each unit
  (blank ones inside included), lexes and parses the text, and evaluates the trees in the order
  of the file, each behind a round of reaping, up to the end of the file or to the first tree
  that asks to leave the shell. With more fuel than lines it is the same for every system,
  errors and endless programs included.\<close>

theorem run_stream_runs_units:
  assumes "list_all (\<lambda>(ls, t). unit_ok ls t) us" and "f_bytes fp = file_text (concat (map fst us))"
    and "\<not> f_fails fp" and "length (concat (map fst us)) < k"
  shows "run_stream os junk n k False fp p = map_option (\<lambda>q. (NSH_OK, q)) (run_units os n (map snd us) p)"
proof -
  obtain j where k: "k = Suc j + length (concat (map fst us))" using assms(4) less_iff_Suc_add by fastforce
  have "fp = fp\<lparr>f_bytes := file_text (concat (map fst us))\<rparr>" using assms(2) by (cases fp) simp
  with stream_units [OF assms(1) str_init_ok(1) [of junk] str_init_ok [of junk] assms(3), of os junk n j p]
  show ?thesis unfolding run_stream_def k by simp
qed

theorem run_stream_runs_units_witness:
  "run_stream quiet_os (\<lambda>_. NUL) 9 9 False \<lparr>f_bytes = file_text [''if a'', '''', ''then b'', ''fi'', ''exit''], f_fails = False\<rparr> boot
   = map_option (\<lambda>q. (NSH_OK, q)) (run_units quiet_os 9
       [snd (the (verdict (lines_text [''if a'', '''', ''then b'', ''fi'']))), snd (the (verdict (lines_text [''exit''])))] boot)"
proof -
  let ?us = "[([''if a'', '''', ''then b'', ''fi''], snd (the (verdict (lines_text [''if a'', '''', ''then b'', ''fi''])))),
     ([''exit''], snd (the (verdict (lines_text [''exit'']))))]"
  have "list_all (\<lambda>(ls, t). unit_ok ls t) ?us" by code_simp
  from run_stream_runs_units [OF this, where fp = "\<lparr>f_bytes = file_text [''if a'', '''', ''then b'', ''fi'', ''exit''], f_fails = False\<rparr>"
      and os = quiet_os and junk = "\<lambda>_. NUL" and n = 9 and k = 9 and p = boot]
  show ?thesis by simp
qed

end
