(* ===== verification/Elf_Props.thy ===== *)
theory Elf_Props
  imports Elf
begin

unbundle bit_operations_syntax

text \<open>
  What \<open>elf_open\<close> promises. A file is described in natural numbers: \<open>fld bs p n\<close> is the number in
  the \<open>n\<close> bytes at \<open>p\<close>, \<open>elf_wf\<close> says what a well-formed file is, and \<open>elf_view\<close> is its contents.
  The lemmas show step by step that the reader, with its machine words and checked reads, accepts
  exactly the well-formed files and returns their view.
\<close>

section \<open>Little-endian numbers\<close>

definition fld :: "u8 list \<Rightarrow> nat \<Rightarrow> nat \<Rightarrow> nat" where
  "fld bs p n = le_val (take n (drop p bs))"

lemma fld_less: "fld d p n < 256 ^ n"
proof -
  have "fld d p n < 256 ^ length (take n (drop p d))" unfolding fld_def by (rule le_val_less)
  also have "\<dots> \<le> 256 ^ n" by (rule power_increasing) auto
  finally show ?thesis .
qed

lemma fld_Suc: "p < length d \<Longrightarrow> fld d p (Suc n) = unat (d ! p) + 256 * fld d (Suc p) n"
  by (simp add: fld_def le_val_def Cons_nth_drop_Suc [symmetric])

lemma fld_step: "p < length d \<Longrightarrow> 0 < n \<Longrightarrow> fld d p n = unat (d ! p) + 256 * fld d (p + 1) (n - 1)"
  using fld_Suc [of p d "n - 1"] by simp

lemma fld_0 [simp]: "fld d p 0 = 0" by (simp add: fld_def le_val_def)

text \<open>Gluing bytes with shifts is positional notation.\<close>


lemma or_push_bit:
  assumes "m < 2 ^ n"
  shows "of_nat m OR push_bit n (of_nat k) = (of_nat (m + 2 ^ n * k) :: 'a::len word)"
proof -
  have "m AND push_bit n k = 0"
  proof (rule bit_eqI)
    fix j
    have "take_bit n m = m" using assms by (rule take_bit_nat_eq_self)
    then show "bit (m AND push_bit n k) j = bit 0 j"
      by (metis bit_and_iff bit_push_bit_iff bit_take_bit_iff bit_0_eq bot_apply bot_bool_def linorder_not_le)
  qed
  then have "m OR push_bit n k = m + 2 ^ n * k"
    by (simp add: disjunctive_add_eq_or [symmetric] push_bit_eq_mult mult.commute)
  then show ?thesis by (metis of_nat_or_eq of_nat_push_bit)
qed


lemma rd16_fld:
  assumes "p + 2 \<le> length d"
  shows "rd16 d p = Some (of_nat (fld d p 2))"
proof -
  have "(ucast (d ! p) OR push_bit 8 (ucast (d ! Suc p)) :: u16)
      = of_nat (unat (d ! p) + 2 ^ 8 * unat (d ! Suc p))"
    using or_push_bit [of "unat (d ! p)" 8 "unat (d ! Suc p)", where 'a = 16] unat_u8 [of "d ! p"]
    by simp
  also have "unat (d ! p) + 2 ^ 8 * unat (d ! Suc p) = fld d p 2"
    using assms by (simp add: fld_step)
  finally show ?thesis using assms by (simp add: rd16_def rd_Some)
qed

lemma rd32_fld:
  assumes "p + 4 \<le> length d"
  shows "rd32 d p = Some (of_nat (fld d p 4))"
proof -
  let ?b = "\<lambda>i. unat (d ! (p + i))"
  have "(ucast (d ! p) OR push_bit 8 (ucast (d ! (p + 1))) OR push_bit 16 (ucast (d ! (p + 2)))
      OR push_bit 24 (ucast (d ! (p + 3))) :: u32)
      = ((of_nat (?b 0) OR push_bit 8 (of_nat (?b 1))) OR push_bit 16 (of_nat (?b 2)))
      OR push_bit 24 (of_nat (?b 3))"
    by (simp add: or.assoc)
  also have "of_nat (?b 0) OR push_bit 8 (of_nat (?b 1)) = (of_nat (?b 0 + 2 ^ 8 * ?b 1) :: u32)"
    using unat_u8 [of "d ! (p + 0)"] by (intro or_push_bit) simp
  also have "of_nat (?b 0 + 2 ^ 8 * ?b 1) OR push_bit 16 (of_nat (?b 2))
      = (of_nat (?b 0 + 2 ^ 8 * ?b 1 + 2 ^ 16 * ?b 2) :: u32)"
    using unat_u8 [of "d ! (p + 0)"] unat_u8 [of "d ! (p + 1)"] by (intro or_push_bit) simp
  also have "of_nat (?b 0 + 2 ^ 8 * ?b 1 + 2 ^ 16 * ?b 2) OR push_bit 24 (of_nat (?b 3))
      = (of_nat (?b 0 + 2 ^ 8 * ?b 1 + 2 ^ 16 * ?b 2 + 2 ^ 24 * ?b 3) :: u32)"
    using unat_u8 [of "d ! (p + 0)"] unat_u8 [of "d ! (p + 1)"] unat_u8 [of "d ! (p + 2)"]
    by (intro or_push_bit) simp
  also have "?b 0 + 2 ^ 8 * ?b 1 + 2 ^ 16 * ?b 2 + 2 ^ 24 * ?b 3 = fld d p 4"
    using assms by (simp add: fld_step numeral_3_eq_3)
  finally show ?thesis using assms by (simp add: rd32_def rd_Some)
qed

lemma fld_add: "fld d p (m + n) = fld d p m + 256 ^ m * fld d (p + m) n"
proof -
  have "le_val (xs @ ys) = le_val xs + 256 ^ length xs * le_val ys" for xs ys
    by (induction xs) (simp_all add: le_val_def algebra_simps)
  then show ?thesis
    by (cases "p + m \<le> length d") (simp_all add: fld_def take_add add.commute le_val_def [of "[]"])
qed

lemma rd64_fld:
  assumes "p + 8 \<le> length d"
  shows "rd64 d p = Some (of_nat (fld d p 8))"
proof -
  have u: "(ucast (of_nat (fld d q 4) :: u32) :: u64) = of_nat (fld d q 4)" for q
    using fld_less [of d q 4] by (simp add: unsigned_of_nat take_bit_nat_eq_self)
  have "rd64 d p = Some (of_nat (fld d p 4) OR push_bit 32 (of_nat (fld d (p + 4) 4)))"
    using assms by (simp add: rd64_def rd32_fld u)
  also have "\<dots> = Some (of_nat (fld d p 4 + 2 ^ 32 * fld d (p + 4) 4))"
    using fld_less [of d p 4] by (subst or_push_bit) simp_all
  also have "fld d p 4 + 2 ^ 32 * fld d (p + 4) 4 = fld d p 8" using fld_add [of d p 4 4] by simp
  finally show ?thesis .
qed

lemma unat_fld [simp]:
  "unat (of_nat (fld d p 2) :: u16) = fld d p 2"
  "unat (of_nat (fld d p 4) :: u32) = fld d p 4"
  "unat (of_nat (fld d p 8) :: u64) = fld d p 8"
  using fld_less [of d p 2] fld_less [of d p 4] fld_less [of d p 8]
  by (simp_all add: unsigned_of_nat take_bit_nat_eq_self)

lemma take_bit_fld [simp]: "take_bit 16 (fld d p 2) = fld d p 2"
  using fld_less [of d p 2] by (simp add: take_bit_nat_eq_self)

section \<open>The \<open>uint64_t\<close> checks\<close>

lemma in_bounds_iff: "in_bounds len off n \<longleftrightarrow> unat off + unat n \<le> unat len"
  by (auto simp: in_bounds_def word_le_nat_alt unat_sub)

lemma max_word: "unat (- 1 :: u64) = 2 ^ 64 - 1"
  by (simp add: unsigned_minus_1_eq_mask mask_eq_exp_minus_1)

lemma fits_mul_spec:
  "fits_mul c e = (if unat c * unat e < 2 ^ 64 then Some (c * e) else None)"
proof -
  have "unat c > (2 ^ 64 - 1) div unat e \<longleftrightarrow> 2 ^ 64 - 1 < unat c * unat e" if "e \<noteq> 0"
    using that div_less_iff_less_mult [of "unat e" "2 ^ 64 - 1" "unat c"] by (simp add: unat_gt_0)
  then show ?thesis
    by (cases "e = 0") (auto simp: fits_mul_def word_less_nat_alt unat_div_distrib max_word)
qed

lemma unat_up [simp]:
  "unat (ucast (x :: u32) :: u64) = unat x"
  "unat (ucast (y :: u16) :: u64) = unat y"
proof -
  have "unat x < 2 ^ LENGTH(32)" "unat y < 2 ^ LENGTH(16)" by (rule unsigned_less)+
  then show "unat (ucast x :: u64) = unat x" "unat (ucast y :: u64) = unat y"
    by (simp_all add: unsigned_ucast_eq take_bit_nat_eq_self)
qed

lemma unat_mult: "unat (a :: u64) * unat b < 2 ^ 64 \<Longrightarrow> unat (a * b) = unat a * unat b"
  by (simp add: unat_word_ariths)


section \<open>What a well-formed file is\<close>

text \<open>In natural numbers, so that nothing can wrap. A name in a table of \<open>n\<close> bytes at \<open>t\<close> starts
  at \<open>idx\<close> and ends before the first zero byte, which must lie inside the table.\<close>

definition tab_tail :: "u8 list \<Rightarrow> nat \<Rightarrow> nat \<Rightarrow> nat \<Rightarrow> u8 list" where
  "tab_tail bs t n idx = drop idx (take n (drop t bs))"

definition name_wf :: "u8 list \<Rightarrow> nat \<Rightarrow> nat \<Rightarrow> nat \<Rightarrow> bool" where
  "name_wf bs t n idx \<longleftrightarrow> idx < n \<and> 0 \<in> set (tab_tail bs t n idx)"

definition name_view :: "u8 list \<Rightarrow> nat \<Rightarrow> nat \<Rightarrow> nat \<Rightarrow> string" where
  "name_view bs t n idx = map byte_char (takeWhile (\<lambda>b. b \<noteq> 0) (tab_tail bs t n idx))"

lemma name_end_takeWhile:
  assumes "t + n \<le> length d" "i \<le> n"
  shows "name_end d t n i = Some (i + length (takeWhile (\<lambda>b. b \<noteq> 0) (tab_tail d t n i)))"
  using assms
proof (induction d t n i rule: name_end.induct)
  case (1 d t n i)
  show ?case
  proof (cases "i < n")
    case True
    with 1 have c: "tab_tail d t n i = d ! (t + i) # tab_tail d t n (Suc i)"
      using Cons_nth_drop_Suc [of i "take n (drop t d)"] by (simp add: tab_tail_def)
    show ?thesis using 1 True by (subst name_end.simps) (simp add: rd_Some c)
  next
    case False
    with 1 show ?thesis by (subst name_end.simps) (simp add: tab_tail_def)
  qed
qed

lemma takeWhile_short: "length (takeWhile P xs) < length xs \<longleftrightarrow> (\<exists>x\<in>set xs. \<not> P x)"
  by (induction xs) auto

lemma copy_name_spec:
  assumes "t + unat n \<le> length d"
  shows "copy_name d (Some t) n idx
    = Some (if name_wf d t (unat n) (unat idx) then (NSH_OK, Some (name_view d t (unat n) (unat idx)))
            else (NSH_ERR_INVALID, None))"
proof (cases "unat idx < unat n")
  case True
  let ?w = "takeWhile (\<lambda>b. b \<noteq> 0) (tab_tail d t (unat n) (unat idx))"
  have len: "length (tab_tail d t (unat n) (unat idx)) = unat n - unat idx"
    using assms by (simp add: tab_tail_def)
  have wf: "name_wf d t (unat n) (unat idx) \<longleftrightarrow> unat idx + length ?w < unat n"
    using True takeWhile_short [of "\<lambda>b. b \<noteq> 0" "tab_tail d t (unat n) (unat idx)"] len
    by (auto simp: name_wf_def)
  have le: "length ?w \<le> unat n - unat idx" using length_takeWhile_le [of _ "tab_tail d t (unat n) (unat idx)"] len by metis
  have "take (length ?w) (tab_tail d t (unat n) (unat idx)) = ?w"
    by (simp add: takeWhile_eq_take [symmetric])
  then have "slice d (t + unat idx) (length ?w) = Some ?w"
    using assms le True by (simp add: slice_def tab_tail_def drop_take min_def add.commute)
  moreover have "\<not> ucast idx \<ge> n" using True by (simp add: word_le_nat_alt)
  ultimately show ?thesis
    using True assms le
    by (auto simp: copy_name_def name_end_takeWhile wf name_view_def)
next
  case False
  then show ?thesis by (simp add: copy_name_def name_wf_def word_le_nat_alt)
qed


definition section_view :: "u8 list \<Rightarrow> nat \<Rightarrow> string \<Rightarrow> ElfSection" where
  "section_view bs p name =
     \<lparr>sec_name = Some name, sec_type = of_nat (fld bs (p + 4) 4), sec_flags = of_nat (fld bs (p + 8) 8),
      sec_addr = of_nat (fld bs (p + 16) 8), sec_offset = of_nat (fld bs (p + 24) 8),
      sec_size = of_nat (fld bs (p + 32) 8), sec_entsize = of_nat (fld bs (p + 56) 8),
      sec_link = of_nat (fld bs (p + 40) 4)\<rparr>"

definition segment_view :: "u8 list \<Rightarrow> nat \<Rightarrow> ElfSegment" where
  "segment_view bs p =
     \<lparr>seg_type = of_nat (fld bs p 4), seg_flags = of_nat (fld bs (p + 4) 4),
      seg_offset = of_nat (fld bs (p + 8) 8), seg_vaddr = of_nat (fld bs (p + 16) 8),
      seg_filesz = of_nat (fld bs (p + 32) 8), seg_memsz = of_nat (fld bs (p + 40) 8),
      seg_align = of_nat (fld bs (p + 48) 8)\<rparr>"

definition symbol_view :: "u8 list \<Rightarrow> nat \<Rightarrow> string \<Rightarrow> ElfSymbol" where
  "symbol_view bs p name =
     \<lparr>sym_name = Some name, sym_value = of_nat (fld bs (p + 8) 8), sym_size = of_nat (fld bs (p + 16) 8),
      sym_bind = drop_bit 4 (bs ! (p + 4)), sym_type = (bs ! (p + 4)) AND 0xf,
      sym_shndx = of_nat (fld bs (p + 6) 2)\<rparr>"

definition header_view :: "u8 list \<Rightarrow> ElfHeader" where
  "header_view bs =
     \<lparr>eh_type = of_nat (fld bs 16 2), eh_machine = of_nat (fld bs 18 2),
      eh_entry = of_nat (fld bs 24 8), eh_phoff = of_nat (fld bs 32 8),
      eh_shoff = of_nat (fld bs 40 8), eh_phnum = of_nat (fld bs 56 2),
      eh_shnum = of_nat (fld bs 60 2), eh_shstrndx = of_nat (fld bs 62 2)\<rparr>"

text \<open>Positions and counts the header declares.\<close>

definition shnum :: "u8 list \<Rightarrow> nat" where "shnum bs = fld bs 60 2"
definition phnum :: "u8 list \<Rightarrow> nat" where "phnum bs = fld bs 56 2"
definition shstrndx :: "u8 list \<Rightarrow> nat" where "shstrndx bs = fld bs 62 2"
definition sh_at :: "u8 list \<Rightarrow> nat \<Rightarrow> nat" where "sh_at bs i = fld bs 40 8 + i * fld bs 58 2"
definition ph_at :: "u8 list \<Rightarrow> nat \<Rightarrow> nat" where "ph_at bs i = fld bs 32 8 + i * fld bs 54 2"

definition header_wf :: "u8 list \<Rightarrow> bool" where
  "header_wf bs \<longleftrightarrow> 64 \<le> length bs \<and> take 4 bs = [0x7f, 0x45, 0x4c, 0x46] \<and> take 3 (drop 4 bs) = [2, 1, 1]"

text \<open>The bytes of a section are in the file, unless it owns none.\<close>

definition sh_body_wf :: "u8 list \<Rightarrow> nat \<Rightarrow> bool" where
  "sh_body_wf bs p \<longleftrightarrow> fld bs (p + 4) 4 = 8 \<or> fld bs (p + 24) 8 + fld bs (p + 32) 8 \<le> length bs"

definition section_name_wf :: "u8 list \<Rightarrow> nat \<Rightarrow> bool" where
  "section_name_wf bs i \<longleftrightarrow> shstrndx bs = 0 \<or>
     (let q = sh_at bs (shstrndx bs)
      in name_wf bs (fld bs (q + 24) 8) (fld bs (q + 32) 8) (fld bs (sh_at bs i) 4))"

definition section_name :: "u8 list \<Rightarrow> nat \<Rightarrow> string" where
  "section_name bs i =
     (if shstrndx bs = 0 then []
      else let q = sh_at bs (shstrndx bs)
           in name_view bs (fld bs (q + 24) 8) (fld bs (q + 32) 8) (fld bs (sh_at bs i) 4))"

definition sections_wf :: "u8 list \<Rightarrow> bool" where
  "sections_wf bs \<longleftrightarrow>
     (if shnum bs = 0 then shstrndx bs = 0
      else shstrndx bs < shnum bs \<and> 64 \<le> fld bs 58 2 \<and> sh_at bs (shnum bs) \<le> length bs
        \<and> (shstrndx bs = 0 \<or> (fld bs (sh_at bs (shstrndx bs) + 4) 4 \<noteq> 8))
        \<and> list_all (\<lambda>i. sh_body_wf bs (sh_at bs i) \<and> section_name_wf bs i) [0..<shnum bs])"

definition sections_view :: "u8 list \<Rightarrow> ElfSection list" where
  "sections_view bs = map (\<lambda>i. section_view bs (sh_at bs i) (section_name bs i)) [0..<shnum bs]"

definition segments_wf :: "u8 list \<Rightarrow> bool" where
  "segments_wf bs \<longleftrightarrow> phnum bs = 0 \<or>
     (56 \<le> fld bs 54 2 \<and> ph_at bs (phnum bs) \<le> length bs
      \<and> list_all (\<lambda>i. fld bs (ph_at bs i + 8) 8 + fld bs (ph_at bs i + 32) 8 \<le> length bs) [0..<phnum bs])"

definition segments_view :: "u8 list \<Rightarrow> ElfSegment list" where
  "segments_view bs = map (\<lambda>i. segment_view bs (ph_at bs i)) [0..<phnum bs]"

text \<open>The symbols come from the first section of type 2, failing that from the first of type 11.\<close>

definition symtab_of :: "u8 list \<Rightarrow> ElfSection option" where
  "symtab_of bs =
     (case List.find (\<lambda>s. sec_type s = 2) (sections_view bs) of
        Some s \<Rightarrow> Some s | None \<Rightarrow> List.find (\<lambda>s. sec_type s = 11) (sections_view bs))"

definition sym_count :: "ElfSection \<Rightarrow> nat" where
  "sym_count tab = unat (sec_size tab) div unat (sec_entsize tab)"

definition sym_at :: "ElfSection \<Rightarrow> nat \<Rightarrow> nat" where
  "sym_at tab i = unat (sec_offset tab) + i * unat (sec_entsize tab)"

definition strtab_of :: "u8 list \<Rightarrow> ElfSection \<Rightarrow> ElfSection" where
  "strtab_of bs tab = sections_view bs ! unat (sec_link tab)"

definition symbols_wf :: "u8 list \<Rightarrow> bool" where
  "symbols_wf bs \<longleftrightarrow> (case symtab_of bs of None \<Rightarrow> True | Some tab \<Rightarrow>
     24 \<le> unat (sec_entsize tab) \<and> unat (sec_link tab) < shnum bs \<and> sec_type (strtab_of bs tab) = 3
     \<and> list_all (\<lambda>i. name_wf bs (unat (sec_offset (strtab_of bs tab))) (unat (sec_size (strtab_of bs tab)))
                     (fld bs (sym_at tab i) 4)) [0..<sym_count tab])"

definition symbols_view :: "u8 list \<Rightarrow> ElfSymbol list" where
  "symbols_view bs = (case symtab_of bs of None \<Rightarrow> [] | Some tab \<Rightarrow>
     map (\<lambda>i. symbol_view bs (sym_at tab i)
            (name_view bs (unat (sec_offset (strtab_of bs tab))) (unat (sec_size (strtab_of bs tab)))
               (fld bs (sym_at tab i) 4))) [0..<sym_count tab])"

definition elf_wf :: "u8 list \<Rightarrow> bool" where
  "elf_wf bs \<longleftrightarrow> header_wf bs \<and> sections_wf bs \<and> segments_wf bs \<and> symbols_wf bs"

text \<open>An array the reader never allocates is a null pointer.\<close>

definition array :: "'a list \<Rightarrow> 'a list option" where "array xs = (if xs = [] then None else Some xs)"

lemma array_simps [simp]: "array [] = None" "xs \<noteq> [] \<Longrightarrow> array xs = Some xs"
  by (simp_all add: array_def)

definition elf_view :: "u8 list \<Rightarrow> ElfFile" where
  "elf_view bs =
     \<lparr>ef_data = Some bs, ef_len = of_nat (length bs), ef_hdr = header_view bs,
      ef_sections = array (sections_view bs), ef_nsections = length (sections_view bs),
      ef_segments = array (segments_view bs), ef_nsegments = length (segments_view bs),
      ef_symbols = array (symbols_view bs), ef_nsymbols = length (symbols_view bs),
      ef_symbols_dynamic =
        (List.find (\<lambda>s. sec_type s = 2) (sections_view bs) = None \<and> symtab_of bs \<noteq> None)\<rparr>"

section \<open>Filling a table\<close>

lemma fill_loop_spec:
  assumes body: "\<And>i x. i < count \<Longrightarrow>
      \<exists>r. body i x = Some r \<and> (if ok i then r = (NSH_OK, v i) else fst r = NSH_ERR_INVALID)"
    and len: "length arr = count" and i: "i \<le> count" and pre: "take i arr = map v [0..<i]"
  shows "if \<forall>j\<in>{i..<count}. ok j then fill_loop body i count arr = Some (NSH_OK, map v [0..<count])
         else \<exists>arr'. fill_loop body i count arr = Some (NSH_ERR_INVALID, arr') \<and> length arr' = count"
  using len i pre
proof (induction "count - i" arbitrary: i arr)
  case 0
  then show ?case by (subst (1 2) fill_loop.simps) simp
next
  case (Suc k)
  then have ic: "i < count" by simp
  obtain r where r: "body i (arr ! i) = Some r"
    "if ok i then r = (NSH_OK, v i) else fst r = NSH_ERR_INVALID" using body [OF ic] by blast
  have eq: "fill_loop body i count arr =
      (if fst r \<noteq> NSH_OK then Some (fst r, arr[i := snd r]) else fill_loop body (i + 1) count (arr[i := snd r]))"
    using ic r(1) Suc.prems(1) by (subst fill_loop.simps) (simp add: rd_Some wr_Some split: prod.split)
  show ?case
  proof (cases "ok i")
    case True
    have iff: "(\<forall>j\<in>{i..<count}. ok j) \<longleftrightarrow> (\<forall>j\<in>{i + 1..<count}. ok j)"
      using True by (metis Suc_eq_plus1 Suc_leD atLeastLessThan_iff le_antisym not_less_eq_eq)
    have IH: "if \<forall>j\<in>{i + 1..<count}. ok j
        then fill_loop body (i + 1) count (arr[i := v i]) = Some (NSH_OK, map v [0..<count])
        else \<exists>arr'. fill_loop body (i + 1) count (arr[i := v i]) = Some (NSH_ERR_INVALID, arr') \<and> length arr' = count"
      by (rule Suc.hyps(1)) (use Suc.prems Suc.hyps(2) ic in \<open>auto\<close>)
    have e2: "fill_loop body i count arr = fill_loop body (i + 1) count (arr[i := v i])"
      using eq True r(2) by simp
    from IH show ?thesis unfolding iff e2 .
  next
    case False
    then show ?thesis using r(2) eq ic Suc.prems(1) by auto
  qed
qed


lemma fill_table:
  assumes body: "\<And>i x. i < count \<Longrightarrow>
      \<exists>r. body i x = Some r \<and> (if ok i then r = (NSH_OK, v i) else fst r = NSH_ERR_INVALID)"
  shows "if list_all ok [0..<count] then fill_loop body 0 count (replicate count z) = Some (NSH_OK, map v [0..<count])
         else \<exists>arr. fill_loop body 0 count (replicate count z) = Some (NSH_ERR_INVALID, arr) \<and> length arr = count"
  using fill_loop_spec [of count body ok v "replicate count z" 0, OF body]
  by (simp add: list_all_iff atLeast_upt [symmetric])

section \<open>The steps meet the specification\<close>

definition mapped :: "u8 list \<Rightarrow> ElfFile \<Rightarrow> bool" where
  "mapped bs f \<longleftrightarrow> ef_data f = Some bs \<and> ef_len f = of_nat (length bs) \<and> length bs < 2 ^ 63"

lemma mapped_len [simp]: "mapped bs f \<Longrightarrow> unat (ef_len f) = length bs"
  by (simp add: mapped_def unsigned_of_nat take_bit_nat_eq_self)

lemma in_file: "mapped bs f \<Longrightarrow> in_bounds (ef_len f) off n \<longleftrightarrow> unat off + unat n \<le> length bs"
  by (simp add: in_bounds_iff)

lemma take_4: "4 \<le> length d \<Longrightarrow> take 4 d = [d ! 0, d ! 1, d ! 2, d ! 3]"
  by (auto intro!: nth_equalityI simp: nth_Cons' less_Suc_eq numeral_eq_Suc)

lemma take_3: "7 \<le> length d \<Longrightarrow> take 3 (drop 4 d) = [d ! 4, d ! 5, d ! 6]"
  by (auto intro!: nth_equalityI simp: nth_Cons' less_Suc_eq numeral_eq_Suc)

lemma read_ehdr_spec:
  assumes "mapped bs f"
  shows "read_ehdr f = Some (if header_wf bs
     then (NSH_OK, f\<lparr>ef_hdr := header_view bs\<rparr>, of_nat (fld bs 58 2), of_nat (fld bs 54 2))
     else (NSH_ERR_INVALID, f, 0, 0))"
proof (cases "64 \<le> length bs")
  case True
  have "\<not> ef_len f < of_nat EHDR_SIZE"
    using True mapped_len [OF assms] by (simp add: word_less_nat_alt EHDR_SIZE_def)
  moreover have "ef_data f = Some bs" using assms by (simp add: mapped_def)
  moreover have "header_wf bs \<longleftrightarrow> bs ! 0 = 0x7f \<and> bs ! 1 = 0x45 \<and> bs ! 2 = 0x4c \<and> bs ! 3 = 0x46
      \<and> bs ! 4 = 2 \<and> bs ! 5 = 1 \<and> bs ! 6 = 1"
    using True by (simp add: header_wf_def take_4 take_3)
  moreover have "bs \<noteq> []" using True by auto
  ultimately show ?thesis
    using True by (simp add: read_ehdr_def rd_Some rd16_fld rd64_fld header_view_def)
next
  case False
  then show ?thesis
    using mapped_len [OF assms] by (simp add: read_ehdr_def header_wf_def word_less_nat_alt EHDR_SIZE_def)
qed

lemma table_bounds_spec:
  assumes "mapped bs f"
  shows "table_bounds f off count entsize m
    = (if unat m \<le> unat entsize \<and> unat off + unat count * unat entsize \<le> length bs
       then NSH_OK else NSH_ERR_INVALID)"
proof -
  have "unat count * unat entsize < 2 ^ 16 * 2 ^ 16"
    by (rule mult_strict_mono) (use unsigned_less [of count] unsigned_less [of entsize] in auto)
  then have "fits_mul (ucast count) (ucast entsize) = Some (ucast count * ucast entsize)"
    "unat (ucast count * ucast entsize :: u64) = unat count * unat entsize"
    by (simp_all add: fits_mul_spec unat_mult)
  then show ?thesis
    using assms by (simp add: table_bounds_def in_file word_less_nat_alt)
qed


lemma row_bound:
  assumes "t + n * e \<le> (len::nat)" "i < n" "m \<le> e"
  shows "t + i * e + m \<le> len"
proof -
  have "i * e + e \<le> n * e" using mult_le_mono1 [of "Suc i" n e] assms(2) by simp
  with assms show ?thesis by simp
qed

lemma unat_row:
  fixes e :: u16
  assumes "i < 2 ^ 16"
  shows "unat (of_nat i * ucast e :: u64) = i * unat e"
proof -
  have "unat (of_nat i :: u64) = i" using assms by (simp add: unsigned_of_nat take_bit_nat_eq_self)
  moreover have "i * unat e < 2 ^ 16 * 2 ^ 16"
    by (rule mult_strict_mono) (use unsigned_less [of e] assms in auto)
  ultimately show ?thesis by (simp add: unat_mult)
qed

text \<open>The string table of the section names: a null pointer, or inside the file.\<close>

definition shstr :: "u8 list \<Rightarrow> nat option \<times> u64" where
  "shstr bs = (if shstrndx bs = 0 then (None, 0)
     else let q = sh_at bs (shstrndx bs) in (Some (fld bs (q + 24) 8), of_nat (fld bs (q + 32) 8)))"

definition shstr_wf :: "u8 list \<Rightarrow> bool" where
  "shstr_wf bs \<longleftrightarrow> shstrndx bs = 0 \<or>
     (let q = sh_at bs (shstrndx bs)
      in fld bs (q + 4) 4 \<noteq> 8 \<and> fld bs (q + 24) 8 + fld bs (q + 32) 8 \<le> length bs)"

lemma word_fld_eq_iff:
  "(of_nat (fld d p 2) :: u16) = v \<longleftrightarrow> fld d p 2 = unat v"
  "(of_nat (fld d p 4) :: u32) = w \<longleftrightarrow> fld d p 4 = unat w"
  by (metis unat_fld word_unat_eq_iff)+

lemma find_shstrtab_spec:
  assumes f: "mapped bs f" "ef_hdr f = header_view bs"
    and t: "sh_at bs (shnum bs) \<le> length bs" "shstrndx bs < shnum bs" "64 \<le> fld bs 58 2"
  shows "\<exists>r. find_shstrtab f bs (fld bs 40 8) (of_nat (fld bs 58 2)) = Some r
    \<and> (if shstr_wf bs then r = (NSH_OK, shstr bs) else fst r = NSH_ERR_INVALID)"
proof (cases "shstrndx bs = 0")
  case True
  then have "eh_shstrndx (ef_hdr f) = SHN_UNDEF"
    by (simp add: f(2) header_view_def SHN_UNDEF_def shstrndx_def)
  then show ?thesis using True by (simp add: find_shstrtab_def shstr_wf_def shstr_def)
next
  case False
  have nz: "eh_shstrndx (ef_hdr f) \<noteq> SHN_UNDEF" "eh_shstrndx (ef_hdr f) = of_nat (shstrndx bs)"
    using False by (simp_all add: f(2) header_view_def SHN_UNDEF_def shstrndx_def word_fld_eq_iff)
  have "shstrndx bs < 2 ^ 16" using fld_less [of bs 62 2] by (simp add: shstrndx_def)
  then have q: "fld bs 40 8 + unat (ucast (of_nat (shstrndx bs) :: u16) * ucast (of_nat (fld bs 58 2) :: u16) :: u64)
      = sh_at bs (shstrndx bs)"
    using unat_row [of "shstrndx bs" "of_nat (fld bs 58 2)"]
    by (simp add: sh_at_def unsigned_ucast_eq unsigned_of_nat take_bit_nat_eq_self)
  have in_f: "sh_at bs (shstrndx bs) + 64 \<le> length bs"
    unfolding sh_at_def by (rule row_bound [OF _ t(2) t(3)]) (use t(1) in \<open>simp add: sh_at_def\<close>)
  have "find_shstrtab f bs (fld bs 40 8) (of_nat (fld bs 58 2)) = Some
      (if fld bs (sh_at bs (shstrndx bs) + 4) 4 = 8 \<or> \<not> fld bs (sh_at bs (shstrndx bs) + 24) 8 + fld bs (sh_at bs (shstrndx bs) + 32) 8 \<le> length bs
       then (NSH_ERR_INVALID, None, 0)
       else (NSH_OK, Some (fld bs (sh_at bs (shstrndx bs) + 24) 8), of_nat (fld bs (sh_at bs (shstrndx bs) + 32) 8)))"
    using in_f nz by (simp add: find_shstrtab_def q rd64_fld rd32_fld in_file [OF f(1)] SHT_NOBITS_def word_fld_eq_iff Let_def)
  then show ?thesis using False by (auto simp: shstr_wf_def shstr_def Let_def)
qed

lemma read_section_spec:
  assumes f: "mapped bs f"
    and t: "sh_at bs (shnum bs) \<le> length bs" "64 \<le> fld bs 58 2" "shstr_wf bs" "i < shnum bs"
  shows "\<exists>r. read_section bs (ef_len f) (fld bs 40 8) (of_nat (fld bs 58 2)) (fst (shstr bs)) (snd (shstr bs)) i x = Some r
    \<and> (if sh_body_wf bs (sh_at bs i) \<and> section_name_wf bs i
       then r = (NSH_OK, section_view bs (sh_at bs i) (section_name bs i)) else fst r = NSH_ERR_INVALID)"
proof -
  have "i < 2 ^ 16" using t(4) fld_less [of bs 60 2] by (simp add: shnum_def)
  then have q: "fld bs 40 8 + unat (of_nat i * ucast (of_nat (fld bs 58 2) :: u16) :: u64) = sh_at bs i"
    using unat_row [of i "of_nat (fld bs 58 2)"] by (simp add: sh_at_def)
  have in_f: "sh_at bs i + 64 \<le> length bs"
    unfolding sh_at_def by (rule row_bound [OF _ t(4) t(2)]) (use t(1) in \<open>simp add: sh_at_def\<close>)
  have nm: "copy_name bs (fst (shstr bs)) (snd (shstr bs)) (of_nat (fld bs (sh_at bs i) 4))
      = Some (if section_name_wf bs i then (NSH_OK, Some (section_name bs i)) else (NSH_ERR_INVALID, None))"
  proof (cases "shstrndx bs = 0")
    case True
    then show ?thesis by (simp add: shstr_def copy_name_def section_name_wf_def section_name_def)
  next
    case False
    then show ?thesis using t(3)
      by (simp add: shstr_def shstr_wf_def Let_def copy_name_spec section_name_wf_def section_name_def)
  qed
  show ?thesis
    using in_f
    by (simp add: read_section_def q rd64_fld rd32_fld in_file [OF f] SHT_NOBITS_def word_fld_eq_iff
        sh_body_wf_def nm section_view_def Let_def)
qed


text \<open>What \<open>elf_close\<close> relies on: an array is as long as its count says.\<close>

definition closable :: "ElfFile \<Rightarrow> bool" where
  "closable f \<longleftrightarrow>
     (case ef_sections f of None \<Rightarrow> ef_nsections f = 0 | Some xs \<Rightarrow> length xs = ef_nsections f)
     \<and> (case ef_symbols f of None \<Rightarrow> ef_nsymbols f = 0 | Some ys \<Rightarrow> length ys = ef_nsymbols f)"

lemma closable_close: "closable f \<Longrightarrow> \<exists>freed. elf_close f = Some (zero_elf, freed)"
  by (auto simp: closable_def elf_close_def owned_names_def split: option.splits)

lemma closable_simps [simp]:
  "closable (f\<lparr>ef_segments := sg, ef_nsegments := n\<rparr>) = closable f"
  "closable (f\<lparr>ef_symbols_dynamic := b\<rparr>) = closable f"
  "closable (f\<lparr>ef_hdr := h\<rparr>) = closable f"
  "closable f \<Longrightarrow> length xs = n \<Longrightarrow> closable (f\<lparr>ef_sections := Some xs, ef_nsections := n\<rparr>)"
  "closable f \<Longrightarrow> length ys = n \<Longrightarrow> closable (f\<lparr>ef_symbols := Some ys, ef_nsymbols := n\<rparr>)"
  "closable f \<Longrightarrow> length ys = n
     \<Longrightarrow> closable (f\<lparr>ef_symbols := Some ys, ef_nsymbols := n, ef_symbols_dynamic := b\<rparr>)"
  by (auto simp: closable_def split: option.splits)

lemma read_sections_none:
  assumes f: "mapped bs f" "ef_hdr f = header_view bs" "closable f" "shnum bs = 0"
  shows "read_sections f e = Some (if sections_wf bs then (NSH_OK, f) else (NSH_ERR_INVALID, f))"
  using assms
  by (simp add: read_sections_def header_view_def sections_wf_def shnum_def shstrndx_def
      word_fld_eq_iff SHN_UNDEF_def)

lemma length_sections_view [simp]:
  "length (sections_view bs) = shnum bs" "sections_view bs = [] \<longleftrightarrow> shnum bs = 0"
  by (simp_all add: sections_view_def)

lemma shstr_wf_sections:
  assumes "shstrndx bs < shnum bs" "64 \<le> fld bs 58 2" "sh_at bs (shnum bs) \<le> length bs"
  shows "sections_wf bs \<longleftrightarrow> shstr_wf bs
    \<and> list_all (\<lambda>i. sh_body_wf bs (sh_at bs i) \<and> section_name_wf bs i) [0..<shnum bs]"
  using assms by (auto simp: sections_wf_def shstr_wf_def sh_body_wf_def list_all_iff Let_def)

lemma read_sections_some:
  assumes f: "mapped bs f" "ef_hdr f = header_view bs" "closable f" "shnum bs \<noteq> 0"
  shows "if sections_wf bs
    then read_sections f (of_nat (fld bs 58 2))
      = Some (NSH_OK, f\<lparr>ef_sections := Some (sections_view bs), ef_nsections := shnum bs\<rparr>)
    else \<exists>f'. read_sections f (of_nat (fld bs 58 2)) = Some (NSH_ERR_INVALID, f') \<and> closable f'"
proof -
  have hdr: "eh_shnum (ef_hdr f) \<noteq> 0" "unat (eh_shnum (ef_hdr f)) = shnum bs"
    "unat (eh_shstrndx (ef_hdr f)) = shstrndx bs" "unat (eh_shoff (ef_hdr f)) = fld bs 40 8"
    using f by (simp_all add: header_view_def shnum_def shstrndx_def word_fld_eq_iff)
  have tb: "table_bounds f (eh_shoff (ef_hdr f)) (eh_shnum (ef_hdr f)) (of_nat (fld bs 58 2)) SHDR_SIZE
      = (if 64 \<le> fld bs 58 2 \<and> sh_at bs (shnum bs) \<le> length bs then NSH_OK else NSH_ERR_INVALID)"
    by (simp add: table_bounds_spec [OF f(1)] hdr SHDR_SIZE_def sh_at_def)
  show ?thesis
  proof (cases "shstrndx bs < shnum bs \<and> 64 \<le> fld bs 58 2 \<and> sh_at bs (shnum bs) \<le> length bs")
    case False
    then show ?thesis
      using f hdr tb by (auto simp: read_sections_def word_le_nat_alt sections_wf_def Let_def)
  next
    case True
    obtain r where r: "find_shstrtab f bs (fld bs 40 8) (of_nat (fld bs 58 2)) = Some r"
      "if shstr_wf bs then r = (NSH_OK, shstr bs) else fst r = NSH_ERR_INVALID"
      using find_shstrtab_spec [OF f(1,2)] True by blast
    have pre: "read_sections f (of_nat (fld bs 58 2)) =
        (case r of (err, st, sl) \<Rightarrow>
          if err \<noteq> NSH_OK then Some (err, f)
          else fill_loop (read_section bs (ef_len f) (fld bs 40 8) (of_nat (fld bs 58 2)) st sl)
                 0 (shnum bs) (replicate (shnum bs) zero_section) \<bind>
               (\<lambda>(err, arr). Some (err, f\<lparr>ef_sections := Some arr, ef_nsections := shnum bs\<rparr>)))"
      using f(1) hdr tb r(1) True
      by (simp add: read_sections_def word_le_nat_alt Let_def mapped_def split: prod.split)
    show ?thesis
    proof (cases "shstr_wf bs")
      case False
      then have "fst r = NSH_ERR_INVALID" "\<not> sections_wf bs"
        using r(2) True by (auto simp: shstr_wf_sections)
      then show ?thesis using pre f(3) by (cases r) auto
    next
      case st: True
      let ?ok = "\<lambda>i. sh_body_wf bs (sh_at bs i) \<and> section_name_wf bs i"
      let ?fill = "fill_loop (read_section bs (ef_len f) (fld bs 40 8) (of_nat (fld bs 58 2)) (fst (shstr bs)) (snd (shstr bs)))
                 0 (shnum bs) (replicate (shnum bs) zero_section)"
      have "if list_all ?ok [0..<shnum bs]
            then ?fill = Some (NSH_OK, map (\<lambda>i. section_view bs (sh_at bs i) (section_name bs i)) [0..<shnum bs])
            else \<exists>arr. ?fill = Some (NSH_ERR_INVALID, arr) \<and> length arr = shnum bs"
        by (rule fill_table) (use read_section_spec [OF f(1)] True st in blast)
      moreover have "sections_wf bs \<longleftrightarrow> list_all ?ok [0..<shnum bs]"
        using st True by (simp add: shstr_wf_sections)
      moreover have "r = (NSH_OK, fst (shstr bs), snd (shstr bs))" using r(2) st by simp
      ultimately show ?thesis using pre f(3)
        by (cases "shstr bs") (auto simp: sections_view_def split: if_splits)
    qed
  qed
qed

lemma read_segment_spec:
  assumes f: "mapped bs f"
    and t: "ph_at bs (phnum bs) \<le> length bs" "56 \<le> fld bs 54 2" "i < phnum bs"
  shows "\<exists>r. read_segment bs (ef_len f) (fld bs 32 8) (of_nat (fld bs 54 2)) i x = Some r
    \<and> (if fld bs (ph_at bs i + 8) 8 + fld bs (ph_at bs i + 32) 8 \<le> length bs
       then r = (NSH_OK, segment_view bs (ph_at bs i)) else fst r = NSH_ERR_INVALID)"
proof -
  have "i < 2 ^ 16" using t(3) fld_less [of bs 56 2] by (simp add: phnum_def)
  then have q: "fld bs 32 8 + unat (of_nat i * ucast (of_nat (fld bs 54 2) :: u16) :: u64) = ph_at bs i"
    using unat_row [of i "of_nat (fld bs 54 2)"] by (simp add: ph_at_def)
  have in_f: "ph_at bs i + 56 \<le> length bs"
    unfolding ph_at_def by (rule row_bound [OF _ t(3) t(2)]) (use t(1) in \<open>simp add: ph_at_def\<close>)
  then show ?thesis
    by (cases x) (simp add: read_segment_def q rd64_fld rd32_fld in_file [OF f] segment_view_def Let_def)
qed

lemma read_segments_spec:
  assumes f: "mapped bs f" "ef_hdr f = header_view bs" "closable f" "ef_segments f = None" "ef_nsegments f = 0"
  shows "if segments_wf bs
    then read_segments f (of_nat (fld bs 54 2))
      = Some (NSH_OK, f\<lparr>ef_segments := array (segments_view bs), ef_nsegments := phnum bs\<rparr>)
    else \<exists>f'. read_segments f (of_nat (fld bs 54 2)) = Some (NSH_ERR_INVALID, f') \<and> closable f'"
proof -
  have hdr: "eh_phnum (ef_hdr f) = 0 \<longleftrightarrow> phnum bs = 0" "unat (eh_phnum (ef_hdr f)) = phnum bs"
    "unat (eh_phoff (ef_hdr f)) = fld bs 32 8"
    using f by (simp_all add: header_view_def phnum_def word_fld_eq_iff)
  have tb: "table_bounds f (eh_phoff (ef_hdr f)) (eh_phnum (ef_hdr f)) (of_nat (fld bs 54 2)) PHDR_SIZE
      = (if 56 \<le> fld bs 54 2 \<and> ph_at bs (phnum bs) \<le> length bs then NSH_OK else NSH_ERR_INVALID)"
    by (simp add: table_bounds_spec [OF f(1)] hdr PHDR_SIZE_def ph_at_def)
  consider "phnum bs = 0" | "phnum bs \<noteq> 0" "\<not> (56 \<le> fld bs 54 2 \<and> ph_at bs (phnum bs) \<le> length bs)"
    | "phnum bs \<noteq> 0" "56 \<le> fld bs 54 2" "ph_at bs (phnum bs) \<le> length bs" by blast
  then show ?thesis
  proof cases
    case 1
    then show ?thesis using f(4,5) hdr
      by (simp add: read_segments_def segments_wf_def segments_view_def array_def)
  next
    case 2
    then show ?thesis using f hdr tb by (auto simp: read_segments_def segments_wf_def Let_def)
  next
    case 3
    let ?ok = "\<lambda>i. fld bs (ph_at bs i + 8) 8 + fld bs (ph_at bs i + 32) 8 \<le> length bs"
    let ?fill = "fill_loop (read_segment bs (ef_len f) (fld bs 32 8) (of_nat (fld bs 54 2)))
                 0 (phnum bs) (replicate (phnum bs) zero_segment)"
    have pre: "read_segments f (of_nat (fld bs 54 2)) = ?fill \<bind>
         (\<lambda>(err, arr). Some (err, f\<lparr>ef_segments := Some arr, ef_nsegments := phnum bs\<rparr>))"
      using f(1) hdr tb 3 by (simp add: read_segments_def Let_def mapped_def)
    have "if list_all ?ok [0..<phnum bs]
          then ?fill = Some (NSH_OK, map (\<lambda>i. segment_view bs (ph_at bs i)) [0..<phnum bs])
          else \<exists>arr. ?fill = Some (NSH_ERR_INVALID, arr) \<and> length arr = phnum bs"
      by (rule fill_table) (use read_segment_spec [OF f(1)] 3 in blast)
    moreover have "segments_wf bs \<longleftrightarrow> list_all ?ok [0..<phnum bs]" using 3 by (simp add: segments_wf_def)
    ultimately show ?thesis using pre f(3) 3
      by (auto simp: segments_view_def array_def split: if_splits)
  qed
qed


lemma section_in_file:
  assumes "sections_wf bs" "s \<in> set (sections_view bs)" "sec_type s \<noteq> 8"
  shows "unat (sec_offset s) + unat (sec_size s) \<le> length bs"
proof -
  obtain i where i: "i < shnum bs" "s = section_view bs (sh_at bs i) (section_name bs i)"
    using assms(2) by (auto simp: sections_view_def)
  then have "sh_body_wf bs (sh_at bs i)" using assms(1) by (auto simp: sections_wf_def list_all_iff)
  then show ?thesis using assms(3) i(2) by (simp add: sh_body_wf_def section_view_def word_fld_eq_iff)
qed

lemma symtab_of_mem:
  "symtab_of bs = Some tab \<Longrightarrow> tab \<in> set (sections_view bs) \<and> (sec_type tab = 2 \<or> sec_type tab = 11)"
  by (auto simp: symtab_of_def find_Some_iff split: option.splits)

lemma pick_symtab_spec:
  "pick_symtab (sections_view bs) False = (symtab_of bs, ef_symbols_dynamic (elf_view bs))"
  by (auto simp: pick_symtab_def symtab_of_def elf_view_def SHT_SYMTAB_def SHT_DYNSYM_def split: option.split)

lemma sym_pos:
  assumes "24 \<le> unat (sec_entsize tab)" "i < sym_count tab"
  shows "unat (of_nat i * sec_entsize tab) = i * unat (sec_entsize tab)"
    "i * unat (sec_entsize tab) + 24 \<le> unat (sec_size tab)"
proof -
  have "Suc i * unat (sec_entsize tab) \<le> sym_count tab * unat (sec_entsize tab)"
    using assms(2) by (intro mult_le_mono1) simp
  also have "\<dots> \<le> unat (sec_size tab)" by (simp add: sym_count_def)
  finally have b: "i * unat (sec_entsize tab) + unat (sec_entsize tab) \<le> unat (sec_size tab)" by simp
  then show "i * unat (sec_entsize tab) + 24 \<le> unat (sec_size tab)" using assms(1) by simp
  have "unat (sec_size tab) < 2 ^ LENGTH(64)" by (rule unsigned_less)
  then have s: "unat (sec_size tab) < 18446744073709551616" by simp
  have "i * 1 \<le> i * unat (sec_entsize tab)" using assms(1) by (intro mult_le_mono2) simp
  with b s have "i < 18446744073709551616" by linarith
  then have "unat (of_nat i :: u64) = i" by (simp add: unsigned_of_nat take_bit_nat_eq_self)
  with b s show "unat (of_nat i * sec_entsize tab) = i * unat (sec_entsize tab)"
    by (simp add: unat_mult)
qed

lemma read_symbol_spec:
  assumes t: "24 \<le> unat (sec_entsize tab)" "i < sym_count tab"
      "unat (sec_offset tab) + unat (sec_size tab) \<le> length bs"
      "unat (sec_offset str) + unat (sec_size str) \<le> length bs"
    and ok: "ok = name_wf bs (unat (sec_offset str)) (unat (sec_size str)) (fld bs (sym_at tab i) 4)"
  shows "\<exists>r. read_symbol bs tab (unat (sec_offset str)) (sec_size str) i x = Some r
    \<and> (if ok then r = (NSH_OK, symbol_view bs (sym_at tab i)
                 (name_view bs (unat (sec_offset str)) (unat (sec_size str)) (fld bs (sym_at tab i) 4)))
       else fst r = NSH_ERR_INVALID)"
proof -
  note pos = sym_pos [OF t(1,2)]
  have "in_bounds (sec_size tab) (of_nat i * sec_entsize tab) SYM_SIZE"
    using pos by (simp add: in_bounds_iff SYM_SIZE_def)
  moreover have "sym_at tab i + 24 \<le> length bs" using pos t(3) by (simp add: sym_at_def)
  moreover have "unat (sec_offset tab) + i * unat (sec_entsize tab) = sym_at tab i" by (simp add: sym_at_def)
  ultimately show ?thesis
    by (simp add: read_symbol_def Let_def pos(1) rd64_fld rd32_fld rd16_fld rd_Some
        copy_name_spec [OF t(4)] ok symbol_view_def)
qed

lemma read_symbols_spec:
  assumes f: "mapped bs f" "ef_sections f = array (sections_view bs)" "ef_nsections f = shnum bs"
      "ef_symbols f = None" "ef_nsymbols f = 0" "\<not> ef_symbols_dynamic f" "closable f"
    and wf: "sections_wf bs"
  shows "if symbols_wf bs
    then read_symbols f
      = Some (NSH_OK, f\<lparr>ef_symbols := array (symbols_view bs), ef_nsymbols := length (symbols_view bs),
                       ef_symbols_dynamic := ef_symbols_dynamic (elf_view bs)\<rparr>)
    else \<exists>f'. read_symbols f = Some (NSH_ERR_INVALID, f') \<and> closable f'"
proof -
  let ?f = "f\<lparr>ef_symbols_dynamic := ef_symbols_dynamic (elf_view bs)\<rparr>"
  have secs: "(case ef_sections f of None \<Rightarrow> [] | Some s \<Rightarrow> take (ef_nsections f) s) = sections_view bs"
    using f(2,3) by (simp add: array_def sections_view_def)
  note start = read_symbols_def [of f, unfolded secs] pick_symtab_spec
  show ?thesis
  proof (cases "symtab_of bs")
    case None
    then show ?thesis using f by (simp add: start symbols_wf_def symbols_view_def)
  next
    case (Some tab)
    then have tab: "tab \<in> set (sections_view bs)" "sec_type tab \<noteq> SHT_NOBITS"
      "unat (sec_offset tab) + unat (sec_size tab) \<le> length bs"
      using symtab_of_mem [OF Some] section_in_file [OF wf, of tab] by (auto simp: SHT_NOBITS_def)
    let ?str = "strtab_of bs tab"
    show ?thesis
    proof (cases "24 \<le> unat (sec_entsize tab) \<and> unat (sec_link tab) < shnum bs \<and> sec_type ?str = 3")
      case False
      then show ?thesis
        using f Some tab
        by (auto simp: start symbols_wf_def SYM_SIZE_def word_less_nat_alt SHT_STRTAB_def rd_Some strtab_of_def Let_def)
    next
      case True
      then have str: "rd (sections_view bs) (unat (sec_link tab)) = Some ?str"
        by (simp add: rd_Some strtab_of_def)
      have sin: "unat (sec_offset ?str) + unat (sec_size ?str) \<le> length bs"
        using True by (intro section_in_file [OF wf]) (auto simp: strtab_of_def)
      let ?ok = "\<lambda>i. name_wf bs (unat (sec_offset ?str)) (unat (sec_size ?str)) (fld bs (sym_at tab i) 4)"
      let ?v = "\<lambda>i. symbol_view bs (sym_at tab i)
            (name_view bs (unat (sec_offset ?str)) (unat (sec_size ?str)) (fld bs (sym_at tab i) 4))"
      let ?fill = "fill_loop (read_symbol bs tab (unat (sec_offset ?str)) (sec_size ?str))
                 0 (sym_count tab) (replicate (sym_count tab) zero_symbol)"
      have cnt: "unat (sec_size tab div sec_entsize tab) = sym_count tab"
        by (simp add: sym_count_def unat_div_distrib)
      have "sym_count tab * 24 \<le> sym_count tab * unat (sec_entsize tab)"
        using True by (intro mult_le_mono2) simp
      also have "\<dots> \<le> unat (sec_size tab)" by (simp add: sym_count_def)
      also have "\<dots> < 2 ^ 63" using tab(3) f(1) by (simp add: mapped_def)
      finally have small: "\<not> sec_size tab div sec_entsize tab > (- 1) div SIZEOF_SYMBOL"
        by (simp add: word_less_nat_alt unat_div_distrib max_word SIZEOF_SYMBOL_def
          flip: sym_count_def)
      have f1: "ef_data f = Some bs" "in_bounds (ef_len f) (sec_offset ?str) (sec_size ?str)"
        using f(1) sin by (simp add: mapped_def) (simp add: in_file [OF f(1)] sin)
      have pre: "read_symbols f = (if sym_count tab = 0 then Some (NSH_OK, ?f)
          else ?fill \<bind> (\<lambda>(err, arr). Some (err, ?f\<lparr>ef_symbols := Some arr, ef_nsymbols := sym_count tab\<rparr>)))"
        using f(2-7) f1 True tab small
        by (simp add: start Some str SYM_SIZE_def word_less_nat_alt SHT_STRTAB_def Let_def
            cnt flip: unat_eq_0)
      have "if list_all ?ok [0..<sym_count tab] then ?fill = Some (NSH_OK, map ?v [0..<sym_count tab])
            else \<exists>arr. ?fill = Some (NSH_ERR_INVALID, arr) \<and> length arr = sym_count tab"
        by (rule fill_table) (use read_symbol_spec [OF _ _ tab(3) sin] True in blast)
      moreover have "symbols_wf bs \<longleftrightarrow> list_all ?ok [0..<sym_count tab]"
        using True Some by (simp add: symbols_wf_def)
      moreover have "symbols_view bs = map ?v [0..<sym_count tab]" using Some by (simp add: symbols_view_def)
      ultimately show ?thesis using pre f(4,5,7)
        by (cases "sym_count tab = 0") (auto simp: array_def split: if_splits)
    qed
  qed
qed


lemma read_sections_spec:
  assumes f: "mapped bs f" "ef_hdr f = header_view bs" "closable f" "ef_sections f = None" "ef_nsections f = 0"
  shows "if sections_wf bs
    then read_sections f (of_nat (fld bs 58 2))
      = Some (NSH_OK, f\<lparr>ef_sections := array (sections_view bs), ef_nsections := shnum bs\<rparr>)
    else \<exists>f'. read_sections f (of_nat (fld bs 58 2)) = Some (NSH_ERR_INVALID, f') \<and> closable f'"
proof (cases "shnum bs = 0")
  case True
  then show ?thesis
    using f read_sections_none [OF f(1,2,3)] by (simp add: sections_view_def)
next
  case False
  then have "sections_view bs \<noteq> []" by (simp add: sections_view_def)
  then show ?thesis using read_sections_some [OF f(1,2,3) False] by simp
qed

definition opened_elf :: "u8 list \<Rightarrow> ElfFile" where
  "opened_elf bs = zero_elf\<lparr>ef_data := Some bs, ef_len := of_nat (length bs)\<rparr>"

lemma opened_simps [simp]:
  "ef_data (opened_elf bs) = Some bs" "ef_len (opened_elf bs) = of_nat (length bs)"
  "ef_sections (opened_elf bs) = None" "ef_nsections (opened_elf bs) = 0"
  "ef_segments (opened_elf bs) = None" "ef_nsegments (opened_elf bs) = 0"
  "ef_symbols (opened_elf bs) = None" "ef_nsymbols (opened_elf bs) = 0"
  "\<not> ef_symbols_dynamic (opened_elf bs)" "closable (opened_elf bs)"
  by (simp_all add: opened_elf_def zero_elf_def closable_def)

lemma elf_parse_spec:
  assumes "length bs < 2 ^ 63"
  shows "if elf_wf bs then elf_parse (opened_elf bs) = Some (NSH_OK, elf_view bs)
    else \<exists>f'. elf_parse (opened_elf bs) = Some (NSH_ERR_INVALID, f') \<and> closable f'"
proof (cases "header_wf bs")
  case False
  have m: "mapped bs (opened_elf bs)" using assms by (simp add: mapped_def)
  show ?thesis using False by (simp add: elf_parse_def read_ehdr_spec [OF m] elf_wf_def)
next
  case hdr: True
  define f1 where "f1 = (opened_elf bs)\<lparr>ef_hdr := header_view bs\<rparr>"
  define f2 where "f2 = f1\<lparr>ef_sections := array (sections_view bs), ef_nsections := shnum bs\<rparr>"
  define f3 where "f3 = f2\<lparr>ef_segments := array (segments_view bs), ef_nsegments := phnum bs\<rparr>"
  have m: "mapped bs (opened_elf bs)" "mapped bs f1" "mapped bs f2" "mapped bs f3"
    using assms by (simp_all add: mapped_def f1_def f2_def f3_def)
  have c: "closable f1" "closable f2" "closable f3"
    by (auto simp: f1_def f2_def f3_def closable_def array_def opened_elf_def zero_elf_def)
  note sec = read_sections_spec [of bs f1, OF m(2) _ c(1)]
  note seg = read_segments_spec [of bs f2, OF m(3) _ c(2)]
  note sym = read_symbols_spec [of bs f3, OF m(4) _ _ _ _ _ c(3)]
  have start: "read_ehdr (opened_elf bs) = Some (NSH_OK, f1, of_nat (fld bs 58 2), of_nat (fld bs 54 2))"
    using hdr by (simp add: read_ehdr_spec [OF m(1)] f1_def)
  consider "\<not> sections_wf bs" | "sections_wf bs" "\<not> segments_wf bs" | "sections_wf bs" "segments_wf bs" by blast
  then show ?thesis
  proof cases
    case 1
    then obtain f' where "read_sections f1 (of_nat (fld bs 58 2)) = Some (NSH_ERR_INVALID, f')" "closable f'"
      using sec by (auto simp: f1_def)
    then show ?thesis using 1 by (simp add: elf_parse_def start elf_wf_def)
  next
    case 2
    then have s: "read_sections f1 (of_nat (fld bs 58 2)) = Some (NSH_OK, f2)"
      using sec by (simp add: f1_def f2_def)
    obtain f' where "read_segments f2 (of_nat (fld bs 54 2)) = Some (NSH_ERR_INVALID, f')" "closable f'"
      using seg 2 by (auto simp: f1_def f2_def)
    then show ?thesis using 2 by (simp add: elf_parse_def start s elf_wf_def)
  next
    case 3
    then have s: "read_sections f1 (of_nat (fld bs 58 2)) = Some (NSH_OK, f2)"
      using sec by (simp add: f1_def f2_def)
    have g: "read_segments f2 (of_nat (fld bs 54 2)) = Some (NSH_OK, f3)"
      using seg 3 by (simp add: f1_def f2_def f3_def)
    have v: "f3\<lparr>ef_symbols := array (symbols_view bs), ef_nsymbols := length (symbols_view bs),
               ef_symbols_dynamic := ef_symbols_dynamic (elf_view bs)\<rparr> = elf_view bs"
      by (simp add: f1_def f2_def f3_def opened_elf_def zero_elf_def elf_view_def segments_view_def)
    have "if symbols_wf bs then read_symbols f3 = Some (NSH_OK, elf_view bs)
        else \<exists>f'. read_symbols f3 = Some (NSH_ERR_INVALID, f') \<and> closable f'"
      using sym 3 unfolding v by (simp add: f1_def f2_def f3_def)
    then show ?thesis using 3 hdr by (simp add: elf_parse_def start s g elf_wf_def split: if_splits)
  qed
qed

section \<open>The properties\<close>

text \<open>What the operating system promises: a mapping has the size \<open>fstat\<close> gave, which is an \<open>off_t\<close>.\<close>

definition honest :: "FileAnswer \<Rightarrow> bool" where
  "honest fa \<longleftrightarrow> fa_size fa < 2 ^ 63
     \<and> (case fa_map fa of None \<Rightarrow> True | Some bs \<Rightarrow> int (length bs) = fa_size fa)"

lemma elf_open_result:
  assumes "honest fa"
  shows "elf_open (Some path) fa fds out = Some
     (if \<not> fa_open fa \<or> \<not> fa_stat fa then (NSH_ERR_IO, zero_elf, fds)
      else if \<not> fa_regular fa \<or> fa_size fa \<le> 0 then (NSH_ERR_INVALID, zero_elf, fds)
      else case fa_map fa of
        None \<Rightarrow> (NSH_ERR_IO, zero_elf, fds)
      | Some bs \<Rightarrow> if elf_wf bs then (NSH_OK, elf_view bs, fds) else (NSH_ERR_INVALID, zero_elf, fds))"
proof (cases "fa_open fa \<and> fa_stat fa \<and> fa_regular fa \<and> 0 < fa_size fa")
  case False
  then show ?thesis by (auto simp: elf_open_def map_file_def)
next
  case True
  show ?thesis
  proof (cases "fa_map fa")
    case None
    then show ?thesis using True by (simp add: elf_open_def map_file_def)
  next
    case (Some bs)
    then have len: "fa_size fa = int (length bs)" "length bs < 2 ^ 63" using assms by (auto simp: honest_def)
    have m: "map_file fa fds zero_elf = (NSH_OK, opened_elf bs, fds)"
      using True Some by (simp add: map_file_def opened_elf_def len(1))
    show ?thesis
    proof (cases "elf_wf bs")
      case True
      then show ?thesis using elf_parse_spec [OF len(2)] \<open>fa_open fa \<and> _\<close> Some
        by (simp add: elf_open_def m)
    next
      case False
      then obtain f' where f': "elf_parse (opened_elf bs) = Some (NSH_ERR_INVALID, f')" "closable f'"
        using elf_parse_spec [OF len(2)] by auto
      obtain freed where "elf_close f' = Some (zero_elf, freed)" using closable_close [OF f'(2)] by blast
      then show ?thesis using f'(1) False \<open>fa_open fa \<and> _\<close> Some by (simp add: elf_open_def m)
    qed
  qed
qed


text \<open>The type of a parsed file: every range lies in the file, every name is a C string.\<close>

definition c_name :: "string option \<Rightarrow> bool" where
  "c_name n \<longleftrightarrow> (case n of None \<Rightarrow> False | Some s \<Rightarrow> nul_free s)"

definition elf_file_ok :: "ElfFile \<Rightarrow> bool" where
  "elf_file_ok f \<longleftrightarrow>
     (case ef_data f of None \<Rightarrow> False | Some d \<Rightarrow> unat (ef_len f) = length d)
     \<and> closable f
     \<and> (case ef_segments f of None \<Rightarrow> ef_nsegments f = 0 | Some gs \<Rightarrow> length gs = ef_nsegments f
          \<and> list_all (\<lambda>g. unat (seg_offset g) + unat (seg_filesz g) \<le> unat (ef_len f)) gs)
     \<and> (case ef_sections f of None \<Rightarrow> True | Some ss \<Rightarrow>
          list_all (\<lambda>s. c_name (sec_name s)
            \<and> (sec_type s \<noteq> SHT_NOBITS \<longrightarrow> unat (sec_offset s) + unat (sec_size s) \<le> unat (ef_len f))) ss)
     \<and> (case ef_symbols f of None \<Rightarrow> True | Some ys \<Rightarrow>
          list_all (\<lambda>y. c_name (sym_name y) \<and> unat (sym_bind y) < 16 \<and> unat (sym_type y) < 16) ys)"

lemma byte_char_NUL: "NUL = byte_char b \<longleftrightarrow> b = 0"
proof -
  have "unat b < 2 ^ LENGTH(8)" by (rule unsigned_less)
  then have n: "of_char (byte_char b) = unat b" by (simp add: byte_char_def)
  have z: "of_char NUL = (0 :: nat)" by simp
  show ?thesis by (metis n z of_char_eq_iff unat_eq_0)
qed

lemma name_view_nul_free: "nul_free (name_view bs t n idx)"
  by (auto simp: nul_free_def name_view_def byte_char_NUL dest: set_takeWhileD)

lemma nibbles: "unat (drop_bit 4 (b :: u8)) < 16" "unat (b AND 0xf :: u8) < 16"
proof -
  have "unat b < 2 ^ LENGTH(8)" by (rule unsigned_less)
  then show "unat (drop_bit 4 b) < 16" by (simp add: drop_bit_eq_div unat_div_distrib)
  have "b AND 0xf \<le> (0xf :: u8)" by (rule word_and_le1)
  then show "unat (b AND 0xf) < 16" by (simp add: word_le_nat_alt)
qed

lemma elf_view_ok:
  assumes wf: "elf_wf bs" and len: "length bs < 2 ^ 63"
  shows "elf_file_ok (elf_view bs)"
proof -
  have l: "unat (ef_len (elf_view bs)) = length bs" "ef_data (elf_view bs) = Some bs"
    using len by (simp_all add: elf_view_def unsigned_of_nat take_bit_nat_eq_self)
  have "list_all (\<lambda>g. unat (seg_offset g) + unat (seg_filesz g) \<le> length bs) (segments_view bs)"
    using wf by (auto simp: elf_wf_def segments_wf_def segments_view_def segment_view_def list_all_iff)
  moreover have "list_all (\<lambda>s. c_name (sec_name s)
            \<and> (sec_type s \<noteq> SHT_NOBITS \<longrightarrow> unat (sec_offset s) + unat (sec_size s) \<le> length bs)) (sections_view bs)"
    using section_in_file [of bs] wf
    by (auto simp: elf_wf_def sections_view_def section_view_def section_name_def c_name_def
        name_view_nul_free Let_def list_all_iff SHT_NOBITS_def)
  moreover have "list_all (\<lambda>y. c_name (sym_name y) \<and> unat (sym_bind y) < 16 \<and> unat (sym_type y) < 16)
      (symbols_view bs)"
    by (auto simp: symbols_view_def symbol_view_def c_name_def name_view_nul_free nibbles list_all_iff
        split: option.split)
  ultimately show ?thesis
    unfolding elf_file_ok_def l by (auto simp: elf_view_def closable_def array_def)
qed

text \<open>C4: \<open>elf_open\<close> never reads outside the mapping, for any bytes whatsoever. It accepts exactly
  the files that are well formed in plain arithmetic (so no wrapped sum or product lets a bad
  file through, and none rejects a good one), returns exactly their header, sections, segments
  and symbols, gives an I/O error exactly when the file cannot be opened or mapped, and in every
  other case \<open>NSH_ERR_INVALID\<close> and a zeroed struct; no descriptor is left open.\<close>

theorem elf_open_accepts_wellformed:
  assumes "honest fa"
  shows "elf_open (Some path) fa fds out = Some
     (if \<not> fa_open fa \<or> \<not> fa_stat fa then (NSH_ERR_IO, zero_elf, fds)
      else if \<not> fa_regular fa \<or> fa_size fa \<le> 0 then (NSH_ERR_INVALID, zero_elf, fds)
      else case fa_map fa of
        None \<Rightarrow> (NSH_ERR_IO, zero_elf, fds)
      | Some bs \<Rightarrow> if elf_wf bs then (NSH_OK, elf_view bs, fds) else (NSH_ERR_INVALID, zero_elf, fds))"
  using assms by (rule elf_open_result)

text \<open>C39: whatever \<open>elf_open\<close> returns with \<open>NSH_OK\<close> is a well-typed file: the array lengths are the
  counts, every section that owns bytes and every segment lies inside the mapping, and every name
  is a NUL-free string.\<close>

theorem elf_open_well_typed:
  assumes "honest fa" "elf_open path fa fds out = Some (NSH_OK, f, fds')"
  shows "elf_file_ok f"
proof -
  obtain p where "path = Some p" using assms(2) by (cases path) (auto simp: elf_open_def)
  then show ?thesis
    using assms elf_open_result [OF assms(1), of p fds out] elf_view_ok
    by (auto simp: honest_def split: if_splits option.splits)
qed


text \<open>A small executable: one segment, a symbol table with the symbol \<open>main\<close>, a string table.\<close>

definition small_elf :: "u8 list" where
  "small_elf =
    [127, 69, 76, 70, 2, 1, 1, 0, 0, 0, 0, 0, 0, 0, 0, 0, 2, 0, 62, 0, 1, 0, 0, 0,
     0, 16, 64, 0, 0, 0, 0, 0, 64, 0, 0, 0, 0, 0, 0, 0, 120, 0, 0, 0, 0, 0, 0, 0,
     0, 0, 0, 0, 64, 0, 56, 0, 1, 0, 64, 0, 2, 0, 1, 0, 1, 0, 0, 0, 5, 0, 0, 0,
     0, 0, 0, 0, 0, 0, 0, 0, 0, 0, 64, 0, 0, 0, 0, 0, 0, 0, 64, 0, 0, 0, 0, 0,
     38, 1, 0, 0, 0, 0, 0, 0, 38, 1, 0, 0, 0, 0, 0, 0, 0, 16, 0, 0, 0, 0, 0, 0,
     9, 0, 0, 0, 2, 0, 0, 0, 2, 0, 0, 0, 0, 0, 0, 0, 0, 0, 0, 0, 0, 0, 0, 0,
     14, 1, 0, 0, 0, 0, 0, 0, 24, 0, 0, 0, 0, 0, 0, 0, 1, 0, 0, 0, 0, 0, 0, 0,
     8, 0, 0, 0, 0, 0, 0, 0, 24, 0, 0, 0, 0, 0, 0, 0, 1, 0, 0, 0, 3, 0, 0, 0,
     0, 0, 0, 0, 0, 0, 0, 0, 0, 0, 0, 0, 0, 0, 0, 0, 248, 0, 0, 0, 0, 0, 0, 0,
     22, 0, 0, 0, 0, 0, 0, 0, 0, 0, 0, 0, 0, 0, 0, 0, 1, 0, 0, 0, 0, 0, 0, 0,
     0, 0, 0, 0, 0, 0, 0, 0, 0, 46, 115, 116, 114, 116, 97, 98, 0, 46, 115, 121, 109, 116, 97, 98,
     0, 109, 97, 105, 110, 0, 17, 0, 0, 0, 18, 0, 241, 255, 0, 16, 64, 0, 0, 0, 0, 0, 7, 0,
     0, 0, 0, 0, 0, 0]"

definition small_answer :: FileAnswer where
  "small_answer = \<lparr>fa_open = True, fa_stat = True, fa_regular = True, fa_size = 294,
                   fa_map = Some small_elf\<rparr>"

lemma small_fields:
  "fld small_elf 32 8 = 64"
  "fld small_elf 40 8 = 120"
  "fld small_elf 54 2 = 56"
  "fld small_elf 56 2 = 1"
  "fld small_elf 58 2 = 64"
  "fld small_elf 60 2 = 2"
  "fld small_elf 62 2 = 1"
  "fld small_elf 120 4 = 9"
  "fld small_elf 124 4 = 2"
  "fld small_elf 144 8 = 270"
  "fld small_elf 152 8 = 24"
  "fld small_elf 160 4 = 1"
  "fld small_elf 176 8 = 24"
  "fld small_elf 184 4 = 1"
  "fld small_elf 188 4 = 3"
  "fld small_elf 208 8 = 248"
  "fld small_elf 216 8 = 22"
  "fld small_elf 224 4 = 0"
  "fld small_elf 240 8 = 0"
  "fld small_elf 72 8 = 0"
  "fld small_elf 96 8 = 294"
  "fld small_elf 270 4 = 17"
  by (simp_all add: small_elf_def fld_def le_val_def)

lemma small_length: "length small_elf = 294" by (simp add: small_elf_def)

lemma small_table: "take 22 (drop 248 small_elf) = [0, 46, 115, 116, 114, 116, 97, 98, 0, 46, 115, 121, 109, 116, 97, 98, 0, 109, 97, 105, 110, 0]"
  by (simp add: small_elf_def)

lemma small_counts: "shnum small_elf = 2" "phnum small_elf = 1" "shstrndx small_elf = 1"
  "sh_at small_elf i = 120 + i * 64" "ph_at small_elf i = 64 + i * 56"
  by (simp_all add: shnum_def phnum_def shstrndx_def sh_at_def ph_at_def small_fields)

lemma upt_two: "[0..<2] = [0, 1 :: nat]" by (simp add: upt_rec)

lemma small_sections: "sections_view small_elf =
   [section_view small_elf 120 ''.symtab'', section_view small_elf 184 ''.strtab'']"
  by (simp add: sections_view_def small_counts small_fields upt_two section_name_def name_view_def
      tab_tail_def small_table byte_char_def Let_def char_of_def bit_Suc_0_iff)


lemma small_symtab: "symtab_of small_elf = Some (section_view small_elf 120 ''.symtab'')"
  by (simp add: symtab_of_def small_sections section_view_def small_fields)

lemma small_wf: "elf_wf small_elf"
proof -
  have "header_wf small_elf" by (simp add: header_wf_def small_length) (simp add: small_elf_def)
  moreover have "sections_wf small_elf"
    by (simp add: sections_wf_def small_counts small_fields small_length upt_two sh_body_wf_def
        section_name_wf_def name_wf_def tab_tail_def small_table Let_def)
  moreover have "segments_wf small_elf"
    by (simp add: segments_wf_def small_counts small_fields small_length upt_rec)
  moreover have "symbols_wf small_elf"
    by (simp add: symbols_wf_def small_symtab strtab_of_def small_sections section_view_def small_fields
        small_counts sym_count_def sym_at_def name_wf_def tab_tail_def small_table upt_rec)
  ultimately show ?thesis by (simp add: elf_wf_def)
qed

lemma small_honest: "honest small_answer"
  by (simp add: honest_def small_answer_def small_length)

lemma elf_open_accepts_wellformed_witness:
  "honest small_answer
   \<and> elf_open (Some ''a.out'') small_answer 3 zero_elf = Some (NSH_OK, elf_view small_elf, 3)
   \<and> map sym_name (symbols_view small_elf) = [Some ''main'']"
proof -
  have "map sym_name (symbols_view small_elf) = [Some ''main'']"
    by (simp add: symbols_view_def symbol_view_def small_symtab strtab_of_def small_sections section_view_def
        small_fields small_counts sym_count_def sym_at_def name_view_def tab_tail_def small_table upt_rec
        byte_char_def char_of_def bit_Suc_0_iff)
  then show ?thesis
    using elf_open_accepts_wellformed [OF small_honest, of "''a.out''" 3 zero_elf] small_honest small_wf
    by (simp add: small_answer_def)
qed

lemma elf_open_well_typed_witness: "elf_file_ok (elf_view small_elf)"
proof (rule elf_open_well_typed [OF small_honest])
  show "elf_open (Some ''a.out'') small_answer 3 zero_elf = Some (NSH_OK, elf_view small_elf, 3)"
    using elf_open_result [OF small_honest] small_wf by (simp add: small_answer_def)
qed

end
