(* ===== verification/Inspect.thy ===== *)
theory Inspect
  imports Elf_Props
begin

unbundle bit_operations_syntax

text \<open>
  \<open>src/inspect/print.c\<close> and \<open>inspect.c\<close>: the four views of a parsed ELF file and the builtin that
  prints them. Output is text; the arrays of the parsed file are read through \<open>rd\<close>. The file
  system is a function from paths to what \<open>open\<close>, \<open>fstat\<close> and \<open>mmap\<close> answer.
\<close>

section \<open>Names of the constants\<close>

definition HEX_BUF :: nat where "HEX_BUF = 16"
definition KEY_WIDTH :: nat where "KEY_WIDTH = 8"

text \<open>\<open>snprintf\<close> into a buffer of \<open>cap\<close> bytes keeps one of them for the terminator.\<close>

definition hex_str :: "nat \<Rightarrow> nat \<Rightarrow> string" where
  "hex_str v cap = take (cap - 1) (''0x'' @ hex_nat v)"

definition safe_name :: "string option \<Rightarrow> string" where
  "safe_name name = (case name of None \<Rightarrow> [] | Some s \<Rightarrow> s)"

definition file_type_name :: "u16 \<Rightarrow> string option" where
  "file_type_name t =
     (if t = 1 then Some ''REL'' else if t = 2 then Some ''EXEC'' else if t = 3 then Some ''DYN''
      else if t = 4 then Some ''CORE'' else None)"

definition section_type_name :: "u32 \<Rightarrow> nat \<Rightarrow> string" where
  "section_type_name t cap =
     (if t = 1 then ''PROGBITS'' else if t = 2 then ''SYMTAB'' else if t = 3 then ''STRTAB''
      else if t = 4 then ''RELA'' else if t = 6 then ''DYNAMIC'' else if t = 7 then ''NOTE''
      else if t = 8 then ''NOBITS'' else if t = 11 then ''DYNSYM'' else hex_str (unat t) cap)"

definition segment_type_name :: "u32 \<Rightarrow> nat \<Rightarrow> string" where
  "segment_type_name t cap =
     (if t = 1 then ''LOAD'' else if t = 2 then ''DYNAMIC'' else if t = 3 then ''INTERP''
      else if t = 4 then ''NOTE'' else if t = 6 then ''PHDR''
      else if t = 0x6474e550 then ''GNU_EH_FRAME'' else if t = 0x6474e551 then ''GNU_STACK''
      else if t = 0x6474e552 then ''GNU_RELRO'' else hex_str (unat t) cap)"

definition bind_name :: "u8 \<Rightarrow> nat \<Rightarrow> string" where
  "bind_name b cap =
     (if b = 0 then ''LOCAL'' else if b = 1 then ''GLOBAL'' else if b = 2 then ''WEAK''
      else hex_str (unat b) cap)"

definition symbol_type_name :: "u8 \<Rightarrow> nat \<Rightarrow> string" where
  "symbol_type_name t cap =
     (if t = 0 then ''NOTYPE'' else if t = 1 then ''OBJECT'' else if t = 2 then ''FUNC''
      else if t = 3 then ''SECTION'' else if t = 4 then ''FILE'' else hex_str (unat t) cap)"

definition section_flag_letters :: "u64 \<Rightarrow> string" where
  "section_flag_letters flags =
     (let s = (if flags AND 0x1 \<noteq> 0 then ''W'' else []) @ (if flags AND 0x2 \<noteq> 0 then ''A'' else [])
              @ (if flags AND 0x4 \<noteq> 0 then ''X'' else [])
      in if s = [] then ''-'' else s)"

definition segment_perm_letters :: "u32 \<Rightarrow> string" where
  "segment_perm_letters flags =
     [if flags AND 0x4 \<noteq> 0 then CHR ''r'' else CHR ''-'',
      if flags AND 0x2 \<noteq> 0 then CHR ''w'' else CHR ''-'',
      if flags AND 0x1 \<noteq> 0 then CHR ''x'' else CHR ''-'']"

section \<open>The views\<close>

text \<open>\<open>0x%0Nx\<close>, \<open>%Nu\<close> and a line of columns two blanks apart.\<close>

definition hex_col :: "nat \<Rightarrow> nat \<Rightarrow> string" where
  "hex_col n v = ''0x'' @ pad_left (CHR ''0'') n (hex_nat v)"

definition dec_col :: "nat \<Rightarrow> nat \<Rightarrow> string" where
  "dec_col n v = pad_left (CHR '' '') n (dec_nat v)"

fun columns :: "string list \<Rightarrow> string" where
  "columns [] = [NEWLINE]"
| "columns [s] = s @ [NEWLINE]"
| "columns (s # t # ss) = s @ ''  '' @ columns (t # ss)"

definition key_line :: "string \<Rightarrow> string \<Rightarrow> string" where
  "key_line k v = columns [pad_right KEY_WIDTH k, v]"

definition elf_print_header :: "ElfFile \<Rightarrow> string" where
  "elf_print_header f =
     (let h = ef_hdr f in
      key_line ''class'' ''ELF64 little endian''
      @ key_line ''type''
          (case file_type_name (eh_type h) of
             Some s \<Rightarrow> s @ '' (0x'' @ hex_nat (unat (eh_type h)) @ '')''
           | None \<Rightarrow> hex_str (unat (eh_type h)) HEX_BUF)
      @ key_line ''machine''
          (if eh_machine h = 0x3e then ''x86-64 (0x'' @ hex_nat (unat (eh_machine h)) @ '')''
           else hex_str (unat (eh_machine h)) HEX_BUF)
      @ key_line ''entry'' (hex_col 16 (unat (eh_entry h)))
      @ key_line ''sections'' (dec_nat (unat (eh_shnum h)))
      @ key_line ''segments'' (dec_nat (unat (eh_phnum h)))
      @ key_line ''shstrndx'' (dec_nat (unat (eh_shstrndx h))))"

text \<open>The loops that print one row per entry of an array.\<close>

function print_rows :: "(nat \<Rightarrow> 'a \<Rightarrow> string) \<Rightarrow> 'a list \<Rightarrow> nat \<Rightarrow> nat \<Rightarrow> string option" where
  "print_rows row arr i count =
     (if i < count then do { x \<leftarrow> rd arr i; s \<leftarrow> print_rows row arr (i + 1) count; Some (row i x @ s) }
      else Some [])"
  by pat_completeness auto
termination by (relation "measure (\<lambda>(row, arr, i, count). count - i)") auto

declare print_rows.simps [simp del]

definition row_no :: "nat \<Rightarrow> nat \<Rightarrow> string" where
  "row_no w i = ''['' @ dec_col w i @ '']''"

definition section_row :: "nat \<Rightarrow> ElfSection \<Rightarrow> string" where
  "section_row i s =
     columns [row_no 2 i, pad_right 20 (safe_name (sec_name s)),
              pad_right 10 (section_type_name (sec_type s) HEX_BUF),
              hex_col 16 (unat (sec_addr s)), hex_col 8 (unat (sec_offset s)),
              hex_col 8 (unat (sec_size s)), section_flag_letters (sec_flags s)]"

definition section_heading :: string where
  "section_heading = columns [pad_right 4 ''nr'', pad_right 20 ''name'', pad_right 10 ''type'',
     pad_right 18 ''addr'', pad_right 10 ''offset'', pad_right 10 ''size'', ''flags'']"

definition elf_print_sections :: "ElfFile \<Rightarrow> string option" where
  "elf_print_sections f =
     (case ef_sections f of
        None \<Rightarrow> Some (''no sections'' @ [NEWLINE])
      | Some ss \<Rightarrow>
          if ef_nsections f = 0 then Some (''no sections'' @ [NEWLINE])
          else do { rows \<leftarrow> print_rows section_row ss 0 (ef_nsections f); Some (section_heading @ rows) })"

definition segment_row :: "nat \<Rightarrow> ElfSegment \<Rightarrow> string" where
  "segment_row i p =
     columns [row_no 2 i, pad_right 12 (segment_type_name (seg_type p) HEX_BUF),
              pad_right 5 (segment_perm_letters (seg_flags p)),
              hex_col 8 (unat (seg_offset p)), hex_col 16 (unat (seg_vaddr p)),
              hex_col 8 (unat (seg_filesz p)), hex_col 8 (unat (seg_memsz p)),
              ''0x'' @ hex_nat (unat (seg_align p))]"

definition segment_heading :: string where
  "segment_heading = columns [pad_right 4 ''nr'', pad_right 12 ''type'', pad_right 5 ''perms'',
     pad_right 10 ''offset'', pad_right 18 ''vaddr'', pad_right 10 ''filesz'',
     pad_right 10 ''memsz'', ''align'']"

definition elf_print_segments :: "ElfFile \<Rightarrow> string option" where
  "elf_print_segments f =
     (case ef_segments f of
        None \<Rightarrow> Some (''no segments'' @ [NEWLINE])
      | Some gs \<Rightarrow>
          if ef_nsegments f = 0 then Some (''no segments'' @ [NEWLINE])
          else do { rows \<leftarrow> print_rows segment_row gs 0 (ef_nsegments f); Some (segment_heading @ rows) })"

definition symbol_row :: "nat \<Rightarrow> ElfSymbol \<Rightarrow> string" where
  "symbol_row i s =
     columns [row_no 3 i, hex_col 16 (unat (sym_value s)), dec_col 8 (unat (sym_size s)),
              pad_right 6 (bind_name (sym_bind s) HEX_BUF),
              pad_right 7 (symbol_type_name (sym_type s) HEX_BUF), safe_name (sym_name s)]"

definition symbol_heading :: "bool \<Rightarrow> nat \<Rightarrow> string" where
  "symbol_heading dynamic n =
     ''symbol table: '' @ (if dynamic then ''.dynsym'' else ''.symtab'') @ '' ('' @ dec_nat n
     @ '' entries)'' @ [NEWLINE]
     @ columns [pad_right 5 ''nr'', pad_right 18 ''value'', pad_left (CHR '' '') 8 ''size'',
                pad_right 6 ''bind'', pad_right 7 ''type'', ''name'']"

definition elf_print_symbols :: "ElfFile \<Rightarrow> string option" where
  "elf_print_symbols f =
     (case ef_symbols f of
        None \<Rightarrow> Some (''no symbols'' @ [NEWLINE])
      | Some ys \<Rightarrow>
          if ef_nsymbols f = 0 then Some (''no symbols'' @ [NEWLINE])
          else do {
            rows \<leftarrow> print_rows symbol_row ys 0 (ef_nsymbols f);
            Some (symbol_heading (ef_symbols_dynamic f) (ef_nsymbols f) @ rows)
          })"

section \<open>The builtin\<close>

definition WANT_HEADER :: u32 where "WANT_HEADER = 0x1"
definition WANT_SECTIONS :: u32 where "WANT_SECTIONS = 0x2"
definition WANT_SEGMENTS :: u32 where "WANT_SEGMENTS = 0x4"
definition WANT_SYMBOLS :: u32 where "WANT_SYMBOLS = 0x8"

definition inspect_usage :: string where
  "inspect_usage = ''nullsh: inspect: usage: inspect [--sections | --segments | ''
     @ ''--symbols | --all] FILE'' @ [NEWLINE]"

definition flag_bit :: "string \<Rightarrow> u32" where
  "flag_bit arg =
     (if arg = ''--sections'' then WANT_SECTIONS
      else if arg = ''--segments'' then WANT_SEGMENTS
      else if arg = ''--symbols'' then WANT_SYMBOLS
      else if arg = ''--all'' then WANT_HEADER OR WANT_SECTIONS OR WANT_SEGMENTS OR WANT_SYMBOLS
      else 0)"

definition report_open_error :: "string \<Rightarrow> NshError \<Rightarrow> string" where
  "report_open_error path err =
     ''nullsh: inspect: '' @ path
     @ (if err = NSH_ERR_IO then '': cannot open'' else '': not a supported elf file'') @ [NEWLINE]"

definition print_part :: "ElfFile \<Rightarrow> u32 \<Rightarrow> bool \<Rightarrow> string option" where
  "print_part f part first = do {
     s \<leftarrow> (if part = WANT_SECTIONS then elf_print_sections f
          else if part = WANT_SEGMENTS then elf_print_segments f
          else if part = WANT_SYMBOLS then elf_print_symbols f
          else Some (elf_print_header f));
     Some ((if first then [] else [NEWLINE]) @ s)
   }"

text \<open>The words of the command line: \<open>None\<close> is a usage error.\<close>

fun inspect_scan :: "string list \<Rightarrow> u32 \<Rightarrow> string option \<Rightarrow> (u32 \<times> string option) option" where
  "inspect_scan [] want path = Some (want, path)"
| "inspect_scan (arg # args) want path =
     (if (case arg of c # d # _ \<Rightarrow> c = CHR ''-'' | _ \<Rightarrow> False)
      then if flag_bit arg = 0 then None else inspect_scan args (want OR flag_bit arg) path
      else if path \<noteq> None then None
      else inspect_scan args want (Some arg))"

text \<open>The four conditional calls of \<open>print_part\<close>, with the flag \<open>first\<close> between them.\<close>

fun print_parts :: "ElfFile \<Rightarrow> u32 \<Rightarrow> u32 list \<Rightarrow> bool \<Rightarrow> string option" where
  "print_parts f want [] first = Some []"
| "print_parts f want (part # parts) first =
     (if want AND part \<noteq> 0
      then do { s \<leftarrow> print_part f part first; t \<leftarrow> print_parts f want parts False; Some (s @ t) }
      else print_parts f want parts first)"

text \<open>What goes to stdout and stderr, and the status.\<close>

definition inspect_builtin ::
  "(string \<Rightarrow> FileAnswer) \<Rightarrow> nat \<Rightarrow> string list \<Rightarrow> (string \<times> string \<times> int) option" where
  "inspect_builtin fs fds argv =
     (case inspect_scan (List.tl argv) 0 None of
        None \<Rightarrow> Some ([], inspect_usage, 1)
      | Some (want, None) \<Rightarrow> Some ([], inspect_usage, 1)
      | Some (want, Some path) \<Rightarrow> do {
          let want = (if want = 0 then WANT_HEADER else want);
          (err, f, _) \<leftarrow> elf_open (Some path) (fs path) fds zero_elf;
          if err \<noteq> NSH_OK then Some ([], report_open_error path err, 1)
          else do {
            out \<leftarrow> print_parts f want [WANT_HEADER, WANT_SECTIONS, WANT_SEGMENTS, WANT_SYMBOLS] True;
            _ \<leftarrow> elf_close f;
            Some (out, [], 0)
          }
        })"
section \<open>What the builtin shows\<close>

lemma print_rows_all:
  "i \<le> length arr \<Longrightarrow>
   print_rows row arr i (length arr) = Some (concat (map (\<lambda>j. row j (arr ! j)) [i..<length arr]))"
proof (induction "length arr - i" arbitrary: i)
  case 0
  then show ?case by (subst print_rows.simps) simp
next
  case (Suc k)
  then have "print_rows row arr (i + 1) (length arr)
      = Some (concat (map (\<lambda>j. row j (arr ! j)) [i + 1..<length arr]))" by simp
  moreover have "i < length arr" using Suc(2) by simp
  ultimately show ?case by (subst print_rows.simps) (simp add: rd_Some upt_conv_Cons)
qed

text \<open>A view is a heading and one row per entry, or the remark that there is none.\<close>

definition table_text :: "string \<Rightarrow> string \<Rightarrow> (nat \<Rightarrow> 'a \<Rightarrow> string) \<Rightarrow> 'a list \<Rightarrow> string" where
  "table_text none head row xs =
     (if xs = [] then none @ [NEWLINE] else head @ concat (map (\<lambda>j. row j (xs ! j)) [0..<length xs]))"

definition part_text :: "u8 list \<Rightarrow> u32 \<Rightarrow> string" where
  "part_text bs part =
     (if part = WANT_SECTIONS then table_text ''no sections'' section_heading section_row (sections_view bs)
      else if part = WANT_SEGMENTS then table_text ''no segments'' segment_heading segment_row (segments_view bs)
      else if part = WANT_SYMBOLS
      then table_text ''no symbols''
             (symbol_heading (ef_symbols_dynamic (elf_view bs)) (length (symbols_view bs)))
             symbol_row (symbols_view bs)
      else elf_print_header (elf_view bs))"

lemmas want_defs = WANT_HEADER_def WANT_SECTIONS_def WANT_SEGMENTS_def WANT_SYMBOLS_def

lemma print_part_text:
  "print_part (elf_view bs) part first = Some ((if first then [] else [NEWLINE]) @ part_text bs part)"
proof -
  have "elf_print_sections (elf_view bs) = Some (part_text bs WANT_SECTIONS)"
    by (simp add: elf_print_sections_def elf_view_def part_text_def table_text_def array_def
        print_rows_all del: length_sections_view)
  moreover have "elf_print_segments (elf_view bs) = Some (part_text bs WANT_SEGMENTS)"
    by (simp add: elf_print_segments_def elf_view_def part_text_def table_text_def array_def
        print_rows_all want_defs)
  moreover have "elf_print_symbols (elf_view bs) = Some (part_text bs WANT_SYMBOLS)"
    by (simp add: elf_print_symbols_def elf_view_def part_text_def table_text_def array_def
        print_rows_all want_defs)
  ultimately show ?thesis by (simp add: print_part_def part_text_def)
qed

fun join_parts :: "string list \<Rightarrow> string" where
  "join_parts [] = []"
| "join_parts [s] = s"
| "join_parts (s # t # ss) = s @ NEWLINE # join_parts (t # ss)"

lemma print_parts_text:
  "print_parts (elf_view bs) want parts first
   = Some (case filter (\<lambda>part. want AND part \<noteq> 0) parts of
       [] \<Rightarrow> [] | qs \<Rightarrow> (if first then [] else [NEWLINE]) @ join_parts (map (part_text bs) qs))"
proof (induction parts arbitrary: first)
  case (Cons part parts)
  show ?case
  proof (cases "want AND part = 0")
    case True
    then show ?thesis using Cons by simp
  next
    case False
    then show ?thesis
      using Cons [of False] print_part_text [of bs part first]
      by (cases "filter (\<lambda>part. want AND part \<noteq> 0) parts") simp_all
  qed
qed simp

definition FLAGS :: "string list" where
  "FLAGS = [''--sections'', ''--segments'', ''--symbols'', ''--all'']"

definition looks_like_option :: "string \<Rightarrow> bool" where
  "looks_like_option arg \<longleftrightarrow> (case arg of c # d # _ \<Rightarrow> c = CHR ''-'' | _ \<Rightarrow> False)"

text \<open>The views a list of flags asks for: the header when there is no flag.\<close>

definition asked :: "string list \<Rightarrow> u32 \<Rightarrow> bool" where
  "asked flags part \<longleftrightarrow>
     (if flags = [] then part = WANT_HEADER
      else ''--all'' \<in> set flags \<or> (part = WANT_SECTIONS \<and> ''--sections'' \<in> set flags)
        \<or> (part = WANT_SEGMENTS \<and> ''--segments'' \<in> set flags)
        \<or> (part = WANT_SYMBOLS \<and> ''--symbols'' \<in> set flags))"

definition want_of :: "string list \<Rightarrow> u32" where
  "want_of flags = foldr (\<lambda>fl w. flag_bit fl OR w) flags 0"

lemma flag_bits [simp]:
  "flag_bit ''--sections'' = 2" "flag_bit ''--segments'' = 4" "flag_bit ''--symbols'' = 8"
  "flag_bit ''--all'' = 15"
  by (simp_all add: flag_bit_def want_defs)

lemma flag_facts:
  assumes "fl \<in> set FLAGS"
  shows "flag_bit fl \<noteq> 0" "looks_like_option fl"
proof -
  from assms consider "fl = ''--sections''" | "fl = ''--segments''" | "fl = ''--symbols''" | "fl = ''--all''"
    by (auto simp: FLAGS_def)
  then show "flag_bit fl \<noteq> 0" "looks_like_option fl"
    by (cases; simp add: looks_like_option_def)+
qed

lemma flag_part:
  assumes "fl \<in> set FLAGS" "part \<in> {WANT_HEADER, WANT_SECTIONS, WANT_SEGMENTS, WANT_SYMBOLS}"
  shows "flag_bit fl AND part \<noteq> 0 \<longleftrightarrow> fl = ''--all'' \<or> (part = WANT_SECTIONS \<and> fl = ''--sections'')
        \<or> (part = WANT_SEGMENTS \<and> fl = ''--segments'') \<or> (part = WANT_SYMBOLS \<and> fl = ''--symbols'')"
proof -
  from assms(1) consider "fl = ''--sections''" | "fl = ''--segments''" | "fl = ''--symbols''" | "fl = ''--all''"
    by (auto simp: FLAGS_def)
  then show ?thesis using assms(2)
    by cases (elim insertE emptyE; simp add: want_defs)+
qed

lemma scan_flags:
  "set flags \<subseteq> set FLAGS \<Longrightarrow>
   inspect_scan (flags @ args) want path = inspect_scan args (want OR want_of flags) path"
proof (induction flags arbitrary: want)
  case (Cons fl flags)
  then show ?case using flag_facts [of fl]
    by (simp add: want_of_def or.assoc looks_like_option_def)
qed (simp add: want_of_def)

lemma want_of_bit:
  "want_of flags AND part \<noteq> 0 \<longleftrightarrow> (\<exists>fl\<in>set flags. flag_bit fl AND part \<noteq> 0)"
  by (induction flags) (auto simp: want_of_def bit.conj_disj_distrib2 or_eq_0_iff)

lemma want_of_0: "set flags \<subseteq> set FLAGS \<Longrightarrow> want_of flags = 0 \<longleftrightarrow> flags = []"
  using flag_facts(1) [of "hd flags"] by (cases flags) (auto simp: want_of_def or_eq_0_iff)

lemma asked_bits:
  assumes "set flags \<subseteq> set FLAGS" "part \<in> {WANT_HEADER, WANT_SECTIONS, WANT_SEGMENTS, WANT_SYMBOLS}"
  shows "(if want_of flags = 0 then WANT_HEADER else want_of flags) AND part \<noteq> 0 \<longleftrightarrow> asked flags part"
proof (cases "flags = []")
  case True
  then show ?thesis using assms(2) by (elim insertE emptyE) (simp_all add: asked_def want_of_def want_defs)
next
  case False
  have "(\<exists>fl\<in>set flags. flag_bit fl AND part \<noteq> 0) \<longleftrightarrow> asked flags part"
    using flag_part [OF _ assms(2)] assms(1) False by (auto simp: asked_def)
  then show ?thesis using False by (simp add: want_of_0 [OF assms(1)] want_of_bit)
qed

definition regular_file :: "u8 list \<Rightarrow> FileAnswer" where
  "regular_file bs = \<lparr>fa_open = True, fa_stat = True, fa_regular = True,
                      fa_size = int (length bs), fa_map = Some bs\<rparr>"

lemma elf_open_regular:
  assumes "elf_wf bs" "length bs < 2 ^ 63"
  shows "elf_open (Some path) (regular_file bs) fds out = Some (NSH_OK, elf_view bs, fds)"
proof -
  have "bs \<noteq> []" using assms(1) by (auto simp: elf_wf_def header_wf_def)
  moreover have "honest (regular_file bs)" using assms(2) by (simp add: honest_def regular_file_def)
  ultimately show ?thesis
    using elf_open_result [of "regular_file bs" path fds out] assms(1) by (simp add: regular_file_def)
qed

text \<open>C40: on a well-formed file, with any of the four flags before and after its name, in any order
  and number, the builtin prints each asked-for view once, in the order header, sections, segments,
  symbols, with a blank line between two of them and none before or after; every row shows the
  entry of that index, nothing goes to stderr and the status is 0.\<close>

theorem inspect_shows_asked_parts:
  assumes "set (before @ behind) \<subseteq> set FLAGS" "\<not> looks_like_option path"
    and "fs path = regular_file bs" "elf_wf bs" "length bs < 2 ^ 63"
  shows "inspect_builtin fs fds (cmd # before @ path # behind)
    = Some (join_parts (map (part_text bs)
              (filter (asked (before @ behind)) [WANT_HEADER, WANT_SECTIONS, WANT_SEGMENTS, WANT_SYMBOLS])),
            [], 0)"
proof -
  let ?want = "want_of (before @ behind)"
  have "inspect_scan (before @ path # behind) 0 None = Some (want_of before OR want_of behind, Some path)"
    using assms(1,2) scan_flags [of behind "[]"]
    by (simp add: scan_flags looks_like_option_def)
  also have "want_of before OR want_of behind = ?want"
    by (induction before) (simp_all add: want_of_def or.assoc)
  finally have scan: "inspect_scan (before @ path # behind) 0 None = Some (?want, Some path)" .
  have "filter (\<lambda>part. (if ?want = 0 then WANT_HEADER else ?want) AND part \<noteq> 0)
        [WANT_HEADER, WANT_SECTIONS, WANT_SEGMENTS, WANT_SYMBOLS]
      = filter (asked (before @ behind)) [WANT_HEADER, WANT_SECTIONS, WANT_SEGMENTS, WANT_SYMBOLS]"
    by (rule filter_cong [OF refl]) (use asked_bits [OF assms(1)] in auto)
  then have "print_parts (elf_view bs) (if ?want = 0 then WANT_HEADER else ?want)
        [WANT_HEADER, WANT_SECTIONS, WANT_SEGMENTS, WANT_SYMBOLS] True
      = Some (join_parts (map (part_text bs)
              (filter (asked (before @ behind)) [WANT_HEADER, WANT_SECTIONS, WANT_SEGMENTS, WANT_SYMBOLS])))"
    unfolding print_parts_text by (simp split: list.split)
  moreover obtain freed where "elf_close (elf_view bs) = Some (zero_elf, freed)"
    using closable_close elf_view_ok [OF assms(4,5)] by (auto simp: elf_file_ok_def)
  ultimately show ?thesis
    using elf_open_regular [OF assms(4,5), of path fds zero_elf]
    by (simp add: inspect_builtin_def scan assms(3))
qed


lemma inspect_shows_asked_parts_witness:
  "inspect_builtin (\<lambda>path. regular_file small_elf) 3 [''inspect'', ''--symbols'', ''a.out'', ''--sections'']
   = Some (part_text small_elf WANT_SECTIONS @ NEWLINE # part_text small_elf WANT_SYMBOLS, [], 0)"
proof -
  have "filter (asked [''--symbols'', ''--sections'']) [WANT_HEADER, WANT_SECTIONS, WANT_SEGMENTS, WANT_SYMBOLS]
      = [WANT_SECTIONS, WANT_SYMBOLS]"
    by (simp add: asked_def want_defs)
  then show ?thesis
    using inspect_shows_asked_parts [of "[''--symbols'']" "[''--sections'']" "''a.out''"
        "\<lambda>path. regular_file small_elf" small_elf 3 "''inspect''"]
    by (simp add: small_wf small_length FLAGS_def looks_like_option_def)
qed

end
