(* ===== verification/Arena.thy ===== *)
theory Arena
  imports Prelude
begin

text \<open>
  The memory the allocator works on: \<open>Arena\<close> of \<open>src/alloc/internal.h\<close> with its bytes. Addresses
  are natural numbers, sizes are natural numbers below \<open>2 ^ 64\<close> with every wrap-around written
  out. All accesses go through \<open>ld\<close> and \<open>st\<close>, which give \<open>None\<close> outside the arena, so a theorem
  that an operation gives \<open>Some\<close> says that it touches nothing else. Numbers are stored as the
  machine does, in little-endian order; the bookkeeping of a strategy lives in these bytes too.
\<close>

section \<open>Numbers as bytes\<close>

fun le_bytes :: "nat \<Rightarrow> nat \<Rightarrow> u8 list" where
  "le_bytes 0 v = []"
| "le_bytes (Suc n) v = of_nat v # le_bytes n (v div 256)"

lemma length_le_bytes [simp]: "length (le_bytes n v) = n"
  by (induction n arbitrary: v) auto

lemma unat_of_nat8: "unat (of_nat v :: u8) = v mod 256"
  by (simp add: unsigned_of_nat take_bit_eq_mod)

lemma le_val_bytes: "le_val (le_bytes n v) = v mod 256 ^ n"
proof (induction n arbitrary: v)
  case 0
  then show ?case by (simp add: le_val_def)
next
  case (Suc n)
  have "le_val (le_bytes (Suc n) v) = v mod 256 + 256 * (v div 256 mod 256 ^ n)"
    using Suc [of "v div 256"] by (simp add: le_val_def unat_of_nat8)
  also have "\<dots> = v mod (256 * 256 ^ n)" by (simp add: mod_mult2_eq)
  finally show ?case by simp
qed

section \<open>Bytes at an address\<close>

type_synonym mem = "nat \<Rightarrow> u8"

definition bytes_at :: "mem \<Rightarrow> nat \<Rightarrow> nat \<Rightarrow> u8 list" where
  "bytes_at m p n = map m [p..<p + n]"

definition peek_le :: "mem \<Rightarrow> nat \<Rightarrow> nat \<Rightarrow> nat" where
  "peek_le m p n = le_val (bytes_at m p n)"

definition put :: "mem \<Rightarrow> nat \<Rightarrow> u8 list \<Rightarrow> mem" where
  "put m p bs = (\<lambda>x. if p \<le> x \<and> x < p + length bs then bs ! (x - p) else m x)"

definition poke :: "mem \<Rightarrow> nat \<Rightarrow> nat \<Rightarrow> nat \<Rightarrow> mem" where
  "poke m p n v = put m p (le_bytes n v)"

lemma length_bytes_at [simp]: "length (bytes_at m p n) = n"
  by (simp add: bytes_at_def)

lemma put_other: "x < p \<or> p + length bs \<le> x \<Longrightarrow> put m p bs x = m x"
  by (auto simp: put_def)

lemma poke_other: "x < p \<or> p + n \<le> x \<Longrightarrow> poke m p n v x = m x"
  by (simp add: poke_def put_other)

lemma bytes_at_cong: "(\<And>x. p \<le> x \<Longrightarrow> x < p + n \<Longrightarrow> m x = m' x) \<Longrightarrow> bytes_at m p n = bytes_at m' p n"
  by (simp add: bytes_at_def)

lemma peek_cong: "(\<And>x. p \<le> x \<Longrightarrow> x < p + n \<Longrightarrow> m x = m' x) \<Longrightarrow> peek_le m p n = peek_le m' p n"
  unfolding peek_le_def by (simp cong: bytes_at_cong)

lemma bytes_at_put_same: "bytes_at (put m p bs) p (length bs) = bs"
  by (rule nth_equalityI) (simp_all add: bytes_at_def put_def)

lemma peek_put_other: "q + n \<le> p \<or> p + length bs \<le> q \<Longrightarrow> peek_le (put m p bs) q n = peek_le m q n"
  by (rule peek_cong) (auto simp: put_def)

lemma peek_poke_other [simp]:
  "q + n \<le> p \<or> p + k \<le> q \<Longrightarrow> peek_le (poke m p k v) q n = peek_le m q n"
  by (simp add: poke_def peek_put_other)

lemma peek_poke_same [simp]: "peek_le (poke m p n v) p n = v mod 256 ^ n"
  using bytes_at_put_same [of m p "le_bytes n v"]
  by (simp add: peek_le_def poke_def le_val_bytes)

lemma peek_less: "peek_le m p n < 256 ^ n"
  using le_val_less [of "bytes_at m p n"] by (simp add: peek_le_def)

section \<open>The arena\<close>

record Arena =
  ar_base :: nat
  ar_size :: nat
  ar_state :: nat
  ar_mem :: mem

definition ALLOC_ALIGN :: nat where "ALLOC_ALIGN = 16"

definition in_arena :: "Arena \<Rightarrow> nat \<Rightarrow> nat \<Rightarrow> bool" where
  "in_arena a p n \<longleftrightarrow> ar_base a \<le> p \<and> p + n \<le> ar_base a + ar_size a"

definition ld :: "Arena \<Rightarrow> nat \<Rightarrow> nat \<Rightarrow> nat option" where
  "ld a p n = (if in_arena a p n then Some (peek_le (ar_mem a) p n) else None)"

definition st :: "Arena \<Rightarrow> nat \<Rightarrow> nat \<Rightarrow> nat \<Rightarrow> Arena option" where
  "st a p n v = (if in_arena a p n then Some (a\<lparr>ar_mem := poke (ar_mem a) p n v\<rparr>) else None)"

text \<open>\<open>memcpy\<close> and \<open>memset\<close> into the arena, and reading a run of bytes.\<close>

definition st_bytes :: "Arena \<Rightarrow> nat \<Rightarrow> u8 list \<Rightarrow> Arena option" where
  "st_bytes a p bs = (if in_arena a p (length bs) then Some (a\<lparr>ar_mem := put (ar_mem a) p bs\<rparr>) else None)"

definition ld_bytes :: "Arena \<Rightarrow> nat \<Rightarrow> nat \<Rightarrow> u8 list option" where
  "ld_bytes a p n = (if in_arena a p n then Some (bytes_at (ar_mem a) p n) else None)"

lemma in_arena_mem [simp]: "in_arena (a\<lparr>ar_mem := m\<rparr>) p n = in_arena a p n"
  by (simp add: in_arena_def)

lemma in_arena_state [simp]: "in_arena (a\<lparr>ar_state := s\<rparr>) p n = in_arena a p n"
  by (simp add: in_arena_def)

text \<open>The numbers \<open>size_t\<close> can hold.\<close>

definition SIZE_MAX :: nat where "SIZE_MAX = 18446744073709551615"

record AllocStats =
  as_strategy :: string
  as_arena_size :: nat
  as_used_bytes :: nat
  as_free_bytes :: nat
  as_live_blocks :: nat
  as_free_blocks :: nat
  as_largest_free :: nat
  as_total_mallocs :: nat
  as_total_frees :: nat

definition zero_stats :: AllocStats where
  "zero_stats = \<lparr>as_strategy = [], as_arena_size = 0, as_used_bytes = 0, as_free_bytes = 0,
                 as_live_blocks = 0, as_free_blocks = 0, as_largest_free = 0,
                 as_total_mallocs = 0, as_total_frees = 0\<rparr>"

text \<open>A line feed at the end of a line of text.\<close>

definition line_of :: "string \<Rightarrow> string" where "line_of s = s @ [NEWLINE]"

end
