(* ===== verification/Firstfit.thy ===== *)
theory Firstfit
  imports Arena
begin

text \<open>
  \<open>src/alloc/firstfit.c\<close>: boundary-tagged blocks on an implicit list. A block is its address; its
  header and footer, and the two bounds of the list, are read from the arena's bytes. \<open>None\<close> for a
  block is the null pointer.
\<close>

section \<open>Tags\<close>

definition FF_TAG_USED :: nat where "FF_TAG_USED = 0x46465553"
definition FF_TAG_FREE :: nat where "FF_TAG_FREE = 0x46465246"

text \<open>\<open>FfTag\<close> is two numbers, \<open>size\<close> at 0 and \<open>tag\<close> at 8; \<open>FfState\<close> is two pointers.\<close>

definition SIZEOF_TAG :: nat where "SIZEOF_TAG = 16"
definition SIZEOF_FF_STATE :: nat where "SIZEOF_FF_STATE = 16"
definition FF_OVERHEAD :: nat where "FF_OVERHEAD = 2 * SIZEOF_TAG"
definition FF_MIN_BLOCK :: nat where "FF_MIN_BLOCK = FF_OVERHEAD + ALLOC_ALIGN"

lemmas ff_consts = FF_TAG_USED_def FF_TAG_FREE_def SIZEOF_TAG_def SIZEOF_FF_STATE_def FF_OVERHEAD_def
  FF_MIN_BLOCK_def ALLOC_ALIGN_def SIZE_MAX_def

text \<open>The addition wraps at \<open>2 ^ 64\<close>; clearing the low bits rounds down.\<close>

definition ff_round_up :: "nat \<Rightarrow> nat" where
  "ff_round_up n = (n + (ALLOC_ALIGN - 1)) mod 2 ^ 64 div ALLOC_ALIGN * ALLOC_ALIGN"

definition ff_payload :: "nat \<Rightarrow> nat" where "ff_payload b = b + SIZEOF_TAG"
definition ff_block_of :: "nat \<Rightarrow> nat" where "ff_block_of p = p - SIZEOF_TAG"

definition tag_size :: "Arena \<Rightarrow> nat \<Rightarrow> nat option" where "tag_size a b = ld a b 8"
definition tag_tag :: "Arena \<Rightarrow> nat \<Rightarrow> nat option" where "tag_tag a b = ld a (b + 8) 8"

definition ff_mark :: "Arena \<Rightarrow> nat \<Rightarrow> nat \<Rightarrow> nat \<Rightarrow> Arena option" where
  "ff_mark a b sz tag = do {
     let foot = b + sz - SIZEOF_TAG;
     a \<leftarrow> st a b 8 sz;
     a \<leftarrow> st a (b + 8) 8 tag;
     a \<leftarrow> st a foot 8 sz;
     st a (foot + 8) 8 tag
   }"

section \<open>Walking the blocks\<close>

definition heap_start :: "Arena \<Rightarrow> nat option" where "heap_start a = ld a (ar_state a) 8"
definition heap_end :: "Arena \<Rightarrow> nat option" where "heap_end a = ld a (ar_state a + 8) 8"

definition ff_first :: "Arena \<Rightarrow> nat option option" where
  "ff_first a = do { s \<leftarrow> heap_start a; e \<leftarrow> heap_end a; Some (if s < e then Some s else None) }"

definition ff_next :: "Arena \<Rightarrow> nat \<Rightarrow> nat option option" where
  "ff_next a b = do {
     sz \<leftarrow> tag_size a b; e \<leftarrow> heap_end a;
     let n = b + sz;
     Some (if n < e then Some n else None)
   }"

definition ff_prev :: "Arena \<Rightarrow> nat \<Rightarrow> nat option option" where
  "ff_prev a b = do {
     s \<leftarrow> heap_start a;
     if b \<le> s then Some None
     else do { sz \<leftarrow> tag_size a (b - SIZEOF_TAG); Some (Some (b - sz)) }
   }"

section \<open>The operations\<close>

definition ff_init :: "Arena \<Rightarrow> Arena option" where
  "ff_init a = do {
     let raw = ar_base a;
     let pad = min (ff_round_up raw - raw) (ar_size a);
     let state = raw + pad;
     let left = ar_size a - pad;
     let reserved = ff_round_up SIZEOF_FF_STATE;
     let start = state + min left reserved;
     a \<leftarrow> st (a\<lparr>ar_state := state\<rparr>) state 8 start;
     a \<leftarrow> st a (state + 8) 8 start;
     if left < reserved then Some a
     else do {
       let span = (left - reserved) div ALLOC_ALIGN * ALLOC_ALIGN;
       if span < FF_MIN_BLOCK then Some a
       else do {
         a \<leftarrow> st a (state + 8) 8 (start + span);
         ff_mark a start span FF_TAG_FREE
       }
     }
   }"

text \<open>The search loop: the block that fits, or none. A heap whose blocks have size 0 would make it
  run for ever, which is \<open>None\<close> as well.\<close>

partial_function (option) ff_find :: "Arena \<Rightarrow> nat \<Rightarrow> nat option \<Rightarrow> nat option option" where
  "ff_find a tot b =
     (case b of
        None \<Rightarrow> Some None
      | Some b \<Rightarrow> do {
          tag \<leftarrow> tag_tag a b;
          sz \<leftarrow> tag_size a b;
          if tag \<noteq> FF_TAG_FREE \<or> sz < tot
          then do { n \<leftarrow> ff_next a b; ff_find a tot n }
          else Some (Some b)
        })"

definition ff_alloc :: "Arena \<Rightarrow> nat \<Rightarrow> (nat option \<times> Arena) option" where
  "ff_alloc a sz =
     (if sz > SIZE_MAX - FF_OVERHEAD - ALLOC_ALIGN then Some (None, a)
      else do {
        let need = max (ff_round_up sz) ALLOC_ALIGN;
        let tot = need + FF_OVERHEAD;
        b \<leftarrow> ff_first a;
        b \<leftarrow> ff_find a tot b;
        case b of
          None \<Rightarrow> Some (None, a)
        | Some b \<Rightarrow> do {
            bsize \<leftarrow> tag_size a b;
            let rest = bsize - tot;
            a \<leftarrow> (if rest \<ge> FF_MIN_BLOCK
                  then do { a \<leftarrow> ff_mark a b tot FF_TAG_USED; ff_mark a (b + tot) rest FF_TAG_FREE }
                  else ff_mark a b bsize FF_TAG_USED);
            Some (Some (ff_payload b), a)
          }
      })"

text \<open>The size of a block together with a free neighbour behind it, and the start and size of a
  block together with a free neighbour before it.\<close>

definition join_next :: "Arena \<Rightarrow> nat option \<Rightarrow> nat \<Rightarrow> nat option" where
  "join_next a nxt sz =
     (case nxt of
        None \<Rightarrow> Some sz
      | Some n \<Rightarrow> do {
          t \<leftarrow> tag_tag a n;
          if t = FF_TAG_FREE then do { ns \<leftarrow> tag_size a n; Some (sz + ns) } else Some sz
        })"

definition join_prev :: "Arena \<Rightarrow> nat option \<Rightarrow> nat \<Rightarrow> nat \<Rightarrow> (nat \<times> nat) option" where
  "join_prev a prv b sz =
     (case prv of
        None \<Rightarrow> Some (b, sz)
      | Some q \<Rightarrow> do {
          t \<leftarrow> tag_tag a q;
          if t = FF_TAG_FREE then do { qs \<leftarrow> tag_size a q; Some (q, sz + qs) } else Some (b, sz)
        })"

text \<open>The pointer is never null here: \<open>block_release\<close> passes the address of a guard.\<close>

definition ff_free_block :: "Arena \<Rightarrow> nat \<Rightarrow> Arena option" where
  "ff_free_block a p = do {
     let b = ff_block_of p;
     sz \<leftarrow> tag_size a b;
     nxt \<leftarrow> ff_next a b;
     sz \<leftarrow> join_next a nxt sz;
     prv \<leftarrow> ff_prev a b;
     (b, sz) \<leftarrow> join_prev a prv b sz;
     ff_mark a b sz FF_TAG_FREE
   }"

definition ff_usable_size :: "Arena \<Rightarrow> nat \<Rightarrow> nat option" where
  "ff_usable_size a p = do { sz \<leftarrow> tag_size a (ff_block_of p); Some (sz - FF_OVERHEAD) }"

text \<open>The loops of the report and the dump.\<close>

partial_function (option) ff_count :: "Arena \<Rightarrow> nat option \<Rightarrow> AllocStats \<Rightarrow> AllocStats option" where
  "ff_count a b out =
     (case b of
        None \<Rightarrow> Some out
      | Some b \<Rightarrow> do {
          tag \<leftarrow> tag_tag a b;
          sz \<leftarrow> tag_size a b;
          let out = (if tag = FF_TAG_FREE
            then out\<lparr>as_free_bytes := as_free_bytes out + sz, as_free_blocks := as_free_blocks out + 1,
                     as_largest_free := (if sz > as_largest_free out then sz else as_largest_free out)\<rparr>
            else out\<lparr>as_used_bytes := as_used_bytes out + sz, as_live_blocks := as_live_blocks out + 1\<rparr>);
          n \<leftarrow> ff_next a b;
          ff_count a n out
        })"

definition ff_stats :: "Arena \<Rightarrow> AllocStats \<Rightarrow> AllocStats option" where
  "ff_stats a out = do {
     b \<leftarrow> ff_first a;
     ff_count a b (out\<lparr>as_arena_size := ar_size a, as_used_bytes := 0, as_free_bytes := 0,
                     as_live_blocks := 0, as_free_blocks := 0, as_largest_free := 0\<rparr>)
   }"

partial_function (option) ff_lines :: "Arena \<Rightarrow> nat option \<Rightarrow> string option" where
  "ff_lines a b =
     (case b of
        None \<Rightarrow> Some []
      | Some b \<Rightarrow> do {
          sz \<leftarrow> tag_size a b;
          tag \<leftarrow> tag_tag a b;
          n \<leftarrow> ff_next a b;
          s \<leftarrow> ff_lines a n;
          Some (line_of (pad_left (CHR ''0'') 8 (hex_nat (b - ar_base a)) @ '' ''
                         @ pad_left (CHR '' '') 10 (dec_nat sz) @ '' ''
                         @ (if tag = FF_TAG_FREE then ''FREE'' else ''USED'')) @ s)
        })"

definition ff_dump :: "Arena \<Rightarrow> string option" where
  "ff_dump a = do { b \<leftarrow> ff_first a; ff_lines a b }"

end
