(* ===== verification/Buddy.thy ===== *)
theory Buddy
  imports Arena "HOL-Library.Word"
begin

unbundle bit_operations_syntax

text \<open>
  \<open>src/alloc/buddy.c\<close>: power-of-two blocks with 16-byte headers, free lists threaded through the
  free blocks, merging by the XOR of the offset with the size. Blocks are named by their offset
  from the base of the arena; pointers in the lists are addresses, 0 is the null pointer. The
  struct \<open>BuddyState\<close> lives in the first bytes of the arena. A failing \<open>assert\<close> is \<open>None\<close>.
\<close>

section \<open>Layout\<close>

definition BUDDY_MIN_ORDER :: nat where "BUDDY_MIN_ORDER = 5"
definition BUDDY_MIN_BLOCK :: nat where "BUDDY_MIN_BLOCK = 2 ^ BUDDY_MIN_ORDER"
definition BUDDY_MAX_ORDER :: nat where "BUDDY_MAX_ORDER = 47"
definition BUDDY_ORDERS :: nat where "BUDDY_ORDERS = BUDDY_MAX_ORDER + 1"
definition BUDDY_MAGIC :: nat where "BUDDY_MAGIC = 0x42554459424c4b31"

definition SIZEOF_HEADER :: nat where "SIZEOF_HEADER = 16"
definition SIZEOF_STATE :: nat where "SIZEOF_STATE = 48 + 8 * BUDDY_ORDERS"

text \<open>Addresses of the fields of \<open>BuddyState\<close>.\<close>

definition f_region_off :: "Arena \<Rightarrow> nat" where "f_region_off a = ar_state a"
definition f_max_order :: "Arena \<Rightarrow> nat" where "f_max_order a = ar_state a + 8"
definition f_used_bytes :: "Arena \<Rightarrow> nat" where "f_used_bytes a = ar_state a + 16"
definition f_free_bytes :: "Arena \<Rightarrow> nat" where "f_free_bytes a = ar_state a + 24"
definition f_live_blocks :: "Arena \<Rightarrow> nat" where "f_live_blocks a = ar_state a + 32"
definition f_free_blocks :: "Arena \<Rightarrow> nat" where "f_free_blocks a = ar_state a + 40"

text \<open>An index behind the array of list heads is outside the struct.\<close>

definition f_list :: "Arena \<Rightarrow> nat \<Rightarrow> nat option" where
  "f_list a k = (if k < BUDDY_ORDERS then Some (ar_state a + 48 + 8 * k) else None)"

text \<open>Addition to and subtraction from a \<open>size_t\<close> field.\<close>

definition add_to :: "Arena \<Rightarrow> nat \<Rightarrow> nat \<Rightarrow> Arena option" where
  "add_to a p n = do { v \<leftarrow> ld a p 8; st a p 8 ((v + n) mod 2 ^ 64) }"

definition sub_from :: "Arena \<Rightarrow> nat \<Rightarrow> nat \<Rightarrow> Arena option" where
  "sub_from a p n = do { v \<leftarrow> ld a p 8; st a p 8 ((v + 2 ^ 64 - n mod 2 ^ 64) mod 2 ^ 64) }"

text \<open>Fields of the header and the free links of the block at an offset.\<close>

definition header_at :: "Arena \<Rightarrow> nat \<Rightarrow> nat" where "header_at a off = ar_base a + off"
definition node_at :: "Arena \<Rightarrow> nat \<Rightarrow> nat" where "node_at a off = ar_base a + off + SIZEOF_HEADER"
definition node_off :: "Arena \<Rightarrow> nat \<Rightarrow> nat" where "node_off a n = n - ar_base a - SIZEOF_HEADER"

definition h_magic :: "Arena \<Rightarrow> nat \<Rightarrow> nat option" where "h_magic a off = ld a (header_at a off) 8"
definition h_order :: "Arena \<Rightarrow> nat \<Rightarrow> nat option" where "h_order a off = ld a (header_at a off + 8) 4"
definition h_in_use :: "Arena \<Rightarrow> nat \<Rightarrow> nat option" where "h_in_use a off = ld a (header_at a off + 12) 4"

definition set_header :: "Arena \<Rightarrow> nat \<Rightarrow> nat \<Rightarrow> nat \<Rightarrow> Arena option" where
  "set_header a off order in_use = do {
     a \<leftarrow> st a (header_at a off) 8 BUDDY_MAGIC;
     a \<leftarrow> st a (header_at a off + 8) 4 order;
     st a (header_at a off + 12) 4 in_use
   }"

section \<open>Orders\<close>

definition is_pow2 :: "nat \<Rightarrow> bool" where
  "is_pow2 x \<longleftrightarrow> x \<noteq> 0 \<and> x AND (x - 1) = 0"

partial_function (option) order_loop :: "nat \<Rightarrow> nat \<Rightarrow> nat option" where
  "order_loop n k = (if 2 ^ k mod 2 ^ 64 < n then order_loop n (k + 1) else Some k)"

definition order_of :: "nat \<Rightarrow> nat option" where
  "order_of n = order_loop n BUDDY_MIN_ORDER"

section \<open>The free lists\<close>

definition list_push :: "Arena \<Rightarrow> nat \<Rightarrow> nat \<Rightarrow> Arena option" where
  "list_push a off order = do {
     a \<leftarrow> set_header a off order 0;
     let n = node_at a off;
     a \<leftarrow> st a (n + 8) 8 0;
     l \<leftarrow> f_list a order;
     head \<leftarrow> ld a l 8;
     a \<leftarrow> st a n 8 head;
     a \<leftarrow> (if head \<noteq> 0 then st a (head + 8) 8 n else Some a);
     a \<leftarrow> st a l 8 n;
     a \<leftarrow> add_to a (f_free_bytes a) (2 ^ order);
     add_to a (f_free_blocks a) 1
   }"

definition list_remove :: "Arena \<Rightarrow> nat \<Rightarrow> nat \<Rightarrow> Arena option" where
  "list_remove a off order = do {
     let n = node_at a off;
     prev \<leftarrow> ld a (n + 8) 8;
     nxt \<leftarrow> ld a n 8;
     a \<leftarrow> (if prev \<noteq> 0 then st a prev 8 nxt else do { l \<leftarrow> f_list a order; st a l 8 nxt });
     nxt \<leftarrow> ld a n 8;
     a \<leftarrow> (if nxt \<noteq> 0 then do { prev \<leftarrow> ld a (n + 8) 8; st a (nxt + 8) 8 prev } else Some a);
     a \<leftarrow> sub_from a (f_free_bytes a) (2 ^ order);
     sub_from a (f_free_blocks a) 1
   }"

section \<open>The operations\<close>

text \<open>\<open>while (state_bytes < sizeof(BuddyState)) state_bytes <<= 1\<close>\<close>

partial_function (option) state_bytes_loop :: "nat \<Rightarrow> nat option" where
  "state_bytes_loop n = (if n < SIZEOF_STATE then state_bytes_loop (2 * n mod 2 ^ 64) else Some n)"

text \<open>\<open>off & (~off + 1)\<close>, the lowest set bit.\<close>

definition low_bit :: "nat \<Rightarrow> nat" where
  "low_bit off = off AND ((2 ^ 64 - off) mod 2 ^ 64)"

partial_function (option) seed_loop :: "Arena \<Rightarrow> nat \<Rightarrow> Arena option" where
  "seed_loop a off =
     (if off < ar_size a
      then do {
        let block = low_bit off;
        k \<leftarrow> order_of block;
        a \<leftarrow> list_push a off k;
        m \<leftarrow> ld a (f_max_order a) 4;
        a \<leftarrow> (if k > m then st a (f_max_order a) 4 k else Some a);
        seed_loop a (off + block)
      }
      else Some a)"

definition buddy_init :: "Arena \<Rightarrow> Arena option" where
  "buddy_init a =
     (if \<not> is_pow2 (ar_size a) \<or> ar_size a > 2 ^ BUDDY_MAX_ORDER then None
      else do {
        state_bytes \<leftarrow> state_bytes_loop BUDDY_MIN_BLOCK;
        if ar_size a < state_bytes * 2 then None
        else do {
          a \<leftarrow> st_bytes (a\<lparr>ar_state := ar_base a\<rparr>) (ar_base a) (replicate SIZEOF_STATE 0);
          a \<leftarrow> st a (f_region_off a) 8 state_bytes;
          seed_loop a state_bytes
        }
      })"

text \<open>The first order from \<open>k\<close> on with a free block, and the splitting loop.\<close>

partial_function (option) find_order :: "Arena \<Rightarrow> nat \<Rightarrow> nat option" where
  "find_order a k = do {
     m \<leftarrow> ld a (f_max_order a) 4;
     if k \<le> m
     then do {
       l \<leftarrow> f_list a k;
       head \<leftarrow> ld a l 8;
       if head = 0 then find_order a (k + 1) else Some k
     }
     else Some k
   }"

fun split_loop :: "Arena \<Rightarrow> nat \<Rightarrow> nat \<Rightarrow> nat \<Rightarrow> Arena option" where
  "split_loop a off want k =
     (if k > want
      then do { a \<leftarrow> list_push a (off + 2 ^ (k - 1)) (k - 1); split_loop a off want (k - 1) }
      else Some a)"

declare split_loop.simps [simp del]

definition buddy_alloc :: "Arena \<Rightarrow> nat \<Rightarrow> (nat option \<times> Arena) option" where
  "buddy_alloc a sz =
     (if sz > ar_size a then Some (None, a)
      else do {
        want \<leftarrow> order_of (sz + SIZEOF_HEADER);
        m \<leftarrow> ld a (f_max_order a) 4;
        if want > m then Some (None, a)
        else do {
          k \<leftarrow> find_order a want;
          if k > m then Some (None, a)
          else do {
            l \<leftarrow> f_list a k;
            head \<leftarrow> ld a l 8;
            let off = node_off a head;
            a \<leftarrow> list_remove a off k;
            a \<leftarrow> split_loop a off want k;
            a \<leftarrow> set_header a off want 1;
            a \<leftarrow> add_to a (f_used_bytes a) (2 ^ want);
            a \<leftarrow> add_to a (f_live_blocks a) 1;
            Some (Some (ar_base a + off + SIZEOF_HEADER), a)
          }
        }
      })"

text \<open>The merging loop gives the block to push and its order.\<close>

partial_function (option) merge_loop :: "Arena \<Rightarrow> nat \<Rightarrow> nat \<Rightarrow> (Arena \<times> nat \<times> nat) option" where
  "merge_loop a off k = do {
     m \<leftarrow> ld a (f_max_order a) 4;
     if k < m
     then do {
       let bud = off XOR 2 ^ k;
       r \<leftarrow> ld a (f_region_off a) 8;
       if bud < r then Some (a, off, k)
       else do {
         magic \<leftarrow> h_magic a bud;
         in_use \<leftarrow> h_in_use a bud;
         order \<leftarrow> h_order a bud;
         if magic \<noteq> BUDDY_MAGIC \<or> in_use \<noteq> 0 \<or> order \<noteq> k then Some (a, off, k)
         else do {
           a \<leftarrow> list_remove a bud k;
           merge_loop a (if bud < off then bud else off) (k + 1)
         }
       }
     }
     else Some (a, off, k)
   }"

definition buddy_free_block :: "Arena \<Rightarrow> nat \<Rightarrow> Arena option" where
  "buddy_free_block a p = do {
     let off = p - ar_base a - SIZEOF_HEADER;
     magic \<leftarrow> h_magic a off;
     in_use \<leftarrow> h_in_use a off;
     if magic \<noteq> BUDDY_MAGIC \<or> in_use = 0 then None
     else do {
       k \<leftarrow> h_order a off;
       a \<leftarrow> st a (header_at a off + 12) 4 0;
       a \<leftarrow> sub_from a (f_used_bytes a) (2 ^ k);
       a \<leftarrow> sub_from a (f_live_blocks a) 1;
       (a, off, k) \<leftarrow> merge_loop a off k;
       list_push a off k
     }
   }"

definition buddy_usable_size :: "Arena \<Rightarrow> nat \<Rightarrow> nat option" where
  "buddy_usable_size a p = do {
     k \<leftarrow> ld a (p - SIZEOF_HEADER + 8) 4;
     Some (2 ^ k - SIZEOF_HEADER)
   }"

fun largest_loop :: "Arena \<Rightarrow> nat \<Rightarrow> nat option" where
  "largest_loop a k =
     (if k > BUDDY_MIN_ORDER
      then do {
        l \<leftarrow> f_list a (k - 1);
        head \<leftarrow> ld a l 8;
        if head \<noteq> 0 then Some (2 ^ (k - 1)) else largest_loop a (k - 1)
      }
      else Some 0)"

declare largest_loop.simps [simp del]

definition buddy_stats :: "Arena \<Rightarrow> AllocStats \<Rightarrow> AllocStats option" where
  "buddy_stats a out = do {
     used \<leftarrow> ld a (f_used_bytes a) 8;
     free \<leftarrow> ld a (f_free_bytes a) 8;
     live \<leftarrow> ld a (f_live_blocks a) 8;
     frees \<leftarrow> ld a (f_free_blocks a) 8;
     m \<leftarrow> ld a (f_max_order a) 4;
     largest \<leftarrow> largest_loop a (m + 1);
     Some (out\<lparr>as_arena_size := ar_size a, as_used_bytes := used, as_free_bytes := free,
              as_live_blocks := live, as_free_blocks := frees, as_largest_free := largest\<rparr>)
   }"

partial_function (option) buddy_lines :: "Arena \<Rightarrow> nat \<Rightarrow> string option" where
  "buddy_lines a off =
     (if off < ar_size a
      then do {
        k \<leftarrow> h_order a off;
        in_use \<leftarrow> h_in_use a off;
        s \<leftarrow> buddy_lines a (off + 2 ^ k);
        Some (line_of (''  '' @ pad_left (CHR '' '') 10 (dec_nat off) @ '' ''
                       @ pad_left (CHR '' '') 10 (dec_nat (2 ^ k)) @ '' ''
                       @ (if in_use \<noteq> 0 then ''USED'' else ''FREE'')) @ s)
      }
      else Some [])"

definition buddy_dump :: "Arena \<Rightarrow> string option" where
  "buddy_dump a = do {
     r \<leftarrow> ld a (f_region_off a) 8;
     m \<leftarrow> ld a (f_max_order a) 4;
     s \<leftarrow> buddy_lines a r;
     Some (line_of (''buddy: arena '' @ dec_nat (ar_size a) @ '', state '' @ dec_nat r @ '', orders ''
                    @ dec_nat BUDDY_MIN_ORDER @ ''..'' @ dec_nat m) @ s)
   }"

end
