(* ===== verification/Alloc.thy ===== *)
theory Alloc
  imports Firstfit Buddy
begin

text \<open>
  \<open>src/alloc/alloc.c\<close> and \<open>heap_builtin.c\<close>: the process-wide heap, one arena per strategy, guards
  around every block, and the builtin that reports on it. The result of an operation is a value,
  the abort the code chose with what it reports, or \<open>Wild\<close>: an access outside an arena, a failed
  assertion of a strategy, or a search that does not end.
\<close>

section \<open>Outcomes\<close>

datatype Abort =
    OutOfMemory nat
  | OutOfMemoryCalloc nat nat
  | MapFailed nat
  | CorruptPrefix nat
  | CorruptTrailing nat
  | DoubleFree nat
  | UnknownPointer nat

datatype 'a Res = Done 'a | Died Abort | Wild

fun bindr :: "'a Res \<Rightarrow> ('a \<Rightarrow> 'b Res) \<Rightarrow> 'b Res" where
  "bindr (Done x) f = f x"
| "bindr (Died e) f = Died e"
| "bindr Wild f = Wild"

definition access :: "'a option \<Rightarrow> 'a Res" where
  "access r = (case r of None \<Rightarrow> Wild | Some x \<Rightarrow> Done x)"

lemma access_simps [simp]: "access (Some x) = Done x" "access None = Wild"
  by (simp_all add: access_def)

section \<open>The strategies\<close>

record AllocStrategy =
  str_name :: string
  str_init :: "Arena \<Rightarrow> Arena option"
  str_alloc :: "Arena \<Rightarrow> nat \<Rightarrow> (nat option \<times> Arena) option"
  str_free_block :: "Arena \<Rightarrow> nat \<Rightarrow> Arena option"
  str_usable_size :: "Arena \<Rightarrow> nat \<Rightarrow> nat option"
  str_stats :: "Arena \<Rightarrow> AllocStats \<Rightarrow> AllocStats option"
  str_dump :: "Arena \<Rightarrow> string option"

definition ALLOC_FIRSTFIT :: AllocStrategy where
  "ALLOC_FIRSTFIT = \<lparr>str_name = ''firstfit'', str_init = ff_init, str_alloc = ff_alloc,
     str_free_block = ff_free_block, str_usable_size = ff_usable_size, str_stats = ff_stats,
     str_dump = ff_dump\<rparr>"

definition ALLOC_BUDDY :: AllocStrategy where
  "ALLOC_BUDDY = \<lparr>str_name = ''buddy'', str_init = buddy_init, str_alloc = buddy_alloc,
     str_free_block = buddy_free_block, str_usable_size = buddy_usable_size,
     str_stats = buddy_stats, str_dump = buddy_dump\<rparr>"

definition SLOT_FIRSTFIT :: nat where "SLOT_FIRSTFIT = 0"
definition SLOT_BUDDY :: nat where "SLOT_BUDDY = 1"
definition SLOT_COUNT :: nat where "SLOT_COUNT = 2"

definition STRATEGIES :: "nat \<Rightarrow> AllocStrategy" where
  "STRATEGIES slot = (if slot = SLOT_FIRSTFIT then ALLOC_FIRSTFIT else ALLOC_BUDDY)"

section \<open>The heap\<close>

definition ARENA_SIZE :: nat where "ARENA_SIZE = 2 ^ 24"
definition GUARD_PREFIX :: nat where "GUARD_PREFIX = 16"
definition GUARD_TRAILER :: nat where "GUARD_TRAILER = 8"
definition GUARD_TOTAL :: nat where "GUARD_TOTAL = GUARD_PREFIX + GUARD_TRAILER"
definition CANARY_HEAD :: nat where "CANARY_HEAD = 0x4e554c4c53484421"
definition CANARY_TAIL :: nat where "CANARY_TAIL = 0x21444853484f4c45"
definition CANARY_FREED :: nat where "CANARY_FREED = 0x46524545444f4d21"
definition POISON_BYTE :: u8 where "POISON_BYTE = 0xDD"

lemmas guard_consts = GUARD_PREFIX_def GUARD_TRAILER_def GUARD_TOTAL_def CANARY_HEAD_def
  CANARY_TAIL_def CANARY_FREED_def

record Slot =
  sl_arena :: Arena
  sl_ready :: bool

record Heap =
  hp_slot :: "nat \<Rightarrow> Slot"
  hp_active :: nat
  hp_booted :: bool
  hp_mallocs :: nat
  hp_frees :: nat

text \<open>What \<open>getenv\<close> says of \<open>NSH_ALLOC_STRATEGY\<close>, and where \<open>mmap\<close> puts the arena of a slot.\<close>

record HeapEnv =
  he_strategy :: "string option"
  he_map :: "nat \<Rightarrow> nat option"

definition set_arena :: "Heap \<Rightarrow> nat \<Rightarrow> Arena \<Rightarrow> Heap" where
  "set_arena h slot a = h\<lparr>hp_slot := (hp_slot h)(slot := \<lparr>sl_arena = a, sl_ready = True\<rparr>)\<rparr>"

definition arena_of :: "Heap \<Rightarrow> nat \<Rightarrow> Arena" where
  "arena_of h slot = sl_arena (hp_slot h slot)"

definition heap_boot :: "HeapEnv \<Rightarrow> Heap \<Rightarrow> Heap" where
  "heap_boot env h =
     (if hp_booted h then h
      else h\<lparr>hp_booted := True,
             hp_active := (if he_strategy env = Some ''buddy'' then SLOT_BUDDY else SLOT_FIRSTFIT)\<rparr>)"

text \<open>Anonymous memory is zeroed.\<close>

definition slot_arena :: "HeapEnv \<Rightarrow> Heap \<Rightarrow> nat \<Rightarrow> Heap Res" where
  "slot_arena env h slot =
     (if sl_ready (hp_slot h slot) then Done h
      else case he_map env slot of
        None \<Rightarrow> Died (MapFailed ARENA_SIZE)
      | Some mem \<Rightarrow>
          bindr (access (str_init (STRATEGIES slot)
             \<lparr>ar_base = mem, ar_size = ARENA_SIZE, ar_state = 0, ar_mem = (\<lambda>x. 0)\<rparr>))
            (\<lambda>a. Done (set_arena h slot a)))"

definition in_slot :: "Heap \<Rightarrow> nat \<Rightarrow> nat \<Rightarrow> bool" where
  "in_slot h p i \<longleftrightarrow> sl_ready (hp_slot h i) \<and> ar_base (arena_of h i) \<le> p
     \<and> p < ar_base (arena_of h i) + ar_size (arena_of h i)"

definition slot_of_pointer :: "Heap \<Rightarrow> nat \<Rightarrow> nat option" where
  "slot_of_pointer h p = List.find (in_slot h p) [0..<SLOT_COUNT]"

section \<open>Guards\<close>

definition guard_of :: "nat \<Rightarrow> nat" where "guard_of payload = payload - GUARD_PREFIX"

definition guard_write :: "Arena \<Rightarrow> nat \<Rightarrow> nat \<Rightarrow> Arena option" where
  "guard_write a payload requested = do {
     let g = guard_of payload;
     a \<leftarrow> st a g 8 requested;
     a \<leftarrow> st a (g + 8) 8 CANARY_HEAD;
     st a (payload + requested) 8 CANARY_TAIL
   }"

definition guard_check :: "Arena \<Rightarrow> nat \<Rightarrow> unit Res" where
  "guard_check a payload =
     (let g = guard_of payload in
      bindr (access (ld a (g + 8) 8)) (\<lambda>canary.
        if canary = CANARY_FREED then Died (DoubleFree payload)
        else if canary \<noteq> CANARY_HEAD then Died (CorruptPrefix payload)
        else bindr (access (ld a g 8)) (\<lambda>requested.
          bindr (access (ld a (payload + requested) 8)) (\<lambda>tail.
            if tail \<noteq> CANARY_TAIL then Died (CorruptTrailing payload) else Done ()))))"

definition block_new :: "HeapEnv \<Rightarrow> Heap \<Rightarrow> nat \<Rightarrow> nat \<Rightarrow> (nat \<times> Heap) Res" where
  "block_new env h slot requested =
     (if requested > SIZE_MAX - GUARD_TOTAL then Died (OutOfMemory requested)
      else bindr (slot_arena env h slot) (\<lambda>h.
        bindr (access (str_alloc (STRATEGIES slot) (arena_of h slot) (requested + GUARD_TOTAL))) (\<lambda>(raw, a).
          case raw of
            None \<Rightarrow> Died (OutOfMemory requested)
          | Some raw \<Rightarrow>
              let payload = raw + GUARD_PREFIX in
              bindr (access (guard_write a payload requested)) (\<lambda>a.
                Done (payload, (set_arena h slot a)\<lparr>hp_mallocs := (hp_mallocs h + 1) mod 2 ^ 64\<rparr>)))))"

definition block_release :: "Heap \<Rightarrow> nat \<Rightarrow> nat \<Rightarrow> Heap Res" where
  "block_release h slot payload =
     (let g = guard_of payload; a = arena_of h slot in
      bindr (access (st a (g + 8) 8 CANARY_FREED)) (\<lambda>a.
      bindr (access (ld a g 8)) (\<lambda>requested.
      bindr (access (st_bytes a payload (replicate requested POISON_BYTE))) (\<lambda>a.
      bindr (access (str_free_block (STRATEGIES slot) a g)) (\<lambda>a.
        Done ((set_arena h slot a)\<lparr>hp_frees := (hp_frees h + 1) mod 2 ^ 64\<rparr>))))))"

section \<open>The interface\<close>

text \<open>Reading and writing bytes at a pointer into the heap.\<close>

definition heap_get :: "Heap \<Rightarrow> nat \<Rightarrow> nat \<Rightarrow> u8 list Res" where
  "heap_get h p n =
     (case slot_of_pointer h p of
        None \<Rightarrow> Wild
      | Some i \<Rightarrow> access (ld_bytes (arena_of h i) p n))"

definition heap_put :: "Heap \<Rightarrow> nat \<Rightarrow> u8 list \<Rightarrow> Heap Res" where
  "heap_put h p bs =
     (case slot_of_pointer h p of
        None \<Rightarrow> Wild
      | Some i \<Rightarrow> bindr (access (st_bytes (arena_of h i) p bs)) (\<lambda>a. Done (set_arena h i a)))"

definition nsh_malloc :: "HeapEnv \<Rightarrow> Heap \<Rightarrow> nat \<Rightarrow> (nat \<times> Heap) Res" where
  "nsh_malloc env h n =
     (let h = heap_boot env h in block_new env h (hp_active h) (if n = 0 then 1 else n))"

definition nsh_calloc :: "HeapEnv \<Rightarrow> Heap \<Rightarrow> nat \<Rightarrow> nat \<Rightarrow> (nat \<times> Heap) Res" where
  "nsh_calloc env h count sz =
     (if count \<noteq> 0 \<and> sz > SIZE_MAX div count then Died (OutOfMemoryCalloc count sz)
      else
        let want = count * sz;
            want = (if want = 0 then 1 else want)
        in bindr (nsh_malloc env h want) (\<lambda>(p, h).
             bindr (heap_put h p (replicate want 0)) (\<lambda>h. Done (p, h))))"

text \<open>0 is the null pointer.\<close>

definition nsh_free :: "Heap \<Rightarrow> nat \<Rightarrow> Heap Res" where
  "nsh_free h p =
     (if p = 0 then Done h
      else case slot_of_pointer h p of
        None \<Rightarrow> Died (UnknownPointer p)
      | Some slot \<Rightarrow> bindr (guard_check (arena_of h slot) p) (\<lambda>_. block_release h slot p))"

definition nsh_realloc :: "HeapEnv \<Rightarrow> Heap \<Rightarrow> nat \<Rightarrow> nat \<Rightarrow> (nat \<times> Heap) Res" where
  "nsh_realloc env h p new_size =
     (let want = (if new_size = 0 then 1 else new_size) in
      if p = 0 then nsh_malloc env h want
      else case slot_of_pointer h p of
        None \<Rightarrow> Died (UnknownPointer p)
      | Some slot \<Rightarrow>
          let a = arena_of h slot in
          bindr (guard_check a p) (\<lambda>_.
          bindr (access (ld a (guard_of p) 8)) (\<lambda>old.
          bindr (access (str_usable_size (STRATEGIES slot) a (guard_of p))) (\<lambda>usable.
            let capacity = usable - GUARD_TOTAL in
            if capacity \<ge> want
            then bindr (access (guard_write a p want)) (\<lambda>a. Done (p, set_arena h slot a))
            else bindr (nsh_malloc env h want) (\<lambda>(fresh, h).
              bindr (heap_get h p (if old < want then old else want)) (\<lambda>bs.
              bindr (heap_put h fresh bs) (\<lambda>h.
              bindr (block_release h slot p) (\<lambda>h. Done (fresh, h)))))))))"

section \<open>Strategy, numbers, dump\<close>

definition alloc_set_strategy :: "HeapEnv \<Rightarrow> Heap \<Rightarrow> string option \<Rightarrow> NshError \<times> Heap" where
  "alloc_set_strategy env h name =
     (let h = heap_boot env h in
      case name of
        None \<Rightarrow> (NSH_ERR_INVALID, h)
      | Some s \<Rightarrow>
          (case List.find (\<lambda>i. s = str_name (STRATEGIES i)) [0..<SLOT_COUNT] of
             Some i \<Rightarrow> (NSH_OK, h\<lparr>hp_active := i\<rparr>)
           | None \<Rightarrow> (NSH_ERR_INVALID, h)))"

definition alloc_strategy_name :: "HeapEnv \<Rightarrow> Heap \<Rightarrow> string \<times> Heap" where
  "alloc_strategy_name env h =
     (let h = heap_boot env h in (str_name (STRATEGIES (hp_active h)), h))"

definition alloc_get_stats :: "HeapEnv \<Rightarrow> Heap \<Rightarrow> (AllocStats \<times> Heap) Res" where
  "alloc_get_stats env h =
     (let h = heap_boot env h; s = hp_slot h (hp_active h) in
      bindr (if sl_ready s then access (str_stats (STRATEGIES (hp_active h)) (sl_arena s) zero_stats)
             else Done zero_stats) (\<lambda>out.
        Done (out\<lparr>as_strategy := str_name (STRATEGIES (hp_active h)),
                 as_total_mallocs := hp_mallocs h, as_total_frees := hp_frees h\<rparr>, h)))"

definition alloc_dump :: "HeapEnv \<Rightarrow> Heap \<Rightarrow> (string \<times> Heap) Res" where
  "alloc_dump env h =
     (let h = heap_boot env h; s = hp_slot h (hp_active h) in
      if \<not> sl_ready s then Done (line_of ''heap not initialized'', h)
      else bindr (access (str_dump (STRATEGIES (hp_active h)) (sl_arena s))) (\<lambda>out. Done (out, h)))"

section \<open>The heap builtin\<close>

definition HEAP_KEY_WIDTH :: nat where "HEAP_KEY_WIDTH = 13"

definition heap_row :: "string \<Rightarrow> nat \<Rightarrow> string" where
  "heap_row key value = line_of (pad_right HEAP_KEY_WIDTH key @ ''  '' @ dec_nat value)"

definition heap_usage :: string where
  "heap_usage = line_of ''nullsh: heap: usage: heap [stats | strategy [NAME] | dump]''"

text \<open>What goes to stdout and stderr, the status, and the heap.\<close>

type_synonym HeapOut = "string \<times> string \<times> int \<times> Heap"

definition heap_print_stats :: "HeapEnv \<Rightarrow> Heap \<Rightarrow> HeapOut Res" where
  "heap_print_stats env h =
     bindr (alloc_get_stats env h) (\<lambda>(st, h).
       Done (line_of (pad_right HEAP_KEY_WIDTH ''strategy'' @ ''  '' @ as_strategy st)
             @ heap_row ''arena size'' (as_arena_size st) @ heap_row ''used bytes'' (as_used_bytes st)
             @ heap_row ''free bytes'' (as_free_bytes st) @ heap_row ''live blocks'' (as_live_blocks st)
             @ heap_row ''free blocks'' (as_free_blocks st) @ heap_row ''largest free'' (as_largest_free st)
             @ heap_row ''total mallocs'' (as_total_mallocs st) @ heap_row ''total frees'' (as_total_frees st),
             [], 0, h))"

definition heap_strategy :: "HeapEnv \<Rightarrow> Heap \<Rightarrow> string list \<Rightarrow> HeapOut" where
  "heap_strategy env h argv =
     (if length argv = 2
      then (case alloc_strategy_name env h of (s, h) \<Rightarrow> (line_of s, [], 0, h))
      else (case alloc_set_strategy env h (Some (argv ! 2)) of (err, h) \<Rightarrow>
        if err \<noteq> NSH_OK
        then ([], line_of (''nullsh: heap: unknown strategy '' @ argv ! 2 @ '' (firstfit, buddy)''), 1, h)
        else ([], [], 0, h)))"

definition heap_builtin :: "HeapEnv \<Rightarrow> Heap \<Rightarrow> string list \<Rightarrow> HeapOut Res" where
  "heap_builtin env h argv =
     (if length argv < 2 then heap_print_stats env h
      else if argv ! 1 = ''stats'' \<and> length argv = 2 then heap_print_stats env h
      else if argv ! 1 = ''strategy'' \<and> length argv \<le> 3 then Done (heap_strategy env h argv)
      else if argv ! 1 = ''dump'' \<and> length argv = 2
      then bindr (alloc_dump env h) (\<lambda>(out, h). Done (out, [], 0, h))
      else Done ([], heap_usage, 1, h))"

end
