(* ===== verification/Strategy.thy ===== *)
theory Strategy
  imports Arena
begin

text \<open>
  The contract of \<open>src/alloc/internal.h\<close> between \<open>alloc.c\<close> and a strategy, as a locale. \<open>rep a L\<close>
  says that the bytes of \<open>a\<close> are a sound heap whose live blocks are \<open>L\<close>: a map from the pointers
  the strategy gave out to the number of bytes that may be used there. First fit and buddy both
  meet it; \<open>alloc.c\<close> is verified once against it.
\<close>

definition unchanged :: "(nat \<rightharpoonup> nat) \<Rightarrow> mem \<Rightarrow> mem \<Rightarrow> bool" where
  "unchanged L m m' \<longleftrightarrow> (\<forall>p k x. L p = Some k \<longrightarrow> p \<le> x \<longrightarrow> x < p + k \<longrightarrow> m' x = m x)"

locale alloc_strategy =
  fixes alloc :: "Arena \<Rightarrow> nat \<Rightarrow> (nat option \<times> Arena) option"
    and free_block :: "Arena \<Rightarrow> nat \<Rightarrow> Arena option"
    and usable :: "Arena \<Rightarrow> nat \<Rightarrow> nat option"
    and rep :: "Arena \<Rightarrow> (nat \<rightharpoonup> nat) \<Rightarrow> bool"
  assumes alloc_law: "rep a L \<Longrightarrow> \<exists>r m. alloc a n = Some (r, a\<lparr>ar_mem := m\<rparr>)
      \<and> (case r of None \<Rightarrow> m = ar_mem a
         | Some p \<Rightarrow> L p = None \<and> unchanged L (ar_mem a) m
             \<and> (\<exists>k\<ge>n. rep (a\<lparr>ar_mem := m\<rparr>) (L(p \<mapsto> k))))"
    and free_law: "rep a L \<Longrightarrow> L p = Some k \<Longrightarrow> \<exists>m. free_block a p = Some (a\<lparr>ar_mem := m\<rparr>)
      \<and> unchanged (L(p := None)) (ar_mem a) m \<and> rep (a\<lparr>ar_mem := m\<rparr>) (L(p := None))"
    and usable_law: "rep a L \<Longrightarrow> L p = Some k \<Longrightarrow> usable a p = Some k"
    and range_law: "rep a L \<Longrightarrow> L p = Some k \<Longrightarrow> in_arena a p k \<and> 0 < p \<and> p mod 16 = 0"
    and size_law: "rep a L \<Longrightarrow> ar_base a + ar_size a < 2 ^ 64"
    and disjoint_law: "rep a L \<Longrightarrow> L p = Some k \<Longrightarrow> L q = Some j \<Longrightarrow> p \<noteq> q \<Longrightarrow> p + k \<le> q \<or> q + j \<le> p"
    and write_law: "rep a L \<Longrightarrow> L p = Some k \<Longrightarrow> (\<And>x. x < p \<or> p + k \<le> x \<Longrightarrow> m x = ar_mem a x)
      \<Longrightarrow> rep (a\<lparr>ar_mem := m\<rparr>) L"

end
