(* ===== verification/Alloc_Guard.thy ===== *)
theory Alloc_Guard
  imports Alloc Strategy
begin

text \<open>
  The client side of the contract: what \<open>alloc.c\<close> does with one block of a strategy, inside the
  locale, for both strategies at once. \<open>holds rep a B\<close> says that the arena holds the contents \<open>B\<close>:
  every payload lies in a live block of the strategy between intact guards. Making, checking,
  reading, writing, resizing and releasing a block keep it.
\<close>

section \<open>Guarded blocks\<close>

text \<open>A payload with its contents between the guards: 16 bytes before it, 8 behind it.\<close>

definition guarded :: "mem \<Rightarrow> nat \<Rightarrow> u8 list \<Rightarrow> bool" where
  "guarded m p bs \<longleftrightarrow> peek_le m (p - 16) 8 = length bs \<and> peek_le m (p - 8) 8 = CANARY_HEAD
     \<and> bytes_at m p (length bs) = bs \<and> peek_le m (p + length bs) 8 = CANARY_TAIL"

lemma guarded_behind: "guarded m (q + 16) bs \<longleftrightarrow> peek_le m q 8 = length bs \<and> peek_le m (q + 8) 8 = CANARY_HEAD
     \<and> bytes_at m (q + 16) (length bs) = bs \<and> peek_le m (q + 16 + length bs) 8 = CANARY_TAIL"
proof -
  have "q + 16 - 8 = q + 8" by simp
  then show ?thesis unfolding guarded_def by (simp add: add.commute [of 8 q])
qed

lemma guarded_cong:
  assumes "guarded m p bs" "16 \<le> p" "\<And>x. p - 16 \<le> x \<Longrightarrow> x < p + length bs + 8 \<Longrightarrow> m' x = m x"
  shows "guarded m' p bs"
proof -
  have "peek_le m' q n = peek_le m q n" if "p - 16 \<le> q" "q + n \<le> p + length bs + 8" for q n
    by (rule peek_cong, rule assms(3)) (use that in auto)
  moreover have "bytes_at m' p (length bs) = bytes_at m p (length bs)"
    by (rule bytes_at_cong, rule assms(3)) auto
  ultimately show ?thesis using assms(1,2) by (simp add: guarded_def)
qed

text \<open>\<open>B\<close> maps the payloads the heap gave out to their contents.\<close>

type_synonym contents = "nat \<rightharpoonup> u8 list"

definition fits_in :: "mem \<Rightarrow> nat \<Rightarrow> u8 list \<Rightarrow> nat \<Rightarrow> bool" where
  "fits_in m p bs k \<longleftrightarrow> length bs + 24 \<le> k \<and> guarded m p bs"

definition held :: "mem \<Rightarrow> (nat \<rightharpoonup> nat) \<Rightarrow> contents \<Rightarrow> bool" where
  "held m L B \<longleftrightarrow> (\<forall>p. B p \<noteq> None \<longleftrightarrow> 16 \<le> p \<and> L (p - 16) \<noteq> None)
     \<and> (\<forall>p bs k. B p = Some bs \<longrightarrow> L (p - 16) = Some k \<longrightarrow> fits_in m p bs k)"

definition holds :: "(Arena \<Rightarrow> (nat \<rightharpoonup> nat) \<Rightarrow> bool) \<Rightarrow> Arena \<Rightarrow> contents \<Rightarrow> bool" where
  "holds rep a B \<longleftrightarrow> (\<exists>L. rep a L \<and> held (ar_mem a) L B)"

lemma heldD:
  assumes "held m L B" "B p = Some bs"
  shows "\<exists>k. L (p - 16) = Some k \<and> fits_in m p bs k \<and> 16 \<le> p"
proof -
  have "16 \<le> p \<and> L (p - 16) \<noteq> None" using assms unfolding held_def by (metis option.distinct(1))
  then show ?thesis using assms unfolding held_def by auto
qed

text \<open>A block is given new contents, or a new block is filled.\<close>

lemma held_fill:
  assumes h: "held m L B" "L' = L(q \<mapsto> k)" "fits_in m' (q + 16) bs k"
    and m: "\<And>p xs j. B p = Some xs \<Longrightarrow> p \<noteq> q + 16 \<Longrightarrow> L (p - 16) = Some j \<Longrightarrow> fits_in m p xs j \<Longrightarrow> fits_in m' p xs j"
  shows "held m' L' (B(q + 16 \<mapsto> bs))"
proof -
  have "(B(q + 16 \<mapsto> bs)) p \<noteq> None \<longleftrightarrow> 16 \<le> p \<and> L' (p - 16) \<noteq> None" for p
    using h(1,2) by (cases "p = q + 16") (auto simp: held_def)
  moreover have "fits_in m' p xs j" if "(B(q + 16 \<mapsto> bs)) p = Some xs" "L' (p - 16) = Some j" for p xs j
  proof (cases "p = q + 16")
    case False
    then have b: "B p = Some xs" using that(1) by simp
    then have "16 \<le> p" using heldD [OF h(1)] by blast
    then have "L (p - 16) = Some j" using that(2) h(2) False by (simp split: if_splits)
    then show ?thesis using m [OF b False] h(1) b unfolding held_def by blast
  qed (use that h(2,3) in simp)
  ultimately show ?thesis by (simp add: held_def)
qed

lemma held_drop:
  assumes h: "held m L B" "16 \<le> p"
    and m: "\<And>r xs j. B r = Some xs \<Longrightarrow> r \<noteq> p \<Longrightarrow> L (r - 16) = Some j \<Longrightarrow> fits_in m r xs j \<Longrightarrow> fits_in m' r xs j"
  shows "held m' (L(p - 16 := None)) (B(p := None))"
proof -
  have "(B(p := None)) r \<noteq> None \<longleftrightarrow> 16 \<le> r \<and> (L(p - 16 := None)) (r - 16) \<noteq> None" for r
    using h by (auto simp: held_def)
  moreover have "fits_in m' r xs j" if "(B(p := None)) r = Some xs" "(L(p - 16 := None)) (r - 16) = Some j" for r xs j
    using that m [of r xs j] h(1) by (auto simp: held_def split: if_splits)
  ultimately show ?thesis by (simp add: held_def)
qed

lemma fits_in_cong:
  assumes "fits_in m p bs k" "16 \<le> p" "\<And>x. p - 16 \<le> x \<Longrightarrow> x < p - 16 + k \<Longrightarrow> m' x = m x"
  shows "fits_in m' p bs k"
  using assms(1) guarded_cong [of m p bs m'] assms(2,3) by (auto simp: fits_in_def)

section \<open>The client of a strategy\<close>

context alloc_strategy
begin

text \<open>One block of the strategy is in the hands of \<open>alloc.c\<close>; the others hold \<open>B\<close>.\<close>

definition open_block :: "Arena \<Rightarrow> (nat \<rightharpoonup> nat) \<Rightarrow> contents \<Rightarrow> nat \<Rightarrow> nat \<Rightarrow> bool" where
  "open_block a L B q k \<longleftrightarrow> rep a L \<and> L q = Some k \<and> held (ar_mem a) (L(q := None)) (B(q + 16 := None))"

lemma open_blockD:
  assumes "open_block a L B q k"
  shows "in_arena a q k" "0 < q" "q mod 16 = 0" "q + k < 2 ^ 64"
    "\<And>p n. q \<le> p \<Longrightarrow> p + n \<le> q + k \<Longrightarrow> in_arena a p n"
  using assms range_law [of a L q k] size_law [of a L] by (auto simp: open_block_def in_arena_def)

lemma open_held:
  assumes "holds rep a B" "B p = Some bs"
  shows "\<exists>L q k. p = q + 16 \<and> open_block a L B q k \<and> fits_in (ar_mem a) p bs k"
proof -
  obtain L where r: "rep a L" "held (ar_mem a) L B" using assms(1) by (auto simp: holds_def)
  obtain k where k: "L (p - 16) = Some k" "fits_in (ar_mem a) p bs k" "16 \<le> p" using heldD [OF r(2) assms(2)] by blast
  have "held (ar_mem a) (L(p - 16 := None)) (B(p := None))" by (rule held_drop [OF r(2) k(3)])
  then show ?thesis using r k by (intro exI [of _ L] exI [of _ "p - 16"] exI [of _ k]) (simp add: open_block_def)
qed

text \<open>Writes inside the open block, and closing it when it is guarded again.\<close>

lemma open_write:
  assumes o: "open_block a L B q k" and m: "\<And>x. x < q \<or> q + k \<le> x \<Longrightarrow> m x = ar_mem a x"
  shows "open_block (a\<lparr>ar_mem := m\<rparr>) L B q k"
proof -
  have r: "rep a L" "L q = Some k" "held (ar_mem a) (L(q := None)) (B(q + 16 := None))"
    using o by (simp_all add: open_block_def)
  have "fits_in m p xs j" if "(B(q + 16 := None)) p = Some xs" "(L(q := None)) (p - 16) = Some j" "fits_in (ar_mem a) p xs j" for p xs j
  proof -
    have p16: "16 \<le> p" using heldD [OF r(3) that(1)] by blast
    have "L (p - 16) = Some j" "p - 16 \<noteq> q" using that(2) by (auto split: if_splits)
    then have "p - 16 + j \<le> q \<or> q + k \<le> p - 16" using disjoint_law [OF r(1) _ r(2)] by auto
    then show ?thesis by (intro fits_in_cong [OF that(3) p16] m) auto
  qed
  then have "held m (L(q := None)) (B(q + 16 := None))" using r(3) unfolding held_def by blast
  then show ?thesis using write_law [OF r(1,2) m] r(2) by (simp add: open_block_def)
qed

lemma close_block:
  assumes o: "open_block a L B q k" and f: "fits_in (ar_mem a) (q + 16) bs k"
  shows "holds rep a (B(q + 16 \<mapsto> bs))"
proof -
  have r: "rep a L" "L q = Some k" "held (ar_mem a) (L(q := None)) (B(q + 16 := None))"
    using o by (simp_all add: open_block_def)
  have "held (ar_mem a) ((L(q := None))(q \<mapsto> k)) ((B(q + 16 := None))(q + 16 \<mapsto> bs))"
    by (rule held_fill [OF r(3) refl f])
  then show ?thesis using r(1,2) by (auto simp: holds_def fun_upd_idem)
qed

text \<open>Writing the guards keeps the bytes between them.\<close>

lemma guard_write_law:
  assumes o: "open_block a L B q k" and n: "n + 24 \<le> k"
  shows "\<exists>m bs. guard_write a (q + 16) n = Some (a\<lparr>ar_mem := m\<rparr>) \<and> bs = bytes_at (ar_mem a) (q + 16) n
    \<and> holds rep (a\<lparr>ar_mem := m\<rparr>) (B(q + 16 \<mapsto> bs))"
proof -
  let ?m = "poke (poke (poke (ar_mem a) q 8 n) (q + 8) 8 CANARY_HEAD) (q + 16 + n) 8 CANARY_TAIL"
  have i: "in_arena a q 8" "in_arena a (q + 8) 8" "in_arena a (q + 16 + n) 8"
    using open_blockD(5) [OF o] n by simp_all
  have g: "guard_write a (q + 16) n = Some (a\<lparr>ar_mem := ?m\<rparr>)"
    using i by (simp add: guard_write_def guard_of_def GUARD_PREFIX_def st_def Let_def)
  have keep: "bytes_at ?m (q + 16) n = bytes_at (ar_mem a) (q + 16) n"
    by (rule bytes_at_cong) (simp add: poke_other)
  have "fits_in ?m (q + 16) (bytes_at (ar_mem a) (q + 16) n) k"
    using n open_blockD(4) [OF o] keep by (simp add: fits_in_def guarded_behind CANARY_HEAD_def CANARY_TAIL_def)
  moreover have "open_block (a\<lparr>ar_mem := ?m\<rparr>) L B q k"
    by (rule open_write [OF o]) (use n in \<open>auto simp: poke_other\<close>)
  ultimately have "holds rep (a\<lparr>ar_mem := ?m\<rparr>) (B(q + 16 \<mapsto> bytes_at (ar_mem a) (q + 16) n))"
    by (intro close_block) simp_all
  then show ?thesis using g by blast
qed

lemma new_law:
  assumes "holds rep a B"
  shows "\<exists>r m. alloc a (n + 24) = Some (r, a\<lparr>ar_mem := m\<rparr>) \<and> (case r of
      None \<Rightarrow> m = ar_mem a
    | Some q \<Rightarrow> B (q + 16) = None \<and> (\<exists>m' bs. guard_write (a\<lparr>ar_mem := m\<rparr>) (q + 16) n = Some (a\<lparr>ar_mem := m'\<rparr>)
        \<and> length bs = n \<and> holds rep (a\<lparr>ar_mem := m'\<rparr>) (B(q + 16 \<mapsto> bs))))"
proof -
  obtain L where r: "rep a L" "held (ar_mem a) L B" using assms by (auto simp: holds_def)
  obtain r m where m: "alloc a (n + 24) = Some (r, a\<lparr>ar_mem := m\<rparr>)"
    "case r of None \<Rightarrow> m = ar_mem a
         | Some p \<Rightarrow> L p = None \<and> unchanged L (ar_mem a) m \<and> (\<exists>k\<ge>n + 24. rep (a\<lparr>ar_mem := m\<rparr>) (L(p \<mapsto> k)))"
    using alloc_law [OF r(1)] by blast
  show ?thesis
  proof (cases r)
    case None
    then show ?thesis using m by (intro exI [of _ None] exI [of _ m]) simp
  next
    case (Some q)
    then obtain k where k: "L q = None" "unchanged L (ar_mem a) m" "n + 24 \<le> k" "rep (a\<lparr>ar_mem := m\<rparr>) (L(q \<mapsto> k))"
      using m(2) by auto
    have fresh: "B (q + 16) = None" using heldD [OF r(2), of "q + 16"] k(1) by (cases "B (q + 16)") auto
    have "fits_in m p xs j" if "B p = Some xs" "L (p - 16) = Some j" "fits_in (ar_mem a) p xs j" for p xs j
      by (rule fits_in_cong [OF that(3)]) (use heldD [OF r(2) that(1)] k(2) that(2) in \<open>auto simp: unchanged_def\<close>)
    then have "held m L B" using r(2) unfolding held_def by blast
    then have "open_block (a\<lparr>ar_mem := m\<rparr>) (L(q \<mapsto> k)) B q k"
      using k(1,4) fresh by (simp add: open_block_def fun_upd_idem)
    then obtain m' where m': "guard_write (a\<lparr>ar_mem := m\<rparr>) (q + 16) n = Some (a\<lparr>ar_mem := m'\<rparr>)"
      "holds rep (a\<lparr>ar_mem := m'\<rparr>) (B(q + 16 \<mapsto> bytes_at m (q + 16) n))"
      using guard_write_law [OF _ k(3)] by fastforce
    have "\<exists>m' bs. guard_write (a\<lparr>ar_mem := m\<rparr>) (q + 16) n = Some (a\<lparr>ar_mem := m'\<rparr>)
        \<and> length bs = n \<and> holds rep (a\<lparr>ar_mem := m'\<rparr>) (B(q + 16 \<mapsto> bs))"
      using m' by (intro exI [of _ m'] exI [of _ "bytes_at m (q + 16) n"]) simp
    then show ?thesis using m(1) fresh Some by auto
  qed
qed

text \<open>The guards of a held block are found intact.\<close>

lemma check_law:
  assumes "holds rep a B" "B p = Some bs"
  shows "guard_check a p = Done ()" "ld a (guard_of p) 8 = Some (length bs)"
    "\<exists>k\<ge>length bs + 24. usable a (guard_of p) = Some k"
proof -
  obtain L q k where o: "p = q + 16" "open_block a L B q k" "length bs + 24 \<le> k" "guarded (ar_mem a) p bs"
    using open_held [OF assms] by (auto simp: fits_in_def)
  have i: "in_arena a q 8" "in_arena a (q + 8) 8" "in_arena a (q + 16 + length bs) 8"
    using open_blockD(5) [OF o(2)] o(3) by simp_all
  have g: "peek_le (ar_mem a) q 8 = length bs" "peek_le (ar_mem a) (q + 8) 8 = CANARY_HEAD"
    "peek_le (ar_mem a) (q + 16 + length bs) 8 = CANARY_TAIL" using o(1,4) by (simp_all add: guarded_behind)
  show "guard_check a p = Done ()"
    using i g o(1) by (simp add: guard_check_def guard_of_def ld_def GUARD_PREFIX_def CANARY_HEAD_def CANARY_FREED_def)
  show "ld a (guard_of p) 8 = Some (length bs)" using i g o(1) by (simp add: guard_of_def ld_def GUARD_PREFIX_def)
  show "\<exists>k\<ge>length bs + 24. usable a (guard_of p) = Some k"
    using o usable_law [of a L q k] by (auto simp: guard_of_def GUARD_PREFIX_def open_block_def)
qed

text \<open>Reading and writing inside a payload.\<close>

lemma get_law:
  assumes "holds rep a B" "B p = Some bs" "i + n \<le> length bs"
  shows "ld_bytes a (p + i) n = Some (take n (drop i bs))"
proof -
  obtain L q k where o: "p = q + 16" "open_block a L B q k" "length bs + 24 \<le> k" "guarded (ar_mem a) p bs"
    using open_held [OF assms(1,2)] by (auto simp: fits_in_def)
  have "in_arena a (p + i) n" using open_blockD(5) [OF o(2)] o(1,3) assms(3) by simp
  moreover have "bytes_at (ar_mem a) (p + i) n = take n (drop i bs)"
  proof -
    have b: "bytes_at (ar_mem a) p (length bs) = bs" using o(4) by (simp add: guarded_def)
    have "bytes_at (ar_mem a) (p + i) n = take n (drop i (bytes_at (ar_mem a) p (length bs)))"
      using assms(3) by (simp add: bytes_at_def drop_map take_map)
    then show ?thesis using b by simp
  qed
  ultimately show ?thesis by (simp add: ld_bytes_def)
qed

lemma put_law:
  assumes "holds rep a B" "B p = Some bs" "i + length cs \<le> length bs"
  shows "\<exists>m. st_bytes a (p + i) cs = Some (a\<lparr>ar_mem := m\<rparr>)
    \<and> holds rep (a\<lparr>ar_mem := m\<rparr>) (B(p \<mapsto> take i bs @ cs @ drop (i + length cs) bs))"
proof -
  obtain L q k where o: "p = q + 16" "open_block a L B q k" "length bs + 24 \<le> k" "guarded (ar_mem a) p bs"
    using open_held [OF assms(1,2)] by (auto simp: fits_in_def)
  let ?m = "put (ar_mem a) (p + i) cs" and ?bs = "take i bs @ cs @ drop (i + length cs) bs"
  have s: "st_bytes a (p + i) cs = Some (a\<lparr>ar_mem := ?m\<rparr>)"
    using open_blockD(5) [OF o(2)] o(1,3) assms(3) by (simp add: st_bytes_def)
  have other: "peek_le ?m r n = peek_le (ar_mem a) r n" if "r + n \<le> p \<or> p + length bs \<le> r" for r n
    using that assms(3) by (intro peek_put_other) auto
  have b: "bytes_at (ar_mem a) p (length bs) = bs" using o(4) by (simp add: guarded_def)
  have "ar_mem a (p + j) = bs ! j" if "j < length bs" for j
    using arg_cong [OF b, of "\<lambda>xs. xs ! j"] that by (simp add: bytes_at_def)
  then have "bytes_at ?m p (length bs) = ?bs"
    using assms(3) by (intro nth_equalityI) (auto simp: bytes_at_def put_def nth_append)
  then have "fits_in ?m p ?bs k" using o assms(3) other by (simp add: fits_in_def guarded_def)
  moreover have "open_block (a\<lparr>ar_mem := ?m\<rparr>) L B q k"
    by (rule open_write [OF o(2)]) (use o(1,3) assms(3) in \<open>auto intro: put_other\<close>)
  ultimately have "holds rep (a\<lparr>ar_mem := ?m\<rparr>) (B(q + 16 \<mapsto> ?bs))" using o(1) by (intro close_block) simp_all
  then show ?thesis using s o(1) by auto
qed

text \<open>A new length within the block.\<close>

lemma regrow_law:
  assumes "holds rep a B" "B p = Some bs" "usable a (guard_of p) = Some u" "n + 24 \<le> u"
  shows "\<exists>m bs'. guard_write a p n = Some (a\<lparr>ar_mem := m\<rparr>) \<and> length bs' = n
    \<and> take (min n (length bs)) bs' = take (min n (length bs)) bs \<and> holds rep (a\<lparr>ar_mem := m\<rparr>) (B(p \<mapsto> bs'))"
proof -
  obtain L q k where o: "p = q + 16" "open_block a L B q k" "guarded (ar_mem a) p bs"
    using open_held [OF assms(1,2)] by (auto simp: fits_in_def)
  have u: "u = k" using usable_law [of a L q k] o(1,2) assms(3) by (auto simp: open_block_def guard_of_def GUARD_PREFIX_def)
  obtain m where m: "guard_write a p n = Some (a\<lparr>ar_mem := m\<rparr>)"
    "holds rep (a\<lparr>ar_mem := m\<rparr>) (B(p \<mapsto> bytes_at (ar_mem a) p n))"
    using guard_write_law [OF o(2)] assms(4) o(1) u by auto
  have "take (min n (length bs)) (bytes_at (ar_mem a) p n) = take (min n (length bs)) (bytes_at (ar_mem a) p (length bs))"
    by (auto simp: bytes_at_def take_map intro!: nth_equalityI)
  also have "bytes_at (ar_mem a) p (length bs) = bs" using o(3) by (simp add: guarded_def)
  finally show ?thesis using m by (intro exI [of _ m] exI [of _ "bytes_at (ar_mem a) p n"]) simp
qed

text \<open>Poisoning and giving back a block.\<close>

lemma release_law:
  assumes "holds rep a B" "B p = Some bs"
  shows "\<exists>a1 a2 m. st a (guard_of p + 8) 8 CANARY_FREED = Some a1 \<and> ld a1 (guard_of p) 8 = Some (length bs)
    \<and> st_bytes a1 p (replicate (length bs) POISON_BYTE) = Some a2
    \<and> free_block a2 (guard_of p) = Some (a\<lparr>ar_mem := m\<rparr>) \<and> holds rep (a\<lparr>ar_mem := m\<rparr>) (B(p := None))"
proof -
  obtain L q k where o: "p = q + 16" "open_block a L B q k" "length bs + 24 \<le> k" "guarded (ar_mem a) p bs"
    using open_held [OF assms] by (auto simp: fits_in_def)
  let ?m1 = "poke (ar_mem a) (q + 8) 8 CANARY_FREED"
  let ?m2 = "put ?m1 p (replicate (length bs) POISON_BYTE)"
  have i: "in_arena a q 8" "in_arena a (q + 8) 8" "in_arena a p (length bs)"
    using open_blockD(5) [OF o(2)] o(1,3) by simp_all
  have "open_block (a\<lparr>ar_mem := ?m2\<rparr>) L B q k"
    by (rule open_write [OF o(2)]) (use o(1,3) in \<open>auto intro: trans [OF put_other poke_other]\<close>)
  then have r: "rep (a\<lparr>ar_mem := ?m2\<rparr>) L" "L q = Some k" "held ?m2 (L(q := None)) (B(p := None))"
    using o(1) by (simp_all add: open_block_def)
  obtain m where m: "free_block (a\<lparr>ar_mem := ?m2\<rparr>) q = Some (a\<lparr>ar_mem := m\<rparr>)" "unchanged (L(q := None)) ?m2 m"
    "rep (a\<lparr>ar_mem := m\<rparr>) (L(q := None))" using free_law [OF r(1,2)] by auto
  have "fits_in m r xs j" if "(B(p := None)) r = Some xs" "(L(q := None)) (r - 16) = Some j" "fits_in ?m2 r xs j" for r xs j
    by (rule fits_in_cong [OF that(3)]) (use heldD [OF r(3) that(1)] m(2) that(2) in \<open>auto simp: unchanged_def\<close>)
  then have "held m (L(q := None)) (B(p := None))" using r(3) unfolding held_def by blast
  then have h: "holds rep (a\<lparr>ar_mem := m\<rparr>) (B(p := None))" using m(3) by (auto simp: holds_def)
  have g: "guard_of (q + 16) = q" by (simp add: guard_of_def GUARD_PREFIX_def)
  show ?thesis
    by (rule exI [of _ "a\<lparr>ar_mem := ?m1\<rparr>"], rule exI [of _ "a\<lparr>ar_mem := ?m2\<rparr>"], rule exI [of _ m])
      (use i o(1,4) m(1) h in \<open>simp add: g st_def ld_def st_bytes_def guarded_behind\<close>)
qed

text \<open>Where payloads are, and that they do not overlap.\<close>

lemma payload_law:
  assumes "holds rep a B" "B p = Some bs"
  shows "ar_base a + 16 \<le> p" "p + length bs + 8 \<le> ar_base a + ar_size a" "p mod 16 = 0"
    "B r = Some cs \<Longrightarrow> r \<noteq> p \<Longrightarrow> p + length bs \<le> r \<or> r + length cs \<le> p"
proof -
  obtain L where r: "rep a L" "held (ar_mem a) L B" using assms(1) by (auto simp: holds_def)
  obtain k where k: "L (p - 16) = Some k" "fits_in (ar_mem a) p bs k" "16 \<le> p" using heldD [OF r(2) assms(2)] by blast
  note g = range_law [OF r(1) k(1)]
  show "ar_base a + 16 \<le> p" "p + length bs + 8 \<le> ar_base a + ar_size a"
    using g k(2,3) by (auto simp: in_arena_def fits_in_def)
  show "p mod 16 = 0" using g k(3) mod_add_self2 [of "p - 16" 16] by simp
  show "p + length bs \<le> r \<or> r + length cs \<le> p" if c: "B r = Some cs" "r \<noteq> p"
  proof -
    obtain j where j: "L (r - 16) = Some j" "fits_in (ar_mem a) r cs j" "16 \<le> r" using heldD [OF r(2) c(1)] by blast
    then have "p - 16 \<noteq> r - 16" using k(3) c(2) by auto
    then have "p - 16 + k \<le> r - 16 \<or> r - 16 + j \<le> p - 16" by (rule disjoint_law [OF r(1) k(1) j(1)])
    then show ?thesis using k(2,3) j(2,3) by (auto simp: fits_in_def)
  qed
qed

lemma holds_empty: "rep a Map.empty \<Longrightarrow> holds rep a Map.empty"
  by (auto simp: holds_def held_def intro!: exI [of _ Map.empty])

end

end
