(* ===== verification/Firstfit_Props.thy ===== *)
theory Firstfit_Props
  imports Firstfit Strategy
begin

text \<open>
  First fit is sound. The list of blocks is read off the memory: \<open>laid m p bs e\<close> says that the
  blocks \<open>bs\<close> tile the addresses from \<open>p\<close> to \<open>e\<close>, each with equal tags at both ends, and
  \<open>ff_heap a bs\<close> that \<open>bs\<close> is the whole heap, without two free blocks side by side. Searching,
  splitting, joining and counting are then functions of the list, and first fit meets the contract
  of a strategy.
\<close>

section \<open>Blocks in memory\<close>

text \<open>A block is its size and whether it is in use.\<close>

type_synonym block = "nat \<times> bool"

definition tag_of :: "bool \<Rightarrow> nat" where
  "tag_of u = (if u then FF_TAG_USED else FF_TAG_FREE)"

definition tagged :: "mem \<Rightarrow> nat \<Rightarrow> nat \<Rightarrow> bool \<Rightarrow> bool" where
  "tagged m p n u \<longleftrightarrow> FF_MIN_BLOCK \<le> n \<and> n mod ALLOC_ALIGN = 0
     \<and> peek_le m p 8 = n \<and> peek_le m (p + 8) 8 = tag_of u
     \<and> peek_le m (p + n - 16) 8 = n \<and> peek_le m (p + n - 8) 8 = tag_of u"

fun laid :: "mem \<Rightarrow> nat \<Rightarrow> block list \<Rightarrow> nat \<Rightarrow> bool" where
  "laid m p [] e \<longleftrightarrow> p = e"
| "laid m p ((n, u) # bs) e \<longleftrightarrow> tagged m p n u \<and> laid m (p + n) bs e"

definition span :: "block list \<Rightarrow> nat" where "span bs = sum_list (map fst bs)"

lemma span_simps [simp]: "span [] = 0" "span ((n, u) # bs) = n + span bs" "span (xs @ ys) = span xs + span ys"
  by (simp_all add: span_def)

lemma laid_end: "laid m p bs e \<Longrightarrow> e = p + span bs"
  by (induction m p bs e rule: laid.induct) auto

lemma laid_append [simp]:
  "laid m p (xs @ ys) e \<longleftrightarrow> laid m p xs (p + span xs) \<and> laid m (p + span xs) ys e"
  by (induction xs arbitrary: p) (auto simp: add.assoc)

lemma tagged_min: "tagged m p n u \<Longrightarrow> 48 \<le> n"
  by (simp add: tagged_def ff_consts)

lemma laid_cong:
  "laid m p bs e \<Longrightarrow> (\<And>x. p \<le> x \<Longrightarrow> x < e \<Longrightarrow> m' x = m x) \<Longrightarrow> laid m' p bs e"
proof (induction m p bs e rule: laid.induct)
  case (2 m p n u bs e)
  then have t: "tagged m p n u" and l: "laid m (p + n) bs e" by auto
  have n: "48 \<le> n" "p + n \<le> e" using tagged_min [OF t] laid_end [OF l] by auto
  have "peek_le m' q 8 = peek_le m q 8" if "p \<le> q" "q + 8 \<le> p + n" for q
    using that n 2(3) by (intro peek_cong) auto
  then have "tagged m' p n u" using t n by (simp add: tagged_def)
  moreover have "laid m' (p + n) bs e" using 2(1) [OF l] 2(3) by auto
  ultimately show ?case by simp
qed simp

lemma laid_empty: "laid m p bs e \<Longrightarrow> p < e \<longleftrightarrow> bs \<noteq> []"
  using laid_end [of m p bs e] tagged_min by (cases "(m, p, bs, e)" rule: laid.cases) fastforce+

section \<open>The live blocks\<close>

fun live :: "nat \<Rightarrow> block list \<Rightarrow> nat \<rightharpoonup> nat" where
  "live p [] = Map.empty"
| "live p ((n, u) # bs) = (if u then [p + 16 \<mapsto> n - 32] else Map.empty) ++ live (p + n) bs"

lemma live_append [simp]: "live p (xs @ ys) = live p xs ++ live (p + span xs) ys"
  by (induction xs arbitrary: p) (auto simp: add.assoc)

lemma live_range: "laid m p bs e \<Longrightarrow> live p bs r = Some k \<Longrightarrow> p + 16 \<le> r \<and> r + k + 16 \<le> e"
proof (induction m p bs e rule: laid.induct)
  case (2 m p n u bs e)
  then show ?case
    using laid_end [of m "p + n" bs e] tagged_min [of m p n u] by (fastforce split: if_splits)
qed simp

lemma live_split:
  "live p bs r = Some k \<Longrightarrow> \<exists>xs n ys. bs = xs @ (n, True) # ys \<and> r = p + span xs + 16 \<and> k = n - 32"
proof (induction p bs rule: live.induct)
  case (2 p n u bs)
  show ?case
  proof (cases "live (p + n) bs r")
    case None
    then have "u \<and> r = p + 16 \<and> k = n - 32" using 2(2) by (auto simp: map_add_Some_iff split: if_splits)
    then show ?thesis by (intro exI [of _ "[]"]) auto
  next
    case (Some j)
    then have "j = k" using 2(2) by (simp add: map_add_Some_iff)
    then obtain xs j' ys where "bs = xs @ (j', True) # ys" "r = p + n + span xs + 16" "k = j' - 32"
      using 2(1) Some by blast
    then show ?thesis by (intro exI [of _ "(n, u) # xs"]) auto
  qed
qed simp

lemma live_low: "laid m p bs e \<Longrightarrow> r < p + 16 \<Longrightarrow> live p bs r = None"
  using live_range [of m p bs e r] by (cases "live p bs r") force+

lemma live_high: "laid m p bs e \<Longrightarrow> e \<le> r \<Longrightarrow> live p bs r = None"
  using live_range [of m p bs e r] by (cases "live p bs r") force+

lemma live_disjoint:
  assumes "laid m p bs e" "live p bs r = Some k" "live p bs r' = Some k'" "r \<noteq> r'"
  shows "r + k \<le> r' \<or> r' + k' \<le> r"
proof -
  obtain xs n ys where x: "bs = xs @ (n, True) # ys" "r = p + span xs + 16" "k = n - 32"
    using live_split [OF assms(2)] by blast
  have l: "laid m p xs (p + span xs)" "laid m (p + span xs + n) ys e" "48 \<le> n"
    using assms(1) x(1) tagged_min by auto
  from assms(3,4) x consider "live (p + span xs + n) ys r' = Some k'" | "live p xs r' = Some k'"
    by (auto simp: map_add_Some_iff split: if_splits)
  then show ?thesis
  proof cases
    case 1
    from live_range [OF l(2) 1] show ?thesis using x l(3) by auto
  next
    case 2
    from live_range [OF l(1) 2] show ?thesis using x l(3) by auto
  qed
qed

lemma live_insert:
  assumes "laid m p xs (p + span xs)" "laid m' (p + span xs + n) ys e" "48 \<le> n"
  shows "live p (xs @ (n, True) # ys) = (live p (xs @ (n, False) # ys))(p + span xs + 16 \<mapsto> n - 32)"
proof -
  have "live (p + span xs + n) ys (p + span xs + 16) = None"
    using live_low [OF assms(2)] assms(3) by simp
  then show ?thesis by (auto simp: fun_eq_iff map_add_def split: option.split)
qed

lemma live_free_block:
  assumes "laid m p xs (p + span xs)" "laid m' (p + span xs + n) ys e" "48 \<le> n"
  shows "live p (xs @ (n, False) # ys) = (live p (xs @ (n, True) # ys))(p + span xs + 16 := None)"
proof -
  have "live (p + span xs + n) ys (p + span xs + 16) = None" "live p xs (p + span xs + 16) = None"
    using live_low [OF assms(2)] live_high [OF assms(1)] assms(3) by simp_all
  then show ?thesis by (auto simp: fun_eq_iff map_add_def split: option.split)
qed

text \<open>Writing inside a live block leaves the blocks alone.\<close>

lemma laid_write:
  assumes "laid m p bs e" "live p bs r = Some k" "\<And>x. x < r \<or> r + k \<le> x \<Longrightarrow> m' x = m x"
  shows "laid m' p bs e"
proof -
  obtain xs n ys where x: "bs = xs @ (n, True) # ys" "r = p + span xs + 16" "k = n - 32"
    using live_split [OF assms(2)] by blast
  let ?q = "p + span xs"
  have l: "laid m p xs ?q" "tagged m ?q n True" "laid m (?q + n) ys e" using assms(1) x(1) by auto
  have n: "48 \<le> n" using tagged_min [OF l(2)] .
  have "laid m' p xs ?q" by (rule laid_cong [OF l(1)]) (use assms(3) x in auto)
  moreover have "laid m' (?q + n) ys e" by (rule laid_cong [OF l(3)]) (use assms(3) x n in auto)
  moreover have "peek_le m' y 8 = peek_le m y 8" if "y + 8 \<le> ?q + 16 \<or> ?q + n - 16 \<le> y" for y
    using that x n by (intro peek_cong assms(3)) auto
  then have "tagged m' ?q n True" using l(2) n by (simp add: tagged_def diff_le_mono2)
  ultimately show ?thesis using x(1) by simp
qed


section \<open>Marking a block\<close>

definition marked :: "mem \<Rightarrow> nat \<Rightarrow> nat \<Rightarrow> nat \<Rightarrow> mem" where
  "marked m b n t = poke (poke (poke (poke m b 8 n) (b + 8) 8 t) (b + n - 16) 8 n) (b + n - 8) 8 t"

lemma ff_mark_ok:
  assumes "in_arena a b n" "48 \<le> n"
  shows "ff_mark a b n t = Some (a\<lparr>ar_mem := marked (ar_mem a) b n t\<rparr>)"
proof -
  have "in_arena a b 8" "in_arena a (b + 8) 8" "in_arena a (b + n - 16) 8" "in_arena a (b + n - 8) 8"
    using assms by (auto simp: in_arena_def)
  moreover have "b + n - 16 + 8 = b + n - 8" using assms(2) by simp
  ultimately show ?thesis by (simp add: ff_mark_def st_def marked_def SIZEOF_TAG_def)
qed

lemma marked_other:
  assumes "x < b \<or> b + n \<le> x" "16 \<le> n"
  shows "marked m b n t x = m x"
  using assms unfolding marked_def by (subst poke_other, arith)+ (rule refl)

lemma marked_inside:
  assumes "b + 16 \<le> x" "x < b + n - 16"
  shows "marked m b n t x = m x"
  using assms unfolding marked_def by (subst poke_other, arith)+ (rule refl)

lemma marked_tagged:
  assumes "48 \<le> n" "n mod 16 = 0" "n < 2 ^ 64"
  shows "tagged (marked m b n (tag_of u)) b n u"
proof -
  have t: "tag_of u mod 256 ^ 8 = tag_of u" by (simp add: tag_of_def ff_consts)
  have n: "n mod 256 ^ 8 = n" using assms(3) by simp
  obtain c where c: "n = c + 16" "32 \<le> c" by (rule that [of "n - 16"]) (use assms(1) in simp_all)
  then have e: "b + n - 16 = b + c" "b + n - 8 = b + c + 8" by simp_all
  let ?m = "marked m b n (tag_of u)"
  have "peek_le ?m b 8 = n" "peek_le ?m (b + 8) 8 = tag_of u" "peek_le ?m (b + c) 8 = n" "peek_le ?m (b + c + 8) 8 = tag_of u"
    unfolding marked_def e using t n c(2) by simp_all
  then show ?thesis using assms(1,2) by (simp add: tagged_def ff_consts e)
qed

section \<open>The state of a first-fit arena\<close>

text \<open>\<open>hs\<close> and \<open>he\<close> are the bounds of the list, \<open>bs\<close> its blocks, no two free ones side by side.\<close>

definition no_adj :: "block list \<Rightarrow> bool" where
  "no_adj bs \<longleftrightarrow> successively (\<lambda>x y. snd x \<or> snd y) bs"

lemma no_adj_simps [simp]:
  "no_adj []" "no_adj [x]" "no_adj (x # y # bs) \<longleftrightarrow> (snd x \<or> snd y) \<and> no_adj (y # bs)"
  by (simp_all add: no_adj_def)

lemma no_adj_append:
  "no_adj (xs @ ys) \<longleftrightarrow> no_adj xs \<and> no_adj ys \<and> (xs = [] \<or> ys = [] \<or> snd (last xs) \<or> snd (hd ys))"
  unfolding no_adj_def by (auto simp: successively_append_iff)

definition ff_start :: "Arena \<Rightarrow> nat" where "ff_start a = ar_state a + 16"

definition ff_heap :: "Arena \<Rightarrow> block list \<Rightarrow> bool" where
  "ff_heap a bs \<longleftrightarrow>
     ar_base a + ar_size a < 2 ^ 64 \<and> ar_base a \<le> ar_state a
     \<and> ff_start a + span bs \<le> ar_base a + ar_size a
     \<and> peek_le (ar_mem a) (ar_state a) 8 = ff_start a
     \<and> peek_le (ar_mem a) (ar_state a + 8) 8 = ff_start a + span bs
     \<and> laid (ar_mem a) (ff_start a) bs (ff_start a + span bs) \<and> no_adj bs"

lemma ff_heapD:
  assumes "ff_heap a bs"
  shows "heap_start a = Some (ff_start a)" "heap_end a = Some (ff_start a + span bs)"
    "laid (ar_mem a) (ff_start a) bs (ff_start a + span bs)" "no_adj bs"
    "\<And>p n. ff_start a \<le> p \<Longrightarrow> p + n \<le> ff_start a + span bs \<Longrightarrow> in_arena a p n"
    "ff_start a + span bs < 2 ^ 64"
  using assms by (auto simp: ff_heap_def heap_start_def heap_end_def ld_def in_arena_def ff_start_def)

text \<open>A change of the memory behind the two bounds, with the blocks it leaves.\<close>

lemma ff_heap_change:
  assumes "ff_heap a bs" "span bs' = span bs" "\<And>x. x < ff_start a \<Longrightarrow> m x = ar_mem a x"
    and "laid m (ff_start a) bs' (ff_start a + span bs)" "no_adj bs'"
  shows "ff_heap (a\<lparr>ar_mem := m\<rparr>) bs'"
proof -
  have "peek_le m q 8 = peek_le (ar_mem a) q 8" if "q + 8 \<le> ff_start a" for q
    using that by (intro peek_cong assms(3)) auto
  then have "peek_le m (ar_state a) 8 = peek_le (ar_mem a) (ar_state a) 8"
    "peek_le m (ar_state a + 8) 8 = peek_le (ar_mem a) (ar_state a + 8) 8"
    by (auto simp: ff_start_def)
  then show ?thesis using assms by (simp add: ff_heap_def ff_start_def)
qed

section \<open>Walking\<close>

definition ptr_to :: "nat \<Rightarrow> block list \<Rightarrow> nat option" where
  "ptr_to p bs = (if bs = [] then None else Some p)"

lemma ptr_to_simps [simp]: "ptr_to p [] = None" "ptr_to p (b # bs) = Some p"
  by (simp_all add: ptr_to_def)

lemma first_ptr:
  assumes "ff_heap a bs"
  shows "ff_first a = Some (ptr_to (ff_start a) bs)"
  using ff_heapD [OF assms] laid_empty [of "ar_mem a" "ff_start a" bs "ff_start a + span bs"]
  by (simp add: ff_first_def ptr_to_def)

lemma block_fields:
  assumes h: "ff_heap a (xs @ (n, u) # ys)"
  defines "p \<equiv> ff_start a + span xs"
  shows "tag_size a p = Some n" "tag_tag a p = Some (tag_of u)"
    "ff_next a p = Some (ptr_to (p + n) ys)" "48 \<le> n" "n < 2 ^ 64" "n mod 16 = 0"
    "in_arena a p n"
proof -
  have t: "tagged (ar_mem a) p n u" "laid (ar_mem a) (p + n) ys (ff_start a + span (xs @ (n, u) # ys))"
    using ff_heapD(3) [OF h] by (auto simp: p_def add.assoc)
  show n: "48 \<le> n" using tagged_min [OF t(1)] .
  show "n < 2 ^ 64" using ff_heapD(6) [OF h] by simp
  show "n mod 16 = 0" using t(1) by (simp add: tagged_def ALLOC_ALIGN_def)
  have in_a: "in_arena a q k" if "p \<le> q" "q + k \<le> p + n" for q k
    by (rule ff_heapD(5) [OF h]) (use that in \<open>auto simp: p_def\<close>)
  then show "in_arena a p n" by simp
  show sz: "tag_size a p = Some n" using t(1) n in_a by (simp add: tag_size_def ld_def tagged_def)
  show "tag_tag a p = Some (tag_of u)" using t(1) n in_a by (simp add: tag_tag_def ld_def tagged_def)
  show "ff_next a p = Some (ptr_to (p + n) ys)"
    using laid_empty [OF t(2)] ff_heapD(2) [OF h]
    by (simp add: ff_next_def sz ptr_to_def)
qed

lemma prev_ptr:
  assumes h: "ff_heap a (xs @ (n, u) # (k, w) # ys)"
  shows "ff_prev a (ff_start a + span xs + n) = Some (Some (ff_start a + span xs))"
proof -
  let ?p = "ff_start a + span xs"
  have t: "tagged (ar_mem a) ?p n u" using ff_heapD(3) [OF h] by simp
  then have n: "48 \<le> n" by (rule tagged_min)
  have "in_arena a (?p + n - 16) 8"
    by (rule ff_heapD(5) [OF h]) (use n in auto)
  then have "tag_size a (?p + n - 16) = Some n" using t by (simp add: tag_size_def ld_def tagged_def)
  then show ?thesis using n ff_heapD(1) [OF h] by (simp add: ff_prev_def SIZEOF_TAG_def)
qed

lemma prev_none: "ff_heap a bs \<Longrightarrow> ff_prev a (ff_start a) = Some None"
  by (simp add: ff_prev_def ff_heapD(1))

text \<open>The first block that is free and large enough.\<close>

fun first_fit :: "nat \<Rightarrow> nat \<Rightarrow> block list \<Rightarrow> nat option" where
  "first_fit tot p [] = None"
| "first_fit tot p ((n, u) # bs) = (if \<not> u \<and> tot \<le> n then Some p else first_fit tot (p + n) bs)"

lemma ff_find_first_fit:
  "ff_heap a (xs @ ys) \<Longrightarrow>
   ff_find a tot (ptr_to (ff_start a + span xs) ys) = Some (first_fit tot (ff_start a + span xs) ys)"
proof (induction ys arbitrary: xs)
  case Nil
  then show ?case by (subst ff_find.simps) simp
next
  case (Cons b ys)
  obtain n u where b: "b = (n, u)" by (cases b)
  note f = block_fields [OF Cons.prems [unfolded b]]
  have "ff_find a tot (ptr_to (ff_start a + span xs + n) ys) = Some (first_fit tot (ff_start a + span xs + n) ys)"
    using Cons.IH [of "xs @ [b]"] Cons.prems b by (simp add: add.assoc)
  then show ?case
    using f by (subst ff_find.simps) (auto simp: b tag_of_def ff_consts)
qed

lemma first_fit_split:
  "first_fit tot p bs = Some q \<Longrightarrow>
   \<exists>xs n ys. bs = xs @ (n, False) # ys \<and> q = p + span xs \<and> tot \<le> n \<and> first_fit tot p xs = None"
proof (induction tot p bs rule: first_fit.induct)
  case (2 tot p n u bs)
  show ?case
  proof (cases "\<not> u \<and> tot \<le> n")
    case True
    then show ?thesis using 2(2) by (intro exI [of _ "[]"]) auto
  next
    case False
    then obtain xs k ys where "bs = xs @ (k, False) # ys" "q = p + n + span xs" "tot \<le> k"
      "first_fit tot (p + n) xs = None" using 2 by auto
    then show ?thesis using False by (intro exI [of _ "(n, u) # xs"]) auto
  qed
qed simp


section \<open>Allocation\<close>

lemma ff_round_up_spec:
  assumes "n \<le> SIZE_MAX - 48"
  shows "n \<le> ff_round_up n" "ff_round_up n < n + 16" "ff_round_up n mod 16 = 0"
proof -
  have "(n + 15) mod 2 ^ 64 = n + 15" using assms by (simp add: SIZE_MAX_def)
  then have r: "ff_round_up n = (n + 15) div 16 * 16" by (simp add: ff_round_up_def ALLOC_ALIGN_def)
  then show "n \<le> ff_round_up n" "ff_round_up n < n + 16" by linarith+
  show "ff_round_up n mod 16 = 0" by (simp add: r)
qed

text \<open>What taking \<open>tot\<close> bytes from a free block of \<open>n\<close> leaves of it.\<close>

definition carve :: "nat \<Rightarrow> nat \<Rightarrow> block list" where
  "carve tot n = (if n - tot \<ge> FF_MIN_BLOCK then [(tot, True), (n - tot, False)] else [(n, True)])"

definition ff_total :: "nat \<Rightarrow> nat" where
  "ff_total sz = max (ff_round_up sz) ALLOC_ALIGN + FF_OVERHEAD"

lemma ff_total_spec:
  assumes "sz \<le> SIZE_MAX - 48"
  shows "48 \<le> ff_total sz" "ff_total sz mod 16 = 0" "sz \<le> ff_total sz - 32"
  using ff_round_up_spec [OF assms] by (auto simp: ff_total_def ff_consts max_def)

lemma carve_laid:
  assumes "tot \<le> n" "48 \<le> tot" "tot mod 16 = 0" "n mod 16 = 0" "n < 2 ^ 64" "in_arena a q n"
  shows "\<exists>m. (if n - tot \<ge> FF_MIN_BLOCK
           then do { a \<leftarrow> ff_mark a q tot FF_TAG_USED; ff_mark a (q + tot) (n - tot) FF_TAG_FREE }
           else ff_mark a q n FF_TAG_USED) = Some (a\<lparr>ar_mem := m\<rparr>)
     \<and> laid m q (carve tot n) (q + n) \<and> (\<forall>x. x < q \<or> q + n \<le> x \<longrightarrow> m x = ar_mem a x)"
proof (cases "48 \<le> n - tot")
  case True
  let ?m1 = "marked (ar_mem a) q tot (tag_of True)"
  let ?m2 = "marked ?m1 (q + tot) (n - tot) (tag_of False)"
  have in1: "in_arena a q tot" "in_arena a (q + tot) (n - tot)" using assms(1,6) by (auto simp: in_arena_def)
  have t1: "tagged ?m1 q tot True" by (rule marked_tagged) (use assms in auto)
  have "peek_le ?m2 y 8 = peek_le ?m1 y 8" if "y + 8 \<le> q + tot" for y
    using that True by (intro peek_cong marked_other) auto
  then have "tagged ?m2 q tot True" using t1 assms(2) by (simp add: tagged_def)
  moreover have "(n - tot) mod 16 = 0"
    using assms(3,4) by (simp add: mod_eq_0_iff_dvd)
  then have "tagged ?m2 (q + tot) (n - tot) False"
    by (intro marked_tagged) (use True assms in auto)
  moreover have "?m2 x = ar_mem a x" if "x < q \<or> q + n \<le> x" for x
    using that True assms(1,2) by (subst marked_other, linarith, linarith)+ (rule refl)
  ultimately show ?thesis
    using True in1 ff_mark_ok [of a q tot FF_TAG_USED] assms(1,2)
      ff_mark_ok [of "a\<lparr>ar_mem := ?m1\<rparr>" "q + tot" "n - tot" FF_TAG_FREE]
    by (intro exI [of _ ?m2]) (simp add: ff_consts tag_of_def carve_def)
next
  case False
  let ?m = "marked (ar_mem a) q n (tag_of True)"
  have "tagged ?m q n True" by (rule marked_tagged) (use assms in auto)
  moreover have "?m x = ar_mem a x" if "x < q \<or> q + n \<le> x" for x
    using that assms(1,2) by (intro marked_other) auto
  ultimately show ?thesis
    using False assms ff_mark_ok [of a q n FF_TAG_USED]
    by (intro exI [of _ ?m]) (simp add: ff_consts tag_of_def carve_def)
qed

lemma span_carve [simp]: "tot \<le> n \<Longrightarrow> span (carve tot n) = n"
  by (simp add: carve_def)

lemma carve_head: "\<exists>k ws. carve tot n = (k, True) # ws"
  by (simp add: carve_def)

lemma no_adj_carve:
  assumes "no_adj (xs @ (n, False) # ys)"
  shows "no_adj (xs @ carve tot n @ ys)"
  using assms by (cases ys) (auto simp: no_adj_append carve_def)

lemma live_carve:
  assumes "tot \<le> n" "48 \<le> tot" "laid m p xs (p + span xs)" "laid m' (p + span xs + n) ys e"
  shows "\<exists>k. tot - 32 \<le> k \<and> live p (xs @ carve tot n @ ys)
    = (live p (xs @ (n, False) # ys))(p + span xs + 16 \<mapsto> k)"
proof -
  let ?q = "p + span xs"
  have none: "live (?q + n) ys (?q + 16) = None" using live_low [OF assms(4)] assms(1,2) by simp
  show ?thesis
  proof (cases "FF_MIN_BLOCK \<le> n - tot")
    case True
    have "?q + tot + (n - tot) = ?q + n" using assms(1) by simp
    then show ?thesis
      using True none by (intro exI [of _ "tot - 32"])
        (auto simp: carve_def fun_eq_iff map_add_def add.assoc split: option.split)
  next
    case False
    then show ?thesis
      using none assms(1) by (intro exI [of _ "n - 32"])
        (auto simp: carve_def fun_eq_iff map_add_def add.assoc split: option.split)
  qed
qed

lemma ff_alloc_total:
  "ff_alloc a sz =
     (if sz > SIZE_MAX - 48 then Some (None, a)
      else do {
        b \<leftarrow> ff_first a;
        b \<leftarrow> ff_find a (ff_total sz) b;
        case b of
          None \<Rightarrow> Some (None, a)
        | Some b \<Rightarrow> do {
            n \<leftarrow> tag_size a b;
            a \<leftarrow> (if n - ff_total sz \<ge> FF_MIN_BLOCK
                  then do { a \<leftarrow> ff_mark a b (ff_total sz) FF_TAG_USED;
                            ff_mark a (b + ff_total sz) (n - ff_total sz) FF_TAG_FREE }
                  else ff_mark a b n FF_TAG_USED);
            Some (Some (b + 16), a)
          }
      })"
proof -
  have c: "SIZE_MAX - FF_OVERHEAD - ALLOC_ALIGN = SIZE_MAX - 48" by (simp add: ff_consts)
  show ?thesis unfolding ff_alloc_def Let_def ff_payload_def SIZEOF_TAG_def c ff_total_def ..
qed

lemma ff_alloc_none:
  assumes h: "ff_heap a bs" and "sz > SIZE_MAX - 48 \<or> first_fit (ff_total sz) (ff_start a) bs = None"
  shows "ff_alloc a sz = Some (None, a)"
proof (cases "sz > SIZE_MAX - 48")
  case False
  then have "ff_find a (ff_total sz) (ptr_to (ff_start a) bs) = Some None"
    using ff_find_first_fit [of a "[]" bs] h assms(2) by simp
  then show ?thesis
    using first_ptr [OF h] False by (simp add: ff_alloc_total)
qed (simp add: ff_alloc_total)

lemma ff_alloc_some:
  assumes h: "ff_heap a bs" and sz: "sz \<le> SIZE_MAX - 48"
    and ff: "first_fit (ff_total sz) (ff_start a) bs = Some q"
  shows "\<exists>m xs n ys. bs = xs @ (n, False) # ys \<and> q = ff_start a + span xs \<and> ff_total sz \<le> n
    \<and> first_fit (ff_total sz) (ff_start a) xs = None
    \<and> ff_alloc a sz = Some (Some (q + 16), a\<lparr>ar_mem := m\<rparr>)
    \<and> ff_heap (a\<lparr>ar_mem := m\<rparr>) (xs @ carve (ff_total sz) n @ ys)
    \<and> (\<forall>x. x < q \<or> q + n \<le> x \<longrightarrow> m x = ar_mem a x)"
proof -
  obtain xs n ys where x: "bs = xs @ (n, False) # ys" "q = ff_start a + span xs" "ff_total sz \<le> n"
    "first_fit (ff_total sz) (ff_start a) xs = None" using first_fit_split [OF ff] by blast
  note f = block_fields [OF h [unfolded x(1)], folded x(2)]
  note t = ff_total_spec [OF sz]
  obtain m where m: "(if n - ff_total sz \<ge> FF_MIN_BLOCK
           then do { a \<leftarrow> ff_mark a q (ff_total sz) FF_TAG_USED; ff_mark a (q + ff_total sz) (n - ff_total sz) FF_TAG_FREE }
           else ff_mark a q n FF_TAG_USED) = Some (a\<lparr>ar_mem := m\<rparr>)"
    "laid m q (carve (ff_total sz) n) (q + n)" "\<And>y. y < q \<or> q + n \<le> y \<Longrightarrow> m y = ar_mem a y"
    using carve_laid [OF x(3) t(1,2) f(6,5,7)] by blast
  have l: "laid (ar_mem a) (ff_start a) xs q" "laid (ar_mem a) (q + n) ys (ff_start a + span bs)"
    using ff_heapD(3) [OF h] x by (auto simp: add.assoc)
  have "laid m (ff_start a) xs q" by (rule laid_cong [OF l(1)]) (use m(3) in auto)
  moreover have "laid m (q + n) ys (ff_start a + span bs)" by (rule laid_cong [OF l(2)]) (use m(3) in auto)
  ultimately have "laid m (ff_start a) (xs @ carve (ff_total sz) n @ ys) (ff_start a + span bs)"
    using m(2) x by (simp add: add.assoc)
  then have "ff_heap (a\<lparr>ar_mem := m\<rparr>) (xs @ carve (ff_total sz) n @ ys)"
    using ff_heap_change [OF h, of "xs @ carve (ff_total sz) n @ ys" m] x m(3) ff_heapD(4) [OF h]
    by (auto intro!: no_adj_carve)
  moreover have "ff_alloc a sz = Some (Some (q + 16), a\<lparr>ar_mem := m\<rparr>)"
    using ff_find_first_fit [of a "[]" bs "ff_total sz"] h ff first_ptr [OF h] f(1) m(1) sz
    by (simp add: ff_alloc_total)
  ultimately show ?thesis using x m(3) by blast
qed


section \<open>Freeing\<close>

lemma span_block: "laid m p ws e \<Longrightarrow> ws \<noteq> [] \<Longrightarrow> 48 \<le> span ws \<and> span ws mod 16 = 0"
proof (induction m p ws e rule: laid.induct)
  case (2 m p n u bs e)
  then have "tagged m p n u" by simp
  then have n: "48 \<le> n" "n mod 16 = 0" by (simp_all add: tagged_def ff_consts)
  have "span bs mod 16 = 0" using 2 by (cases bs) auto
  then have "(n + span bs) mod 16 = 0" using n(2) by presburger
  then show ?case using n by simp
qed simp

text \<open>A run of neighbouring blocks becomes one free block.\<close>

lemma ff_merge:
  assumes h: "ff_heap a (xs @ ws @ ys)" and ws: "ws \<noteq> []"
    and na: "no_adj (xs @ (span ws, False) # ys)"
  defines "q \<equiv> ff_start a + span xs"
  shows "\<exists>m. ff_mark a q (span ws) FF_TAG_FREE = Some (a\<lparr>ar_mem := m\<rparr>)
    \<and> ff_heap (a\<lparr>ar_mem := m\<rparr>) (xs @ (span ws, False) # ys)
    \<and> (\<forall>x. x < q \<or> q + span ws \<le> x \<longrightarrow> m x = ar_mem a x)"
proof -
  have l: "laid (ar_mem a) (ff_start a) xs q" "laid (ar_mem a) q ws (q + span ws)"
    "laid (ar_mem a) (q + span ws) ys (ff_start a + span (xs @ ws @ ys))"
    using ff_heapD(3) [OF h] by (auto simp: q_def)
  have n: "48 \<le> span ws" "span ws mod 16 = 0" using span_block [OF l(2) ws] by auto
  let ?m = "marked (ar_mem a) q (span ws) (tag_of False)"
  have "in_arena a q (span ws)" by (rule ff_heapD(5) [OF h]) (auto simp: q_def)
  then have mk: "ff_mark a q (span ws) FF_TAG_FREE = Some (a\<lparr>ar_mem := ?m\<rparr>)"
    using ff_mark_ok [OF _ n(1), of a q FF_TAG_FREE] by (simp add: tag_of_def)
  have other: "?m x = ar_mem a x" if "x < q \<or> q + span ws \<le> x" for x
    using that n(1) by (intro marked_other) auto
  have t: "tagged ?m q (span ws) False"
    by (rule marked_tagged) (use n ff_heapD(6) [OF h] in auto)
  have "laid ?m (ff_start a) xs q" by (rule laid_cong [OF l(1)]) (use other in auto)
  moreover have "laid ?m (q + span ws) ys (ff_start a + span (xs @ ws @ ys))"
    by (rule laid_cong [OF l(3)]) (use other in auto)
  ultimately have "laid ?m (ff_start a) (xs @ (span ws, False) # ys) (ff_start a + span (xs @ ws @ ys))"
    using t by (simp add: q_def)
  then have "ff_heap (a\<lparr>ar_mem := ?m\<rparr>) (xs @ (span ws, False) # ys)"
    using ff_heap_change [OF h, of "xs @ (span ws, False) # ys" ?m] na other by (simp add: q_def)
  then show ?thesis using mk other by blast
qed

text \<open>The free neighbours a block is joined with.\<close>

definition free_after :: "block list \<Rightarrow> block list" where
  "free_after ys = (case ys of (k, False) # _ \<Rightarrow> [(k, False)] | _ \<Rightarrow> [])"

definition free_before :: "block list \<Rightarrow> block list" where
  "free_before xs = rev (free_after (rev xs))"

definition coalesce :: "block list \<Rightarrow> nat \<Rightarrow> block list \<Rightarrow> block list" where
  "coalesce xs n ys =
     take (length xs - length (free_before xs)) xs
     @ (span (free_before xs) + n + span (free_after ys), False) # drop (length (free_after ys)) ys"

lemma free_after_cases:
  obtains "free_after ys = []" "ys = [] \<or> (\<exists>k zs. ys = (k, True) # zs)"
  | k zs where "free_after ys = [(k, False)]" "ys = (k, False) # zs"
proof (cases ys)
  case (Cons y zs)
  then show thesis using that by (cases y; cases "snd y") (auto simp: free_after_def)
qed (use that in \<open>auto simp: free_after_def\<close>)

lemma free_before_cases:
  obtains "free_before xs = []" "xs = [] \<or> (\<exists>k zs. xs = zs @ [(k, True)])"
  | k zs where "free_before xs = [(k, False)]" "xs = zs @ [(k, False)]"
proof (cases xs rule: rev_cases)
  case (snoc zs x)
  then show thesis using that by (cases x; cases "snd x") (auto simp: free_before_def free_after_def)
qed (use that in \<open>auto simp: free_before_def free_after_def\<close>)

lemma coalesce_blocks:
  assumes "no_adj (xs @ (n, True) # ys)"
  obtains xs' ws ys' where "xs @ (n, True) # ys = xs' @ ws @ ys'" "xs = xs' @ free_before xs"
    "ys = free_after ys @ ys'" "ws = free_before xs @ (n, True) # free_after ys"
    "coalesce xs n ys = xs' @ (span ws, False) # ys'" "no_adj (xs' @ (span ws, False) # ys')"
proof (cases rule: free_before_cases [of xs])
  case 1
  note b = this
  show thesis
  proof (cases rule: free_after_cases [of ys])
    case 1
    then show thesis using b assms
      by (intro that [of xs "[(n, True)]" ys]) (auto simp: coalesce_def no_adj_append)
  next
    case (2 k zs)
    then show thesis using b assms
      by (intro that [of xs "[(n, True), (k, False)]" zs]) (cases zs; auto simp: coalesce_def no_adj_append)+
  qed
next
  case (2 k zs)
  note b = this
  show thesis
  proof (cases rule: free_after_cases [of ys])
    case 1
    then show thesis using b assms
      by (intro that [of zs "[(k, False), (n, True)]" ys]) (auto simp: coalesce_def no_adj_append)
  next
    case (2 j vs)
    then show thesis using b assms
      by (intro that [of zs "[(k, False), (n, True), (j, False)]" vs])
        (cases vs; auto simp: coalesce_def no_adj_append)+
  qed
qed

lemma tag_of_free [simp]: "tag_of u = FF_TAG_FREE \<longleftrightarrow> \<not> u"
  by (simp add: tag_of_def ff_consts)

lemma join_next_after:
  assumes h: "ff_heap a (xs @ (n, True) # ys)"
  shows "join_next a (ptr_to (ff_start a + span xs + n) ys) sz = Some (sz + span (free_after ys))"
proof (cases ys)
  case (Cons y zs)
  obtain k u where y: "y = (k, u)" by (cases y)
  have h2: "ff_heap a ((xs @ [(n, True)]) @ (k, u) # zs)" using h Cons y by simp
  show ?thesis using block_fields [OF h2] Cons y
    by (cases u) (simp_all add: free_after_def join_next_def add.assoc)
qed (simp add: free_after_def join_next_def)

lemma join_prev_before:
  assumes h: "ff_heap a (xs @ (n, True) # ys)"
  shows "\<exists>prv. ff_prev a (ff_start a + span xs) = Some prv
    \<and> join_prev a prv (ff_start a + span xs) sz
      = Some (ff_start a + span xs - span (free_before xs), sz + span (free_before xs))"
proof (cases xs rule: rev_cases)
  case Nil
  then show ?thesis using prev_none [OF h] by (simp add: free_before_def free_after_def join_prev_def)
next
  case (snoc zs z)
  obtain k u where z: "z = (k, u)" by (cases z)
  have h2: "ff_heap a (zs @ (k, u) # (n, True) # ys)" using h snoc z by simp
  show ?thesis using block_fields [OF h2] prev_ptr [OF h2] snoc z
    by (cases u) (simp_all add: free_before_def free_after_def join_prev_def add.assoc)
qed

lemma ff_free_mark:
  assumes h: "ff_heap a (xs @ (n, True) # ys)"
  shows "ff_free_block a (ff_start a + span xs + 16)
    = ff_mark a (ff_start a + span xs - span (free_before xs))
        (n + span (free_after ys) + span (free_before xs)) FF_TAG_FREE"
proof -
  obtain prv where "ff_prev a (ff_start a + span xs) = Some prv"
    "join_prev a prv (ff_start a + span xs) (n + span (free_after ys))
      = Some (ff_start a + span xs - span (free_before xs), n + span (free_after ys) + span (free_before xs))"
    using join_prev_before [OF h] by blast
  moreover have "ff_block_of (ff_start a + span xs + 16) = ff_start a + span xs"
    by (simp add: ff_block_of_def SIZEOF_TAG_def)
  ultimately show ?thesis
    using block_fields [OF h] join_next_after [OF h] by (simp add: ff_free_block_def Let_def)
qed

lemma live_joined:
  "live p (free_before xs @ (n, True) # free_after ys) = [p + span (free_before xs) + 16 \<mapsto> n - 32]"
  by (cases rule: free_before_cases [of xs]; cases rule: free_after_cases [of ys]) auto

lemma ff_free_ok:
  assumes h: "ff_heap a (xs @ (n, True) # ys)"
  shows "\<exists>m. ff_free_block a (ff_start a + span xs + 16) = Some (a\<lparr>ar_mem := m\<rparr>)
    \<and> ff_heap (a\<lparr>ar_mem := m\<rparr>) (coalesce xs n ys)
    \<and> live (ff_start a) (coalesce xs n ys)
      = (live (ff_start a) (xs @ (n, True) # ys))(ff_start a + span xs + 16 := None)
    \<and> (\<forall>r k. live (ff_start a) (coalesce xs n ys) r = Some k
        \<longrightarrow> (\<forall>x. r \<le> x \<and> x < r + k \<longrightarrow> m x = ar_mem a x))"
proof -
  obtain xs' ws ys' where c: "xs @ (n, True) # ys = xs' @ ws @ ys'" "xs = xs' @ free_before xs"
    "ys = free_after ys @ ys'" "ws = free_before xs @ (n, True) # free_after ys"
    "coalesce xs n ys = xs' @ (span ws, False) # ys'" "no_adj (xs' @ (span ws, False) # ys')"
    using coalesce_blocks [OF ff_heapD(4) [OF h]] by metis
  have sx: "span xs = span xs' + span (free_before xs)" using c(2) by (metis span_simps(3))
  have h': "ff_heap a (xs' @ ws @ ys')" using h c(1) by simp
  obtain m where m: "ff_mark a (ff_start a + span xs') (span ws) FF_TAG_FREE = Some (a\<lparr>ar_mem := m\<rparr>)"
    "ff_heap (a\<lparr>ar_mem := m\<rparr>) (xs' @ (span ws, False) # ys')"
    "\<And>x. x < ff_start a + span xs' \<or> ff_start a + span xs' + span ws \<le> x \<Longrightarrow> m x = ar_mem a x"
    using ff_merge [OF h' _ c(6)] c(4) by blast
  have freed: "ff_free_block a (ff_start a + span xs + 16) = Some (a\<lparr>ar_mem := m\<rparr>)"
    using ff_free_mark [OF h] m(1) sx c(4) by (simp add: add_ac)
  have l: "laid (ar_mem a) (ff_start a) xs' (ff_start a + span xs')"
    "laid (ar_mem a) (ff_start a + span xs' + span ws) ys' (ff_start a + span (xs' @ ws @ ys'))"
    using ff_heapD(3) [OF h'] by auto
  have lv: "live (ff_start a) (coalesce xs n ys)
      = live (ff_start a) xs' ++ live (ff_start a + span xs' + span ws) ys'"
    by (simp add: c(5) add.assoc)
  have "live (ff_start a + span xs') ws = [ff_start a + span xs + 16 \<mapsto> n - 32]"
    using live_joined [of "ff_start a + span xs'" xs n ys] by (simp add: c(4) sx add.assoc)
  then have "live (ff_start a) (xs @ (n, True) # ys) = live (ff_start a) xs'
      ++ [ff_start a + span xs + 16 \<mapsto> n - 32] ++ live (ff_start a + span xs' + span ws) ys'"
    unfolding c(1) by (simp add: add.assoc)
  moreover have "live (ff_start a) xs' (ff_start a + span xs + 16) = None"
    using live_high [OF l(1)] sx by simp
  moreover have "live (ff_start a + span xs' + span ws) ys' (ff_start a + span xs + 16) = None"
    using live_low [OF l(2)] sx block_fields(4) [OF h] c(4) by simp
  ultimately have gone: "live (ff_start a) (coalesce xs n ys)
      = (live (ff_start a) (xs @ (n, True) # ys))(ff_start a + span xs + 16 := None)"
    unfolding lv by (auto simp: fun_eq_iff map_add_def split: option.split)
  have keep: "m x = ar_mem a x"
    if r: "live (ff_start a) (coalesce xs n ys) r = Some k" "r \<le> x" "x < r + k" for r k x
  proof -
    from r(1) consider "live (ff_start a) xs' r = Some k"
      | "live (ff_start a + span xs' + span ws) ys' r = Some k"
      unfolding lv by (auto simp: map_add_Some_iff)
    then show ?thesis
      using live_range [OF l(1), of r k] live_range [OF l(2), of r k] r(2,3) by cases (auto intro!: m(3))
  qed
  show ?thesis using freed m(2) [folded c(5)] gone keep by blast
qed


section \<open>Initialisation, usable size, statistics\<close>

lemma ff_usable_ok:
  assumes h: "ff_heap a bs" and "live (ff_start a) bs r = Some k"
  shows "ff_usable_size a r = Some k"
proof -
  obtain xs n ys where x: "bs = xs @ (n, True) # ys" "r = ff_start a + span xs + 16" "k = n - 32"
    using live_split [OF assms(2)] by blast
  show ?thesis
    using block_fields(1) [OF h [unfolded x(1)]] x
    by (simp add: ff_usable_size_def ff_block_of_def ff_consts)
qed

text \<open>A large enough arena at an aligned address becomes one free block.\<close>

lemma ff_init_ok:
  assumes b: "ar_base a mod 16 = 0" "ar_base a + ar_size a < 2 ^ 64" and s: "64 \<le> ar_size a"
  shows "\<exists>m. ff_init a = Some (a\<lparr>ar_state := ar_base a, ar_mem := m\<rparr>)
    \<and> ff_heap (a\<lparr>ar_state := ar_base a, ar_mem := m\<rparr>) [((ar_size a - 16) div 16 * 16, False)]"
proof -
  let ?b = "ar_base a" and ?n = "(ar_size a - 16) div 16 * 16"
  have r: "ff_round_up ?b = ?b"
  proof -
    have "(?b + 15) mod 2 ^ 64 = ?b + 15" using b s by simp
    moreover have "(?b + 15) div 16 * 16 = ?b" using b(1) by presburger
    ultimately show ?thesis by (simp add: ff_round_up_def ALLOC_ALIGN_def)
  qed
  have r16: "ff_round_up 16 = 16" by (simp add: ff_round_up_def ALLOC_ALIGN_def)
  have n: "48 \<le> ?n" "?n mod 16 = 0" "?n \<le> ar_size a - 16"
    using s by auto
  let ?m1 = "poke (poke (poke (ar_mem a) ?b 8 (?b + 16)) (?b + 8) 8 (?b + 16)) (?b + 8) 8 (?b + 16 + ?n)"
  let ?m = "marked ?m1 (?b + 16) ?n FF_TAG_FREE"
  have "in_arena a ?b 8" "in_arena a (?b + 8) 8" "in_arena a (?b + 16) ?n"
    using s n(3) by (auto simp: in_arena_def)
  then have i: "ff_init a = Some (a\<lparr>ar_state := ?b, ar_mem := ?m\<rparr>)"
    using r r16 s n ff_mark_ok [of "a\<lparr>ar_state := ?b, ar_mem := ?m1\<rparr>" "?b + 16" ?n FF_TAG_FREE]
    by (simp add: ff_init_def SIZEOF_FF_STATE_def st_def Let_def) (simp add: ff_consts)
  have below: "peek_le ?m q 8 = peek_le ?m1 q 8" if "q + 8 \<le> ?b + 16" for q
    using that n(1) by (intro peek_cong marked_other) auto
  have "tagged ?m (?b + 16) ?n False"
    using marked_tagged [of ?n ?m1 "?b + 16" False] n b s by (simp add: tag_of_def)
  moreover have "(?b + 16) mod 256 ^ 8 = ?b + 16" "(?b + 16 + ?n) mod 256 ^ 8 = ?b + 16 + ?n"
    using b s n(3) by simp_all
  ultimately have "ff_heap (a\<lparr>ar_state := ?b, ar_mem := ?m\<rparr>) [(?n, False)]"
    using b s n(3) by (simp add: ff_heap_def ff_start_def below)
  with i show ?thesis by blast
qed

text \<open>The report is exact: it counts the blocks and adds up their sizes.\<close>

definition blocks_stats :: "block list \<Rightarrow> AllocStats \<Rightarrow> AllocStats" where
  "blocks_stats bs out = out
     \<lparr>as_used_bytes := as_used_bytes out + span (filter snd bs),
      as_free_bytes := as_free_bytes out + span (filter (\<lambda>b. \<not> snd b) bs),
      as_live_blocks := as_live_blocks out + length (filter snd bs),
      as_free_blocks := as_free_blocks out + length (filter (\<lambda>b. \<not> snd b) bs),
      as_largest_free := foldr max (map fst (filter (\<lambda>b. \<not> snd b) bs)) (as_largest_free out)\<rparr>"

lemma foldr_max: "foldr max ns (max (k :: nat) l) = max k (foldr max ns l)"
  by (induction ns) (auto simp: max.left_commute)

lemma ff_count_ok:
  "ff_heap a (xs @ ys) \<Longrightarrow>
   ff_count a (ptr_to (ff_start a + span xs) ys) out = Some (blocks_stats ys out)"
proof (induction ys arbitrary: xs out)
  case Nil
  then show ?case by (subst ff_count.simps) (simp add: blocks_stats_def)
next
  case (Cons b ys)
  obtain n u where b: "b = (n, u)" by (cases b)
  note f = block_fields [OF Cons.prems [unfolded b]]
  have IH: "ff_count a (ptr_to (ff_start a + span xs + n) ys) out = Some (blocks_stats ys out)" for out
    using Cons.IH [of "xs @ [b]"] Cons.prems b by (simp add: add.assoc)
  show ?case
  proof (cases u)
    case True
    then show ?thesis using f IH by (subst ff_count.simps) (simp add: b blocks_stats_def Let_def)
  next
    case False
    have m: "(if n > l then n else l) = max n l" for l :: nat by simp
    show ?thesis using False f IH
      by (subst ff_count.simps) (simp add: b blocks_stats_def Let_def m foldr_max)
  qed
qed


section \<open>The contract\<close>

definition ff_rep :: "Arena \<Rightarrow> (nat \<rightharpoonup> nat) \<Rightarrow> bool" where
  "ff_rep a L \<longleftrightarrow> ff_start a mod 16 = 0 \<and> (\<exists>bs. ff_heap a bs \<and> L = live (ff_start a) bs)"

lemma ff_start_mem [simp]: "ff_start (a\<lparr>ar_mem := m\<rparr>) = ff_start a"
  by (simp add: ff_start_def)

lemma laid_aligned: "laid m p bs e \<Longrightarrow> span bs mod 16 = 0"
  using span_block [of m p bs e] by (cases "bs = []") auto

interpretation ff: alloc_strategy ff_alloc ff_free_block ff_usable_size ff_rep
proof
  fix a L n
  assume "ff_rep a L"
  then obtain bs where h: "ff_heap a bs" "L = live (ff_start a) bs" "ff_start a mod 16 = 0"
    by (auto simp: ff_rep_def)
  show "\<exists>r m. ff_alloc a n = Some (r, a\<lparr>ar_mem := m\<rparr>) \<and> (case r of None \<Rightarrow> m = ar_mem a
         | Some p \<Rightarrow> L p = None \<and> unchanged L (ar_mem a) m
             \<and> (\<exists>k\<ge>n. ff_rep (a\<lparr>ar_mem := m\<rparr>) (L(p \<mapsto> k))))"
  proof (cases "n > SIZE_MAX - 48 \<or> first_fit (ff_total n) (ff_start a) bs = None")
    case True
    then show ?thesis using ff_alloc_none [OF h(1)] by (intro exI [of _ None] exI [of _ "ar_mem a"]) simp
  next
    case False
    then obtain q where q: "first_fit (ff_total n) (ff_start a) bs = Some q" and n: "n \<le> SIZE_MAX - 48" by auto
    obtain m xs k ys where m: "bs = xs @ (k, False) # ys" "q = ff_start a + span xs" "ff_total n \<le> k"
      "ff_alloc a n = Some (Some (q + 16), a\<lparr>ar_mem := m\<rparr>)"
      "ff_heap (a\<lparr>ar_mem := m\<rparr>) (xs @ carve (ff_total n) k @ ys)"
      "\<And>x. x < q \<or> q + k \<le> x \<Longrightarrow> m x = ar_mem a x"
      using ff_alloc_some [OF h(1) n q] by blast
    note t = ff_total_spec [OF n]
    have l: "laid (ar_mem a) (ff_start a) xs q" "laid (ar_mem a) (q + k) ys (ff_start a + span bs)"
      using ff_heapD(3) [OF h(1)] m(1,2) by (auto simp: add.assoc)
    obtain j where j: "ff_total n - 32 \<le> j" "live (ff_start a) (xs @ carve (ff_total n) k @ ys) = L(q + 16 \<mapsto> j)"
      using live_carve [OF m(3) t(1)] l h(2) m(1,2) by metis
    have fresh: "L (q + 16) = None"
      using live_high [OF l(1), of "q + 16"] live_low [OF l(2), of "q + 16"] t(1) m(3)
      by (simp add: h(2) m(1) map_add_def m(2) [symmetric] add.assoc [symmetric])
    have "m x = ar_mem a x" if "L r = Some i" "r \<le> x" "x < r + i" for r i x
    proof -
      from that(1) consider "live (ff_start a) xs r = Some i" | "live (q + k) ys r = Some i"
        by (auto simp: h(2) m(1) m(2) add.assoc map_add_Some_iff)
      then show ?thesis
        using live_range [OF l(1), of r i] live_range [OF l(2), of r i] that(2,3)
        by cases (auto intro!: m(6))
    qed
    then have "unchanged L (ar_mem a) m" by (auto simp: unchanged_def)
    moreover have "ff_rep (a\<lparr>ar_mem := m\<rparr>) (L(q + 16 \<mapsto> j))"
      using m(5) j(2) h(3) by (auto simp: ff_rep_def)
    moreover have "n \<le> j" using j(1) t(3) by simp
    ultimately show ?thesis using m(4) fresh
      by (intro exI [of _ "Some (q + 16)"] exI [of _ m]) auto
  qed
next
  fix a L p k
  assume "ff_rep a L" and p: "L p = Some k"
  then obtain bs where h: "ff_heap a bs" "L = live (ff_start a) bs" "ff_start a mod 16 = 0"
    by (auto simp: ff_rep_def)
  obtain xs n ys where x: "bs = xs @ (n, True) # ys" "p = ff_start a + span xs + 16" "k = n - 32"
    using live_split p h(2) by metis
  show "\<exists>m. ff_free_block a p = Some (a\<lparr>ar_mem := m\<rparr>)
      \<and> unchanged (L(p := None)) (ar_mem a) m \<and> ff_rep (a\<lparr>ar_mem := m\<rparr>) (L(p := None))"
    using ff_free_ok [OF h(1) [unfolded x(1)]] h(2,3) x(1,2)
    by (auto simp: ff_rep_def unchanged_def) metis
  show "ff_usable_size a p = Some k" using ff_usable_ok [OF h(1)] p h(2) by simp
  have l: "laid (ar_mem a) (ff_start a) bs (ff_start a + span bs)" by (rule ff_heapD(3) [OF h(1)])
  have "laid (ar_mem a) (ff_start a) xs (ff_start a + span xs)" using l x(1) by simp
  then have "span xs mod 16 = 0" by (rule laid_aligned)
  then have "p mod 16 = 0" using h(3) x(2) by presburger
  moreover have "in_arena a p k"
    using live_range [OF l, of p k] p h(2) by (intro ff_heapD(5) [OF h(1)]) auto
  ultimately show "in_arena a p k \<and> 0 < p \<and> p mod 16 = 0" using x(2) by simp
  { fix q j assume "L q = Some j" "p \<noteq> q"
    then show "p + k \<le> q \<or> q + j \<le> p" using live_disjoint [OF l] p h(2) by metis }
  { fix m assume m: "\<And>x. x < p \<or> p + k \<le> x \<Longrightarrow> m x = ar_mem a x"
    have "laid m (ff_start a) bs (ff_start a + span bs)" by (rule laid_write [OF l]) (use p h(2) m in auto)
    then have "ff_heap (a\<lparr>ar_mem := m\<rparr>) bs"
      by (intro ff_heap_change [OF h(1)]) (use m x(2) ff_heapD(4) [OF h(1)] in auto)
    then show "ff_rep (a\<lparr>ar_mem := m\<rparr>) L" using h(2,3) by (auto simp: ff_rep_def) }
next
  fix a L assume "ff_rep a L"
  then show "ar_base a + ar_size a < 2 ^ 64" by (auto simp: ff_rep_def ff_heap_def)
qed

section \<open>Release and report\<close>

text \<open>C17: Releasing a block joins it with a free block on either side, so that in a sound heap no two
  free blocks ever lie next to each other; all other blocks stay as they are, and the report then
  counts exactly the blocks and bytes in use, those that are free, and the largest free block.\<close>

theorem ff_release_coalesces:
  assumes "ff_heap a (xs @ (n, True) # ys)"
  shows "\<exists>m. ff_free_block a (ff_start a + span xs + 16) = Some (a\<lparr>ar_mem := m\<rparr>)
    \<and> ff_heap (a\<lparr>ar_mem := m\<rparr>) (coalesce xs n ys) \<and> no_adj (coalesce xs n ys)
    \<and> ff_stats (a\<lparr>ar_mem := m\<rparr>) zero_stats
      = Some (blocks_stats (coalesce xs n ys) (zero_stats\<lparr>as_arena_size := ar_size a\<rparr>))"
proof -
  obtain m where m: "ff_free_block a (ff_start a + span xs + 16) = Some (a\<lparr>ar_mem := m\<rparr>)"
    "ff_heap (a\<lparr>ar_mem := m\<rparr>) (coalesce xs n ys)" using ff_free_ok [OF assms] by blast
  have "ff_stats (a\<lparr>ar_mem := m\<rparr>) zero_stats
      = Some (blocks_stats (coalesce xs n ys) (zero_stats\<lparr>as_arena_size := ar_size a\<rparr>))"
    using first_ptr [OF m(2)] ff_count_ok [of "a\<lparr>ar_mem := m\<rparr>" "[]" "coalesce xs n ys"] m(2)
    by (simp add: ff_stats_def zero_stats_def)
  then show ?thesis using m ff_heapD(4) [OF m(2)] by blast
qed

theorem ff_release_coalesces_witness:
  "\<exists>a m. ff_heap a [(48, True), (4032, False)] \<and> ff_free_block a (ff_start a + 16) = Some (a\<lparr>ar_mem := m\<rparr>)
     \<and> ff_heap (a\<lparr>ar_mem := m\<rparr>) [(4080, False)]"
proof -
  let ?a0 = "\<lparr>ar_base = 4096, ar_size = 4096, ar_state = 0, ar_mem = (\<lambda>x. 0)\<rparr>"
  obtain m0 where m0: "ff_heap (?a0\<lparr>ar_state := 4096, ar_mem := m0\<rparr>) [(4080, False)]"
    using ff_init_ok [of ?a0] by auto
  have t: "ff_total 10 = 48" by (simp add: ff_total_def ff_round_up_def ff_consts)
  have k: "(10 :: nat) \<le> SIZE_MAX - 48" by (simp add: SIZE_MAX_def)
  have f: "first_fit (ff_total 10) (ff_start (?a0\<lparr>ar_state := 4096, ar_mem := m0\<rparr>)) [(4080, False)] = Some 4112"
    by (simp add: t ff_start_def)
  obtain m1 xs i ys where "[(4080, False)] = xs @ (i, False) # ys"
    "ff_heap (?a0\<lparr>ar_state := 4096, ar_mem := m1\<rparr>) (xs @ carve (ff_total 10) i @ ys)"
    using ff_alloc_some [OF m0 k f] by auto
  then have h: "ff_heap (?a0\<lparr>ar_state := 4096, ar_mem := m1\<rparr>) ([] @ (48, True) # [(4032, False)])"
    by (auto simp: t carve_def ff_consts append_eq_Cons_conv Cons_eq_append_conv)
  from ff_release_coalesces [OF h]
  obtain m where "ff_free_block (?a0\<lparr>ar_state := 4096, ar_mem := m1\<rparr>) (ff_start (?a0\<lparr>ar_state := 4096, ar_mem := m1\<rparr>) + 16)
      = Some (?a0\<lparr>ar_state := 4096, ar_mem := m\<rparr>)"
    "ff_heap (?a0\<lparr>ar_state := 4096, ar_mem := m\<rparr>) (coalesce [] 48 [(4032, False)])"
    by auto
  moreover have "coalesce [] 48 [(4032, False)] = [(4080, False)]"
    by (simp add: coalesce_def free_before_def free_after_def)
  ultimately show ?thesis using h
    by (intro exI [of _ "?a0\<lparr>ar_state := 4096, ar_mem := m1\<rparr>"] exI [of _ m]) simp
qed

end
