(* ===== verification/Buddy_Heap.thy ===== *)
theory Buddy_Heap
  imports Buddy Strategy
begin

unbundle bit_operations_syntax

text \<open>
  What the bytes of a buddy arena mean. A \<open>View\<close> holds the fields of the blocks, the list heads and
  the two numbers of the state; each store changes one of them. \<open>bd_heap a M B\<close> relates the bytes
  to a map \<open>B\<close> of blocks that tile the arena: their headers, and for every order a doubly linked
  list of its free blocks. \<open>list_push\<close> and \<open>list_remove\<close> keep it.
\<close>

section \<open>The fields in memory\<close>

text \<open>A block starts at a multiple of 32 behind the 512 bytes of the state. Its first 32 bytes are
  the header and, when it is free, the two links.\<close>

definition blk :: "nat \<Rightarrow> bool" where "blk o1 \<longleftrightarrow> 32 dvd o1 \<and> 512 \<le> o1"

record View =
  v_magic :: "nat \<Rightarrow> nat"
  v_order :: "nat \<Rightarrow> nat"
  v_use :: "nat \<Rightarrow> nat"
  v_next :: "nat \<Rightarrow> nat"
  v_prev :: "nat \<Rightarrow> nat"
  v_list :: "nat \<Rightarrow> nat"
  v_max :: nat
  v_region :: nat

definition in_block :: "mem \<Rightarrow> nat \<Rightarrow> nat \<Rightarrow> nat \<Rightarrow> nat \<Rightarrow> nat" where
  "in_block m b c n = (\<lambda>x. if blk x then peek_le m (b + x + c) n else 0)"

definition heads :: "mem \<Rightarrow> nat \<Rightarrow> nat \<Rightarrow> nat" where
  "heads m b = (\<lambda>k. if k < 48 then peek_le m (b + 48 + 8 * k) 8 else 0)"

definition view :: "mem \<Rightarrow> nat \<Rightarrow> View" where
  "view m b = \<lparr>v_magic = in_block m b 0 8, v_order = in_block m b 8 4, v_use = in_block m b 12 4,
     v_next = in_block m b 16 8, v_prev = in_block m b 24 8, v_list = heads m b,
     v_max = peek_le m (b + 8) 4, v_region = peek_le m b 8\<rparr>"

lemma blk_apart: "blk x \<Longrightarrow> blk y \<Longrightarrow> x \<noteq> y \<Longrightarrow> x + 32 \<le> y \<or> y + 32 \<le> x"
  unfolding blk_def dvd_def by auto

lemma blk_512: "blk x \<Longrightarrow> 512 \<le> x" by (simp add: blk_def)

lemma in_block_other:
  assumes "blk x" "c + n \<le> 32" "d + k \<le> 32" "c + n \<le> d \<or> d + k \<le> c"
  shows "in_block (poke m (b + x + c) n v) b d k = in_block m b d k"
proof
  fix y
  show "in_block (poke m (b + x + c) n v) b d k y = in_block m b d k y"
  proof (cases "blk y")
    case True
    have "peek_le (poke m (b + x + c) n v) (b + y + d) k = peek_le m (b + y + d) k"
      using blk_apart [OF assms(1) True] assms(2-4) by (cases "x = y") (auto intro!: peek_poke_other)
    then show ?thesis by (simp add: in_block_def)
  qed (simp add: in_block_def)
qed

lemma in_block_same:
  assumes "blk x" "c + n \<le> 32"
  shows "in_block (poke m (b + x + c) n v) b c n = (in_block m b c n)(x := v mod 256 ^ n)"
proof
  fix y
  show "in_block (poke m (b + x + c) n v) b c n y = ((in_block m b c n)(x := v mod 256 ^ n)) y"
  proof (cases "blk y \<and> y \<noteq> x")
    case True
    then have "peek_le (poke m (b + x + c) n v) (b + y + c) n = peek_le m (b + y + c) n"
      using blk_apart [of x y] assms by (auto intro!: peek_poke_other)
    then show ?thesis using True by (simp add: in_block_def)
  next
    case False
    then show ?thesis using assms(1) by (cases "y = x") (simp_all add: in_block_def)
  qed
qed

lemma state_poke:
  assumes "blk x" "q + k \<le> b + 512"
  shows "peek_le (poke m (b + x + c) n v) q k = peek_le m q k"
  using blk_512 [OF assms(1)] assms(2) by (intro peek_poke_other) auto

lemma heads_poke: "blk x \<Longrightarrow> heads (poke m (b + x + c) n v) b = heads m b"
  by (auto simp: heads_def fun_eq_iff intro!: state_poke)

lemmas view_poke = view_def in_block_other in_block_same state_poke heads_poke

lemmas view_poke_0 = in_block_other [where c = 0, unfolded add_0_right]
  in_block_same [where c = 0, unfolded add_0_right]
  state_poke [where c = 0, unfolded add_0_right] heads_poke [where c = 0, unfolded add_0_right]

text \<open>One store changes one field.\<close>

lemma view_poke_block:
  assumes "blk x"
  shows "view (poke m (b + x + 8) 4 v) b = (view m b)\<lparr>v_order := (v_order (view m b))(x := v mod 256 ^ 4)\<rparr>"
    "view (poke m (b + x + 12) 4 v) b = (view m b)\<lparr>v_use := (v_use (view m b))(x := v mod 256 ^ 4)\<rparr>"
    "view (poke m (b + x + 16) 8 v) b = (view m b)\<lparr>v_next := (v_next (view m b))(x := v mod 256 ^ 8)\<rparr>"
    "view (poke m (b + x + 24) 8 v) b = (view m b)\<lparr>v_prev := (v_prev (view m b))(x := v mod 256 ^ 8)\<rparr>"
  using assms by (simp_all add: view_poke)

lemma view_poke_magic:
  assumes "blk x"
  shows "view (poke m (b + x) 8 v) b = (view m b)\<lparr>v_magic := (v_magic (view m b))(x := v mod 256 ^ 8)\<rparr>"
  using assms by (simp add: view_def view_poke_0)

text \<open>A store into the state leaves the blocks alone.\<close>

lemma in_block_state: "q + n \<le> b + 512 \<Longrightarrow> in_block (poke m q n v) b d k = in_block m b d k"
  by (auto simp: in_block_def fun_eq_iff dest!: blk_512 intro!: peek_poke_other)

lemma view_poke_state:
  "k < 48 \<Longrightarrow> view (poke m (b + 48 + 8 * k) 8 v) b = (view m b)\<lparr>v_list := (v_list (view m b))(k := v mod 256 ^ 8)\<rparr>"
  "16 \<le> c \<Longrightarrow> c \<le> 40 \<Longrightarrow> view (poke m (b + c) 8 v) b = view m b"
  "view (poke m (b + 8) 4 v) b = (view m b)\<lparr>v_max := v mod 256 ^ 4\<rparr>"
  "view (poke m b 8 v) b = (view m b)\<lparr>v_region := v mod 256 ^ 8\<rparr>"
proof -
  show "view (poke m (b + 48 + 8 * k) 8 v) b = (view m b)\<lparr>v_list := (v_list (view m b))(k := v mod 256 ^ 8)\<rparr>"
    if "k < 48"
  proof -
    have "heads (poke m (b + 48 + 8 * k) 8 v) b j = ((heads m b)(k := v mod 256 ^ 8)) j" for j
      using that by (cases "j = k") (auto simp: heads_def intro!: peek_poke_other)
    then have "heads (poke m (b + 48 + 8 * k) 8 v) b = (heads m b)(k := v mod 256 ^ 8)" by blast
    then show ?thesis using that by (simp add: view_def in_block_state)
  qed
  have h: "heads (poke m q n v) b = heads m b" if "q + n \<le> b + 48" for q n
    using that by (auto simp: heads_def fun_eq_iff intro!: peek_poke_other)
  show "view (poke m (b + c) 8 v) b = view m b" if "16 \<le> c" "c \<le> 40"
    using that by (simp add: view_def in_block_state h)
  show "view (poke m (b + 8) 4 v) b = (view m b)\<lparr>v_max := v mod 256 ^ 4\<rparr>"
    by (simp add: view_def in_block_state h)
  show "view (poke m b 8 v) b = (view m b)\<lparr>v_region := v mod 256 ^ 8\<rparr>"
    by (simp add: view_def in_block_state h)
qed

section \<open>Chains of links\<close>

text \<open>The free list of an order, as the offsets of its blocks; pointers are addresses of nodes.\<close>

definition node :: "nat \<Rightarrow> nat \<Rightarrow> nat" where "node b x = b + x + 16"

definition link :: "nat \<Rightarrow> nat list \<Rightarrow> nat \<Rightarrow> nat" where
  "link b xs q = (case xs of [] \<Rightarrow> q | x # _ \<Rightarrow> node b x)"

definition link_back :: "nat \<Rightarrow> nat list \<Rightarrow> nat \<Rightarrow> nat" where
  "link_back b xs p = (if xs = [] then p else node b (last xs))"

lemma link_simps [simp]: "link b [] q = q" "link b (x # xs) q = node b x"
  "link_back b [] p = p" "link_back b (x # xs) p = link_back b xs (node b x)"
  by (simp_all add: link_def link_back_def)

fun chain :: "(nat \<Rightarrow> nat) \<Rightarrow> (nat \<Rightarrow> nat) \<Rightarrow> nat \<Rightarrow> nat \<Rightarrow> nat list \<Rightarrow> nat \<Rightarrow> bool" where
  "chain nx pv b p [] q \<longleftrightarrow> True"
| "chain nx pv b p (x # xs) q \<longleftrightarrow> pv x = p \<and> nx x = link b xs q \<and> chain nx pv b (node b x) xs q"

lemma link_append [simp]: "link b (xs @ ys) q = link b xs (link b ys q)"
  by (cases xs) auto

lemma chain_append [simp]:
  "chain nx pv b p (xs @ ys) q \<longleftrightarrow> chain nx pv b p xs (link b ys q) \<and> chain nx pv b (link_back b xs p) ys q"
  by (induction xs arbitrary: p) auto

lemma chain_frame:
  "(\<And>x. x \<in> set xs \<Longrightarrow> nx' x = nx x \<and> pv' x = pv x) \<Longrightarrow> chain nx' pv' b p xs q = chain nx pv b p xs q"
  by (induction xs arbitrary: p) auto

lemma chain_push:
  assumes "chain nx pv b 0 xs 0" "x \<notin> set xs" "distinct xs"
    and "nx' = nx(x := link b xs 0)"
    and "pv' = (if xs = [] then pv(x := 0) else pv(x := 0, hd xs := node b x))"
  shows "chain nx' pv' b 0 (x # xs) 0"
proof (cases xs)
  case (Cons y ys)
  have "chain nx' pv' b (node b y) ys 0 = chain nx pv b (node b y) ys 0"
    using assms(2-5) Cons by (intro chain_frame) auto
  then show ?thesis using assms Cons by auto
qed (use assms in simp)

lemma chain_remove:
  assumes "chain nx pv b 0 (xs @ x # ys) 0" "distinct (xs @ x # ys)"
    and "nx' = (if xs = [] then nx else nx(last xs := nx x))"
    and "pv' = (if ys = [] then pv else pv(hd ys := pv x))"
  shows "chain nx' pv' b 0 (xs @ ys) 0"
proof -
  have c: "chain nx pv b 0 xs (node b x)" "pv x = link_back b xs 0" "nx x = link b ys 0"
    "chain nx pv b (node b x) ys 0" using assms(1) by auto
  have "chain nx' pv' b 0 xs (link b ys 0)"
  proof (cases xs rule: rev_cases)
    case (snoc zs z)
    have "chain nx' pv' b 0 zs (node b z) = chain nx pv b 0 zs (node b z)"
      using assms(2-4) snoc by (intro chain_frame) (auto simp: hd_in_set)
    then show ?thesis using c snoc assms by (cases ys) auto
  qed simp
  moreover have "chain nx' pv' b (link_back b xs 0) ys 0"
  proof (cases ys)
    case (Cons y zs)
    have "chain nx' pv' b (node b y) zs 0 = chain nx pv b (node b y) zs 0"
      using assms(2-4) Cons last_in_set [of xs] by (intro chain_frame) (auto simp: disjoint_iff)
    then show ?thesis using c Cons assms by (cases xs rule: rev_cases) auto
  qed simp
  ultimately show ?thesis by simp
qed


section \<open>Blocks\<close>

text \<open>A block is in use, free, or in the hands of an operation that is splitting or joining it.\<close>

datatype status = Used | Free | Limbo

type_synonym blocks = "nat \<rightharpoonup> nat \<times> status"

text \<open>The blocks tile the offsets from 512 to \<open>e\<close>, each at a multiple of its size. The status is
  not part of the tiling.\<close>

definition tiling :: "(nat \<rightharpoonup> nat) \<Rightarrow> nat \<Rightarrow> bool" where
  "tiling D e \<longleftrightarrow>
     (\<forall>x k. D x = Some k \<longrightarrow> 5 \<le> k \<and> 2 ^ k dvd x \<and> 512 \<le> x \<and> x + 2 ^ k \<le> e)
     \<and> (\<forall>x k y j. D x = Some k \<longrightarrow> D y = Some j \<longrightarrow> x \<noteq> y \<longrightarrow> x + 2 ^ k \<le> y \<or> y + 2 ^ j \<le> x)
     \<and> (\<forall>z. 512 \<le> z \<longrightarrow> z < e \<longrightarrow> (\<exists>x k. D x = Some k \<and> x \<le> z \<and> z < x + 2 ^ k))"

definition orders :: "blocks \<Rightarrow> nat \<rightharpoonup> nat" where "orders B = map_option fst \<circ> B"

definition tiled :: "blocks \<Rightarrow> nat \<Rightarrow> bool" where "tiled B e \<longleftrightarrow> tiling (orders B) e"

lemma orders_Some: "B x = Some (k, s) \<Longrightarrow> orders B x = Some k" by (simp add: orders_def)

lemma orders_upd [simp]: "orders (B(x \<mapsto> (k, t))) = (orders B)(x \<mapsto> k)" "orders (B(x := None)) = (orders B)(x := None)"
  by (auto simp: orders_def)

lemma orders_iff: "orders B x = Some k \<longleftrightarrow> (\<exists>s. B x = Some (k, s))"
  by (auto simp: orders_def)

lemma tiledD:
  assumes "tiled B e" "B x = Some (k, s)"
  shows "5 \<le> k" "2 ^ k dvd x" "512 \<le> x" "x + 2 ^ k \<le> e" "blk x" "(32 :: nat) \<le> 2 ^ k"
proof -
  show k: "5 \<le> k" "2 ^ k dvd x" "512 \<le> x" "x + 2 ^ k \<le> e"
    using assms(1) orders_Some [of B x k s] assms(2) by (auto simp: tiled_def tiling_def)
  have "(2 :: nat) ^ 5 dvd 2 ^ k" using k(1) by (rule le_imp_power_dvd)
  then have "(32 :: nat) dvd x" using k(2) dvd_trans by fastforce
  then show "blk x" using k(3) by (simp add: blk_def)
  show "(32 :: nat) \<le> 2 ^ k" using power_increasing [OF k(1), of "2 :: nat"] by simp
qed

lemma tiled_apart:
  "tiled B e \<Longrightarrow> B x = Some (k, s) \<Longrightarrow> B y = Some (j, t) \<Longrightarrow> x \<noteq> y \<Longrightarrow> x + 2 ^ k \<le> y \<or> y + 2 ^ j \<le> x"
  using orders_Some [of B x k s] orders_Some [of B y j t] unfolding tiled_def tiling_def by blast

lemma tiled_status: "tiled B e \<Longrightarrow> B x = Some (k, s) \<Longrightarrow> tiled (B(x \<mapsto> (k, t))) e"
  by (simp add: tiled_def orders_Some fun_upd_idem)

text \<open>The buddy of a block.\<close>

lemma buddy_xor:
  assumes "2 ^ k dvd (x :: nat)"
  shows "x XOR 2 ^ k = (if even (x div 2 ^ k) then x + 2 ^ k else x - 2 ^ k)"
proof -
  obtain q where q: "x = 2 ^ k * q" using assms by blast
  have "x XOR 2 ^ k = push_bit k q XOR push_bit k 1" by (simp add: q push_bit_eq_mult mult.commute)
  also have "\<dots> = push_bit k (q XOR 1)" by (simp only: push_bit_xor)
  also have "q XOR 1 = (if even q then q + 1 else q - 1)" by (simp add: xor_Suc_0_eq)
  finally show ?thesis by (simp add: q push_bit_eq_mult algebra_simps diff_mult_distrib)
qed

lemma buddy_spec:
  assumes "2 ^ k dvd (x :: nat)"
  defines "y \<equiv> x XOR 2 ^ k"
  shows "y \<noteq> x" "2 ^ k dvd y" "2 ^ Suc k dvd min x y" "max x y = min x y + 2 ^ k" "y XOR 2 ^ k = x"
proof -
  obtain q where q: "x = 2 ^ k * q" using assms(1) by blast
  have y: "y = (if even q then x + 2 ^ k else x - 2 ^ k)" using buddy_xor [OF assms(1)] q by (simp add: y_def)
  have "y \<noteq> x \<and> 2 ^ k dvd y \<and> 2 ^ Suc k dvd min x y \<and> max x y = min x y + 2 ^ k"
  proof (cases "even q")
    case True
    then obtain r where r: "q = 2 * r" by blast
    have m: "min x y = x" "max x y = y" using y True by auto
    have y': "y = 2 ^ k * (2 * r + 1)" using y True q r by (simp add: algebra_simps)
    have "2 ^ Suc k dvd x" "2 ^ k dvd y" using q r y' by simp_all
    then show ?thesis using y True unfolding m by simp
  next
    case False
    then obtain r where r: "q = 2 * r + 1" using oddE by blast
    have y': "y = 2 ^ k * (2 * r)" using y False q r by (simp add: algebra_simps)
    have xy: "x = y + 2 ^ k" using y' q r by (simp add: algebra_simps)
    have m: "min x y = y" "max x y = x" using xy by auto
    have "2 ^ Suc k dvd y" "2 ^ k dvd y" using y' by simp_all
    then show ?thesis using xy unfolding m by simp
  qed
  then show "y \<noteq> x" "2 ^ k dvd y" "2 ^ Suc k dvd min x y" "max x y = min x y + 2 ^ k" by auto
  show "y XOR 2 ^ k = x" by (simp add: y_def xor.assoc)
qed


lemma tilingD:
  assumes "tiling D e" "D x = Some k"
  shows "5 \<le> k" "2 ^ k dvd x" "512 \<le> x" "x + 2 ^ k \<le> e"
  using assms by (auto simp: tiling_def)

lemma tiling_apart:
  "tiling D e \<Longrightarrow> D x = Some k \<Longrightarrow> D y = Some j \<Longrightarrow> x \<noteq> y \<Longrightarrow> x + 2 ^ k \<le> y \<or> y + 2 ^ j \<le> x"
  by (simp add: tiling_def)

lemma tiling_cover:
  assumes "tiling D e" "512 \<le> z" "z < e"
  obtains x k where "D x = Some k" "x \<le> z" "z < x + 2 ^ k"
proof -
  have "\<exists>x k. D x = Some k \<and> x \<le> z \<and> z < x + 2 ^ k" using assms by (simp add: tiling_def)
  then show thesis using that by blast
qed

lemma tilingI:
  assumes "\<And>x k. D x = Some k \<Longrightarrow> 5 \<le> k \<and> 2 ^ k dvd x \<and> 512 \<le> x \<and> x + 2 ^ k \<le> e"
    and "\<And>x k y j. D x = Some k \<Longrightarrow> D y = Some j \<Longrightarrow> x < y \<Longrightarrow> x + 2 ^ k \<le> y"
    and "\<And>z. 512 \<le> z \<Longrightarrow> z < e \<Longrightarrow> \<exists>x k. D x = Some k \<and> x \<le> z \<and> z < x + 2 ^ k"
  shows "tiling D e"
proof -
  have "x + 2 ^ k \<le> y \<or> y + 2 ^ j \<le> x" if "D x = Some k" "D y = Some j" "x \<noteq> y" for x k y j
    using assms(2) [OF that(1,2)] assms(2) [OF that(2,1)] that(3) by (cases "x < y") auto
  then show ?thesis unfolding tiling_def using assms(1,3) by (intro conjI allI impI) simp_all
qed

text \<open>Two entries of a map after two updates, or after two removals and an update.\<close>

lemma tiling_split:
  assumes t: "tiling D e" and x: "D x = Some (Suc k)" and k: "5 \<le> k"
  shows "tiling (D(x \<mapsto> k, x + 2 ^ k \<mapsto> k)) e"
proof (rule tilingI)
  let ?D = "D(x \<mapsto> k, x + 2 ^ k \<mapsto> k)"
  note X = tilingD [OF t x]
  have p: "(2 :: nat) ^ Suc k = 2 ^ k + 2 ^ k" "(0 :: nat) < 2 ^ k" by simp_all
  have d: "2 ^ k dvd x" using X(2) p(1) by (metis dvd_add_times_triv_left_iff dvd_trans dvd_triv_left power_Suc mult.commute)
  have kinds: "y = x \<and> j = k \<or> y = x + 2 ^ k \<and> j = k
      \<or> y \<noteq> x \<and> y \<noteq> x + 2 ^ k \<and> D y = Some j \<and> (y + 2 ^ j \<le> x \<or> x + 2 ^ Suc k \<le> y)"
    if "?D y = Some j" for y j
    using that tiling_apart [OF t _ x, of y j] by (auto split: if_splits)
  { fix y j assume y: "?D y = Some j"
    from kinds [OF y] consider "y = x" "j = k" | "y = x + 2 ^ k" "j = k" | "D y = Some j" by blast
    then show "5 \<le> j \<and> 2 ^ j dvd y \<and> 512 \<le> y \<and> y + 2 ^ j \<le> e"
    proof cases
      case 2
      then show ?thesis using X d k p by simp
    qed (use X d k p tilingD [OF t, of y j] in auto)
    fix z i assume z: "?D z = Some i" "y < z"
    have pos: "(0 :: nat) < 2 ^ i" "(0 :: nat) < 2 ^ j" by simp_all
    from kinds [OF y] kinds [OF z(1)]
    consider "y = x \<or> y = x + 2 ^ k" "j = k" "z = x \<or> z = x + 2 ^ k"
      | "y = x \<or> y = x + 2 ^ k" "j = k" "z + 2 ^ i \<le> x" | "y = x \<or> y = x + 2 ^ k" "j = k" "x + 2 ^ Suc k \<le> z"
      | "y + 2 ^ j \<le> x" "z = x \<or> z = x + 2 ^ k" | "x + 2 ^ Suc k \<le> y" "z = x \<or> z = x + 2 ^ k"
      | "D y = Some j" "D z = Some i" by blast
    then show "y + 2 ^ j \<le> z"
    proof cases
      case 6
      then show ?thesis using tiling_apart [OF t 6] z(2) pos by auto
    qed (use z(2) p pos in \<open>auto simp del: power_Suc\<close>) }
next
  fix z assume z: "512 \<le> z" "z < e"
  obtain y j where y: "D y = Some j" "y \<le> z" "z < y + 2 ^ j" using tiling_cover [OF t z] .
  show "\<exists>y j. (D(x \<mapsto> k, x + 2 ^ k \<mapsto> k)) y = Some j \<and> y \<le> z \<and> z < y + 2 ^ j"
  proof (cases "y = x")
    case True
    then have j: "j = Suc k" using x y(1) by simp
    show ?thesis
    proof (cases "z < x + 2 ^ k")
      case True
      then show ?thesis using y(2) \<open>y = x\<close> by (intro exI [of _ x] exI [of _ k]) auto
    next
      case False
      then show ?thesis using y(3) \<open>y = x\<close> j by (intro exI [of _ "x + 2 ^ k"] exI [of _ k]) auto
    qed
  next
    case False
    have "(0 :: nat) < 2 ^ j" "(0 :: nat) < 2 ^ k" by simp_all
    then have "y \<noteq> x + 2 ^ k" using tiling_apart [OF t y(1) x False] by auto
    then show ?thesis using y False by (intro exI [of _ y] exI [of _ j]) auto
  qed
qed

lemma tiling_join:
  assumes t: "tiling D e" and x: "D x = Some k" and y: "D y = Some k" and b: "y = x XOR 2 ^ k"
  shows "tiling (D(x := None, y := None, min x y \<mapsto> Suc k)) e"
proof (rule tilingI)
  note X = tilingD [OF t x] and Y = tilingD [OF t y]
  note b' = buddy_spec [OF X(2), folded b]
  let ?D = "D(x := None, y := None, min x y \<mapsto> Suc k)" and ?l = "min x y"
  have p: "(2 :: nat) ^ Suc k = 2 ^ k + 2 ^ k" "(0 :: nat) < 2 ^ k" by simp_all
  have xy: "x = ?l \<and> y = ?l + 2 ^ k \<or> y = ?l \<and> x = ?l + 2 ^ k"
    using b'(4) by (auto simp: min_def max_def split: if_splits)
  have range: "512 \<le> ?l" "?l + 2 ^ Suc k \<le> e" using xy X(3,4) Y(3,4) p by linarith+
  have far: "z + 2 ^ i \<le> ?l \<or> ?l + 2 ^ Suc k \<le> z" if z: "D z = Some i" "z \<noteq> x" "z \<noteq> y" for z i
  proof -
    have "z + 2 ^ i \<le> x \<or> x + 2 ^ k \<le> z" "z + 2 ^ i \<le> y \<or> y + 2 ^ k \<le> z"
      using tiling_apart [OF t z(1) x z(2)] tiling_apart [OF t z(1) y z(3)] by auto
    moreover have "(0 :: nat) < 2 ^ i" by simp
    ultimately show ?thesis using xy p by linarith
  qed
  have kinds: "z = ?l \<and> i = Suc k \<or> D z = Some i \<and> (z + 2 ^ i \<le> ?l \<or> ?l + 2 ^ Suc k \<le> z)"
    if "?D z = Some i" for z i
    using that far [of z i] by (auto split: if_splits)
  { fix z i assume z: "?D z = Some i"
    show "5 \<le> i \<and> 2 ^ i dvd z \<and> 512 \<le> z \<and> z + 2 ^ i \<le> e"
      using kinds [OF z] range X(1) b'(3) tilingD [OF t, of z i] by auto
    fix w j assume w: "?D w = Some j" "z < w"
    have pos: "(0 :: nat) < 2 ^ i" "(0 :: nat) < 2 ^ j" by simp_all
    from kinds [OF z] kinds [OF w(1)]
    consider "z = ?l" "i = Suc k" "w = ?l" | "z = ?l" "i = Suc k" "w + 2 ^ j \<le> ?l"
      | "z = ?l" "i = Suc k" "?l + 2 ^ Suc k \<le> w"
      | "w = ?l" "z + 2 ^ i \<le> ?l" | "w = ?l" "?l + 2 ^ Suc k \<le> z" | "D z = Some i" "D w = Some j" by blast
    then show "z + 2 ^ i \<le> w"
    proof cases
      case 6
      then show ?thesis using tiling_apart [OF t 6] w(2) pos by auto
    qed (use w(2) p pos in \<open>simp_all del: power_Suc min_def\<close>) }
next
  note b' = buddy_spec [OF tilingD(2) [OF t x], folded b]
  have xy: "x = min x y \<and> y = min x y + 2 ^ k \<or> y = min x y \<and> x = min x y + 2 ^ k"
    using b'(4) by (auto simp: min_def max_def split: if_splits)
  fix z assume z: "512 \<le> z" "z < e"
  obtain w j where w: "D w = Some j" "w \<le> z" "z < w + 2 ^ j" using tiling_cover [OF t z] .
  show "\<exists>w j. (D(x := None, y := None, min x y \<mapsto> Suc k)) w = Some j \<and> w \<le> z \<and> z < w + 2 ^ j"
  proof (cases "w = x \<or> w = y")
    case True
    then have "j = k" using w x y by auto
    have "(0 :: nat) < 2 ^ k" by simp
    then have "min x y \<le> z" "z < min x y + (2 ^ k + 2 ^ k)" using True w(2,3) xy \<open>j = k\<close> by auto
    then show ?thesis by (intro exI [of _ "min x y"] exI [of _ "Suc k"]) auto
  next
    case False
    then have "w \<noteq> min x y" by (auto simp: min_def)
    then show ?thesis using w False by (intro exI [of _ w] exI [of _ j]) auto
  qed
qed

text \<open>Aligned ranges do not overlap partly.\<close>

lemma dvd_step: "(d :: nat) dvd x \<Longrightarrow> d dvd y \<Longrightarrow> x < y \<Longrightarrow> x + d \<le> y"
proof -
  assume "d dvd x" "d dvd y" "x < y"
  then obtain i j where "x = d * i" "y = d * j" "i < j" by (auto simp: dvd_def)
  then show ?thesis using mult_le_mono2 [of "Suc i" j d] by simp
qed

lemma buddy_is_block:
  assumes t: "tiling D (2 ^ n)" and x: "D x = Some k" and k: "Suc k \<le> n"
    and y: "y = x XOR 2 ^ k" "512 \<le> y"
  shows "\<exists>j\<le>k. D y = Some j"
proof -
  note X = tilingD [OF t x]
  note b = buddy_spec [OF X(2), folded y(1)]
  let ?l = "min x y"
  have p: "(2 :: nat) ^ Suc k = 2 ^ k + 2 ^ k" "(0 :: nat) < 2 ^ k" by simp_all
  have xy: "x = ?l \<and> y = ?l + 2 ^ k \<or> y = ?l \<and> x = ?l + 2 ^ k"
    using b(4) by (auto simp: min_def max_def split: if_splits)
  have "?l < 2 ^ n" using X(4) xy p by linarith
  then have "?l + 2 ^ Suc k \<le> 2 ^ n" using b(3) k by (intro dvd_step) (auto intro: le_imp_power_dvd simp del: power_Suc)
  then have "y < 2 ^ n" using xy p by linarith
  then obtain w j where w: "D w = Some j" "w \<le> y" "y < w + 2 ^ j" using tiling_cover [OF t y(2)] by metis
  note W = tilingD [OF t w(1)]
  have jk: "j \<le> k"
  proof (rule ccontr)
    assume "\<not> j \<le> k"
    then have "(2 :: nat) ^ Suc k dvd 2 ^ j" by (intro le_imp_power_dvd) simp
    then have d: "2 ^ Suc k dvd w" "2 ^ Suc k dvd w + 2 ^ j" using W(2) dvd_trans by (blast, fastforce intro: dvd_add dvd_trans)
    have "w \<le> ?l"
    proof (rule ccontr)
      assume "\<not> w \<le> ?l"
      then have "?l + 2 ^ Suc k \<le> w" using b(3) d(1) by (intro dvd_step) auto
      then show False using w(2) xy p by linarith
    qed
    moreover have "?l + 2 ^ Suc k \<le> w + 2 ^ j"
      using b(3) d(2) w(3) xy p calculation by (intro dvd_step) linarith+
    ultimately have "w \<noteq> x \<Longrightarrow> False" using tiling_apart [OF t w(1) x] xy p by linarith
    then have "w = x" by blast
    then show False using w(1) x \<open>\<not> j \<le> k\<close> by simp
  qed
  then have "(2 :: nat) ^ j dvd y" using b(2) le_imp_power_dvd dvd_trans by blast
  then have "w = y" using dvd_step [OF W(2), of y] w(2,3) by (cases "w = y") auto
  then show ?thesis using w(1) jk by auto
qed

section \<open>The invariant\<close>

text \<open>The bytes say what the map of blocks says: the headers of the blocks, and for every order a
  doubly linked list of its free blocks. Nothing is asked of a block in limbo.\<close>

definition flist :: "View \<Rightarrow> nat \<Rightarrow> nat list \<Rightarrow> nat \<Rightarrow> bool" where
  "flist V b xs k \<longleftrightarrow> v_list V k = link b xs 0 \<and> chain (v_next V) (v_prev V) b 0 xs 0"

definition headed :: "View \<Rightarrow> blocks \<Rightarrow> bool" where
  "headed V B \<longleftrightarrow> (\<forall>x k s. B x = Some (k, s) \<longrightarrow> s \<noteq> Limbo \<longrightarrow>
     v_magic V x = BUDDY_MAGIC \<and> v_order V x = k \<and> v_use V x = (if s = Used then 1 else 0))"

definition listed :: "View \<Rightarrow> nat \<Rightarrow> blocks \<Rightarrow> bool" where
  "listed V b B \<longleftrightarrow> (\<forall>k<48. \<exists>xs. distinct xs \<and> set xs = {x. B x = Some (k, Free)} \<and> flist V b xs k)"

abbreviation vw :: "Arena \<Rightarrow> View" where "vw a \<equiv> view (ar_mem a) (ar_base a)"

definition bd_heap :: "Arena \<Rightarrow> nat \<Rightarrow> blocks \<Rightarrow> bool" where
  "bd_heap a M B \<longleftrightarrow> ar_state a = ar_base a \<and> ar_size a = 2 ^ Suc M \<and> 9 \<le> M \<and> M \<le> 46
     \<and> ar_base a + ar_size a < 2 ^ 64 \<and> v_max (vw a) = M \<and> v_region (vw a) = 512
     \<and> tiled B (ar_size a) \<and> headed (vw a) B \<and> listed (vw a) (ar_base a) B"

lemma bd_heapD:
  assumes "bd_heap a M B"
  shows "ar_state a = ar_base a" "ar_size a = 2 ^ Suc M" "9 \<le> M" "M \<le> 46"
    "ar_base a + ar_size a < 2 ^ 64" "v_max (vw a) = M" "v_region (vw a) = 512"
    "tiled B (ar_size a)" "headed (vw a) B" "listed (vw a) (ar_base a) B" "1024 \<le> ar_size a"
proof -
  show *: "ar_state a = ar_base a" "ar_size a = 2 ^ Suc M" "9 \<le> M" "M \<le> 46"
    "ar_base a + ar_size a < 2 ^ 64" "v_max (vw a) = M" "v_region (vw a) = 512"
    "tiled B (ar_size a)" "headed (vw a) B" "listed (vw a) (ar_base a) B"
    using assms unfolding bd_heap_def by blast+
  show "1024 \<le> ar_size a" using power_increasing [of 10 "Suc M" "2 :: nat"] *(2,3) by simp
qed

text \<open>The bytes of the blocks in use are left alone.\<close>

definition keeps :: "blocks \<Rightarrow> nat \<Rightarrow> mem \<Rightarrow> mem \<Rightarrow> bool" where
  "keeps B b m m' \<longleftrightarrow> (\<forall>x k z. B x = Some (k, Used) \<longrightarrow> b + x \<le> z \<longrightarrow> z < b + x + 2 ^ k \<longrightarrow> m' z = m z)"

lemma keeps_refl [simp]: "keeps B b m m" by (simp add: keeps_def)

lemma keeps_trans: "keeps B b m m' \<Longrightarrow> keeps B b m' m'' \<Longrightarrow> keeps B b m m''"
  by (simp add: keeps_def)

lemma keeps_mono: "keeps B b m m' \<Longrightarrow> (\<And>x k. B' x = Some (k, Used) \<Longrightarrow> B x = Some (k, Used)) \<Longrightarrow> keeps B' b m m'"
  unfolding keeps_def by blast

lemma keeps_block:
  assumes "tiled B e" "B y = Some (j, s)" "s \<noteq> Used" "c + n \<le> 32"
  shows "keeps B b m (poke m (b + y + c) n v)"
  unfolding keeps_def
proof (intro allI impI)
  fix x k z assume x: "B x = Some (k, Used)" and z: "b + x \<le> z" "z < b + x + 2 ^ k"
  have "x \<noteq> y" using x assms(2,3) by auto
  then have "x + 2 ^ k \<le> y \<or> y + 2 ^ j \<le> x" using tiled_apart [OF assms(1) x assms(2)] by simp
  then show "poke m (b + y + c) n v z = m z"
    using z assms(4) tiledD(6) [OF assms(1,2)] by (intro poke_other) auto
qed

lemma keeps_state:
  assumes "tiled B e" "c + n \<le> 512"
  shows "keeps B b m (poke m (b + c) n v)"
  unfolding keeps_def
proof (intro allI impI)
  fix x k z assume x: "B x = Some (k, Used)" and z: "b + x \<le> z" "z < b + x + 2 ^ k"
  show "poke m (b + c) n v z = m z" using z assms(2) tiledD(3) [OF assms(1) x] by (intro poke_other) auto
qed

text \<open>Accesses to a block and to the state stay inside the arena.\<close>

lemma block_in_arena:
  assumes "tiled B (ar_size a)" "B x = Some (k, s)" "c + n \<le> 32"
  shows "in_arena a (ar_base a + x + c) n"
  using tiledD(4,6) [OF assms(1,2)] assms(3) by (simp add: in_arena_def)

lemma state_in_arena: "1024 \<le> ar_size a \<Longrightarrow> c + n \<le> 512 \<Longrightarrow> in_arena a (ar_base a + c) n"
  by (simp add: in_arena_def)

lemma st_in: "in_arena a p n \<Longrightarrow> st a p n v = Some (a\<lparr>ar_mem := poke (ar_mem a) p n v\<rparr>)"
  by (simp add: st_def)

lemma ld_in: "in_arena a p n \<Longrightarrow> ld a p n = Some (peek_le (ar_mem a) p n)"
  by (simp add: ld_def)

text \<open>The fields as the code reads them.\<close>

lemma field_reads:
  assumes t: "tiled B (ar_size a)" and x: "B x = Some (k, s)"
  shows "h_magic a x = Some (v_magic (vw a) x)" "h_order a x = Some (v_order (vw a) x)"
    "h_in_use a x = Some (v_use (vw a) x)" "ld a (node_at a x) 8 = Some (v_next (vw a) x)"
    "ld a (node_at a x + 8) 8 = Some (v_prev (vw a) x)"
proof -
  have i: "in_arena a (ar_base a + x + c) n" if "c + n \<le> 32" for c n
    using block_in_arena [OF t x that] .
  have b: "blk x" by (rule tiledD(5) [OF t x])
  have j: "in_arena a (ar_base a + x) 8" using i [of 0 8] by simp
  show "h_magic a x = Some (v_magic (vw a) x)" "h_order a x = Some (v_order (vw a) x)"
    "h_in_use a x = Some (v_use (vw a) x)" "ld a (node_at a x) 8 = Some (v_next (vw a) x)"
    "ld a (node_at a x + 8) 8 = Some (v_prev (vw a) x)"
    using b i [of 8 4] i [of 12 4] i [of 16 8] i [of 24 8] j
    by (simp_all add: h_magic_def h_order_def h_in_use_def header_at_def node_at_def SIZEOF_HEADER_def
        ld_in view_def in_block_def add.assoc)
qed

lemma f_list_eq: "f_list a k = (if k < 48 then Some (ar_state a + 48 + 8 * k) else None)"
  by (simp add: f_list_def BUDDY_ORDERS_def BUDDY_MAX_ORDER_def)

lemma state_reads:
  assumes "ar_state a = ar_base a" "1024 \<le> ar_size a"
  shows "ld a (f_max_order a) 4 = Some (v_max (vw a))" "ld a (f_region_off a) 8 = Some (v_region (vw a))"
    "k < 48 \<Longrightarrow> ld a (ar_state a + 48 + 8 * k) 8 = Some (v_list (vw a) k)"
proof -
  show "ld a (f_max_order a) 4 = Some (v_max (vw a))"
    using state_in_arena [OF assms(2), of 8 4] assms(1) by (simp add: f_max_order_def ld_in view_def)
  show "ld a (f_region_off a) 8 = Some (v_region (vw a))"
    using state_in_arena [OF assms(2), of 0 8] assms(1) by (simp add: f_region_off_def ld_in view_def)
  show "k < 48 \<Longrightarrow> ld a (ar_state a + 48 + 8 * k) 8 = Some (v_list (vw a) k)"
    using state_in_arena [OF assms(2), of "48 + 8 * k" 8] assms(1)
    by (simp add: ld_in view_def heads_def add.assoc)
qed

text \<open>The counters are not part of the view.\<close>

lemma counter_moves:
  assumes "ar_state a = ar_base a" "1024 \<le> ar_size a" "tiled B (ar_size a)"
    and f: "f \<in> {f_used_bytes, f_free_bytes, f_live_blocks, f_free_blocks}"
  shows "\<exists>m. add_to a (f a) n = Some (a\<lparr>ar_mem := m\<rparr>) \<and> view m (ar_base a) = vw a \<and> keeps B (ar_base a) (ar_mem a) m"
    "\<exists>m. sub_from a (f a) n = Some (a\<lparr>ar_mem := m\<rparr>) \<and> view m (ar_base a) = vw a \<and> keeps B (ar_base a) (ar_mem a) m"
proof -
  obtain c where c: "f a = ar_base a + c" "16 \<le> c" "c \<le> 40"
    using f assms(1) by (auto simp: f_used_bytes_def f_free_bytes_def f_live_blocks_def f_free_blocks_def)
  have i: "in_arena a (ar_base a + c) 8" using state_in_arena [OF assms(2), of c 8] c(3) by simp
  have k: "keeps B (ar_base a) (ar_mem a) (poke (ar_mem a) (ar_base a + c) 8 v)" for v
    using keeps_state [OF assms(3), of c 8] c(3) by simp
  show "\<exists>m. add_to a (f a) n = Some (a\<lparr>ar_mem := m\<rparr>) \<and> view m (ar_base a) = vw a \<and> keeps B (ar_base a) (ar_mem a) m"
  proof -
    have "add_to a (f a) n = Some (a\<lparr>ar_mem := poke (ar_mem a) (ar_base a + c) 8 ((peek_le (ar_mem a) (ar_base a + c) 8 + n) mod 2 ^ 64)\<rparr>)"
      using i by (simp add: add_to_def c(1) ld_in st_in)
    then show ?thesis using k view_poke_state(2) [OF c(2,3)] by blast
  qed
  show "\<exists>m. sub_from a (f a) n = Some (a\<lparr>ar_mem := m\<rparr>) \<and> view m (ar_base a) = vw a \<and> keeps B (ar_base a) (ar_mem a) m"
  proof -
    have "sub_from a (f a) n = Some (a\<lparr>ar_mem := poke (ar_mem a) (ar_base a + c) 8 ((peek_le (ar_mem a) (ar_base a + c) 8 + 2 ^ 64 - n mod 2 ^ 64) mod 2 ^ 64)\<rparr>)"
      using i by (simp add: sub_from_def c(1) ld_in st_in)
    then show ?thesis using k view_poke_state(2) [OF c(2,3)] by blast
  qed
qed

section \<open>Stores and their sequences\<close>

text \<open>A computation succeeds, changes only memory, makes the view \<open>V\<close>, and leaves the blocks in
  use alone.\<close>

definition does :: "Arena option \<Rightarrow> Arena \<Rightarrow> View \<Rightarrow> blocks \<Rightarrow> bool" where
  "does r a V B \<longleftrightarrow> (\<exists>m. r = Some (a\<lparr>ar_mem := m\<rparr>) \<and> view m (ar_base a) = V \<and> keeps B (ar_base a) (ar_mem a) m)"

lemma doesI:
  "r = Some (a\<lparr>ar_mem := m\<rparr>) \<Longrightarrow> view m (ar_base a) = V \<Longrightarrow> keeps B (ar_base a) (ar_mem a) m \<Longrightarrow> does r a V B"
  by (auto simp: does_def)

lemma does_Some: "does (Some a) a (vw a) B"
  by (rule doesI [where m = "ar_mem a"]) simp_all

lemma does_bind:
  assumes "does r a V B"
    and "\<And>m. view m (ar_base a) = V \<Longrightarrow> keeps B (ar_base a) (ar_mem a) m \<Longrightarrow> does (f (a\<lparr>ar_mem := m\<rparr>)) (a\<lparr>ar_mem := m\<rparr>) W B"
  shows "does (r \<bind> f) a W B"
proof -
  obtain m where m: "r = Some (a\<lparr>ar_mem := m\<rparr>)" "view m (ar_base a) = V" "keeps B (ar_base a) (ar_mem a) m"
    using assms(1) by (auto simp: does_def)
  obtain m' where "f (a\<lparr>ar_mem := m\<rparr>) = Some (a\<lparr>ar_mem := m'\<rparr>)" "view m' (ar_base a) = W"
    "keeps B (ar_base a) m m'"
    using assms(2) [OF m(2,3)] by (auto simp: does_def)
  then show ?thesis using m keeps_trans by (intro doesI [where m = m']) auto
qed

definition shaped :: "Arena \<Rightarrow> blocks \<Rightarrow> bool" where
  "shaped a B \<longleftrightarrow> ar_state a = ar_base a \<and> 1024 \<le> ar_size a \<and> tiled B (ar_size a)
     \<and> ar_base a + ar_size a < 2 ^ 64"

lemma shapedD: "shaped a B \<Longrightarrow> ar_state a = ar_base a" "shaped a B \<Longrightarrow> 1024 \<le> ar_size a"
  "shaped a B \<Longrightarrow> tiled B (ar_size a)" "shaped a B \<Longrightarrow> ar_base a + ar_size a < 2 ^ 64"
  by (simp_all add: shaped_def)

lemma shaped_mem [simp]: "shaped (a\<lparr>ar_mem := m\<rparr>) B = shaped a B"
  by (simp add: shaped_def)

lemma shaped_status: "shaped a B \<Longrightarrow> B x = Some (k, s) \<Longrightarrow> shaped a (B(x \<mapsto> (k, t)))"
  by (auto simp: shaped_def tiled_status)

lemma bd_shaped: "bd_heap a M B \<Longrightarrow> shaped a B"
  using bd_heapD [of a M B] by (simp add: shaped_def)

lemma does_block:
  assumes "shaped a B" "B x = Some (k, s)" "s \<noteq> Used" "p = ar_base a + x + c" "c + n \<le> 32"
    and "view (poke (ar_mem a) p n v) (ar_base a) = V"
  shows "does (st a p n v) a V B"
  using assms block_in_arena [OF shapedD(3), of a B x k s c n] keeps_block [OF shapedD(3), of a B x k s c n]
  by (intro doesI [OF st_in]) auto

lemma does_store:
  assumes "shaped a B" "B x = Some (k, s)" "s \<noteq> Used"
  shows "does (st a (header_at a x) 8 v) a ((vw a)\<lparr>v_magic := (v_magic (vw a))(x := v mod 256 ^ 8)\<rparr>) B"
    "does (st a (header_at a x + 8) 4 v) a ((vw a)\<lparr>v_order := (v_order (vw a))(x := v mod 256 ^ 4)\<rparr>) B"
    "does (st a (header_at a x + 12) 4 v) a ((vw a)\<lparr>v_use := (v_use (vw a))(x := v mod 256 ^ 4)\<rparr>) B"
    "does (st a (node_at a x) 8 v) a ((vw a)\<lparr>v_next := (v_next (vw a))(x := v mod 256 ^ 8)\<rparr>) B"
    "does (st a (node_at a x + 8) 8 v) a ((vw a)\<lparr>v_prev := (v_prev (vw a))(x := v mod 256 ^ 8)\<rparr>) B"
proof -
  have b: "blk x" using tiledD(5) [OF shapedD(3) [OF assms(1)] assms(2)] .
  note go = does_block [OF assms]
  show "does (st a (header_at a x) 8 v) a ((vw a)\<lparr>v_magic := (v_magic (vw a))(x := v mod 256 ^ 8)\<rparr>) B"
    by (rule go [where c = 0]) (simp_all add: header_at_def view_poke_magic [OF b])
  show "does (st a (header_at a x + 8) 4 v) a ((vw a)\<lparr>v_order := (v_order (vw a))(x := v mod 256 ^ 4)\<rparr>) B"
    by (rule go [where c = 8]) (simp_all add: header_at_def view_poke_block [OF b])
  show "does (st a (header_at a x + 12) 4 v) a ((vw a)\<lparr>v_use := (v_use (vw a))(x := v mod 256 ^ 4)\<rparr>) B"
    by (rule go [where c = 12]) (simp_all add: header_at_def view_poke_block [OF b])
  show "does (st a (node_at a x) 8 v) a ((vw a)\<lparr>v_next := (v_next (vw a))(x := v mod 256 ^ 8)\<rparr>) B"
    by (rule go [where c = 16]) (simp_all add: node_at_def SIZEOF_HEADER_def view_poke_block [OF b])
  have n: "node_at a x + 8 = ar_base a + x + 24" by (simp add: node_at_def SIZEOF_HEADER_def)
  show "does (st a (node_at a x + 8) 8 v) a ((vw a)\<lparr>v_prev := (v_prev (vw a))(x := v mod 256 ^ 8)\<rparr>) B"
    unfolding n by (rule go [where c = 24]) (simp_all add: view_poke_block [OF b])
qed

lemma does_state:
  assumes "shaped a B"
  shows "k < 48 \<Longrightarrow> does (st a (ar_state a + 48 + 8 * k) 8 v) a ((vw a)\<lparr>v_list := (v_list (vw a))(k := v mod 256 ^ 8)\<rparr>) B"
    "does (st a (f_max_order a) 4 v) a ((vw a)\<lparr>v_max := v mod 256 ^ 4\<rparr>) B"
    "does (st a (f_region_off a) 8 v) a ((vw a)\<lparr>v_region := v mod 256 ^ 8\<rparr>) B"
proof -
  note s = shapedD [OF assms]
  show "does (st a (ar_state a + 48 + 8 * k) 8 v) a ((vw a)\<lparr>v_list := (v_list (vw a))(k := v mod 256 ^ 8)\<rparr>) B" if "k < 48"
    using that s(1) state_in_arena [OF s(2), of "48 + 8 * k" 8] keeps_state [OF s(3), of "48 + 8 * k" 8]
      view_poke_state(1) [OF that, of "ar_mem a" "ar_base a" v]
    by (intro doesI [OF st_in]) (simp_all add: add.assoc)
  show "does (st a (f_max_order a) 4 v) a ((vw a)\<lparr>v_max := v mod 256 ^ 4\<rparr>) B"
    using s(1) state_in_arena [OF s(2), of 8 4] keeps_state [OF s(3), of 8 4]
    by (intro doesI [OF st_in]) (simp_all add: f_max_order_def view_poke_state)
  show "does (st a (f_region_off a) 8 v) a ((vw a)\<lparr>v_region := v mod 256 ^ 8\<rparr>) B"
    using s(1) state_in_arena [OF s(2), of 0 8] keeps_state [OF s(3), of 0 8]
    by (intro doesI [OF st_in]) (simp_all add: f_region_off_def view_poke_state)
qed

lemma does_counter:
  assumes "shaped a B" "f \<in> {f_used_bytes, f_free_bytes, f_live_blocks, f_free_blocks}"
  shows "does (add_to a (f a) n) a (vw a) B" "does (sub_from a (f a) n) a (vw a) B"
  using counter_moves [OF shapedD(1,2,3) [OF assms(1)] assms(2), of n] by (auto simp: does_def)

lemma magic_fits [simp]: "BUDDY_MAGIC mod 18446744073709551616 = BUDDY_MAGIC"
  by (simp add: BUDDY_MAGIC_def)

lemma does_set_header:
  assumes "shaped a B" "B x = Some (k, s)" "s \<noteq> Used" "ord < 48" "u < 2"
  shows "does (set_header a x ord u) a ((vw a)\<lparr>v_magic := (v_magic (vw a))(x := BUDDY_MAGIC),
    v_order := (v_order (vw a))(x := ord), v_use := (v_use (vw a))(x := u)\<rparr>) B"
  unfolding set_header_def
proof (rule does_bind [OF does_store(1) [OF assms(1-3)]])
  fix m assume m: "view m (ar_base a) = (vw a)\<lparr>v_magic := (v_magic (vw a))(x := BUDDY_MAGIC mod 256 ^ 8)\<rparr>"
  let ?a = "a\<lparr>ar_mem := m\<rparr>"
  have s: "shaped ?a B" using assms(1) by simp
  have h: "header_at a x = header_at ?a x" by (simp add: header_at_def)
  show "does (st ?a (header_at ?a x + 8) 4 ord \<bind> (\<lambda>a. st a (header_at a x + 12) 4 u)) ?a
    ((vw a)\<lparr>v_magic := (v_magic (vw a))(x := BUDDY_MAGIC),
      v_order := (v_order (vw a))(x := ord), v_use := (v_use (vw a))(x := u)\<rparr>) B"
  proof (rule does_bind [OF does_store(2) [OF s assms(2,3)]])
    fix m2 assume m2: "view m2 (ar_base ?a) = (vw ?a)\<lparr>v_order := (v_order (vw ?a))(x := ord mod 256 ^ 4)\<rparr>"
    let ?b = "?a\<lparr>ar_mem := m2\<rparr>"
    have "does (st ?b (header_at ?b x + 12) 4 u) ?b ((vw ?b)\<lparr>v_use := (v_use (vw ?b))(x := u mod 256 ^ 4)\<rparr>) B"
      by (rule does_store(3) [of ?b B x k s u]) (use assms(1-3) in simp_all)
    then show "does (st ?b (header_at ?b x + 12) 4 u) ?b
      ((vw a)\<lparr>v_magic := (v_magic (vw a))(x := BUDDY_MAGIC),
        v_order := (v_order (vw a))(x := ord), v_use := (v_use (vw a))(x := u)\<rparr>) B"
      using m m2 assms(4,5) by simp
  qed
qed

section \<open>The free lists\<close>

text \<open>An arena in the middle of a sequence of stores that started at \<open>a\<close>.\<close>

definition stage :: "Arena \<Rightarrow> blocks \<Rightarrow> View \<Rightarrow> Arena \<Rightarrow> bool" where
  "stage a B V a' \<longleftrightarrow> shaped a' B \<and> ar_base a' = ar_base a \<and> view (ar_mem a') (ar_base a) = V"

lemma does_step:
  assumes "stage a0 B U a" "does r a V B" "\<And>a'. stage a0 B V a' \<Longrightarrow> does (f a') a' W B"
  shows "does (r \<bind> f) a W B"
proof (rule does_bind [OF assms(2)])
  fix m assume "view m (ar_base a) = V"
  then have "stage a0 B V (a\<lparr>ar_mem := m\<rparr>)" using assms(1) by (simp add: stage_def)
  then show "does (f (a\<lparr>ar_mem := m\<rparr>)) (a\<lparr>ar_mem := m\<rparr>) W B" by (rule assms(3))
qed

lemma stage_node: "stage a B V a' \<Longrightarrow> node_at a' x = node (ar_base a) x"
  by (simp add: stage_def node_at_def node_def SIZEOF_HEADER_def)

lemma stage_list:
  "stage a B V a' \<Longrightarrow> k < 48 \<Longrightarrow> f_list a' k = Some (ar_base a + 48 + 8 * k)"
  "stage a B V a' \<Longrightarrow> k < 48 \<Longrightarrow> ld a' (ar_base a + 48 + 8 * k) 8 = Some (v_list V k)"
  using state_reads(3) [OF shapedD(1) shapedD(2), of a' B B k] shapedD(1) [of a' B]
  by (auto simp: stage_def f_list_eq)

lemma stage_store:
  assumes "stage a B V a'" "B x = Some (k, s)" "s \<noteq> Used"
  shows "does (st a' (node (ar_base a) x) 8 v) a' (V\<lparr>v_next := (v_next V)(x := v mod 256 ^ 8)\<rparr>) B"
    "does (st a' (node (ar_base a) x + 8) 8 v) a' (V\<lparr>v_prev := (v_prev V)(x := v mod 256 ^ 8)\<rparr>) B"
    "ld a' (node (ar_base a) x) 8 = Some (v_next V x)" "ld a' (node (ar_base a) x + 8) 8 = Some (v_prev V x)"
  using does_store(4,5) [of a' B x k s v] field_reads(4,5) [OF shapedD(3), of a' B x k s] stage_node [OF assms(1)] assms
  by (simp_all add: stage_def)

lemma stage_head:
  assumes "stage a B V a'" "k < 48"
  shows "does (st a' (ar_base a + 48 + 8 * k) 8 v) a' (V\<lparr>v_list := (v_list V)(k := v mod 256 ^ 8)\<rparr>) B"
  using does_state(1) [of a' B k v] shapedD(1) [of a' B] assms by (simp add: stage_def)

lemma stage_counters:
  assumes "stage a B V a'"
  shows "does (add_to a' (f_free_bytes a') n \<bind> (\<lambda>a. add_to a (f_free_blocks a) j)) a' V B"
    "does (sub_from a' (f_free_bytes a') n \<bind> (\<lambda>a. sub_from a (f_free_blocks a) j)) a' V B"
    "does (add_to a' (f_used_bytes a') n \<bind> (\<lambda>a. add_to a (f_live_blocks a) j)) a' V B"
    "does (sub_from a' (f_used_bytes a') n \<bind> (\<lambda>a. sub_from a (f_live_blocks a) j)) a' V B"
proof -
  have c: "does (add_to a (f a) i) a V B" "does (sub_from a (f a) i) a V B"
    if "stage a0 B V a" "f \<in> {f_used_bytes, f_free_bytes, f_live_blocks, f_free_blocks}" for a a0 f i
    using does_counter [of a B f i] that by (simp_all add: stage_def)
  show "does (add_to a' (f_free_bytes a') n \<bind> (\<lambda>a. add_to a (f_free_blocks a) j)) a' V B"
    "does (sub_from a' (f_free_bytes a') n \<bind> (\<lambda>a. sub_from a (f_free_blocks a) j)) a' V B"
    "does (add_to a' (f_used_bytes a') n \<bind> (\<lambda>a. add_to a (f_live_blocks a) j)) a' V B"
    "does (sub_from a' (f_used_bytes a') n \<bind> (\<lambda>a. sub_from a (f_live_blocks a) j)) a' V B"
    by (rule does_step [OF assms], rule c [OF assms], simp, rule c, assumption, simp)+
qed

definition pushed :: "View \<Rightarrow> nat \<Rightarrow> nat list \<Rightarrow> nat \<Rightarrow> nat \<Rightarrow> View" where
  "pushed V b xs x k = V\<lparr>v_magic := (v_magic V)(x := BUDDY_MAGIC), v_order := (v_order V)(x := k),
     v_use := (v_use V)(x := 0), v_next := (v_next V)(x := link b xs 0),
     v_prev := (if xs = [] then (v_prev V)(x := 0) else (v_prev V)(x := 0, hd xs := node b x)),
     v_list := (v_list V)(k := node b x)\<rparr>"

definition removed :: "View \<Rightarrow> nat \<Rightarrow> nat list \<Rightarrow> nat \<Rightarrow> nat list \<Rightarrow> nat \<Rightarrow> View" where
  "removed V b xs x ys k = V\<lparr>v_next := (if xs = [] then v_next V else (v_next V)(last xs := v_next V x)),
     v_prev := (if ys = [] then v_prev V else (v_prev V)(hd ys := v_prev V x)),
     v_list := (if xs = [] then (v_list V)(k := v_next V x) else v_list V)\<rparr>"

lemma node_fits:
  assumes "shaped a B" "B x = Some (k, s)"
  shows "node (ar_base a) x mod 18446744073709551616 = node (ar_base a) x" "0 < node (ar_base a) x"
proof -
  have "node (ar_base a) x < 2 ^ 64"
    using shapedD(4) [OF assms(1)] tiledD(4,6) [OF shapedD(3) [OF assms(1)] assms(2)] by (simp add: node_def)
  then show "node (ar_base a) x mod 18446744073709551616 = node (ar_base a) x" by simp
qed (simp add: node_def)

lemma list_push_does:
  assumes a: "shaped a B" and x: "B x = Some (k, Limbo)" and k: "k < 48"
    and xs: "v_list (vw a) k = link (ar_base a) xs 0" "set xs \<subseteq> {y. B y = Some (k, Free)}"
  shows "does (list_push a x k) a (pushed (vw a) (ar_base a) xs x k) B"
proof -
  let ?b = "ar_base a"
  define V1 where "V1 = (vw a)\<lparr>v_magic := (v_magic (vw a))(x := BUDDY_MAGIC),
    v_order := (v_order (vw a))(x := k), v_use := (v_use (vw a))(x := 0)\<rparr>"
  define V2 where "V2 = V1\<lparr>v_prev := (v_prev V1)(x := 0)\<rparr>"
  define V3 where "V3 = V2\<lparr>v_next := (v_next V2)(x := link ?b xs 0)\<rparr>"
  define V4 where "V4 = (if xs = [] then V3 else V3\<lparr>v_prev := (v_prev V3)(hd xs := node ?b x)\<rparr>)"
  define V5 where "V5 = V4\<lparr>v_list := (v_list V4)(k := node ?b x)\<rparr>"
  have V5: "pushed (vw a) ?b xs x k = V5"
    by (simp add: V5_def V4_def V3_def V2_def V1_def pushed_def)
  have fits: "link ?b xs 0 mod 18446744073709551616 = link ?b xs 0" "node ?b x mod 18446744073709551616 = node ?b x"
    using node_fits [OF a] x xs(2) by (cases xs; auto)+
  have l: "v_list V2 k = link ?b xs 0" using xs(1) by (simp add: V2_def V1_def)
  have L: "Limbo \<noteq> Used" by simp
  have d1: "does (set_header a x k 0) a V1 B"
    unfolding V1_def by (rule does_set_header [OF a x]) (use k in simp_all)
  have d2: "does (st a' (node ?b x + 8) 8 0) a' V2 B" if "stage a B V1 a'" for a'
    using stage_store(2) [OF that x L, of 0] by (simp add: V2_def)
  have d3: "does (st a' (node ?b x) 8 (link ?b xs 0)) a' V3 B" if "stage a B V2 a'" for a'
    using stage_store(1) [OF that x L, of "link ?b xs 0"] fits by (simp add: V3_def)
  have d4: "does (if link ?b xs 0 \<noteq> 0 then st a' (link ?b xs 0 + 8) 8 (node ?b x) else Some a') a' V4 B"
    if "stage a B V3 a'" for a'
  proof (cases xs)
    case Nil
    then show ?thesis using does_Some [of a' B] that by (simp add: V4_def stage_def)
  next
    case (Cons y ys)
    then have y: "B y = Some (k, Free)" using xs(2) by auto
    show ?thesis using stage_store(2) [OF that y, of "node ?b x"] fits node_fits(2) [OF a y] Cons by (simp add: V4_def)
  qed
  have d5: "does (st a' (?b + 48 + 8 * k) 8 (node ?b x)) a' V5 B" if "stage a B V4 a'" for a'
    using stage_head [OF that k, of "node ?b x"] fits by (simp add: V5_def)
  have s0: "stage a B (vw a) a" using a by (simp add: stage_def)
  show ?thesis
    unfolding list_push_def Let_def V5
  proof (rule does_step [OF s0 d1], goal_cases)
    case 1
    note s1 = 1
    show ?case unfolding stage_node [OF s1]
    proof (rule does_step [OF s1 d2 [OF s1]], goal_cases)
      case 1
      show ?case unfolding stage_list [OF 1 k] l bind.bind_lunit
        by (rule does_step [OF 1 d3 [OF 1]], rule does_step [OF _ d4], assumption, assumption,
            rule does_step [OF _ d5], assumption, assumption, rule stage_counters)
    qed
  qed
qed

lemma list_remove_does:
  assumes a: "shaped a B" and x: "B x = Some (k, Free)" and k: "k < 48"
    and xs: "v_next (vw a) x = link (ar_base a) ys 0" "v_prev (vw a) x = link_back (ar_base a) xs 0"
      "set (xs @ ys) \<subseteq> {y. B y = Some (k, Free)}" "x \<notin> set (xs @ ys)"
  shows "does (list_remove a x k) a (removed (vw a) (ar_base a) xs x ys k) B"
proof -
  let ?b = "ar_base a" and ?V = "vw a"
  let ?n = "v_next ?V x" and ?p = "v_prev ?V x"
  define V1 where "V1 = (if xs = [] then ?V\<lparr>v_list := (v_list ?V)(k := ?n)\<rparr> else ?V\<lparr>v_next := (v_next ?V)(last xs := ?n)\<rparr>)"
  define V2 where "V2 = (if ys = [] then V1 else V1\<lparr>v_prev := (v_prev V1)(hd ys := ?p)\<rparr>)"
  have V2: "removed ?V ?b xs x ys k = V2" by (simp add: V2_def V1_def removed_def)
  have lx: "last xs \<in> set xs" if "xs \<noteq> []" using that by simp
  have n1: "v_next V1 x = ?n" "v_prev V1 x = ?p" using xs(4) lx by (auto simp: V1_def)
  have free: "B y = Some (k, Free)" if "y \<in> set (xs @ ys)" for y using xs(3) that by blast
  have fits: "?n mod 18446744073709551616 = ?n" "?p mod 18446744073709551616 = ?p"
    using node_fits(1) [OF a free [of "hd ys"]] node_fits(1) [OF a free [of "last xs"]] lx
    unfolding xs(1,2) by (cases ys, simp_all add: link_back_def)
  have s0: "stage a B ?V a" using a by (simp add: stage_def)
  have d1: "does (if ?p \<noteq> 0 then st a ?p 8 ?n else do { l \<leftarrow> f_list a k; st a l 8 ?n }) a V1 B"
  proof (cases "xs = []")
    case True
    then show ?thesis using stage_head [OF s0 k, of ?n] stage_list(1) [OF s0 k] fits xs(2) by (simp add: V1_def)
  next
    case False
    then have y: "B (last xs) = Some (k, Free)" using free lx by simp
    show ?thesis using stage_store(1) [OF s0 y, of ?n] fits node_fits(2) [OF a y] xs(2) False by (simp add: V1_def link_back_def)
  qed
  have d2: "does (if ?n \<noteq> 0 then do { q \<leftarrow> ld a' (node ?b x + 8) 8; st a' (?n + 8) 8 q } else Some a') a' V2 B"
    if s: "stage a B V1 a'" for a'
  proof (cases ys)
    case Nil
    then show ?thesis using does_Some [of a' B] s xs(1) by (simp add: V2_def stage_def)
  next
    case (Cons y zs)
    then have y: "B y = Some (k, Free)" using free by simp
    show ?thesis using stage_store(2) [OF s y, of ?p] stage_store(4) [OF s x] fits node_fits(2) [OF a y] Cons xs(1) n1
      by (simp add: V2_def)
  qed
  have r: "ld a (node ?b x) 8 = Some ?n" "ld a (node ?b x + 8) 8 = Some ?p"
    using stage_store(3,4) [OF s0 x] by simp_all
  show ?thesis
    unfolding list_remove_def Let_def V2 stage_node [OF s0] r bind.bind_lunit
  proof (rule does_step [OF s0 d1], goal_cases)
    case 1
    show ?case unfolding stage_store(3) [OF 1 x, simplified] n1 bind.bind_lunit
      by (rule does_step [OF 1 d2 [OF 1]], rule stage_counters)
  qed
qed

lemma order_le:
  assumes "tiling D (2 ^ Suc M)" "D x = Some k"
  shows "k \<le> M"
proof -
  note t = tilingD [OF assms]
  have "2 ^ k \<le> x" using t(2,3) by (intro dvd_imp_le) auto
  then have "(2 :: nat) ^ k + 2 ^ k \<le> 2 ^ Suc M" using t(4) by linarith
  then have "(2 :: nat) ^ k \<le> 2 ^ M" unfolding power_Suc by linarith
  then show ?thesis by (rule power_le_imp_le_exp [rotated]) simp
qed

lemma bd_order:
  assumes "bd_heap a M B" "B x = Some (k, s)"
  shows "k \<le> M" "k < 48" "5 \<le> k"
proof -
  have "tiling (orders B) (2 ^ Suc M)" using bd_heapD(2,8) [OF assms(1)] by (simp add: tiled_def)
  then show "k \<le> M" by (rule order_le) (rule orders_Some, rule assms(2))
  then show "k < 48" using bd_heapD(4) [OF assms(1)] by simp
  show "5 \<le> k" by (rule tiledD(1) [OF bd_heapD(8) [OF assms(1)] assms(2)])
qed

lemma listedE:
  assumes "listed V b B" "k < 48"
  obtains xs where "distinct xs" "set xs = {x. B x = Some (k, Free)}" "v_list V k = link b xs 0"
    "chain (v_next V) (v_prev V) b 0 xs 0"
  using assms by (auto simp: listed_def flist_def)

lemma listed_change:
  assumes "listed V b B" "k < 48"
    and "\<And>y. y \<in> fst ` {(y, j). B y = Some (j, Free) \<and> j \<noteq> k} \<Longrightarrow> v_next V' y = v_next V y \<and> v_prev V' y = v_prev V y"
    and "\<And>j. j \<noteq> k \<Longrightarrow> v_list V' j = v_list V j" "\<And>y j. j \<noteq> k \<Longrightarrow> B' y = Some (j, Free) \<longleftrightarrow> B y = Some (j, Free)"
    and "\<exists>xs. distinct xs \<and> set xs = {x. B' x = Some (k, Free)} \<and> flist V' b xs k"
  shows "listed V' b B'"
  unfolding listed_def
proof (intro allI impI)
  fix j :: nat assume j: "j < 48"
  show "\<exists>xs. distinct xs \<and> set xs = {x. B' x = Some (j, Free)} \<and> flist V' b xs j"
  proof (cases "j = k")
    case False
    obtain xs where xs: "distinct xs" "set xs = {x. B x = Some (j, Free)}" "v_list V j = link b xs 0"
      "chain (v_next V) (v_prev V) b 0 xs 0" using listedE [OF assms(1) j] .
    have "chain (v_next V') (v_prev V') b 0 xs 0 = chain (v_next V) (v_prev V) b 0 xs 0"
      by (rule chain_frame, rule assms(3)) (use xs(2) False in force)
    then show ?thesis using xs assms(4,5) False by (intro exI [of _ xs]) (simp add: flist_def)
  qed (use assms(6) in simp)
qed

lemma headed_pushed:
  "headed V B \<Longrightarrow> headed (pushed V b xs x k) (B(x \<mapsto> (k, Free)))"
  by (auto simp: headed_def pushed_def)

lemma listed_pushed:
  assumes l: "listed V b B" "k < 48" "B x = Some (k, Limbo)"
    and xs: "distinct xs" "set xs = {y. B y = Some (k, Free)}" "chain (v_next V) (v_prev V) b 0 xs 0"
  shows "listed (pushed V b xs x k) b (B(x \<mapsto> (k, Free)))"
proof (rule listed_change [OF l(1,2)])
  have n: "x \<notin> set xs" using xs(2) l(3) by simp
  have "chain (v_next (pushed V b xs x k)) (v_prev (pushed V b xs x k)) b 0 (x # xs) 0"
    by (rule chain_push [OF xs(3) n xs(1)]) (simp_all add: pushed_def)
  moreover have "set (x # xs) = {y. (B(x \<mapsto> (k, Free))) y = Some (k, Free)}" using xs(2) by auto
  ultimately show "\<exists>xs'. distinct xs' \<and> set xs' = {y. (B(x \<mapsto> (k, Free))) y = Some (k, Free)}
      \<and> flist (pushed V b xs x k) b xs' k"
    using xs(1) n by (intro exI [of _ "x # xs"]) (simp add: flist_def pushed_def)
  fix y assume "y \<in> fst ` {(y, j). B y = Some (j, Free) \<and> j \<noteq> k}"
  then obtain j where "B y = Some (j, Free)" "j \<noteq> k" by auto
  then have "y \<noteq> x" "y \<notin> set xs" using l(3) xs(2) by auto
  moreover from this have "xs \<noteq> [] \<Longrightarrow> y \<noteq> hd xs" by auto
  ultimately show "v_next (pushed V b xs x k) y = v_next V y \<and> v_prev (pushed V b xs x k) y = v_prev V y"
    by (simp add: pushed_def)
qed (use l(3) in \<open>auto simp: pushed_def\<close>)

lemma list_push_ok:
  assumes h: "bd_heap a M B" and x: "B x = Some (k, Limbo)"
  shows "\<exists>m. list_push a x k = Some (a\<lparr>ar_mem := m\<rparr>) \<and> bd_heap (a\<lparr>ar_mem := m\<rparr>) M (B(x \<mapsto> (k, Free)))
    \<and> keeps B (ar_base a) (ar_mem a) m"
proof -
  note d = bd_heapD [OF h] and k = bd_order [OF h x]
  obtain xs where xs: "distinct xs" "set xs = {y. B y = Some (k, Free)}" "v_list (vw a) k = link (ar_base a) xs 0"
    "chain (v_next (vw a)) (v_prev (vw a)) (ar_base a) 0 xs 0" using listedE [OF d(10) k(2)] .
  obtain m where m: "list_push a x k = Some (a\<lparr>ar_mem := m\<rparr>)" "view m (ar_base a) = pushed (vw a) (ar_base a) xs x k"
    "keeps B (ar_base a) (ar_mem a) m"
    using list_push_does [OF bd_shaped [OF h] x k(2) xs(3)] xs(2) by (auto simp: does_def)
  have "bd_heap (a\<lparr>ar_mem := m\<rparr>) M (B(x \<mapsto> (k, Free)))"
    using d tiled_status [OF d(8) x, of Free] headed_pushed [OF d(9)] listed_pushed [OF d(10) k(2) x xs(1,2,4)]
    by (simp add: bd_heap_def m(2) del: power_Suc) (simp add: pushed_def)
  then show ?thesis using m by blast
qed

lemma headed_removed: "headed V B \<Longrightarrow> headed (removed V b xs x ys k) (B(x \<mapsto> (k, Limbo)))"
  by (auto simp: headed_def removed_def)

lemma listed_removed:
  assumes l: "listed V b B" "k < 48" "B x = Some (k, Free)"
    and xs: "distinct (xs @ x # ys)" "set (xs @ x # ys) = {y. B y = Some (k, Free)}"
      "chain (v_next V) (v_prev V) b 0 (xs @ x # ys) 0" "v_list V k = link b (xs @ x # ys) 0"
  shows "listed (removed V b xs x ys k) b (B(x \<mapsto> (k, Limbo)))"
proof (rule listed_change [OF l(1,2)])
  have "chain (v_next (removed V b xs x ys k)) (v_prev (removed V b xs x ys k)) b 0 (xs @ ys) 0"
    by (rule chain_remove [OF xs(3,1)]) (simp_all add: removed_def)
  moreover have "set (xs @ ys) = {y. (B(x \<mapsto> (k, Limbo))) y = Some (k, Free)}" using xs(1,2) by auto
  moreover have "v_list (removed V b xs x ys k) k = link b (xs @ ys) 0"
    using xs(3,4) by (cases xs) (auto simp: removed_def)
  ultimately show "\<exists>xs'. distinct xs' \<and> set xs' = {y. (B(x \<mapsto> (k, Limbo))) y = Some (k, Free)}
      \<and> flist (removed V b xs x ys k) b xs' k"
    using xs(1) by (intro exI [of _ "xs @ ys"]) (simp add: flist_def)
  fix y assume "y \<in> fst ` {(y, j). B y = Some (j, Free) \<and> j \<noteq> k}"
  then obtain j where "B y = Some (j, Free)" "j \<noteq> k" by auto
  moreover have "B z = Some (k, Free)" if "z \<in> set xs \<or> z \<in> set ys" for z using xs(2) that by auto
  ultimately have "y \<notin> set xs" "y \<notin> set ys" by auto
  then have "xs \<noteq> [] \<Longrightarrow> y \<noteq> last xs" "ys \<noteq> [] \<Longrightarrow> y \<noteq> hd ys" by fastforce+
  then show "v_next (removed V b xs x ys k) y = v_next V y \<and> v_prev (removed V b xs x ys k) y = v_prev V y"
    by (simp add: removed_def)
qed (use l(3) in \<open>auto simp: removed_def\<close>)

lemma list_remove_ok:
  assumes h: "bd_heap a M B" and x: "B x = Some (k, Free)"
  shows "\<exists>m. list_remove a x k = Some (a\<lparr>ar_mem := m\<rparr>) \<and> bd_heap (a\<lparr>ar_mem := m\<rparr>) M (B(x \<mapsto> (k, Limbo)))
    \<and> keeps B (ar_base a) (ar_mem a) m"
proof -
  note d = bd_heapD [OF h] and k = bd_order [OF h x]
  obtain zs where zs: "distinct zs" "set zs = {y. B y = Some (k, Free)}" "v_list (vw a) k = link (ar_base a) zs 0"
    "chain (v_next (vw a)) (v_prev (vw a)) (ar_base a) 0 zs 0" using listedE [OF d(10) k(2)] .
  have "x \<in> set zs" using zs(2) x by simp
  then obtain xs ys where xy: "zs = xs @ x # ys" by (meson split_list)
  have n: "v_next (vw a) x = link (ar_base a) ys 0" "v_prev (vw a) x = link_back (ar_base a) xs 0"
    "set (xs @ ys) \<subseteq> {y. B y = Some (k, Free)}" "x \<notin> set (xs @ ys)"
    using zs xy by auto
  obtain m where m: "list_remove a x k = Some (a\<lparr>ar_mem := m\<rparr>)"
    "view m (ar_base a) = removed (vw a) (ar_base a) xs x ys k" "keeps B (ar_base a) (ar_mem a) m"
    using list_remove_does [OF bd_shaped [OF h] x k(2) n] by (auto simp: does_def)
  have "bd_heap (a\<lparr>ar_mem := m\<rparr>) M (B(x \<mapsto> (k, Limbo)))"
    using d tiled_status [OF d(8) x, of Limbo] headed_removed [OF d(9)] listed_removed [OF d(10) k(2) x] zs xy
    by (simp add: bd_heap_def m(2) del: power_Suc) (simp add: removed_def)
  then show ?thesis using m by blast
qed

end
