(* ===== verification/Buddy_Props.thy ===== *)
theory Buddy_Props
  imports Buddy_Heap
begin

unbundle bit_operations_syntax

text \<open>
  Buddy meets the contract of a strategy: splitting, joining, allocation and release keep the
  relation \<open>bd_heap\<close> between the bytes and the map of blocks, and the interpretation discharges the
  laws of \<open>alloc_strategy\<close>. An allocation fails only when no free block is large enough
  (\<open>buddy_alloc_total\<close>), and the seeded arena is such a heap (\<open>buddy_init_ok\<close>).
\<close>

section \<open>Blocks in use and in limbo\<close>

definition uses :: "blocks \<Rightarrow> nat \<rightharpoonup> nat" where
  "uses B = (\<lambda>x. case B x of Some (k, Used) \<Rightarrow> Some k | _ \<Rightarrow> None)"

definition limbo :: "blocks \<Rightarrow> nat set" where
  "limbo B = {x. \<exists>k. B x = Some (k, Limbo)}"

lemma uses_Some: "uses B x = Some k \<longleftrightarrow> B x = Some (k, Used)"
  by (auto simp: uses_def split: option.splits status.splits)

lemma uses_upd [simp]: "uses (B(x \<mapsto> (k, Used))) = (uses B)(x \<mapsto> k)"
  "uses (B(x \<mapsto> (k, Free))) = (uses B)(x := None)" "uses (B(x \<mapsto> (k, Limbo))) = (uses B)(x := None)"
  "uses (B(x := None)) = (uses B)(x := None)"
  by (auto simp: uses_def)

lemma uses_None: "B x = Some (k, s) \<Longrightarrow> s \<noteq> Used \<Longrightarrow> uses B x = None" "B x = None \<Longrightarrow> uses B x = None"
  by (cases s) (auto simp: uses_def)

lemma limbo_upd [simp]: "limbo (B(x \<mapsto> (k, Used))) = limbo B - {x}"
  "limbo (B(x \<mapsto> (k, Free))) = limbo B - {x}" "limbo (B(x \<mapsto> (k, Limbo))) = insert x (limbo B)"
  "limbo (B(x := None)) = limbo B - {x}"
  by (auto simp: limbo_def split: if_splits)

lemma keeps_uses: "keeps B b m m' \<Longrightarrow> uses B' = uses B \<Longrightarrow> keeps B' b m m'"
  by (simp add: keeps_def flip: uses_Some)

lemma bd_relabel:
  assumes h: "bd_heap a M B" and t: "tiled B' (ar_size a)"
    and "\<And>y k. B' y = Some (k, Used) \<Longrightarrow> B y = Some (k, Used)"
    and "\<And>y k. B' y = Some (k, Free) \<longleftrightarrow> B y = Some (k, Free)"
  shows "bd_heap a M B'"
proof -
  note d = bd_heapD [OF h]
  have "headed (vw a) B'"
    unfolding headed_def
  proof (intro allI impI)
    fix x k s assume x: "B' x = Some (k, s)" "s \<noteq> Limbo"
    then have "B x = Some (k, s)" using assms(3,4) by (cases s) auto
    then show "v_magic (vw a) x = BUDDY_MAGIC \<and> v_order (vw a) x = k \<and> v_use (vw a) x = (if s = Used then 1 else 0)"
      using d(9) x(2) unfolding headed_def by blast
  qed
  moreover have "listed (vw a) (ar_base a) B'" using d(10) assms(4) by (simp add: listed_def)
  ultimately show ?thesis using d t unfolding bd_heap_def by blast
qed

lemma bd_split:
  assumes h: "bd_heap a M B" and x: "B x = Some (Suc k, Limbo)" and k: "5 \<le> k"
  shows "bd_heap a M (B(x \<mapsto> (k, Limbo), x + 2 ^ k \<mapsto> (k, Limbo)))" "B (x + 2 ^ k) = None"
proof -
  have t: "tiling (orders B) (ar_size a)" using bd_heapD(8) [OF h] by (simp add: tiled_def)
  have o: "orders B x = Some (Suc k)" by (rule orders_Some) (rule x)
  show n: "B (x + 2 ^ k) = None"
  proof (cases "B (x + 2 ^ k)")
    case (Some js)
    then obtain j s where "B (x + 2 ^ k) = Some (j, s)" by (cases js) auto
    moreover have "(0 :: nat) < 2 ^ k" "(0 :: nat) < 2 ^ j" by simp_all
    ultimately show ?thesis using tiled_apart [OF bd_heapD(8) [OF h] x, of "x + 2 ^ k" j s] by simp
  qed simp
  show "bd_heap a M (B(x \<mapsto> (k, Limbo), x + 2 ^ k \<mapsto> (k, Limbo)))"
    by (rule bd_relabel [OF h]) (use tiling_split [OF t o k] n x in \<open>auto simp: tiled_def split: if_splits\<close>)
qed

lemma bd_join:
  assumes h: "bd_heap a M B" and x: "B x = Some (k, Limbo)" "B y = Some (k, Limbo)" "y = x XOR 2 ^ k"
  shows "bd_heap a M (B(x := None, y := None, min x y \<mapsto> (Suc k, Limbo)))"
proof (rule bd_relabel [OF h])
  have t: "tiling (orders B) (ar_size a)" using bd_heapD(8) [OF h] by (simp add: tiled_def)
  have o: "orders B x = Some k" "orders B y = Some k" by (rule orders_Some, rule x)+
  show "tiled (B(x := None, y := None, min x y \<mapsto> (Suc k, Limbo))) (ar_size a)"
    using tiling_join [OF t o x(3)] by (simp add: tiled_def)
qed (use x in \<open>auto simp: min_def split: if_splits\<close>)

section \<open>Allocation\<close>

lemma order_loop_ok:
  assumes "i \<le> 63" "n \<le> 2 ^ 63"
  shows "\<exists>r. order_loop n i = Some r \<and> i \<le> r \<and> r \<le> 63 \<and> n \<le> 2 ^ r \<and> (\<forall>j. i \<le> j \<longrightarrow> j < r \<longrightarrow> 2 ^ j < n)"
  using assms(1)
proof (induction "63 - i" arbitrary: i rule: less_induct)
  case less
  have p: "(2 :: nat) ^ i mod 2 ^ 64 = 2 ^ i"
    using less.prems power_strict_increasing [of i 64 "2 :: nat"] by simp
  show ?case
  proof (cases "2 ^ i < n")
    case True
    then have "i \<noteq> 63" using assms(2) by auto
    then have lt: "63 - (i + 1) < 63 - i" "i + 1 \<le> 63" using less.prems by simp_all
    obtain r where r: "order_loop n (i + 1) = Some r" "i + 1 \<le> r" "r \<le> 63" "n \<le> 2 ^ r"
      "\<forall>j. i + 1 \<le> j \<longrightarrow> j < r \<longrightarrow> 2 ^ j < n" using less.hyps [OF lt] by auto
    have "2 ^ j < n" if "i \<le> j" "j < r" for j using r(5) True that by (cases "j = i") auto
    then show ?thesis using True p r by (intro exI [of _ r]) (simp add: order_loop.simps [of n i])
  next
    case False
    then show ?thesis using p less.prems by (intro exI [of _ i]) (simp add: order_loop.simps [of n i])
  qed
qed

lemma order_of_ok:
  assumes "n \<le> 2 ^ 63"
  shows "\<exists>r. order_of n = Some r \<and> 5 \<le> r \<and> r \<le> 63 \<and> n \<le> 2 ^ r \<and> (\<forall>j. 5 \<le> j \<longrightarrow> j < r \<longrightarrow> 2 ^ j < n)"
  using order_loop_ok [of 5 n] assms by (simp add: order_of_def BUDDY_MIN_ORDER_def)

lemma find_order_ok:
  assumes h: "bd_heap a M B"
  shows "k \<le> Suc M \<Longrightarrow> \<exists>j. find_order a k = Some j \<and> k \<le> j \<and> j \<le> Suc M
     \<and> (j \<le> M \<longrightarrow> (\<exists>x. B x = Some (j, Free) \<and> v_list (vw a) j = node (ar_base a) x))
     \<and> (\<forall>i x. k \<le> i \<longrightarrow> i < j \<longrightarrow> B x \<noteq> Some (i, Free))"
proof (induction "Suc M - k" arbitrary: k rule: less_induct)
  case less
  note d = bd_heapD [OF h]
  note r = state_reads [OF d(1,11)]
  show ?case
  proof (cases "k \<le> M")
    case False
    then show ?thesis using less.prems r(2) d(6) by (intro exI [of _ k]) (simp add: find_order.simps [of a k] r(1))
  next
    case True
    then have k: "k < 48" using d(4) by simp
    obtain xs where xs: "set xs = {x. B x = Some (k, Free)}" "v_list (vw a) k = link (ar_base a) xs 0"
      using listedE [OF d(10) k] by metis
    show ?thesis
    proof (cases xs)
      case Nil
      then have none: "B x \<noteq> Some (k, Free)" for x using xs(1) by auto
      have lt: "Suc M - (k + 1) < Suc M - k" "k + 1 \<le> Suc M" using True by simp_all
      obtain j where j: "find_order a (k + 1) = Some j" "k + 1 \<le> j" "j \<le> Suc M"
        "j \<le> M \<longrightarrow> (\<exists>x. B x = Some (j, Free) \<and> v_list (vw a) j = node (ar_base a) x)"
        "\<forall>i x. k + 1 \<le> i \<longrightarrow> i < j \<longrightarrow> B x \<noteq> Some (i, Free)"
        using less.hyps [OF lt] by auto
      have "find_order a k = Some j" using j(1) True k Nil xs(2) r d(6) by (simp add: find_order.simps [of a k] f_list_eq)
      moreover have "B x \<noteq> Some (i, Free)" if "k \<le> i" "i < j" for i x
        using j(5) none [of x] that by (cases "i = k") auto
      ultimately show ?thesis using j(2-4) by (intro exI [of _ j]) auto
    next
      case (Cons x ys)
      then have "find_order a k = Some k" using True k xs(2) r d(6)
        by (simp add: find_order.simps [of a k] f_list_eq node_def)
      moreover have "B x = Some (k, Free)" using xs(1) Cons by auto
      ultimately show ?thesis using True xs(2) Cons by auto
    qed
  qed
qed

lemma split_loop_ok:
  assumes "bd_heap a M B" "B x = Some (k, Limbo)" "want \<le> k" "5 \<le> want"
  shows "\<exists>m B'. split_loop a x want k = Some (a\<lparr>ar_mem := m\<rparr>) \<and> bd_heap (a\<lparr>ar_mem := m\<rparr>) M B'
    \<and> B' x = Some (want, Limbo) \<and> uses B' = uses B \<and> limbo B' = limbo B \<and> keeps B (ar_base a) (ar_mem a) m"
  using assms
proof (induction k arbitrary: a B)
  case (Suc k)
  show ?case
  proof (cases "want = Suc k")
    case True
    then show ?thesis using Suc.prems by (intro exI [of _ "ar_mem a"] exI [of _ B]) (simp add: split_loop.simps [of _ _ _ "Suc k"])
  next
    case False
    then have w: "want \<le> k" "5 \<le> k" using Suc.prems(3,4) by simp_all
    let ?B = "B(x \<mapsto> (k, Limbo), x + 2 ^ k \<mapsto> (k, Limbo))"
    note s = bd_split [OF Suc.prems(1,2) w(2)]
    obtain m where m: "list_push a (x + 2 ^ k) k = Some (a\<lparr>ar_mem := m\<rparr>)"
      "bd_heap (a\<lparr>ar_mem := m\<rparr>) M (?B(x + 2 ^ k \<mapsto> (k, Free)))" "keeps ?B (ar_base a) (ar_mem a) m"
      using list_push_ok [OF s(1), of "x + 2 ^ k" k] by auto
    define C where "C = ?B(x + 2 ^ k \<mapsto> (k, Free))"
    have u: "uses C = uses B" "uses ?B = uses B" "limbo C = limbo B" "C x = Some (k, Limbo)"
      using s(2) Suc.prems(2) by (auto simp: C_def uses_def limbo_def)
    obtain m' B' where r: "split_loop (a\<lparr>ar_mem := m\<rparr>) x want k = Some (a\<lparr>ar_mem := m'\<rparr>)"
      "bd_heap (a\<lparr>ar_mem := m'\<rparr>) M B'" "B' x = Some (want, Limbo)" "uses B' = uses B" "limbo B' = limbo B"
      "keeps C (ar_base a) m m'"
      using Suc.IH [OF m(2) [folded C_def] u(4) w(1) Suc.prems(4)] u by auto
    have "keeps B (ar_base a) (ar_mem a) m'"
      using keeps_trans keeps_uses [OF m(3), of B] keeps_uses [OF r(6), of B] u by simp
    then show ?thesis using m(1) w r
      by (intro exI [of _ m'] exI [of _ B']) (simp add: split_loop.simps [of _ _ _ "Suc k"])
  qed
qed (simp add: split_loop.simps)

lemma headed_set:
  "headed V B \<Longrightarrow> s \<noteq> Limbo \<Longrightarrow> headed (V\<lparr>v_magic := (v_magic V)(x := BUDDY_MAGIC),
     v_order := (v_order V)(x := k), v_use := (v_use V)(x := if s = Used then 1 else 0)\<rparr>) (B(x \<mapsto> (k, s)))"
  by (auto simp: headed_def)

text \<open>The end of an allocation: the header of the block and the counters.\<close>

lemma use_block_does:
  assumes h: "bd_heap a M B" and x: "B x = Some (k, Limbo)"
  shows "does (do { a \<leftarrow> set_header a x k 1; a \<leftarrow> add_to a (f_used_bytes a) n; add_to a (f_live_blocks a) j }) a
      ((vw a)\<lparr>v_magic := (v_magic (vw a))(x := BUDDY_MAGIC), v_order := (v_order (vw a))(x := k),
        v_use := (v_use (vw a))(x := 1)\<rparr>) B" (is "does _ _ ?V _")
proof -
  have s: "stage a B (vw a) a" using bd_shaped [OF h] by (simp add: stage_def)
  have "does (set_header a x k 1) a ?V B"
    by (rule does_set_header [OF bd_shaped [OF h] x]) (use bd_order [OF h x] in simp_all)
  then show ?thesis by (rule does_step [OF s]) (rule stage_counters)
qed

lemma use_block_heap:
  assumes h: "bd_heap a M B" and x: "B x = Some (k, Limbo)"
    and m: "view m (ar_base a) = (vw a)\<lparr>v_magic := (v_magic (vw a))(x := BUDDY_MAGIC), v_order := (v_order (vw a))(x := k),
        v_use := (v_use (vw a))(x := 1)\<rparr>"
  shows "bd_heap (a\<lparr>ar_mem := m\<rparr>) M (B(x \<mapsto> (k, Used)))"
proof -
  note d = bd_heapD [OF h]
  have "headed (view m (ar_base a)) (B(x \<mapsto> (k, Used)))"
    using headed_set [OF d(9), of Used x k] by (simp add: m)
  moreover have "listed (view m (ar_base a)) (ar_base a) (B(x \<mapsto> (k, Used)))"
  proof -
    have "{y. (B(x \<mapsto> (k, Used))) y = Some (j, Free)} = {y. B y = Some (j, Free)}" for j using x by auto
    then show ?thesis using d(10) by (simp add: listed_def flist_def m)
  qed
  ultimately show ?thesis using d tiled_status [OF d(8) x, of Used]
    by (simp add: bd_heap_def del: power_Suc) (simp add: m)
qed

lemma use_block_ok:
  assumes h: "bd_heap a M B" and x: "B x = Some (k, Limbo)"
  shows "\<exists>m. do { a \<leftarrow> set_header a x k 1; a \<leftarrow> add_to a (f_used_bytes a) n; add_to a (f_live_blocks a) j }
      = Some (a\<lparr>ar_mem := m\<rparr>) \<and> bd_heap (a\<lparr>ar_mem := m\<rparr>) M (B(x \<mapsto> (k, Used))) \<and> keeps B (ar_base a) (ar_mem a) m"
  using use_block_does [OF h x] use_block_heap [OF h x] unfolding does_def by blast

lemma node_off_node: "node_off a (node (ar_base a) x) = x"
  by (simp add: node_off_def node_def SIZEOF_HEADER_def)

lemma buddy_alloc_some:
  assumes h: "bd_heap a M B" and n: "n \<le> ar_size a"
    and w: "order_of (n + 16) = Some want" "want \<le> M"
    and k: "find_order a want = Some k" "want \<le> k" "k \<le> M" and w5: "5 \<le> want"
    and x: "B x = Some (k, Free)" "v_list (vw a) k = node (ar_base a) x"
  shows "\<exists>m B'. buddy_alloc a n = Some (Some (ar_base a + x + 16), a\<lparr>ar_mem := m\<rparr>)
    \<and> bd_heap (a\<lparr>ar_mem := m\<rparr>) M B' \<and> limbo B' = limbo B \<and> uses B' = (uses B)(x \<mapsto> want)
    \<and> keeps B (ar_base a) (ar_mem a) m"
proof -
  note d = bd_heapD [OF h] and r = state_reads [OF bd_heapD(1,11) [OF h]]
  obtain m1 where m1: "list_remove a x k = Some (a\<lparr>ar_mem := m1\<rparr>)"
    "bd_heap (a\<lparr>ar_mem := m1\<rparr>) M (B(x \<mapsto> (k, Limbo)))" "keeps B (ar_base a) (ar_mem a) m1"
    using list_remove_ok [OF h x(1)] by blast
  have u1: "uses (B(x \<mapsto> (k, Limbo))) = uses B" using uses_None(1) [of B x k Free] x(1) by auto
  obtain m2 C where m2: "split_loop (a\<lparr>ar_mem := m1\<rparr>) x want k = Some (a\<lparr>ar_mem := m2\<rparr>)"
    "bd_heap (a\<lparr>ar_mem := m2\<rparr>) M C" "C x = Some (want, Limbo)" "uses C = uses B"
    "limbo C = insert x (limbo B)" "keeps (B(x \<mapsto> (k, Limbo))) (ar_base a) m1 m2"
    using split_loop_ok [OF m1(2) _ k(2) w5, of x] u1 by auto
  let ?a2 = "a\<lparr>ar_mem := m2\<rparr>"
  obtain m3 where m3: "do { a \<leftarrow> set_header ?a2 x want 1; a \<leftarrow> add_to a (f_used_bytes a) (2 ^ want);
      add_to a (f_live_blocks a) 1 } = Some (a\<lparr>ar_mem := m3\<rparr>)"
    "bd_heap (a\<lparr>ar_mem := m3\<rparr>) M (C(x \<mapsto> (want, Used)))" "keeps C (ar_base a) m2 m3"
    using use_block_ok [OF m2(2,3), of "2 ^ want" 1] by auto
  have "keeps B (ar_base a) (ar_mem a) m3"
    using m1(3) keeps_uses [OF m2(6), of B] keeps_uses [OF m3(3), of B] u1 m2(4) keeps_trans by metis
  moreover have "buddy_alloc a n = Some (Some (ar_base a + x + 16), a\<lparr>ar_mem := m3\<rparr>)"
  proof -
    have f: "f_list a k = Some (ar_state a + 48 + 8 * k)" "ld a (ar_state a + 48 + 8 * k) 8 = Some (node (ar_base a) x)"
      using k(3) d(4) r(3) x(2) by (simp_all add: f_list_eq)
    have tail: "do { a \<leftarrow> set_header ?a2 x want 1; a \<leftarrow> add_to a (f_used_bytes a) (2 ^ want);
        a \<leftarrow> add_to a (f_live_blocks a) 1; Some (Some (ar_base a + x + 16), a) }
      = Some (Some (ar_base a + x + 16), a\<lparr>ar_mem := m3\<rparr>)"
      using m3(1) by (auto simp: Option.bind_eq_Some_conv)
    show ?thesis
      unfolding buddy_alloc_def SIZEOF_HEADER_def w(1) r(1) d(6) k(1) bind.bind_lunit f Let_def node_off_node m1(1) m2(1) tail
      using n w(2) k(3) by simp
  qed
  moreover have "limbo (C(x \<mapsto> (want, Used))) = limbo B"
    using m2(5) x(1) by (auto simp: limbo_def)
  moreover have "uses (C(x \<mapsto> (want, Used))) = (uses B)(x \<mapsto> want)" using m2(4) by simp
  ultimately show ?thesis using m3(2) by blast
qed

lemma buddy_alloc_none:
  assumes h: "bd_heap a M B"
    and "n > ar_size a \<or> (\<exists>want. order_of (n + 16) = Some want \<and> (want > M \<or> find_order a want = Some (Suc M)))"
  shows "buddy_alloc a n = Some (None, a)"
proof -
  note d = bd_heapD [OF h] and r = state_reads [OF bd_heapD(1,11) [OF h]]
  show ?thesis using assms(2) unfolding buddy_alloc_def SIZEOF_HEADER_def by (auto simp: r(1) d(6))
qed

section \<open>Release\<close>

text \<open>Joining: the block in limbo grows while its buddy is free.\<close>

lemma merge_loop_ok:
  assumes "bd_heap a M B" "B x = Some (k, Limbo)" "limbo B = {x}"
  shows "\<exists>m y j B'. merge_loop a x k = Some (a\<lparr>ar_mem := m\<rparr>, y, j) \<and> bd_heap (a\<lparr>ar_mem := m\<rparr>) M B'
    \<and> B' y = Some (j, Limbo) \<and> limbo B' = {y} \<and> uses B' = uses B \<and> keeps B (ar_base a) (ar_mem a) m"
  using assms
proof (induction "M - k" arbitrary: a B x k rule: less_induct)
  case less
  note h = less.prems(1) and x = less.prems(2,3)
  note d = bd_heapD [OF h] and r = state_reads [OF bd_heapD(1,11) [OF h]]
  let ?y = "x XOR 2 ^ k"
  let ?stop = "\<exists>m y j B'. merge_loop a x k = Some (a\<lparr>ar_mem := m\<rparr>, y, j) \<and> bd_heap (a\<lparr>ar_mem := m\<rparr>) M B'
    \<and> B' y = Some (j, Limbo) \<and> limbo B' = {y} \<and> uses B' = uses B \<and> keeps B (ar_base a) (ar_mem a) m"
  have stop: ?stop if "merge_loop a x k = Some (a, x, k)"
    using that h x by (intro exI [of _ "ar_mem a"] exI [of _ x] exI [of _ k] exI [of _ B]) simp
  show ?case
  proof (cases "k < M \<and> 512 \<le> ?y")
    case False
    then show ?thesis by (intro stop) (auto simp: merge_loop.simps [of a x k] r(1,2) d(6,7))
  next
    case True
    have t: "tiling (orders B) (2 ^ Suc M)" using d(2,8) by (simp add: tiled_def)
    have ox: "orders B x = Some k" by (rule orders_Some) (rule x(1))
    obtain j where "orders B ?y = Some j" "j \<le> k"
      using buddy_is_block [OF t ox _ refl] True by auto
    then obtain s where y: "B ?y = Some (j, s)" by (auto simp: orders_iff)
    have ne: "?y \<noteq> x" using buddy_spec(1) tiledD(2) [OF d(8) x(1)] by blast
    then have "s \<noteq> Limbo" using y x(2) by (auto simp: limbo_def)
    then have v: "v_magic (vw a) ?y = BUDDY_MAGIC" "v_order (vw a) ?y = j" "v_use (vw a) ?y = (if s = Used then 1 else 0)"
      using d(9) y unfolding headed_def by blast+
    have b: "h_magic a ?y = Some BUDDY_MAGIC" "h_in_use a ?y = Some (if s = Used then 1 else 0)" "h_order a ?y = Some j"
      using field_reads [OF d(8) y] v by simp_all
    show ?thesis
    proof (cases "s = Free \<and> j = k")
      case False
      then have "merge_loop a x k = Some (a, x, k)"
        using True b \<open>s \<noteq> Limbo\<close> by (cases s) (simp_all add: merge_loop.simps [of a x k] r(1,2) d(6,7) Let_def)
      then show ?thesis by (rule stop)
    next
      case free: True
      obtain m where m: "list_remove a ?y k = Some (a\<lparr>ar_mem := m\<rparr>)"
        "bd_heap (a\<lparr>ar_mem := m\<rparr>) M (B(?y \<mapsto> (k, Limbo)))" "keeps B (ar_base a) (ar_mem a) m"
        using list_remove_ok [OF h, of ?y k] y free by auto
      let ?l = "min x ?y"
      define C where "C = B(x := None, ?y := None, ?l \<mapsto> (Suc k, Limbo))"
      have "bd_heap (a\<lparr>ar_mem := m\<rparr>) M C"
        using bd_join [OF m(2), of x k ?y] x(1) ne by (simp add: C_def fun_upd_twist [OF ne])
      moreover have c: "C ?l = Some (Suc k, Limbo)" "limbo C = {?l}" "uses C = uses B"
        using x y free by (auto simp: C_def uses_None)
      moreover have lt: "M - Suc k < M - k" using True by (simp add: diff_less_mono2)
      ultimately obtain m' z i B' where r': "merge_loop (a\<lparr>ar_mem := m\<rparr>) ?l (Suc k) = Some (a\<lparr>ar_mem := m'\<rparr>, z, i)"
        "bd_heap (a\<lparr>ar_mem := m'\<rparr>) M B'" "B' z = Some (i, Limbo)" "limbo B' = {z}" "uses B' = uses B"
        "keeps C (ar_base a) m m'"
        using less.hyps [of "Suc k" "a\<lparr>ar_mem := m\<rparr>" C ?l] by auto
      have "merge_loop a x k = Some (a\<lparr>ar_mem := m'\<rparr>, z, i)"
        using True b free m(1) r'(1) by (simp add: merge_loop.simps [of a x k] r(1,2) d(6,7) Let_def min_def split: if_splits)
      then show ?thesis using r' keeps_trans [OF m(3)] keeps_uses [OF r'(6), of B] c(3) by auto
    qed
  qed
qed

lemma bd_store_limbo:
  assumes h: "bd_heap a M B" and x: "B x = Some (k, Limbo)"
    and m: "view m (ar_base a) = (vw a)\<lparr>v_use := (v_use (vw a))(x := v)\<rparr>"
  shows "bd_heap (a\<lparr>ar_mem := m\<rparr>) M B"
proof -
  note d = bd_heapD [OF h]
  have "headed (view m (ar_base a)) B" using d(9) x by (auto simp: headed_def m)
  moreover have "listed (view m (ar_base a)) (ar_base a) B" using d(10) by (simp add: listed_def flist_def m)
  ultimately show ?thesis using d by (simp add: bd_heap_def del: power_Suc) (simp add: m)
qed

lemma buddy_free_ok:
  assumes h: "bd_heap a M B" and x: "B x = Some (k, Used)" and l: "limbo B = {}"
  shows "\<exists>m B'. buddy_free_block a (ar_base a + x + 16) = Some (a\<lparr>ar_mem := m\<rparr>)
    \<and> bd_heap (a\<lparr>ar_mem := m\<rparr>) M B' \<and> limbo B' = {} \<and> uses B' = (uses B)(x := None)
    \<and> keeps (B(x \<mapsto> (k, Limbo))) (ar_base a) (ar_mem a) m"
proof -
  define C where "C = B(x \<mapsto> (k, Limbo))"
  note d = bd_heapD [OF h]
  have hC: "bd_heap a M C"
    by (rule bd_relabel [OF h]) (use tiled_status [OF d(8) x, of Limbo] x in \<open>auto simp: C_def split: if_splits\<close>)
  have c: "C x = Some (k, Limbo)" "limbo C = {x}" "uses C = (uses B)(x := None)" using l by (simp_all add: C_def)
  have v: "v_magic (vw a) x = BUDDY_MAGIC" "v_order (vw a) x = k" "v_use (vw a) x = 1"
    using d(9) x unfolding headed_def by auto
  note f = field_reads [OF d(8) x, unfolded v]
  obtain m1 where m1: "st a (header_at a x + 12) 4 0 = Some (a\<lparr>ar_mem := m1\<rparr>)"
    "view m1 (ar_base a) = (vw a)\<lparr>v_use := (v_use (vw a))(x := 0)\<rparr>" "keeps C (ar_base a) (ar_mem a) m1"
    using does_store(3) [OF bd_shaped [OF hC] c(1), of 0] by (auto simp: does_def)
  let ?a1 = "a\<lparr>ar_mem := m1\<rparr>"
  have h1: "bd_heap ?a1 M C" by (rule bd_store_limbo [OF hC c(1) m1(2)])
  have "stage ?a1 C (vw ?a1) ?a1" using bd_shaped [OF h1] by (simp add: stage_def)
  then obtain m2 where m2: "do { a \<leftarrow> sub_from ?a1 (f_used_bytes ?a1) (2 ^ k); sub_from a (f_live_blocks a) 1 } = Some (a\<lparr>ar_mem := m2\<rparr>)"
    "view m2 (ar_base a) = view m1 (ar_base a)" "keeps C (ar_base a) m1 m2"
    using stage_counters(4) [of ?a1 C "vw ?a1" ?a1 "2 ^ k" 1] by (auto simp: does_def)
  have h2: "bd_heap (a\<lparr>ar_mem := m2\<rparr>) M C"
    by (rule bd_store_limbo [OF hC c(1), of _ 0]) (simp add: m1(2) m2(2))
  obtain m3 y j D where m3: "merge_loop (a\<lparr>ar_mem := m2\<rparr>) x k = Some (a\<lparr>ar_mem := m3\<rparr>, y, j)"
    "bd_heap (a\<lparr>ar_mem := m3\<rparr>) M D" "D y = Some (j, Limbo)" "limbo D = {y}" "uses D = uses C" "keeps C (ar_base a) m2 m3"
    using merge_loop_ok [OF h2 c(1,2)] by auto
  obtain m4 where m4: "list_push (a\<lparr>ar_mem := m3\<rparr>) y j = Some (a\<lparr>ar_mem := m4\<rparr>)"
    "bd_heap (a\<lparr>ar_mem := m4\<rparr>) M (D(y \<mapsto> (j, Free)))" "keeps D (ar_base a) m3 m4"
    using list_push_ok [OF m3(2,3)] by auto
  have "keeps C (ar_base a) (ar_mem a) m4"
    using m1(3) m2(3) m3(6) keeps_uses [OF m4(3), of C] m3(5) keeps_trans by metis
  moreover have "buddy_free_block a (ar_base a + x + 16) = Some (a\<lparr>ar_mem := m4\<rparr>)"
  proof -
    have o: "ar_base a + x + 16 - ar_base a - SIZEOF_HEADER = x" by (simp add: SIZEOF_HEADER_def)
    obtain a' where "sub_from ?a1 (f_used_bytes ?a1) (2 ^ k) = Some a'" "sub_from a' (f_live_blocks a') 1 = Some (a\<lparr>ar_mem := m2\<rparr>)"
      using m2(1) by (auto simp: Option.bind_eq_Some_conv)
    then show ?thesis
      unfolding buddy_free_block_def o Let_def f bind.bind_lunit using m1(1) m3(1) m4(1) by simp
  qed
  moreover have "limbo (D(y \<mapsto> (j, Free))) = {}" "uses (D(y \<mapsto> (j, Free))) = (uses B)(x := None)"
    using m3(3,4,5) c(3) uses_None(1) [of D y j Limbo] by (simp_all add: fun_upd_idem)
  ultimately show ?thesis using m4(2) unfolding C_def by blast
qed

lemma buddy_usable_ok:
  assumes h: "bd_heap a M B" and x: "B x = Some (k, Used)"
  shows "buddy_usable_size a (ar_base a + x + 16) = Some (2 ^ k - 16)"
proof -
  note d = bd_heapD [OF h]
  have "h_order a x = Some k" using field_reads(2) [OF d(8) x] d(9) x unfolding headed_def by simp
  then show ?thesis by (simp add: buddy_usable_size_def SIZEOF_HEADER_def h_order_def header_at_def)
qed

section \<open>The contract\<close>

text \<open>The live blocks of the strategy: the pointer is 16 bytes behind the header.\<close>

definition bd_live :: "nat \<Rightarrow> blocks \<Rightarrow> nat \<rightharpoonup> nat" where
  "bd_live b B = (\<lambda>p. if b + 16 \<le> p then map_option (\<lambda>k. 2 ^ k - 16) (uses B (p - b - 16)) else None)"

definition buddy_rep :: "Arena \<Rightarrow> (nat \<rightharpoonup> nat) \<Rightarrow> bool" where
  "buddy_rep a L \<longleftrightarrow> (\<exists>M B. bd_heap a M B \<and> limbo B = {} \<and> L = bd_live (ar_base a) B \<and> ar_base a mod 16 = 0)"

lemma bd_live_Some: "bd_live b B p = Some n \<longleftrightarrow> (\<exists>x k. p = b + x + 16 \<and> B x = Some (k, Used) \<and> n = 2 ^ k - 16)"
proof
  assume "bd_live b B p = Some n"
  then show "\<exists>x k. p = b + x + 16 \<and> B x = Some (k, Used) \<and> n = 2 ^ k - 16"
    by - (rule exI [of _ "p - b - 16"], auto simp: bd_live_def uses_Some split: if_splits)
qed (auto simp: bd_live_def uses_Some)

lemma bd_live_upd:
  "uses B' = (uses B)(x \<mapsto> k) \<Longrightarrow> bd_live b B' = (bd_live b B)(b + x + 16 \<mapsto> 2 ^ k - 16)"
  "uses B' = (uses B)(x := None) \<Longrightarrow> bd_live b B' = (bd_live b B)(b + x + 16 := None)"
  by (rule ext, auto simp: bd_live_def)+

lemma keeps_unchanged: "keeps B b m m' \<Longrightarrow> unchanged (bd_live b B) m m'"
  unfolding unchanged_def keeps_def bd_live_Some by fastforce

lemma buddy_repI:
  "bd_heap a M B \<Longrightarrow> limbo B = {} \<Longrightarrow> ar_base a mod 16 = 0 \<Longrightarrow> bd_live (ar_base a) B = L \<Longrightarrow> buddy_rep a L"
  unfolding buddy_rep_def by metis

lemma buddy_alloc_total:
  assumes h: "bd_heap a M B" "limbo B = {}"
  shows "buddy_alloc a n = Some (None, a) \<and> (\<forall>x k. B x = Some (k, Free) \<longrightarrow> 2 ^ k < n + 16)
    \<or> (\<exists>x k m B'. buddy_alloc a n = Some (Some (ar_base a + x + 16), a\<lparr>ar_mem := m\<rparr>)
        \<and> bd_heap (a\<lparr>ar_mem := m\<rparr>) M B' \<and> limbo B' = {} \<and> (\<exists>j\<ge>k. B x = Some (j, Free)) \<and> uses B' = (uses B)(x \<mapsto> k)
        \<and> n + 16 \<le> 2 ^ k \<and> 2 ^ (k - 1) < max 32 (n + 16) \<and> keeps B (ar_base a) (ar_mem a) m)"
proof -
  note d = bd_heapD [OF h(1)]
  consider (big) "n > ar_size a" | w where "order_of (n + 16) = Some w" "5 \<le> w" "n + 16 \<le> 2 ^ w"
      "\<forall>j. 5 \<le> j \<longrightarrow> j < w \<longrightarrow> 2 ^ j < n + 16" "n \<le> ar_size a"
  proof (cases "n > ar_size a")
    case False
    have "(2 :: nat) ^ Suc M \<le> 2 ^ 47" using d(4) by (intro power_increasing) simp_all
    then have "n + 16 \<le> 2 ^ 63" using False d(2) by simp
    then show ?thesis using order_of_ok [of "n + 16"] False that(2) by auto
  qed (use that(1) in simp)
  then show ?thesis
  proof cases
    case big
    have "2 ^ k < n + 16" if "B x = Some (k, s)" for x k s using tiledD(4) [OF d(8) that] big by simp
    then show ?thesis using buddy_alloc_none [OF h(1)] big by blast
  next
    case (2 w)
    note f = find_order_ok [OF h(1), of w]
    show ?thesis
    proof (cases "w > M \<or> find_order a w = Some (Suc M)")
      case True
      have "2 ^ k < n + 16" if x: "B x = Some (k, Free)" for x k
      proof -
        have k: "k \<le> M" "5 \<le> k" using bd_order [OF h(1) x] by simp_all
        then have "k < w" using True f x by (cases "w > M") (auto simp: not_le [symmetric])
        then show ?thesis using 2(4) k(2) by simp
      qed
      then show ?thesis using buddy_alloc_none [OF h(1)] 2(1) True by blast
    next
      case False
      then obtain k x where k: "find_order a w = Some k" "w \<le> k" "k \<le> M" "B x = Some (k, Free)"
        "v_list (vw a) k = node (ar_base a) x" using f by (auto simp: le_Suc_eq)
      have "\<exists>j\<ge>w. B x = Some (j, Free)" using k(2,4) by blast
      moreover have "\<exists>m B'. buddy_alloc a n = Some (Some (ar_base a + x + 16), a\<lparr>ar_mem := m\<rparr>)
          \<and> bd_heap (a\<lparr>ar_mem := m\<rparr>) M B' \<and> limbo B' = limbo B \<and> uses B' = (uses B)(x \<mapsto> w)
          \<and> keeps B (ar_base a) (ar_mem a) m"
        by (rule buddy_alloc_some [OF h(1) 2(5,1) _ k(1-3) 2(2) k(4,5)]) (use k in simp)
      moreover have "2 ^ (w - 1) < max 32 (n + 16)" using 2(2,4) by (cases "w = 5") (auto simp: less_max_iff_disj)
      ultimately show ?thesis using 2(3) h(2) by metis
    qed
  qed
qed

lemma bd_write:
  assumes h: "bd_heap a M B" and x: "B x = Some (k, Used)"
    and m: "\<And>z. z < ar_base a + x + 16 \<or> ar_base a + x + 2 ^ k \<le> z \<Longrightarrow> m z = ar_mem a z"
  shows "bd_heap (a\<lparr>ar_mem := m\<rparr>) M B"
proof -
  let ?b = "ar_base a" and ?V = "view m (ar_base a)"
  note d = bd_heapD [OF h]
  have away: "peek_le m (?b + c) i = peek_le (ar_mem a) (?b + c) i" if "c + i \<le> x + 16 \<or> x + 2 ^ k \<le> c" for c i
    by (rule peek_cong, rule m) (use that in auto)
  have block: "in_block m ?b c i y = in_block (ar_mem a) ?b c i y"
    if y: "B y = Some (j, s)" "c + i \<le> 32" "y = x \<longrightarrow> c + i \<le> 16" for y j s c i
  proof -
    have "y + c + i \<le> x + 16 \<or> x + 2 ^ k \<le> y + c"
      using tiled_apart [OF d(8) y(1) x] tiledD(6) [OF d(8) y(1)] y(2,3) by (cases "y = x") auto
    then show ?thesis using away [of "y + c" i] by (simp add: in_block_def add.assoc)
  qed
  have st: "peek_le m (?b + c) i = peek_le (ar_mem a) (?b + c) i" if "c + i \<le> 512" for c i
    by (rule away) (use that tiledD(3) [OF d(8) x] in auto)
  have f: "v_list ?V = v_list (vw a)" "v_max ?V = v_max (vw a)" "v_region ?V = v_region (vw a)"
    using st [of 8 4] st [of 0 8] st [of "48 + 8 * j" 8 for j] by (auto simp: view_def heads_def fun_eq_iff add.assoc)
  have "headed ?V B" using d(9) block by (simp add: headed_def view_def)
  moreover have "listed ?V ?b B"
    unfolding listed_def flist_def f
  proof (intro allI impI)
    fix j :: nat assume "j < 48"
    then obtain xs where xs: "distinct xs" "set xs = {y. B y = Some (j, Free)}" "v_list (vw a) j = link ?b xs 0"
      "chain (v_next (vw a)) (v_prev (vw a)) ?b 0 xs 0" using listedE [OF d(10)] by metis
    have "chain (v_next ?V) (v_prev ?V) ?b 0 xs 0 = chain (v_next (vw a)) (v_prev (vw a)) ?b 0 xs 0"
    proof (rule chain_frame)
      fix y assume "y \<in> set xs"
      then have "B y = Some (j, Free)" "y \<noteq> x" using xs(2) x by auto
      then show "v_next ?V y = v_next (vw a) y \<and> v_prev ?V y = v_prev (vw a) y" using block by (simp add: view_def)
    qed
    then show "\<exists>xs. distinct xs \<and> set xs = {y. B y = Some (j, Free)} \<and> v_list (vw a) j = link ?b xs 0
        \<and> chain (v_next ?V) (v_prev ?V) ?b 0 xs 0" using xs by blast
  qed
  ultimately show ?thesis using d f by (simp add: bd_heap_def del: power_Suc)
qed

interpretation bd: alloc_strategy buddy_alloc buddy_free_block buddy_usable_size buddy_rep
proof
  fix a L n
  assume "buddy_rep a L"
  then obtain M B where h: "bd_heap a M B" "limbo B = {}" "L = bd_live (ar_base a) B" "ar_base a mod 16 = 0"
    by (auto simp: buddy_rep_def)
  from buddy_alloc_total [OF h(1,2), of n]
  show "\<exists>r m. buddy_alloc a n = Some (r, a\<lparr>ar_mem := m\<rparr>) \<and> (case r of None \<Rightarrow> m = ar_mem a
         | Some p \<Rightarrow> L p = None \<and> unchanged L (ar_mem a) m
             \<and> (\<exists>k\<ge>n. buddy_rep (a\<lparr>ar_mem := m\<rparr>) (L(p \<mapsto> k))))"
  proof (elim disjE exE conjE)
    assume "buddy_alloc a n = Some (None, a)"
    then show ?thesis by (intro exI [of _ None] exI [of _ "ar_mem a"]) simp
  next
    fix x k m B' j
    assume m: "buddy_alloc a n = Some (Some (ar_base a + x + 16), a\<lparr>ar_mem := m\<rparr>)" "bd_heap (a\<lparr>ar_mem := m\<rparr>) M B'"
      "limbo B' = {}" "k \<le> j" "B x = Some (j, Free)" "uses B' = (uses B)(x \<mapsto> k)" "n + 16 \<le> 2 ^ k" "2 ^ (k - 1) < max 32 (n + 16)"
      "keeps B (ar_base a) (ar_mem a) m"
    have "buddy_rep (a\<lparr>ar_mem := m\<rparr>) (L(ar_base a + x + 16 \<mapsto> 2 ^ k - 16))"
      using h(3,4) bd_live_upd(1) [OF m(6), of "ar_base a"] by (intro buddy_repI [OF m(2,3)]) simp_all
    moreover have "L (ar_base a + x + 16) = None" using uses_None(1) [of B x j Free] m(5) by (simp add: h(3) bd_live_def)
    moreover have "unchanged L (ar_mem a) m" using keeps_unchanged [OF m(9)] h(3) by simp
    moreover have "n \<le> 2 ^ k - 16" using m(7) by simp
    ultimately show ?thesis using m(1)
      by (intro exI [of _ "Some (ar_base a + x + 16)"] exI [of _ m]) auto
  qed
next
  fix a L p n
  assume "buddy_rep a L" and p: "L p = Some n"
  then obtain M B where h: "bd_heap a M B" "limbo B = {}" "L = bd_live (ar_base a) B" "ar_base a mod 16 = 0"
    by (auto simp: buddy_rep_def)
  note d = bd_heapD [OF h(1)]
  obtain x k where x: "p = ar_base a + x + 16" "B x = Some (k, Used)" "n = 2 ^ k - 16"
    using p h(3) by (auto simp: bd_live_Some)
  note t = tiledD [OF d(8) x(2)]
  obtain m B' where m: "buddy_free_block a p = Some (a\<lparr>ar_mem := m\<rparr>)" "bd_heap (a\<lparr>ar_mem := m\<rparr>) M B'" "limbo B' = {}"
    "uses B' = (uses B)(x := None)" "keeps (B(x \<mapsto> (k, Limbo))) (ar_base a) (ar_mem a) m"
    using buddy_free_ok [OF h(1) x(2) h(2)] x(1) by auto
  have l: "bd_live (ar_base a) (B(x \<mapsto> (k, Limbo))) = L(p := None)" "bd_live (ar_base a) B' = L(p := None)"
    using bd_live_upd(2) [of _ B x "ar_base a"] m(4) h(3) x(1) by simp_all
  have "buddy_rep (a\<lparr>ar_mem := m\<rparr>) (L(p := None))" by (rule buddy_repI [OF m(2,3)]) (use h(4) l in simp_all)
  then show "\<exists>m. buddy_free_block a p = Some (a\<lparr>ar_mem := m\<rparr>)
      \<and> unchanged (L(p := None)) (ar_mem a) m \<and> buddy_rep (a\<lparr>ar_mem := m\<rparr>) (L(p := None))"
    using m(1) keeps_unchanged [OF m(5)] l by auto
  show "buddy_usable_size a p = Some n" using buddy_usable_ok [OF h(1) x(2)] x by simp
  have "(16 :: nat) dvd 32" by simp
  then have "16 dvd x" using t(5) dvd_trans unfolding blk_def by blast
  then show "in_arena a p n \<and> 0 < p \<and> p mod 16 = 0"
    using t(4,6) h(4) x by (simp add: in_arena_def mod_eq_0_iff_dvd)
  { fix q j assume q: "L q = Some j" "p \<noteq> q"
    obtain y i where y: "q = ar_base a + y + 16" "B y = Some (i, Used)" "j = 2 ^ i - 16"
      using q(1) h(3) by (auto simp: bd_live_Some)
    then have "x \<noteq> y" using q(2) x(1) by auto
    then show "p + n \<le> q \<or> q + j \<le> p" using tiled_apart [OF d(8) x(2) y(2)] x y t(6) tiledD(6) [OF d(8) y(2)] by auto }
  { fix m assume m: "\<And>z. z < p \<or> p + n \<le> z \<Longrightarrow> m z = ar_mem a z"
    have "bd_heap (a\<lparr>ar_mem := m\<rparr>) M B"
      by (rule bd_write [OF h(1) x(2)], rule m) (use x(1,3) t(6) in auto)
    then show "buddy_rep (a\<lparr>ar_mem := m\<rparr>) L" using h(2-4) by (auto intro: buddy_repI) }
next
  fix a L assume "buddy_rep a L"
  then show "ar_base a + ar_size a < 2 ^ 64" by (auto simp: buddy_rep_def bd_heap_def)
qed

section \<open>The first blocks\<close>

text \<open>The state takes the offsets below 512; the rest is seeded with one block for every order from
  9 on. \<open>seeds M i\<close>: the orders below \<open>i\<close> are in the lists.\<close>

definition seeds :: "nat \<Rightarrow> nat \<Rightarrow> blocks" where
  "seeds M i = map_of (map (\<lambda>j. (2 ^ j, (j, if j < i then Free else Limbo))) [9..<Suc M])"

lemma seeds_Some: "seeds M i x = Some (j, s) \<longleftrightarrow> x = 2 ^ j \<and> 9 \<le> j \<and> j \<le> M \<and> s = (if j < i then Free else Limbo)"
proof -
  have "distinct (map fst (map (\<lambda>j. (2 ^ j :: nat, (j, if j < i then Free else Limbo))) [9..<Suc M]))"
    by (simp add: distinct_map inj_on_def)
  then show ?thesis by (auto simp: seeds_def map_of_eq_Some_iff)
qed

lemma seeds_Suc:
  assumes "9 \<le> i" "i \<le> M"
  shows "(seeds M i)(2 ^ i \<mapsto> (i, Free)) = seeds M (Suc i)"
proof
  fix x
  have "((seeds M i)(2 ^ i \<mapsto> (i, Free))) x = Some (j, s) \<longleftrightarrow> seeds M (Suc i) x = Some (j, s)" for j s
    using assms by (auto simp: seeds_Some less_Suc_eq)
  then show "((seeds M i)(2 ^ i \<mapsto> (i, Free))) x = seeds M (Suc i) x"
    by (metis not_Some_eq surj_pair)
qed

lemma seeds_tiling: "tiled (seeds M i) (2 ^ Suc M)"
  unfolding tiled_def
proof (rule tilingI)
  fix x k assume "orders (seeds M i) x = Some k"
  then have x: "x = 2 ^ k" "9 \<le> k" "k \<le> M" by (auto simp: orders_iff seeds_Some)
  have p: "(2 :: nat) ^ 9 \<le> 2 ^ k" "(2 :: nat) ^ k \<le> 2 ^ M" using x by (intro power_increasing; simp)+
  have q: "2 ^ k + 2 ^ k \<le> (2 :: nat) ^ Suc M" unfolding power_Suc using p(2) by linarith
  show "5 \<le> k \<and> 2 ^ k dvd x \<and> 512 \<le> x \<and> x + 2 ^ k \<le> 2 ^ Suc M" using x(2) p(1) q unfolding x(1) by simp
next
  fix x k y j assume "orders (seeds M i) x = Some k" "orders (seeds M i) y = Some j" "x < y"
  then have "x = 2 ^ k" "y = 2 ^ j" "k < j" by (auto simp: orders_iff seeds_Some)
  moreover from this have "(2 :: nat) ^ Suc k \<le> 2 ^ j" by (intro power_increasing) auto
  ultimately show "x + 2 ^ k \<le> y" by simp
next
  fix z :: nat assume z: "512 \<le> z" "z < 2 ^ Suc M"
  obtain n where n: "2 ^ n \<le> z" "z < 2 ^ (n + 1)" using ex_power_ivl1 [of 2 z] z by auto
  have "(2 :: nat) ^ 9 < 2 ^ (n + 1)" "(2 :: nat) ^ n < 2 ^ Suc M" using n z by simp_all
  then have "9 < n + 1" "n < Suc M" by (metis one_less_numeral_iff power_less_imp_less_exp semiring_norm(76))+
  then have "orders (seeds M i) (2 ^ n) = Some n" by (auto simp: orders_iff seeds_Some)
  then show "\<exists>x k. orders (seeds M i) x = Some k \<and> x \<le> z \<and> z < x + 2 ^ k"
    using n by - (rule exI [of _ "2 ^ n"], rule exI [of _ n], simp)
qed

lemma low_bit_power: "k < 64 \<Longrightarrow> low_bit (2 ^ k) = 2 ^ k"
proof -
  assume k: "k < 64"
  obtain j where j: "64 = k + Suc j" using k by (metis add_Suc_right less_imp_Suc_add)
  have p: "(2 :: nat) ^ k < 2 ^ 64" using k by (rule power_strict_increasing) simp
  have "(2 :: nat) ^ 64 = 2 ^ k * 2 ^ Suc j" unfolding j power_add ..
  then have "(2 :: nat) ^ 64 - 2 ^ k = push_bit k (mask (Suc j))"
    unfolding push_bit_eq_mult mask_eq_exp_minus_1 diff_mult_distrib by (simp only: mult_1 mult.commute)
  moreover have "(2 :: nat) ^ k = push_bit k 1" by (simp add: push_bit_eq_mult)
  moreover have "(2 ^ 64 - 2 ^ k) mod 2 ^ 64 = (2 :: nat) ^ 64 - 2 ^ k" by simp
  ultimately have "low_bit (2 ^ k) = push_bit k (1 AND mask (Suc j))"
    unfolding low_bit_def by (simp only: push_bit_and)
  moreover have "1 AND mask (Suc j) = (1 :: nat)" by (simp flip: take_bit_eq_mask)
  ultimately show ?thesis by (simp add: push_bit_eq_mult)
qed

lemma order_of_power: "5 \<le> k \<Longrightarrow> k \<le> 63 \<Longrightarrow> order_of (2 ^ k) = Some k"
proof -
  assume k: "5 \<le> k" "k \<le> 63"
  have "(2 :: nat) ^ k \<le> 2 ^ 63" using k(2) by (intro power_increasing) simp_all
  then obtain r where r: "order_of (2 ^ k) = Some r" "(2 :: nat) ^ k \<le> 2 ^ r" "\<forall>j. 5 \<le> j \<longrightarrow> j < r \<longrightarrow> (2 :: nat) ^ j < 2 ^ k"
    using order_of_ok by blast
  have "k \<le> r" using r(2) power_le_imp_le_exp [of "2 :: nat" k r] by simp
  moreover have "\<not> k < r" using r(3) k(1) by blast
  ultimately show ?thesis using r(1) by simp
qed

lemma is_pow2_power: "is_pow2 (2 ^ n)"
proof -
  have "(2 :: nat) ^ n AND (2 ^ n - 1) = take_bit n (2 ^ n)" by (simp only: take_bit_eq_mask mask_eq_exp_minus_1)
  then show ?thesis by (simp add: is_pow2_def)
qed

lemma state_bytes: "state_bytes_loop BUDDY_MIN_BLOCK = Some 512"
  by (simp add: state_bytes_loop.simps BUDDY_MIN_BLOCK_def BUDDY_MIN_ORDER_def SIZEOF_STATE_def
      BUDDY_ORDERS_def BUDDY_MAX_ORDER_def)

text \<open>The invariant of the seeding loop: as \<open>bd_heap\<close>, with the largest order so far.\<close>

definition bd_seeding :: "Arena \<Rightarrow> nat \<Rightarrow> nat \<Rightarrow> bool" where
  "bd_seeding a M i \<longleftrightarrow> ar_size a = 2 ^ Suc M \<and> 9 \<le> M \<and> M \<le> 46 \<and> shaped a (seeds M i)
     \<and> v_region (vw a) = 512 \<and> v_max (vw a) = (if i = 9 then 0 else i - 1)
     \<and> headed (vw a) (seeds M i) \<and> listed (vw a) (ar_base a) (seeds M i)"

lemma seed_step:
  assumes h: "bd_seeding a M i" and i: "9 \<le> i" "i \<le> M"
  shows "\<exists>m. do { a \<leftarrow> list_push a (2 ^ i) i; m \<leftarrow> ld a (f_max_order a) 4;
      if i > m then st a (f_max_order a) 4 i else Some a } = Some (a\<lparr>ar_mem := m\<rparr>)
    \<and> bd_seeding (a\<lparr>ar_mem := m\<rparr>) M (Suc i)"
proof -
  let ?B = "seeds M i" and ?b = "ar_base a"
  have d: "ar_size a = 2 ^ Suc M" "9 \<le> M" "M \<le> 46" "shaped a ?B" "v_region (vw a) = 512"
    "v_max (vw a) = (if i = 9 then 0 else i - 1)" "headed (vw a) ?B" "listed (vw a) ?b ?B"
    using h unfolding bd_seeding_def by blast+
  have x: "?B (2 ^ i) = Some (i, Limbo)" and i48: "i < 48" using i d(3) by (simp_all add: seeds_Some)
  obtain xs where xs: "distinct xs" "set xs = {y. ?B y = Some (i, Free)}" "v_list (vw a) i = link ?b xs 0"
    "chain (v_next (vw a)) (v_prev (vw a)) ?b 0 xs 0" using listedE [OF d(8) i48] .
  let ?V = "pushed (vw a) ?b xs (2 ^ i) i"
  have p: "does (list_push a (2 ^ i) i) a ?V ?B"
    using list_push_does [OF d(4) x i48 xs(3)] xs(2) by simp
  have s0: "stage a ?B (vw a) a" using d(4) by (simp add: stage_def)
  have "does (do { a \<leftarrow> list_push a (2 ^ i) i; m \<leftarrow> ld a (f_max_order a) 4;
      if i > m then st a (f_max_order a) 4 i else Some a }) a (?V\<lparr>v_max := i\<rparr>) ?B"
  proof (rule does_step [OF s0 p])
    fix a' assume s: "stage a ?B ?V a'"
    then have a': "shaped a' ?B" "vw a' = ?V" by (simp_all add: stage_def)
    have "ld a' (f_max_order a') 4 = Some (if i = 9 then 0 else i - 1)"
      using state_reads(1) [OF shapedD(1,2) [OF a'(1)]] a'(2) d(6) by (simp add: pushed_def)
    then show "does (do { m \<leftarrow> ld a' (f_max_order a') 4; if i > m then st a' (f_max_order a') 4 i else Some a' }) a' (?V\<lparr>v_max := i\<rparr>) ?B"
      using does_state(2) [OF a'(1), of i] a'(2) i i48 by simp
  qed
  then obtain m where m: "do { a \<leftarrow> list_push a (2 ^ i) i; m \<leftarrow> ld a (f_max_order a) 4;
      if i > m then st a (f_max_order a) 4 i else Some a } = Some (a\<lparr>ar_mem := m\<rparr>)"
    "view m ?b = ?V\<lparr>v_max := i\<rparr>" unfolding does_def by blast
  have "headed (?V\<lparr>v_max := i\<rparr>) (seeds M (Suc i))"
    using headed_pushed [OF d(7), of ?b xs "2 ^ i" i] seeds_Suc [OF i] by (simp add: headed_def)
  moreover have "listed (?V\<lparr>v_max := i\<rparr>) ?b (seeds M (Suc i))"
    using listed_pushed [OF d(8) i48 x xs(1,2,4)] seeds_Suc [OF i] by (simp add: listed_def flist_def)
  moreover have "shaped a (seeds M (Suc i))" using d(1,4) seeds_tiling [of M "Suc i"] unfolding shaped_def by simp
  ultimately have "bd_seeding (a\<lparr>ar_mem := m\<rparr>) M (Suc i)"
    using d(1-3,5) i m(2) unfolding bd_seeding_def by (simp add: pushed_def)
  then show ?thesis using m(1) by blast
qed

lemma seed_loop_ok:
  assumes "bd_seeding a M i" "9 \<le> i" "i \<le> Suc M"
  shows "\<exists>m. seed_loop a (2 ^ i) = Some (a\<lparr>ar_mem := m\<rparr>) \<and> bd_seeding (a\<lparr>ar_mem := m\<rparr>) M (Suc M)"
  using assms
proof (induction "Suc M - i" arbitrary: a i)
  case 0
  then have "i = Suc M" by simp
  moreover have "ar_size a = 2 ^ Suc M" using 0(2) unfolding bd_seeding_def by blast
  ultimately show ?case using 0(2) by (intro exI [of _ "ar_mem a"]) (simp add: seed_loop.simps [of a])
next
  case (Suc n)
  then have i: "i \<le> M" "n = Suc M - Suc i" "Suc i \<le> Suc M" by simp_all
  have d: "ar_size a = 2 ^ Suc M" "M \<le> 46" using Suc.prems(1) unfolding bd_seeding_def by blast+
  obtain m where m: "do { a \<leftarrow> list_push a (2 ^ i) i; m \<leftarrow> ld a (f_max_order a) 4;
      if i > m then st a (f_max_order a) 4 i else Some a } = Some (a\<lparr>ar_mem := m\<rparr>)"
    "bd_seeding (a\<lparr>ar_mem := m\<rparr>) M (Suc i)" using seed_step [OF Suc.prems(1,2) i(1)] by blast
  obtain m' where m': "seed_loop (a\<lparr>ar_mem := m\<rparr>) (2 ^ Suc i) = Some (a\<lparr>ar_mem := m'\<rparr>)"
    "bd_seeding (a\<lparr>ar_mem := m'\<rparr>) M (Suc M)"
    using Suc.hyps(1) [OF i(2) m(2) _ i(3)] Suc.prems(2) by auto
  have "(2 :: nat) ^ i < 2 ^ Suc M" using i(1) by (intro power_strict_increasing) simp_all
  moreover have "low_bit (2 ^ i) = 2 ^ i" "order_of (2 ^ i) = Some i"
    using i(1) d(2) Suc.prems(2) by (simp_all add: low_bit_power order_of_power)
  moreover have "(2 :: nat) ^ i + 2 ^ i = 2 ^ Suc i" by simp
  ultimately have "seed_loop a (2 ^ i) = do { a \<leftarrow> (do { a \<leftarrow> list_push a (2 ^ i) i; m \<leftarrow> ld a (f_max_order a) 4;
      if i > m then st a (f_max_order a) 4 i else Some a }); seed_loop a (2 ^ Suc i) }"
    unfolding seed_loop.simps [of a "2 ^ i"] d(1) by (simp del: power_Suc add: Let_def)
  then have "seed_loop a (2 ^ i) = Some (a\<lparr>ar_mem := m'\<rparr>)" using m(1) m'(1) by simp
  then show ?case using m'(2) by blast
qed

lemma peek_zeros:
  assumes "p \<le> q" "q + k \<le> p + n"
  shows "peek_le (put m p (replicate n 0)) q k = 0"
proof -
  have "bytes_at (put m p (replicate n 0)) q k = replicate k 0"
    by (rule nth_equalityI) (use assms in \<open>auto simp: bytes_at_def put_def\<close>)
  moreover have "le_val (replicate k 0) = 0" by (induction k) (simp_all add: le_val_def)
  ultimately show ?thesis by (simp add: peek_le_def)
qed

lemma seeding_start:
  assumes "ar_size a = 2 ^ Suc M" "9 \<le> M" "M \<le> 46" "ar_base a + ar_size a < 2 ^ 64" "ar_state a = ar_base a"
  defines "z \<equiv> a\<lparr>ar_mem := put (ar_mem a) (ar_base a) (replicate SIZEOF_STATE 0)\<rparr>"
  shows "\<exists>m. st z (f_region_off z) 8 512 = Some (a\<lparr>ar_mem := m\<rparr>) \<and> bd_seeding (a\<lparr>ar_mem := m\<rparr>) M 9"
proof -
  have "(2 :: nat) ^ 10 \<le> 2 ^ Suc M" using assms(2) by (intro power_increasing) simp_all
  then have s: "shaped z (seeds M 9)" "shaped a (seeds M 9)"
    using assms(1,4,5) seeds_tiling [of M 9] unfolding shaped_def z_def by simp_all
  have v: "v_max (vw z) = 0" "k < 48 \<Longrightarrow> v_list (vw z) k = 0" for k
    by (simp_all add: z_def view_def heads_def peek_zeros SIZEOF_STATE_def BUDDY_ORDERS_def BUDDY_MAX_ORDER_def)
  obtain m where m: "st z (f_region_off z) 8 512 = Some (z\<lparr>ar_mem := m\<rparr>)"
    "view m (ar_base z) = (vw z)\<lparr>v_region := 512 mod 256 ^ 8\<rparr>"
    using does_state(3) [OF s(1), of 512] unfolding does_def by blast
  have z: "z\<lparr>ar_mem := m\<rparr> = a\<lparr>ar_mem := m\<rparr>" "ar_base z = ar_base a" by (simp_all add: z_def)
  have "headed (view m (ar_base a)) (seeds M 9)" by (auto simp: headed_def seeds_Some)
  moreover have "listed (view m (ar_base a)) (ar_base a) (seeds M 9)"
    using m(2) v(2) by (auto simp: listed_def flist_def seeds_Some z intro!: exI [of _ "[]"])
  ultimately have "bd_seeding (a\<lparr>ar_mem := m\<rparr>) M 9"
    using m(2) v(1) s(2) assms(1-3) unfolding bd_seeding_def by (simp add: z)
  then show ?thesis using m(1) z(1) by auto
qed

lemma buddy_init_heap:
  assumes "ar_size a = 2 ^ Suc M" "9 \<le> M" "M \<le> 46" "ar_base a + ar_size a < 2 ^ 64"
  shows "\<exists>m. buddy_init a = Some (a\<lparr>ar_state := ar_base a, ar_mem := m\<rparr>)
    \<and> bd_heap (a\<lparr>ar_state := ar_base a, ar_mem := m\<rparr>) M (seeds M (Suc M))"
proof -
  let ?a = "a\<lparr>ar_state := ar_base a\<rparr>"
  let ?z = "?a\<lparr>ar_mem := put (ar_mem a) (ar_base a) (replicate SIZEOF_STATE 0)\<rparr>"
  have sz: "(2 :: nat) ^ 10 \<le> 2 ^ Suc M" "(2 :: nat) ^ Suc M \<le> 2 ^ 47" using assms(2,3) by (intro power_increasing; simp)+
  obtain m1 where m1: "st ?z (f_region_off ?z) 8 512 = Some (?a\<lparr>ar_mem := m1\<rparr>)" "bd_seeding (?a\<lparr>ar_mem := m1\<rparr>) M 9"
    using seeding_start [of ?a M] assms(1-4) by auto
  obtain m where m: "seed_loop (?a\<lparr>ar_mem := m1\<rparr>) (2 ^ 9) = Some (?a\<lparr>ar_mem := m\<rparr>)" "bd_seeding (?a\<lparr>ar_mem := m\<rparr>) M (Suc M)"
    using seed_loop_ok [OF m1(2)] assms(2) by auto
  have "bd_heap (?a\<lparr>ar_mem := m\<rparr>) M (seeds M (Suc M))"
    using m(2) assms(2,3) seeds_tiling [of M "Suc M"] unfolding bd_seeding_def bd_heap_def shaped_def by simp
  moreover have "buddy_init a = Some (?a\<lparr>ar_mem := m\<rparr>)"
  proof -
    have z: "st_bytes ?a (ar_base a) (replicate SIZEOF_STATE 0) = Some ?z"
      using sz(1) assms(1) by (simp add: st_bytes_def in_arena_def SIZEOF_STATE_def BUDDY_ORDERS_def BUDDY_MAX_ORDER_def)
    have "is_pow2 (ar_size a)" "\<not> ar_size a > 2 ^ BUDDY_MAX_ORDER" "\<not> ar_size a < 512 * 2"
      using is_pow2_power [of "Suc M"] sz assms(1) by (simp_all add: BUDDY_MAX_ORDER_def)
    then show ?thesis using m1(1) m(1) z unfolding buddy_init_def state_bytes by simp
  qed
  ultimately show ?thesis by auto
qed

lemma buddy_init_ok:
  assumes "ar_size a = 2 ^ Suc M" "9 \<le> M" "M \<le> 46" "ar_base a + ar_size a < 2 ^ 64" "ar_base a mod 16 = 0"
  shows "\<exists>m. buddy_init a = Some (a\<lparr>ar_state := ar_base a, ar_mem := m\<rparr>)
    \<and> buddy_rep (a\<lparr>ar_state := ar_base a, ar_mem := m\<rparr>) Map.empty"
proof -
  obtain m where m: "buddy_init a = Some (a\<lparr>ar_state := ar_base a, ar_mem := m\<rparr>)"
    "bd_heap (a\<lparr>ar_state := ar_base a, ar_mem := m\<rparr>) M (seeds M (Suc M))"
    using buddy_init_heap [OF assms(1-4)] by blast
  have "limbo (seeds M (Suc M)) = {}" by (auto simp: limbo_def seeds_Some)
  moreover have "bd_live (ar_base a) (seeds M (Suc M)) = Map.empty"
    by (auto simp: bd_live_def uses_def seeds_Some fun_eq_iff split: option.splits status.splits)
  ultimately have "buddy_rep (a\<lparr>ar_state := ar_base a, ar_mem := m\<rparr>) Map.empty"
    using assms(5) by (intro buddy_repI [OF m(2)]) simp_all
  then show ?thesis using m(1) by blast
qed

text \<open>C16: A buddy allocation fails exactly when no free block can hold the request and its header:
  otherwise it takes a block of the smallest sufficient power of two, at least 32 bytes, that no live
  block had, leaves the bytes of all live blocks alone, and keeps the arena a sound heap.\<close>

theorem buddy_alloc_exact:
  assumes "bd_heap a M B" "limbo B = {}"
  shows "if \<forall>x k. B x = Some (k, Free) \<longrightarrow> 2 ^ k < n + 16
    then buddy_alloc a n = Some (None, a)
    else \<exists>x k m B'. buddy_alloc a n = Some (Some (ar_base a + x + 16), a\<lparr>ar_mem := m\<rparr>)
        \<and> bd_heap (a\<lparr>ar_mem := m\<rparr>) M B' \<and> limbo B' = {} \<and> (\<exists>j\<ge>k. B x = Some (j, Free)) \<and> uses B' = (uses B)(x \<mapsto> k)
        \<and> n + 16 \<le> 2 ^ k \<and> 2 ^ (k - 1) < max 32 (n + 16) \<and> keeps B (ar_base a) (ar_mem a) m"
proof (cases "\<forall>x k. B x = Some (k, Free) \<longrightarrow> 2 ^ k < n + 16")
  case True
  have "\<not> k \<le> j" if "B x = Some (j, Free)" "n + 16 \<le> 2 ^ k" for x j k
    using True that power_increasing [of k j "2 :: nat"] by fastforce
  then have "buddy_alloc a n = Some (None, a)" using buddy_alloc_total [OF assms, of n] by blast
  then show ?thesis using True by simp
next
  case False
  then show ?thesis unfolding if_not_P [OF False] using buddy_alloc_total [OF assms, of n] by blast
qed

theorem buddy_alloc_exact_witness:
  "\<exists>a m B'. buddy_init \<lparr>ar_base = 4096, ar_size = 1024, ar_state = 0, ar_mem = (\<lambda>x. 0)\<rparr> = Some a
     \<and> buddy_alloc a 100 = Some (Some (4096 + 512 + 16), a\<lparr>ar_mem := m\<rparr>)
     \<and> bd_heap (a\<lparr>ar_mem := m\<rparr>) 9 B' \<and> uses B' = [512 \<mapsto> 7]"
proof -
  let ?a0 = "\<lparr>ar_base = 4096, ar_size = 1024, ar_state = 0, ar_mem = (\<lambda>x. 0)\<rparr>"
  obtain m0 where m0: "buddy_init ?a0 = Some (?a0\<lparr>ar_state := 4096, ar_mem := m0\<rparr>)"
    "bd_heap (?a0\<lparr>ar_state := 4096, ar_mem := m0\<rparr>) 9 (seeds 9 10)"
    using buddy_init_heap [of ?a0 9] by auto
  have b: "seeds 9 10 x = Some (j, s) \<longleftrightarrow> x = 512 \<and> j = 9 \<and> s = Free" for x j s
    unfolding seeds_Some by (cases "j = 9") auto
  have u: "uses (seeds 9 10) = Map.empty"
    by (auto simp: uses_def b fun_eq_iff split: option.splits status.splits)
  have l: "limbo (seeds 9 10) = {}" by (simp add: limbo_def b)
  have n: "\<not> (\<forall>x k. seeds 9 10 x = Some (k, Free) \<longrightarrow> 2 ^ k < 100 + (16 :: nat))" by (simp add: b)
  obtain x k m B' where m: "buddy_alloc (?a0\<lparr>ar_state := 4096, ar_mem := m0\<rparr>) 100
      = Some (Some (4096 + x + 16), ?a0\<lparr>ar_state := 4096, ar_mem := m\<rparr>)"
    "bd_heap (?a0\<lparr>ar_state := 4096, ar_mem := m\<rparr>) 9 B'" "\<exists>j\<ge>k. seeds 9 10 x = Some (j, Free)"
    "uses B' = [x \<mapsto> k]" "100 + 16 \<le> (2 :: nat) ^ k" "(2 :: nat) ^ (k - 1) < max 32 (100 + 16)"
    using buddy_alloc_exact [OF m0(2) l, of 100] unfolding if_not_P [OF n] u by auto
  have "\<not> k \<le> 6" using m(5) power_increasing [of k 6 "2 :: nat"] by auto
  moreover have "\<not> 7 \<le> k - 1" using m(6) power_increasing [of 7 "k - 1" "2 :: nat"] by auto
  ultimately have "k = 7" "x = 512" using m(3) b by auto
  then show ?thesis using m0(1) m(1,2,4) by auto
qed

end
