(* ===== verification/Alloc_Heap.thy ===== *)
theory Alloc_Heap
  imports Alloc_Guard Firstfit_Props Buddy_Props
begin

text \<open>
  The heap of \<open>alloc.c\<close> over both strategies. The locale is interpreted on the strategy of a slot;
  \<open>heap_ok\<close> says what every slot holds, \<open>heap_rep\<close> joins the slots to one map from pointers to
  contents. The lemmas give the effect of every function of the interface on that map.
\<close>

section \<open>The two strategies\<close>

definition strategy_rep :: "nat \<Rightarrow> Arena \<Rightarrow> (nat \<rightharpoonup> nat) \<Rightarrow> bool" where
  "strategy_rep i = (if i = SLOT_FIRSTFIT then ff_rep else buddy_rep)"

interpretation sl: alloc_strategy "str_alloc (STRATEGIES i)" "str_free_block (STRATEGIES i)"
  "str_usable_size (STRATEGIES i)" "strategy_rep i" for i
proof (cases "i = SLOT_FIRSTFIT")
  case True
  then show "alloc_strategy (str_alloc (STRATEGIES i)) (str_free_block (STRATEGIES i))
    (str_usable_size (STRATEGIES i)) (strategy_rep i)"
    using ff.alloc_strategy_axioms by (simp add: STRATEGIES_def ALLOC_FIRSTFIT_def strategy_rep_def)
next
  case False
  then show "alloc_strategy (str_alloc (STRATEGIES i)) (str_free_block (STRATEGIES i))
    (str_usable_size (STRATEGIES i)) (strategy_rep i)"
    using bd.alloc_strategy_axioms by (simp add: STRATEGIES_def ALLOC_BUDDY_def strategy_rep_def)
qed

lemma strategy_init:
  assumes "ar_base a mod 16 = 0" "ar_base a + 2 ^ 24 < 2 ^ 64" "ar_size a = 2 ^ 24"
  shows "\<exists>m. str_init (STRATEGIES i) a = Some (a\<lparr>ar_state := ar_base a, ar_mem := m\<rparr>)
    \<and> strategy_rep i (a\<lparr>ar_state := ar_base a, ar_mem := m\<rparr>) Map.empty"
proof (cases "i = SLOT_FIRSTFIT")
  case True
  obtain m where m: "ff_init a = Some (a\<lparr>ar_state := ar_base a, ar_mem := m\<rparr>)"
    "ff_heap (a\<lparr>ar_state := ar_base a, ar_mem := m\<rparr>) [((ar_size a - 16) div 16 * 16, False)]"
    using ff_init_ok [of a] assms by auto
  have "(ar_base a + 16) mod 16 = 0" using assms(1) by simp
  then have "ff_rep (a\<lparr>ar_state := ar_base a, ar_mem := m\<rparr>) Map.empty"
    using m(2) unfolding ff_rep_def by (intro conjI exI [of _ "[((ar_size a - 16) div 16 * 16, False)]"]) (simp_all add: ff_start_def)
  then show ?thesis using m(1) True by (simp add: STRATEGIES_def ALLOC_FIRSTFIT_def strategy_rep_def) blast
next
  case False
  then show ?thesis using buddy_init_ok [of a 23] assms
    by (simp add: STRATEGIES_def ALLOC_BUDDY_def strategy_rep_def)
qed

section \<open>The heap\<close>

text \<open>What is asked of \<open>mmap\<close>: aligned arenas that fit below \<open>2 ^ 64\<close> and do not overlap.\<close>

definition env_ok :: "HeapEnv \<Rightarrow> bool" where
  "env_ok env \<longleftrightarrow> (\<forall>i b. he_map env i = Some b \<longrightarrow> b mod 16 = 0 \<and> b + 2 ^ 24 < 2 ^ 64)
     \<and> (\<forall>i j b c. he_map env i = Some b \<longrightarrow> he_map env j = Some c \<longrightarrow> i \<noteq> j \<longrightarrow> b + 2 ^ 24 \<le> c \<or> c + 2 ^ 24 \<le> b)"

definition slot_ok :: "HeapEnv \<Rightarrow> Heap \<Rightarrow> nat \<Rightarrow> contents \<Rightarrow> bool" where
  "slot_ok env h i B \<longleftrightarrow> (if sl_ready (hp_slot h i)
     then he_map env i = Some (ar_base (arena_of h i)) \<and> ar_size (arena_of h i) = 2 ^ 24
       \<and> holds (strategy_rep i) (arena_of h i) B
     else B = Map.empty)"

definition heap_ok :: "HeapEnv \<Rightarrow> Heap \<Rightarrow> (nat \<Rightarrow> contents) \<Rightarrow> bool" where
  "heap_ok env h Bs \<longleftrightarrow> env_ok env \<and> (\<forall>i<2. slot_ok env h i (Bs i)) \<and> (hp_booted h \<longrightarrow> hp_active h < 2)"

text \<open>The only aborts of a correct client.\<close>

definition out_of_memory :: "Abort \<Rightarrow> bool" where
  "out_of_memory e = (case e of OutOfMemory n \<Rightarrow> True | OutOfMemoryCalloc c n \<Rightarrow> True | MapFailed n \<Rightarrow> True | _ \<Rightarrow> False)"

lemma arena_set [simp]: "arena_of (set_arena h i a) j = (if j = i then a else arena_of h j)"
  "sl_ready (hp_slot (set_arena h i a) j) = (j = i \<or> sl_ready (hp_slot h j))"
  "hp_active (set_arena h i a) = hp_active h" "hp_booted (set_arena h i a) = hp_booted h"
  by (simp_all add: set_arena_def arena_of_def)

lemma heap_ok_counters [simp]: "heap_ok env (h\<lparr>hp_mallocs := n\<rparr>) Bs = heap_ok env h Bs"
  "heap_ok env (h\<lparr>hp_frees := n\<rparr>) Bs = heap_ok env h Bs"
  by (simp_all add: heap_ok_def slot_ok_def arena_of_def)

lemma held_ready:
  assumes "heap_ok env h Bs" "i < 2" "Bs i p = Some bs"
  shows "sl_ready (hp_slot h i)" "holds (strategy_rep i) (arena_of h i) (Bs i)"
proof -
  have s: "slot_ok env h i (Bs i)" using assms(1,2) by (simp add: heap_ok_def)
  then show "sl_ready (hp_slot h i)" using assms(3) by (auto simp: slot_ok_def split: if_splits)
  then show "holds (strategy_rep i) (arena_of h i) (Bs i)" using s by (simp add: slot_ok_def)
qed

lemma heap_ok_set:
  assumes h: "heap_ok env h Bs" "i < 2" "sl_ready (hp_slot h i)"
    and a: "holds (strategy_rep i) (arena_of h i\<lparr>ar_mem := m\<rparr>) B"
  shows "heap_ok env (set_arena h i (arena_of h i\<lparr>ar_mem := m\<rparr>)) (Bs(i := B))"
  using assms by (auto simp: heap_ok_def slot_ok_def)

text \<open>A pointer into a payload leads back to its slot.\<close>

lemma slot_found:
  assumes h: "heap_ok env h Bs" "i < 2" "Bs i p = Some bs" and x: "p \<le> x" "x \<le> p + length bs"
  shows "slot_of_pointer h x = Some i"
proof -
  note r = held_ready [OF h]
  have s: "he_map env i = Some (ar_base (arena_of h i))" "ar_size (arena_of h i) = 2 ^ 24"
    using h(1,2) r(1) by (auto simp: heap_ok_def slot_ok_def)
  have b: "ar_base (arena_of h i) \<le> x" "x < ar_base (arena_of h i) + 2 ^ 24"
    using sl.payload_law(1,2) [OF r(2) h(3)] x s(2) by simp_all
  then have i: "in_slot h x i" using r(1) s(2) by (simp add: in_slot_def)
  have o: "\<not> in_slot h x j" if "j < 2" "j \<noteq> i" for j
  proof
    assume j: "in_slot h x j"
    then have "he_map env j = Some (ar_base (arena_of h j))" "ar_size (arena_of h j) = 2 ^ 24"
      using h(1) that(1) by (auto simp: heap_ok_def slot_ok_def in_slot_def)
    moreover from this have "ar_base (arena_of h i) + 2 ^ 24 \<le> ar_base (arena_of h j)
        \<or> ar_base (arena_of h j) + 2 ^ 24 \<le> ar_base (arena_of h i)"
      using h(1) s(1) that(2) unfolding heap_ok_def env_ok_def by metis
    ultimately show False using b j by (auto simp: in_slot_def)
  qed
  have "i = 0 \<or> i = 1" using h(2) by auto
  then show ?thesis
    using i o [of 0] o [of 1] by (auto simp: slot_of_pointer_def SLOT_COUNT_def upt_rec)
qed

lemma slots_apart:
  assumes h: "heap_ok env h Bs" "i < 2" "Bs i p = Some bs" "j < 2" "Bs j q = Some cs" "i \<noteq> j"
  shows "p + length bs \<le> q \<or> q + length cs \<le> p" "p \<noteq> q"
proof -
  show n: "p \<noteq> q" using slot_found [OF h(1-3), of p] slot_found [OF h(1,4,5), of q] h(6) by auto
  show "p + length bs \<le> q \<or> q + length cs \<le> p"
    using slot_found [OF h(1-3), of "max p q"] slot_found [OF h(1,4,5), of "max p q"] h(6) by force
qed

lemma slot_arena_ok:
  assumes h: "heap_ok env h Bs" "i < 2"
  shows "slot_arena env h i = Died (MapFailed ARENA_SIZE)
    \<or> (\<exists>h'. slot_arena env h i = Done h' \<and> heap_ok env h' Bs \<and> sl_ready (hp_slot h' i))"
proof (cases "sl_ready (hp_slot h i)")
  case False
  show ?thesis
  proof (cases "he_map env i")
    case (Some b)
    let ?a = "\<lparr>ar_base = b, ar_size = ARENA_SIZE, ar_state = 0, ar_mem = (\<lambda>x. 0)\<rparr>"
    have b: "b mod 16 = 0" "b + 2 ^ 24 < 2 ^ 64" using h(1) Some unfolding heap_ok_def env_ok_def by blast+
    then obtain a where a: "str_init (STRATEGIES i) ?a = Some a" "strategy_rep i a Map.empty" "ar_base a = b" "ar_size a = 2 ^ 24"
      using strategy_init [of ?a i] by (auto simp: ARENA_SIZE_def)
    have "Bs i = Map.empty" using h False by (auto simp: heap_ok_def slot_ok_def)
    then have "heap_ok env (set_arena h i a) Bs"
      using h a(3,4) Some sl.holds_empty [OF a(2)] by (auto simp: heap_ok_def slot_ok_def)
    then show ?thesis using False Some a(1) by (simp add: slot_arena_def)
  qed (use False in \<open>simp add: slot_arena_def\<close>)
qed (use h in \<open>simp add: slot_arena_def\<close>)

lemma block_new_ok:
  assumes h: "heap_ok env h Bs" "i < 2"
  shows "(\<exists>e. block_new env h i n = Died e \<and> out_of_memory e)
    \<or> (\<exists>p h' bs. block_new env h i n = Done (p, h') \<and> Bs i p = None \<and> length bs = n
        \<and> heap_ok env h' (Bs(i := (Bs i)(p \<mapsto> bs))))"
proof (cases "n > SIZE_MAX - GUARD_TOTAL")
  case False
  from slot_arena_ok [OF h] show ?thesis
  proof (elim disjE exE conjE)
    fix g assume g: "slot_arena env h i = Done g" "heap_ok env g Bs" "sl_ready (hp_slot g i)"
    let ?a = "arena_of g i"
    have "holds (strategy_rep i) ?a (Bs i)" using g(2,3) h(2) by (auto simp: heap_ok_def slot_ok_def)
    then obtain r m where r: "str_alloc (STRATEGIES i) ?a (n + 24) = Some (r, ?a\<lparr>ar_mem := m\<rparr>)" "case r of
      None \<Rightarrow> m = ar_mem ?a
    | Some q \<Rightarrow> Bs i (q + 16) = None \<and> (\<exists>m' bs. guard_write (?a\<lparr>ar_mem := m\<rparr>) (q + 16) n = Some (?a\<lparr>ar_mem := m'\<rparr>)
        \<and> length bs = n \<and> holds (strategy_rep i) (?a\<lparr>ar_mem := m'\<rparr>) ((Bs i)(q + 16 \<mapsto> bs)))"
      using sl.new_law by blast
    have t: "GUARD_TOTAL = 24" by (simp add: guard_consts)
    show ?thesis
    proof (cases r)
      case None
      then show ?thesis using False g(1) r(1) by (simp add: block_new_def t out_of_memory_def)
    next
      case (Some q)
      then obtain m' bs where q: "Bs i (q + 16) = None" "guard_write (?a\<lparr>ar_mem := m\<rparr>) (q + 16) n = Some (?a\<lparr>ar_mem := m'\<rparr>)"
        "length bs = n" "holds (strategy_rep i) (?a\<lparr>ar_mem := m'\<rparr>) ((Bs i)(q + 16 \<mapsto> bs))" using r(2) by auto
      show ?thesis using False g(1) r(1) q heap_ok_set [OF g(2) h(2) g(3) q(4)] Some
        by - (rule disjI2, rule exI [of _ "q + 16"], simp add: block_new_def t GUARD_PREFIX_def Let_def,
          rule exI [of _ bs], simp)
    qed
  qed (use False in \<open>simp add: block_new_def out_of_memory_def\<close>)
qed (simp add: block_new_def out_of_memory_def)

lemma block_release_ok:
  assumes h: "heap_ok env h Bs" "i < 2" "Bs i p = Some bs"
  shows "\<exists>h'. block_release h i p = Done h' \<and> heap_ok env h' (Bs(i := (Bs i)(p := None)))"
proof -
  note r = held_ready [OF h]
  obtain a1 a2 m where a: "st (arena_of h i) (guard_of p + 8) 8 CANARY_FREED = Some a1" "ld a1 (guard_of p) 8 = Some (length bs)"
    "st_bytes a1 p (replicate (length bs) POISON_BYTE) = Some a2"
    "str_free_block (STRATEGIES i) a2 (guard_of p) = Some (arena_of h i\<lparr>ar_mem := m\<rparr>)"
    "holds (strategy_rep i) (arena_of h i\<lparr>ar_mem := m\<rparr>) ((Bs i)(p := None))"
    using sl.release_law [OF r(2) h(3)] by blast
  then show ?thesis using heap_ok_set [OF h(1,2) r(1) a(5)] by (simp add: block_release_def)
qed

section \<open>The interface\<close>

lemma heap_boot_ok: "heap_ok env h Bs \<Longrightarrow> heap_ok env (heap_boot env h) Bs \<and> hp_active (heap_boot env h) < 2"
  by (auto simp: heap_ok_def heap_boot_def slot_ok_def arena_of_def SLOT_BUDDY_def SLOT_FIRSTFIT_def)

lemma malloc_slot:
  assumes "heap_ok env h Bs"
  shows "(\<exists>e. nsh_malloc env h n = Died e \<and> out_of_memory e)
    \<or> (\<exists>i p h' bs. nsh_malloc env h n = Done (p, h') \<and> i < 2 \<and> Bs i p = None \<and> length bs = max 1 n
        \<and> heap_ok env h' (Bs(i := (Bs i)(p \<mapsto> bs))))"
proof -
  note b = heap_boot_ok [OF assms]
  have n: "(if n = 0 then 1 else n) = max 1 n" by simp
  show ?thesis
    using block_new_ok [of env "heap_boot env h" Bs "hp_active (heap_boot env h)" "max 1 n"] b
    unfolding nsh_malloc_def Let_def n by blast
qed

lemma put_slot:
  assumes h: "heap_ok env h Bs" "i < 2" "Bs i p = Some bs" and k: "k + length cs \<le> length bs"
  shows "\<exists>h'. heap_put h (p + k) cs = Done h'
    \<and> heap_ok env h' (Bs(i := (Bs i)(p \<mapsto> take k bs @ cs @ drop (k + length cs) bs)))"
proof -
  note r = held_ready [OF h]
  obtain m where m: "st_bytes (arena_of h i) (p + k) cs = Some (arena_of h i\<lparr>ar_mem := m\<rparr>)"
    "holds (strategy_rep i) (arena_of h i\<lparr>ar_mem := m\<rparr>) ((Bs i)(p \<mapsto> take k bs @ cs @ drop (k + length cs) bs))"
    using sl.put_law [OF r(2) h(3) k] by blast
  have "slot_of_pointer h (p + k) = Some i" by (rule slot_found [OF h]) (use k in auto)
  then show ?thesis using m(1) heap_ok_set [OF h(1,2) r(1) m(2)] by (simp add: heap_put_def)
qed

lemma get_slot:
  assumes h: "heap_ok env h Bs" "i < 2" "Bs i p = Some bs" and k: "k + n \<le> length bs"
  shows "heap_get h (p + k) n = Done (take n (drop k bs))"
proof -
  have "slot_of_pointer h (p + k) = Some i" by (rule slot_found [OF h]) (use k in auto)
  then show ?thesis using sl.get_law [OF held_ready(2) [OF h] h(3) k] by (simp add: heap_get_def)
qed

lemma free_slot:
  assumes h: "heap_ok env h Bs" "i < 2" "Bs i p = Some bs"
  shows "\<exists>h'. nsh_free h p = Done h' \<and> heap_ok env h' (Bs(i := (Bs i)(p := None)))"
proof -
  note r = held_ready [OF h]
  have "slot_of_pointer h p = Some i" by (rule slot_found [OF h]) auto
  moreover have "p \<noteq> 0" using sl.payload_law(1) [OF r(2) h(3)] by auto
  ultimately show ?thesis using block_release_ok [OF h] sl.check_law(1) [OF r(2) h(3)] by (auto simp: nsh_free_def)
qed

lemma calloc_slot:
  assumes "heap_ok env h Bs"
  shows "(\<exists>e. nsh_calloc env h c n = Died e \<and> out_of_memory e)
    \<or> (\<exists>i p h'. nsh_calloc env h c n = Done (p, h') \<and> i < 2 \<and> Bs i p = None
        \<and> heap_ok env h' (Bs(i := (Bs i)(p \<mapsto> replicate (max 1 (c * n)) 0))))"
proof (cases "c \<noteq> 0 \<and> n > SIZE_MAX div c")
  case False
  let ?w = "max 1 (c * n)"
  have c: "nsh_calloc env h c n = bindr (nsh_malloc env h ?w) (\<lambda>(p, h). bindr (heap_put h p (replicate ?w 0)) (\<lambda>h. Done (p, h)))"
    using False by (auto simp: nsh_calloc_def Let_def max_def not_less_eq_eq)
  from malloc_slot [OF assms, of ?w] show ?thesis
  proof (elim disjE exE conjE)
    fix i p g bs assume g: "nsh_malloc env h ?w = Done (p, g)" "i < 2" "Bs i p = None" "length bs = max 1 ?w"
      "heap_ok env g (Bs(i := (Bs i)(p \<mapsto> bs)))"
    obtain h' where "heap_put g (p + 0) (replicate ?w 0) = Done h'"
      "heap_ok env h' ((Bs(i := (Bs i)(p \<mapsto> bs)))(i := ((Bs(i := (Bs i)(p \<mapsto> bs))) i)
         (p \<mapsto> take 0 bs @ replicate ?w 0 @ drop (0 + length (replicate ?w (0 :: u8))) bs)))"
      using put_slot [OF g(5,2), of p bs 0 "replicate ?w 0"] g(4) by auto
    then have "heap_put g p (replicate ?w 0) = Done h'" "heap_ok env h' (Bs(i := (Bs i)(p \<mapsto> replicate ?w 0)))"
      using g(4) by simp_all
    then show ?thesis using g(1-3) c by auto
  qed (use c in auto)
qed (simp add: nsh_calloc_def out_of_memory_def)

lemma realloc_slot:
  assumes h: "heap_ok env h Bs" "i < 2" "Bs i p = Some bs"
  shows "(\<exists>e. nsh_realloc env h p n = Died e \<and> out_of_memory e)
    \<or> (\<exists>j q h' cs. nsh_realloc env h p n = Done (q, h') \<and> j < 2 \<and> (Bs(i := (Bs i)(p := None))) j q = None
        \<and> length cs = max 1 n \<and> take (min (max 1 n) (length bs)) cs = take (min (max 1 n) (length bs)) bs
        \<and> heap_ok env h' ((Bs(i := (Bs i)(p := None)))(j := ((Bs(i := (Bs i)(p := None))) j)(q \<mapsto> cs))))"
proof -
  note r = held_ready [OF h] and c = sl.check_law [OF held_ready(2) [OF h] h(3)]
  let ?w = "max 1 n" and ?a = "arena_of h i"
  obtain u where u: "length bs + 24 \<le> u" "str_usable_size (STRATEGIES i) ?a (guard_of p) = Some u" using c(3) by auto
  have s: "slot_of_pointer h p = Some i" by (rule slot_found [OF h]) auto
  have p: "p \<noteq> 0" using sl.payload_law(1) [OF r(2) h(3)] by auto
  have w: "(if n = 0 then 1 else n) = ?w" and t: "GUARD_TOTAL = 24" by (simp_all add: guard_consts)
  let ?grown = "bindr (nsh_malloc env h ?w) (\<lambda>(fresh, h). bindr (heap_get h p (if length bs < ?w then length bs else ?w))
    (\<lambda>bs. bindr (heap_put h fresh bs) (\<lambda>h. bindr (block_release h i p) (\<lambda>h. Done (fresh, h)))))"
  have e: "nsh_realloc env h p n = (if u - 24 \<ge> ?w
    then bindr (access (guard_write ?a p ?w)) (\<lambda>a. Done (p, set_arena h i a)) else ?grown)"
    unfolding nsh_realloc_def Let_def w t using p s c(1,2) u(2) by simp
  show ?thesis
  proof (cases "u - 24 \<ge> ?w")
    case True
    then have "?w + 24 \<le> u" using u(1) le_diff_conv2 [of 24 u ?w] by linarith
    then obtain m cs where m: "guard_write ?a p ?w = Some (?a\<lparr>ar_mem := m\<rparr>)" "length cs = ?w"
      "take (min ?w (length bs)) cs = take (min ?w (length bs)) bs" "holds (strategy_rep i) (?a\<lparr>ar_mem := m\<rparr>) ((Bs i)(p \<mapsto> cs))"
      using sl.regrow_law [OF r(2) h(3) u(2)] by blast
    then show ?thesis using e True heap_ok_set [OF h(1,2) r(1) m(4)] h(2)
      by (intro disjI2 exI [of _ i] exI [of _ p] exI [of _ "set_arena h i (?a\<lparr>ar_mem := m\<rparr>)"] exI [of _ cs]) simp
  next
    case False
    then have e: "nsh_realloc env h p n = ?grown" unfolding e by (rule if_not_P)
    from malloc_slot [OF h(1), of ?w] show ?thesis
    proof (elim disjE exE conjE)
      fix j q g xs assume g: "nsh_malloc env h ?w = Done (q, g)" "j < 2" "Bs j q = None" "length xs = max 1 ?w"
        "heap_ok env g (Bs(j := (Bs j)(q \<mapsto> xs)))"
      let ?k = "min ?w (length bs)" and ?Bg = "Bs(j := (Bs j)(q \<mapsto> xs))"
      have old: "?Bg i p = Some bs" using h(3) g(3) by auto
      have get: "heap_get g p (if length bs < ?w then length bs else ?w) = Done (take ?k bs)"
      proof -
        have k: "(if length bs < ?w then length bs else ?w) = ?k" by auto
        have "0 + ?k \<le> length bs" by simp
        from get_slot [OF g(5) h(2) old this] show ?thesis unfolding k by simp
      qed
      let ?cs = "take ?k bs @ drop ?k xs"
      obtain g2 where put: "heap_put g q (take ?k bs) = Done g2" "heap_ok env g2 (Bs(j := (Bs j)(q \<mapsto> ?cs)))"
        using put_slot [OF g(5,2), of q xs 0 "take ?k bs"] g(4) by auto
      have old2: "(Bs(j := (Bs j)(q \<mapsto> ?cs))) i p = Some bs" using h(3) g(3) by auto
      obtain h' where rel: "block_release g2 i p = Done h'" "heap_ok env h' ((Bs(j := (Bs j)(q \<mapsto> ?cs)))
          (i := ((Bs(j := (Bs j)(q \<mapsto> ?cs))) i)(p := None)))" using block_release_ok [OF put(2) h(2) old2] by blast
      have ne: "i = j \<Longrightarrow> p \<noteq> q" using h(3) g(3) by auto
      have eq: "(Bs(j := (Bs j)(q \<mapsto> ?cs)))(i := ((Bs(j := (Bs j)(q \<mapsto> ?cs))) i)(p := None))
          = (Bs(i := (Bs i)(p := None)))(j := ((Bs(i := (Bs i)(p := None))) j)(q \<mapsto> ?cs))"
        using ne by (cases "i = j") (auto simp: fun_upd_twist)
      have "nsh_realloc env h p n = Done (q, h')" using e g(1) get put(1) rel(1) by simp
      moreover have "(Bs(i := (Bs i)(p := None))) j q = None" using g(3) by auto
      moreover have "length ?cs = ?w" "take ?k ?cs = take ?k bs" using g(4) by simp_all
      ultimately show ?thesis using g(2) rel(2) unfolding eq by blast
    qed (use e in auto)
  qed
qed


section \<open>All slots together\<close>

definition all_slots :: "(nat \<Rightarrow> contents) \<Rightarrow> contents" where
  "all_slots Bs = (\<lambda>p. case Bs 0 p of None \<Rightarrow> Bs 1 p | Some bs \<Rightarrow> Some bs)"

definition heap_rep :: "HeapEnv \<Rightarrow> Heap \<Rightarrow> contents \<Rightarrow> bool" where
  "heap_rep env h T \<longleftrightarrow> (\<exists>Bs. heap_ok env h Bs \<and> T = all_slots Bs)"

lemma two: "(i :: nat) < 2 \<longleftrightarrow> i = 0 \<or> i = 1" by auto

lemma other_None:
  assumes "heap_ok env h Bs" "i < 2" "Bs i p = Some bs" "j < 2" "j \<noteq> i"
  shows "Bs j p = None"
proof (cases "Bs j p")
  case (Some cs)
  then show ?thesis using slots_apart(2) [OF assms(1-4) Some] assms(5) by simp
qed

lemma all_slots_Some:
  assumes "heap_ok env h Bs"
  shows "all_slots Bs p = Some bs \<longleftrightarrow> (\<exists>i<2. Bs i p = Some bs)"
  using other_None [OF assms, of 0 p _ 1] by (auto simp: all_slots_def two split: option.splits)

lemma all_slots_put:
  assumes "heap_ok env h (Bs(i := (Bs i)(p \<mapsto> bs)))" "i < 2"
  shows "all_slots (Bs(i := (Bs i)(p \<mapsto> bs))) = (all_slots Bs)(p \<mapsto> bs)"
proof -
  have "j < 2 \<Longrightarrow> j \<noteq> i \<Longrightarrow> Bs j p = None" for j using other_None [OF assms, of p bs j] by simp
  then show ?thesis using assms(2) by (auto simp: all_slots_def two fun_eq_iff split: option.splits)
qed

lemma all_slots_drop:
  assumes "heap_ok env h Bs" "i < 2" "Bs i p = Some bs"
  shows "all_slots (Bs(i := (Bs i)(p := None))) = (all_slots Bs)(p := None)"
proof -
  have "j < 2 \<Longrightarrow> j \<noteq> i \<Longrightarrow> Bs j p = None" for j using other_None [OF assms, of j] by simp
  then show ?thesis using assms(2) by (auto simp: all_slots_def two fun_eq_iff split: option.splits)
qed

lemma heap_repE:
  assumes "heap_rep env h T" "T p = Some bs"
  obtains Bs i where "heap_ok env h Bs" "T = all_slots Bs" "i < 2" "Bs i p = Some bs"
  using assms all_slots_Some unfolding heap_rep_def by blast

lemma rep_malloc:
  assumes "heap_rep env h T"
  shows "(\<exists>e. nsh_malloc env h n = Died e \<and> out_of_memory e)
    \<or> (\<exists>q h' bs. nsh_malloc env h n = Done (q, h') \<and> length bs = max 1 n \<and> T q = None \<and> heap_rep env h' (T(q \<mapsto> bs)))"
proof -
  obtain Bs where b: "heap_ok env h Bs" "T = all_slots Bs" using assms by (auto simp: heap_rep_def)
  from malloc_slot [OF b(1), of n] show ?thesis
  proof (elim disjE exE conjE)
    fix i p g bs assume g: "nsh_malloc env h n = Done (p, g)" "i < 2" "Bs i p = None" "length bs = max 1 n"
      "heap_ok env g (Bs(i := (Bs i)(p \<mapsto> bs)))"
    have "T p = None" using other_None [OF g(5,2), of p bs] g(2,3) b(2) by (auto simp: all_slots_def two)
    moreover have "heap_rep env g (T(p \<mapsto> bs))" using all_slots_put [OF g(5,2)] g(5) b(2) by (auto simp: heap_rep_def)
    ultimately show ?thesis using g(1,4) by blast
  qed blast
qed

lemma rep_calloc:
  assumes "heap_rep env h T"
  shows "(\<exists>e. nsh_calloc env h c n = Died e \<and> out_of_memory e)
    \<or> (\<exists>q h'. nsh_calloc env h c n = Done (q, h') \<and> T q = None \<and> heap_rep env h' (T(q \<mapsto> replicate (max 1 (c * n)) 0)))"
proof -
  obtain Bs where b: "heap_ok env h Bs" "T = all_slots Bs" using assms by (auto simp: heap_rep_def)
  let ?z = "replicate (max 1 (c * n)) 0 :: u8 list"
  from calloc_slot [OF b(1), of c n] show ?thesis
  proof (elim disjE exE conjE)
    fix i p g assume g: "nsh_calloc env h c n = Done (p, g)" "i < 2" "Bs i p = None"
      "heap_ok env g (Bs(i := (Bs i)(p \<mapsto> ?z)))"
    have "T p = None" using other_None [OF g(4,2), of p ?z] g(2,3) b(2) by (auto simp: all_slots_def two)
    moreover have "heap_rep env g (T(p \<mapsto> ?z))" using all_slots_put [OF g(4,2)] g(4) b(2) by (auto simp: heap_rep_def)
    ultimately show ?thesis using g(1) by blast
  qed blast
qed

lemma rep_free:
  assumes "heap_rep env h T" "T p = Some bs"
  shows "\<exists>h'. nsh_free h p = Done h' \<and> heap_rep env h' (T(p := None))"
proof -
  obtain Bs i where b: "heap_ok env h Bs" "T = all_slots Bs" "i < 2" "Bs i p = Some bs" using heap_repE [OF assms] .
  obtain h' where h': "nsh_free h p = Done h'" "heap_ok env h' (Bs(i := (Bs i)(p := None)))"
    using free_slot [OF b(1,3,4)] by blast
  then have "heap_rep env h' (T(p := None))"
    unfolding heap_rep_def using all_slots_drop [OF b(1,3,4)] b(2) by (intro exI [of _ "Bs(i := (Bs i)(p := None))"]) simp
  then show ?thesis using h'(1) by blast
qed

lemma rep_put:
  assumes "heap_rep env h T" "T p = Some bs" "k + length cs \<le> length bs"
  shows "\<exists>h'. heap_put h (p + k) cs = Done h'
    \<and> heap_rep env h' (T(p \<mapsto> take k bs @ cs @ drop (k + length cs) bs))"
proof -
  obtain Bs i where b: "heap_ok env h Bs" "T = all_slots Bs" "i < 2" "Bs i p = Some bs" using heap_repE [OF assms(1,2)] .
  obtain h' where h': "heap_put h (p + k) cs = Done h'"
    "heap_ok env h' (Bs(i := (Bs i)(p \<mapsto> take k bs @ cs @ drop (k + length cs) bs)))"
    using put_slot [OF b(1,3,4) assms(3)] by blast
  show ?thesis using h' all_slots_put [OF h'(2) b(3)] b(2) by (auto simp: heap_rep_def)
qed

lemma rep_get:
  assumes "heap_rep env h T" "T p = Some bs" "k + n \<le> length bs"
  shows "heap_get h (p + k) n = Done (take n (drop k bs))"
proof -
  obtain Bs i where b: "heap_ok env h Bs" "T = all_slots Bs" "i < 2" "Bs i p = Some bs" using heap_repE [OF assms(1,2)] .
  show ?thesis by (rule get_slot [OF b(1,3,4) assms(3)])
qed

lemma rep_realloc:
  assumes "heap_rep env h T" "T p = Some bs"
  shows "(\<exists>e. nsh_realloc env h p n = Died e \<and> out_of_memory e)
    \<or> (\<exists>q h' cs. nsh_realloc env h p n = Done (q, h') \<and> length cs = max 1 n
        \<and> take (min (max 1 n) (length bs)) cs = take (min (max 1 n) (length bs)) bs
        \<and> (T(p := None)) q = None \<and> heap_rep env h' ((T(p := None))(q \<mapsto> cs)))"
proof -
  obtain Bs i where b: "heap_ok env h Bs" "T = all_slots Bs" "i < 2" "Bs i p = Some bs" using heap_repE [OF assms] .
  let ?C = "Bs(i := (Bs i)(p := None))"
  have C: "all_slots ?C = T(p := None)" using all_slots_drop [OF b(1,3,4)] b(2) by simp
  from realloc_slot [OF b(1,3,4), of n] show ?thesis
  proof (elim disjE exE conjE)
    fix j q g cs assume g: "nsh_realloc env h p n = Done (q, g)" "j < 2" "?C j q = None"
      "length cs = max 1 n" "take (min (max 1 n) (length bs)) cs = take (min (max 1 n) (length bs)) bs"
      "heap_ok env g (?C(j := (?C j)(q \<mapsto> cs)))"
    have t: "all_slots (?C(j := (?C j)(q \<mapsto> cs))) = (T(p := None))(q \<mapsto> cs)" using all_slots_put [OF g(6,2)] C by simp
    have "?C l q = None" if "l < 2" "l \<noteq> j" for l
      using other_None [OF g(6,2), of q cs l] that by simp
    then have "all_slots ?C q = None" using g(2,3) unfolding all_slots_def two by (elim disjE) simp_all
    then have n: "(T(p := None)) q = None" using C by simp
    have "heap_rep env g ((T(p := None))(q \<mapsto> cs))"
      unfolding heap_rep_def by (rule exI [of _ "?C(j := (?C j)(q \<mapsto> cs))"]) (use t g(6) in simp)
    then show ?thesis using g(1,4,5) n by blast
  qed blast
qed

lemma rep_place:
  assumes "heap_rep env h T" "T p = Some bs"
  shows "p \<noteq> 0" "p mod 16 = 0" "T q = Some cs \<Longrightarrow> q \<noteq> p \<Longrightarrow> p + length bs \<le> q \<or> q + length cs \<le> p"
proof -
  obtain Bs i where b: "heap_ok env h Bs" "T = all_slots Bs" "i < 2" "Bs i p = Some bs" using heap_repE [OF assms] .
  note r = held_ready [OF b(1,3,4)]
  note l = sl.payload_law [OF r(2) b(4)]
  show "p \<noteq> 0" "p mod 16 = 0" using l by auto
  show "p + length bs \<le> q \<or> q + length cs \<le> p" if q: "T q = Some cs" "q \<noteq> p"
  proof -
    obtain j where j: "j < 2" "Bs j q = Some cs" using q(1) b(2) all_slots_Some [OF b(1)] by blast
    show ?thesis using slots_apart(1) [OF b(1,3,4) j] l(4) j(2) q(2) by (cases "i = j") auto
  qed
qed

end
