(* ===== verification/Alloc_Props.thy ===== *)
theory Alloc_Props
  imports Alloc_Heap
begin

text \<open>
  The allocator implements memory. A client is a sequence of operations that use only memory the
  heap gave out; what it knows of that memory is \<open>known\<close>. Every run keeps the heap in agreement
  with it (\<open>client_rep\<close>), and the guards catch a client that writes past the end of a block.
\<close>

section \<open>Clients\<close>

text \<open>What a client does with the heap, and what it gets back.\<close>

datatype HeapOp =
    OpMalloc nat
  | OpCalloc nat nat
  | OpRealloc nat nat
  | OpFree nat
  | OpRead nat nat nat
  | OpWrite nat nat "u8 list"
  | OpStrategy string

datatype Answer = Pointer nat | Bytes "u8 list" | Code NshError | NoAnswer

definition heap_step :: "HeapEnv \<Rightarrow> HeapOp \<Rightarrow> Heap \<Rightarrow> (Answer \<times> Heap) Res" where
  "heap_step env op1 h = (case op1 of
     OpMalloc n \<Rightarrow> bindr (nsh_malloc env h n) (\<lambda>(p, h). Done (Pointer p, h))
   | OpCalloc c n \<Rightarrow> bindr (nsh_calloc env h c n) (\<lambda>(p, h). Done (Pointer p, h))
   | OpRealloc p n \<Rightarrow> bindr (nsh_realloc env h p n) (\<lambda>(p, h). Done (Pointer p, h))
   | OpFree p \<Rightarrow> bindr (nsh_free h p) (\<lambda>h. Done (NoAnswer, h))
   | OpRead p k n \<Rightarrow> bindr (heap_get h (p + k) n) (\<lambda>bs. Done (Bytes bs, h))
   | OpWrite p k bs \<Rightarrow> bindr (heap_put h (p + k) bs) (\<lambda>h. Done (NoAnswer, h))
   | OpStrategy s \<Rightarrow> (case alloc_set_strategy env h (Some s) of (e, h) \<Rightarrow> Done (Code e, h)))"

text \<open>Memory as a client sees it: live blocks, with the bytes it knows. A byte nobody has written
  is unknown.\<close>

type_synonym known = "nat \<rightharpoonup> u8 option list"

definition valid :: "known \<Rightarrow> HeapOp \<Rightarrow> bool" where
  "valid A op1 = (case op1 of
     OpMalloc n \<Rightarrow> True
   | OpCalloc c n \<Rightarrow> True
   | OpRealloc p n \<Rightarrow> p = 0 \<or> A p \<noteq> None
   | OpFree p \<Rightarrow> p = 0 \<or> A p \<noteq> None
   | OpRead p k n \<Rightarrow> (case A p of None \<Rightarrow> False | Some xs \<Rightarrow> k + n \<le> length xs)
   | OpWrite p k bs \<Rightarrow> (case A p of None \<Rightarrow> False | Some xs \<Rightarrow> k + length bs \<le> length xs)
   | OpStrategy s \<Rightarrow> True)"

definition resized :: "nat \<Rightarrow> u8 option list \<Rightarrow> u8 option list" where
  "resized n xs = take n xs @ replicate (n - length xs) None"

definition bytes_of :: "known \<Rightarrow> nat \<Rightarrow> u8 option list" where
  "bytes_of A p = (case A p of None \<Rightarrow> [] | Some xs \<Rightarrow> xs)"

definition after :: "known \<Rightarrow> HeapOp \<Rightarrow> Answer \<Rightarrow> known" where
  "after A op1 ans = (case (op1, ans) of
     (OpMalloc n, Pointer q) \<Rightarrow> A(q \<mapsto> replicate (max 1 n) None)
   | (OpCalloc c n, Pointer q) \<Rightarrow> A(q \<mapsto> replicate (max 1 (c * n)) (Some 0))
   | (OpRealloc p n, Pointer q) \<Rightarrow> A(p := None, q \<mapsto> resized (max 1 n) (bytes_of A p))
   | (OpFree p, _) \<Rightarrow> A(p := None)
   | (OpWrite p k bs, _) \<Rightarrow> A(p \<mapsto> take k (bytes_of A p) @ map Some bs @ drop (k + length bs) (bytes_of A p))
   | _ \<Rightarrow> A)"

text \<open>A list of bytes agrees with what is known of it.\<close>

definition agrees :: "u8 option list \<Rightarrow> u8 list \<Rightarrow> bool" where
  "agrees = list_all2 (\<lambda>x b. x = None \<or> x = Some b)"

text \<open>A new block is aligned and away from every live block.\<close>

definition fresh_block :: "known \<Rightarrow> nat \<Rightarrow> nat \<Rightarrow> bool" where
  "fresh_block A q n \<longleftrightarrow> q \<noteq> 0 \<and> q mod 16 = 0 \<and> A q = None
     \<and> (\<forall>p xs. A p = Some xs \<longrightarrow> p + length xs \<le> q \<or> q + n \<le> p)"

definition right_answer :: "known \<Rightarrow> HeapOp \<Rightarrow> Answer \<Rightarrow> bool" where
  "right_answer A op1 ans = (case op1 of
     OpMalloc n \<Rightarrow> (\<exists>q. ans = Pointer q \<and> fresh_block A q (max 1 n))
   | OpCalloc c n \<Rightarrow> (\<exists>q. ans = Pointer q \<and> fresh_block A q (max 1 (c * n)))
   | OpRealloc p n \<Rightarrow> (\<exists>q. ans = Pointer q \<and> fresh_block (A(p := None)) q (max 1 n))
   | OpRead p k n \<Rightarrow> (\<exists>bs. ans = Bytes bs \<and> agrees (take n (drop k (bytes_of A p))) bs)
   | OpStrategy s \<Rightarrow> ans = Code (if s = ''firstfit'' \<or> s = ''buddy'' then NSH_OK else NSH_ERR_INVALID)
   | _ \<Rightarrow> ans = NoAnswer)"

text \<open>Runs of a client that uses only what it was given. Aborts end a run.\<close>

definition heap_zero :: Heap where
  "heap_zero = \<lparr>hp_slot = (\<lambda>i. \<lparr>sl_arena = \<lparr>ar_base = 0, ar_size = 0, ar_state = 0, ar_mem = (\<lambda>x. 0)\<rparr>, sl_ready = False\<rparr>),
     hp_active = 0, hp_booted = False, hp_mallocs = 0, hp_frees = 0\<rparr>"

inductive client :: "HeapEnv \<Rightarrow> Heap \<Rightarrow> known \<Rightarrow> bool" for env where
  client_start: "client env heap_zero Map.empty"
| client_step: "client env h A \<Longrightarrow> valid A op1 \<Longrightarrow> heap_step env op1 h = Done (ans, h')
    \<Longrightarrow> client env h' (after A op1 ans)"

section \<open>The heap implements memory\<close>

text \<open>What the client knows agrees with what the heap holds.\<close>

definition knows :: "known \<Rightarrow> contents \<Rightarrow> bool" where
  "knows A T \<longleftrightarrow> (\<forall>p. rel_option agrees (A p) (T p))"

lemma knowsD:
  "knows A T \<Longrightarrow> A p = Some xs \<Longrightarrow> \<exists>bs. T p = Some bs \<and> agrees xs bs"
  "knows A T \<Longrightarrow> T p = Some bs \<Longrightarrow> \<exists>xs. A p = Some xs \<and> agrees xs bs"
  "knows A T \<Longrightarrow> A p = None \<longleftrightarrow> T p = None"
  unfolding knows_def by (metis option_rel_Some1) (metis option_rel_Some2, metis option.rel_distinct(1,2) option.exhaust)

lemma knows_upd: "knows A T \<Longrightarrow> agrees xs bs \<Longrightarrow> knows (A(p \<mapsto> xs)) (T(p \<mapsto> bs))"
  "knows A T \<Longrightarrow> knows (A(p := None)) (T(p := None))"
  by (auto simp: knows_def)

lemma agrees_length: "agrees xs bs \<Longrightarrow> length xs = length bs"
  by (simp add: agrees_def list_all2_lengthD)

lemma agrees_simps [simp]: "agrees (map Some bs) bs" "agrees (replicate n None) bs \<longleftrightarrow> length bs = n"
  "agrees (replicate n (Some b)) (replicate n b)"
  by (auto simp: agrees_def list_all2_conv_all_nth)

lemma agrees_append: "agrees xs as \<Longrightarrow> agrees ys bs \<Longrightarrow> agrees (xs @ ys) (as @ bs)"
  by (simp add: agrees_def list_all2_appendI)

lemma agrees_take: "agrees xs bs \<Longrightarrow> agrees (take n xs) (take n bs)"
  by (simp add: agrees_def list_all2_takeI)

lemma agrees_drop: "agrees xs bs \<Longrightarrow> agrees (drop n xs) (drop n bs)"
  by (simp add: agrees_def list_all2_dropI)

lemma agrees_resized:
  assumes "agrees xs bs" "length cs = n" "take (min n (length bs)) cs = take (min n (length bs)) bs"
  shows "agrees (resized n xs) cs"
proof -
  note l = agrees_length [OF assms(1)]
  have "cs = take n bs @ drop (length (take n bs)) cs"
    using assms(2,3) by (metis append_take_drop_id length_take min.commute take_all_iff take_take nat_le_linear min_def)
  moreover have "agrees (take n xs) (take n bs)" by (rule agrees_take [OF assms(1)])
  moreover have "agrees (replicate (n - length xs) None) (drop (length (take n bs)) cs)"
    using assms(2) l by (simp add: min_def)
  ultimately show ?thesis unfolding resized_def using agrees_append by metis
qed

lemma fresh_rep:
  assumes "heap_rep env h' (T(q \<mapsto> bs))" "T q = None" "knows A T" "length bs = n"
  shows "fresh_block A q n"
proof -
  note p = rep_place [OF assms(1), of q bs]
  have "p + length xs \<le> q \<or> q + n \<le> p" if x: "A p = Some xs" for p xs
  proof -
    obtain cs where c: "T p = Some cs" "agrees xs cs" using knowsD(1) [OF assms(3) x] by blast
    then have "p \<noteq> q" using assms(2) by auto
    then show ?thesis using p(3) [of p cs] c assms(4) agrees_length [OF c(2)] by auto
  qed
  then show ?thesis using p(1,2) assms(2,3) knowsD(3) [OF assms(3)] by (simp add: fresh_block_def)
qed

lemma heap_repI: "heap_ok env h Bs \<Longrightarrow> heap_rep env h (all_slots Bs)"
  by (auto simp: heap_rep_def)

text \<open>Only requests for memory may find none.\<close>

definition asks :: "HeapOp \<Rightarrow> bool" where
  "asks op1 = (case op1 of OpMalloc n \<Rightarrow> True | OpCalloc c n \<Rightarrow> True | OpRealloc p n \<Rightarrow> True | _ \<Rightarrow> False)"

text \<open>One step of a client: a right answer, or out of memory.\<close>

definition step_ok :: "HeapEnv \<Rightarrow> known \<Rightarrow> HeapOp \<Rightarrow> (Answer \<times> Heap) Res \<Rightarrow> bool" where
  "step_ok env A op1 r = (case r of
     Wild \<Rightarrow> False
   | Died e \<Rightarrow> out_of_memory e \<and> asks op1
   | Done (ans, h') \<Rightarrow> right_answer A op1 ans \<and> (\<exists>T. heap_rep env h' T \<and> knows (after A op1 ans) T))"

lemma step_okI:
  "right_answer A op1 ans \<Longrightarrow> heap_rep env h' T \<Longrightarrow> knows (after A op1 ans) T \<Longrightarrow> step_ok env A op1 (Done (ans, h'))"
  by (auto simp: step_ok_def)

lemma step_ok_oom: "out_of_memory e \<Longrightarrow> asks op1 \<Longrightarrow> step_ok env A op1 (Died e)"
  by (simp add: step_ok_def)

lemma knows_bytes: "knows A T \<Longrightarrow> T p = Some bs \<Longrightarrow> agrees (bytes_of A p) bs \<and> A p \<noteq> None"
  using knowsD(2) [of A T p bs] by (auto simp: bytes_of_def)

lemma malloc_step:
  assumes h: "heap_rep env h T" "knows A T"
  shows "step_ok env A (OpMalloc n) (heap_step env (OpMalloc n) h)"
  using rep_malloc [OF h(1), of n]
proof (elim disjE exE conjE)
  fix q h' bs assume q: "nsh_malloc env h n = Done (q, h')" "length bs = max 1 n" "T q = None" "heap_rep env h' (T(q \<mapsto> bs))"
  show ?thesis
    unfolding heap_step_def using q fresh_rep [OF q(4,3) h(2) q(2)] knows_upd(1) [OF h(2), of "replicate (max 1 n) None" bs q]
    by (auto intro!: step_okI [OF _ q(4)] simp: right_answer_def after_def)
qed (simp add: heap_step_def step_ok_oom asks_def)

lemma calloc_step:
  assumes h: "heap_rep env h T" "knows A T"
  shows "step_ok env A (OpCalloc c n) (heap_step env (OpCalloc c n) h)"
  using rep_calloc [OF h(1), of c n]
proof (elim disjE exE conjE)
  fix q h' assume q: "nsh_calloc env h c n = Done (q, h')" "T q = None" "heap_rep env h' (T(q \<mapsto> replicate (max 1 (c * n)) 0))"
  show ?thesis
    unfolding heap_step_def
    using q fresh_rep [OF q(3,2) h(2) refl] knows_upd(1) [OF h(2), of "replicate (max 1 (c * n)) (Some 0)" "replicate (max 1 (c * n)) 0" q]
    by (auto intro!: step_okI [OF _ q(3)] simp: right_answer_def after_def)
qed (simp add: heap_step_def step_ok_oom asks_def)

lemma realloc_step:
  assumes h: "heap_rep env h T" "knows A T" and v: "valid A (OpRealloc p n)"
  shows "step_ok env A (OpRealloc p n) (heap_step env (OpRealloc p n) h)"
proof (cases "T p")
  case None
  then have p: "p = 0" "A 0 = None" using v knowsD(3) [OF h(2), of p] by (auto simp: valid_def)
  then have e: "nsh_realloc env h p n = nsh_malloc env h (max 1 n)" by (simp add: nsh_realloc_def Let_def max_def)
  have A0: "A(0 := None) = A" using p by auto
  show ?thesis using rep_malloc [OF h(1), of "max 1 n"]
  proof (elim disjE exE conjE)
    fix q h' bs assume q: "nsh_malloc env h (max 1 n) = Done (q, h')" "length bs = max 1 (max 1 n)" "T q = None" "heap_rep env h' (T(q \<mapsto> bs))"
    have "resized (max 1 n) (bytes_of A 0) = replicate (max 1 n) None" using p(2) by (simp add: resized_def bytes_of_def)
    then show ?thesis
      unfolding heap_step_def using e q p(1) fresh_rep [OF q(4,3) h(2) q(2)] A0
        knows_upd(1) [OF h(2), of "replicate (max 1 n) None" bs q]
      by (auto intro!: step_okI [OF _ q(4)] simp: right_answer_def after_def)
  qed (simp add: heap_step_def step_ok_oom asks_def e)
next
  case (Some bs)
  have k: "agrees (bytes_of A p) bs" using knows_bytes [OF h(2) Some] by blast
  have h': "knows (A(p := None)) (T(p := None))" by (rule knows_upd(2) [OF h(2)])
  show ?thesis using rep_realloc [OF h(1) Some, of n]
  proof (elim disjE exE conjE)
    fix q g cs assume q: "nsh_realloc env h p n = Done (q, g)" "length cs = max 1 n"
      "take (min (max 1 n) (length bs)) cs = take (min (max 1 n) (length bs)) bs" "(T(p := None)) q = None"
      "heap_rep env g ((T(p := None))(q \<mapsto> cs))"
    have "knows ((A(p := None))(q \<mapsto> resized (max 1 n) (bytes_of A p))) ((T(p := None))(q \<mapsto> cs))"
      by (rule knows_upd(1) [OF h' agrees_resized [OF k q(2,3)]])
    then show ?thesis
      unfolding heap_step_def using q(1) fresh_rep [OF q(5,4) h' q(2)]
      by (auto intro!: step_okI [OF _ q(5)] simp: right_answer_def after_def)
  qed (simp add: heap_step_def step_ok_oom asks_def)
qed

lemma free_step:
  assumes h: "heap_rep env h T" "knows A T" and v: "valid A (OpFree p)"
  shows "step_ok env A (OpFree p) (heap_step env (OpFree p) h)"
proof (cases "T p")
  case None
  then have p: "p = 0" using v knowsD(3) [OF h(2), of p] by (auto simp: valid_def)
  have "A(p := None) = A" using None knowsD(3) [OF h(2), of p] by (simp add: fun_upd_idem)
  then show ?thesis using p h by (auto intro!: step_okI [OF _ h(1)] simp: heap_step_def nsh_free_def right_answer_def after_def)
next
  case (Some bs)
  then obtain h' where h': "nsh_free h p = Done h'" "heap_rep env h' (T(p := None))" using rep_free [OF h(1)] by blast
  then show ?thesis using knows_upd(2) [OF h(2), of p]
    by (auto intro!: step_okI [OF _ h'(2)] simp: heap_step_def right_answer_def after_def)
qed

lemma valid_live:
  assumes "knows A T" "A p = Some xs"
  obtains bs where "T p = Some bs" "agrees xs bs" "length bs = length xs" "bytes_of A p = xs"
proof -
  obtain bs where "T p = Some bs" "agrees xs bs" using knowsD(1) [OF assms] by blast
  then show thesis using that agrees_length [of xs bs] assms(2) by (simp add: bytes_of_def)
qed

lemma read_step:
  assumes h: "heap_rep env h T" "knows A T" and v: "valid A (OpRead p k n)"
  shows "step_ok env A (OpRead p k n) (heap_step env (OpRead p k n) h)"
proof -
  obtain xs where xs: "A p = Some xs" "k + n \<le> length xs" using v by (auto simp: valid_def split: option.splits)
  obtain bs where b: "T p = Some bs" "agrees xs bs" "length bs = length xs" "bytes_of A p = xs"
    using valid_live [OF h(2) xs(1)] .
  have "heap_get h (p + k) n = Done (take n (drop k bs))" using rep_get [OF h(1) b(1)] xs(2) b(3) by simp
  then show ?thesis using agrees_take [OF agrees_drop [OF b(2)]] h(2) b(4)
    by (auto intro!: step_okI [OF _ h(1)] simp: heap_step_def right_answer_def after_def)
qed

lemma write_step:
  assumes h: "heap_rep env h T" "knows A T" and v: "valid A (OpWrite p k cs)"
  shows "step_ok env A (OpWrite p k cs) (heap_step env (OpWrite p k cs) h)"
proof -
  obtain xs where xs: "A p = Some xs" "k + length cs \<le> length xs" using v by (auto simp: valid_def split: option.splits)
  obtain bs where b: "T p = Some bs" "agrees xs bs" "length bs = length xs" "bytes_of A p = xs"
    using valid_live [OF h(2) xs(1)] .
  let ?bs = "take k bs @ cs @ drop (k + length cs) bs" and ?xs = "take k xs @ map Some cs @ drop (k + length cs) xs"
  obtain h' where h': "heap_put h (p + k) cs = Done h'" "heap_rep env h' (T(p \<mapsto> ?bs))"
    using rep_put [OF h(1) b(1), of k cs] xs(2) b(3) by auto
  have "agrees ?xs ?bs" by (intro agrees_append agrees_take agrees_drop b(2)) simp
  then have "knows (A(p \<mapsto> ?xs)) (T(p \<mapsto> ?bs))" by (rule knows_upd(1) [OF h(2)])
  then show ?thesis using h' b(4)
    by (auto intro!: step_okI [OF _ h'(2)] simp: heap_step_def right_answer_def after_def)
qed

lemma strategy_step:
  assumes h: "heap_rep env h T" "knows A T"
  shows "step_ok env A (OpStrategy s) (heap_step env (OpStrategy s) h)"
proof -
  obtain Bs where b: "heap_ok env h Bs" "T = all_slots Bs" using h(1) by (auto simp: heap_rep_def)
  let ?g = "heap_boot env h"
  have g: "heap_ok env ?g Bs" using heap_boot_ok [OF b(1)] by simp
  have "slot_ok env (?g\<lparr>hp_active := i\<rparr>) j B = slot_ok env ?g j B" for i j B
    by (simp add: slot_ok_def arena_of_def)
  then have "heap_ok env (?g\<lparr>hp_active := i\<rparr>) Bs" if "i < 2" for i
    using g that by (simp add: heap_ok_def)
  then have r: "heap_rep env (?g\<lparr>hp_active := 0\<rparr>) T" "heap_rep env (?g\<lparr>hp_active := 1\<rparr>) T" "heap_rep env ?g T"
    using g b(2) by (simp_all add: heap_repI)
  have n: "str_name (STRATEGIES 0) = ''firstfit''" "str_name (STRATEGIES 1) = ''buddy''"
    by (simp_all add: STRATEGIES_def ALLOC_FIRSTFIT_def ALLOC_BUDDY_def SLOT_FIRSTFIT_def)
  have "find (\<lambda>i. s = str_name (STRATEGIES i)) [0..<SLOT_COUNT]
      = (if s = ''firstfit'' then Some 0 else if s = ''buddy'' then Some 1 else None)"
    using n by (simp add: SLOT_COUNT_def upt_rec)
  then have e: "alloc_set_strategy env h (Some s) = (if s = ''firstfit'' then (NSH_OK, ?g\<lparr>hp_active := 0\<rparr>)
      else if s = ''buddy'' then (NSH_OK, ?g\<lparr>hp_active := 1\<rparr>) else (NSH_ERR_INVALID, ?g))"
    by (simp add: alloc_set_strategy_def Let_def)
  have a: "after A (OpStrategy s) x = A" for x by (simp add: after_def)
  let ?c = "if s = ''firstfit'' \<or> s = ''buddy'' then NSH_OK else NSH_ERR_INVALID"
  have ok: "step_ok env A (OpStrategy s) (Done (Code ?c, g'))" if "heap_rep env g' T" for g'
    by (rule step_okI [OF _ that]) (simp_all add: right_answer_def a h(2))
  have "heap_step env (OpStrategy s) h
      = Done (Code ?c, if s = ''firstfit'' then ?g\<lparr>hp_active := 0\<rparr> else if s = ''buddy'' then ?g\<lparr>hp_active := 1\<rparr> else ?g)"
    by (simp add: heap_step_def e)
  then show ?thesis using r by (simp only:) (rule ok, simp)
qed

lemma client_step_ok:
  assumes "heap_rep env h T" "knows A T" "valid A op1"
  shows "step_ok env A op1 (heap_step env op1 h)"
  using assms by (cases op1) (auto intro: malloc_step calloc_step realloc_step free_step read_step write_step strategy_step)

lemma client_rep:
  assumes "env_ok env" "client env h A"
  shows "\<exists>T. heap_rep env h T \<and> knows A T"
  using assms(2)
proof (induction rule: client.induct)
  case client_start
  have "heap_ok env heap_zero (\<lambda>i. Map.empty)"
    using assms(1) by (simp add: heap_ok_def slot_ok_def heap_zero_def)
  moreover have "all_slots (\<lambda>i. Map.empty) = Map.empty" by (simp add: all_slots_def)
  ultimately have "heap_rep env heap_zero Map.empty" unfolding heap_rep_def by metis
  moreover have "knows Map.empty Map.empty" by (simp add: knows_def)
  ultimately show ?case by blast
next
  case (client_step h A op1 ans h')
  then show ?case using client_step_ok [of env h _ A op1] by (auto simp: step_ok_def)
qed

text \<open>C1: For a client that touches only memory it was given, the allocator is memory. After any
  sequence of allocations, releases, resizings, writes, reads and changes of strategy, every further
  valid operation gives the right answer, or is a request for memory that aborts for want of it: a new block is aligned and
  overlaps no live block, bytes read are the bytes last written, resizing keeps the common prefix,
  and cleared memory is zero. No access leaves the arenas, no assertion fails, no search runs for
  ever, and no guard raises a false alarm, under both strategies and with blocks of both alive.\<close>

theorem heap_implements_memory:
  assumes "env_ok env" "client env h A" "valid A op1"
  shows "case heap_step env op1 h of
      Wild \<Rightarrow> False
    | Died e \<Rightarrow> out_of_memory e \<and> asks op1
    | Done (ans, h') \<Rightarrow> right_answer A op1 ans \<and> client env h' (after A op1 ans)
        \<and> (\<forall>p xs. after A op1 ans p = Some xs \<longrightarrow> (\<exists>bs. heap_get h' p (length xs) = Done bs \<and> agrees xs bs))"
proof -
  obtain T where t: "heap_rep env h T" "knows A T" using client_rep [OF assms(1,2)] by blast
  note s = client_step_ok [OF t assms(3)]
  show ?thesis
  proof (cases "heap_step env op1 h")
    case (Done r)
    obtain ans h' where r: "r = (ans, h')" by (cases r)
    obtain T' where t': "right_answer A op1 ans" "heap_rep env h' T'" "knows (after A op1 ans) T'"
      using s Done r by (auto simp: step_ok_def)
    have "\<exists>bs. heap_get h' p (length xs) = Done bs \<and> agrees xs bs" if x: "after A op1 ans p = Some xs" for p xs
    proof -
      obtain bs where b: "T' p = Some bs" "agrees xs bs" "length bs = length xs" using valid_live [OF t'(3) x] by metis
      then show ?thesis using rep_get [OF t'(2) b(1), of 0 "length xs"] by simp
    qed
    then show ?thesis using Done r t'(1) client.client_step [OF assms(2,3), of ans h'] by simp
  qed (use s in \<open>simp_all add: step_ok_def\<close>)
qed

section \<open>A heap at work\<close>

text \<open>A fresh heap under first fit serves every request that fits its one block.\<close>

lemma first_malloc:
  assumes "he_map env 0 = Some b" "b mod 16 = 0" "b + 2 ^ 24 < 2 ^ 64" "he_strategy env \<noteq> Some ''buddy''"
    and n: "n + 100 \<le> 2 ^ 24"
  shows "\<exists>q h'. nsh_malloc env heap_zero n = Done (q, h')"
proof -
  let ?w = "if n = 0 then 1 else n"
  let ?a = "\<lparr>ar_base = b, ar_size = ARENA_SIZE, ar_state = 0, ar_mem = (\<lambda>x. 0)\<rparr>"
  have w: "?w + 100 \<le> 2 ^ 24" using n by simp
  obtain m where m: "ff_init ?a = Some (?a\<lparr>ar_state := b, ar_mem := m\<rparr>)"
    "ff_heap (?a\<lparr>ar_state := b, ar_mem := m\<rparr>) [((2 ^ 24 - 16) div 16 * 16, False)]"
    using ff_init_ok [of ?a] assms(2,3) by (auto simp: ARENA_SIZE_def)
  let ?a1 = "?a\<lparr>ar_state := b, ar_mem := m\<rparr>" and ?h = "heap_boot env heap_zero"
  have h: "hp_active ?h = 0" "sl_ready (hp_slot ?h 0) = False"
    using assms(4) by (simp_all add: heap_boot_def heap_zero_def SLOT_FIRSTFIT_def)
  have s0: "STRATEGIES 0 = ALLOC_FIRSTFIT" by (simp add: STRATEGIES_def SLOT_FIRSTFIT_def)
  have a1: "slot_arena env ?h 0 = Done (set_arena ?h 0 ?a1)"
    using h assms(1) m(1) by (simp add: slot_arena_def s0 ALLOC_FIRSTFIT_def)
  have k: "?w + 24 \<le> SIZE_MAX - 48" using w by (simp add: SIZE_MAX_def)
  have "ff_total (?w + 24) \<le> ?w + 24 + 47"
    using ff_total_spec [OF k] by (simp add: ff_total_def ff_round_up_def ff_consts)
  then have f: "first_fit (ff_total (?w + 24)) (ff_start ?a1) [((2 ^ 24 - 16) div 16 * 16, False)] = Some (ff_start ?a1)"
    using w by simp
  obtain q m2 where q: "ff_alloc ?a1 (?w + 24) = Some (Some q, ?a1\<lparr>ar_mem := m2\<rparr>)"
    using ff_alloc_some [OF m(2) k f] by blast
  have "ff_rep ?a1 Map.empty"
    using m(2) assms(2) unfolding ff_rep_def by (intro conjI exI [of _ "[((2 ^ 24 - 16) div 16 * 16, False)]"]) (simp_all add: ff_start_def)
  then have "holds (strategy_rep 0) ?a1 Map.empty"
    by (intro sl.holds_empty) (simp add: strategy_rep_def SLOT_FIRSTFIT_def)
  from sl.new_law [OF this, of ?w] obtain m3 where "guard_write (?a1\<lparr>ar_mem := m2\<rparr>) (q + 16) ?w = Some (?a1\<lparr>ar_mem := m3\<rparr>)"
    using q by (auto simp: Let_def s0 ALLOC_FIRSTFIT_def)
  then show ?thesis
    using h(1) a1 q w by (simp add: nsh_malloc_def block_new_def Let_def s0 ALLOC_FIRSTFIT_def guard_consts SIZE_MAX_def)
qed

definition env_example :: HeapEnv where
  "env_example = \<lparr>he_strategy = None, he_map = (\<lambda>i. if i < 2 then Some (2 ^ 30 * (i + 1)) else None)\<rparr>"

lemma env_example_ok: "env_ok env_example"
  by (auto simp: env_ok_def env_example_def two less_2_cases_iff split: if_splits)

theorem heap_implements_memory_witness:
  "\<exists>q h1 h2. heap_step env_example (OpMalloc 5) heap_zero = Done (Pointer q, h1)
     \<and> heap_step env_example (OpWrite q 0 [1, 2, 3, 4, 5]) h1 = Done (NoAnswer, h2)
     \<and> heap_get h2 q 5 = Done [1, 2, 3, 4, 5]"
proof -
  obtain q h1 where q: "nsh_malloc env_example heap_zero 5 = Done (q, h1)"
    using first_malloc [of env_example "2 ^ 30" 5] by (auto simp: env_example_def)
  then have m: "heap_step env_example (OpMalloc 5) heap_zero = Done (Pointer q, h1)" by (simp add: heap_step_def)
  let ?A = "[q \<mapsto> replicate 5 None] :: known" and ?w = "OpWrite q 0 [1, 2, 3, 4, 5]"
  have c: "client env_example h1 ?A"
    using heap_implements_memory [OF env_example_ok client_start, of "OpMalloc 5"] m by (simp add: valid_def after_def)
  have v: "valid ?A ?w" by (simp add: valid_def)
  have f: "after ?A ?w NoAnswer q = Some (map Some [1, 2, 3, 4, 5])" by (simp add: after_def bytes_of_def)
  note t = heap_implements_memory [OF env_example_ok c v]
  obtain h2 where h2: "heap_step env_example ?w h1 = Done (NoAnswer, h2)"
    using t by (cases "heap_step env_example ?w h1") (auto simp: asks_def right_answer_def)
  then have "\<forall>p xs. after ?A ?w NoAnswer p = Some xs \<longrightarrow> (\<exists>bs. heap_get h2 p (length xs) = Done bs \<and> agrees xs bs)"
    using t by simp
  then obtain bs where b: "heap_get h2 q (length (map Some [1, 2, 3, 4, 5 :: u8])) = Done bs" "agrees (map Some [1, 2, 3, 4, 5]) bs"
    using f by metis
  have "bs = [1, 2, 3, 4, 5]" using b(2) by (simp add: agrees_def list_all2_Cons1)
  moreover have "length (map Some [1, 2, 3, 4, 5 :: u8]) = 5" by simp
  ultimately have "heap_get h2 q 5 = Done [1, 2, 3, 4, 5]" using b(1) by metis
  then show ?thesis using m h2 by blast
qed

section \<open>What the guards catch\<close>

lemma le_val_inj: "length xs = length ys \<Longrightarrow> le_val xs = le_val ys \<Longrightarrow> xs = ys"
proof (induction xs ys rule: list_induct2)
  case (Cons x xs y ys)
  have b: "unat x < 256" "unat y < 256" using unsigned_less [of x] unsigned_less [of y] by simp_all
  have e: "unat x + 256 * le_val xs = unat y + 256 * le_val ys" using Cons.prems by (simp add: le_val_def)
  from arg_cong [OF e, of "\<lambda>n. n mod 256"] arg_cong [OF e, of "\<lambda>n. n div 256"]
  have "unat x = unat y" "le_val xs = le_val ys" using b by simp_all
  then show ?case using Cons.IH by (simp add: word_unat_eq_iff)
qed simp

text \<open>The canary behind a payload, as bytes.\<close>

definition tail_bytes :: "u8 list" where "tail_bytes = le_bytes 8 CANARY_TAIL"

lemma tail_broken:
  assumes "peek_le m p 8 = CANARY_TAIL" "length cs \<le> 8" "cs \<noteq> take (length cs) tail_bytes"
  shows "peek_le (put m p cs) p 8 \<noteq> CANARY_TAIL"
proof
  assume "peek_le (put m p cs) p 8 = CANARY_TAIL"
  moreover have "le_val tail_bytes = CANARY_TAIL" by (simp add: tail_bytes_def le_val_bytes CANARY_TAIL_def)
  ultimately have "bytes_at (put m p cs) p 8 = tail_bytes"
    unfolding peek_le_def by (intro le_val_inj) (simp_all add: tail_bytes_def)
  then have "take (length cs) tail_bytes = take (length cs) (bytes_at (put m p cs) p 8)" by simp
  also have "\<dots> = cs" using assms(2) by (intro nth_equalityI) (auto simp: bytes_at_def put_def)
  finally show False using assms(3) by simp
qed

lemma overflow_slot:
  assumes h: "heap_ok env h Bs" "i < 2" "Bs i p = Some bs"
    and c: "length cs \<le> 8" "cs \<noteq> take (length cs) tail_bytes"
  shows "\<exists>h'. heap_put h (p + length bs) cs = Done h' \<and> nsh_free h' p = Died (CorruptTrailing p)
    \<and> nsh_realloc env h' p n = Died (CorruptTrailing p)"
proof -
  note r = held_ready [OF h]
  let ?a = "arena_of h i" and ?q = "p - 16"
  let ?m = "put (ar_mem ?a) (p + length bs) cs"
  obtain L q k where "p = q + 16" "sl.open_block i ?a L (Bs i) q k" "fits_in (ar_mem ?a) p bs k"
    using sl.open_held [OF r(2) h(3)] by blast
  then have o: "p = q + 16" "in_arena ?a q k" "length bs + 24 \<le> k" "guarded (ar_mem ?a) p bs"
    using sl.open_blockD(1) by (auto simp: fits_in_def)
  have f: "slot_of_pointer h (p + length bs) = Some i" "slot_of_pointer h p = Some i"
    by (rule slot_found [OF h]; simp)+
  have "in_arena ?a (p + length bs) (length cs)" using o(1-3) c(1) by (simp add: in_arena_def)
  then have put: "heap_put h (p + length bs) cs = Done (set_arena h i (?a\<lparr>ar_mem := ?m\<rparr>))"
    using f(1) by (simp add: heap_put_def st_bytes_def)
  let ?h = "set_arena h i (?a\<lparr>ar_mem := ?m\<rparr>)"
  have same: "slot_of_pointer ?h x = slot_of_pointer h x" for x
  proof -
    have "in_slot ?h x = in_slot h x" using r(1) by (auto simp: in_slot_def fun_eq_iff)
    then show ?thesis by (simp add: slot_of_pointer_def)
  qed
  have in_a: "in_arena ?a q 8" "in_arena ?a (q + 8) 8" "in_arena ?a (q + 16 + length bs) 8"
    using o(2,3) by (auto simp: in_arena_def)
  have "peek_le ?m q 8 = length bs" "peek_le ?m (q + 8) 8 = CANARY_HEAD" "peek_le ?m (q + 16 + length bs) 8 \<noteq> CANARY_TAIL"
    using o(1,4) tail_broken [OF _ c] by (simp_all add: guarded_behind peek_put_other)
  then have g: "guard_check (?a\<lparr>ar_mem := ?m\<rparr>) p = Died (CorruptTrailing p)"
    using in_a o(1) by (simp add: guard_check_def guard_of_def ld_def GUARD_PREFIX_def CANARY_HEAD_def CANARY_FREED_def)
  have "p \<noteq> 0" using o(1) by simp
  then show ?thesis using put g same f(2) by (simp add: nsh_free_def nsh_realloc_def Let_def)
qed

text \<open>C15: Writing past the end of a live block is caught: if any of the eight bytes behind the
  payload no longer holds its canary byte, giving the block back or resizing it aborts with the
  report of an overflow at that pointer, before anything is freed.\<close>

theorem overflow_is_caught:
  assumes "env_ok env" "client env h A" "A p = Some xs" "length cs \<le> 8" "cs \<noteq> take (length cs) tail_bytes"
  shows "\<exists>h'. heap_put h (p + length xs) cs = Done h' \<and> nsh_free h' p = Died (CorruptTrailing p)
    \<and> nsh_realloc env h' p n = Died (CorruptTrailing p)"
proof -
  obtain T where t: "heap_rep env h T" "knows A T" using client_rep [OF assms(1,2)] by blast
  obtain bs where b: "T p = Some bs" "length bs = length xs" using valid_live [OF t(2) assms(3)] by metis
  obtain Bs i where "heap_ok env h Bs" "i < 2" "Bs i p = Some bs" using heap_repE [OF t(1) b(1)] by metis
  then show ?thesis using overflow_slot [OF _ _ _ assms(4,5)] b(2) by metis
qed

theorem overflow_is_caught_witness:
  "\<exists>q h1 h2. nsh_malloc env_example heap_zero 5 = Done (q, h1)
     \<and> heap_put h1 (q + 5) [0] = Done h2 \<and> nsh_free h2 q = Died (CorruptTrailing q)"
proof -
  obtain q h1 where q: "nsh_malloc env_example heap_zero 5 = Done (q, h1)"
    using first_malloc [of env_example "2 ^ 30" 5] by (auto simp: env_example_def)
  then have "heap_step env_example (OpMalloc 5) heap_zero = Done (Pointer q, h1)" by (simp add: heap_step_def)
  from client_step [OF client_start _ this] have c: "client env_example h1 [q \<mapsto> replicate 5 None]"
    by (simp add: valid_def after_def)
  have t: "tail_bytes = of_nat CANARY_TAIL # le_bytes 7 (CANARY_TAIL div 256)"
    using le_bytes.simps(2) [of 7 CANARY_TAIL] by (simp add: tail_bytes_def)
  have "[0] \<noteq> take (length [0 :: u8]) tail_bytes" unfolding t by (simp add: CANARY_TAIL_def)
  then obtain h2 where "heap_put h1 (q + length (replicate 5 None :: u8 option list)) [0] = Done h2" "nsh_free h2 q = Died (CorruptTrailing q)"
    using overflow_is_caught [OF env_example_ok c, of q "replicate 5 None" "[0]"] by auto
  then show ?thesis using q by auto
qed

end
