(* ===== verification/Tools.thy ===== *)
theory Tools
  imports Proc
begin

text \<open>
  What the builtin tools share: closing a descriptor, a \<open>sigaction\<close> that may fail (the answer is an
  argument), and the part of the shell's process that a tool must leave alone.
\<close>

section \<open>Descriptors\<close>

definition try_close :: "nat \<Rightarrow> 'w Proc \<Rightarrow> 'w Proc" where
  "try_close fd p = (case sys_close fd (p_fds p) of None \<Rightarrow> p | Some t \<Rightarrow> p\<lparr>p_fds := t\<rparr>)"

text \<open>Closing what took the lowest free slot gives the old table back.\<close>

lemma close_fresh:
  assumes "lowest_free 0 t = Some fd" "p_fds p = t[fd := Some x]"
  shows "try_close fd p = p\<lparr>p_fds := t\<rparr>"
  using lowest_free_Some [OF assms(1)] assms(2)
  by (cases x) (simp add: try_close_def sys_close_def fd_file_def rd_def list_update_same_conv [THEN iffD2])

lemma same_fds [simp]: "p\<lparr>p_fds := p_fds p, p_world := w\<rparr> = p\<lparr>p_world := w\<rparr>"
  by (cases p) simp

section \<open>Signals\<close>

definition try_sigaction :: "('w \<Rightarrow> nat \<times> 'w) \<Rightarrow> int \<Rightarrow> Disposition \<Rightarrow> 'w Proc \<Rightarrow> nat \<times> 'w Proc" where
  "try_sigaction ans sig h p = (case ans (p_world p) of (e, w) \<Rightarrow>
     (e, if e = 0 then p\<lparr>p_world := w, p_sig := set_disposition sig h (p_sig p)\<rparr> else p\<lparr>p_world := w\<rparr>))"

lemma deliver_keeps_disp [simp]: "sig_disp (deliver sig s) = sig_disp s"
  by (simp add: deliver_def chld_handler_def int_handler_def split: Disposition.splits)

section \<open>The frame\<close>

text \<open>What of the process a tool must leave alone.\<close>

definition shell_part :: "'w Proc \<Rightarrow> Shell \<times> env \<times> FuncTable \<times> table \<times> fdtab \<times> int" where
  "shell_part p = (Shell.truncate p, p_env p, p_funcs p, p_jobs p, p_fds p, p_tty p)"

lemma shell_part_simps [simp]:
  "shell_part (p\<lparr>p_world := w\<rparr>) = shell_part p" "shell_part (p\<lparr>p_term := t\<rparr>) = shell_part p"
  "shell_part (p\<lparr>p_sig := s\<rparr>) = shell_part p" "shell_part (p\<lparr>p_log := l\<rparr>) = shell_part p"
  "shell_part (p\<lparr>p_out := u\<rparr>) = shell_part p"
  by (simp_all add: shell_part_def Shell.defs)

lemma shell_part_output [simp]:
  "shell_part (put_err s p) = shell_part p" "shell_part (put_out s p) = shell_part p" "shell_part (fflush p) = shell_part p"
  by (simp_all add: put_err_def put_out_def fflush_def)

end
