(* ===== verification/Emu.thy ===== *)
theory Emu
  imports Term Display Tools
begin

text \<open>
  \<open>src/emu/emu.c\<close>: the builtin that runs a program on the CHIP-8 machine, on the terminal or
  headless. What the code asks of the system beyond \<open>Os\<close> (file size and contents, the clock, the
  sleep, \<open>sigaction\<close>) is the record \<open>EmuEnv\<close>. Signals are looked at once per round of the loop.
  None is an access outside an array, or a fuel that did not suffice.
\<close>

section \<open>Constants and state\<close>

definition ROM_MAX :: nat where "ROM_MAX = CHIP8_MEM - CHIP8_ROM_BASE"
definition NS_PER_SEC :: int where "NS_PER_SEC = 1000000000"
definition STEPS_PER_SEC :: int where "STEPS_PER_SEC = 700"
definition TIMER_HZ :: int where "TIMER_HZ = 60"
definition STEP_NS :: int where "STEP_NS = NS_PER_SEC div STEPS_PER_SEC"
definition TIMER_NS :: int where "TIMER_NS = NS_PER_SEC div TIMER_HZ"
definition KEY_HOLD_NS :: int where "KEY_HOLD_NS = 100000000"
definition CATCHUP_NS :: int where "CATCHUP_NS = NS_PER_SEC div 4"
definition KEY_ESC :: char where "KEY_ESC = CHR 0x1B"
definition KEY_COUNT :: nat where "KEY_COUNT = 16"

lemmas emu_consts = ROM_MAX_def NS_PER_SEC_def STEPS_PER_SEC_def TIMER_HZ_def STEP_NS_def TIMER_NS_def
  KEY_HOLD_NS_def CATCHUP_NS_def KEY_COUNT_def

text \<open>
  \<open>ee_fstat\<close> answers whether the descriptor is a regular file, and its size; \<open>ee_read fd k\<close> returns
  bytes of a read of at most \<open>k\<close>; \<open>ee_now\<close> is the monotonic clock in nanoseconds, 0 if it fails;
  \<open>ee_idle\<close> the sleep of \<open>IDLE_NS\<close>; \<open>ee_sigaction\<close> an \<open>errno\<close>, 0 for success.
\<close>

record 'w EmuEnv =
  ee_fstat :: "nat \<Rightarrow> 'w \<Rightarrow> (nat + bool \<times> nat) \<times> 'w"
  ee_read :: "nat \<Rightarrow> nat \<Rightarrow> 'w \<Rightarrow> (nat + u8 list) \<times> 'w"
  ee_now :: "'w \<Rightarrow> int \<times> 'w"
  ee_idle :: "'w \<Rightarrow> 'w"
  ee_sigaction :: "int \<Rightarrow> 'w \<Rightarrow> nat \<times> 'w"

text \<open>The statics that change.\<close>

record EmuSt =
  g_resume :: bool
  g_prev_tstp :: Disposition
  g_prev_cont :: Disposition

section \<open>Signals\<close>

definition sys_sigaction :: "'w EmuEnv \<Rightarrow> int \<Rightarrow> Disposition \<Rightarrow> 'w Proc \<Rightarrow> nat \<times> 'w Proc" where
  "sys_sigaction en sig h p = try_sigaction (ee_sigaction en sig) sig h p"

definition cont_handler :: "EmuSt \<Rightarrow> EmuSt" where "cont_handler st = st\<lparr>g_resume := True\<rparr>"

text \<open>The process stops at the \<open>raise\<close>, between the two changes of the disposition.\<close>

definition tstp_handler :: "'w Os \<Rightarrow> 'w EmuEnv \<Rightarrow> EmuSt \<times> 'w Proc \<Rightarrow> EmuSt \<times> 'w Proc" where
  "tstp_handler os en r = (case r of (st, p) \<Rightarrow>
     let p1 = term_emergency_restore os p;
         p2 = snd (sys_sigaction en SIGTSTP SIG_DFL p1);
         p3 = snd (sys_sigaction en SIGTSTP Tstp_handler p2)
     in (st\<lparr>g_resume := True\<rparr>, p3))"

definition emu_deliver :: "'w Os \<Rightarrow> 'w EmuEnv \<Rightarrow> int \<Rightarrow> EmuSt \<times> 'w Proc \<Rightarrow> EmuSt \<times> 'w Proc" where
  "emu_deliver os en sig r = (case r of (st, p) \<Rightarrow> (case sig_disp (p_sig p) sig of
       Tstp_handler \<Rightarrow> tstp_handler os en (st, p)
     | Cont_handler \<Rightarrow> (cont_handler st, p)
     | _ \<Rightarrow> (st, p\<lparr>p_sig := deliver sig (p_sig p)\<rparr>)))"

definition emu_poll :: "'w Os \<Rightarrow> 'w EmuEnv \<Rightarrow> EmuSt \<times> 'w Proc \<Rightarrow> EmuSt \<times> 'w Proc" where
  "emu_poll os en r = (case r of (st, p) \<Rightarrow> case os_signals os (p_world p) of (sigs, w) \<Rightarrow>
     fold (emu_deliver os en) sigs (st, p\<lparr>p_world := w\<rparr>))"

text \<open>The set operations on masks do not fail here. The result is \<open>errno\<close>, 0 for success.\<close>

definition signals_install :: "'w EmuEnv \<Rightarrow> EmuSt \<Rightarrow> 'w Proc \<Rightarrow> nat \<times> EmuSt \<times> 'w Proc" where
  "signals_install en st p =
     (let st0 = st\<lparr>g_resume := False\<rparr>;
          old_tstp = sig_disp (p_sig p) SIGTSTP;
          (e1, p1) = sys_sigaction en SIGTSTP Tstp_handler p
      in if e1 \<noteq> 0 then (e1, st0, p1)
         else (let st1 = st0\<lparr>g_prev_tstp := old_tstp\<rparr>;
                   old_cont = sig_disp (p_sig p1) SIGCONT;
                   (e2, p2) = sys_sigaction en SIGCONT Cont_handler p1
               in if e2 \<noteq> 0
                  then (let (e3, p3) = sys_sigaction en SIGTSTP (g_prev_tstp st1) p2
                        in (if e3 \<noteq> 0 then e3 else e2, st1, p3))
                  else (0, st1\<lparr>g_prev_cont := old_cont\<rparr>, p2)))"

definition signals_restore :: "'w EmuEnv \<Rightarrow> EmuSt \<Rightarrow> 'w Proc \<Rightarrow> 'w Proc" where
  "signals_restore en st p =
     snd (sys_sigaction en SIGCONT (g_prev_cont st) (snd (sys_sigaction en SIGTSTP (g_prev_tstp st) p)))"

section \<open>Reading the rom\<close>

text \<open>The open is close-on-exec.\<close>

definition rom_open :: "'w Os \<Rightarrow> string \<Rightarrow> 'w Proc \<Rightarrow> (nat + nat) \<times> 'w Proc" where
  "rom_open os path p = (case sys_open os path [O_RDONLY] p of
     (Inl e, q) \<Rightarrow> (Inl e, q)
   | (Inr fd, q) \<Rightarrow> (Inr fd, q\<lparr>p_fds := (p_fds q)[fd := map_option (\<lambda>(f, _). (f, True)) (p_fds q ! fd)]\<rparr>))"

fun rom_loop :: "'w Os \<Rightarrow> 'w EmuEnv \<Rightarrow> nat \<Rightarrow> nat \<Rightarrow> nat \<Rightarrow> u8 list \<Rightarrow> 'w Proc \<Rightarrow> ((string + u8 list) \<times> 'w Proc) option" where
  "rom_loop os en 0 fd len buf p = (if length buf < len then None else Some (Inr buf, p))"
| "rom_loop os en (Suc n) fd len buf p =
     (if length buf < len then
        (case ee_read en fd (len - length buf) (p_world p) of
           (Inl e, w) \<Rightarrow> if e = EINTR then rom_loop os en n fd len buf (p\<lparr>p_world := w\<rparr>)
                        else Some (Inl (os_strerror os e), p\<lparr>p_world := w\<rparr>)
         | (Inr bs, w) \<Rightarrow> if bs = [] then Some (Inl ''short read'', p\<lparr>p_world := w\<rparr>)
                        else rom_loop os en n fd len (buf @ take (len - length buf) bs) (p\<lparr>p_world := w\<rparr>))
      else Some (Inr buf, p))"

definition rom_read :: "'w Os \<Rightarrow> 'w EmuEnv \<Rightarrow> nat \<Rightarrow> string \<Rightarrow> 'w Proc
    \<Rightarrow> ((NshError \<times> string + u8 list) \<times> 'w Proc) option" where
  "rom_read os en n path p = (case rom_open os path p of
     (Inl e, p1) \<Rightarrow> Some (Inl (NSH_ERR_IO, os_strerror os e), p1)
   | (Inr fd, p1) \<Rightarrow> (case ee_fstat en fd (p_world p1) of (st, w) \<Rightarrow>
       let p2 = p1\<lparr>p_world := w\<rparr>;
           fail = (\<lambda>err why. Some (Inl (err, why), try_close fd p2))
       in (case st of
             Inl e \<Rightarrow> fail NSH_ERR_IO (os_strerror os e)
           | Inr (regular, size1) \<Rightarrow>
               if \<not> regular then fail NSH_ERR_INVALID ''not a regular file''
               else if size1 = 0 then fail NSH_ERR_INVALID ''empty rom''
               else if size1 > ROM_MAX then fail NSH_ERR_INVALID ''rom is too large for chip-8 memory''
               else (case rom_loop os en n fd size1 [] p2 of
                       None \<Rightarrow> None
                     | Some (Inl why, p3) \<Rightarrow> Some (Inl (NSH_ERR_IO, why), try_close fd p3)
                     | Some (Inr buf, p3) \<Rightarrow> Some (Inr buf, try_close fd p3)))))"

section \<open>Headless\<close>

text \<open>\<open>%03X\<close>.\<close>

definition upper_hex :: "char \<Rightarrow> char" where
  "upper_hex ch = (if CHR ''a'' \<le> ch \<and> ch \<le> CHR ''f'' then char_of (of_char ch - 32 :: nat) else ch)"

definition report_step_error :: "Chip8 \<Rightarrow> NshError \<Rightarrow> 'w Proc \<Rightarrow> 'w Proc" where
  "report_step_error c err p =
     put_err (nullsh_line (''emu: step failed at pc 0x''
        @ pad_left (CHR ''0'') 3 (map upper_hex (hex_nat (unat (ch_pc c)))) @ '': '' @ nsh_error_str err)) p"

fun headless_loop :: "nat \<Rightarrow> Chip8 \<Rightarrow> int \<Rightarrow> 'w Proc \<Rightarrow> (int \<times> Chip8 \<times> 'w Proc) option" where
  "headless_loop 0 c status p = Some (status, c, p)"
| "headless_loop (Suc k) c status p = do {
     (err, c1) \<leftarrow> cpu_step c;
     if err \<noteq> NSH_OK \<and> status = 0 then headless_loop k c1 1 (report_step_error c1 err p)
     else headless_loop k c1 status p
   }"

definition run_headless :: "Chip8 \<Rightarrow> nat \<Rightarrow> 'w Proc \<Rightarrow> (int \<times> 'w Proc) option" where
  "run_headless c cycles p = do {
     (status, c1, p1) \<leftarrow> headless_loop cycles c 0 p;
     Some (status, fflush (put_out (display_render_ascii (ch_fb c1)) p1))
   }"

section \<open>On the terminal\<close>

definition now_ns :: "'w EmuEnv \<Rightarrow> 'w Proc \<Rightarrow> int \<times> 'w Proc" where
  "now_ns en p = (let (t, w) = ee_now en (p_world p) in (t, p\<lparr>p_world := w\<rparr>))"

definition idle :: "'w EmuEnv \<Rightarrow> 'w Proc \<Rightarrow> 'w Proc" where
  "idle en p = p\<lparr>p_world := ee_idle en (p_world p)\<rparr>"

fun release_loop :: "nat list \<Rightarrow> int \<Rightarrow> Chip8 \<Rightarrow> int list \<Rightarrow> (Chip8 \<times> int list) option" where
  "release_loop [] now c held = Some (c, held)"
| "release_loop (k # ks) now c held = do {
     t \<leftarrow> rd held k;
     if t \<noteq> 0 \<and> now - t \<ge> KEY_HOLD_NS then do {
       held1 \<leftarrow> wr held k 0;
       c1 \<leftarrow> cpu_key_event c (int k) False;
       release_loop ks now c1 held1
     }
     else release_loop ks now c held
   }"

definition release_stale_keys :: "int \<Rightarrow> Chip8 \<Rightarrow> int list \<Rightarrow> (Chip8 \<times> int list) option" where
  "release_stale_keys now c held = release_loop [0..<KEY_COUNT] now c held"

fun drain_input :: "'w Os \<Rightarrow> nat \<Rightarrow> int \<Rightarrow> Chip8 \<Rightarrow> int list \<Rightarrow> 'w Proc
    \<Rightarrow> (bool \<times> Chip8 \<times> int list \<times> 'w Proc) option" where
  "drain_input os 0 now c held p = None"
| "drain_input os (Suc n) now c held p = (case term_read_key os p of
     (None, p1) \<Rightarrow> Some (False, c, held, p1)
   | (Some ch, p1) \<Rightarrow>
       if ch = KEY_ESC then Some (True, c, held, p1)
       else if keypad_map ch \<ge> 0 then do {
         held1 \<leftarrow> wr held (nat (keypad_map ch)) now;
         c1 \<leftarrow> cpu_key_event c (keypad_map ch) True;
         drain_input os n now c1 held1 p1
       }
       else drain_input os n now c held p1)"

definition beep_once :: "Chip8 \<Rightarrow> bool \<Rightarrow> 'w Proc \<Rightarrow> bool \<times> 'w Proc" where
  "beep_once c sounding p =
     (if ch_sound c = 0 then (False, p)
      else if \<not> sounding then (True, fflush (put_out [CHR 0x07] p))
      else (sounding, p))"

definition paint :: "Chip8 \<Rightarrow> 'w Proc \<Rightarrow> Chip8 \<times> 'w Proc" where
  "paint c p =
     (if \<not> ch_fb_dirty c then (c, p)
      else (c\<lparr>ch_fb_dirty := False\<rparr>, fflush (put_out (display_render (ch_fb c)) p)))"

function step_loop :: "int \<Rightarrow> Chip8 \<Rightarrow> (NshError \<times> int \<times> Chip8) option" where
  "step_loop acc c =
     (if acc < STEP_NS then Some (NSH_OK, acc, c)
      else (case cpu_step c of
              None \<Rightarrow> None
            | Some (err, c1) \<Rightarrow> if err = NSH_OK then step_loop (acc - STEP_NS) c1
                              else Some (err, acc - STEP_NS, c1)))"
  by auto
termination by (relation "measure (\<lambda>(acc, c). nat acc)") (auto simp: emu_consts)

function timer_loop :: "int \<Rightarrow> Chip8 \<Rightarrow> int \<times> Chip8" where
  "timer_loop acc c =
     (if acc < TIMER_NS then (acc, c) else timer_loop (acc - TIMER_NS) (cpu_tick_timers c))"
  by auto
termination by (relation "measure (\<lambda>(acc, c). nat acc)") (auto simp: emu_consts)

declare step_loop.simps [simp del] timer_loop.simps [simp del]

text \<open>The locals of the loop.\<close>

record EmuLoop =
  el_chip :: Chip8
  el_held :: "int list"
  el_prev :: int
  el_step_acc :: int
  el_timer_acc :: int
  el_sounding :: bool

definition catch_up :: "int \<Rightarrow> int" where
  "catch_up delta =
     (let d = (if delta < 0 then 0 else delta) in if d > CATCHUP_NS then CATCHUP_NS else d)"

text \<open>The first lines of a round; the boolean is false when raw mode could not be entered again.\<close>

definition emu_resume :: "'w Os \<Rightarrow> 'w EmuEnv \<Rightarrow> nat \<Rightarrow> EmuSt \<Rightarrow> EmuLoop \<Rightarrow> 'w Proc
    \<Rightarrow> (bool \<times> EmuSt \<times> EmuLoop \<times> 'w Proc) option" where
  "emu_resume os en n st l p =
     (if g_resume st then do {
        let st1 = st\<lparr>g_resume := False\<rparr>;
        (err, p1) \<leftarrow> term_enter_raw os n p;
        if err \<noteq> NSH_OK then Some (False, st1, l, p1)
        else (let (t, p2) = now_ns en p1
              in Some (True, st1, l\<lparr>el_chip := (el_chip l)\<lparr>ch_fb_dirty := True\<rparr>, el_prev := t\<rparr>, p2))
      }
      else Some (True, st, l, p))"

text \<open>One round of the loop: a status when it breaks, else the locals of the next round.\<close>

definition emu_round :: "'w Os \<Rightarrow> 'w EmuEnv \<Rightarrow> nat \<Rightarrow> EmuSt \<Rightarrow> EmuLoop \<Rightarrow> 'w Proc
    \<Rightarrow> ((int + EmuLoop) \<times> EmuSt \<times> 'w Proc) option" where
  "emu_round os en n st l p = do {
     let (st0, p0) = emu_poll os en (st, p);
     (ok, st1, l1, p1) \<leftarrow> emu_resume os en n st0 l p0;
     if \<not> ok then Some (Inl 1, st1, p1)
     else do {
       let (now, p2) = now_ns en p1;
       (esc, c1, held1, p3) \<leftarrow> drain_input os n now (el_chip l1) (el_held l1) p2;
       if esc then Some (Inl 0, st1, p3)
       else do {
         (c2, held2) \<leftarrow> release_stale_keys now c1 held1;
         let delta = catch_up (now - el_prev l1);
         (err, acc, c3) \<leftarrow> step_loop (el_step_acc l1 + delta) c2;
         if err \<noteq> NSH_OK then do {
           p4 \<leftarrow> term_exit_raw os n p3;
           Some (Inl 1, st1, report_step_error c3 err p4)
         }
         else do {
           let (tacc, c4) = timer_loop (el_timer_acc l1 + delta) c3;
           let (sounding, p4) = beep_once c4 (el_sounding l1) p3;
           let (c5, p5) = paint c4 p4;
           Some (Inr \<lparr>el_chip = c5, el_held = held2, el_prev = now, el_step_acc = acc, el_timer_acc = tacc,
                   el_sounding = sounding\<rparr>, st1, idle en p5)
         }
       }
     }
   }"

text \<open>The loop with a fuel of rounds.\<close>

fun emu_loop :: "'w Os \<Rightarrow> 'w EmuEnv \<Rightarrow> nat \<Rightarrow> nat \<Rightarrow> EmuSt \<Rightarrow> EmuLoop \<Rightarrow> 'w Proc \<Rightarrow> (int \<times> EmuSt \<times> 'w Proc) option" where
  "emu_loop os en n 0 st l p = None"
| "emu_loop os en n (Suc r) st l p = (case emu_round os en n st l p of
     None \<Rightarrow> None
   | Some (Inl status, st1, p1) \<Rightarrow> Some (status, st1, p1)
   | Some (Inr l1, st1, p1) \<Rightarrow> emu_loop os en n r st1 l1 p1)"

definition run_interactive_emu :: "'w Os \<Rightarrow> 'w EmuEnv \<Rightarrow> nat \<Rightarrow> nat \<Rightarrow> EmuSt \<Rightarrow> Chip8 \<Rightarrow> 'w Proc
    \<Rightarrow> (int \<times> EmuSt \<times> 'w Proc) option" where
  "run_interactive_emu os en n r st c p = do {
     (err, p1) \<leftarrow> term_enter_raw os n p;
     if err \<noteq> NSH_OK then Some (1, st, p1)
     else do {
       let (t, p2) = now_ns en p1;
       (status, st1, p3) \<leftarrow> emu_loop os en n r st \<lparr>el_chip = c, el_held = replicate KEY_COUNT 0, el_prev = t,
            el_step_acc = 0, el_timer_acc = 0, el_sounding = False\<rparr> p2;
       p4 \<leftarrow> term_exit_raw os n p3;
       Some (status, st1, p4)
     }
   }"

section \<open>The builtin\<close>

definition emu_usage :: "'w Proc \<Rightarrow> 'w Proc" where
  "emu_usage p = put_err (nullsh_line ''emu: usage: emu ROMFILE'') p"

text \<open>
  \<open>strtoul\<close> in base 10: as \<open>strtol\<close>, but a minus sign negates modulo \<open>2 ^ 64\<close>, and a magnitude
  above \<open>ULONG_MAX\<close> gives that and sets \<open>errno\<close>.
\<close>

definition ULONG_MAX :: nat where "ULONG_MAX = 2 ^ 64 - 1"

definition strtoul :: "string \<Rightarrow> nat \<times> string \<times> bool" where
  "strtoul s =
     (let t = dropWhile is_space s;
          neg = (t \<noteq> [] \<and> hd t = CHR ''-'');
          u = (if t \<noteq> [] \<and> (hd t = CHR ''-'' \<or> hd t = CHR ''+'') then List.tl t else t);
          ds = takeWhile is_digit u;
          v = undec ds
      in if ds = [] then (0, s, False)
         else if v > ULONG_MAX then (ULONG_MAX, dropWhile is_digit u, True)
         else (if neg then (2 ^ 64 - v) mod 2 ^ 64 else v, dropWhile is_digit u, False))"

text \<open>The number of cycles, or None for a malformed one.\<close>

definition parse_cycles :: "string \<Rightarrow> nat option" where
  "parse_cycles spec = (case strtoul spec of (v, rest, e) \<Rightarrow>
     if rest = spec \<or> rest \<noteq> [] \<or> e then None else Some v)"

text \<open>The part behind the parsing of the arguments; \<open>cycles\<close> is None on the terminal.\<close>

definition emu_run :: "'w Os \<Rightarrow> 'w EmuEnv \<Rightarrow> nat \<Rightarrow> nat \<Rightarrow> EmuSt \<Rightarrow> string \<Rightarrow> nat option \<Rightarrow> 'w Proc
    \<Rightarrow> (int \<times> EmuSt \<times> 'w Proc) option" where
  "emu_run os en n r st path cycles p = (case rom_read os en n path p of
     None \<Rightarrow> None
   | Some (Inl (_, why), p1) \<Rightarrow> Some (1, st, put_err (nullsh_line (''emu: '' @ path @ '': '' @ why)) p1)
   | Some (Inr rom, p1) \<Rightarrow> do {
       (err, c) \<leftarrow> cpu_load_rom cpu_init (Some rom);
       if err \<noteq> NSH_OK then Some (1, st, put_err (nullsh_line (''emu: '' @ path @ '': rom does not fit'')) p1)
       else (case cycles of
           Some k \<Rightarrow> do { (status, p2) \<leftarrow> run_headless c k p1; Some (status, st, p2) }
         | None \<Rightarrow> (case signals_install en st p1 of (e, st1, p2) \<Rightarrow>
             if e \<noteq> 0 then Some (1, st1, put_err (nullsh_line (''emu: sigaction: '' @ os_strerror os e)) p2)
             else do {
               (status, st2, p3) \<leftarrow> run_interactive_emu os en n r st1 c p2;
               p4 \<leftarrow> term_exit_raw os n p3;
               Some (status, st2, signals_restore en st2 p4)
             }))
     })"

definition emu_builtin :: "'w Os \<Rightarrow> 'w EmuEnv \<Rightarrow> nat \<Rightarrow> nat \<Rightarrow> EmuSt \<Rightarrow> string list \<Rightarrow> 'w Proc
    \<Rightarrow> (int \<times> EmuSt \<times> 'w Proc) option" where
  "emu_builtin os en n r st argv p =
     (if length argv \<noteq> 2 then Some (1, st, emu_usage p)
      else (case getenv (p_env p) ''NSH_EMU_HEADLESS'' of
          Some spec \<Rightarrow> (case parse_cycles spec of
              None \<Rightarrow> Some (1, st, emu_usage p)
            | Some k \<Rightarrow> emu_run os en n r st (argv ! 1) (Some k) p)
        | None \<Rightarrow>
            if \<not> interactive p then Some (1, st, put_err (nullsh_line ''emu: needs a terminal'') p)
            else emu_run os en n r st (argv ! 1) None p))"

end
