(* ===== verification/Emu_Props.thy ===== *)
theory Emu_Props
  imports Emu
begin

text \<open>
  What the emulator's builtin promises: headless runs print the screen the steps leave, keys are
  let go after a tenth of a second, and a session gives the
  terminal and the signals back. The system is a script of rounds; \<open>serves_file\<close> says that the
  program can be read, in pieces of any size.
\<close>

section \<open>Reading the rom\<close>

definition serves_file :: "'w Os \<Rightarrow> 'w EmuEnv \<Rightarrow> string \<Rightarrow> u8 list \<Rightarrow> ('w \<Rightarrow> nat) \<Rightarrow> ('w \<Rightarrow> 'k) \<Rightarrow> bool" where
  "serves_file os en path rom pos keep \<longleftrightarrow>
     (\<forall>w. \<exists>f w'. os_open os path [O_RDONLY] w = (Inr f, w') \<and> pos w' = 0 \<and> keep w' = keep w)
     \<and> (\<forall>fd w. \<exists>w'. ee_fstat en fd w = (Inr (True, length rom), w') \<and> pos w' = pos w \<and> keep w' = keep w)
     \<and> (\<forall>fd k w. pos w < length rom \<longrightarrow> 0 < k \<longrightarrow>
          (\<exists>j w'. 0 < j \<and> j \<le> k \<and> j \<le> length rom - pos w
             \<and> ee_read en fd k w = (Inr (take j (drop (pos w) rom)), w') \<and> pos w' = pos w + j \<and> keep w' = keep w))"

lemma rom_loop_reads:
  assumes "serves_file os en path rom pos keep"
  shows "pos (p_world p) = length buf \<Longrightarrow> length buf \<le> length rom \<Longrightarrow> buf = take (length buf) rom \<Longrightarrow>
    length rom - length buf \<le> n \<Longrightarrow>
    \<exists>w. rom_loop os en n fd (length rom) buf p = Some (Inr rom, p\<lparr>p_world := w\<rparr>) \<and> keep w = keep (p_world p)"
proof (induction n arbitrary: buf p)
  case 0
  then show ?case by (intro exI [of _ "p_world p"]) simp
next
  case (Suc n)
  show ?case
  proof (cases "length buf < length rom")
    case True
    obtain j w where j: "0 < j" "j \<le> length rom - length buf"
      "ee_read en fd (length rom - length buf) (p_world p) = (Inr (take j (drop (length buf) rom)), w)"
      "pos w = length buf + j" "keep w = keep (p_world p)"
      using assms True Suc.prems(1) unfolding serves_file_def
      by (metis zero_less_diff)
    let ?bs = "take j (drop (length buf) rom)"
    have bs: "?bs \<noteq> []" "length ?bs = j" "take (length rom - length buf) ?bs = ?bs" using j(1,2) True by auto
    have buf: "buf @ ?bs = take (length buf + j) rom"
      using Suc.prems(3) by (metis take_add)
    have "\<exists>w'. rom_loop os en n fd (length rom) (buf @ ?bs) (p\<lparr>p_world := w\<rparr>) = Some (Inr rom, (p\<lparr>p_world := w\<rparr>)\<lparr>p_world := w'\<rparr>)
        \<and> keep w' = keep (p_world (p\<lparr>p_world := w\<rparr>))"
      using j(1,2,4) bs(2) True Suc.prems(4) buf by (intro Suc.IH) auto
    then show ?thesis using True j(3,5) bs by simp
  next
    case False
    then show ?thesis using Suc.prems by (intro exI [of _ "p_world p"]) simp
  qed
qed

lemma rom_read_file:
  assumes "serves_file os en path rom pos keep" "lowest_free 0 (p_fds p) = Some fd"
    and "0 < length rom" "length rom \<le> ROM_MAX" "length rom \<le> n"
  shows "\<exists>w. rom_read os en n path p = Some (Inr rom, p\<lparr>p_world := w\<rparr>) \<and> keep w = keep (p_world p)"
proof -
  obtain f w1 where w1: "os_open os path [O_RDONLY] (p_world p) = (Inr f, w1)" "pos w1 = 0" "keep w1 = keep (p_world p)"
    using assms(1) unfolding serves_file_def by blast
  obtain w2 where w2: "ee_fstat en fd w1 = (Inr (True, length rom), w2)" "pos w2 = 0" "keep w2 = keep w1"
    using assms(1) w1(2) unfolding serves_file_def by metis
  have fd: "fd < length (p_fds p)" "p_fds p ! fd = None" using lowest_free_Some [OF assms(2)] by auto
  let ?t = "(p_fds p)[fd := Some (f, True)]"
  have o1: "rom_open os path p = (Inr fd, p\<lparr>p_fds := ?t, p_world := w1\<rparr>)"
    using fd assms(2) w1(1) by (simp add: rom_open_def sys_open_def)
  have cl: "try_close fd (p\<lparr>p_fds := ?t, p_world := w\<rparr>) = p\<lparr>p_world := w\<rparr>" for w
    using close_fresh [OF assms(2), of "p\<lparr>p_fds := ?t, p_world := w\<rparr>"] by simp
  obtain w3 where w3: "rom_loop os en n fd (length rom) [] (p\<lparr>p_fds := ?t, p_world := w2\<rparr>)
      = Some (Inr rom, p\<lparr>p_fds := ?t, p_world := w3\<rparr>)" "keep w3 = keep w2"
    using rom_loop_reads [OF assms(1), of "p\<lparr>p_fds := ?t, p_world := w2\<rparr>" "[]" n fd] w2(2) assms(5) by auto
  show ?thesis
    using assms(3,4) w1(3) w2(1,3) w3 by (intro exI [of _ w3]) (simp add: rom_read_def o1 cl)
qed

section \<open>Headless\<close>

text \<open>The machine alone: \<open>k\<close> steps, each with its verdict and the machine behind it.\<close>

fun chip_trace :: "nat \<Rightarrow> Chip8 \<Rightarrow> (NshError \<times> Chip8) list option" where
  "chip_trace 0 c = Some []"
| "chip_trace (Suc k) c = do { (e, c1) \<leftarrow> cpu_step c; tr \<leftarrow> chip_trace k c1; Some ((e, c1) # tr) }"

definition machine_after :: "Chip8 \<Rightarrow> (NshError \<times> Chip8) list \<Rightarrow> Chip8" where
  "machine_after c tr = (if tr = [] then c else snd (last tr))"

definition step_fails :: "NshError \<times> Chip8 \<Rightarrow> bool" where
  "step_fails s \<longleftrightarrow> fst s \<noteq> NSH_OK"

lemma machine_after_simps [simp]:
  "machine_after c [] = c" "machine_after c ((e, c1) # tr) = machine_after c1 tr"
  by (simp_all add: machine_after_def)

lemma chip_step_total: "chip_inv c \<Longrightarrow> \<exists>e c1. cpu_step c = Some (e, c1) \<and> chip_inv c1"
  using step_safe [of c] by (cases "cpu_step c") (auto simp: chip_safe_def)

lemma chip_trace_total:
  "chip_inv c \<Longrightarrow> \<exists>tr. chip_trace k c = Some tr \<and> length tr = k \<and> chip_inv (machine_after c tr)"
proof (induction k arbitrary: c)
  case (Suc k)
  obtain e c1 where s: "cpu_step c = Some (e, c1)" "chip_inv c1" using chip_step_total [OF Suc.prems] by blast
  obtain tr where "chip_trace k c1 = Some tr" "length tr = k" "chip_inv (machine_after c1 tr)"
    using Suc.IH [OF s(2)] by blast
  then show ?case using s by (intro exI [of _ "(e, c1) # tr"]) simp
qed simp

definition report_first :: "(NshError \<times> Chip8) list \<Rightarrow> 'w Proc \<Rightarrow> 'w Proc" where
  "report_first tr p = (case find step_fails tr of None \<Rightarrow> p | Some (e, c) \<Rightarrow> report_step_error c e p)"

lemma headless_loop_trace:
  "chip_trace k c = Some tr \<Longrightarrow> headless_loop k c status p =
     Some (if status = 0 \<and> list_ex step_fails tr then 1 else status, machine_after c tr,
       if status = 0 then report_first tr p else p)"
proof (induction k arbitrary: c status p tr)
  case 0
  then show ?case by (simp add: report_first_def)
next
  case (Suc k)
  then obtain e c1 tr1 where s: "cpu_step c = Some (e, c1)" "chip_trace k c1 = Some tr1" "tr = (e, c1) # tr1"
    by (auto split: Option.bind_splits prod.splits)
  show ?case
    using Suc.IH [OF s(2)] s by (auto simp: report_first_def step_fails_def)
qed

lemma run_headless_trace:
  assumes "chip_trace k c = Some tr"
  shows "run_headless c k p = Some (if list_ex step_fails tr then 1 else 0,
     fflush (put_out (display_render_ascii (ch_fb (machine_after c tr))) (report_first tr p)))"
  using headless_loop_trace [OF assms, of 0 p] by (simp add: run_headless_def)

lemma load_ok:
  assumes "0 < length rom" "length rom \<le> ROM_MAX"
  shows "\<exists>c. cpu_load_rom cpu_init (Some rom) = Some (NSH_OK, c) \<and> chip_inv c"
proof -
  obtain e c where c: "cpu_load_rom cpu_init (Some rom) = Some (e, c)" "chip_inv c"
    using load_safe [OF init_inv, of "Some rom"] by (auto simp: chip_safe_def split: option.splits)
  moreover have "e = NSH_OK"
    using c(1) assms by (auto simp: cpu_load_rom_def ROM_MAX_def split: Option.bind_splits if_splits)
  ultimately show ?thesis by blast
qed

lemma parse_cycles_dec:
  assumes "k < 2 ^ 64"
  shows "parse_cycles (dec_nat k) = Some k"
proof -
  obtain ch cs where cs: "dec_nat k = ch # cs" "is_digit ch" "\<not> is_space ch" "ch \<noteq> CHR ''-''" "ch \<noteq> CHR ''+''"
    "takeWhile is_digit cs = cs" "dropWhile is_digit cs = []" "undec (ch # cs) = k"
    by (rule dec_nat_cons)
  then have "strtoul (dec_nat k) = (k, [], False)"
    using assms by (simp add: strtoul_def Let_def ULONG_MAX_def cs(6,7))
  then show ?thesis by (simp add: parse_cycles_def dec_nat_nonempty [symmetric])
qed

text \<open>C27: With a cycle count in the environment, the builtin loads the file's bytes, whatever the sizes
  of the reads, lets the machine take exactly that many steps whether or not one of them fails,
  reports the first failing step only, prints the screen as the last step left it, returns 1
  exactly when some step failed, and leaves the shell's descriptors and everything else alone.\<close>

theorem emu_headless_prints_screen:
  assumes "serves_file os en path rom pos keep" "lowest_free 0 (p_fds p) = Some fd"
    and "0 < length rom" "length rom \<le> ROM_MAX" "length rom \<le> n"
    and "getenv (p_env p) ''NSH_EMU_HEADLESS'' = Some (dec_nat k)" "k < 2 ^ 64"
  shows "\<exists>c tr w. cpu_load_rom cpu_init (Some rom) = Some (NSH_OK, c) \<and> chip_trace k c = Some tr \<and> length tr = k
     \<and> emu_builtin os en n r st [name, path] p = Some (if list_ex step_fails tr then 1 else 0, st,
         fflush (put_out (display_render_ascii (ch_fb (machine_after c tr))) (report_first tr (p\<lparr>p_world := w\<rparr>))))"
proof -
  obtain w where w: "rom_read os en n path p = Some (Inr rom, p\<lparr>p_world := w\<rparr>)"
    using rom_read_file [OF assms(1-5)] by blast
  obtain c where c: "cpu_load_rom cpu_init (Some rom) = Some (NSH_OK, c)" "chip_inv c"
    using load_ok [OF assms(3,4)] by blast
  obtain tr where tr: "chip_trace k c = Some tr" "length tr = k" using chip_trace_total [OF c(2)] by blast
  have "emu_builtin os en n r st [name, path] p = Some (if list_ex step_fails tr then 1 else 0, st,
         fflush (put_out (display_render_ascii (ch_fb (machine_after c tr))) (report_first tr (p\<lparr>p_world := w\<rparr>))))"
    by (simp add: emu_builtin_def assms(6) parse_cycles_dec [OF assms(7)] emu_run_def w c(1)
        run_headless_trace [OF tr(1)])
  with c(1) tr show ?thesis by blast
qed

section \<open>Keys\<close>

text \<open>
  The machine's view of the keypad agrees with the loop's table of held keys: a key is down exactly
  when its entry is not 0.
\<close>

definition keys_match :: "Chip8 \<Rightarrow> int list \<Rightarrow> bool" where
  "keys_match c held \<longleftrightarrow> length held = KEY_COUNT \<and> (\<forall>k<KEY_COUNT. bit (ch_keys c) k \<longleftrightarrow> held ! k \<noteq> 0)"

lemma key_event_up:
  assumes "k < KEY_COUNT"
  shows "\<exists>c1. cpu_key_event c (int k) False = Some c1 \<and> (\<forall>j<KEY_COUNT. bit (ch_keys c1) j \<longleftrightarrow> bit (ch_keys c) j \<and> j \<noteq> k)"
  using assms
  by (auto simp: cpu_key_event_def KEY_COUNT_def Let_def bit_and_iff bit_not_iff bit_exp_iff possible_bit_word)

lemma key_event_down:
  assumes "k < KEY_COUNT" "chip_inv c"
  shows "\<exists>c1. cpu_key_event c (int k) True = Some c1 \<and> chip_inv c1
    \<and> (\<forall>j<KEY_COUNT. bit (ch_keys c1) j \<longleftrightarrow> bit (ch_keys c) j \<or> j = k)"
proof -
  obtain c1 where c1: "cpu_key_event c (int k) True = Some c1" "chip_inv c1" using key_safe [OF assms(2)] by blast
  then have "ch_keys c1 = ch_keys c OR push_bit k 1"
    using assms(1) by (auto simp: cpu_key_event_def KEY_COUNT_def Let_def set_v_def split: if_splits)
  with c1 assms(1) show ?thesis by (auto simp: bit_or_iff bit_exp_iff possible_bit_word KEY_COUNT_def)
qed

lemma release_loop_spec:
  assumes "distinct ks" "\<forall>k\<in>set ks. k < KEY_COUNT"
  shows "keys_match c held \<Longrightarrow> chip_inv c \<Longrightarrow> \<exists>c1 held1. release_loop ks now c held = Some (c1, held1)
    \<and> keys_match c1 held1 \<and> chip_inv c1
    \<and> (\<forall>j<KEY_COUNT. held1 ! j = (if j \<in> set ks \<and> now - held ! j \<ge> KEY_HOLD_NS then 0 else held ! j))"
  using assms
proof (induction ks arbitrary: c held)
  case (Cons k ks)
  have k: "k < KEY_COUNT" "k < length held" "k \<notin> set ks" and rest: "distinct ks" "\<forall>k\<in>set ks. k < KEY_COUNT"
    using Cons.prems by (auto simp: keys_match_def)
  show ?case
  proof (cases "held ! k \<noteq> 0 \<and> KEY_HOLD_NS \<le> now - held ! k")
    case True
    obtain c1 where c1: "cpu_key_event c (int k) False = Some c1" "chip_inv c1"
      "\<forall>j<KEY_COUNT. bit (ch_keys c1) j \<longleftrightarrow> bit (ch_keys c) j \<and> j \<noteq> k"
      using key_event_up [OF k(1), of c] key_safe [OF Cons.prems(2), of "int k" False] by auto
    have m: "keys_match c1 (held[k := 0])"
      using Cons.prems(1) c1(3) k(2) by (auto simp: keys_match_def nth_list_update)
    obtain c2 held2 where "release_loop ks now c1 (held[k := 0]) = Some (c2, held2)" "keys_match c2 held2" "chip_inv c2"
      "\<forall>j<KEY_COUNT. held2 ! j = (if j \<in> set ks \<and> now - held[k := 0] ! j \<ge> KEY_HOLD_NS then 0 else held[k := 0] ! j)"
      using Cons.IH [OF m c1(2) rest] by blast
    then show ?thesis using True c1(1) k by (auto simp: rd_def wr_def nth_list_update)
  next
    case False
    obtain c2 held2 where r: "release_loop ks now c held = Some (c2, held2)" "keys_match c2 held2" "chip_inv c2"
      "\<forall>j<KEY_COUNT. held2 ! j = (if j \<in> set ks \<and> now - held ! j \<ge> KEY_HOLD_NS then 0 else held ! j)"
      using Cons.IH [OF Cons.prems(1,2) rest] by blast
    have "\<forall>j<KEY_COUNT. held2 ! j = (if j \<in> set (k # ks) \<and> now - held ! j \<ge> KEY_HOLD_NS then 0 else held ! j)"
      using r(4) False k by auto
    moreover have "release_loop (k # ks) now c held = Some (c2, held2)" using r(1) False k(2) by (auto simp: rd_def)
    ultimately show ?thesis using r(2,3) by blast
  qed
qed simp

lemma release_stale_keys_spec:
  assumes "keys_match c held" "chip_inv c"
  shows "\<exists>c1 held1. release_stale_keys now c held = Some (c1, held1) \<and> keys_match c1 held1 \<and> chip_inv c1
    \<and> (\<forall>j<KEY_COUNT. held1 ! j = (if now - held ! j \<ge> KEY_HOLD_NS then 0 else held ! j))"
  using release_loop_spec [of "[0..<KEY_COUNT]" c held now] assms by (simp add: release_stale_keys_def)

text \<open>One round of a session: the signals that arrive, the clock, and the keys that are pending.\<close>

record Round =
  rnd_signals :: "int list"
  rnd_now :: int
  rnd_keys :: string

text \<open>
  A system with a working terminal, whose world is the script of the rounds to come beside anything
  else: reads take the keys of the current round, the sleep ends it.
\<close>

definition emu_serves :: "(Round list \<times> 'v) Os \<Rightarrow> (Round list \<times> 'v) EmuEnv \<Rightarrow> bool" where
  "emu_serves os en \<longleftrightarrow>
     (\<forall>r rs v. os_signals os (r # rs, v) = (rnd_signals r, (r\<lparr>rnd_signals := []\<rparr> # rs, v))
        \<and> os_read os (r # rs, v) = (case rnd_keys r of [] \<Rightarrow> (Inr None, (r # rs, v))
             | b # bs \<Rightarrow> (Inr (Some b), (r\<lparr>rnd_keys := bs\<rparr> # rs, v)))
        \<and> ee_now en (r # rs, v) = (rnd_now r, (r # rs, v))
        \<and> ee_idle en (r # rs, v) = (rs, v))
     \<and> (\<forall>s w. os_write os s w = (Inr (length s), w))
     \<and> (\<forall>w. os_tcgetattr os w = (0, w) \<and> os_getfl os w = (0, w))
     \<and> (\<forall>how t b w. os_tcsetattr os how t w = (0, w) \<and> os_setfl os b w = (0, w))
     \<and> (\<forall>sig w. ee_sigaction en sig w = (0, w))"

lemma emu_simps:
  assumes "emu_serves os en"
  shows "os_signals os (r # rs, v) = (rnd_signals r, (r\<lparr>rnd_signals := []\<rparr> # rs, v))"
    "os_read os (r # rs, v) = (case rnd_keys r of [] \<Rightarrow> (Inr None, (r # rs, v))
         | b # bs \<Rightarrow> (Inr (Some b), (r\<lparr>rnd_keys := bs\<rparr> # rs, v)))"
    "ee_now en (r # rs, v) = (rnd_now r, (r # rs, v))" "ee_idle en (r # rs, v) = (rs, v)"
    "os_write os s w = (Inr (length s), w)" "os_tcgetattr os w = (0, w)" "os_getfl os w = (0, w)"
    "os_tcsetattr os how t w = (0, w)" "os_setfl os b w = (0, w)" "ee_sigaction en sig w = (0, w)"
  using assms by (cases w; simp add: emu_serves_def)+

lemma keypad_range: "keypad_map ch < 16"
  by (simp add: keypad_map_def)

definition typed :: "string \<Rightarrow> nat \<Rightarrow> bool" where
  "typed ks k \<longleftrightarrow> (\<exists>ch\<in>set ks. keypad_map ch = int k)"

lemma typed_simps [simp]: "\<not> typed [] k" "typed (ch # ks) k \<longleftrightarrow> keypad_map ch = int k \<or> typed ks k"
  by (auto simp: typed_def)

lemma drain_input_spec:
  assumes "emu_serves os en" "now \<noteq> 0"
  shows "keys_match c held \<Longrightarrow> chip_inv c \<Longrightarrow> p_world p = (r # rs, v) \<Longrightarrow> rnd_keys r = ks \<Longrightarrow> length ks + 1 \<le> n \<Longrightarrow>
    \<exists>c1 held1 r1. drain_input os n now c held p = Some (KEY_ESC \<in> set ks, c1, held1, p\<lparr>p_world := (r1 # rs, v)\<rparr>)
      \<and> keys_match c1 held1 \<and> chip_inv c1
      \<and> (KEY_ESC \<notin> set ks \<longrightarrow> r1 = r\<lparr>rnd_keys := []\<rparr> \<and> (\<forall>j<KEY_COUNT. held1 ! j = (if typed ks j then now else held ! j)))"
proof (induction ks arbitrary: n c held p r)
  case Nil
  then obtain m where n: "n = Suc m" by (cases n) auto
  have "term_read_key os p = (None, p\<lparr>p_world := (r # rs, v)\<rparr>)"
    using Nil by (simp add: term_read_key_def emu_simps [OF assms(1)])
  moreover have "r\<lparr>rnd_keys := []\<rparr> = r" using Nil(4) by (cases r) simp
  ultimately show ?case
    using Nil(1,2) n by (intro exI [of _ c] exI [of _ held] exI [of _ r]) simp
next
  case (Cons ch ks)
  then obtain m where n: "n = Suc m" "length ks + 1 \<le> m" by (cases n) auto
  let ?r = "r\<lparr>rnd_keys := ks\<rparr>" and ?k = "nat (keypad_map ch)"
  let ?p = "p\<lparr>p_world := (?r # rs, v)\<rparr>"
  have read: "term_read_key os p = (Some ch, ?p)"
    using Cons.prems(3,4) by (simp add: term_read_key_def emu_simps [OF assms(1)])
  consider (esc) "ch = KEY_ESC" | (key) "ch \<noteq> KEY_ESC" "keypad_map ch \<ge> 0" | (other) "ch \<noteq> KEY_ESC" "keypad_map ch < 0"
    by linarith
  then show ?case
  proof cases
    case esc
    then show ?thesis
      using Cons.prems(1,2) n read by (intro exI [of _ c] exI [of _ held] exI [of _ ?r]) simp
  next
    case key
    have k: "?k < KEY_COUNT" "int ?k = keypad_map ch" using keypad_range [of ch] key(2) by (auto simp: KEY_COUNT_def)
    obtain c1 where c1: "cpu_key_event c (keypad_map ch) True = Some c1" "chip_inv c1"
      "\<forall>j<KEY_COUNT. bit (ch_keys c1) j \<longleftrightarrow> bit (ch_keys c) j \<or> j = ?k"
      using key_event_down [OF k(1) Cons.prems(2)] k(2) by auto
    have len: "?k < length held" using Cons.prems(1) k(1) by (simp add: keys_match_def)
    have m: "keys_match c1 (held[?k := now])"
      using Cons.prems(1) c1(3) len assms(2) by (auto simp: keys_match_def nth_list_update)
    obtain c2 held2 r2 where ih: "drain_input os m now c1 (held[?k := now]) ?p
        = Some (KEY_ESC \<in> set ks, c2, held2, ?p\<lparr>p_world := (r2 # rs, v)\<rparr>)" "keys_match c2 held2" "chip_inv c2"
      "KEY_ESC \<notin> set ks \<longrightarrow> r2 = ?r\<lparr>rnd_keys := []\<rparr>
         \<and> (\<forall>j<KEY_COUNT. held2 ! j = (if typed ks j then now else held[?k := now] ! j))"
      using Cons.IH [OF m c1(2), of ?p ?r m] n(2) by auto
    have d: "drain_input os n now c held p = Some (KEY_ESC \<in> set (ch # ks), c2, held2, p\<lparr>p_world := (r2 # rs, v)\<rparr>)"
      using key n(1) read ih(1) c1(1) len by (simp add: wr_def)
    have "held2 ! j = (if typed (ch # ks) j then now else held ! j)" if "KEY_ESC \<notin> set ks" "j < KEY_COUNT" for j
      using ih(4) that k(2) len by (cases "j = ?k") auto
    then show ?thesis using d ih(2-4) by auto
  next
    case other
    obtain c2 held2 r2 where ih: "drain_input os m now c held ?p
        = Some (KEY_ESC \<in> set ks, c2, held2, ?p\<lparr>p_world := (r2 # rs, v)\<rparr>)" "keys_match c2 held2" "chip_inv c2"
      "KEY_ESC \<notin> set ks \<longrightarrow> r2 = ?r\<lparr>rnd_keys := []\<rparr> \<and> (\<forall>j<KEY_COUNT. held2 ! j = (if typed ks j then now else held ! j))"
      using Cons.IH [OF Cons.prems(1,2), of ?p ?r m] n(2) by auto
    have d: "drain_input os n now c held p = Some (KEY_ESC \<in> set (ch # ks), c2, held2, p\<lparr>p_world := (r2 # rs, v)\<rparr>)"
      using other n(1) read ih(1) by simp
    have "typed (ch # ks) j = typed ks j" for j using other(2) by auto
    then show ?thesis using d ih(2-4) by auto
  qed
qed

text \<open>C26: What the machine sees of the keyboard. After the input of a round is read and stale keys are
  let go, a key is down exactly when it was typed in this round, or was down and typed less than a
  tenth of a second ago; the table of held keys agrees with the machine again, and all
  pending bytes have been taken.\<close>

theorem emu_key_down_until_expiry:
  assumes "emu_serves os en" "now \<noteq> 0" "keys_match c held" "chip_inv c" "p_world p = (r # rs, v)"
    and "length (rnd_keys r) + 1 \<le> n" "KEY_ESC \<notin> set (rnd_keys r)"
  shows "\<exists>c1 held1 c2 held2. drain_input os n now c held p = Some (False, c1, held1, p\<lparr>p_world := (r\<lparr>rnd_keys := []\<rparr> # rs, v)\<rparr>)
    \<and> release_stale_keys now c1 held1 = Some (c2, held2) \<and> keys_match c2 held2
    \<and> (\<forall>k<KEY_COUNT. bit (ch_keys c2) k
         \<longleftrightarrow> typed (rnd_keys r) k \<or> bit (ch_keys c) k \<and> now - held ! k < KEY_HOLD_NS)"
proof -
  obtain c1 held1 where d: "drain_input os n now c held p = Some (False, c1, held1, p\<lparr>p_world := (r\<lparr>rnd_keys := []\<rparr> # rs, v)\<rparr>)"
    "keys_match c1 held1" "chip_inv c1" "\<forall>j<KEY_COUNT. held1 ! j = (if typed (rnd_keys r) j then now else held ! j)"
    using drain_input_spec [OF assms(1-5) refl assms(6)] assms(7) by auto
  obtain c2 held2 where s: "release_stale_keys now c1 held1 = Some (c2, held2)" "keys_match c2 held2"
    "\<forall>j<KEY_COUNT. held2 ! j = (if now - held1 ! j \<ge> KEY_HOLD_NS then 0 else held1 ! j)"
    using release_stale_keys_spec [OF d(2,3)] by blast
  have "bit (ch_keys c2) k \<longleftrightarrow> typed (rnd_keys r) k \<or> bit (ch_keys c) k \<and> now - held ! k < KEY_HOLD_NS" if "k < KEY_COUNT" for k
    using that d(4) s(2,3) assms(2,3) by (auto simp: keys_match_def KEY_HOLD_NS_def)
  with d(1) s(1,2) show ?thesis by blast
qed

section \<open>Steps and ticks of a round\<close>

lemma step_loop_trace:
  "chip_inv c \<Longrightarrow> \<exists>err tr. step_loop acc c = Some (err, acc - int (length tr) * STEP_NS, machine_after c tr)
     \<and> chip_trace (length tr) c = Some tr \<and> chip_inv (machine_after c tr)
     \<and> (if err = NSH_OK then \<not> list_ex step_fails tr \<and> acc - int (length tr) * STEP_NS < STEP_NS
        else tr \<noteq> [] \<and> fst (last tr) = err \<and> \<not> list_ex step_fails (butlast tr))
     \<and> (0 \<le> acc \<longrightarrow> 0 \<le> acc - int (length tr) * STEP_NS)"
proof (induction acc c rule: step_loop.induct)
  case (1 acc c)
  show ?case
  proof (cases "acc < STEP_NS")
    case True
    then show ?thesis using 1(2) by (intro exI [of _ NSH_OK] exI [of _ "[]"]) (simp add: step_loop.simps)
  next
    case False
    obtain e c1 where s: "cpu_step c = Some (e, c1)" "chip_inv c1" using chip_step_total [OF 1(2)] by blast
    show ?thesis
    proof (cases "e = NSH_OK")
      case True
      obtain err tr where ih: "step_loop (acc - STEP_NS) c1 = Some (err, acc - STEP_NS - int (length tr) * STEP_NS, machine_after c1 tr)"
        "chip_trace (length tr) c1 = Some tr" "chip_inv (machine_after c1 tr)"
        "if err = NSH_OK then \<not> list_ex step_fails tr \<and> acc - STEP_NS - int (length tr) * STEP_NS < STEP_NS
         else tr \<noteq> [] \<and> fst (last tr) = err \<and> \<not> list_ex step_fails (butlast tr)"
        "0 \<le> acc - STEP_NS \<longrightarrow> 0 \<le> acc - STEP_NS - int (length tr) * STEP_NS"
        using 1(1) [OF False s(1) refl True s(2)] by blast
      have eq: "acc - STEP_NS - int (length tr) * STEP_NS = acc - int (length ((e, c1) # tr)) * STEP_NS"
        by (simp add: algebra_simps)
      have "step_loop acc c = step_loop (acc - STEP_NS) c1"
        using s(1) False True by (simp add: step_loop.simps [of acc])
      then show ?thesis
        using s(1) ih False True unfolding eq
        by (intro exI [of _ err] exI [of _ "(e, c1) # tr"]) (auto simp: step_fails_def)
    next
      case bad: False
      then show ?thesis
        using s False by (intro exI [of _ e] exI [of _ "[(e, c1)]"]) (auto simp: step_loop.simps [of acc])
    qed
  qed
qed

lemma timer_loop_ticks:
  "0 \<le> acc \<Longrightarrow> timer_loop acc c = (acc mod TIMER_NS, (cpu_tick_timers ^^ nat (acc div TIMER_NS)) c)"
proof (induction acc c rule: timer_loop.induct)
  case (1 acc c)
  have pos: "0 < TIMER_NS" by (simp add: emu_consts)
  show ?case
  proof (cases "acc < TIMER_NS")
    case True
    then show ?thesis using 1(2) by (simp add: timer_loop.simps [of acc])
  next
    case False
    have "nat (acc div TIMER_NS) = Suc (nat ((acc - TIMER_NS) div TIMER_NS))"
      using False pos by (simp add: nat_eq_iff int_div_pos_eq div_pos_geq pos_imp_zdiv_nonneg_iff)
    moreover have "(acc - TIMER_NS) mod TIMER_NS = acc mod TIMER_NS" using False pos by simp
    ultimately show ?thesis
      using False 1(1) [OF False] by (simp add: timer_loop.simps [of acc] funpow_swap1)
  qed
qed

section \<open>Sessions\<close>

definition term_inv :: "Termios \<Rightarrow> bool \<Rightarrow> Terminal \<Rightarrow> bool" where
  "term_inv k b t \<longleftrightarrow>
     (if raw_active t then raw_owns_screen t \<and> saved_termios t = k \<and> saved_flags t = b
      else k_termios t = k \<and> k_nonblock t = b)"

definition session_ok :: "'w Proc \<Rightarrow> (int \<Rightarrow> Disposition) \<Rightarrow> 'w Proc \<Rightarrow> bool" where
  "session_ok p0 d p \<longleftrightarrow> shell_part p = shell_part p0 \<and> sig_disp (p_sig p) = d
     \<and> term_inv (k_termios (p_term p0)) (k_nonblock (p_term p0)) (p_term p)"

lemma session_frame [simp]:
  "session_ok p0 d (p\<lparr>p_world := w\<rparr>) = session_ok p0 d p" "session_ok p0 d (p\<lparr>p_log := l\<rparr>) = session_ok p0 d p"
  "session_ok p0 d (p\<lparr>p_out := u\<rparr>) = session_ok p0 d p" "session_ok p0 d (wrote s p) = session_ok p0 d p"
  "session_ok p0 d (put_err s p) = session_ok p0 d p" "session_ok p0 d (put_out s p) = session_ok p0 d p"
  "session_ok p0 d (fflush p) = session_ok p0 d p" "session_ok p0 d (report_step_error c e p) = session_ok p0 d p"
  by (simp_all add: session_ok_def wrote_def put_err_def put_out_def fflush_def report_step_error_def)

lemma frame_world [simp]:
  "p_world (put_err s p) = p_world p" "p_world (put_out s p) = p_world p" "p_world (fflush p) = p_world p"
  "p_world (wrote s p) = p_world p" "p_world (report_step_error c e p) = p_world p"
  "p_term (wrote s p) = p_term p" "p_term (put_err s p) = p_term p" "p_term (report_step_error c e p) = p_term p"
  by (simp_all add: put_err_def put_out_def fflush_def wrote_def report_step_error_def)

lemma session_term:
  "session_ok p0 d p \<Longrightarrow> term_inv (k_termios (p_term p0)) (k_nonblock (p_term p0)) t \<Longrightarrow> session_ok p0 d (p\<lparr>p_term := t\<rparr>)"
  by (simp add: session_ok_def)

lemma write_whole: "emu_serves os en \<Longrightarrow> s \<noteq> [] \<Longrightarrow> term_write_all os (Suc n) s p = Some (NSH_OK, wrote s p)"
  by (cases s) (simp_all add: term_write_all_def emu_simps)

lemma esc_nonempty [simp]: "ESC_SHOW_CURSOR \<noteq> []" "ESC_HIDE_CURSOR \<noteq> []"
  by (simp_all add: ESC_SHOW_CURSOR_def ESC_HIDE_CURSOR_def)

lemma enter_screen:
  assumes "emu_serves os en" "session_ok p0 d p"
  shows "\<exists>q. term_enter_raw os (Suc n) p = Some (NSH_OK, q) \<and> session_ok p0 d q \<and> p_world q = p_world p"
proof (cases "raw_active (p_term p)")
  case True
  then show ?thesis using assms(2) by (simp add: term_enter_raw_def term_enter_raw_mode_def)
next
  case False
  then show ?thesis
    using assms(2)
    by (simp add: term_enter_raw_def term_enter_raw_mode_def emu_simps [OF assms(1)] write_whole [OF assms(1)]
        set_term_def sys_tcsetattr_def sys_setfl_def Let_def session_ok_def term_inv_def wrote_def)
qed

lemma exit_screen:
  assumes "emu_serves os en" "session_ok p0 d p"
  shows "\<exists>q. term_exit_raw os (Suc n) p = Some q \<and> session_ok p0 d q \<and> p_world q = p_world p \<and> \<not> raw_active (p_term q)"
proof (cases "raw_active (p_term p)")
  case True
  then show ?thesis
    using assms(2)
    by (simp add: term_exit_raw_def emu_simps [OF assms(1)] write_whole [OF assms(1)] check_def
        set_term_def sys_tcsetattr_def sys_setfl_def Let_def session_ok_def term_inv_def wrote_def)
next
  case False
  then show ?thesis using assms(2) by (simp add: term_exit_raw_def)
qed

lemma emergency_screen:
  assumes "emu_serves os en" "session_ok p0 d p"
  shows "session_ok p0 d (term_emergency_restore os p) \<and> p_world (term_emergency_restore os p) = p_world p"
  using assms(2)
  by (simp add: term_emergency_restore_def emu_simps [OF assms(1)] set_term_def sys_tcsetattr_def sys_setfl_def
      Let_def session_ok_def term_inv_def wrote_def)

lemma sigaction_simp:
  "emu_serves os en \<Longrightarrow> sys_sigaction en sig h p = (0, p\<lparr>p_sig := set_disposition sig h (p_sig p)\<rparr>)"
  by (simp add: sys_sigaction_def try_sigaction_def emu_simps)

definition prevs :: "EmuSt \<Rightarrow> Disposition \<times> Disposition" where
  "prevs st = (g_prev_tstp st, g_prev_cont st)"

lemma prevs_resume [simp]: "prevs (st\<lparr>g_resume := b\<rparr>) = prevs st" "prevs (cont_handler st) = prevs st"
  by (simp_all add: prevs_def cont_handler_def)

lemma emu_deliver_ok:
  assumes "emu_serves os en" "session_ok p0 d p" "d SIGTSTP = Tstp_handler"
  shows "\<exists>st1 q. emu_deliver os en sig (st, p) = (st1, q) \<and> session_ok p0 d q \<and> p_world q = p_world p \<and> prevs st1 = prevs st"
proof -
  let ?p1 = "term_emergency_restore os p"
  have e: "session_ok p0 d ?p1" "p_world ?p1 = p_world p" using emergency_screen [OF assms(1,2)] by auto
  have "session_ok p0 d (?p1\<lparr>p_sig := set_disposition SIGTSTP Tstp_handler (set_disposition SIGTSTP SIG_DFL (p_sig ?p1))\<rparr>)"
    using e(1) assms(3) by (auto simp: session_ok_def set_disposition_def)
  moreover have "session_ok p0 d (p\<lparr>p_sig := deliver sig (p_sig p)\<rparr>)" using assms(2) by (simp add: session_ok_def)
  ultimately show ?thesis
    using assms(2) e(2)
    by (simp add: emu_deliver_def tstp_handler_def sigaction_simp [OF assms(1)] Let_def split: Disposition.splits)
qed

lemma emu_poll_ok:
  assumes "emu_serves os en" "session_ok p0 d p" "d SIGTSTP = Tstp_handler" "p_world p = (r # rs, v)"
  shows "\<exists>st1 q. emu_poll os en (st, p) = (st1, q) \<and> session_ok p0 d q \<and> p_world q = (r\<lparr>rnd_signals := []\<rparr> # rs, v)
    \<and> prevs st1 = prevs st"
proof -
  have "\<exists>st1 q'. fold (emu_deliver os en) sigs (st, q) = (st1, q') \<and> session_ok p0 d q' \<and> p_world q' = p_world q
      \<and> prevs st1 = prevs st"
    if "session_ok p0 d q" for sigs st q using that
  proof (induction sigs arbitrary: st q)
    case (Cons s sigs)
    obtain st1 q1 where "emu_deliver os en s (st, q) = (st1, q1)" "session_ok p0 d q1" "p_world q1 = p_world q" "prevs st1 = prevs st"
      using emu_deliver_ok [OF assms(1) Cons.prems assms(3)] by blast
    with Cons.IH [of q1 st1] show ?case by simp
  qed simp
  from this [where q = "p\<lparr>p_world := (r\<lparr>rnd_signals := []\<rparr> # rs, v)\<rparr>" and st = st and sigs = "rnd_signals r"] show ?thesis
    using assms(2,4) by (simp add: emu_poll_def emu_simps [OF assms(1)])
qed

text \<open>The machine between two rounds.\<close>

definition loop_ok :: "EmuLoop \<Rightarrow> bool" where
  "loop_ok l \<longleftrightarrow> chip_inv (el_chip l) \<and> length (el_held l) = KEY_COUNT"

lemma inv_dirty [simp]: "chip_inv (c\<lparr>ch_fb_dirty := b\<rparr>) = chip_inv c"
  by (simp add: chip_inv_def)

lemma emu_resume_ok:
  assumes "emu_serves os en" "session_ok p0 d p" "loop_ok l" "p_world p = (r # rs, v)"
  shows "\<exists>st1 l1 q. emu_resume os en (Suc n) st l p = Some (True, st1, l1, q) \<and> session_ok p0 d q \<and> loop_ok l1
    \<and> p_world q = (r # rs, v) \<and> prevs st1 = prevs st"
proof -
  obtain q where q: "term_enter_raw os (Suc n) p = Some (NSH_OK, q)" "session_ok p0 d q" "p_world q = (r # rs, v)"
    using enter_screen [OF assms(1,2)] assms(4) by metis
  then show ?thesis
    using assms by (auto simp: emu_resume_def now_ns_def emu_simps loop_ok_def Let_def)
qed

lemma release_loop_total:
  "\<forall>k\<in>set ks. k < KEY_COUNT \<Longrightarrow> length held = KEY_COUNT \<Longrightarrow> chip_inv c \<Longrightarrow>
    \<exists>c1 held1. release_loop ks now c held = Some (c1, held1) \<and> chip_inv c1 \<and> length held1 = KEY_COUNT"
proof (induction ks arbitrary: c held)
  case (Cons k ks)
  obtain c1 where c1: "cpu_key_event c (int k) False = Some c1" "chip_inv c1" using key_safe [OF Cons.prems(3)] by blast
  show ?case
    using Cons.IH [of "held[k := 0]" c1] Cons.IH [of held c] Cons.prems c1 by (auto simp: rd_def wr_def)
qed simp

lemma drain_input_total:
  assumes "emu_serves os en"
  shows "length held = KEY_COUNT \<Longrightarrow> chip_inv c \<Longrightarrow> p_world p = (r # rs, v) \<Longrightarrow> rnd_keys r = ks \<Longrightarrow> length ks + 1 \<le> n \<Longrightarrow>
    \<exists>c1 held1 r1. drain_input os n now c held p = Some (KEY_ESC \<in> set ks, c1, held1, p\<lparr>p_world := (r1 # rs, v)\<rparr>)
      \<and> chip_inv c1 \<and> length held1 = KEY_COUNT"
proof (induction ks arbitrary: n c held p r)
  case Nil
  then obtain m where n: "n = Suc m" by (cases n) auto
  have "term_read_key os p = (None, p\<lparr>p_world := (r # rs, v)\<rparr>)"
    using Nil by (simp add: term_read_key_def emu_simps [OF assms])
  then show ?case using Nil(1,2) n by (intro exI [of _ c] exI [of _ held] exI [of _ r]) simp
next
  case (Cons ch ks)
  then obtain m where n: "n = Suc m" "length ks + 1 \<le> m" by (cases n) auto
  let ?r = "r\<lparr>rnd_keys := ks\<rparr>"
  let ?p = "p\<lparr>p_world := (?r # rs, v)\<rparr>"
  have read: "term_read_key os p = (Some ch, ?p)"
    using Cons.prems(3,4) by (simp add: term_read_key_def emu_simps [OF assms])
  obtain c1 where c1: "cpu_key_event c (keypad_map ch) True = Some c1" "chip_inv c1" using key_safe [OF Cons.prems(2)] by blast
  have rest: "\<exists>c1 held1 r1. drain_input os m now c' held' ?p = Some (KEY_ESC \<in> set ks, c1, held1, p\<lparr>p_world := (r1 # rs, v)\<rparr>)
      \<and> chip_inv c1 \<and> length held1 = KEY_COUNT" if "length held' = KEY_COUNT" "chip_inv c'" for c' held'
    using Cons.IH [OF that, of ?p ?r m] n(2) by simp
  consider (esc) "ch = KEY_ESC" | (key) "ch \<noteq> KEY_ESC" "keypad_map ch \<ge> 0" | (other) "ch \<noteq> KEY_ESC" "keypad_map ch < 0"
    by linarith
  then show ?case
  proof cases
    case esc
    then show ?thesis
      using Cons.prems(1,2) n read by (intro exI [of _ c] exI [of _ held] exI [of _ ?r]) simp
  next
    case key
    then show ?thesis
      using rest [of "held[nat (keypad_map ch) := now]" c1] Cons.prems(1) c1 n(1) read keypad_range [of ch]
      by (simp add: wr_def KEY_COUNT_def)
  next
    case other
    then show ?thesis using rest [OF Cons.prems(1,2)] n(1) read by simp
  qed
qed

lemma paint_ok:
  "chip_inv c \<Longrightarrow> session_ok p0 d p \<Longrightarrow> \<exists>c1 q. paint c p = (c1, q) \<and> chip_inv c1 \<and> session_ok p0 d q \<and> p_world q = p_world p"
  by (simp add: paint_def)

lemma beep_ok:
  "session_ok p0 d p \<Longrightarrow> \<exists>b q. beep_once c s p = (b, q) \<and> session_ok p0 d q \<and> p_world q = p_world p"
  by (auto simp: beep_once_def)

lemma ticks_inv: "chip_inv c \<Longrightarrow> chip_inv ((cpu_tick_timers ^^ k) c)"
  by (induction k) (auto simp: tick_inv)

lemma timer_loop_inv: "chip_inv c \<Longrightarrow> chip_inv (snd (timer_loop acc c))"
proof (induction acc c rule: timer_loop.induct)
  case (1 acc c)
  then show ?case by (cases "acc < TIMER_NS") (simp_all add: timer_loop.simps [of acc] tick_inv)
qed

lemma emu_round_ok:
  assumes os: "emu_serves os en" and p: "session_ok p0 d p" "d SIGTSTP = Tstp_handler" "p_world p = (r # rs, v)"
    and l: "loop_ok l" and n: "length (rnd_keys r) + 1 \<le> n"
  shows "\<exists>res st1 q. emu_round os en n st l p = Some (res, st1, q) \<and> session_ok p0 d q \<and> prevs st1 = prevs st
    \<and> (case res of Inl status \<Rightarrow> status = 0 \<or> status = 1
         | Inr l1 \<Rightarrow> loop_ok l1 \<and> p_world q = (rs, v) \<and> KEY_ESC \<notin> set (rnd_keys r))"
proof -
  obtain m where m: "n = Suc m" using n by (cases n) auto
  let ?r = "r\<lparr>rnd_signals := []\<rparr>"
  obtain st0 q0 where q0: "emu_poll os en (st, p) = (st0, q0)" "session_ok p0 d q0" "p_world q0 = (?r # rs, v)" "prevs st0 = prevs st"
    using emu_poll_ok [OF os p] by blast
  obtain st1 l1 q1 where q1: "emu_resume os en n st0 l q0 = Some (True, st1, l1, q1)" "session_ok p0 d q1" "loop_ok l1"
    "p_world q1 = (?r # rs, v)" "prevs st1 = prevs st0"
    using emu_resume_ok [OF os q0(2) l q0(3)] m by blast
  have now: "now_ns en q1 = (rnd_now r, q1\<lparr>p_world := (?r # rs, v)\<rparr>)"
    using q1(4) by (simp add: now_ns_def emu_simps [OF os])
  obtain c1 held1 r1 where dr: "drain_input os n (rnd_now r) (el_chip l1) (el_held l1) (q1\<lparr>p_world := (?r # rs, v)\<rparr>)
      = Some (KEY_ESC \<in> set (rnd_keys r), c1, held1, q1\<lparr>p_world := (r1 # rs, v)\<rparr>)" "chip_inv c1" "length held1 = KEY_COUNT"
    using drain_input_total [OF os, of "el_held l1" "el_chip l1" "q1\<lparr>p_world := (?r # rs, v)\<rparr>" ?r rs v "rnd_keys r" n "rnd_now r"]
      q1(3) n by (auto simp: loop_ok_def)
  show ?thesis
  proof (cases "KEY_ESC \<in> set (rnd_keys r)")
    case True
    then show ?thesis using q0(1,4) q1(1,2,5) now dr(1) by (simp add: emu_round_def)
  next
    case False
    obtain c2 held2 where rel: "release_stale_keys (rnd_now r) c1 held1 = Some (c2, held2)" "chip_inv c2" "length held2 = KEY_COUNT"
      using release_loop_total [of "[0..<KEY_COUNT]" held1 c1 "rnd_now r"] dr(2,3) by (auto simp: release_stale_keys_def)
    let ?delta = "catch_up (rnd_now r - el_prev l1)"
    obtain err acc c3 where sl: "step_loop (el_step_acc l1 + ?delta) c2 = Some (err, acc, c3)" "chip_inv c3"
      using step_loop_trace [OF rel(2)] by blast
    let ?q = "q1\<lparr>p_world := (r1 # rs, v)\<rparr>"
    have sq: "session_ok p0 d ?q" using q1(2) by simp
    show ?thesis
    proof (cases "err = NSH_OK")
      case err: False
      obtain q4 where "term_exit_raw os n ?q = Some q4" "session_ok p0 d q4" using exit_screen [OF os sq] m by blast
      then show ?thesis using q0(1,4) q1(1,5) now dr(1) False rel(1) sl(1) err by (simp add: emu_round_def)
    next
      case ok: True
      obtain tacc c4 where tm: "timer_loop (el_timer_acc l1 + ?delta) c3 = (tacc, c4)" "chip_inv c4"
        using timer_loop_inv [OF sl(2)] by (metis prod.collapse)
      obtain b q4 where be: "beep_once c4 (el_sounding l1) ?q = (b, q4)" "session_ok p0 d q4" "p_world q4 = (r1 # rs, v)"
        using beep_ok [OF sq] by force
      obtain c5 q5 where pa: "paint c4 q4 = (c5, q5)" "chip_inv c5" "session_ok p0 d q5" "p_world q5 = (r1 # rs, v)"
        using paint_ok [OF tm(2) be(2)] be(3) by metis
      show ?thesis
        using q0(1,4) q1(1,5) now dr(1) False rel(1,3) sl(1) ok tm(1) be(1) pa
        by (simp add: emu_round_def idle_def emu_simps [OF os] loop_ok_def)
    qed
  qed
qed

lemma emu_loop_ok:
  assumes os: "emu_serves os en" and d: "d SIGTSTP = Tstp_handler"
  shows "session_ok p0 d p \<Longrightarrow> p_world p = (rs, v) \<Longrightarrow> loop_ok l \<Longrightarrow> \<forall>r\<in>set rs. length (rnd_keys r) + 1 \<le> n \<Longrightarrow>
    \<exists>r\<in>set rs. KEY_ESC \<in> set (rnd_keys r) \<Longrightarrow> length rs \<le> k \<Longrightarrow>
    \<exists>status st1 q. emu_loop os en n k st l p = Some (status, st1, q) \<and> session_ok p0 d q \<and> prevs st1 = prevs st
      \<and> (status = 0 \<or> status = 1)"
proof (induction rs arbitrary: k st l p)
  case (Cons r rs)
  then obtain k1 where k: "k = Suc k1" "length rs \<le> k1" by (cases k) auto
  have n: "length (rnd_keys r) + 1 \<le> n" "\<forall>r\<in>set rs. length (rnd_keys r) + 1 \<le> n" using Cons.prems(4) by simp_all
  obtain res st1 q where r: "emu_round os en n st l p = Some (res, st1, q)" "session_ok p0 d q" "prevs st1 = prevs st"
    "case res of Inl status \<Rightarrow> status = 0 \<or> status = 1
       | Inr l1 \<Rightarrow> loop_ok l1 \<and> p_world q = (rs, v) \<and> KEY_ESC \<notin> set (rnd_keys r)"
    using emu_round_ok [OF os Cons.prems(1) d Cons.prems(2,3) n(1), of st] by blast
  show ?case
  proof (cases res)
    case (Inl status)
    then show ?thesis using r k(1) by simp
  next
    case (Inr l1)
    then have l1: "loop_ok l1" "p_world q = (rs, v)" "\<exists>r\<in>set rs. KEY_ESC \<in> set (rnd_keys r)"
      using r(4) Cons.prems(5) by auto
    show ?thesis
      using Cons.IH [OF r(2) l1(2,1) n(2) l1(3) k(2), of st1] r(1,3) k(1) Inr by simp
  qed
qed simp

text \<open>C5: The emulator gives the terminal back. However the session goes (programs that fail, stops and
  resumes at any point, any clock, any keys), if the file can be read and Escape is typed at some
  point, the builtin comes to an end with status 0 or 1, no array is left on the way, the
  terminal has the settings, the descriptor flags and no more raw mode than it had before, every
  signal has its old disposition, and the rest of the shell is unchanged.\<close>

theorem emu_session_restores:
  assumes "emu_serves os en" "serves_file os en path rom pos fst" "lowest_free 0 (p_fds p) = Some fd"
    and "0 < length rom" "length rom \<le> ROM_MAX" "length rom \<le> n"
    and "getenv (p_env p) ''NSH_EMU_HEADLESS'' = None" "interactive p" "\<not> raw_active (p_term p)"
    and "fst (p_world p) = rs" "\<exists>r\<in>set rs. KEY_ESC \<in> set (rnd_keys r)"
    and "\<forall>r\<in>set rs. length (rnd_keys r) + 1 \<le> n" "length rs \<le> k"
  shows "\<exists>status st1 q. emu_builtin os en n k st [name, path] p = Some (status, st1, q) \<and> (status = 0 \<or> status = 1)
    \<and> shell_part q = shell_part p \<and> sig_disp (p_sig q) = sig_disp (p_sig p)
    \<and> k_termios (p_term q) = k_termios (p_term p) \<and> k_nonblock (p_term q) = k_nonblock (p_term p) \<and> \<not> raw_active (p_term q)"
proof -
  obtain m where m: "n = Suc m" using assms(4,6) by (cases n) auto
  obtain w where w: "rom_read os en n path p = Some (Inr rom, p\<lparr>p_world := w\<rparr>)" "fst w = rs"
    using rom_read_file [OF assms(2-6)] assms(10) by metis
  then obtain v where v: "w = (rs, v)" by (cases w) simp
  obtain c where c: "cpu_load_rom cpu_init (Some rom) = Some (NSH_OK, c)" "chip_inv c"
    using load_ok [OF assms(4,5)] by blast
  let ?d = "(sig_disp (p_sig p))(SIGTSTP := Tstp_handler, SIGCONT := Cont_handler)"
  let ?p1 = "p\<lparr>p_world := w\<rparr>"
  let ?st1 = "st\<lparr>g_resume := False, g_prev_tstp := sig_disp (p_sig p) SIGTSTP, g_prev_cont := sig_disp (p_sig p) SIGCONT\<rparr>"
  obtain p2 where p2: "signals_install en st ?p1 = (0, ?st1, p2)" "session_ok p ?d p2" "p_world p2 = (rs, v)"
    using assms(9) v
    by (simp add: signals_install_def sigaction_simp [OF assms(1)] Let_def set_disposition_def session_ok_def term_inv_def
        SIGTSTP_def SIGCONT_def)
  have d: "?d SIGTSTP = Tstp_handler" by (simp add: SIGTSTP_def SIGCONT_def)
  obtain p3 where p3: "term_enter_raw os n p2 = Some (NSH_OK, p3)" "session_ok p ?d p3" "p_world p3 = (rs, v)"
    using enter_screen [OF assms(1) p2(2)] p2(3) m by metis
  obtain r0 rs0 where rs: "rs = r0 # rs0" using assms(11) by (cases rs) auto
  have now: "now_ns en p3 = (rnd_now r0, p3)" using p3(3) rs by (simp add: now_ns_def emu_simps [OF assms(1)])
  let ?l = "\<lparr>el_chip = c, el_held = replicate KEY_COUNT 0, el_prev = rnd_now r0, el_step_acc = 0, el_timer_acc = 0, el_sounding = False\<rparr>"
  have l: "loop_ok ?l" using c(2) by (simp add: loop_ok_def)
  obtain status st2 p4 where p4: "emu_loop os en n k ?st1 ?l p3 = Some (status, st2, p4)" "session_ok p ?d p4" "prevs st2 = prevs ?st1" "status = 0 \<or> status = 1"
    using emu_loop_ok [OF assms(1) d p3(2,3) l assms(12,11,13)] by blast
  obtain p5 where p5: "term_exit_raw os n p4 = Some p5" "session_ok p ?d p5" "\<not> raw_active (p_term p5)"
    using exit_screen [OF assms(1) p4(2)] m by blast
  have again: "term_exit_raw os n p5 = Some p5" using p5(3) by (simp add: term_exit_raw_def)
  have ri: "run_interactive_emu os en n k ?st1 c p2 = Some (status, st2, p5)"
    by (simp add: run_interactive_emu_def p3(1) now p4(1) p5(1))
  have b: "emu_builtin os en n k st [name, path] p = Some (status, st2, signals_restore en st2 p5)"
    by (simp add: emu_builtin_def assms(7,8) emu_run_def w(1) c(1) p2(1) ri again)
  have res: "signals_restore en st2 p5 = p5\<lparr>p_sig := set_disposition SIGCONT (g_prev_cont st2)
      (set_disposition SIGTSTP (g_prev_tstp st2) (p_sig p5))\<rparr>"
    by (simp add: signals_restore_def sigaction_simp [OF assms(1)])
  have disp: "sig_disp (p_sig (signals_restore en st2 p5)) = sig_disp (p_sig p)"
    using p5(2) p4(3) by (simp add: res session_ok_def set_disposition_def prevs_def SIGTSTP_def SIGCONT_def fun_upd_twist)
  have rest: "shell_part (signals_restore en st2 p5) = shell_part p" "p_term (signals_restore en st2 p5) = p_term p5"
    "k_termios (p_term p5) = k_termios (p_term p)" "k_nonblock (p_term p5) = k_nonblock (p_term p)"
    using p5(2,3) by (simp_all add: res session_ok_def term_inv_def)
  show ?thesis
    by (intro exI conjI, rule b, rule p4(4)) (simp_all add: disp rest p5(3))
qed

section \<open>A concrete system\<close>

text \<open>A system that serves one file to every \<open>open\<close>, the position being the second part of the world.\<close>

definition arcade_os :: "(Round list \<times> nat) Os" where
  "arcade_os = \<lparr>os_open = (\<lambda>path flags w. (Inr 9, (fst w, 0))), os_pipe = (\<lambda>w. (Inl EMFILE, w)),
     os_fork = (\<lambda>t w. (Inl EMFILE, w)), os_setpgid = (\<lambda>pid g w. (0, w)),
     os_tcsetpgrp = (\<lambda>fd g w. (0, w)), os_waitpid = (\<lambda>pid nohang w. (Inl ESRCH, w)),
     os_kill = (\<lambda>pid w. (0, w)), os_chdir = (\<lambda>d w. (0, w)), os_getcwd = (\<lambda>w. (Inr ''/tmp'', w)),
     os_signals = (\<lambda>w. case w of ([], v) \<Rightarrow> ([], w) | (r # rs, v) \<Rightarrow> (rnd_signals r, (r\<lparr>rnd_signals := []\<rparr> # rs, v))),
     os_execve = (\<lambda>path w. (Some ENOENT, w)),
     os_tool = (\<lambda>name argv w. (([], [], 0), w)), os_strerror = (\<lambda>e. ''error''),
     os_reap = (\<lambda>w. (None, w)), os_write = (\<lambda>s w. (Inr (length s), w)),
     os_read = (\<lambda>w. case w of ([], v) \<Rightarrow> (Inr None, w)
       | (r # rs, v) \<Rightarrow> (case rnd_keys r of [] \<Rightarrow> (Inr None, w) | b # bs \<Rightarrow> (Inr (Some b), (r\<lparr>rnd_keys := bs\<rparr> # rs, v)))),
     os_tcgetattr = (\<lambda>w. (0, w)), os_tcsetattr = (\<lambda>how t w. (0, w)), os_getfl = (\<lambda>w. (0, w)),
     os_setfl = (\<lambda>b w. (0, w))\<rparr>"

definition idle_st :: EmuSt where
  "idle_st = \<lparr>g_resume = False, g_prev_tstp = SIG_DFL, g_prev_cont = SIG_DFL\<rparr>"

definition arcade_env :: "u8 list \<Rightarrow> (Round list \<times> nat) EmuEnv" where
  "arcade_env rom = \<lparr>ee_fstat = (\<lambda>fd w. (Inr (True, length rom), w)),
     ee_read = (\<lambda>fd k w. (Inr (take k (drop (snd w) rom)), (fst w, snd w + min k (length rom - snd w)))),
     ee_now = (\<lambda>w. (case fst w of [] \<Rightarrow> 0 | r # _ \<Rightarrow> rnd_now r, w)),
     ee_idle = (\<lambda>w. (List.tl (fst w), snd w)), ee_sigaction = (\<lambda>sig w. (0, w))\<rparr>"

lemma arcade_serves: "emu_serves arcade_os (arcade_env rom)"
  by (simp add: emu_serves_def arcade_os_def arcade_env_def)

lemma arcade_file: "serves_file arcade_os (arcade_env rom) path rom snd fst"
proof -
  have "\<exists>j w'. 0 < j \<and> j \<le> k \<and> j \<le> length rom - snd w \<and> ee_read (arcade_env rom) fd k w = (Inr (take j (drop (snd w) rom)), w')
      \<and> snd w' = snd w + j \<and> fst w' = fst w" if "snd w < length rom" "0 < k" for fd k w
    using that by (intro exI [of _ "min k (length rom - snd w)"] exI [of _ "(fst w, snd w + min k (length rom - snd w))"])
      (auto simp: arcade_env_def min_def)
  moreover have "\<exists>f w'. os_open arcade_os path [O_RDONLY] w = (Inr f, w') \<and> snd w' = 0 \<and> fst w' = fst w" for w
    by (simp add: arcade_os_def)
  moreover have "\<exists>w'. ee_fstat (arcade_env rom) fd w = (Inr (True, length rom), w') \<and> snd w' = snd w \<and> fst w' = fst w" for fd w
    by (simp add: arcade_env_def)
  ultimately show ?thesis unfolding serves_file_def by blast
qed

text \<open>A program of one instruction the machine does not have.\<close>

lemma emu_headless_prints_screen_witness:
  "\<exists>q. emu_builtin arcade_os (arcade_env [0xFF, 0xFF]) 5 0 idle_st [''emu'', ''a.ch8'']
      (booted ([], 0)\<lparr>p_env := [''NSH_EMU_HEADLESS'' \<mapsto> dec_nat 1]\<rparr>) = Some (1, idle_st, q)"
proof -
  let ?p = "booted ([], 0::nat)\<lparr>p_env := [''NSH_EMU_HEADLESS'' \<mapsto> dec_nat 1]\<rparr> :: (Round list \<times> nat) Proc"
  have p: "lowest_free 0 (p_fds ?p) = Some 3" "getenv (p_env ?p) ''NSH_EMU_HEADLESS'' = Some (dec_nat 1)"
    by (simp_all add: booted_def lowest_free_def getenv_def)
  have k1: "(1::nat) < 2 ^ 64" by simp
  have rom: "0 < length [0xFF, 0xFF :: u8]" "length [0xFF, 0xFF :: u8] \<le> ROM_MAX" "length [0xFF, 0xFF :: u8] \<le> 5"
    by (simp_all add: ROM_MAX_def chip_consts)
  note h = emu_headless_prints_screen [OF arcade_file p(1) rom p(2) k1, of 0 idle_st "''emu''" "''a.ch8''"]
  obtain c tr w where c: "cpu_load_rom cpu_init (Some [0xFF, 0xFF]) = Some (NSH_OK, c)" "chip_trace 1 c = Some tr"
    "emu_builtin arcade_os (arcade_env [0xFF, 0xFF]) 5 0 idle_st [''emu'', ''a.ch8''] ?p
      = Some (if list_ex step_fails tr then 1 else 0, idle_st,
         fflush (put_out (display_render_ascii (ch_fb (machine_after c tr))) (report_first tr (?p\<lparr>p_world := w\<rparr>))))"
    using h by (elim exE conjE) (rule that)
  define m where "m = ch_mem cpu_init"
  have m: "length m = 4096" using init_inv by (simp add: m_def chip_inv_def chip_consts)
  have c': "c = cpu_init\<lparr>ch_mem := take 0x200 m @ [0xFF, 0xFF] @ drop 0x202 m\<rparr>"
    using c(1) m by (simp add: cpu_load_rom_def blit_def chip_consts m_def [symmetric])
  have f: "ch_pc cpu_init = 0x200" "\<not> ch_waiting_key cpu_init" by (simp_all add: cpu_init_def chip_consts)
  have "rd (take 0x200 m @ [0xFF, 0xFF] @ drop 0x202 m) 0x200 = Some 0xFF"
    "rd (take 0x200 m @ [0xFF, 0xFF] @ drop 0x202 m) 0x201 = Some 0xFF"
    using m by (simp_all add: rd_def nth_append)
  then have "cpu_step c = exec (c\<lparr>ch_pc := 0x202\<rparr>) 0xFFFF"
    by (simp add: c' cpu_step_def fetch_ok_def chip_consts f)
  moreover have "\<exists>e c1. exec (c\<lparr>ch_pc := 0x202\<rparr>) 0xFFFF = Some (e, c1) \<and> e \<noteq> NSH_OK"
    using init_inv by (simp add: c' exec_def exec_misc_def rd_def chip_inv_def)
  ultimately have "\<exists>e c1. cpu_step c = Some (e, c1) \<and> e \<noteq> NSH_OK" by simp
  then have "list_ex step_fails tr" using c(2) by (auto simp: step_fails_def)
  then show ?thesis using c(3) by auto
qed

lemma emu_key_down_until_expiry_witness:
  "\<exists>c1 held1 c2 held2. drain_input arcade_os 9 500 cpu_init (replicate KEY_COUNT 0)
        (booted ([\<lparr>rnd_signals = [], rnd_now = 500, rnd_keys = ''qx''\<rparr>], 0)) = Some (False, c1, held1,
        booted ([\<lparr>rnd_signals = [], rnd_now = 500, rnd_keys = []\<rparr>], 0))
      \<and> release_stale_keys 500 c1 held1 = Some (c2, held2) \<and> bit (ch_keys c2) 4 \<and> \<not> bit (ch_keys c2) 5"
proof -
  have t: "typed ''qx'' 4" "\<not> typed ''qx'' 5" by (simp_all add: keypad_map_def)
  have m: "keys_match cpu_init (replicate KEY_COUNT 0)" by (simp add: keys_match_def cpu_init_def)
  have w: "p_world (booted (rs, 0)) = (rs, 0)" for rs by (simp add: booted_def)
  show ?thesis
    using emu_key_down_until_expiry [OF arcade_serves [of "[]"] _ m init_inv w [of "[\<lparr>rnd_signals = [], rnd_now = 500, rnd_keys = ''qx''\<rparr>]"],
        of 500 9] t by (auto simp: KEY_ESC_def KEY_COUNT_def booted_def cpu_init_def)
qed

text \<open>A stop in the first round, Escape in the second.\<close>

lemma emu_session_restores_witness:
  "\<exists>status st1 q. emu_builtin arcade_os (arcade_env [0x12, 0x00]) 9 2 idle_st [''emu'', ''a.ch8'']
      (booted ([\<lparr>rnd_signals = [SIGTSTP], rnd_now = 10, rnd_keys = ''w''\<rparr>,
                \<lparr>rnd_signals = [], rnd_now = 90, rnd_keys = [KEY_ESC]\<rparr>], 0)\<lparr>interactive := True\<rparr>) = Some (status, st1, q)
     \<and> k_termios (p_term q) = cooked \<and> \<not> raw_active (p_term q)"
proof -
  let ?rs = "[\<lparr>rnd_signals = [SIGTSTP], rnd_now = 10, rnd_keys = ''w''\<rparr>, \<lparr>rnd_signals = [], rnd_now = 90, rnd_keys = [KEY_ESC]\<rparr>]"
  let ?p = "booted (?rs, 0::nat)\<lparr>interactive := True\<rparr>"
  have p: "lowest_free 0 (p_fds ?p) = Some 3" "getenv (p_env ?p) ''NSH_EMU_HEADLESS'' = None" "interactive ?p"
    "\<not> raw_active (p_term ?p)" "fst (p_world ?p) = ?rs" "k_termios (p_term ?p) = cooked"
    by (simp_all add: booted_def lowest_free_def getenv_def)
  have rom: "0 < length [0x12, 0x00 :: u8]" "length [0x12, 0x00 :: u8] \<le> ROM_MAX" "length [0x12, 0x00 :: u8] \<le> 9"
    by (simp_all add: ROM_MAX_def chip_consts)
  have k: "\<exists>r\<in>set ?rs. KEY_ESC \<in> set (rnd_keys r)" "\<forall>r\<in>set ?rs. length (rnd_keys r) + 1 \<le> 9" "length ?rs \<le> 2"
    by simp_all
  note h = emu_session_restores [OF arcade_serves arcade_file p(1) rom p(2-5) k, of idle_st "''emu''" "''a.ch8''"]
  show ?thesis
    using h [unfolded p(6)] by (elim exE conjE) (intro exI conjI, assumption+)
qed

end
