(* ===== verification/Monitor.thy ===== *)
theory Monitor
  imports Netmon Tools
begin

text \<open>
  \<open>src/netmon/capture.c\<close> and the builtin of \<open>netmon.c\<close>: the packet socket, the borrowed \<open>SIGINT\<close> and
  the capture loop with its messages. What the code asks of the system beyond \<open>Os\<close> is the record
  \<open>NmEnv\<close>. The loop over the frames alone is \<open>capture_loop\<close> of \<open>Netmon\<close>; here it runs on the system.
\<close>

section \<open>The packet socket\<close>

text \<open>
  The interface index is positive. \<open>nm_recv fd k\<close> returns the bytes of one frame, at most \<open>k\<close>;
  \<open>nm_out\<close> says whether a line could be written and flushed.
\<close>

record 'w NmEnv =
  nm_socket :: "'w \<Rightarrow> (nat + ofd) \<times> 'w"
  nm_ifindex :: "string \<Rightarrow> 'w \<Rightarrow> (nat + nat) \<times> 'w"
  nm_bind :: "nat \<Rightarrow> nat \<Rightarrow> 'w \<Rightarrow> nat \<times> 'w"
  nm_recv :: "int \<Rightarrow> nat \<Rightarrow> 'w \<Rightarrow> (nat + u8 list) \<times> 'w"
  nm_sigaction :: "int \<Rightarrow> 'w \<Rightarrow> nat \<times> 'w"
  nm_out :: "string \<Rightarrow> 'w \<Rightarrow> bool \<times> 'w"

record Capture =
  cp_fd :: int
  cp_ifname :: string

definition IFNAME_CAP :: nat where "IFNAME_CAP = 32"

definition capture_err :: "'w Os \<Rightarrow> string \<Rightarrow> string \<Rightarrow> nat \<Rightarrow> 'w Proc \<Rightarrow> 'w Proc" where
  "capture_err os ifname what err p =
     (if err = EPERM \<or> err = EACCES then put_err (nullsh_line (''netmon: '' @ ifname @ '': needs root, try sudo nullsh'')) p
      else put_err (nullsh_line (''netmon: '' @ ifname @ '': '' @ what @ '': '' @ os_strerror os err)) p)"

text \<open>The socket takes the lowest free descriptor; \<open>None\<close> is the NULL pointer.\<close>

definition sys_socket :: "'w NmEnv \<Rightarrow> 'w Proc \<Rightarrow> (nat + nat) \<times> 'w Proc" where
  "sys_socket nm p = (case lowest_free 0 (p_fds p) of
     None \<Rightarrow> (Inl EMFILE, p)
   | Some fd \<Rightarrow> (case nm_socket nm (p_world p) of
        (Inl e, w) \<Rightarrow> (Inl e, p\<lparr>p_world := w\<rparr>)
      | (Inr f, w) \<Rightarrow> (Inr fd, p\<lparr>p_fds := (p_fds p)[fd := Some (f, False)], p_world := w\<rparr>)))"

definition capture_open :: "'w Os \<Rightarrow> 'w NmEnv \<Rightarrow> string option \<Rightarrow> 'w Proc \<Rightarrow> NshError \<times> Capture \<times> 'w Proc" where
  "capture_open os nm ifname p =
     (let closed = \<lparr>cp_fd = - 1, cp_ifname = []\<rparr>;
          name = (case ifname of None \<Rightarrow> [] | Some s \<Rightarrow> s)
      in if length name = 0 \<or> length name \<ge> IFNAME_CAP
         then (NSH_ERR_IO, closed, put_err (nullsh_line ''netmon: interface name is empty or too long'') p)
         else (case sys_socket nm p of
             (Inl e, p1) \<Rightarrow> (NSH_ERR_IO, closed, capture_err os name ''socket'' e p1)
           | (Inr fd, p1) \<Rightarrow> (case nm_ifindex nm name (p_world p1) of
               (Inl e, w) \<Rightarrow> (NSH_ERR_IO, closed, try_close fd (capture_err os name ''if_nametoindex'' e (p1\<lparr>p_world := w\<rparr>)))
             | (Inr index, w) \<Rightarrow> (case nm_bind nm fd index w of (e, w1) \<Rightarrow>
                 let p2 = p1\<lparr>p_world := w1\<rparr>
                 in if e \<noteq> 0 then (NSH_ERR_IO, closed, try_close fd (capture_err os name ''bind'' e p2))
                    else (NSH_OK, closed\<lparr>cp_fd := int fd, cp_ifname := name\<rparr>, p2)))))"

definition capture_recv :: "'w NmEnv \<Rightarrow> Capture \<Rightarrow> nat \<Rightarrow> 'w Proc \<Rightarrow> (nat + u8 list) \<times> 'w Proc" where
  "capture_recv nm c cap p = (case nm_recv nm (cp_fd c) cap (p_world p) of
     (Inl e, w) \<Rightarrow> (if e = EINTR then Inr [] else Inl e, p\<lparr>p_world := w\<rparr>)
   | (Inr bs, w) \<Rightarrow> (Inr (take cap bs), p\<lparr>p_world := w\<rparr>))"

definition capture_close :: "Capture \<Rightarrow> 'w Proc \<Rightarrow> Capture \<times> 'w Proc" where
  "capture_close c p = (c\<lparr>cp_fd := - 1\<rparr>, if cp_fd c \<ge> 0 then try_close (nat (cp_fd c)) p else p)"

section \<open>The borrowed signal\<close>

definition FRAME_MAX :: nat where "FRAME_MAX = 65536"
definition STATUS_SIGINT :: int where "STATUS_SIGINT = 130"

record NmSt =
  g_stop :: bool
  g_prev_int :: Disposition

definition stop_handler :: "NmSt \<Rightarrow> NmSt" where "stop_handler st = st\<lparr>g_stop := True\<rparr>"

text \<open>The result is \<open>errno\<close>, 0 for success; the mask operation does not fail here.\<close>

definition sigint_install :: "'w NmEnv \<Rightarrow> NmSt \<Rightarrow> 'w Proc \<Rightarrow> nat \<times> NmSt \<times> 'w Proc" where
  "sigint_install nm st p =
     (let st1 = st\<lparr>g_stop := False\<rparr>; old = sig_disp (p_sig p) SIGINT
      in case try_sigaction (nm_sigaction nm SIGINT) SIGINT Stop_handler p of (e, p1) \<Rightarrow>
           (e, if e = 0 then st1\<lparr>g_prev_int := old\<rparr> else st1, p1))"

definition sigint_restore :: "'w NmEnv \<Rightarrow> NmSt \<Rightarrow> 'w Proc \<Rightarrow> 'w Proc" where
  "sigint_restore nm st p = snd (try_sigaction (nm_sigaction nm SIGINT) SIGINT (g_prev_int st) p)"

definition nm_deliver :: "int \<Rightarrow> NmSt \<times> 'w Proc \<Rightarrow> NmSt \<times> 'w Proc" where
  "nm_deliver sig r = (case r of (st, p) \<Rightarrow>
     if sig_disp (p_sig p) sig = Stop_handler then (stop_handler st, p)
     else (st, p\<lparr>p_sig := deliver sig (p_sig p)\<rparr>))"

text \<open>The signals that have arrived when the loop looks at the flag.\<close>

definition nm_poll :: "'w Os \<Rightarrow> NmSt \<times> 'w Proc \<Rightarrow> NmSt \<times> 'w Proc" where
  "nm_poll os r = (case r of (st, p) \<Rightarrow> case os_signals os (p_world p) of (sigs, w) \<Rightarrow>
     fold nm_deliver sigs (st, p\<lparr>p_world := w\<rparr>))"

section \<open>The builtin\<close>

definition netmon_usage :: "'w Proc \<Rightarrow> 'w Proc" where
  "netmon_usage p = put_err (nullsh_line ''netmon: usage: netmon IFACE [--filter tcp|udp] [--port N]'') p"

definition emit :: "'w NmEnv \<Rightarrow> string \<Rightarrow> 'w Proc \<Rightarrow> bool \<times> 'w Proc" where
  "emit nm line p = (case nm_out nm (line @ [NEWLINE]) (p_world p) of (ok, w) \<Rightarrow>
     (ok, if ok then fflush (put_out (line @ [NEWLINE]) (p\<lparr>p_world := w\<rparr>)) else p\<lparr>p_world := w\<rparr>))"

text \<open>\<open>capture_loop\<close> with a fuel of rounds.\<close>

fun monitor_loop :: "'w Os \<Rightarrow> 'w NmEnv \<Rightarrow> nat \<Rightarrow> Capture \<Rightarrow> NetmonFilter \<Rightarrow> Counts \<Rightarrow> NmSt \<Rightarrow> 'w Proc
    \<Rightarrow> (int \<times> Counts \<times> NmSt \<times> 'w Proc) option" where
  "monitor_loop os nm 0 c f n st p = None"
| "monitor_loop os nm (Suc k) c f n st p = (case nm_poll os (st, p) of (st1, p1) \<Rightarrow>
     if g_stop st1 then Some (0, n, st1, p1)
     else (case capture_recv nm c FRAME_MAX p1 of
         (Inl e, p2) \<Rightarrow> Some (1, n, st1, put_err (nullsh_line (''netmon: '' @ cp_ifname c @ '': recv: '' @ os_strerror os e)) p2)
       | (Inr buf, p2) \<Rightarrow>
           if buf = [] then monitor_loop os nm k c f n st1 p2
           else do {
             let n1 = n\<lparr>n_total := n_total n + 1\<rparr>;
             (err, pk) \<leftarrow> decode_frame (Some buf) (length buf);
             if err \<noteq> NSH_OK then monitor_loop os nm k c f (n1\<lparr>n_malformed := n_malformed n1 + 1\<rparr>) st1 p2
             else if \<not> filter_match pk f then monitor_loop os nm k c f n1 st1 p2
             else do {
               line \<leftarrow> packet_format pk;
               (case emit nm line p2 of (ok, p3) \<Rightarrow>
                  if \<not> ok then Some (1, n1, st1, p3)
                  else monitor_loop os nm k c f (n1\<lparr>n_shown := n_shown n1 + 1\<rparr>) st1 p3)
             }
           }))"

definition summary_line :: "Counts \<Rightarrow> string" where
  "summary_line n = dec_nat (n_total n) @ '' packets, '' @ dec_nat (n_shown n) @ '' shown, ''
     @ dec_nat (n_malformed n) @ '' malformed'' @ [NEWLINE]"

definition netmon_builtin :: "'w Os \<Rightarrow> 'w NmEnv \<Rightarrow> nat \<Rightarrow> NmSt \<Rightarrow> string list \<Rightarrow> 'w Proc \<Rightarrow> (int \<times> NmSt \<times> 'w Proc) option" where
  "netmon_builtin os nm k st argv p = (case parse_args argv of
     None \<Rightarrow> Some (1, st, netmon_usage p)
   | Some (ifname, f) \<Rightarrow> (case capture_open os nm (Some ifname) p of (err, c, p1) \<Rightarrow>
       if err \<noteq> NSH_OK then Some (1, st, p1)
       else (case sigint_install nm st p1 of (e, st1, p2) \<Rightarrow>
         if e \<noteq> 0 then Some (1, st1, snd (capture_close c (put_err (nullsh_line (''netmon: sigaction: '' @ os_strerror os e)) p2)))
         else do {
           (status, n, st2, p3) \<leftarrow> monitor_loop os nm k c f \<lparr>n_total = 0, n_shown = 0, n_malformed = 0\<rparr> st1 p2;
           let p4 = put_err (summary_line n) (snd (capture_close c (sigint_restore nm st2 p3)));
           Some (if status = 0 \<and> g_stop st2 then STATUS_SIGINT else status, st2, p4)
         })))"

end
