(* ===== verification/Monitor_Props.thy ===== *)
theory Monitor_Props
  imports Monitor
begin

text \<open>
  What the packet monitor promises as a builtin: over a script of signals and frames it prints what
  the loop over the frames alone prints, and it gives the descriptor and \<open>SIGINT\<close> back.
\<close>

section \<open>Scripts\<close>

text \<open>One call of \<open>recv\<close>: the signals that have arrived before it, and the frame, empty for an
  interrupted call.\<close>

record NmRound =
  nr_signals :: "int list"
  nr_frame :: "u8 list"

definition nm_serves :: "(NmRound list \<times> 'v) Os \<Rightarrow> (NmRound list \<times> 'v) NmEnv \<Rightarrow> bool" where
  "nm_serves os nm \<longleftrightarrow>
     (\<forall>r rs v. os_signals os (r # rs, v) = (nr_signals r, (r\<lparr>nr_signals := []\<rparr> # rs, v)))
     \<and> (\<forall>fd k r rs v. nm_recv nm fd k (r # rs, v)
          = (if nr_frame r = [] then Inl EINTR else Inr (take k (nr_frame r)), (rs, v)))
     \<and> (\<forall>s w. nm_out nm s w = (True, w)) \<and> (\<forall>sig w. nm_sigaction nm sig w = (0, w))
     \<and> (\<forall>w. \<exists>f. nm_socket nm w = (Inr f, w)) \<and> (\<forall>s w. \<exists>i. nm_ifindex nm s w = (Inr i, w))
     \<and> (\<forall>fd i w. nm_bind nm fd i w = (0, w))"

lemma nm_simps:
  assumes "nm_serves os nm"
  shows "os_signals os (r # rs, v) = (nr_signals r, (r\<lparr>nr_signals := []\<rparr> # rs, v))"
    "nm_recv nm fd k (r # rs, v) = (if nr_frame r = [] then Inl EINTR else Inr (take k (nr_frame r)), (rs, v))"
    "nm_out nm s w = (True, w)" "nm_sigaction nm sig w = (0, w)" "nm_bind nm fd0 i w = (0, w)"
  using assms unfolding nm_serves_def by blast+

definition events :: "NmRound list \<Rightarrow> (Recv \<times> bool) list" where
  "events rs = map (\<lambda>r. (RECV_BYTES (nr_frame r), True)) rs"

definition script_ok :: "NmRound list \<Rightarrow> bool" where
  "script_ok rs \<longleftrightarrow> list_all (\<lambda>r. SIGINT \<notin> set (nr_signals r) \<and> length (nr_frame r) \<le> FRAME_MAX) rs"

section \<open>Signals\<close>

definition only_int :: "(int \<Rightarrow> Disposition) \<Rightarrow> bool" where
  "only_int d \<longleftrightarrow> (\<forall>sig. d sig = Stop_handler \<longleftrightarrow> sig = SIGINT)"

text \<open>Signals change the flags only.\<close>

definition flags_only :: "'w Proc \<Rightarrow> 'w Proc \<Rightarrow> bool" where
  "flags_only p q \<longleftrightarrow> (\<exists>s. q = p\<lparr>p_sig := s\<rparr> \<and> sig_disp s = sig_disp (p_sig p))"

lemma flags_only_refl [simp]: "flags_only p p"
  unfolding flags_only_def by (rule exI [of _ "p_sig p"]) simp

lemma flags_only_deliver: "flags_only p (p\<lparr>p_sig := deliver sig (p_sig p)\<rparr>)"
  unfolding flags_only_def by (rule exI [of _ "deliver sig (p_sig p)"]) simp

lemma flags_only_trans: "flags_only p q \<Longrightarrow> flags_only q r \<Longrightarrow> flags_only p r"
  unfolding flags_only_def by (elim exE conjE, rename_tac s1 s2, rule_tac x = s2 in exI) simp

lemma flags_only_disp: "flags_only p q \<Longrightarrow> sig_disp (p_sig q) = sig_disp (p_sig p)"
  unfolding flags_only_def by (elim exE conjE) simp

lemma deliver_all:
  "only_int (sig_disp (p_sig p)) \<Longrightarrow> \<exists>q. fold nm_deliver sigs (st, p) = (st\<lparr>g_stop := g_stop st \<or> SIGINT \<in> set sigs\<rparr>, q) \<and> flags_only p q"
proof (induction sigs arbitrary: st p)
  case (Cons s sigs)
  have s: "sig_disp (p_sig p) s = Stop_handler \<longleftrightarrow> s = SIGINT" using Cons.prems unfolding only_int_def by blast
  obtain p1 where p1: "nm_deliver s (st, p) = (st\<lparr>g_stop := g_stop st \<or> SIGINT = s\<rparr>, p1)" "flags_only p p1"
  proof (cases "s = SIGINT")
    case True
    then show ?thesis using s that [of p] by (simp add: nm_deliver_def stop_handler_def)
  next
    case False
    then show ?thesis
      using s that [of "p\<lparr>p_sig := deliver s (p_sig p)\<rparr>"] flags_only_deliver [of p s] by (simp add: nm_deliver_def)
  qed
  obtain q where q: "fold nm_deliver sigs (st\<lparr>g_stop := g_stop st \<or> SIGINT = s\<rparr>, p1)
      = (st\<lparr>g_stop := (g_stop st \<or> SIGINT = s) \<or> SIGINT \<in> set sigs\<rparr>, q)" "flags_only p1 q"
    using Cons.IH [of p1 "st\<lparr>g_stop := g_stop st \<or> SIGINT = s\<rparr>"] Cons.prems flags_only_disp [OF p1(2)] by auto
  show ?case
    using p1(1) q(1) flags_only_trans [OF p1(2) q(2)] by (intro exI [of _ q]) (simp add: disj_assoc)
qed simp

lemma nm_poll_script:
  assumes "nm_serves os nm" "only_int (sig_disp (p_sig p))" "p_world p = (r # rs, v)"
  shows "\<exists>q. nm_poll os (st, p) = (st\<lparr>g_stop := g_stop st \<or> SIGINT \<in> set (nr_signals r)\<rparr>, q)
    \<and> flags_only (p\<lparr>p_world := (r\<lparr>nr_signals := []\<rparr> # rs, v)\<rparr>) q"
  using deliver_all [of "p\<lparr>p_world := (r\<lparr>nr_signals := []\<rparr> # rs, v)\<rparr>" "nr_signals r" st] assms(2,3)
  by (simp add: nm_poll_def nm_simps [OF assms(1)])

section \<open>The loop\<close>

text \<open>What the monitor changes: the lines on standard output, and the signal flags.\<close>

definition printed :: "string list \<Rightarrow> 'w Proc \<Rightarrow> 'w Proc \<Rightarrow> bool" where
  "printed ls p q \<longleftrightarrow> shell_part q = shell_part p \<and> sig_disp (p_sig q) = sig_disp (p_sig p) \<and> p_out q = []
     \<and> p_term q = p_term p \<and> p_log q = p_log p @ map (Pair (fd_file (p_fds p) 1)) ls"

lemma printed_refl: "p_out p = [] \<Longrightarrow> printed [] p p" by (simp add: printed_def)

lemma printed_trans: "printed ls p q \<Longrightarrow> printed ms q r \<Longrightarrow> printed (ls @ ms) p r"
  by (auto simp: printed_def shell_part_def)

lemma printed_poll: "p_out p = [] \<Longrightarrow> flags_only (p\<lparr>p_world := w\<rparr>) q \<Longrightarrow> printed [] p (q\<lparr>p_world := w'\<rparr>)"
  by (auto simp: printed_def flags_only_def)

lemma printed_emit:
  assumes "nm_serves os nm" "p_out p = []"
  shows "\<exists>q. emit nm line p = (True, q) \<and> printed [line @ [NEWLINE]] p q \<and> p_world q = p_world p"
  using assms(2)
  by (auto simp: emit_def nm_simps [OF assms(1)] printed_def fflush_def put_out_def shell_part_def Shell.defs)

lemma printed_disp: "printed ls p q \<Longrightarrow> sig_disp (p_sig q) = sig_disp (p_sig p)" by (simp add: printed_def)

lemma events_simps [simp]:
  "frames (events []) = []" "shown_packets f (events []) = []"
  "nr_frame r = [] \<Longrightarrow> frames (events (r # rs)) = frames (events rs)"
  "nr_frame r \<noteq> [] \<Longrightarrow> frames (events (r # rs)) = nr_frame r # frames (events rs)"
  by (simp_all add: frames_def events_def shown_packets_def map_filter_simps)

definition counted :: "NetmonFilter \<Rightarrow> NmRound list \<Rightarrow> Counts \<Rightarrow> Counts" where
  "counted f rs n =
     \<lparr>n_total = n_total n + length (frames (events rs)), n_shown = n_shown n + length (shown_packets f (events rs)),
      n_malformed = n_malformed n + length (filter (\<lambda>b. decoded b = None) (frames (events rs)))\<rparr>"

definition lines_of :: "NetmonFilter \<Rightarrow> NmRound list \<Rightarrow> string list" where
  "lines_of f rs = map (\<lambda>pk. packet_line pk @ [NEWLINE]) (shown_packets f (events rs))"

lemma counted_Cons:
  "counted f [] n = n"
  "nr_frame r = [] \<Longrightarrow> counted f (r # rs) n = counted f rs n"
  "nr_frame r \<noteq> [] \<Longrightarrow> decoded (nr_frame r) = None \<Longrightarrow>
     counted f (r # rs) n = counted f rs (n\<lparr>n_total := n_total n + 1, n_malformed := n_malformed n + 1\<rparr>)"
  "nr_frame r \<noteq> [] \<Longrightarrow> decoded (nr_frame r) = Some pk \<Longrightarrow> \<not> filter_match pk f \<Longrightarrow>
     counted f (r # rs) n = counted f rs (n\<lparr>n_total := n_total n + 1\<rparr>)"
  "nr_frame r \<noteq> [] \<Longrightarrow> decoded (nr_frame r) = Some pk \<Longrightarrow> filter_match pk f \<Longrightarrow>
     counted f (r # rs) n = counted f rs (n\<lparr>n_total := n_total n + 1, n_shown := n_shown n + 1\<rparr>)"
  by (simp_all add: counted_def shown_packets_def map_filter_simps)

lemma lines_of_Cons:
  "lines_of f [] = []"
  "nr_frame r = [] \<Longrightarrow> lines_of f (r # rs) = lines_of f rs"
  "nr_frame r \<noteq> [] \<Longrightarrow> decoded (nr_frame r) = None \<Longrightarrow> lines_of f (r # rs) = lines_of f rs"
  "nr_frame r \<noteq> [] \<Longrightarrow> decoded (nr_frame r) = Some pk \<Longrightarrow> \<not> filter_match pk f \<Longrightarrow> lines_of f (r # rs) = lines_of f rs"
  "nr_frame r \<noteq> [] \<Longrightarrow> decoded (nr_frame r) = Some pk \<Longrightarrow> filter_match pk f \<Longrightarrow>
     lines_of f (r # rs) = (packet_line pk @ [NEWLINE]) # lines_of f rs"
  by (simp_all add: lines_of_def shown_packets_def map_filter_simps)

lemma monitor_loop_script:
  assumes os: "nm_serves os nm" and stop: "SIGINT \<in> set (nr_signals r0)"
  shows "script_ok rs \<Longrightarrow> only_int (sig_disp (p_sig p)) \<Longrightarrow> p_world p = (rs @ [r0], v) \<Longrightarrow> p_out p = [] \<Longrightarrow> \<not> g_stop st \<Longrightarrow>
    length rs < k \<Longrightarrow>
    \<exists>q. monitor_loop os nm k c f n st p = Some (0, counted f rs n, st\<lparr>g_stop := True\<rparr>, q) \<and> printed (lines_of f rs) p q"
proof (induction rs arbitrary: k n st p)
  case Nil
  then obtain k1 where k: "k = Suc k1" by (cases k) auto
  obtain q where q: "nm_poll os (st, p) = (st\<lparr>g_stop := True\<rparr>, q)" "flags_only (p\<lparr>p_world := (r0\<lparr>nr_signals := []\<rparr> # [], v)\<rparr>) q"
    using nm_poll_script [OF os Nil.prems(2), of r0 "[]" v st] Nil.prems(3) stop by auto
  show ?case
    using k q(1) printed_poll [OF Nil.prems(4) q(2), of "p_world q"] by (simp add: counted_Cons lines_of_Cons)
next
  case (Cons r rs)
  then obtain k1 where k: "k = Suc k1" "length rs < k1" by (cases k) auto
  have r: "SIGINT \<notin> set (nr_signals r)" "length (nr_frame r) \<le> FRAME_MAX" "script_ok rs"
    using Cons.prems(1) by (simp_all add: script_ok_def)
  obtain q0 where q0: "nm_poll os (st, p) = (st, q0)"
    "flags_only (p\<lparr>p_world := (r\<lparr>nr_signals := []\<rparr> # rs @ [r0], v)\<rparr>) q0"
    using nm_poll_script [OF os Cons.prems(2), of r "rs @ [r0]" v st] Cons.prems(3,5) r(1) by auto
  let ?p1 = "q0\<lparr>p_world := (rs @ [r0], v)\<rparr>" and ?b = "nr_frame r"
  have w: "p_world q0 = (r\<lparr>nr_signals := []\<rparr> # rs @ [r0], v)" using q0(2) unfolding flags_only_def by (elim exE conjE) simp
  have recv: "capture_recv nm c FRAME_MAX q0 = (Inr ?b, ?p1)"
    using r(2) by (simp add: capture_recv_def w nm_simps [OF os])
  have p1: "printed [] p ?p1" by (rule printed_poll [OF Cons.prems(4) q0(2)])
  have rest: "\<exists>q. monitor_loop os nm k1 c f n1 st p' = Some (0, counted f rs n1, st\<lparr>g_stop := True\<rparr>, q) \<and> printed (ls @ lines_of f rs) p q"
    if "printed ls p p'" "p_world p' = (rs @ [r0], v)" for ls n1 p'
  proof -
    have "only_int (sig_disp (p_sig p'))" "p_out p' = []"
      using printed_disp [OF that(1)] Cons.prems(2) that(1) by (simp_all add: printed_def)
    from Cons.IH [OF r(3) this(1) that(2) this(2) Cons.prems(5) k(2), of n1] show ?thesis
      using printed_trans [OF that(1)] by blast
  qed
  have go: "monitor_loop os nm k c f n st p = X" if "(if ?b = [] then monitor_loop os nm k1 c f n st ?p1
           else do {
             let n1 = n\<lparr>n_total := n_total n + 1\<rparr>;
             (err, pk) \<leftarrow> decode_frame (Some ?b) (length ?b);
             if err \<noteq> NSH_OK then monitor_loop os nm k1 c f (n1\<lparr>n_malformed := n_malformed n1 + 1\<rparr>) st ?p1
             else if \<not> filter_match pk f then monitor_loop os nm k1 c f n1 st ?p1
             else do {
               line \<leftarrow> packet_format pk;
               (case emit nm line ?p1 of (ok, p3) \<Rightarrow>
                  if \<not> ok then Some (1, n1, st, p3)
                  else monitor_loop os nm k1 c f (n1\<lparr>n_shown := n_shown n1 + 1\<rparr>) st p3)
             }
           }) = X" for X
    using that Cons.prems(5) unfolding k(1) monitor_loop.simps q0(1) prod.case recv sum.case by simp
  show ?case
  proof (cases "?b = []")
    case True
    then show ?thesis using rest [OF p1, of n] by (auto simp: counted_Cons lines_of_Cons intro!: go)
  next
    case False
    show ?thesis
    proof (cases rule: decoded_cases [of ?b])
      case (bad pk)
      then show ?thesis
        using rest [OF p1, of "n\<lparr>n_total := n_total n + 1, n_malformed := n_malformed n + 1\<rparr>"] False
        by (auto simp: counted_Cons lines_of_Cons intro!: go)
    next
      case (ok pk)
      show ?thesis
      proof (cases "filter_match pk f")
        case nomatch: False
        then show ?thesis
          using rest [OF p1, of "n\<lparr>n_total := n_total n + 1\<rparr>"] False ok
          by (auto simp: counted_Cons lines_of_Cons intro!: go)
      next
        case match: True
        have line: "packet_format pk = Some (packet_line pk)"
          using ok(3) r(2) by (intro format_line) (simp add: FRAME_MAX_def)
        have "p_out ?p1 = []" using p1 by (simp add: printed_def)
        from printed_emit [OF os this] obtain p3 where p3: "emit nm (packet_line pk) ?p1 = (True, p3)"
          "printed [packet_line pk @ [NEWLINE]] ?p1 p3" "p_world p3 = (rs @ [r0], v)" by auto
        show ?thesis
          using rest [OF printed_trans [OF p1 p3(2)] p3(3), of "n\<lparr>n_total := n_total n + 1, n_shown := n_shown n + 1\<rparr>"]
            False ok match line p3(1)
          by (auto simp: counted_Cons lines_of_Cons intro!: go)
      qed
    qed
  qed
qed

section \<open>The builtin\<close>

text \<open>C11: A capture that the user ends with an interrupt. The builtin prints, each as it arrives, the lines
  of exactly the frames that decode and pass the filter, in arrival order, then the three counts on
  standard error, and returns 130; the socket is closed again, \<open>SIGINT\<close> has its old disposition,
  and the rest of the shell is as before. Interrupted calls and other signals change nothing.\<close>

theorem netmon_session:
  assumes "nm_serves os nm" "parse_args argv = Some (ifname, f)" "ifname \<noteq> []" "length ifname < IFNAME_CAP"
    and "lowest_free 0 (p_fds p) = Some fd" "2 < fd" "p_out p = []" "\<forall>sig. sig_disp (p_sig p) sig \<noteq> Stop_handler"
    and "script_ok rs" "SIGINT \<in> set (nr_signals r0)" "p_world p = (rs @ [r0], v)" "length rs < k"
  shows "\<exists>st1 q. netmon_builtin os nm k st argv p = Some (130, st1, q)
    \<and> shell_part q = shell_part p \<and> sig_disp (p_sig q) = sig_disp (p_sig p)
    \<and> p_log q = p_log p @ map (Pair (fd_file (p_fds p) 1)) (lines_of f rs)
        @ [(fd_file (p_fds p) 2, summary_line (counted f rs \<lparr>n_total = 0, n_shown = 0, n_malformed = 0\<rparr>))]"
proof -
  obtain fl where fl: "nm_socket nm (p_world p) = (Inr fl, p_world p)" using assms(1) unfolding nm_serves_def by blast
  obtain i where i: "nm_ifindex nm ifname (p_world p) = (Inr i, p_world p)" using assms(1) unfolding nm_serves_def by blast
  let ?t = "(p_fds p)[fd := Some (fl, False)]" and ?c = "\<lparr>cp_fd = int fd, cp_ifname = ifname\<rparr>"
  let ?p1 = "p\<lparr>p_fds := ?t, p_world := p_world p\<rparr>"
  have op: "capture_open os nm (Some ifname) p = (NSH_OK, ?c, ?p1)"
    using assms(3-5) fl i by (simp add: capture_open_def sys_socket_def nm_simps [OF assms(1)])
  let ?d = "sig_disp (p_sig p) SIGINT"
  let ?p2 = "?p1\<lparr>p_sig := set_disposition SIGINT Stop_handler (p_sig p)\<rparr>"
  have ins: "sigint_install nm st ?p1 = (0, st\<lparr>g_stop := False, g_prev_int := ?d\<rparr>, ?p2)"
    by (simp add: sigint_install_def try_sigaction_def nm_simps [OF assms(1)])
  have disp: "sig_disp (p_sig ?p2) = (sig_disp (p_sig p))(SIGINT := Stop_handler)" by (simp add: set_disposition_def)
  have only: "only_int (sig_disp (p_sig ?p2))" unfolding disp only_int_def using assms(8) by simp
  obtain p3 where p3: "monitor_loop os nm k ?c f \<lparr>n_total = 0, n_shown = 0, n_malformed = 0\<rparr> (st\<lparr>g_stop := False, g_prev_int := ?d\<rparr>) ?p2
      = Some (0, counted f rs \<lparr>n_total = 0, n_shown = 0, n_malformed = 0\<rparr>, st\<lparr>g_stop := True, g_prev_int := ?d\<rparr>, p3)"
    "printed (lines_of f rs) ?p2 p3"
    using monitor_loop_script [OF assms(1,10,9) only, of v "st\<lparr>g_stop := False, g_prev_int := ?d\<rparr>" k ?c f
        "\<lparr>n_total = 0, n_shown = 0, n_malformed = 0\<rparr>"] assms(7,11,12) by auto
  let ?p4 = "p3\<lparr>p_sig := set_disposition SIGINT ?d (p_sig p3)\<rparr>"
  have re: "sigint_restore nm (st\<lparr>g_stop := True, g_prev_int := ?d\<rparr>) p3 = ?p4"
    by (simp add: sigint_restore_def try_sigaction_def nm_simps [OF assms(1)])
  have fds: "p_fds ?p4 = ?t" using p3(2) by (simp add: printed_def shell_part_def)
  have cl: "capture_close ?c ?p4 = (?c\<lparr>cp_fd := - 1\<rparr>, ?p4\<lparr>p_fds := p_fds p\<rparr>)"
    using close_fresh [OF assms(5) fds] by (simp add: capture_close_def)
  let ?s = "summary_line (counted f rs \<lparr>n_total = 0, n_shown = 0, n_malformed = 0\<rparr>)"
  have b: "netmon_builtin os nm k st argv p
      = Some (130, st\<lparr>g_stop := True, g_prev_int := ?d\<rparr>, put_err ?s (?p4\<lparr>p_fds := p_fds p\<rparr>))"
    unfolding netmon_builtin_def assms(2) option.case prod.case op ins p3(1)
    by (simp add: re cl STATUS_SIGINT_def)
  have out: "fd_file ?t 1 = fd_file (p_fds p) 1" using assms(6) by (simp add: fd_file_def rd_def)
  have "shell_part (put_err ?s (?p4\<lparr>p_fds := p_fds p\<rparr>)) = shell_part p"
    using p3(2) by (simp add: printed_def shell_part_def Shell.defs put_err_def)
  moreover have "sig_disp (p_sig (put_err ?s (?p4\<lparr>p_fds := p_fds p\<rparr>))) = sig_disp (p_sig p)"
    using printed_disp [OF p3(2)] disp by (simp add: put_err_def set_disposition_def)
  moreover have "p_log (put_err ?s (?p4\<lparr>p_fds := p_fds p\<rparr>))
      = p_log p @ map (Pair (fd_file (p_fds p) 1)) (lines_of f rs) @ [(fd_file (p_fds p) 2, ?s)]"
    using p3(2) out by (simp add: printed_def put_err_def)
  ultimately show ?thesis using b by blast
qed

text \<open>A frame too short to decode arrives, then the interrupt.\<close>

definition lan_os :: "(NmRound list \<times> nat) Os" where
  "lan_os = \<lparr>os_open = (\<lambda>path flags w. (Inl ENOENT, w)), os_pipe = (\<lambda>w. (Inl EMFILE, w)),
     os_fork = (\<lambda>t w. (Inl EMFILE, w)), os_setpgid = (\<lambda>pid g w. (0, w)),
     os_tcsetpgrp = (\<lambda>fd g w. (0, w)), os_waitpid = (\<lambda>pid nohang w. (Inl ESRCH, w)),
     os_kill = (\<lambda>pid w. (0, w)), os_chdir = (\<lambda>d w. (0, w)), os_getcwd = (\<lambda>w. (Inr ''/tmp'', w)),
     os_signals = (\<lambda>w. case w of ([], v) \<Rightarrow> ([], w) | (r # rs, v) \<Rightarrow> (nr_signals r, (r\<lparr>nr_signals := []\<rparr> # rs, v))),
     os_execve = (\<lambda>path w. (Some ENOENT, w)),
     os_tool = (\<lambda>name argv w. (([], [], 0), w)), os_strerror = (\<lambda>e. ''error''),
     os_reap = (\<lambda>w. (None, w)), os_write = (\<lambda>s w. (Inr (length s), w)), os_read = (\<lambda>w. (Inr None, w)),
     os_tcgetattr = (\<lambda>w. (0, w)), os_tcsetattr = (\<lambda>how t w. (0, w)), os_getfl = (\<lambda>w. (0, w)),
     os_setfl = (\<lambda>b w. (0, w))\<rparr>"

definition lan_env :: "(NmRound list \<times> nat) NmEnv" where
  "lan_env = \<lparr>nm_socket = (\<lambda>w. (Inr 7, w)), nm_ifindex = (\<lambda>s w. (Inr 1, w)), nm_bind = (\<lambda>fd i w. (0, w)),
     nm_recv = (\<lambda>fd k w. case w of ([], v) \<Rightarrow> (Inl EINTR, w)
       | (r # rs, v) \<Rightarrow> (if nr_frame r = [] then Inl EINTR else Inr (take k (nr_frame r)), (rs, v))),
     nm_sigaction = (\<lambda>sig w. (0, w)), nm_out = (\<lambda>s w. (True, w))\<rparr>"

lemma lan_serves: "nm_serves lan_os lan_env"
  unfolding nm_serves_def by (intro conjI allI) (simp_all add: lan_os_def lan_env_def)

lemma netmon_session_witness:
  "\<exists>st1 q. netmon_builtin lan_os lan_env 2 \<lparr>g_stop = False, g_prev_int = SIG_DFL\<rparr> [''netmon'', ''lo'']
      (booted ([\<lparr>nr_signals = [], nr_frame = [1, 2]\<rparr>, \<lparr>nr_signals = [SIGINT], nr_frame = []\<rparr>], 0)) = Some (130, st1, q)
    \<and> p_log q = [(Some 2, ''1 packets, 0 shown, 1 malformed'' @ [NEWLINE])]"
proof -
  let ?rs = "[\<lparr>nr_signals = [], nr_frame = [1, 2]\<rparr>]" and ?r0 = "\<lparr>nr_signals = [SIGINT], nr_frame = []\<rparr>"
  let ?p = "booted (?rs @ [?r0], 0::nat)" and ?f = "\<lparr>nf_proto = NM_FILTER_ALL, nf_port = - 1\<rparr>"
  let ?n = "\<lparr>n_total = 0, n_shown = 0, n_malformed = 0\<rparr>"
  have args: "parse_args [''netmon'', ''lo''] = Some (''lo'', ?f)" "''lo'' \<noteq> []" "length ''lo'' < IFNAME_CAP"
    by (simp_all add: parse_args_def IFNAME_CAP_def)
  have p: "lowest_free 0 (p_fds ?p) = Some 3" "2 < (3::nat)" "p_out ?p = []" "\<forall>sig. sig_disp (p_sig ?p) sig \<noteq> Stop_handler"
    by (simp_all add: booted_def lowest_free_def signals_install_shell_def set_disposition_def IGNORED_SIGNALS_def)
  have rs: "script_ok ?rs" "SIGINT \<in> set (nr_signals ?r0)" "p_world ?p = (?rs @ [?r0], 0)" "length ?rs < 2"
    by (simp_all add: script_ok_def FRAME_MAX_def booted_def)
  have "decoded [1, 2] = None" by (simp add: decoded_def decode_frame_def ETH_HDR_LEN_def)
  then have ls: "lines_of ?f ?rs = []" "counted ?f ?rs ?n = \<lparr>n_total = 1, n_shown = 0, n_malformed = 1\<rparr>"
    by (simp_all add: lines_of_Cons counted_Cons)
  have s: "summary_line \<lparr>n_total = 1, n_shown = 0, n_malformed = 1\<rparr> = ''1 packets, 0 shown, 1 malformed'' @ [NEWLINE]"
    by code_simp
  note h = netmon_session [OF lan_serves args p rs, of "\<lparr>g_stop = False, g_prev_int = SIG_DFL\<rparr>", unfolded ls s]
  have log: "p_log ?p = []" "fd_file (p_fds ?p) 2 = Some 2" by (simp_all add: booted_def fd_file_def rd_def)
  from h show ?thesis unfolding log by (elim exE conjE) (intro exI conjI, simp_all)
qed

end
