(* ===== verification/Own.thy ===== *)
theory Own
  imports Func
begin

text \<open>
  Who owns which memory: the trees of \<open>src/shell/ast.h\<close> with the addresses of their blocks, and the
  functions that allocate and free them (\<open>ast.c\<close>, \<open>token_free\<close> of \<open>lexer.c\<close>, \<open>cmd_free\<close> and
  \<open>pipeline_free\<close> of \<open>parser.c\<close>, the table of \<open>func.c\<close>). The state is the set of live blocks; None
  is the allocator's abort, for a block that is not live. \<open>Ast\<close> and \<open>Func\<close> model what the same
  functions compute on values.
\<close>

section \<open>Blocks\<close>

text \<open>
  The allocator: a new block, and where a grown block goes, given the live ones. 0 is NULL.
  \<open>alloc.c\<close> aborts rather than returning NULL; \<open>Alloc_Props\<close> shows that it behaves like this
  towards a client that uses only blocks it was given, as long as there is room.
\<close>

record Allocator =
  al_new :: "nat set \<Rightarrow> nat"
  al_resize :: "nat set \<Rightarrow> nat \<Rightarrow> nat"

definition allocator_ok :: "Allocator \<Rightarrow> bool" where
  "allocator_ok A \<longleftrightarrow> (\<forall>B. finite B \<longrightarrow> al_new A B \<notin> B \<and> al_new A B \<noteq> 0
     \<and> (\<forall>p\<in>B. al_resize A B p = p \<or> al_resize A B p \<notin> B \<and> al_resize A B p \<noteq> 0))"

definition blk_new :: "Allocator \<Rightarrow> nat set \<Rightarrow> (nat \<times> nat set) option" where
  "blk_new A B = Some (al_new A B, insert (al_new A B) B)"

definition blk_free :: "nat \<Rightarrow> nat set \<Rightarrow> nat set option" where
  "blk_free p B = (if p = 0 then Some B else if p \<in> B then Some (B - {p}) else None)"

definition blk_resize :: "Allocator \<Rightarrow> nat \<Rightarrow> nat set \<Rightarrow> (nat \<times> nat set) option" where
  "blk_resize A p B =
     (if p = 0 then blk_new A B
      else if p \<in> B then Some (al_resize A B p, insert (al_resize A B p) (B - {p})) else None)"

text \<open>Statements one after the other.\<close>

fun in_order :: "(nat set \<Rightarrow> nat set option) list \<Rightarrow> nat set \<Rightarrow> nat set option" where
  "in_order [] B = Some B"
| "in_order (f # fs) B = do { B1 \<leftarrow> f B; in_order fs B1 }"

declare in_order.simps [simp del]

section \<open>Vectors\<close>

text \<open>The block of the items, the capacity, the items.\<close>

type_synonym 'a pvec = "nat \<times> nat \<times> 'a list"

definition pvec_init :: "Allocator \<Rightarrow> nat set \<Rightarrow> ('a pvec \<times> nat set) option" where
  "pvec_init A B = do { (s, B1) \<leftarrow> blk_new A B; Some ((s, VEC_INIT_CAP, []), B1) }"

definition pvec_push :: "Allocator \<Rightarrow> 'a pvec \<Rightarrow> 'a \<Rightarrow> nat set \<Rightarrow> ('a pvec \<times> nat set) option" where
  "pvec_push A v x B = (case v of (s, c, xs) \<Rightarrow>
     if length xs = c then do {
       (s1, B1) \<leftarrow> blk_resize A s B;
       Some ((s1, if c \<noteq> 0 then c * 2 else VEC_INIT_CAP, xs @ [x]), B1)
     }
     else Some ((s, c, xs @ [x]), B))"

text \<open>The items are freed in order, then their block; the vectors of a tree hold no NULL.\<close>

definition pvec_free_deep :: "('a \<Rightarrow> nat set \<Rightarrow> nat set option) \<Rightarrow> 'a pvec \<Rightarrow> nat set \<Rightarrow> nat set option" where
  "pvec_free_deep free_item v = (case v of (s, c, xs) \<Rightarrow> in_order (map free_item xs @ [blk_free s]))"

lemma pvec_free_deep_cong [fundef_cong]:
  assumes "v = w" "\<And>x. x \<in> set (snd (snd w)) \<Longrightarrow> f x = g x"
  shows "pvec_free_deep f v = pvec_free_deep g w"
proof -
  obtain s c xs where w: "w = (s, c, xs)" by (cases w) auto
  have "map f xs = map g xs" using assms(2) w by simp
  then show ?thesis by (simp only: pvec_free_deep_def assms(1) w prod.case)
qed

text \<open>The loop that clones every item of one vector into another.\<close>

fun push_all :: "Allocator \<Rightarrow> ('a \<Rightarrow> nat set \<Rightarrow> ('b \<times> nat set) option) \<Rightarrow> 'a list \<Rightarrow> 'b pvec \<Rightarrow> nat set
    \<Rightarrow> ('b pvec \<times> nat set) option" where
  "push_all A clone [] v B = Some (v, B)"
| "push_all A clone (x # xs) v B = do {
     (y, B1) \<leftarrow> clone x B;
     (v1, B2) \<leftarrow> pvec_push A v y B1;
     push_all A clone xs v1 B2
   }"

lemma push_all_cong [fundef_cong]:
  "A = A' \<Longrightarrow> xs = ys \<Longrightarrow> v = w \<Longrightarrow> B = B' \<Longrightarrow> (\<And>x. x \<in> set ys \<Longrightarrow> f x = g x)
    \<Longrightarrow> push_all A f xs v B = push_all A' g ys w B'"
proof (induction xs arbitrary: ys v w B A' B')
  case (Cons x xs)
  then show ?case by (auto split: prod.splits intro!: Option.bind_cong)
qed simp

section \<open>Tokens and commands\<close>

text \<open>A segment with its text; a token with its vector; a command.\<close>

datatype PSeg = PSeg nat nat string bool
datatype PTok = PTok nat TokenKind "PSeg pvec"
datatype PCmd = PCmd nat "PTok pvec" "PTok option" "PTok option" bool "PTok option"

fun seg_free :: "PSeg \<Rightarrow> nat set \<Rightarrow> nat set option" where
  "seg_free (PSeg a t text expand) = in_order [blk_free t, blk_free a]"

fun token_free :: "PTok option \<Rightarrow> nat set \<Rightarrow> nat set option" where
  "token_free None = in_order []"
| "token_free (Some (PTok a k segs)) = in_order [pvec_free_deep seg_free segs, blk_free a]"

text \<open>In the parser a taken slot of the list is NULL.\<close>

definition token_list_free :: "PTok option pvec \<Rightarrow> nat set \<Rightarrow> nat set option" where
  "token_list_free toks = pvec_free_deep token_free toks"

fun cmd_free :: "PCmd option \<Rightarrow> nat set \<Rightarrow> nat set option" where
  "cmd_free None = in_order []"
| "cmd_free (Some (PCmd a words rin rout app rerr)) =
     in_order [pvec_free_deep (\<lambda>t. token_free (Some t)) words, token_free rin, token_free rout, token_free rerr, blk_free a]"

definition pipeline_free :: "PCmd pvec \<Rightarrow> nat set \<Rightarrow> nat set option" where
  "pipeline_free cmds = pvec_free_deep (\<lambda>c. cmd_free (Some c)) cmds"

text \<open>The text of a copied segment is that of its original; a C string has no NUL.\<close>

fun seg_clone :: "Allocator \<Rightarrow> PSeg \<Rightarrow> nat set \<Rightarrow> (PSeg \<times> nat set) option" where
  "seg_clone A (PSeg a t text expand) B = do {
     (a1, B1) \<leftarrow> blk_new A B;
     (t1, B2) \<leftarrow> blk_new A B1;
     Some (PSeg a1 t1 (dup_cstr text) expand, B2)
   }"

fun token_clone_at :: "Allocator \<Rightarrow> PTok \<Rightarrow> nat set \<Rightarrow> (PTok \<times> nat set) option" where
  "token_clone_at A (PTok a k (s, c, segs)) B = do {
     (a1, B1) \<leftarrow> blk_new A B;
     (v, B2) \<leftarrow> pvec_init A B1;
     (v1, B3) \<leftarrow> push_all A (seg_clone A) segs v B2;
     Some (PTok a1 k v1, B3)
   }"

fun opt_clone :: "('a \<Rightarrow> nat set \<Rightarrow> ('b \<times> nat set) option) \<Rightarrow> 'a option \<Rightarrow> nat set \<Rightarrow> ('b option \<times> nat set) option" where
  "opt_clone clone None B = Some (None, B)"
| "opt_clone clone (Some x) B = do { (y, B1) \<leftarrow> clone x B; Some (Some y, B1) }"

lemma opt_clone_cong [fundef_cong]:
  "x = y \<Longrightarrow> B = B' \<Longrightarrow> (\<And>z. y = Some z \<Longrightarrow> f z = g z) \<Longrightarrow> opt_clone f x B = opt_clone g y B'"
  by (cases x) auto

fun cmd_clone_at :: "Allocator \<Rightarrow> PCmd \<Rightarrow> nat set \<Rightarrow> (PCmd \<times> nat set) option" where
  "cmd_clone_at A (PCmd a (s, c, words) rin rout app rerr) B = do {
     (a1, B1) \<leftarrow> blk_new A B;
     (v, B2) \<leftarrow> pvec_init A B1;
     (v1, B3) \<leftarrow> push_all A (token_clone_at A) words v B2;
     (rin1, B4) \<leftarrow> opt_clone (token_clone_at A) rin B3;
     (rout1, B5) \<leftarrow> opt_clone (token_clone_at A) rout B4;
     (rerr1, B6) \<leftarrow> opt_clone (token_clone_at A) rerr B5;
     Some (PCmd a1 v1 rin1 rout1 app rerr1, B6)
   }"

definition pipeline_clone_at :: "Allocator \<Rightarrow> PCmd pvec \<Rightarrow> PCmd pvec \<Rightarrow> nat set \<Rightarrow> (PCmd pvec \<times> nat set) option" where
  "pipeline_clone_at A src dst = push_all A (cmd_clone_at A) (snd (snd src)) dst"

section \<open>Nodes\<close>

text \<open>
  The node's block first. A pipeline has the flags \<open>background\<close> and \<open>negate\<close>; the strings of \<open>for\<close>
  and of a definition have a block of their own. An item of an and-or list is a block with the
  operator and the node.
\<close>

datatype PNode =
    PN_PIPELINE nat "PCmd pvec" bool bool
  | PN_ANDOR nat nat nat "(nat \<times> AndOrOp \<times> PNode) list"
  | PN_LIST nat nat nat "PNode list"
  | PN_IF nat nat nat "PNode list" nat nat "PNode list" "PNode option"
  | PN_WHILE nat PNode PNode
  | PN_FOR nat nat string "PTok pvec" PNode
  | PN_FUNCDEF nat nat string PNode

text \<open>\<open>ast_free\<close> of a pointer that is not NULL; \<open>opt_free\<close> is the test for NULL.\<close>

definition opt_free :: "('a \<Rightarrow> nat set \<Rightarrow> nat set option) \<Rightarrow> 'a option \<Rightarrow> nat set \<Rightarrow> nat set option" where
  "opt_free free_item x = (case x of None \<Rightarrow> in_order [] | Some y \<Rightarrow> free_item y)"

lemma opt_free_cong [fundef_cong]:
  "x = y \<Longrightarrow> (\<And>z. y = Some z \<Longrightarrow> f z = g z) \<Longrightarrow> opt_free f x = opt_free g y"
  by (cases x) (auto simp: opt_free_def)

fun ast_free :: "PNode \<Rightarrow> nat set \<Rightarrow> nat set option" where
  "ast_free (PN_PIPELINE a cmds bg neg) = in_order [pipeline_free cmds, blk_free a]"
| "ast_free (PN_ANDOR a s c items) =
     in_order [pvec_free_deep (\<lambda>(i, op, n). in_order [ast_free n, blk_free i]) (s, c, items), blk_free a]"
| "ast_free (PN_LIST a s c nodes) = in_order [pvec_free_deep ast_free (s, c, nodes), blk_free a]"
| "ast_free (PN_IF a s c conds s' c' bodies els) =
     in_order [pvec_free_deep ast_free (s, c, conds), pvec_free_deep ast_free (s', c', bodies), opt_free ast_free els, blk_free a]"
| "ast_free (PN_WHILE a cond body) = in_order [ast_free cond, ast_free body, blk_free a]"
| "ast_free (PN_FOR a v var words body) =
     in_order [blk_free v, pvec_free_deep (\<lambda>t. token_free (Some t)) words, ast_free body, blk_free a]"
| "ast_free (PN_FUNCDEF a f name body) = in_order [blk_free f, ast_free body, blk_free a]"

text \<open>The loop of \<open>if\<close>: a condition and the body at the same index, in turn.\<close>

fun push_pairs :: "Allocator \<Rightarrow> ('a \<Rightarrow> nat set \<Rightarrow> ('b \<times> nat set) option) \<Rightarrow> 'a list \<Rightarrow> 'a list \<Rightarrow> 'b pvec \<Rightarrow> 'b pvec \<Rightarrow> nat set
    \<Rightarrow> (('b pvec \<times> 'b pvec) \<times> nat set) option" where
  "push_pairs A clone [] bodies v w B = Some ((v, w), B)"
| "push_pairs A clone (x # xs) [] v w B = None"
| "push_pairs A clone (x # xs) (z # zs) v w B = do {
     (y, B1) \<leftarrow> clone x B;
     (v1, B2) \<leftarrow> pvec_push A v y B1;
     (u, B3) \<leftarrow> clone z B2;
     (w1, B4) \<leftarrow> pvec_push A w u B3;
     push_pairs A clone xs zs v1 w1 B4
   }"

lemma push_pairs_same:
  "(\<And>x. x \<in> set xs \<union> set zs \<Longrightarrow> f x = g x) \<Longrightarrow> push_pairs A f xs zs v w B = push_pairs A g xs zs v w B"
proof (induction xs arbitrary: zs v w B)
  case (Cons x xs)
  show ?case
  proof (cases zs)
    case (Cons z zs1)
    have "f x = g x" "f z = g z" using Cons.prems Cons by simp_all
    have "push_pairs A f xs zs1 v w B = push_pairs A g xs zs1 v w B" for v w B
      using Cons.prems Cons by (intro Cons.IH) simp
    then have "push_pairs A f xs zs1 = push_pairs A g xs zs1" by (intro ext)
    with \<open>f x = g x\<close> \<open>f z = g z\<close> show ?thesis by (simp add: Cons)
  qed simp
qed simp

lemma push_pairs_cong [fundef_cong]:
  "A = A' \<Longrightarrow> xs = xs' \<Longrightarrow> zs = zs' \<Longrightarrow> v = v' \<Longrightarrow> w = w' \<Longrightarrow> B = B' \<Longrightarrow> (\<And>x. x \<in> set xs' \<union> set zs' \<Longrightarrow> f x = g x)
    \<Longrightarrow> push_pairs A f xs zs v w B = push_pairs A' g xs' zs' v' w' B'"
  using push_pairs_same [of xs' zs' f g] by simp

fun ast_clone_at :: "Allocator \<Rightarrow> PNode \<Rightarrow> nat set \<Rightarrow> (PNode \<times> nat set) option" where
  "ast_clone_at A (PN_PIPELINE a cmds bg neg) = (\<lambda>B. do {
     (a1, B1) \<leftarrow> blk_new A B;
     (v, B2) \<leftarrow> pvec_init A B1;
     (v1, B3) \<leftarrow> pipeline_clone_at A cmds v B2;
     Some (PN_PIPELINE a1 v1 bg neg, B3)
   })"
| "ast_clone_at A (PN_ANDOR a s c items) = (\<lambda>B. do {
     (a1, B1) \<leftarrow> blk_new A B;
     (v, B2) \<leftarrow> pvec_init A B1;
     ((s1, c1, items1), B3) \<leftarrow> push_all A (\<lambda>(i, op, n) B. do {
         (i1, B1) \<leftarrow> blk_new A B;
         (n1, B2) \<leftarrow> ast_clone_at A n B1;
         Some ((i1, op, n1), B2)
       }) items v B2;
     Some (PN_ANDOR a1 s1 c1 items1, B3)
   })"
| "ast_clone_at A (PN_LIST a s c nodes) = (\<lambda>B. do {
     (a1, B1) \<leftarrow> blk_new A B;
     (v, B2) \<leftarrow> pvec_init A B1;
     ((s1, c1, nodes1), B3) \<leftarrow> push_all A (ast_clone_at A) nodes v B2;
     Some (PN_LIST a1 s1 c1 nodes1, B3)
   })"
| "ast_clone_at A (PN_IF a s c conds s' c' bodies els) = (\<lambda>B. do {
     (a1, B1) \<leftarrow> blk_new A B;
     (v, B2) \<leftarrow> pvec_init A B1;
     (w, B3) \<leftarrow> pvec_init A B2;
     (((s1, c1, conds1), (s2, c2, bodies1)), B4) \<leftarrow> push_pairs A (ast_clone_at A) conds bodies v w B3;
     (els1, B5) \<leftarrow> opt_clone (ast_clone_at A) els B4;
     Some (PN_IF a1 s1 c1 conds1 s2 c2 bodies1 els1, B5)
   })"
| "ast_clone_at A (PN_WHILE a cond body) = (\<lambda>B. do {
     (a1, B1) \<leftarrow> blk_new A B;
     (cond1, B2) \<leftarrow> ast_clone_at A cond B1;
     (body1, B3) \<leftarrow> ast_clone_at A body B2;
     Some (PN_WHILE a1 cond1 body1, B3)
   })"
| "ast_clone_at A (PN_FOR a v var words body) = (\<lambda>B. do {
     (a1, B1) \<leftarrow> blk_new A B;
     (ws, B2) \<leftarrow> pvec_init A B1;
     (v1, B3) \<leftarrow> blk_new A B2;
     (ws1, B4) \<leftarrow> push_all A (token_clone_at A) (snd (snd words)) ws B3;
     (body1, B5) \<leftarrow> ast_clone_at A body B4;
     Some (PN_FOR a1 v1 (dup_cstr var) ws1 body1, B5)
   })"
| "ast_clone_at A (PN_FUNCDEF a f name body) = (\<lambda>B. do {
     (a1, B1) \<leftarrow> blk_new A B;
     (f1, B2) \<leftarrow> blk_new A B1;
     (body1, B3) \<leftarrow> ast_clone_at A body B2;
     Some (PN_FUNCDEF a1 f1 (dup_cstr name) body1, B3)
   })"

section \<open>The function table\<close>

text \<open>A function is a block with a name of its own and a body; both vectors start as zeroed statics.\<close>

type_synonym PFunc = "nat \<times> nat \<times> string \<times> PNode"

record FuncMem =
  m_funcs :: "PFunc pvec"
  m_retired :: "PNode pvec"

definition no_funcs :: FuncMem where
  "no_funcs = \<lparr>m_funcs = (0, 0, []), m_retired = (0, 0, [])\<rparr>"

definition func_define_at :: "Allocator \<Rightarrow> FuncMem \<Rightarrow> string option \<Rightarrow> PNode \<Rightarrow> nat set \<Rightarrow> (FuncMem \<times> nat set) option" where
  "func_define_at A ft name body B = (case name of
     None \<Rightarrow> map_option (Pair ft) (ast_free body B)
   | Some nm \<Rightarrow> (case m_funcs ft of (s, c, fs) \<Rightarrow>
       (case find_index (\<lambda>(a, na, n, b). n = nm) fs of
          Some i \<Rightarrow> (case fs ! i of (a, na, n, old) \<Rightarrow> do {
            (r, B1) \<leftarrow> pvec_push A (m_retired ft) old B;
            Some (ft\<lparr>m_funcs := (s, c, fs[i := (a, na, n, body)]), m_retired := r\<rparr>, B1)
          })
        | None \<Rightarrow> do {
            (a, B1) \<leftarrow> blk_new A B;
            (na, B2) \<leftarrow> blk_new A B1;
            (v, B3) \<leftarrow> pvec_push A (m_funcs ft) (a, na, dup_cstr nm, body) B2;
            Some (ft\<lparr>m_funcs := v\<rparr>, B3)
          })))"

definition free_func_item :: "PFunc \<Rightarrow> nat set \<Rightarrow> nat set option" where
  "free_func_item f = (case f of (a, na, n, body) \<Rightarrow> in_order [blk_free na, ast_free body, blk_free a])"

text \<open>A freed vector is a zeroed one.\<close>

definition func_free_all_at :: "FuncMem \<Rightarrow> nat set \<Rightarrow> (FuncMem \<times> nat set) option" where
  "func_free_all_at ft B = map_option (Pair no_funcs)
     (in_order [pvec_free_deep free_func_item (m_funcs ft), pvec_free_deep ast_free (m_retired ft)] B)"

end
