(* ===== verification/Own_Props.thy ===== *)
theory Own_Props
  imports Own "HOL-Library.Multiset"
begin

text \<open>
  The blocks that a tree owns, and that the functions of \<open>Own\<close> keep account of them: freeing a
  structure releases exactly its own live blocks, each once; a copy owns new blocks only and has
  the value of its original in \<open>Ast\<close>; the function table of \<open>func.c\<close> never frees a body that may still run
  and leaves nothing behind.
\<close>

section \<open>The blocks of a structure\<close>

text \<open>In the order in which they are freed. A NULL pointer has no block.\<close>

definition ptr :: "nat \<Rightarrow> nat list" where "ptr p = (if p = 0 then [] else [p])"

definition vec_blocks :: "('a \<Rightarrow> nat list) \<Rightarrow> 'a pvec \<Rightarrow> nat list" where
  "vec_blocks bl v = (case v of (s, c, xs) \<Rightarrow> concat (map bl xs) @ ptr s)"

definition opt_blocks :: "('a \<Rightarrow> nat list) \<Rightarrow> 'a option \<Rightarrow> nat list" where
  "opt_blocks bl x = (case x of None \<Rightarrow> [] | Some y \<Rightarrow> bl y)"

lemma vec_blocks_cong [fundef_cong]:
  assumes "v = w" "\<And>x. x \<in> set (snd (snd w)) \<Longrightarrow> f x = g x"
  shows "vec_blocks f v = vec_blocks g w"
proof -
  obtain s c xs where w: "w = (s, c, xs)" by (cases w) auto
  have "map f xs = map g xs" using assms(2) w by simp
  then show ?thesis by (simp only: vec_blocks_def assms(1) w prod.case)
qed

lemma opt_blocks_cong [fundef_cong]:
  "x = y \<Longrightarrow> (\<And>z. y = Some z \<Longrightarrow> f z = g z) \<Longrightarrow> opt_blocks f x = opt_blocks g y"
  by (cases x) (auto simp: opt_blocks_def)

fun seg_blocks :: "PSeg \<Rightarrow> nat list" where
  "seg_blocks (PSeg a t text expand) = ptr t @ ptr a"

fun tok_blocks :: "PTok \<Rightarrow> nat list" where
  "tok_blocks (PTok a k segs) = vec_blocks seg_blocks segs @ ptr a"

fun cmd_blocks :: "PCmd \<Rightarrow> nat list" where
  "cmd_blocks (PCmd a words rin rout app rerr) =
     vec_blocks tok_blocks words @ opt_blocks tok_blocks rin @ opt_blocks tok_blocks rout @ opt_blocks tok_blocks rerr @ ptr a"

fun node_blocks :: "PNode \<Rightarrow> nat list" where
  "node_blocks (PN_PIPELINE a cmds bg neg) = vec_blocks cmd_blocks cmds @ ptr a"
| "node_blocks (PN_ANDOR a s c items) = vec_blocks (\<lambda>(i, op, n). node_blocks n @ ptr i) (s, c, items) @ ptr a"
| "node_blocks (PN_LIST a s c nodes) = vec_blocks node_blocks (s, c, nodes) @ ptr a"
| "node_blocks (PN_IF a s c conds s' c' bodies els) =
     vec_blocks node_blocks (s, c, conds) @ vec_blocks node_blocks (s', c', bodies) @ opt_blocks node_blocks els @ ptr a"
| "node_blocks (PN_WHILE a cond body) = node_blocks cond @ node_blocks body @ ptr a"
| "node_blocks (PN_FOR a v var words body) = ptr v @ vec_blocks tok_blocks words @ node_blocks body @ ptr a"
| "node_blocks (PN_FUNCDEF a f name body) = ptr f @ node_blocks body @ ptr a"

section \<open>Freeing\<close>

text \<open>\<open>f\<close> frees exactly these blocks, once each.\<close>

definition releases :: "(nat set \<Rightarrow> nat set option) \<Rightarrow> nat list \<Rightarrow> bool" where
  "releases f bl \<longleftrightarrow> (\<forall>B. distinct bl \<longrightarrow> set bl \<subseteq> B \<longrightarrow> f B = Some (B - set bl))"

lemma releases_blk: "releases (blk_free p) (ptr p)"
  by (simp add: releases_def blk_free_def ptr_def)

lemma releases_Nil: "releases (in_order []) []"
  by (simp add: releases_def in_order.simps)

lemma releases_Cons:
  assumes "releases f xs" "releases (in_order fs) ys"
  shows "releases (in_order (f # fs)) (xs @ ys)"
  unfolding releases_def
proof (intro allI impI)
  fix B assume B: "distinct (xs @ ys)" "set (xs @ ys) \<subseteq> B"
  have "f B = Some (B - set xs)" using assms(1) B by (simp add: releases_def)
  moreover have sub: "distinct ys" "set ys \<subseteq> B - set xs" using B by auto
  then have "in_order fs (B - set xs) = Some (B - set xs - set ys)"
    using assms(2) sub by (simp add: releases_def)
  moreover have "B - set xs - set ys = B - set (xs @ ys)" by auto
  ultimately show "in_order (f # fs) B = Some (B - set (xs @ ys))" by (simp add: in_order.simps)
qed

lemma releases_last: "releases f xs \<Longrightarrow> releases (in_order [f]) xs"
  using releases_Cons [OF _ releases_Nil, of f xs] by simp

lemma releases_all:
  "(\<And>x. x \<in> set xs \<Longrightarrow> releases (f x) (bl x)) \<Longrightarrow> releases (in_order (map f xs @ [g])) (concat (map bl xs) @ ys)"
  if "releases g ys"
proof (induction xs)
  case Nil
  then show ?case using releases_last [OF that] by simp
next
  case (Cons x xs)
  then show ?case using releases_Cons [of "f x" "bl x" "map f xs @ [g]"] by simp
qed

lemma releases_vec:
  "(\<And>x. x \<in> set (snd (snd v)) \<Longrightarrow> releases (f x) (bl x)) \<Longrightarrow> releases (pvec_free_deep f v) (vec_blocks bl v)"
  by (cases v) (simp add: pvec_free_deep_def vec_blocks_def releases_all [OF releases_blk])

lemma releases_opt: "(\<And>x. y = Some x \<Longrightarrow> releases (f x) (bl x)) \<Longrightarrow> releases (opt_free f y) (opt_blocks bl y)"
  by (cases y) (simp_all add: opt_free_def opt_blocks_def releases_Nil)

lemmas releases_rules = releases_Cons releases_last releases_vec releases_opt releases_blk

lemma seg_free_releases: "releases (seg_free x) (seg_blocks x)"
  by (cases x) (simp, intro releases_rules)

lemma token_free_releases: "releases (token_free (Some t)) (tok_blocks t)" "releases (token_free x) (opt_blocks tok_blocks x)"
proof -
  show *: "releases (token_free (Some t)) (tok_blocks t)" for t
    by (cases t) (simp, intro releases_rules seg_free_releases)
  show "releases (token_free x) (opt_blocks tok_blocks x)"
    using * by (cases x) (simp_all add: opt_blocks_def releases_Nil)
qed

lemma cmd_free_releases: "releases (cmd_free (Some c)) (cmd_blocks c)"
  by (cases c) (simp del: token_free.simps, intro releases_rules token_free_releases)

lemma ast_free_releases: "releases (ast_free n) (node_blocks n)"
proof (induction n rule: ast_free.induct)
  case (2 a s c items)
  have "releases (case x of (i, op, n) \<Rightarrow> in_order [ast_free n, blk_free i]) (case x of (i, op, n) \<Rightarrow> node_blocks n @ ptr i)"
    if "x \<in> set items" for x
  proof (cases x)
    case (fields i op n)
    with 2 that show ?thesis by (simp) (intro releases_rules, force)
  qed
  then show ?case by (simp) (intro releases_rules, simp)
next
  case (1 a cmds bg neg)
  have "releases (pipeline_free cmds) (vec_blocks cmd_blocks cmds)"
    unfolding pipeline_free_def by (intro releases_vec cmd_free_releases)
  then show ?case by simp (intro releases_rules)
next
  case (3 a s c nodes)
  then show ?case by simp (intro releases_rules, simp)
next
  case (4 a s c conds s' c' bodies els)
  then show ?case by simp (intro releases_rules, simp_all)
next
  case (5 a cond body)
  then show ?case by simp (intro releases_rules)
next
  case (6 a v var words body)
  then show ?case by simp (intro releases_rules token_free_releases)
next
  case (7 a f name body)
  then show ?case by simp (intro releases_rules)
qed

section \<open>The value of a structure\<close>

abbreviation items :: "'a pvec \<Rightarrow> 'a list" where "items v \<equiv> snd (snd v)"

fun seg_of :: "PSeg \<Rightarrow> WordSeg" where
  "seg_of (PSeg a t text expand) = \<lparr>ws_text = text, ws_expand = expand\<rparr>"

fun tok_of :: "PTok \<Rightarrow> Token" where
  "tok_of (PTok a k segs) = \<lparr>t_kind = k, t_segs = map seg_of (items segs)\<rparr>"

fun cmd_of :: "PCmd \<Rightarrow> Command" where
  "cmd_of (PCmd a words rin rout app rerr) = \<lparr>c_words = map tok_of (items words), c_redir_in = map_option tok_of rin,
     c_redir_out = map_option tok_of rout, c_redir_append = app, c_redir_err = map_option tok_of rerr\<rparr>"

fun node_of :: "PNode \<Rightarrow> Node" where
  "node_of (PN_PIPELINE a cmds bg neg) = NODE_PIPELINE \<lparr>pl_cmds = map cmd_of (items cmds), pl_background = bg\<rparr> neg"
| "node_of (PN_ANDOR a s c its) = NODE_ANDOR (map (\<lambda>(i, op, n). (op, node_of n)) its)"
| "node_of (PN_LIST a s c nodes) = NODE_LIST (map node_of nodes)"
| "node_of (PN_IF a s c conds s' c' bodies els) = NODE_IF (map node_of conds) (map node_of bodies) (map_option node_of els)"
| "node_of (PN_WHILE a cond body) = NODE_WHILE (node_of cond) (node_of body)"
| "node_of (PN_FOR a v var words body) = NODE_FOR var (map tok_of (items words)) (node_of body)"
| "node_of (PN_FUNCDEF a f name body) = NODE_FUNCDEF name (node_of body)"

text \<open>Every condition has a body.\<close>

fun paired :: "PNode \<Rightarrow> bool" where
  "paired (PN_PIPELINE a cmds bg neg) = True"
| "paired (PN_ANDOR a s c its) = list_all (\<lambda>(i, op, n). paired n) its"
| "paired (PN_LIST a s c nodes) = list_all paired nodes"
| "paired (PN_IF a s c conds s' c' bodies els) =
     (length conds = length bodies \<and> list_all paired conds \<and> list_all paired bodies \<and> pred_option paired els)"
| "paired (PN_WHILE a cond body) = (paired cond \<and> paired body)"
| "paired (PN_FOR a v var words body) = paired body"
| "paired (PN_FUNCDEF a f name body) = paired body"

section \<open>Allocating\<close>

text \<open>\<open>f\<close> returns, on every set of live blocks, a structure with property \<open>P\<close>, made of new blocks only.\<close>

definition fresh :: "nat list \<Rightarrow> nat set \<Rightarrow> nat set \<Rightarrow> bool" where
  "fresh bl B B1 \<longleftrightarrow> distinct bl \<and> set bl \<inter> B = {} \<and> B1 = B \<union> set bl"

definition makes :: "(nat set \<Rightarrow> ('a \<times> nat set) option) \<Rightarrow> ('a \<Rightarrow> nat list) \<Rightarrow> ('a \<Rightarrow> bool) \<Rightarrow> bool" where
  "makes f bl P \<longleftrightarrow> (\<forall>B. finite B \<longrightarrow> (\<exists>x B1. f B = Some (x, B1) \<and> P x \<and> fresh (bl x) B B1))"

lemma makesE:
  assumes "makes f bl P" "finite B"
  obtains x B1 where "f B = Some (x, B1)" "P x" "fresh (bl x) B B1" "finite B1"
  using assms unfolding makes_def fresh_def by (metis List.finite_set finite_UnI)

lemma fresh_trans: "fresh xs B B1 \<Longrightarrow> fresh ys B1 B2 \<Longrightarrow> fresh (xs @ ys) B B2"
  by (auto simp: fresh_def)

lemma fresh_trans': "fresh xs B B1 \<Longrightarrow> fresh ys B1 B2 \<Longrightarrow> fresh (ys @ xs) B B2"
  by (auto simp: fresh_def)

lemma fresh_Nil [simp]: "fresh [] B B" by (simp add: fresh_def)

lemma blk_new_makes: "allocator_ok A \<Longrightarrow> makes (blk_new A) ptr (\<lambda>p. p \<noteq> 0)"
  unfolding makes_def
proof (intro allI impI)
  fix B :: "nat set" assume "allocator_ok A" "finite B"
  then have "al_new A B \<notin> B" "al_new A B \<noteq> 0" by (simp_all add: allocator_ok_def)
  then show "\<exists>p B1. blk_new A B = Some (p, B1) \<and> p \<noteq> 0 \<and> fresh (ptr p) B B1"
    by (simp add: blk_new_def fresh_def ptr_def)
qed

lemma opt_clone_makes:
  assumes "\<And>z. x = Some z \<Longrightarrow> makes (f z) bl (P z)"
  shows "makes (opt_clone f x) (opt_blocks bl) (rel_option P x)"
proof (cases x)
  case None
  then show ?thesis by (simp add: makes_def opt_blocks_def)
next
  case (Some z)
  show ?thesis unfolding makes_def
  proof (intro allI impI)
    fix B :: "nat set" assume "finite B"
    then obtain y B1 where "f z B = Some (y, B1)" "P z y" "fresh (bl y) B B1"
      using makesE [OF assms [OF Some]] by blast
    then show "\<exists>y B1. opt_clone f x B = Some (y, B1) \<and> rel_option P x y \<and> fresh (opt_blocks bl y) B B1"
      using Some by (intro exI [of _ "Some y"] exI [of _ B1]) (simp add: opt_blocks_def)
  qed
qed

text \<open>A vector under construction above the blocks \<open>C\<close>.\<close>

definition grown :: "nat set \<Rightarrow> ('a \<Rightarrow> nat list) \<Rightarrow> 'a pvec \<Rightarrow> nat set \<Rightarrow> bool" where
  "grown C bl v B \<longleftrightarrow> finite C \<and> fresh (vec_blocks bl v) C B
     \<and> length (items v) \<le> fst (snd v) \<and> (fst v = 0 \<longrightarrow> fst (snd v) = 0)"

lemma grown_finite: "grown C bl v B \<Longrightarrow> finite B" by (auto simp: grown_def fresh_def)

lemma grown_fresh: "grown C bl v B \<Longrightarrow> fresh (vec_blocks bl v) C B" by (simp add: grown_def)

lemma pvec_init_ok:
  assumes "allocator_ok A" "finite C"
  shows "\<exists>v B. pvec_init A C = Some (v, B) \<and> grown C bl v B \<and> items v = []"
proof -
  obtain s B where s: "blk_new A C = Some (s, B)" "s \<noteq> 0" "fresh (ptr s) C B"
    by (rule makesE [OF blk_new_makes [OF assms(1)] assms(2)])
  then have "grown C bl (s, VEC_INIT_CAP, []) B" using assms(2) by (simp add: grown_def vec_blocks_def)
  then show ?thesis using s(1) by (intro exI [of _ "(s, VEC_INIT_CAP, [])"] exI [of _ B]) (simp add: pvec_init_def)
qed

lemma pvec_push_ok:
  assumes A: "allocator_ok A" and g: "grown C bl v B" and y: "fresh (bl y) B B1"
  shows "\<exists>v1 B2. pvec_push A v y B1 = Some (v1, B2) \<and> grown C bl v1 B2 \<and> items v1 = items v @ [y]"
proof -
  obtain s c xs where v: "v = (s, c, xs)" by (cases v) auto
  have fin: "finite B1" using grown_finite [OF g] y by (auto simp: fresh_def)
  define cs where "cs = concat (map bl xs)"
  have vb: "vec_blocks bl (s', c', xs) = cs @ ptr s'" "vec_blocks bl (s', c', xs @ [y]) = (cs @ bl y) @ ptr s'" for s' c'
    by (simp_all add: vec_blocks_def cs_def)
  have old: "distinct cs" "set (ptr s) \<inter> set cs = {}" "set cs \<inter> C = {}" "set (ptr s) \<inter> C = {}" "B = C \<union> (set cs \<union> set (ptr s))"
    "finite C" "length xs \<le> c" "s = 0 \<longrightarrow> c = 0"
    using g unfolding v grown_def fresh_def vb by auto
  have new: "distinct (bl y)" "set (bl y) \<inter> B = {}" "B1 = B \<union> set (bl y)" using y by (simp_all add: fresh_def)
  have dis: "distinct (cs @ bl y)" "set (cs @ bl y) \<inter> C = {}" "set (ptr s) \<inter> set (cs @ bl y) = {}"
    using old new by auto
  have B1: "B1 = C \<union> set (cs @ bl y) \<union> set (ptr s)" using old(5) new(3) by auto
  have ok: "grown C bl (s1, c1, xs @ [y]) B2"
    if "B2 = C \<union> set (cs @ bl y) \<union> {s1}" "s1 \<noteq> 0" "s1 \<notin> C \<union> set (cs @ bl y)" "length xs < c1" for s1 c1 B2
    using that dis(1,2) old(6) unfolding grown_def fresh_def vb by (simp add: ptr_def)
  show ?thesis
  proof (cases "length xs = c")
    case False
    then have "s \<noteq> 0" using old(7,8) by auto
    then have "grown C bl (s, c, xs @ [y]) B1" using False B1 dis(3) old(4,7) by (intro ok) (auto simp: ptr_def)
    then show ?thesis using False by (simp add: pvec_push_def v)
  next
    case full: True
    let ?c = "if c \<noteq> 0 then c * 2 else VEC_INIT_CAP"
    have c: "length xs < ?c" using full by (simp add: VEC_INIT_CAP_def)
    show ?thesis
    proof (cases "s = 0")
      case True
      have "al_new A B1 \<notin> B1" "al_new A B1 \<noteq> 0" using A fin by (simp_all add: allocator_ok_def)
      then have "grown C bl (al_new A B1, ?c, xs @ [y]) (insert (al_new A B1) B1)"
        using B1 True c by (intro ok) (auto simp: ptr_def)
      then show ?thesis using True full by (simp add: pvec_push_def v blk_resize_def blk_new_def)
    next
      case False
      then have s: "s \<in> B1" using B1 by (simp add: ptr_def)
      let ?q = "al_resize A B1 s"
      have "\<forall>p\<in>B1. al_resize A B1 p = p \<or> al_resize A B1 p \<notin> B1 \<and> al_resize A B1 p \<noteq> 0"
        using A fin by (simp add: allocator_ok_def)
      from bspec [OF this s] False have q: "?q = s \<or> ?q \<notin> B1" "?q \<noteq> 0" by (fast, metis)
      let ?E = "C \<union> set (cs @ bl y)"
      have "s \<notin> ?E" using False dis(3) old(4) by (simp add: ptr_def)
      moreover have "B1 = insert s ?E" using B1 False by (simp add: ptr_def)
      ultimately have "B1 - {s} = ?E" "?q \<notin> ?E" using q(1) by (simp, metis insertI2)
      then have "grown C bl (?q, ?c, xs @ [y]) (insert ?q (B1 - {s}))"
        using q(2) c by (intro ok) simp_all
      then show ?thesis using False full s by (simp add: pvec_push_def v blk_resize_def)
    qed
  qed
qed

lemma push_all_ok:
  assumes "allocator_ok A"
  shows "(\<And>x. x \<in> set xs \<Longrightarrow> makes (clone x) bl (P x)) \<Longrightarrow> grown C bl v B \<Longrightarrow>
    \<exists>v1 B1 ys. push_all A clone xs v B = Some (v1, B1) \<and> grown C bl v1 B1 \<and> items v1 = items v @ ys \<and> list_all2 P xs ys"
proof (induction xs arbitrary: v B)
  case (Cons x xs)
  have m: "makes (clone x) bl (P x)" by (rule Cons.prems(1)) simp
  obtain y B1 where y: "clone x B = Some (y, B1)" "P x y" "fresh (bl y) B B1"
    by (rule makesE [OF m grown_finite [OF Cons.prems(2)]])
  obtain v1 B2 where v1: "pvec_push A v y B1 = Some (v1, B2)" "grown C bl v1 B2" "items v1 = items v @ [y]"
    using pvec_push_ok [OF assms Cons.prems(2) y(3)] by blast
  obtain v2 B3 ys where "push_all A clone xs v1 B2 = Some (v2, B3)" "grown C bl v2 B3" "items v2 = items v1 @ ys" "list_all2 P xs ys"
    using Cons.IH [OF _ v1(2)] Cons.prems(1) by auto
  then show ?case using y(1,2) v1(1,3) by (intro exI [of _ v2] exI [of _ B3] exI [of _ "y # ys"]) simp
qed auto

text \<open>A new vector filled by the loop.\<close>

lemma vec_clone_ok:
  assumes "allocator_ok A" "\<And>x. x \<in> set xs \<Longrightarrow> makes (clone x) bl (P x)" "finite C"
  obtains v B v1 B1 where "pvec_init A C = Some (v, B)" "push_all A clone xs v B = Some (v1, B1)"
    "fresh (vec_blocks bl v1) C B1" "list_all2 P xs (items v1)" "finite B1"
proof -
  obtain v B where v: "pvec_init A C = Some (v, B)" "grown C bl v B" "items v = []"
    using pvec_init_ok [OF assms(1,3)] by blast
  obtain v1 B1 ys where g: "push_all A clone xs v B = Some (v1, B1)" "grown C bl v1 B1" "items v1 = items v @ ys" "list_all2 P xs ys"
    using push_all_ok [OF assms(1) _ v(2), of xs clone P] assms(2) by blast
  have "list_all2 P xs (items v1)" using g(3,4) v(3) by simp
  then show thesis by (rule that [OF v(1) g(1) grown_fresh [OF g(2)] _ grown_finite [OF g(2)]])
qed

section \<open>Copies\<close>

lemma makesI:
  assumes "\<And>B. finite B \<Longrightarrow> \<exists>x B1. f B = Some (x, B1) \<and> P x \<and> fresh (bl x) B B1"
  shows "makes f bl P"
  using assms by (simp add: makes_def)

lemma list_all2_map_eq: "list_all2 (\<lambda>x y. g y = h x) xs ys \<Longrightarrow> map g ys = map h xs"
  by (induction rule: list_all2_induct) simp_all

lemma rel_option_map_eq: "rel_option (\<lambda>x y. g y = h x) x y \<Longrightarrow> map_option g y = map_option h x"
  by (cases x; cases y) simp_all

lemma seg_clone_makes:
  assumes "allocator_ok A"
  shows "makes (seg_clone A x) seg_blocks (\<lambda>y. seg_of y = \<lparr>ws_text = dup_cstr (ws_text (seg_of x)), ws_expand = ws_expand (seg_of x)\<rparr>)"
proof (rule makesI)
  fix B :: "nat set" assume B: "finite B"
  obtain a t tx e where x: "x = PSeg a t tx e" by (cases x)
  obtain a1 B1 where a1: "blk_new A B = Some (a1, B1)" "fresh (ptr a1) B B1" "finite B1"
    by (rule makesE [OF blk_new_makes [OF assms] B])
  obtain t1 B2 where t1: "blk_new A B1 = Some (t1, B2)" "fresh (ptr t1) B1 B2"
    by (rule makesE [OF blk_new_makes [OF assms] a1(3)])
  show "\<exists>y B1. seg_clone A x B = Some (y, B1)
      \<and> seg_of y = \<lparr>ws_text = dup_cstr (ws_text (seg_of x)), ws_expand = ws_expand (seg_of x)\<rparr> \<and> fresh (seg_blocks y) B B1"
    using fresh_trans' [OF a1(2) t1(2)] a1(1) t1(1)
    by (intro exI [of _ "PSeg a1 t1 (dup_cstr tx) e"] exI [of _ B2]) (simp add: x)
qed

lemma token_clone_makes:
  assumes "allocator_ok A"
  shows "makes (token_clone_at A x) tok_blocks (\<lambda>y. tok_of y = token_clone (tok_of x))"
proof (rule makesI)
  fix B :: "nat set" assume B: "finite B"
  obtain a k s c segs where x: "x = PTok a k (s, c, segs)" by (cases x) auto
  obtain a1 B1 where a1: "blk_new A B = Some (a1, B1)" "fresh (ptr a1) B B1" "finite B1"
    by (rule makesE [OF blk_new_makes [OF assms] B])
  obtain v B2 v1 B3 where v: "pvec_init A B1 = Some (v, B2)" "push_all A (seg_clone A) segs v B2 = Some (v1, B3)"
    "fresh (vec_blocks seg_blocks v1) B1 B3"
    "list_all2 (\<lambda>x y. seg_of y = \<lparr>ws_text = dup_cstr (ws_text (seg_of x)), ws_expand = ws_expand (seg_of x)\<rparr>) segs (items v1)"
    by (rule vec_clone_ok [OF assms seg_clone_makes [OF assms] a1(3)])
  have "map seg_of (items v1) = map (\<lambda>s. \<lparr>ws_text = dup_cstr (ws_text s), ws_expand = ws_expand s\<rparr>) (map seg_of segs)"
    using list_all2_map_eq [OF v(4)] by simp
  then show "\<exists>y B1. token_clone_at A x B = Some (y, B1) \<and> tok_of y = token_clone (tok_of x) \<and> fresh (tok_blocks y) B B1"
    using fresh_trans' [OF a1(2) v(3)] a1(1) v(1,2)
    by (intro exI [of _ "PTok a1 k v1"] exI [of _ B3]) (simp add: x token_clone_def)
qed

lemma cmd_clone_makes:
  assumes "allocator_ok A"
  shows "makes (cmd_clone_at A x) cmd_blocks (\<lambda>y. cmd_of y = cmd_clone (cmd_of x))"
proof (rule makesI)
  fix B :: "nat set" assume B: "finite B"
  obtain a s c words rin rout app rerr where x: "x = PCmd a (s, c, words) rin rout app rerr" by (cases x) auto
  note oc = opt_clone_makes [where f = "token_clone_at A" and bl = tok_blocks and P = "\<lambda>x y. tok_of y = token_clone (tok_of x)",
      OF token_clone_makes [OF assms]]
  obtain a1 B1 where a1: "blk_new A B = Some (a1, B1)" "fresh (ptr a1) B B1" "finite B1"
    by (rule makesE [OF blk_new_makes [OF assms] B])
  obtain v B2 v1 B3 where v: "pvec_init A B1 = Some (v, B2)" "push_all A (token_clone_at A) words v B2 = Some (v1, B3)"
    "fresh (vec_blocks tok_blocks v1) B1 B3" "list_all2 (\<lambda>x y. tok_of y = token_clone (tok_of x)) words (items v1)" "finite B3"
    by (rule vec_clone_ok [OF assms token_clone_makes [OF assms] a1(3)])
  obtain i1 B4 where i1: "opt_clone (token_clone_at A) rin B3 = Some (i1, B4)"
    "rel_option (\<lambda>x y. tok_of y = token_clone (tok_of x)) rin i1" "fresh (opt_blocks tok_blocks i1) B3 B4" "finite B4"
    by (rule makesE [OF oc v(5)])
  obtain o1 B5 where o1: "opt_clone (token_clone_at A) rout B4 = Some (o1, B5)"
    "rel_option (\<lambda>x y. tok_of y = token_clone (tok_of x)) rout o1" "fresh (opt_blocks tok_blocks o1) B4 B5" "finite B5"
    by (rule makesE [OF oc i1(4)])
  obtain e1 B6 where e1: "opt_clone (token_clone_at A) rerr B5 = Some (e1, B6)"
    "rel_option (\<lambda>x y. tok_of y = token_clone (tok_of x)) rerr e1" "fresh (opt_blocks tok_blocks e1) B5 B6"
    by (rule makesE [OF oc o1(4)])
  let ?y = "PCmd a1 v1 i1 o1 app e1"
  have "fresh (cmd_blocks ?y) B B6"
    using fresh_trans' [OF a1(2) fresh_trans [OF v(3) fresh_trans [OF i1(3) fresh_trans [OF o1(3) e1(3)]]]] by simp
  moreover have "cmd_of ?y = cmd_clone (cmd_of x)"
    using list_all2_map_eq [OF v(4)] rel_option_map_eq [OF i1(2)] rel_option_map_eq [OF o1(2)] rel_option_map_eq [OF e1(2)]
    by (simp add: x cmd_clone_def option.map_comp comp_def)
  moreover have "cmd_clone_at A x B = Some (?y, B6)"
    using a1(1) v(1,2) i1(1) o1(1) e1(1) by (simp add: x)
  ultimately show "\<exists>y B1. cmd_clone_at A x B = Some (y, B1) \<and> cmd_of y = cmd_clone (cmd_of x) \<and> fresh (cmd_blocks y) B B1"
    by blast
qed

text \<open>Two vectors that grow in turn.\<close>

definition both :: "nat set \<Rightarrow> ('a \<Rightarrow> nat list) \<Rightarrow> 'a pvec \<Rightarrow> ('b \<Rightarrow> nat list) \<Rightarrow> 'b pvec \<Rightarrow> nat set \<Rightarrow> bool" where
  "both C bl v bm w B \<longleftrightarrow> grown (C \<union> set (vec_blocks bm w)) bl v B \<and> grown (C \<union> set (vec_blocks bl v)) bm w B
     \<and> set (vec_blocks bl v) \<inter> C = {} \<and> set (vec_blocks bm w) \<inter> C = {}"

lemma both_sym: "both C bl v bm w B \<Longrightarrow> both C bm w bl v B" by (auto simp: both_def)

lemma grown_swap:
  assumes "grown (C \<union> set (vec_blocks bm w)) bl v B" "grown D bm w B'" "set (vec_blocks bm w) \<inter> C = {}"
  shows "grown (C \<union> set (vec_blocks bl v)) bm w B"
  using assms unfolding grown_def fresh_def by (auto simp: Un_ac)

lemma both_push:
  assumes "allocator_ok A" "both C bl v bm w B" "fresh (bl y) B B1"
  shows "\<exists>v1 B2. pvec_push A v y B1 = Some (v1, B2) \<and> both C bl v1 bm w B2 \<and> items v1 = items v @ [y]"
proof -
  have g: "grown (C \<union> set (vec_blocks bm w)) bl v B" "grown (C \<union> set (vec_blocks bl v)) bm w B"
    "set (vec_blocks bm w) \<inter> C = {}" using assms(2) by (simp_all add: both_def)
  obtain v1 B2 where v1: "pvec_push A v y B1 = Some (v1, B2)" "grown (C \<union> set (vec_blocks bm w)) bl v1 B2" "items v1 = items v @ [y]"
    using pvec_push_ok [OF assms(1) g(1) assms(3)] by blast
  have "both C bl v1 bm w B2"
    using v1(2) grown_swap [OF v1(2) g(2,3)] g(3) by (auto simp: both_def grown_def fresh_def)
  with v1(1,3) show ?thesis by blast
qed

lemma both_finite: "both C bl v bm w B \<Longrightarrow> finite B"
  unfolding both_def by (elim conjE) (rule grown_finite)

lemma push_pairs_ok:
  assumes "allocator_ok A"
  shows "(\<And>x. x \<in> set xs \<union> set zs \<Longrightarrow> makes (clone x) bl (P x)) \<Longrightarrow> both C bl v bl w B \<Longrightarrow> length xs = length zs \<Longrightarrow>
    \<exists>v1 w1 B1 ys us. push_pairs A clone xs zs v w B = Some ((v1, w1), B1) \<and> both C bl v1 bl w1 B1
      \<and> items v1 = items v @ ys \<and> items w1 = items w @ us \<and> list_all2 P xs ys \<and> list_all2 P zs us"
proof (induction xs arbitrary: zs v w B)
  case (Cons x xs)
  obtain z zs1 where zs: "zs = z # zs1" "length xs = length zs1" using Cons.prems(3) by (cases zs) auto
  have m: "makes (clone x) bl (P x)" "makes (clone z) bl (P z)" using Cons.prems(1) zs(1) by simp_all
  obtain y B1 where y: "clone x B = Some (y, B1)" "P x y" "fresh (bl y) B B1"
    by (rule makesE [OF m(1) both_finite [OF Cons.prems(2)]])
  obtain v1 B2 where v1: "pvec_push A v y B1 = Some (v1, B2)" "both C bl v1 bl w B2" "items v1 = items v @ [y]"
    using both_push [OF assms Cons.prems(2) y(3)] by blast
  obtain u B3 where u: "clone z B2 = Some (u, B3)" "P z u" "fresh (bl u) B2 B3"
    by (rule makesE [OF m(2) both_finite [OF v1(2)]])
  obtain w1 B4 where w1: "pvec_push A w u B3 = Some (w1, B4)" "both C bl w1 bl v1 B4" "items w1 = items w @ [u]"
    using both_push [OF assms both_sym [OF v1(2)] u(3)] by blast
  have rest: "makes (clone x) bl (P x)" if "x \<in> set xs \<union> set zs1" for x using Cons.prems(1) that zs(1) by auto
  obtain v2 w2 B5 ys us where r: "push_pairs A clone xs zs1 v1 w1 B4 = Some ((v2, w2), B5)" "both C bl v2 bl w2 B5"
    "items v2 = items v1 @ ys" "items w2 = items w1 @ us" "list_all2 P xs ys" "list_all2 P zs1 us"
    using Cons.IH [OF rest both_sym [OF w1(2)] zs(2)] by blast
  have "push_pairs A clone (x # xs) zs v w B = Some ((v2, w2), B5)" using y(1) v1(1) u(1) w1(1) r(1) by (simp add: zs(1))
  moreover have "items v2 = items v @ y # ys" "items w2 = items w @ u # us" using r(3,4) v1(3) w1(3) by simp_all
  moreover have "list_all2 P (x # xs) (y # ys)" "list_all2 P zs (u # us)" using r(5,6) y(2) u(2) zs(1) by simp_all
  ultimately show ?case using r(2) by blast
qed auto

lemma both_fresh:
  assumes "both C bl v bm w B"
  shows "fresh (vec_blocks bl v @ vec_blocks bm w) C B"
  using assms unfolding both_def grown_def fresh_def by auto

abbreviation copies :: "PNode \<Rightarrow> PNode \<Rightarrow> bool" where
  "copies n m \<equiv> node_of m = ast_clone (node_of n)"

lemma ast_clone_makes:
  assumes A: "allocator_ok A"
  shows "paired n \<Longrightarrow> makes (ast_clone_at A n) node_blocks (copies n)"
proof (induction n rule: ast_free.induct)
  case (1 a cmds bg neg)
  show ?case
  proof (rule makesI)
    fix B :: "nat set" assume B: "finite B"
    obtain s c cs where cmds: "cmds = (s, c, cs)" by (cases cmds) auto
    obtain a1 B1 where a1: "blk_new A B = Some (a1, B1)" "fresh (ptr a1) B B1" "finite B1"
      by (rule makesE [OF blk_new_makes [OF A] B])
    obtain v B2 v1 B3 where v: "pvec_init A B1 = Some (v, B2)" "push_all A (cmd_clone_at A) cs v B2 = Some (v1, B3)"
      "fresh (vec_blocks cmd_blocks v1) B1 B3" "list_all2 (\<lambda>x y. cmd_of y = cmd_clone (cmd_of x)) cs (items v1)"
      by (rule vec_clone_ok [OF A cmd_clone_makes [OF A] a1(3)])
    show "\<exists>y B1. ast_clone_at A (PN_PIPELINE a cmds bg neg) B = Some (y, B1)
        \<and> copies (PN_PIPELINE a cmds bg neg) y \<and> fresh (node_blocks y) B B1"
      using fresh_trans' [OF a1(2) v(3)] a1(1) v(1,2) list_all2_map_eq [OF v(4)]
      by (intro exI [of _ "PN_PIPELINE a1 v1 bg neg"] exI [of _ B3])
        (simp add: cmds pipeline_clone_at_def pipeline_clone_def)
  qed
next
  case (2 a s c its)
  let ?clone = "\<lambda>(i, op, n) B. do { (i1, B1) \<leftarrow> blk_new A B; (n1, B2) \<leftarrow> ast_clone_at A n B1; Some ((i1, op, n1), B2) }"
  let ?bl = "\<lambda>(i, op, n). node_blocks n @ ptr i" and ?P = "\<lambda>(i, op, n) (j, op', m). op' = op \<and> copies n m"
  have item: "makes (?clone x) ?bl (?P x)" if "x \<in> set its" for x
  proof (rule makesI)
    fix B :: "nat set" assume B: "finite B"
    obtain i op n where x: "x = (i, op, n)" by (cases x)
    have "paired n" using "2.prems" that by (auto simp: x list_all_iff)
    then have m: "makes (ast_clone_at A n) node_blocks (copies n)" using "2.IH" that x by force
    obtain i1 B1 where i1: "blk_new A B = Some (i1, B1)" "fresh (ptr i1) B B1" "finite B1"
      by (rule makesE [OF blk_new_makes [OF A] B])
    obtain n1 B2 where n1: "ast_clone_at A n B1 = Some (n1, B2)" "copies n n1" "fresh (node_blocks n1) B1 B2"
      by (rule makesE [OF m i1(3)])
    show "\<exists>y B1. ?clone x B = Some (y, B1) \<and> ?P x y \<and> fresh (?bl y) B B1"
      using fresh_trans' [OF i1(2) n1(3)] i1(1) n1(1,2) by (intro exI [of _ "(i1, op, n1)"] exI [of _ B2]) (simp add: x)
  qed
  show ?case
  proof (rule makesI)
    fix B :: "nat set" assume B: "finite B"
    obtain a1 B1 where a1: "blk_new A B = Some (a1, B1)" "fresh (ptr a1) B B1" "finite B1"
      by (rule makesE [OF blk_new_makes [OF A] B])
    obtain v B2 v1 B3 where v: "pvec_init A B1 = Some (v, B2)" "push_all A ?clone its v B2 = Some (v1, B3)"
      "fresh (vec_blocks ?bl v1) B1 B3" "list_all2 ?P its (items v1)"
      by (rule vec_clone_ok [OF A item a1(3)])
    obtain s1 c1 its1 where v1: "v1 = (s1, c1, its1)" by (cases v1)
    have "list_all2 (\<lambda>x y. (\<lambda>(i, op, n). (op, node_of n)) y = (\<lambda>(i, op, n). (op, ast_clone (node_of n))) x) its its1"
      by (rule list.rel_mono_strong [OF v(4) [unfolded v1 snd_conv]]) auto
    from list_all2_map_eq [OF this]
    show "\<exists>y B1. ast_clone_at A (PN_ANDOR a s c its) B = Some (y, B1) \<and> copies (PN_ANDOR a s c its) y \<and> fresh (node_blocks y) B B1"
      using fresh_trans' [OF a1(2) v(3)] a1(1) v(1,2)
      by (intro exI [of _ "PN_ANDOR a1 s1 c1 its1"] exI [of _ B3]) (simp add: v1 comp_def case_prod_unfold)
  qed
next
  case (3 a s c nodes)
  have item: "makes (ast_clone_at A x) node_blocks (copies x)" if "x \<in> set nodes" for x
    using 3 that by (simp add: list_all_iff)
  show ?case
  proof (rule makesI)
    fix B :: "nat set" assume B: "finite B"
    obtain a1 B1 where a1: "blk_new A B = Some (a1, B1)" "fresh (ptr a1) B B1" "finite B1"
      by (rule makesE [OF blk_new_makes [OF A] B])
    obtain v B2 v1 B3 where v: "pvec_init A B1 = Some (v, B2)" "push_all A (ast_clone_at A) nodes v B2 = Some (v1, B3)"
      "fresh (vec_blocks node_blocks v1) B1 B3" "list_all2 copies nodes (items v1)"
      by (rule vec_clone_ok [OF A item a1(3)])
    obtain s1 c1 ns where v1: "v1 = (s1, c1, ns)" by (cases v1)
    show "\<exists>y B1. ast_clone_at A (PN_LIST a s c nodes) B = Some (y, B1) \<and> copies (PN_LIST a s c nodes) y \<and> fresh (node_blocks y) B B1"
      using fresh_trans' [OF a1(2) v(3)] a1(1) v(1,2) list_all2_map_eq [OF v(4)]
      by (intro exI [of _ "PN_LIST a1 s1 c1 ns"] exI [of _ B3]) (simp add: v1)
  qed
next
  case (4 a s c conds s' c' bodies els)
  have item: "makes (ast_clone_at A x) node_blocks (copies x)" if "x \<in> set conds \<union> set bodies" for x
    using 4 that by (auto simp: list_all_iff)
  have els: "makes (opt_clone (ast_clone_at A) els) (opt_blocks node_blocks) (rel_option copies els)"
    by (rule opt_clone_makes) (use 4 in simp)
  have len: "length conds = length bodies" using "4.prems" by simp
  show ?case
  proof (rule makesI)
    fix B :: "nat set" assume B: "finite B"
    obtain a1 B1 where a1: "blk_new A B = Some (a1, B1)" "fresh (ptr a1) B B1" "finite B1"
      by (rule makesE [OF blk_new_makes [OF A] B])
    obtain v B2 where v: "pvec_init A B1 = Some (v, B2)" "grown B1 node_blocks v B2" "items v = []"
      using pvec_init_ok [OF A a1(3)] by blast
    obtain w B3 where w: "pvec_init A B2 = Some (w, B3)" "grown B2 node_blocks w B3" "items w = []"
      using pvec_init_ok [OF A grown_finite [OF v(2)]] by blast
    have b: "both B1 node_blocks v node_blocks w B3"
      using v(2) w(2) by (auto simp: both_def grown_def fresh_def)
    obtain v1 w1 B4 ys us where p: "push_pairs A (ast_clone_at A) conds bodies v w B3 = Some ((v1, w1), B4)"
      "both B1 node_blocks v1 node_blocks w1 B4" "items v1 = ys" "items w1 = us" "list_all2 copies conds ys" "list_all2 copies bodies us"
      using push_pairs_ok [OF A _ b len, of "ast_clone_at A" copies, unfolded v(3) w(3) append_Nil] item by blast
    obtain e1 B5 where e1: "opt_clone (ast_clone_at A) els B4 = Some (e1, B5)" "rel_option copies els e1"
      "fresh (opt_blocks node_blocks e1) B4 B5"
      by (rule makesE [OF els both_finite [OF p(2)]])
    obtain s1 c1 ns where v1: "v1 = (s1, c1, ns)" by (cases v1)
    obtain s2 c2 ms where w1: "w1 = (s2, c2, ms)" by (cases w1)
    have "fresh (node_blocks (PN_IF a1 s1 c1 ns s2 c2 ms e1)) B B5"
      using fresh_trans' [OF a1(2) fresh_trans [OF both_fresh [OF p(2)] e1(3)]] by (simp add: v1 w1)
    moreover have "copies (PN_IF a s c conds s' c' bodies els) (PN_IF a1 s1 c1 ns s2 c2 ms e1)"
      using list_all2_map_eq [OF p(5)] list_all2_map_eq [OF p(6)] rel_option_map_eq [OF e1(2)] p(3,4) len
      by (simp add: v1 w1 option.map_comp comp_def)
    moreover have "ast_clone_at A (PN_IF a s c conds s' c' bodies els) B = Some (PN_IF a1 s1 c1 ns s2 c2 ms e1, B5)"
      using a1(1) v(1) w(1) p(1) e1(1) by (simp add: v1 w1)
    ultimately show "\<exists>y B1. ast_clone_at A (PN_IF a s c conds s' c' bodies els) B = Some (y, B1)
        \<and> copies (PN_IF a s c conds s' c' bodies els) y \<and> fresh (node_blocks y) B B1" by blast
  qed
next
  case (5 a cond body)
  have m: "makes (ast_clone_at A cond) node_blocks (copies cond)" "makes (ast_clone_at A body) node_blocks (copies body)"
    using 5 by simp_all
  show ?case
  proof (rule makesI)
    fix B :: "nat set" assume B: "finite B"
    obtain a1 B1 where a1: "blk_new A B = Some (a1, B1)" "fresh (ptr a1) B B1" "finite B1"
      by (rule makesE [OF blk_new_makes [OF A] B])
    obtain c1 B2 where c1: "ast_clone_at A cond B1 = Some (c1, B2)" "copies cond c1" "fresh (node_blocks c1) B1 B2" "finite B2"
      by (rule makesE [OF m(1) a1(3)])
    obtain b1 B3 where b1: "ast_clone_at A body B2 = Some (b1, B3)" "copies body b1" "fresh (node_blocks b1) B2 B3"
      by (rule makesE [OF m(2) c1(4)])
    show "\<exists>y B1. ast_clone_at A (PN_WHILE a cond body) B = Some (y, B1) \<and> copies (PN_WHILE a cond body) y \<and> fresh (node_blocks y) B B1"
      using fresh_trans' [OF a1(2) fresh_trans [OF c1(3) b1(3)]] a1(1) c1(1,2) b1(1,2)
      by (intro exI [of _ "PN_WHILE a1 c1 b1"] exI [of _ B3]) simp
  qed
next
  case (6 a v var words body)
  have m: "makes (ast_clone_at A body) node_blocks (copies body)" using 6 by simp
  obtain sw cw ws where words: "words = (sw, cw, ws)" by (cases words)
  show ?case
  proof (rule makesI)
    fix B :: "nat set" assume B: "finite B"
    obtain a1 B1 where a1: "blk_new A B = Some (a1, B1)" "fresh (ptr a1) B B1" "finite B1"
      by (rule makesE [OF blk_new_makes [OF A] B])
    obtain u B2 where u: "pvec_init A B1 = Some (u, B2)" "grown B1 tok_blocks u B2" "items u = []"
      using pvec_init_ok [OF A a1(3)] by blast
    obtain v1 B3 where v1: "blk_new A B2 = Some (v1, B3)" "fresh (ptr v1) B2 B3" "v1 \<noteq> 0"
      by (rule makesE [OF blk_new_makes [OF A] grown_finite [OF u(2)]])
    have g: "grown (insert v1 B1) tok_blocks u B3"
      using u(2) v1(2,3) by (auto simp: grown_def fresh_def ptr_def)
    obtain u1 B4 ys where u1: "push_all A (token_clone_at A) ws u B3 = Some (u1, B4)" "grown (insert v1 B1) tok_blocks u1 B4"
      "items u1 = items u @ ys" "list_all2 (\<lambda>x y. tok_of y = token_clone (tok_of x)) ws ys"
      using push_all_ok [OF A _ g, of ws "token_clone_at A" "\<lambda>x y. tok_of y = token_clone (tok_of x)"]
        token_clone_makes [OF A] by blast
    obtain b1 B5 where b1: "ast_clone_at A body B4 = Some (b1, B5)" "copies body b1" "fresh (node_blocks b1) B4 B5"
      by (rule makesE [OF m grown_finite [OF u1(2)]])
    have "v1 \<notin> B1" using u(2) v1(2,3) by (auto simp: grown_def fresh_def ptr_def)
    then have "fresh (ptr v1) B1 (insert v1 B1)" using v1(3) by (simp add: fresh_def ptr_def)
    from fresh_trans' [OF a1(2) fresh_trans [OF this fresh_trans [OF grown_fresh [OF u1(2)] b1(3)]]]
    show "\<exists>y B1. ast_clone_at A (PN_FOR a v var words body) B = Some (y, B1) \<and> copies (PN_FOR a v var words body) y
        \<and> fresh (node_blocks y) B B1"
      using a1(1) u(1,3) v1(1) u1(1,3) b1(1,2) list_all2_map_eq [OF u1(4)]
      by (intro exI [of _ "PN_FOR a1 v1 (dup_cstr var) u1 b1"] exI [of _ B5]) (simp add: words)
  qed
next
  case (7 a f name body)
  have m: "makes (ast_clone_at A body) node_blocks (copies body)" using 7 by simp
  show ?case
  proof (rule makesI)
    fix B :: "nat set" assume B: "finite B"
    obtain a1 B1 where a1: "blk_new A B = Some (a1, B1)" "fresh (ptr a1) B B1" "finite B1"
      by (rule makesE [OF blk_new_makes [OF A] B])
    obtain f1 B2 where f1: "blk_new A B1 = Some (f1, B2)" "fresh (ptr f1) B1 B2" "finite B2"
      by (rule makesE [OF blk_new_makes [OF A] a1(3)])
    obtain b1 B3 where b1: "ast_clone_at A body B2 = Some (b1, B3)" "copies body b1" "fresh (node_blocks b1) B2 B3"
      by (rule makesE [OF m f1(3)])
    show "\<exists>y B1. ast_clone_at A (PN_FUNCDEF a f name body) B = Some (y, B1) \<and> copies (PN_FUNCDEF a f name body) y
        \<and> fresh (node_blocks y) B B1"
      using fresh_trans' [OF a1(2) fresh_trans [OF f1(2) b1(3)]] a1(1) f1(1) b1(1,2)
      by (intro exI [of _ "PN_FUNCDEF a1 f1 (dup_cstr name) b1"] exI [of _ B3]) simp
  qed
qed

lemma fresh_released:
  assumes "releases f bl" "fresh bl B B1"
  shows "f B1 = Some B"
proof -
  have "f B1 = Some (B1 - set bl)" using assms by (auto simp: releases_def fresh_def)
  moreover have "B1 - set bl = B" using assms(2) by (auto simp: fresh_def)
  ultimately show ?thesis by simp
qed

text \<open>C12: A deep copy owns its memory. It succeeds on every tree with a body for every condition, consists of
  blocks that were not live before, no two parts of it sharing one, has the value that the copy of
  the value has, and freeing it gives back exactly the blocks it took: nothing leaks, nothing is
  freed twice, and no block of anything else, the original included, is touched.\<close>

theorem ast_clone_owns_memory:
  assumes "allocator_ok A" "finite B" "paired n"
  shows "\<exists>m B1. ast_clone_at A n B = Some (m, B1) \<and> node_of m = ast_clone (node_of n)
    \<and> distinct (node_blocks m) \<and> set (node_blocks m) \<inter> B = {} \<and> ast_free m B1 = Some B"
proof -
  obtain m B1 where m: "ast_clone_at A n B = Some (m, B1)" "copies n m" "fresh (node_blocks m) B B1"
    by (rule makesE [OF ast_clone_makes [OF assms(1,3)] assms(2)])
  with fresh_released [OF ast_free_releases m(3)] show ?thesis by (auto simp: fresh_def)
qed

section \<open>The function table\<close>

definition func_blocks :: "PFunc \<Rightarrow> nat list" where
  "func_blocks f = (case f of (a, na, n, body) \<Rightarrow> ptr na @ node_blocks body @ ptr a)"

definition body_of :: "PFunc \<Rightarrow> PNode" where "body_of f = snd (snd (snd f))"

definition func_of :: "PFunc \<Rightarrow> Func" where
  "func_of f = \<lparr>f_name = fst (snd (snd f)), f_body = node_of (body_of f)\<rparr>"

definition table_of :: "FuncMem \<Rightarrow> FuncTable" where
  "table_of ft = \<lparr>g_funcs = map func_of (items (m_funcs ft)), g_retired = map node_of (items (m_retired ft))\<rparr>"

definition bodies :: "FuncMem \<Rightarrow> PNode list" where
  "bodies ft = map body_of (items (m_funcs ft)) @ items (m_retired ft)"

text \<open>The table owns exactly the live blocks that are not in \<open>C\<close>.\<close>

definition table_owns :: "nat set \<Rightarrow> FuncMem \<Rightarrow> nat set \<Rightarrow> bool" where
  "table_owns C ft B \<longleftrightarrow> both C func_blocks (m_funcs ft) node_blocks (m_retired ft) B"

lemma free_func_releases: "releases (free_func_item f) (func_blocks f)"
  by (cases f) (simp add: free_func_item_def func_blocks_def, intro releases_rules ast_free_releases)

lemma table_owns_free_all: "table_owns C ft B \<Longrightarrow> func_free_all_at ft B = Some (no_funcs, C)"
proof -
  assume h: "table_owns C ft B"
  have "releases (in_order [pvec_free_deep free_func_item (m_funcs ft), pvec_free_deep ast_free (m_retired ft)])
      (vec_blocks func_blocks (m_funcs ft) @ vec_blocks node_blocks (m_retired ft))"
    by (intro releases_rules free_func_releases ast_free_releases)
  from fresh_released [OF this both_fresh [OF h [unfolded table_owns_def]]] show ?thesis by (simp add: func_free_all_at_def)
qed

lemma table_owns_no_funcs: "finite C \<Longrightarrow> table_owns C no_funcs C"
  by (simp add: table_owns_def both_def grown_def fresh_def vec_blocks_def no_funcs_def ptr_def)

lemma find_index_map: "find_index P (map f xs) = find_index (\<lambda>x. P (f x)) xs"
  by (induction xs) simp_all

lemma find_named:
  "find_index (\<lambda>(a, na, n, b). n = nm) fs = find_index (\<lambda>f. f_name f = nm) (map func_of fs)"
  unfolding find_index_map by (rule arg_cong [where f = "\<lambda>P. find_index P fs"]) (auto simp: func_of_def)

lemma mset_concat_update:
  "i < length fs \<Longrightarrow> mset (concat (map bl (fs[i := y]))) + mset (bl (fs ! i)) = mset (concat (map bl fs)) + mset (bl y)"
proof (induction fs arbitrary: i)
  case (Cons f fs)
  then show ?case by (cases i) (auto simp: ac_simps)
qed simp

lemma mset_exchange: "i < length xs \<Longrightarrow> add_mset (xs ! i) (mset (xs[i := y])) = add_mset y (mset xs)"
  by (simp add: mset_update)

text \<open>The body of one function exchanged for a new one.\<close>

lemma both_exchange:
  assumes b: "both C func_blocks (s, c, fs) node_blocks w B" and y: "fresh (node_blocks body) B B1"
    and i: "i < length fs" "fs ! i = (a, na, n, old)"
  shows "\<exists>B'. both C func_blocks (s, c, fs[i := (a, na, n, body)]) node_blocks w B' \<and> fresh (node_blocks old) B' B1"
proof -
  let ?F = "vec_blocks func_blocks (s, c, fs)" and ?F' = "vec_blocks func_blocks (s, c, fs[i := (a, na, n, body)])"
  let ?W = "vec_blocks node_blocks w"
  have "mset ?F' + mset (func_blocks (fs ! i)) = mset ?F + mset (func_blocks (a, na, n, body))"
    using mset_concat_update [OF i(1), of func_blocks "(a, na, n, body)"] by (simp add: vec_blocks_def ac_simps)
  then have m: "mset (?F' @ node_blocks old) = mset (?F @ node_blocks body)" by (simp add: i(2) func_blocks_def)
  have g: "distinct ?F" "distinct ?W" "set ?F \<inter> C = {}" "set ?W \<inter> C = {}" "set ?F \<inter> set ?W = {}" "B = C \<union> set ?F \<union> set ?W"
    "finite C" "length fs \<le> c" "s = 0 \<longrightarrow> c = 0" "length (items w) \<le> fst (snd w)" "fst w = 0 \<longrightarrow> fst (snd w) = 0"
    using b by (auto simp: both_def grown_def fresh_def)
  have yd: "distinct (node_blocks body)" "set (node_blocks body) \<inter> B = {}" "B1 = B \<union> set (node_blocks body)"
    using y by (simp_all add: fresh_def)
  have "distinct (?F @ node_blocks body)" using g(1,6) yd(1,2) by auto
  then have d: "distinct (?F' @ node_blocks old)" using mset_eq_imp_distinct_iff [OF m] by blast
  have e: "set ?F' \<union> set (node_blocks old) = set ?F \<union> set (node_blocks body)" using mset_eq_setD [OF m] by simp
  let ?B = "C \<union> set ?F' \<union> set ?W"
  have dis: "(set ?F' \<union> set (node_blocks old)) \<inter> (C \<union> set ?W) = {}"
    unfolding e using g(3,5,6) yd(2) by blast
  have "both C func_blocks (s, c, fs[i := (a, na, n, body)]) node_blocks w ?B"
    unfolding both_def grown_def fresh_def using d dis g by auto
  moreover have "fresh (node_blocks old) ?B B1"
    unfolding fresh_def using d dis g(6) yd(3) e by auto
  ultimately show ?thesis by blast
qed

lemma func_define_step:
  assumes A: "allocator_ok A" and h: "table_owns C ft B" and y: "fresh (node_blocks body) B B1"
  shows "\<exists>ft1 B2. func_define_at A ft (Some nm) body B1 = Some (ft1, B2) \<and> table_owns C ft1 B2
    \<and> table_of ft1 = func_define (table_of ft) (Some nm) (node_of body)
    \<and> mset (bodies ft1) = add_mset body (mset (bodies ft))"
proof -
  obtain s c fs where f: "m_funcs ft = (s, c, fs)" by (cases "m_funcs ft")
  have b: "both C func_blocks (s, c, fs) node_blocks (m_retired ft) B" using h by (simp add: table_owns_def f)
  have fin: "finite B1" using both_finite [OF b] y by (auto simp: fresh_def)
  have idx: "func_find (table_of ft) nm = find_index (\<lambda>(a, na, n, b). n = nm) fs"
    by (simp add: func_find_def table_of_def f find_named)
  show ?thesis
  proof (cases "find_index (\<lambda>(a, na, n, b). n = nm) fs")
    case None
    obtain a B2 where a: "blk_new A B1 = Some (a, B2)" "fresh (ptr a) B1 B2" "finite B2"
      by (rule makesE [OF blk_new_makes [OF A] fin])
    obtain na B3 where na: "blk_new A B2 = Some (na, B3)" "fresh (ptr na) B2 B3"
      by (rule makesE [OF blk_new_makes [OF A] a(3)])
    have "fresh (func_blocks (a, na, dup_cstr nm, body)) B B3"
      using fresh_trans' [OF fresh_trans [OF y a(2)] na(2)] by (simp add: func_blocks_def)
    from both_push [OF A b this] obtain v B4 where v: "pvec_push A (s, c, fs) (a, na, dup_cstr nm, body) B3 = Some (v, B4)"
      "both C func_blocks v node_blocks (m_retired ft) B4" "items v = fs @ [(a, na, dup_cstr nm, body)]" by auto
    have "func_define_at A ft (Some nm) body B1 = Some (ft\<lparr>m_funcs := v\<rparr>, B4)"
      using None a(1) na(1) v(1) by (simp add: func_define_at_def f)
    moreover have "table_owns C (ft\<lparr>m_funcs := v\<rparr>) B4" using v(2) by (simp add: table_owns_def)
    moreover have "table_of (ft\<lparr>m_funcs := v\<rparr>) = func_define (table_of ft) (Some nm) (node_of body)"
      using idx None by (simp add: func_define_def) (simp add: table_of_def v(3) f func_of_def body_of_def)
    moreover have "mset (bodies (ft\<lparr>m_funcs := v\<rparr>)) = add_mset body (mset (bodies ft))"
      by (simp add: bodies_def v(3) f body_of_def)
    ultimately show ?thesis by blast
  next
    case (Some i)
    then have i: "i < length fs" by (rule find_index_less)
    obtain a na n old where o1: "fs ! i = (a, na, n, old)" by (cases "fs ! i")
    let ?fs = "fs[i := (a, na, n, body)]"
    obtain B' where B': "both C func_blocks (s, c, ?fs) node_blocks (m_retired ft) B'" "fresh (node_blocks old) B' B1"
      using both_exchange [OF b y i o1] by blast
    obtain r B2 where r: "pvec_push A (m_retired ft) old B1 = Some (r, B2)"
      "both C node_blocks r func_blocks (s, c, ?fs) B2" "items r = items (m_retired ft) @ [old]"
      using both_push [OF A both_sym [OF B'(1)] B'(2)] by blast
    let ?ft = "ft\<lparr>m_funcs := (s, c, ?fs), m_retired := r\<rparr>"
    have "func_define_at A ft (Some nm) body B1 = Some (?ft, B2)"
      using Some r(1) by (simp add: func_define_at_def f o1)
    moreover have "table_owns C ?ft B2" using both_sym [OF r(2)] by (simp add: table_owns_def)
    moreover have "table_of ?ft = func_define (table_of ft) (Some nm) (node_of body)"
      using idx Some i by (simp add: func_define_def)
        (simp add: table_of_def r(3) f func_of_def body_of_def o1 map_update)
    moreover have "mset (bodies ?ft) = add_mset body (mset (bodies ft))"
      using mset_exchange [of i "map body_of fs" body] i
      by (simp add: bodies_def r(3) f o1 body_of_def map_update)
    ultimately show ?thesis by blast
  qed
qed

text \<open>What the evaluator does with the definitions it meets: each body is copied and entered.\<close>

fun define_copies :: "Allocator \<Rightarrow> (string \<times> PNode) list \<Rightarrow> FuncMem \<Rightarrow> nat set \<Rightarrow> (FuncMem \<times> nat set) option" where
  "define_copies A [] ft B = Some (ft, B)"
| "define_copies A ((nm, n) # ds) ft B = do {
     (body, B1) \<leftarrow> ast_clone_at A n B;
     (ft1, B2) \<leftarrow> func_define_at A ft (Some nm) body B1;
     define_copies A ds ft1 B2
   }"

definition defined :: "(string \<times> PNode) list \<Rightarrow> FuncTable \<Rightarrow> FuncTable" where
  "defined ds t = foldl (\<lambda>t (nm, n). func_define t (Some nm) (ast_clone (node_of n))) t ds"

lemma define_copies_owned:
  assumes A: "allocator_ok A"
  shows "list_all (\<lambda>(nm, n). paired n) ds \<Longrightarrow> table_owns C ft B \<Longrightarrow>
    \<exists>ft1 B1. define_copies A ds ft B = Some (ft1, B1) \<and> table_owns C ft1 B1 \<and> table_of ft1 = defined ds (table_of ft)
      \<and> length (bodies ft1) = length (bodies ft) + length ds"
proof (induction ds arbitrary: ft B)
  case (Cons d ds)
  obtain nm n where d: "d = (nm, n)" by (cases d)
  have p: "paired n" "list_all (\<lambda>(nm, n). paired n) ds" using Cons.prems(1) by (simp_all add: d)
  have fin: "finite B" using Cons.prems(2) both_finite by (simp add: table_owns_def) blast
  obtain body B1 where body: "ast_clone_at A n B = Some (body, B1)" "copies n body" "fresh (node_blocks body) B B1"
    by (rule makesE [OF ast_clone_makes [OF A p(1)] fin])
  obtain ft1 B2 where f1: "func_define_at A ft (Some nm) body B1 = Some (ft1, B2)" "table_owns C ft1 B2"
    "table_of ft1 = func_define (table_of ft) (Some nm) (node_of body)" "mset (bodies ft1) = add_mset body (mset (bodies ft))"
    using func_define_step [OF A Cons.prems(2) body(3)] by blast
  have "length (bodies ft1) = Suc (length (bodies ft))" using arg_cong [OF f1(4), of size] by simp
  with Cons.IH [OF p(2) f1(2)] body(1,2) f1(1,3) show ?case by (auto simp: d defined_def)
qed (simp add: defined_def)

lemma table_owns_bodies: "table_owns C ft B \<Longrightarrow> b \<in> set (bodies ft) \<Longrightarrow> set (node_blocks b) \<subseteq> B"
  by (auto simp: table_owns_def both_def grown_def fresh_def bodies_def vec_blocks_def func_blocks_def body_of_def
      split: prod.splits)

text \<open>C13: The function table keeps what may still be running and loses nothing. However often functions are
  defined and redefined, no abort happens, the table has the value that the same definitions give
  on values, every body that was ever installed is still whole in memory (a function may
  redefine itself while it runs), and freeing the table at the end gives back exactly the memory
  there was before the first definition.\<close>

theorem func_table_owns_memory:
  assumes "allocator_ok A" "finite B" "list_all (\<lambda>(nm, n). paired n) ds"
  shows "\<exists>ft B1. define_copies A ds no_funcs B = Some (ft, B1)
    \<and> table_of ft = defined ds \<lparr>g_funcs = [], g_retired = []\<rparr>
    \<and> length (bodies ft) = length ds \<and> (\<forall>b\<in>set (bodies ft). set (node_blocks b) \<subseteq> B1)
    \<and> func_free_all_at ft B1 = Some (no_funcs, B)"
proof -
  have z: "table_of no_funcs = \<lparr>g_funcs = [], g_retired = []\<rparr>" "bodies no_funcs = []"
    by (simp_all add: table_of_def no_funcs_def bodies_def)
  obtain ft B1 where f: "define_copies A ds no_funcs B = Some (ft, B1)" "table_owns B ft B1"
    "table_of ft = defined ds (table_of no_funcs)" "length (bodies ft) = length (bodies no_funcs) + length ds"
    using define_copies_owned [OF assms(1,3) table_owns_no_funcs [OF assms(2)]] by blast
  with table_owns_free_all [OF f(2)] table_owns_bodies [OF f(2)] show ?thesis unfolding z by auto
qed

section \<open>A concrete allocator\<close>

definition bump :: Allocator where
  "bump = \<lparr>al_new = (\<lambda>B. Suc (Max (insert 0 B))), al_resize = (\<lambda>B p. p)\<rparr>"

lemma bump_ok: "allocator_ok bump"
proof -
  have "Suc (Max (insert 0 B)) \<notin> B" if "finite B" for B :: "nat set"
  proof
    assume "Suc (Max (insert 0 B)) \<in> B"
    with that have "Suc (Max (insert 0 B)) \<le> Max (insert 0 B)" by (intro Max_ge) simp_all
    then show False by (rule Suc_n_not_le_n [THEN notE])
  qed
  then show ?thesis by (simp add: allocator_ok_def bump_def)
qed

text \<open>\<open>while true; do true; done\<close> as a tree without words.\<close>

definition small_tree :: PNode where
  "small_tree = PN_WHILE 1 (PN_LIST 2 3 8 []) (PN_IF 4 5 8 [PN_LIST 6 7 8 []] 8 8 [PN_LIST 9 10 8 []] None)"

lemma ast_clone_owns_memory_witness:
  "\<exists>m B1. ast_clone_at bump small_tree {1..10} = Some (m, B1) \<and> node_of m = node_of small_tree \<and> ast_free m B1 = Some {1..10}"
proof -
  have p: "paired small_tree" "ast_clone (node_of small_tree) = node_of small_tree" by (simp_all add: small_tree_def)
  show ?thesis
    using ast_clone_owns_memory [OF bump_ok _ p(1), of "{1..10}"] p(2) by auto
qed

lemma func_table_owns_memory_witness:
  "\<exists>ft B1. define_copies bump [(''f'', small_tree), (''g'', small_tree), (''f'', PN_LIST 2 3 8 [])] no_funcs {1..10} = Some (ft, B1)
    \<and> length (bodies ft) = 3 \<and> func_free_all_at ft B1 = Some (no_funcs, {1..10})"
proof -
  have p: "list_all (\<lambda>(nm, n). paired n) [(''f'', small_tree), (''g'', small_tree), (''f'', PN_LIST 2 3 8 [])]"
    by (simp add: small_tree_def)
  show ?thesis using func_table_owns_memory [OF bump_ok _ p, of "{1..10}"] by auto
qed

end
