(* ===== verification/Redir_Syntax.thy ===== *)
theory Redir_Syntax
  imports Parser
begin

text \<open>
  What becomes of a program that ends in a redirection operator: the parser of \<open>parser.c\<close> asks for
  another line (\<open>NSH_ERR_INCOMPLETE\<close>), and no further line can complete it.
\<close>

section \<open>A redirection operator at the end\<close>

text \<open>
  The same for input that ends in a redirection operator \<open>o\<close>, with any tokens \<open>ys\<close> appended: what is
  left behind a success still ends in \<open>o\<close>, a syntax error stays one, and if \<open>ys\<close> does not start with a
  word, the request for more input becomes one.
\<close>

definition redir_ext :: "Token \<Rightarrow> TokenList \<Rightarrow> 'a pres option \<Rightarrow> 'a pres option \<Rightarrow> bool" where
  "redir_ext o1 ys m m' = (case m of None \<Rightarrow> True
     | Some (Inl e) \<Rightarrow> e = NSH_ERR_SYNTAX \<and> m' = Some (Inl NSH_ERR_SYNTAX)
         \<or> e = NSH_ERR_INCOMPLETE \<and> (ys \<noteq> [] \<and> t_kind (hd ys) \<noteq> TOK_WORD \<longrightarrow> m' = Some (Inl NSH_ERR_SYNTAX))
     | Some (Inr (x, r)) \<Rightarrow> \<exists>r0. r = r0 @ [o1] \<and> m' = Some (Inr (x, r0 @ o1 # ys)))"

lemma redir_ext_simps [simp]:
  "redir_ext o1 ys (Some (Inr (x, r @ [o1]))) m' \<longleftrightarrow> m' = Some (Inr (x, r @ o1 # ys))"
  "redir_ext o1 ys (Some (Inr (x, t # r @ [o1]))) m' \<longleftrightarrow> m' = Some (Inr (x, t # r @ o1 # ys))"
  "redir_ext o1 ys (Some (Inr (x, [o1]))) m' \<longleftrightarrow> m' = Some (Inr (x, o1 # ys))"
  "redir_ext o1 ys (Some (Inl NSH_ERR_SYNTAX)) m' \<longleftrightarrow> m' = Some (Inl NSH_ERR_SYNTAX)"
  "redir_ext o1 ys None m'"
  by (auto simp: redir_ext_def Cons_eq_append_conv)

lemma redir_optE:
  assumes "redir_ext o1 ys m m'"
  obtains (none) "m = None" | (err) "m = Some (Inl NSH_ERR_SYNTAX)" "m' = Some (Inl NSH_ERR_SYNTAX)"
    | (inc) "m = Some (Inl NSH_ERR_INCOMPLETE)" "ys \<noteq> [] \<and> t_kind (hd ys) \<noteq> TOK_WORD \<longrightarrow> m' = Some (Inl NSH_ERR_SYNTAX)"
    | (ok) x r where "m = Some (Inr (x, r @ [o1]))" "m' = Some (Inr (x, r @ o1 # ys))"
  using assms unfolding redir_ext_def by (fastforce split: option.splits sum.splits prod.splits)

lemma redir_inc: "redir_ext o1 ys (Some (Inl NSH_ERR_INCOMPLETE)) m'
    \<longleftrightarrow> (ys \<noteq> [] \<and> t_kind (hd ys) \<noteq> TOK_WORD \<longrightarrow> m' = Some (Inl NSH_ERR_SYNTAX))"
  by (simp add: redir_ext_def)

lemma redir_bind:
  assumes "redir_ext o1 ys m m'" "\<And>x r. redir_ext o1 ys (f x (r @ [o1])) (f' x (r @ o1 # ys))"
  shows "redir_ext o1 ys (bindp m f) (bindp m' f')"
  using assms(1) by (cases rule: redir_optE) (use assms(2) in \<open>auto simp: bindp_def redir_inc\<close>)

lemma redir_tests:
  assumes "is_redir (t_kind o1)"
  shows "at_kind (ts @ o1 # ys) k = (if ts = [] then t_kind o1 = k else at_kind ts k)"
    "kw_at (ts @ o1 # ys) kw = kw_at ts kw" "at_ender (ts @ o1 # ys) = at_ender ts"
    "at_sep (ts @ o1 # ys) = at_sep ts" "at_end (ts @ o1 # ys) = False"
    "skip_seps (ts @ o1 # ys) = skip_seps ts @ o1 # ys" "skip_nl (ts @ o1 # ys) = skip_nl ts @ o1 # ys"
    "pk (ts @ o1 # ys) = (if ts = [] then Some o1 else pk ts)"
proof -
  have k: "t_kind o1 \<noteq> TOK_WORD" "t_kind o1 \<noteq> TOK_SEMI" "t_kind o1 \<noteq> TOK_NEWLINE" using assms by (auto simp: is_redir_def)
  show "at_kind (ts @ o1 # ys) k = (if ts = [] then t_kind o1 = k else at_kind ts k)"
    "kw_at (ts @ o1 # ys) kw = kw_at ts kw" "at_ender (ts @ o1 # ys) = at_ender ts"
    "at_sep (ts @ o1 # ys) = at_sep ts" "at_end (ts @ o1 # ys) = False"
    "pk (ts @ o1 # ys) = (if ts = [] then Some o1 else pk ts)"
    by (cases ts; auto simp: token_tests tok_is_def at_ender_def in_set_iff k)+
  show "skip_seps (ts @ o1 # ys) = skip_seps ts @ o1 # ys" "skip_nl (ts @ o1 # ys) = skip_nl ts @ o1 # ys"
    by (induction ts) (auto simp: token_tests k)
qed

lemma redir_not:
  "is_redir k \<Longrightarrow> k \<noteq> TOK_WORD \<and> k \<noteq> TOK_SEMI \<and> k \<noteq> TOK_NEWLINE \<and> k \<noteq> TOK_PIPE \<and> k \<noteq> TOK_AND_IF \<and> k \<noteq> TOK_OR_IF
    \<and> k \<noteq> TOK_AMP \<and> k \<noteq> TOK_LPAREN \<and> k \<noteq> TOK_RPAREN"
  by (auto simp: is_redir_def)

lemma simple_loop_at_redir:
  assumes "is_redir (t_kind o1)"
  shows "redir_ext o1 ys (Some (simple_loop c (ts @ [o1]))) (Some (simple_loop c (ts @ o1 # ys)))"
proof (induction c ts rule: simple_loop.induct)
  case (1 c)
  then show ?case using assms redir_not [OF assms] by (cases ys) (auto simp: redir_ext_def)
next
  case (2 c t ts)
  note k = redir_not [OF assms]
  have fin: "redir_ext o1 ys (Some (simple_done c (t # ts @ [o1]))) (Some (simple_done c (t # ts @ o1 # ys)))"
    by (simp add: simple_done_def)
  show ?case
  proof (cases "is_redir (t_kind t)")
    case True
    show ?thesis
    proof (cases ts)
      case Nil
      then show ?thesis using True redir_not [OF True] k by simp
    next
      case (Cons u us)
      show ?thesis
      proof (cases "t_kind u = TOK_WORD")
        case False
        then show ?thesis using True redir_not [OF True] Cons by simp
      next
        case w: True
        show ?thesis
        proof (cases "cmd_set_redir c (t_kind t) u")
          case (Inl e)
          then have "e = NSH_ERR_SYNTAX" by (auto simp: cmd_set_redir_def split: if_splits)
          then show ?thesis using True redir_not [OF True] Cons w Inl by simp
        next
          case (Inr c1)
          then show ?thesis using True redir_not [OF True] Cons w 2(2) [of u us] by simp
        qed
      qed
    qed
  next
    case False
    then show ?thesis using 2(1) fin by simp
  qed
qed

lemma redir_sum:
  assumes "redir_ext o1 ys (Some m) (Some m')"
  obtains (err) "m = Inl NSH_ERR_SYNTAX" "m' = Inl NSH_ERR_SYNTAX"
    | (inc) "m = Inl NSH_ERR_INCOMPLETE" "ys \<noteq> [] \<and> t_kind (hd ys) \<noteq> TOK_WORD \<longrightarrow> m' = Inl NSH_ERR_SYNTAX"
    | (ok) x r where "m = Inr (x, r @ [o1])" "m' = Inr (x, r @ o1 # ys)"
  using assms by (cases rule: redir_optE) auto

lemma pipeline_loop_redir:
  assumes o1: "is_redir (t_kind o1)"
  shows "redir_ext o1 ys (Some (pipeline_loop cs (ts @ [o1]))) (Some (pipeline_loop cs (ts @ o1 # ys)))"
proof (induction "length ts" arbitrary: cs ts rule: less_induct)
  case less
  have s: "redir_ext o1 ys (Some (parse_simple (ts @ [o1]))) (Some (parse_simple (ts @ o1 # ys)))"
    unfolding parse_simple_def by (rule simple_loop_at_redir [OF o1])
  note p = pipeline_loop.simps [of cs "ts @ [o1]"] pipeline_loop.simps [of cs "ts @ o1 # ys"]
  from s show ?case
  proof (cases rule: redir_sum)
    case err
    then show ?thesis by (simp add: p)
  next
    case inc
    then show ?thesis by (simp add: p redir_inc)
  next
    case (ok c r)
    show ?thesis
    proof (cases "r \<noteq> [] \<and> at_kind r TOK_PIPE")
      case True
      have "length r \<le> length ts"
        using simple_loop_length ok(1) unfolding parse_simple_def by fastforce
      then have "length (skip_nl (tl r)) < length ts" using True skip_nl_length [of "tl r"] by (cases r) auto
      from less [OF this, of "cs @ [c]"] True ok show ?thesis
        by (simp add: p redir_tests [OF o1] Let_def)
    next
      case False
      then show ?thesis using ok redir_not [OF o1] by (auto simp: p redir_tests [OF o1])
    qed
  qed
qed

lemma parse_pipeline_redir:
  assumes "is_redir (t_kind o1)"
  shows "redir_ext o1 ys (Some (parse_pipeline (ts @ [o1]))) (Some (parse_pipeline (ts @ o1 # ys)))"
  using pipeline_loop_redir [OF assms, of ys "[]" ts]
  by (cases rule: redir_sum) (simp_all add: parse_pipeline_def redir_inc)

lemma take_bang_redir:
  assumes "is_redir (t_kind o1)"
  shows "redir_ext o1 ys (Some (take_bang (ts @ [o1]))) (Some (take_bang (ts @ o1 # ys)))"
proof (cases ts)
  case (Cons t us)
  have "tok_is (Some o1) kw = False" for kw using redir_not [OF assms] by (simp add: tok_is_def)
  then show ?thesis
    by (auto simp: take_bang_def redir_tests [OF assms] Let_def Cons)
next
  case Nil
  then show ?thesis
    using redir_not [OF assms] by (simp add: take_bang_def tok_is_def)
qed

lemma andor_loop_redir:
  assumes o1: "is_redir (t_kind o1)"
  shows "redir_ext o1 ys (Some (andor_loop its op (ts @ [o1]))) (Some (andor_loop its op (ts @ o1 # ys)))"
proof (induction "length ts" arbitrary: its op ts rule: less_induct)
  case less
  note p = andor_loop.simps [of its op "ts @ [o1]"] andor_loop.simps [of its op "ts @ o1 # ys"]
  from take_bang_redir [OF o1, of ys ts] show ?case
  proof (cases rule: redir_sum)
    case (ok neg q)
    from parse_pipeline_redir [OF o1, of ys q] show ?thesis
    proof (cases rule: redir_sum)
      case ok2: (ok pl s)
      show ?thesis
      proof (cases "s \<noteq> [] \<and> (at_kind s TOK_AND_IF \<or> at_kind s TOK_OR_IF)")
        case True
        have "length q \<le> length ts" using take_bang_length [OF ok(1)] by simp
        moreover have "length s \<le> length q" using parse_pipeline_length [OF ok2(1)] by simp
        ultimately have lt: "length (skip_nl (tl s)) < length ts" using True skip_nl_length [of "tl s"] by (cases s) auto
        show ?thesis
          using True ok ok2 less [OF lt]
          by (cases "at_kind s TOK_AND_IF") (auto simp: p redir_tests [OF o1] Let_def)
      next
        case False
        then show ?thesis using ok ok2 redir_not [OF o1] by (auto simp: p redir_tests [OF o1] Let_def)
      qed
    qed (use ok in \<open>simp_all add: p redir_inc\<close>)
  qed (simp_all add: p redir_inc)
qed

lemma parse_andor_redir:
  assumes "is_redir (t_kind o1)"
  shows "redir_ext o1 ys (Some (parse_andor (ts @ [o1]))) (Some (parse_andor (ts @ o1 # ys)))"
  using andor_loop_redir [OF assms, of ys "[]" ANDOR_FIRST ts]
  by (cases rule: redir_sum) (simp_all add: parse_andor_def redir_inc)

definition body_redir :: "Token \<Rightarrow> TokenList \<Rightarrow> (TokenList \<Rightarrow> 'a pres option) \<Rightarrow> bool" where
  "body_redir o1 ys pl \<longleftrightarrow> (\<forall>ts. redir_ext o1 ys (pl (ts @ [o1])) (pl (ts @ o1 # ys)))"

lemma redir_bodyD: "body_redir o1 ys pl \<Longrightarrow> redir_ext o1 ys (pl (ts @ [o1])) (pl (ts @ o1 # ys))"
  by (simp add: body_redir_def)

lemma expect_redir:
  assumes "is_redir (t_kind o1)"
  shows "redir_ext o1 ys (Some (expect_kw (ts @ [o1]) kw)) (Some (expect_kw (ts @ o1 # ys) kw))"
  by (cases ts) (auto simp: expect_kw_def redir_tests [OF assms] redir_not [OF assms] tok_is_def)

lemma parse_body_redir:
  assumes "body_redir o1 ys pl"
  shows "redir_ext o1 ys (parse_body pl (ts @ [o1])) (parse_body pl (ts @ o1 # ys))"
  unfolding parse_body_def
  by (rule redir_bind [OF redir_bodyD [OF assms]]) (auto simp: at_end_def split: option.splits)

lemma if_loop_redir:
  assumes o1: "is_redir (t_kind o1)" and pl: "body_redir o1 ys pl"
  shows "redir_ext o1 ys (if_loop pl n cs bs (ts @ [o1])) (if_loop pl n cs bs (ts @ o1 # ys))"
proof (induction n arbitrary: cs bs ts)
  case (Suc n)
  show ?case
    unfolding if_loop.simps
  proof (rule redir_bind [OF parse_body_redir [OF pl]], rule redir_bind [OF expect_redir [OF o1]],
      rule redir_bind [OF parse_body_redir [OF pl]], goal_cases)
    case (1 cond r x s body u)
    then show ?case using Suc [of _ _ "tl u"] redir_not [OF o1] by (cases u) (simp_all add: redir_tests [OF o1])
  qed
qed simp

lemma parse_if_redir:
  assumes o1: "is_redir (t_kind o1)" and pl: "body_redir o1 ys pl" and "ts \<noteq> []"
  shows "redir_ext o1 ys (parse_if pl n (ts @ [o1])) (parse_if pl n (ts @ o1 # ys))"
proof -
  have fi: "redir_ext o1 ys (bindp (Some (expect_kw (r @ [o1]) ''fi'')) (\<lambda>_ u. Some (Inr (x, u))))
     (bindp (Some (expect_kw (r @ o1 # ys) ''fi'')) (\<lambda>_ u. Some (Inr (x, u))))" for r and x :: Node
    by (rule redir_bind [OF expect_redir [OF o1]]) simp
  have els: "redir_ext o1 ys (bindp (parse_body pl (r @ [o1])) (\<lambda>els s. bindp (Some (expect_kw s ''fi'')) (\<lambda>_ u. Some (Inr (NODE_IF cs bs (Some els), u)))))
     (bindp (parse_body pl (r @ o1 # ys)) (\<lambda>els s. bindp (Some (expect_kw s ''fi'')) (\<lambda>_ u. Some (Inr (NODE_IF cs bs (Some els), u)))))" for r cs bs
    by (rule redir_bind [OF parse_body_redir [OF pl]], rule fi)
  obtain t us where ts: "ts = t # us" using assms(3) by (cases ts) auto
  show ?thesis
    unfolding parse_if_def ts append_Cons list.sel
  proof (rule redir_bind [OF if_loop_redir [OF o1 pl]], goal_cases)
    case (1 x r)
    obtain cs bs where x: "x = (cs, bs)" by (cases x)
    show ?case
      using fi [of r "NODE_IF cs bs None"] els [of "tl r" cs bs] redir_not [OF o1]
      by (cases r) (simp_all add: redir_tests [OF o1] x)
  qed
qed

lemma parse_while_redir:
  assumes o1: "is_redir (t_kind o1)" and pl: "body_redir o1 ys pl" and "ts \<noteq> []"
  shows "redir_ext o1 ys (parse_while pl (ts @ [o1])) (parse_while pl (ts @ o1 # ys))"
proof -
  obtain t us where ts: "ts = t # us" using assms(3) by (cases ts) auto
  show ?thesis
    unfolding parse_while_def ts append_Cons list.sel
    by (rule redir_bind [OF parse_body_redir [OF pl]], rule redir_bind [OF expect_redir [OF o1]],
        rule redir_bind [OF parse_body_redir [OF pl]], rule redir_bind [OF expect_redir [OF o1]]) simp
qed

lemma for_words_redir:
  assumes "is_redir (t_kind o1)"
  shows "for_words (ts @ o1 # ys) = (fst (for_words ts), snd (for_words ts) @ o1 # ys)"
  using redir_not [OF assms] by (induction ts) (auto split: prod.splits)

lemma for_head_redir:
  assumes o1: "is_redir (t_kind o1)"
  shows "redir_ext o1 ys (Some (for_head (ts @ [o1]))) (Some (for_head (ts @ o1 # ys)))"
proof -
  from expect_redir [OF o1, of ys "skip_nl ts" "''in''"] show ?thesis
  proof (cases rule: redir_sum)
    case (ok x r)
    then show ?thesis
      by (cases "snd (for_words r)")
        (auto simp: for_head_def redir_tests [OF o1] for_words_redir [OF o1] Let_def redir_not [OF o1] token_tests)
  qed (simp_all add: for_head_def redir_tests [OF o1] redir_inc)
qed

lemma parse_for_redir:
  assumes o1: "is_redir (t_kind o1)" and pl: "body_redir o1 ys pl" and "ts \<noteq> []"
  shows "redir_ext o1 ys (parse_for pl (ts @ [o1])) (parse_for pl (ts @ o1 # ys))"
proof -
  obtain t us where ts: "ts = t # us" using assms(3) by (cases ts) auto
  show ?thesis
  proof (cases us)
    case Nil
    then show ?thesis by (simp add: ts parse_for_def redir_tests [OF o1] name_dup_def pk_def redir_not [OF o1])
  next
    case (Cons u vs)
    show ?thesis
    proof (cases "name_dup (Some u)")
      case None
      then show ?thesis by (simp add: ts Cons parse_for_def pk_def)
    next
      case (Some var)
      have "redir_ext o1 ys (bindp (Some (for_head (vs @ [o1]))) (\<lambda>ws r. bindp (Some (expect_kw r ''do'')) (\<lambda>_ s.
          bindp (parse_body pl s) (\<lambda>body u. bindp (Some (expect_kw u ''done'')) (\<lambda>_ v. Some (Inr (NODE_FOR var ws body, v)))))))
        (bindp (Some (for_head (vs @ o1 # ys))) (\<lambda>ws r. bindp (Some (expect_kw r ''do'')) (\<lambda>_ s.
          bindp (parse_body pl s) (\<lambda>body u. bindp (Some (expect_kw u ''done'')) (\<lambda>_ v. Some (Inr (NODE_FOR var ws body, v)))))))"
        by (rule redir_bind [OF for_head_redir [OF o1]], rule redir_bind [OF expect_redir [OF o1]],
            rule redir_bind [OF parse_body_redir [OF pl]], rule redir_bind [OF expect_redir [OF o1]]) simp
      with Some show ?thesis by (simp add: ts Cons parse_for_def pk_def)
    qed
  qed
qed

lemma parse_funcdef_redir:
  assumes o1: "is_redir (t_kind o1)" and pl: "body_redir o1 ys pl" and "at_kind (tl ts) TOK_LPAREN"
  shows "redir_ext o1 ys (parse_funcdef pl (ts @ [o1])) (parse_funcdef pl (ts @ o1 # ys))"
proof -
  obtain t u us where ts: "ts = t # u # us" using assms(3) by (cases ts; cases "tl ts") auto
  have "redir_ext o1 ys (Some (funcdef_head (ts @ [o1]))) (Some (funcdef_head (ts @ o1 # ys)))"
    by (cases us) (auto simp: ts funcdef_head_def pk_def Let_def redir_tests [OF o1] redir_not [OF o1] split: option.splits)
  then show ?thesis
    unfolding parse_funcdef_def
    by (rule redir_bind, intro redir_bind [OF expect_redir [OF o1]] redir_bind [OF parse_body_redir [OF pl]]) simp
qed

lemma parse_item_redir:
  assumes o1: "is_redir (t_kind o1)" and pl: "body_redir o1 ys pl"
  shows "redir_ext o1 ys (parse_item pl n (ts @ [o1])) (parse_item pl n (ts @ o1 # ys))"
proof (cases ts)
  case Nil
  then show ?thesis
    using parse_andor_redir [OF o1, of ys "[]"] redir_not [OF o1] by (simp add: parse_item_def)
next
  case (Cons t us)
  then have tl: "tl (ts @ [o1]) = us @ [o1]" "tl (ts @ o1 # ys) = us @ o1 # ys" "ts \<noteq> []" "us = tl ts" by simp_all
  show ?thesis
    using parse_if_redir [OF o1 pl tl(3), of n] parse_while_redir [OF o1 pl tl(3)] parse_for_redir [OF o1 pl tl(3)]
      parse_funcdef_redir [OF o1 pl, of ts] parse_andor_redir [OF o1, of ys ts] redir_not [OF o1] tl(3)
    unfolding parse_item_def tl(1,2) by (simp add: redir_tests [OF o1] tl(4))
qed

lemma list_loop_redir:
  assumes o1: "is_redir (t_kind o1)"
  shows "redir_ext o1 ys (list_loop n nodes (ts @ [o1])) (list_loop n nodes (ts @ o1 # ys))"
proof (induction n arbitrary: nodes ts)
  case (Suc n)
  have pl: "body_redir o1 ys (list_loop n [])" using Suc by (simp add: body_redir_def)
  let ?f = "\<lambda>item r. if at_kind r TOK_AMP then
             (if \<not> is_pipeline item then Some (Inl NSH_ERR_SYNTAX)
              else list_loop n (nodes @ [set_background item]) (tl r))
           else if \<not> at_end r \<and> \<not> at_ender r \<and> \<not> at_sep r then Some (Inl NSH_ERR_SYNTAX)
           else list_loop n (nodes @ [item]) r"
  have f: "redir_ext o1 ys (?f item (r @ [o1])) (?f item (r @ o1 # ys))" for item r
    using Suc [of _ r] Suc [of _ "tl r"] redir_not [OF o1] by (cases r) (simp_all add: redir_tests [OF o1])
  show ?case
  proof (cases "at_ender (skip_seps ts)")
    case True
    then show ?thesis by (simp add: redir_tests [OF o1] Let_def)
  next
    case False
    have eqs: "list_loop (Suc n) nodes (ts @ o1 # zs)
      = bindp (parse_item (list_loop n []) n (skip_seps ts @ o1 # zs)) ?f" for zs
      using False by (simp add: redir_tests [OF o1] Let_def)
    show ?thesis
      unfolding eqs by (rule redir_bind [OF parse_item_redir [OF o1 pl]], rule f)
  qed
qed simp

lemma parse_list_total: "length ts < n \<Longrightarrow> parse_list n ts \<noteq> None"
  using ret_list_loop [of ts n "[]"]
  by (cases "list_loop n [] ts") (simp_all add: ret_def parse_list_def del: list_loop.simps)

text \<open>C32: A redirection operator at the end of the input asks for another line in vain. Whatever stands
  before it, the program is incomplete or a syntax error; it is incomplete whenever some file name
  behind the operator would make it a program; and every continuation by further lines is a syntax error, because
  the newline that joins the lines stands where the file name must be.\<close>

theorem parser_redirect_never_completes:
  assumes "is_redir (t_kind o1)"
  shows "(\<exists>e. parser_parse_program (ts @ [o1]) = Some (e, None) \<and> (e = NSH_ERR_INCOMPLETE \<or> e = NSH_ERR_SYNTAX)
      \<and> (\<forall>us n. parser_parse_program (ts @ o1 # us) = Some (NSH_OK, n) \<longrightarrow> e = NSH_ERR_INCOMPLETE))
    \<and> parser_parse_program ((ts @ [o1]) @ NL_TOK # us) = Some (NSH_ERR_SYNTAX, None)"
proof -
  have fuel: "parser_parse_program zs = program_result (parse_list n zs)" if "length zs < n" for zs n
    using parse_list_fuel [OF that] by (simp add: parser_parse_program_def)
  have ext: "\<exists>e. parser_parse_program (ts @ [o1]) = Some (e, None) \<and> (e = NSH_ERR_INCOMPLETE \<or> e = NSH_ERR_SYNTAX)
     \<and> (e = NSH_ERR_SYNTAX \<or> ys \<noteq> [] \<and> t_kind (hd ys) \<noteq> TOK_WORD \<longrightarrow> parser_parse_program (ts @ o1 # ys) = Some (NSH_ERR_SYNTAX, None))" for ys
  proof -
    let ?n = "Suc (length (ts @ o1 # ys))"
    have "parse_list ?n (ts @ [o1]) \<noteq> None"
      by (rule parse_list_total) simp
    moreover have r: "redir_ext o1 ys (parse_list ?n (ts @ [o1])) (parse_list ?n (ts @ o1 # ys))"
      unfolding parse_list_def by (rule list_loop_redir [OF assms])
    ultimately show ?thesis
      using fuel [of "ts @ [o1]" ?n] fuel [of "ts @ o1 # ys" ?n]
      by (cases rule: redir_optE [OF r]) (auto simp: program_result_def at_end_def)
  qed
  show ?thesis using ext [of "NL_TOK # us"] ext by fastforce
qed

abbreviation cat_word :: Token where
  "cat_word \<equiv> \<lparr>t_kind = TOK_WORD, t_segs = [\<lparr>ws_text = ''cat'', ws_expand = True\<rparr>]\<rparr>"

abbreviation out_op :: Token where "out_op \<equiv> \<lparr>t_kind = TOK_REDIR_OUT, t_segs = []\<rparr>"

lemma parser_redirect_never_completes_witness:
  "parser_parse_program [cat_word, out_op] = Some (NSH_ERR_INCOMPLETE, None)
    \<and> parser_parse_program [cat_word, out_op, NL_TOK, cat_word] = Some (NSH_ERR_SYNTAX, None)"
proof -
  have "\<exists>n. parser_parse_program [cat_word, out_op, cat_word] = Some (NSH_OK, n)" by (simp add: eval_parser)
  then show ?thesis
    using parser_redirect_never_completes [of out_op "[cat_word]" "[cat_word]"] by (auto simp: is_redir_def)
qed

end
