(* ===== verification/Emu_Pace.thy ===== *)
theory Emu_Pace
  imports Emu_Props
begin

text \<open>
  The pace of the emulator's loop in \<open>emu.c\<close>: its accumulators make the machine keep up with the time
  that has passed since the session began, over any number of rounds.
\<close>

text \<open>Steps in a row; None when one fails.\<close>

fun steps_ok :: "nat \<Rightarrow> Chip8 \<Rightarrow> Chip8 option" where
  "steps_ok 0 c = Some c"
| "steps_ok (Suc k) c = (case cpu_step c of
     None \<Rightarrow> None | Some (e, c1) \<Rightarrow> if e = NSH_OK then steps_ok k c1 else None)"

text \<open>The keys of a round, as they are typed, and then those that have been down for too long.\<close>

fun press_keys :: "int \<Rightarrow> string \<Rightarrow> Chip8 \<times> int list \<Rightarrow> (Chip8 \<times> int list) option" where
  "press_keys now [] ch = Some ch"
| "press_keys now (k # ks) ch = (case ch of (c, held) \<Rightarrow>
     if keypad_map k \<ge> 0
     then (case cpu_key_event c (keypad_map k) True of
             None \<Rightarrow> None | Some c1 \<Rightarrow> press_keys now ks (c1, held[nat (keypad_map k) := now]))
     else press_keys now ks (c, held))"

text \<open>
  The machine driven by one clock. \<open>e\<close> is the time in nanoseconds it has run so far; a round adds what
  has passed since the last one, but at most a quarter of a second and nothing if the clock went back.
  After the time \<open>e\<close> the machine has made \<open>e div STEP_NS\<close> steps and \<open>e div TIMER_NS\<close> ticks, so a round makes
  those that are missing. The result is the machine, or None once a step fails.
\<close>

fun clocked :: "int \<Rightarrow> int \<Rightarrow> Chip8 \<times> int list \<Rightarrow> Round list \<Rightarrow> Chip8 option" where
  "clocked e prev ch [] = Some (fst ch)"
| "clocked e prev ch (r # rs) = (let e1 = e + max 0 (min (rnd_now r - prev) 250000000) in do {
     ch1 \<leftarrow> press_keys (rnd_now r) (rnd_keys r) ch;
     (c2, held) \<leftarrow> release_stale_keys (rnd_now r) (fst ch1) (snd ch1);
     c3 \<leftarrow> steps_ok (nat (e1 div STEP_NS - e div STEP_NS)) c2;
     clocked e1 (rnd_now r)
       (((cpu_tick_timers ^^ nat (e1 div TIMER_NS - e div TIMER_NS)) c3)\<lparr>ch_fb_dirty := False\<rparr>, held) rs
   })"

fun emu_rounds :: "'w Os \<Rightarrow> 'w EmuEnv \<Rightarrow> nat \<Rightarrow> nat \<Rightarrow> EmuSt \<Rightarrow> EmuLoop \<Rightarrow> 'w Proc
    \<Rightarrow> ((int + EmuLoop) \<times> EmuSt \<times> 'w Proc) option" where
  "emu_rounds os en n 0 st l p = Some (Inr l, st, p)"
| "emu_rounds os en n (Suc k) st l p = (case emu_round os en n st l p of
     None \<Rightarrow> None
   | Some (Inl status, st1, p1) \<Rightarrow> Some (Inl status, st1, p1)
   | Some (Inr l1, st1, p1) \<Rightarrow> emu_rounds os en n k st1 l1 p1)"

lemma step_loop_steps:
  "0 \<le> acc \<Longrightarrow> chip_inv c \<Longrightarrow> (case steps_ok (nat (acc div STEP_NS)) c of
     None \<Rightarrow> \<exists>err a c1. step_loop acc c = Some (err, a, c1) \<and> err \<noteq> NSH_OK
   | Some c1 \<Rightarrow> step_loop acc c = Some (NSH_OK, acc mod STEP_NS, c1) \<and> chip_inv c1)"
proof (induction acc c rule: step_loop.induct)
  case (1 acc c)
  have pos: "0 < STEP_NS" by (simp add: emu_consts)
  show ?case
  proof (cases "acc < STEP_NS")
    case True
    then show ?thesis using 1(2,3) by (simp add: step_loop.simps [of acc])
  next
    case False
    have k: "nat (acc div STEP_NS) = Suc (nat ((acc - STEP_NS) div STEP_NS))"
      using False pos by (simp add: nat_eq_iff div_pos_geq pos_imp_zdiv_nonneg_iff)
    have m: "(acc - STEP_NS) mod STEP_NS = acc mod STEP_NS" using False pos by simp
    obtain e c1 where s: "cpu_step c = Some (e, c1)" "chip_inv c1" using chip_step_total [OF 1(3)] by blast
    show ?thesis
    proof (cases "e = NSH_OK")
      case True
      have "0 \<le> acc - STEP_NS" using False by simp
      from 1(1) [OF False s(1) refl True this s(2)] show ?thesis
        unfolding k using s(1) True False m by (simp add: step_loop.simps [of acc] split: option.splits)
    next
      case bad: False
      then show ?thesis unfolding k using s(1) False by (simp add: step_loop.simps [of acc])
    qed
  qed
qed

lemma drain_input_press:
  assumes "emu_serves os en"
  shows "length held = KEY_COUNT \<Longrightarrow> chip_inv c \<Longrightarrow> p_world p = (r # rs, v) \<Longrightarrow> rnd_keys r = ks \<Longrightarrow> length ks + 1 \<le> n
    \<Longrightarrow> KEY_ESC \<notin> set ks \<Longrightarrow>
    \<exists>c1 held1. drain_input os n now c held p = Some (False, c1, held1, p\<lparr>p_world := (r\<lparr>rnd_keys := []\<rparr> # rs, v)\<rparr>)
      \<and> press_keys now ks (c, held) = Some (c1, held1) \<and> chip_inv c1 \<and> length held1 = KEY_COUNT"
proof (induction ks arbitrary: n c held p r)
  case Nil
  then obtain m where n: "n = Suc m" by (cases n) auto
  have "term_read_key os p = (None, p\<lparr>p_world := (r # rs, v)\<rparr>)"
    using Nil by (simp add: term_read_key_def emu_simps [OF assms])
  moreover have "r\<lparr>rnd_keys := []\<rparr> = r" using Nil(4) by (cases r) simp
  ultimately show ?case using Nil(1,2) n by simp
next
  case (Cons ch ks)
  then obtain m where n: "n = Suc m" "length ks + 1 \<le> m" by (cases n) auto
  let ?r = "r\<lparr>rnd_keys := ks\<rparr>"
  let ?p = "p\<lparr>p_world := (?r # rs, v)\<rparr>"
  have read: "term_read_key os p = (Some ch, ?p)"
    using Cons.prems(3,4) by (simp add: term_read_key_def emu_simps [OF assms])
  have esc: "ch \<noteq> KEY_ESC" "KEY_ESC \<notin> set ks" using Cons.prems(6) by auto
  show ?case
  proof (cases "keypad_map ch \<ge> 0")
    case True
    obtain c1 where c1: "cpu_key_event c (keypad_map ch) True = Some c1" "chip_inv c1" using key_safe [OF Cons.prems(2)] by blast
    have len: "length (held[nat (keypad_map ch) := now]) = KEY_COUNT" using Cons.prems(1) by simp
    have w: "wr held (nat (keypad_map ch)) now = Some (held[nat (keypad_map ch) := now])"
      using keypad_range [of ch] Cons.prems(1) True by (simp add: wr_def KEY_COUNT_def)
    show ?thesis
      using Cons.IH [OF len c1(2), of ?p ?r m] n(2) esc w True read c1(1) n(1) by simp
  next
    case False
    show ?thesis
      using Cons.IH [OF Cons.prems(1,2), of ?p ?r m] n(2) esc False read n(1) by simp
  qed
qed

lemma paint_clean: "fst (paint c p) = c\<lparr>ch_fb_dirty := False\<rparr>"
  by (cases c) (simp add: paint_def)

lemma exit_raw_returns: "emu_serves os en \<Longrightarrow> \<exists>q. term_exit_raw os (Suc n) p = Some q"
  by (simp add: term_exit_raw_def emu_simps write_whole check_def set_term_def sys_tcsetattr_def sys_setfl_def Let_def)

lemma div_carry:
  fixes s :: int
  assumes "0 < s"
  shows "(e mod s + d) div s = (e + d) div s - e div s" "(e mod s + d) mod s = (e + d) mod s"
proof -
  have "e + d = (e mod s + d) + e div s * s" by (simp add: algebra_simps)
  then have "(e + d) div s = ((e mod s + d) + e div s * s) div s" by (simp only:)
  also have "\<dots> = e div s + (e mod s + d) div s" by (rule div_mult_self1) (use assms in simp)
  finally show "(e mod s + d) div s = (e + d) div s - e div s" by simp
  show "(e mod s + d) mod s = (e + d) mod s" by (simp add: mod_add_left_eq)
qed

lemma world_same: "p_world p = w \<Longrightarrow> p\<lparr>p_world := w\<rparr> = p"
  by auto

lemma emu_round_paced:
  assumes os: "emu_serves os en" and st: "\<not> g_resume st" and p: "p_world p = (r # rs, v)" "rnd_signals r = []"
    and keys: "KEY_ESC \<notin> set (rnd_keys r)" "length (rnd_keys r) + 1 \<le> n"
    and l: "chip_inv (el_chip l)" "length (el_held l) = KEY_COUNT"
    and e: "el_step_acc l = e mod STEP_NS" "el_timer_acc l = e mod TIMER_NS"
    and e1: "e1 = e + max 0 (min (rnd_now r - el_prev l) 250000000)"
  shows "\<exists>ch1 c2 held. press_keys (rnd_now r) (rnd_keys r) (el_chip l, el_held l) = Some ch1
    \<and> release_stale_keys (rnd_now r) (fst ch1) (snd ch1) = Some (c2, held)
    \<and> (case steps_ok (nat (e1 div STEP_NS - e div STEP_NS)) c2 of
         None \<Rightarrow> \<exists>q. emu_round os en n st l p = Some (Inl 1, st, q)
       | Some c3 \<Rightarrow> \<exists>q b. emu_round os en n st l p
           = Some (Inr \<lparr>el_chip = ((cpu_tick_timers ^^ nat (e1 div TIMER_NS - e div TIMER_NS)) c3)\<lparr>ch_fb_dirty := False\<rparr>,
                 el_held = held, el_prev = rnd_now r, el_step_acc = e1 mod STEP_NS, el_timer_acc = e1 mod TIMER_NS,
                 el_sounding = b\<rparr>, st, q)
             \<and> p_world q = (rs, v) \<and> length held = KEY_COUNT
             \<and> chip_inv (((cpu_tick_timers ^^ nat (e1 div TIMER_NS - e div TIMER_NS)) c3)\<lparr>ch_fb_dirty := False\<rparr>))"
proof -
  obtain m where m: "n = Suc m" using keys(2) by (cases n) auto
  have pos: "0 < STEP_NS" "0 < TIMER_NS" by (simp_all add: emu_consts)
  let ?d = "max 0 (min (rnd_now r - el_prev l) 250000000)"
  have d: "catch_up (rnd_now r - el_prev l) = ?d" by (simp add: catch_up_def Let_def emu_consts)
  have "r\<lparr>rnd_signals := []\<rparr> = r" using p(2) by (cases r) simp
  then have poll: "emu_poll os en (st, p) = (st, p)"
    using p by (simp add: emu_poll_def emu_simps [OF os] world_same)
  have resume: "emu_resume os en n st l p = Some (True, st, l, p)" using st by (simp add: emu_resume_def)
  have now: "now_ns en p = (rnd_now r, p)" using p(1) by (simp add: now_ns_def emu_simps [OF os] world_same)
  let ?p = "p\<lparr>p_world := (r\<lparr>rnd_keys := []\<rparr> # rs, v)\<rparr>"
  obtain c1 held1 where dr: "drain_input os n (rnd_now r) (el_chip l) (el_held l) p = Some (False, c1, held1, ?p)"
    "press_keys (rnd_now r) (rnd_keys r) (el_chip l, el_held l) = Some (c1, held1)" "chip_inv c1" "length held1 = KEY_COUNT"
    using drain_input_press [OF os l(2,1) p(1) refl keys(2,1)] by blast
  obtain c2 held2 where rel: "release_stale_keys (rnd_now r) c1 held1 = Some (c2, held2)" "chip_inv c2" "length held2 = KEY_COUNT"
    using release_loop_total [of "[0..<KEY_COUNT]" held1 c1 "rnd_now r"] dr(3,4) by (auto simp: release_stale_keys_def)
  have acc: "0 \<le> e mod STEP_NS + ?d" using pos by simp
  note carry = div_carry [OF pos(1), of e ?d, folded e1] div_carry [OF pos(2), of e ?d, folded e1]
  note steps = step_loop_steps [OF acc rel(2), unfolded carry]
  have tacc: "0 \<le> e mod TIMER_NS + ?d" using pos by simp
  note ticks = timer_loop_ticks [OF tacc, unfolded carry]
  show ?thesis
  proof (cases "steps_ok (nat (e1 div STEP_NS - e div STEP_NS)) c2")
    case None
    then obtain err a c3 where sl: "step_loop (e mod STEP_NS + ?d) c2 = Some (err, a, c3)" "err \<noteq> NSH_OK" using steps by auto
    obtain q where "term_exit_raw os n ?p = Some q" using exit_raw_returns [OF os] m by blast
    then have "emu_round os en n st l p = Some (Inl 1, st, report_step_error c3 err q)"
      using dr(1) rel(1) sl by (simp add: emu_round_def poll resume now d e(1))
    with None dr(2) rel(1) show ?thesis by auto
  next
    case (Some c3)
    then have sl: "step_loop (e mod STEP_NS + ?d) c2 = Some (NSH_OK, e1 mod STEP_NS, c3)" "chip_inv c3" using steps by auto
    let ?c4 = "(cpu_tick_timers ^^ nat (e1 div TIMER_NS - e div TIMER_NS)) c3"
    obtain b q4 where be: "beep_once ?c4 (el_sounding l) ?p = (b, q4)" by (metis surj_pair)
    then have w4: "p_world q4 = p_world ?p" by (auto simp: beep_once_def split: if_splits)
    obtain c5 q5 where pa: "paint ?c4 q4 = (c5, q5)" by (metis surj_pair)
    then have c5: "c5 = ?c4\<lparr>ch_fb_dirty := False\<rparr>" using paint_clean [of ?c4 q4] by simp
    have w5: "p_world q5 = p_world q4" using pa by (auto simp: paint_def split: if_splits)
    have "emu_round os en n st l p = Some (Inr \<lparr>el_chip = ?c4\<lparr>ch_fb_dirty := False\<rparr>, el_held = held2, el_prev = rnd_now r,
        el_step_acc = e1 mod STEP_NS, el_timer_acc = e1 mod TIMER_NS, el_sounding = b\<rparr>, st, idle en q5)"
      using dr(1) rel(1) sl(1) be pa c5 by (simp add: emu_round_def poll resume now d e ticks)
    moreover have "p_world (idle en q5) = (rs, v)" by (simp add: idle_def w5 w4 emu_simps [OF os])
    moreover have "chip_inv (?c4\<lparr>ch_fb_dirty := False\<rparr>)" using ticks_inv [OF sl(2)] by simp
    ultimately show ?thesis using Some dr(2) rel(1,3) by auto
  qed
qed

text \<open>C25: A session keeps time. Let no step fail, then after any number of rounds, whatever clock they read and whatever
  keys are typed, the machine has made exactly as many steps and ticks as fit into the time
  that has passed since the session began, each round's share in its order among the keys: what is left over at the end
  of a round is carried into the next one. Only of a round that comes more than a quarter of a second
  after the one before the rest is dropped, and a clock that goes back counts as one that stands.
  If a step fails, the session ends with status 1.\<close>

theorem emu_pace:
  assumes "emu_serves os en" "\<not> g_resume st" "p_world p = (rs @ rs1, v)"
    and "\<forall>r\<in>set rs. rnd_signals r = [] \<and> KEY_ESC \<notin> set (rnd_keys r) \<and> length (rnd_keys r) + 1 \<le> n"
    and "chip_inv (el_chip l)" "length (el_held l) = KEY_COUNT" "el_step_acc l = 0" "el_timer_acc l = 0"
  shows "case clocked 0 (el_prev l) (el_chip l, el_held l) rs of
      None \<Rightarrow> \<exists>q. emu_rounds os en n (length rs) st l p = Some (Inl 1, st, q)
    | Some c \<Rightarrow> \<exists>l1 q. emu_rounds os en n (length rs) st l p = Some (Inr l1, st, q) \<and> el_chip l1 = c"
proof -
  have "case clocked e (el_prev l) (el_chip l, el_held l) rs of
      None \<Rightarrow> \<exists>q. emu_rounds os en n (length rs) st l p = Some (Inl 1, st, q)
    | Some c \<Rightarrow> \<exists>l1 q. emu_rounds os en n (length rs) st l p = Some (Inr l1, st, q) \<and> el_chip l1 = c"
    if "p_world p = (rs @ rs1, v)"
      "\<forall>r\<in>set rs. rnd_signals r = [] \<and> KEY_ESC \<notin> set (rnd_keys r) \<and> length (rnd_keys r) + 1 \<le> n"
      "chip_inv (el_chip l)" "length (el_held l) = KEY_COUNT" "el_step_acc l = e mod STEP_NS" "el_timer_acc l = e mod TIMER_NS"
    for e l p
    using that
  proof (induction rs arbitrary: e l p)
    case (Cons r rs)
    define e1 where "e1 = e + max 0 (min (rnd_now r - el_prev l) 250000000)"
    have pw: "p_world p = (r # (rs @ rs1), v)" using Cons.prems(1) by simp
    have r: "rnd_signals r = []" "KEY_ESC \<notin> set (rnd_keys r)" "length (rnd_keys r) + 1 \<le> n" using Cons.prems(2) by simp_all
    obtain ch1 c2 held where k: "press_keys (rnd_now r) (rnd_keys r) (el_chip l, el_held l) = Some ch1"
      "release_stale_keys (rnd_now r) (fst ch1) (snd ch1) = Some (c2, held)"
      and R: "case steps_ok (nat (e1 div STEP_NS - e div STEP_NS)) c2 of
         None \<Rightarrow> \<exists>q. emu_round os en n st l p = Some (Inl 1, st, q)
       | Some c3 \<Rightarrow> \<exists>q b. emu_round os en n st l p
           = Some (Inr \<lparr>el_chip = ((cpu_tick_timers ^^ nat (e1 div TIMER_NS - e div TIMER_NS)) c3)\<lparr>ch_fb_dirty := False\<rparr>,
                 el_held = held, el_prev = rnd_now r, el_step_acc = e1 mod STEP_NS, el_timer_acc = e1 mod TIMER_NS,
                 el_sounding = b\<rparr>, st, q)
             \<and> p_world q = (rs @ rs1, v) \<and> length held = KEY_COUNT
             \<and> chip_inv (((cpu_tick_timers ^^ nat (e1 div TIMER_NS - e div TIMER_NS)) c3)\<lparr>ch_fb_dirty := False\<rparr>)"
      using emu_round_paced [OF assms(1,2) pw r Cons.prems(3-6) e1_def] by blast
    show ?case
    proof (cases "steps_ok (nat (e1 div STEP_NS - e div STEP_NS)) c2")
      case None
      then show ?thesis using R k by (auto simp: e1_def)
    next
      case (Some c3)
      let ?c = "((cpu_tick_timers ^^ nat (e1 div TIMER_NS - e div TIMER_NS)) c3)\<lparr>ch_fb_dirty := False\<rparr>"
      obtain q b where q: "emu_round os en n st l p = Some (Inr \<lparr>el_chip = ?c, el_held = held, el_prev = rnd_now r,
          el_step_acc = e1 mod STEP_NS, el_timer_acc = e1 mod TIMER_NS, el_sounding = b\<rparr>, st, q)"
        "p_world q = (rs @ rs1, v)" "length held = KEY_COUNT" "chip_inv ?c" using R Some by auto
      let ?l = "\<lparr>el_chip = ?c, el_held = held, el_prev = rnd_now r, el_step_acc = e1 mod STEP_NS,
        el_timer_acc = e1 mod TIMER_NS, el_sounding = b\<rparr>"
      have cl: "clocked e (el_prev l) (el_chip l, el_held l) (r # rs) = clocked e1 (rnd_now r) (?c, held) rs"
        using k Some by (simp add: e1_def Let_def)
      have er: "emu_rounds os en n (length (r # rs)) st l p = emu_rounds os en n (length rs) st ?l q" using q(1) by simp
      show ?thesis unfolding cl er using Cons.IH [OF q(2), of ?l e1] Cons.prems(2) q(3,4) by simp
    qed
  qed simp
  from this [of p l 0] assms(3-8) show ?thesis by simp
qed


text \<open>Half a step of time in each of two rounds: one step.\<close>

definition set_v0 :: Chip8 where
  "set_v0 = cpu_init\<lparr>ch_mem := (ch_mem cpu_init)[0x200 := 0x60, 0x201 := 7]\<rparr>"

lemma emu_pace_witness:
  "\<exists>l1 q. emu_rounds arcade_os (arcade_env []) 9 2 idle_st
      \<lparr>el_chip = set_v0, el_held = replicate KEY_COUNT 0, el_prev = 0, el_step_acc = 0, el_timer_acc = 0, el_sounding = False\<rparr>
      (booted ([\<lparr>rnd_signals = [], rnd_now = 1000000, rnd_keys = ''q''\<rparr>, \<lparr>rnd_signals = [], rnd_now = 2000000, rnd_keys = []\<rparr>], 0))
    = Some (Inr l1, idle_st, q) \<and> ch_pc (el_chip l1) = 0x202"
proof -
  let ?rs = "[\<lparr>rnd_signals = [], rnd_now = 1000000, rnd_keys = ''q''\<rparr>, \<lparr>rnd_signals = [], rnd_now = 2000000, rnd_keys = []\<rparr>]"
  let ?l = "\<lparr>el_chip = set_v0, el_held = replicate KEY_COUNT 0, el_prev = 0, el_step_acc = 0, el_timer_acc = 0, el_sounding = False\<rparr>"
  have c: "map_option ch_pc (clocked 0 (el_prev ?l) (el_chip ?l, el_held ?l) ?rs) = Some 0x202" by code_simp
  have i: "chip_inv set_v0" using init_inv by (simp add: chip_inv_def set_v0_def)
  have w: "p_world (booted (?rs, 0)) = (?rs @ [], 0)" by (simp add: booted_def)
  have "case clocked 0 (el_prev ?l) (el_chip ?l, el_held ?l) ?rs of
      None \<Rightarrow> \<exists>q. emu_rounds arcade_os (arcade_env []) 9 (length ?rs) idle_st ?l (booted (?rs, 0)) = Some (Inl 1, idle_st, q)
    | Some c \<Rightarrow> \<exists>l1 q. emu_rounds arcade_os (arcade_env []) 9 (length ?rs) idle_st ?l (booted (?rs, 0)) = Some (Inr l1, idle_st, q) \<and> el_chip l1 = c"
    by (rule emu_pace [OF arcade_serves _ w]) (simp_all add: idle_st_def KEY_ESC_def i)
  with c show ?thesis by (auto simp: numeral_2_eq_2)
qed

end
