(* ===== verification/Spec2Isabelle.thy ===== *)
theory Spec2Isabelle
  imports Util History Jobs Lexer Ast Parser Unparse Cpu Display Netmon Exec_Props Eval_Props Run_Props Inspect Alloc_Props Emu_Props Monitor_Props Own_Props Redir_Syntax Emu_Pace
begin

text \<open>
  A verification development for nullsh, a shell in C with four built-in tools: a heap inspector
  over its own allocator, an ELF reader, a CHIP-8 emulator and a packet monitor. File and function
  names below are those of \<open>src/\<close>; a definition has the name of the function it models.

  \<^bold>\<open>The parts and how they interact.\<close> \<open>main.c\<close> sets the process up and hands it to \<open>run.c\<close>, which
  reads lines (\<open>util/line.c\<close>, or the editor \<open>shell/edit.c\<close> on a terminal), scans them
  (\<open>shell/lexer.c\<close>), parses them (\<open>shell/parser.c\<close> into the trees of \<open>shell/ast.h\<close>) and gives each
  program to the evaluator (\<open>shell/eval.c\<close>). That one walks the tree, expands words
  (\<open>shell/expand.c\<close>), calls functions (\<open>shell/func.c\<close>) and runs pipelines through \<open>shell/exec.c\<close>,
  with \<open>redirect.c\<close>, \<open>spawn.c\<close>, \<open>signals.c\<close>, \<open>builtin.c\<close> and \<open>jobs.c\<close>. The tools are builtins:
  \<open>inspect/\<close>, \<open>emu/\<close>, \<open>netmon/\<close> and \<open>alloc/heap_builtin.c\<close>. All memory of the program comes from
  \<open>alloc/alloc.c\<close>, over one of the two strategies \<open>firstfit.c\<close> and \<open>buddy.c\<close>.

  \<^bold>\<open>Conventions.\<close> A struct is a record with the fields in the order of the C text, an enum a
  datatype, a function that changes a struct returns the changed one. Byte strings are \<open>string\<close>;
  a C string has no NUL in it. Stores into growing buffers, and reads and writes at
  offsets that are computed or come from input (\<open>Str\<close>, \<open>Vec\<close>, the line editor, packets, ELF images, the
  CHIP-8 machine, the heap) go through the checked operations of \<open>Prelude\<close> and yield \<open>None\<close> outside
  the bounds, so there \<open>None\<close> is not an error of the program but an access it must not make (or, where
  a fuel is an argument, a fuel that did not suffice). Plain list access is used where the same
  function has tested or found the index (arguments after a test of \<open>argc\<close>, entries of the job and
  function tables, descriptors of a pipeline by stage, pixels by row and column), and in \<open>History\<close>, where the
  invariants \<open>hist_ok\<close> and \<open>linebuf_ok\<close>, which every operation preserves, keep ring and line
  buffer in range. \<open>append_positional\<close> reads a parameter outside the argument vector as empty; the
  code relies on \<open>argc\<close> being its length. Errors of the program are values of \<open>NshError\<close>, sums, or branches of a result type.
  \<open>uint8_t\<close> to \<open>uint64_t\<close> are words where arithmetic can wrap (CHIP-8, packets, ELF, the headers
  of the heap); sizes and indices are naturals. A difference of two \<open>size_t\<close> is that of naturals:
  where the code subtracts, its tests or the invariants (a cursor is at most the length, a guarded
  block at least as long as its guards) make it exact, so the wrap-around of C does not occur. The operating system is not under
  \<open>src/\<close>: it is a record \<open>Os\<close> of answers over a world of arbitrary type, and every theorem about
  the shell holds for all its values, with named hypotheses where the code relies on more.

  \<^bold>\<open>Theories.\<close>
  \<^item> \<open>Prelude\<close>: error codes (\<open>util/error.c\<close>), checked array access, numbers as text, shared lemmas
    on lists and options, the collection \<open>nsh_inv\<close> of preservation facts.
  \<^item> \<open>Util\<close>: \<open>util/str.c\<close>, \<open>vec.c\<close>, \<open>line.c\<close>, with capacities and NUL terminators.
  \<^item> \<open>Lexer\<close>, \<open>Ast\<close>, \<open>Parser\<close>, \<open>Unparse\<close>, \<open>Redir_Syntax\<close>: the front end. Well-formedness of tokens and trees,
    termination with a verdict for every input, finality of syntax errors, and that every
    well-formed tree is read back from its tokens and from its text. A redirection operator at the end of a
    line asks for a continuation that cannot succeed. The parser's recursion runs
    on a fuel of one more than the number of tokens; \<open>parser_parse_program_returns\<close> shows that it suffices.
  \<^item> \<open>History\<close>, \<open>Jobs\<close>, \<open>Func\<close>, \<open>Expand\<close>: the tables of the shell and word expansion. The ring
    holds the last lines, a job is done when all its processes have ended, the function table refines a finite
    map, expansion equals the value of the word's pieces. These are functions without fuel.
  \<^item> \<open>Own\<close>, \<open>Own_Props\<close>: the blocks of trees, tokens and of the function table, and the functions that
    copy and free them, over a set of live blocks. A copy owns new blocks only and is freed
    without a leak or a double free; a body that may still run is never freed.
  \<^item> \<open>Proc\<close>: the state of the process (\<open>shell.h\<close> and the statics of the other files), the
    system's answers \<open>Os\<close>, \<open>signals.c\<close> and \<open>spawn.c\<close>. \<open>Term\<close>, \<open>Edit\<close>, \<open>Edit_Props\<close>: \<open>emu/term.c\<close>
    and the line editor, which refines an editor over two halves of a line.
  \<^item> \<open>Builtin\<close>, \<open>Redirect\<close>, \<open>Exec\<close>, \<open>Exec_Props\<close>: builtins, redirections on a descriptor table,
    pipelines: which descriptors a stage sees, where output goes, what a \<open>PATH\<close> search takes,
    and a fault of job control: a stopped pipeline that never gets done.
  \<^item> \<open>Eval\<close>, \<open>Eval_Term\<close>, \<open>Eval_Inv\<close>, \<open>Eval_Props\<close>: the evaluator on a fuel. A larger fuel never
    changes a result; every program without \<open>while\<close> has a sufficient fuel, recursion included
    (the depth of calls is bounded by the code); an \<open>if\<close> runs its first branch that holds; a run restores depths, parameters, descriptors
    and the disposition of \<open>SIGINT\<close>.
  \<^item> \<open>Run\<close>, \<open>Run_Props\<close>: \<open>run.c\<close> and \<open>main.c\<close>; a stream runs program by program, in order,
    wherever its line ends fall.
  \<^item> \<open>Cpu\<close>, \<open>Display\<close>, \<open>Emu\<close>, \<open>Emu_Props\<close>, \<open>Emu_Pace\<close>: the CHIP-8 machine at its machine widths, its screen as text, and
    \<open>emu.c\<close> around it: headless runs print the screen the steps leave, keys are let go after a tenth
    of a second, the rounds of a session together take as many steps as fit into the time that has passed, and a session
    gives the terminal and the signals back however it goes (on \<open>Term\<close>).
  \<^item> \<open>Netmon\<close>, \<open>Monitor\<close>, \<open>Monitor_Props\<close>: decoding, filtering and printing frames (\<open>netmon/\<close>), and the builtin with
    its socket, its borrowed \<open>SIGINT\<close> and its counts. \<open>Tools\<close> holds what both builtins share.
  \<^item> \<open>Elf\<close>, \<open>Elf_Props\<close>, \<open>Inspect\<close>: \<open>elf_open\<close> never reads outside the file, accepts exactly the
    files that a description in natural numbers calls well formed and returns their contents;
    the builtin prints the views that were asked for.
  \<^item> \<open>Arena\<close>, \<open>Firstfit\<close>, \<open>Buddy\<close>: a memory of bytes and the two strategies on it. \<open>Strategy\<close> is
    their contract as the locale \<open>alloc_strategy\<close> (a heap is a map from blocks to sizes, which
    allocation and release update). \<open>Firstfit_Props\<close> and \<open>Buddy_Props\<close> (over \<open>Buddy_Heap\<close>)
    interpret it as \<open>ff\<close> and \<open>bd\<close>. \<open>Alloc\<close> models \<open>alloc.c\<close> with its guard bytes; \<open>Alloc_Guard\<close>
    proves it inside the locale, \<open>Alloc_Heap\<close> for the strategy the heap was built with (\<open>sl\<close>),
    and \<open>Alloc_Props\<close> shows that every well-behaved client sees plain memory, and that a write
    past a block is caught. The walks over blocks and free lists are partial functions
    with None also for a walk that does not end, which the interpretations exclude.

  \<^bold>\<open>Fuel.\<close> Retry loops after \<open>EINTR\<close> may run for ever if the system keeps interrupting; they and
  what calls them take a fuel, and hypotheses about the system name how much is needed. The
  evaluator's fuel bounds the depth of its recursion and the rounds of its loops. Everything
  else is total, apart from the allocator's walks.

  \<^bold>\<open>Not modelled.\<close>
  \<^item> The release of strings and argument vectors, and the frees on the error paths of scanner and
    parser: there, data are values without an owner (trees and the function table are in \<open>Own\<close>).
  \<^item> \<open>strerror\<close>, the kernel, the terminal's line buffering: answers of \<open>Os\<close> or left out.
  \<^item> A failing \<open>sigaction\<close> in \<open>signals.c\<close>, which aborts the process.
  \<^item> Signals in the middle of a round: in \<open>emu.c\<close> and \<open>netmon.c\<close> they are delivered where the loop
    looks at its flag, once per round, in the shell where it looks at its own. So a \<open>SIGINT\<close> between
    the test of the flag and the \<open>recv\<close> of the packet monitor, which the code sees only after the
    next frame, is not modelled.
  \<^item> The shell calls the tools through the answer \<open>os_tool\<close>, which gives their output and status; that
    they leave the shell's state alone is what \<open>emu_session_restores\<close> and \<open>netmon_session\<close> show.
\<close>

end
